(* ===== verification/Prelude.thy ===== *)
theory Prelude
  imports Main "HOL-Library.Word" "HOL-Library.Monad_Syntax"
begin

text \<open>
  Shared vocabulary of the development.  A Rust computation that can panic (a failed
  \<open>assert!\<close> or \<open>debug_assert!\<close>, a slice index out of range, a division by zero) or that
  reads raw memory out of bounds is a value of \<open>'a option\<close>: \<open>None\<close> is the failure, and a
  theorem that a call returns \<open>Some\<close> is a theorem that it does not panic and stays in bounds.
  \<open>ofold\<close> is a \<open>for\<close> loop whose body may fail; \<open>ofold_inv\<close> is its total-correctness rule.
\<close>

type_synonym u8 = "8 word"
type_synonym u64 = "64 word"

named_theorems option_loops \<comment> \<open>unfolding rules for loops whose body may fail\<close>

section \<open>Checked access\<close>

definition nth_opt :: "'a list \<Rightarrow> nat \<Rightarrow> 'a option" where
  "nth_opt xs i = (if i < length xs then Some (xs ! i) else None)"

definition update_opt :: "'a list \<Rightarrow> nat \<Rightarrow> 'a \<Rightarrow> 'a list option" where
  "update_opt xs i x = (if i < length xs then Some (xs[i := x]) else None)"

definition guard_opt :: "bool \<Rightarrow> unit option" where
  "guard_opt b = (if b then Some () else None)"

lemma nth_opt_Some [simp]: "i < length xs \<Longrightarrow> nth_opt xs i = Some (xs ! i)"
  by (simp add: nth_opt_def)

lemma nth_opt_None [simp]: "length xs \<le> i \<Longrightarrow> nth_opt xs i = None"
  by (simp add: nth_opt_def)

lemma nth_opt_eq_Some_iff: "nth_opt xs i = Some x \<longleftrightarrow> i < length xs \<and> xs ! i = x"
  by (auto simp: nth_opt_def)

lemma update_opt_Some [simp]: "i < length xs \<Longrightarrow> update_opt xs i x = Some (xs[i := x])"
  by (simp add: update_opt_def)

lemma update_opt_None [simp]: "length xs \<le> i \<Longrightarrow> update_opt xs i x = None"
  by (simp add: update_opt_def)

lemma guard_opt_simps [simp]: "guard_opt True = Some ()" "guard_opt False = None"
  by (simp_all add: guard_opt_def)

lemma guard_opt_eq_Some_iff [simp]: "guard_opt b = Some u \<longleftrightarrow> b"
  by (simp add: guard_opt_def)

text \<open>\<open>xs[i] op= v\<close>: read, combine and write back one element.\<close>

definition modify_opt :: "('a \<Rightarrow> 'a) \<Rightarrow> 'a list \<Rightarrow> nat \<Rightarrow> 'a list option" where
  "modify_opt f xs i = (if i < length xs then Some (xs[i := f (xs ! i)]) else None)"

lemma modify_opt_Some [simp]: "i < length xs \<Longrightarrow> modify_opt f xs i = Some (xs[i := f (xs ! i)])"
  by (simp add: modify_opt_def)

lemma modify_opt_None [simp]: "length xs \<le> i \<Longrightarrow> modify_opt f xs i = None"
  by (simp add: modify_opt_def)

section \<open>Loops whose body may fail\<close>

fun ofold :: "('a \<Rightarrow> 's \<Rightarrow> 's option) \<Rightarrow> 'a list \<Rightarrow> 's \<Rightarrow> 's option" where
  "ofold f [] s = Some s"
| "ofold f (x # xs) s = Option.bind (f x s) (ofold f xs)"

lemma ofold_append [option_loops]:
  "ofold f (xs @ ys) s = Option.bind (ofold f xs s) (ofold f ys)"
  by (induction xs arbitrary: s) (auto split: Option.bind_splits)

lemma ofold_snoc [option_loops]: "ofold f (xs @ [x]) s = Option.bind (ofold f xs s) (f x)"
proof -
  have "(\<lambda>t. Option.bind (f x t) Some) = f x"
    by (rule ext) (simp add: bind_eq_Some_conv split: Option.bind_splits)
  then show ?thesis by (simp add: ofold_append fun_eq_iff split: Option.bind_splits)
qed

text \<open>The loop rule: an invariant indexed by the number of rounds already done.\<close>

lemma ofold_inv:
  assumes "P 0 s"
    and "\<And>k t. k < length xs \<Longrightarrow> P k t \<Longrightarrow> \<exists>t'. f (xs ! k) t = Some t' \<and> P (Suc k) t'"
  shows "\<exists>t. ofold f xs s = Some t \<and> P (length xs) t"
  using assms
proof (induction xs arbitrary: s P)
  case Nil
  then show ?case by simp
next
  case (Cons x xs)
  from Cons.prems(2) [of 0 s] Cons.prems(1)
  obtain s' where s': "f x s = Some s'" "P (Suc 0) s'" by auto
  have "\<exists>t. ofold f xs s' = Some t \<and> P (Suc (length xs)) t"
  proof (rule Cons.IH [where P = "\<lambda>k. P (Suc k)"])
    show "P (Suc 0) s'" by (fact s')
    show "\<exists>t'. f (xs ! k) t = Some t' \<and> P (Suc (Suc k)) t'" if "k < length xs" "P (Suc k) t" for k t
      using Cons.prems(2) [of "Suc k" t] that by simp
  qed
  with s' show ?case by simp
qed

lemma ofold_upt_inv:
  assumes "P 0 s"
    and "\<And>k t. k < n \<Longrightarrow> P k t \<Longrightarrow> \<exists>t'. f k t = Some t' \<and> P (Suc k) t'"
  shows "\<exists>t. ofold f [0..<n] s = Some t \<and> P n t"
  using ofold_inv [of P s "[0..<n]" f] assms by simp

text \<open>Two loops run in step, both to the end.\<close>

lemma ofold_upt_inv2:
  assumes "P 0 s t"
    and "\<And>k u v. k < n \<Longrightarrow> P k u v \<Longrightarrow> \<exists>u' v'. f k u = Some u' \<and> g k v = Some v' \<and> P (Suc k) u' v'"
  shows "\<exists>s' t'. ofold f [0..<n] s = Some s' \<and> ofold g [0..<n] t = Some t' \<and> P n s' t'"
  using assms
proof (induction n)
  case 0
  then show ?case by simp
next
  case (Suc n)
  then obtain u v where "ofold f [0..<n] s = Some u" "ofold g [0..<n] t = Some v" "P n u v"
    by (metis less_SucI)
  with Suc.prems(2) [of n u v] show ?case by (auto simp: ofold_snoc)
qed

lemma ofold_map [option_loops]: "ofold f (map g xs) s = ofold (\<lambda>x. f (g x)) xs s"
  by (induction xs arbitrary: s) (auto split: Option.bind_splits)

text \<open>A loop whose body never fails is a fold.\<close>

lemma ofold_total [option_loops]: "ofold (\<lambda>x s. Some (g x s)) xs s = Some (fold g xs s)"
  by (induction xs arbitrary: s) auto

text \<open>Two loops whose bodies simulate each other, failures included.\<close>

lemma ofold_sim:
  assumes "R s t" and "\<And>x u v. x \<in> set xs \<Longrightarrow> R u v \<Longrightarrow> rel_option R (f x u) (g x v)"
  shows "rel_option R (ofold f xs s) (ofold g xs t)"
  using assms
proof (induction xs arbitrary: s t)
  case Nil
  then show ?case by simp
next
  case (Cons x xs)
  then have "rel_option R (f x s) (g x t)" by simp
  then show ?case
    by (cases rule: option.rel_cases) (use Cons in auto)
qed

lemma ofold_cong_inv:
  assumes "\<And>x. x \<in> set xs \<Longrightarrow> f x = g x" and "xs = ys" and "s = t"
  shows "ofold f xs s = ofold g ys t"
  using assms(1) unfolding assms(2,3)
  by (induction ys arbitrary: t) (auto split: Option.bind_splits)

lemma ofold_None_iff_prefix:
  "ofold f (x # xs) s = None \<longleftrightarrow> f x s = None \<or> (\<exists>t. f x s = Some t \<and> ofold f xs t = None)"
  by (cases "f x s") auto

lemma fold_upt_inv:
  assumes "P 0 s" and "\<And>k t. k < n \<Longrightarrow> P k t \<Longrightarrow> P (Suc k) (g k t)"
  shows "P n (fold g [0..<n] s)"
  using assms by (induction n) auto

text \<open>\<open>iter().map(f).collect()\<close> where \<open>f\<close> may fail.\<close>

definition omap :: "('a \<Rightarrow> 'b option) \<Rightarrow> 'a list \<Rightarrow> 'b list option" where
  "omap f xs = ofold (\<lambda>x ys. map_option (\<lambda>y. ys @ [y]) (f x)) xs []"

lemma omap_total: "(\<And>x. x \<in> set xs \<Longrightarrow> f x = Some (g x)) \<Longrightarrow> omap f xs = Some (map g xs)"
proof -
  assume a: "\<And>x. x \<in> set xs \<Longrightarrow> f x = Some (g x)"
  have "ofold (\<lambda>x ys. map_option (\<lambda>y. ys @ [y]) (f x)) xs zs = Some (zs @ map g xs)" for zs
    using a by (induction xs arbitrary: zs) auto
  then show ?thesis by (simp add: omap_def)
qed

lemma omap_run:
  assumes "\<And>x. x \<in> set xs \<Longrightarrow> \<exists>y. f x = Some y \<and> R x y"
  shows "\<exists>ys. omap f xs = Some ys \<and> list_all2 R xs ys"
proof -
  have "\<exists>ys. ofold (\<lambda>x ys. map_option (\<lambda>y. ys @ [y]) (f x)) xs acc = Some (acc @ ys) \<and> list_all2 R xs ys" for acc
    using assms
  proof (induction xs arbitrary: acc)
    case (Cons x xs)
    then obtain y where y: "f x = Some y" "R x y" by auto
    with Cons.IH [of "acc @ [y]"] Cons.prems obtain ys where
      "ofold (\<lambda>x ys. map_option (\<lambda>y. ys @ [y]) (f x)) xs (acc @ [y]) = Some ((acc @ [y]) @ ys)" "list_all2 R xs ys" by auto
    with y show ?case by (intro exI [of _ "y # ys"]) simp
  qed simp
  from this [of "[]"] show ?thesis by (simp add: omap_def)
qed

text \<open>A loop over a recursive call is monotone in the call, so that recursion through a loop can be a
  \<open>partial_function\<close>.\<close>

lemma ofold_mono [partial_function_mono]:
  assumes "\<And>x s. mono_option (\<lambda>rec. body rec x s)"
  shows "mono_option (\<lambda>rec. ofold (body rec) xs s)"
proof (induction xs arbitrary: s)
  case Nil
  show ?case by (simp add: option.const_mono)
next
  case (Cons x xs)
  show ?case unfolding ofold.simps by (rule bind_mono [OF assms Cons.IH])
qed

section \<open>Words\<close>

lemma bit_shifted_one [simp]:
  "bit (2 ^ k :: 'a::len word) i \<longleftrightarrow> i = k \<and> k < LENGTH('a)"
  by (auto simp: bit_exp_iff)

lemma word_nonzero_iff_bit: "(w :: 'a::len word) \<noteq> 0 \<longleftrightarrow> (\<exists>i < LENGTH('a). bit w i)"
  by (metis bit_0_eq bit_imp_le_length bit_word_eqI bot_apply bot_bool_def)

lemma div_mod_less: "i < n * k \<Longrightarrow> i div k < (n :: nat)"
  by (simp add: less_mult_imp_div_less)

section \<open>Windows of a buffer\<close>

text \<open>Reading and overwriting the elements \<open>a\<close> up to \<open>a + n\<close> of a list, as the code does through
  a pointer into a buffer.\<close>

definition window :: "nat \<Rightarrow> nat \<Rightarrow> 'a list \<Rightarrow> 'a list" where
  "window a n ys = take n (drop a ys)"

definition splice :: "nat \<Rightarrow> 'a list \<Rightarrow> 'a list \<Rightarrow> 'a list" where
  "splice a xs ys = take a ys @ xs @ drop (a + length xs) ys"

lemma length_window [simp]: "a + n \<le> length ys \<Longrightarrow> length (window a n ys) = n"
  by (simp add: window_def)

lemma nth_window: "k < n \<Longrightarrow> a + n \<le> length ys \<Longrightarrow> window a n ys ! k = ys ! (a + k)"
  by (simp add: window_def)

lemma length_splice [simp]: "a + length xs \<le> length ys \<Longrightarrow> length (splice a xs ys) = length ys"
  by (simp add: splice_def)

lemma nth_splice: "a + length xs \<le> length ys \<Longrightarrow> i < length ys \<Longrightarrow>
    splice a xs ys ! i = (if a \<le> i \<and> i < a + length xs then xs ! (i - a) else ys ! i)"
  by (auto simp: splice_def nth_append)

lemma window_splice_same: "a + length xs \<le> length ys \<Longrightarrow> window a (length xs) (splice a xs ys) = xs"
  by (simp add: window_def splice_def)

lemma window_splice_other:
  assumes "a + length xs \<le> length ys" "b + n \<le> length ys" "b + n \<le> a \<or> a + length xs \<le> b"
  shows "window b n (splice a xs ys) = window b n ys"
proof (rule nth_equalityI)
  fix i assume "i < length (window b n (splice a xs ys))"
  then have "i < n" using assms by (simp add: window_def)
  with assms show "window b n (splice a xs ys) ! i = window b n ys ! i"
    by (auto simp: nth_window nth_splice)
qed (use assms in simp)

lemma splice_window: "a + n \<le> length ys \<Longrightarrow> splice a (window a n ys) ys = ys"
  by (rule nth_equalityI) (auto simp: nth_splice nth_window)

lemma update_splice:
  assumes "c < n" "a + n \<le> length ys"
  shows "ys[a + c := x] = splice a ((window a n ys)[c := x]) ys"
  using assms by (intro nth_equalityI) (auto simp: nth_splice nth_window nth_list_update)

lemma set_splice: "set (splice a xs ys) \<subseteq> set xs \<union> set ys"
  by (auto simp: splice_def dest: in_set_takeD in_set_dropD)

lemma set_window: "set (window a n ys) \<subseteq> set ys"
  by (auto simp: window_def dest: in_set_takeD in_set_dropD)

lemma splice_splice: "a + length xs \<le> length ys \<Longrightarrow> length xs = length zs \<Longrightarrow>
    splice a zs (splice a xs ys) = splice a zs ys"
  by (simp add: splice_def)

end
