(* ===== verification/Bit_Store.thy ===== *)
theory Bit_Store
  imports Prelude
begin

text \<open>
  The contract of the traits \<open>Bitwise\<close> and \<open>BitwiseMut\<close> of binar, which the packed bit
  vector of the decoding runtime shares: a store of \<open>len s\<close> bits, read by \<open>idx\<close> and written
  by \<open>assign\<close> and \<open>negate\<close>, each of which may only be called in range.  \<open>bits s i\<close> is the
  mathematical value of bit \<open>i\<close>.  The client lemmas are about the loops the code runs over
  such a store: a run of conditional writes, and a run of toggles.
\<close>

locale bit_store =
  fixes invar :: "'s \<Rightarrow> bool"
    and len :: "'s \<Rightarrow> nat"
    and bits :: "'s \<Rightarrow> nat \<Rightarrow> bool"
    and idx :: "'s \<Rightarrow> nat \<Rightarrow> bool option"
    and assign :: "nat \<Rightarrow> bool \<Rightarrow> 's \<Rightarrow> 's option"
    and negate :: "nat \<Rightarrow> 's \<Rightarrow> 's option"
  assumes idx: "invar s \<Longrightarrow> i < len s \<Longrightarrow> idx s i = Some (bits s i)"
    and assign: "invar s \<Longrightarrow> i < len s \<Longrightarrow>
      \<exists>t. assign i b s = Some t \<and> invar t \<and> len t = len s \<and> bits t = (bits s)(i := b)"
    and negate: "invar s \<Longrightarrow> i < len s \<Longrightarrow>
      \<exists>t. negate i s = Some t \<and> invar t \<and> len t = len s \<and> bits t = (bits s)(i := \<not> bits s i)"
begin

text \<open>Writing \<open>h k\<close> to position \<open>a + k\<close> for every \<open>k < n\<close>: a copy into a window.\<close>

lemma assign_window:
  assumes "invar s" "a + n \<le> len s"
  shows "\<exists>t. ofold (\<lambda>k. assign (a + k) (h k)) [0..<n] s = Some t \<and> invar t \<and> len t = len s \<and>
    bits t = (\<lambda>i. if a \<le> i \<and> i < a + n then h (i - a) else bits s i)"
proof (rule ofold_upt_inv)
  show "invar s \<and> len s = len s \<and>
      bits s = (\<lambda>i. if a \<le> i \<and> i < a + 0 then h (i - a) else bits s i)"
    using assms(1) by auto
  fix k t
  assume k: "k < n" and t: "invar t \<and> len t = len s \<and>
      bits t = (\<lambda>i. if a \<le> i \<and> i < a + k then h (i - a) else bits s i)"
  then have "a + k < len t" using assms(2) by auto
  with assign [of t "a + k" "h k"] t obtain t' where t': "assign (a + k) (h k) t = Some t'"
      "invar t'" "len t' = len s" "bits t' = (bits t)(a + k := h k)"
    by auto
  show "\<exists>t'. assign (a + k) (h k) t = Some t' \<and> invar t' \<and> len t' = len s \<and>
      bits t' = (\<lambda>i. if a \<le> i \<and> i < a + Suc k then h (i - a) else bits s i)"
    using t t' by (auto simp: fun_eq_iff)
qed

text \<open>Setting the positions of a list: the code's way to build a store from a support.\<close>

lemma assign_true_list:
  assumes "invar s" "\<forall>x \<in> set xs. x < len s"
  shows "\<exists>t. ofold (\<lambda>x. assign x True) xs s = Some t \<and> invar t \<and> len t = len s \<and>
    bits t = (\<lambda>i. i \<in> set xs \<or> bits s i)"
  using assms
proof (induction xs arbitrary: s)
  case Nil
  then show ?case by simp
next
  case (Cons x xs)
  with assign [of s x True] obtain u where u: "assign x True s = Some u" "invar u"
      "len u = len s" "bits u = (bits s)(x := True)"
    by auto
  with Cons.IH [of u] Cons.prems(2) obtain t where
      "ofold (\<lambda>x. assign x True) xs u = Some t" "invar t" "len t = len s"
      "bits t = (\<lambda>i. i \<in> set xs \<or> bits u i)"
    by auto
  with u show ?case by (auto simp: fun_eq_iff)
qed

text \<open>Toggling the positions of a list without repetition: exclusive or with its support.\<close>

lemma negate_list:
  assumes "invar s" "\<forall>x \<in> set xs. x < len s" "distinct xs"
  shows "\<exists>t. ofold negate xs s = Some t \<and> invar t \<and> len t = len s \<and>
    bits t = (\<lambda>i. bits s i \<noteq> (i \<in> set xs))"
  using assms
proof (induction xs arbitrary: s)
  case Nil
  then show ?case by simp
next
  case (Cons x xs)
  with negate [of s x] obtain u where u: "negate x s = Some u" "invar u"
      "len u = len s" "bits u = (bits s)(x := \<not> bits s x)"
    by auto
  with Cons.IH [of u] Cons.prems obtain t where
      "ofold negate xs u = Some t" "invar t" "len t = len s"
      "bits t = (\<lambda>i. bits u i \<noteq> (i \<in> set xs))"
    by auto
  with u Cons.prems(3) show ?case by (auto simp: fun_eq_iff)
qed

text \<open>Writing only where the source bit is set, into a store that is clear there.\<close>

lemma assign_if_window:
  assumes "invar s" "a + n \<le> len s" "\<And>k. k < n \<Longrightarrow> \<not> bits s (a + k)"
  shows "\<exists>t. ofold (\<lambda>k u. if h k then assign (a + k) True u else Some u) [0..<n] s = Some t \<and>
    invar t \<and> len t = len s \<and>
    bits t = (\<lambda>i. if a \<le> i \<and> i < a + n then h (i - a) else bits s i)"
proof (rule ofold_upt_inv)
  show "invar s \<and> len s = len s \<and>
      bits s = (\<lambda>i. if a \<le> i \<and> i < a + 0 then h (i - a) else bits s i)"
    using assms(1) by auto
  fix k t
  assume k: "k < n" and t: "invar t \<and> len t = len s \<and>
      bits t = (\<lambda>i. if a \<le> i \<and> i < a + k then h (i - a) else bits s i)"
  then have ak: "a + k < len t" using assms(2) by auto
  have clear: "\<not> bits t (a + k)" using t assms(3) [OF k] by simp
  show "\<exists>t'. (if h k then assign (a + k) True t else Some t) = Some t' \<and>
      invar t' \<and> len t' = len s \<and>
      bits t' = (\<lambda>i. if a \<le> i \<and> i < a + Suc k then h (i - a) else bits s i)"
  proof (cases "h k")
    case True
    with assign [of t "a + k" True] t ak obtain t' where t': "assign (a + k) True t = Some t'"
        "invar t'" "len t' = len s" "bits t' = (bits t)(a + k := True)"
      by auto
    with True t show ?thesis by (auto simp: fun_eq_iff)
  next
    case False
    with t clear show ?thesis
      by (auto simp: fun_eq_iff less_Suc_eq dest: le_antisym)
  qed
qed

end

end
