(* ===== verification/Packed_Bits.thy ===== *)
theory Packed_Bits
  imports Prelude Bit_Store
begin

unbundle bit_operations_syntax

text \<open>
  The packed bit vectors of the decoding runtime: \<open>deq/deq_runtime/src/misc/bit_vector.rs\<close>
  over the message \<open>util.BitVector\<close> (\<open>proto/deq.util.rs\<close>), and the two length validators of
  \<open>misc/validation.rs\<close>.  Bits are stored most significant bit first, as \<open>numpy.packbits\<close>
  does; the last byte may hold padding.  A \<open>debug_assert!\<close> is modelled as a check.
\<close>

record bit_vector =
  bv_size :: nat
  bv_data :: "u8 list"

section \<open>Definitions\<close>

definition bit_vector_len :: "nat \<Rightarrow> nat" where
  "bit_vector_len sz = (sz + 7) div 8"

definition byte_bit_index :: "nat \<Rightarrow> nat \<times> nat" where
  "byte_bit_index index = (index div 8, 7 - index mod 8)"

definition pack_bits :: "bool list \<Rightarrow> u8 list option" where
  "pack_bits arr =
     ofold (\<lambda>i packed. if arr ! i
                       then modify_opt (\<lambda>b. b OR push_bit (7 - i mod 8) 1) packed (i div 8)
                       else Some packed)
       [0..<length arr] (replicate (bit_vector_len (length arr)) 0)"

definition unpack_bits :: "u8 list \<Rightarrow> nat \<Rightarrow> bool list option" where
  "unpack_bits data sz = do {
     guard_opt (length data = bit_vector_len sz);
     guard_opt (sz \<le> length data * 8);
     ofold (\<lambda>i bits. do {
         b \<leftarrow> nth_opt data (i div 8);
         update_opt bits i (b AND push_bit (7 - i mod 8) 1 \<noteq> 0)
       }) [0..<sz] (replicate sz False) }"

definition xor_bits_in_place :: "bit_vector \<Rightarrow> bit_vector \<Rightarrow> bit_vector option" where
  "xor_bits_in_place a b = do {
     guard_opt (bv_size a = bv_size b);
     data \<leftarrow> ofold (\<lambda>i d. do { y \<leftarrow> nth_opt (bv_data b) i; modify_opt (\<lambda>x. x XOR y) d i })
               [0..<length (bv_data a)] (bv_data a);
     Some (a\<lparr>bv_data := data\<rparr>) }"

definition xor_bits :: "bit_vector \<Rightarrow> bit_vector \<Rightarrow> bit_vector option" where
  "xor_bits a b = xor_bits_in_place a b"

definition get_bit :: "bit_vector \<Rightarrow> nat \<Rightarrow> bool option" where
  "get_bit v index = do {
     guard_opt (index < bv_size v);
     let (byte_index, bit_index) = byte_bit_index index;
     b \<leftarrow> nth_opt (bv_data v) byte_index;
     Some (b AND push_bit bit_index 1 \<noteq> 0) }"

definition set_bit_at :: "nat \<Rightarrow> bool \<Rightarrow> bit_vector \<Rightarrow> bit_vector option" where
  "set_bit_at index val v = do {
     guard_opt (index < bv_size v);
     let (byte_index, bit_index) = byte_bit_index index;
     data \<leftarrow> (if val then modify_opt (\<lambda>b. b OR push_bit bit_index 1) (bv_data v) byte_index
              else modify_opt (\<lambda>b. b AND NOT (push_bit bit_index 1)) (bv_data v) byte_index);
     Some (v\<lparr>bv_data := data\<rparr>) }"

definition flip_bit_at :: "nat \<Rightarrow> bit_vector \<Rightarrow> bit_vector option" where
  "flip_bit_at index v = do {
     guard_opt (index < bv_size v);
     let (byte_index, bit_index) = byte_bit_index index;
     data \<leftarrow> modify_opt (\<lambda>b. b XOR push_bit bit_index 1) (bv_data v) byte_index;
     Some (v\<lparr>bv_data := data\<rparr>) }"

definition from_sparse_indices :: "nat \<Rightarrow> nat list \<Rightarrow> bit_vector option" where
  "from_sparse_indices sz indices = do {
     data \<leftarrow> ofold (\<lambda>idx d. let (byte_index, bit_index) = byte_bit_index idx
                         in modify_opt (\<lambda>b. b OR push_bit bit_index 1) d byte_index)
               indices (replicate (bit_vector_len sz) 0);
     Some \<lparr>bv_size = sz, bv_data = data\<rparr> }"

definition to_sparse_indices :: "bit_vector \<Rightarrow> nat list option" where
  "to_sparse_indices v =
     ofold (\<lambda>index indices. do { b \<leftarrow> get_bit v index;
                                 Some (if b then indices @ [index] else indices) })
       [0..<bv_size v] []"

definition validate_data_len :: "bit_vector \<Rightarrow> string + unit" where
  "validate_data_len v = (let required = bit_vector_len (bv_size v) in
     if length (bv_data v) \<noteq> required then Inl ''data length does not match required length''
     else Inr ())"

definition validate_outcomes :: "bit_vector \<Rightarrow> bit_vector option \<Rightarrow> nat \<Rightarrow> string + unit" where
  "validate_outcomes outcomes loss_mask expected_size =
     (case validate_data_len outcomes of Inl e \<Rightarrow> Inl e
      | Inr _ \<Rightarrow>
        if bv_size outcomes \<noteq> expected_size
        then Inl ''outcomes size does not match gadget measurement count''
        else (case loss_mask of None \<Rightarrow> Inr ()
              | Some m \<Rightarrow> (case validate_data_len m of Inl e \<Rightarrow> Inl e
                 | Inr _ \<Rightarrow> if bv_size outcomes \<noteq> bv_size m
                            then Inl ''loss_mask size does not match outcomes size''
                            else Inr ())))"

definition is_zero_bits :: "bit_vector \<Rightarrow> bool option" where
  "is_zero_bits v = do {
     guard_opt (validate_data_len v = Inr ());
     let full_bytes = bv_size v div 8;
     guard_opt (full_bytes \<le> length (bv_data v));
     if list_ex (\<lambda>b. b \<noteq> 0) (take full_bytes (bv_data v)) then Some False
     else (let remainder = bv_size v mod 8 in
           if remainder = 0 then Some True
           else do { b \<leftarrow> nth_opt (bv_data v) full_bytes; Some (drop_bit (8 - remainder) b = 0) }) }"

definition vec_resize :: "'a list \<Rightarrow> nat \<Rightarrow> 'a \<Rightarrow> 'a list" where
  "vec_resize xs n x = take n xs @ replicate (n - length xs) x"

definition extend_num_bits :: "bit_vector \<Rightarrow> nat \<Rightarrow> bit_vector" where
  "extend_num_bits v extending_length =
     (let n = bv_size v + extending_length in
      v\<lparr>bv_size := n, bv_data := vec_resize (bv_data v) (bit_vector_len n) 0\<rparr>)"

definition bit_vector_to_string :: "bit_vector \<Rightarrow> string option" where
  "bit_vector_to_string v =
     ofold (\<lambda>i s. do { b \<leftarrow> get_bit v i; Some (s @ (if b then ''1'' else ''0'')) }) [0..<bv_size v] []"

text \<open>\<open>bits\<close> is what \<open>bit_vec.iter()\<close> yields; \<open>zip\<close> stops at the shorter of it and \<open>length\<close>.\<close>

definition binar_bitvec_to_bit_vector :: "bool list \<Rightarrow> nat \<Rightarrow> bit_vector option" where
  "binar_bitvec_to_bit_vector bits len = do {
     data \<leftarrow> ofold (\<lambda>(index, val) d. let (byte_index, bit_index) = byte_bit_index index
                         in modify_opt (\<lambda>b. b OR push_bit bit_index (of_bool val)) d byte_index)
               (zip [0..<len] bits) (replicate (bit_vector_len len) 0);
     Some \<lparr>bv_size = len, bv_data = data\<rparr> }"

definition slice_bits :: "bit_vector \<Rightarrow> nat \<Rightarrow> nat \<Rightarrow> bit_vector option" where
  "slice_bits v start len = do {
     guard_opt (start + len \<le> bv_size v);
     ofold (\<lambda>i result. do { b \<leftarrow> get_bit v (start + i);
                            if b then set_bit_at i True result else Some result })
       [0..<len] \<lparr>bv_size = len, bv_data = replicate (bit_vector_len len) 0\<rparr> }"

definition append_bits :: "bit_vector \<Rightarrow> bit_vector \<Rightarrow> bit_vector option" where
  "append_bits v other =
     ofold (\<lambda>i u. do { b \<leftarrow> get_bit other i;
                       if b then set_bit_at (bv_size v + i) True u else Some u })
       [0..<bv_size other] (extend_num_bits v (bv_size other))"

section \<open>The value of a bit vector\<close>

definition bv_bit :: "bit_vector \<Rightarrow> nat \<Rightarrow> bool" where
  "bv_bit v i \<longleftrightarrow> i div 8 < length (bv_data v) \<and> bit (bv_data v ! (i div 8)) (7 - i mod 8)"

definition bv_wf :: "bit_vector \<Rightarrow> bool" where
  "bv_wf v \<longleftrightarrow> length (bv_data v) = bit_vector_len (bv_size v)"

definition bv_list :: "bit_vector \<Rightarrow> bool list" where
  "bv_list v = map (bv_bit v) [0..<bv_size v]"

definition padding_clear :: "bit_vector \<Rightarrow> bool" where
  "padding_clear v \<longleftrightarrow> (\<forall>i. bv_size v \<le> i \<longrightarrow> \<not> bv_bit v i)"

lemma byte_in_range: "i < n \<Longrightarrow> i div 8 < bit_vector_len n"
  by (simp add: bit_vector_len_def div_less_iff_less_mult)

lemma bv_wf_byte [simp]: "bv_wf v \<Longrightarrow> i < bv_size v \<Longrightarrow> i div 8 < length (bv_data v)"
  by (simp add: bv_wf_def byte_in_range)

lemma and_shifted_one: "(w AND 2 ^ k \<noteq> (0 :: 'a::len word)) \<longleftrightarrow> bit w k"
  by (simp add: and_exp_eq_0_iff_not_bit)

lemma same_byte_bit: "i div 8 = j div 8 \<Longrightarrow> 7 - i mod 8 = 7 - j mod 8 \<Longrightarrow> i = (j :: nat)"
proof -
  assume div: "i div 8 = j div 8" and sub: "7 - i mod 8 = 7 - j mod 8"
  have "i mod 8 < 8" "j mod 8 < 8" by simp_all
  with sub have "i mod 8 = j mod 8" by linarith
  with div show "i = j" by (metis div_mult_mod_eq)
qed

lemma bv_bit_position:
  assumes "k < 8"
  shows "bv_bit v (8 * j + (7 - k)) \<longleftrightarrow> j < length (bv_data v) \<and> bit (bv_data v ! j) k"
proof -
  obtain m where m: "m = 7 - k" by blast
  have m: "m = 7 - k" "m < 8" "k = 7 - m" using m assms by simp_all
  have "(8 * j + m) div 8 = j" "(8 * j + m) mod 8 = m" using m(2) by auto
  then show ?thesis unfolding m(1) [symmetric] by (simp add: bv_bit_def m(3) [symmetric])
qed

lemma bv_bit_update:
  assumes "i div 8 < length (bv_data v)"
    and "\<And>k. k < 8 \<Longrightarrow> bit b k \<longleftrightarrow>
           (if k = 7 - i mod 8 then val else bit (bv_data v ! (i div 8)) k)"
  shows "bv_bit (v\<lparr>bv_data := (bv_data v)[i div 8 := b]\<rparr>) = (bv_bit v)(i := val)"
proof
  fix j
  show "bv_bit (v\<lparr>bv_data := (bv_data v)[i div 8 := b]\<rparr>) j = ((bv_bit v)(i := val)) j"
  proof (cases "j div 8 = i div 8")
    case True
    have eq: "(7 - j mod 8 = 7 - i mod 8) = (j = i)" using True same_byte_bit by blast
    have "bv_bit (v\<lparr>bv_data := (bv_data v)[i div 8 := b]\<rparr>) j = bit b (7 - j mod 8)"
      using assms(1) True by (simp add: bv_bit_def)
    also have "\<dots> = (if j = i then val else bit (bv_data v ! (i div 8)) (7 - j mod 8))"
      using assms(2) [of "7 - j mod 8"] eq by simp
    finally show ?thesis using assms(1) True by (auto simp: bv_bit_def)
  next
    case False
    then have "j \<noteq> i" by auto
    with False show ?thesis by (auto simp: bv_bit_def)
  qed
qed

lemma get_bit_Some: "bv_wf v \<Longrightarrow> i < bv_size v \<Longrightarrow> get_bit v i = Some (bv_bit v i)"
  by (simp add: get_bit_def byte_bit_index_def and_shifted_one bv_bit_def)

lemma set_bit_at_Some:
  assumes "bv_wf v" "i < bv_size v"
  shows "\<exists>t. set_bit_at i b v = Some t \<and> bv_wf t \<and> bv_size t = bv_size v \<and> bv_bit t = (bv_bit v)(i := b)"
proof (cases b)
  case True
  have "bv_bit (v\<lparr>bv_data := (bv_data v)[i div 8 := bv_data v ! (i div 8) OR push_bit (7 - i mod 8) 1]\<rparr>)
      = (bv_bit v)(i := True)"
    by (rule bv_bit_update) (use assms in \<open>auto simp: bit_or_iff\<close>)
  with True assms show ?thesis by (simp add: set_bit_at_def byte_bit_index_def bv_wf_def byte_in_range)
next
  case False
  have "bv_bit (v\<lparr>bv_data := (bv_data v)[i div 8 := bv_data v ! (i div 8) AND NOT (push_bit (7 - i mod 8) 1)]\<rparr>)
      = (bv_bit v)(i := False)"
    by (rule bv_bit_update) (use assms in \<open>auto simp: bit_and_iff bit_not_iff\<close>)
  with False assms show ?thesis by (simp add: set_bit_at_def byte_bit_index_def bv_wf_def byte_in_range)
qed

lemma flip_bit_at_Some:
  assumes "bv_wf v" "i < bv_size v"
  shows "\<exists>t. flip_bit_at i v = Some t \<and> bv_wf t \<and> bv_size t = bv_size v \<and>
    bv_bit t = (bv_bit v)(i := \<not> bv_bit v i)"
proof -
  have "bv_bit (v\<lparr>bv_data := (bv_data v)[i div 8 := bv_data v ! (i div 8) XOR push_bit (7 - i mod 8) 1]\<rparr>)
      = (bv_bit v)(i := \<not> bv_bit v i)"
    by (rule bv_bit_update) (use assms in \<open>auto simp: bit_xor_iff bv_bit_def\<close>)
  with assms show ?thesis by (simp add: flip_bit_at_def byte_bit_index_def bv_wf_def byte_in_range)
qed

interpretation packed: bit_store bv_wf bv_size bv_bit get_bit set_bit_at flip_bit_at
  by unfold_locales (auto simp: get_bit_Some set_bit_at_Some flip_bit_at_Some)

section \<open>What the operations compute\<close>

definition bv_zeros :: "nat \<Rightarrow> bit_vector" where
  "bv_zeros n = \<lparr>bv_size = n, bv_data = replicate (bit_vector_len n) 0\<rparr>"

lemma bv_zeros_simps [simp]:
  "bv_wf (bv_zeros n)" "bv_size (bv_zeros n) = n" "bv_bit (bv_zeros n) = (\<lambda>_. False)"
  by (auto simp: bv_zeros_def bv_wf_def bv_bit_def fun_eq_iff)

lemma bv_list_eqI:
  "bv_size v = length xs \<Longrightarrow> (\<And>i. i < length xs \<Longrightarrow> bv_bit v i = xs ! i) \<Longrightarrow> bv_list v = xs"
  by (rule nth_equalityI) (auto simp: bv_list_def)

lemma length_bv_list [simp]: "length (bv_list v) = bv_size v"
  by (simp add: bv_list_def)

lemma nth_bv_list [simp]: "i < bv_size v \<Longrightarrow> bv_list v ! i = bv_bit v i"
  by (simp add: bv_list_def)

text \<open>The loops that write bytes directly do what the checked single-bit writes do.\<close>

lemma or_byte_is_set_bit:
  assumes "i < n" "bv_size v = n"
  shows "rel_option (\<lambda>d u. d = bv_data u \<and> bv_size u = n)
    (modify_opt (\<lambda>b. b OR push_bit (7 - i mod 8) 1) (bv_data v) (i div 8)) (set_bit_at i True v)"
  using assms by (cases "i div 8 < length (bv_data v)")
    (auto simp: set_bit_at_def byte_bit_index_def)

lemma pack_bits_as_store:
  "rel_option (\<lambda>d u. d = bv_data u \<and> bv_size u = length xs) (pack_bits xs)
     (ofold (\<lambda>k u. if xs ! k then set_bit_at (0 + k) True u else Some u) [0..<length xs]
        (bv_zeros (length xs)))"
  unfolding pack_bits_def
  by (rule ofold_sim) (use or_byte_is_set_bit in \<open>auto simp: bv_zeros_def\<close>)

lemma pack_bits_Some:
  "\<exists>u. pack_bits xs = Some (bv_data u) \<and> bv_wf u \<and> bv_size u = length xs \<and>
       bv_bit u = (\<lambda>i. i < length xs \<and> xs ! i)"
proof -
  obtain t where t: "ofold (\<lambda>k u. if xs ! k then set_bit_at (0 + k) True u else Some u) [0..<length xs]
        (bv_zeros (length xs)) = Some t" and inv: "bv_wf t" "bv_size t = length xs"
      "bv_bit t = (\<lambda>i. if 0 \<le> i \<and> i < 0 + length xs then xs ! (i - 0) else False)"
    using packed.assign_if_window [of "bv_zeros (length xs)" 0 "length xs" "\<lambda>k. xs ! k"] by auto
  have "rel_option (\<lambda>d u. d = bv_data u \<and> bv_size u = length xs) (pack_bits xs) (Some t)"
    using pack_bits_as_store [of xs] unfolding t .
  then have "pack_bits xs = Some (bv_data t)"
    by (cases "pack_bits xs") simp_all
  with inv show ?thesis by (intro exI [of _ t]) auto
qed

lemma binar_bitvec_to_bit_vector_run:
  "\<exists>u. binar_bitvec_to_bit_vector xs (length xs) = Some u \<and> bv_wf u \<and> bv_size u = length xs \<and> padding_clear u \<and>
       bv_list u = xs"
proof -
  let ?n = "length xs"
  let ?v = "\<lambda>d. \<lparr>bv_size = ?n, bv_data = d\<rparr>"
  let ?f = "\<lambda>i d. modify_opt (\<lambda>b. b OR push_bit (7 - i mod 8) (of_bool (xs ! i))) d (i div 8)"
  have "\<exists>d. ofold ?f [0..<?n] (replicate (bit_vector_len ?n) 0) = Some d \<and>
      (length d = bit_vector_len ?n \<and> bv_bit (?v d) = (\<lambda>i. i < ?n \<and> xs ! i))"
  proof (rule ofold_upt_inv [where P = "\<lambda>k d. length d = bit_vector_len ?n \<and> bv_bit (?v d) = (\<lambda>i. i < k \<and> xs ! i)"])
    show "length (replicate (bit_vector_len ?n) 0) = bit_vector_len ?n \<and>
        bv_bit (?v (replicate (bit_vector_len ?n) 0)) = (\<lambda>i. i < 0 \<and> xs ! i)"
      by (auto simp: bv_bit_def fun_eq_iff)
    fix k d assume k: "k < ?n" and d: "length d = bit_vector_len ?n \<and> bv_bit (?v d) = (\<lambda>i. i < k \<and> xs ! i)"
    let ?b = "d ! (k div 8) OR push_bit (7 - k mod 8) (of_bool (xs ! k))"
    have in_range: "k div 8 < length d" using byte_in_range [OF k] d by simp
    have "\<not> bit (d ! (k div 8)) (7 - k mod 8)"
      using conjunct2 [OF d, THEN fun_cong, of k] in_range by (simp add: bv_bit_def)
    then have "bv_bit (?v d\<lparr>bv_data := (bv_data (?v d))[k div 8 := ?b]\<rparr>) = (bv_bit (?v d))(k := xs ! k)"
      by (intro bv_bit_update) (use in_range in \<open>auto simp: bit_or_iff\<close>)
    then show "\<exists>t. ?f k d = Some t \<and> length t = bit_vector_len ?n \<and> bv_bit (?v t) = (\<lambda>i. i < Suc k \<and> xs ! i)"
      using in_range d by (auto simp: fun_eq_iff less_Suc_eq)
  qed
  then obtain d where d: "ofold ?f [0..<?n] (replicate (bit_vector_len ?n) 0) = Some d"
      "length d = bit_vector_len ?n" "bv_bit (?v d) = (\<lambda>i. i < ?n \<and> xs ! i)" by blast
  have "zip [0..<?n] xs = map (\<lambda>i. (i, xs ! i)) [0..<?n]" by (rule nth_equalityI) simp_all
  then have "binar_bitvec_to_bit_vector xs ?n = Some (?v d)"
    using d(1) by (simp add: binar_bitvec_to_bit_vector_def byte_bit_index_def ofold_map)
  moreover have "bv_list (?v d) = xs" by (rule bv_list_eqI) (simp_all add: d(3))
  ultimately show ?thesis using d(2,3) by (auto simp: bv_wf_def padding_clear_def)
qed

lemma unpack_bits_Some:
  assumes "bv_wf v"
  shows "unpack_bits (bv_data v) (bv_size v) = Some (bv_list v)"
proof -
  have "\<exists>t. ofold (\<lambda>i bits. do {
         b \<leftarrow> nth_opt (bv_data v) (i div 8);
         update_opt bits i (b AND push_bit (7 - i mod 8) 1 \<noteq> 0)
       }) [0..<bv_size v] (replicate (bv_size v) False) = Some t \<and>
       (length t = bv_size v \<and> (\<forall>i < bv_size v. t ! i = bv_bit v i))"
    by (rule ofold_upt_inv [where P = "\<lambda>k t. length t = bv_size v \<and> (\<forall>i < k. t ! i = bv_bit v i)"])
      (use assms in \<open>auto simp: and_shifted_one bv_bit_def nth_list_update less_Suc_eq\<close>)
  then obtain t where t: "ofold (\<lambda>i bits. do {
         b \<leftarrow> nth_opt (bv_data v) (i div 8);
         update_opt bits i (b AND push_bit (7 - i mod 8) 1 \<noteq> 0)
       }) [0..<bv_size v] (replicate (bv_size v) False) = Some t"
      "length t = bv_size v" "\<forall>i < bv_size v. t ! i = bv_bit v i" by blast
  have "bv_list v = t" by (rule bv_list_eqI) (use t in auto)
  moreover have "bv_size v \<le> bit_vector_len (bv_size v) * 8"
    unfolding bit_vector_len_def by linarith
  ultimately show ?thesis using t(1) assms by (simp add: unpack_bits_def bv_wf_def)
qed

text \<open>Packing a list of booleans never fails and unpacking the bytes with the list's length
  gives the list back.\<close>

theorem pack_unpack:
  "\<exists>d. pack_bits xs = Some d \<and> length d = bit_vector_len (length xs) \<and>
       unpack_bits d (length xs) = Some xs"
proof -
  obtain u where u: "pack_bits xs = Some (bv_data u)" "bv_wf u" "bv_size u = length xs"
      "bv_bit u = (\<lambda>i. i < length xs \<and> xs ! i)"
    using pack_bits_Some by blast
  have "bv_list u = xs" by (rule bv_list_eqI) (use u in auto)
  with unpack_bits_Some [OF u(2)] u show ?thesis by (auto simp: bv_wf_def)
qed

lemma get_bit_loop:
  assumes "bv_wf v" "\<And>i. i < n \<Longrightarrow> g i < bv_size v"
  shows "ofold (\<lambda>i u. Option.bind (get_bit v (g i)) (\<lambda>b. f b i u)) [0..<n] s =
    ofold (\<lambda>i. f (bv_bit v (g i)) i) [0..<n] s"
  by (rule ofold_cong_inv) (use assms in \<open>auto simp: fun_eq_iff get_bit_Some\<close>)

lemma slice_bits_Some:
  assumes "bv_wf v" "start + n \<le> bv_size v"
  shows "\<exists>t. slice_bits v start n = Some t \<and> bv_wf t \<and> bv_size t = n \<and>
    bv_bit t = (\<lambda>i. i < n \<and> bv_bit v (start + i))"
proof -
  have "slice_bits v start n =
      ofold (\<lambda>k u. if bv_bit v (start + k) then set_bit_at (0 + k) True u else Some u) [0..<n] (bv_zeros n)"
    using assms by (simp add: slice_bits_def bv_zeros_def get_bit_loop cong: if_cong)
  with packed.assign_if_window [of "bv_zeros n" 0 n "\<lambda>k. bv_bit v (start + k)"]
  show ?thesis by (auto simp: fun_eq_iff)
qed

text \<open>A slice of a well-formed vector is the window of its bits, and leaves its padding clear.\<close>

theorem slice_bits_window:
  assumes "bv_wf v" "start + n \<le> bv_size v"
  shows "\<exists>t. slice_bits v start n = Some t \<and> bv_wf t \<and> padding_clear t \<and>
    bv_list t = take n (drop start (bv_list v))"
proof -
  obtain t where t: "slice_bits v start n = Some t" "bv_wf t" "bv_size t = n"
      "bv_bit t = (\<lambda>i. i < n \<and> bv_bit v (start + i))"
    using slice_bits_Some [OF assms] by blast
  have "bv_list t = take n (drop start (bv_list v))"
    by (rule bv_list_eqI) (use assms t in auto)
  with t show ?thesis by (auto simp: padding_clear_def)
qed

theorem slice_bits_window_witness:
  "\<exists>t. slice_bits \<lparr>bv_size = 9, bv_data = [180, 128]\<rparr> 2 7 = Some t \<and> bv_wf t \<and> padding_clear t \<and>
    bv_list t = take 7 (drop 2 (bv_list \<lparr>bv_size = 9, bv_data = [180, 128]\<rparr>))"
  by (rule slice_bits_window) (simp_all add: bv_wf_def bit_vector_len_def)

lemma extend_num_bits_bit:
  assumes "bv_wf v"
  shows "bv_wf (extend_num_bits v k)" and "bv_size (extend_num_bits v k) = bv_size v + k"
    and "bv_bit (extend_num_bits v k) = bv_bit v"
proof -
  have le: "bit_vector_len (bv_size v) \<le> bit_vector_len (bv_size v + k)"
    by (simp add: bit_vector_len_def div_le_mono)
  with assms show "bv_wf (extend_num_bits v k)"
    by (simp add: bv_wf_def extend_num_bits_def vec_resize_def Let_def)
  show "bv_size (extend_num_bits v k) = bv_size v + k"
    by (simp add: extend_num_bits_def Let_def)
  show "bv_bit (extend_num_bits v k) = bv_bit v"
    using assms le by (auto simp: fun_eq_iff bv_bit_def extend_num_bits_def vec_resize_def Let_def
      bv_wf_def nth_append)
qed

text \<open>Appending to a vector whose padding is clear concatenates the bits and keeps the padding
  clear when the appended vector has at least one bit or the padding was clear.\<close>

theorem append_bits_concat:
  assumes "bv_wf v" "padding_clear v" "bv_wf w"
  shows "\<exists>t. append_bits v w = Some t \<and> bv_wf t \<and> padding_clear t \<and>
    bv_list t = bv_list v @ bv_list w"
proof -
  let ?e = "extend_num_bits v (bv_size w)"
  note e = extend_num_bits_bit [OF assms(1), of "bv_size w"]
  have "append_bits v w =
      ofold (\<lambda>k u. if bv_bit w k then set_bit_at (bv_size v + k) True u else Some u) [0..<bv_size w] ?e"
    using assms(3) by (simp add: append_bits_def get_bit_loop)
  then obtain t where t: "append_bits v w = Some t" "bv_wf t" "bv_size t = bv_size v + bv_size w"
      "bv_bit t = (\<lambda>i. if bv_size v \<le> i \<and> i < bv_size v + bv_size w then bv_bit w (i - bv_size v)
                      else bv_bit v i)"
    using packed.assign_if_window [of ?e "bv_size v" "bv_size w" "bv_bit w"] e assms(2)
    by (auto simp: padding_clear_def)
  have "bv_list t = bv_list v @ bv_list w"
    by (rule bv_list_eqI) (use t in \<open>auto simp: nth_append\<close>)
  with t assms(2) show ?thesis by (auto simp: padding_clear_def)
qed

theorem append_bits_concat_witness:
  "\<exists>t. append_bits (bv_zeros 3) \<lparr>bv_size = 9, bv_data = [180, 128]\<rparr> = Some t \<and> bv_wf t \<and> padding_clear t \<and>
    bv_list t = bv_list (bv_zeros 3) @ bv_list \<lparr>bv_size = 9, bv_data = [180, 128]\<rparr>"
  by (rule append_bits_concat) (simp_all add: padding_clear_def, simp add: bv_wf_def bit_vector_len_def)

lemma from_sparse_indices_Some:
  assumes "\<forall>x \<in> set xs. x < n"
  shows "\<exists>t. from_sparse_indices n xs = Some t \<and> bv_wf t \<and> bv_size t = n \<and>
    bv_bit t = (\<lambda>i. i \<in> set xs)"
proof -
  let ?f = "\<lambda>idx d. let (byte_index, bit_index) = byte_bit_index idx
                    in modify_opt (\<lambda>b. b OR push_bit bit_index (1 :: u8)) d byte_index"
  obtain t where t: "ofold (\<lambda>x. set_bit_at x True) xs (bv_zeros n) = Some t" "bv_wf t"
      "bv_size t = n" "bv_bit t = (\<lambda>i. i \<in> set xs)"
    using packed.assign_true_list [of "bv_zeros n" xs] assms by auto
  have "rel_option (\<lambda>d u. d = bv_data u \<and> bv_size u = n)
      (ofold ?f xs (replicate (bit_vector_len n) 0)) (ofold (\<lambda>x. set_bit_at x True) xs (bv_zeros n))"
    by (rule ofold_sim)
      (use assms or_byte_is_set_bit in \<open>auto simp: bv_zeros_def byte_bit_index_def\<close>)
  with t have "ofold ?f xs (replicate (bit_vector_len n) 0) = Some (bv_data t)"
    by (cases "ofold ?f xs (replicate (bit_vector_len n) 0)") simp_all
  then have "from_sparse_indices n xs = Some \<lparr>bv_size = n, bv_data = bv_data t\<rparr>"
    by (simp add: from_sparse_indices_def)
  also have "\<dots> = Some t" using t(3) by (cases t) simp
  finally show ?thesis using t by simp
qed

lemma to_sparse_indices_Some:
  assumes "bv_wf v"
  shows "to_sparse_indices v = Some (filter (bv_bit v) [0..<bv_size v])"
proof -
  have "ofold (\<lambda>i s. Some (if bv_bit v i then s @ [i] else s)) [0..<n] [] =
      Some (filter (bv_bit v) [0..<n])" for n
    by (induction n) (auto simp: ofold_snoc)
  with assms show ?thesis by (simp add: to_sparse_indices_def get_bit_loop [where g = "\<lambda>i. i"])
qed

text \<open>The dense form built from any list of in-range indices reads back as the sorted list of
  its distinct members: the sparse and dense encodings agree.\<close>

theorem sparse_dense_sparse:
  assumes "\<forall>x \<in> set xs. x < n"
  shows "\<exists>v. from_sparse_indices n xs = Some v \<and> padding_clear v \<and>
    to_sparse_indices v = Some (sorted_list_of_set (set xs))"
proof -
  obtain v where v: "from_sparse_indices n xs = Some v" "bv_wf v" "bv_size v = n"
      "bv_bit v = (\<lambda>i. i \<in> set xs)"
    using from_sparse_indices_Some [OF assms] by blast
  have "{x \<in> set [0..<n]. x \<in> set xs} = set xs" using assms by auto
  then have "filter (\<lambda>i. i \<in> set xs) [0..<n] = sorted_list_of_set (set xs)"
    by (intro sorted_distinct_set_unique) (simp_all add: sorted_wrt_filter)
  with v to_sparse_indices_Some [OF v(2)] assms show ?thesis by (auto simp: padding_clear_def)
qed

theorem sparse_dense_sparse_witness:
  "\<exists>v. from_sparse_indices 9 [8, 1, 8] = Some v \<and> padding_clear v \<and>
    to_sparse_indices v = Some (sorted_list_of_set (set [8, 1, 8]))"
  by (rule sparse_dense_sparse) simp

lemma byte_zero_iff: "(b :: u8) = 0 \<longleftrightarrow> (\<forall>k < 8. \<not> bit b k)"
  using word_nonzero_iff_bit [of b] by auto

lemma drop_bit_zero_iff:
  "drop_bit n (b :: u8) = 0 \<longleftrightarrow> (\<forall>k. n \<le> k \<longrightarrow> k < 8 \<longrightarrow> \<not> bit b k)"
proof -
  have "drop_bit n b = 0 \<longleftrightarrow> (\<forall>k < 8. \<not> bit b (n + k))"
    by (simp add: bit_eq_iff bit_drop_bit_eq)
  also have "\<dots> \<longleftrightarrow> (\<forall>k. n \<le> k \<longrightarrow> k < 8 \<longrightarrow> \<not> bit b k)"
  proof safe
    fix k assume "\<forall>k < 8. \<not> bit b (n + k)" "n \<le> k" "k < 8" "bit b k"
    then show False by (auto dest: spec [of _ "k - n"])
  next
    fix k assume *: "\<forall>k. n \<le> k \<longrightarrow> k < 8 \<longrightarrow> \<not> bit b k" "bit b (n + k)"
    then have "n + k < 8" using bit_imp_le_length [of b "n + k"] by simp
    with * show False by auto
  qed
  finally show ?thesis .
qed

lemma leading_bytes_zero:
  assumes "bv_wf v"
  shows "(\<forall>b \<in> set (take (bv_size v div 8) (bv_data v)). b = 0) \<longleftrightarrow>
    (\<forall>i < 8 * (bv_size v div 8). \<not> bv_bit v i)" (is "?L \<longleftrightarrow> ?R")
proof
  have le: "bv_size v div 8 \<le> length (bv_data v)"
    using assms by (simp add: bv_wf_def bit_vector_len_def)
  show ?R if ?L
  proof (intro allI impI)
    fix i assume "i < 8 * (bv_size v div 8)"
    then have "i div 8 < bv_size v div 8" by (simp add: div_less_iff_less_mult mult.commute)
    then have "bv_data v ! (i div 8) \<in> set (take (bv_size v div 8) (bv_data v))"
      using le by (auto simp: in_set_conv_nth intro!: exI [of _ "i div 8"])
    with that have "bv_data v ! (i div 8) = 0" by blast
    then show "\<not> bv_bit v i" by (simp add: bv_bit_def)
  qed
  show ?L if ?R
  proof
    fix b assume "b \<in> set (take (bv_size v div 8) (bv_data v))"
    then obtain j where j: "j < bv_size v div 8" "b = bv_data v ! j" "j < length (bv_data v)"
      by (auto simp: in_set_conv_nth)
    have "\<not> bit b k" if k: "k < 8" for k
    proof -
      have "8 * j + (7 - k) < 8 * (bv_size v div 8)" using j(1) k by simp
      with \<open>?R\<close> have "\<not> bv_bit v (8 * j + (7 - k))" by blast
      then show ?thesis using j unfolding bv_bit_position [OF k] by simp
    qed
    then show "b = 0" by (simp add: byte_zero_iff)
  qed
qed

lemma last_byte_zero:
  assumes "bv_wf v" "bv_size v mod 8 \<noteq> 0"
  shows "bv_size v div 8 < length (bv_data v)"
    and "drop_bit (8 - bv_size v mod 8) (bv_data v ! (bv_size v div 8)) = 0 \<longleftrightarrow>
      (\<forall>i. 8 * (bv_size v div 8) \<le> i \<longrightarrow> i < bv_size v \<longrightarrow> \<not> bv_bit v i)" (is "?L \<longleftrightarrow> ?R")
proof -
  let ?q = "bv_size v div 8" and ?r = "bv_size v mod 8"
  have n: "bv_size v = 8 * ?q + ?r" by simp
  have r: "?r < 8" by simp
  have len: "length (bv_data v) = (bv_size v + 7) div 8"
    using assms(1) by (simp add: bv_wf_def bit_vector_len_def)
  show lt: "?q < length (bv_data v)" unfolding len using assms(2) by presburger
  show "?L \<longleftrightarrow> ?R"
  proof
    assume L: ?L
    show ?R
    proof (intro allI impI)
      fix i assume i: "8 * ?q \<le> i" "i < bv_size v"
      then obtain d where d: "i = 8 * ?q + d" "d < ?r" using n by (metis le_Suc_ex nat_add_left_cancel_less)
      then have "d < 8" using r by simp
      with d(1) have "i div 8 = ?q" "i mod 8 = d" by simp_all
      with d(2) r have "i div 8 = ?q" "8 - ?r \<le> 7 - i mod 8" by simp_all
      with L show "\<not> bv_bit v i" by (simp add: bv_bit_def drop_bit_zero_iff)
    qed
  next
    assume R: ?R
    have "\<not> bit (bv_data v ! ?q) k" if k: "8 - ?r \<le> k" "k < 8" for k
    proof -
      have "8 * ?q \<le> 8 * ?q + (7 - k)" "8 * ?q + (7 - k) < bv_size v" using k n r by linarith+
      with R have "\<not> bv_bit v (8 * ?q + (7 - k))" by blast
      then show ?thesis using lt unfolding bv_bit_position [OF k(2)] by simp
    qed
    then show ?L by (simp add: drop_bit_zero_iff)
  qed
qed

text \<open>The zero test reads exactly the meaningful bits: it ignores the padding of the last byte,
  and a vector whose byte count does not match its size is refused.\<close>

theorem is_zero_bits_iff:
  "is_zero_bits v = (if bv_wf v then Some (\<forall>i < bv_size v. \<not> bv_bit v i) else None)"
proof (cases "bv_wf v")
  case False
  then show ?thesis by (simp add: is_zero_bits_def validate_data_len_def bv_wf_def Let_def)
next
  case True
  let ?q = "bv_size v div 8"
  have le: "?q \<le> length (bv_data v)" using True by (simp add: bv_wf_def bit_vector_len_def)
  have ok: "validate_data_len v = Inr ()" using True by (simp add: validate_data_len_def bv_wf_def)
  have split: "(\<forall>i < bv_size v. \<not> bv_bit v i) \<longleftrightarrow> (\<forall>i < 8 * ?q. \<not> bv_bit v i) \<and>
      (\<forall>i. 8 * ?q \<le> i \<longrightarrow> i < bv_size v \<longrightarrow> \<not> bv_bit v i)"
    by (metis div_times_less_eq_dividend leI less_le_trans mult.commute)
  show ?thesis
  proof (cases "bv_size v mod 8 = 0")
    case rem: True
    then have "8 * ?q = bv_size v" by auto
    with rem True ok le leading_bytes_zero [OF True] show ?thesis
      by (auto simp: is_zero_bits_def list_ex_iff Let_def)
  next
    case rem: False
    from last_byte_zero [OF True rem] leading_bytes_zero [OF True] rem ok le split True
    show ?thesis by (simp add: is_zero_bits_def list_ex_iff Let_def) blast
  qed
qed

theorem is_zero_bits_iff_witness:
  "is_zero_bits (bv_zeros 9) = Some True \<and> is_zero_bits \<lparr>bv_size = 9, bv_data = [0]\<rparr> = None"
  using is_zero_bits_iff [of "bv_zeros 9"] is_zero_bits_iff [of "\<lparr>bv_size = 9, bv_data = [0]\<rparr>"]
  by (simp add: bv_wf_def bv_zeros_def bit_vector_len_def bv_bit_def)

lemma xor_bits_Some:
  assumes "bv_wf a" "bv_wf b" "bv_size a = bv_size b"
  shows "\<exists>t. xor_bits a b = Some t \<and> bv_wf t \<and> bv_size t = bv_size a \<and>
    bv_bit t = (\<lambda>i. bv_bit a i \<noteq> bv_bit b i)"
proof -
  let ?f = "\<lambda>i d. do { y \<leftarrow> nth_opt (bv_data b) i; modify_opt (\<lambda>x. x XOR y) d i }"
  let ?n = "length (bv_data a)"
  have nb: "length (bv_data b) = ?n" using assms by (simp add: bv_wf_def)
  have "\<exists>d. ofold ?f [0..<?n] (bv_data a) = Some d \<and>
    (length d = ?n \<and> (\<forall>i < ?n. d ! i = (if i < ?n then bv_data a ! i XOR bv_data b ! i else bv_data a ! i)))"
    by (rule ofold_upt_inv [where P = "\<lambda>k d. length d = ?n \<and>
          (\<forall>i < ?n. d ! i = (if i < k then bv_data a ! i XOR bv_data b ! i else bv_data a ! i))"])
      (auto simp: nb nth_list_update less_Suc_eq)
  then obtain d where d: "ofold ?f [0..<?n] (bv_data a) = Some d" "length d = ?n"
      "\<forall>i < ?n. d ! i = bv_data a ! i XOR bv_data b ! i" by auto
  then show ?thesis using assms nb
    by (auto simp: xor_bits_def xor_bits_in_place_def bv_wf_def bv_bit_def fun_eq_iff bit_xor_iff)
qed

end
