(* ===== verification/Union_Find_Forest.thy ===== *)
theory Union_Find_Forest
  imports Prelude
begin

text \<open>
  The generic union-find structure of \<open>deq/deq_runtime/src/misc/union_find.rs\<close>.  The trait
  \<open>UnionNodeTrait\<close> of the payload is the record \<open>node_ops\<close>, passed to the operations that use
  it; \<open>example_ops\<close> is the implementation \<open>ExampleUnionNode\<close> (a set size, weighted union).
  The walk to a root may run forever on a cyclic parent array: it is a partial function into
  \<open>option\<close>, and its totality on forests is proved.
\<close>

record 'n union_find =
  link_parent :: "nat list"
  payload :: "'n list"
  find_parent_list :: "nat list"

record 'n node_ops =
  node_union :: "'n \<Rightarrow> 'n \<Rightarrow> bool \<times> 'n"
  node_clear :: "'n \<Rightarrow> 'n"
  node_default :: "'n"

record example_union_node =
  set_size :: nat

definition example_ops :: "example_union_node node_ops" where
  "example_ops = \<lparr>
     node_union = (\<lambda>left right. (set_size left \<ge> set_size right,
                                \<lparr>set_size = set_size left + set_size right\<rparr>)),
     node_clear = (\<lambda>node. node\<lparr>set_size := 1\<rparr>),
     node_default = \<lparr>set_size = 1\<rparr>\<rparr>"

section \<open>Operations\<close>

definition uf_extend :: "'n union_find \<Rightarrow> 'n list \<Rightarrow> 'n union_find" where
  "uf_extend uf iterable =
     (let len = length (payload uf);
          pay = payload uf @ iterable;
          new_len = length pay
      in uf\<lparr>payload := pay, link_parent := link_parent uf @ [len..<new_len]\<rparr>)"

definition uf_from_iter :: "'n list \<Rightarrow> 'n union_find" where
  "uf_from_iter iterator =
     uf_extend \<lparr>link_parent = [], payload = [], find_parent_list = []\<rparr> iterator"

definition uf_new :: "'n node_ops \<Rightarrow> nat \<Rightarrow> 'n union_find" where
  "uf_new ops len = uf_from_iter (map (\<lambda>_. node_default ops) [0..<len])"

definition uf_size :: "'n union_find \<Rightarrow> nat" where
  "uf_size uf = length (payload uf)"

definition uf_insert :: "'n \<Rightarrow> 'n union_find \<Rightarrow> nat \<times> 'n union_find" where
  "uf_insert data uf =
     (let key = length (payload uf)
      in (key, uf\<lparr>link_parent := link_parent uf @ [key], payload := payload uf @ [data]\<rparr>))"

partial_function (option) find_walk :: "nat list \<Rightarrow> nat list \<Rightarrow> nat \<Rightarrow> (nat list \<times> nat) option" where
  "find_walk lp visited k = do {
     p \<leftarrow> nth_opt lp k;
     (if p \<noteq> k then find_walk lp (visited @ [k]) p else Some (visited, k)) }"

definition uf_find :: "nat \<Rightarrow> 'n union_find \<Rightarrow> (nat \<times> 'n union_find) option" where
  "uf_find key uf = do {
     (visited, root) \<leftarrow> find_walk (link_parent uf) (find_parent_list uf) key;
     lp \<leftarrow> ofold (\<lambda>k l. update_opt l k root) visited (link_parent uf);
     Some (root, uf\<lparr>link_parent := lp, find_parent_list := []\<rparr>) }"

partial_function (option) find_root_walk :: "nat list \<Rightarrow> nat \<Rightarrow> nat option" where
  "find_root_walk lp k = do {
     p \<leftarrow> nth_opt lp k;
     (if p \<noteq> k then find_root_walk lp p else Some k) }"

definition immutable_find :: "'n union_find \<Rightarrow> nat \<Rightarrow> nat option" where
  "immutable_find uf key = find_root_walk (link_parent uf) key"

definition uf_union :: "'n node_ops \<Rightarrow> nat \<Rightarrow> nat \<Rightarrow> 'n union_find \<Rightarrow> (bool \<times> 'n union_find) option" where
  "uf_union ops key0 key1 uf0 = do {
     (k0, uf1) \<leftarrow> uf_find key0 uf0;
     (k1, uf2) \<leftarrow> uf_find key1 uf1;
     if k0 = k1 then Some (False, uf2)
     else do {
       a \<leftarrow> nth_opt (payload uf2) k0;
       b \<leftarrow> nth_opt (payload uf2) k1;
       let (parent, child, val) =
         (case node_union ops a b of (True, val) \<Rightarrow> (k0, k1, val) | (False, val) \<Rightarrow> (k1, k0, val));
       pay \<leftarrow> update_opt (payload uf2) parent val;
       lp \<leftarrow> update_opt (link_parent uf2) child parent;
       Some (True, uf2\<lparr>payload := pay, link_parent := lp\<rparr>) } }"

definition uf_get :: "nat \<Rightarrow> 'n union_find \<Rightarrow> ('n \<times> 'n union_find) option" where
  "uf_get key uf = do {
     (root_key, uf') \<leftarrow> uf_find key uf;
     node \<leftarrow> nth_opt (payload uf') root_key;
     Some (node, uf') }"

definition immutable_get :: "'n union_find \<Rightarrow> nat \<Rightarrow> 'n option" where
  "immutable_get uf key = do { root_key \<leftarrow> immutable_find uf key; nth_opt (payload uf) root_key }"

definition uf_clear :: "'n node_ops \<Rightarrow> 'n union_find \<Rightarrow> 'n union_find option" where
  "uf_clear ops uf = do {
     guard_opt (length (payload uf) = length (link_parent uf));
     ofold (\<lambda>i u. do {
         lp \<leftarrow> update_opt (link_parent u) i i;
         pay \<leftarrow> modify_opt (node_clear ops) (payload u) i;
         Some (u\<lparr>link_parent := lp, payload := pay\<rparr>) })
       [0..<length (link_parent uf)] uf }"

definition uf_remove_all :: "'n union_find \<Rightarrow> 'n union_find" where
  "uf_remove_all uf = uf\<lparr>payload := [], link_parent := []\<rparr>"

section \<open>Roots\<close>

text \<open>\<open>leads lp k r\<close>: following parent links from \<open>k\<close> ends at the self-parented node \<open>r\<close>.\<close>

inductive leads :: "nat list \<Rightarrow> nat \<Rightarrow> nat \<Rightarrow> bool" for lp where
  at_root: "k < length lp \<Longrightarrow> lp ! k = k \<Longrightarrow> leads lp k k"
| follow: "k < length lp \<Longrightarrow> lp ! k \<noteq> k \<Longrightarrow> leads lp (lp ! k) r \<Longrightarrow> leads lp k r"

inductive_cases leads_elim: "leads lp k r"

definition uf_forest :: "'n union_find \<Rightarrow> bool" where
  "uf_forest uf \<longleftrightarrow> length (payload uf) = length (link_parent uf) \<and> find_parent_list uf = [] \<and>
     (\<forall>k < length (link_parent uf). \<exists>r. leads (link_parent uf) k r)"

lemma leads_root: "leads lp k r \<Longrightarrow> r < length lp \<and> lp ! r = r"
  by (induction rule: leads.induct) auto

lemma root_leads: "leads lp k r \<Longrightarrow> leads lp r r"
  using leads_root [of lp k r] by (auto intro: at_root)

lemma leads_bound: "leads lp k r \<Longrightarrow> k < length lp"
  by (auto elim: leads_elim)

lemma leads_of_root: "lp ! k = k \<Longrightarrow> leads lp k r \<longleftrightarrow> k < length lp \<and> r = k"
  by (auto elim: leads_elim intro: at_root)

lemma leads_unique: "leads lp k r \<Longrightarrow> leads lp k r' \<Longrightarrow> r = r'"
proof (induction rule: leads.induct)
  case (at_root k)
  then show ?case by (simp add: leads_of_root)
next
  case (follow k r)
  then show ?case by (auto elim: leads_elim)
qed

lemma leads_step: "k < length lp \<Longrightarrow> leads lp (lp ! k) r \<longleftrightarrow> leads lp k r"
  by (cases "lp ! k = k") (auto elim: leads_elim intro: leads.intros)

lemma compress_leads:
  assumes "leads lp x s" "leads lp k r"
  shows "leads (lp[x := s]) k r"
  using assms(2)
proof (induction rule: leads.induct)
  case (at_root k)
  show ?case
  proof (cases "x = k")
    case True
    with assms(1) at_root have "s = k" by (simp add: leads_of_root)
    then have "lp[x := s] = lp" using True at_root by (metis list_update_id)
    with at_root show ?thesis by (simp add: leads.at_root)
  next
    case False
    with at_root have "k < length (lp[x := s])" "lp[x := s] ! k = k" by simp_all
    then show ?thesis by (rule leads.at_root)
  qed
next
  case (follow k r)
  have s: "s < length lp" "lp ! s = s" using leads_root [OF assms(1)] by auto
  show ?case
  proof (cases "x = k")
    case True
    have "leads lp k r" using follow.hyps by (rule leads.follow)
    with assms(1) True have "r = s" using leads_unique by blast
    moreover have "s \<noteq> k" using s(2) follow.hyps(2) by auto
    ultimately have rs: "r = s" "s \<noteq> k" by simp_all
    have "leads (lp[x := s]) s s" using s rs(2) True by (intro leads.at_root) auto
    moreover have "lp[x := s] ! k = s" "k < length (lp[x := s])" using True follow.hyps(1) by auto
    ultimately show ?thesis using leads_step [of k "lp[x := s]" r] rs(1) by simp
  next
    case False
    with follow have "leads (lp[x := s]) (lp[x := s] ! k) r" by simp
    then show ?thesis using follow.hyps(1) by (simp add: leads_step)
  qed
qed

definition redirect :: "nat \<Rightarrow> nat \<Rightarrow> nat \<Rightarrow> nat" where
  "redirect c p r = (if r = c then p else r)"

lemma link_leads:
  assumes "lp ! c = c" "leads lp p p" "p \<noteq> c" "leads lp k r"
  shows "leads (lp[c := p]) k (redirect c p r)"
  using assms(4)
proof (induction rule: leads.induct)
  case (at_root k)
  have p: "leads (lp[c := p]) p p"
    using leads_root [OF assms(2)] assms(3) by (intro leads.at_root) auto
  show ?case
  proof (cases "k = c")
    case True
    have "leads (lp[c := p]) c p"
      using leads_step [of c "lp[c := p]" p] p at_root(1) True by simp
    with True show ?thesis by (simp add: redirect_def)
  next
    case False
    with at_root have "leads (lp[c := p]) k k" by (intro leads.at_root) auto
    with False show ?thesis by (simp add: redirect_def)
  qed
next
  case (follow k r)
  with assms(1) have "k \<noteq> c" by auto
  with follow.IH have "leads (lp[c := p]) (lp[c := p] ! k) (redirect c p r)" by simp
  then show ?case using follow.hyps(1) by (simp add: leads_step)
qed

section \<open>Finding\<close>

text \<open>The walk returns the root and the non-root nodes it passed, all of which lead to it.\<close>

lemma find_walk_Some:
  assumes "leads lp k r"
  shows "\<exists>path. find_walk lp vis k = Some (vis @ path, r) \<and> (\<forall>x \<in> set path. leads lp x r)"
  using assms
proof (induction arbitrary: vis rule: leads.induct)
  case (at_root k)
  then show ?case by (simp add: find_walk.simps)
next
  case (follow k r)
  obtain path where p: "find_walk lp (vis @ [k]) (lp ! k) = Some ((vis @ [k]) @ path, r)"
      "\<forall>x \<in> set path. leads lp x r"
    using follow.IH by blast
  have "find_walk lp vis k = Some (vis @ (k # path), r)"
    using follow.hyps p(1) by (subst find_walk.simps) simp
  moreover have "leads lp k r" using follow.hyps by (auto intro: leads.follow)
  ultimately show ?case using p(2) by (intro exI [of _ "k # path"]) auto
qed

lemma find_root_walk_Some: "leads lp k r \<Longrightarrow> find_root_walk lp k = Some r"
proof (induction rule: leads.induct)
  case (at_root k)
  then show ?case by (simp add: find_root_walk.simps)
next
  case (follow k r)
  then show ?case by (subst find_root_walk.simps) simp
qed

lemma compress_path:
  assumes "\<forall>x \<in> set path. leads lp x r"
  shows "\<exists>lp'. ofold (\<lambda>k l. update_opt l k r) path lp = Some lp' \<and> length lp' = length lp \<and>
    (\<forall>k s. leads lp k s \<longrightarrow> leads lp' k s)"
  using assms
proof (induction path arbitrary: lp)
  case Nil
  then show ?case by simp
next
  case (Cons x path)
  then have x: "leads lp x r" by simp
  have "\<forall>y \<in> set path. leads (lp[x := r]) y r"
    using Cons.prems compress_leads [OF x] by auto
  from Cons.IH [OF this] obtain lp' where lp':
      "ofold (\<lambda>k l. update_opt l k r) path (lp[x := r]) = Some lp'" "length lp' = length lp"
      "\<forall>k s. leads (lp[x := r]) k s \<longrightarrow> leads lp' k s" by auto
  with compress_leads [OF x] leads_bound [OF x] show ?case by auto
qed

lemma leads_iff_of_mono:
  assumes "\<forall>k s. leads lp k s \<longrightarrow> leads lp' k s" "length lp' = length lp"
    and "\<forall>k < length lp. \<exists>r. leads lp k r"
  shows "leads lp' k s \<longleftrightarrow> leads lp k s"
  using assms leads_bound leads_unique by metis

lemma uf_find_Some:
  assumes "uf_forest uf" "leads (link_parent uf) key r"
  shows "\<exists>uf'. uf_find key uf = Some (r, uf') \<and> uf_forest uf' \<and> payload uf' = payload uf \<and>
    length (link_parent uf') = length (link_parent uf) \<and>
    leads (link_parent uf') = leads (link_parent uf)"
proof -
  let ?lp = "link_parent uf"
  obtain path where p: "find_walk ?lp [] key = Some (path, r)" "\<forall>x \<in> set path. leads ?lp x r"
    using find_walk_Some [OF assms(2), of "[]"] by auto
  obtain lp' where lp': "ofold (\<lambda>k l. update_opt l k r) path ?lp = Some lp'"
      "length lp' = length ?lp" "\<forall>k s. leads ?lp k s \<longrightarrow> leads lp' k s"
    using compress_path [OF p(2)] by blast
  have eq: "leads lp' = leads ?lp"
    using leads_iff_of_mono [OF lp'(3,2)] assms(1) by (auto simp: fun_eq_iff uf_forest_def)
  from assms(1) p(1) lp'(1) have "uf_find key uf =
      Some (r, uf\<lparr>link_parent := lp', find_parent_list := []\<rparr>)"
    by (simp add: uf_find_def uf_forest_def)
  with eq lp'(2) assms(1) show ?thesis by (simp add: uf_forest_def)
qed

lemma uf_forest_leads:
  assumes "uf_forest uf" "k < uf_size uf"
  obtains r where "leads (link_parent uf) k r" "r < uf_size uf"
  using assms leads_root by (metis uf_forest_def uf_size_def)

text \<open>On a forest, \<open>find\<close> terminates, returns the same root as the read-only \<open>immutable_find\<close>,
  keeps the structure a forest, and its path compression changes the root of no node.\<close>

theorem find_agrees_with_immutable_find:
  assumes "uf_forest uf" "key < uf_size uf"
  shows "\<exists>r uf'. uf_find key uf = Some (r, uf') \<and> immutable_find uf key = Some r \<and> r < uf_size uf \<and>
    uf_forest uf' \<and> payload uf' = payload uf \<and>
    (\<forall>k < uf_size uf. immutable_find uf' k = immutable_find uf k)"
proof -
  obtain r where r: "leads (link_parent uf) key r" "r < uf_size uf"
    using uf_forest_leads [OF assms] .
  obtain uf' where uf': "uf_find key uf = Some (r, uf')" "uf_forest uf'"
      "payload uf' = payload uf" "leads (link_parent uf') = leads (link_parent uf)"
    using uf_find_Some [OF assms(1) r(1)] by blast
  have "immutable_find uf' k = immutable_find uf k" if k: "k < uf_size uf" for k
  proof -
    obtain s where s: "leads (link_parent uf) k s" using uf_forest_leads [OF assms(1) k] by blast
    then have "leads (link_parent uf') k s" using uf'(4) by simp
    with s show ?thesis by (simp add: immutable_find_def find_root_walk_Some)
  qed
  with uf' r show ?thesis by (auto simp: immutable_find_def find_root_walk_Some)
qed

section \<open>Uniting\<close>

lemma leads_link_iff:
  assumes "leads lp c c" "leads lp p p" "p \<noteq> c" "\<forall>k < length lp. \<exists>r. leads lp k r"
  shows "leads (lp[c := p]) k s \<longleftrightarrow> (\<exists>r. leads lp k r \<and> s = redirect c p r)"
proof
  have c: "lp ! c = c" using leads_root [OF assms(1)] by simp
  show "leads (lp[c := p]) k s" if "\<exists>r. leads lp k r \<and> s = redirect c p r"
    using that link_leads [OF c assms(2,3)] by blast
  assume s: "leads (lp[c := p]) k s"
  then have "k < length lp" using leads_bound by fastforce
  then obtain r where r: "leads lp k r" using assms(4) by blast
  with link_leads [OF c assms(2,3) r] s show "\<exists>r. leads lp k r \<and> s = redirect c p r"
    using leads_unique by blast
qed

text \<open>What a union does: nothing but compression when the roots agree; otherwise the loser's root
  is linked below the winner's, whose payload becomes the node's combined value.\<close>

lemma uf_union_Some:
  fixes ops :: "'n node_ops"
  assumes "uf_forest uf" "leads (link_parent uf) a ra" "leads (link_parent uf) b rb"
  defines "win \<equiv> (if fst (node_union ops (payload uf ! ra) (payload uf ! rb)) then ra else rb)"
    and "lose \<equiv> (if fst (node_union ops (payload uf ! ra) (payload uf ! rb)) then rb else ra)"
  shows "\<exists>uf'. uf_union ops a b uf = Some (ra \<noteq> rb, uf') \<and> uf_forest uf' \<and>
    length (payload uf') = length (payload uf) \<and>
    (if ra = rb then payload uf' = payload uf \<and> leads (link_parent uf') = leads (link_parent uf)
     else payload uf' = (payload uf)[win := snd (node_union ops (payload uf ! ra) (payload uf ! rb))] \<and>
       (\<forall>k s. leads (link_parent uf') k s \<longleftrightarrow>
          (\<exists>r. leads (link_parent uf) k r \<and> s = redirect lose win r)))"
proof -
  obtain u1 where u1: "uf_find a uf = Some (ra, u1)" "uf_forest u1" "payload u1 = payload uf"
      "leads (link_parent u1) = leads (link_parent uf)"
    using uf_find_Some [OF assms(1,2)] by blast
  have "leads (link_parent u1) b rb" using assms(3) u1(4) by simp
  then obtain u2 where u2: "uf_find b u1 = Some (rb, u2)" "uf_forest u2" "payload u2 = payload uf"
      "leads (link_parent u2) = leads (link_parent uf)"
    using uf_find_Some [OF u1(2)] u1(3,4) by metis
  show ?thesis
  proof (cases "ra = rb")
    case True
    with u1 u2 show ?thesis by (simp add: uf_union_def)
  next
    case False
    let ?n = "node_union ops (payload uf ! ra) (payload uf ! rb)"
    let ?u = "u2\<lparr>payload := (payload uf)[win := snd ?n], link_parent := (link_parent u2)[lose := win]\<rparr>"
    have len: "length (payload uf) = length (link_parent u2)" using u2 by (simp add: uf_forest_def)
    have roots: "leads (link_parent u2) ra ra" "leads (link_parent u2) rb rb"
      using root_leads [OF assms(2)] root_leads [OF assms(3)] u2(4) by simp_all
    then have lt: "ra < length (payload uf)" "rb < length (payload uf)"
      using leads_bound len by (metis, metis)
    have wl: "leads (link_parent u2) lose lose" "leads (link_parent u2) win win" "win \<noteq> lose"
      using roots False by (auto simp: win_def lose_def)
    have all: "\<forall>k < length (link_parent u2). \<exists>r. leads (link_parent u2) k r"
      using u2(2) by (simp add: uf_forest_def)
    have iff: "leads ((link_parent u2)[lose := win]) k s \<longleftrightarrow>
        (\<exists>r. leads (link_parent uf) k r \<and> s = redirect lose win r)" for k s
      using leads_link_iff [OF wl all] u2(4) by simp
    have "uf_union ops a b uf = Some (True, ?u)"
      using u1 u2 False lt len
      by (cases ?n) (auto simp: uf_union_def win_def lose_def split: bool.splits)
    moreover have "uf_forest ?u"
      using u2 len all iff by (auto simp: uf_forest_def)
    ultimately show ?thesis using False iff by simp
  qed
qed

lemma uf_union_classes:
  assumes "uf_forest uf" "leads (link_parent uf) a ra" "leads (link_parent uf) b rb"
  shows "\<exists>uf' win lose. uf_union ops a b uf = Some (ra \<noteq> rb, uf') \<and> uf_forest uf' \<and>
    length (payload uf') = length (payload uf) \<and> {win, lose} = {ra, rb} \<and>
    (\<forall>k s. leads (link_parent uf) k s \<longrightarrow> leads (link_parent uf') k (redirect lose win s))"
proof -
  let ?b = "fst (node_union ops (payload uf ! ra) (payload uf ! rb))"
  let ?win = "if ?b then ra else rb" and ?lose = "if ?b then rb else ra"
  obtain uf' where u: "uf_union ops a b uf = Some (ra \<noteq> rb, uf')" "uf_forest uf'"
      "length (payload uf') = length (payload uf)"
      "if ra = rb then payload uf' = payload uf \<and> leads (link_parent uf') = leads (link_parent uf)
       else payload uf' = (payload uf)[?win := snd (node_union ops (payload uf ! ra) (payload uf ! rb))] \<and>
         (\<forall>k s. leads (link_parent uf') k s \<longleftrightarrow>
          (\<exists>r. leads (link_parent uf) k r \<and> s = redirect ?lose ?win r))"
    using uf_union_Some [OF assms, of ops] by blast
  have "leads (link_parent uf') k (redirect ?lose ?win s)" if "leads (link_parent uf) k s" for k s
  proof (cases "ra = rb")
    case True
    with u(4) that show ?thesis by (cases "s = rb") (auto simp: redirect_def)
  next
    case False
    note both = u(4) [unfolded if_not_P [OF False]]
    show ?thesis using conjunct2 [OF both] that by blast
  qed
  moreover have "{?win, ?lose} = {ra, rb}" by auto
  ultimately show ?thesis using u(1-3) by blast
qed

lemma union_classes_step:
  assumes "uf_forest uf" "a < uf_size uf" "b < uf_size uf"
  shows "\<exists>uf' merged. uf_union ops a b uf = Some (merged, uf') \<and> uf_forest uf' \<and>
    uf_size uf' = uf_size uf \<and> (merged \<longleftrightarrow> immutable_find uf a \<noteq> immutable_find uf b) \<and>
    (\<forall>i < uf_size uf. \<forall>j < uf_size uf.
       immutable_find uf' i = immutable_find uf' j \<longleftrightarrow>
       immutable_find uf i = immutable_find uf j \<or>
       immutable_find uf i \<in> {immutable_find uf a, immutable_find uf b} \<and>
       immutable_find uf j \<in> {immutable_find uf a, immutable_find uf b})"
proof -
  obtain ra rb where r: "leads (link_parent uf) a ra" "leads (link_parent uf) b rb"
    using uf_forest_leads [OF assms(1)] assms(2,3) by metis
  obtain uf' win lose where u:
      "uf_union ops a b uf = Some (ra \<noteq> rb, uf')" "uf_forest uf'"
      "length (payload uf') = length (payload uf)" "{win, lose} = {ra, rb}"
      "\<And>k s. leads (link_parent uf) k s \<Longrightarrow> leads (link_parent uf') k (redirect lose win s)"
    using uf_union_classes [OF assms(1) r] by blast
  have find: "immutable_find uf' k = Some (redirect lose win s)" "immutable_find uf k = Some s"
    if "leads (link_parent uf) k s" for k s
    using that u(5) by (auto simp: immutable_find_def intro!: find_root_walk_Some)
  have "immutable_find uf' i = immutable_find uf' j \<longleftrightarrow>
       immutable_find uf i = immutable_find uf j \<or>
       immutable_find uf i \<in> {immutable_find uf a, immutable_find uf b} \<and>
       immutable_find uf j \<in> {immutable_find uf a, immutable_find uf b}"
    if ij: "i < uf_size uf" "j < uf_size uf" for i j
  proof -
    obtain si sj where s: "leads (link_parent uf) i si" "leads (link_parent uf) j sj"
      using uf_forest_leads [OF assms(1)] ij by metis
    have "{win, lose} = {ra, rb}" by (fact u(4))
    then show ?thesis
      unfolding find(1) [OF s(1)] find(1) [OF s(2)] find(2) [OF s(1)] find(2) [OF s(2)]
        find(2) [OF r(1)] find(2) [OF r(2)] redirect_def
      by (auto simp: doubleton_eq_iff)
  qed
  moreover have "immutable_find uf a \<noteq> immutable_find uf b \<longleftrightarrow> ra \<noteq> rb"
    by (simp add: find(2) [OF r(1)] find(2) [OF r(2)])
  ultimately show ?thesis using u(1-3) by (simp add: uf_size_def)
qed

text \<open>A union merges exactly the two classes of its arguments: afterwards two nodes have the same
  root if they had before, or if each was in one of the two merged classes; and the flag it
  returns says whether the classes were different.\<close>

theorem union_merges_classes:
  assumes "uf_forest uf" "a < uf_size uf" "b < uf_size uf"
  shows "\<exists>uf' merged. uf_union ops a b uf = Some (merged, uf') \<and> uf_forest uf' \<and>
    uf_size uf' = uf_size uf \<and> (merged \<longleftrightarrow> immutable_find uf a \<noteq> immutable_find uf b) \<and>
    (\<forall>i < uf_size uf. \<forall>j < uf_size uf.
       immutable_find uf' i = immutable_find uf' j \<longleftrightarrow>
       immutable_find uf i = immutable_find uf j \<or>
       immutable_find uf i \<in> {immutable_find uf a, immutable_find uf b} \<and>
       immutable_find uf j \<in> {immutable_find uf a, immutable_find uf b})"
  using assms by (rule union_classes_step)

section \<open>Whole runs\<close>

definition connected :: "(nat \<times> nat) set \<Rightarrow> (nat \<times> nat) set" where
  "connected E = (E \<union> E\<inverse>)\<^sup>*"

lemma connected_refl: "(i, i) \<in> connected E"
  by (simp add: connected_def)

lemma connected_sym: "(i, j) \<in> connected E \<Longrightarrow> (j, i) \<in> connected E"
proof -
  have "sym (E \<union> E\<inverse>)" by (auto simp: sym_def)
  then show "(i, j) \<in> connected E \<Longrightarrow> (j, i) \<in> connected E"
    unfolding connected_def by (metis sym_rtrancl symD)
qed

lemma connected_trans: "(i, j) \<in> connected E \<Longrightarrow> (j, k) \<in> connected E \<Longrightarrow> (i, k) \<in> connected E"
  by (simp add: connected_def)

lemma connected_mono: "E \<subseteq> F \<Longrightarrow> connected E \<subseteq> connected F"
  unfolding connected_def by (intro rtrancl_mono) auto

lemma connected_insert:
  "(i, j) \<in> connected (insert (a, b) E) \<longleftrightarrow> (i, j) \<in> connected E \<or>
     ((i, a) \<in> connected E \<or> (i, b) \<in> connected E) \<and> ((j, a) \<in> connected E \<or> (j, b) \<in> connected E)"
    (is "?L \<longleftrightarrow> ?R i j")
proof
  have ab: "(a, b) \<in> connected (insert (a, b) E)" by (auto simp: connected_def)
  have up: "(x, y) \<in> connected E \<Longrightarrow> (x, y) \<in> connected (insert (a, b) E)" for x y
    using connected_mono [of E "insert (a, b) E"] by blast
  show ?L if "?R i j"
    using that ab up connected_sym connected_trans by metis
  assume ?L
  then have "(i, j) \<in> (insert (a, b) E \<union> (insert (a, b) E)\<inverse>)\<^sup>*" by (simp add: connected_def)
  then show "?R i j"
  proof (induction rule: rtrancl_induct)
    case base
    show ?case by (simp add: connected_refl)
  next
    case (step y z)
    consider "y = a" "z = b" | "y = b" "z = a" | "(y, z) \<in> connected E"
      using step.hyps(2) unfolding connected_def by auto
    then show ?case
    proof cases
      case 1
      with step.IH show ?thesis using connected_refl by blast
    next
      case 2
      with step.IH show ?thesis using connected_refl by blast
    next
      case 3
      with step.IH show ?thesis using connected_sym connected_trans by meson
    qed
  qed
qed

text \<open>With the weighted payload of \<open>ExampleUnionNode\<close>, the size stored at a root counts its class.\<close>

definition sizes_ok :: "example_union_node union_find \<Rightarrow> bool" where
  "sizes_ok uf \<longleftrightarrow> uf_forest uf \<and> (\<forall>r. leads (link_parent uf) r r \<longrightarrow>
     set_size (payload uf ! r) = card {k. leads (link_parent uf) k r})"

lemma finite_class: "finite {k. leads lp k r}"
  by (rule finite_subset [of _ "{..<length lp}"]) (auto dest: leads_bound)

lemma uf_new_simps:
  "link_parent (uf_new ops n) = [0..<n]" "payload (uf_new ops n) = replicate n (node_default ops)"
  "find_parent_list (uf_new ops n) = []"
  by (simp_all add: uf_new_def uf_from_iter_def uf_extend_def Let_def map_replicate_const)

lemma leads_upt: "leads [0..<n] k r \<longleftrightarrow> k < n \<and> r = k"
  by (cases "k < n") (auto simp: leads_of_root dest: leads_bound)

lemma sizes_ok_new: "sizes_ok (uf_new example_ops n)"
proof -
  have "{k. r = k \<and> k < n} = {r}" if "r < n" for r using that by auto
  then show ?thesis
    by (auto simp: sizes_ok_def uf_forest_def uf_new_simps leads_upt example_ops_def conj_commute)
qed

lemma sizes_ok_union:
  assumes "sizes_ok uf" "a < uf_size uf" "b < uf_size uf"
  shows "\<exists>m uf'. uf_union example_ops a b uf = Some (m, uf') \<and> sizes_ok uf'"
proof -
  have forest: "uf_forest uf" using assms(1) by (simp add: sizes_ok_def)
  obtain ra rb where r: "leads (link_parent uf) a ra" "leads (link_parent uf) b rb"
    using uf_forest_leads [OF forest] assms(2,3) by metis
  define n where "n = node_union example_ops (payload uf ! ra) (payload uf ! rb)"
  define win lose where "win = (if fst n then ra else rb)" and "lose = (if fst n then rb else ra)"
  obtain uf' where u: "uf_union example_ops a b uf = Some (ra \<noteq> rb, uf')" "uf_forest uf'"
      "if ra = rb then payload uf' = payload uf \<and> leads (link_parent uf') = leads (link_parent uf)
       else payload uf' = (payload uf)[win := snd n] \<and>
         (\<forall>k s. leads (link_parent uf') k s \<longleftrightarrow>
            (\<exists>r. leads (link_parent uf) k r \<and> s = redirect lose win r))"
    using uf_union_Some [OF forest r, of example_ops] unfolding n_def win_def lose_def by blast
  show ?thesis
  proof (cases "ra = rb")
    case True
    with u assms(1) show ?thesis by (auto simp: sizes_ok_def)
  next
    case False
    note both = u(3) [unfolded if_not_P [OF False]]
    have roots: "leads (link_parent uf) win win" "leads (link_parent uf) lose lose" "win \<noteq> lose"
      using root_leads [OF r(1)] root_leads [OF r(2)] False by (simp_all add: win_def lose_def)
    have sum: "set_size (snd n) = set_size (payload uf ! win) + set_size (payload uf ! lose)"
      by (auto simp: n_def win_def lose_def example_ops_def)
    have "set_size (payload uf' ! s) = card {k. leads (link_parent uf') k s}"
      if s: "leads (link_parent uf') s s" for s
    proof -
      obtain q where q: "leads (link_parent uf) s q" "s = redirect lose win q"
        using both s by blast
      have sl: "s \<noteq> lose"
      proof
        assume "s = lose"
        then have "q = lose" using q(1) roots(2) leads_unique by blast
        with q(2) \<open>s = lose\<close> roots(3) show False by (simp add: redirect_def)
      qed
      then have ss: "leads (link_parent uf) s s"
        using q roots(1) root_leads [OF q(1)] by (cases "q = lose") (simp_all add: redirect_def)
      have "{k. leads (link_parent uf') k s} =
          {k. leads (link_parent uf) k s} \<union> (if s = win then {k. leads (link_parent uf) k lose} else {})"
        using both sl by (auto simp: redirect_def)
      moreover have "{k. leads (link_parent uf) k s} \<inter> {k. leads (link_parent uf) k lose} = {}"
        using sl leads_unique by blast
      moreover have "win < length (payload uf)"
        using leads_bound [OF roots(1)] forest by (simp add: uf_forest_def)
      moreover have "set_size (payload uf ! t) = card {k. leads (link_parent uf) k t}"
        if "t \<in> {s, win, lose}" for t
        using that ss roots assms(1) by (auto simp: sizes_ok_def)
      ultimately show ?thesis using both sum
        by (cases "s = win") (simp_all add: card_Un_disjoint finite_class)
    qed
    with u show ?thesis by (auto simp: sizes_ok_def)
  qed
qed

text \<open>A run of unions, as the decoders perform them on a fresh structure.\<close>

definition union_all :: "'n node_ops \<Rightarrow> (nat \<times> nat) list \<Rightarrow> 'n union_find \<Rightarrow> 'n union_find option" where
  "union_all ops = ofold (\<lambda>(a, b) u. map_option snd (uf_union ops a b u))"

lemma union_all_inv:
  assumes "\<forall>(a, b) \<in> set es. a < n \<and> b < n"
  shows "\<exists>uf. union_all example_ops es (uf_new example_ops n) = Some uf \<and>
    (sizes_ok uf \<and> uf_size uf = n \<and> (\<forall>i < n. \<forall>j < n. immutable_find uf i = immutable_find uf j \<longleftrightarrow>
       (i, j) \<in> connected (set es)))"
  using assms
proof (induction es rule: rev_induct)
  case Nil
  have "immutable_find (uf_new example_ops n) i = Some i" if "i < n" for i
    using that by (simp add: immutable_find_def uf_new_simps find_root_walk_Some leads_upt)
  then show ?case
    by (simp add: union_all_def sizes_ok_new uf_size_def uf_new_simps connected_def)
next
  case (snoc e es)
  obtain a b where e: "e = (a, b)" by force
  from snoc.prems e have ab: "a < n" "b < n" by auto
  have "\<forall>(a, b) \<in> set es. a < n \<and> b < n" using snoc.prems by auto
  from snoc.IH [OF this] obtain uf where uf:
      "union_all example_ops es (uf_new example_ops n) = Some uf" "sizes_ok uf" "uf_size uf = n"
      and conn: "\<And>i j. i < n \<Longrightarrow> j < n \<Longrightarrow> immutable_find uf i = immutable_find uf j \<longleftrightarrow>
         (i, j) \<in> connected (set es)" by blast
  have forest: "uf_forest uf" using uf(2) by (simp add: sizes_ok_def)
  obtain uf' m where u: "uf_union example_ops a b uf = Some (m, uf')" "uf_size uf' = n"
      and merge: "\<forall>i < n. \<forall>j < n.
       immutable_find uf' i = immutable_find uf' j \<longleftrightarrow>
       immutable_find uf i = immutable_find uf j \<or>
       immutable_find uf i \<in> {immutable_find uf a, immutable_find uf b} \<and>
       immutable_find uf j \<in> {immutable_find uf a, immutable_find uf b}"
    using union_classes_step [OF forest, of a b example_ops] uf(3) ab by auto
  have "sizes_ok uf'" using sizes_ok_union [OF uf(2)] ab uf(3) u(1) by force
  moreover have "union_all example_ops (es @ [e]) (uf_new example_ops n) = Some uf'"
    using uf(1) u(1) e by (simp add: union_all_def ofold_snoc)
  moreover have "immutable_find uf' i = immutable_find uf' j \<longleftrightarrow> (i, j) \<in> connected (set (es @ [e]))"
    if "i < n" "j < n" for i j
    using merge that ab e by (simp add: connected_insert conn)
  ultimately show ?case using u(2) by blast
qed

text \<open>C37. After any run of in-range unions on a fresh structure, which never fails, two nodes have the
  same root exactly when the united pairs connect them, and the payload \<open>get\<close> returns for a node
  is the number of nodes in its class.\<close>

theorem union_run_correct:
  assumes "\<forall>(a, b) \<in> set es. a < n \<and> b < n"
  shows "\<exists>uf. union_all example_ops es (uf_new example_ops n) = Some uf \<and>
    (\<forall>i < n. \<forall>j < n. immutable_find uf i = immutable_find uf j \<longleftrightarrow> (i, j) \<in> connected (set es)) \<and>
    (\<forall>i < n. \<exists>node uf'. uf_get i uf = Some (node, uf') \<and>
       set_size node = card {j. j < n \<and> (i, j) \<in> connected (set es)})"
proof -
  obtain uf where uf: "union_all example_ops es (uf_new example_ops n) = Some uf" "sizes_ok uf"
      "uf_size uf = n" and conn: "\<And>i j. i < n \<Longrightarrow> j < n \<Longrightarrow> immutable_find uf i = immutable_find uf j \<longleftrightarrow>
         (i, j) \<in> connected (set es)"
    using union_all_inv [OF assms] by blast
  have forest: "uf_forest uf" using uf(2) by (simp add: sizes_ok_def)
  have "\<exists>node uf'. uf_get i uf = Some (node, uf') \<and>
       set_size node = card {j. j < n \<and> (i, j) \<in> connected (set es)}" if i: "i < n" for i
  proof -
    obtain r where r: "leads (link_parent uf) i r" "r < n"
      using uf_forest_leads [OF forest] i uf(3) by metis
    obtain uf' where uf': "uf_find i uf = Some (r, uf')" "payload uf' = payload uf"
      using uf_find_Some [OF forest r(1)] by blast
    have "j < n \<and> (i, j) \<in> connected (set es) \<longleftrightarrow> leads (link_parent uf) j r" for j
    proof (cases "j < n")
      case True
      then obtain s where s: "leads (link_parent uf) j s"
        using uf_forest_leads [OF forest] uf(3) by metis
      with True i r(1) conn [of i j] show ?thesis
        by (auto simp: immutable_find_def find_root_walk_Some dest: leads_unique)
    next
      case False
      then show ?thesis using uf(3) forest by (auto simp: uf_size_def uf_forest_def dest: leads_bound)
    qed
    moreover have "leads (link_parent uf) r r" using leads_root [OF r(1)] by (auto intro: at_root)
    ultimately show ?thesis using uf uf' r(2) by (simp add: uf_get_def sizes_ok_def uf_size_def)
  qed
  with uf(1) conn show ?thesis by blast
qed

theorem union_run_correct_witness:
  "\<exists>uf. union_all example_ops [(0, 1), (2, 1)] (uf_new example_ops 4) = Some uf \<and>
     immutable_find uf 0 = immutable_find uf 2"
proof -
  have "\<forall>(a, b) \<in> set [(0 :: nat, 1), (2, 1)]. a < 4 \<and> b < (4 :: nat)" by simp
  from union_run_correct [OF this] show ?thesis
    by (auto simp: connected_insert connected_refl)
qed

theorem find_agrees_with_immutable_find_witness:
  "\<exists>r uf'. uf_find 1 (uf_new example_ops 3) = Some (r, uf') \<and> immutable_find (uf_new example_ops 3) 1 = Some r \<and>
    r < uf_size (uf_new example_ops 3) \<and> uf_forest uf' \<and> payload uf' = payload (uf_new example_ops 3) \<and>
    (\<forall>k < uf_size (uf_new example_ops 3). immutable_find uf' k = immutable_find (uf_new example_ops 3) k)"
  by (rule find_agrees_with_immutable_find)
    (use sizes_ok_new [of 3] in \<open>simp_all add: sizes_ok_def uf_size_def uf_new_simps\<close>)

theorem union_merges_classes_witness:
  "\<exists>uf' merged. uf_union example_ops 0 2 (uf_new example_ops 3) = Some (merged, uf') \<and>
    (immutable_find uf' 0 = immutable_find uf' 2)"
  using union_merges_classes [of "uf_new example_ops 3" 0 2 example_ops] sizes_ok_new [of 3]
  by (auto simp: sizes_ok_def uf_size_def uf_new_simps)

end
