(* ===== verification/Gf2.thy ===== *)
theory Gf2
  imports Prelude
begin

text \<open>
  Linear algebra over GF(2), the mathematical side of the bit matrices: a matrix is its entries
  \<open>nat \<Rightarrow> nat \<Rightarrow> bool\<close>, addition is \<open>\<noteq>\<close>, multiplication \<open>\<and>\<close>, and \<open>xsum n f\<close> is the sum of
  \<open>f 0, \<dots>, f (n - 1)\<close>.  Reduced row echelon form and the facts the algorithms need about
  it are stated here once.
\<close>

type_synonym bvec = "nat \<Rightarrow> bool"
type_synonym bmat = "nat \<Rightarrow> nat \<Rightarrow> bool"

named_theorems gf2 \<comment> \<open>algebra of finite sums over GF(2)\<close>

primrec xsum :: "nat \<Rightarrow> (nat \<Rightarrow> bool) \<Rightarrow> bool" where
  "xsum 0 f = False"
| "xsum (Suc n) f = (xsum n f \<noteq> f n)"

lemma xsum_cong [cong]: "m = n \<Longrightarrow> (\<And>i. i < n \<Longrightarrow> f i = g i) \<Longrightarrow> xsum m f = xsum n g"
proof -
  have "(\<And>i. i < n \<Longrightarrow> f i = g i) \<Longrightarrow> xsum n f = xsum n g" by (induction n) auto
  then show "m = n \<Longrightarrow> (\<And>i. i < n \<Longrightarrow> f i = g i) \<Longrightarrow> xsum m f = xsum n g" by simp
qed

lemma xsum_False [simp]: "xsum n (\<lambda>_. False) = False"
  by (induction n) auto

lemma xsum_zero: "(\<And>i. i < n \<Longrightarrow> \<not> f i) \<Longrightarrow> \<not> xsum n f"
  by (induction n) auto

lemma xsum_xor [gf2]: "xsum n (\<lambda>i. f i \<noteq> g i) = (xsum n f \<noteq> xsum n g)"
  by (induction n) auto

lemma xsum_and [gf2]: "xsum n (\<lambda>i. c \<and> f i) = (c \<and> xsum n f)"
  by (induction n) auto

lemma xsum_and_right [gf2]: "xsum n (\<lambda>i. f i \<and> c) = (xsum n f \<and> c)"
  by (induction n) auto

lemma xsum_swap: "xsum m (\<lambda>i. xsum n (\<lambda>j. f i j)) = xsum n (\<lambda>j. xsum m (\<lambda>i. f i j))"
proof (induction m)
  case 0
  then show ?case by simp
next
  case (Suc m)
  have "xsum n (\<lambda>j. xsum (Suc m) (\<lambda>i. f i j)) = xsum n (\<lambda>j. xsum m (\<lambda>i. f i j) \<noteq> f m j)"
    by (simp only: xsum.simps)
  also have "\<dots> = xsum (Suc m) (\<lambda>i. xsum n (\<lambda>j. f i j))"
    unfolding xsum_xor xsum.simps Suc.IH ..
  finally show ?case ..
qed

text \<open>Bilinearity of the inner product, in the two forms the simplifier does not disturb.\<close>

lemma xsum_dist_left:
  "xsum n (\<lambda>k. (f k \<noteq> g k) \<and> h k) = (xsum n (\<lambda>k. f k \<and> h k) \<noteq> xsum n (\<lambda>k. g k \<and> h k))"
proof -
  have "(\<lambda>k. (f k \<noteq> g k) \<and> h k) = (\<lambda>k. (f k \<and> h k) \<noteq> (g k \<and> h k))" by auto
  then show ?thesis by (simp only: xsum_xor)
qed

lemma xsum_dist_right:
  "xsum n (\<lambda>k. h k \<and> (f k \<noteq> g k)) = (xsum n (\<lambda>k. h k \<and> f k) \<noteq> xsum n (\<lambda>k. h k \<and> g k))"
proof -
  have "(\<lambda>k. h k \<and> (f k \<noteq> g k)) = (\<lambda>k. (h k \<and> f k) \<noteq> (h k \<and> g k))" by auto
  then show ?thesis by (simp only: xsum_xor)
qed

lemma xsum_delta: "xsum n (\<lambda>k. k = i \<and> f k) \<longleftrightarrow> i < n \<and> f i"
  by (induction n) (auto simp: less_Suc_eq)

lemma xsum_delta2: "xsum n (\<lambda>k. f k \<and> k = i) \<longleftrightarrow> i < n \<and> f i"
  using xsum_delta [of n i f] by (simp add: conj_commute)

lemma xsum_delta3: "xsum n (\<lambda>k. i = k \<and> f k) \<longleftrightarrow> i < n \<and> f i"
  using xsum_delta [of n i f] by (simp add: eq_commute [of i])

lemma xsum_delta4: "xsum n (\<lambda>k. f k \<and> i = k) \<longleftrightarrow> i < n \<and> f i"
  using xsum_delta3 [of n i f] by (simp add: conj_commute)

lemmas xsum_deltas = xsum_delta xsum_delta2 xsum_delta3 xsum_delta4

lemma xsum_extend:
  assumes "m \<le> n" "\<And>i. m \<le> i \<Longrightarrow> i < n \<Longrightarrow> \<not> f i"
  shows "xsum n f = xsum m f"
proof -
  have "n = m + d \<Longrightarrow> (\<And>i. m \<le> i \<Longrightarrow> i < m + d \<Longrightarrow> \<not> f i) \<Longrightarrow> xsum (m + d) f = xsum m f" for d
    by (induction d arbitrary: n) auto
  with assms show ?thesis by (metis le_iff_add)
qed

lemma xsum_append: "xsum (m + n) f = (xsum m f \<noteq> xsum n (\<lambda>i. f (m + i)))"
  by (induction n) auto

lemma xsum_odd_card: "xsum n f \<longleftrightarrow> odd (card {i. i < n \<and> f i})"
proof (induction n)
  case 0
  then show ?case by simp
next
  case (Suc n)
  have "{i. i < Suc n \<and> f i} = (if f n then insert n {i. i < n \<and> f i} else {i. i < n \<and> f i})"
    by (auto simp: less_Suc_eq)
  with Suc show ?case by simp
qed

lemma xsum_remove: "a < n \<Longrightarrow> xsum n f = (f a \<noteq> xsum n (\<lambda>k. k \<noteq> a \<and> f k))"
proof -
  assume a: "a < n"
  have "f = (\<lambda>k. (k = a \<and> f k) \<noteq> (k \<noteq> a \<and> f k))" by auto
  then have "xsum n f = xsum n (\<lambda>k. (k = a \<and> f k) \<noteq> (k \<noteq> a \<and> f k))" by (rule arg_cong)
  with a show ?thesis by (simp only: xsum_xor xsum_delta) simp
qed

lemma xsum_swap_index:
  assumes "a < n" "b < n"
  shows "xsum n (\<lambda>k. f (if k = a then b else if k = b then a else k)) = xsum n f"
proof (cases "a = b")
  case True
  show ?thesis by (rule xsum_cong) (use True in auto)
next
  case False
  let ?g = "\<lambda>k. f (if k = a then b else if k = b then a else k)"
  have rest: "xsum n (\<lambda>k. k \<noteq> b \<and> k \<noteq> a \<and> ?g k) = xsum n (\<lambda>k. k \<noteq> b \<and> k \<noteq> a \<and> f k)"
    by (rule xsum_cong) auto
  have split: "xsum n h = (h a \<noteq> (h b \<noteq> xsum n (\<lambda>k. k \<noteq> b \<and> k \<noteq> a \<and> h k)))" for h
    using xsum_remove [OF assms(1), of h] xsum_remove [OF assms(2), of "\<lambda>k. k \<noteq> a \<and> h k"] False
    by simp
  show ?thesis using split [of ?g] split [of f] rest False by auto
qed

section \<open>Matrices\<close>

text \<open>\<open>mmul n A B\<close> has inner dimension \<open>n\<close>; \<open>mvec n A v\<close> is \<open>A v\<close> and \<open>comb r c A\<close> is the
  combination of the rows of \<open>A\<close> with coefficients \<open>c\<close>.\<close>

definition mmul :: "nat \<Rightarrow> bmat \<Rightarrow> bmat \<Rightarrow> bmat" where
  "mmul n A B = (\<lambda>i j. xsum n (\<lambda>k. A i k \<and> B k j))"

definition mvec :: "nat \<Rightarrow> bmat \<Rightarrow> bvec \<Rightarrow> bvec" where
  "mvec n A v = (\<lambda>i. xsum n (\<lambda>k. A i k \<and> v k))"

definition comb :: "nat \<Rightarrow> bvec \<Rightarrow> bmat \<Rightarrow> bvec" where
  "comb r c A = (\<lambda>j. xsum r (\<lambda>i. c i \<and> A i j))"

definition mident :: bmat where
  "mident = (\<lambda>i j. i = j)"

definition mtrans :: "bmat \<Rightarrow> bmat" where
  "mtrans A = (\<lambda>i j. A j i)"

lemma mmul_assoc: "mmul n (mmul m A B) C i j = mmul m A (mmul n B C) i j"
proof -
  have "xsum n (\<lambda>k. xsum m (\<lambda>l. A i l \<and> B l k) \<and> C k j) =
      xsum n (\<lambda>k. xsum m (\<lambda>l. A i l \<and> B l k \<and> C k j))"
    by (simp flip: xsum_and_right add: conj_assoc)
  also have "\<dots> = xsum m (\<lambda>l. xsum n (\<lambda>k. A i l \<and> B l k \<and> C k j))" by (rule xsum_swap)
  also have "\<dots> = xsum m (\<lambda>l. A i l \<and> xsum n (\<lambda>k. B l k \<and> C k j))" by (simp add: xsum_and)
  finally show ?thesis by (simp add: mmul_def)
qed

lemma mvec_mmul: "mvec n (mmul m A B) v i = mvec m A (mvec n B v) i"
  using mmul_assoc [of n m A B "\<lambda>k _. v k"] by (simp add: mvec_def mmul_def)

lemma comb_mmul: "comb r c (mmul m A B) j = comb m (comb r c A) B j"
  using mmul_assoc [of m r "\<lambda>_. c" A B] by (simp add: comb_def mmul_def)

lemma mvec_xor [gf2]: "mvec n A (\<lambda>k. v k \<noteq> w k) i = (mvec n A v i \<noteq> mvec n A w i)"
  unfolding mvec_def by (rule xsum_dist_right)

lemma mvec_mident: "i < n \<Longrightarrow> mvec n mident v i = v i"
  by (simp add: mvec_def mident_def xsum_deltas)

lemma comb_mident: "j < n \<Longrightarrow> comb n c mident j = c j"
  by (simp add: comb_def mident_def xsum_deltas)

text \<open>A left inverse of a square matrix is a right inverse: stated for a transform kept together
  with the transpose of its inverse, as the echelon form keeps them.\<close>

definition mutual_inverse :: "nat \<Rightarrow> bmat \<Rightarrow> bmat \<Rightarrow> bool" where
  "mutual_inverse r T U \<longleftrightarrow> (\<forall>i < r. \<forall>j < r. mmul r T (mtrans U) i j = (i = j)) \<and>
     (\<forall>i < r. \<forall>j < r. mmul r (mtrans U) T i j = (i = j))"

definition in_row_space :: "nat \<Rightarrow> nat \<Rightarrow> bmat \<Rightarrow> bvec \<Rightarrow> bool" where
  "in_row_space r n A v \<longleftrightarrow> (\<exists>c. \<forall>j < n. v j = comb r c A j)"

definition in_kernel :: "nat \<Rightarrow> nat \<Rightarrow> bmat \<Rightarrow> bvec \<Rightarrow> bool" where
  "in_kernel r n A v \<longleftrightarrow> (\<forall>i < r. \<not> mvec n A v i)"

text \<open>Row operations.\<close>

definition swap_index :: "nat \<Rightarrow> nat \<Rightarrow> nat \<Rightarrow> nat" where
  "swap_index a b k = (if k = a then b else if k = b then a else k)"

definition row_add :: "nat \<Rightarrow> nat \<Rightarrow> bmat \<Rightarrow> bmat" where
  "row_add t f A = (\<lambda>i j. if i = t then A t j \<noteq> A f j else A i j)"

definition row_swap :: "nat \<Rightarrow> nat \<Rightarrow> bmat \<Rightarrow> bmat" where
  "row_swap a b A = (\<lambda>i. A (swap_index a b i))"

lemma row_add_same: "row_add t f A t = (\<lambda>j. A t j \<noteq> A f j)"
  by (simp add: row_add_def)

lemma row_add_other: "i \<noteq> t \<Longrightarrow> row_add t f A i = A i"
  by (simp add: row_add_def)

lemma swap_index_bound: "a < n \<Longrightarrow> b < n \<Longrightarrow> swap_index a b k < n \<longleftrightarrow> k < n"
  by (auto simp: swap_index_def)

lemma swap_index_inj [simp]: "swap_index a b i = swap_index a b j \<longleftrightarrow> i = j"
  by (auto simp: swap_index_def)

lemma swap_index_self [simp]: "swap_index a b (swap_index a b k) = k" "swap_index a a k = k"
  by (auto simp: swap_index_def)

lemma mmul_row_add: "mmul n (row_add t f A) B = row_add t f (mmul n A B)"
proof (intro ext)
  fix i j
  show "mmul n (row_add t f A) B i j = row_add t f (mmul n A B) i j"
    by (cases "i = t") (simp_all only: mmul_def row_add_same row_add_other xsum_dist_left not_False_eq_True)
qed

lemma mmul_row_swap: "mmul n (row_swap a b A) B = row_swap a b (mmul n A B)"
  by (simp add: mmul_def row_swap_def fun_eq_iff)

text \<open>Applying a row addition to a transform and the opposite one to its inverse's transpose, or
  the same swap to both, keeps them mutually inverse.\<close>

lemma mutual_inverse_ident: "mutual_inverse r mident mident"
  by (auto simp: mutual_inverse_def mmul_def mident_def mtrans_def xsum_deltas)

lemma mutual_inverse_swap:
  assumes "mutual_inverse r T U" "a < r" "b < r"
  shows "mutual_inverse r (row_swap a b T) (row_swap a b U)"
proof -
  have "mmul r (row_swap a b T) (mtrans (row_swap a b U)) i j =
      mmul r T (mtrans U) (swap_index a b i) (swap_index a b j)" for i j
    by (simp add: mmul_def mtrans_def row_swap_def)
  moreover have "mmul r (mtrans (row_swap a b U)) (row_swap a b T) i j = mmul r (mtrans U) T i j" for i j
    using xsum_swap_index [OF assms(2,3), of "\<lambda>k. U k i \<and> T k j"]
    by (simp add: mmul_def mtrans_def row_swap_def swap_index_def)
  ultimately show ?thesis
    using assms by (simp add: mutual_inverse_def swap_index_bound)
qed

lemma mutual_inverse_add:
  assumes "mutual_inverse r T U" "t < r" "f < r" "t \<noteq> f"
  shows "mutual_inverse r (row_add t f T) (row_add f t U)"
proof -
  note dot = xsum_dist_left xsum_dist_right
  have TU: "i < r \<Longrightarrow> j < r \<Longrightarrow> xsum r (\<lambda>k. T i k \<and> U j k) = (i = j)" for i j
    using assms(1) by (simp add: mutual_inverse_def mmul_def mtrans_def)
  have left: "mmul r (row_add t f T) (mtrans (row_add f t U)) i j = (i = j)" if ij: "i < r" "j < r" for i j
  proof -
    have "mmul r (row_add t f T) (mtrans (row_add f t U)) i j =
        ((i = j) \<noteq> ((i = t \<and> f = j) \<noteq> (j = f \<and> i = t)))"
    proof (cases "i = t"; cases "j = f")
      assume c: "i = t" "j = f"
      show ?thesis unfolding c mmul_def mtrans_def row_add_same dot
        by (simp add: TU assms(2-3)) (use assms(4) in auto)
    next
      assume c: "i = t" "j \<noteq> f"
      show ?thesis unfolding c mmul_def mtrans_def row_add_same row_add_other [OF c(2)] dot
        by (simp add: TU assms(2-3) ij) (use c in auto)
    next
      assume c: "i \<noteq> t" "j = f"
      show ?thesis unfolding c mmul_def mtrans_def row_add_same row_add_other [OF c(1)] dot
        by (simp add: TU assms(2-3) ij) (use c in auto)
    next
      assume c: "i \<noteq> t" "j \<noteq> f"
      show ?thesis unfolding mmul_def mtrans_def row_add_other [OF c(1)] row_add_other [OF c(2)]
        by (simp add: TU ij c)
    qed
    then show ?thesis by auto
  qed
  have right: "mmul r (mtrans (row_add f t U)) (row_add t f T) i j = mmul r (mtrans U) T i j" for i j
  proof -
    let ?h = "\<lambda>k. row_add f t U k i \<and> row_add t f T k j" and ?g = "\<lambda>k. U k i \<and> T k j"
    have rest: "xsum r (\<lambda>k. k \<noteq> f \<and> k \<noteq> t \<and> ?h k) = xsum r (\<lambda>k. k \<noteq> f \<and> k \<noteq> t \<and> ?g k)"
      by (rule xsum_cong) (auto simp: row_add_def)
    have split: "xsum r h = (h t \<noteq> (h f \<noteq> xsum r (\<lambda>k. k \<noteq> f \<and> k \<noteq> t \<and> h k)))" for h
      using xsum_remove [OF assms(2), of h] xsum_remove [OF assms(3), of "\<lambda>k. k \<noteq> t \<and> h k"] assms(4)
      by simp
    have "(?h t \<noteq> ?h f) = (?g t \<noteq> ?g f)" using assms(4) by (auto simp: row_add_def)
    then show ?thesis unfolding mmul_def mtrans_def using split [of ?h] split [of ?g] rest by auto
  qed
  show ?thesis using assms(1) left right by (simp add: mutual_inverse_def)
qed

section \<open>Reduced row echelon form\<close>

text \<open>\<open>rref_upto r A piv c\<close>: the first \<open>length piv\<close> rows are reduced with pivot columns \<open>piv\<close>, and
  every later row is zero left of column \<open>c\<close>.\<close>

definition rref_upto :: "nat \<Rightarrow> bmat \<Rightarrow> nat list \<Rightarrow> nat \<Rightarrow> bool" where
  "rref_upto r A piv c \<longleftrightarrow> length piv \<le> r \<and> sorted_wrt (<) piv \<and> (\<forall>p \<in> set piv. p < c) \<and>
     (\<forall>k < length piv. \<forall>i < r. A i (piv ! k) = (i = k)) \<and>
     (\<forall>k < length piv. \<forall>j < piv ! k. \<not> A k j) \<and>
     (\<forall>i < r. length piv \<le> i \<longrightarrow> (\<forall>j < c. \<not> A i j))"

abbreviation rref :: "nat \<Rightarrow> nat \<Rightarrow> bmat \<Rightarrow> nat list \<Rightarrow> bool" where
  "rref r n A piv \<equiv> rref_upto r A piv n"

text \<open>Clearing the pivot column with the pivot row.\<close>

definition eliminate :: "nat \<Rightarrow> nat \<Rightarrow> bmat \<Rightarrow> bmat" where
  "eliminate p c A = (\<lambda>i j. if i = p then A p j else A i j \<noteq> (A i c \<and> A p j))"

lemma rref_upto_step:
  assumes "rref_upto r A piv c" "length piv \<le> p" "p < r" "c \<le> c'" "A p c'"
    and zero: "\<And>i j. length piv \<le> i \<Longrightarrow> i < r \<Longrightarrow> j < c' \<Longrightarrow> \<not> A i j"
  shows "rref_upto r (eliminate (length piv) c' (row_swap p (length piv) A)) (piv @ [c']) (Suc c')"
proof -
  let ?l = "length piv"
  let ?S = "row_swap p ?l A"
  let ?E = "eliminate ?l c' ?S"
  have l: "?l < r" using assms by linarith
  have S: "?S ?l c'" "\<And>j. j < c' \<Longrightarrow> \<not> ?S ?l j"
    using assms by (auto simp: row_swap_def swap_index_def)
  have piv_lt: "piv ! k < c'" if "k < ?l" for k
    using assms(1,4) that by (auto simp: rref_upto_def intro: less_le_trans)
  have same: "?S i j = A i j" if "i < ?l" for i j
    using that assms(2) by (auto simp: row_swap_def swap_index_def)
  have low: "\<not> ?S i j" if "?l \<le> i" "i < r" "j < c'" for i j
    using that zero [of "swap_index p ?l i" j] assms(2,3) l
    by (auto simp: row_swap_def swap_index_def split: if_splits)
  have left: "?E i j = ?S i j" if "j < c'" for i j
    using that S(2) by (auto simp: eliminate_def)
  have col: "?E i c' = (i = ?l)" if "i < r" for i
    using S(1) by (auto simp: eliminate_def)
  have old: "?E i (piv ! k) = (i = k)" if k: "k < ?l" "i < r" for i k
  proof (cases "i < ?l")
    case True
    with k assms(1) show ?thesis by (auto simp: left piv_lt same rref_upto_def)
  next
    case False
    with k show ?thesis by (auto simp: left piv_lt low)
  qed
  show ?thesis unfolding rref_upto_def
  proof (intro conjI)
    show "length (piv @ [c']) \<le> r" using l by simp
    show "sorted_wrt (<) (piv @ [c'])"
      using assms(1,4) by (auto simp: rref_upto_def sorted_wrt_append intro: less_le_trans)
    show "\<forall>q \<in> set (piv @ [c']). q < Suc c'"
      using assms(1,4) by (auto simp: rref_upto_def intro: less_le_trans less_SucI)
    show "\<forall>k < length (piv @ [c']). \<forall>i < r. ?E i ((piv @ [c']) ! k) = (i = k)"
      using old col by (auto simp: nth_append less_Suc_eq)
    show "\<forall>k < length (piv @ [c']). \<forall>j < (piv @ [c']) ! k. \<not> ?E k j"
    proof (intro allI impI)
      fix k j assume k: "k < length (piv @ [c'])" "j < (piv @ [c']) ! k"
      show "\<not> ?E k j"
      proof (cases "k < ?l")
        case True
        with k have "j < piv ! k" by (simp add: nth_append)
        with True piv_lt [OF True] assms(1) show ?thesis
          by (simp add: left same rref_upto_def)
      next
        case False
        with k have "k = ?l" "j < c'" by (auto simp: nth_append less_Suc_eq)
        with S(2) show ?thesis by (simp add: left)
      qed
    qed
    show "\<forall>i < r. length (piv @ [c']) \<le> i \<longrightarrow> (\<forall>j < Suc c'. \<not> ?E i j)"
      using low left col by (auto simp: less_Suc_eq)
  qed
qed

lemma rref_upto_skip:
  assumes "rref_upto r A piv c" "c \<le> c'"
    and "\<And>i j. length piv \<le> i \<Longrightarrow> i < r \<Longrightarrow> j < c' \<Longrightarrow> \<not> A i j"
  shows "rref_upto r A piv c'"
  using assms unfolding rref_upto_def by (meson less_le_trans)

end
