(* ===== verification/Bitwise.thy ===== *)
theory Bitwise
  imports Bit_Store Gf2
begin

text \<open>
  The bit containers of binar, bottom up: an unsigned integer (\<open>bit/bitwise_via_std.rs\<close>), a
  slice of blocks (\<open>bit/bitwise_for_slice.rs\<close>) and a fixed-size array of blocks
  (\<open>bit/bitwise_for_arrays.rs\<close>).  The traits \<open>Bitwise\<close>, \<open>BitwiseMut\<close>, \<open>BitwisePair\<close> and
  \<open>BitwisePairMut\<close> are the locale \<open>bitwise\<close>; a block type, whose length is a constant, is
  \<open>bitwise_block\<close>.  The slice operations are higher order, as the Rust traits are generic in
  the block type, and one \<open>sublocale\<close> proves that a slice over any block type that meets the
  contract meets it again; the theories of concrete containers only interpret.
\<close>

section \<open>Supports\<close>

text \<open>The set positions below \<open>n\<close>, ascending: what \<open>Bitwise::support\<close> promises to yield.\<close>

definition supp :: "nat \<Rightarrow> (nat \<Rightarrow> bool) \<Rightarrow> nat list" where
  "supp n f = filter f [0..<n]"

definition first_of :: "'a list \<Rightarrow> 'a option" where
  "first_of xs = (case xs of [] \<Rightarrow> None | x # _ \<Rightarrow> Some x)"

definition last_of :: "'a list \<Rightarrow> 'a option" where
  "last_of xs = (case xs of [] \<Rightarrow> None | _ # _ \<Rightarrow> Some (last xs))"

lemma supp_simps [simp]: "supp 0 f = []" "supp (Suc n) f = supp n f @ (if f n then [n] else [])"
  by (simp_all add: supp_def)

lemma set_supp [simp]: "set (supp n f) = {i. i < n \<and> f i}"
  by (auto simp: supp_def)

lemma distinct_supp [simp]: "distinct (supp n f)"
  by (simp add: supp_def)

lemma sorted_supp [simp]: "sorted (supp n f)"
  by (simp add: supp_def sorted_wrt_filter)

lemma supp_cong: "(\<And>i. i < n \<Longrightarrow> f i = g i) \<Longrightarrow> supp n f = supp n g"
  unfolding supp_def by (rule filter_cong) auto

lemma odd_supp: "odd (length (supp n f)) = xsum n f"
  by (induction n) auto

lemma supp_Nil_iff: "supp n f = [] \<longleftrightarrow> (\<forall>i < n. \<not> f i)"
  by (induction n) (auto simp: less_Suc_eq)

lemma supp_single_iff: "length (supp n f) = 1 \<and> f i \<longleftrightarrow> (\<forall>j < n. f j = (j = i))" if "i < n"
proof
  assume a: "length (supp n f) = 1 \<and> f i"
  then obtain x where x: "supp n f = [x]" by (metis One_nat_def length_0_conv length_Suc_conv)
  then have "{j. j < n \<and> f j} = {x}" using set_supp [of n f] by simp
  with a that show "\<forall>j < n. f j = (j = i)" by (metis (mono_tags, lifting) mem_Collect_eq singletonD)
next
  assume a: "\<forall>j < n. f j = (j = i)"
  then have "supp n f = supp n (\<lambda>j. j = i)" by (intro supp_cong) simp
  moreover have "supp m (\<lambda>j. j = i) = (if i < m then [i] else [])" for m
    by (induction m) (auto simp: less_Suc_eq)
  ultimately show "length (supp n f) = 1 \<and> f i" using a that by simp
qed

lemma first_of_map: "first_of (map g xs) = map_option g (first_of xs)"
  by (cases xs) (auto simp: first_of_def)

lemma last_of_map: "last_of (map g xs) = map_option g (last_of xs)"
  by (cases xs) (auto simp: last_of_def last_map)

lemma last_of_append: "last_of (xs @ ys) = (case last_of ys of None \<Rightarrow> last_of xs | Some y \<Rightarrow> Some y)"
  by (cases xs; cases ys) (auto simp: last_of_def)

lemma first_of_append: "first_of (xs @ ys) = (case first_of xs of None \<Rightarrow> first_of ys | Some x \<Rightarrow> Some x)"
  by (cases xs; cases ys) (auto simp: first_of_def)

lemma first_of_Nil [simp]: "first_of [] = None" "last_of [] = None"
  by (simp_all add: first_of_def last_of_def)

lemma last_of_single: "last_of [x] = Some x" "first_of [x] = Some x"
  by (simp_all add: first_of_def last_of_def)

lemma upt_blocks: "[0..<n * L] = concat (map (\<lambda>k. map (\<lambda>i. k * L + i) [0..<L]) [0..<n])"
proof (induction n)
  case 0
  then show ?case by simp
next
  case (Suc n)
  have "[0..<Suc n * L] = [0..<n * L] @ [n * L..<n * L + L]"
    by (metis add.commute mult_Suc upt_add_eq_append zero_le)
  also have "[n * L..<n * L + L] = map (\<lambda>i. n * L + i) [0..<L]"
    using map_add_upt [of "n * L" L] by (simp add: add.commute)
  finally show ?case using Suc by simp
qed

section \<open>The contract of the bit traits\<close>

locale bitwise = bit_store invar len bits idx assign negate
  for invar :: "'s \<Rightarrow> bool" and len bits idx assign negate +
  fixes clear :: "'s \<Rightarrow> 's"
    and weight :: "'s \<Rightarrow> nat"
    and parity :: "'s \<Rightarrow> bool"
    and is_zero :: "'s \<Rightarrow> bool"
    and is_unit :: "'s \<Rightarrow> nat \<Rightarrow> bool option"
    and min_support :: "'s \<Rightarrow> nat option"
    and max_support :: "'s \<Rightarrow> nat option"
    and support :: "'s \<Rightarrow> nat list"
    and dot :: "'s \<Rightarrow> 's \<Rightarrow> bool"
    and and_weight :: "'s \<Rightarrow> 's \<Rightarrow> nat"
    and or_weight :: "'s \<Rightarrow> 's \<Rightarrow> nat"
    and xor_weight :: "'s \<Rightarrow> 's \<Rightarrow> nat"
    and copy_from :: "'s \<Rightarrow> 's \<Rightarrow> 's"
    and xor_assign :: "'s \<Rightarrow> 's \<Rightarrow> 's"
    and and_assign :: "'s \<Rightarrow> 's \<Rightarrow> 's"
    and or_assign :: "'s \<Rightarrow> 's \<Rightarrow> 's"
  assumes bits_bound: "invar s \<Longrightarrow> bits s i \<Longrightarrow> i < len s"
    and clear: "invar s \<Longrightarrow> invar (clear s) \<and> len (clear s) = len s \<and> bits (clear s) = (\<lambda>_. False)"
    and weight: "invar s \<Longrightarrow> weight s = length (supp (len s) (bits s))"
    and parity: "invar s \<Longrightarrow> parity s = xsum (len s) (bits s)"
    and is_zero: "invar s \<Longrightarrow> is_zero s \<longleftrightarrow> (\<forall>i < len s. \<not> bits s i)"
    and is_unit: "invar s \<Longrightarrow> i < len s \<Longrightarrow> is_unit s i = Some (\<forall>j < len s. bits s j = (j = i))"
    and min_support: "invar s \<Longrightarrow> min_support s = first_of (supp (len s) (bits s))"
    and max_support: "invar s \<Longrightarrow> max_support s = last_of (supp (len s) (bits s))"
    and support: "invar s \<Longrightarrow> support s = supp (len s) (bits s)"
    and dot: "invar s \<Longrightarrow> invar t \<Longrightarrow> len s = len t \<Longrightarrow>
      dot s t = xsum (len s) (\<lambda>i. bits s i \<and> bits t i)"
    and and_weight: "invar s \<Longrightarrow> invar t \<Longrightarrow> len s = len t \<Longrightarrow>
      and_weight s t = length (supp (len s) (\<lambda>i. bits s i \<and> bits t i))"
    and or_weight: "invar s \<Longrightarrow> invar t \<Longrightarrow> len s = len t \<Longrightarrow>
      or_weight s t = length (supp (len s) (\<lambda>i. bits s i \<or> bits t i))"
    and xor_weight: "invar s \<Longrightarrow> invar t \<Longrightarrow> len s = len t \<Longrightarrow>
      xor_weight s t = length (supp (len s) (\<lambda>i. bits s i \<noteq> bits t i))"
    and copy_from: "invar s \<Longrightarrow> invar t \<Longrightarrow> len s = len t \<Longrightarrow>
      invar (copy_from s t) \<and> len (copy_from s t) = len s \<and> bits (copy_from s t) = bits t"
    and xor_assign: "invar s \<Longrightarrow> invar t \<Longrightarrow> len s = len t \<Longrightarrow>
      invar (xor_assign s t) \<and> len (xor_assign s t) = len s \<and>
      bits (xor_assign s t) = (\<lambda>i. bits s i \<noteq> bits t i)"
    and and_assign: "invar s \<Longrightarrow> invar t \<Longrightarrow> len s = len t \<Longrightarrow>
      invar (and_assign s t) \<and> len (and_assign s t) = len s \<and>
      bits (and_assign s t) = (\<lambda>i. bits s i \<and> bits t i)"
    and or_assign: "invar s \<Longrightarrow> invar t \<Longrightarrow> len s = len t \<Longrightarrow>
      invar (or_assign s t) \<and> len (or_assign s t) = len s \<and>
      bits (or_assign s t) = (\<lambda>i. bits s i \<or> bits t i)"
begin

lemma parity_weight: "invar s \<Longrightarrow> parity s = odd (weight s)"
  by (simp add: parity weight odd_supp)

lemma zero_support: "invar s \<Longrightarrow> is_zero s \<longleftrightarrow> support s = []"
  by (simp add: is_zero support supp_Nil_iff)

lemma weight_inclusion: "invar s \<Longrightarrow> invar t \<Longrightarrow> len s = len t \<Longrightarrow>
  xor_weight s t + 2 * and_weight s t = weight s + weight t"
proof -
  have "length (supp n (\<lambda>i. f i \<noteq> g i)) + 2 * length (supp n (\<lambda>i. f i \<and> g i)) =
      length (supp n f) + length (supp n g)" for n and f g :: "nat \<Rightarrow> bool"
    by (induction n) auto
  then show "invar s \<Longrightarrow> invar t \<Longrightarrow> len s = len t \<Longrightarrow> ?thesis"
    by (simp add: xor_weight and_weight weight)
qed

end

text \<open>A block type: every value has the same number \<open>L\<close> of bits (\<open>BLOCK_BIT_LEN\<close>).\<close>

locale bitwise_block = bitwise +
  fixes L :: nat
  assumes L_pos: "0 < L" and len_L: "invar s \<Longrightarrow> len s = L"

section \<open>Unsigned integers\<close>

text \<open>\<open>bit/bitwise_via_std.rs\<close>, for every width.  \<open>count_ones\<close>, \<open>leading_zeros\<close> and
  \<open>trailing_zeros\<close> are the integer methods of the standard library.  A shift by the width or
  more is the overflow panic of a debug build.\<close>

unbundle bit_operations_syntax

definition count_ones :: "'a::len word \<Rightarrow> nat" where
  "count_ones w = length (filter (bit w) [0..<LENGTH('a)])"

definition leading_zeros :: "'a::len word \<Rightarrow> nat" where
  "leading_zeros w = length (takeWhile (\<lambda>i. \<not> bit w i) (rev [0..<LENGTH('a)]))"

definition trailing_zeros :: "'a::len word \<Rightarrow> nat" where
  "trailing_zeros w = length (takeWhile (\<lambda>i. \<not> bit w i) [0..<LENGTH('a)])"

definition shl_opt :: "'a::len word \<Rightarrow> nat \<Rightarrow> 'a word option" where
  "shl_opt w i = (if i < LENGTH('a) then Some (push_bit i w) else None)"

definition word_index :: "'a::len word \<Rightarrow> nat \<Rightarrow> bool option" where
  "word_index w i = do {
     guard_opt (i < LENGTH('a));
     mask \<leftarrow> shl_opt 1 i;
     Some (mask AND w = mask) }"

definition word_weight :: "'a::len word \<Rightarrow> nat" where
  "word_weight w = count_ones w"

definition word_parity :: "'a::len word \<Rightarrow> bool" where
  "word_parity w = (word_weight w mod 2 = 1)"

definition word_is_zero :: "'a::len word \<Rightarrow> bool" where
  "word_is_zero w = (w = 0)"

definition word_is_unit :: "'a::len word \<Rightarrow> nat \<Rightarrow> bool option" where
  "word_is_unit w i = do { mask \<leftarrow> shl_opt 1 i; Some (w = mask) }"

definition word_min_support :: "'a::len word \<Rightarrow> nat option" where
  "word_min_support w = (if w = 0 then None else Some (trailing_zeros w))"

definition word_max_support :: "'a::len word \<Rightarrow> nat option" where
  "word_max_support w = (if w = 0 then None else Some (LENGTH('a) - leading_zeros w - 1))"

definition word_dot :: "'a::len word \<Rightarrow> 'a word \<Rightarrow> bool" where
  "word_dot v w = (count_ones (v AND w) mod 2 = 1)"

definition word_and_weight :: "'a::len word \<Rightarrow> 'a word \<Rightarrow> nat" where
  "word_and_weight v w = count_ones (v AND w)"

definition word_or_weight :: "'a::len word \<Rightarrow> 'a word \<Rightarrow> nat" where
  "word_or_weight v w = count_ones (v OR w)"

definition word_xor_weight :: "'a::len word \<Rightarrow> 'a word \<Rightarrow> nat" where
  "word_xor_weight v w = count_ones (v XOR w)"

definition word_assign_index :: "nat \<Rightarrow> bool \<Rightarrow> 'a::len word \<Rightarrow> 'a word option" where
  "word_assign_index i to w = do {
     guard_opt (i < LENGTH('a));
     mask \<leftarrow> shl_opt 1 i;
     Some (if to then w OR mask else w AND NOT mask) }"

definition word_negate_index :: "nat \<Rightarrow> 'a::len word \<Rightarrow> 'a word option" where
  "word_negate_index i w = do {
     guard_opt (i < LENGTH('a));
     mask \<leftarrow> shl_opt 1 i;
     Some (w XOR mask) }"

definition word_clear_bits :: "'a::len word \<Rightarrow> 'a word" where
  "word_clear_bits w = 0"

definition word_assign :: "'a::len word \<Rightarrow> 'a word \<Rightarrow> 'a word" where
  "word_assign v w = w"

definition word_bitxor_assign :: "'a::len word \<Rightarrow> 'a word \<Rightarrow> 'a word" where
  "word_bitxor_assign v w = v XOR w"

definition word_bitand_assign :: "'a::len word \<Rightarrow> 'a word \<Rightarrow> 'a word" where
  "word_bitand_assign v w = v AND w"

definition word_bitor_assign :: "'a::len word \<Rightarrow> 'a word \<Rightarrow> 'a word" where
  "word_bitor_assign v w = v OR w"

text \<open>The searches from either end find the ends of the support.\<close>

lemma takeWhile_upt: "first_of (supp n f) =
    (if \<exists>i < n. f i then Some (length (takeWhile (\<lambda>i. \<not> f i) [0..<n])) else None)"
proof (induction n)
  case 0
  then show ?case by simp
next
  case (Suc n)
  show ?case
  proof (cases "\<exists>i < n. f i")
    case True
    then have "takeWhile (\<lambda>i. \<not> f i) ([0..<n] @ [n]) = takeWhile (\<lambda>i. \<not> f i) [0..<n]"
      by (auto intro: takeWhile_append1)
    with Suc True show ?thesis by (auto simp: first_of_append less_Suc_eq)
  next
    case False
    have "takeWhile (\<lambda>i. \<not> f i) ([0..<n] @ [n]) = [0..<n] @ takeWhile (\<lambda>i. \<not> f i) [n]"
      by (rule takeWhile_append2) (use False in auto)
    with False Suc show ?thesis
      by (auto simp: first_of_append less_Suc_eq last_of_single)
  qed
qed

lemma takeWhile_rev_upt: "last_of (supp n f) =
    (if \<exists>i < n. f i then Some (n - length (takeWhile (\<lambda>i. \<not> f i) (rev [0..<n])) - 1) else None)"
proof (induction n)
  case 0
  then show ?case by simp
next
  case (Suc n)
  then show ?case
    by (cases "f n") (auto simp: last_of_append last_of_single less_Suc_eq)
qed

lemma count_ones_supp: "count_ones w = length (supp LENGTH('a) (bit w))" for w :: "'a::len word"
  by (simp add: count_ones_def supp_def)

lemma first_of_SomeD: "first_of xs = Some x \<Longrightarrow> x \<in> set xs"
  by (cases xs) (auto simp: first_of_def)

lemma word_min_support_eq: "word_min_support w = first_of (supp LENGTH('a) (bit w))"
  for w :: "'a::len word"
  unfolding word_min_support_def takeWhile_upt trailing_zeros_def
  by (cases "w = 0") (simp_all add: word_nonzero_iff_bit [THEN iffD1])

lemma word_max_support_eq: "word_max_support w = last_of (supp LENGTH('a) (bit w))"
  for w :: "'a::len word"
  unfolding word_max_support_def takeWhile_rev_upt leading_zeros_def
  by (cases "w = 0") (simp_all add: word_nonzero_iff_bit [THEN iffD1])

text \<open>The support iterator takes the lowest set bit off the remaining bits until none is left.\<close>

function word_support :: "'a::len word \<Rightarrow> nat list" where
  "word_support w = (case word_min_support w of
     None \<Rightarrow> []
   | Some i \<Rightarrow> i # word_support (w XOR push_bit i 1))"
  by pat_completeness auto

lemma supp_remove:
  assumes "f x" "x < n"
  shows "length (supp n f) = Suc (length (supp n (\<lambda>i. f i \<and> i \<noteq> x)))"
proof -
  have s: "length (supp n g) = card {i. i < n \<and> g i}" for g
    using distinct_card [OF distinct_supp, of n g] by simp
  have "{i. i < n \<and> f i} = insert x {i. i < n \<and> f i \<and> i \<noteq> x}" using assms by auto
  then show ?thesis unfolding s by simp
qed

lemma bit_xor_unit: "bit w i \<Longrightarrow> bit (w XOR push_bit i 1) = (\<lambda>j. bit w j \<and> j \<noteq> i)" for w :: "'a::len word"
  by (auto simp: bit_simps fun_eq_iff dest: bit_imp_le_length)

termination word_support
proof (relation "measure count_ones", simp)
  fix w :: "'a::len word" and i
  assume "word_min_support w = Some i"
  then have "i \<in> set (supp LENGTH('a) (bit w))" by (intro first_of_SomeD) (simp add: word_min_support_eq)
  then have i: "bit w i" "i < LENGTH('a)" by auto
  show "(w XOR push_bit i 1, w) \<in> measure count_ones"
    unfolding in_measure count_ones_supp bit_xor_unit [OF i(1)] using supp_remove [of "bit w", OF i] by simp
qed

lemma supp_first:
  assumes "first_of (supp n f) = Some x"
  shows "supp n f = x # supp n (\<lambda>i. f i \<and> i \<noteq> x)"
proof -
  obtain ys where ys: "supp n f = x # ys"
    using assms by (cases "supp n f") (auto simp: first_of_def)
  then have "x \<notin> set ys" using distinct_supp [of n f] by simp
  then have "ys = filter (\<lambda>i. i \<noteq> x) (supp n f)" by (auto simp: ys intro!: filter_True [symmetric])
  also have "\<dots> = supp n (\<lambda>i. f i \<and> i \<noteq> x)" by (simp add: supp_def conj_commute)
  finally show ?thesis using ys by simp
qed

lemma word_support_eq: "word_support w = supp LENGTH('a) (bit w)" for w :: "'a::len word"
proof (induction w rule: word_support.induct)
  case (1 w)
  show ?case
  proof (cases "word_min_support w")
    case None
    then show ?thesis
      by (simp add: word_support.simps [of w] word_min_support_eq first_of_def split: list.splits)
  next
    case (Some i)
    then have i: "first_of (supp LENGTH('a) (bit w)) = Some i" by (simp add: word_min_support_eq)
    then have "bit w i" using first_of_SomeD by fastforce
    with 1 [OF Some] Some supp_first [OF i] show ?thesis
      by (simp add: word_support.simps [of w] bit_xor_unit del: push_bit_of_1)
  qed
qed

declare word_support.simps [simp del]

lemma bit_mask_unit: "bit (push_bit i 1 :: 'a::len word) j \<longleftrightarrow> j = i \<and> i < LENGTH('a)"
  by (auto simp: bit_simps)

lemma and_mask_eq: "i < LENGTH('a) \<Longrightarrow> (push_bit i 1 AND w = push_bit i 1) = bit w i" for w :: "'a::len word"
proof -
  assume i: "i < LENGTH('a)"
  have "push_bit i 1 AND w = (if bit w i then push_bit i 1 else 0)"
    by (rule bit_word_eqI) (auto simp: bit_mask_unit bit_and_iff simp del: push_bit_of_1)
  moreover have "push_bit i 1 \<noteq> (0 :: 'a word)"
    using i bit_mask_unit [of i i, where 'a = 'a] by (metis bit_0_eq bot_apply bot_bool_def)
  ultimately show ?thesis by simp
qed

interpretation word_store: bit_store "\<lambda>_. True" "\<lambda>_. LENGTH('a)" bit word_index
    word_assign_index "word_negate_index :: nat \<Rightarrow> 'a::len word \<Rightarrow> 'a word option"
proof (unfold_locales, goal_cases)
  case (1 s i)
  then show ?case by (simp add: word_index_def shl_opt_def and_mask_eq del: push_bit_of_1)
next
  case (2 s i b)
  then show ?case
    by (auto simp: word_assign_index_def shl_opt_def bit_or_iff bit_and_iff bit_not_iff bit_mask_unit fun_eq_iff
        simp del: push_bit_of_1 dest: bit_imp_le_length)
next
  case (3 s i)
  then show ?case
    by (auto simp: word_negate_index_def shl_opt_def bit_xor_iff bit_mask_unit fun_eq_iff
        simp del: push_bit_of_1 dest: bit_imp_le_length)
qed

lemma word_is_unit_eq: "i < LENGTH('a) \<Longrightarrow>
  word_is_unit w i = Some (\<forall>j < LENGTH('a). bit w j = (j = i))" for w :: "'a::len word"
  by (auto simp: word_is_unit_def shl_opt_def bit_eq_iff possible_bit_word bit_mask_unit simp del: push_bit_of_1)

lemma word_zero_bits: "word_is_zero w \<longleftrightarrow> (\<forall>i < LENGTH('a). \<not> bit w i)" for w :: "'a::len word"
  using word_nonzero_iff_bit [of w] by (auto simp: word_is_zero_def)

lemma bit_word_fun:
  "bit (v AND w) = (\<lambda>i. bit v i \<and> bit w i)" "bit (v OR w) = (\<lambda>i. bit v i \<or> bit w i)"
  "bit (v XOR w) = (\<lambda>i. bit v i \<noteq> bit w i)" for v w :: "'a::len word"
  by (auto simp: bit_simps fun_eq_iff)

lemma odd_mod_2: "((n :: nat) mod 2 = 1) = odd n" "(n mod 2 = Suc 0) = odd n"
  by (auto simp: odd_iff_mod_2_eq_one)

interpretation word: bitwise_block "\<lambda>_. True" "\<lambda>_. LENGTH('a)" bit word_index
    word_assign_index word_negate_index word_clear_bits word_weight word_parity word_is_zero
    word_is_unit word_min_support word_max_support word_support word_dot word_and_weight
    word_or_weight word_xor_weight word_assign word_bitxor_assign word_bitand_assign
    "word_bitor_assign :: 'a::len word \<Rightarrow> 'a word \<Rightarrow> 'a word" "LENGTH('a)"
  by unfold_locales
    (simp_all add: bit_imp_le_length word_clear_bits_def word_weight_def count_ones_supp word_parity_def
      odd_mod_2 odd_supp word_zero_bits word_is_unit_eq word_min_support_eq word_max_support_eq
      word_support_eq word_dot_def word_and_weight_def word_or_weight_def word_xor_weight_def word_assign_def
      word_bitxor_assign_def word_bitand_assign_def word_bitor_assign_def bit_word_fun fun_eq_iff)

section \<open>Slices and arrays of blocks\<close>

text \<open>\<open>bit/bitwise_for_slice.rs\<close>, over the operations of the block type; \<open>L\<close> is
  \<open>BLOCK_BIT_LEN\<close> and \<open>block_and_bit_index\<close> the function of \<open>bit/standard_types.rs\<close>.\<close>

definition block_and_bit_index :: "nat \<Rightarrow> nat \<Rightarrow> nat \<times> nat" where
  "block_and_bit_index L i = (i div L, i mod L)"

definition slice_index :: "nat \<Rightarrow> ('b \<Rightarrow> nat \<Rightarrow> bool option) \<Rightarrow> 'b list \<Rightarrow> nat \<Rightarrow> bool option" where
  "slice_index L idx bs i = (let (block_index, bit_index) = block_and_bit_index L i in do {
     b \<leftarrow> nth_opt bs block_index;
     idx b bit_index })"

definition slice_weight :: "('b \<Rightarrow> nat) \<Rightarrow> 'b list \<Rightarrow> nat" where
  "slice_weight weight bs = sum_list (map weight bs)"

definition slice_parity :: "('b \<Rightarrow> bool) \<Rightarrow> 'b list \<Rightarrow> bool" where
  "slice_parity parity bs = (sum_list (map (\<lambda>b. if parity b then 1 else 0) bs) mod 2 = (1 :: nat))"

definition slice_is_zero :: "('b \<Rightarrow> bool) \<Rightarrow> 'b list \<Rightarrow> bool" where
  "slice_is_zero is_zero bs = list_all is_zero bs"

definition slice_is_unit ::
  "nat \<Rightarrow> ('b \<Rightarrow> nat \<Rightarrow> bool option) \<Rightarrow> ('b \<Rightarrow> nat) \<Rightarrow> 'b list \<Rightarrow> nat \<Rightarrow> bool option" where
  "slice_is_unit L idx weight bs i =
     (if slice_weight weight bs = 1 then slice_index L idx bs i else Some False)"

fun first_some :: "('a \<Rightarrow> 'b option) \<Rightarrow> 'a list \<Rightarrow> 'b option" where
  "first_some f [] = None"
| "first_some f (x # xs) = (case f x of Some y \<Rightarrow> Some y | None \<Rightarrow> first_some f xs)"

definition slice_max_support :: "nat \<Rightarrow> ('b \<Rightarrow> nat option) \<Rightarrow> 'b list \<Rightarrow> nat option" where
  "slice_max_support L max_support bs =
     first_some (\<lambda>(k, b). map_option (\<lambda>i. k * L + i) (max_support b)) (rev (enumerate 0 bs))"

definition slice_min_support :: "nat \<Rightarrow> ('b \<Rightarrow> nat option) \<Rightarrow> 'b list \<Rightarrow> nat option" where
  "slice_min_support L min_support bs =
     first_some (\<lambda>(k, b). map_option (\<lambda>i. k * L + i) (min_support b)) (enumerate 0 bs)"

definition slice_support :: "nat \<Rightarrow> ('b \<Rightarrow> nat list) \<Rightarrow> 'b list \<Rightarrow> nat list" where
  "slice_support L support bs =
     concat (map (\<lambda>(k, b). map (\<lambda>i. k * L + i) (support b)) (enumerate 0 bs))"

definition slice_assign_index ::
  "nat \<Rightarrow> (nat \<Rightarrow> bool \<Rightarrow> 'b \<Rightarrow> 'b option) \<Rightarrow> nat \<Rightarrow> bool \<Rightarrow> 'b list \<Rightarrow> 'b list option" where
  "slice_assign_index L assign i to bs = (let (block_index, bit_index) = block_and_bit_index L i in do {
     b \<leftarrow> nth_opt bs block_index;
     b' \<leftarrow> assign bit_index to b;
     update_opt bs block_index b' })"

definition slice_negate_index ::
  "nat \<Rightarrow> (nat \<Rightarrow> 'b \<Rightarrow> 'b option) \<Rightarrow> nat \<Rightarrow> 'b list \<Rightarrow> 'b list option" where
  "slice_negate_index L negate i bs = (let (block_index, bit_index) = block_and_bit_index L i in do {
     b \<leftarrow> nth_opt bs block_index;
     b' \<leftarrow> negate bit_index b;
     update_opt bs block_index b' })"

definition slice_clear_bits :: "('b \<Rightarrow> 'b) \<Rightarrow> 'b list \<Rightarrow> 'b list" where
  "slice_clear_bits clear bs = map clear bs"

text \<open>The loops over two slices stop with the shorter one.\<close>

definition slice_dot :: "('b \<Rightarrow> 'b \<Rightarrow> bool) \<Rightarrow> 'b list \<Rightarrow> 'b list \<Rightarrow> bool" where
  "slice_dot dot as bs =
     (sum_list (map (\<lambda>(a, b). if dot a b then 1 else 0) (zip as bs)) mod 2 = (1 :: nat))"

definition slice_pair_weight :: "('b \<Rightarrow> 'b \<Rightarrow> nat) \<Rightarrow> 'b list \<Rightarrow> 'b list \<Rightarrow> nat" where
  "slice_pair_weight pair_weight as bs = sum_list (map (\<lambda>(a, b). pair_weight a b) (zip as bs))"

fun slice_pair_assign :: "('b \<Rightarrow> 'b \<Rightarrow> 'b) \<Rightarrow> 'b list \<Rightarrow> 'b list \<Rightarrow> 'b list" where
  "slice_pair_assign pair_assign (a # as) (b # bs) = pair_assign a b # slice_pair_assign pair_assign as bs"
| "slice_pair_assign pair_assign as [] = as"
| "slice_pair_assign pair_assign [] bs = []"

text \<open>\<open>bit/bitwise_for_arrays.rs\<close>: the same over \<open>[BitBlock; SIZE]\<close>, whose type is the bound of
  its unchecked reads.\<close>

definition array_dot :: "nat \<Rightarrow> ('b \<Rightarrow> 'b \<Rightarrow> bool) \<Rightarrow> 'b list \<Rightarrow> 'b list \<Rightarrow> bool" where
  "array_dot SIZE dot as bs =
     (fold (\<lambda>k result. result + (if dot (as ! k) (bs ! k) then 1 else 0)) [0..<SIZE] 0 mod 2 = (1 :: nat))"

definition array_pair_weight :: "nat \<Rightarrow> ('b \<Rightarrow> 'b \<Rightarrow> nat) \<Rightarrow> 'b list \<Rightarrow> 'b list \<Rightarrow> nat" where
  "array_pair_weight SIZE pair_weight as bs =
     fold (\<lambda>k weight. weight + pair_weight (as ! k) (bs ! k)) [0..<SIZE] 0"

definition array_pair_assign :: "nat \<Rightarrow> ('b \<Rightarrow> 'b \<Rightarrow> 'b) \<Rightarrow> 'b list \<Rightarrow> 'b list \<Rightarrow> 'b list" where
  "array_pair_assign SIZE pair_assign as bs =
     fold (\<lambda>k as. as[k := pair_assign (as ! k) (bs ! k)]) [0..<SIZE] as"

text \<open>The bits of a slice: bit \<open>k * L + i\<close> is bit \<open>i\<close> of block \<open>k\<close>.\<close>

definition lift_bit :: "nat \<Rightarrow> ('b \<Rightarrow> nat \<Rightarrow> bool) \<Rightarrow> 'b list \<Rightarrow> nat \<Rightarrow> bool" where
  "lift_bit L bits bs i = (i < length bs * L \<and> bits (bs ! (i div L)) (i mod L))"

lemma lift_low: "i < length bs * L \<Longrightarrow> lift_bit L bits (bs @ cs) i = lift_bit L bits bs i"
  by (auto simp: lift_bit_def nth_append div_mod_less add_mult_distrib)

lemma lift_high: "i < L \<Longrightarrow> lift_bit L bits (bs @ [b]) (length bs * L + i) = bits b i"
  by (auto simp: lift_bit_def)

lemma lift_cong:
  assumes "length bs = length cs"
    and "\<And>k i. k < length bs \<Longrightarrow> i < L \<Longrightarrow> f (bs ! k) i = g (cs ! k) i"
  shows "lift_bit L f bs = lift_bit L g cs"
proof
  fix i
  show "lift_bit L f bs i = lift_bit L g cs i"
  proof (cases "i < length bs * L")
    case True
    then have "i div L < length bs" "i mod L < L"
      by (cases "L = 0"; auto simp: div_mod_less)+
    with True assms show ?thesis by (simp add: lift_bit_def)
  qed (simp add: lift_bit_def assms(1))
qed

lemma supp_add: "supp (m + n) f = supp m f @ map (\<lambda>i. m + i) (supp n (\<lambda>i. f (m + i)))"
  by (induction n) auto

lemma supp_lift: "supp (length bs * L) (lift_bit L bits bs) =
    concat (map (\<lambda>(k, b). map (\<lambda>i. k * L + i) (supp L (bits b))) (enumerate 0 bs))"
proof (induction bs rule: rev_induct)
  case Nil
  then show ?case by simp
next
  case (snoc b bs)
  have "length (bs @ [b]) * L = length bs * L + L" by (simp add: add.commute)
  then have "supp (length (bs @ [b]) * L) (lift_bit L bits (bs @ [b])) =
      supp (length bs * L) (lift_bit L bits (bs @ [b])) @
      map (\<lambda>i. length bs * L + i) (supp L (\<lambda>i. lift_bit L bits (bs @ [b]) (length bs * L + i)))"
    by (simp only: supp_add)
  also have "supp (length bs * L) (lift_bit L bits (bs @ [b])) = supp (length bs * L) (lift_bit L bits bs)"
    by (rule supp_cong) (rule lift_low)
  also have "supp L (\<lambda>i. lift_bit L bits (bs @ [b]) (length bs * L + i)) = supp L (bits b)"
    by (rule supp_cong) (rule lift_high)
  finally show ?case by (simp add: snoc enumerate_append_eq)
qed

lemma length_supp_lift:
  "length (supp (length bs * L) (lift_bit L bits bs)) = sum_list (map (\<lambda>b. length (supp L (bits b))) bs)"
proof -
  have "length (concat (map (\<lambda>(k, b). map (\<lambda>i. k * L + i) (supp L (bits b))) (enumerate m bs))) =
      sum_list (map (\<lambda>b. length (supp L (bits b))) bs)" for m
    by (induction bs arbitrary: m) auto
  then show ?thesis by (simp add: supp_lift)
qed

lemma odd_sum_list: "odd (sum_list (map f xs)) = odd (sum_list (map (\<lambda>x. if odd (f x) then 1 else 0) xs))"
  for f :: "'a \<Rightarrow> nat"
  by (induction xs) auto

lemma xsum_lift: "xsum (length bs * L) (lift_bit L bits bs) =
    odd (sum_list (map (\<lambda>b. if xsum L (bits b) then 1 else (0 :: nat)) bs))"
  using odd_sum_list [of "\<lambda>b. length (supp L (bits b))" bs]
  by (simp add: odd_supp [symmetric] length_supp_lift)

lemma lift_zip:
  assumes "length as = length bs"
  shows "h (lift_bit L bits as i) (lift_bit L bits bs i) \<and> i < length as * L \<longleftrightarrow>
    lift_bit L (\<lambda>(a, b) i. h (bits a i) (bits b i)) (zip as bs) i"
  using assms by (auto simp: lift_bit_def div_mod_less)

lemma first_some_first: "(\<And>x. x \<in> set xs \<Longrightarrow> f x = first_of (g x)) \<Longrightarrow>
    first_some f xs = first_of (concat (map g xs))"
  by (induction xs) (auto simp: first_of_append split: option.splits)

lemma first_some_append: "first_some f (xs @ ys) =
    (case first_some f xs of Some y \<Rightarrow> Some y | None \<Rightarrow> first_some f ys)"
  by (induction xs) (auto split: option.splits)

lemma first_some_last: "(\<And>x. x \<in> set xs \<Longrightarrow> f x = last_of (g x)) \<Longrightarrow>
    first_some f (rev xs) = last_of (concat (map g xs))"
proof (induction xs rule: rev_induct)
  case (snoc x xs)
  then have "f x = last_of (g x)" "first_some f (rev xs) = last_of (concat (map g xs))" by auto
  then show ?case by (simp add: last_of_append split: option.splits)
qed simp

lemma slice_pair_assign_map2:
  "length as = length bs \<Longrightarrow> slice_pair_assign f as bs = map2 f as bs"
  by (induction as bs rule: list_induct2) auto

lemma length_slice_pair_assign [simp]: "length (slice_pair_assign f as bs) = length as"
  by (induction f as bs rule: slice_pair_assign.induct) auto

lemma set_enumerate_snd: "(k, b) \<in> set (enumerate n bs) \<Longrightarrow> b \<in> set bs"
  by (induction bs arbitrary: n) auto

text \<open>The array loops are the slice loops when both arrays have \<open>SIZE\<close> blocks.\<close>

lemma array_dot_slice:
  assumes "length as = SIZE" "length bs = SIZE"
  shows "array_dot SIZE dot as bs = slice_dot dot as bs"
proof -
  have "fold (\<lambda>k result. result + (if dot (as ! k) (bs ! k) then 1 else 0)) [0..<SIZE] 0 =
      sum_list (map (\<lambda>(a, b). if dot a b then 1 else (0 :: nat)) (take SIZE (zip as bs)))"
    by (rule fold_upt_inv) (use assms in \<open>auto simp: take_Suc_conv_app_nth\<close>)
  then show ?thesis using assms by (simp add: array_dot_def slice_dot_def)
qed

lemma array_pair_weight_slice:
  assumes "length as = SIZE" "length bs = SIZE"
  shows "array_pair_weight SIZE f as bs = slice_pair_weight f as bs"
proof -
  have "array_pair_weight SIZE f as bs = sum_list (map (\<lambda>(a, b). f a b) (take SIZE (zip as bs)))"
    unfolding array_pair_weight_def
    by (rule fold_upt_inv) (use assms in \<open>auto simp: take_Suc_conv_app_nth\<close>)
  then show ?thesis using assms by (simp add: slice_pair_weight_def)
qed

lemma array_pair_assign_slice:
  assumes "length as = SIZE" "length bs = SIZE"
  shows "array_pair_assign SIZE f as bs = slice_pair_assign f as bs"
proof -
  let ?P = "\<lambda>n t. length t = SIZE \<and> (\<forall>k < SIZE. t ! k = (if k < n then f (as ! k) (bs ! k) else as ! k))"
  have "?P SIZE (array_pair_assign SIZE f as bs)" unfolding array_pair_assign_def
    by (rule fold_upt_inv [where P = ?P]) (use assms in \<open>auto simp: nth_list_update less_Suc_eq\<close>)
  then show ?thesis using assms by (intro nth_equalityI) (auto simp: slice_pair_assign_map2)
qed

text \<open>A slice over a block type that meets the contract meets it.\<close>

definition all_blocks :: "('b \<Rightarrow> bool) \<Rightarrow> 'b list \<Rightarrow> bool" where
  "all_blocks ok bs \<longleftrightarrow> (\<forall>b \<in> set bs. ok b)"

lemma all_blocksI: "(\<And>k. k < length bs \<Longrightarrow> ok (bs ! k)) \<Longrightarrow> all_blocks ok bs"
  by (auto simp: all_blocks_def in_set_conv_nth)

lemma all_blocksD: "all_blocks ok bs \<Longrightarrow> k < length bs \<Longrightarrow> ok (bs ! k)"
  by (simp add: all_blocks_def)

lemma all_blocks_update: "all_blocks ok bs \<Longrightarrow> ok b \<Longrightarrow> all_blocks ok (bs[k := b])"
  using set_update_subset_insert [of bs k b] by (auto simp: all_blocks_def)

lemma lift_update:
  assumes "k < length bs" "0 < L" "bits c = (bits (bs ! k))(j := v)" "j < L"
  shows "lift_bit L bits (bs[k := c]) = (lift_bit L bits bs)(k * L + j := v)"
proof
  fix i
  have "k * L + j < length bs * L"
    using assms by (metis add_less_cancel_left add_mult_distrib less_le_trans mult_Suc mult_le_mono1 Suc_leI add.commute)
  moreover have "i = k * L + j \<longleftrightarrow> i div L = k \<and> i mod L = j"
    using assms(2,4) by (auto simp: mult.commute)
  ultimately show "lift_bit L bits (bs[k := c]) i = ((lift_bit L bits bs)(k * L + j := v)) i"
    using assms by (auto simp: lift_bit_def nth_list_update)
qed

context bitwise_block
begin

abbreviation "slice_ok \<equiv> all_blocks invar"
abbreviation "slice_len \<equiv> \<lambda>bs. length bs * L"
abbreviation "slice_bits \<equiv> lift_bit L bits"

lemma slice_at:
  assumes "slice_ok bs" "i < slice_len bs"
  shows "i div L < length bs" "invar (bs ! (i div L))" "i mod L < len (bs ! (i div L))" "i mod L < L"
  using assms L_pos len_L by (auto simp: div_mod_less all_blocks_def)

lemma slice_index: "slice_ok bs \<Longrightarrow> i < slice_len bs \<Longrightarrow> slice_index L idx bs i = Some (slice_bits bs i)"
  using slice_at [of bs i] idx by (simp add: slice_index_def block_and_bit_index_def lift_bit_def)

lemma slice_assign_index:
  assumes "slice_ok bs" "i < slice_len bs"
  shows "\<exists>t. slice_assign_index L assign i b bs = Some t \<and> slice_ok t \<and> slice_len t = slice_len bs \<and>
    slice_bits t = (slice_bits bs)(i := b)"
proof -
  note at = slice_at [OF assms]
  obtain c where c: "assign (i mod L) b (bs ! (i div L)) = Some c" "invar c"
      "bits c = (bits (bs ! (i div L)))(i mod L := b)"
    using assign [OF at(2,3)] by auto
  then show ?thesis
    using at assms(1) lift_update [of "i div L" bs L bits c "i mod L" b] L_pos
    by (simp add: slice_assign_index_def block_and_bit_index_def all_blocks_update)
qed

lemma slice_negate_index:
  assumes "slice_ok bs" "i < slice_len bs"
  shows "\<exists>t. slice_negate_index L negate i bs = Some t \<and> slice_ok t \<and> slice_len t = slice_len bs \<and>
    slice_bits t = (slice_bits bs)(i := \<not> slice_bits bs i)"
proof -
  note at = slice_at [OF assms]
  obtain c where c: "negate (i mod L) (bs ! (i div L)) = Some c" "invar c"
      "bits c = (bits (bs ! (i div L)))(i mod L := \<not> bits (bs ! (i div L)) (i mod L))"
    using negate [OF at(2,3)] by auto
  then show ?thesis
    using at assms lift_update [of "i div L" bs L bits c "i mod L"] L_pos
    by (simp add: slice_negate_index_def block_and_bit_index_def all_blocks_update lift_bit_def)
qed

lemma slice_map2:
  assumes "slice_ok as" "slice_ok bs" "length as = length bs"
    and op: "\<And>a b. invar a \<Longrightarrow> invar b \<Longrightarrow> invar (f a b) \<and> bits (f a b) = (\<lambda>i. h (bits a i) (bits b i))"
  shows "slice_ok (slice_pair_assign f as bs)"
    and "i < slice_len as \<Longrightarrow> slice_bits (slice_pair_assign f as bs) i = h (slice_bits as i) (slice_bits bs i)"
proof -
  show "slice_ok (slice_pair_assign f as bs)"
    using assms by (intro all_blocksI) (simp add: slice_pair_assign_map2 all_blocksD)
  assume "i < slice_len as"
  with assms slice_at [of as i] slice_at [of bs i]
  show "slice_bits (slice_pair_assign f as bs) i = h (slice_bits as i) (slice_bits bs i)"
    by (simp add: slice_pair_assign_map2 lift_bit_def)
qed

lemma slice_pair_assign_bits:
  assumes "slice_ok as" "slice_ok bs" "length as = length bs" "\<not> h False False"
    and "\<And>a b. invar a \<Longrightarrow> invar b \<Longrightarrow> invar (f a b) \<and> bits (f a b) = (\<lambda>i. h (bits a i) (bits b i))"
  shows "slice_ok (slice_pair_assign f as bs) \<and> slice_len (slice_pair_assign f as bs) = slice_len as \<and>
    slice_bits (slice_pair_assign f as bs) = (\<lambda>i. h (slice_bits as i) (slice_bits bs i))"
proof -
  have "slice_bits (slice_pair_assign f as bs) i = h (slice_bits as i) (slice_bits bs i)" for i
  proof (cases "i < slice_len as")
    case True
    show ?thesis by (rule slice_map2(2) [where f = f and h = h]) (fact assms True)+
  next
    case False
    with assms show ?thesis by (auto simp: lift_bit_def)
  qed
  moreover have "slice_ok (slice_pair_assign f as bs)"
    by (rule slice_map2(1) [where f = f and h = h]) (fact assms)+
  ultimately show ?thesis by auto
qed

abbreviation "zip_bits h \<equiv> \<lambda>(a, b) i. h (bits a i) (bits b i)"

lemma slice_zip_bits:
  assumes "length as = length bs" "i < slice_len as"
  shows "h (slice_bits as i) (slice_bits bs i) = lift_bit L (zip_bits h) (zip as bs) i"
  using assms by (simp add: lift_bit_def div_mod_less)

lemma slice_pair_supp:
  assumes "length as = length bs"
  shows "supp (slice_len as) (\<lambda>i. h (slice_bits as i) (slice_bits bs i)) =
    supp (length (zip as bs) * L) (lift_bit L (zip_bits h) (zip as bs))"
proof -
  have "length (zip as bs) * L = slice_len as" using assms by simp
  with slice_zip_bits [OF assms, where h = h] show ?thesis by (auto intro!: supp_cong)
qed

lemma slice_zip_ok: "slice_ok as \<Longrightarrow> slice_ok bs \<Longrightarrow> (a, b) \<in> set (zip as bs) \<Longrightarrow> invar a \<and> invar b"
  by (auto simp: all_blocks_def dest: set_zip_leftD set_zip_rightD)

lemma slice_pair_count:
  assumes "slice_ok as" "slice_ok bs" "length as = length bs"
    and f: "\<And>a b. invar a \<Longrightarrow> invar b \<Longrightarrow> f a b = length (supp L (\<lambda>i. h (bits a i) (bits b i)))"
  shows "slice_pair_weight f as bs = length (supp (slice_len as) (\<lambda>i. h (slice_bits as i) (slice_bits bs i)))"
proof -
  have "map (\<lambda>(a, b). f a b) (zip as bs) = map (\<lambda>p. length (supp L (zip_bits h p))) (zip as bs)"
    by (rule map_cong [OF refl]) (clarsimp dest!: slice_zip_ok [OF assms(1,2)] simp: f)
  then show ?thesis
    unfolding slice_pair_supp [OF assms(3)] length_supp_lift slice_pair_weight_def by (simp only:)
qed

lemma slice_dot_count:
  assumes "slice_ok as" "slice_ok bs" "length as = length bs"
  shows "slice_dot dot as bs = xsum (slice_len as) (\<lambda>i. slice_bits as i \<and> slice_bits bs i)"
proof -
  have eq: "map (\<lambda>(a, b). if dot a b then 1 else (0 :: nat)) (zip as bs) =
      map (\<lambda>p. if xsum L (zip_bits (\<and>) p) then 1 else 0) (zip as bs)"
    by (rule map_cong [OF refl]) (clarsimp dest!: slice_zip_ok [OF assms(1,2)] simp: dot len_L)
  have "slice_dot dot as bs = xsum (length (zip as bs) * L) (lift_bit L (zip_bits (\<and>)) (zip as bs))"
    by (simp only: slice_dot_def eq odd_mod_2 xsum_lift)
  also have "\<dots> = xsum (slice_len as) (\<lambda>i. slice_bits as i \<and> slice_bits bs i)"
    by (simp only: odd_supp [symmetric] slice_pair_supp [OF assms(3), where h = "(\<and>)"])
  finally show ?thesis .
qed

lemma slice_weight: "slice_ok bs \<Longrightarrow> slice_weight weight bs = length (supp (slice_len bs) (slice_bits bs))"
  unfolding slice_weight_def length_supp_lift
  by (rule arg_cong [where f = sum_list], rule map_cong) (auto simp: all_blocks_def weight len_L)

lemma slice_parity:
  assumes "slice_ok bs"
  shows "slice_parity parity bs = xsum (slice_len bs) (slice_bits bs)"
proof -
  have "map (\<lambda>b. if parity b then 1 else (0 :: nat)) bs = map (\<lambda>b. if xsum L (bits b) then 1 else 0) bs"
    by (rule map_cong) (use assms in \<open>auto simp: all_blocks_def parity len_L\<close>)
  then show ?thesis by (simp only: slice_parity_def odd_mod_2 xsum_lift)
qed

lemma slice_is_zero: "slice_ok bs \<Longrightarrow> slice_is_zero is_zero bs \<longleftrightarrow> (\<forall>i < slice_len bs. \<not> slice_bits bs i)"
proof -
  assume ok: "slice_ok bs"
  have "(\<forall>i < slice_len bs. \<not> slice_bits bs i) \<longleftrightarrow> length (supp (slice_len bs) (slice_bits bs)) = 0"
    by (simp only: supp_Nil_iff length_0_conv)
  also have "\<dots> \<longleftrightarrow> (\<forall>b \<in> set bs. supp L (bits b) = [])"
    unfolding length_supp_lift by (simp add: sum_list_eq_0_iff)
  also have "\<dots> \<longleftrightarrow> slice_is_zero is_zero bs"
    using ok by (auto simp: slice_is_zero_def list_all_iff all_blocks_def is_zero len_L supp_Nil_iff)
  finally show ?thesis by simp
qed

lemma slice_support: "slice_ok bs \<Longrightarrow> slice_support L support bs = supp (slice_len bs) (slice_bits bs)"
  unfolding slice_support_def supp_lift
  by (rule arg_cong [where f = concat])
    (auto simp: all_blocks_def support len_L dest!: set_enumerate_snd)

lemma slice_min_support:
  "slice_ok bs \<Longrightarrow> slice_min_support L min_support bs = first_of (supp (slice_len bs) (slice_bits bs))"
  unfolding slice_min_support_def supp_lift
  by (rule first_some_first)
    (auto simp: all_blocks_def min_support len_L first_of_map dest!: set_enumerate_snd)

lemma slice_max_support:
  "slice_ok bs \<Longrightarrow> slice_max_support L max_support bs = last_of (supp (slice_len bs) (slice_bits bs))"
  unfolding slice_max_support_def supp_lift
  by (rule first_some_last)
    (auto simp: all_blocks_def max_support len_L last_of_map dest!: set_enumerate_snd)

lemma slice_is_unit:
  assumes "slice_ok bs" "i < slice_len bs"
  shows "slice_is_unit L idx weight bs i = Some (\<forall>j < slice_len bs. slice_bits bs j = (j = i))"
proof -
  have "slice_is_unit L idx weight bs i =
      Some (length (supp (slice_len bs) (slice_bits bs)) = 1 \<and> slice_bits bs i)"
    using assms by (simp add: slice_is_unit_def slice_weight slice_index)
  then show ?thesis by (simp only: supp_single_iff [OF assms(2)])
qed

lemma slice_clear: "slice_ok bs \<Longrightarrow> slice_ok (slice_clear_bits clear bs) \<and>
    slice_len (slice_clear_bits clear bs) = slice_len bs \<and> slice_bits (slice_clear_bits clear bs) = (\<lambda>_. False)"
  using clear by (auto simp: slice_clear_bits_def all_blocks_def lift_bit_def div_mod_less fun_eq_iff)

lemma slice_len_eq: "slice_len as = slice_len bs \<Longrightarrow> length as = length bs"
  using L_pos by simp

lemma slice_dot: "slice_ok as \<Longrightarrow> slice_ok bs \<Longrightarrow> slice_len as = slice_len bs \<Longrightarrow>
    slice_dot dot as bs = xsum (slice_len as) (\<lambda>i. slice_bits as i \<and> slice_bits bs i)"
  using L_pos by (intro slice_dot_count) auto

lemma slice_and_weight: "slice_ok as \<Longrightarrow> slice_ok bs \<Longrightarrow> slice_len as = slice_len bs \<Longrightarrow>
    slice_pair_weight and_weight as bs = length (supp (slice_len as) (\<lambda>i. slice_bits as i \<and> slice_bits bs i))"
  using L_pos by (intro slice_pair_count) (auto simp: and_weight len_L)

lemma slice_or_weight: "slice_ok as \<Longrightarrow> slice_ok bs \<Longrightarrow> slice_len as = slice_len bs \<Longrightarrow>
    slice_pair_weight or_weight as bs = length (supp (slice_len as) (\<lambda>i. slice_bits as i \<or> slice_bits bs i))"
  using L_pos by (intro slice_pair_count) (auto simp: or_weight len_L)

lemma slice_xor_weight: "slice_ok as \<Longrightarrow> slice_ok bs \<Longrightarrow> slice_len as = slice_len bs \<Longrightarrow>
    slice_pair_weight xor_weight as bs = length (supp (slice_len as) (\<lambda>i. slice_bits as i \<noteq> slice_bits bs i))"
  using L_pos by (intro slice_pair_count) (auto simp: xor_weight len_L)

lemma slice_copy_from: "slice_ok as \<Longrightarrow> slice_ok bs \<Longrightarrow> slice_len as = slice_len bs \<Longrightarrow>
    slice_ok (slice_pair_assign copy_from as bs) \<and> slice_len (slice_pair_assign copy_from as bs) = slice_len as \<and>
    slice_bits (slice_pair_assign copy_from as bs) = slice_bits bs"
  using slice_pair_assign_bits [of as bs "\<lambda>_ b. b" copy_from] slice_len_eq [of as bs] by (simp add: copy_from len_L)

lemma slice_xor_assign: "slice_ok as \<Longrightarrow> slice_ok bs \<Longrightarrow> slice_len as = slice_len bs \<Longrightarrow>
    slice_ok (slice_pair_assign xor_assign as bs) \<and> slice_len (slice_pair_assign xor_assign as bs) = slice_len as \<and>
    slice_bits (slice_pair_assign xor_assign as bs) = (\<lambda>i. slice_bits as i \<noteq> slice_bits bs i)"
  using slice_pair_assign_bits [of as bs "(\<noteq>)" xor_assign] slice_len_eq [of as bs] by (simp add: xor_assign len_L)

lemma slice_and_assign: "slice_ok as \<Longrightarrow> slice_ok bs \<Longrightarrow> slice_len as = slice_len bs \<Longrightarrow>
    slice_ok (slice_pair_assign and_assign as bs) \<and> slice_len (slice_pair_assign and_assign as bs) = slice_len as \<and>
    slice_bits (slice_pair_assign and_assign as bs) = (\<lambda>i. slice_bits as i \<and> slice_bits bs i)"
  using slice_pair_assign_bits [of as bs "(\<and>)" and_assign] slice_len_eq [of as bs] by (simp add: and_assign len_L)

lemma slice_or_assign: "slice_ok as \<Longrightarrow> slice_ok bs \<Longrightarrow> slice_len as = slice_len bs \<Longrightarrow>
    slice_ok (slice_pair_assign or_assign as bs) \<and> slice_len (slice_pair_assign or_assign as bs) = slice_len as \<and>
    slice_bits (slice_pair_assign or_assign as bs) = (\<lambda>i. slice_bits as i \<or> slice_bits bs i)"
  using slice_pair_assign_bits [of as bs "(\<or>)" or_assign] slice_len_eq [of as bs] by (simp add: or_assign len_L)

lemma slice_bits_bound: "slice_ok bs \<Longrightarrow> slice_bits bs i \<Longrightarrow> i < slice_len bs"
  by (simp add: lift_bit_def)

lemmas slice_laws = slice_index slice_assign_index slice_negate_index slice_bits_bound slice_clear slice_weight
  slice_parity slice_is_zero slice_is_unit slice_min_support slice_max_support slice_support slice_dot
  slice_and_weight slice_or_weight slice_xor_weight slice_copy_from slice_xor_assign slice_and_assign
  slice_or_assign

end

sublocale bitwise_block \<subseteq> slice: bitwise "all_blocks invar" "\<lambda>bs. length bs * L" "lift_bit L bits"
    "slice_index L idx" "slice_assign_index L assign" "slice_negate_index L negate"
    "slice_clear_bits clear" "slice_weight weight" "slice_parity parity" "slice_is_zero is_zero"
    "slice_is_unit L idx weight" "slice_min_support L min_support" "slice_max_support L max_support"
    "slice_support L support" "slice_dot dot" "slice_pair_weight and_weight" "slice_pair_weight or_weight"
    "slice_pair_weight xor_weight" "slice_pair_assign copy_from" "slice_pair_assign xor_assign"
    "slice_pair_assign and_assign" "slice_pair_assign or_assign"
  by unfold_locales (rule slice_laws; assumption)+

text \<open>An array of \<open>SIZE\<close> blocks is a block type again, of \<open>SIZE * L\<close> bits.\<close>

locale bitwise_array = bitwise_block +
  fixes SIZE :: nat
  assumes SIZE_pos: "0 < SIZE"
begin

abbreviation "array_ok \<equiv> \<lambda>bs. slice_ok bs \<and> length bs = SIZE"

lemma array_same: "slice_ok bs \<and> length bs = SIZE \<Longrightarrow> slice_len bs = SIZE * L"
  by simp

lemma array_pair:
  assumes "array_ok as" "array_ok bs"
  shows "array_dot SIZE dot as bs = xsum (SIZE * L) (\<lambda>i. slice_bits as i \<and> slice_bits bs i)"
    and "array_pair_weight SIZE and_weight as bs = length (supp (SIZE * L) (\<lambda>i. slice_bits as i \<and> slice_bits bs i))"
    and "array_pair_weight SIZE or_weight as bs = length (supp (SIZE * L) (\<lambda>i. slice_bits as i \<or> slice_bits bs i))"
    and "array_pair_weight SIZE xor_weight as bs = length (supp (SIZE * L) (\<lambda>i. slice_bits as i \<noteq> slice_bits bs i))"
    and "slice_bits (array_pair_assign SIZE copy_from as bs) = slice_bits bs"
    and "slice_bits (array_pair_assign SIZE xor_assign as bs) = (\<lambda>i. slice_bits as i \<noteq> slice_bits bs i)"
    and "slice_bits (array_pair_assign SIZE and_assign as bs) = (\<lambda>i. slice_bits as i \<and> slice_bits bs i)"
    and "slice_bits (array_pair_assign SIZE or_assign as bs) = (\<lambda>i. slice_bits as i \<or> slice_bits bs i)"
  using assms slice_dot [of as bs] slice_and_weight [of as bs] slice_or_weight [of as bs]
    slice_xor_weight [of as bs] slice_copy_from [of as bs] slice_xor_assign [of as bs]
    slice_and_assign [of as bs] slice_or_assign [of as bs]
  by (simp_all add: array_dot_slice array_pair_weight_slice array_pair_assign_slice)

lemma array_pair_ok:
  assumes "array_ok as" "array_ok bs"
  shows "array_ok (array_pair_assign SIZE copy_from as bs)"
    and "array_ok (array_pair_assign SIZE xor_assign as bs)"
    and "array_ok (array_pair_assign SIZE and_assign as bs)"
    and "array_ok (array_pair_assign SIZE or_assign as bs)"
  using assms slice_copy_from [of as bs] slice_xor_assign [of as bs] slice_and_assign [of as bs]
    slice_or_assign [of as bs]
  by (simp_all add: array_pair_assign_slice)

lemma array_assign_index: "array_ok bs \<Longrightarrow> i < SIZE * L \<Longrightarrow>
    \<exists>t. slice_assign_index L assign i b bs = Some t \<and> array_ok t \<and> SIZE * L = SIZE * L \<and>
      slice_bits t = (slice_bits bs)(i := b)"
  using slice_assign_index [of bs i b] L_pos by auto

lemma array_negate_index: "array_ok bs \<Longrightarrow> i < SIZE * L \<Longrightarrow>
    \<exists>t. slice_negate_index L negate i bs = Some t \<and> array_ok t \<and> SIZE * L = SIZE * L \<and>
      slice_bits t = (slice_bits bs)(i := \<not> slice_bits bs i)"
  using slice_negate_index [of bs i] L_pos by auto

lemma array_clear: "array_ok bs \<Longrightarrow> array_ok (slice_clear_bits clear bs) \<and> SIZE * L = SIZE * L \<and>
    slice_bits (slice_clear_bits clear bs) = (\<lambda>_. False)"
  using slice_clear [of bs] by (simp add: slice_clear_bits_def)

lemma array_single:
  assumes "array_ok bs"
  shows "i < SIZE * L \<Longrightarrow> slice_index L idx bs i = Some (slice_bits bs i)"
    and "slice_bits bs i \<Longrightarrow> i < SIZE * L"
    and "slice_weight weight bs = length (supp (SIZE * L) (slice_bits bs))"
    and "slice_parity parity bs = xsum (SIZE * L) (slice_bits bs)"
    and "slice_is_zero is_zero bs \<longleftrightarrow> (\<forall>i < SIZE * L. \<not> slice_bits bs i)"
    and "i < SIZE * L \<Longrightarrow> slice_is_unit L idx weight bs i = Some (\<forall>j < SIZE * L. slice_bits bs j = (j = i))"
    and "slice_min_support L min_support bs = first_of (supp (SIZE * L) (slice_bits bs))"
    and "slice_max_support L max_support bs = last_of (supp (SIZE * L) (slice_bits bs))"
    and "slice_support L support bs = supp (SIZE * L) (slice_bits bs)"
proof -
  have [simp]: "SIZE * L = slice_len bs" and ok: "slice_ok bs" using assms by simp_all
  from ok show "i < SIZE * L \<Longrightarrow> slice_index L idx bs i = Some (slice_bits bs i)"
    "slice_bits bs i \<Longrightarrow> i < SIZE * L"
    "slice_weight weight bs = length (supp (SIZE * L) (slice_bits bs))"
    "slice_parity parity bs = xsum (SIZE * L) (slice_bits bs)"
    "slice_is_zero is_zero bs \<longleftrightarrow> (\<forall>i < SIZE * L. \<not> slice_bits bs i)"
    "i < SIZE * L \<Longrightarrow> slice_is_unit L idx weight bs i = Some (\<forall>j < SIZE * L. slice_bits bs j = (j = i))"
    "slice_min_support L min_support bs = first_of (supp (SIZE * L) (slice_bits bs))"
    "slice_max_support L max_support bs = last_of (supp (SIZE * L) (slice_bits bs))"
    "slice_support L support bs = supp (SIZE * L) (slice_bits bs)"
    by (simp_all add: slice_index slice_bits_bound slice_weight slice_parity slice_is_zero slice_is_unit
        slice_min_support slice_max_support slice_support)
qed

lemma array_assigns:
  assumes "array_ok as" "array_ok bs"
  shows "array_ok (array_pair_assign SIZE copy_from as bs) \<and> SIZE * L = SIZE * L \<and>
      slice_bits (array_pair_assign SIZE copy_from as bs) = slice_bits bs"
    and "array_ok (array_pair_assign SIZE xor_assign as bs) \<and> SIZE * L = SIZE * L \<and>
      slice_bits (array_pair_assign SIZE xor_assign as bs) = (\<lambda>i. slice_bits as i \<noteq> slice_bits bs i)"
    and "array_ok (array_pair_assign SIZE and_assign as bs) \<and> SIZE * L = SIZE * L \<and>
      slice_bits (array_pair_assign SIZE and_assign as bs) = (\<lambda>i. slice_bits as i \<and> slice_bits bs i)"
    and "array_ok (array_pair_assign SIZE or_assign as bs) \<and> SIZE * L = SIZE * L \<and>
      slice_bits (array_pair_assign SIZE or_assign as bs) = (\<lambda>i. slice_bits as i \<or> slice_bits bs i)"
  using array_pair [OF assms] array_pair_ok [OF assms] by simp_all

lemma array_L: "0 < SIZE * L" "array_ok bs \<Longrightarrow> SIZE * L = SIZE * L"
  using SIZE_pos L_pos by simp_all

lemmas array_laws = array_single array_pair array_assigns array_L array_assign_index array_negate_index array_clear

end

sublocale bitwise_array \<subseteq> array: bitwise_block "\<lambda>bs. all_blocks invar bs \<and> length bs = SIZE" "\<lambda>_. SIZE * L"
    "lift_bit L bits"
    "slice_index L idx" "slice_assign_index L assign" "slice_negate_index L negate"
    "slice_clear_bits clear" "slice_weight weight" "slice_parity parity" "slice_is_zero is_zero"
    "slice_is_unit L idx weight" "slice_min_support L min_support" "slice_max_support L max_support"
    "slice_support L support" "array_dot SIZE dot" "array_pair_weight SIZE and_weight"
    "array_pair_weight SIZE or_weight" "array_pair_weight SIZE xor_weight" "array_pair_assign SIZE copy_from"
    "array_pair_assign SIZE xor_assign" "array_pair_assign SIZE and_assign" "array_pair_assign SIZE or_assign"
    "SIZE * L"
  by unfold_locales (rule array_laws; assumption)+

end
