(* ===== verification/Aligned_Bits.thy ===== *)
theory Aligned_Bits
  imports Bitwise
begin

text \<open>
  The 512-bit block of binar (\<open>bit/bitblock.rs\<close>), its slices, the aligned bit vector
  (\<open>vec/aligned_vec.rs\<close>) and the bit vector with a length (\<open>vec/bitvec.rs\<close>,
  \<open>bit/bitwise_truncated.rs\<close>), and the two bit iterators of \<open>bit/bitwise_via_std.rs\<close>.
  A \<open>BitBlock\<close> is the list of its eight words, a \<open>&[BitBlock]\<close> or an \<open>AlignedBitVec\<close> a list
  of blocks; \<open>blocks_bit v i\<close> is the mathematical bit \<open>i\<close>.
\<close>

unbundle bit_operations_syntax

type_synonym bitblock = "u64 list"

section \<open>Iterators over bits\<close>

text \<open>\<open>BitIteratorForUnsignedInt\<close>: a mask that moves left until it is shifted out.\<close>

record 'a word_iter =
  wi_mask :: 'a
  wi_word :: 'a

definition word_iter_from_bits :: "'a::len word \<Rightarrow> 'a word word_iter" where
  "word_iter_from_bits w = \<lparr> wi_mask = 1, wi_word = w \<rparr>"

definition word_iter_next :: "'a::len word word_iter \<Rightarrow> (bool \<times> 'a word word_iter) option" where
  "word_iter_next it =
     (if wi_mask it = 0 then None
      else Some (wi_word it AND wi_mask it = wi_mask it, it \<lparr> wi_mask := push_bit 1 (wi_mask it) \<rparr>))"

text \<open>\<open>BitIteratorForUnsignedIntSlice\<close>: a word index and a mask that rotates.\<close>

record 'a slice_iter =
  si_word_index :: nat
  si_word_mask :: 'a
  si_bits :: "'a list"

definition slice_iter_from_bits :: "'a::len word list \<Rightarrow> 'a word slice_iter" where
  "slice_iter_from_bits ws = \<lparr> si_word_index = 0, si_word_mask = 1, si_bits = ws \<rparr>"

definition slice_iter_next :: "'a::len word slice_iter \<Rightarrow> (bool \<times> 'a word slice_iter) option" where
  "slice_iter_next it =
     (if si_word_index it < length (si_bits it) then
        let value = (si_bits it ! si_word_index it AND si_word_mask it \<noteq> 0);
            mask = word_rotl 1 (si_word_mask it)
        in Some (value, it \<lparr> si_word_mask := mask,
             si_word_index := si_word_index it + (if mask = 1 then 1 else 0) \<rparr>)
      else None)"

text \<open>The values of the first \<open>n\<close> calls of \<open>next\<close>, up to the first \<open>None\<close>.\<close>

fun run_iter :: "('s \<Rightarrow> ('a \<times> 's) option) \<Rightarrow> nat \<Rightarrow> 's \<Rightarrow> 'a list" where
  "run_iter next_fn 0 s = []"
| "run_iter next_fn (Suc n) s = (case next_fn s of None \<Rightarrow> [] | Some (x, s') \<Rightarrow> x # run_iter next_fn n s')"

lemma run_iter_seq:
  assumes "\<And>k. k < m \<Longrightarrow> next_fn (st k) = Some (f k, st (Suc k))" and "next_fn (st m) = None"
    and "k \<le> m" and "m - k \<le> n"
  shows "run_iter next_fn n (st k) = map f [k..<m]"
  using assms(3,4)
proof (induction n arbitrary: k)
  case 0
  then show ?case by simp
next
  case (Suc n)
  then show ?case using assms(1) [of k] assms(2)
    by (cases "k = m") (simp_all add: upt_conv_Cons)
qed

lemma mask_top: "k < LENGTH('a) \<Longrightarrow> (push_bit k 1 :: 'a::len word) \<noteq> 0"
  using bit_mask_unit [of k k, where 'a = 'a] by (metis bit_0_eq bot_apply bot_bool_def)

lemma rotl_mask:
  assumes "k < LENGTH('a)"
  shows "word_rotl 1 (push_bit k 1 :: 'a::len word) = push_bit (Suc k mod LENGTH('a)) 1"
proof (rule bit_word_eqI)
  fix n assume n: "n < LENGTH('a)"
  have "(n + (LENGTH('a) - 1 mod LENGTH('a))) mod LENGTH('a) = k \<longleftrightarrow> n = Suc k mod LENGTH('a)"
  proof (cases "LENGTH('a) = 1")
    case False
    then have L: "1 mod LENGTH('a) = 1" by (cases "LENGTH('a)") simp_all
    have s: "Suc k mod LENGTH('a) = (if Suc k = LENGTH('a) then 0 else Suc k)"
      using assms by (simp add: mod_Suc)
    show ?thesis
    proof (cases "n = 0")
      case True
      with assms show ?thesis unfolding L True s by auto
    next
      case False
      obtain m where "LENGTH('a) = Suc m" by (cases "LENGTH('a)") simp_all
      with False have "n + (LENGTH('a) - 1) = (n - 1) + LENGTH('a)" by simp
      then have "(n + (LENGTH('a) - 1)) mod LENGTH('a) = ((n - 1) + LENGTH('a)) mod LENGTH('a)" by (rule arg_cong)
      also have "\<dots> = (n - 1) mod LENGTH('a)" by (rule mod_add_self2)
      also have "\<dots> = n - 1" by (rule mod_less) (rule le_less_trans [OF diff_le_self n])
      finally have "(n + (LENGTH('a) - 1)) mod LENGTH('a) = n - 1" .
      then show ?thesis unfolding L s using False n by auto
    qed
  qed (use assms n in auto)
  then show "bit (word_rotl 1 (push_bit k 1 :: 'a word)) n = bit (push_bit (Suc k mod LENGTH('a)) 1 :: 'a word) n"
    using assms n by (auto simp: bit_word_rotl_iff bit_mask_unit simp del: push_bit_of_1)
qed

lemma word_iter_run:
  fixes w :: "'a::len word"
  assumes "LENGTH('a) \<le> n"
  shows "run_iter word_iter_next n (word_iter_from_bits w) = map (bit w) [0..<LENGTH('a)]"
proof -
  let ?st = "\<lambda>k. \<lparr> wi_mask = push_bit k 1, wi_word = w \<rparr>"
  have step: "word_iter_next (?st k) = Some (bit w k, ?st (Suc k))" if "k < LENGTH('a)" for k
    using mask_top [OF that] and_mask_eq [OF that, of w]
    by (simp add: word_iter_next_def and.commute [of w] del: push_bit_of_1)
  have "push_bit LENGTH('a) (1 :: 'a word) = 0"
    by (rule bit_word_eqI) (simp add: bit_mask_unit del: push_bit_of_1)
  then have stop: "word_iter_next (?st LENGTH('a)) = None"
    by (simp add: word_iter_next_def del: push_bit_of_1)
  show ?thesis
    using run_iter_seq [where st = ?st and k = 0 and f = "bit w", OF step stop] assms
    by (simp add: word_iter_from_bits_def del: push_bit_of_1) 
qed

lemma and_mask_nonzero: "k < LENGTH('a) \<Longrightarrow> (w AND push_bit k 1 \<noteq> 0) = bit w k" for w :: "'a::len word"
  unfolding word_nonzero_iff_bit by (auto simp: bit_and_iff bit_mask_unit simp del: push_bit_of_1)

lemma slice_iter_run:
  fixes ws :: "'a::len word list"
  assumes "length ws * LENGTH('a) \<le> n"
  shows "run_iter slice_iter_next n (slice_iter_from_bits ws) =
    map (lift_bit LENGTH('a) bit ws) [0..<length ws * LENGTH('a)]"
proof -
  let ?L = "LENGTH('a)"
  let ?st = "\<lambda>k. \<lparr> si_word_index = k div ?L, si_word_mask = push_bit (k mod ?L) 1, si_bits = ws \<rparr>"
  have step: "slice_iter_next (?st k) = Some (lift_bit ?L bit ws k, ?st (Suc k))" if k: "k < length ws * ?L" for k
  proof -
    have m: "k mod ?L < ?L" "k div ?L < length ws" using k by (simp_all add: div_mod_less)
    have one: "(push_bit (Suc (k mod ?L) mod ?L) 1 = (1 :: 'a word)) \<longleftrightarrow> Suc (k mod ?L) mod ?L = 0"
    proof
      assume "push_bit (Suc (k mod ?L) mod ?L) 1 = (1 :: 'a word)"
      then have "bit (push_bit (Suc (k mod ?L) mod ?L) 1 :: 'a word) 0" by simp
      then show "Suc (k mod ?L) mod ?L = 0" unfolding bit_mask_unit by simp
    qed simp
    have "Suc k div ?L = k div ?L + (if Suc (k mod ?L) mod ?L = 0 then 1 else 0)"
      by (simp add: div_Suc mod_Suc)
    moreover have "Suc (k mod ?L) mod ?L = Suc k mod ?L" by (simp add: mod_Suc_eq)
    ultimately show ?thesis
      using m k one
      by (simp add: slice_iter_next_def Let_def rotl_mask [OF m(1), unfolded One_nat_def] and_mask_nonzero [OF m(1)] lift_bit_def
          del: push_bit_of_1)
  qed
  have stop: "slice_iter_next (?st (length ws * ?L)) = None" by (simp add: slice_iter_next_def)
  show ?thesis
    using run_iter_seq [where st = ?st and k = 0, OF step stop] assms
    by (simp add: slice_iter_from_bits_def del: push_bit_of_1)
qed

section \<open>Blocks and slices of blocks\<close>

text \<open>\<open>BitBlock\<close> delegates every trait to \<open>[u64; 8]\<close>: the single-operand ones to the slice
  implementation, the pairs to the array implementation.\<close>

definition block_default :: bitblock where
  "block_default = replicate 8 0"

definition block_ones :: bitblock where
  "block_ones = replicate 8 (- 1)"

definition block_clear :: "bitblock \<Rightarrow> bitblock" where
  "block_clear b = replicate (length b) 0"

definition block_index :: "bitblock \<Rightarrow> nat \<Rightarrow> bool option" where
  "block_index = slice_index 64 word_index"

definition block_assign_index :: "nat \<Rightarrow> bool \<Rightarrow> bitblock \<Rightarrow> bitblock option" where
  "block_assign_index = slice_assign_index 64 word_assign_index"

definition block_negate_index :: "nat \<Rightarrow> bitblock \<Rightarrow> bitblock option" where
  "block_negate_index = slice_negate_index 64 word_negate_index"

definition block_clear_bits :: "bitblock \<Rightarrow> bitblock" where
  "block_clear_bits = slice_clear_bits word_clear_bits"

definition block_weight :: "bitblock \<Rightarrow> nat" where
  "block_weight = slice_weight word_weight"

definition block_parity :: "bitblock \<Rightarrow> bool" where
  "block_parity = slice_parity word_parity"

definition block_is_zero :: "bitblock \<Rightarrow> bool" where
  "block_is_zero = slice_is_zero word_is_zero"

definition block_is_unit :: "bitblock \<Rightarrow> nat \<Rightarrow> bool option" where
  "block_is_unit = slice_is_unit 64 word_index word_weight"

definition block_min_support :: "bitblock \<Rightarrow> nat option" where
  "block_min_support = slice_min_support 64 word_min_support"

definition block_max_support :: "bitblock \<Rightarrow> nat option" where
  "block_max_support = slice_max_support 64 word_max_support"

definition block_support :: "bitblock \<Rightarrow> nat list" where
  "block_support = slice_support 64 word_support"

definition block_dot :: "bitblock \<Rightarrow> bitblock \<Rightarrow> bool" where
  "block_dot = array_dot 8 word_dot"

definition block_and_weight :: "bitblock \<Rightarrow> bitblock \<Rightarrow> nat" where
  "block_and_weight = array_pair_weight 8 word_and_weight"

definition block_or_weight :: "bitblock \<Rightarrow> bitblock \<Rightarrow> nat" where
  "block_or_weight = array_pair_weight 8 word_or_weight"

definition block_xor_weight :: "bitblock \<Rightarrow> bitblock \<Rightarrow> nat" where
  "block_xor_weight = array_pair_weight 8 word_xor_weight"

definition block_assign :: "bitblock \<Rightarrow> bitblock \<Rightarrow> bitblock" where
  "block_assign = array_pair_assign 8 word_assign"

definition block_bitxor_assign :: "bitblock \<Rightarrow> bitblock \<Rightarrow> bitblock" where
  "block_bitxor_assign = array_pair_assign 8 word_bitxor_assign"

definition block_bitand_assign :: "bitblock \<Rightarrow> bitblock \<Rightarrow> bitblock" where
  "block_bitand_assign = array_pair_assign 8 word_bitand_assign"

definition block_bitor_assign :: "bitblock \<Rightarrow> bitblock \<Rightarrow> bitblock" where
  "block_bitor_assign = array_pair_assign 8 word_bitor_assign"

lemmas block_ops = block_index_def block_assign_index_def block_negate_index_def block_clear_bits_def
  block_weight_def block_parity_def block_is_zero_def block_is_unit_def block_min_support_def
  block_max_support_def block_support_def block_dot_def block_and_weight_def block_or_weight_def
  block_xor_weight_def block_assign_def block_bitxor_assign_def block_bitand_assign_def
  block_bitor_assign_def

definition block_ok :: "bitblock \<Rightarrow> bool" where
  "block_ok b \<longleftrightarrow> length b = 8"

definition block_bit :: "bitblock \<Rightarrow> nat \<Rightarrow> bool" where
  "block_bit = lift_bit 64 bit"

lemma all_True [simp]: "all_blocks (\<lambda>_. True) bs"
  by (simp add: all_blocks_def)

interpretation word8: bitwise_array "\<lambda>_. True" "\<lambda>_. 64" bit word_index
    word_assign_index word_negate_index word_clear_bits word_weight word_parity word_is_zero
    word_is_unit word_min_support word_max_support word_support word_dot word_and_weight
    word_or_weight word_xor_weight word_assign word_bitxor_assign word_bitand_assign
    "word_bitor_assign :: u64 \<Rightarrow> u64 \<Rightarrow> u64" 64 8
  using word.bitwise_block_axioms [where 'a = 64]
  by (intro bitwise_array.intro bitwise_array_axioms.intro) simp_all

interpretation block: bitwise_block block_ok "\<lambda>_. 512" block_bit block_index block_assign_index
    block_negate_index block_clear_bits block_weight block_parity block_is_zero block_is_unit
    block_min_support block_max_support block_support block_dot block_and_weight block_or_weight
    block_xor_weight block_assign block_bitxor_assign block_bitand_assign block_bitor_assign 512
  using word8.array.bitwise_block_axioms
  by (simp add: block_ops block_ok_def [abs_def] block_bit_def)

text \<open>\<open>BitAccessor\<close>: the word and the mask of one bit, used instead of the traits where a loop
  touches the same bit of many blocks.\<close>

record bit_accessor =
  ba_word_index :: nat
  ba_bitmask :: u64

definition accessor_for_index_unchecked :: "nat \<Rightarrow> bit_accessor" where
  "accessor_for_index_unchecked i = \<lparr> ba_word_index = i div 64, ba_bitmask = push_bit (i mod 64) 1 \<rparr>"

definition accessor_for_index :: "nat \<Rightarrow> nat \<Rightarrow> bit_accessor option" where
  "accessor_for_index block_bit_len i = do {
     guard_opt (i < block_bit_len);
     Some (accessor_for_index_unchecked i) }"

definition array_value_of :: "bit_accessor \<Rightarrow> u64 list \<Rightarrow> bool option" where
  "array_value_of a b = do {
     word \<leftarrow> nth_opt b (ba_word_index a);
     Some (word AND ba_bitmask a \<noteq> 0) }"

definition array_bitxor :: "bit_accessor \<Rightarrow> u64 list \<Rightarrow> u64 list option" where
  "array_bitxor a b = do {
     word \<leftarrow> nth_opt b (ba_word_index a);
     update_opt b (ba_word_index a) (word XOR ba_bitmask a) }"

definition array_set_value_of :: "bit_accessor \<Rightarrow> bool \<Rightarrow> u64 list \<Rightarrow> u64 list option" where
  "array_set_value_of a to b = do {
     word \<leftarrow> nth_opt b (ba_word_index a);
     update_opt b (ba_word_index a) (if to then word OR ba_bitmask a else word AND NOT (ba_bitmask a)) }"

text \<open>The accessor agrees with the trait methods on every index in range.\<close>

lemma accessor_correct:
  assumes "block_ok b" "i < 512"
  shows "Option.bind (accessor_for_index 512 i) (\<lambda>a. array_value_of a b) = block_index b i"
    and "Option.bind (accessor_for_index 512 i) (\<lambda>a. array_bitxor a b) = block_negate_index i b"
    and "Option.bind (accessor_for_index 512 i) (\<lambda>a. array_set_value_of a to b) = block_assign_index i to b"
proof -
  have i: "i div 64 < length b" "i mod 64 < 64" using assms by (auto simp: block_ok_def)
  then have l: "i mod 64 < LENGTH(64)" by simp
  note defs = accessor_for_index_def accessor_for_index_unchecked_def array_value_of_def array_bitxor_def
    array_set_value_of_def slice_index_def slice_negate_index_def slice_assign_index_def block_ops
    block_and_bit_index_def word_index_def word_negate_index_def word_assign_index_def shl_opt_def
  show "Option.bind (accessor_for_index 512 i) (\<lambda>a. array_value_of a b) = block_index b i"
    using assms(2) i by (simp add: defs and_mask_nonzero [OF l] and_mask_eq [OF l] del: push_bit_of_1)
  show "Option.bind (accessor_for_index 512 i) (\<lambda>a. array_bitxor a b) = block_negate_index i b"
    using assms(2) i by (simp add: defs del: push_bit_of_1)
  show "Option.bind (accessor_for_index 512 i) (\<lambda>a. array_set_value_of a to b) = block_assign_index i to b"
    using assms(2) i by (simp add: defs del: push_bit_of_1)
qed

text \<open>Slices of blocks.  \<open>dot\<close> is not the generic one: it folds the words of both slices into
  one word and takes its parity.\<close>

definition words :: "bitblock list \<Rightarrow> u64 list" where
  "words bs = concat bs"

definition blocks_index :: "bitblock list \<Rightarrow> nat \<Rightarrow> bool option" where
  "blocks_index = slice_index 512 block_index"

definition blocks_assign_index :: "nat \<Rightarrow> bool \<Rightarrow> bitblock list \<Rightarrow> bitblock list option" where
  "blocks_assign_index = slice_assign_index 512 block_assign_index"

definition blocks_negate_index :: "nat \<Rightarrow> bitblock list \<Rightarrow> bitblock list option" where
  "blocks_negate_index = slice_negate_index 512 block_negate_index"

definition blocks_clear_bits :: "bitblock list \<Rightarrow> bitblock list" where
  "blocks_clear_bits = slice_clear_bits block_clear_bits"

definition blocks_weight :: "bitblock list \<Rightarrow> nat" where
  "blocks_weight = slice_weight block_weight"

definition blocks_parity :: "bitblock list \<Rightarrow> bool" where
  "blocks_parity = slice_parity block_parity"

definition blocks_is_zero :: "bitblock list \<Rightarrow> bool" where
  "blocks_is_zero = slice_is_zero block_is_zero"

definition blocks_is_unit :: "bitblock list \<Rightarrow> nat \<Rightarrow> bool option" where
  "blocks_is_unit = slice_is_unit 512 block_index block_weight"

definition blocks_min_support :: "bitblock list \<Rightarrow> nat option" where
  "blocks_min_support = slice_min_support 512 block_min_support"

definition blocks_max_support :: "bitblock list \<Rightarrow> nat option" where
  "blocks_max_support = slice_max_support 512 block_max_support"

definition blocks_support :: "bitblock list \<Rightarrow> nat list" where
  "blocks_support = slice_support 512 block_support"

definition blocks_dot :: "bitblock list \<Rightarrow> bitblock list \<Rightarrow> bool" where
  "blocks_dot as bs =
     word_parity (fold (\<lambda>(left, right) parity. parity XOR (left AND right)) (zip (words as) (words bs)) 0)"

definition blocks_and_weight :: "bitblock list \<Rightarrow> bitblock list \<Rightarrow> nat" where
  "blocks_and_weight = slice_pair_weight block_and_weight"

definition blocks_or_weight :: "bitblock list \<Rightarrow> bitblock list \<Rightarrow> nat" where
  "blocks_or_weight = slice_pair_weight block_or_weight"

definition blocks_xor_weight :: "bitblock list \<Rightarrow> bitblock list \<Rightarrow> nat" where
  "blocks_xor_weight = slice_pair_weight block_xor_weight"

definition blocks_assign :: "bitblock list \<Rightarrow> bitblock list \<Rightarrow> bitblock list" where
  "blocks_assign = slice_pair_assign block_assign"

definition blocks_bitxor_assign :: "bitblock list \<Rightarrow> bitblock list \<Rightarrow> bitblock list" where
  "blocks_bitxor_assign = slice_pair_assign block_bitxor_assign"

definition blocks_bitand_assign :: "bitblock list \<Rightarrow> bitblock list \<Rightarrow> bitblock list" where
  "blocks_bitand_assign = slice_pair_assign block_bitand_assign"

definition blocks_bitor_assign :: "bitblock list \<Rightarrow> bitblock list \<Rightarrow> bitblock list" where
  "blocks_bitor_assign = slice_pair_assign block_bitor_assign"

lemmas blocks_ops = blocks_index_def blocks_assign_index_def blocks_negate_index_def blocks_clear_bits_def
  blocks_weight_def blocks_parity_def blocks_is_zero_def blocks_is_unit_def blocks_min_support_def
  blocks_max_support_def blocks_support_def blocks_and_weight_def blocks_or_weight_def
  blocks_xor_weight_def blocks_assign_def blocks_bitxor_assign_def blocks_bitand_assign_def
  blocks_bitor_assign_def

definition blocks_ok :: "bitblock list \<Rightarrow> bool" where
  "blocks_ok = all_blocks block_ok"

definition blocks_bit :: "bitblock list \<Rightarrow> nat \<Rightarrow> bool" where
  "blocks_bit = lift_bit 512 block_bit"

lemma nth_concat_uniform:
  assumes "\<forall>b \<in> set bs. length b = m" "k < length bs * m"
  shows "concat bs ! k = bs ! (k div m) ! (k mod m)"
  using assms
proof (induction bs arbitrary: k)
  case Nil
  then show ?case by simp
next
  case (Cons b bs)
  show ?case
  proof (cases "k < m")
    case True
    with Cons.prems show ?thesis by (simp add: nth_append)
  next
    case False
    then obtain j where j: "k = m + j" by (metis le_iff_add not_le)
    from Cons.prems j have "j < length bs * m" "m \<noteq> 0" by auto
    with Cons j show ?thesis by (simp add: nth_append div_add_self1)
  qed
qed

lemma length_words: "blocks_ok bs \<Longrightarrow> length (words bs) = length bs * 8"
  unfolding words_def blocks_ok_def all_blocks_def block_ok_def by (induction bs) auto

text \<open>Seen through its words, a slice of blocks is a slice of words.\<close>

lemma blocks_bit_words:
  assumes "blocks_ok bs"
  shows "blocks_bit bs = lift_bit 64 bit (words bs)"
proof
  fix i
  show "blocks_bit bs i = lift_bit 64 bit (words bs) i"
  proof (cases "i < length bs * 512")
    case True
    have m: "i mod 512 = 64 * (i div 64 mod 8) + i mod 64"
      using mod_mult2_eq [of i 64 8] by simp
    have "i div 64 div 8 = i div 512" by (simp add: div_mult2_eq [symmetric])
    moreover have "i mod 512 div 64 = i div 64 mod 8" unfolding m by simp
    moreover have "i mod 512 mod 64 = i mod 64" unfolding m by simp
    moreover have "concat bs ! (i div 64) = bs ! (i div 64 div 8) ! (i div 64 mod 8)"
      using assms True by (intro nth_concat_uniform) (auto simp: blocks_ok_def all_blocks_def block_ok_def)
    moreover have "length (bs ! (i div 512)) = 8"
      using assms True by (simp add: blocks_ok_def all_blocks_def block_ok_def)
    ultimately show ?thesis
      using True assms by (simp add: blocks_bit_def block_bit_def lift_bit_def length_words) (simp add: words_def)
  next
    case False
    then show ?thesis using assms by (simp add: blocks_bit_def lift_bit_def length_words)
  qed
qed

lemma word_parity_xor: "word_parity (v XOR w) = (word_parity v \<noteq> word_parity w)" for v w :: u64
proof -
  have "xsum LENGTH(64) (bit (v XOR w)) = (xsum LENGTH(64) (bit v) \<noteq> xsum LENGTH(64) (bit w))"
    unfolding bit_word_fun by (rule xsum_xor)
  then show ?thesis by (simp only: word.parity [OF TrueI])
qed

lemma fold_parity: "word_parity (fold (\<lambda>(l, r) p. p XOR (l AND r)) ps acc) =
    (word_parity acc \<noteq> odd (sum_list (map (\<lambda>(l, r). if word_dot l r then 1 else (0 :: nat)) ps)))"
  for acc :: u64
proof (induction ps arbitrary: acc)
  case Nil
  then show ?case by simp
next
  case (Cons p ps)
  obtain l r where p: "p = (l, r)" by force
  have "word_parity (l AND r) = word_dot l r"
    by (simp add: word_parity_def word_dot_def word_weight_def)
  with Cons [of "acc XOR (l AND r)"] show ?case by (auto simp: p word_parity_xor)
qed

lemma blocks_dot_slice:
  assumes "blocks_ok as" "blocks_ok bs" "length as = length bs"
  shows "blocks_dot as bs = xsum (length as * 512) (\<lambda>i. blocks_bit as i \<and> blocks_bit bs i)"
proof -
  have "blocks_dot as bs = slice_dot word_dot (words as) (words bs)"
    unfolding blocks_dot_def fold_parity slice_dot_def odd_mod_2 by (simp add: word.parity)
  also have "\<dots> = xsum (length (words as) * 64) (\<lambda>i. lift_bit 64 bit (words as) i \<and> lift_bit 64 bit (words bs) i)"
    using word.slice.dot [where 'a = 64, of "words as" "words bs"] assms by (simp add: length_words)
  finally show ?thesis using assms by (simp add: length_words blocks_bit_words mult.commute)
qed

interpretation blocks: bitwise blocks_ok "\<lambda>bs. length bs * 512" blocks_bit blocks_index blocks_assign_index
    blocks_negate_index blocks_clear_bits blocks_weight blocks_parity blocks_is_zero blocks_is_unit
    blocks_min_support blocks_max_support blocks_support blocks_dot blocks_and_weight blocks_or_weight
    blocks_xor_weight blocks_assign blocks_bitxor_assign blocks_bitand_assign blocks_bitor_assign
proof -
  have "bitwise_axioms blocks_ok (\<lambda>bs. length bs * 512) blocks_bit blocks_clear_bits blocks_weight blocks_parity blocks_is_zero blocks_is_unit
    blocks_min_support blocks_max_support blocks_support (slice_dot block_dot) blocks_and_weight blocks_or_weight
    blocks_xor_weight blocks_assign blocks_bitxor_assign blocks_bitand_assign blocks_bitor_assign"
    using block.slice.bitwise_axioms by (simp add: bitwise_def blocks_ops blocks_ok_def blocks_bit_def)
  moreover have "bit_store blocks_ok (\<lambda>bs. length bs * 512) blocks_bit blocks_index blocks_assign_index blocks_negate_index"
    using block.slice.bit_store_axioms by (simp add: blocks_ops blocks_ok_def blocks_bit_def)
  ultimately show "bitwise blocks_ok (\<lambda>bs. length bs * 512) blocks_bit blocks_index blocks_assign_index
    blocks_negate_index blocks_clear_bits blocks_weight blocks_parity blocks_is_zero blocks_is_unit
    blocks_min_support blocks_max_support blocks_support blocks_dot blocks_and_weight blocks_or_weight
    blocks_xor_weight blocks_assign blocks_bitxor_assign blocks_bitand_assign blocks_bitor_assign"
    using blocks_dot_slice by (simp add: bitwise_def bitwise_axioms_def)
qed

end
