(* ===== verification/Aligned_Vec.thy ===== *)
theory Aligned_Vec
  imports Aligned_Bits
begin

text \<open>
  \<open>AlignedBitVec\<close> (\<open>vec/aligned_vec.rs\<close>) and \<open>BitVec\<close> (\<open>vec/bitvec.rs\<close> over
  \<open>bit/truncated.rs\<close> and \<open>bit/bitwise_truncated.rs\<close>) of binar.  An aligned vector is its blocks, so
  its length is a multiple of 512; a \<open>BitVec\<close> adds a length and reads the aligned vector
  through an assertion.  The weight, the parity and the zero test of a \<open>BitVec\<close> are those of
  all the blocks, so they are right only when the bits past the length are clear
  (\<open>bitvec_clean\<close>), which is what every constructor but \<open>extract\<close> is shown to establish.
\<close>

unbundle bit_operations_syntax

section \<open>Aligned vectors\<close>

definition block_count :: "nat \<Rightarrow> nat \<Rightarrow> nat" where
  "block_count l bits_per_block =
     l div bits_per_block + (if \<not> bits_per_block dvd l then 1 else 0)"

definition aligned_zeros :: "nat \<Rightarrow> bitblock list" where
  "aligned_zeros n = replicate (block_count n 512) block_default"

definition aligned_ones :: "nat \<Rightarrow> bitblock list" where
  "aligned_ones n = replicate (block_count n 512) block_ones"

definition aligned_clear :: "bitblock list \<Rightarrow> bitblock list" where
  "aligned_clear bs = map block_clear bs"

text \<open>The inner loop of \<open>with_length_from_iter\<close> fills one block; it stops early, with the index
  reached, when the iterator is exhausted.\<close>

fun fill_block :: "nat list \<Rightarrow> bool list \<Rightarrow> bitblock \<Rightarrow> nat \<Rightarrow> (nat option \<times> bool list \<times> bitblock \<times> nat) option" where
  "fill_block [] it b n = Some (None, it, b, n)"
| "fill_block (index # rest) [] b n = Some (Some index, [], b, n)"
| "fill_block (index # rest) (x # it) b n = do {
     b \<leftarrow> (if x then block_assign_index index True b else Some b);
     fill_block rest it b (n + 1) }"

function from_iter_loop :: "bool list \<Rightarrow> bitblock list \<Rightarrow> nat \<Rightarrow> (bitblock list \<times> nat) option" where
  "from_iter_loop it bs n =
     (case fill_block [0..<512] it block_default n of
        None \<Rightarrow> None
      | Some (Some index, _, b, n) \<Rightarrow> Some (if index = 0 then bs else bs @ [b], n)
      | Some (None, it', b, n) \<Rightarrow> from_iter_loop it' (bs @ [b]) n)"
  by pat_completeness auto

lemma fill_block_consumes:
  "fill_block is it b n = Some (r, it', b', n') \<Longrightarrow> length it' + (n' - n) = length it \<and> n \<le> n' \<and>
     (r = None \<longrightarrow> n' = n + length is)"
  by (induction "is" it b n arbitrary: r it' b' n' rule: fill_block.induct)
    (fastforce split: if_splits simp: bind_eq_Some_conv)+

termination from_iter_loop
  by (relation "measure (\<lambda>(it, _). length it)") (auto dest!: fill_block_consumes)

declare from_iter_loop.simps [simp del]

definition with_length_from_iter :: "bool list \<Rightarrow> (bitblock list \<times> nat) option" where
  "with_length_from_iter it = from_iter_loop it [] 0"

definition aligned_top :: "bitblock list \<Rightarrow> u64 option" where
  "aligned_top bs = do { b \<leftarrow> nth_opt bs 0; nth_opt b 0 }"

definition as_words :: "bitblock list \<Rightarrow> u64 list" where
  "as_words bs = words bs"

function from_words :: "u64 list \<Rightarrow> bitblock list" where
  "from_words ws =
     (if ws = [] then []
      else (let chunk = take 8 ws in chunk @ drop (length chunk) (replicate 8 0)) # from_words (drop 8 ws))"
  by pat_completeness auto

termination from_words
  by (relation "measure length") auto

declare from_words.simps [simp del]

definition selected_from :: "bitblock list \<Rightarrow> nat list \<Rightarrow> bitblock list option" where
  "selected_from view support =
     ofold (\<lambda>index bits. do { v \<leftarrow> blocks_index view index; blocks_assign_index index v bits })
       support (aligned_zeros (length support))"

definition aligned_resize :: "nat \<Rightarrow> bitblock list \<Rightarrow> bitblock list option" where
  "aligned_resize new_length bs =
     (let old_length = length bs * 512 in
      if new_length = old_length then Some bs
      else if new_length > old_length then
        Some (bs @ replicate (block_count new_length 512 - length bs) block_default)
      else ofold (\<lambda>j new_vec. do { v \<leftarrow> blocks_index bs j; blocks_assign_index j v new_vec })
             [0..<min old_length new_length] (aligned_zeros new_length))"

text \<open>Shifting works on the words.  \<open>rows\<close> of eight words go back into blocks, as writing through
  the pointer does.\<close>

fun unwords :: "nat \<Rightarrow> u64 list \<Rightarrow> bitblock list" where
  "unwords 0 ws = []"
| "unwords (Suc n) ws = take 8 ws # unwords n (drop 8 ws)"

definition copy_within :: "nat \<Rightarrow> nat \<Rightarrow> nat \<Rightarrow> 'a list \<Rightarrow> 'a list option" where
  "copy_within a b dest ws = do {
     guard_opt (a \<le> b \<and> b \<le> length ws \<and> dest \<le> length ws - (b - a));
     Some (take dest ws @ take (b - a) (drop a ws) @ drop (dest + (b - a)) ws) }"

definition fill_from :: "nat \<Rightarrow> 'a \<Rightarrow> 'a list \<Rightarrow> 'a list option" where
  "fill_from k x ws = do {
     guard_opt (k \<le> length ws);
     Some (take k ws @ replicate (length ws - k) x) }"

definition shift_left_aligned :: "nat \<Rightarrow> bitblock list \<Rightarrow> bitblock list option" where
  "shift_left_aligned word_shift bs =
     (let total_words = length bs * 8 in
      if total_words \<le> word_shift then Some (blocks_clear_bits bs)
      else do {
        ws \<leftarrow> copy_within word_shift total_words 0 (words bs);
        ws \<leftarrow> fill_from (total_words - word_shift) 0 ws;
        Some (unwords (length bs) ws) })"

definition shr_opt :: "u64 \<Rightarrow> nat \<Rightarrow> u64 option" where
  "shr_opt w i = (if i < 64 then Some (drop_bit i w) else None)"

definition shift_step :: "nat \<Rightarrow> nat \<Rightarrow> u64 list \<times> nat \<times> nat \<Rightarrow> (u64 list \<times> nat \<times> nat) option" where
  "shift_step bit_shift complement_shift = (\<lambda>(ws, destination, source). do {
     w \<leftarrow> nth_opt ws source;
     low_bits \<leftarrow> shr_opt w bit_shift;
     w \<leftarrow> nth_opt ws (source + 1);
     high_bits \<leftarrow> shl_opt w complement_shift;
     ws \<leftarrow> update_opt ws destination (low_bits OR high_bits);
     Some (ws, destination + 1, source + 1) })"

definition shift_left_unaligned :: "nat \<Rightarrow> nat \<Rightarrow> bitblock list \<Rightarrow> bitblock list option" where
  "shift_left_unaligned word_shift bit_shift bs =
     (let total_words = length bs * 8; ws = words bs in
      if total_words \<le> word_shift then Some (unwords (length bs) (map (\<lambda>_. 0) ws))
      else do {
        (ws, destination, source) \<leftarrow>
          ofold (\<lambda>_. shift_step bit_shift (64 - bit_shift))
            [0..<total_words - word_shift - 1] (ws, 0, word_shift);
        w \<leftarrow> nth_opt ws source;
        last_bits \<leftarrow> shr_opt w bit_shift;
        ws \<leftarrow> update_opt ws destination last_bits;
        ws \<leftarrow> fill_from (destination + 1) 0 ws;
        Some (unwords (length bs) ws) })"

definition shl_assign :: "nat \<Rightarrow> bitblock list \<Rightarrow> bitblock list option" where
  "shl_assign count bs =
     (let len = length bs * 512 in
      if count = 0 \<or> len = 0 then Some bs
      else if len \<le> count then Some (blocks_clear_bits bs)
      else let word_shift = count div 64; bit_shift = count mod 64 in
        if bit_shift = 0 then shift_left_aligned word_shift bs
        else shift_left_unaligned word_shift bit_shift bs)"

definition aligned_extract :: "nat \<Rightarrow> nat \<Rightarrow> bitblock list \<Rightarrow> bitblock list option" where
  "aligned_extract start stop bs = do {
     guard_opt (start \<le> stop \<and> stop \<le> length bs * 512);
     let start_block = start div 512;
     let stop_block = (stop + 511) div 512;
     guard_opt (start_block \<le> min stop_block (length bs));
     shl_assign (start mod 512) (drop start_block (take (min stop_block (length bs)) bs)) }"

section \<open>Bit vectors with a length\<close>

record bitvec =
  bit_length :: nat
  vec_bits :: "bitblock list"

definition from_aligned :: "nat \<Rightarrow> bitblock list \<Rightarrow> bitvec" where
  "from_aligned n bs = \<lparr> bit_length = n, vec_bits = bs \<rparr>"

definition bitvec_zeros :: "nat \<Rightarrow> bitvec" where
  "bitvec_zeros n = \<lparr> bit_length = n, vec_bits = aligned_zeros n \<rparr>"

definition bitvec_ones :: "nat \<Rightarrow> bitvec option" where
  "bitvec_ones n = (let bs = aligned_ones n in do {
     bs \<leftarrow> ofold (\<lambda>index. blocks_assign_index index False) [n..<length bs * 512] bs;
     Some (from_aligned n bs) })"

definition bitvec_index :: "bitvec \<Rightarrow> nat \<Rightarrow> bool option" where
  "bitvec_index v i = do { guard_opt (i < bit_length v); blocks_index (vec_bits v) i }"

definition bitvec_assign_index :: "nat \<Rightarrow> bool \<Rightarrow> bitvec \<Rightarrow> bitvec option" where
  "bitvec_assign_index i to v = do {
     guard_opt (i < bit_length v);
     bs \<leftarrow> blocks_assign_index i to (vec_bits v);
     Some (v \<lparr> vec_bits := bs \<rparr>) }"

definition bitvec_negate_index :: "nat \<Rightarrow> bitvec \<Rightarrow> bitvec option" where
  "bitvec_negate_index i v = do {
     guard_opt (i < bit_length v);
     bs \<leftarrow> blocks_negate_index i (vec_bits v);
     Some (v \<lparr> vec_bits := bs \<rparr>) }"

definition bitvec_weight :: "bitvec \<Rightarrow> nat" where
  "bitvec_weight v = blocks_weight (vec_bits v)"

definition bitvec_parity :: "bitvec \<Rightarrow> bool" where
  "bitvec_parity v = blocks_parity (vec_bits v)"

definition bitvec_is_zero :: "bitvec \<Rightarrow> bool" where
  "bitvec_is_zero v = blocks_is_zero (vec_bits v)"

definition bitvec_support :: "bitvec \<Rightarrow> nat list" where
  "bitvec_support v = take (bit_length v) (blocks_support (vec_bits v))"

definition bitvec_dot :: "bitvec \<Rightarrow> bitvec \<Rightarrow> bool option" where
  "bitvec_dot v w = do {
     guard_opt (bit_length v = bit_length w);
     Some (blocks_dot (vec_bits v) (vec_bits w)) }"

definition bitvec_bitxor_assign :: "bitvec \<Rightarrow> bitvec \<Rightarrow> bitvec option" where
  "bitvec_bitxor_assign v w = do {
     guard_opt (bit_length v = bit_length w);
     Some (v \<lparr> vec_bits := blocks_bitxor_assign (vec_bits v) (vec_bits w) \<rparr>) }"

definition bitvec_resize :: "nat \<Rightarrow> bitvec \<Rightarrow> bitvec option" where
  "bitvec_resize new_length v = do {
     bs \<leftarrow> aligned_resize new_length (vec_bits v);
     Some \<lparr> bit_length = new_length, vec_bits = bs \<rparr> }"

definition bitvec_from_iter :: "bool list \<Rightarrow> bitvec option" where
  "bitvec_from_iter it = do {
     (aligned, n) \<leftarrow> with_length_from_iter it;
     Some (from_aligned n aligned) }"

definition bitvec_extract :: "nat \<Rightarrow> nat \<Rightarrow> bitvec \<Rightarrow> bitvec option" where
  "bitvec_extract start stop v = do {
     guard_opt (start \<le> stop);
     bs \<leftarrow> aligned_extract start stop (vec_bits v);
     Some (from_aligned (stop - start) bs) }"

definition bitvec_to_string :: "bitvec \<Rightarrow> string option" where
  "bitvec_to_string v =
     ofold (\<lambda>index acc. do {
         b \<leftarrow> bitvec_index v index;
         Some (acc @ [if b then CHR ''1'' else CHR ''0'']) }) [0..<bit_length v] []"

section \<open>Constructors\<close>

lemma block_default_ok [simp]: "block_ok block_default" "block_ok block_ones"
  by (simp_all add: block_ok_def block_default_def block_ones_def)

lemma block_default_bit [simp]: "block_bit block_default = (\<lambda>_. False)"
  by (auto simp: block_bit_def block_default_def lift_bit_def fun_eq_iff div_mod_less)

lemma blocks_ok_simps [simp]:
  "blocks_ok []" "blocks_ok (b # bs) \<longleftrightarrow> block_ok b \<and> blocks_ok bs"
  "blocks_ok (bs @ cs) \<longleftrightarrow> blocks_ok bs \<and> blocks_ok cs" "blocks_ok (replicate n b) \<longleftrightarrow> n = 0 \<or> block_ok b"
  by (auto simp: blocks_ok_def all_blocks_def)

lemma blocks_ok_take_drop: "blocks_ok bs \<Longrightarrow> blocks_ok (take n bs)" "blocks_ok bs \<Longrightarrow> blocks_ok (drop n bs)"
  by (auto simp: blocks_ok_def all_blocks_def dest: in_set_takeD in_set_dropD)

lemma block_count_bounds: "n \<le> block_count n 512 * 512 \<and> block_count n 512 * 512 < n + 512"
proof -
  define q r where q: "q = n div 512" and r: "r = n mod 512"
  have "n = q * 512 + r" "r < 512" by (simp_all add: q r)
  then show ?thesis
    unfolding block_count_def dvd_eq_mod_eq_0 q [symmetric] r [symmetric] by auto
qed

lemma block_count_ge: "n \<le> block_count n 512 * 512"
  using block_count_bounds by blast

lemma aligned_zeros_bit: "blocks_ok (aligned_zeros n)" "length (aligned_zeros n) = block_count n 512"
    "blocks_bit (aligned_zeros n) = (\<lambda>_. False)"
  by (auto simp: aligned_zeros_def blocks_bit_def lift_bit_def fun_eq_iff div_mod_less)

lemma aligned_ones_bit: "blocks_ok (aligned_ones n)" "length (aligned_ones n) = block_count n 512"
    "blocks_bit (aligned_ones n) i \<longleftrightarrow> i < block_count n 512 * 512"
proof -
  have "block_bit block_ones i" if "i < 512" for i
    using that div_mod_less [of i 8 64] by (simp add: block_bit_def lift_bit_def block_ones_def)
  then show "blocks_bit (aligned_ones n) i \<longleftrightarrow> i < block_count n 512 * 512"
    by (auto simp: aligned_ones_def blocks_bit_def lift_bit_def div_mod_less)
qed (simp_all add: aligned_ones_def)

lemma blocks_bit_append: "blocks_bit (bs @ [b]) i =
    (if i < length bs * 512 then blocks_bit bs i
     else i < length bs * 512 + 512 \<and> block_bit b (i - length bs * 512))"
proof (cases "i < length bs * 512")
  case True
  then show ?thesis using lift_low [of i bs 512 block_bit "[b]"] by (simp add: blocks_bit_def)
next
  case False
  then have i: "length bs * 512 + (i - length bs * 512) = i" by simp
  show ?thesis
    using False lift_high [of "i - length bs * 512" 512 block_bit bs b] unfolding i
    by (cases "i < length bs * 512 + 512") (auto simp: blocks_bit_def lift_bit_def)
qed

lemma fill_block_run:
  assumes "block_ok b" "k \<le> 512" "\<And>i. k \<le> i \<Longrightarrow> \<not> block_bit b i"
  shows "\<exists>b'. fill_block [k..<512] it b n =
      Some (if length it < 512 - k then Some (k + length it) else None, drop (512 - k) it, b',
        n + min (length it) (512 - k)) \<and> block_ok b' \<and>
      block_bit b' = (\<lambda>i. if i < k then block_bit b i else i < 512 \<and> i - k < length it \<and> it ! (i - k))"
  using assms
proof (induction it arbitrary: k b n)
  case Nil
  then show ?case
    using block.bits_bound [of b] by (cases "k = 512") (auto simp: upt_conv_Cons fun_eq_iff)
next
  case (Cons x it)
  show ?case
  proof (cases "k = 512")
    case True
    with Cons.prems show ?thesis using block.bits_bound [of b] by (auto simp: fun_eq_iff)
  next
    case False
    with Cons.prems have k: "k < 512" by simp
    obtain c where c: "(if x then block_assign_index k True b else Some b) = Some c" "block_ok c"
        "block_bit c = (\<lambda>i. if i = k then x else block_bit b i)"
    proof (cases x)
      case True
      with block.assign [OF Cons.prems(1) k, of True] show ?thesis by (auto simp: fun_eq_iff intro!: that)
    next
      case False
      with Cons.prems show ?thesis by (auto simp: fun_eq_iff intro!: that)
    qed
    with Cons.prems k Cons.IH [of c "Suc k" "n + 1"] obtain b' where b':
      "fill_block [Suc k..<512] it c (n + 1) =
        Some (if length it < 512 - Suc k then Some (Suc k + length it) else None, drop (512 - Suc k) it, b',
          n + 1 + min (length it) (512 - Suc k))" "block_ok b'"
      "block_bit b' = (\<lambda>i. if i < Suc k then block_bit c i else i < 512 \<and> i - Suc k < length it \<and> it ! (i - Suc k))"
      by auto
    have "drop (512 - k) (x # it) = drop (512 - Suc k) it" "[k..<512] = k # [Suc k..<512]"
      using k by (simp_all add: upt_conv_Cons drop_Cons' )
    moreover have "(if length it < 512 - Suc k then Some (Suc k + length it) else None) =
        (if length (x # it) < 512 - k then Some (k + length (x # it)) else None)"
      using k by auto
    moreover have "n + 1 + min (length it) (512 - Suc k) = n + min (length (x # it)) (512 - k)"
      using k by auto
    moreover have "block_bit b' = (\<lambda>i. if i < k then block_bit b i
        else i < 512 \<and> i - k < length (x # it) \<and> (x # it) ! (i - k))"
      unfolding b'(3) c(3) using k by (auto simp: fun_eq_iff nth_Cons' less_Suc_eq)
    ultimately show ?thesis using b'(1,2) c(1) by (intro exI [of _ b']) (simp only: fill_block.simps, simp)
  qed
qed

lemma from_iter_loop_run:
  assumes "blocks_ok bs"
  shows "\<exists>bs'. from_iter_loop it bs n = Some (bs', n + length it) \<and> blocks_ok bs' \<and>
    length bs' = length bs + block_count (length it) 512 \<and>
    blocks_bit bs' = (\<lambda>i. if i < length bs * 512 then blocks_bit bs i
      else i - length bs * 512 < length it \<and> it ! (i - length bs * 512))"
  using assms
proof (induction "length it" arbitrary: it bs n rule: less_induct)
  case less
  obtain b where b: "fill_block [0..<512] it block_default n =
      Some (if length it < 512 then Some (length it) else None, drop 512 it, b, n + min (length it) 512)"
      "block_ok b" "block_bit b = (\<lambda>i. i < 512 \<and> i < length it \<and> it ! i)"
    using fill_block_run [of block_default 0 it n] by auto
  show ?case
  proof (cases "length it < 512")
    case True
    then have "block_count (length it) 512 = (if it = [] then 0 else 1)"
      by (auto simp: block_count_def dest: nat_dvd_not_less)
    moreover have "from_iter_loop it bs n = Some (if it = [] then bs else bs @ [b], n + length it)"
      using b(1) True by (simp add: from_iter_loop.simps [of it])
    moreover have "blocks_bit (if it = [] then bs else bs @ [b]) = (\<lambda>i. if i < length bs * 512 then blocks_bit bs i
      else i - length bs * 512 < length it \<and> it ! (i - length bs * 512))"
    proof (cases "it = []")
      case True
      with blocks.bits_bound [OF less(2)] show ?thesis by (auto simp only: fun_eq_iff if_True list.size not_less_zero simp_thms split: if_splits)
    next
      case False
      then have "i - length bs * 512 < length it \<Longrightarrow> \<not> i < length bs * 512 \<Longrightarrow> i < length bs * 512 + 512" for i
        using True by linarith
      with False True show ?thesis by (simp only: fun_eq_iff blocks_bit_append b(3) if_False) auto
    qed
    ultimately show ?thesis using less(2) b(2) by (intro exI [of _ "if it = [] then bs else bs @ [b]"]) simp
  next
    case False
    have shorter: "length (drop 512 it) < length it" using False by (simp add: diff_less)
    from False have "min (length it) 512 = 512" by simp
    moreover obtain bs' where bs': "from_iter_loop (drop 512 it) (bs @ [b]) (n + 512) = Some (bs', n + 512 + length (drop 512 it))"
        "blocks_ok bs'" "length bs' = length (bs @ [b]) + block_count (length (drop 512 it)) 512"
        "blocks_bit bs' = (\<lambda>i. if i < length (bs @ [b]) * 512 then blocks_bit (bs @ [b]) i
          else i - length (bs @ [b]) * 512 < length (drop 512 it) \<and> drop 512 it ! (i - length (bs @ [b]) * 512))"
      using less(1) [OF shorter, of "bs @ [b]" "n + 512"] less(2) b(2) False by auto
    moreover have "block_count (length it) 512 = Suc (block_count (length it - 512) 512)"
      using False by (simp add: block_count_def le_div_geq dvd_minus_self)
    moreover have "blocks_bit bs' = (\<lambda>i. if i < length bs * 512 then blocks_bit bs i
      else i - length bs * 512 < length it \<and> it ! (i - length bs * 512))"
      unfolding bs'(4) blocks_bit_append b(3) using False by (auto simp: fun_eq_iff)
    ultimately show ?thesis using b(1) False by (simp add: from_iter_loop.simps [of it])
  qed
qed

lemma with_length_from_iter_run: "\<exists>bs. with_length_from_iter it = Some (bs, length it) \<and> blocks_ok bs \<and>
    length bs = block_count (length it) 512 \<and> blocks_bit bs = (\<lambda>i. i < length it \<and> it ! i)"
  using from_iter_loop_run [of "[]" it 0] by (auto simp: with_length_from_iter_def)

section \<open>Words\<close>

lemma unwords_words: "blocks_ok bs \<Longrightarrow> unwords (length bs) (words bs) = bs"
  by (induction bs) (auto simp: words_def block_ok_def)

lemma words_unwords: "length ws = n * 8 \<Longrightarrow>
    blocks_ok (unwords n ws) \<and> length (unwords n ws) = n \<and> words (unwords n ws) = ws"
  by (induction n arbitrary: ws) (auto simp: words_def block_ok_def)

lemma from_words_unwords: "length ws = n * 8 \<Longrightarrow> from_words ws = unwords n ws"
proof (induction n arbitrary: ws)
  case 0
  then show ?case by (simp add: from_words.simps [of "[]"])
next
  case (Suc n)
  then have "ws \<noteq> []" "length (drop 8 ws) = n * 8" by auto
  with Suc.IH [of "drop 8 ws"] Suc.prems show ?case by (simp add: from_words.simps [of ws])
qed

lemma as_words_from_words: "\<exists>k < 8. as_words (from_words ws) = ws @ replicate k 0 \<and> blocks_ok (from_words ws)"
proof (induction ws rule: from_words.induct)
  case (1 ws)
  show ?case
  proof (cases "length ws \<le> 8")
    case True
    then have "drop 8 ws = []" "take 8 ws = ws" by simp_all
    have "from_words [] = []" by (simp add: from_words.simps)
    note d = this
    show ?thesis
    proof (cases "ws = []")
      case True
      then show ?thesis using d by (intro exI [of _ 0]) (simp add: as_words_def words_def)
    next
      case False
      then have "0 < length ws" by simp
      with False d True show ?thesis
        by (intro exI [of _ "8 - length ws"])
          (simp add: from_words.simps [of ws] as_words_def words_def Let_def block_ok_def)
    qed
  next
    case False
    then have "drop 8 ws \<noteq> []" "ws \<noteq> []" "take 8 ws @ drop 8 ws = ws" by auto
    from 1 [OF this(2)] obtain k where k: "k < 8" "concat (from_words (drop 8 ws)) = drop 8 ws @ replicate k 0"
        "blocks_ok (from_words (drop 8 ws))"
      by (auto simp: as_words_def words_def)
    have "from_words ws = take 8 ws # from_words (drop 8 ws)" using False \<open>ws \<noteq> []\<close>
      by (simp add: from_words.simps [of ws])
    with k False show ?thesis
      by (intro exI [of _ k]) (simp add: as_words_def words_def block_ok_def flip: append_assoc)
  qed
qed

section \<open>Shifting and extracting\<close>

definition word_at :: "u64 list \<Rightarrow> nat \<Rightarrow> u64" where
  "word_at ws d = (if d < length ws then ws ! d else 0)"

lemma lift_word_at: "lift_bit 64 bit ws i = bit (word_at ws (i div 64)) (i mod 64)"
  by (auto simp: lift_bit_def word_at_def div_mod_less)

text \<open>A word that starts \<open>s\<close> bits into word \<open>d\<close>.\<close>

definition funnel :: "nat \<Rightarrow> u64 list \<Rightarrow> nat \<Rightarrow> u64" where
  "funnel s ws d = drop_bit s (word_at ws d) OR push_bit (64 - s) (word_at ws (d + 1))"

lemma bit_funnel:
  assumes "0 < s" "s < 64" "i < 64"
  shows "bit (funnel s ws d) i = (if i + s < 64 then bit (word_at ws d) (i + s) else bit (word_at ws (d + 1)) (i + s - 64))"
proof (cases "i + s < 64")
  case True
  with assms have "\<not> 64 - s \<le> i" "s + i = i + s" by linarith+
  with True show ?thesis by (simp add: funnel_def bit_or_iff bit_drop_bit_eq bit_push_bit_iff add.commute)
next
  case False
  then have "\<not> bit (word_at ws d) (s + i)" by (auto dest: bit_imp_le_length)
  moreover have "64 - s \<le> i" "i - (64 - s) = i + s - 64" using False assms by linarith+
  ultimately show ?thesis using False assms
    by (simp add: funnel_def bit_or_iff bit_drop_bit_eq bit_push_bit_iff)
qed

lemma div_mod_64: "k < 64 \<Longrightarrow> (64 * q + k) div 64 = (q :: nat)" "k < 64 \<Longrightarrow> (64 * q + k) mod 64 = (k :: nat)"
  by simp_all

lemma funnel_bits:
  assumes "0 < s" "s < 64" "length vs = length ws" "\<And>d. d < length ws \<Longrightarrow> vs ! d = funnel s ws (d + w)"
  shows "lift_bit 64 bit vs i = (i < length ws * 64 \<and> lift_bit 64 bit ws (i + (64 * w + s)))"
proof (cases "i < length ws * 64")
  case True
  define d j where d: "d = i div 64" and j: "j = i mod 64"
  have i: "i = 64 * d + j" and jlt: "j < 64" and dlt: "d < length ws"
    using True by (auto simp: d j div_mod_less)
  have shift: "i + (64 * w + s) = 64 * (d + w) + (j + s)" by (simp add: i)
  have "lift_bit 64 bit ws (i + (64 * w + s)) = bit (funnel s ws (d + w)) j"
  proof (cases "j + s < 64")
    case True
    then have "(i + (64 * w + s)) div 64 = d + w" "(i + (64 * w + s)) mod 64 = j + s"
      unfolding shift by (simp_all only: div_mod_64)
    with True assms jlt show ?thesis by (simp add: lift_word_at bit_funnel)
  next
    case False
    then obtain k where k: "j + s = 64 + k" by (metis le_iff_add not_le)
    then have "k < 64" using jlt assms by simp
    moreover have "64 * (d + w) + (64 + k) = 64 * (d + w + 1) + k" by simp
    ultimately have "(i + (64 * w + s)) div 64 = d + w + 1" "(i + (64 * w + s)) mod 64 = k"
      unfolding shift k by (simp_all only: div_mod_64)
    with k assms jlt show ?thesis by (simp add: lift_word_at bit_funnel)
  qed
  moreover have "lift_bit 64 bit vs i = bit (funnel s ws (d + w)) j"
    using True assms dlt by (simp add: lift_word_at word_at_def d [symmetric] j [symmetric])
  ultimately show ?thesis using True by simp
next
  case False
  with assms show ?thesis by (simp add: lift_bit_def)
qed

lemma shift_step_run:
  assumes "s < 64" "0 < s" "length ws = w + Suc m"
  shows "\<exists>vs. ofold (\<lambda>_. shift_step s (64 - s)) [0..<m] (ws, 0, w) = Some (vs, m, w + m) \<and>
    length vs = length ws \<and>
    (\<forall>d < length ws. vs ! d = (if d < m then funnel s ws (d + w) else ws ! d))"
proof -
  let ?P = "\<lambda>k t. \<exists>vs. t = (vs, k, w + k) \<and> length vs = length ws \<and>
      (\<forall>d < length ws. vs ! d = (if d < k then funnel s ws (d + w) else ws ! d))"
  have "\<exists>t. ofold (\<lambda>_. shift_step s (64 - s)) [0..<m] (ws, 0, w) = Some t \<and> ?P m t"
  proof (rule ofold_upt_inv)
    show "?P 0 (ws, 0, w)" by simp
    fix k t assume k: "k < m" and "?P k t"
    then obtain vs where vs: "t = (vs, k, w + k)" "length vs = length ws"
        "\<And>d. d < length ws \<Longrightarrow> vs ! d = (if d < k then funnel s ws (d + w) else ws ! d)" by auto
    have src: "vs ! (w + k) = word_at ws (k + w)" "vs ! (w + k + 1) = word_at ws (k + w + 1)"
      using k assms(3) vs(3) [of "w + k"] vs(3) [of "w + k + 1"] by (simp_all add: word_at_def add.commute)
    let ?v = "drop_bit s (vs ! (w + k)) OR push_bit (64 - s) (vs ! (w + k + 1))"
    have "shift_step s (64 - s) t = Some (vs[k := ?v], k + 1, w + k + 1)"
      using k assms vs(2) by (simp add: vs(1) shift_step_def shr_opt_def shl_opt_def)
    moreover have "?v = funnel s ws (k + w)" unfolding src funnel_def ..
    with vs(2,3) have "?P (Suc k) (vs[k := ?v], k + 1, w + k + 1)"
      by (auto simp: nth_list_update less_Suc_eq)
    ultimately show "\<exists>t'. shift_step s (64 - s) t = Some t' \<and> ?P (Suc k) t'" by blast
  qed
  then show ?thesis by blast
qed

lemma shift_left_unaligned_bits:
  assumes "blocks_ok bs" "0 < s" "s < 64" "w < length bs * 8"
  shows "\<exists>v. shift_left_unaligned w s bs = Some v \<and> blocks_ok v \<and> length v = length bs \<and>
    blocks_bit v = (\<lambda>i. i < length bs * 512 \<and> blocks_bit bs (i + (64 * w + s)))"
proof -
  obtain m where m: "length bs * 8 = w + Suc m" using assms(4) by (metis less_imp_Suc_add add_Suc_right)
  define ws where "ws = words bs"
  have T: "length ws = w + Suc m" using length_words [OF assms(1)] m by (simp add: ws_def)
  obtain vs where run: "ofold (\<lambda>_. shift_step s (64 - s)) [0..<m] (ws, 0, w) = Some (vs, m, w + m)"
      and vs: "length vs = length ws"
      and vs_at: "\<And>d. d < length ws \<Longrightarrow> vs ! d = (if d < m then funnel s ws (d + w) else ws ! d)"
    using shift_step_run [OF assms(3,2) T] by auto
  have last: "vs ! (w + m) = ws ! (w + m)" if "\<not> w + m < m" using vs_at [of "w + m"] T that by simp
  define us where "us = take (Suc m) (vs[m := drop_bit s (vs ! (w + m))]) @ replicate w 0"
  have lenus: "length us = length ws" using vs T by (simp add: us_def)
  have us: "us ! d = funnel s ws (d + w)" if d: "d < length ws" for d
  proof -
    consider "d < m" | "d = m" | "m < d" by linarith
    then show ?thesis
    proof cases
      case 1
      with vs vs_at [OF d] T show ?thesis by (simp add: us_def nth_append)
    next
      case 2
      with vs T last show ?thesis by (simp add: us_def nth_append funnel_def word_at_def add.commute)
    next
      case 3
      with vs T d show ?thesis by (simp add: us_def nth_append funnel_def word_at_def)
    qed
  qed
  have res: "shift_left_unaligned w s bs = Some (unwords (length bs) us)"
    using run vs T assms(3) by (simp add: shift_left_unaligned_def Let_def m ws_def [symmetric] shr_opt_def fill_from_def us_def)
  have len8: "length us = length bs * 8" using lenus T m by simp
  note u = words_unwords [OF len8]
  have "blocks_bit (unwords (length bs) us) i = (i < length bs * 512 \<and> blocks_bit bs (i + (64 * w + s)))" for i
  proof -
    have "length ws * 64 = length bs * 512" using T m by simp
    then show ?thesis
      using funnel_bits [OF assms(2,3) lenus us, of i] u
      by (simp add: blocks_bit_words [OF assms(1)] blocks_bit_words ws_def [symmetric] mult.commute)
  qed
  with res u show ?thesis by auto
qed

lemma shift_left_aligned_bits:
  assumes "blocks_ok bs" "w < length bs * 8"
  shows "\<exists>v. shift_left_aligned w bs = Some v \<and> blocks_ok v \<and> length v = length bs \<and>
    blocks_bit v = (\<lambda>i. i < length bs * 512 \<and> blocks_bit bs (i + 64 * w))"
proof -
  let ?ws = "words bs" and ?T = "length bs * 8"
  have T: "length ?ws = ?T" using assms(1) by (rule length_words)
  let ?us = "drop w ?ws @ replicate w 0"
  have lenus: "length ?us = ?T" using T assms by simp
  have res: "shift_left_aligned w bs = Some (unwords (length bs) ?us)"
    using assms T by (simp add: shift_left_aligned_def copy_within_def fill_from_def Let_def min_def)
  have "lift_bit 64 bit ?us i = (i < ?T * 64 \<and> lift_bit 64 bit ?ws (i + 64 * w))" for i
  proof -
    have sh: "(i + 64 * w) div 64 = i div 64 + w" "(i + 64 * w) mod 64 = i mod 64" by simp_all
    have at: "word_at ?us (i div 64) = (if i div 64 < ?T then word_at ?ws (i div 64 + w) else 0)"
      using T assms(2) by (auto simp: word_at_def nth_append add.commute)
    have "i < ?T * 64 \<longleftrightarrow> i div 64 < ?T" by (simp add: less_mult_imp_div_less div_less_iff_less_mult)
    with at show ?thesis unfolding lift_word_at sh by simp
  qed
  note b = this and u = words_unwords [OF lenus]
  have "blocks_bit (unwords (length bs) ?us) i = (i < length bs * 512 \<and> blocks_bit bs (i + 64 * w))" for i
    using b [of i] u by (simp add: blocks_bit_words [OF assms(1)] blocks_bit_words mult.commute)
  with res u show ?thesis by auto
qed

lemma shl_assign_bits:
  assumes "blocks_ok bs"
  shows "\<exists>v. shl_assign count bs = Some v \<and> blocks_ok v \<and> length v = length bs \<and>
    blocks_bit v = (\<lambda>i. i < length bs * 512 \<and> blocks_bit bs (i + count))"
proof -
  note bound = blocks.bits_bound [OF assms]
  consider "count = 0 \<or> length bs = 0" | "0 < length bs" "length bs * 512 \<le> count"
    | "0 < count" "0 < length bs" "count < length bs * 512" by linarith
  then show ?thesis
  proof cases
    case 1
    have "\<not> blocks_bit [] i" for i by (simp add: blocks_bit_def lift_bit_def)
    with 1 have "blocks_bit bs = (\<lambda>i. i < length bs * 512 \<and> blocks_bit bs (i + count))"
      using bound by (auto simp: fun_eq_iff)
    with 1 assms show ?thesis by (auto simp: shl_assign_def)
  next
    case 2
    then have "blocks_bit bs (i + count) = False" for i using bound [of "i + count"] by auto
    moreover have "count \<noteq> 0" using 2 by (metis le_zero_eq mult_is_0 not_less_zero zero_neq_numeral)
    ultimately show ?thesis using 2 blocks.clear [OF assms] by (auto simp: shl_assign_def Let_def)
  next
    case 3
    have c: "64 * (count div 64) + count mod 64 = count" by simp
    have w: "count div 64 < length bs * 8" using 3 div_mod_less [of count "length bs * 8" 64] by simp
    show ?thesis
    proof (cases "count mod 64 = 0")
      case True
      with c have "64 * (count div 64) = count" by simp
      with True 3 shift_left_aligned_bits [OF assms w] show ?thesis by (simp add: shl_assign_def Let_def)
    next
      case False
      with 3 shift_left_unaligned_bits [OF assms, of "count mod 64" "count div 64"] w c show ?thesis
        by (auto simp: shl_assign_def Let_def)
    qed
  qed
qed

lemma blocks_bit_drop_take:
  assumes "a \<le> b" "b \<le> length bs"
  shows "blocks_bit (drop a (take b bs)) i = (i < (b - a) * 512 \<and> blocks_bit bs (a * 512 + i))"
  using assms div_mod_less [of i "b - a" 512] by (auto simp: blocks_bit_def lift_bit_def)

text \<open>Bit \<open>i\<close> of the result is bit \<open>start + i\<close> of the vector, for every \<open>i\<close> in range: nothing is
  cleared at \<open>stop\<close>, only at the end of its block.\<close>

lemma aligned_extract_bits:
  assumes "blocks_ok bs" "start \<le> stop" "stop \<le> length bs * 512"
  shows "\<exists>v. aligned_extract start stop bs = Some v \<and> blocks_ok v \<and>
    length v = (stop + 511) div 512 - start div 512 \<and>
    (\<forall>i. blocks_bit v i = (start + i < (stop + 511) div 512 * 512 \<and> blocks_bit bs (start + i)))"
proof -
  define a b where a: "a = start div 512" and b: "b = (stop + 511) div 512"
  have "(stop + 511) div 512 \<le> (length bs * 512 + 511) div 512"
    using assms by (intro div_le_mono) simp
  then have le: "a \<le> b" "b \<le> length bs" using assms by (auto simp: a b intro: div_le_mono)
  let ?d = "drop a (take b bs)"
  have d: "blocks_ok ?d" "length ?d = b - a" using assms(1) le by (simp_all add: blocks_ok_take_drop)
  obtain v where v: "shl_assign (start mod 512) ?d = Some v" "blocks_ok v" "length v = b - a"
      "blocks_bit v = (\<lambda>i. i < (b - a) * 512 \<and> blocks_bit ?d (i + start mod 512))"
    using shl_assign_bits [OF d(1), of "start mod 512"] d by auto
  have st: "a * 512 + start mod 512 = start" by (simp add: a)
  have "blocks_bit v i = (start + i < b * 512 \<and> blocks_bit bs (start + i))" for i
  proof -
    have r: "i + start mod 512 < (b - a) * 512 \<longleftrightarrow> start + i < b * 512"
      using le st by (simp add: diff_mult_distrib) linarith
    have e: "a * 512 + (i + start mod 512) = start + i" using st by linarith
    have "start + i < b * 512 \<Longrightarrow> i < (b - a) * 512" using r by linarith
    then show ?thesis unfolding v(4) blocks_bit_drop_take [OF le] r e by blast
  qed
  with v assms le show ?thesis
    by (simp add: aligned_extract_def Let_def a [symmetric] b [symmetric] min_def)
qed

lemma copy_bits:
  assumes "blocks_ok bs" "blocks_ok cs" "n \<le> length bs * 512" "n \<le> length cs * 512"
  shows "\<exists>t. ofold (\<lambda>j v. do { x \<leftarrow> blocks_index bs j; blocks_assign_index j x v }) [0..<n] cs = Some t \<and>
    blocks_ok t \<and> length t = length cs \<and> blocks_bit t = (\<lambda>i. if i < n then blocks_bit bs i else blocks_bit cs i)"
proof -
  have "ofold (\<lambda>j v. do { x \<leftarrow> blocks_index bs j; blocks_assign_index j x v }) [0..<n] cs =
      ofold (\<lambda>k. blocks_assign_index (0 + k) (blocks_bit bs k)) [0..<n] cs"
    using assms by (intro ofold_cong_inv) (auto simp: blocks.idx fun_eq_iff)
  with blocks.assign_window [OF assms(2), of 0 n "blocks_bit bs"] assms(4) show ?thesis by auto
qed

lemma aligned_resize_bits:
  assumes "blocks_ok bs"
  shows "\<exists>v. aligned_resize n bs = Some v \<and> blocks_ok v \<and> length v = block_count n 512 \<and>
    blocks_bit v = (\<lambda>i. (n < length bs * 512 \<longrightarrow> i < n) \<and> blocks_bit bs i)"
proof -
  note bound = blocks.bits_bound [OF assms]
  have mult: "block_count (k * 512) 512 = k" for k by (simp add: block_count_def)
  consider "n = length bs * 512" | "length bs * 512 < n" | "n < length bs * 512" by linarith
  then show ?thesis
  proof cases
    case 1
    with assms mult show ?thesis by (auto simp: aligned_resize_def)
  next
    case 2
    have "length bs \<le> block_count n 512"
      using 2 block_count_ge [of n] by linarith
    moreover have "blocks_bit (bs @ replicate k block_default) i = blocks_bit bs i" for k i
    proof (cases "i < length bs * 512")
      case False
      then have "\<not> i div 512 < length bs" by (simp add: div_less_iff_less_mult)
      then show ?thesis
        using div_mod_less [of i "length bs + k" 512]
        by (auto simp: blocks_bit_def lift_bit_def nth_append add_mult_distrib)
    qed (simp add: blocks_bit_def lift_low)
    ultimately show ?thesis using 2 assms
      by (auto simp: aligned_resize_def Let_def fun_eq_iff)
  next
    case 3
    have z: "blocks_ok (aligned_zeros n)" "n \<le> length (aligned_zeros n) * 512"
      using aligned_zeros_bit(1,2) [of n] block_count_ge [of n] by simp_all
    from 3 copy_bits [OF assms z(1) _ z(2)] show ?thesis
      by (auto simp: aligned_resize_def Let_def min_def aligned_zeros_bit fun_eq_iff)
  qed
qed

section \<open>What a BitVec promises\<close>

abbreviation bitvec_bit :: "bitvec \<Rightarrow> nat \<Rightarrow> bool" where
  "bitvec_bit v \<equiv> blocks_bit (vec_bits v)"

definition bitvec_ok :: "bitvec \<Rightarrow> bool" where
  "bitvec_ok v \<longleftrightarrow> blocks_ok (vec_bits v) \<and> bit_length v \<le> length (vec_bits v) * 512"

definition bitvec_clean :: "bitvec \<Rightarrow> bool" where
  "bitvec_clean v \<longleftrightarrow> (\<forall>i. bitvec_bit v i \<longrightarrow> i < bit_length v)"

interpretation bitvec: bit_store bitvec_ok bit_length bitvec_bit bitvec_index bitvec_assign_index
    bitvec_negate_index
proof (unfold_locales, unfold bitvec_ok_def, goal_cases)
  case (1 s i)
  then show ?case by (simp add: bitvec_index_def blocks.idx)
next
  case (2 s i b)
  with blocks.assign [of "vec_bits s" i b] show ?case by (auto simp: bitvec_assign_index_def)
next
  case (3 s i)
  with blocks.negate [of "vec_bits s" i] show ?case by (auto simp: bitvec_negate_index_def)
qed

lemma supp_extend: "m \<le> n \<Longrightarrow> (\<And>i. f i \<Longrightarrow> i < m) \<Longrightarrow> supp n f = supp m f"
proof -
  assume "m \<le> n" and f: "\<And>i. f i \<Longrightarrow> i < m"
  have "supp (m + d) f = supp m f" for d by (induction d) (auto dest: f)
  with \<open>m \<le> n\<close> show ?thesis by (metis le_iff_add)
qed

lemma bitvec_zeros_ok: "bitvec_ok (bitvec_zeros n)" "bitvec_clean (bitvec_zeros n)"
    "bit_length (bitvec_zeros n) = n" "\<not> bitvec_bit (bitvec_zeros n) i"
  by (simp_all add: bitvec_zeros_def bitvec_ok_def bitvec_clean_def aligned_zeros_bit block_count_ge)

lemma aligned_clear_from:
  assumes "blocks_ok bs" "n \<le> length bs * 512"
  shows "\<exists>t. ofold (\<lambda>i. blocks_assign_index i False) [n..<length bs * 512] bs = Some t \<and> blocks_ok t \<and>
    length t = length bs \<and> blocks_bit t = (\<lambda>i. i < n \<and> blocks_bit bs i)"
proof -
  let ?m = "length bs * 512 - n"
  have m: "n + ?m \<le> length bs * 512" and e: "[n..<length bs * 512] = map (\<lambda>k. n + k) [0..<?m]"
    using assms(2) map_add_upt [of n ?m] by (simp_all add: add.commute)
  from blocks.assign_window [OF assms(1) m, of "\<lambda>_. False"] blocks.bits_bound [OF assms(1)] assms(2)
  show ?thesis unfolding e ofold_map by (auto simp: fun_eq_iff)
qed

lemma bitvec_ones_ok: "\<exists>v. bitvec_ones n = Some v \<and> bitvec_ok v \<and> bitvec_clean v \<and> bit_length v = n \<and>
    (\<forall>i. bitvec_bit v i = (i < n))"
proof -
  have n: "n \<le> length (aligned_ones n) * 512" using block_count_ge by (simp add: aligned_ones_bit)
  obtain t where "ofold (\<lambda>i. blocks_assign_index i False) [n..<length (aligned_ones n) * 512] (aligned_ones n) = Some t"
      "blocks_ok t" "length t = length (aligned_ones n)" "blocks_bit t = (\<lambda>i. i < n \<and> blocks_bit (aligned_ones n) i)"
    using aligned_clear_from [OF aligned_ones_bit(1) n] by auto
  with n show ?thesis
    by (auto simp: bitvec_ones_def Let_def from_aligned_def bitvec_ok_def bitvec_clean_def aligned_ones_bit)
qed

lemma bitvec_from_iter_run: "\<exists>v. bitvec_from_iter xs = Some v \<and> bitvec_ok v \<and> bitvec_clean v \<and>
    bit_length v = length xs \<and> (\<forall>i. bitvec_bit v i = (i < length xs \<and> xs ! i))"
  using with_length_from_iter_run [of xs] block_count_ge [of "length xs"]
  by (auto simp: bitvec_from_iter_def from_aligned_def bitvec_ok_def bitvec_clean_def)

lemma bitvec_counts:
  assumes "bitvec_ok v" "bitvec_clean v"
  shows "bitvec_weight v = length (supp (bit_length v) (bitvec_bit v))"
    and "bitvec_parity v = xsum (bit_length v) (bitvec_bit v)"
    and "bitvec_is_zero v = (\<forall>i < bit_length v. \<not> bitvec_bit v i)"
    and "bitvec_support v = supp (bit_length v) (bitvec_bit v)"
proof -
  have ok: "blocks_ok (vec_bits v)" and le: "bit_length v \<le> length (vec_bits v) * 512"
    using assms(1) by (simp_all add: bitvec_ok_def)
  have eq: "supp (length (vec_bits v) * 512) (bitvec_bit v) = supp (bit_length v) (bitvec_bit v)"
    by (rule supp_extend [OF le]) (use assms(2) in \<open>simp add: bitvec_clean_def\<close>)
  show "bitvec_weight v = length (supp (bit_length v) (bitvec_bit v))"
    by (simp only: bitvec_weight_def blocks.weight [OF ok] eq)
  show "bitvec_parity v = xsum (bit_length v) (bitvec_bit v)"
    by (simp only: bitvec_parity_def blocks.parity [OF ok] eq flip: odd_supp)
  show "bitvec_is_zero v = (\<forall>i < bit_length v. \<not> bitvec_bit v i)"
    by (simp only: bitvec_is_zero_def blocks.zero_support [OF ok] blocks.support [OF ok] eq supp_Nil_iff)
  have "length (supp n f) \<le> n" for n f using length_filter_le [of f "[0..<n]"] by (simp add: supp_def)
  then show "bitvec_support v = supp (bit_length v) (bitvec_bit v)"
    by (simp only: bitvec_support_def blocks.support [OF ok] eq) simp
qed

lemma bitvec_dot_run:
  assumes "bitvec_ok v" "bitvec_ok w" "bitvec_clean v" "bit_length v = bit_length w"
    "length (vec_bits v) = length (vec_bits w)"
  shows "bitvec_dot v w = Some (xsum (bit_length v) (\<lambda>i. bitvec_bit v i \<and> bitvec_bit w i))"
proof -
  have "xsum (length (vec_bits v) * 512) (\<lambda>i. bitvec_bit v i \<and> bitvec_bit w i) =
      xsum (bit_length v) (\<lambda>i. bitvec_bit v i \<and> bitvec_bit w i)"
    by (rule xsum_extend) (use assms in \<open>auto simp: bitvec_ok_def bitvec_clean_def\<close>)
  with assms show ?thesis by (simp add: bitvec_dot_def bitvec_ok_def blocks.dot)
qed

lemma bitvec_extract_run:
  assumes "bitvec_ok v" "start \<le> stop" "stop \<le> bit_length v"
  shows "\<exists>w. bitvec_extract start stop v = Some w \<and> bitvec_ok w \<and> bit_length w = stop - start \<and>
    length (vec_bits w) = (stop + 511) div 512 - start div 512 \<and>
    (\<forall>i. bitvec_bit w i = (start + i < (stop + 511) div 512 * 512 \<and> bitvec_bit v (start + i)))"
proof -
  have ok: "blocks_ok (vec_bits v)" "stop \<le> length (vec_bits v) * 512"
    using assms by (simp_all add: bitvec_ok_def)
  have "stop - start \<le> ((stop + 511) div 512 - start div 512) * 512"
  proof -
    have "stop \<le> (stop + 511) div 512 * 512"
      using div_mult_mod_eq [of "stop + 511" 512] mod_less_divisor [of 512 "stop + 511"] by linarith
    moreover have "start div 512 * 512 \<le> start" by simp
    ultimately show ?thesis unfolding diff_mult_distrib by linarith
  qed
  with aligned_extract_bits [OF ok(1) assms(2) ok(2)] assms(2) show ?thesis
    by (auto simp: bitvec_extract_def from_aligned_def bitvec_ok_def)
qed

section \<open>Properties\<close>

text \<open>The inner product of two slices of blocks, computed by folding all their words into one,
  is the parity of the number of positions set in both.\<close>

theorem blocks_dot_parity:
  assumes "blocks_ok as" "blocks_ok bs" "length as = length bs"
  shows "blocks_dot as bs = odd (card {i. i < length as * 512 \<and> blocks_bit as i \<and> blocks_bit bs i})"
  using blocks_dot_slice [OF assms] by (simp add: xsum_odd_card)

theorem blocks_dot_parity_witness:
  "\<not> blocks_dot (aligned_zeros 1) (aligned_ones 1) \<and>
    blocks_dot (aligned_zeros 1) (aligned_ones 1) =
      odd (card {i. i < length (aligned_zeros 1) * 512 \<and> blocks_bit (aligned_zeros 1) i \<and> blocks_bit (aligned_ones 1) i})"
  using blocks_dot_parity [of "aligned_zeros 1" "aligned_ones 1"]
  by (simp add: aligned_zeros_bit aligned_ones_bit)

text \<open>The iterator over a slice of 64-bit words yields the bits in order and then stops: however
  often \<open>next\<close> is called, the values are the \<open>64 n\<close> bits of the words.\<close>

theorem slice_iterator_yields_bits:
  fixes ws :: "u64 list"
  assumes "length ws * 64 \<le> n"
  shows "run_iter slice_iter_next n (slice_iter_from_bits ws) =
    map (\<lambda>i. bit (ws ! (i div 64)) (i mod 64)) [0..<length ws * 64]"
  using slice_iter_run [of ws n] assms by (auto simp: lift_bit_def)

theorem slice_iterator_yields_bits_witness:
  "run_iter slice_iter_next 70 (slice_iter_from_bits [5 :: u64]) =
    map (\<lambda>i. bit ([5 :: u64] ! (i div 64)) (i mod 64)) [0..<length [5 :: u64] * 64]"
  by (rule slice_iterator_yields_bits) simp

text \<open>Shifting an aligned vector by any count never panics or leaves the buffer, keeps its length
  and moves bit \<open>i + count\<close> to bit \<open>i\<close>, whichever of the aligned and unaligned routines runs.\<close>

theorem shift_moves_bits:
  assumes "blocks_ok bs"
  shows "\<exists>v. shl_assign count bs = Some v \<and> blocks_ok v \<and> length v = length bs \<and>
    (\<forall>i < length bs * 512. blocks_bit v i = blocks_bit bs (i + count))"
  using shl_assign_bits [OF assms, of count] by auto

theorem shift_moves_bits_witness:
  "\<exists>v. shl_assign 70 (aligned_ones 600) = Some v \<and> blocks_ok v \<and> length v = length (aligned_ones 600) \<and>
    (\<forall>i < length (aligned_ones 600) * 512. blocks_bit v i = blocks_bit (aligned_ones 600) (i + 70))"
  by (rule shift_moves_bits) (rule aligned_ones_bit)

text \<open>Collecting bits into a \<open>BitVec\<close> and reading them back gives the same bits; the vector is
  clean, so its weight is the number of ones collected.\<close>

theorem collect_then_read:
  "\<exists>v. bitvec_from_iter xs = Some v \<and> bit_length v = length xs \<and>
    (\<forall>i < length xs. bitvec_index v i = Some (xs ! i)) \<and> bitvec_weight v = count_list xs True"
proof -
  obtain v where v: "bitvec_from_iter xs = Some v" "bitvec_ok v" "bitvec_clean v" "bit_length v = length xs"
      "\<forall>i. bitvec_bit v i = (i < length xs \<and> xs ! i)"
    using bitvec_from_iter_run [of xs] by auto
  have "length (supp (length xs) (\<lambda>i. i < length xs \<and> xs ! i)) = count_list xs True"
  proof -
    have "supp (length xs) (\<lambda>i. i < length xs \<and> xs ! i) = supp (length xs) (\<lambda>i. xs ! i)"
      by (rule supp_cong) simp
    moreover have "count_list xs True = length (filter (\<lambda>x. x) xs)" by (induction xs) auto
    moreover have "filter (\<lambda>x. x) (map ((!) xs) [0..<length xs]) = map ((!) xs) (filter (\<lambda>i. xs ! i) [0..<length xs])"
      by (simp add: filter_map comp_def)
    ultimately show ?thesis by (simp add: supp_def map_nth)
  qed
  moreover have "bitvec_bit v = (\<lambda>i. i < length xs \<and> xs ! i)" using v(5) by auto
  ultimately have "bitvec_weight v = count_list xs True" by (simp add: bitvec_counts v)
  with v show ?thesis by (auto simp: bitvec.idx)
qed

theorem collect_then_read_witness:
  "\<exists>v. bitvec_from_iter [True, False, True] = Some v \<and> bitvec_weight v = count_list [True, False, True] True"
  using collect_then_read [of "[True, False, True]"] by blast

text \<open>Extracting a window of a \<open>BitVec\<close> succeeds on every range inside it and reads the right bits.\<close>

theorem extract_reads_window:
  assumes "bitvec_ok v" "start \<le> stop" "stop \<le> bit_length v"
  shows "\<exists>w. bitvec_extract start stop v = Some w \<and> bit_length w = stop - start \<and>
    (\<forall>i < stop - start. bitvec_index w i = bitvec_index v (start + i))"
proof -
  obtain w where w: "bitvec_extract start stop v = Some w" "bitvec_ok w" "bit_length w = stop - start"
      "\<forall>i. bitvec_bit w i = (start + i < (stop + 511) div 512 * 512 \<and> bitvec_bit v (start + i))"
    using bitvec_extract_run [OF assms] by auto
  have "stop \<le> (stop + 511) div 512 * 512"
    using div_mult_mod_eq [of "stop + 511" 512] mod_less_divisor [of 512 "stop + 511"] by linarith
  then have "start + i < (stop + 511) div 512 * 512" if "i < stop - start" for i
    using that assms(2) by linarith
  then have "bitvec_index w i = bitvec_index v (start + i)" if "i < stop - start" for i
    using that w(2-4) assms by (simp add: bitvec.idx)
  with w(1,3) show ?thesis by blast
qed

theorem extract_reads_window_witness:
  "\<exists>w. bitvec_extract 2 7 (bitvec_zeros 10) = Some w \<and> bit_length w = 7 - 2 \<and>
    (\<forall>i < 7 - 2. bitvec_index w i = bitvec_index (bitvec_zeros 10) (2 + i))"
  by (rule extract_reads_window) (simp_all add: bitvec_zeros_ok)

text \<open>The window does not end there, though: the bits of the source from \<open>stop\<close> to the end of its
  block stay behind the length of the result, and the weight counts them.  Of the ten bits below the
  window \<open>2..7\<close> holds three ones, and the weight of the extracted vector is four.\<close>

theorem extract_keeps_tail:
  "\<exists>v w. bitvec_from_iter [False, False, True, False, True, False, True, False, False, True] = Some v \<and>
    bitvec_extract 2 7 v = Some w \<and> bitvec_weight w = 4 \<and>
    card {i. i < bit_length w \<and> bitvec_index w i = Some True} = 3"
proof -
  let ?xs = "[False, False, True, False, True, False, True, False, False, True]"
  obtain v where v: "bitvec_from_iter ?xs = Some v" "bitvec_ok v" "bit_length v = 10"
      and vbit: "\<forall>i. bitvec_bit v i = (i < length ?xs \<and> ?xs ! i)"
  proof -
    have "length ?xs = 10" by simp
    with bitvec_from_iter_run [of ?xs] that show thesis by metis
  qed
  have xs: "i < length ?xs \<and> ?xs ! i \<longleftrightarrow> i \<in> {2, 4, 6, 9}" for i
    by (auto simp: less_Suc_eq numeral_eq_Suc nth_Cons split: nat.splits)
  obtain w where w: "bitvec_extract 2 7 v = Some w" "bitvec_ok w" "bit_length w = 5" "length (vec_bits w) = 1"
      "\<forall>i. bitvec_bit w i = (2 + i < 512 \<and> bitvec_bit v (2 + i))"
    using bitvec_extract_run [OF v(2), of 2 7] v(3) by auto
  then have bits: "bitvec_bit w i \<longleftrightarrow> i \<in> {0, 2, 4, 7}" for i
    unfolding w(5) [rule_format] vbit [rule_format] xs by auto
  have "bitvec_weight w = length (supp 512 (bitvec_bit w))"
    using w by (simp add: bitvec_weight_def bitvec_ok_def blocks.weight)
  also have "\<dots> = card {0, 2, 4, 7 :: nat}"
  proof -
    have "set (supp 512 (bitvec_bit w)) = {0, 2, 4, 7}" unfolding set_supp bits by auto
    then show ?thesis using distinct_card [OF distinct_supp, of 512 "bitvec_bit w"] by simp
  qed
  finally have "bitvec_weight w = 4" by simp
  moreover have "{i. i < bit_length w \<and> bitvec_index w i = Some True} = {0, 2, 4}"
    using w(2,3) bits by (auto simp: bitvec.idx)
  ultimately show ?thesis using v(1) w(1) by (intro exI [of _ v] exI [of _ w]) simp
qed

text \<open>Resizing keeps the bits below both lengths, and a clean vector stays clean, so the bits a
  longer vector gains are zero.\<close>

theorem resize_keeps_bits:
  assumes "bitvec_ok v" "bitvec_clean v"
  shows "\<exists>w. bitvec_resize n v = Some w \<and> bitvec_ok w \<and> bitvec_clean w \<and> bit_length w = n \<and>
    (\<forall>i < n. bitvec_index w i = Some (i < bit_length v \<and> bitvec_bit v i))"
proof -
  have ok: "blocks_ok (vec_bits v)" using assms by (simp add: bitvec_ok_def)
  obtain t where t: "aligned_resize n (vec_bits v) = Some t" "blocks_ok t" "length t = block_count n 512"
      "blocks_bit t = (\<lambda>i. (n < length (vec_bits v) * 512 \<longrightarrow> i < n) \<and> bitvec_bit v i)"
    using aligned_resize_bits [OF ok, of n] by auto
  let ?w = "\<lparr> bit_length = n, vec_bits = t \<rparr>"
  have "bitvec_ok ?w" using t(2,3) block_count_ge [of n] by (simp add: bitvec_ok_def)
  moreover have "bitvec_clean ?w"
    using assms t(4) by (auto simp: bitvec_clean_def bitvec_ok_def not_less)
  moreover have "bitvec_resize n v = Some ?w" using t(1) by (simp add: bitvec_resize_def)
  ultimately show ?thesis
    using t(4) assms by (intro exI [of _ ?w]) (auto simp: bitvec.idx bitvec_clean_def)
qed

theorem resize_keeps_bits_witness:
  "\<exists>w. bitvec_resize 700 (bitvec_zeros 10) = Some w \<and> bitvec_ok w \<and> bitvec_clean w \<and> bit_length w = 700 \<and>
    (\<forall>i < 700. bitvec_index w i = Some (i < bit_length (bitvec_zeros 10) \<and> bitvec_bit (bitvec_zeros 10) i))"
  by (rule resize_keeps_bits) (rule bitvec_zeros_ok)+

end
