(* ===== verification/Matrix_Store.thy ===== *)
theory Matrix_Store
  imports Gf2
begin

text \<open>
  The contract of a matrix of bits that is read and written one entry at a time, which every
  constructor and every copying routine of binar's matrices is a client of: \<open>get\<close> and \<open>set\<close> may
  be called in range only, and \<open>bit m i j\<close> is the mathematical entry.  The client lemmas are the
  loops the code runs: filling a rectangle, and setting a list of entries.
\<close>

locale bit_matrix =
  fixes ok :: "'m \<Rightarrow> bool"
    and rows :: "'m \<Rightarrow> nat"
    and cols :: "'m \<Rightarrow> nat"
    and bit :: "'m \<Rightarrow> nat \<Rightarrow> nat \<Rightarrow> bool"
    and get :: "'m \<Rightarrow> nat \<times> nat \<Rightarrow> bool option"
    and set_at :: "nat \<times> nat \<Rightarrow> bool \<Rightarrow> 'm \<Rightarrow> 'm option"
  assumes get: "ok m \<Longrightarrow> i < rows m \<Longrightarrow> j < cols m \<Longrightarrow> get m (i, j) = Some (bit m i j)"
    and set_at: "ok m \<Longrightarrow> i < rows m \<Longrightarrow> j < cols m \<Longrightarrow>
      \<exists>n. set_at (i, j) v m = Some n \<and> ok n \<and> rows n = rows m \<and> cols n = cols m \<and>
        bit n = (bit m)(i := (bit m i)(j := v))"
begin

definition keeps_shape :: "'m \<Rightarrow> 'm \<Rightarrow> bool" where
  "keeps_shape n m \<longleftrightarrow> ok n \<and> rows n = rows m \<and> cols n = cols m"

lemma fill_row:
  assumes "ok m" "i < rows m" "c0 + n \<le> cols m"
  shows "\<exists>t. ofold (\<lambda>c. set_at (i, c0 + c) (h c)) [0..<n] m = Some t \<and> keeps_shape t m \<and>
    bit t = (bit m)(i := (\<lambda>j. if c0 \<le> j \<and> j < c0 + n then h (j - c0) else bit m i j))"
proof (rule ofold_upt_inv)
  show "keeps_shape m m \<and>
      bit m = (bit m)(i := (\<lambda>j. if c0 \<le> j \<and> j < c0 + 0 then h (j - c0) else bit m i j))"
    using assms(1) by (auto simp: keeps_shape_def fun_eq_iff)
  fix k t
  assume k: "k < n" and t: "keeps_shape t m \<and>
      bit t = (bit m)(i := (\<lambda>j. if c0 \<le> j \<and> j < c0 + k then h (j - c0) else bit m i j))"
  with set_at [of t i "c0 + k" "h k"] assms obtain t' where t': "set_at (i, c0 + k) (h k) t = Some t'"
      "keeps_shape t' m" "bit t' = (bit t)(i := (bit t i)(c0 + k := h k))"
    by (auto simp: keeps_shape_def)
  with t show "\<exists>t'. set_at (i, c0 + k) (h k) t = Some t' \<and> keeps_shape t' m \<and>
      bit t' = (bit m)(i := (\<lambda>j. if c0 \<le> j \<and> j < c0 + Suc k then h (j - c0) else bit m i j))"
    by (auto simp: fun_eq_iff)
qed

text \<open>Filling the rectangle at \<open>(r0, c0)\<close> with the entries of \<open>h\<close>, row by row.\<close>

lemma fill_grid:
  assumes "ok m" "r0 + k \<le> rows m" "c0 + n \<le> cols m"
  shows "\<exists>t. ofold (\<lambda>r. ofold (\<lambda>c. set_at (r0 + r, c0 + c) (h r c)) [0..<n]) [0..<k] m = Some t \<and>
    keeps_shape t m \<and>
    bit t = (\<lambda>i j. if r0 \<le> i \<and> i < r0 + k \<and> c0 \<le> j \<and> j < c0 + n then h (i - r0) (j - c0) else bit m i j)"
proof (rule ofold_upt_inv)
  show "keeps_shape m m \<and> bit m = (\<lambda>i j. if r0 \<le> i \<and> i < r0 + 0 \<and> c0 \<le> j \<and> j < c0 + n
      then h (i - r0) (j - c0) else bit m i j)"
    using assms(1) by (auto simp: keeps_shape_def fun_eq_iff)
  fix r t
  assume r: "r < k" and t: "keeps_shape t m \<and> bit t = (\<lambda>i j. if r0 \<le> i \<and> i < r0 + r \<and> c0 \<le> j \<and> j < c0 + n
      then h (i - r0) (j - c0) else bit m i j)"
  then have "ok t" "r0 + r < rows t" "c0 + n \<le> cols t" using assms by (auto simp: keeps_shape_def)
  from fill_row [OF this, of "h r"] t obtain t' where t':
      "ofold (\<lambda>c. set_at (r0 + r, c0 + c) (h r c)) [0..<n] t = Some t'" "keeps_shape t' m"
      "bit t' = (bit t)(r0 + r := (\<lambda>j. if c0 \<le> j \<and> j < c0 + n then h r (j - c0) else bit t (r0 + r) j))"
    by (auto simp: keeps_shape_def)
  have "bit t' = (\<lambda>i j. if r0 \<le> i \<and> i < r0 + Suc r \<and> c0 \<le> j \<and> j < c0 + n
      then h (i - r0) (j - c0) else bit m i j)"
    using t t'(3) by (auto simp: fun_eq_iff)
  with t'(1,2) show "\<exists>t'. ofold (\<lambda>c. set_at (r0 + r, c0 + c) (h r c)) [0..<n] t = Some t' \<and> keeps_shape t' m \<and>
      bit t' = (\<lambda>i j. if r0 \<le> i \<and> i < r0 + Suc r \<and> c0 \<le> j \<and> j < c0 + n
        then h (i - r0) (j - c0) else bit m i j)"
    by blast
qed

text \<open>Setting the entries of a list of positions to one.\<close>

lemma set_true_list:
  assumes "ok m" "\<And>p. p \<in> set ps \<Longrightarrow> f p < rows m \<and> g p < cols m"
  shows "\<exists>t. ofold (\<lambda>p. set_at (f p, g p) True) ps m = Some t \<and> keeps_shape t m \<and>
    bit t = (\<lambda>i j. (\<exists>p \<in> set ps. f p = i \<and> g p = j) \<or> bit m i j)"
  using assms
proof (induction ps arbitrary: m)
  case Nil
  then show ?case by (simp add: keeps_shape_def)
next
  case (Cons p ps)
  with set_at [of m "f p" "g p" True] obtain u where u: "set_at (f p, g p) True m = Some u" "ok u"
      "rows u = rows m" "cols u = cols m" "bit u = (bit m)(f p := (bit m (f p))(g p := True))"
    by auto
  with Cons.IH [of u] Cons.prems obtain t where
      "ofold (\<lambda>p. set_at (f p, g p) True) ps u = Some t" "keeps_shape t m"
      "bit t = (\<lambda>i j. (\<exists>p \<in> set ps. f p = i \<and> g p = j) \<or> bit u i j)"
    by (auto simp: keeps_shape_def)
  with u show ?case by (auto simp: fun_eq_iff)
qed

text \<open>Reading before writing: a loop that copies entries of another matrix.\<close>

lemma copy_grid:
  assumes "ok m" "r0 + k \<le> rows m" "c0 + n \<le> cols m"
    and "\<And>r c. r < k \<Longrightarrow> c < n \<Longrightarrow> src r c = Some (h r c)"
  shows "\<exists>t. ofold (\<lambda>r. ofold (\<lambda>c u. do { v \<leftarrow> src r c; set_at (r0 + r, c0 + c) v u }) [0..<n]) [0..<k] m = Some t \<and>
    keeps_shape t m \<and>
    bit t = (\<lambda>i j. if r0 \<le> i \<and> i < r0 + k \<and> c0 \<le> j \<and> j < c0 + n then h (i - r0) (j - c0) else bit m i j)"
proof -
  have "ofold (\<lambda>r. ofold (\<lambda>c u. do { v \<leftarrow> src r c; set_at (r0 + r, c0 + c) v u }) [0..<n]) [0..<k] m =
      ofold (\<lambda>r. ofold (\<lambda>c. set_at (r0 + r, c0 + c) (h r c)) [0..<n]) [0..<k] m"
    using assms(4) by (intro ofold_cong_inv ext) auto
  with fill_grid [OF assms(1-3), of h] show ?thesis by simp
qed

lemma keeps_shapeD: "keeps_shape n m \<Longrightarrow> ok n" "keeps_shape n m \<Longrightarrow> rows n = rows m"
    "keeps_shape n m \<Longrightarrow> cols n = cols m"
  by (simp_all add: keeps_shape_def)

end

end
