(* ===== verification/Aligned_Matrix.thy ===== *)
theory Aligned_Matrix
  imports Aligned_Vec Matrix_Store
begin

text \<open>
  \<open>AlignedBitMatrix\<close> of binar (\<open>matrix/aligned_bitmatrix.rs\<close>).  The code keeps one buffer of blocks
  and a vector of raw pointers, one per row, into it; a pointer is modelled as its block offset
  from the start of the buffer, and reading or writing through it outside the buffer is \<open>None\<close>.
  The invariant \<open>mat_ok\<close> says that the offsets are those of the rows in some order, so that
  \<open>swap_rows\<close> and \<open>permute_rows\<close>, which only permute pointers, keep it.  \<open>mat_bit m i j\<close> is the
  mathematical entry, for \<open>j\<close> up to the end of the last block of the row: the bits from
  \<open>column_count\<close> on are the padding, and \<open>mat_clean\<close> says they are zero.
\<close>

unbundle bit_operations_syntax

section \<open>The matrix and its construction\<close>

record aligned_bitmatrix =
  mat_blocks :: "bitblock list"
  mat_rows :: "nat list"
  mat_cols :: nat

definition row_count :: "aligned_bitmatrix \<Rightarrow> nat" where
  "row_count m = length (mat_rows m)"

definition column_count :: "aligned_bitmatrix \<Rightarrow> nat" where
  "column_count m = mat_cols m"

definition mat_shape :: "aligned_bitmatrix \<Rightarrow> nat \<times> nat" where
  "mat_shape m = (row_count m, column_count m)"

definition rowstride_of :: "nat \<Rightarrow> nat" where
  "rowstride_of cols = (let rowstride = cols div 512; adjustment = (\<not> 512 dvd cols) in
     rowstride + (if adjustment then 1 else 0))"

definition rowstride :: "aligned_bitmatrix \<Rightarrow> nat" where
  "rowstride m = rowstride_of (mat_cols m)"

definition mat_capacity :: "aligned_bitmatrix \<Rightarrow> nat \<times> nat" where
  "mat_capacity m = (row_count m, rowstride m * 512)"

definition row_block_count :: "aligned_bitmatrix \<Rightarrow> nat" where
  "row_block_count m = column_count m div 512 + (if \<not> 512 dvd column_count m then 1 else 0)"

text \<open>The start of every chunk of \<open>rowstride\<close> blocks; \<open>checked_div\<close> makes the stride zero when there
  is no row.\<close>

definition rows_of :: "bitblock list \<Rightarrow> nat \<Rightarrow> nat list" where
  "rows_of blocks rows =
     (let stride = (if rows = 0 then 0 else length blocks div rows) in
      if stride = 0 then replicate rows 0
      else map (\<lambda>k. k * stride) [0..<length blocks div stride])"

definition from_blocks_and_rows :: "bitblock list \<Rightarrow> nat \<times> nat \<Rightarrow> nat list \<Rightarrow> aligned_bitmatrix" where
  "from_blocks_and_rows buffer shape rows = \<lparr> mat_blocks = buffer, mat_rows = rows, mat_cols = snd shape \<rparr>"

definition from_blocks :: "bitblock list \<Rightarrow> nat \<times> nat \<Rightarrow> aligned_bitmatrix" where
  "from_blocks buffer shape = from_blocks_and_rows buffer shape (rows_of buffer (fst shape))"

definition mat_zeros :: "nat \<Rightarrow> nat \<Rightarrow> aligned_bitmatrix" where
  "mat_zeros rows cols =
     (let stride = rowstride_of cols; buffer = replicate (rows * stride) block_default in
      from_blocks buffer (rows, cols))"

definition mat_ones :: "nat \<Rightarrow> nat \<Rightarrow> aligned_bitmatrix" where
  "mat_ones rows cols =
     (let stride = rowstride_of cols; buffer = replicate (rows * stride) block_ones in
      from_blocks buffer (rows, cols))"

definition mat_with_value :: "bool \<Rightarrow> nat \<times> nat \<Rightarrow> aligned_bitmatrix" where
  "mat_with_value v shape = (if v then mat_ones (fst shape) (snd shape) else mat_zeros (fst shape) (snd shape))"

text \<open>A clone has its own buffer; its pointers are the old ones moved by the distance between the
  two buffers, so their offsets are the same.\<close>

definition mat_clone :: "aligned_bitmatrix \<Rightarrow> aligned_bitmatrix" where
  "mat_clone m = from_blocks_and_rows (mat_blocks m) (mat_shape m) (mat_rows m)"

section \<open>Reading and writing\<close>

definition block_index_of :: "aligned_bitmatrix \<Rightarrow> nat \<times> nat \<Rightarrow> (nat \<times> nat) option" where
  "block_index_of m = (\<lambda>(i, j). do {
     off \<leftarrow> nth_opt (mat_rows m) i;
     Some (off + j div 512, j mod 512 mod 512) })"

definition mat_get_unchecked :: "aligned_bitmatrix \<Rightarrow> nat \<times> nat \<Rightarrow> bool option" where
  "mat_get_unchecked m index = do {
     (p, bit_index) \<leftarrow> block_index_of m index;
     b \<leftarrow> nth_opt (mat_blocks m) p;
     block_index b bit_index }"

definition mat_get :: "aligned_bitmatrix \<Rightarrow> nat \<times> nat \<Rightarrow> bool option" where
  "mat_get m index = do {
     guard_opt (fst index < row_count m \<and> snd index < column_count m);
     mat_get_unchecked m index }"

definition mat_set_unchecked :: "nat \<times> nat \<Rightarrow> bool \<Rightarrow> aligned_bitmatrix \<Rightarrow> aligned_bitmatrix option" where
  "mat_set_unchecked index to m = do {
     (p, bit_index) \<leftarrow> block_index_of m index;
     b \<leftarrow> nth_opt (mat_blocks m) p;
     b \<leftarrow> block_assign_index bit_index to b;
     blocks \<leftarrow> update_opt (mat_blocks m) p b;
     Some (m \<lparr> mat_blocks := blocks \<rparr>) }"

definition mat_set :: "nat \<times> nat \<Rightarrow> bool \<Rightarrow> aligned_bitmatrix \<Rightarrow> aligned_bitmatrix option" where
  "mat_set index to m = do {
     guard_opt (fst index < row_count m \<and> snd index < column_count m);
     mat_set_unchecked index to m }"

definition mat_negate_unchecked :: "nat \<times> nat \<Rightarrow> aligned_bitmatrix \<Rightarrow> aligned_bitmatrix option" where
  "mat_negate_unchecked index m = do {
     (p, bit_index) \<leftarrow> block_index_of m index;
     b \<leftarrow> nth_opt (mat_blocks m) p;
     b \<leftarrow> block_negate_index bit_index b;
     blocks \<leftarrow> update_opt (mat_blocks m) p b;
     Some (m \<lparr> mat_blocks := blocks \<rparr>) }"

definition mat_negate :: "nat \<times> nat \<Rightarrow> aligned_bitmatrix \<Rightarrow> aligned_bitmatrix option" where
  "mat_negate index m = do {
     guard_opt (fst index < row_count m \<and> snd index < column_count m);
     mat_negate_unchecked index m }"

text \<open>A row is a view of the blocks behind its pointer; \<open>mat_row_update\<close> is what a mutable view lets a
  caller do.\<close>

definition mat_row :: "aligned_bitmatrix \<Rightarrow> nat \<Rightarrow> bitblock list option" where
  "mat_row m i = do {
     off \<leftarrow> nth_opt (mat_rows m) i;
     guard_opt (off + row_block_count m \<le> length (mat_blocks m));
     Some (window off (row_block_count m) (mat_blocks m)) }"

definition mat_row_update ::
  "nat \<Rightarrow> (bitblock list \<Rightarrow> bitblock list option) \<Rightarrow> aligned_bitmatrix \<Rightarrow> aligned_bitmatrix option" where
  "mat_row_update i f m = do {
     off \<leftarrow> nth_opt (mat_rows m) i;
     row \<leftarrow> mat_row m i;
     row \<leftarrow> f row;
     Some (m \<lparr> mat_blocks := splice off row (mat_blocks m) \<rparr>) }"

definition mat_swap_rows :: "nat \<Rightarrow> nat \<Rightarrow> aligned_bitmatrix \<Rightarrow> aligned_bitmatrix option" where
  "mat_swap_rows a b m = do {
     x \<leftarrow> nth_opt (mat_rows m) a;
     y \<leftarrow> nth_opt (mat_rows m) b;
     Some (m \<lparr> mat_rows := (mat_rows m)[a := y, b := x] \<rparr>) }"

definition mat_permute_rows :: "nat list \<Rightarrow> aligned_bitmatrix \<Rightarrow> aligned_bitmatrix option" where
  "mat_permute_rows permutation m = (let old_rows = mat_rows m in do {
     rows \<leftarrow> ofold (\<lambda>index rows. do {
         p \<leftarrow> nth_opt permutation index;
         r \<leftarrow> nth_opt old_rows p;
         update_opt rows index r }) [0..<length permutation] (mat_rows m);
     Some (m \<lparr> mat_rows := rows \<rparr>) })"

text \<open>The sequential loop over two moving pointers.\<close>

definition xor_blocks_at :: "nat \<Rightarrow> nat \<Rightarrow> nat \<Rightarrow> bitblock list \<Rightarrow> bitblock list option" where
  "xor_blocks_at to_block from_block n =
     ofold (\<lambda>k blocks. do {
         t \<leftarrow> nth_opt blocks (to_block + k);
         f \<leftarrow> nth_opt blocks (from_block + k);
         update_opt blocks (to_block + k) (block_bitxor_assign t f) }) [0..<n]"

definition mat_add_into_row :: "nat \<Rightarrow> nat \<Rightarrow> aligned_bitmatrix \<Rightarrow> aligned_bitmatrix option" where
  "mat_add_into_row to_index from_index m = do {
     to_block \<leftarrow> nth_opt (mat_rows m) to_index;
     from_block \<leftarrow> nth_opt (mat_rows m) from_index;
     blocks \<leftarrow> xor_blocks_at to_block from_block (rowstride m) (mat_blocks m);
     Some (m \<lparr> mat_blocks := blocks \<rparr>) }"

definition mat_is_zero :: "aligned_bitmatrix \<Rightarrow> bool" where
  "mat_is_zero m = list_all (\<lambda>b. b = block_default) (mat_blocks m)"

section \<open>The invariant and the meaning\<close>

definition row_blocks :: "aligned_bitmatrix \<Rightarrow> nat \<Rightarrow> bitblock list" where
  "row_blocks m i = window (mat_rows m ! i) (rowstride m) (mat_blocks m)"

definition mat_bit :: "aligned_bitmatrix \<Rightarrow> nat \<Rightarrow> nat \<Rightarrow> bool" where
  "mat_bit m i j = (i < row_count m \<and> blocks_bit (row_blocks m i) j)"

definition mat_ok :: "aligned_bitmatrix \<Rightarrow> bool" where
  "mat_ok m \<longleftrightarrow> blocks_ok (mat_blocks m) \<and> length (mat_blocks m) = row_count m * rowstride m \<and>
     (\<exists>ps. distinct ps \<and> set ps = {..<row_count m} \<and> mat_rows m = map (\<lambda>k. k * rowstride m) ps)"

definition mat_clean :: "aligned_bitmatrix \<Rightarrow> bool" where
  "mat_clean m \<longleftrightarrow> (\<forall>i j. mat_bit m i j \<longrightarrow> j < mat_cols m)"

lemma row_block_count_eq [simp]: "row_block_count m = rowstride m"
  by (simp add: row_block_count_def rowstride_def rowstride_of_def column_count_def)

lemma rowstride_block_count: "rowstride_of n = block_count n 512"
  by (simp add: rowstride_of_def block_count_def)

lemma cols_in_stride: "mat_cols m \<le> rowstride m * 512"
  by (simp add: rowstride_def rowstride_block_count block_count_ge)

lemma col_div_stride: "j < mat_cols m \<Longrightarrow> j div 512 < rowstride m"
  using cols_in_stride [of m] by (intro div_mod_less) linarith

lemma row_in_buffer:
  assumes "mat_ok m" "i < row_count m"
  shows "mat_rows m ! i + rowstride m \<le> length (mat_blocks m)"
proof -
  obtain ps where ps: "set ps = {..<row_count m}" "mat_rows m = map (\<lambda>k. k * rowstride m) ps"
    using assms(1) by (auto simp: mat_ok_def)
  then have "i < length ps" using assms(2) by (simp add: row_count_def)
  then have "ps ! i < row_count m" using ps(1) nth_mem [of i ps] by auto
  then have "Suc (ps ! i) * rowstride m \<le> row_count m * rowstride m" by (intro mult_le_mono1) simp
  with assms(1) \<open>i < length ps\<close> show ?thesis by (simp add: mat_ok_def ps(2) add.commute)
qed

lemma rows_disjoint:
  assumes "mat_ok m" "i < row_count m" "k < row_count m" "i \<noteq> k"
  shows "mat_rows m ! i + rowstride m \<le> mat_rows m ! k \<or> mat_rows m ! k + rowstride m \<le> mat_rows m ! i"
proof -
  obtain ps where ps: "distinct ps" "mat_rows m = map (\<lambda>k. k * rowstride m) ps"
    using assms(1) by (auto simp: mat_ok_def)
  then have l: "i < length ps" "k < length ps" using assms by (auto simp: row_count_def)
  then have "ps ! i \<noteq> ps ! k" using ps(1) assms(4) by (simp add: nth_eq_iff_index_eq)
  then have "Suc (ps ! i) \<le> ps ! k \<or> Suc (ps ! k) \<le> ps ! i" by auto
  then have "Suc (ps ! i) * rowstride m \<le> ps ! k * rowstride m \<or> Suc (ps ! k) * rowstride m \<le> ps ! i * rowstride m"
    using mult_le_mono1 by blast
  with l show ?thesis by (simp add: ps(2) add.commute)
qed

lemma row_blocks_ok: "mat_ok m \<Longrightarrow> i < row_count m \<Longrightarrow>
    blocks_ok (row_blocks m i) \<and> length (row_blocks m i) = rowstride m"
  using row_in_buffer [of m i] set_window [of "mat_rows m ! i" "rowstride m" "mat_blocks m"]
  by (auto simp: row_blocks_def mat_ok_def blocks_ok_def all_blocks_def)

lemma mat_row_run: "mat_ok m \<Longrightarrow> i < row_count m \<Longrightarrow> mat_row m i = Some (row_blocks m i)"
  using row_in_buffer [of m i] by (simp add: mat_row_def row_count_def row_blocks_def)

lemma mat_bit_bound: "mat_ok m \<Longrightarrow> mat_bit m i j \<Longrightarrow> i < row_count m \<and> j < rowstride m * 512"
  using row_blocks_ok [of m i] blocks.bits_bound [of "row_blocks m i" j] by (auto simp: mat_bit_def)

text \<open>Every write is the replacement of one row's blocks.\<close>

definition put_row :: "nat \<Rightarrow> bitblock list \<Rightarrow> aligned_bitmatrix \<Rightarrow> aligned_bitmatrix" where
  "put_row i row m = m \<lparr> mat_blocks := splice (mat_rows m ! i) row (mat_blocks m) \<rparr>"

lemma put_row_frame [simp]: "mat_rows (put_row i row m) = mat_rows m" "mat_cols (put_row i row m) = mat_cols m"
    "row_count (put_row i row m) = row_count m" "rowstride (put_row i row m) = rowstride m"
    "column_count (put_row i row m) = column_count m"
  by (simp_all add: put_row_def row_count_def rowstride_def column_count_def)

lemma put_row_ok:
  assumes "mat_ok m" "i < row_count m" "blocks_ok row" "length row = rowstride m"
  shows "mat_ok (put_row i row m)"
  using assms row_in_buffer [OF assms(1,2)] set_splice [of "mat_rows m ! i" row "mat_blocks m"]
  by (auto simp: mat_ok_def put_row_def row_count_def rowstride_def blocks_ok_def all_blocks_def)

lemma put_row_blocks:
  assumes "mat_ok m" "i < row_count m" "length row = rowstride m" "k < row_count m"
  shows "row_blocks (put_row i row m) k = (if k = i then row else row_blocks m k)"
proof (cases "k = i")
  case True
  with assms row_in_buffer [OF assms(1,2)] show ?thesis
    by (simp add: row_blocks_def) (simp add: put_row_def flip: assms(3) add: window_splice_same)
next
  case False
  with assms row_in_buffer [OF assms(1,2)] row_in_buffer [OF assms(1,4)] rows_disjoint [OF assms(1,2,4)]
  show ?thesis
    by (simp add: row_blocks_def) (subst put_row_def, auto intro!: window_splice_other)
qed

lemma put_row_bit:
  assumes "mat_ok m" "i < row_count m" "length row = rowstride m"
  shows "mat_bit (put_row i row m) = (mat_bit m)(i := blocks_bit row)"
  using assms by (auto simp: mat_bit_def fun_eq_iff put_row_blocks)

text \<open>The operations in terms of rows.\<close>

lemma mat_row_update_run:
  assumes "mat_ok m" "i < row_count m" "f (row_blocks m i) = Some row" "length row = rowstride m"
  shows "mat_row_update i f m = Some (put_row i row m)"
  using assms by (simp add: mat_row_update_def mat_row_run put_row_def row_count_def)

lemma update_block_put_row:
  assumes "mat_ok m" "i < row_count m" "c < rowstride m"
  shows "m \<lparr> mat_blocks := (mat_blocks m)[mat_rows m ! i + c := b] \<rparr> = put_row i ((row_blocks m i)[c := b]) m"
  using update_splice [OF assms(3) row_in_buffer [OF assms(1,2)]] by (simp add: put_row_def row_blocks_def)

lemma blocks_index_at: "blocks_index bs j = Option.bind (nth_opt bs (j div 512)) (\<lambda>b. block_index b (j mod 512))"
  by (simp add: blocks_index_def slice_index_def block_and_bit_index_def)

lemma at_offset:
  assumes "mat_ok m" "i < row_count m" "c < rowstride m"
  shows "nth_opt (mat_blocks m) (mat_rows m ! i + c) = Some (row_blocks m i ! c)"
    "mat_rows m ! i + c < length (mat_blocks m)"
  using assms row_in_buffer [OF assms(1,2)] by (simp_all add: row_blocks_def nth_window)

lemma mat_get_row:
  assumes "mat_ok m" "i < row_count m" "j < mat_cols m"
  shows "mat_get m (i, j) = blocks_index (row_blocks m i) j"
  using assms at_offset [OF assms(1,2) col_div_stride [OF assms(3)]] row_blocks_ok [OF assms(1,2)]
    col_div_stride [OF assms(3)]
  by (simp add: mat_get_def mat_get_unchecked_def block_index_of_def row_count_def column_count_def blocks_index_at)

lemma mat_set_row:
  assumes "mat_ok m" "i < row_count m" "j < mat_cols m"
  shows "mat_set (i, j) v m = map_option (\<lambda>row. put_row i row m) (blocks_assign_index j v (row_blocks m i))"
  using assms at_offset [OF assms(1,2) col_div_stride [OF assms(3)]] row_blocks_ok [OF assms(1,2)]
    col_div_stride [OF assms(3)] update_block_put_row [OF assms(1,2) col_div_stride [OF assms(3)]]
  by (simp add: mat_set_def mat_set_unchecked_def block_index_of_def row_count_def column_count_def
      blocks_assign_index_def slice_assign_index_def block_and_bit_index_def split: Option.bind_splits)

lemma mat_negate_row:
  assumes "mat_ok m" "i < row_count m" "j < mat_cols m"
  shows "mat_negate (i, j) m = map_option (\<lambda>row. put_row i row m) (blocks_negate_index j (row_blocks m i))"
  using assms at_offset [OF assms(1,2) col_div_stride [OF assms(3)]] row_blocks_ok [OF assms(1,2)]
    col_div_stride [OF assms(3)] update_block_put_row [OF assms(1,2) col_div_stride [OF assms(3)]]
  by (simp add: mat_negate_def mat_negate_unchecked_def block_index_of_def row_count_def column_count_def
      blocks_negate_index_def slice_negate_index_def block_and_bit_index_def split: Option.bind_splits)

lemma in_row_bits: "j < mat_cols m \<Longrightarrow> length row = rowstride m \<Longrightarrow> j < length row * 512"
  using cols_in_stride [of m] by simp

lemma mat_get_bit: "mat_ok m \<Longrightarrow> i < row_count m \<Longrightarrow> j < mat_cols m \<Longrightarrow> mat_get m (i, j) = Some (mat_bit m i j)"
  using row_blocks_ok [of m i] in_row_bits [of j m "row_blocks m i"]
  by (simp add: mat_get_row blocks.idx mat_bit_def)

definition same_shape :: "aligned_bitmatrix \<Rightarrow> aligned_bitmatrix \<Rightarrow> bool" where
  "same_shape m n \<longleftrightarrow> mat_ok m \<and> row_count m = row_count n \<and> mat_cols m = mat_cols n"

lemma mat_set_bit:
  assumes "mat_ok m" "i < row_count m" "j < mat_cols m"
  shows "\<exists>n. mat_set (i, j) v m = Some n \<and> same_shape n m \<and>
    mat_bit n = (mat_bit m)(i := (mat_bit m i)(j := v))"
proof -
  note row = row_blocks_ok [OF assms(1,2)]
  obtain r where r: "blocks_assign_index j v (row_blocks m i) = Some r" "blocks_ok r" "length r = rowstride m"
      "blocks_bit r = (blocks_bit (row_blocks m i))(j := v)"
    using blocks.assign [of "row_blocks m i" j v] row in_row_bits [OF assms(3), of "row_blocks m i"] by auto
  then have "mat_bit (put_row i r m) = (mat_bit m)(i := (mat_bit m i)(j := v))"
    using assms by (auto simp: put_row_bit fun_eq_iff mat_bit_def)
  with r assms show ?thesis
    by (simp add: mat_set_row same_shape_def put_row_ok)
qed

lemma mat_negate_bit:
  assumes "mat_ok m" "i < row_count m" "j < mat_cols m"
  shows "\<exists>n. mat_negate (i, j) m = Some n \<and> same_shape n m \<and>
    mat_bit n = (mat_bit m)(i := (mat_bit m i)(j := \<not> mat_bit m i j))"
proof -
  note row = row_blocks_ok [OF assms(1,2)]
  obtain r where r: "blocks_negate_index j (row_blocks m i) = Some r" "blocks_ok r" "length r = rowstride m"
      "blocks_bit r = (blocks_bit (row_blocks m i))(j := \<not> blocks_bit (row_blocks m i) j)"
    using blocks.negate [of "row_blocks m i" j] row in_row_bits [OF assms(3), of "row_blocks m i"] by auto
  then have "mat_bit (put_row i r m) = (mat_bit m)(i := (mat_bit m i)(j := \<not> mat_bit m i j))"
    using assms by (auto simp: put_row_bit fun_eq_iff mat_bit_def)
  with r assms show ?thesis
    by (simp add: mat_negate_row same_shape_def put_row_ok)
qed

interpretation amat: bit_matrix mat_ok row_count mat_cols mat_bit mat_get mat_set
proof
  fix m i j v
  assume "mat_ok m" "i < row_count m" "j < mat_cols m"
  then show "mat_get m (i, j) = Some (mat_bit m i j)" by (rule mat_get_bit)
  from \<open>mat_ok m\<close> \<open>i < row_count m\<close> \<open>j < mat_cols m\<close>
  show "\<exists>n. mat_set (i, j) v m = Some n \<and> mat_ok n \<and> row_count n = row_count m \<and> mat_cols n = mat_cols m \<and>
      mat_bit n = (mat_bit m)(i := (mat_bit m i)(j := v))"
    using mat_set_bit [of m i j v] by (auto simp: same_shape_def)
qed

lemma keeps_same [simp]: "amat.keeps_shape n m \<longleftrightarrow> same_shape n m"
  by (simp add: amat.keeps_shape_def same_shape_def)

lemma same_shape_refl: "mat_ok m \<Longrightarrow> same_shape m m"
  by (simp add: same_shape_def)

lemma same_shape_trans: "same_shape a b \<Longrightarrow> same_shape b c \<Longrightarrow> same_shape a c"
  by (simp add: same_shape_def)

lemma same_shapeD: "same_shape n m \<Longrightarrow> mat_ok n" "same_shape n m \<Longrightarrow> row_count n = row_count m"
    "same_shape n m \<Longrightarrow> mat_cols n = mat_cols m" "same_shape n m \<Longrightarrow> rowstride n = rowstride m"
  by (simp_all add: same_shape_def rowstride_def)

section \<open>Construction\<close>

lemma rows_of_stride: "rows_of blocks n = map (\<lambda>k. k * s) [0..<n]" if "length blocks = n * s"
proof (cases "n = 0 \<or> s = 0")
  case True
  with that show ?thesis by (auto simp: rows_of_def map_replicate_const)
next
  case False
  with that show ?thesis by (simp add: rows_of_def)
qed

lemma from_blocks_ok:
  assumes "blocks_ok bs" "length bs = n * rowstride_of c"
  shows "mat_ok (from_blocks bs (n, c))" "row_count (from_blocks bs (n, c)) = n"
    "mat_cols (from_blocks bs (n, c)) = c"
    "i < n \<Longrightarrow> row_blocks (from_blocks bs (n, c)) i = window (i * rowstride_of c) (rowstride_of c) bs"
proof -
  note r = rows_of_stride [OF assms(2)]
  show rc: "row_count (from_blocks bs (n, c)) = n" and "mat_cols (from_blocks bs (n, c)) = c"
    by (simp_all add: from_blocks_def from_blocks_and_rows_def row_count_def r)
  then show "mat_ok (from_blocks bs (n, c))"
    using assms by (auto simp: mat_ok_def from_blocks_def from_blocks_and_rows_def rowstride_def row_count_def r
        intro!: exI [of _ "[0..<n]"])
  show "i < n \<Longrightarrow> row_blocks (from_blocks bs (n, c)) i = window (i * rowstride_of c) (rowstride_of c) bs"
    by (simp add: row_blocks_def from_blocks_def from_blocks_and_rows_def rowstride_def r)
qed

lemma mat_zeros_ok: "mat_ok (mat_zeros n c)" "row_count (mat_zeros n c) = n" "mat_cols (mat_zeros n c) = c"
    "mat_bit (mat_zeros n c) = (\<lambda>_ _. False)"
proof -
  let ?bs = "replicate (n * rowstride_of c) block_default"
  have bs: "blocks_ok ?bs" "length ?bs = n * rowstride_of c" by simp_all
  note f = from_blocks_ok [OF bs]
  show "mat_ok (mat_zeros n c)" "row_count (mat_zeros n c) = n" "mat_cols (mat_zeros n c) = c"
    using f(1-3) by (simp_all add: mat_zeros_def)
  have "window a k ?bs = replicate (min k (n * rowstride_of c - a)) block_default" for a k
    by (simp add: window_def min_def)
  then show "mat_bit (mat_zeros n c) = (\<lambda>_ _. False)"
    using f(2,4) by (auto simp: mat_zeros_def mat_bit_def fun_eq_iff blocks_bit_def lift_bit_def div_mod_less)
qed

lemma zeros_row_stride [simp]: "rowstride (mat_zeros n c) = rowstride_of c"
  by (simp add: rowstride_def mat_zeros_ok)

lemma mat_ones_ok: "mat_ok (mat_ones n c)" "row_count (mat_ones n c) = n" "mat_cols (mat_ones n c) = c"
    "mat_bit (mat_ones n c) i j \<longleftrightarrow> i < n \<and> j < rowstride_of c * 512"
proof -
  let ?bs = "replicate (n * rowstride_of c) block_ones"
  have bs: "blocks_ok ?bs" "length ?bs = n * rowstride_of c" by simp_all
  note f = from_blocks_ok [OF bs]
  show "mat_ok (mat_ones n c)" "row_count (mat_ones n c) = n" "mat_cols (mat_ones n c) = c"
    using f(1-3) by (simp_all add: mat_ones_def)
  have "window (i * rowstride_of c) (rowstride_of c) ?bs = aligned_ones c" if "i < n"
  proof -
    from that have "Suc i * rowstride_of c \<le> n * rowstride_of c" by (intro mult_le_mono1) simp
    then show ?thesis
      by (simp add: window_def aligned_ones_def rowstride_block_count min_def)
  qed
  then show "mat_bit (mat_ones n c) i j \<longleftrightarrow> i < n \<and> j < rowstride_of c * 512"
    using f(2,4) by (auto simp: mat_ones_def mat_bit_def aligned_ones_bit rowstride_block_count)
qed

section \<open>Row operations\<close>

lemma mat_ok_permuted:
  assumes "mat_ok m" "distinct qs" "set qs = {..<row_count m}"
  shows "mat_ok (m \<lparr> mat_rows := map (\<lambda>k. mat_rows m ! k) qs \<rparr>)"
proof -
  obtain ps where ps: "distinct ps" "set ps = {..<row_count m}" "mat_rows m = map (\<lambda>k. k * rowstride m) ps"
    using assms(1) by (auto simp: mat_ok_def)
  have len: "length ps = row_count m" "length qs = row_count m"
    using distinct_card [OF ps(1)] distinct_card [OF assms(2)] ps(2) assms(3) by simp_all
  let ?n = "m \<lparr> mat_rows := map (\<lambda>k. mat_rows m ! k) qs \<rparr>"
  have n: "row_count ?n = row_count m" "rowstride ?n = rowstride m" using len by (simp_all add: row_count_def rowstride_def)
  have "distinct (map (\<lambda>k. ps ! k) qs)"
    using assms(2,3) len ps(1) by (auto simp: distinct_map inj_on_def nth_eq_iff_index_eq)
  moreover have "set (map (\<lambda>k. ps ! k) qs) = {..<row_count m}"
    using assms(3) len ps(2) by (auto simp: set_conv_nth [of ps])
  moreover have "mat_rows ?n = map (\<lambda>k. k * rowstride m) (map (\<lambda>k. ps ! k) qs)"
    using assms(3) len by (auto simp: ps(3))
  ultimately show ?thesis using assms(1) by (auto simp: mat_ok_def n)
qed

lemma row_blocks_permuted: "k < length qs \<Longrightarrow>
    row_blocks (m \<lparr> mat_rows := map (\<lambda>k. mat_rows m ! k) qs \<rparr>) k = row_blocks m (qs ! k)"
  by (simp add: row_blocks_def rowstride_def)

lemma permuted_frame: "length qs = row_count m \<Longrightarrow> row_count (m \<lparr> mat_rows := map f qs \<rparr>) = row_count m"
  by (simp add: row_count_def)

lemma mat_swap_rows_run:
  assumes "mat_ok m" "a < row_count m" "b < row_count m"
  shows "\<exists>n. mat_swap_rows a b m = Some n \<and> same_shape n m \<and> mat_bit n = row_swap a b (mat_bit m) \<and>
    (\<forall>k < row_count m. row_blocks n k = row_blocks m (swap_index a b k))"
proof -
  let ?qs = "map (swap_index a b) [0..<row_count m]"
  let ?n = "m \<lparr> mat_rows := map (\<lambda>k. mat_rows m ! k) ?qs \<rparr>"
  have "(mat_rows m)[a := mat_rows m ! b, b := mat_rows m ! a] = map (\<lambda>k. mat_rows m ! k) ?qs"
    using assms(2,3) by (intro nth_equalityI) (auto simp: row_count_def swap_index_def nth_list_update)
  then have run: "mat_swap_rows a b m = Some ?n"
    using assms(2,3) by (simp add: mat_swap_rows_def row_count_def)
  have "distinct ?qs" by (simp add: distinct_map inj_on_def)
  moreover have "set ?qs = {..<row_count m}"
  proof (rule set_eqI)
    fix k
    have "k = swap_index a b (swap_index a b k)" by simp
    then show "k \<in> set ?qs \<longleftrightarrow> k \<in> {..<row_count m}"
      using assms(2,3) by (auto simp: swap_index_bound intro: image_eqI [where x = "swap_index a b k"])
  qed
  ultimately have "mat_ok ?n" by (rule mat_ok_permuted [OF assms(1)])
  moreover have "row_count ?n = row_count m" by (simp add: row_count_def)
  moreover have rb: "row_blocks ?n k = row_blocks m (swap_index a b k)" if "k < row_count m" for k
    using that row_blocks_permuted [of k ?qs m] by simp
  moreover have "mat_bit ?n = row_swap a b (mat_bit m)"
    using assms(2,3) rb \<open>row_count ?n = row_count m\<close>
    by (auto simp: mat_bit_def row_swap_def fun_eq_iff swap_index_bound)
  ultimately show ?thesis using run by (auto simp: same_shape_def)
qed

lemma xor_blocks_run:
  assumes "blocks_ok bs" "t + n \<le> length bs" "f + n \<le> length bs" "t + n \<le> f \<or> f + n \<le> t"
  shows "xor_blocks_at t f n bs = Some (splice t (blocks_bitxor_assign (window t n bs) (window f n bs)) bs)"
proof -
  let ?row = "blocks_bitxor_assign (window t n bs) (window f n bs)"
  have len: "length ?row = n" using assms by (simp add: blocks_bitxor_assign_def)
  have row: "?row ! k = block_bitxor_assign (bs ! (t + k)) (bs ! (f + k))" if "k < n" for k
    using that assms by (simp add: blocks_bitxor_assign_def slice_pair_assign_map2 nth_window)
  let ?P = "\<lambda>k cs. length cs = length bs \<and>
    (\<forall>i < length bs. cs ! i = (if t \<le> i \<and> i < t + k then ?row ! (i - t) else bs ! i))"
  have "\<exists>cs. xor_blocks_at t f n bs = Some cs \<and> ?P n cs" unfolding xor_blocks_at_def
  proof (rule ofold_upt_inv [where P = ?P])
    show "?P 0 bs" by auto
    fix k cs assume k: "k < n" and cs: "?P k cs"
    then have "cs ! (t + k) = bs ! (t + k)" "cs ! (f + k) = bs ! (f + k)"
      using assms by auto
    with k cs assms show "\<exists>cs'. do { x \<leftarrow> nth_opt cs (t + k); y \<leftarrow> nth_opt cs (f + k);
        update_opt cs (t + k) (block_bitxor_assign x y) } = Some cs' \<and> ?P (Suc k) cs'"
      by (auto simp: row nth_list_update less_Suc_eq)
  qed
  then obtain cs where cs: "xor_blocks_at t f n bs = Some cs" "?P n cs" by blast
  have "cs = splice t ?row bs"
    using cs(2) len assms by (intro nth_equalityI) (auto simp: nth_splice)
  with cs(1) show ?thesis by simp
qed

lemma mat_add_into_row_put:
  assumes "mat_ok m" "t < row_count m" "f < row_count m" "t \<noteq> f"
  shows "mat_add_into_row t f m = Some (put_row t (blocks_bitxor_assign (row_blocks m t) (row_blocks m f)) m)"
  using assms row_in_buffer [OF assms(1,2)] row_in_buffer [OF assms(1,3)] rows_disjoint [OF assms]
    xor_blocks_run [of "mat_blocks m" "mat_rows m ! t" "rowstride m" "mat_rows m ! f"]
  by (simp add: mat_add_into_row_def row_count_def put_row_def row_blocks_def mat_ok_def)

lemma xor_rows_ok:
  assumes "mat_ok m" "blocks_ok row" "length row = rowstride m" "t < row_count m"
  shows "blocks_ok (blocks_bitxor_assign (row_blocks m t) row)"
    "length (blocks_bitxor_assign (row_blocks m t) row) = rowstride m"
    "blocks_bit (blocks_bitxor_assign (row_blocks m t) row) = (\<lambda>j. mat_bit m t j \<noteq> blocks_bit row j)"
  using blocks.xor_assign [of "row_blocks m t" row] row_blocks_ok [OF assms(1,4)] assms
  by (auto simp: mat_bit_def)

lemma mat_add_into_row_run:
  assumes "mat_ok m" "t < row_count m" "f < row_count m" "t \<noteq> f"
  shows "\<exists>n. mat_add_into_row t f m = Some n \<and> same_shape n m \<and> mat_bit n = row_add t f (mat_bit m)"
proof -
  note f = row_blocks_ok [OF assms(1,3)]
  note x = xor_rows_ok [OF assms(1) conjunct1 [OF f] conjunct2 [OF f] assms(2)]
  have "mat_bit (put_row t (blocks_bitxor_assign (row_blocks m t) (row_blocks m f)) m) = row_add t f (mat_bit m)"
    unfolding put_row_bit [OF assms(1,2) x(2)] x(3)
    using assms(3) by (auto simp: row_add_def mat_bit_def fun_eq_iff)
  with mat_add_into_row_put [OF assms] put_row_ok [OF assms(1,2) x(1,2)] show ?thesis
    by (simp add: same_shape_def)
qed

text \<open>Adding a row to itself through the two aliased pointers clears it.\<close>

lemma block_xor_self: "block_ok b \<Longrightarrow> block_bitxor_assign b b = block_default"
  by (auto simp: block_bitxor_assign_def array_pair_assign_slice slice_pair_assign_map2 block_ok_def
      block_default_def word_bitxor_assign_def intro!: nth_equalityI)

lemma mat_permute_rows_run:
  assumes "mat_ok m" "distinct qs" "set qs = {..<row_count m}"
  shows "\<exists>n. mat_permute_rows qs m = Some n \<and> same_shape n m \<and>
    (\<forall>i j. mat_bit n i j = (i < row_count m \<and> mat_bit m (qs ! i) j))"
proof -
  have len: "length qs = row_count m" using distinct_card [OF assms(2)] assms(3) by simp
  then have r: "length (mat_rows m) = length qs" by (simp add: row_count_def)
  have q: "k < length qs \<Longrightarrow> qs ! k < length qs" for k using assms(3) len by (metis lessThan_iff nth_mem)
  let ?P = "\<lambda>k rs. length rs = length qs \<and> (\<forall>i < length qs. rs ! i = (if i < k then mat_rows m ! (qs ! i) else mat_rows m ! i))"
  have "\<exists>rs. ofold (\<lambda>index rows. do { p \<leftarrow> nth_opt qs index; r \<leftarrow> nth_opt (mat_rows m) p;
      update_opt rows index r }) [0..<length qs] (mat_rows m) = Some rs \<and> ?P (length qs) rs"
    by (rule ofold_upt_inv) (use q r in \<open>auto simp: nth_list_update less_Suc_eq\<close>)
  then obtain rs where rs: "ofold (\<lambda>index rows. do { p \<leftarrow> nth_opt qs index; r \<leftarrow> nth_opt (mat_rows m) p;
      update_opt rows index r }) [0..<length qs] (mat_rows m) = Some rs" "?P (length qs) rs" by blast
  then have "rs = map (\<lambda>k. mat_rows m ! k) qs" by (intro nth_equalityI) auto
  with rs have run: "mat_permute_rows qs m = Some (m \<lparr> mat_rows := map (\<lambda>k. mat_rows m ! k) qs \<rparr>)"
    by (simp add: mat_permute_rows_def)
  have "row_count (m \<lparr> mat_rows := map (\<lambda>k. mat_rows m ! k) qs \<rparr>) = row_count m"
    using len by (simp add: row_count_def)
  moreover have "row_blocks (m \<lparr> mat_rows := map (\<lambda>k. mat_rows m ! k) qs \<rparr>) i = row_blocks m (qs ! i)"
    if "i < row_count m" for i using that len by (simp add: row_blocks_permuted)
  ultimately show ?thesis
    using run mat_ok_permuted [OF assms] q len by (auto simp: same_shape_def mat_bit_def)
qed

end
