(* ===== verification/Matrix_Ops.thy ===== *)
theory Matrix_Ops
  imports Aligned_Matrix
begin

text \<open>
  The operations of \<open>AlignedBitMatrix\<close> that build one matrix from others or combine it with
  vectors (\<open>matrix/aligned_bitmatrix.rs\<close>), its columns (\<open>matrix/column.rs\<close>) and the pairwise
  operations that go bit by bit (\<open>bit/bitwise_via_iter.rs\<close>).  An \<open>IndexSet\<close> is the ascending list
  of its members.
\<close>

unbundle bit_operations_syntax

type_synonym index_set = "nat list"

section \<open>Builders\<close>

definition mat_identity :: "nat \<Rightarrow> aligned_bitmatrix option" where
  "mat_identity dimension = ofold (\<lambda>index. mat_set (index, index) True) [0..<dimension] (mat_zeros dimension dimension)"

definition mat_from_row_iter :: "bitblock list list \<Rightarrow> nat \<Rightarrow> aligned_bitmatrix option" where
  "mat_from_row_iter views columns =
     ofold (\<lambda>(k, view). mat_row_update k (\<lambda>row. Some (blocks_assign row view)))
       (zip [0..<length views] views) (mat_zeros (length views) columns)"

definition mat_from_iter :: "bool list list \<Rightarrow> nat \<Rightarrow> aligned_bitmatrix option" where
  "mat_from_iter rows cols =
     ofold (\<lambda>r. ofold (\<lambda>c. mat_set (r, c) (rows ! r ! c)) [0..<length (take cols (rows ! r))])
       [0..<length rows] (mat_zeros (length rows) cols)"

definition mat_resize :: "nat \<Rightarrow> nat \<Rightarrow> aligned_bitmatrix \<Rightarrow> aligned_bitmatrix option" where
  "mat_resize new_rows new_cols m =
     (let old_rows = row_count m; old_cols = column_count m in
      if new_rows = old_rows \<and> new_cols = old_cols then Some m
      else ofold (\<lambda>r. ofold (\<lambda>c new_matrix. do {
               row \<leftarrow> mat_row m r;
               val \<leftarrow> blocks_index row c;
               mat_row_update r (blocks_assign_index c val) new_matrix }) [0..<old_cols])
             [0..<old_rows] (mat_zeros new_rows new_cols))"

definition mat_submatrix :: "nat list \<Rightarrow> nat list \<Rightarrow> aligned_bitmatrix \<Rightarrow> aligned_bitmatrix option" where
  "mat_submatrix rows columns m =
     ofold (\<lambda>r. ofold (\<lambda>c res. do {
         v \<leftarrow> mat_get m (rows ! r, columns ! c);
         mat_set (r, c) v res }) [0..<length columns])
       [0..<length rows] (mat_zeros (length rows) (length columns))"

definition mat_swap_columns :: "nat \<Rightarrow> nat \<Rightarrow> aligned_bitmatrix \<Rightarrow> aligned_bitmatrix option" where
  "mat_swap_columns left right m =
     ofold (\<lambda>i m. do {
         left_bit \<leftarrow> mat_get m (i, left);
         right_bit \<leftarrow> mat_get m (i, right);
         m \<leftarrow> mat_set (i, left) right_bit m;
         mat_set (i, right) left_bit m }) [0..<row_count m] m"

definition mat_eq :: "aligned_bitmatrix \<Rightarrow> aligned_bitmatrix \<Rightarrow> bool option" where
  "mat_eq m other =
     (if mat_shape m \<noteq> mat_shape other then Some False
      else ofold (\<lambda>i eq. ofold (\<lambda>j eq. do {
               a \<leftarrow> mat_get m (i, j); b \<leftarrow> mat_get other (i, j);
               Some (eq \<and> a = b) }) [0..<column_count m] eq) [0..<row_count m] True)"

definition mat_add_assign :: "aligned_bitmatrix \<Rightarrow> aligned_bitmatrix \<Rightarrow> aligned_bitmatrix option" where
  "mat_add_assign m other = do {
     guard_opt (mat_shape m = mat_shape other);
     ofold (\<lambda>index m. do {
         o_row \<leftarrow> mat_row other index;
         mat_row_update index (\<lambda>row. Some (blocks_bitxor_assign row o_row)) m }) [0..<row_count m] m }"

definition mat_bitand_assign :: "aligned_bitmatrix \<Rightarrow> aligned_bitmatrix \<Rightarrow> aligned_bitmatrix option" where
  "mat_bitand_assign m other = do {
     guard_opt (mat_shape m = mat_shape other);
     ofold (\<lambda>index m. do {
         o_row \<leftarrow> mat_row other index;
         mat_row_update index (\<lambda>row. Some (blocks_bitand_assign row o_row)) m }) [0..<row_count m] m }"

text \<open>Stacking copies the rows through their pointers, in logical order.\<close>

definition stack_step ::
  "aligned_bitmatrix \<Rightarrow> bitblock list \<times> nat option \<times> nat \<Rightarrow> (bitblock list \<times> nat option \<times> nat) option" where
  "stack_step = (\<lambda>m (buffer, cols, rows). do {
     guard_opt (cols = None \<or> cols = Some (mat_cols m));
     buffer \<leftarrow> ofold (\<lambda>r buffer. do {
         row_ptr \<leftarrow> nth_opt (mat_rows m) r;
         guard_opt (row_ptr + rowstride m \<le> length (mat_blocks m));
         Some (buffer @ window row_ptr (rowstride m) (mat_blocks m)) }) [0..<row_count m] buffer;
     Some (buffer, Some (mat_cols m), rows + row_count m) })"

definition mat_row_stacked :: "aligned_bitmatrix list \<Rightarrow> aligned_bitmatrix option" where
  "mat_row_stacked matrices = do {
     (buffer, cols, rows) \<leftarrow> ofold stack_step matrices ([], None, 0);
     Some (from_blocks buffer (rows, case cols of None \<Rightarrow> 0 | Some c \<Rightarrow> c)) }"

definition mat_directly_summed :: "aligned_bitmatrix list \<Rightarrow> aligned_bitmatrix option" where
  "mat_directly_summed matrices =
     (let rows = sum_list (map row_count matrices); columns = sum_list (map column_count matrices) in do {
      (sum, _, _) \<leftarrow> ofold (\<lambda>m (sum, row_offset, column_offset). do {
          sum \<leftarrow> ofold (\<lambda>r. ofold (\<lambda>c sum. do {
              v \<leftarrow> mat_get m (r, c);
              mat_set (row_offset + r, column_offset + c) v sum }) [0..<column_count m]) [0..<row_count m] sum;
          Some (sum, row_offset + row_count m, column_offset + column_count m) })
        matrices (mat_zeros rows columns, 0, 0);
      Some sum })"

section \<open>Words\<close>

definition mat_as_words :: "aligned_bitmatrix \<Rightarrow> u64 list" where
  "mat_as_words m = words (mat_blocks m)"

definition mat_from_words :: "u64 list \<Rightarrow> nat \<Rightarrow> aligned_bitmatrix option" where
  "mat_from_words ws cols = do {
     guard_opt (8 dvd length ws);
     guard_opt (rowstride_of cols \<noteq> 0);
     let block_count = length ws div 8;
     Some (from_blocks (unwords block_count ws) (block_count div rowstride_of cols, cols)) }"

text \<open>\<open>random_with_rng\<close> with the words the generator fills the buffer with as an argument.  The
  mask of the last partial word is zero when the excess is a multiple of 64, and then that word is
  left alone.\<close>

definition mask_excess :: "nat \<Rightarrow> nat \<Rightarrow> u64 list \<Rightarrow> u64 list option" where
  "mask_excess excess_bits rowstride_words row_words = (let
       mask = push_bit (excess_bits mod 64) 1 - (1 :: u64);
       words_to_keep = excess_bits div 64 in do {
     ws \<leftarrow> (if mask \<noteq> 0 then modify_opt (\<lambda>w. w AND mask) row_words words_to_keep else Some row_words);
     guard_opt (words_to_keep + 1 \<le> rowstride_words);
     Some (take (words_to_keep + 1) ws @ replicate (rowstride_words - (words_to_keep + 1)) 0) })"

section \<open>Sparse descriptions\<close>

datatype axis = Row | Column

datatype sparse_error =
    TooManyEntries axis nat nat
  | IndexOutOfBounds axis nat nat

text \<open>The loops stop at the first index out of bounds; \<open>mat_set\<close> is then in range.\<close>

definition set_sparse ::
  "axis \<Rightarrow> nat \<Rightarrow> (nat \<Rightarrow> nat \<times> nat) \<Rightarrow> index_set \<Rightarrow>
   sparse_error + aligned_bitmatrix \<Rightarrow> (sparse_error + aligned_bitmatrix) option" where
  "set_sparse axis bound pos indices st =
     ofold (\<lambda>idx st. case st of
         Inl e \<Rightarrow> Some (Inl e)
       | Inr m \<Rightarrow> (if bound \<le> idx then Some (Inl (IndexOutOfBounds axis idx bound))
                  else map_option Inr (mat_set (pos idx) True m))) indices st"

definition mat_from_sparse_columns ::
  "index_set list \<Rightarrow> nat \<Rightarrow> nat \<Rightarrow> (sparse_error + aligned_bitmatrix) option" where
  "mat_from_sparse_columns columns rows cols =
     (if length columns > cols then Some (Inl (TooManyEntries Column (length columns) cols))
      else ofold (\<lambda>c. set_sparse Row rows (\<lambda>r. (r, c)) (columns ! c)) [0..<length columns]
             (Inr (mat_zeros rows cols)))"

definition mat_from_sparse_rows ::
  "index_set list \<Rightarrow> nat \<Rightarrow> nat \<Rightarrow> (sparse_error + aligned_bitmatrix) option" where
  "mat_from_sparse_rows rows n cols =
     (if length rows > n then Some (Inl (TooManyEntries Row (length rows) n))
      else ofold (\<lambda>r. set_sparse Column cols (\<lambda>c. (r, c)) (rows ! r)) [0..<length rows]
             (Inr (mat_zeros n cols)))"

definition mat_sparse_rows :: "aligned_bitmatrix \<Rightarrow> index_set list option" where
  "mat_sparse_rows m =
     ofold (\<lambda>i acc. do { row \<leftarrow> mat_row m i; Some (acc @ [blocks_support row]) }) [0..<row_count m] []"

section \<open>Columns\<close>

text \<open>A column keeps the row pointers, the block of its bit and an accessor.  The buffer is a
  separate argument.\<close>

record column =
  col_rows :: "nat list"
  col_accessor :: bit_accessor
  col_block_index :: nat

definition mat_column :: "aligned_bitmatrix \<Rightarrow> nat \<Rightarrow> column option" where
  "mat_column m index = do {
     accessor \<leftarrow> accessor_for_index 512 (index mod 512);
     Some \<lparr> col_rows = mat_rows m, col_accessor = accessor, col_block_index = index div 512 \<rparr> }"

definition value_in_row :: "bitblock list \<Rightarrow> column \<Rightarrow> nat \<Rightarrow> bool option" where
  "value_in_row blocks c row = do {
     b \<leftarrow> nth_opt blocks (row + col_block_index c);
     array_value_of (col_accessor c) b }"

definition column_index :: "bitblock list \<Rightarrow> column \<Rightarrow> nat \<Rightarrow> bool option" where
  "column_index blocks c index = do {
     row \<leftarrow> nth_opt (col_rows c) index;
     value_in_row blocks c row }"

definition column_slice :: "column \<Rightarrow> nat \<Rightarrow> nat \<Rightarrow> column option" where
  "column_slice c a b = do {
     guard_opt (a \<le> b \<and> b \<le> length (col_rows c));
     Some (c \<lparr> col_rows := take (b - a) (drop a (col_rows c)) \<rparr>) }"

definition column_bits :: "bitblock list \<Rightarrow> column \<Rightarrow> bool list option" where
  "column_bits blocks c =
     ofold (\<lambda>k acc. do { b \<leftarrow> column_index blocks c k; Some (acc @ [b]) }) [0..<length (col_rows c)] []"

text \<open>The support packs the bits of up to 64 rows into a word, without branching, and then takes the
  set bits off it one at a time.\<close>

definition pack_rows :: "bitblock list \<Rightarrow> column \<Rightarrow> nat list \<Rightarrow> u64 option" where
  "pack_rows blocks c rows =
     ofold (\<lambda>row bits. do {
         v \<leftarrow> value_in_row blocks c row;
         Some (push_bit 1 bits OR (if v then 1 else 0)) }) (rev rows) 0"

function drain_bits :: "u64 \<Rightarrow> nat list" where
  "drain_bits remaining_bits = (case word_min_support remaining_bits of
     None \<Rightarrow> []
   | Some offset \<Rightarrow> offset # drain_bits (remaining_bits AND (remaining_bits - 1)))"
  by pat_completeness auto

text \<open>\<open>x & (x - 1)\<close> clears the lowest set bit.\<close>

lemma clear_lowest:
  fixes w :: "'a::len word"
  assumes "bit w k" "\<And>i. i < k \<Longrightarrow> \<not> bit w i"
  shows "bit (w AND (w - 1)) = (\<lambda>i. bit w i \<and> i \<noteq> k)"
proof -
  define u where "u = w AND NOT (push_bit k 1)"
  have k: "k < LENGTH('a)" using assms(1) by (rule bit_imp_le_length)
  have bu: "bit u i \<longleftrightarrow> bit w i \<and> i \<noteq> k" for i
    by (auto simp: u_def bit_and_iff bit_not_iff bit_mask_unit simp del: push_bit_of_1 dest: bit_imp_le_length)
  have "u AND push_bit k 1 = 0"
    by (rule bit_word_eqI) (auto simp: bit_and_iff bu bit_mask_unit simp del: push_bit_of_1)
  then have "u + push_bit k 1 = u OR push_bit k 1" by (rule disjunctive_add_eq_or)
  also have "\<dots> = w"
    by (rule bit_word_eqI) (use assms(1) k in \<open>auto simp: bit_or_iff bu bit_mask_unit simp del: push_bit_of_1\<close>)
  finally have w: "w = u + push_bit k 1" by simp
  have "w - 1 = u + mask k" by (simp add: w mask_eq_exp_minus_1)
  also have "u AND mask k = 0"
    by (rule bit_word_eqI) (use assms(2) in \<open>auto simp: bit_and_iff bu bit_mask_iff\<close>)
  then have "u + mask k = u OR mask k" by (rule disjunctive_add_eq_or)
  finally have "w - 1 = u OR mask k" .
  then show ?thesis
    using assms by (auto simp: fun_eq_iff bit_and_iff bit_or_iff bu bit_mask_iff)
qed

lemma min_support_lowest:
  assumes "word_min_support w = Some k"
  shows "bit w k" "\<And>i. i < k \<Longrightarrow> \<not> bit w i"
proof -
  have k: "first_of (supp LENGTH('a) (bit w)) = Some k" using assms by (simp add: word_min_support_eq)
  then show "bit w k" using first_of_SomeD by fastforce
  fix i assume i: "i < k"
  have "sorted (supp LENGTH('a) (bit w))" by simp
  with k have "\<forall>x \<in> set (supp LENGTH('a) (bit w)). k \<le> x"
    by (cases "supp LENGTH('a) (bit w)") (auto simp: first_of_def simp del: set_supp)
  with i show "\<not> bit w i" by (auto dest: bit_imp_le_length)
qed

termination drain_bits
proof (relation "measure count_ones", simp)
  fix w :: u64 and k assume "word_min_support w = Some k"
  note low = min_support_lowest [OF this]
  have "k < LENGTH(64)" using low(1) by (rule bit_imp_le_length)
  moreover have c: "bit (w AND (w - 1)) = (\<lambda>i. bit w i \<and> i \<noteq> k)" by (rule clear_lowest) (fact low)+
  ultimately show "(w AND (w - 1), w) \<in> measure count_ones"
    unfolding in_measure count_ones_supp c using low(1) supp_remove [of "bit w" k "LENGTH(64)"] by simp
qed

declare drain_bits.simps [simp del]

lemma drain_bits_eq: "drain_bits w = supp 64 (bit w)"
proof (induction w rule: drain_bits.induct)
  case (1 w)
  show ?case
  proof (cases "word_min_support w")
    case None
    then show ?thesis
      by (simp add: drain_bits.simps [of w] word_min_support_eq first_of_def split: list.splits)
  next
    case (Some k)
    then have k: "first_of (supp 64 (bit w)) = Some k" by (simp add: word_min_support_eq)
    have "bit (w AND (w - 1)) = (\<lambda>i. bit w i \<and> i \<noteq> k)"
      by (rule clear_lowest) (rule min_support_lowest [OF Some])+
    with 1 [OF Some] Some supp_first [OF k] show ?thesis by (simp add: drain_bits.simps [of w])
  qed
qed

function column_support_from :: "bitblock list \<Rightarrow> column \<Rightarrow> nat \<Rightarrow> nat list \<Rightarrow> nat list option" where
  "column_support_from blocks c chunk_index rows =
     (if rows = [] then Some []
      else do {
        bits \<leftarrow> pack_rows blocks c (take 64 rows);
        rest \<leftarrow> column_support_from blocks c (chunk_index + 1) (drop 64 rows);
        Some (map (\<lambda>offset. chunk_index * 64 + offset) (drain_bits bits) @ rest) })"
  by pat_completeness auto

termination column_support_from
  by (relation "measure (\<lambda>(_, _, _, rows). length rows)") auto

declare column_support_from.simps [simp del]

section \<open>Vectors\<close>

text \<open>\<open>bit/bitwise_via_iter.rs\<close>: an aligned vector and the bits of any other container.\<close>

definition xor_bits_via_iter :: "bitblock list \<Rightarrow> bool list \<Rightarrow> bitblock list option" where
  "xor_bits_via_iter v other = do {
     guard_opt (length other \<le> length v * 512);
     ofold (\<lambda>k v. if other ! k then blocks_negate_index k v else Some v) [0..<length other] v }"

definition and_bits_via_iter :: "bitblock list \<Rightarrow> bool list \<Rightarrow> bitblock list option" where
  "and_bits_via_iter v other = do {
     guard_opt (length other \<le> length v * 512);
     ofold (\<lambda>k v. if \<not> other ! k then blocks_assign_index k False v else Some v) [0..<length other] v }"

definition or_bits_via_iter :: "bitblock list \<Rightarrow> bool list \<Rightarrow> bitblock list option" where
  "or_bits_via_iter v other = do {
     guard_opt (length other \<le> length v * 512);
     ofold (\<lambda>k v. if other ! k then blocks_assign_index k True v else Some v) [0..<length other] v }"

definition assign_bits_via_iter :: "bitblock list \<Rightarrow> bool list \<Rightarrow> bitblock list option" where
  "assign_bits_via_iter v other = do {
     guard_opt (length other \<le> length v * 512);
     ofold (\<lambda>k. blocks_assign_index k (other ! k)) [0..<length other] v }"

definition dot_via_iter :: "bool list \<Rightarrow> bool list \<Rightarrow> bool" where
  "dot_via_iter as bs = (sum_list (map (\<lambda>(a, b). if a \<and> b then 1 else 0) (zip as bs)) mod 2 = (1 :: nat))"

definition mat_right_multiply :: "bitblock list \<Rightarrow> aligned_bitmatrix \<Rightarrow> bitblock list option" where
  "mat_right_multiply left m = do {
     guard_opt (row_count m \<le> length left * 512);
     ofold (\<lambda>row_index result. do {
         row \<leftarrow> mat_row m row_index;
         Some (blocks_bitxor_assign result row) }) (blocks_support left) (aligned_zeros (column_count m)) }"

definition mat_mul_vec :: "aligned_bitmatrix \<Rightarrow> bitblock list \<Rightarrow> bitblock list option" where
  "mat_mul_vec m right = do {
     guard_opt (column_count m \<le> length right * 512);
     dots \<leftarrow> ofold (\<lambda>i acc. do { row \<leftarrow> mat_row m i; Some (acc @ [blocks_dot row right]) }) [0..<row_count m] [];
     (v, _) \<leftarrow> with_length_from_iter dots;
     Some v }"

section \<open>Builders give the matrices they describe\<close>

lemma mat_identity_run: "\<exists>m. mat_identity d = Some m \<and> mat_ok m \<and> row_count m = d \<and> mat_cols m = d \<and>
    mat_bit m = (\<lambda>i j. i < d \<and> i = j)"
  using amat.set_true_list [of "mat_zeros d d" "[0..<d]" "\<lambda>x. x" "\<lambda>x. x"]
  by (auto simp: mat_identity_def mat_zeros_ok same_shape_def fun_eq_iff)

lemma mat_submatrix_run:
  assumes "mat_ok m" "\<forall>r \<in> set rows. r < row_count m" "\<forall>c \<in> set columns. c < mat_cols m"
  shows "\<exists>n. mat_submatrix rows columns m = Some n \<and> mat_ok n \<and> row_count n = length rows \<and>
    mat_cols n = length columns \<and>
    mat_bit n = (\<lambda>i j. i < length rows \<and> j < length columns \<and> mat_bit m (rows ! i) (columns ! j))"
proof -
  have z: "mat_ok (mat_zeros (length rows) (length columns))" by (rule mat_zeros_ok)
  have src: "mat_get m (rows ! r, columns ! c) = Some (mat_bit m (rows ! r) (columns ! c))"
    if "r < length rows" "c < length columns" for r c
    using that assms by (simp add: mat_get_bit)
  from amat.copy_grid [OF z, of 0 "length rows" 0 "length columns" "\<lambda>r c. mat_get m (rows ! r, columns ! c)", OF _ _ src]
  show ?thesis by (auto simp: mat_submatrix_def mat_zeros_ok same_shape_def fun_eq_iff)
qed

lemma row_loop:
  assumes "mat_ok m" "n \<le> row_count m"
    and "\<And>k row. k < n \<Longrightarrow> blocks_ok row \<Longrightarrow> length row = rowstride m \<Longrightarrow>
      \<exists>row'. f k row = Some row' \<and> blocks_ok row' \<and> length row' = rowstride m \<and> blocks_bit row' = g k (blocks_bit row)"
  shows "\<exists>t. ofold (\<lambda>k. mat_row_update k (f k)) [0..<n] m = Some t \<and> same_shape t m \<and>
    mat_bit t = (\<lambda>i. if i < n then g i (mat_bit m i) else mat_bit m i)"
proof (rule ofold_upt_inv)
  show "same_shape m m \<and> mat_bit m = (\<lambda>i. if i < 0 then g i (mat_bit m i) else mat_bit m i)"
    using assms(1) by (simp add: same_shape_refl)
  fix k t assume k: "k < n" and t: "same_shape t m \<and> mat_bit t = (\<lambda>i. if i < k then g i (mat_bit m i) else mat_bit m i)"
  note sh = same_shapeD [OF conjunct1 [OF t]]
  have kr: "k < row_count t" using k assms(2) sh(2) by simp
  obtain row' where row': "f k (row_blocks t k) = Some row'" "blocks_ok row'" "length row' = rowstride t"
      "blocks_bit row' = g k (blocks_bit (row_blocks t k))"
    using assms(3) [OF k, of "row_blocks t k"] row_blocks_ok [OF sh(1) kr] sh(4) by auto
  have "blocks_bit (row_blocks t k) = mat_bit t k" using kr by (auto simp: mat_bit_def fun_eq_iff)
  also have "\<dots> = mat_bit m k" using conjunct2 [OF t] by simp
  finally have "blocks_bit row' = g k (mat_bit m k)" using row'(4) by simp
  then have "mat_bit (put_row k row' t) = (\<lambda>i. if i < Suc k then g i (mat_bit m i) else mat_bit m i)"
    unfolding put_row_bit [OF sh(1) kr row'(3)] conjunct2 [OF t] by (auto simp: fun_eq_iff less_Suc_eq)
  with mat_row_update_run [where f = "f k", OF sh(1) kr row'(1,3)] put_row_ok [OF sh(1) kr row'(2,3)] t
  show "\<exists>t'. mat_row_update k (f k) t = Some t' \<and> same_shape t' m \<and>
      mat_bit t' = (\<lambda>i. if i < Suc k then g i (mat_bit m i) else mat_bit m i)"
    by (auto simp: same_shape_def)
qed

lemma mat_add_assign_run:
  assumes "mat_ok m" "mat_ok n" "row_count n = row_count m" "mat_cols n = mat_cols m"
  shows "\<exists>t. mat_add_assign m n = Some t \<and> same_shape t m \<and> mat_bit t = (\<lambda>i j. mat_bit m i j \<noteq> mat_bit n i j)"
proof -
  have rs: "rowstride n = rowstride m" using assms(4) by (simp add: rowstride_def)
  have "ofold (\<lambda>index m. do { o_row \<leftarrow> mat_row n index;
          mat_row_update index (\<lambda>row. Some (blocks_bitxor_assign row o_row)) m }) [0..<row_count m] m =
      ofold (\<lambda>k. mat_row_update k (\<lambda>row. Some (blocks_bitxor_assign row (row_blocks n k)))) [0..<row_count m] m"
    by (rule ofold_cong_inv) (use assms in \<open>auto simp: mat_row_run fun_eq_iff\<close>)
  moreover have "\<exists>t. ofold (\<lambda>k. mat_row_update k (\<lambda>row. Some (blocks_bitxor_assign row (row_blocks n k)))) [0..<row_count m] m = Some t \<and>
      same_shape t m \<and> mat_bit t = (\<lambda>i. if i < row_count m then (\<lambda>j. mat_bit m i j \<noteq> blocks_bit (row_blocks n i) j) else mat_bit m i)"
    using assms rs blocks.xor_assign row_blocks_ok [OF assms(2)]
    by (intro row_loop [where g = "\<lambda>k h j. h j \<noteq> blocks_bit (row_blocks n k) j"]) auto
  ultimately show ?thesis
    using assms(3,4) by (auto simp: mat_add_assign_def mat_shape_def column_count_def mat_bit_def fun_eq_iff)
qed

lemma mat_bitand_assign_run:
  assumes "mat_ok m" "mat_ok n" "row_count n = row_count m" "mat_cols n = mat_cols m"
  shows "\<exists>t. mat_bitand_assign m n = Some t \<and> same_shape t m \<and> mat_bit t = (\<lambda>i j. mat_bit m i j \<and> mat_bit n i j)"
proof -
  have rs: "rowstride n = rowstride m" using assms(4) by (simp add: rowstride_def)
  have "ofold (\<lambda>index m. do { o_row \<leftarrow> mat_row n index;
          mat_row_update index (\<lambda>row. Some (blocks_bitand_assign row o_row)) m }) [0..<row_count m] m =
      ofold (\<lambda>k. mat_row_update k (\<lambda>row. Some (blocks_bitand_assign row (row_blocks n k)))) [0..<row_count m] m"
    by (rule ofold_cong_inv) (use assms in \<open>auto simp: mat_row_run fun_eq_iff\<close>)
  moreover have "\<exists>t. ofold (\<lambda>k. mat_row_update k (\<lambda>row. Some (blocks_bitand_assign row (row_blocks n k)))) [0..<row_count m] m = Some t \<and>
      same_shape t m \<and> mat_bit t = (\<lambda>i. if i < row_count m then (\<lambda>j. mat_bit m i j \<and> blocks_bit (row_blocks n i) j) else mat_bit m i)"
    using assms rs blocks.and_assign row_blocks_ok [OF assms(2)]
    by (intro row_loop [where g = "\<lambda>k h j. h j \<and> blocks_bit (row_blocks n k) j"]) auto
  ultimately show ?thesis
    using assms(3,4) by (auto simp: mat_bitand_assign_def mat_shape_def column_count_def mat_bit_def fun_eq_iff)
qed

section \<open>Products with vectors\<close>

lemma row_blocks_bit: "i < row_count m \<Longrightarrow> blocks_bit (row_blocks m i) = mat_bit m i"
  by (simp add: mat_bit_def fun_eq_iff)

lemma mat_right_multiply_run:
  assumes "mat_ok m" "blocks_ok left" "row_count m \<le> length left * 512"
    and "\<And>i. blocks_bit left i \<Longrightarrow> i < row_count m"
  shows "\<exists>v. mat_right_multiply left m = Some v \<and> blocks_ok v \<and> length v = rowstride m \<and>
    blocks_bit v = comb (row_count m) (blocks_bit left) (mat_bit m)"
proof -
  let ?step = "\<lambda>row_index result. do { row \<leftarrow> mat_row m row_index; Some (blocks_bitxor_assign result row) }"
  let ?z = "aligned_zeros (column_count m)"
  have run: "n \<le> row_count m \<Longrightarrow> \<exists>v. ofold ?step (supp n (blocks_bit left)) ?z = Some v \<and> blocks_ok v \<and>
      length v = rowstride m \<and> blocks_bit v = comb n (blocks_bit left) (mat_bit m)" for n
  proof (induction n)
    case 0
    then show ?case
      by (simp add: aligned_zeros_bit comb_def rowstride_def rowstride_block_count column_count_def)
  next
    case (Suc n)
    then obtain v where v: "ofold ?step (supp n (blocks_bit left)) ?z = Some v" "blocks_ok v"
        "length v = rowstride m" "blocks_bit v = comb n (blocks_bit left) (mat_bit m)" by auto
    show ?case
    proof (cases "blocks_bit left n")
      case True
      have n: "n < row_count m" using Suc.prems by simp
      with v True row_blocks_ok [OF assms(1) n] blocks.xor_assign [of v "row_blocks m n"] show ?thesis
        by (auto simp: ofold_append mat_row_run [OF assms(1) n] row_blocks_bit comb_def fun_eq_iff)
    next
      case False
      with v show ?thesis by (auto simp: comb_def)
    qed
  qed
  have "blocks_support left = supp (row_count m) (blocks_bit left)"
    unfolding blocks.support [OF assms(2)] by (rule supp_extend) (use assms(3,4) in auto)
  with run [OF order_refl] assms(3) show ?thesis by (simp add: mat_right_multiply_def)
qed

lemma take_words: "blocks_ok bs \<Longrightarrow> words (take n bs) = take (n * 8) (words bs)"
proof (induction bs arbitrary: n)
  case (Cons b bs)
  then show ?case by (cases n) (auto simp: words_def block_ok_def)
qed (simp add: words_def)

lemma zip_longer: "zip xs ys = zip xs (take (length xs) ys)"
  by (induction xs arbitrary: ys) (auto simp: zip_Cons1 split: list.splits)

lemma blocks_dot_longer:
  assumes "blocks_ok as" "blocks_ok bs" "length as \<le> length bs"
  shows "blocks_dot as bs = xsum (length as * 512) (\<lambda>i. blocks_bit as i \<and> blocks_bit bs i)"
proof -
  have "zip (words as) (words bs) = zip (words as) (words (take (length as) bs))"
    using assms zip_longer [of "words as" "words bs"] by (simp add: take_words length_words)
  then have "blocks_dot as bs = blocks_dot as (take (length as) bs)" by (simp add: blocks_dot_def)
  also have "\<dots> = xsum (length as * 512) (\<lambda>i. blocks_bit as i \<and> blocks_bit (take (length as) bs) i)"
    using assms by (intro blocks_dot_slice) (auto simp: blocks_ok_take_drop)
  also have "\<dots> = xsum (length as * 512) (\<lambda>i. blocks_bit as i \<and> blocks_bit bs i)"
    using assms by (intro xsum_cong) (auto simp: blocks_bit_def lift_bit_def div_mod_less)
  finally show ?thesis .
qed

lemma collect_map: "(\<And>k. k < n \<Longrightarrow> f k = Some (g k)) \<Longrightarrow>
    ofold (\<lambda>k acc. do { x \<leftarrow> f k; Some (acc @ [h x]) }) [0..<n] [] = Some (map (\<lambda>k. h (g k)) [0..<n])"
  by (induction n) (auto simp: ofold_append)

lemma mat_mul_vec_run:
  assumes "mat_ok m" "blocks_ok v" "mat_cols m \<le> length v * 512" "mat_clean m"
  shows "\<exists>w. mat_mul_vec m v = Some w \<and> blocks_ok w \<and> length w = block_count (row_count m) 512 \<and>
    blocks_bit w = (\<lambda>i. i < row_count m \<and> mvec (mat_cols m) (mat_bit m) (blocks_bit v) i)"
proof -
  have le: "rowstride m \<le> length v"
  proof -
    have "mat_cols m + 511 < (length v + 1) * 512" using assms(3) by simp
    moreover have "rowstride m * 512 < mat_cols m + 512"
      using block_count_bounds [of "mat_cols m"] by (simp add: rowstride_def rowstride_block_count)
    ultimately have "rowstride m * 512 < (length v + 1) * 512" by linarith
    then show ?thesis by simp
  qed
  have dot: "blocks_dot (row_blocks m i) v = mvec (mat_cols m) (mat_bit m) (blocks_bit v) i" if i: "i < row_count m" for i
  proof -
    have "blocks_dot (row_blocks m i) v = xsum (rowstride m * 512) (\<lambda>j. mat_bit m i j \<and> blocks_bit v j)"
      using blocks_dot_longer [of "row_blocks m i" v] row_blocks_ok [OF assms(1) i] assms(2) le
      by (simp add: row_blocks_bit [OF i])
    also have "\<dots> = xsum (mat_cols m) (\<lambda>j. mat_bit m i j \<and> blocks_bit v j)"
      using cols_in_stride [of m] assms(4) by (intro xsum_extend) (auto simp: mat_clean_def dest: leD)
    finally show ?thesis by (simp add: mvec_def)
  qed
  let ?dots = "map (\<lambda>i. blocks_dot (row_blocks m i) v) [0..<row_count m]"
  have "mat_mul_vec m v = map_option fst (with_length_from_iter ?dots)"
    using assms(3) collect_map [of "row_count m" "mat_row m" "row_blocks m" "\<lambda>row. blocks_dot row v"]
    by (auto simp: mat_mul_vec_def column_count_def mat_row_run [OF assms(1)] split: Option.bind_splits)
  with with_length_from_iter_run [of ?dots] dot show ?thesis by (auto simp: fun_eq_iff)
qed

section \<open>Columns are columns\<close>

lemma mat_column_run: "mat_column m j = Some \<lparr> col_rows = mat_rows m,
    col_accessor = accessor_for_index_unchecked (j mod 512), col_block_index = j div 512 \<rparr>"
  by (simp add: mat_column_def accessor_for_index_def)

lemma column_index_run:
  assumes "mat_ok m" "mat_column m j = Some c" "i < row_count m" "j < mat_cols m"
  shows "column_index (mat_blocks m) c i = Some (mat_bit m i j)"
proof -
  note j = col_div_stride [OF assms(4)]
  note row = row_blocks_ok [OF assms(1,3)]
  have "block_ok (row_blocks m i ! (j div 512))"
    using row j by (simp add: blocks_ok_def all_blocks_def)
  from accessor_correct(1) [OF this, of "j mod 512"]
  have "array_value_of (accessor_for_index_unchecked (j mod 512)) (row_blocks m i ! (j div 512)) =
      block_index (row_blocks m i ! (j div 512)) (j mod 512)"
    by (simp add: accessor_for_index_def)
  also have "\<dots> = blocks_index (row_blocks m i) j"
    using row j by (simp add: blocks_index_at)
  also have "\<dots> = Some (mat_bit m i j)"
    using row in_row_bits [OF assms(4), of "row_blocks m i"] assms(3) by (simp add: blocks.idx mat_bit_def)
  finally show ?thesis
    using assms(2,3) at_offset [OF assms(1,3) j]
    by (auto simp: column_index_def value_in_row_def mat_column_run row_count_def)
qed

lemma column_bits_run:
  assumes "mat_ok m" "mat_column m j = Some c" "j < mat_cols m"
  shows "column_bits (mat_blocks m) c = Some (map (\<lambda>i. mat_bit m i j) [0..<row_count m])"
proof -
  have "length (col_rows c) = row_count m" using assms(2) by (auto simp: mat_column_run row_count_def)
  with collect_map [of "row_count m" "column_index (mat_blocks m) c" "\<lambda>i. mat_bit m i j" "\<lambda>x. x"]
    column_index_run [OF assms(1,2) _ assms(3)]
  show ?thesis by (simp add: column_bits_def)
qed

lemma pack_rows_bits:
  assumes "\<And>k. k < length rs \<Longrightarrow> value_in_row blocks c (rs ! k) = Some (h k)" "length rs \<le> 64"
  shows "\<exists>w. pack_rows blocks c rs = Some w \<and> bit w = (\<lambda>k. k < length rs \<and> h k)"
  using assms
proof (induction rs arbitrary: h)
  case Nil
  then show ?case by (auto simp: pack_rows_def)
next
  case (Cons r rs)
  have "value_in_row blocks c (rs ! k) = Some (h (Suc k))" if "k < length rs" for k
    using Cons.prems(1) [of "Suc k"] that by simp
  with Cons.IH [of "\<lambda>k. h (Suc k)"] Cons.prems(2) obtain w where w: "pack_rows blocks c rs = Some w"
      "bit w = (\<lambda>k. k < length rs \<and> h (Suc k))" by auto
  have "bit (push_bit 1 w OR (if h 0 then 1 else 0)) = (\<lambda>k. k < length (r # rs) \<and> h k)"
  proof
    fix k
    show "bit (push_bit 1 w OR (if h 0 then 1 else 0)) k = (k < length (r # rs) \<and> h k)"
      using Cons.prems(2) unfolding bit_or_iff bit_push_bit_iff w(2)
      by (cases k) (auto simp: possible_bit_word)
  qed
  moreover have "value_in_row blocks c r = Some (h 0)" using Cons.prems(1) [of 0] by simp
  ultimately show ?case using w(1) by (simp add: pack_rows_def ofold_append)
qed

lemma column_support_run:
  assumes "\<And>k. k < length rs \<Longrightarrow> value_in_row blocks c (rs ! k) = Some (h k)"
  shows "column_support_from blocks c n rs = Some (map (\<lambda>i. n * 64 + i) (supp (length rs) h))"
  using assms
proof (induction blocks c n rs arbitrary: h rule: column_support_from.induct)
  case (1 blocks c n rs)
  show ?case
  proof (cases "rs = []")
    case True
    then show ?thesis by (simp add: column_support_from.simps [of blocks c n "[]"])
  next
    case False
    have front: "value_in_row blocks c (take 64 rs ! k) = Some (h k)" if "k < length (take 64 rs)" for k
      using 1(2) [of k] that by simp
    obtain w where w: "pack_rows blocks c (take 64 rs) = Some w" "bit w = (\<lambda>k. k < length (take 64 rs) \<and> h k)"
      using pack_rows_bits [OF front] by auto
    have tail_value: "value_in_row blocks c (drop 64 rs ! k) = Some (h (64 + k))" if "k < length (drop 64 rs)" for k
      using 1(2) [of "64 + k"] that by simp
    let ?m = "min (length rs) 64"
    have "drain_bits w = supp ?m h"
    proof -
      have "supp 64 (\<lambda>k. k < ?m \<and> h k) = supp ?m (\<lambda>k. k < ?m \<and> h k)" by (rule supp_extend) auto
      also have "\<dots> = supp ?m h" by (rule supp_cong) simp
      finally show ?thesis by (simp add: drain_bits_eq w(2))
    qed
    note drained = this
    have rest: "column_support_from blocks c (n + 1) (drop 64 rs) =
        Some (map (\<lambda>i. (n + 1) * 64 + i) (supp (length (drop 64 rs)) (\<lambda>i. h (64 + i))))"
      by (rule 1(1) [OF False w(1)]) (rule tail_value)
    have run: "column_support_from blocks c n rs = Some (map (\<lambda>i. n * 64 + i) (supp ?m h) @
        map (\<lambda>i. (n + 1) * 64 + i) (supp (length (drop 64 rs)) (\<lambda>i. h (64 + i))))"
      unfolding column_support_from.simps [of blocks c n rs] w(1) rest using False by (simp add: drained)
    show ?thesis
    proof (cases "length rs \<le> 64")
      case True
      then show ?thesis unfolding run by (simp add: min_absorb1)
    next
      case False
      then have m: "?m = 64" "64 + (length rs - 64) = length rs" by simp_all
      have "supp (length rs) h = supp 64 h @ map (\<lambda>i. 64 + i) (supp (length rs - 64) (\<lambda>i. h (64 + i)))"
        using supp_add [of 64 "length rs - 64" h] unfolding m(2) .
      then show ?thesis unfolding run m(1) by (simp add: comp_def add.assoc [symmetric])
    qed
  qed
qed

lemma column_support_eq:
  assumes "mat_ok m" "mat_column m j = Some c" "j < mat_cols m"
  shows "column_support_from (mat_blocks m) c 0 (col_rows c) = Some (supp (row_count m) (\<lambda>i. mat_bit m i j))"
proof -
  have r: "length (col_rows c) = row_count m" using assms(2) by (auto simp: mat_column_run row_count_def)
  have "value_in_row (mat_blocks m) c (col_rows c ! k) = Some (mat_bit m k j)" if "k < length (col_rows c)" for k
    using column_index_run [OF assms(1,2) _ assms(3), of k] that r by (simp add: column_index_def)
  from column_support_run [OF this, of 0] r show ?thesis by (simp add: map_idI)
qed

section \<open>Stacking\<close>

definition row_list :: "aligned_bitmatrix \<Rightarrow> bitblock list list" where
  "row_list m = map (row_blocks m) [0..<row_count m]"

lemma window_concat: "\<forall>x \<in> set xs. length x = n \<Longrightarrow> i < length xs \<Longrightarrow> window (i * n) n (concat xs) = xs ! i"
proof (induction xs arbitrary: i)
  case (Cons x xs)
  then show ?case by (cases i) (auto simp: window_def)
qed simp

lemma length_concat_same: "\<forall>x \<in> set xs. length x = n \<Longrightarrow> length (concat xs) = length xs * n"
  by (induction xs) auto

lemma row_list_ok:
  assumes "mat_ok m"
  shows "length (row_list m) = row_count m" "x \<in> set (row_list m) \<Longrightarrow> length x = rowstride m \<and> blocks_ok x"
  using assms row_blocks_ok by (auto simp: row_list_def)

lemma stack_rows_run:
  assumes "mat_ok m"
  shows "ofold (\<lambda>r buffer. do {
      row_ptr \<leftarrow> nth_opt (mat_rows m) r;
      guard_opt (row_ptr + rowstride m \<le> length (mat_blocks m));
      Some (buffer @ window row_ptr (rowstride m) (mat_blocks m)) }) [0..<row_count m] buf = Some (buf @ concat (row_list m))"
proof -
  have "n \<le> row_count m \<Longrightarrow> ofold (\<lambda>r buffer. do {
      row_ptr \<leftarrow> nth_opt (mat_rows m) r;
      guard_opt (row_ptr + rowstride m \<le> length (mat_blocks m));
      Some (buffer @ window row_ptr (rowstride m) (mat_blocks m)) }) [0..<n] buf =
      Some (buf @ concat (map (row_blocks m) [0..<n]))" for n
    using row_in_buffer [OF assms] by (induction n) (auto simp: ofold_append row_count_def row_blocks_def)
  then show ?thesis by (simp add: row_list_def)
qed

lemma stack_loop:
  assumes "\<And>m. m \<in> set ms \<Longrightarrow> mat_ok m \<and> mat_cols m = c" "cols = None \<or> cols = Some c"
  shows "ofold stack_step ms (buf, cols, n) =
    Some (buf @ concat (concat (map row_list ms)), if ms = [] then cols else Some c, n + sum_list (map row_count ms))"
  using assms
proof (induction ms arbitrary: buf cols n)
  case (Cons m ms)
  then have m: "mat_ok m" "mat_cols m = c" by auto
  have "stack_step m (buf, cols, n) = Some (buf @ concat (row_list m), Some c, n + row_count m)"
    using Cons.prems(2) m by (auto simp: stack_step_def stack_rows_run)
  with Cons show ?case by simp
qed simp

lemma mat_row_stacked_run:
  assumes "\<And>m. m \<in> set ms \<Longrightarrow> mat_ok m \<and> mat_cols m = c" "ms \<noteq> []"
  shows "\<exists>t. mat_row_stacked ms = Some t \<and> mat_ok t \<and> mat_cols t = c \<and>
    row_count t = length (concat (map row_list ms)) \<and>
    (\<forall>i < row_count t. row_blocks t i = concat (map row_list ms) ! i)"
proof -
  let ?rows = "concat (map row_list ms)"
  have rows: "\<forall>x \<in> set ?rows. length x = rowstride_of c \<and> blocks_ok x"
    using assms(1) row_list_ok(2) by (fastforce simp: rowstride_def)
  then have len: "length (concat ?rows) = length ?rows * rowstride_of c" by (intro length_concat_same) auto
  have ok: "blocks_ok (concat ?rows)" using rows by (auto simp: blocks_ok_def all_blocks_def)
  have "sum_list (map row_count ms) = length ?rows"
    using assms(1) by (induction ms) (auto simp: row_list_ok(1) length_concat)
  moreover have "mat_row_stacked ms = map_option (\<lambda>(buffer, cols, rows).
      from_blocks buffer (rows, case cols of None \<Rightarrow> 0 | Some c \<Rightarrow> c)) (ofold stack_step ms ([], None, 0))"
    by (auto simp: mat_row_stacked_def split: Option.bind_splits)
  ultimately have run: "mat_row_stacked ms = Some (from_blocks (concat ?rows) (length ?rows, c))"
    using stack_loop [of ms c None "[]" 0] assms by simp
  note f = from_blocks_ok [OF ok len]
  have "row_blocks (from_blocks (concat ?rows) (length ?rows, c)) i = ?rows ! i" if "i < length ?rows" for i
    using f(4) [OF that] window_concat [of ?rows "rowstride_of c" i] rows that by auto
  with run f(1-3) show ?thesis by auto
qed

lemma mat_row_stacked_two:
  assumes "mat_ok A" "mat_ok B" "mat_cols B = mat_cols A"
  shows "\<exists>t. mat_row_stacked [A, B] = Some t \<and> mat_ok t \<and> mat_cols t = mat_cols A \<and>
    row_count t = row_count A + row_count B \<and>
    (\<forall>i j. mat_bit t i j = (if i < row_count A then mat_bit A i j else mat_bit B (i - row_count A) j))"
proof -
  obtain t where t: "mat_row_stacked [A, B] = Some t" "mat_ok t" "mat_cols t = mat_cols A"
      "row_count t = length (row_list A @ row_list B)"
      "\<forall>i < row_count t. row_blocks t i = (row_list A @ row_list B) ! i"
  proof -
    have "mat_ok m \<and> mat_cols m = mat_cols A" if "m \<in> set [A, B]" for m using that assms by auto
    from mat_row_stacked_run [OF this] that show thesis by fastforce
  qed
  have rc: "row_count t = row_count A + row_count B"
    using t(4) by (simp add: row_list_def)
  have "mat_bit t i j = (if i < row_count A then mat_bit A i j else mat_bit B (i - row_count A) j)" for i j
  proof (cases "i < row_count t")
    case True
    then have "row_blocks t i = (if i < row_count A then row_blocks A i else row_blocks B (i - row_count A))"
      using t(5) rc by (simp add: row_list_def nth_append)
    moreover have "i < row_count A \<or> i - row_count A < row_count B" using True rc by linarith
    ultimately show ?thesis using True by (auto simp: mat_bit_def)
  next
    case False
    then have "\<not> i < row_count A" "\<not> i - row_count A < row_count B" using rc by linarith+
    with False show ?thesis by (simp add: mat_bit_def)
  qed
  with t(1-3) rc show ?thesis by blast
qed

section \<open>Words\<close>

text \<open>Words give back the rows in physical order.\<close>

lemma mat_words_round_trip:
  assumes "mat_ok m" "0 < mat_cols m"
  shows "\<exists>n. mat_from_words (mat_as_words m) (mat_cols m) = Some n \<and> mat_ok n \<and> mat_cols n = mat_cols m \<and>
    row_count n = row_count m \<and> mat_blocks n = mat_blocks m \<and>
    (mat_rows m = map (\<lambda>k. k * rowstride m) [0..<row_count m] \<longrightarrow> n = m)"
proof -
  have rs: "0 < rowstride m" using col_div_stride [of 0 m] assms(2) by simp
  have ok: "blocks_ok (mat_blocks m)" and len: "length (mat_blocks m) = row_count m * rowstride m"
    using assms(1) by (simp_all add: mat_ok_def)
  have lw: "length (words (mat_blocks m)) = length (mat_blocks m) * 8" by (rule length_words [OF ok])
  have run: "mat_from_words (mat_as_words m) (mat_cols m) = Some (from_blocks (mat_blocks m) (row_count m, mat_cols m))"
    using rs len lw unwords_words [OF ok] by (simp add: mat_from_words_def mat_as_words_def rowstride_def)
  have "length (mat_blocks m) = row_count m * rowstride_of (mat_cols m)" using len by (simp add: rowstride_def)
  note f = from_blocks_ok [OF ok this]
  have "from_blocks (mat_blocks m) (row_count m, mat_cols m) = m"
    if "mat_rows m = map (\<lambda>k. k * rowstride m) [0..<row_count m]"
    using that rows_of_stride [OF len] by (simp add: from_blocks_def from_blocks_and_rows_def)
  moreover have "mat_blocks (from_blocks (mat_blocks m) (row_count m, mat_cols m)) = mat_blocks m"
    by (simp add: from_blocks_def from_blocks_and_rows_def)
  ultimately show ?thesis using run f(1-3) by blast
qed

end
