(* ===== verification/Echelon.thy ===== *)
theory Echelon
  imports Matrix_Ops
begin

text \<open>
  Gaussian elimination in \<open>matrix/aligned_bitmatrix.rs\<close>: the search for the next pivot, the two
  ways of clearing a pivot column, and the two drivers.  \<open>echelonize\<close> works on the blocks from the
  pivot's block on, through raw pointers and in physical row order; \<open>EchelonForm::new\<close> works row by
  row and maintains a transform and the transpose of its inverse.  The lemmas show that both
  compute the reduced row echelon form and the same pivots, and that the transforms are right.
\<close>

section \<open>The search for a pivot\<close>

text \<open>Column by column from \<open>starting_at\<close>; the row restarts at \<open>starting_at.0\<close>.\<close>

partial_function (option) pivot_loop :: "aligned_bitmatrix \<Rightarrow> nat \<Rightarrow> nat \<Rightarrow> nat \<Rightarrow> (nat \<times> nat) option" where
  "pivot_loop m r0 i j = do {
     b \<leftarrow> mat_get m (i, j);
     if b then Some (i, j)
     else if i + 1 = row_count m then
       (if j + 1 = column_count m then Some (r0, j + 1) else pivot_loop m r0 r0 (j + 1))
     else pivot_loop m r0 (i + 1) j }"

definition pivot_of :: "aligned_bitmatrix \<Rightarrow> nat \<times> nat \<Rightarrow> (nat \<times> nat) option" where
  "pivot_of m starting_at =
     (if row_count m \<le> fst starting_at \<or> column_count m \<le> snd starting_at then Some starting_at
      else pivot_loop m (fst starting_at) (fst starting_at) (snd starting_at))"

section \<open>Clearing a pivot column in place\<close>

record reduction_data =
  rd_accessor :: bit_accessor
  rd_blocks_per_row :: nat
  rd_rowstride :: nat
  rd_base_block :: nat
  rd_from_block :: nat

definition for_pivot :: "nat \<times> nat \<Rightarrow> aligned_bitmatrix \<Rightarrow> reduction_data option" where
  "for_pivot pivot m = (let start_block_offset = snd pivot div 512; bit_index = snd pivot mod 512 in do {
     row \<leftarrow> nth_opt (mat_rows m) (fst pivot);
     accessor \<leftarrow> accessor_for_index 512 bit_index;
     guard_opt (start_block_offset \<le> rowstride m);
     Some \<lparr> rd_accessor = accessor, rd_blocks_per_row = rowstride m - start_block_offset,
       rd_rowstride = rowstride m, rd_base_block = start_block_offset,
       rd_from_block = row + start_block_offset \<rparr> })"

definition add_into_block :: "nat \<Rightarrow> nat \<Rightarrow> nat \<Rightarrow> bitblock list \<Rightarrow> bitblock list option" where
  "add_into_block to_block from_block n = xor_blocks_at to_block from_block n"

text \<open>The pointer walks back one row at a time until it meets \<open>until_block\<close>; stepping before the
  start of the buffer is a failure.\<close>

partial_function (option) reduce_backward_until ::
  "reduction_data \<Rightarrow> nat \<Rightarrow> nat \<Rightarrow> bitblock list \<Rightarrow> (nat \<times> bitblock list) option" where
  "reduce_backward_until data until_block to_block blocks =
     (if until_block = to_block then Some (to_block, blocks)
      else do {
        guard_opt (rd_rowstride data \<le> to_block);
        let to_block = to_block - rd_rowstride data;
        b \<leftarrow> nth_opt blocks to_block;
        column_value \<leftarrow> array_value_of (rd_accessor data) b;
        blocks \<leftarrow> (if column_value
                   then add_into_block to_block (rd_from_block data) (rd_blocks_per_row data) blocks
                   else Some blocks);
        reduce_backward_until data until_block to_block blocks })"

definition reduce :: "nat \<times> nat \<Rightarrow> aligned_bitmatrix \<Rightarrow> aligned_bitmatrix option" where
  "reduce from m = do {
     data \<leftarrow> for_pivot from m;
     (to_block, blocks) \<leftarrow> reduce_backward_until data (rd_base_block data) (rd_from_block data) (mat_blocks m);
     let to_block = to_block + rd_rowstride data * row_count m;
     let until_block = rd_from_block data + rd_rowstride data;
     (_, blocks) \<leftarrow> reduce_backward_until data until_block to_block blocks;
     Some (m \<lparr> mat_blocks := blocks \<rparr>) }"

text \<open>The loop stops when no pivot is left; from then on the remaining rounds do nothing.\<close>

definition echelonize_step ::
  "nat \<Rightarrow> aligned_bitmatrix \<times> (nat \<times> nat) \<times> nat list \<Rightarrow> (aligned_bitmatrix \<times> (nat \<times> nat) \<times> nat list) option" where
  "echelonize_step row_index = (\<lambda>(m, pivot, rank_profile).
     if column_count m \<le> snd pivot then Some (m, pivot, rank_profile)
     else do {
       m \<leftarrow> mat_swap_rows (fst pivot) row_index m;
       let pivot = (row_index, snd pivot);
       let rank_profile = rank_profile @ [snd pivot];
       m \<leftarrow> reduce pivot m;
       pivot \<leftarrow> pivot_of m (fst pivot + 1, snd pivot + 1);
       Some (m, pivot, rank_profile) })"

definition echelonize :: "aligned_bitmatrix \<Rightarrow> (aligned_bitmatrix \<times> nat list) option" where
  "echelonize m = do {
     pivot \<leftarrow> pivot_of m (0, 0);
     (m, _, rank_profile) \<leftarrow> ofold echelonize_step [0..<row_count m] (m, pivot, []);
     Some (m, rank_profile) }"

definition mat_rank :: "aligned_bitmatrix \<Rightarrow> nat option" where
  "mat_rank m = do { (_, profile) \<leftarrow> echelonize (mat_clone m); Some (length profile) }"

section \<open>Elimination with transforms\<close>

record echelon_form =
  ef_matrix :: aligned_bitmatrix
  ef_transform :: aligned_bitmatrix
  ef_transform_inv_t :: aligned_bitmatrix
  ef_pivots :: "nat list"

type_synonym triple = "aligned_bitmatrix \<times> aligned_bitmatrix \<times> aligned_bitmatrix"

definition xor_if_column_with_transforms :: "nat \<Rightarrow> nat \<Rightarrow> nat \<Rightarrow> triple \<Rightarrow> triple option" where
  "xor_if_column_with_transforms col row_index from_row_index = (\<lambda>(m, t, u). do {
     b \<leftarrow> mat_get m (row_index, col);
     if b then do {
       m \<leftarrow> mat_add_into_row row_index from_row_index m;
       t \<leftarrow> mat_add_into_row row_index from_row_index t;
       u \<leftarrow> mat_add_into_row from_row_index row_index u;
       Some (m, t, u) }
     else Some (m, t, u) })"

definition reduce_with_transforms :: "nat \<times> nat \<Rightarrow> triple \<Rightarrow> triple option" where
  "reduce_with_transforms from st = (let rows = row_count (fst st) in do {
     st \<leftarrow> ofold (\<lambda>row_index. xor_if_column_with_transforms (snd from) row_index (fst from)) [0..<fst from] st;
     ofold (\<lambda>row_index. xor_if_column_with_transforms (snd from) row_index (fst from)) [fst from + 1..<rows] st })"

definition echelon_step ::
  "nat \<Rightarrow> triple \<times> (nat \<times> nat) \<times> nat list \<Rightarrow> (triple \<times> (nat \<times> nat) \<times> nat list) option" where
  "echelon_step row_index = (\<lambda>((m, t, u), pivot, rank_profile).
     if column_count m \<le> snd pivot then Some ((m, t, u), pivot, rank_profile)
     else do {
       m \<leftarrow> mat_swap_rows (fst pivot) row_index m;
       u \<leftarrow> mat_swap_rows (fst pivot) row_index u;
       t \<leftarrow> mat_swap_rows (fst pivot) row_index t;
       let pivot = (row_index, snd pivot);
       let rank_profile = rank_profile @ [snd pivot];
       (m, t, u) \<leftarrow> reduce_with_transforms pivot (m, t, u);
       pivot \<leftarrow> pivot_of m (fst pivot + 1, snd pivot + 1);
       Some ((m, t, u), pivot, rank_profile) })"

definition echelon_form_new :: "aligned_bitmatrix \<Rightarrow> echelon_form option" where
  "echelon_form_new m = do {
     t \<leftarrow> mat_identity (row_count m);
     u \<leftarrow> mat_identity (row_count m);
     pivot \<leftarrow> pivot_of m (0, 0);
     ((m, t, u), _, rank_profile) \<leftarrow> ofold echelon_step [0..<row_count m] ((m, t, u), pivot, []);
     Some \<lparr> ef_matrix = m, ef_transform = t, ef_transform_inv_t = u, ef_pivots = rank_profile \<rparr> }"

section \<open>The pivot found is the next one\<close>

definition is_pivot :: "nat \<Rightarrow> nat \<Rightarrow> bmat \<Rightarrow> nat \<Rightarrow> nat \<Rightarrow> nat \<times> nat \<Rightarrow> bool" where
  "is_pivot r n A i0 j0 p \<longleftrightarrow> j0 \<le> snd p \<and> snd p \<le> n \<and> i0 \<le> fst p \<and> fst p < r \<and>
     (\<forall>j. j0 \<le> j \<and> j < snd p \<longrightarrow> (\<forall>i. i0 \<le> i \<and> i < r \<longrightarrow> \<not> A i j)) \<and>
     (if snd p < n then A (fst p) (snd p) \<and> (\<forall>i. i0 \<le> i \<and> i < fst p \<longrightarrow> \<not> A i (snd p)) else fst p = i0)"

lemma is_pivot_unique:
  assumes "is_pivot r n A i0 j0 p" "is_pivot r n A i0 j0 q"
  shows "p = q"
proof -
  have le: "snd p \<le> snd q" if "is_pivot r n A i0 j0 p" "is_pivot r n A i0 j0 q" for p q
  proof (rule ccontr)
    assume "\<not> snd p \<le> snd q"
    then have lt: "snd q < snd p" "snd q < n" using that(1) by (auto simp: is_pivot_def)
    then have "A (fst q) (snd q)" using that(2) by (simp add: is_pivot_def)
    with that lt show False by (auto simp: is_pivot_def)
  qed
  then have s: "snd p = snd q" using assms by (simp add: le antisym)
  have "fst p = fst q"
  proof (cases "snd q < n")
    case True
    with assms s show ?thesis unfolding is_pivot_def by (metis linorder_neqE_nat)
  next
    case False
    with assms s show ?thesis by (simp add: is_pivot_def)
  qed
  with s show ?thesis by (simp add: prod_eq_iff)
qed

lemma pivot_loop_run:
  assumes "mat_ok m" "i0 \<le> i" "i < row_count m" "j0 \<le> j" "j < mat_cols m" "i0 < row_count m"
    and "\<And>k l. i0 \<le> k \<Longrightarrow> k < row_count m \<Longrightarrow> j0 \<le> l \<Longrightarrow> l < j \<Longrightarrow> \<not> mat_bit m k l"
    and "\<And>k. i0 \<le> k \<Longrightarrow> k < i \<Longrightarrow> \<not> mat_bit m k j"
  shows "\<exists>p. pivot_loop m i0 i j = Some p \<and> is_pivot (row_count m) (mat_cols m) (mat_bit m) i0 j0 p"
  using assms
proof (induction "(mat_cols m - j) * (row_count m + 1) + (row_count m - i)" arbitrary: i j rule: less_induct)
  case less
  have get: "mat_get m (i, j) = Some (mat_bit m i j)" using less.prems by (simp add: mat_get_bit)
  note step = pivot_loop.simps [of m i0 i j]
  show ?case
  proof (cases "mat_bit m i j")
    case True
    with less.prems get show ?thesis by (subst step) (auto simp: is_pivot_def)
  next
    case False
    note row_clear = less.prems(8)
    show ?thesis
    proof (cases "i + 1 = row_count m")
      case last: True
      have clear: "\<not> mat_bit m k l" if "i0 \<le> k" "k < row_count m" "j0 \<le> l" "l < Suc j" for k l
        using that False last row_clear less.prems(7) by (metis less_Suc_eq Suc_eq_plus1)
      show ?thesis
      proof (cases "j + 1 = mat_cols m")
        case True
        with False last get less.prems clear show ?thesis
          by (subst step) (auto simp: is_pivot_def column_count_def)
      next
        case more: False
        have "(mat_cols m - (j + 1)) * (row_count m + 1) + (row_count m - i0) <
            (mat_cols m - j) * (row_count m + 1) + (row_count m - i)"
        proof -
          have "mat_cols m - j = Suc (mat_cols m - (j + 1))" using less.prems(5) by simp
          then show ?thesis using less.prems(3) by simp
        qed
        from less.hyps [OF this] less.prems more clear
        have "\<exists>p. pivot_loop m i0 i0 (j + 1) = Some p \<and> is_pivot (row_count m) (mat_cols m) (mat_bit m) i0 j0 p"
          by auto
        with False last more get show ?thesis by (subst step) (simp add: column_count_def)
      qed
    next
      case inner: False
      have "(mat_cols m - j) * (row_count m + 1) + (row_count m - (i + 1)) <
          (mat_cols m - j) * (row_count m + 1) + (row_count m - i)"
        using less.prems(3) by simp
      moreover have "\<not> mat_bit m k j" if "i0 \<le> k" "k < i + 1" for k
        using that False row_clear by (metis less_Suc_eq Suc_eq_plus1)
      ultimately have "\<exists>p. pivot_loop m i0 (i + 1) j = Some p \<and> is_pivot (row_count m) (mat_cols m) (mat_bit m) i0 j0 p"
        using less.hyps [of j "i + 1"] less.prems inner by auto
      with False inner get show ?thesis by (subst step) simp
    qed
  qed
qed

lemma pivot_of_run:
  assumes "mat_ok m" "i0 < row_count m" "j0 < mat_cols m"
  shows "\<exists>p. pivot_of m (i0, j0) = Some p \<and> is_pivot (row_count m) (mat_cols m) (mat_bit m) i0 j0 p"
  using pivot_loop_run [of m i0 i0 j0 j0] assms by (simp add: pivot_of_def column_count_def)

lemma pivot_of_cong:
  assumes "mat_ok m" "mat_ok n" "row_count n = row_count m" "mat_cols n = mat_cols m" "mat_bit n = mat_bit m"
  shows "pivot_of n p = pivot_of m p"
proof (cases "row_count m \<le> fst p \<or> mat_cols m \<le> snd p")
  case True
  with assms show ?thesis by (simp add: pivot_of_def column_count_def)
next
  case False
  with pivot_of_run [of m "fst p" "snd p"] pivot_of_run [of n "fst p" "snd p"] assms show ?thesis
    by (auto dest: is_pivot_unique)
qed

section \<open>Clearing in place is elimination\<close>

definition xor_tail :: "nat \<Rightarrow> bitblock list \<Rightarrow> bitblock list \<Rightarrow> bitblock list" where
  "xor_tail s x y = splice s (blocks_bitxor_assign (drop s x) (drop s y)) x"

lemma xor_tail_ok:
  assumes "blocks_ok x" "blocks_ok y" "length y = length x" "s \<le> length x"
  shows "blocks_ok (xor_tail s x y)" "length (xor_tail s x y) = length x"
    "blocks_bit (xor_tail s x y) = (\<lambda>j. blocks_bit x j \<noteq> (s * 512 \<le> j \<and> blocks_bit y j))"
proof -
  let ?t = "blocks_bitxor_assign (drop s x) (drop s y)"
  have t: "blocks_ok ?t" "length ?t = length x - s" "blocks_bit ?t = (\<lambda>j. blocks_bit (drop s x) j \<noteq> blocks_bit (drop s y) j)"
    using blocks.xor_assign [of "drop s x" "drop s y"] assms by (auto simp: blocks_ok_take_drop)
  show ok: "blocks_ok (xor_tail s x y)"
    using t(1) assms(1) set_splice [of s ?t x] by (auto simp: xor_tail_def blocks_ok_def all_blocks_def)
  show len: "length (xor_tail s x y) = length x" using t(2) assms(4) by (simp add: xor_tail_def)
  show "blocks_bit (xor_tail s x y) = (\<lambda>j. blocks_bit x j \<noteq> (s * 512 \<le> j \<and> blocks_bit y j))"
  proof
    fix j
    consider "length x * 512 \<le> j" | "j < length x * 512" "j < s * 512" | "j < length x * 512" "s * 512 \<le> j" by linarith
    then show "blocks_bit (xor_tail s x y) j = (blocks_bit x j \<noteq> (s * 512 \<le> j \<and> blocks_bit y j))"
    proof cases
      case 1
      then show ?thesis using len assms(3) by (simp add: blocks_bit_def lift_bit_def)
    next
      case 2
      then have "j div 512 < s" by (simp add: div_less_iff_less_mult)
      with 2 len t(2) assms(4) show ?thesis
        by (auto simp: blocks_bit_def lift_bit_def xor_tail_def nth_splice div_mod_less)
    next
      case 3
      then obtain k where k: "j = s * 512 + k" by (metis le_iff_add)
      then have "k < (length x - s) * 512" using 3 assms(4) by (simp add: diff_mult_distrib)
      moreover have "j div 512 = s + k div 512" "j mod 512 = k mod 512" by (simp_all add: k)
      moreover from this have "k div 512 < length x - s" "s + k div 512 < length x"
        using div_mod_less [of k "length x - s" 512] \<open>k < (length x - s) * 512\<close> by linarith+
      ultimately have "blocks_bit (xor_tail s x y) j = blocks_bit ?t k"
        using 3 len t(2) assms(4)
        by (simp add: blocks_bit_def lift_bit_def xor_tail_def nth_splice)
      moreover have "blocks_bit (drop s z) k = blocks_bit z j" if "length z = length x" for z
        using that 3 k assms(4) \<open>k < (length x - s) * 512\<close>
        by (simp add: blocks_bit_def lift_bit_def)
      ultimately show ?thesis using 3(2) assms(3) by (simp add: t(3))
    qed
  qed
qed

lemma add_into_block_put:
  assumes "mat_ok m" "t < row_count m" "f < row_count m" "t \<noteq> f" "s \<le> rowstride m"
  shows "add_into_block (mat_rows m ! t + s) (mat_rows m ! f + s) (rowstride m - s) (mat_blocks m) =
    Some (mat_blocks (put_row t (xor_tail s (row_blocks m t) (row_blocks m f)) m))"
proof -
  note t = row_in_buffer [OF assms(1,2)] and f = row_in_buffer [OF assms(1,3)]
  have w: "window (a + s) (rowstride m - s) (mat_blocks m) = drop s (window a (rowstride m) (mat_blocks m))" for a
    by (simp add: window_def drop_take add.commute)
  let ?r = "blocks_bitxor_assign (drop s (row_blocks m t)) (drop s (row_blocks m f))"
  have lr: "length ?r = rowstride m - s"
    using row_blocks_ok [OF assms(1,2)] by (simp add: blocks_bitxor_assign_def)
  have "splice (mat_rows m ! t + s) ?r (mat_blocks m) = splice (mat_rows m ! t) (splice s ?r (row_blocks m t)) (mat_blocks m)"
    using t assms(5) lr row_blocks_ok [OF assms(1,2)]
    by (intro nth_equalityI) (auto simp: nth_splice row_blocks_def nth_window)
  moreover have "mat_rows m ! t + s + (rowstride m - s) \<le> mat_rows m ! f + s \<or>
      mat_rows m ! f + s + (rowstride m - s) \<le> mat_rows m ! t + s"
    using rows_disjoint [OF assms(1-4)] assms(5) by linarith
  ultimately show ?thesis
    using xor_blocks_run [of "mat_blocks m" "mat_rows m ! t + s" "rowstride m - s" "mat_rows m ! f + s"]
      assms t f
    by (simp add: add_into_block_def w row_blocks_def [symmetric] xor_tail_def put_row_def mat_ok_def)
qed

text \<open>The matrix with its rows in physical order: the walk over the buffer is a walk over its rows.\<close>

definition physical :: "aligned_bitmatrix \<Rightarrow> bool" where
  "physical m \<longleftrightarrow> mat_rows m = map (\<lambda>k. k * rowstride m) [0..<row_count m]"

definition tail_eliminated :: "nat \<Rightarrow> nat \<Rightarrow> nat \<Rightarrow> nat set \<Rightarrow> bmat \<Rightarrow> bmat" where
  "tail_eliminated s p c K A = (\<lambda>i j. if i \<in> K then A i j \<noteq> (A i c \<and> s * 512 \<le> j \<and> A p j) else A i j)"

lemma accessor_at:
  assumes "mat_ok m" "i < row_count m" "c < mat_cols m"
  shows "Option.bind (nth_opt (mat_blocks m) (mat_rows m ! i + c div 512))
    (array_value_of (accessor_for_index_unchecked (c mod 512))) = Some (mat_bit m i c)"
  using column_index_run [OF assms(1) mat_column_run assms(2,3)] assms(2)
  by (simp add: column_index_def value_in_row_def row_count_def)

lemma reduce_backward_run:
  assumes "mat_ok m" "physical m" "u \<le> v" "v \<le> row_count m" "p < row_count m" "p \<notin> {u..<v}" "c < mat_cols m"
    and "data = \<lparr> rd_accessor = accessor_for_index_unchecked (c mod 512),
       rd_blocks_per_row = rowstride m - c div 512, rd_rowstride = rowstride m, rd_base_block = b,
       rd_from_block = p * rowstride m + c div 512 \<rparr>"
  shows "\<exists>n. reduce_backward_until data (u * rowstride m + c div 512) (v * rowstride m + c div 512) (mat_blocks m) =
      Some (u * rowstride m + c div 512, mat_blocks n) \<and> mat_ok n \<and> mat_rows n = mat_rows m \<and> mat_cols n = mat_cols m \<and>
      mat_bit n = tail_eliminated (c div 512) p c {u..<v} (mat_bit m)"
  using assms
proof (induction "v - u" arbitrary: v m)
  case 0
  then have "u = v" by simp
  with 0 show ?case by (subst reduce_backward_until.simps) (auto simp: tail_eliminated_def intro!: exI [of _ m])
next
  case (Suc d)
  let ?s = "c div 512"
  obtain w where w: "v = Suc w" "u \<le> w" "w < row_count m" using Suc by (cases v) auto
  have dw: "d = w - u" using Suc.hyps(2) w(1,2) by (simp add: Suc_diff_le)
  have pw: "p \<noteq> w" using Suc.prems(6) w by auto
  have cs: "?s < rowstride m" by (rule col_div_stride [OF Suc.prems(7)])
  have off: "k < row_count m \<Longrightarrow> mat_rows m ! k = k * rowstride m" for k
    using Suc.prems(2) by (simp add: physical_def)
  have step: "v * rowstride m + ?s - rowstride m = w * rowstride m + ?s" by (simp add: w(1))
  have "u * rowstride m \<le> w * rowstride m" using w by (intro mult_le_mono1)
  then have ne: "u * rowstride m + ?s \<noteq> v * rowstride m + ?s" using cs unfolding w(1) mult_Suc by linarith
  let ?row = "xor_tail ?s (row_blocks m w) (row_blocks m p)"
  define n where "n = (if mat_bit m w c then put_row w ?row m else m)"
  note rw = row_blocks_ok [OF Suc.prems(1) w(3)] and rp = row_blocks_ok [OF Suc.prems(1,5)]
  have x: "blocks_ok ?row" "length ?row = rowstride m"
      "blocks_bit ?row = (\<lambda>j. mat_bit m w j \<noteq> (?s * 512 \<le> j \<and> mat_bit m p j))"
    using xor_tail_ok [of "row_blocks m w" "row_blocks m p" ?s] rw rp cs Suc.prems(5) w(3) by (simp_all add: row_blocks_bit)
  have n: "mat_ok n" "mat_rows n = mat_rows m" "mat_cols n = mat_cols m" "row_count n = row_count m"
      "rowstride n = rowstride m" "physical n"
    using put_row_ok [OF Suc.prems(1) w(3) x(1,2)] Suc.prems(1,2) by (auto simp: n_def physical_def)
  have nb: "mat_bit n = tail_eliminated ?s p c {w} (mat_bit m)"
    using put_row_bit [OF Suc.prems(1) w(3) x(2)] x(3) by (auto simp: n_def tail_eliminated_def fun_eq_iff)
  have body: "(if mat_bit m w c then add_into_block (w * rowstride m + ?s) (rd_from_block data) (rd_blocks_per_row data) (mat_blocks m)
      else Some (mat_blocks m)) = Some (mat_blocks n)"
    using add_into_block_put [OF Suc.prems(1) w(3) Suc.prems(5) pw [symmetric], of ?s] cs off [OF w(3)] off [OF Suc.prems(5)]
    by (simp add: Suc.prems(8) n_def)
  have acc: "Option.bind (nth_opt (mat_blocks m) (w * rowstride m + ?s)) (array_value_of (rd_accessor data)) = Some (mat_bit m w c)"
    using accessor_at [OF Suc.prems(1) w(3) Suc.prems(7)] off [OF w(3)] by (simp add: Suc.prems(8))
  have "reduce_backward_until data (u * rowstride m + ?s) (v * rowstride m + ?s) (mat_blocks m) =
      reduce_backward_until data (u * rowstride m + ?s) (w * rowstride m + ?s) (mat_blocks n)"
    using ne acc body step
    by (subst reduce_backward_until.simps) (auto simp: Suc.prems(8) Let_def w(1) bind_eq_Some_conv)
  moreover obtain n' where "reduce_backward_until data (u * rowstride m + ?s) (w * rowstride m + ?s) (mat_blocks n) =
      Some (u * rowstride m + ?s, mat_blocks n') \<and> mat_ok n' \<and> mat_rows n' = mat_rows m \<and> mat_cols n' = mat_cols m \<and>
      mat_bit n' = tail_eliminated ?s p c {u..<w} (mat_bit n)"
    using Suc.hyps(1) [of w n] dw Suc.prems w n by auto
  moreover have "tail_eliminated ?s p c {u..<w} (mat_bit n) = tail_eliminated ?s p c {u..<v} (mat_bit m)"
    using Suc.prems(6) pw w by (auto simp: nb tail_eliminated_def fun_eq_iff)
  ultimately show ?case by auto
qed

text \<open>Undoing the row permutation: physical row \<open>ps ! i\<close> is logical row \<open>i\<close>.\<close>

definition physical_of :: "aligned_bitmatrix \<Rightarrow> aligned_bitmatrix" where
  "physical_of m = m \<lparr> mat_rows := map (\<lambda>k. k * rowstride m) [0..<row_count m] \<rparr>"

lemma physical_of_frame [simp]: "row_count (physical_of m) = row_count m" "rowstride (physical_of m) = rowstride m"
    "mat_cols (physical_of m) = mat_cols m" "mat_blocks (physical_of m) = mat_blocks m"
    "mat_rows (physical_of m) = map (\<lambda>k. k * rowstride m) [0..<row_count m]"
  by (simp_all add: physical_of_def row_count_def rowstride_def)

lemma physical_of_ok: "mat_ok m \<Longrightarrow> mat_ok (physical_of m)" "physical (physical_of m)"
proof -
  assume ok: "mat_ok m"
  have "distinct [0..<row_count m] \<and> set [0..<row_count m] = {..<row_count m} \<and>
      mat_rows (physical_of m) = map (\<lambda>k. k * rowstride m) [0..<row_count m]"
    by (simp add: atLeast_upt)
  with ok show "mat_ok (physical_of m)" unfolding mat_ok_def physical_of_frame by blast
qed (simp add: physical_def)

lemma logical_bit:
  assumes "mat_rows m = map (\<lambda>k. k * rowstride m) ps" "set ps = {..<row_count m}" "i < row_count m"
  shows "mat_bit m i = mat_bit (physical_of m) (ps ! i)"
proof -
  have "i < length ps" using assms(1,3) by (simp add: row_count_def)
  moreover from this have "ps ! i < row_count m" using assms(2) nth_mem by blast
  ultimately show ?thesis using assms(1,3) by (auto simp: mat_bit_def row_blocks_def fun_eq_iff)
qed

lemma reduce_run:
  assumes "mat_ok m" "p < row_count m" "c < mat_cols m" "\<And>j. j < c \<Longrightarrow> \<not> mat_bit m p j"
  shows "\<exists>n. reduce (p, c) m = Some n \<and> same_shape n m \<and> mat_bit n = eliminate p c (mat_bit m)"
proof -
  obtain ps where ps: "distinct ps" "set ps = {..<row_count m}" "mat_rows m = map (\<lambda>k. k * rowstride m) ps"
    using assms(1) by (auto simp: mat_ok_def)
  then have len: "length ps = row_count m" by (simp add: row_count_def)
  let ?q = "ps ! p" and ?s = "c div 512" and ?m = "physical_of m" and ?r = "row_count m"
  have q: "?q < ?r" using ps(2) len assms(2) nth_mem [of p ps] by auto
  let ?data = "\<lparr> rd_accessor = accessor_for_index_unchecked (c mod 512), rd_blocks_per_row = rowstride m - ?s,
     rd_rowstride = rowstride m, rd_base_block = ?s, rd_from_block = ?q * rowstride m + ?s \<rparr>"
  have data: "for_pivot (p, c) m = Some ?data"
    using assms(2) ps(3) len col_div_stride [OF assms(3)] by (simp add: for_pivot_def accessor_for_index_def Let_def)
  obtain m1 where m1: "reduce_backward_until ?data ?s (?q * rowstride m + ?s) (mat_blocks m) = Some (?s, mat_blocks m1)"
      "mat_ok m1" "mat_rows m1 = mat_rows ?m" "mat_cols m1 = mat_cols m"
      "mat_bit m1 = tail_eliminated ?s ?q c {0..<?q} (mat_bit ?m)"
    using reduce_backward_run [OF physical_of_ok(1) [OF assms(1)] physical_of_ok(2), of 0 ?q ?q c ?data ?s] q assms(3)
    by auto
  have f1: "rowstride m1 = rowstride m" "row_count m1 = ?r" "physical m1"
    using m1(3,4) by (simp_all add: rowstride_def row_count_def physical_def)
  obtain m2 where m2: "reduce_backward_until ?data (Suc ?q * rowstride m + ?s) (?r * rowstride m + ?s) (mat_blocks m1) =
      Some (Suc ?q * rowstride m + ?s, mat_blocks m2)"
      "mat_ok m2" "mat_rows m2 = mat_rows m1" "mat_cols m2 = mat_cols m1"
      "mat_bit m2 = tail_eliminated ?s ?q c {Suc ?q..<?r} (mat_bit m1)"
    using reduce_backward_run [OF m1(2) f1(3), of "Suc ?q" ?r ?q c ?data ?s] q assms(3) f1 m1(4) by auto
  let ?n = "m \<lparr> mat_blocks := mat_blocks m2 \<rparr>"
  have second: "reduce_backward_until ?data (?q * rowstride m + ?s + rowstride m) (?s + rowstride m * ?r) (mat_blocks m1) =
      Some (Suc ?q * rowstride m + ?s, mat_blocks m2)"
    using m2(1) by (simp add: ac_simps)
  have run: "reduce (p, c) m = Some ?n"
    unfolding reduce_def data by (simp add: m1(1) second)
  have n: "rowstride ?n = rowstride m" "row_count ?n = ?r" "mat_rows ?n = mat_rows m"
    by (simp_all add: rowstride_def row_count_def)
  have blocks2: "blocks_ok (mat_blocks m2)" "length (mat_blocks m2) = ?r * rowstride m"
    using m2(2-4) m1(3,4) by (auto simp: mat_ok_def rowstride_def row_count_def)
  then have ok: "mat_ok ?n" using ps n by (auto simp: mat_ok_def)
  have "physical_of ?n = m2"
    using m2(3,4) m1(3,4) n by (auto simp: physical_of_def)
  then have bits: "mat_bit ?n i = mat_bit m2 (ps ! i)" if "i < ?r" for i
    using logical_bit [of ?n ps i] ps n that by simp
  have old: "mat_bit m i = mat_bit ?m (ps ! i)" if "i < ?r" for i
    using logical_bit [OF ps(3,2) that] .
  have "mat_bit ?n i j = eliminate p c (mat_bit m) i j" for i j
  proof (cases "i < ?r")
    case True
    then have i: "ps ! i < ?r" "ps ! i = ?q \<longleftrightarrow> i = p"
      using ps len assms(2) nth_mem [of i ps] by (auto simp: nth_eq_iff_index_eq)
    have "mat_bit ?n i j = tail_eliminated ?s ?q c ({..<?r} - {?q}) (mat_bit ?m) (ps ! i) j"
      using q unfolding bits [OF True] m2(5) m1(5) by (auto simp: tail_eliminated_def)
    also have "\<dots> = eliminate p c (mat_bit m) i j"
    proof -
      have "\<not> ?s * 512 \<le> j \<Longrightarrow> \<not> mat_bit m p j"
        using assms(4) [of j] by (metis div_times_less_eq_dividend leD le_less_linear less_le_trans)
      with i True assms(2) show ?thesis by (auto simp: tail_eliminated_def eliminate_def old)
    qed
    finally show ?thesis .
  next
    case False
    with assms(2) n(2) show ?thesis by (auto simp: mat_bit_def eliminate_def)
  qed
  then show ?thesis using run ok n by (auto simp: same_shape_def fun_eq_iff)
qed

section \<open>Clearing row by row, with transforms\<close>

text \<open>What the driver maintains of the matrix, its transform and the transpose of the inverse:
  shapes, cleanliness, \<open>matrix = T * original\<close>, and that the transforms are mutually inverse.\<close>

definition triple_ok :: "nat \<Rightarrow> nat \<Rightarrow> bmat \<Rightarrow> triple \<Rightarrow> bool" where
  "triple_ok r n A0 st \<longleftrightarrow> (case st of (m, t, u) \<Rightarrow>
     mat_ok m \<and> row_count m = r \<and> mat_cols m = n \<and> mat_ok t \<and> row_count t = r \<and> mat_cols t = r \<and>
     mat_ok u \<and> row_count u = r \<and> mat_cols u = r \<and> mat_clean t \<and> mat_clean u \<and>
     mat_bit m = mmul r (mat_bit t) A0 \<and> mutual_inverse r (mat_bit t) (mat_bit u))"

lemma clean_row_add: "mat_clean m \<Longrightarrow> mat_bit n = row_add t f (mat_bit m) \<Longrightarrow> mat_cols n = mat_cols m \<Longrightarrow> mat_clean n"
  by (auto simp: mat_clean_def row_add_def split: if_splits)

lemma clean_row_swap: "mat_clean m \<Longrightarrow> mat_bit n = row_swap a b (mat_bit m) \<Longrightarrow> mat_cols n = mat_cols m \<Longrightarrow> mat_clean n"
  by (auto simp: mat_clean_def row_swap_def)

lemma triple_identity:
  assumes "mat_ok m" "mat_identity (row_count m) = Some t"
  shows "triple_ok (row_count m) (mat_cols m) (mat_bit m) (m, t, t)"
proof -
  have t: "mat_ok t" "row_count t = row_count m" "mat_cols t = row_count m"
      "mat_bit t = (\<lambda>i j. i < row_count m \<and> i = j)"
    using mat_identity_run [of "row_count m"] assms(2) by auto
  have "mat_bit m i j = (i < row_count m \<and> mat_bit m i j)" for i j by (simp add: mat_bit_def)
  then have "mat_bit m = mmul (row_count m) (mat_bit t) (mat_bit m)"
    by (simp add: mmul_def t(4) xsum_deltas xsum_and conj_assoc fun_eq_iff)
  moreover have "mutual_inverse (row_count m) (mat_bit t) (mat_bit t)"
    by (auto simp: mutual_inverse_def mmul_def mtrans_def t(4) xsum_deltas conj_assoc xsum_and)
  moreover have "mat_clean t" using t by (auto simp: mat_clean_def)
  ultimately show ?thesis using assms(1) t by (simp add: triple_ok_def)
qed

lemma triple_row_add:
  assumes "triple_ok r n A0 (m, t, u)" "i < r" "p < r" "i \<noteq> p"
  shows "\<exists>m' t' u'. mat_add_into_row i p m = Some m' \<and> mat_add_into_row i p t = Some t' \<and>
    mat_add_into_row p i u = Some u' \<and> triple_ok r n A0 (m', t', u') \<and> mat_bit m' = row_add i p (mat_bit m)"
proof -
  note ok = assms(1)[unfolded triple_ok_def prod.case]
  from ok have shapes: "mat_ok m" "mat_ok t" "mat_ok u" "row_count m = r" "row_count t = r" "row_count u = r" by auto
  obtain m' where m': "mat_add_into_row i p m = Some m'" "same_shape m' m" "mat_bit m' = row_add i p (mat_bit m)"
    using mat_add_into_row_run [OF shapes(1), of i p] shapes assms by auto
  obtain t' where t': "mat_add_into_row i p t = Some t'" "same_shape t' t" "mat_bit t' = row_add i p (mat_bit t)"
    using mat_add_into_row_run [OF shapes(2), of i p] shapes assms by auto
  obtain u' where u': "mat_add_into_row p i u = Some u'" "same_shape u' u" "mat_bit u' = row_add p i (mat_bit u)"
    using mat_add_into_row_run [OF shapes(3), of p i] shapes assms by auto
  have "mutual_inverse r (mat_bit t') (mat_bit u')"
    unfolding t'(3) u'(3) using ok assms by (intro mutual_inverse_add) auto
  moreover have "mat_bit m' = mmul r (mat_bit t') A0" using ok by (simp add: m'(3) t'(3) mmul_row_add)
  ultimately have "triple_ok r n A0 (m', t', u')"
    using ok m'(2) t'(2) u'(2) clean_row_add [OF _ t'(3)] clean_row_add [OF _ u'(3)]
    by (simp add: triple_ok_def same_shape_def)
  with m' t' u' show ?thesis by auto
qed

lemma triple_row_swap:
  assumes "triple_ok r n A0 (m, t, u)" "a < r" "b < r"
  shows "\<exists>m' t' u'. mat_swap_rows a b m = Some m' \<and> mat_swap_rows a b t = Some t' \<and>
    mat_swap_rows a b u = Some u' \<and> triple_ok r n A0 (m', t', u') \<and> mat_bit m' = row_swap a b (mat_bit m)"
proof -
  note ok = assms(1)[unfolded triple_ok_def prod.case]
  from ok have shapes: "mat_ok m" "mat_ok t" "mat_ok u" "row_count m = r" "row_count t = r" "row_count u = r" by auto
  obtain m' where m': "mat_swap_rows a b m = Some m'" "same_shape m' m" "mat_bit m' = row_swap a b (mat_bit m)"
    using mat_swap_rows_run [OF shapes(1), of a b] shapes assms by auto
  obtain t' where t': "mat_swap_rows a b t = Some t'" "same_shape t' t" "mat_bit t' = row_swap a b (mat_bit t)"
    using mat_swap_rows_run [OF shapes(2), of a b] shapes assms by auto
  obtain u' where u': "mat_swap_rows a b u = Some u'" "same_shape u' u" "mat_bit u' = row_swap a b (mat_bit u)"
    using mat_swap_rows_run [OF shapes(3), of a b] shapes assms by auto
  have "mutual_inverse r (mat_bit t') (mat_bit u')"
    unfolding t'(3) u'(3) using ok assms by (intro mutual_inverse_swap) auto
  moreover have "mat_bit m' = mmul r (mat_bit t') A0" using ok by (simp add: m'(3) t'(3) mmul_row_swap)
  ultimately have "triple_ok r n A0 (m', t', u')"
    using ok m'(2) t'(2) u'(2) clean_row_swap [OF _ t'(3)] clean_row_swap [OF _ u'(3)]
    by (simp add: triple_ok_def same_shape_def)
  with m' t' u' show ?thesis by auto
qed

lemma xor_if_column_run:
  assumes "triple_ok r n A0 (m, t, u)" "i < r" "p < r" "i \<noteq> p" "c < n"
  shows "\<exists>st. xor_if_column_with_transforms c i p (m, t, u) = Some st \<and> triple_ok r n A0 st \<and>
    mat_bit (fst st) = tail_eliminated 0 p c {i} (mat_bit m)"
proof -
  have "mat_get m (i, c) = Some (mat_bit m i c)"
    using assms by (intro mat_get_bit) (auto simp: triple_ok_def)
  moreover have "mat_bit m i c \<Longrightarrow> row_add i p (mat_bit m) = tail_eliminated 0 p c {i} (mat_bit m)"
    by (auto simp: row_add_def tail_eliminated_def fun_eq_iff)
  moreover have "\<not> mat_bit m i c \<Longrightarrow> mat_bit m = tail_eliminated 0 p c {i} (mat_bit m)"
    by (auto simp: tail_eliminated_def fun_eq_iff)
  ultimately show ?thesis
    using triple_row_add [OF assms(1-4)] assms(1) by (auto simp: xor_if_column_with_transforms_def)
qed

lemma xor_if_columns_run:
  assumes "triple_ok r n A0 st" "distinct is" "set is \<subseteq> {..<r} - {p}" "p < r" "c < n"
  shows "\<exists>st'. ofold (\<lambda>i. xor_if_column_with_transforms c i p) is st = Some st' \<and> triple_ok r n A0 st' \<and>
    mat_bit (fst st') = tail_eliminated 0 p c (set is) (mat_bit (fst st))"
  using assms
proof (induction "is" arbitrary: st)
  case Nil
  then show ?case by (simp add: tail_eliminated_def)
next
  case (Cons i "is")
  obtain m t u where st: "st = (m, t, u)" by (cases st)
  obtain st1 where st1: "xor_if_column_with_transforms c i p st = Some st1" "triple_ok r n A0 st1"
      "mat_bit (fst st1) = tail_eliminated 0 p c {i} (mat_bit m)"
    using xor_if_column_run [of r n A0 m t u i p c] Cons.prems st by auto
  obtain st2 where "ofold (\<lambda>i. xor_if_column_with_transforms c i p) is st1 = Some st2" "triple_ok r n A0 st2"
      "mat_bit (fst st2) = tail_eliminated 0 p c (set is) (mat_bit (fst st1))"
    using Cons.IH [OF st1(2)] Cons.prems by auto
  moreover have "tail_eliminated 0 p c (set is) (mat_bit (fst st1)) = tail_eliminated 0 p c (set (i # is)) (mat_bit m)"
    using Cons.prems(2,3) by (auto simp: st1(3) tail_eliminated_def fun_eq_iff)
  ultimately show ?case using st1(1) st by auto
qed

lemma reduce_with_transforms_run:
  assumes "triple_ok r n A0 st" "p < r" "c < n"
  shows "\<exists>st'. reduce_with_transforms (p, c) st = Some st' \<and> triple_ok r n A0 st' \<and>
    mat_bit (fst st') = eliminate p c (mat_bit (fst st))"
proof -
  have sub: "set [0..<p] \<subseteq> {..<r} - {p}" "set [Suc p..<r] \<subseteq> {..<r} - {p}" using assms(2) by auto
  obtain st1 where st1: "ofold (\<lambda>i. xor_if_column_with_transforms c i p) [0..<p] st = Some st1" "triple_ok r n A0 st1"
      "mat_bit (fst st1) = tail_eliminated 0 p c {0..<p} (mat_bit (fst st))"
    using xor_if_columns_run [OF assms(1) distinct_upt sub(1) assms(2,3)] by (auto simp del: split_paired_Ex)
  obtain st2 where st2: "ofold (\<lambda>i. xor_if_column_with_transforms c i p) [Suc p..<r] st1 = Some st2" "triple_ok r n A0 st2"
      "mat_bit (fst st2) = tail_eliminated 0 p c {Suc p..<r} (mat_bit (fst st1))"
    using xor_if_columns_run [OF st1(2) distinct_upt sub(2) assms(2,3)] by (auto simp del: split_paired_Ex)
  have r: "row_count (fst st) = r" using assms(1) by (auto simp: triple_ok_def split: prod.splits)
  then have out: "\<not> mat_bit (fst st) i j" if "r \<le> i" for i j using that by (simp add: mat_bit_def)
  have "mat_bit (fst st2) i j = eliminate p c (mat_bit (fst st)) i j" for i j
    using out [of i] assms(2) by (auto simp: st2(3) st1(3) tail_eliminated_def eliminate_def not_less)
  then show ?thesis using st1(1) st2 r by (auto simp: reduce_with_transforms_def fun_eq_iff)
qed

section \<open>The two drivers compute the reduced row echelon form\<close>

text \<open>The state of the search between two rounds: reduced up to the pivot's column, and the pivot
  is a set bit in a row not yet used, unless the columns or the rows are exhausted.\<close>

definition search_ok :: "nat \<Rightarrow> nat \<Rightarrow> nat \<Rightarrow> bmat \<Rightarrow> nat \<times> nat \<Rightarrow> nat list \<Rightarrow> bool" where
  "search_ok r n k A pivot profile \<longleftrightarrow> rref_upto r A profile (snd pivot) \<and> snd pivot \<le> n \<and>
     (snd pivot < n \<longrightarrow> length profile = k \<and>
       (k < r \<longrightarrow> k \<le> fst pivot \<and> fst pivot < r \<and> A (fst pivot) (snd pivot)))"

lemma search_start:
  assumes "mat_ok m"
  shows "\<exists>p. pivot_of m (0, 0) = Some p \<and> search_ok (row_count m) (mat_cols m) 0 (mat_bit m) p []"
proof (cases "0 < row_count m \<and> 0 < mat_cols m")
  case True
  then obtain p where "pivot_of m (0, 0) = Some p" "is_pivot (row_count m) (mat_cols m) (mat_bit m) 0 0 p"
    using pivot_of_run [OF assms, of 0 0] by auto
  then show ?thesis by (auto simp: search_ok_def is_pivot_def rref_upto_def)
next
  case False
  then have "pivot_of m (0, 0) = Some (0, 0)" by (auto simp: pivot_of_def column_count_def)
  with False show ?thesis by (auto simp: search_ok_def rref_upto_def)
qed

lemma search_next:
  assumes "search_ok r n k A p profile" "k < r" "snd p < n"
    and "mat_ok m" "row_count m = r" "mat_cols m = n"
    and "mat_bit m = eliminate k (snd p) (row_swap (fst p) k A)"
  shows "\<exists>p'. pivot_of m (k + 1, snd p + 1) = Some p' \<and> search_ok r n (Suc k) (mat_bit m) p' (profile @ [snd p])"
proof -
  have k: "length profile = k" "k \<le> fst p" "fst p < r" "A (fst p) (snd p)" "rref_upto r A profile (snd p)"
    using assms(1-3) by (auto simp: search_ok_def)
  then have low: "\<not> A i j" if "length profile \<le> i" "i < r" "j < snd p" for i j
    using that by (simp add: rref_upto_def)
  have step: "rref_upto r (mat_bit m) (profile @ [snd p]) (Suc (snd p))"
    unfolding assms(7) using rref_upto_step [OF k(5), of "fst p" "snd p"] k low by simp
  show ?thesis
  proof (cases "Suc k < r \<and> Suc (snd p) < n")
    case True
    then obtain p' where p': "pivot_of m (Suc k, Suc (snd p)) = Some p'"
        "is_pivot r n (mat_bit m) (Suc k) (Suc (snd p)) p'"
      using pivot_of_run [OF assms(4), of "Suc k" "Suc (snd p)"] assms(5,6) by auto
    have "\<not> mat_bit m i j" if "length (profile @ [snd p]) \<le> i" "i < r" "j < snd p'" for i j
      using that p'(2) step k(1) by (cases "j < Suc (snd p)") (auto simp: rref_upto_def is_pivot_def)
    then have "rref_upto r (mat_bit m) (profile @ [snd p]) (snd p')"
      using rref_upto_skip [OF step, of "snd p'"] p'(2) by (simp add: is_pivot_def)
    with p' k(1) show ?thesis by (auto simp: search_ok_def is_pivot_def)
  next
    case False
    then have "pivot_of m (k + 1, snd p + 1) = Some (k + 1, snd p + 1)"
      using assms(5,6) by (auto simp: pivot_of_def column_count_def)
    with step assms(3) k(1) False show ?thesis by (auto simp: search_ok_def)
  qed
qed

lemma search_end: "search_ok r n r A p profile \<Longrightarrow> rref r n A profile"
  by (cases "snd p = n") (auto simp: search_ok_def intro: rref_upto_skip)

text \<open>One round of both drivers.\<close>

definition in_step :: "nat \<Rightarrow> nat \<Rightarrow> bmat \<Rightarrow> nat \<Rightarrow> aligned_bitmatrix \<times> (nat \<times> nat) \<times> nat list \<Rightarrow>
    triple \<times> (nat \<times> nat) \<times> nat list \<Rightarrow> bool" where
  "in_step r n A0 k s s' \<longleftrightarrow> snd s' = snd s \<and> triple_ok r n A0 (fst s') \<and>
     mat_ok (fst s) \<and> row_count (fst s) = r \<and> mat_cols (fst s) = n \<and> mat_bit (fst (fst s')) = mat_bit (fst s) \<and>
     search_ok r n k (mat_bit (fst s)) (fst (snd s)) (snd (snd s))"

lemma round_run:
  assumes "in_step r n A0 k s s'" "k < r"
  shows "\<exists>v v'. echelonize_step k s = Some v \<and> echelon_step k s' = Some v' \<and> in_step r n A0 (Suc k) v v'"
proof -
  obtain m p pr M t u where s: "s = (m, p, pr)" "s' = ((M, t, u), p, pr)"
    using assms(1) by (cases s; cases s') (auto simp: in_step_def)
  have ok: "triple_ok r n A0 (M, t, u)" "mat_ok m" "row_count m = r" "mat_cols m = n" "mat_bit M = mat_bit m"
      "search_ok r n k (mat_bit m) p pr"
    using assms(1) s by (auto simp: in_step_def)
  then have M: "mat_ok M" "row_count M = r" "mat_cols M = n" by (auto simp: triple_ok_def)
  show ?thesis
  proof (cases "n \<le> snd p")
    case True
    with s ok M assms(1) show ?thesis
      by (auto simp: echelonize_step_def echelon_step_def column_count_def in_step_def search_ok_def)
  next
    case False
    have p: "k \<le> fst p" "fst p < r" "\<And>j. j < snd p \<Longrightarrow> \<not> mat_bit m (fst p) j"
      using ok(6) False assms(2) by (auto simp: search_ok_def rref_upto_def)
    obtain m1 where m1: "mat_swap_rows (fst p) k m = Some m1" "same_shape m1 m" "mat_bit m1 = row_swap (fst p) k (mat_bit m)"
      using mat_swap_rows_run [OF ok(2), of "fst p" k] ok p assms(2) by auto
    obtain M1 t1 u1 where M1: "mat_swap_rows (fst p) k M = Some M1" "mat_swap_rows (fst p) k t = Some t1"
        "mat_swap_rows (fst p) k u = Some u1" "triple_ok r n A0 (M1, t1, u1)" "mat_bit M1 = mat_bit m1"
      using triple_row_swap [OF ok(1), of "fst p" k] p assms(2) by (auto simp: ok(5) m1(3))
    have "\<not> mat_bit m1 k j" if "j < snd p" for j
      using p(3) [OF that] by (auto simp: m1(3) row_swap_def swap_index_def)
    then obtain m2 where m2: "reduce (k, snd p) m1 = Some m2" "same_shape m2 m1"
        "mat_bit m2 = eliminate k (snd p) (row_swap (fst p) k (mat_bit m))"
      using reduce_run [of m1 k "snd p"] m1(2) ok(3,4) assms(2) False
      by (auto simp: same_shape_def m1(3))
    obtain M2 t2 u2 where M2: "reduce_with_transforms (k, snd p) (M1, t1, u1) = Some (M2, t2, u2)"
        "triple_ok r n A0 (M2, t2, u2)" "mat_bit M2 = mat_bit m2"
      using reduce_with_transforms_run [OF M1(4), of k "snd p"] assms(2) False
      by (auto simp: M1(5) m1(3) m2(3))
    have sh: "mat_ok m2" "row_count m2 = r" "mat_cols m2 = n" "mat_ok M2" "row_count M2 = r" "mat_cols M2 = n"
      using m1(2) m2(2) M2(2) ok by (auto simp: same_shape_def triple_ok_def)
    obtain p' where p': "pivot_of m2 (k + 1, snd p + 1) = Some p'"
        "search_ok r n (Suc k) (mat_bit m2) p' (pr @ [snd p])"
      using search_next [OF ok(6) assms(2) _ sh(1-3) m2(3)] False by auto
    have "pivot_of M2 (k + 1, snd p + 1) = Some p'"
      using pivot_of_cong [OF sh(1,4)] sh M2(3) p'(1) by simp
    with p' s m1(1) m2(1) M1(1-3) M2 sh False M ok(4) show ?thesis
      by (auto simp: echelonize_step_def echelon_step_def column_count_def in_step_def)
  qed
qed

text \<open>Both drivers return; they agree on the matrix and the pivots, the result is in reduced row
  echelon form, and the transforms relate it to the input.\<close>

lemma echelon_run:
  assumes "mat_ok m"
  shows "\<exists>m' e. echelonize m = Some (m', ef_pivots e) \<and> echelon_form_new m = Some e \<and> same_shape m' m \<and>
    mat_bit (ef_matrix e) = mat_bit m' \<and> rref (row_count m) (mat_cols m) (mat_bit m') (ef_pivots e) \<and>
    triple_ok (row_count m) (mat_cols m) (mat_bit m) (ef_matrix e, ef_transform e, ef_transform_inv_t e)"
proof -
  obtain t where t: "mat_identity (row_count m) = Some t" using mat_identity_run by blast
  obtain p where p: "pivot_of m (0, 0) = Some p" "search_ok (row_count m) (mat_cols m) 0 (mat_bit m) p []"
    using search_start [OF assms] by auto
  let ?R = "in_step (row_count m) (mat_cols m) (mat_bit m)"
  have "?R 0 (m, p, []) ((m, t, t), p, [])"
    using triple_identity [OF assms t] p(2) assms by (simp add: in_step_def)
  then have "\<exists>s s'. ofold echelonize_step [0..<row_count m] (m, p, []) = Some s \<and>
      ofold echelon_step [0..<row_count m] ((m, t, t), p, []) = Some s' \<and> ?R (row_count m) s s'"
    by (rule ofold_upt_inv2 [where P = ?R]) (rule round_run)
  then obtain s s' where s: "ofold echelonize_step [0..<row_count m] (m, p, []) = Some s"
      "ofold echelon_step [0..<row_count m] ((m, t, t), p, []) = Some s'" "?R (row_count m) s s'"
    by blast
  obtain m' p' pr M T U where ss: "s = (m', p', pr)" "s' = ((M, T, U), p', pr)"
    using s(3) by (cases s; cases s') (auto simp: in_step_def)
  let ?e = "\<lparr> ef_matrix = M, ef_transform = T, ef_transform_inv_t = U, ef_pivots = pr \<rparr>"
  have "echelonize m = Some (m', pr)" "echelon_form_new m = Some ?e"
    using s(1,2) p(1) t ss by (simp_all add: echelonize_def echelon_form_new_def)
  moreover have "rref (row_count m) (mat_cols m) (mat_bit m') pr"
    using s(3) ss by (auto simp: in_step_def intro: search_end)
  ultimately show ?thesis using s(3) ss by (intro exI [of _ m'] exI [of _ ?e]) (auto simp: in_step_def same_shape_def)
qed

end
