(* ===== verification/Rref_Spaces.thy ===== *)
theory Rref_Spaces
  imports Gf2
begin

text \<open>
  What a matrix in reduced row echelon form says about its row space, its kernel and its rank,
  and how these carry over to a matrix it was obtained from by invertible row operations.
\<close>

section \<open>Invertible row operations\<close>

lemma mutual_inverse_cancel:
  assumes "mutual_inverse r T U" "\<And>i. i < r \<Longrightarrow> mvec r T v i = mvec r T w i" "i < r"
  shows "v i = w i"
proof -
  have id: "mvec r (mtrans U) (mvec r T z) i = z i" for z
  proof -
    have "mvec r (mtrans U) (mvec r T z) i = mvec r (mmul r (mtrans U) T) z i" by (rule mvec_mmul [symmetric])
    also have "\<dots> = xsum r (\<lambda>k. i = k \<and> z k)"
      unfolding mvec_def by (rule xsum_cong) (use assms(1,3) in \<open>auto simp: mutual_inverse_def\<close>)
    finally show ?thesis using assms(3) by (simp add: xsum_deltas)
  qed
  have "mvec r (mtrans U) (mvec r T v) i = mvec r (mtrans U) (mvec r T w) i"
    unfolding mvec_def [of r "mtrans U"] by (rule xsum_cong) (use assms(2) in auto)
  then show ?thesis by (simp only: id)
qed

lemma mutual_inverse_left:
  assumes "mutual_inverse r T U" "i < r"
  shows "mmul r (mtrans U) (mmul r T A) i j = A i j"
proof -
  have "mmul r (mtrans U) (mmul r T A) i j = mmul r (mmul r (mtrans U) T) A i j" by (rule mmul_assoc [symmetric])
  also have "\<dots> = xsum r (\<lambda>k. i = k \<and> A k j)"
    unfolding mmul_def [of r "mmul r (mtrans U) T"] by (rule xsum_cong) (use assms in \<open>auto simp: mutual_inverse_def\<close>)
  finally show ?thesis using assms(2) by (simp add: xsum_deltas)
qed

lemma comb_cong: "(\<And>i. i < r \<Longrightarrow> A i j = B i j) \<Longrightarrow> comb r c A j = comb r c B j"
  unfolding comb_def by (rule xsum_cong) auto

lemma comb_unmix:
  assumes "mutual_inverse r T U"
  shows "comb r c A j = comb r (comb r c (mtrans U)) (mmul r T A) j"
  unfolding comb_mmul [symmetric] by (rule comb_cong) (simp add: mutual_inverse_left [OF assms])

lemma row_space_mmul:
  assumes "mutual_inverse r T U"
  shows "in_row_space r n (mmul r T A) v = in_row_space r n A v"
  unfolding in_row_space_def comb_mmul using comb_unmix [OF assms, of _ A] by (metis comb_mmul)

lemma kernel_mmul:
  assumes "mutual_inverse r T U"
  shows "in_kernel r n (mmul r T A) v = in_kernel r n A v"
proof -
  have "(\<forall>i < r. \<not> mvec r T (mvec n A v) i) = (\<forall>i < r. \<not> mvec n A v i)"
  proof
    assume z: "\<forall>i < r. \<not> mvec r T (mvec n A v) i"
    have "mvec n A v i = False" if "i < r" for i
      by (rule mutual_inverse_cancel [OF assms _ that]) (use z in \<open>simp add: mvec_def [of r T "\<lambda>_. False"]\<close>)
    then show "\<forall>i < r. \<not> mvec n A v i" by simp
  next
    assume "\<forall>i < r. \<not> mvec n A v i"
    then show "\<forall>i < r. \<not> mvec r T (mvec n A v) i" by (auto simp: mvec_def [of r T] intro: xsum_zero)
  qed
  then show ?thesis by (simp add: in_kernel_def mvec_mmul)
qed

section \<open>Pivot columns\<close>

text \<open>A pivot column of a reduced matrix is a unit vector: adding it clears exactly its own row.\<close>

lemma rref_pivot:
  assumes "rref r n A piv" "k < length piv"
  shows "piv ! k < n" "k < r" "i < r \<Longrightarrow> A i (piv ! k) = (i = k)"
  using assms nth_mem [OF assms(2)] by (auto simp: rref_upto_def)

lemma rref_mvec:
  assumes "rref r n A piv" "i < r" "\<And>j. x j = (\<exists>k < length piv. j = piv ! k \<and> t k)"
  shows "mvec n A x i = (i < length piv \<and> t i)"
proof (cases "i < length piv")
  case True
  note p = rref_pivot [OF assms(1) True]
  have "xsum n (\<lambda>j. A i j \<and> x j) = xsum n (\<lambda>j. j = piv ! i \<and> t i)"
    by (rule xsum_cong) (use True p(3) rref_pivot(3) [OF assms(1)] assms(2,3) in auto)
  with p(1) True show ?thesis by (simp add: mvec_def xsum_deltas)
next
  case False
  have "xsum n (\<lambda>j. A i j \<and> x j) = xsum n (\<lambda>j. False)"
    by (rule xsum_cong) (use assms(1,2) False in \<open>auto simp: rref_upto_def\<close>)
  with False show ?thesis by (simp add: mvec_def)
qed

lemma rref_mvec_low: "rref r n A piv \<Longrightarrow> i < r \<Longrightarrow> length piv \<le> i \<Longrightarrow> \<not> mvec n A x i"
  by (auto simp: mvec_def rref_upto_def intro!: xsum_zero)

text \<open>Pivot columns and the others split every sum over the columns.\<close>

definition others :: "nat \<Rightarrow> nat list \<Rightarrow> nat list" where
  "others n piv = filter (\<lambda>j. j \<notin> set piv) [0..<n]"

lemma xsum_filter: "xsum n (\<lambda>j. P j \<and> f j) = xsum (length (filter P [0..<n])) (\<lambda>k. f (filter P [0..<n] ! k))"
  by (induction n) (auto simp: nth_append intro!: xsum_cong)

lemma pivots_filter:
  assumes "rref r n A piv"
  shows "filter (\<lambda>j. j \<in> set piv) [0..<n] = piv"
proof (rule sorted_distinct_set_unique)
  show "sorted piv" "distinct piv" using assms by (auto simp: rref_upto_def strict_sorted_iff)
  show "set (filter (\<lambda>j. j \<in> set piv) [0..<n]) = set piv" using assms by (auto simp: rref_upto_def)
qed (auto intro: sorted_wrt_filter)

lemma xsum_pivots_others:
  assumes "rref r n A piv"
  shows "xsum n f = (xsum (length piv) (\<lambda>k. f (piv ! k)) \<noteq> xsum (length (others n piv)) (\<lambda>k. f (others n piv ! k)))"
proof -
  have "f = (\<lambda>j. (j \<in> set piv \<and> f j) \<noteq> (j \<notin> set piv \<and> f j))" by auto
  then have "xsum n f = xsum n (\<lambda>j. (j \<in> set piv \<and> f j) \<noteq> (j \<notin> set piv \<and> f j))" by (rule arg_cong)
  then have "xsum n f = (xsum n (\<lambda>j. j \<in> set piv \<and> f j) \<noteq> xsum n (\<lambda>j. j \<notin> set piv \<and> f j))"
    by (simp only: xsum_xor)
  then show ?thesis unfolding xsum_filter pivots_filter [OF assms] others_def .
qed

lemma others_length:
  assumes "rref r n A piv"
  shows "length (others n piv) = n - length piv" "length piv \<le> n"
proof -
  have "length (filter (\<lambda>j. j \<in> set piv) [0..<n]) + length (others n piv) = n"
    using sum_length_filter_compl [of "\<lambda>j. j \<in> set piv" "[0..<n]"] by (simp add: others_def)
  then show "length (others n piv) = n - length piv" "length piv \<le> n"
    unfolding pivots_filter [OF assms] by simp_all
qed

lemma others_nth: "k < length (others n piv) \<Longrightarrow> others n piv ! k < n \<and> others n piv ! k \<notin> set piv"
  using nth_mem [of k "others n piv"] by (auto simp: others_def)

lemma others_distinct: "distinct (others n piv)"
  by (simp add: others_def)

lemma column_cases:
  assumes "j < n"
  obtains k where "k < length piv" "j = piv ! k" | k where "k < length (others n piv)" "j = others n piv ! k"
proof (cases "j \<in> set piv")
  case True
  then show ?thesis using that(1) by (auto simp: in_set_conv_nth)
next
  case False
  with assms have "j \<in> set (others n piv)" by (simp add: others_def)
  then show ?thesis using that(2) by (auto simp: in_set_conv_nth)
qed

section \<open>Row space and kernel\<close>

text \<open>A combination of the rows of a reduced matrix shows its coefficients at the pivots.\<close>

lemma rref_comb_pivot:
  assumes "rref r n A piv" "k < length piv"
  shows "comb r c A (piv ! k) = c k"
proof -
  have "xsum r (\<lambda>i. c i \<and> A i (piv ! k)) = xsum r (\<lambda>i. c i \<and> i = k)"
    by (rule xsum_cong) (use rref_pivot(3) [OF assms] in auto)
  then show ?thesis using rref_pivot(2) [OF assms] by (simp add: comb_def xsum_deltas)
qed

lemma rref_comb_low:
  assumes "rref r n A piv" "j < n"
  shows "comb r c A j = comb (length piv) c A j"
  unfolding comb_def using assms by (intro xsum_extend) (auto simp: rref_upto_def)

lemma rref_row_space:
  assumes "rref r n A piv"
  shows "in_row_space r n A v = (\<forall>j < n. v j = comb (length piv) (\<lambda>k. v (piv ! k)) A j)"
proof
  assume "in_row_space r n A v"
  then obtain c where c: "\<And>j. j < n \<Longrightarrow> v j = comb r c A j" by (auto simp: in_row_space_def)
  have "c k = v (piv ! k)" if "k < length piv" for k
    using c [OF rref_pivot(1) [OF assms that]] rref_comb_pivot [OF assms that] by simp
  then have "comb (length piv) c A j = comb (length piv) (\<lambda>k. v (piv ! k)) A j" for j
    unfolding comb_def by (intro xsum_cong) auto
  then show "\<forall>j < n. v j = comb (length piv) (\<lambda>k. v (piv ! k)) A j"
    using c rref_comb_low [OF assms] by simp
next
  assume "\<forall>j < n. v j = comb (length piv) (\<lambda>k. v (piv ! k)) A j"
  then have "\<forall>j < n. v j = comb r (\<lambda>k. v (piv ! k)) A j" using rref_comb_low [OF assms] by simp
  then show "in_row_space r n A v" unfolding in_row_space_def by blast
qed

text \<open>The row space, as a set of vectors that are zero from \<open>n\<close> on, has \<open>2 ^ rank\<close> elements.\<close>

definition row_space :: "nat \<Rightarrow> nat \<Rightarrow> bmat \<Rightarrow> bvec set" where
  "row_space r n A = {v. in_row_space r n A v \<and> (\<forall>j \<ge> n. \<not> v j)}"

lemma rref_row_space_card:
  assumes "rref r n A piv"
  shows "card (row_space r n A) = 2 ^ length piv"
proof -
  let ?f = "\<lambda>C j. j < n \<and> comb (length piv) (\<lambda>k. k \<in> C) A j"
  have piv: "comb (length piv) c A (piv ! k) = c k" "piv ! k < n" if "k < length piv" for c k
    using rref_comb_low [OF assms] rref_comb_pivot [OF assms that] rref_pivot(1) [OF assms that] by simp_all
  have "bij_betw ?f (Pow {..<length piv}) (row_space r n A)"
  proof (rule bij_betwI')
    fix C D assume "C \<in> Pow {..<length piv}" "D \<in> Pow {..<length piv}"
    then show "(?f C = ?f D) = (C = D)"
      using piv by (auto simp: fun_eq_iff set_eq_iff) (metis lessThan_iff subsetD)+
  next
    fix C assume "C \<in> Pow {..<length piv}"
    have "?f C j = comb (length piv) (\<lambda>k. ?f C (piv ! k)) A j" if "j < n" for j
      using that piv by (auto simp: comb_def intro!: xsum_cong)
    then show "?f C \<in> row_space r n A" by (simp add: row_space_def rref_row_space [OF assms])
  next
    fix v assume v: "v \<in> row_space r n A"
    let ?C = "{k. k < length piv \<and> v (piv ! k)}"
    have "v j = ?f ?C j" for j
    proof (cases "j < n")
      case True
      with v have "v j = comb (length piv) (\<lambda>k. v (piv ! k)) A j"
        by (auto simp: row_space_def rref_row_space [OF assms])
      also have "\<dots> = comb (length piv) (\<lambda>k. k \<in> ?C) A j" unfolding comb_def by (rule xsum_cong) auto
      finally show ?thesis using True by simp
    next
      case False
      with v show ?thesis by (simp add: row_space_def)
    qed
    then have "v = ?f ?C" by blast
    moreover have "?C \<in> Pow {..<length piv}" by auto
    ultimately show "\<exists>C \<in> Pow {..<length piv}. v = ?f C" by blast
  qed
  then have "card (Pow {..<length piv}) = card (row_space r n A)" by (rule bij_betw_same_card)
  then show ?thesis by (simp add: card_Pow)
qed

text \<open>A vector is in the kernel iff its pivot entries are determined by the other ones.\<close>

lemma rref_kernel:
  assumes "rref r n A piv"
  shows "in_kernel r n A v \<longleftrightarrow> (\<forall>i < length piv.
    v (piv ! i) = xsum (length (others n piv)) (\<lambda>k. A i (others n piv ! k) \<and> v (others n piv ! k)))"
proof -
  have row: "mvec n A v i = (v (piv ! i) \<noteq> xsum (length (others n piv)) (\<lambda>k. A i (others n piv ! k) \<and> v (others n piv ! k)))"
    if i: "i < length piv" for i
  proof -
    have ir: "i < r" using rref_pivot(2) [OF assms i] .
    have "xsum (length piv) (\<lambda>k. A i (piv ! k) \<and> v (piv ! k)) = xsum (length piv) (\<lambda>k. k = i \<and> v (piv ! k))"
      by (rule xsum_cong) (use rref_pivot(3) [OF assms _ ir] in auto)
    then show ?thesis
      unfolding mvec_def xsum_pivots_others [OF assms, of "\<lambda>k. A i k \<and> v k"] using i by (simp add: xsum_deltas)
  qed
  have "in_kernel r n A v \<longleftrightarrow> (\<forall>i < length piv. \<not> mvec n A v i)"
    using rref_mvec_low [OF assms] rref_pivot(2) [OF assms] unfolding in_kernel_def by (meson not_less)
  with row show ?thesis by simp
qed

section \<open>Uniqueness\<close>

text \<open>The first nonzero entry of a vector of the row space is in a pivot column.\<close>

lemma rref_lead:
  assumes "rref r n A piv" "in_row_space r n A v" "j < n" "v j" "\<And>i. i < j \<Longrightarrow> \<not> v i"
  shows "j \<in> set piv"
proof -
  have "\<forall>i < n. v i = comb (length piv) (\<lambda>k. v (piv ! k)) A i"
    using assms(2) by (rule iffD1 [OF rref_row_space [OF assms(1)]])
  then have "comb (length piv) (\<lambda>k. v (piv ! k)) A j" using assms(3,4) by simp
  then obtain k where k: "k < length piv" "v (piv ! k)" "A k j"
    using xsum_zero [of "length piv" "\<lambda>k. v (piv ! k) \<and> A k j"] by (auto simp: comb_def)
  have "j \<le> piv ! k" using assms(5) k(2) by (metis not_less)
  moreover have "piv ! k \<le> j" using assms(1) k(1,3) unfolding rref_upto_def by (metis not_less)
  ultimately show ?thesis using k(1) by (metis le_antisym nth_mem)
qed

lemma rref_row_in_space: "rref r n A piv \<Longrightarrow> i < r \<Longrightarrow> in_row_space r n A (A i)"
  unfolding in_row_space_def comb_def by (intro exI [of _ "\<lambda>k. k = i"]) (simp add: xsum_deltas)

text \<open>The reduced form is determined by the row space.\<close>

lemma rref_unique:
  assumes "rref r n A piv" "rref s n B piv'" "\<And>v. in_row_space r n A v = in_row_space s n B v"
  shows "piv = piv'" "k < length piv \<Longrightarrow> j < n \<Longrightarrow> A k j = B k j"
proof -
  have sub: "set p \<subseteq> set q" if a: "rref r n A p" and b: "rref s n B q" and sp: "\<And>v. in_row_space r n A v = in_row_space s n B v"
    for r s A B p q
  proof
    fix c assume "c \<in> set p"
    then obtain k where k: "k < length p" "c = p ! k" by (auto simp: in_set_conv_nth)
    note pk = rref_pivot [OF a k(1)]
    have "in_row_space s n B (A k)" using rref_row_in_space [OF a pk(2)] sp by blast
    then show "c \<in> set q"
      by (rule rref_lead [OF b]) (use k pk a in \<open>auto simp: rref_upto_def\<close>)
  qed
  have "set piv = set piv'" using sub [OF assms] sub [OF assms(2,1)] assms(3) by blast
  moreover have "sorted piv" "sorted piv'" "distinct piv" "distinct piv'"
    using assms(1,2) by (auto simp: rref_upto_def strict_sorted_iff)
  ultimately show eq: "piv = piv'" using sorted_distinct_set_unique by blast
  assume k: "k < length piv" "j < n"
  note pk = rref_pivot [OF assms(1) k(1)]
  have sp: "in_row_space s n B (A k)" using rref_row_in_space [OF assms(1) pk(2)] assms(3) by blast
  have "A k j = comb (length piv) (\<lambda>l. A k (piv ! l)) B j"
    using iffD1 [OF rref_row_space [OF assms(2)] sp] k(2) unfolding eq by metis
  also have "\<dots> = comb (length piv) (\<lambda>l. k = l) B j"
    unfolding comb_def by (rule xsum_cong) (use rref_pivot(3) [OF assms(1)] pk(2) in auto)
  finally show "A k j = B k j" using k(1) by (simp add: comb_def xsum_deltas)
qed

lemma rref_same_rows:
  assumes "rref r n A piv" "rref s n B piv'" "length piv = length piv'" "\<And>k j. k < length piv \<Longrightarrow> j < n \<Longrightarrow> A k j = B k j"
  shows "in_row_space r n A v = in_row_space s n B v"
proof -
  have "comb r c A j = comb s c B j" if "j < n" for c j
    unfolding rref_comb_low [OF assms(1) that] rref_comb_low [OF assms(2) that]
    unfolding comb_def assms(3) by (rule xsum_cong) (use assms(3,4) that in auto)
  then show ?thesis unfolding in_row_space_def by auto
qed
end
