(* ===== verification/Linear_Systems.thy ===== *)
theory Linear_Systems
  imports Echelon Rref_Spaces
begin

text \<open>
  What \<open>matrix/aligned_bitmatrix.rs\<close> builds on the echelon form: the two solvers of \<open>EchelonForm\<close>,
  \<open>rank\<close>, \<open>kernel_basis_matrix\<close>, \<open>complement\<close> and \<open>complete_to_full_rank_row_basis\<close>.  An
  outer option is a panic of the code, an inner one its own \<open>Option\<close>.
\<close>

section \<open>Solving\<close>

definition solve_rref_step :: "aligned_bitmatrix \<Rightarrow> nat list \<Rightarrow> nat \<Rightarrow>
    bitblock list \<times> bitblock list \<Rightarrow> (bitblock list \<times> bitblock list) option" where
  "solve_rref_step m pivots row_index = (\<lambda>(residual_target, solution). do {
     b \<leftarrow> blocks_index residual_target row_index;
     if b then do {
       column_index \<leftarrow> nth_opt pivots row_index;
       matrix_column \<leftarrow> mat_column m column_index;
       bits \<leftarrow> column_bits (mat_blocks m) matrix_column;
       residual_target \<leftarrow> xor_bits_via_iter residual_target bits;
       solution \<leftarrow> blocks_assign_index column_index True solution;
       Some (residual_target, solution) }
     else Some (residual_target, solution) })"

definition solve_rref_system :: "aligned_bitmatrix \<Rightarrow> nat list \<Rightarrow> bitblock list \<Rightarrow> bitblock list option option" where
  "solve_rref_system m pivots target = do {
     (residual_target, solution) \<leftarrow>
       ofold (solve_rref_step m pivots) (rev [0..<length pivots]) (target, aligned_zeros (column_count m));
     Some (if blocks_is_zero residual_target then Some solution else None) }"

definition transpose_solve_rref_step :: "aligned_bitmatrix \<Rightarrow> nat list \<Rightarrow> nat \<Rightarrow>
    bitblock list \<times> bitblock list \<Rightarrow> (bitblock list \<times> bitblock list) option" where
  "transpose_solve_rref_step m pivots row_index = (\<lambda>(residual_target, solution). do {
     column_index \<leftarrow> nth_opt pivots row_index;
     b \<leftarrow> blocks_index residual_target column_index;
     if b then do {
       matrix_row \<leftarrow> mat_row m row_index;
       let residual_target = blocks_bitxor_assign residual_target matrix_row;
       solution \<leftarrow> blocks_assign_index row_index True solution;
       Some (residual_target, solution) }
     else Some (residual_target, solution) })"

definition transpose_solve_rref_system ::
  "aligned_bitmatrix \<Rightarrow> nat list \<Rightarrow> bitblock list \<Rightarrow> bitblock list option option" where
  "transpose_solve_rref_system m pivots target = do {
     (residual_target, solution) \<leftarrow>
       ofold (transpose_solve_rref_step m pivots) [0..<length pivots] (target, aligned_zeros (row_count m));
     Some (if blocks_is_zero residual_target then Some solution else None) }"

definition echelon_solve :: "echelon_form \<Rightarrow> bitblock list \<Rightarrow> bitblock list option option" where
  "echelon_solve e target = do {
     transformed_target \<leftarrow> mat_mul_vec (ef_transform e) target;
     solve_rref_system (ef_matrix e) (ef_pivots e) transformed_target }"

definition echelon_transpose_solve :: "echelon_form \<Rightarrow> bitblock list \<Rightarrow> bitblock list option option" where
  "echelon_transpose_solve e target = do {
     rref_solution \<leftarrow> transpose_solve_rref_system (ef_matrix e) (ef_pivots e) target;
     (case rref_solution of
        None \<Rightarrow> Some None
      | Some y \<Rightarrow> do { x \<leftarrow> mat_right_multiply y (ef_transform e); Some (Some x) }) }"

section \<open>Kernel and completion\<close>

definition index_complement :: "nat list \<Rightarrow> nat \<Rightarrow> nat list" where
  "index_complement v index_bound = filter (\<lambda>i. i \<notin> set v) [0..<index_bound]"

definition kernel_basis_matrix :: "aligned_bitmatrix \<Rightarrow> aligned_bitmatrix option" where
  "kernel_basis_matrix m = (let num_cols = column_count m in do {
     (rr, rank_profile) \<leftarrow> echelonize (mat_clone m);
     let rank_profile_complement = index_complement rank_profile num_cols;
     guard_opt (length rank_profile \<le> num_cols);
     let res_row_count = num_cols - length rank_profile;
     res \<leftarrow> ofold (\<lambda>index. ofold (\<lambda>row_pos res. do {
           b \<leftarrow> mat_get rr (index, rank_profile_complement ! row_pos);
           mat_set (row_pos, rank_profile ! index) b res })
         [0..<min res_row_count (length rank_profile_complement)])
       [0..<length rank_profile] (mat_zeros res_row_count num_cols);
     ofold (\<lambda>index. mat_set (index, rank_profile_complement ! index) True)
       [0..<length rank_profile_complement] res })"

definition complete_to_full_rank_row_basis :: "aligned_bitmatrix \<Rightarrow> aligned_bitmatrix option option" where
  "complete_to_full_rank_row_basis m = do {
     (rr, rank_profile) \<leftarrow> echelonize (mat_clone m);
     if length rank_profile \<noteq> row_count m then Some None
     else do {
       res \<leftarrow> ofold (\<lambda>row_index. mat_row_update row_index (\<lambda>to. do {
             row \<leftarrow> mat_row m row_index;
             Some (blocks_assign to row) }))
         [0..<row_count m] (mat_zeros (column_count m) (column_count m));
       let rank_profile_complement = index_complement rank_profile (column_count m);
       res \<leftarrow> ofold (\<lambda>index. mat_set (index + row_count m, rank_profile_complement ! index) True)
         [0..<length rank_profile_complement] res;
       Some (Some res) } }"

section \<open>Back-substitution\<close>

context bit_store begin

lemma negate_prefix:
  assumes "invar s" "n \<le> len s"
  shows "\<exists>t. ofold (\<lambda>k u. if h k then negate k u else Some u) [0..<n] s = Some t \<and> invar t \<and> len t = len s \<and>
    bits t = (\<lambda>i. bits s i \<noteq> (i < n \<and> h i))"
proof (rule ofold_upt_inv)
  show "invar s \<and> len s = len s \<and> bits s = (\<lambda>i. bits s i \<noteq> (i < 0 \<and> h i))" using assms(1) by simp
  fix k t
  assume k: "k < n" and t: "invar t \<and> len t = len s \<and> bits t = (\<lambda>i. bits s i \<noteq> (i < k \<and> h i))"
  then have "k < len t" using assms(2) by simp
  with negate [of t k] t show "\<exists>t'. (if h k then negate k t else Some t) = Some t' \<and> invar t' \<and> len t' = len s \<and>
      bits t' = (\<lambda>i. bits s i \<noteq> (i < Suc k \<and> h i))"
    by (cases "h k") (auto simp: fun_eq_iff less_Suc_eq)
qed

end

lemma xor_bits_via_iter_run:
  assumes "blocks_ok v" "length bs \<le> length v * 512"
  shows "\<exists>w. xor_bits_via_iter v bs = Some w \<and> blocks_ok w \<and> length w = length v \<and>
    blocks_bit w = (\<lambda>i. blocks_bit v i \<noteq> (i < length bs \<and> bs ! i))"
  using blocks.negate_prefix [OF assms, of "\<lambda>k. bs ! k"] assms(2) by (simp add: xor_bits_via_iter_def)

lemma solve_rref_step_run:
  assumes "mat_ok m" "rref (row_count m) (mat_cols m) (mat_bit m) piv" "k < length piv"
    and "blocks_ok res" "row_count m \<le> length res * 512" "blocks_ok sol" "length sol = rowstride m"
  shows "\<exists>res' sol'. solve_rref_step m piv k (res, sol) = Some (res', sol') \<and>
    blocks_ok res' \<and> length res' = length res \<and> blocks_ok sol' \<and> length sol' = length sol \<and>
    blocks_bit res' = (\<lambda>i. blocks_bit res i \<and> i \<noteq> k) \<and>
    blocks_bit sol' = (\<lambda>j. blocks_bit sol j \<or> (j = piv ! k \<and> blocks_bit res k))"
proof -
  note p = rref_pivot [OF assms(2,3)]
  have b: "blocks_index res k = Some (blocks_bit res k)"
    using blocks.idx [OF assms(4), of k] p(2) assms(5) by simp
  show ?thesis
  proof (cases "blocks_bit res k")
    case True
    let ?col = "map (\<lambda>i. mat_bit m i (piv ! k)) [0..<row_count m]"
    have col: "mat_column m (piv ! k) \<bind> column_bits (mat_blocks m) = Some ?col"
      using column_bits_run [OF assms(1) mat_column_run p(1)] by (simp add: mat_column_run)
    obtain res' where res': "xor_bits_via_iter res ?col = Some res'" "blocks_ok res'" "length res' = length res"
        "blocks_bit res' = (\<lambda>i. blocks_bit res i \<noteq> (i < length ?col \<and> ?col ! i))"
      using xor_bits_via_iter_run [OF assms(4), of ?col] assms(5) by auto
    have bits: "blocks_bit res' = (\<lambda>i. blocks_bit res i \<and> i \<noteq> k)"
      unfolding res'(4) using True p(2,3) by (auto simp: fun_eq_iff)
    obtain sol' where "blocks_assign_index (piv ! k) True sol = Some sol'" "blocks_ok sol'" "length sol' = length sol"
        "blocks_bit sol' = (blocks_bit sol)(piv ! k := True)"
      using blocks.assign [OF assms(6), of "piv ! k" True] p(1) assms(7) cols_in_stride [of m] by auto
    with True b col res'(1-3) bits show ?thesis
      by (auto simp: solve_rref_step_def nth_opt_def assms(3) bind_eq_Some_conv fun_eq_iff)
  next
    case False
    with b assms show ?thesis by (auto simp: solve_rref_step_def fun_eq_iff)
  qed
qed

lemma solve_rref_loop:
  assumes "mat_ok m" "rref (row_count m) (mat_cols m) (mat_bit m) piv" "set ks \<subseteq> {..<length piv}" "distinct ks"
    and "blocks_ok res" "row_count m \<le> length res * 512" "blocks_ok sol" "length sol = rowstride m"
  shows "\<exists>res' sol'. ofold (solve_rref_step m piv) ks (res, sol) = Some (res', sol') \<and>
    blocks_ok res' \<and> length res' = length res \<and> blocks_ok sol' \<and> length sol' = length sol \<and>
    blocks_bit res' = (\<lambda>i. blocks_bit res i \<and> i \<notin> set ks) \<and>
    blocks_bit sol' = (\<lambda>j. blocks_bit sol j \<or> (\<exists>k \<in> set ks. j = piv ! k \<and> blocks_bit res k))"
  using assms(3-)
proof (induction ks arbitrary: res sol)
  case Nil
  then show ?case by simp
next
  case (Cons k ks)
  obtain res1 sol1 where 1: "solve_rref_step m piv k (res, sol) = Some (res1, sol1)"
      "blocks_ok res1" "length res1 = length res" "blocks_ok sol1" "length sol1 = length sol"
      "blocks_bit res1 = (\<lambda>i. blocks_bit res i \<and> i \<noteq> k)"
      "blocks_bit sol1 = (\<lambda>j. blocks_bit sol j \<or> (j = piv ! k \<and> blocks_bit res k))"
    using solve_rref_step_run [OF assms(1,2), of k res sol] Cons.prems by auto
  obtain res2 sol2 where 2: "ofold (solve_rref_step m piv) ks (res1, sol1) = Some (res2, sol2)"
      "blocks_ok res2" "length res2 = length res1" "blocks_ok sol2" "length sol2 = length sol1"
      "blocks_bit res2 = (\<lambda>i. blocks_bit res1 i \<and> i \<notin> set ks)"
      "blocks_bit sol2 = (\<lambda>j. blocks_bit sol1 j \<or> (\<exists>k \<in> set ks. j = piv ! k \<and> blocks_bit res1 k))"
    using Cons.IH [of res1 sol1] Cons.prems 1 by auto
  from 2 show ?case using 1 Cons.prems(2) by (auto simp: fun_eq_iff)
qed

lemma solve_rref_run:
  assumes "mat_ok m" "rref (row_count m) (mat_cols m) (mat_bit m) piv" "blocks_ok target" "row_count m \<le> length target * 512"
  shows "\<exists>x. solve_rref_system m piv target = Some (if \<forall>i. blocks_bit target i \<longrightarrow> i < length piv then Some x else None) \<and>
    blocks_ok x \<and> length x = rowstride m \<and> blocks_bit x = (\<lambda>j. \<exists>k < length piv. j = piv ! k \<and> blocks_bit target k)"
proof -
  let ?z = "aligned_zeros (column_count m)"
  have z: "blocks_ok ?z" "length ?z = rowstride m" "blocks_bit ?z = (\<lambda>_. False)"
    by (simp_all add: aligned_zeros_bit rowstride_def rowstride_block_count column_count_def)
  have all: "set (rev [0..<length piv]) \<subseteq> {..<length piv}" "distinct (rev [0..<length piv])" by auto
  obtain res x where r: "ofold (solve_rref_step m piv) (rev [0..<length piv]) (target, ?z) = Some (res, x)"
      "blocks_ok res" "length res = length target" "blocks_ok x" "length x = rowstride m"
      "blocks_bit res = (\<lambda>i. blocks_bit target i \<and> i \<notin> set (rev [0..<length piv]))"
      "blocks_bit x = (\<lambda>j. blocks_bit ?z j \<or> (\<exists>k \<in> set (rev [0..<length piv]). j = piv ! k \<and> blocks_bit target k))"
    using solve_rref_loop [OF assms(1,2) all assms(3,4) z(1,2)] z(2) by auto
  have zero: "blocks_is_zero res = (\<forall>i. blocks_bit target i \<longrightarrow> i < length piv)"
    unfolding blocks.is_zero [OF r(2)] r(3,6) using blocks.bits_bound [OF assms(3)] by (simp add: not_less) (metis linorder_not_less)
  have "blocks_bit x = (\<lambda>j. \<exists>k < length piv. j = piv ! k \<and> blocks_bit target k)"
    unfolding r(7) z(3) by (simp add: Bex_def)
  moreover have "solve_rref_system m piv target = Some (if blocks_is_zero res then Some x else None)"
    by (simp add: solve_rref_system_def r(1))
  ultimately show ?thesis using r(4,5) unfolding zero by blast
qed

text \<open>C1. \<open>EchelonForm::solve\<close> is correct and complete: for every matrix the echelon form is computed,
  and for a right-hand side with room for one bit per row (at least \<open>row_count\<close> bits of capacity, however
  long) \<open>solve\<close> returns; a vector it returns satisfies \<open>A x = b\<close>, and when it returns none there is no
  solution.  On a right-hand side with less room it panics.\<close>

theorem solve_decides:
  assumes "mat_ok m" "blocks_ok b"
  shows "\<exists>e. echelon_form_new m = Some e \<and>
    (if row_count m \<le> length b * 512 then \<exists>res. echelon_solve e b = Some res \<and>
       (case res of
          Some x \<Rightarrow> blocks_ok x \<and> length x = rowstride m \<and>
            (\<forall>i < row_count m. mvec (mat_cols m) (mat_bit m) (blocks_bit x) i = blocks_bit b i)
        | None \<Rightarrow> \<not> (\<exists>x. \<forall>i < row_count m. mvec (mat_cols m) (mat_bit m) x i = blocks_bit b i))
     else echelon_solve e b = None)"
proof -
  obtain m' e where e: "echelon_form_new m = Some e" "mat_bit (ef_matrix e) = mat_bit m'"
      "rref (row_count m) (mat_cols m) (mat_bit m') (ef_pivots e)"
      "triple_ok (row_count m) (mat_cols m) (mat_bit m) (ef_matrix e, ef_transform e, ef_transform_inv_t e)"
    using echelon_run [OF assms(1)] by auto
  let ?r = "row_count m" and ?n = "mat_cols m" and ?T = "mat_bit (ef_transform e)" and ?A = "mat_bit m"
  have ok: "mat_ok (ef_matrix e)" "row_count (ef_matrix e) = ?r" "mat_cols (ef_matrix e) = ?n" "mat_ok (ef_transform e)"
      "row_count (ef_transform e) = ?r" "mat_cols (ef_transform e) = ?r" "mat_clean (ef_transform e)"
      "mat_bit (ef_matrix e) = mmul ?r ?T ?A" "mutual_inverse ?r ?T (mat_bit (ef_transform_inv_t e))"
    using e(4) by (auto simp: triple_ok_def)
  have rr: "rref ?r ?n (mmul ?r ?T ?A) (ef_pivots e)" using e(2,3) ok(8) by simp
  show ?thesis
  proof (cases "?r \<le> length b * 512")
    case False
    then have "echelon_solve e b = None" using ok(6) by (simp add: echelon_solve_def mat_mul_vec_def column_count_def)
    with e(1) False show ?thesis by simp
  next
    case room: True
    obtain t where t: "mat_mul_vec (ef_transform e) b = Some t" "blocks_ok t" "length t = block_count ?r 512"
        "blocks_bit t = (\<lambda>i. i < ?r \<and> mvec ?r ?T (blocks_bit b) i)"
      using mat_mul_vec_run [OF ok(4) assms(2) _ ok(7)] ok(5,6) room by auto
    have rl: "?r \<le> length t * 512" using block_count_ge [of ?r] t(3) by simp
    obtain x where x: "solve_rref_system (ef_matrix e) (ef_pivots e) t =
          Some (if \<forall>i. blocks_bit t i \<longrightarrow> i < length (ef_pivots e) then Some x else None)"
        "blocks_ok x" "length x = rowstride m"
        "blocks_bit x = (\<lambda>j. \<exists>k < length (ef_pivots e). j = ef_pivots e ! k \<and> blocks_bit t k)"
      using solve_rref_run [OF ok(1) _ t(2), of "ef_pivots e"] rr rl ok(2,3,8) by (auto simp: rowstride_def)
    have push: "mvec ?n (mmul ?r ?T ?A) z i = mvec ?r ?T (mvec ?n ?A z) i" for z i by (rule mvec_mmul)
    show ?thesis
    proof (cases "\<forall>i. blocks_bit t i \<longrightarrow> i < length (ef_pivots e)")
      case True
      have "mvec ?r ?T (mvec ?n ?A (blocks_bit x)) i = mvec ?r ?T (blocks_bit b) i" if "i < ?r" for i
        using rref_mvec [OF rr that, of "blocks_bit x" "blocks_bit t"] True that
        by (auto simp: push [symmetric] x(4) t(4))
      from mutual_inverse_cancel [OF ok(9) this] True e(1) x t(1) room show ?thesis
        by (auto simp: echelon_solve_def)
    next
      case False
      then obtain i where i: "blocks_bit t i" "length (ef_pivots e) \<le> i" by (auto simp: not_less)
      have "\<not> (\<forall>i < ?r. mvec ?n ?A z i = blocks_bit b i)" for z
      proof
        assume "\<forall>i < ?r. mvec ?n ?A z i = blocks_bit b i"
        then have "mvec ?r ?T (mvec ?n ?A z) i = mvec ?r ?T (blocks_bit b) i"
          unfolding mvec_def [of ?r ?T] by (intro xsum_cong) auto
        with i rref_mvec_low [OF rr, of i z] show False by (auto simp: push t(4))
      qed
      with False e(1) x(1) t(1) room show ?thesis by (auto simp: echelon_solve_def)
    qed
  qed
qed

theorem solve_decides_witness:
  "\<exists>e res. echelon_form_new (mat_ones 2 3) = Some e \<and> echelon_solve e (aligned_ones 2) = Some res \<and>
    (res = None \<longrightarrow> \<not> (\<exists>x. \<forall>i < 2. mvec 3 (mat_bit (mat_ones 2 3)) x i = blocks_bit (aligned_ones 2) i)) \<and>
    echelon_solve e [] = None"
  using solve_decides [of "mat_ones 2 3" "aligned_ones 2"] solve_decides [of "mat_ones 2 3" "[]"] block_count_ge [of 2]
  by (auto simp: mat_ones_ok aligned_ones_bit split: option.splits)

section \<open>Forward substitution along the rows\<close>

lemma transpose_solve_rref_run:
  assumes "mat_ok m" "rref (row_count m) (mat_cols m) (mat_bit m) piv" "blocks_ok target" "length target = rowstride m"
  shows "\<exists>y. transpose_solve_rref_system m piv target =
      Some (if \<forall>j. blocks_bit target j = comb (length piv) (\<lambda>i. blocks_bit target (piv ! i)) (mat_bit m) j then Some y else None) \<and>
    blocks_ok y \<and> length y = block_count (row_count m) 512 \<and>
    blocks_bit y = (\<lambda>i. i < length piv \<and> blocks_bit target (piv ! i))"
proof -
  let ?z = "aligned_zeros (row_count m)" and ?c = "\<lambda>k. comb k (\<lambda>i. blocks_bit target (piv ! i)) (mat_bit m)"
  let ?P = "\<lambda>k (res, sol). blocks_ok res \<and> length res = rowstride m \<and> blocks_ok sol \<and>
    length sol = block_count (row_count m) 512 \<and> blocks_bit res = (\<lambda>j. blocks_bit target j \<noteq> ?c k j) \<and>
    blocks_bit sol = (\<lambda>i. i < k \<and> blocks_bit target (piv ! i))"
  have "\<exists>st. ofold (transpose_solve_rref_step m piv) [0..<length piv] (target, ?z) = Some st \<and> ?P (length piv) st"
  proof (rule ofold_upt_inv [where P = ?P])
    show "?P 0 (target, ?z)" using assms(3,4) by (simp add: aligned_zeros_bit comb_def)
  next
    fix k st assume k: "k < length piv" and st: "?P k st"
    obtain res sol where [simp]: "st = (res, sol)" by (cases st)
    note p = rref_pivot [OF assms(2) k]
    have "blocks_index res (piv ! k) = Some (blocks_bit res (piv ! k))"
      using blocks.idx [of res "piv ! k"] st p(1) cols_in_stride [of m] by simp
    moreover have "xsum k (\<lambda>i. blocks_bit target (piv ! i) \<and> mat_bit m i (piv ! k)) = xsum k (\<lambda>_. False)"
      using p(2) rref_pivot(3) [OF assms(2) k] by (intro xsum_cong) auto
    ultimately have b: "blocks_index res (piv ! k) = Some (blocks_bit target (piv ! k))"
      using st by (simp add: comb_def)
    show "\<exists>st'. transpose_solve_rref_step m piv k st = Some st' \<and> ?P (Suc k) st'"
    proof (cases "blocks_bit target (piv ! k)")
      case True
      have "k < length sol * 512" using st p(2) block_count_ge [of "row_count m"] by simp
      then obtain sol' where "blocks_assign_index k True sol = Some sol'" "blocks_ok sol'" "length sol' = length sol"
          "blocks_bit sol' = (blocks_bit sol)(k := True)"
        using blocks.assign [of sol k True] st by auto
      with True b k st row_blocks_ok [OF assms(1) p(2)] blocks.xor_assign [of res "row_blocks m k"] show ?thesis
        by (auto simp: transpose_solve_rref_step_def nth_opt_def mat_row_run [OF assms(1) p(2)] row_blocks_bit [OF p(2)]
            comb_def fun_eq_iff less_Suc_eq)
    next
      case False
      with b k st show ?thesis
        by (auto simp: transpose_solve_rref_step_def nth_opt_def comb_def fun_eq_iff less_Suc_eq)
    qed
  qed
  then obtain res y where r: "ofold (transpose_solve_rref_step m piv) [0..<length piv] (target, ?z) = Some (res, y)"
      "blocks_ok res" "length res = rowstride m" "blocks_ok y" "length y = block_count (row_count m) 512"
      "blocks_bit res = (\<lambda>j. blocks_bit target j \<noteq> ?c (length piv) j)"
      "blocks_bit y = (\<lambda>i. i < length piv \<and> blocks_bit target (piv ! i))" by auto
  have "blocks_is_zero res = (\<forall>j. blocks_bit target j = ?c (length piv) j)"
    using blocks.is_zero [OF r(2)] blocks.bits_bound [OF r(2)] unfolding r(6) by auto
  moreover have "transpose_solve_rref_system m piv target = Some (if blocks_is_zero res then Some y else None)"
    by (simp add: transpose_solve_rref_system_def r(1))
  ultimately have "transpose_solve_rref_system m piv target =
      Some (if \<forall>j. blocks_bit target j = ?c (length piv) j then Some y else None)" by (simp only:)
  then show ?thesis using r(4,5,7) by blast
qed

lemma comb_clean: "(\<And>i. i < r \<Longrightarrow> \<not> A i j) \<Longrightarrow> \<not> comb r c A j"
  unfolding comb_def by (rule xsum_zero) auto

text \<open>C2. \<open>EchelonForm::transpose_solve\<close> on a target with the capacity of one row: it returns, a vector it
  returns combines the rows of the matrix to the target, bit for bit, padding included, for every matrix;
  and when it returns none, and the bits of the matrix beyond its last column are clear, the target is
  not in the row space.  \<open>zeros\<close>, \<open>identity\<close> and the readers of bits leave those bits clear; \<open>ones\<close> sets
  them, and then targets of the row space are missed: the witness runs \<open>ones(1, 3)\<close> on the target \<open>111\<close>.\<close>

theorem transpose_solve_decides:
  assumes "mat_ok m" "blocks_ok b" "length b = rowstride m"
  shows "\<exists>e res. echelon_form_new m = Some e \<and> echelon_transpose_solve e b = Some res \<and>
    (case res of
       Some x \<Rightarrow> blocks_ok x \<and> length x = block_count (row_count m) 512 \<and>
         comb (row_count m) (blocks_bit x) (mat_bit m) = blocks_bit b
     | None \<Rightarrow> mat_clean m \<longrightarrow> \<not> (\<exists>x. comb (row_count m) x (mat_bit m) = blocks_bit b))"
proof -
  obtain m' e where e: "echelon_form_new m = Some e" "mat_bit (ef_matrix e) = mat_bit m'"
      "rref (row_count m) (mat_cols m) (mat_bit m') (ef_pivots e)"
      "triple_ok (row_count m) (mat_cols m) (mat_bit m) (ef_matrix e, ef_transform e, ef_transform_inv_t e)"
    using echelon_run [OF assms(1)] by auto
  let ?r = "row_count m" and ?T = "mat_bit (ef_transform e)" and ?A = "mat_bit m" and ?l = "length (ef_pivots e)"
  have ok: "mat_ok (ef_matrix e)" "row_count (ef_matrix e) = ?r" "mat_cols (ef_matrix e) = mat_cols m" "mat_ok (ef_transform e)"
      "row_count (ef_transform e) = ?r" "mat_cols (ef_transform e) = ?r"
      "mat_bit (ef_matrix e) = mmul ?r ?T ?A" "mutual_inverse ?r ?T (mat_bit (ef_transform_inv_t e))"
    using e(4) by (auto simp: triple_ok_def)
  have rr: "rref ?r (mat_cols m) (mmul ?r ?T ?A) (ef_pivots e)" using e(2,3) ok(7) by simp
  have low: "comb ?r c (mmul ?r ?T ?A) j = comb ?l c (mmul ?r ?T ?A) j" if "mat_clean m" for c j
  proof (cases "j < mat_cols m")
    case False
    then have "\<not> mmul ?r ?T ?A i j" for i
      using that unfolding mmul_def by (intro xsum_zero) (auto simp: mat_clean_def)
    then show ?thesis using comb_clean by blast
  qed (rule rref_comb_low [OF rr])
  have l: "?l \<le> ?r" using rr by (simp add: rref_upto_def)
  let ?c = "comb ?l (\<lambda>i. blocks_bit b (ef_pivots e ! i)) (mmul ?r ?T ?A)"
  obtain y where y: "transpose_solve_rref_system (ef_matrix e) (ef_pivots e) b =
        Some (if \<forall>j. blocks_bit b j = ?c j then Some y else None)"
      "blocks_ok y" "length y = block_count ?r 512" "blocks_bit y = (\<lambda>i. i < ?l \<and> blocks_bit b (ef_pivots e ! i))"
    using transpose_solve_rref_run [OF ok(1) _ assms(2), of "ef_pivots e"] rr ok(2,3,7) assms(3)
    by (auto simp: rowstride_def)
  have yr: "blocks_bit y i \<Longrightarrow> i < ?r" for i using rref_pivot(2) [OF rr] by (simp add: y(4))
  obtain x where x: "mat_right_multiply y (ef_transform e) = Some x" "blocks_ok x" "length x = block_count ?r 512"
      "blocks_bit x = comb ?r (blocks_bit y) ?T"
    using mat_right_multiply_run [OF ok(4) y(2)] y(3) ok(5,6) yr block_count_ge [of ?r]
    by (auto simp: rowstride_def rowstride_block_count)
  show ?thesis
  proof (cases "\<forall>j. blocks_bit b j = ?c j")
    case True
    have "comb ?r (blocks_bit x) ?A j = blocks_bit b j" for j
    proof -
      have "comb ?r (blocks_bit x) ?A j = comb ?r (blocks_bit y) (mmul ?r ?T ?A) j"
        unfolding x(4) by (rule comb_mmul [symmetric])
      also have "\<dots> = ?c j" unfolding y(4) comb_def by (rule trans [OF xsum_extend [OF l] xsum_cong]) auto
      also have "\<dots> = blocks_bit b j" by (rule spec [OF True, symmetric])
      finally show ?thesis .
    qed
    then have sol: "comb ?r (blocks_bit x) ?A = blocks_bit b" by (rule ext)
    have "transpose_solve_rref_system (ef_matrix e) (ef_pivots e) b = Some (Some y)"
      unfolding y(1) if_P [OF True] ..
    then have "echelon_transpose_solve e b = Some (Some x)" using x(1) by (simp add: echelon_transpose_solve_def)
    with e(1) x(2,3) sol show ?thesis by (intro exI [of _ e] exI [of _ "Some x"]) simp
  next
    case False
    have "comb ?r z ?A \<noteq> blocks_bit b" if clean: "mat_clean m" for z
    proof
      assume z: "comb ?r z ?A = blocks_bit b"
      note low = low [OF clean]
      obtain d where d: "\<And>j. blocks_bit b j = comb ?l d (mmul ?r ?T ?A) j"
        using comb_unmix [OF ok(8), of z ?A] low z by metis
      have "d k = blocks_bit b (ef_pivots e ! k)" if "k < ?l" for k
        unfolding d using rref_comb_pivot [OF rr that, of d] low by simp
      then have "comb ?l d (mmul ?r ?T ?A) j = ?c j" for j unfolding comb_def by (intro xsum_cong) auto
      with d have "\<forall>j. blocks_bit b j = ?c j" by metis
      with False show False by blast
    qed
    then have none: "mat_clean m \<longrightarrow> \<not> (\<exists>z. comb ?r z ?A = blocks_bit b)" by blast
    have "transpose_solve_rref_system (ef_matrix e) (ef_pivots e) b = Some None"
      unfolding y(1) if_not_P [OF False] ..
    then have "echelon_transpose_solve e b = Some None" by (simp add: echelon_transpose_solve_def)
    with e(1) none show ?thesis by (intro exI [of _ e] exI [of _ None]) simp
  qed
qed

theorem transpose_solve_decides_witness:
  "(\<exists>m e res. mat_identity 3 = Some m \<and> echelon_form_new m = Some e \<and> echelon_transpose_solve e (aligned_zeros 3) = Some res \<and>
     (res = None \<longrightarrow> \<not> (\<exists>x. comb 3 x (mat_bit m) = (\<lambda>_. False)))) \<and>
   (\<exists>b e. blocks_bit b = (\<lambda>j. j < 3) \<and> echelon_form_new (mat_ones 1 3) = Some e \<and> echelon_transpose_solve e b = Some None \<and>
     (\<forall>j < 3. comb 1 (\<lambda>_. True) (mat_bit (mat_ones 1 3)) j = blocks_bit b j))"
proof
  obtain m where m: "mat_identity 3 = Some m" "mat_ok m" "row_count m = 3" "mat_cols m = 3"
      "mat_bit m = (\<lambda>i j. i < 3 \<and> i = j)" using mat_identity_run [of 3] by auto
  then have clean: "mat_clean m" by (auto simp: mat_clean_def)
  have z: "blocks_ok (aligned_zeros 3)" "length (aligned_zeros 3) = rowstride m" "blocks_bit (aligned_zeros 3) = (\<lambda>_. False)"
    using m(4) by (simp_all add: aligned_zeros_bit rowstride_def rowstride_block_count)
  obtain e res where e: "echelon_form_new m = Some e" "echelon_transpose_solve e (aligned_zeros 3) = Some res"
      "case res of Some x \<Rightarrow> blocks_ok x \<and> length x = block_count 3 512 \<and> comb 3 (blocks_bit x) (mat_bit m) = (\<lambda>_. False)
        | None \<Rightarrow> mat_clean m \<longrightarrow> \<not> (\<exists>x. comb 3 x (mat_bit m) = (\<lambda>_. False))"
    using transpose_solve_decides [OF m(2) z(1,2)] unfolding m(3) z(3) by blast
  then have "res = None \<longrightarrow> \<not> (\<exists>x. comb 3 x (mat_bit m) = (\<lambda>_. False))" using clean by (cases res) simp_all
  with m(1) e(1,2) show "\<exists>m e res. mat_identity 3 = Some m \<and> echelon_form_new m = Some e \<and> echelon_transpose_solve e (aligned_zeros 3) = Some res \<and>
     (res = None \<longrightarrow> \<not> (\<exists>x. comb 3 x (mat_bit m) = (\<lambda>_. False)))" by blast
next
  let ?m = "mat_ones 1 3"
  have "(\<lambda>i. i < length [True, True, True] \<and> [True, True, True] ! i) = (\<lambda>i. i < 3)"
    by (auto simp: fun_eq_iff less_Suc_eq numeral_3_eq_3)
  then obtain b where b: "blocks_ok b" "length b = rowstride ?m" "blocks_bit b = (\<lambda>j. j < 3)"
    using with_length_from_iter_run [of "[True, True, True]"]
    by (auto simp: mat_ones_ok rowstride_def rowstride_block_count numeral_3_eq_3)
  have bits: "mat_bit ?m 0 j" if "j < 512" for j
    using that block_count_bounds [of 3] by (simp add: mat_ones_ok rowstride_block_count block_count_def)
  obtain e res where e: "echelon_form_new ?m = Some e" "echelon_transpose_solve e b = Some res"
      "case res of Some x \<Rightarrow> blocks_ok x \<and> length x = block_count 1 512 \<and> comb 1 (blocks_bit x) (mat_bit ?m) = blocks_bit b
        | None \<Rightarrow> mat_clean ?m \<longrightarrow> \<not> (\<exists>x. comb 1 x (mat_bit ?m) = blocks_bit b)"
    using transpose_solve_decides [OF mat_ones_ok(1) b(1,2)] unfolding mat_ones_ok(2) by blast
  have "res = None"
  proof (cases res)
    case (Some x)
    then have c: "comb 1 (blocks_bit x) (mat_bit ?m) = (\<lambda>j. j < 3)" using e(3) b(3) by simp
    from fun_cong [OF c, of 0] fun_cong [OF c, of 3] bits [of 0] bits [of 3] show ?thesis by (simp add: comb_def)
  qed
  with b(3) e(1,2) bits show "\<exists>b e. blocks_bit b = (\<lambda>j. j < 3) \<and> echelon_form_new ?m = Some e \<and> echelon_transpose_solve e b = Some None \<and>
      (\<forall>j < 3. comb 1 (\<lambda>_. True) (mat_bit ?m) j = blocks_bit b j)"
    by (intro exI [of _ b] exI [of _ e]) (simp add: comb_def)
qed

section \<open>Echelon form and rank\<close>

lemma mat_clone_eq [simp]: "mat_clone m = m"
  by (simp add: mat_clone_def from_blocks_and_rows_def mat_shape_def column_count_def)

lemma echelonize_run:
  assumes "mat_ok m"
  shows "\<exists>m' profile. echelonize m = Some (m', profile) \<and> same_shape m' m \<and>
    rref (row_count m) (mat_cols m) (mat_bit m') profile \<and>
    (\<forall>v. in_row_space (row_count m) (mat_cols m) (mat_bit m') v = in_row_space (row_count m) (mat_cols m) (mat_bit m) v) \<and>
    (\<forall>v. in_kernel (row_count m) (mat_cols m) (mat_bit m') v = in_kernel (row_count m) (mat_cols m) (mat_bit m) v)"
proof -
  obtain m' and e :: echelon_form where e: "echelonize m = Some (m', ef_pivots e)" "same_shape m' m"
      "rref (row_count m) (mat_cols m) (mat_bit m') (ef_pivots e)" "mat_bit (ef_matrix e) = mat_bit m'"
      "triple_ok (row_count m) (mat_cols m) (mat_bit m) (ef_matrix e, ef_transform e, ef_transform_inv_t e)"
    using echelon_run [OF assms] by blast
  then have "mat_bit m' = mmul (row_count m) (mat_bit (ef_transform e)) (mat_bit m)"
      "mutual_inverse (row_count m) (mat_bit (ef_transform e)) (mat_bit (ef_transform_inv_t e))"
    by (auto simp: triple_ok_def)
  then have "\<forall>v. in_row_space (row_count m) (mat_cols m) (mat_bit m') v = in_row_space (row_count m) (mat_cols m) (mat_bit m) v"
      "\<forall>v. in_kernel (row_count m) (mat_cols m) (mat_bit m') v = in_kernel (row_count m) (mat_cols m) (mat_bit m) v"
    by (simp_all add: row_space_mmul kernel_mmul)
  with e(1-3) show ?thesis by blast
qed

text \<open>C3. \<open>echelonize\<close>, working on raw blocks in physical row order, leaves a matrix in reduced row
  echelon form whose pivot columns are the rank profile it returns, with the row space of the input.\<close>

theorem echelonize_reduces:
  assumes "mat_ok m"
  shows "\<exists>m' profile. echelonize m = Some (m', profile) \<and> same_shape m' m \<and>
    rref (row_count m) (mat_cols m) (mat_bit m') profile \<and>
    (\<forall>v. in_row_space (row_count m) (mat_cols m) (mat_bit m') v = in_row_space (row_count m) (mat_cols m) (mat_bit m) v)"
  using echelonize_run [OF assms] by blast

theorem echelonize_reduces_witness:
  "\<exists>m' profile. echelonize (mat_ones 2 3) = Some (m', profile) \<and> rref 2 3 (mat_bit m') profile"
  using echelonize_reduces [of "mat_ones 2 3"] by (auto simp: mat_ones_ok)

text \<open>C4. \<open>EchelonForm::new\<close> finds the same matrix and pivots, a transform with
  \<open>transform * original = matrix\<close>, and the transpose of the inverse of that transform.\<close>

theorem echelon_form_transforms:
  assumes "mat_ok m"
  shows "\<exists>m' e. echelonize m = Some (m', ef_pivots e) \<and> echelon_form_new m = Some e \<and>
    mat_bit (ef_matrix e) = mat_bit m' \<and>
    mat_bit (ef_matrix e) = mmul (row_count m) (mat_bit (ef_transform e)) (mat_bit m) \<and>
    mutual_inverse (row_count m) (mat_bit (ef_transform e)) (mat_bit (ef_transform_inv_t e))"
  using echelon_run [OF assms] by (auto simp: triple_ok_def)

theorem echelon_form_transforms_witness:
  "\<exists>e. echelon_form_new (mat_ones 2 3) = Some e \<and>
    mutual_inverse 2 (mat_bit (ef_transform e)) (mat_bit (ef_transform_inv_t e))"
  using echelon_form_transforms [of "mat_ones 2 3"] by (auto simp: mat_ones_ok)

text \<open>\<open>rank\<close> is the dimension of the row space: the row space has \<open>2 ^ rank\<close> vectors.\<close>

theorem rank_is_dimension:
  assumes "mat_ok m"
  shows "\<exists>k. mat_rank m = Some k \<and> card (row_space (row_count m) (mat_cols m) (mat_bit m)) = 2 ^ k"
proof -
  obtain m' profile where e: "echelonize m = Some (m', profile)" "rref (row_count m) (mat_cols m) (mat_bit m') profile"
      "\<forall>v. in_row_space (row_count m) (mat_cols m) (mat_bit m') v = in_row_space (row_count m) (mat_cols m) (mat_bit m) v"
    using echelonize_run [OF assms] by blast
  have "row_space (row_count m) (mat_cols m) (mat_bit m') = row_space (row_count m) (mat_cols m) (mat_bit m)"
    using e(3) by (simp add: row_space_def)
  with e(1) rref_row_space_card [OF e(2)] show ?thesis by (simp add: mat_rank_def mat_clone_eq)
qed

theorem rank_is_dimension_witness:
  "\<exists>k. mat_rank (mat_ones 2 3) = Some k \<and> card (row_space 2 3 (mat_bit (mat_ones 2 3))) = 2 ^ k"
  using rank_is_dimension [of "mat_ones 2 3"] by (simp add: mat_ones_ok)

section \<open>Kernel\<close>

lemma ofold_nested: "ofold (\<lambda>x. ofold (\<lambda>y. f (x, y)) ys) xs s = ofold f (List.product xs ys) s"
proof (induction xs arbitrary: s)
  case (Cons x xs)
  have "ofold (\<lambda>x. ofold (\<lambda>y. f (x, y)) ys) xs = ofold f (List.product xs ys)" by (rule ext) (rule Cons.IH)
  then show ?case by (simp add: ofold_append ofold_map)
qed simp

context bit_matrix begin

text \<open>Writes whose value depends on the position only.\<close>

lemma write_list:
  assumes "ok m" "\<And>x. x \<in> set xs \<Longrightarrow> f x < rows m \<and> g x < cols m \<and> src x = Some (h (f x) (g x))"
  shows "\<exists>t. ofold (\<lambda>x u. do { v \<leftarrow> src x; set_at (f x, g x) v u }) xs m = Some t \<and> keeps_shape t m \<and>
    bit t = (\<lambda>i j. if \<exists>x \<in> set xs. f x = i \<and> g x = j then h i j else bit m i j)"
  using assms
proof (induction xs arbitrary: m)
  case Nil
  then show ?case by (simp add: keeps_shape_def)
next
  case (Cons x xs)
  with set_at [of m "f x" "g x" "h (f x) (g x)"] obtain u where u: "set_at (f x, g x) (h (f x) (g x)) m = Some u" "ok u"
      "rows u = rows m" "cols u = cols m" "bit u = (bit m)(f x := (bit m (f x))(g x := h (f x) (g x)))"
    by auto
  with Cons.IH [of u] Cons.prems obtain t where t:
      "ofold (\<lambda>x u. do { v \<leftarrow> src x; set_at (f x, g x) v u }) xs u = Some t" "keeps_shape t m"
      "bit t = (\<lambda>i j. if \<exists>x \<in> set xs. f x = i \<and> g x = j then h i j else bit u i j)"
    by (auto simp: keeps_shape_def)
  have "bit t i j = (if \<exists>x \<in> set (x # xs). f x = i \<and> g x = j then h i j else bit m i j)" for i j
    unfolding t(3) u(5) by (cases "f x = i \<and> g x = j") auto
  with t(1,2) u(1) Cons.prems(2) [of x] show ?case by (auto simp: fun_eq_iff)
qed

end

lemma index_complement_others: "index_complement piv n = others n piv"
  by (simp add: index_complement_def others_def)

definition kernel_bit :: "nat list \<Rightarrow> nat list \<Rightarrow> bmat \<Rightarrow> bmat" where
  "kernel_bit piv ot A = (\<lambda>k j. k < length ot \<and> ((\<exists>i < length piv. piv ! i = j \<and> A i (ot ! k)) \<or> ot ! k = j))"

lemma kernel_matrix_run:
  assumes "mat_ok m"
  shows "\<exists>m' piv K. echelonize m = Some (m', piv) \<and> rref (row_count m) (mat_cols m) (mat_bit m') piv \<and>
    (\<forall>v. in_kernel (row_count m) (mat_cols m) (mat_bit m') v = in_kernel (row_count m) (mat_cols m) (mat_bit m) v) \<and>
    kernel_basis_matrix m = Some K \<and> mat_ok K \<and> row_count K = length (others (mat_cols m) piv) \<and> mat_cols K = mat_cols m \<and>
    mat_bit K = kernel_bit piv (others (mat_cols m) piv) (mat_bit m')"
proof -
  let ?n = "mat_cols m"
  obtain m' piv where e: "echelonize m = Some (m', piv)" "same_shape m' m" "rref (row_count m) ?n (mat_bit m') piv"
      "\<forall>v. in_kernel (row_count m) ?n (mat_bit m') v = in_kernel (row_count m) ?n (mat_bit m) v"
    using echelonize_run [OF assms] by blast
  let ?o = "others ?n piv" and ?z = "mat_zeros (?n - length piv) ?n"
  note len = others_length [OF e(3)] and piv = rref_pivot [OF e(3)] and ot = others_nth [of _ ?n piv]
  have dist: "distinct piv" using e(3) by (simp add: rref_upto_def strict_sorted_iff)
  have z: "mat_ok ?z" "row_count ?z = length ?o" "mat_cols ?z = ?n" "mat_bit ?z = (\<lambda>_ _. False)"
    using len by (simp_all add: mat_zeros_ok)
  let ?h = "\<lambda>k j. \<exists>i < length piv. piv ! i = j \<and> mat_bit m' i (?o ! k)"
  let ?xs = "List.product [0..<length piv] [0..<length ?o]"
  have get: "mat_get m' (i, ?o ! k) = Some (?h k (piv ! i))" if "i < length piv" "k < length ?o" for i k
    using mat_get_bit [of m' i "?o ! k"] e(2) piv(2) ot that dist by (auto simp: same_shape_def nth_eq_iff_index_eq)
  have "\<exists>t. ofold (\<lambda>x u. do { v \<leftarrow> mat_get m' (fst x, ?o ! snd x); mat_set (snd x, piv ! fst x) v u }) ?xs ?z = Some t \<and>
      amat.keeps_shape t ?z \<and>
      mat_bit t = (\<lambda>k j. if \<exists>x \<in> set ?xs. snd x = k \<and> piv ! fst x = j then ?h k j else mat_bit ?z k j)"
    by (rule amat.write_list) (use z piv(1) get in auto)
  then obtain t where t: "ofold (\<lambda>x u. do { v \<leftarrow> mat_get m' (fst x, ?o ! snd x); mat_set (snd x, piv ! fst x) v u }) ?xs ?z = Some t"
      "amat.keeps_shape t ?z" "mat_bit t = (\<lambda>k j. if \<exists>x \<in> set ?xs. snd x = k \<and> piv ! fst x = j then ?h k j else False)"
    unfolding z(4) by blast
  note sh = amat.keeps_shapeD [OF t(2)]
  obtain K where K: "ofold (\<lambda>k. mat_set (k, ?o ! k) True) [0..<length ?o] t = Some K" "amat.keeps_shape K t"
      "mat_bit K = (\<lambda>i j. (\<exists>k \<in> set [0..<length ?o]. k = i \<and> ?o ! k = j) \<or> mat_bit t i j)"
    using amat.set_true_list [OF sh(1), of "[0..<length ?o]" "\<lambda>k. k" "\<lambda>k. ?o ! k"] sh z ot by auto
  have "mat_bit K = kernel_bit piv ?o (mat_bit m')"
    unfolding K(3) t(3) by (auto simp: kernel_bit_def fun_eq_iff)
  moreover have "kernel_basis_matrix m = Some K"
    using e(1) t(1) K(1) len
    by (simp add: kernel_basis_matrix_def index_complement_others column_count_def Let_def
        ofold_nested [where f = "\<lambda>x u. do { v \<leftarrow> mat_get m' (fst x, ?o ! snd x); mat_set (snd x, piv ! fst x) v u }", simplified])
  ultimately show ?thesis using e(1,3,4) amat.keeps_shapeD [OF K(2)] sh z by auto
qed

lemma kernel_comb:
  assumes "rref r n A piv"
  shows "k < length (others n piv) \<Longrightarrow> comb (length (others n piv)) c (kernel_bit piv (others n piv) A) (others n piv ! k) = c k"
    and "i < length piv \<Longrightarrow> comb (length (others n piv)) c (kernel_bit piv (others n piv) A) (piv ! i) =
      xsum (length (others n piv)) (\<lambda>k. A i (others n piv ! k) \<and> c k)"
proof -
  let ?o = "others n piv"
  have dist: "distinct piv" "distinct ?o" using assms others_distinct by (auto simp: rref_upto_def strict_sorted_iff)
  assume k: "k < length ?o"
  have "kernel_bit piv ?o A l (?o ! k) = (l = k)" if "l < length ?o" for l
    using that k others_nth [OF k] dist by (auto simp: kernel_bit_def nth_eq_iff_index_eq dest: nth_mem)
  then have "comb (length ?o) c (kernel_bit piv ?o A) (?o ! k) = xsum (length ?o) (\<lambda>l. c l \<and> l = k)"
    unfolding comb_def by (intro xsum_cong) auto
  with k show "comb (length ?o) c (kernel_bit piv ?o A) (?o ! k) = c k" by (simp add: xsum_deltas)
next
  let ?o = "others n piv"
  have dist: "distinct piv" using assms by (auto simp: rref_upto_def strict_sorted_iff)
  assume i: "i < length piv"
  have "kernel_bit piv ?o A l (piv ! i) = A i (?o ! l)" if "l < length ?o" for l
    using that i others_nth [OF that] dist by (auto simp: kernel_bit_def nth_eq_iff_index_eq dest: nth_mem)
  then show "comb (length ?o) c (kernel_bit piv ?o A) (piv ! i) = xsum (length ?o) (\<lambda>k. A i (?o ! k) \<and> c k)"
    unfolding comb_def by (intro xsum_cong) auto
qed

text \<open>C5. \<open>kernel_basis_matrix\<close> returns a basis of the kernel: its rows span exactly the vectors the
  matrix sends to zero, and no nontrivial combination of them vanishes.\<close>

theorem kernel_basis_is_basis:
  assumes "mat_ok m"
  shows "\<exists>K. kernel_basis_matrix m = Some K \<and> mat_ok K \<and> mat_cols K = mat_cols m \<and>
    (\<forall>v. in_row_space (row_count K) (mat_cols m) (mat_bit K) v = in_kernel (row_count m) (mat_cols m) (mat_bit m) v) \<and>
    (\<forall>c. (\<forall>j < mat_cols m. \<not> comb (row_count K) c (mat_bit K) j) \<longrightarrow> (\<forall>k < row_count K. \<not> c k))"
proof -
  obtain m' piv K where r: "rref (row_count m) (mat_cols m) (mat_bit m') piv"
      "\<forall>v. in_kernel (row_count m) (mat_cols m) (mat_bit m') v = in_kernel (row_count m) (mat_cols m) (mat_bit m) v"
      "kernel_basis_matrix m = Some K" "mat_ok K" "row_count K = length (others (mat_cols m) piv)" "mat_cols K = mat_cols m"
      "mat_bit K = kernel_bit piv (others (mat_cols m) piv) (mat_bit m')"
    using kernel_matrix_run [OF assms] by blast
  let ?o = "others (mat_cols m) piv"
  note kc = kernel_comb [OF r(1), folded r(5,7)] and p = rref_pivot(1) [OF r(1)] and o = others_nth [of _ "mat_cols m" piv]
  have "in_row_space (row_count K) (mat_cols m) (mat_bit K) v = in_kernel (row_count m) (mat_cols m) (mat_bit m') v" for v
  proof
    assume "in_row_space (row_count K) (mat_cols m) (mat_bit K) v"
    then obtain c where c: "\<And>j. j < mat_cols m \<Longrightarrow> v j = comb (row_count K) c (mat_bit K) j" by (auto simp: in_row_space_def)
    have "v (?o ! k) = c k" if "k < length ?o" for k using c [of "?o ! k"] kc(1) [of k c] o [OF that] that r(5) by simp
    then have "v (piv ! i) = xsum (length ?o) (\<lambda>k. mat_bit m' i (?o ! k) \<and> v (?o ! k))" if "i < length piv" for i
      using c [OF p [OF that]] kc(2) [OF that] r(5) by (simp cong: conj_cong)
    then show "in_kernel (row_count m) (mat_cols m) (mat_bit m') v" by (simp add: rref_kernel [OF r(1)])
  next
    assume k: "in_kernel (row_count m) (mat_cols m) (mat_bit m') v"
    have "v j = comb (row_count K) (\<lambda>k. v (?o ! k)) (mat_bit K) j" if "j < mat_cols m" for j
      using that
    proof (cases rule: column_cases [where piv = piv])
      case (1 i)
      with k kc(2) [of i "\<lambda>k. v (?o ! k)"] r(5) show ?thesis by (simp add: rref_kernel [OF r(1)])
    next
      case (2 k)
      with kc(1) [of k "\<lambda>k. v (?o ! k)"] r(5) show ?thesis by simp
    qed
    then show "in_row_space (row_count K) (mat_cols m) (mat_bit K) v" unfolding in_row_space_def by blast
  qed
  moreover have "\<not> c k" if "\<forall>j < mat_cols m. \<not> comb (row_count K) c (mat_bit K) j" "k < row_count K" for c k
    using that(1) kc(1) [of k c] o [of k] that(2) r(5) by auto
  ultimately show ?thesis using r(2-4,6) by blast
qed

theorem kernel_basis_is_basis_witness:
  "\<exists>K. kernel_basis_matrix (mat_ones 2 3) = Some K \<and>
    (\<forall>v. in_row_space (row_count K) 3 (mat_bit K) v = in_kernel 2 3 (mat_bit (mat_ones 2 3)) v)"
  using kernel_basis_is_basis [of "mat_ones 2 3"] by (auto simp: mat_ones_ok)

section \<open>Completion\<close>

lemma complete_run:
  assumes "mat_ok m" "echelonize m = Some (m', piv)" "rref (row_count m) (mat_cols m) A piv" "length piv = row_count m"
  shows "\<exists>F. complete_to_full_rank_row_basis m = Some (Some F) \<and> mat_ok F \<and> row_count F = mat_cols m \<and>
    mat_cols F = mat_cols m \<and> mat_bit F = (\<lambda>i j. if i < row_count m then mat_bit m i j
      else i < mat_cols m \<and> others (mat_cols m) piv ! (i - row_count m) = j)"
proof -
  let ?n = "mat_cols m" and ?r = "row_count m" and ?o = "others (mat_cols m) piv"
  let ?z = "mat_zeros ?n ?n"
  have len: "?r \<le> ?n" "length ?o = ?n - ?r" using others_length [OF assms(3)] assms(4) by simp_all
  have z: "mat_ok ?z" "row_count ?z = ?n" "mat_cols ?z = ?n" "mat_bit ?z = (\<lambda>_ _. False)" "rowstride ?z = rowstride m"
    by (simp_all add: mat_zeros_ok rowstride_def)
  have "\<exists>t. ofold (\<lambda>k. mat_row_update k (\<lambda>to. do { row \<leftarrow> mat_row m k; Some (blocks_assign to row) })) [0..<?r] ?z = Some t \<and>
      same_shape t ?z \<and> mat_bit t = (\<lambda>i. if i < ?r then (\<lambda>i _. mat_bit m i) i (mat_bit ?z i) else mat_bit ?z i)"
  proof (rule row_loop [OF z(1)])
    show "?r \<le> row_count ?z" using len z(2) by simp
    fix k row assume k: "k < ?r" and row: "blocks_ok row" "length row = rowstride ?z"
    have "blocks_bit (row_blocks m k) = mat_bit m k" using k by (auto simp: mat_bit_def)
    with blocks.copy_from [OF row(1), of "row_blocks m k"] row_blocks_ok [OF assms(1) k] row(2) z(5)
    show "\<exists>row'. do { row' \<leftarrow> mat_row m k; Some (blocks_assign row row') } = Some row' \<and> blocks_ok row' \<and>
        length row' = rowstride ?z \<and> blocks_bit row' = mat_bit m k"
      by (simp add: mat_row_run [OF assms(1) k])
  qed
  then obtain t where t: "ofold (\<lambda>k. mat_row_update k (\<lambda>to. do { row \<leftarrow> mat_row m k; Some (blocks_assign to row) })) [0..<?r] ?z = Some t"
      "same_shape t ?z" "mat_bit t = (\<lambda>i. if i < ?r then mat_bit m i else (\<lambda>_. False))" unfolding z(4) by blast
  have sh: "mat_ok t" "row_count t = ?n" "mat_cols t = ?n" using t(2) z(2,3) by (simp_all add: same_shape_def)
  have pos: "k + ?r < row_count t \<and> ?o ! k < mat_cols t" if "k \<in> set [0..<length ?o]" for k
    using that len others_nth [of k ?n piv] sh by auto
  obtain F where F: "ofold (\<lambda>k. mat_set (k + ?r, ?o ! k) True) [0..<length ?o] t = Some F" "amat.keeps_shape F t"
      "mat_bit F = (\<lambda>i j. (\<exists>k \<in> set [0..<length ?o]. k + ?r = i \<and> ?o ! k = j) \<or> mat_bit t i j)"
    using amat.set_true_list [where f = "\<lambda>k. k + ?r" and g = "\<lambda>k. ?o ! k", OF sh(1) pos] by blast
  have "mat_bit F i j = (if i < ?r then mat_bit m i j else i < ?n \<and> ?o ! (i - ?r) = j)" for i j
    unfolding F(3) t(3) using len by (auto intro!: bexI [of _ "i - ?r"])
  moreover have "complete_to_full_rank_row_basis m = Some (Some F)"
    using assms(2,4) t(1) F(1)
    by (simp add: complete_to_full_rank_row_basis_def index_complement_others column_count_def Let_def)
  ultimately show ?thesis using amat.keeps_shapeD [OF F(2)] sh by (auto simp: fun_eq_iff)
qed

text \<open>C6. \<open>complete_to_full_rank_row_basis\<close> returns none exactly when the rows are dependent;
  otherwise a square matrix that starts with the given rows and whose rows span everything.\<close>

theorem completion_spans:
  assumes "mat_ok m"
  shows "\<exists>res k. complete_to_full_rank_row_basis m = Some res \<and> mat_rank m = Some k \<and>
    (case res of
       None \<Rightarrow> k \<noteq> row_count m
     | Some F \<Rightarrow> k = row_count m \<and> mat_ok F \<and> row_count F = mat_cols m \<and> mat_cols F = mat_cols m \<and>
         (\<forall>i < row_count m. mat_bit F i = mat_bit m i) \<and> (\<forall>v. in_row_space (mat_cols m) (mat_cols m) (mat_bit F) v))"
proof -
  let ?n = "mat_cols m" and ?r = "row_count m"
  obtain m' piv where e: "echelonize m = Some (m', piv)" "rref ?r ?n (mat_bit m') piv"
      "\<forall>v. in_row_space ?r ?n (mat_bit m') v = in_row_space ?r ?n (mat_bit m) v"
    using echelonize_run [OF assms] by blast
  let ?o = "others ?n piv"
  have rank: "mat_rank m = Some (length piv)" using e(1) by (simp add: mat_rank_def)
  show ?thesis
  proof (cases "length piv = ?r")
    case False
    then have "complete_to_full_rank_row_basis m = Some None"
      using e(1) by (simp add: complete_to_full_rank_row_basis_def)
    with rank False show ?thesis by (intro exI [of _ None] exI [of _ "length piv"]) simp
  next
    case True
    obtain F where F: "complete_to_full_rank_row_basis m = Some (Some F)" "mat_ok F" "row_count F = ?n" "mat_cols F = ?n"
        "mat_bit F = (\<lambda>i j. if i < ?r then mat_bit m i j else i < ?n \<and> ?o ! (i - ?r) = j)"
      using complete_run [OF assms e(1,2) True] by blast
    have len: "?r + length ?o = ?n" using others_length [OF e(2)] True by simp
    have "in_row_space ?n ?n (mat_bit F) v" for v
    proof -
      let ?u = "comb (length piv) (\<lambda>k. v (piv ! k)) (mat_bit m')"
      have up: "?u (piv ! k) = v (piv ! k)" if "k < length piv" for k
        using rref_comb_pivot [OF e(2) that] rref_comb_low [OF e(2) rref_pivot(1) [OF e(2) that]] by simp
      have "in_row_space ?r ?n (mat_bit m') ?u"
        unfolding rref_row_space [OF e(2)] comb_def [of _ "\<lambda>k. ?u (piv ! k)"] comb_def [of _ "\<lambda>k. v (piv ! k)" "mat_bit m'"]
        by (intro allI impI xsum_cong refl) (use up in \<open>simp add: comb_def\<close>)
      then obtain c where c: "\<And>j. j < ?n \<Longrightarrow> ?u j = comb ?r c (mat_bit m) j" using e(3) by (auto simp: in_row_space_def)
      define d where "d = (\<lambda>i. if i < ?r then c i else v (?o ! (i - ?r)) \<noteq> ?u (?o ! (i - ?r)))"
      have "v j = comb ?n d (mat_bit F) j" if j: "j < ?n" for j
      proof -
        have "comb ?n d (mat_bit F) j = (comb ?r d (mat_bit F) j \<noteq> xsum (length ?o) (\<lambda>k. d (?r + k) \<and> mat_bit F (?r + k) j))"
          using xsum_append [of ?r "length ?o" "\<lambda>i. d i \<and> mat_bit F i j"] unfolding len comb_def .
        also have "comb ?r d (mat_bit F) j = comb ?r c (mat_bit m) j"
          unfolding comb_def [of ?r] by (rule xsum_cong) (auto simp: d_def F(5))
        also have "\<dots> = ?u j" by (rule c [OF j, symmetric])
        also have "xsum (length ?o) (\<lambda>k. d (?r + k) \<and> mat_bit F (?r + k) j) = xsum (length ?o) (\<lambda>k. ?o ! k = j \<and> v j \<noteq> ?u j)"
          by (rule xsum_cong) (use len in \<open>auto simp: d_def F(5)\<close>)
        also have "\<dots> = (v j \<noteq> ?u j)"
          using j
        proof (cases rule: column_cases [where piv = piv])
          case (1 k)
          then have "v j = ?u j" using up [of k] by simp
          then show ?thesis by simp
        next
          case (2 k)
          have "xsum (length ?o) (\<lambda>l. ?o ! l = j \<and> v j \<noteq> ?u j) = xsum (length ?o) (\<lambda>l. l = k \<and> v j \<noteq> ?u j)"
            by (rule xsum_cong) (use 2 others_distinct [of ?n piv] in \<open>auto simp: nth_eq_iff_index_eq\<close>)
          with 2(1) show ?thesis by (simp add: xsum_deltas)
        qed
        finally show ?thesis by auto
      qed
      then show ?thesis unfolding in_row_space_def by blast
    qed
    then have "\<forall>v. in_row_space ?n ?n (mat_bit F) v" by blast
    moreover have "mat_bit F i = mat_bit m i" if "i < ?r" for i using that by (simp add: F(5))
    ultimately show ?thesis using rank True F(1-4) by (intro exI [of _ "Some F"] exI [of _ "length piv"]) simp
  qed
qed

theorem completion_spans_witness:
  "\<exists>res k. complete_to_full_rank_row_basis (mat_ones 2 3) = Some res \<and> mat_rank (mat_ones 2 3) = Some k \<and>
    (res = None \<longrightarrow> k \<noteq> 2)"
  using completion_spans [of "mat_ones 2 3"] by (auto simp: mat_ones_ok split: option.splits)

end
