(* ===== verification/Transpose.thy ===== *)
theory Transpose
  imports Matrix_Ops
begin

text \<open>
  Transposition: the 64 by 64 and the 8 by 64 kernels of \<open>matrix/transpose_kernel.rs\<close>, and
  \<open>transposed\<close> of \<open>matrix/aligned_bitmatrix.rs\<close>, which moves a matrix tile by tile through the
  first kernel.  A kernel round swaps bit \<open>k\<close> of the row index with bit \<open>k\<close> of the column index;
  after six rounds the indices are exchanged.
\<close>

section \<open>The kernels\<close>

text \<open>The array has 64 words and every index below is less than 64.\<close>

definition swap_pair_64 :: "nat \<Rightarrow> u64 \<Rightarrow> nat \<Rightarrow> u64 list \<Rightarrow> u64 list" where
  "swap_pair_64 block_size block_mask row_id_from matrix =
     (let row_id_to = row_id_from + block_size;
          row_from = matrix ! row_id_from;
          row_to = matrix ! row_id_to;
          diff = (drop_bit block_size row_from XOR row_to) AND block_mask
      in matrix[row_id_to := row_to XOR diff, row_id_from := row_from XOR push_bit block_size diff])"

definition step_by :: "nat \<Rightarrow> nat \<Rightarrow> nat list" where
  "step_by n s = map (\<lambda>k. k * s) [0..<(n + s - 1) div s]"

definition swap_blocks_64 :: "nat \<Rightarrow> u64 \<Rightarrow> u64 list \<Rightarrow> u64 list" where
  "swap_blocks_64 block_size block_mask =
     fold (\<lambda>block_top_row. fold (\<lambda>row_offset. swap_pair_64 block_size block_mask (block_top_row + row_offset)) [0..<block_size])
       (step_by 64 (2 * block_size))"

definition block_masks :: "u64 list" where
  "block_masks = [0x5555555555555555, 0x3333333333333333, 0x0F0F0F0F0F0F0F0F,
     0x00FF00FF00FF00FF, 0x0000FFFF0000FFFF, 0x00000000FFFFFFFF]"

definition transpose_64x64 :: "u64 list \<Rightarrow> u64 list" where
  "transpose_64x64 m0 =
     (let m1 = swap_blocks_64 1 (block_masks ! 0) m0;
          m2 = swap_blocks_64 2 (block_masks ! 1) m1;
          m3 = swap_blocks_64 4 (block_masks ! 2) m2;
          m4 = swap_blocks_64 8 (block_masks ! 3) m3;
          m5 = swap_blocks_64 16 (block_masks ! 4) m4
      in swap_blocks_64 32 (block_masks ! 5) m5)"

definition delta_swap :: "u64 \<Rightarrow> u64 \<Rightarrow> nat \<Rightarrow> u64" where
  "delta_swap x swap_mask delta =
     (let t = (drop_bit delta x XOR x) AND swap_mask in (x XOR t) XOR push_bit delta t)"

definition pack_bytes :: "u64 list \<Rightarrow> nat \<Rightarrow> u64" where
  "pack_bytes w byte_idx =
     fold (\<lambda>word_idx x. x OR push_bit (word_idx * 8) (drop_bit (byte_idx * 8) (w ! word_idx) AND 0xFF))
       [0..<length w] 0"

definition transpose_8x64 :: "u64 list \<Rightarrow> u64 list" where
  "transpose_8x64 w = map (\<lambda>byte_idx.
     let x = pack_bytes w byte_idx;
         x = delta_swap x 0x00AA00AA00AA00AA 7;
         x = delta_swap x 0x0000CCCC0000CCCC 14
     in delta_swap x 0x00000000F0F0F0F0 28) [0..<8]"

section \<open>Transposing a matrix\<close>

definition row_words :: "aligned_bitmatrix \<Rightarrow> nat \<Rightarrow> u64 list option" where
  "row_words m i = do { row \<leftarrow> mat_row m i; Some (words row) }"

definition row_words_update :: "nat \<Rightarrow> (u64 list \<Rightarrow> u64 list option) \<Rightarrow> aligned_bitmatrix \<Rightarrow> aligned_bitmatrix option" where
  "row_words_update i f = mat_row_update i (\<lambda>row. do { ws \<leftarrow> f (words row); Some (unwords (length row) ws) })"

definition read_tile_partial ::
  "aligned_bitmatrix \<Rightarrow> nat \<Rightarrow> nat \<Rightarrow> u64 list \<Rightarrow> nat \<Rightarrow> u64 list option" where
  "read_tile_partial m block_row block_col tile count =
     ofold (\<lambda>offset tile. do {
         src_words \<leftarrow> row_words m (block_row * 64 + offset);
         word \<leftarrow> nth_opt src_words block_col;
         Some (tile[offset := word]) }) [0..<min count (length tile)] tile"

definition read_tile :: "aligned_bitmatrix \<Rightarrow> nat \<Rightarrow> nat \<Rightarrow> u64 list \<Rightarrow> u64 list option" where
  "read_tile m block_row block_col tile =
     ofold (\<lambda>offset tile. do {
         src_words \<leftarrow> row_words m (block_row * 64 + offset);
         word \<leftarrow> nth_opt src_words block_col;
         Some (tile[offset := word]) }) [0..<length tile] tile"

definition write_tile_partial ::
  "nat \<Rightarrow> nat \<Rightarrow> u64 list \<Rightarrow> nat \<Rightarrow> aligned_bitmatrix \<Rightarrow> aligned_bitmatrix option" where
  "write_tile_partial block_row block_col tile count =
     ofold (\<lambda>offset. row_words_update (block_col * 64 + offset) (\<lambda>dest_words. update_opt dest_words block_row (tile ! offset)))
       [0..<min count (length tile)]"

definition write_tile :: "nat \<Rightarrow> nat \<Rightarrow> u64 list \<Rightarrow> aligned_bitmatrix \<Rightarrow> aligned_bitmatrix option" where
  "write_tile block_row block_col tile =
     ofold (\<lambda>offset. row_words_update (block_col * 64 + offset) (\<lambda>dest_words. update_opt dest_words block_row (tile ! offset)))
       [0..<length tile]"

text \<open>The four phases, each over its tiles; a tile left over from a full read is overwritten whole.\<close>

definition mat_transposed :: "aligned_bitmatrix \<Rightarrow> aligned_bitmatrix option" where
  "mat_transposed m =
     (let full_row_blocks = row_count m div 64; remainder_rows = row_count m mod 64;
          full_col_blocks = column_count m div 64; remainder_cols = column_count m mod 64;
          empty = replicate 64 (0 :: u64)
      in do {
        (res, _) \<leftarrow> ofold (\<lambda>block_row. ofold (\<lambda>block_col (res, tile). do {
              tile \<leftarrow> read_tile m block_row block_col tile;
              let tile = transpose_64x64 tile;
              res \<leftarrow> write_tile block_row block_col tile res;
              Some (res, tile) }) [0..<full_col_blocks]) [0..<full_row_blocks]
            (mat_zeros (column_count m) (row_count m), empty);
        (res, _) \<leftarrow> (if 0 < remainder_cols
          then ofold (\<lambda>block_row (res, tile). do {
              tile \<leftarrow> read_tile m block_row full_col_blocks tile;
              let tile = transpose_64x64 tile;
              res \<leftarrow> write_tile_partial block_row full_col_blocks tile remainder_cols res;
              Some (res, tile) }) [0..<full_row_blocks] (res, empty)
          else Some (res, empty));
        if 0 < remainder_rows then do {
          res \<leftarrow> ofold (\<lambda>block_col res. do {
              tile \<leftarrow> read_tile_partial m full_row_blocks block_col empty remainder_rows;
              let tile = transpose_64x64 tile;
              write_tile full_row_blocks block_col tile res }) [0..<full_col_blocks] res;
          if 0 < remainder_cols then do {
            tile \<leftarrow> read_tile_partial m full_row_blocks full_col_blocks empty remainder_rows;
            let tile = transpose_64x64 tile;
            write_tile_partial full_row_blocks full_col_blocks tile remainder_cols res }
          else Some res }
        else Some res })"

section \<open>A kernel round exchanges one bit of the two indices\<close>

definition lower_half :: "nat \<Rightarrow> u64 \<Rightarrow> u64 \<Rightarrow> u64 \<Rightarrow> u64" where
  "lower_half bs block_mask a b = a XOR push_bit bs ((drop_bit bs a XOR b) AND block_mask)"

definition upper_half :: "nat \<Rightarrow> u64 \<Rightarrow> u64 \<Rightarrow> u64 \<Rightarrow> u64" where
  "upper_half bs block_mask a b = b XOR ((drop_bit bs a XOR b) AND block_mask)"

lemma fold_swap_pairs:
  assumes "distinct xs" "0 < bs" "\<And>x. x \<in> set xs \<Longrightarrow> x + bs < length m \<and> x + bs \<notin> set xs"
  shows "length (fold (swap_pair_64 bs block_mask) xs m) = length m \<and>
    (\<forall>i < length m. fold (swap_pair_64 bs block_mask) xs m ! i =
      (if i \<in> set xs then lower_half bs block_mask (m ! i) (m ! (i + bs))
       else if bs \<le> i \<and> i - bs \<in> set xs then upper_half bs block_mask (m ! (i - bs)) (m ! i) else m ! i))"
  using assms
proof (induction xs arbitrary: m)
  case Nil
  then show ?case by simp
next
  case (Cons x xs)
  let ?m = "swap_pair_64 bs block_mask x m"
  have len: "length ?m = length m" by (simp add: swap_pair_64_def Let_def)
  have m: "?m ! i = (if i = x then lower_half bs block_mask (m ! x) (m ! (x + bs))
      else if i = x + bs then upper_half bs block_mask (m ! x) (m ! (x + bs)) else m ! i)" if "i < length m" for i
    using that Cons.prems by (auto simp: swap_pair_64_def Let_def lower_half_def upper_half_def nth_list_update)
  have IH: "length (fold (swap_pair_64 bs block_mask) xs ?m) = length ?m \<and>
    (\<forall>i < length ?m. fold (swap_pair_64 bs block_mask) xs ?m ! i =
      (if i \<in> set xs then lower_half bs block_mask (?m ! i) (?m ! (i + bs))
       else if bs \<le> i \<and> i - bs \<in> set xs then upper_half bs block_mask (?m ! (i - bs)) (?m ! i) else ?m ! i))"
    using Cons.prems len by (intro Cons.IH) auto
  have "fold (swap_pair_64 bs block_mask) xs ?m ! i =
      (if i \<in> set (x # xs) then lower_half bs block_mask (m ! i) (m ! (i + bs))
       else if bs \<le> i \<and> i - bs \<in> set (x # xs) then upper_half bs block_mask (m ! (i - bs)) (m ! i) else m ! i)"
    if i: "i < length m" for i
  proof -
    consider "i \<in> set xs" | "i \<notin> set xs" "bs \<le> i" "i - bs \<in> set xs" | "i \<notin> set xs" "\<not> (bs \<le> i \<and> i - bs \<in> set xs)" by blast
    then show ?thesis
    proof cases
      case 1
      then have "i \<noteq> x" "i + bs \<noteq> x" "i \<noteq> x + bs" "i + bs < length m"
        using Cons.prems by auto
      with 1 i IH len show ?thesis by (simp add: m)
    next
      case 2
      then have "i \<notin> set (x # xs)" using Cons.prems(3) [of "i - bs"] by simp
      then have "i \<noteq> x" "i - bs \<noteq> x" "i - bs \<noteq> x + bs" "i \<noteq> x + bs"
        using 2 Cons.prems i by auto
      with 2 i IH len show ?thesis by (simp add: m)
    next
      case 3
      with i IH len Cons.prems show ?thesis by (auto simp: m)
    qed
  qed
  with IH len show ?case by simp
qed

text \<open>The rows the round starts from are those whose bit \<open>k\<close> is clear.\<close>

definition swap_bit :: "nat \<Rightarrow> nat \<times> nat \<Rightarrow> nat \<times> nat" where
  "swap_bit k p = (if bit (fst p) k = bit (snd p) k then p else (flip_bit k (fst p), flip_bit k (snd p)))"

definition round_rows :: "nat \<Rightarrow> nat list" where
  "round_rows bs = concat (map (\<lambda>t. map (\<lambda>d. t + d) [0..<bs]) (step_by 64 (2 * bs)))"

lemma swap_blocks_fold: "swap_blocks_64 bs block_mask m = fold (swap_pair_64 bs block_mask) (round_rows bs) m"
proof -
  have "fold (\<lambda>t. fold (\<lambda>d. f (t + d)) [0..<n]) ts s = fold f (concat (map (\<lambda>t. map (\<lambda>d. t + d) [0..<n]) ts)) s"
    for f :: "nat \<Rightarrow> 'a \<Rightarrow> 'a" and n ts s
    by (induction ts arbitrary: s) (auto simp: fold_map comp_def)
  then show ?thesis by (simp add: swap_blocks_64_def round_rows_def)
qed

definition good_round :: "nat \<Rightarrow> u64 \<Rightarrow> bool" where
  "good_round k block_mask \<longleftrightarrow> distinct (round_rows (2 ^ k)) \<and>
     list_all (\<lambda>i. (i \<in> set (round_rows (2 ^ k))) = (\<not> bit i k)) [0..<64] \<and>
     list_all (\<lambda>i. i < 64) (round_rows (2 ^ k)) \<and>
     list_all (\<lambda>j. bit block_mask j = (\<not> bit j k)) [0..<64]"

lemma good_rounds: "list_all (\<lambda>k. good_round k (block_masks ! k)) [0..<6]"
  by code_simp

lemma good_round_at: "k < 6 \<Longrightarrow> good_round k (block_masks ! k)"
  using good_rounds by (simp add: list_all_iff)

text \<open>Flipping a clear bit adds its weight.\<close>

lemma less_64_bits: "(i :: nat) < 64 \<longleftrightarrow> (\<forall>n. bit i n \<longrightarrow> n < 6)"
  using take_bit_nat_eq_self_iff [of 6 i] by (auto simp: bit_eq_iff bit_take_bit_iff)

lemma flip_less_64: "(i :: nat) < 64 \<Longrightarrow> k < 6 \<Longrightarrow> flip_bit k i < 64"
  unfolding less_64_bits by (auto simp: bit_flip_bit_iff)

lemma flip_bit_add:
  fixes i :: nat
  assumes "\<not> bit i k"
  shows "flip_bit k i = i + 2 ^ k"
proof -
  have "i OR 2 ^ k = i + 2 ^ k"
    using assms by (intro disjunctive_add [symmetric]) (auto simp: bit_exp_iff)
  moreover have "flip_bit k i = i OR 2 ^ k"
    using assms by (intro bit_eqI) (auto simp: bit_flip_bit_iff bit_or_iff bit_exp_iff)
  ultimately show ?thesis by simp
qed

lemma flip_bit_sub:
  fixes i :: nat
  assumes "bit i k"
  shows "i = flip_bit k i + 2 ^ k"
proof -
  have "flip_bit k (flip_bit k i) = flip_bit k i + 2 ^ k"
    using assms by (intro flip_bit_add) (simp add: bit_flip_bit_iff)
  moreover have "flip_bit k (flip_bit k i) = i" by (intro bit_eqI) (auto simp: bit_flip_bit_iff)
  ultimately show ?thesis by simp
qed

lemma sub_has_bit:
  fixes j :: nat
  assumes "\<not> bit j k" "2 ^ k \<le> j"
  shows "bit (j - 2 ^ k) k"
proof (rule ccontr)
  assume n: "\<not> bit (j - 2 ^ k) k"
  then have "flip_bit k (j - 2 ^ k) = j" using flip_bit_add [OF n] assms(2) by simp
  with n assms(1) show False using bit_flip_bit_iff [of k "j - 2 ^ k" k] by simp
qed

lemma lower_half_bit:
  assumes "j < 64" "bit mk (j - 2 ^ k) = (\<not> bit (j - 2 ^ k) k)"
  shows "bit (lower_half (2 ^ k) mk a b) j = (if bit j k then bit b (flip_bit k j) else bit a j)"
proof (cases "bit j k")
  case True
  have f: "j = flip_bit k j + 2 ^ k" by (rule flip_bit_sub [OF True])
  then have "j - 2 ^ k = flip_bit k j" "2 ^ k \<le> j" "2 ^ k + flip_bit k j = j" by linarith+
  moreover have "\<not> bit (flip_bit k j) k" using True by (simp add: bit_flip_bit_iff)
  ultimately show ?thesis using True assms
    by (auto simp: lower_half_def bit_xor_iff bit_push_bit_iff bit_and_iff bit_drop_bit_eq)
next
  case False
  then show ?thesis using assms sub_has_bit [OF False]
    by (auto simp: lower_half_def bit_xor_iff bit_push_bit_iff bit_and_iff)
qed

lemma upper_half_bit:
  assumes "j < 64" "bit mk j = (\<not> bit j k)"
  shows "bit (upper_half (2 ^ k) mk a b) j = (if bit j k then bit b j else bit a (flip_bit k j))"
  using assms flip_bit_add [of j k]
  by (auto simp: upper_half_def bit_xor_iff bit_and_iff bit_drop_bit_eq add.commute)

lemma swap_blocks_bit:
  assumes "k < 6" "length m = 64"
  shows "length (swap_blocks_64 (2 ^ k) (block_masks ! k) m) = 64"
    "i < 64 \<Longrightarrow> j < 64 \<Longrightarrow> bit (swap_blocks_64 (2 ^ k) (block_masks ! k) m ! i) j =
      bit (m ! fst (swap_bit k (i, j))) (snd (swap_bit k (i, j)))"
proof -
  let ?bs = "2 ^ k :: nat" and ?mk = "block_masks ! k" and ?xs = "round_rows (2 ^ k)"
  have xs: "distinct ?xs" "\<And>x. x < 64 \<Longrightarrow> x \<in> set ?xs \<longleftrightarrow> \<not> bit x k" "\<And>x. x \<in> set ?xs \<Longrightarrow> x < 64"
      and mk: "\<And>j. j < 64 \<Longrightarrow> bit ?mk j = (\<not> bit j k)"
    using good_round_at [OF assms(1)] by (auto simp: good_round_def list_all_iff)
  have next_row: "x + ?bs < length m \<and> x + ?bs \<notin> set ?xs" if "x \<in> set ?xs" for x
  proof -
    have x: "x < 64" "\<not> bit x k" using xs(2,3) that by auto
    have e: "flip_bit k x = x + ?bs" by (rule flip_bit_add [OF x(2)])
    have "flip_bit k x < 64" "bit (flip_bit k x) k"
      using x assms(1) flip_less_64 by (simp_all add: bit_flip_bit_iff)
    with xs(2) assms(2) show ?thesis by (simp add: e)
  qed
  note f = fold_swap_pairs [OF xs(1) _ next_row, of ?mk, folded swap_blocks_fold]
  show "length (swap_blocks_64 ?bs ?mk m) = 64" using f assms(2) by simp
  assume i: "i < 64" and j: "j < 64"
  have mj: "bit ?mk (j - ?bs) = (\<not> bit (j - ?bs) k)" using j by (intro mk) simp
  show "bit (swap_blocks_64 ?bs ?mk m ! i) j = bit (m ! fst (swap_bit k (i, j))) (snd (swap_bit k (i, j)))"
  proof (cases "bit i k")
    case False
    then have "swap_blocks_64 ?bs ?mk m ! i = lower_half ?bs ?mk (m ! i) (m ! flip_bit k i)"
      using f xs(2) [OF i] i assms(2) flip_bit_add [OF False] by simp
    with lower_half_bit [OF j mj] False show ?thesis by (simp add: swap_bit_def)
  next
    case True
    have "i - ?bs = flip_bit k i" "?bs \<le> i" using flip_bit_sub [OF True] by linarith+
    moreover have "flip_bit k i \<in> set ?xs"
      using xs(2) [of "flip_bit k i"] flip_less_64 [OF i assms(1)] True by (simp add: bit_flip_bit_iff)
    ultimately have "swap_blocks_64 ?bs ?mk m ! i = upper_half ?bs ?mk (m ! flip_bit k i) (m ! i)"
      using f xs(2) [OF i] i assms(2) True by simp
    with upper_half_bit [OF j mk [OF j]] True show ?thesis by (simp add: swap_bit_def)
  qed
qed

lemma swap_bit_less: "i < 64 \<Longrightarrow> j < 64 \<Longrightarrow> k < 6 \<Longrightarrow> fst (swap_bit k (i, j)) < 64 \<and> snd (swap_bit k (i, j)) < 64"
  by (simp add: swap_bit_def flip_less_64)

lemma swap_bit_bits:
  "bit (fst (swap_bit k p)) n = (if n = k then bit (snd p) n else bit (fst p) n)"
  "bit (snd (swap_bit k p)) n = (if n = k then bit (fst p) n else bit (snd p) n)"
  by (auto simp: swap_bit_def bit_flip_bit_iff)

lemma all_swaps:
  assumes "i < 64" "j < 64"
  shows "swap_bit 0 (swap_bit 1 (swap_bit 2 (swap_bit 3 (swap_bit 4 (swap_bit 5 (i, j)))))) = (j, i)"
proof -
  have "n < 6 \<Longrightarrow> n \<in> {0, 1, 2, 3, 4, 5}" for n :: nat by auto
  then show ?thesis
    using assms unfolding less_64_bits
    by (intro prod_eqI bit_eqI) (auto simp: swap_bit_bits)
qed

text \<open>The kernel transposes.\<close>

lemma transpose_64x64_bit:
  assumes "length m = 64"
  shows "length (transpose_64x64 m) = 64" "i < 64 \<Longrightarrow> j < 64 \<Longrightarrow> bit (transpose_64x64 m ! i) j = bit (m ! j) i"
proof -
  note S = swap_blocks_bit
  let ?m1 = "swap_blocks_64 1 (block_masks ! 0) m"
  let ?m2 = "swap_blocks_64 2 (block_masks ! 1) ?m1"
  let ?m3 = "swap_blocks_64 4 (block_masks ! 2) ?m2"
  let ?m4 = "swap_blocks_64 8 (block_masks ! 3) ?m3"
  let ?m5 = "swap_blocks_64 16 (block_masks ! 4) ?m4"
  let ?m6 = "swap_blocks_64 32 (block_masks ! 5) ?m5"
  have len: "length ?m1 = 64" "length ?m2 = 64" "length ?m3 = 64" "length ?m4 = 64" "length ?m5 = 64" "length ?m6 = 64"
    using S(1) [of 0 m] S(1) [of 1 ?m1] S(1) [of 2 ?m2] S(1) [of 3 ?m3] S(1) [of 4 ?m4] S(1) [of 5 ?m5] assms by simp_all
  have t: "transpose_64x64 m = ?m6" by (simp add: transpose_64x64_def Let_def)
  show "length (transpose_64x64 m) = 64" unfolding t by (rule len(6))
  have round: "bit (swap_blocks_64 (2 ^ k) (block_masks ! k) u ! fst p) (snd p) = bit (u ! fst (swap_bit k p)) (snd (swap_bit k p))
      \<and> fst (swap_bit k p) < 64 \<and> snd (swap_bit k p) < 64"
    if "k < 6" "length u = 64" "fst p < 64" "snd p < 64" for k u p
    using S(2) [OF that] swap_bit_less [OF that(3,4,1)] by simp
  assume i: "i < 64" and j: "j < 64"
  let ?p5 = "swap_bit 5 (i, j)"
  let ?p4 = "swap_bit 4 ?p5" let ?p3 = "swap_bit 3 ?p4" let ?p2 = "swap_bit 2 ?p3" let ?p1 = "swap_bit 1 ?p2"
  have b5: "bit (?m6 ! i) j = bit (?m5 ! fst ?p5) (snd ?p5)" "fst ?p5 < 64" "snd ?p5 < 64"
    using round [of 5 ?m5 "(i, j)"] len(5) i j by simp_all
  have b4: "bit (?m5 ! fst ?p5) (snd ?p5) = bit (?m4 ! fst ?p4) (snd ?p4)" "fst ?p4 < 64" "snd ?p4 < 64"
    using round [of 4 ?m4 ?p5] len(4) b5(2,3) by simp_all
  have b3: "bit (?m4 ! fst ?p4) (snd ?p4) = bit (?m3 ! fst ?p3) (snd ?p3)" "fst ?p3 < 64" "snd ?p3 < 64"
    using round [of 3 ?m3 ?p4] len(3) b4(2,3) by simp_all
  have b2: "bit (?m3 ! fst ?p3) (snd ?p3) = bit (?m2 ! fst ?p2) (snd ?p2)" "fst ?p2 < 64" "snd ?p2 < 64"
    using round [of 2 ?m2 ?p3] len(2) b3(2,3) by simp_all
  have b1: "bit (?m2 ! fst ?p2) (snd ?p2) = bit (?m1 ! fst ?p1) (snd ?p1)" "fst ?p1 < 64" "snd ?p1 < 64"
    using round [of 1 ?m1 ?p2] len(1) b2(2,3) by simp_all
  have b0: "bit (?m1 ! fst ?p1) (snd ?p1) = bit (m ! fst (swap_bit 0 ?p1)) (snd (swap_bit 0 ?p1))"
    using round [of 0 m ?p1] assms b1(2,3) by simp
  have "bit (transpose_64x64 m ! i) j = bit (m ! fst (swap_bit 0 ?p1)) (snd (swap_bit 0 ?p1))"
    unfolding t b5(1) b4(1) b3(1) b2(1) b1(1) b0 ..
  then show "bit (transpose_64x64 m ! i) j = bit (m ! j) i" by (simp only: all_swaps [OF i j] fst_conv snd_conv)
qed

section \<open>The 8 by 64 kernel\<close>

lemma delta_swap_bit:
  assumes "n < 64" "\<And>i. i < 64 \<Longrightarrow> bit mk i \<Longrightarrow> i + d < 64 \<and> \<not> bit mk (i + d)" "0 < d"
  shows "bit (delta_swap x mk d) n =
    bit x (if bit mk n then n + d else if d \<le> n \<and> bit mk (n - d) then n - d else n)"
proof (cases "d \<le> n \<and> bit mk (n - d)")
  case True
  with assms(1) have "\<not> bit mk n" using assms(2) [of "n - d"] by simp
  with True assms(1) show ?thesis
    by (auto simp: delta_swap_def Let_def bit_xor_iff bit_and_iff bit_drop_bit_eq bit_push_bit_iff)
next
  case False
  with assms(1) show ?thesis
    by (auto simp: delta_swap_def Let_def bit_xor_iff bit_and_iff bit_drop_bit_eq bit_push_bit_iff add.commute)
qed

definition delta_source :: "u64 \<Rightarrow> nat \<Rightarrow> nat \<Rightarrow> nat" where
  "delta_source mk d n = (if bit mk n then n + d else if d \<le> n \<and> bit mk (n - d) then n - d else n)"

definition good_delta :: "u64 \<Rightarrow> nat \<Rightarrow> bool" where
  "good_delta mk d \<longleftrightarrow> 0 < d \<and> list_all (\<lambda>i. bit mk i \<longrightarrow> i + d < 64 \<and> \<not> bit mk (i + d)) [0..<64]"

lemma delta_swap_source:
  assumes "good_delta mk d" "n < 64"
  shows "bit (delta_swap x mk d) n = bit x (delta_source mk d n)" "delta_source mk d n < 64"
  using assms delta_swap_bit [OF assms(2), of mk d x]
  by (auto simp: good_delta_def list_all_iff delta_source_def)

lemma good_deltas: "good_delta 0x00AA00AA00AA00AA 7" "good_delta 0x0000CCCC0000CCCC 14" "good_delta 0x00000000F0F0F0F0 28"
  by code_simp+

lemma delta_sources: "list_all (\<lambda>n. delta_source 0x00AA00AA00AA00AA 7 (delta_source 0x0000CCCC0000CCCC 14
    (delta_source 0x00000000F0F0F0F0 28 n)) = 8 * (n mod 8) + n div 8) [0..<64]"
  by code_simp

lemma pack_bytes_bit:
  assumes "length w = 8" "n < 64"
  shows "bit (pack_bytes w b) n = bit (w ! (n div 8)) (b * 8 + n mod 8)"
proof -
  have "k \<le> 8 \<Longrightarrow> bit (fold (\<lambda>word_idx x. x OR push_bit (word_idx * 8) (drop_bit (b * 8) (w ! word_idx) AND 0xFF)) [0..<k] 0) n =
      (n < k * 8 \<and> bit (w ! (n div 8)) (b * 8 + n mod 8))" for k
  proof (induction k)
    case 0
    then show ?case by simp
  next
    case (Suc k)
    have m: "bit (0xFF :: u64) i = (i < 8)" for i
    proof -
      have "(0xFF :: u64) = mask 8" by (simp add: mask_eq_decr_exp)
      then show ?thesis by (simp only: bit_mask_iff) auto
    qed
    show ?case
    proof (cases "k * 8 \<le> n \<and> n < Suc k * 8")
      case True
      then have k: "n div 8 = k" by (auto simp: div_nat_eqI)
      then have e: "n - k * 8 = n mod 8" by (simp add: modulo_nat_def)
      have "bit (push_bit (k * 8) (drop_bit (b * 8) (w ! k) AND 0xFF)) n = bit (w ! (n div 8)) (b * 8 + n mod 8)"
        using True assms(2) unfolding bit_push_bit_iff bit_and_iff bit_drop_bit_eq m e by (simp add: k)
      with True Suc show ?thesis by (simp add: bit_or_iff)
    next
      case False
      have "\<not> bit (push_bit (k * 8) (drop_bit (b * 8) (w ! k) AND 0xFF)) n"
        using False unfolding bit_push_bit_iff bit_and_iff m by auto
      with False Suc show ?thesis by (auto simp: bit_or_iff)
    qed
  qed
  from this [of 8] assms show ?thesis by (simp add: pack_bytes_def)
qed

text \<open>Byte \<open>j\<close> of output word \<open>b\<close> collects bit \<open>8 b + j\<close> of the eight input words.\<close>

lemma transpose_8x64_bit:
  assumes "length w = 8" "b < 8" "i < 8" "j < 8"
  shows "bit (transpose_8x64 w ! b) (j * 8 + i) = bit (w ! i) (b * 8 + j)"
proof -
  let ?n = "j * 8 + i"
  have n: "?n < 64" "?n mod 8 = i" "?n div 8 = j" using assms by auto
  have "bit (transpose_8x64 w ! b) ?n = bit (pack_bytes w b) (8 * (?n mod 8) + ?n div 8)"
    using assms(2) n(1) delta_sources delta_swap_source [OF good_deltas(3) n(1)]
    by (simp add: transpose_8x64_def Let_def delta_swap_source [OF good_deltas(1)] delta_swap_source [OF good_deltas(2)] list_all_iff)
  also have "\<dots> = bit (w ! i) (b * 8 + j)"
    using pack_bytes_bit [OF assms(1), of "8 * i + j" b] assms(3,4) n by simp
  finally show ?thesis .
qed

section \<open>Tiles\<close>

lemma row_words_run:
  assumes "mat_ok m" "i < row_count m"
  shows "row_words m i = Some (words (row_blocks m i))" "length (words (row_blocks m i)) = rowstride m * 8"
    "w < rowstride m * 8 \<Longrightarrow> b < 64 \<Longrightarrow> bit (words (row_blocks m i) ! w) b = mat_bit m i (w * 64 + b)"
proof -
  note ok = row_blocks_ok [OF assms]
  show "row_words m i = Some (words (row_blocks m i))" using assms by (simp add: row_words_def mat_row_run)
  show len: "length (words (row_blocks m i)) = rowstride m * 8" using ok by (simp add: length_words)
  assume w: "w < rowstride m * 8" "b < 64"
  then have "(w * 64 + b) div 64 = w" "(w * 64 + b) mod 64 = b" by auto
  then show "bit (words (row_blocks m i) ! w) b = mat_bit m i (w * 64 + b)"
    using w len blocks_bit_words [of "row_blocks m i"] ok assms(2) by (auto simp: mat_bit_def lift_bit_def)
qed

lemma row_words_update_run:
  assumes "mat_ok m" "i < row_count m" "w < rowstride m * 8"
  shows "\<exists>n. row_words_update i (\<lambda>ws. update_opt ws w v) m = Some n \<and> same_shape n m \<and>
    mat_bit n = (mat_bit m)(i := (\<lambda>j. if j div 64 = w then bit v (j mod 64) else mat_bit m i j))"
proof -
  note ok = row_blocks_ok [OF assms(1,2)]
  let ?ws = "(words (row_blocks m i))[w := v]" and ?row = "unwords (rowstride m) ((words (row_blocks m i))[w := v])"
  have len: "length (words (row_blocks m i)) = rowstride m * 8" using ok by (simp add: length_words)
  have row: "blocks_ok ?row" "length ?row = rowstride m" "words ?row = ?ws"
    using words_unwords [of ?ws "rowstride m"] len by auto
  have "blocks_bit ?row j = (if j div 64 = w then bit v (j mod 64) else mat_bit m i j)" for j
    using blocks_bit_words [OF row(1)] blocks_bit_words [of "row_blocks m i"] ok assms(2,3) len row(3)
    by (auto simp: lift_bit_def mat_bit_def less_mult_imp_div_less nth_list_update)
  moreover have "row_words_update i (\<lambda>ws. update_opt ws w v) m = Some (put_row i ?row m)"
    unfolding row_words_update_def
    by (rule mat_row_update_run [OF assms(1,2) _ row(2)]) (use ok len assms(3) in simp)
  ultimately show ?thesis
    using put_row_ok [OF assms(1,2) row(1,2)] put_row_bit [OF assms(1,2) row(2)]
    by (auto simp: same_shape_def fun_eq_iff)
qed

text \<open>Reading a tile, whole or partial.\<close>

lemma read_loop:
  assumes "mat_ok m" "c \<le> length tile" "r0 + c \<le> row_count m" "w < rowstride m * 8"
  shows "\<exists>t. ofold (\<lambda>k tile. do { ws \<leftarrow> row_words m (r0 + k); word \<leftarrow> nth_opt ws w; Some (tile[k := word]) }) [0..<c] tile = Some t \<and>
    length t = length tile \<and> (\<forall>k < length tile. t ! k = (if k < c then words (row_blocks m (r0 + k)) ! w else tile ! k))"
proof (rule ofold_upt_inv)
  show "length tile = length tile \<and>
      (\<forall>k < length tile. tile ! k = (if k < 0 then words (row_blocks m (r0 + k)) ! w else tile ! k))" by simp
next
  fix k t assume k: "k < c" and t: "length t = length tile \<and>
      (\<forall>i < length tile. t ! i = (if i < k then words (row_blocks m (r0 + i)) ! w else tile ! i))"
  have r: "r0 + k < row_count m" using k assms(3) by simp
  note rw = row_words_run [OF assms(1) r]
  have "do { ws \<leftarrow> row_words m (r0 + k); word \<leftarrow> nth_opt ws w; Some (t[k := word]) } =
      Some (t[k := words (row_blocks m (r0 + k)) ! w])"
    using rw(1,2) assms(4) by simp
  then show "\<exists>t'. do { ws \<leftarrow> row_words m (r0 + k); word \<leftarrow> nth_opt ws w; Some (t[k := word]) } = Some t' \<and>
      length t' = length tile \<and>
      (\<forall>i < length tile. t' ! i = (if i < Suc k then words (row_blocks m (r0 + i)) ! w else tile ! i))"
    using t k assms(2) by (auto simp: nth_list_update less_Suc_eq)
qed

lemma write_loop:
  assumes "mat_ok m" "c0 + c \<le> row_count m" "w < rowstride m * 8"
  shows "\<exists>t. ofold (\<lambda>k. row_words_update (c0 + k) (\<lambda>ws. update_opt ws w (tile ! k))) [0..<c] m = Some t \<and> same_shape t m \<and>
    mat_bit t = (\<lambda>j i. if c0 \<le> j \<and> j < c0 + c \<and> i div 64 = w then bit (tile ! (j - c0)) (i mod 64) else mat_bit m j i)"
proof (rule ofold_upt_inv)
  show "same_shape m m \<and> mat_bit m = (\<lambda>j i. if c0 \<le> j \<and> j < c0 + 0 \<and> i div 64 = w
      then bit (tile ! (j - c0)) (i mod 64) else mat_bit m j i)"
    using assms(1) by (auto simp: same_shape_refl fun_eq_iff)
next
  fix k t assume k: "k < c" and t: "same_shape t m \<and> mat_bit t = (\<lambda>j i. if c0 \<le> j \<and> j < c0 + k \<and> i div 64 = w
      then bit (tile ! (j - c0)) (i mod 64) else mat_bit m j i)"
  note sh = same_shapeD [OF conjunct1 [OF t]]
  obtain n where n: "row_words_update (c0 + k) (\<lambda>ws. update_opt ws w (tile ! k)) t = Some n" "same_shape n t"
      "mat_bit n = (mat_bit t)(c0 + k := (\<lambda>j. if j div 64 = w then bit (tile ! k) (j mod 64) else mat_bit t (c0 + k) j))"
    using row_words_update_run [OF sh(1), of "c0 + k" w "tile ! k"] k assms(2,3) sh(2,4) by auto
  have "mat_bit n = (\<lambda>j i. if c0 \<le> j \<and> j < c0 + Suc k \<and> i div 64 = w
      then bit (tile ! (j - c0)) (i mod 64) else mat_bit m j i)"
    unfolding n(3) conjunct2 [OF t] by (auto simp: fun_eq_iff)
  with n same_shape_trans [OF n(2) conjunct1 [OF t]]
  show "\<exists>n. row_words_update (c0 + k) (\<lambda>ws. update_opt ws w (tile ! k)) t = Some n \<and> same_shape n m \<and>
      mat_bit n = (\<lambda>j i. if c0 \<le> j \<and> j < c0 + Suc k \<and> i div 64 = w then bit (tile ! (j - c0)) (i mod 64) else mat_bit m j i)"
    by blast
qed

text \<open>The result after the tiles \<open>S\<close>, given by block row and block column, have been moved.\<close>

definition moved :: "(nat \<times> nat) set \<Rightarrow> aligned_bitmatrix \<Rightarrow> aligned_bitmatrix \<Rightarrow> bool" where
  "moved S m res \<longleftrightarrow> mat_ok res \<and> row_count res = mat_cols m \<and> mat_cols res = row_count m \<and>
     mat_bit res = (\<lambda>j i. (i div 64, j div 64) \<in> S \<and> j < mat_cols m \<and> i < row_count m \<and> mat_bit m i j)"

lemma word_in_stride: "k * 64 < n \<Longrightarrow> k < rowstride_of n * 8"
  using block_count_ge [of n] by (simp add: rowstride_block_count)

lemma tile_moved:
  assumes "mat_ok m" "moved S m res" "br * 64 < row_count m" "bc * 64 < mat_cols m" "length tile = 64"
    and "rc = min 64 (row_count m - br * 64)" "cc = min 64 (mat_cols m - bc * 64)" "rc < 64 \<Longrightarrow> tile = replicate 64 0"
  shows "\<exists>t res'. read_tile_partial m br bc tile rc = Some t \<and> length t = 64 \<and>
    write_tile_partial br bc (transpose_64x64 t) cc res = Some res' \<and> moved (insert (br, bc) S) m res'"
proof -
  have w: "bc < rowstride m * 8" "br < rowstride res * 8"
    using word_in_stride [OF assms(3)] word_in_stride [OF assms(4)] assms(2) by (simp_all add: rowstride_def moved_def)
  have bounds: "rc \<le> 64" "br * 64 + rc \<le> row_count m" "cc \<le> 64" "bc * 64 + cc \<le> mat_cols m"
    using assms(3,4,6,7) by simp_all
  obtain t where t: "read_tile_partial m br bc tile rc = Some t" "length t = 64"
      "\<forall>k < 64. t ! k = (if k < rc then words (row_blocks m (br * 64 + k)) ! bc else tile ! k)"
    using read_loop [OF assms(1) _ bounds(2) w(1), of tile] bounds(1) assms(5)
    by (auto simp: read_tile_partial_def min_absorb1)
  have tb: "bit (t ! k) b = (br * 64 + k < row_count m \<and> mat_bit m (br * 64 + k) (bc * 64 + b))" if "k < 64" "b < 64" for k b
  proof (cases "k < rc")
    case True
    then have "br * 64 + k < row_count m" using assms(6) by auto
    with True that t(3) row_words_run(3) [OF assms(1) this w(1)] show ?thesis by simp
  next
    case False
    with that assms(6,8) t(3) show ?thesis by (auto simp: min_def split: if_splits)
  qed
  note tr = transpose_64x64_bit [OF t(2)]
  have res: "mat_ok res" "row_count res = mat_cols m" "mat_cols res = row_count m"
      "mat_bit res = (\<lambda>j i. (i div 64, j div 64) \<in> S \<and> j < mat_cols m \<and> i < row_count m \<and> mat_bit m i j)"
    using assms(2) by (auto simp: moved_def)
  obtain res' where r: "write_tile_partial br bc (transpose_64x64 t) cc res = Some res'" "same_shape res' res"
      "mat_bit res' = (\<lambda>j i. if bc * 64 \<le> j \<and> j < bc * 64 + cc \<and> i div 64 = br
        then bit (transpose_64x64 t ! (j - bc * 64)) (i mod 64) else mat_bit res j i)"
    using write_loop [OF res(1) _ w(2), of "bc * 64" cc "transpose_64x64 t"] bounds(3,4) res(2) tr(1)
    by (auto simp: write_tile_partial_def min_absorb1)
  have "mat_bit res' j i = ((i div 64, j div 64) \<in> insert (br, bc) S \<and> j < mat_cols m \<and> i < row_count m \<and> mat_bit m i j)" for j i
  proof (cases "bc * 64 \<le> j \<and> j < bc * 64 + cc \<and> i div 64 = br")
    case True
    then have j: "j div 64 = bc" "j - bc * 64 < 64" "bc * 64 + (j - bc * 64) = j" "j < mat_cols m"
      using assms(7) by (auto simp: div_nat_eqI)
    have i: "br * 64 + i mod 64 = i" using True by (metis div_mult_mod_eq)
    have "mat_bit res' j i = bit (t ! (i mod 64)) (j - bc * 64)"
      using True tr(2) [OF j(2), of "i mod 64"] by (simp add: r(3))
    with tb [of "i mod 64" "j - bc * 64"] i j True show ?thesis by simp
  next
    case False
    have "\<not> (j div 64 = bc \<and> i div 64 = br \<and> j < mat_cols m)"
    proof
      assume "j div 64 = bc \<and> i div 64 = br \<and> j < mat_cols m"
      moreover from this have "bc * 64 \<le> j" "j < bc * 64 + 64"
        using div_mult_mod_eq [of j 64] mod_less_divisor [of 64 j] by linarith+
      ultimately show False using False assms(7) by auto
    qed
    with False show ?thesis by (auto simp: r(3) res(4))
  qed
  then have "moved (insert (br, bc) S) m res'"
    using r(2) res by (auto simp: moved_def same_shape_def fun_eq_iff)
  with t(1,2) r(1) show ?thesis by blast
qed

section \<open>The four phases\<close>

lemma full_tile: "length tile = 64 \<Longrightarrow> read_tile m br bc tile = read_tile_partial m br bc tile 64"
    "length tile = 64 \<Longrightarrow> write_tile br bc tile = write_tile_partial br bc tile 64"
  by (simp_all add: read_tile_def read_tile_partial_def write_tile_def write_tile_partial_def)

lemma block_below: "k < (n :: nat) div 64 \<Longrightarrow> k * 64 < n \<and> 64 = min 64 (n - k * 64)"
proof -
  assume "k < n div 64"
  then have "Suc k * 64 \<le> n" by (metis Suc_leI less_eq_div_iff_mult_less_eq zero_less_numeral)
  then show ?thesis by simp
qed

lemma block_last: "0 < (n :: nat) mod 64 \<Longrightarrow> n div 64 * 64 < n \<and> n mod 64 = min 64 (n - n div 64 * 64)"
proof
  assume "0 < n mod 64"
  then show "n div 64 * 64 < n" using div_mult_mod_eq [of n 64] by linarith
  show "n mod 64 = min 64 (n - n div 64 * 64)"
    using mod_less_divisor [of 64 n] by (simp add: minus_div_mult_eq_mod)
qed

lemma div_cover: "(i :: nat) < n \<Longrightarrow> i div 64 < n div 64 \<or> i div 64 = n div 64 \<and> 0 < n mod 64"
proof -
  assume i: "i < n"
  then have "i div 64 \<le> n div 64" by (simp add: div_le_mono)
  moreover have "0 < n mod 64" if "i div 64 = n div 64"
    using i that div_mult_mod_eq [of i 64] div_mult_mod_eq [of n 64] by (metis add_0_right gr0I le_add1 linorder_not_less)
  ultimately show ?thesis by linarith
qed

lemma full_step:
  assumes "mat_ok m" "moved S m res" "length tile = 64" "br < row_count m div 64"
    and "bc * 64 < mat_cols m" "cc = min 64 (mat_cols m - bc * 64)"
  shows "\<exists>t res'. read_tile m br bc tile = Some t \<and> length (transpose_64x64 t) = 64 \<and>
    write_tile_partial br bc (transpose_64x64 t) cc res = Some res' \<and> moved (insert (br, bc) S) m res'"
  using tile_moved [OF assms(1,2) _ assms(5,3) _ assms(6), of br 64] block_below [OF assms(4)]
  by (auto simp: full_tile assms(3) transpose_64x64_bit(1))

lemma last_step:
  assumes "mat_ok m" "moved S m res" "0 < row_count m mod 64"
    and "bc * 64 < mat_cols m" "cc = min 64 (mat_cols m - bc * 64)"
  shows "\<exists>t res'. read_tile_partial m (row_count m div 64) bc (replicate 64 0) (row_count m mod 64) = Some t \<and>
    length (transpose_64x64 t) = 64 \<and>
    write_tile_partial (row_count m div 64) bc (transpose_64x64 t) cc res = Some res' \<and>
    moved (insert (row_count m div 64, bc) S) m res'"
  using tile_moved [OF assms(1,2) _ assms(4) _ _ assms(5), of "row_count m div 64" "replicate 64 0" "row_count m mod 64"]
    block_last [OF assms(3)] by (auto simp: transpose_64x64_bit(1))

lemma phase_one:
  assumes "mat_ok m" "moved {} m res" "length tile = 64"
  shows "\<exists>st. ofold (\<lambda>br. ofold (\<lambda>bc (res, tile). do {
        tile \<leftarrow> read_tile m br bc tile;
        let tile = transpose_64x64 tile;
        res \<leftarrow> write_tile br bc tile res;
        Some (res, tile) }) [0..<mat_cols m div 64]) [0..<row_count m div 64] (res, tile) = Some st \<and>
    moved ({0..<row_count m div 64} \<times> {0..<mat_cols m div 64}) m (fst st) \<and> length (snd st) = 64"
proof (rule ofold_upt_inv)
  show "moved ({0..<0} \<times> {0..<mat_cols m div 64}) m (fst (res, tile)) \<and> length (snd (res, tile)) = 64"
    using assms by simp
next
  fix br and st :: "aligned_bitmatrix \<times> u64 list" assume br: "br < row_count m div 64"
    and st: "moved ({0..<br} \<times> {0..<mat_cols m div 64}) m (fst st) \<and> length (snd st) = 64"
  let ?S = "\<lambda>k. {0..<br} \<times> {0..<mat_cols m div 64} \<union> {br} \<times> {0..<k}"
  have row: "\<exists>st'. ofold (\<lambda>bc (res, tile). do {
        tile \<leftarrow> read_tile m br bc tile;
        let tile = transpose_64x64 tile;
        res \<leftarrow> write_tile br bc tile res;
        Some (res, tile) }) [0..<mat_cols m div 64] st = Some st' \<and>
      moved (?S (mat_cols m div 64)) m (fst st') \<and> length (snd st') = 64"
  proof (rule ofold_upt_inv [where P = "\<lambda>k u. moved (?S k) m (fst u) \<and> length (snd u) = 64"])
    show "moved (?S 0) m (fst st) \<and> length (snd st) = 64" using st by simp
  next
    fix bc and u :: "aligned_bitmatrix \<times> u64 list" assume bc: "bc < mat_cols m div 64" and u: "moved (?S bc) m (fst u) \<and> length (snd u) = 64"
    obtain res tile where [simp]: "u = (res, tile)" by (cases u)
    obtain t res' where "read_tile m br bc tile = Some t" "length (transpose_64x64 t) = 64"
        "write_tile_partial br bc (transpose_64x64 t) 64 res = Some res'" "moved (insert (br, bc) (?S bc)) m res'"
      using full_step [OF assms(1) _ _ br, of "?S bc" res tile bc 64] block_below [OF bc] u by auto
    moreover have "insert (br, bc) (?S bc) = ?S (Suc bc)" by auto
    ultimately show "\<exists>u'. (case u of (res, tile) \<Rightarrow> do {
        tile \<leftarrow> read_tile m br bc tile;
        let tile = transpose_64x64 tile;
        res \<leftarrow> write_tile br bc tile res;
        Some (res, tile) }) = Some u' \<and> moved (?S (Suc bc)) m (fst u') \<and> length (snd u') = 64"
      by (simp add: full_tile(2))
  qed
  have all: "?S (mat_cols m div 64) = {0..<Suc br} \<times> {0..<mat_cols m div 64}" by auto
  show "\<exists>st'. ofold (\<lambda>bc (res, tile). do {
        tile \<leftarrow> read_tile m br bc tile;
        let tile = transpose_64x64 tile;
        res \<leftarrow> write_tile br bc tile res;
        Some (res, tile) }) [0..<mat_cols m div 64] st = Some st' \<and>
      moved ({0..<Suc br} \<times> {0..<mat_cols m div 64}) m (fst st') \<and> length (snd st') = 64"
    using row unfolding all .
qed

lemma phase_two:
  assumes "mat_ok m" "moved S m res" "length tile = 64" "0 < mat_cols m mod 64"
  shows "\<exists>st. ofold (\<lambda>br (res, tile). do {
        tile \<leftarrow> read_tile m br (mat_cols m div 64) tile;
        let tile = transpose_64x64 tile;
        res \<leftarrow> write_tile_partial br (mat_cols m div 64) tile (mat_cols m mod 64) res;
        Some (res, tile) }) [0..<row_count m div 64] (res, tile) = Some st \<and>
    moved (S \<union> {0..<row_count m div 64} \<times> {mat_cols m div 64}) m (fst st) \<and> length (snd st) = 64"
proof (rule ofold_upt_inv)
  show "moved (S \<union> {0..<0} \<times> {mat_cols m div 64}) m (fst (res, tile)) \<and> length (snd (res, tile)) = 64"
    using assms by simp
next
  fix br and u :: "aligned_bitmatrix \<times> u64 list" assume br: "br < row_count m div 64"
    and u: "moved (S \<union> {0..<br} \<times> {mat_cols m div 64}) m (fst u) \<and> length (snd u) = 64"
  obtain res tile where [simp]: "u = (res, tile)" by (cases u)
  let ?S = "S \<union> {0..<br} \<times> {mat_cols m div 64}"
  obtain t res' where "read_tile m br (mat_cols m div 64) tile = Some t" "length (transpose_64x64 t) = 64"
      "write_tile_partial br (mat_cols m div 64) (transpose_64x64 t) (mat_cols m mod 64) res = Some res'"
      "moved (insert (br, mat_cols m div 64) ?S) m res'"
    using full_step [OF assms(1) _ _ br, of ?S res tile "mat_cols m div 64" "mat_cols m mod 64"] block_last [OF assms(4)] u
    by auto
  moreover have "insert (br, mat_cols m div 64) ?S = S \<union> {0..<Suc br} \<times> {mat_cols m div 64}" by auto
  ultimately show "\<exists>u'. (case u of (res, tile) \<Rightarrow> do {
        tile \<leftarrow> read_tile m br (mat_cols m div 64) tile;
        let tile = transpose_64x64 tile;
        res \<leftarrow> write_tile_partial br (mat_cols m div 64) tile (mat_cols m mod 64) res;
        Some (res, tile) }) = Some u' \<and> moved (S \<union> {0..<Suc br} \<times> {mat_cols m div 64}) m (fst u') \<and> length (snd u') = 64"
    by simp
qed

lemma phase_three:
  assumes "mat_ok m" "moved S m res" "0 < row_count m mod 64"
  shows "\<exists>res'. ofold (\<lambda>bc res. do {
        tile \<leftarrow> read_tile_partial m (row_count m div 64) bc (replicate 64 0) (row_count m mod 64);
        let tile = transpose_64x64 tile;
        write_tile (row_count m div 64) bc tile res }) [0..<mat_cols m div 64] res = Some res' \<and>
    moved (S \<union> {row_count m div 64} \<times> {0..<mat_cols m div 64}) m res'"
proof (rule ofold_upt_inv)
  show "moved (S \<union> {row_count m div 64} \<times> {0..<0}) m res" using assms by simp
next
  let ?R = "row_count m div 64"
  fix bc u assume bc: "bc < mat_cols m div 64" and u: "moved (S \<union> {?R} \<times> {0..<bc}) m u"
  obtain t u' where "read_tile_partial m ?R bc (replicate 64 0) (row_count m mod 64) = Some t"
      "length (transpose_64x64 t) = 64" "write_tile_partial ?R bc (transpose_64x64 t) 64 u = Some u'"
      "moved (insert (?R, bc) (S \<union> {?R} \<times> {0..<bc})) m u'"
    using last_step [OF assms(1) u assms(3), of bc 64] block_below [OF bc] by auto
  moreover have "insert (?R, bc) (S \<union> {?R} \<times> {0..<bc}) = S \<union> {?R} \<times> {0..<Suc bc}" by auto
  ultimately show "\<exists>u'. do {
        tile \<leftarrow> read_tile_partial m ?R bc (replicate 64 0) (row_count m mod 64);
        let tile = transpose_64x64 tile;
        write_tile ?R bc tile u } = Some u' \<and> moved (S \<union> {?R} \<times> {0..<Suc bc}) m u'"
    by (simp add: full_tile(2))
qed

lemma mat_transposed_run:
  assumes "mat_ok m"
  shows "\<exists>t. mat_transposed m = Some t \<and> mat_ok t \<and> row_count t = mat_cols m \<and> mat_cols t = row_count m \<and>
    mat_bit t = (\<lambda>j i. j < mat_cols m \<and> i < row_count m \<and> mat_bit m i j)"
proof -
  let ?R = "row_count m div 64" and ?C = "mat_cols m div 64" and ?e = "replicate 64 (0 :: u64)"
  let ?r = "row_count m mod 64" and ?c = "mat_cols m mod 64"
  let ?f1 = "\<lambda>br. ofold (\<lambda>bc (res, tile). do { tile \<leftarrow> read_tile m br bc tile; let tile = transpose_64x64 tile;
      res \<leftarrow> write_tile br bc tile res; Some (res, tile) }) [0..<?C]"
  let ?f2 = "\<lambda>br (res, tile). do { tile \<leftarrow> read_tile m br ?C tile; let tile = transpose_64x64 tile;
      res \<leftarrow> write_tile_partial br ?C tile ?c res; Some (res, tile) }"
  let ?f3 = "\<lambda>bc res. do { tile \<leftarrow> read_tile_partial m ?R bc ?e ?r; let tile = transpose_64x64 tile;
      write_tile ?R bc tile res }"
  let ?f4 = "\<lambda>res. do { tile \<leftarrow> read_tile_partial m ?R ?C ?e ?r; let tile = transpose_64x64 tile;
      write_tile_partial ?R ?C tile ?c res }"
  have "moved {} m (mat_zeros (mat_cols m) (row_count m))" by (simp add: moved_def mat_zeros_ok)
  from phase_one [OF assms this, of ?e] obtain r1 t1 where 1:
      "ofold ?f1 [0..<?R] (mat_zeros (mat_cols m) (row_count m), ?e) = Some (r1, t1)" "moved ({0..<?R} \<times> {0..<?C}) m r1"
    by auto
  let ?S2 = "{0..<?R} \<times> {0..<?C} \<union> (if 0 < ?c then {0..<?R} \<times> {?C} else {})"
  obtain r2 t2 where 2: "(if 0 < ?c then ofold ?f2 [0..<?R] (r1, ?e) else Some (r1, ?e)) = Some (r2, t2)" "moved ?S2 m r2"
  proof (cases "0 < ?c")
    case True
    with phase_two [OF assms 1(2), of ?e] that show thesis by auto
  next
    case False
    with 1(2) that show thesis by auto
  qed
  let ?S3 = "?S2 \<union> (if 0 < ?r then {?R} \<times> {0..<?C} \<union> (if 0 < ?c then {(?R, ?C)} else {}) else {})"
  obtain r4 where 4: "(if 0 < ?r then do { res \<leftarrow> ofold ?f3 [0..<?C] r2; if 0 < ?c then ?f4 res else Some res } else Some r2) = Some r4"
      "moved ?S3 m r4"
  proof (cases "0 < ?r")
    case True
    obtain r3 where 3: "ofold ?f3 [0..<?C] r2 = Some r3" "moved (?S2 \<union> {?R} \<times> {0..<?C}) m r3"
      using phase_three [OF assms 2(2) True] by auto
    show thesis
    proof (cases "0 < ?c")
      case c: True
      obtain t r4 where "read_tile_partial m ?R ?C ?e ?r = Some t"
          "write_tile_partial ?R ?C (transpose_64x64 t) ?c r3 = Some r4"
          "moved (insert (?R, ?C) (?S2 \<union> {?R} \<times> {0..<?C})) m r4"
        using last_step [OF assms 3(2) True, of ?C ?c] block_last [OF c] by auto
      moreover have "insert (?R, ?C) (?S2 \<union> {?R} \<times> {0..<?C}) = ?S3" using True c by auto
      ultimately show thesis using 3(1) True c by (intro that [of r4]) simp_all
    next
      case False
      with 3 True show thesis by (intro that [of r3]) auto
    qed
  next
    case False
    with 2(2) show thesis by (intro that [of r2]) auto
  qed
  have cover: "(i div 64, j div 64) \<in> ?S3" if "i < row_count m" "j < mat_cols m" for i j
  proof -
    note div_cover [OF that(1)]
    moreover note div_cover [OF that(2)]
    ultimately show ?thesis using that by auto
  qed
  have "mat_transposed m = Some r4"
    using 1(1) 2(1) 4(1) by (simp add: mat_transposed_def column_count_def Let_def)
  moreover have "mat_ok r4" "row_count r4 = mat_cols m" "mat_cols r4 = row_count m"
    using 4(2) by (simp_all add: moved_def)
  moreover have "mat_bit r4 j i = (j < mat_cols m \<and> i < row_count m \<and> mat_bit m i j)" for i j
  proof -
    have "mat_bit r4 j i = ((i div 64, j div 64) \<in> ?S3 \<and> j < mat_cols m \<and> i < row_count m \<and> mat_bit m i j)"
      using 4(2) unfolding moved_def by (elim conjE) (simp only:)
    with cover [of i j] show ?thesis by blast
  qed
  ultimately show ?thesis by (intro exI [of _ r4]) (simp add: fun_eq_iff)
qed

text \<open>C7. \<open>transposed\<close> never fails, exchanges rows and columns, and leaves no stray bit in the padding
  even when the source has some; transposing twice gives back the entries.\<close>

theorem transposed_transposes:
  assumes "mat_ok m"
  shows "\<exists>t u. mat_transposed m = Some t \<and> mat_transposed t = Some u \<and> mat_ok t \<and> mat_clean t \<and>
    row_count t = mat_cols m \<and> mat_cols t = row_count m \<and> same_shape u m \<and>
    (\<forall>i < row_count m. \<forall>j < mat_cols m. mat_bit t j i = mat_bit m i j \<and> mat_bit u i j = mat_bit m i j)"
proof -
  obtain t where t: "mat_transposed m = Some t" "mat_ok t" "row_count t = mat_cols m" "mat_cols t = row_count m"
      "mat_bit t = (\<lambda>j i. j < mat_cols m \<and> i < row_count m \<and> mat_bit m i j)"
    using mat_transposed_run [OF assms] by blast
  obtain u where "mat_transposed t = Some u" "mat_ok u" "row_count u = row_count m" "mat_cols u = mat_cols m"
      "mat_bit u = (\<lambda>j i. j < row_count m \<and> i < mat_cols m \<and> mat_bit t i j)"
    using mat_transposed_run [OF t(2)] t(3,4) by auto
  with t show ?thesis by (auto simp: mat_clean_def same_shape_def)
qed

theorem transposed_transposes_witness:
  "\<exists>t. mat_transposed (mat_ones 70 3) = Some t \<and> row_count t = 3 \<and> mat_cols t = 70 \<and> mat_clean t"
  using transposed_transposes [of "mat_ones 70 3"] by (auto simp: mat_ones_ok)

end
