(* ===== verification/Tiny_Matrix.thy ===== *)
theory Tiny_Matrix
  imports Matrix_Ops Rref_Spaces
begin

text \<open>
  The small matrices of \<open>matrix/tiny_matrix.rs\<close>: an array of 64-bit rows of a size known at compile
  time, here a list.  A column index of 64 or more is the overflow panic of the shift.  The lemmas
  show that the two-pass elimination (forward below the pivots, then backward above them) gives the
  reduced row echelon form.
\<close>

unbundle bit_operations_syntax

section \<open>Definitions\<close>

definition tiny_matrix_from_bitmatrix :: "nat \<Rightarrow> aligned_bitmatrix \<Rightarrow> u64 list option" where
  "tiny_matrix_from_bitmatrix ROW_COUNT m =
     ofold (\<lambda>row_id. ofold (\<lambda>column_id tiny. do {
         b \<leftarrow> mat_get m (row_id, column_id);
         if b then do { mask \<leftarrow> shl_opt 1 column_id; Some (tiny[row_id := tiny ! row_id XOR mask]) }
         else Some tiny }) [0..<column_count m])
       [0..<ROW_COUNT] (replicate ROW_COUNT 0)"

definition xor_tiny_column :: "nat \<Rightarrow> u64 \<Rightarrow> u64 list \<Rightarrow> u64 list option" where
  "xor_tiny_column column_ix col tiny = do {
     mask \<leftarrow> shl_opt 1 column_ix;
     ofold (\<lambda>row_id tiny. do {
         row_mask \<leftarrow> shl_opt 1 row_id;
         if col AND row_mask \<noteq> 0 then Some (tiny[row_id := tiny ! row_id XOR mask]) else Some tiny })
       [0..<length tiny] tiny }"

definition get_tiny_column :: "u64 list \<Rightarrow> nat \<Rightarrow> u64 option" where
  "get_tiny_column tiny column_ix = do {
     mask \<leftarrow> shl_opt 1 column_ix;
     ofold (\<lambda>row_id col.
         if tiny ! row_id AND mask \<noteq> 0 then do { row_mask \<leftarrow> shl_opt 1 row_id; Some (col XOR row_mask) } else Some col)
       [0..<length tiny] 0 }"

definition tiny_pivot_row :: "u64 list \<Rightarrow> nat \<Rightarrow> nat \<Rightarrow> nat option" where
  "tiny_pivot_row tiny column_id start_row = do {
     column_mask \<leftarrow> shl_opt 1 column_id;
     Some (case filter (\<lambda>row_id. tiny ! row_id AND column_mask \<noteq> 0) [start_row..<length tiny] of
             [] \<Rightarrow> length tiny
           | row_id # _ \<Rightarrow> row_id) }"

definition tiny_reduce_forward :: "nat \<Rightarrow> nat \<Rightarrow> u64 list \<Rightarrow> (nat \<times> u64 list) option" where
  "tiny_reduce_forward column_id start_row tiny = do {
     column_mask \<leftarrow> shl_opt 1 column_id;
     reducing_row \<leftarrow> nth_opt tiny start_row;
     Some (length tiny, map (\<lambda>(i, row). if start_row + 1 \<le> i \<and> row AND column_mask \<noteq> 0
         then row XOR reducing_row else row) (enumerate 0 tiny)) }"

definition tiny_reduce_backward :: "nat \<Rightarrow> nat \<Rightarrow> u64 list \<Rightarrow> (nat \<times> u64 list) option" where
  "tiny_reduce_backward column_id end_row tiny = do {
     column_mask \<leftarrow> shl_opt 1 column_id;
     reducing_row \<leftarrow> nth_opt tiny end_row;
     Some (length tiny, map (\<lambda>(i, row). if i < end_row \<and> row AND column_mask \<noteq> 0
         then row XOR reducing_row else row) (enumerate 0 tiny)) }"

text \<open>The state of the first loop: the matrix, the rank profile, the next row and the rank.\<close>

definition tiny_rref_step ::
  "nat \<Rightarrow> u64 list \<times> nat list \<times> nat \<times> nat \<Rightarrow> (u64 list \<times> nat list \<times> nat \<times> nat) option" where
  "tiny_rref_step column_id = (\<lambda>(tiny, rank_profile, current_row_id, rank). do {
     pivot_row \<leftarrow> tiny_pivot_row tiny column_id current_row_id;
     if pivot_row \<noteq> length tiny then do {
       x \<leftarrow> nth_opt tiny current_row_id;
       y \<leftarrow> nth_opt tiny pivot_row;
       let tiny = tiny[current_row_id := y, pivot_row := x];
       (_, tiny) \<leftarrow> tiny_reduce_forward column_id current_row_id tiny;
       rank_profile \<leftarrow> update_opt rank_profile current_row_id column_id;
       Some (tiny, rank_profile, current_row_id + 1, rank + 1) }
     else Some (tiny, rank_profile, current_row_id, rank) })"

definition tiny_matrix_rref :: "nat \<Rightarrow> u64 list \<Rightarrow> (nat \<times> u64 list) option" where
  "tiny_matrix_rref NUM_COLUMNS tiny = do {
     (tiny, rank_profile, _, rank) \<leftarrow> ofold tiny_rref_step [0..<NUM_COLUMNS] (tiny, replicate 64 0, 0, 0);
     tiny \<leftarrow> ofold (\<lambda>(row_id, column_id) tiny. do {
         (_, tiny) \<leftarrow> tiny_reduce_backward column_id row_id tiny;
         Some tiny }) (take rank (enumerate 0 rank_profile)) tiny;
     Some (rank, tiny) }"

section \<open>Rows of words as a matrix\<close>

definition tiny_bit :: "u64 list \<Rightarrow> bmat" where
  "tiny_bit tiny = (\<lambda>i j. i < length tiny \<and> bit (tiny ! i) j)"

lemma shl_one [simp]: "j < 64 \<Longrightarrow> shl_opt (1 :: u64) j = Some (push_bit j 1)"
  by (simp add: shl_opt_def)

lemma and_one_bit: "j < 64 \<Longrightarrow> (w :: u64) AND push_bit j 1 \<noteq> 0 \<longleftrightarrow> bit w j"
  by (auto simp: word_nonzero_iff_bit bit_and_iff)

lemma and_power_bit: "j < 64 \<Longrightarrow> (w :: u64) AND 2 ^ j = 0 \<longleftrightarrow> \<not> bit w j"
  using and_one_bit [of j w] by auto

lemma xor_power_bit: "j < 64 \<Longrightarrow> bit (w XOR 2 ^ j :: u64) i = (bit w i \<noteq> (i = j))"
  by (auto simp: bit_xor_iff)


lemma tiny_bit_list: "length t = r \<Longrightarrow> (\<And>i j. i < r \<Longrightarrow> bit (t ! i) j = A i j) \<Longrightarrow> i < r \<Longrightarrow> tiny_bit t i j = A i j"
  by (simp add: tiny_bit_def)

section \<open>Adding one row to several others keeps the row space\<close>

definition add_row_if :: "nat \<Rightarrow> bvec \<Rightarrow> bmat \<Rightarrow> bmat" where
  "add_row_if p s A = (\<lambda>i j. A i j \<noteq> (s i \<and> A p j))"

lemma comb_add_row_if:
  assumes "p < r"
  shows "comb r c (add_row_if p s A) j = comb r (\<lambda>i. c i \<noteq> (i = p \<and> xsum r (\<lambda>k. c k \<and> s k))) A j"
proof -
  have "comb r c (add_row_if p s A) j = (xsum r (\<lambda>i. c i \<and> A i j) \<noteq> xsum r (\<lambda>i. c i \<and> s i \<and> A p j))"
    unfolding comb_def add_row_if_def by (rule xsum_dist_right)
  also have "xsum r (\<lambda>i. c i \<and> s i \<and> A p j) = (xsum r (\<lambda>i. c i \<and> s i) \<and> A p j)"
    unfolding conj_assoc [symmetric] by (rule xsum_and_right)
  also have "\<dots> = xsum r (\<lambda>i. (i = p \<and> xsum r (\<lambda>k. c k \<and> s k)) \<and> A i j)"
    using assms by (simp add: xsum_deltas)
  also have "(xsum r (\<lambda>i. c i \<and> A i j) \<noteq> \<dots>) = comb r (\<lambda>i. c i \<noteq> (i = p \<and> xsum r (\<lambda>k. c k \<and> s k))) A j"
    unfolding comb_def by (rule xsum_dist_left [symmetric])
  finally show ?thesis .
qed

lemma add_row_if_twice: "\<not> s p \<Longrightarrow> add_row_if p s (add_row_if p s A) = A"
  by (auto simp: add_row_if_def fun_eq_iff)

lemma row_space_add_row_if:
  assumes "p < r" "\<not> s p"
  shows "in_row_space r n (add_row_if p s A) v = in_row_space r n A v"
proof -
  have one: "in_row_space r n (add_row_if p s A) v \<Longrightarrow> in_row_space r n A v" for A
    unfolding in_row_space_def comb_add_row_if [OF assms(1), of _ s A] by blast
  show ?thesis using one [of A] one [of "add_row_if p s A"] add_row_if_twice [of s p A] assms(2) by auto
qed

lemma row_space_row_swap:
  assumes "a < r" "b < r"
  shows "in_row_space r n (row_swap a b A) v = in_row_space r n A v"
proof -
  have swap: "comb r (\<lambda>i. c (swap_index a b i)) (row_swap a b A) j = comb r c A j" for c A j
    using xsum_swap_index [OF assms, of "\<lambda>i. c i \<and> A i j"] by (simp add: comb_def row_swap_def swap_index_def)
  have twice: "row_swap a b (row_swap a b A) = A" by (simp add: row_swap_def fun_eq_iff)
  have one: "in_row_space r n A v \<Longrightarrow> in_row_space r n (row_swap a b A) v" for A
    unfolding in_row_space_def by (metis swap)
  show ?thesis using one [of A] one [of "row_swap a b A"] twice by metis
qed

lemma in_row_space_cong: "(\<And>i j. i < r \<Longrightarrow> A i j = B i j) \<Longrightarrow> in_row_space r n A v = in_row_space r n B v"
  unfolding in_row_space_def by (metis comb_cong)

section \<open>The two passes\<close>

text \<open>Echelon form: every pivot is the first entry of its row and the last of its column; the
  rows after the pivots are zero left of column \<open>c\<close>.\<close>

definition echelon_upto :: "nat \<Rightarrow> bmat \<Rightarrow> nat list \<Rightarrow> nat \<Rightarrow> bool" where
  "echelon_upto r A piv c \<longleftrightarrow> length piv \<le> r \<and> sorted_wrt (<) piv \<and> (\<forall>p \<in> set piv. p < c) \<and>
     (\<forall>k < length piv. A k (piv ! k)) \<and>
     (\<forall>k < length piv. \<forall>i < r. k < i \<longrightarrow> \<not> A i (piv ! k)) \<and>
     (\<forall>k < length piv. \<forall>j < piv ! k. \<not> A k j) \<and>
     (\<forall>i < r. length piv \<le> i \<longrightarrow> (\<forall>j < c. \<not> A i j))"

lemma echelon_upto_skip:
  assumes "echelon_upto r A piv c" "\<And>i. i < r \<Longrightarrow> length piv \<le> i \<Longrightarrow> \<not> A i c"
  shows "echelon_upto r A piv (Suc c)"
  using assms by (auto simp: echelon_upto_def less_Suc_eq)

lemma echelon_upto_step:
  assumes "echelon_upto r A piv c" "length piv \<le> p" "p < r" "A p c"
  shows "echelon_upto r (add_row_if (length piv) (\<lambda>i. length piv < i \<and> row_swap (length piv) p A i c)
    (row_swap (length piv) p A)) (piv @ [c]) (Suc c)"
proof -
  let ?l = "length piv"
  let ?S = "row_swap ?l p A"
  let ?E = "add_row_if ?l (\<lambda>i. ?l < i \<and> ?S i c) ?S"
  note e = assms(1)[unfolded echelon_upto_def]
  have l: "?l < r" using assms by linarith
  have piv_lt: "piv ! k < c" if "k < ?l" for k using e that by auto
  have same: "?S i = A i" if "i < ?l" for i
    using that assms(2) by (auto simp: row_swap_def swap_index_def)
  have low: "\<not> ?S i j" if "?l \<le> i" "i < r" "j < c" for i j
  proof -
    have "?l \<le> swap_index ?l p i" "swap_index ?l p i < r" using that assms(2,3) l by (auto simp: swap_index_def)
    with e that(3) show ?thesis by (simp add: row_swap_def)
  qed
  have S: "?S ?l c" using assms by (simp add: row_swap_def swap_index_def)
  have left: "?E i j = ?S i j" if "j < c" for i j
    using low [of ?l j] l that by (simp add: add_row_if_def)
  have up: "?E i = ?S i" if "i \<le> ?l" for i
    using that by (simp add: add_row_if_def)
  have col: "\<not> ?E i c" if "?l < i" for i
    using S that by (simp add: add_row_if_def)
  have rows: "\<not> ?E i (piv ! k)" if "k < ?l" "i < r" "k < i" for k i
  proof (cases "i < ?l")
    case True
    with that e show ?thesis by (simp add: left piv_lt same)
  next
    case False
    with that show ?thesis by (simp add: left piv_lt low)
  qed
  show ?thesis unfolding echelon_upto_def
  proof (intro conjI)
    show "length (piv @ [c]) \<le> r" using l by simp
    show "sorted_wrt (<) (piv @ [c])" using e by (simp add: sorted_wrt_append)
    show "\<forall>q \<in> set (piv @ [c]). q < Suc c" using e by auto
    show "\<forall>k < length (piv @ [c]). ?E k ((piv @ [c]) ! k)"
      using e S by (auto simp: nth_append less_Suc_eq up same)
    show "\<forall>k < length (piv @ [c]). \<forall>i < r. k < i \<longrightarrow> \<not> ?E i ((piv @ [c]) ! k)"
      using rows col by (auto simp: nth_append less_Suc_eq)
    show "\<forall>k < length (piv @ [c]). \<forall>j < (piv @ [c]) ! k. \<not> ?E k j"
      using e low l by (auto simp: nth_append less_Suc_eq up same)
    show "\<forall>i < r. length (piv @ [c]) \<le> i \<longrightarrow> (\<forall>j < Suc c. \<not> ?E i j)"
      using low left col by (auto simp: less_Suc_eq)
  qed
qed

text \<open>The backward pass: after \<open>m\<close> rounds the columns of the first \<open>m\<close> pivots are unit vectors.\<close>

definition reduced_upto :: "nat \<Rightarrow> nat \<Rightarrow> bmat \<Rightarrow> nat list \<Rightarrow> nat \<Rightarrow> bool" where
  "reduced_upto r m A piv c \<longleftrightarrow> echelon_upto r A piv c \<and> (\<forall>k < m. \<forall>i < r. A i (piv ! k) = (i = k))"

lemma reduced_upto_step:
  assumes "reduced_upto r m A piv c" "m < length piv"
  shows "reduced_upto r (Suc m) (add_row_if m (\<lambda>i. i < m \<and> A i (piv ! m)) A) piv c"
proof -
  let ?E = "add_row_if m (\<lambda>i. i < m \<and> A i (piv ! m)) A"
  note e = assms(1)[unfolded reduced_upto_def echelon_upto_def]
  have pm: "A m (piv ! m)" using e assms(2) by blast
  have mr: "m < r" using e assms(2) by linarith
  have low: "?E i = A i" if "m \<le> i" for i using that by (simp add: add_row_if_def)
  have before: "\<not> A m (piv ! k)" if "k < m" for k
    using e that assms(2) mr by auto
  have less: "piv ! k < piv ! m" if "k < m" for k
    using sorted_wrt_nth_less [of "(<)" piv k m] e that assms(2) by simp
  have old: "?E i (piv ! k) = A i (piv ! k)" if "k < m" for i k
    using before [OF that] by (simp add: add_row_if_def)
  have left: "\<not> ?E k j" if "k < length piv" "j < piv ! k" for k j
  proof (cases "k < m")
    case True
    with that less [OF True] e assms(2) show ?thesis by (simp add: add_row_if_def)
  next
    case False
    with that e show ?thesis by (simp add: low)
  qed
  have ech: "echelon_upto r ?E piv c" unfolding echelon_upto_def
  proof (intro conjI)
    show "\<forall>k < length piv. ?E k (piv ! k)"
    proof (intro allI impI)
      fix k assume k: "k < length piv"
      show "?E k (piv ! k)"
        using k e old [of k k] low [of k] by (cases "k < m") auto
    qed
    show "\<forall>k < length piv. \<forall>i < r. k < i \<longrightarrow> \<not> ?E i (piv ! k)"
    proof (intro allI impI)
      fix k i assume k: "k < length piv" "i < r" "k < i"
      show "\<not> ?E i (piv ! k)"
        using k e old [of k i] low [of i] by (cases "k < m") auto
    qed
    show "\<forall>i < r. length piv \<le> i \<longrightarrow> (\<forall>j < c. \<not> ?E i j)" using e assms(2) by (auto simp: add_row_if_def)
  qed (use e left in auto)
  have "?E i (piv ! k) = (i = k)" if "k < Suc m" "i < r" for i k
  proof (cases "k = m")
    case True
    with that pm e assms(2) show ?thesis by (cases "i < m"; cases "i = m") (auto simp: add_row_if_def)
  next
    case False
    with that e show ?thesis by (auto simp: old)
  qed
  with ech show ?thesis by (simp add: reduced_upto_def)
qed

lemma reduced_rref: "reduced_upto r (length piv) A piv n \<Longrightarrow> rref r n A piv"
  by (auto simp: reduced_upto_def echelon_upto_def rref_upto_def)


section \<open>The loops\<close>

lemma tiny_pivot_run:
  assumes "j < 64"
  shows "\<exists>p. tiny_pivot_row t j start = Some p \<and>
    (p = length t \<and> (\<forall>i < length t. start \<le> i \<longrightarrow> \<not> tiny_bit t i j) \<or>
     start \<le> p \<and> p < length t \<and> tiny_bit t p j)"
proof (cases "filter (\<lambda>row_id. t ! row_id AND push_bit j 1 \<noteq> 0) [start..<length t]")
  case Nil
  then have "\<forall>i \<in> set [start..<length t]. \<not> (t ! i AND push_bit j 1 \<noteq> 0)" unfolding filter_empty_conv by simp
  then show ?thesis using Nil assms by (simp add: tiny_pivot_row_def tiny_bit_def and_power_bit)
next
  case (Cons p ps)
  then have "p \<in> set (filter (\<lambda>row_id. t ! row_id AND push_bit j 1 \<noteq> 0) [start..<length t])" by simp
  then have "start \<le> p" "p < length t" "t ! p AND push_bit j 1 \<noteq> 0" by auto
  then show ?thesis using Cons assms by (simp add: tiny_pivot_row_def tiny_bit_def and_power_bit)
qed

lemma tiny_reduce_bits:
  assumes "j < 64" "p < length t"
    and "u = map (\<lambda>(i, row). if s i \<and> row AND push_bit j 1 \<noteq> 0 then row XOR t ! p else row) (enumerate 0 t)"
  shows "length u = length t" "tiny_bit u = add_row_if p (\<lambda>i. s i \<and> tiny_bit t i j) (tiny_bit t)"
proof -
  show l: "length u = length t" by (simp add: assms(3))
  have "bit (u ! i) c = add_row_if p (\<lambda>i. s i \<and> tiny_bit t i j) (tiny_bit t) i c" if "i < length t" for i c
    using that assms(2) unfolding assms(3)
    by (auto simp: nth_enumerate_eq and_power_bit assms(1) tiny_bit_def add_row_if_def bit_xor_iff)
  with l show "tiny_bit u = add_row_if p (\<lambda>i. s i \<and> tiny_bit t i j) (tiny_bit t)"
    by (auto simp: fun_eq_iff tiny_bit_def add_row_if_def)
qed

lemma tiny_forward_run:
  assumes "j < 64" "p < length t"
  shows "\<exists>u. tiny_reduce_forward j p t = Some (length t, u) \<and> length u = length t \<and>
    tiny_bit u = add_row_if p (\<lambda>i. p < i \<and> tiny_bit t i j) (tiny_bit t)"
  using tiny_reduce_bits [OF assms, of _ "\<lambda>i. p < i"] assms by (simp add: tiny_reduce_forward_def Suc_le_eq)

lemma tiny_backward_run:
  assumes "j < 64" "p < length t"
  shows "\<exists>u. tiny_reduce_backward j p t = Some (length t, u) \<and> length u = length t \<and>
    tiny_bit u = add_row_if p (\<lambda>i. i < p \<and> tiny_bit t i j) (tiny_bit t)"
  using tiny_reduce_bits [OF assms, of _ "\<lambda>i. i < p"] assms by (simp add: tiny_reduce_backward_def)

lemma tiny_swap_bits:
  assumes "a < length t" "b < length t"
  shows "tiny_bit (t[a := t ! b, b := t ! a]) = row_swap a b (tiny_bit t)"
  using assms by (auto simp: fun_eq_iff tiny_bit_def row_swap_def swap_index_def nth_list_update)

text \<open>The invariant of the first loop: the pivots found are the rank profile, the matrix is in
  echelon form up to the current column and has the row space it started with.\<close>

definition tiny_forward_ok :: "nat \<Rightarrow> bmat \<Rightarrow> nat \<Rightarrow> u64 list \<times> nat list \<times> nat \<times> nat \<Rightarrow> bool" where
  "tiny_forward_ok r A c = (\<lambda>(t, profile, cur, rank). length t = r \<and> length profile = 64 \<and> cur = rank \<and> rank \<le> c \<and>
     echelon_upto r (tiny_bit t) (take rank profile) c \<and>
     (\<forall>v. in_row_space r 64 (tiny_bit t) v = in_row_space r 64 A v))"

lemma tiny_rref_step_run:
  assumes "tiny_forward_ok r A c st" "c < 64"
  shows "\<exists>st'. tiny_rref_step c st = Some st' \<and> tiny_forward_ok r A (Suc c) st'"
proof -
  obtain t profile rank where st: "st = (t, profile, rank, rank)" and t: "length t = r" "length profile = 64" "rank \<le> c"
    "echelon_upto r (tiny_bit t) (take rank profile) c" and rs: "\<And>v. in_row_space r 64 (tiny_bit t) v = in_row_space r 64 A v"
    using assms(1) unfolding tiny_forward_ok_def by (cases st) auto
  have len: "length (take rank profile) = rank" "rank < 64" using t assms(2) by auto
  obtain p where p: "tiny_pivot_row t c rank = Some p"
    and cases_p: "p = length t \<and> (\<forall>i < length t. rank \<le> i \<longrightarrow> \<not> tiny_bit t i c) \<or> rank \<le> p \<and> p < length t \<and> tiny_bit t p c"
    using tiny_pivot_run [OF assms(2)] by blast
  from cases_p show ?thesis
  proof (elim disjE conjE)
    assume none: "p = length t" "\<forall>i < length t. rank \<le> i \<longrightarrow> \<not> tiny_bit t i c"
    have "echelon_upto r (tiny_bit t) (take rank profile) (Suc c)"
      using echelon_upto_skip [OF t(4)] none(2) len(1) t(1) by simp
    then show ?thesis using p none(1) t rs by (simp add: st tiny_rref_step_def tiny_forward_ok_def)
  next
    assume some: "rank \<le> p" "p < length t" "tiny_bit t p c"
    have rank: "rank < length t" using some by simp
    let ?t = "t[rank := t ! p, p := t ! rank]"
    have bits: "tiny_bit ?t = row_swap rank p (tiny_bit t)" by (rule tiny_swap_bits [OF rank some(2)])
    obtain u where u: "tiny_reduce_forward c rank ?t = Some (length ?t, u)" "length u = length ?t"
      "tiny_bit u = add_row_if rank (\<lambda>i. rank < i \<and> tiny_bit ?t i c) (tiny_bit ?t)"
      using tiny_forward_run [OF assms(2), of rank ?t] rank by auto
    have take: "take (Suc rank) (profile[rank := c]) = take rank profile @ [c]"
      using len(2) t(2) by (simp add: take_Suc_conv_app_nth)
    have "echelon_upto r (tiny_bit u) (take rank profile @ [c]) (Suc c)"
      using echelon_upto_step [OF t(4), of p] some t(1) unfolding len(1) u(3) bits by simp
    moreover have "in_row_space r 64 (tiny_bit u) v = in_row_space r 64 A v" for v
      unfolding u(3) bits using rank some(2) t(1) by (simp add: row_space_add_row_if row_space_row_swap rs)
    ultimately show ?thesis using p some rank u(1,2) t len(2) take
      by (simp add: st tiny_rref_step_def tiny_forward_ok_def)
  qed
qed

text \<open>The small elimination returns the reduced row echelon form of the matrix with its rank, for
  any number of rows and at most 64 columns.\<close>

theorem tiny_matrix_rref_reduces:
  assumes "n \<le> 64"
  shows "\<exists>rank u piv. tiny_matrix_rref n tiny = Some (rank, u) \<and> length u = length tiny \<and>
    rref (length tiny) n (tiny_bit u) piv \<and> rank = length piv \<and>
    (\<forall>v. in_row_space (length tiny) 64 (tiny_bit u) v = in_row_space (length tiny) 64 (tiny_bit tiny) v)"
proof -
  let ?r = "length tiny" and ?A = "tiny_bit tiny"
  have start: "tiny_forward_ok ?r ?A 0 (tiny, replicate 64 0, 0, 0)"
    by (simp add: tiny_forward_ok_def echelon_upto_def)
  obtain st where fold: "ofold tiny_rref_step [0..<n] (tiny, replicate 64 0, 0, 0) = Some st"
    and st: "tiny_forward_ok ?r ?A n st"
    using ofold_upt_inv [where P = "tiny_forward_ok ?r ?A" and f = tiny_rref_step and n = n, OF start]
      tiny_rref_step_run assms by (metis less_le_trans)
  obtain t profile rank where st_def: "st = (t, profile, rank, rank)" and t: "length t = ?r" "length profile = 64" "rank \<le> n"
    "echelon_upto ?r (tiny_bit t) (take rank profile) n" and rs: "\<And>v. in_row_space ?r 64 (tiny_bit t) v = in_row_space ?r 64 ?A v"
    using st unfolding tiny_forward_ok_def by (cases st) auto
  let ?piv = "take rank profile"
  have len: "length ?piv = rank" using t assms by simp
  have rank: "rank \<le> ?r" using t(4) len by (simp add: echelon_upto_def)
  let ?pairs = "take rank (enumerate 0 profile)"
  have pair: "?pairs ! k = (k, ?piv ! k)" "?piv ! k < 64" if "k < rank" for k
    using that t(2,3) assms t(4) len nth_mem [of k ?piv] by (auto simp: nth_enumerate_eq echelon_upto_def)
  let ?P = "\<lambda>k u. length u = ?r \<and> reduced_upto ?r k (tiny_bit u) ?piv n \<and>
    (\<forall>v. in_row_space ?r 64 (tiny_bit u) v = in_row_space ?r 64 ?A v)"
  let ?f = "\<lambda>(row_id, column_id) tiny. do { (_, tiny) \<leftarrow> tiny_reduce_backward column_id row_id tiny; Some tiny }"
  have "\<exists>u. ofold ?f ?pairs t = Some u \<and> ?P (length ?pairs) u"
  proof (rule ofold_inv)
    show "?P 0 t" using t(1,4) rs by (simp add: reduced_upto_def)
    fix k u assume k: "k < length ?pairs" "?P k u"
    then have kr: "k < rank" "k < length u" using rank by auto
    obtain w where w: "tiny_reduce_backward (?piv ! k) k u = Some (length u, w)" "length w = length u"
      "tiny_bit w = add_row_if k (\<lambda>i. i < k \<and> tiny_bit u i (?piv ! k)) (tiny_bit u)"
      using tiny_backward_run [OF pair(2) [OF kr(1)] kr(2)] by blast
    have "reduced_upto ?r (Suc k) (tiny_bit w) ?piv n"
      unfolding w(3) by (rule reduced_upto_step) (use k kr len in auto)
    moreover have "in_row_space ?r 64 (tiny_bit w) v = in_row_space ?r 64 ?A v" for v
      unfolding w(3) using k kr by (simp add: row_space_add_row_if)
    ultimately show "\<exists>w. ?f (?pairs ! k) u = Some w \<and> ?P (Suc k) w"
      using w k by (simp add: pair(1) [OF kr(1)])
  qed
  then obtain u where u: "ofold ?f ?pairs t = Some u" "?P rank u" using t(2,3) assms by auto
  have "tiny_matrix_rref n tiny = Some (rank, u)"
    using fold u(1) by (simp add: tiny_matrix_rref_def st_def)
  moreover have "rref ?r n (tiny_bit u) ?piv" using reduced_rref u(2) len by metis
  ultimately show ?thesis using u(2) len by (intro exI [of _ rank] exI [of _ u] exI [of _ ?piv]) simp
qed

theorem tiny_matrix_rref_reduces_witness:
  "\<exists>rank u piv. tiny_matrix_rref 3 [0b110, 0b011, 0b101] = Some (rank, u) \<and> length u = length [0b110, 0b011, 0b101 :: u64] \<and>
    rref (length [0b110, 0b011, 0b101 :: u64]) 3 (tiny_bit u) piv \<and> rank = length piv \<and>
    (\<forall>v. in_row_space (length [0b110, 0b011, 0b101 :: u64]) 64 (tiny_bit u) v =
      in_row_space (length [0b110, 0b011, 0b101 :: u64]) 64 (tiny_bit [0b110, 0b011, 0b101]) v)"
  by (rule tiny_matrix_rref_reduces) simp

text \<open>Columns are read as they were written.\<close>

lemma get_tiny_column_bits:
  assumes "length t \<le> 64" "j < 64"
  shows "\<exists>col. get_tiny_column t j = Some col \<and> (\<forall>i. bit col i = tiny_bit t i j)"
proof -
  have "\<exists>col. ofold (\<lambda>row_id col.
         if t ! row_id AND push_bit j 1 \<noteq> 0 then do { row_mask \<leftarrow> shl_opt 1 row_id; Some (col XOR row_mask) } else Some col)
       [0..<length t] (0 :: u64) = Some col \<and> (\<forall>i. bit col i = (i < length t \<and> bit (t ! i) j))"
    by (rule ofold_upt_inv [where P = "\<lambda>k col. \<forall>i. bit col i = (i < k \<and> bit (t ! i) j)"])
      (use assms in \<open>auto simp: and_power_bit xor_power_bit less_Suc_eq\<close>)
  then show ?thesis using assms(2) by (simp add: get_tiny_column_def tiny_bit_def)
qed

lemma xor_tiny_column_bits:
  assumes "length t \<le> 64" "j < 64"
  shows "\<exists>u. xor_tiny_column j col t = Some u \<and> length u = length t \<and>
    (\<forall>i c. tiny_bit u i c = (tiny_bit t i c \<noteq> (i < length t \<and> c = j \<and> bit col i)))"
proof -
  let ?P = "\<lambda>k u. length u = length t \<and>
    (\<forall>i < length t. \<forall>c. bit (u ! i) c = (bit (t ! i) c \<noteq> (i < k \<and> c = j \<and> bit col i)))"
  have "\<exists>u. ofold (\<lambda>row_id tiny. do {
         row_mask \<leftarrow> shl_opt 1 row_id;
         if col AND row_mask \<noteq> 0 then Some (tiny[row_id := tiny ! row_id XOR 2 ^ j]) else Some tiny })
       [0..<length t] t = Some u \<and> ?P (length t) u"
    by (rule ofold_upt_inv [where P = ?P])
      (use assms in \<open>auto simp: and_power_bit xor_power_bit less_Suc_eq nth_list_update\<close>)
  then show ?thesis using assms(2) by (auto simp: xor_tiny_column_def tiny_bit_def)
qed

end
