(* ===== verification/Index_Set.thy ===== *)
theory Index_Set
  imports Bitwise
begin

text \<open>
  The sparse bit vectors of \<open>binar/src/vec/index_set.rs\<close> and the default methods of the \<open>Bitwise\<close>
  traits (\<open>bit/bitwise.rs\<close>) they inherit.  The crates \<open>sorted_vec\<close> and \<open>sorted_iter\<close> are not part
  of the repository: they are the parameter \<open>S\<close> of every definition, and the locale
  \<open>sorted_library\<close> states what their documentation promises.  A sorted set is used through the
  list of its items.
\<close>

section \<open>The libraries of sorted sets and sorted iterators\<close>

record 's sorted_lib =
  ss_items :: "'s \<Rightarrow> nat list" \<comment> \<open>iteration, and the slice the set dereferences to\<close>
  ss_new :: 's
  ss_from_sorted :: "nat list \<Rightarrow> 's"
  ss_from_unsorted :: "nat list \<Rightarrow> 's"
  ss_push :: "nat \<Rightarrow> 's \<Rightarrow> 's"
  ss_find_or_insert :: "nat \<Rightarrow> 's \<Rightarrow> (bool \<times> nat) \<times> 's" \<comment> \<open>whether the item was found, and where it is\<close>
  ss_remove_index :: "nat \<Rightarrow> 's \<Rightarrow> 's option"
  ss_remove_item :: "nat \<Rightarrow> 's \<Rightarrow> 's"
  ss_clear :: "'s \<Rightarrow> 's"
  si_union :: "nat list \<Rightarrow> nat list \<Rightarrow> nat list"
  si_intersection :: "nat list \<Rightarrow> nat list \<Rightarrow> nat list"
  si_difference :: "nat list \<Rightarrow> nat list \<Rightarrow> nat list"
  si_symmetric_difference :: "nat list \<Rightarrow> nat list \<Rightarrow> nat list"
  si_is_subset :: "nat list \<Rightarrow> nat list \<Rightarrow> bool"

abbreviation ascending :: "nat list \<Rightarrow> bool" where
  "ascending xs \<equiv> sorted_wrt (<) xs"

section \<open>Definitions\<close>

definition index_set_new :: "'s sorted_lib \<Rightarrow> 's" where
  "index_set_new S = ss_new S"

definition index_set_singleton :: "'s sorted_lib \<Rightarrow> nat \<Rightarrow> 's" where
  "index_set_singleton S value = ss_from_sorted S [value]"

definition index_set_support :: "'s sorted_lib \<Rightarrow> 's \<Rightarrow> nat list" where
  "index_set_support S s = ss_items S s"

definition index_set_complement :: "'s sorted_lib \<Rightarrow> nat \<Rightarrow> 's \<Rightarrow> 's" where
  "index_set_complement S universe_size s =
     ss_from_sorted S (si_difference S [0..<universe_size] (index_set_support S s))"

definition index_set_union :: "'s sorted_lib \<Rightarrow> 's \<Rightarrow> 's \<Rightarrow> 's" where
  "index_set_union S s other = ss_from_sorted S (si_union S (index_set_support S s) (index_set_support S other))"

definition index_set_intersection :: "'s sorted_lib \<Rightarrow> 's \<Rightarrow> 's \<Rightarrow> 's" where
  "index_set_intersection S s other =
     ss_from_sorted S (si_intersection S (index_set_support S s) (index_set_support S other))"

definition index_set_difference :: "'s sorted_lib \<Rightarrow> 's \<Rightarrow> 's \<Rightarrow> 's" where
  "index_set_difference S s other =
     ss_from_sorted S (si_difference S (index_set_support S s) (index_set_support S other))"

definition index_set_symmetric_difference :: "'s sorted_lib \<Rightarrow> 's \<Rightarrow> 's \<Rightarrow> 's" where
  "index_set_symmetric_difference S s other =
     ss_from_sorted S (si_symmetric_difference S (index_set_support S s) (index_set_support S other))"

definition index_set_from_iter :: "'s sorted_lib \<Rightarrow> nat list \<Rightarrow> 's" where
  "index_set_from_iter S iterator = ss_from_unsorted S iterator"

definition index_set_into_iter :: "'s sorted_lib \<Rightarrow> 's \<Rightarrow> nat list" where
  "index_set_into_iter S s = ss_items S s"

definition index_set_extend :: "'s sorted_lib \<Rightarrow> nat list \<Rightarrow> 's \<Rightarrow> 's" where
  "index_set_extend S iter s = fold (ss_push S) iter s"

text \<open>\<open>binary_search\<close> on an ascending slice finds exactly its elements.\<close>

definition index_set_index :: "'s sorted_lib \<Rightarrow> 's \<Rightarrow> nat \<Rightarrow> bool" where
  "index_set_index S s index = (index \<in> set (ss_items S s))"

definition index_set_weight :: "'s sorted_lib \<Rightarrow> 's \<Rightarrow> nat" where
  "index_set_weight S s = length (ss_items S s)"

text \<open>The operations with a second operand of any bit type use its support or its \<open>index\<close>.\<close>

definition index_set_assign :: "'s sorted_lib \<Rightarrow> nat list \<Rightarrow> 's \<Rightarrow> 's" where
  "index_set_assign S other_support s = ss_from_unsorted S other_support"

definition index_set_bitxor_assign :: "'s sorted_lib \<Rightarrow> nat list \<Rightarrow> 's \<Rightarrow> 's option" where
  "index_set_bitxor_assign S other_support s =
     ofold (\<lambda>index s. let ((found, at), s) = ss_find_or_insert S index s in
         if found then ss_remove_index S at s else Some s) other_support s"

definition index_set_bitand_assign :: "'s sorted_lib \<Rightarrow> nat list \<Rightarrow> 's \<Rightarrow> 's" where
  "index_set_bitand_assign S other_support s = ss_from_unsorted S (si_intersection S (ss_items S s) other_support)"

definition index_set_bitor_assign :: "'s sorted_lib \<Rightarrow> nat list \<Rightarrow> 's \<Rightarrow> 's" where
  "index_set_bitor_assign S other_support s = ss_from_unsorted S (si_union S (ss_items S s) other_support)"

definition index_set_assign_index :: "'s sorted_lib \<Rightarrow> nat \<Rightarrow> bool \<Rightarrow> 's \<Rightarrow> 's" where
  "index_set_assign_index S index to s = (if to then ss_push S index s else ss_remove_item S index s)"

definition index_set_negate_index :: "'s sorted_lib \<Rightarrow> nat \<Rightarrow> 's \<Rightarrow> 's" where
  "index_set_negate_index S index s =
     (if index \<in> set (ss_items S s) then ss_remove_item S index s else ss_push S index s)"

definition index_set_clear_bits :: "'s sorted_lib \<Rightarrow> 's \<Rightarrow> 's" where
  "index_set_clear_bits S s = ss_clear S s"

definition index_set_dot :: "'s sorted_lib \<Rightarrow> (nat \<Rightarrow> bool option) \<Rightarrow> 's \<Rightarrow> bool option" where
  "index_set_dot S other_index s =
     ofold (\<lambda>index res. do { b \<leftarrow> other_index index; Some (res \<noteq> b) }) (ss_items S s) False"

definition index_set_and_weight :: "'s sorted_lib \<Rightarrow> nat list \<Rightarrow> 's \<Rightarrow> nat" where
  "index_set_and_weight S other_support s = length (si_intersection S (index_set_support S s) other_support)"

definition index_set_or_weight :: "'s sorted_lib \<Rightarrow> nat list \<Rightarrow> 's \<Rightarrow> nat" where
  "index_set_or_weight S other_support s = length (si_union S (index_set_support S s) other_support)"

definition index_set_xor_weight :: "'s sorted_lib \<Rightarrow> nat list \<Rightarrow> 's \<Rightarrow> nat" where
  "index_set_xor_weight S other_support s = length (si_symmetric_difference S (index_set_support S s) other_support)"

text \<open>A vector with a length as the left operand of an index set; its own operations are arguments.\<close>

definition bits_assign_set :: "('t \<Rightarrow> 't) \<Rightarrow> (nat \<Rightarrow> bool \<Rightarrow> 't \<Rightarrow> 't option) \<Rightarrow> 's sorted_lib \<Rightarrow> 's \<Rightarrow> 't \<Rightarrow> 't option" where
  "bits_assign_set clear_bits assign_index S other t =
     ofold (\<lambda>index. assign_index index True) (ss_items S other) (clear_bits t)"

definition bits_xor_set :: "(nat \<Rightarrow> 't \<Rightarrow> 't option) \<Rightarrow> 's sorted_lib \<Rightarrow> 's \<Rightarrow> 't \<Rightarrow> 't option" where
  "bits_xor_set negate_index S other t = ofold negate_index (index_set_support S other) t"

definition bits_and_set :: "('t \<Rightarrow> nat list) \<Rightarrow> ('t \<Rightarrow> 't) \<Rightarrow> (nat \<Rightarrow> bool \<Rightarrow> 't \<Rightarrow> 't option) \<Rightarrow>
    's sorted_lib \<Rightarrow> 's \<Rightarrow> 't \<Rightarrow> 't option" where
  "bits_and_set support clear_bits assign_index S other t =
     (let intersection = si_intersection S (support t) (index_set_support S other) in
      ofold (\<lambda>k. assign_index k True) intersection (clear_bits t))"

definition bits_or_set :: "('t \<Rightarrow> nat list) \<Rightarrow> ('t \<Rightarrow> 't) \<Rightarrow> (nat \<Rightarrow> bool \<Rightarrow> 't \<Rightarrow> 't option) \<Rightarrow>
    's sorted_lib \<Rightarrow> 's \<Rightarrow> 't \<Rightarrow> 't option" where
  "bits_or_set support clear_bits assign_index S other t =
     (let union = si_union S (support t) (index_set_support S other) in
      ofold (\<lambda>k. assign_index k True) union (clear_bits t))"

definition index_set_eq_bits :: "'s sorted_lib \<Rightarrow> 's \<Rightarrow> nat list \<Rightarrow> bool" where
  "index_set_eq_bits S s other_support = (index_set_support S s = other_support)"

definition index_set_from_bits :: "'s sorted_lib \<Rightarrow> nat list \<Rightarrow> 's" where
  "index_set_from_bits S other_support = ss_from_unsorted S other_support"

definition index_set_from_ref :: "'s sorted_lib \<Rightarrow> nat list \<Rightarrow> 's" where
  "index_set_from_ref S value_support = ss_from_sorted S value_support"

definition remapped :: "'s sorted_lib \<Rightarrow> nat list \<Rightarrow> 's \<Rightarrow> 's option" where
  "remapped S support_list s = map_option (index_set_from_iter S) (omap (nth_opt support_list) (index_set_support S s))"

text \<open>The default methods of \<open>Bitwise\<close>, from the support, the weight and \<open>index\<close>.\<close>

definition default_min_support :: "nat list \<Rightarrow> nat option" where
  "default_min_support support = first_of support"

definition default_max_support :: "nat list \<Rightarrow> nat option" where
  "default_max_support support = last_of support"

definition default_parity :: "nat \<Rightarrow> bool" where
  "default_parity weight = (weight mod 2 = 1)"

definition default_is_zero :: "nat \<Rightarrow> bool" where
  "default_is_zero weight = (weight = 0)"

definition default_is_unit :: "nat \<Rightarrow> (nat \<Rightarrow> bool option) \<Rightarrow> nat \<Rightarrow> bool option" where
  "default_is_unit weight index i = (if weight = 1 then index i else Some False)"

definition assign_with_offset :: "(nat \<Rightarrow> bool \<Rightarrow> 't \<Rightarrow> 't option) \<Rightarrow> (nat \<Rightarrow> bool option) \<Rightarrow> nat \<Rightarrow> nat \<Rightarrow> 't \<Rightarrow> 't option" where
  "assign_with_offset assign_index other_index start_bit num_bits t =
     ofold (\<lambda>bit_index t. do { b \<leftarrow> other_index bit_index; assign_index (bit_index + start_bit) b t }) [0..<num_bits] t"

definition assign_from_interval :: "(nat \<Rightarrow> bool \<Rightarrow> 't \<Rightarrow> 't option) \<Rightarrow> (nat \<Rightarrow> bool option) \<Rightarrow> nat \<Rightarrow> nat \<Rightarrow> 't \<Rightarrow> 't option" where
  "assign_from_interval assign_index other_index start_bit num_bits t =
     ofold (\<lambda>bit_index t. do { b \<leftarrow> other_index (start_bit + bit_index); assign_index bit_index b t }) [0..<num_bits] t"

section \<open>The contract of the libraries\<close>

declare sorted_list_of_set_insert_remove [simp del] sorted_list_of_set.sorted_key_list_of_set_insert [simp del]

lemma ascending_eq_set: "ascending xs \<Longrightarrow> xs = sorted_list_of_set (set xs)"
  by (simp add: strict_sorted_iff sorted_list_of_set.idem_if_sorted_distinct)

lemma ascending_sorted_list_of_set [simp]: "ascending (sorted_list_of_set A)"
  by (simp add: strict_sorted_iff)

locale sorted_library =
  fixes S :: "'s sorted_lib"
  assumes items_new: "ss_items S (ss_new S) = []"
    and items_from_sorted: "ascending xs \<Longrightarrow> ss_items S (ss_from_sorted S xs) = xs"
    and items_from_unsorted: "ss_items S (ss_from_unsorted S xs) = sorted_list_of_set (set xs)"
    and items_push: "ascending (ss_items S s) \<Longrightarrow>
      ss_items S (ss_push S i s) = sorted_list_of_set (insert i (set (ss_items S s)))"
    and find_or_insert: "ascending (ss_items S s) \<Longrightarrow> ss_find_or_insert S i s = ((found, at), s') \<Longrightarrow>
      (found \<longleftrightarrow> i \<in> set (ss_items S s)) \<and> ss_items S s' = sorted_list_of_set (insert i (set (ss_items S s))) \<and>
      at < length (ss_items S s') \<and> ss_items S s' ! at = i"
    and remove_index: "at < length (ss_items S s) \<Longrightarrow>
      \<exists>s'. ss_remove_index S at s = Some s' \<and> ss_items S s' = take at (ss_items S s) @ drop (Suc at) (ss_items S s)"
    and remove_item: "ascending (ss_items S s) \<Longrightarrow>
      ss_items S (ss_remove_item S i s) = filter (\<lambda>j. j \<noteq> i) (ss_items S s)"
    and items_clear: "ss_items S (ss_clear S s) = []"
    and iter_union: "ascending xs \<Longrightarrow> ascending ys \<Longrightarrow> si_union S xs ys = sorted_list_of_set (set xs \<union> set ys)"
    and iter_intersection: "ascending xs \<Longrightarrow> ascending ys \<Longrightarrow> si_intersection S xs ys = sorted_list_of_set (set xs \<inter> set ys)"
    and iter_difference: "ascending xs \<Longrightarrow> ascending ys \<Longrightarrow> si_difference S xs ys = sorted_list_of_set (set xs - set ys)"
    and iter_symmetric_difference: "ascending xs \<Longrightarrow> ascending ys \<Longrightarrow>
      si_symmetric_difference S xs ys = sorted_list_of_set ((set xs - set ys) \<union> (set ys - set xs))"
    and iter_is_subset: "ascending xs \<Longrightarrow> ascending ys \<Longrightarrow> si_is_subset S xs ys = (set xs \<subseteq> set ys)"

definition index_set_ok :: "'s sorted_lib \<Rightarrow> 's \<Rightarrow> bool" where
  "index_set_ok S s \<longleftrightarrow> ascending (ss_items S s)"

abbreviation index_set_bits :: "'s sorted_lib \<Rightarrow> 's \<Rightarrow> nat set" where
  "index_set_bits S s \<equiv> set (ss_items S s)"

lemma remove_at_set:
  assumes "distinct xs" "k < length xs"
  shows "set (take k xs @ drop (Suc k) xs) = set xs - {xs ! k}"
proof -
  have xs: "xs = take k xs @ xs ! k # drop (Suc k) xs" using assms(2) by (rule id_take_nth_drop)
  then have "distinct (take k xs @ xs ! k # drop (Suc k) xs)" using assms(1) by simp
  then have "xs ! k \<notin> set (take k xs) \<union> set (drop (Suc k) xs)" by simp
  moreover have "set xs = set (take k xs) \<union> insert (xs ! k) (set (drop (Suc k) xs))"
    by (subst xs) simp
  ultimately show ?thesis by auto
qed

lemma ascending_remove_at:
  assumes "ascending xs"
  shows "ascending (take k xs @ drop (Suc k) xs)"
proof (cases "k < length xs")
  case True
  then have "xs = take k xs @ xs ! k # drop (Suc k) xs" by (rule id_take_nth_drop)
  with assms have "ascending (take k xs @ xs ! k # drop (Suc k) xs)" by simp
  then show ?thesis by (auto simp: sorted_wrt_append)
qed (use assms in simp)

context sorted_library
begin

text \<open>Every operation returns a sorted set of the expected elements.\<close>

lemma ok_list: "index_set_ok S s \<Longrightarrow> ss_items S s = sorted_list_of_set (index_set_bits S s)"
  unfolding index_set_ok_def by (rule ascending_eq_set)

lemma constructors:
  "index_set_ok S (index_set_new S)" "index_set_bits S (index_set_new S) = {}"
  "index_set_ok S (index_set_singleton S v)" "index_set_bits S (index_set_singleton S v) = {v}"
  "index_set_ok S (index_set_from_iter S xs)" "index_set_bits S (index_set_from_iter S xs) = set xs"
  "index_set_ok S (index_set_clear_bits S s)" "index_set_bits S (index_set_clear_bits S s) = {}"
  "index_set_ok S (index_set_assign S xs s)" "index_set_bits S (index_set_assign S xs s) = set xs"
  by (simp_all add: index_set_new_def index_set_singleton_def index_set_from_iter_def index_set_clear_bits_def
      index_set_assign_def index_set_ok_def items_new items_from_sorted items_from_unsorted items_clear)

lemma algebra:
  assumes "index_set_ok S s" "index_set_ok S t"
  shows "index_set_ok S (index_set_union S s t)" "index_set_bits S (index_set_union S s t) = index_set_bits S s \<union> index_set_bits S t"
    "index_set_ok S (index_set_intersection S s t)" "index_set_bits S (index_set_intersection S s t) = index_set_bits S s \<inter> index_set_bits S t"
    "index_set_ok S (index_set_difference S s t)" "index_set_bits S (index_set_difference S s t) = index_set_bits S s - index_set_bits S t"
    "index_set_ok S (index_set_symmetric_difference S s t)"
    "index_set_bits S (index_set_symmetric_difference S s t) =
      (index_set_bits S s - index_set_bits S t) \<union> (index_set_bits S t - index_set_bits S s)"
    "index_set_ok S (index_set_complement S n s)" "index_set_bits S (index_set_complement S n s) = {..<n} - index_set_bits S s"
  using assms
  by (auto simp: index_set_ok_def index_set_support_def index_set_union_def index_set_intersection_def index_set_difference_def
      index_set_symmetric_difference_def index_set_complement_def items_from_sorted iter_union iter_intersection
      iter_difference iter_symmetric_difference sorted_wrt_upt)

lemma element_updates:
  assumes "index_set_ok S s"
  shows "index_set_ok S (index_set_assign_index S i b s)"
    "index_set_bits S (index_set_assign_index S i b s) = (if b then insert i (index_set_bits S s) else index_set_bits S s - {i})"
    "index_set_ok S (index_set_negate_index S i s)"
    "index_set_bits S (index_set_negate_index S i s) =
      (if i \<in> index_set_bits S s then index_set_bits S s - {i} else insert i (index_set_bits S s))"
  using assms
  by (auto simp: index_set_ok_def index_set_assign_index_def index_set_negate_index_def items_push remove_item sorted_wrt_filter)

text \<open>\<open>bitxor_assign\<close> inserts each index and takes it out again when it was there already.\<close>

lemma xor_step:
  assumes "index_set_ok S s"
  shows "\<exists>s'. (let ((found, at), s) = ss_find_or_insert S i s in if found then ss_remove_index S at s else Some s) = Some s' \<and>
    index_set_ok S s' \<and> index_set_bits S s' = (if i \<in> index_set_bits S s then index_set_bits S s - {i} else insert i (index_set_bits S s))"
proof -
  obtain found at s1 where f: "ss_find_or_insert S i s = ((found, at), s1)" by (metis prod.exhaust)
  note laws = find_or_insert [OF assms [unfolded index_set_ok_def] f]
  show ?thesis
  proof (cases found)
    case True
    with laws have same: "ss_items S s1 = ss_items S s"
      using assms by (simp add: insert_absorb index_set_ok_def flip: ascending_eq_set)
    obtain s2 where s2: "ss_remove_index S at s1 = Some s2"
      "ss_items S s2 = take at (ss_items S s1) @ drop (Suc at) (ss_items S s1)"
      using remove_index laws by blast
    have d: "distinct (ss_items S s1)" "at < length (ss_items S s1)" "ss_items S s1 ! at = i"
      using same assms laws by (auto simp: index_set_ok_def strict_sorted_iff)
    have "index_set_bits S s2 = index_set_bits S s - {i}"
      by (metis s2(2) same d(3) remove_at_set [OF d(1,2)])
    moreover have "index_set_ok S s2"
      using s2(2) same assms by (simp add: index_set_ok_def ascending_remove_at)
    ultimately show ?thesis using f True laws s2(1) by simp
  next
    case False
    with laws f show ?thesis by (simp add: index_set_ok_def)
  qed
qed

lemma xor_assign:
  assumes "index_set_ok S s" "distinct xs"
  shows "\<exists>s'. index_set_bitxor_assign S xs s = Some s' \<and> index_set_ok S s' \<and>
    index_set_bits S s' = (index_set_bits S s - set xs) \<union> (set xs - index_set_bits S s)"
  using assms
proof (induction xs arbitrary: s)
  case Nil
  then show ?case by (simp add: index_set_bitxor_assign_def)
next
  case (Cons i xs)
  obtain s1 where s1: "(let ((found, at), s) = ss_find_or_insert S i s in if found then ss_remove_index S at s else Some s) = Some s1"
    "index_set_ok S s1" "index_set_bits S s1 = (if i \<in> index_set_bits S s then index_set_bits S s - {i} else insert i (index_set_bits S s))"
    using xor_step Cons.prems(1) by blast
  with Cons.IH [OF s1(2)] Cons.prems(2) obtain s2 where s2: "index_set_bitxor_assign S xs s1 = Some s2" "index_set_ok S s2"
    "index_set_bits S s2 = (index_set_bits S s1 - set xs) \<union> (set xs - index_set_bits S s1)" by auto
  have "index_set_bits S s2 = (index_set_bits S s - set (i # xs)) \<union> (set (i # xs) - index_set_bits S s)"
    unfolding s2(3) s1(3) using Cons.prems(2) by auto
  with s1(1) s2(1,2) show ?case by (auto simp: index_set_bitxor_assign_def)
qed

lemma dot:
  assumes "index_set_ok S s" "\<And>i. i \<in> index_set_bits S s \<Longrightarrow> other i = Some (i \<in> T)"
  shows "index_set_dot S other s = Some (odd (card (index_set_bits S s \<inter> T)))"
proof -
  have "ofold (\<lambda>index res. do { b \<leftarrow> other index; Some (res \<noteq> b) }) xs acc = Some (acc \<noteq> odd (card (set xs \<inter> T)))"
    if "distinct xs" "set xs \<subseteq> index_set_bits S s" for xs acc
    using that
  proof (induction xs arbitrary: acc)
    case Nil
    then show ?case by simp
  next
    case (Cons x xs)
    then have "card (set (x # xs) \<inter> T) = (if x \<in> T then 1 else 0) + card (set xs \<inter> T)"
      by (simp add: Int_insert_left)
    with Cons assms(2) show ?case by auto
  qed
  with assms(1) show ?thesis by (simp add: index_set_dot_def index_set_ok_def strict_sorted_iff)
qed

lemma pair_weights:
  assumes "index_set_ok S s" "ascending xs"
  shows "index_set_and_weight S xs s = card (index_set_bits S s \<inter> set xs)"
    "index_set_or_weight S xs s = card (index_set_bits S s \<union> set xs)"
    "index_set_xor_weight S xs s = card ((index_set_bits S s - set xs) \<union> (set xs - index_set_bits S s))"
  using assms
  by (simp_all add: index_set_ok_def index_set_and_weight_def index_set_or_weight_def index_set_xor_weight_def
      index_set_support_def iter_union iter_intersection iter_symmetric_difference)

lemma weight: "index_set_ok S s \<Longrightarrow> index_set_weight S s = card (index_set_bits S s)"
  by (simp add: index_set_weight_def index_set_ok_def strict_sorted_iff distinct_card)

end

section \<open>Sorted lists keep the contract\<close>

definition list_sets :: "nat list sorted_lib" where
  "list_sets = \<lparr> ss_items = (\<lambda>s. s), ss_new = [], ss_from_sorted = (\<lambda>xs. xs), ss_from_unsorted = (\<lambda>xs. sort (remdups xs)),
     ss_push = (\<lambda>i s. insort_insert i s),
     ss_find_or_insert = (\<lambda>i s. ((i \<in> set s, length (filter (\<lambda>j. j < i) s)), insort_insert i s)),
     ss_remove_index = (\<lambda>k s. if k < length s then Some (take k s @ drop (Suc k) s) else None),
     ss_remove_item = (\<lambda>i s. filter (\<lambda>j. j \<noteq> i) s), ss_clear = (\<lambda>_. []),
     si_union = (\<lambda>xs ys. sort (remdups (xs @ ys))), si_intersection = (\<lambda>xs ys. filter (\<lambda>x. x \<in> set ys) xs),
     si_difference = (\<lambda>xs ys. filter (\<lambda>x. x \<notin> set ys) xs),
     si_symmetric_difference = (\<lambda>xs ys. sort (remdups (filter (\<lambda>x. x \<notin> set ys) xs @ filter (\<lambda>y. y \<notin> set xs) ys))),
     si_is_subset = (\<lambda>xs ys. list_all (\<lambda>x. x \<in> set ys) xs) \<rparr>"

lemma ascending_rank:
  assumes "ascending xs" "i \<in> set xs"
  shows "length (filter (\<lambda>j. j < i) xs) < length xs \<and> xs ! length (filter (\<lambda>j. j < i) xs) = i"
  using assms
proof (induction xs)
  case Nil
  then show ?case by simp
next
  case (Cons x xs)
  show ?case
  proof (cases "i = x")
    case True
    with Cons.prems have "filter (\<lambda>j. j < i) xs = []" by (auto simp: filter_empty_conv)
    with True show ?thesis by simp
  next
    case False
    with Cons show ?thesis by auto
  qed
qed

lemma ascending_insort: "ascending s \<Longrightarrow> insort_insert i s = sorted_list_of_set (insert i (set s))"
  by (metis ascending_eq_set finite_set set_insort_insert sorted_insort_insert distinct_insort_insert strict_sorted_iff)

interpretation list_sets: sorted_library list_sets
proof (unfold_locales, goal_cases)
  case (5 s i found at s')
  have ok: "ascending (insort_insert i s)" using 5(1) by (simp add: list_sets_def ascending_insort)
  have "filter (\<lambda>j. j < i) (insort_insert i s) = filter (\<lambda>j. j < i) s"
  proof -
    have "set (filter (\<lambda>j. j < i) (insort_insert i s)) = set (filter (\<lambda>j. j < i) s)"
      by (auto simp: set_insort_insert)
    moreover have "ascending (filter (\<lambda>j. j < i) (insort_insert i s))" "ascending (filter (\<lambda>j. j < i) s)"
      using ok 5(1) by (simp_all add: sorted_wrt_filter list_sets_def)
    ultimately show ?thesis by (metis ascending_eq_set)
  qed
  moreover have "found = (i \<in> set s)" "at = length (filter (\<lambda>j. j < i) s)" "s' = insort_insert i s"
    using 5(2) by (auto simp: list_sets_def)
  ultimately show ?case using ascending_rank [OF ok, of i] 5(1) by (simp add: list_sets_def set_insort_insert ascending_insort)
qed (auto simp: list_sets_def list_all_iff sorted_list_of_set_sort_remdups ascending_insort sorted_wrt_filter strict_sorted_iff
    intro!: ascending_eq_set [THEN trans] arg_cong [of _ _ sorted_list_of_set])

section \<open>Properties\<close>

text \<open>Adding an index set in place, one index after the other, and building the symmetric difference by
  merging the two sorted supports give the same set, and the weights count the elements of the
  combined sets.\<close>

theorem index_set_xor_is_symmetric_difference:
  assumes "sorted_library S" "index_set_ok S s" "index_set_ok S t"
  shows "\<exists>u. index_set_bitxor_assign S (index_set_support S t) s = Some u \<and> index_set_ok S u \<and>
    index_set_support S u = index_set_support S (index_set_symmetric_difference S s t) \<and>
    index_set_bits S u = (index_set_bits S s - index_set_bits S t) \<union> (index_set_bits S t - index_set_bits S s) \<and>
    index_set_weight S u = index_set_xor_weight S (index_set_support S t) s \<and>
    index_set_dot S (\<lambda>i. Some (index_set_index S t i)) s =
      Some (default_parity (index_set_and_weight S (index_set_support S t) s))"
proof -
  note lib = assms(1)
  have t: "ascending (index_set_support S t)" using assms(3) by (simp add: index_set_ok_def index_set_support_def)
  obtain u where u: "index_set_bitxor_assign S (index_set_support S t) s = Some u" "index_set_ok S u"
    "index_set_bits S u = (index_set_bits S s - index_set_bits S t) \<union> (index_set_bits S t - index_set_bits S s)"
    using sorted_library.xor_assign [OF lib assms(2), of "index_set_support S t"] t
    by (auto simp: strict_sorted_iff index_set_support_def)
  have "index_set_support S u = index_set_support S (index_set_symmetric_difference S s t)"
    unfolding index_set_support_def
    by (metis sorted_library.ok_list [OF lib] sorted_library.algebra(7,8) [OF lib assms(2,3)] u(2,3))
  moreover have "index_set_weight S u = index_set_xor_weight S (index_set_support S t) s"
    using sorted_library.weight [OF lib u(2)] sorted_library.pair_weights(3) [OF lib assms(2) t] u(3)
    by (simp add: index_set_support_def)
  moreover have "index_set_dot S (\<lambda>i. Some (index_set_index S t i)) s =
      Some (default_parity (index_set_and_weight S (index_set_support S t) s))"
    using sorted_library.dot [OF lib assms(2), of "\<lambda>i. Some (index_set_index S t i)" "index_set_bits S t"]
      sorted_library.pair_weights(1) [OF lib assms(2) t]
    by (simp add: index_set_index_def default_parity_def index_set_support_def odd_iff_mod_2_eq_one)
  ultimately show ?thesis using u by blast
qed

theorem index_set_xor_is_symmetric_difference_witness:
  "\<exists>u. index_set_bitxor_assign list_sets (index_set_support list_sets [2, 3]) [1, 2] = Some u \<and> index_set_ok list_sets u \<and>
    index_set_support list_sets u = index_set_support list_sets (index_set_symmetric_difference list_sets [1, 2] [2, 3]) \<and>
    index_set_bits list_sets u = (index_set_bits list_sets [1, 2] - index_set_bits list_sets [2, 3]) \<union>
      (index_set_bits list_sets [2, 3] - index_set_bits list_sets [1, 2]) \<and>
    index_set_weight list_sets u = index_set_xor_weight list_sets (index_set_support list_sets [2, 3]) [1, 2] \<and>
    index_set_dot list_sets (\<lambda>i. Some (index_set_index list_sets [2, 3] i)) [1, 2] =
      Some (default_parity (index_set_and_weight list_sets (index_set_support list_sets [2, 3]) [1, 2]))"
  by (rule index_set_xor_is_symmetric_difference [OF list_sets.sorted_library_axioms])
    (simp_all add: index_set_ok_def list_sets_def)

end
