(* ===== verification/Pauli_Bits.thy ===== *)
theory Pauli_Bits
  imports Aligned_Vec Index_Set
begin

text \<open>
  The storage of a Pauli operator, the trait \<open>PauliBits\<close> of \<open>paulimer/src/pauli.rs\<close>: the Rust traits
  are a record of operations (a dictionary), which every operation on operators takes as an argument.
  The locale \<open>pauli_bits\<close> is what the operators rely on; aligned bit vectors (dense operators) and
  index sets (sparse operators) are its two instances.
\<close>

unbundle bit_operations_syntax

section \<open>Dictionaries\<close>

record 'b bits_ops =
  bo_index :: "'b \<Rightarrow> nat \<Rightarrow> bool option"
  bo_support :: "'b \<Rightarrow> nat list"
  bo_min_support :: "'b \<Rightarrow> nat option"
  bo_max_support :: "'b \<Rightarrow> nat option"
  bo_weight :: "'b \<Rightarrow> nat"
  bo_is_zero :: "'b \<Rightarrow> bool"
  bo_is_unit :: "'b \<Rightarrow> nat \<Rightarrow> bool option"
  bo_dot :: "'b \<Rightarrow> 'b \<Rightarrow> bool option"
  bo_and_weight :: "'b \<Rightarrow> 'b \<Rightarrow> nat"
  bo_or_weight :: "'b \<Rightarrow> 'b \<Rightarrow> nat"
  bo_assign_index :: "nat \<Rightarrow> bool \<Rightarrow> 'b \<Rightarrow> 'b option"
  bo_negate_index :: "nat \<Rightarrow> 'b \<Rightarrow> 'b option"
  bo_clear_bits :: "'b \<Rightarrow> 'b"
  bo_assign :: "'b \<Rightarrow> 'b \<Rightarrow> 'b"
  bo_bitxor_assign :: "'b \<Rightarrow> 'b \<Rightarrow> 'b option"
  bo_eq :: "'b \<Rightarrow> 'b \<Rightarrow> bool"
  bo_aligned_words :: "'b \<Rightarrow> u64 list option"
  bo_write_words :: "'b \<Rightarrow> u64 list \<Rightarrow> 'b" \<comment> \<open>the value after a write through \<open>aligned_words_mut\<close>\<close>
  bo_neutral :: "'b \<Rightarrow> 'b"
  bo_neutral_of_size :: "nat \<Rightarrow> 'b"

text \<open>\<open>aligned_words\<close> and the neutral elements (\<open>paulimer/src/binar_impls.rs\<close>) of the two storages.\<close>

definition aligned_words :: "bitblock list \<Rightarrow> u64 list option" where
  "aligned_words bs = Some (words bs)"

definition aligned_write_words :: "bitblock list \<Rightarrow> u64 list \<Rightarrow> bitblock list" where
  "aligned_write_words bs ws = unwords (length bs) ws"

definition blocks_neutral_element :: "bitblock list \<Rightarrow> bitblock list" where
  "blocks_neutral_element bs = aligned_zeros (length bs * 512)"

definition blocks_neutral_element_of_size :: "nat \<Rightarrow> bitblock list" where
  "blocks_neutral_element_of_size n = aligned_zeros n"

definition dense_ops :: "bitblock list bits_ops" where
  "dense_ops = \<lparr> bo_index = blocks_index, bo_support = blocks_support, bo_min_support = blocks_min_support,
     bo_max_support = blocks_max_support, bo_weight = blocks_weight, bo_is_zero = blocks_is_zero,
     bo_is_unit = blocks_is_unit, bo_dot = (\<lambda>a b. Some (blocks_dot a b)), bo_and_weight = blocks_and_weight,
     bo_or_weight = blocks_or_weight, bo_assign_index = blocks_assign_index, bo_negate_index = blocks_negate_index,
     bo_clear_bits = blocks_clear_bits, bo_assign = blocks_assign,
     bo_bitxor_assign = (\<lambda>a b. Some (blocks_bitxor_assign a b)), bo_eq = (=), bo_aligned_words = aligned_words,
     bo_write_words = aligned_write_words, bo_neutral = blocks_neutral_element,
     bo_neutral_of_size = blocks_neutral_element_of_size \<rparr>"

definition index_set_neutral_element :: "'s sorted_lib \<Rightarrow> 's" where
  "index_set_neutral_element S = index_set_new S"

definition sparse_ops :: "'s sorted_lib \<Rightarrow> 's bits_ops" where
  "sparse_ops S = \<lparr> bo_index = (\<lambda>s i. Some (index_set_index S s i)), bo_support = index_set_support S,
     bo_min_support = (\<lambda>s. default_min_support (index_set_support S s)),
     bo_max_support = (\<lambda>s. default_max_support (index_set_support S s)), bo_weight = index_set_weight S,
     bo_is_zero = (\<lambda>s. default_is_zero (index_set_weight S s)),
     bo_is_unit = (\<lambda>s. default_is_unit (index_set_weight S s) (\<lambda>i. Some (index_set_index S s i))),
     bo_dot = (\<lambda>s t. index_set_dot S (\<lambda>i. Some (index_set_index S t i)) s),
     bo_and_weight = (\<lambda>s t. index_set_and_weight S (index_set_support S t) s),
     bo_or_weight = (\<lambda>s t. index_set_or_weight S (index_set_support S t) s),
     bo_assign_index = (\<lambda>i b s. Some (index_set_assign_index S i b s)),
     bo_negate_index = (\<lambda>i s. Some (index_set_negate_index S i s)), bo_clear_bits = index_set_clear_bits S,
     bo_assign = (\<lambda>s t. index_set_assign S (index_set_support S t) s),
     bo_bitxor_assign = (\<lambda>s t. index_set_bitxor_assign S (index_set_support S t) s),
     bo_eq = (\<lambda>s t. ss_items S s = ss_items S t), bo_aligned_words = (\<lambda>_. None), bo_write_words = (\<lambda>s _. s),
     bo_neutral = (\<lambda>_. index_set_neutral_element S), bo_neutral_of_size = (\<lambda>_. index_set_neutral_element S) \<rparr>"

text \<open>The loop of \<open>mul_assign_words\<close> over four zipped slices: it stops at the shortest and leaves the
  remaining words of the first two unchanged.\<close>

fun mul_words_loop :: "bool \<Rightarrow> u64 list \<Rightarrow> u64 list \<Rightarrow> u64 list \<Rightarrow> u64 list \<Rightarrow> u64 \<Rightarrow> u64 list \<times> u64 list \<times> u64" where
  "mul_words_loop RIGHT (x_word # x_words) (z_word # z_words) (other_x_word # other_x_words) (other_z_word # other_z_words) products =
     (let products = products XOR (if RIGHT then z_word AND other_x_word else x_word AND other_z_word);
          (xs, zs, products) = mul_words_loop RIGHT x_words z_words other_x_words other_z_words products
      in ((x_word XOR other_x_word) # xs, (z_word XOR other_z_word) # zs, products))"
| "mul_words_loop RIGHT x_words z_words other_x_words other_z_words products = (x_words, z_words, products)"

definition mul_assign_words :: "bool \<Rightarrow> u64 list \<Rightarrow> u64 list \<Rightarrow> u64 list \<Rightarrow> u64 list \<Rightarrow> u64 list \<times> u64 list \<times> bool" where
  "mul_assign_words RIGHT x_words z_words other_x_words other_z_words =
     (let (xs, zs, products) = mul_words_loop RIGHT x_words z_words other_x_words other_z_words 0 in
      (xs, zs, word_parity products))"

section \<open>The contract\<close>

abbreviation sym_diff :: "'a set \<Rightarrow> 'a set \<Rightarrow> 'a set" where
  "sym_diff A B \<equiv> (A - B) \<union> (B - A)"

definition toggle :: "nat \<Rightarrow> nat set \<Rightarrow> nat set" where
  "toggle i A = sym_diff A {i}"

definition within :: "nat option \<Rightarrow> nat \<Rightarrow> bool" where
  "within c i = (case c of None \<Rightarrow> True | Some n \<Rightarrow> i < n)"

locale pauli_bits =
  fixes B :: "'b bits_ops" and ok :: "'b \<Rightarrow> bool" and bset :: "'b \<Rightarrow> nat set" and cap :: "'b \<Rightarrow> nat option"
  assumes bset_finite: "ok b \<Longrightarrow> finite (bset b)"
    and bset_within: "ok b \<Longrightarrow> i \<in> bset b \<Longrightarrow> within (cap b) i"
    and index: "ok b \<Longrightarrow> within (cap b) i \<Longrightarrow> bo_index B b i = Some (i \<in> bset b)"
    and support: "ok b \<Longrightarrow> bo_support B b = sorted_list_of_set (bset b)"
    and min_support: "ok b \<Longrightarrow> bo_min_support B b = (if bset b = {} then None else Some (Min (bset b)))"
    and max_support: "ok b \<Longrightarrow> bo_max_support B b = (if bset b = {} then None else Some (Max (bset b)))"
    and weight: "ok b \<Longrightarrow> bo_weight B b = card (bset b)"
    and is_zero: "ok b \<Longrightarrow> bo_is_zero B b = (bset b = {})"
    and is_unit: "ok b \<Longrightarrow> within (cap b) i \<Longrightarrow> bo_is_unit B b i = Some (bset b = {i})"
    and dot: "ok a \<Longrightarrow> ok b \<Longrightarrow> cap a = cap b \<Longrightarrow> bo_dot B a b = Some (odd (card (bset a \<inter> bset b)))"
    and and_weight: "ok a \<Longrightarrow> ok b \<Longrightarrow> cap a = cap b \<Longrightarrow> bo_and_weight B a b = card (bset a \<inter> bset b)"
    and or_weight: "ok a \<Longrightarrow> ok b \<Longrightarrow> cap a = cap b \<Longrightarrow> bo_or_weight B a b = card (bset a \<union> bset b)"
    and assign_index: "ok b \<Longrightarrow> within (cap b) i \<Longrightarrow> \<exists>b'. bo_assign_index B i v b = Some b' \<and> ok b' \<and> cap b' = cap b \<and>
      bset b' = (if v then insert i (bset b) else bset b - {i})"
    and negate_index: "ok b \<Longrightarrow> within (cap b) i \<Longrightarrow> \<exists>b'. bo_negate_index B i b = Some b' \<and> ok b' \<and> cap b' = cap b \<and>
      bset b' = toggle i (bset b)"
    and clear_bits: "ok b \<Longrightarrow> ok (bo_clear_bits B b) \<and> cap (bo_clear_bits B b) = cap b \<and> bset (bo_clear_bits B b) = {}"
    and assign: "ok a \<Longrightarrow> ok b \<Longrightarrow> cap a = cap b \<Longrightarrow>
      ok (bo_assign B a b) \<and> cap (bo_assign B a b) = cap a \<and> bset (bo_assign B a b) = bset b"
    and bitxor_assign: "ok a \<Longrightarrow> ok b \<Longrightarrow> cap a = cap b \<Longrightarrow> \<exists>a'. bo_bitxor_assign B a b = Some a' \<and> ok a' \<and> cap a' = cap a \<and>
      bset a' = sym_diff (bset a) (bset b)"
    and eq: "ok a \<Longrightarrow> ok b \<Longrightarrow> cap a = cap b \<Longrightarrow> bo_eq B a b = (bset a = bset b)"
    and words_same: "ok a \<Longrightarrow> ok b \<Longrightarrow> cap a = cap b \<Longrightarrow> (bo_aligned_words B a = None) = (bo_aligned_words B b = None)"
    and words_length: "ok a \<Longrightarrow> ok b \<Longrightarrow> cap a = cap b \<Longrightarrow> bo_aligned_words B a = Some as \<Longrightarrow> bo_aligned_words B b = Some bs \<Longrightarrow>
      length as = length bs"
    and words_xor: "ok a \<Longrightarrow> ok b \<Longrightarrow> cap a = cap b \<Longrightarrow> bo_aligned_words B a = Some as \<Longrightarrow> bo_aligned_words B b = Some bs \<Longrightarrow>
      ok (bo_write_words B a (map2 (XOR) as bs)) \<and> cap (bo_write_words B a (map2 (XOR) as bs)) = cap a \<and>
      bset (bo_write_words B a (map2 (XOR) as bs)) = sym_diff (bset a) (bset b)"
    and words_dot: "ok a \<Longrightarrow> ok b \<Longrightarrow> cap a = cap b \<Longrightarrow> bo_aligned_words B a = Some as \<Longrightarrow> bo_aligned_words B b = Some bs \<Longrightarrow>
      word_parity (fold (\<lambda>(l, r) p. p XOR (l AND r)) (zip as bs) 0) = odd (card (bset a \<inter> bset b))"
    and neutral: "ok b \<Longrightarrow> ok (bo_neutral B b) \<and> cap (bo_neutral B b) = cap b \<and> bset (bo_neutral B b) = {}"
    and neutral_of_size: "ok (bo_neutral_of_size B n) \<and> bset (bo_neutral_of_size B n) = {} \<and>
      (\<forall>i < n. within (cap (bo_neutral_of_size B n)) i)"


lemma mul_words_loop_eq:
  assumes "length zs = length xs" "length oxs = length xs" "length ozs = length xs"
  shows "mul_words_loop RIGHT xs zs oxs ozs p = (map2 (XOR) xs oxs, map2 (XOR) zs ozs,
    fold (\<lambda>(l, r) p. p XOR (l AND r)) (if RIGHT then zip zs oxs else zip xs ozs) p)"
  using assms
proof (induction RIGHT xs zs oxs ozs p rule: mul_words_loop.induct)
  case (1 RIGHT x xs z zs ox oxs oz ozs p)
  then show ?case by (simp add: Let_def)
qed auto

section \<open>Dense operators: aligned bit vectors\<close>

lemma supp_sorted_list: "(\<And>i. f i \<Longrightarrow> i < n) \<Longrightarrow> supp n f = sorted_list_of_set {i. f i}"
proof -
  assume "\<And>i. f i \<Longrightarrow> i < n"
  then have eq: "{i. f i} = set (supp n f)" by auto
  show ?thesis unfolding eq by (rule sorted_list_of_set.idem_if_sorted_distinct [symmetric]) simp_all
qed

lemma length_supp_card: "(\<And>i. f i \<Longrightarrow> i < n) \<Longrightarrow> length (supp n f) = card {i. f i}"
  by (simp add: supp_sorted_list)

lemma first_last_sorted_list:
  assumes "finite A"
  shows "first_of (sorted_list_of_set A) = (if A = {} then None else Some (Min A))"
    "last_of (sorted_list_of_set A) = (if A = {} then None else Some (Max A))"
proof -
  show "first_of (sorted_list_of_set A) = (if A = {} then None else Some (Min A))"
    using assms by (simp add: first_of_def sorted_list_of_set_nonempty)
  show "last_of (sorted_list_of_set A) = (if A = {} then None else Some (Max A))"
  proof (cases "A = {}")
    case False
    let ?xs = "sorted_list_of_set A"
    have ne: "?xs \<noteq> []" using False assms by simp
    have "Max A = last ?xs"
    proof (rule Max_eqI)
      show "last ?xs \<in> A" using ne assms by (metis last_in_set set_sorted_list_of_set)
      show "y \<le> last ?xs" if "y \<in> A" for y
      proof -
        obtain k where k: "k < length ?xs" "?xs ! k = y" using \<open>y \<in> A\<close> assms by (metis in_set_conv_nth set_sorted_list_of_set)
        then have "?xs ! k \<le> ?xs ! (length ?xs - 1)" by (intro sorted_nth_mono) auto
        with k ne show ?thesis by (simp add: last_conv_nth)
      qed
    qed (use assms in simp)
    with False ne show ?thesis by (auto simp: last_of_def split: list.splits)
  qed simp
qed

abbreviation dense_bits :: "bitblock list \<Rightarrow> nat set" where
  "dense_bits bs \<equiv> {i. blocks_bit bs i}"

abbreviation dense_cap :: "bitblock list \<Rightarrow> nat option" where
  "dense_cap bs \<equiv> Some (length bs * 512)"

lemma map2_words:
  assumes "blocks_ok as" "blocks_ok bs" "length as = length bs"
  shows "blocks_ok (unwords (length as) (map2 (XOR) (words as) (words bs)))"
    "length (unwords (length as) (map2 (XOR) (words as) (words bs))) = length as"
    "blocks_bit (unwords (length as) (map2 (XOR) (words as) (words bs))) i = (blocks_bit as i \<noteq> blocks_bit bs i)"
proof -
  let ?ws = "map2 (XOR) (words as) (words bs)"
  have l: "length ?ws = length as * 8" using assms by (simp add: length_words)
  note u = words_unwords [OF l]
  then show "blocks_ok (unwords (length as) ?ws)" "length (unwords (length as) ?ws) = length as" by simp_all
  show "blocks_bit (unwords (length as) ?ws) i = (blocks_bit as i \<noteq> blocks_bit bs i)"
    using u assms blocks_bit_words [of "unwords (length as) ?ws"]
    by (auto simp: blocks_bit_words lift_bit_def length_words bit_xor_iff div_mod_less)
qed

lemma blocks_eq_iff:
  assumes "blocks_ok as" "blocks_ok bs" "length as = length bs"
  shows "as = bs \<longleftrightarrow> dense_bits as = dense_bits bs"
proof
  assume "dense_bits as = dense_bits bs"
  then have b: "blocks_bit as i = blocks_bit bs i" for i by auto
  have "words as = words bs"
  proof (rule nth_equalityI)
    show l: "length (words as) = length (words bs)" using assms by (simp add: length_words)
    fix k assume k: "k < length (words as)"
    show "words as ! k = words bs ! k"
    proof (rule bit_word_eqI)
      fix j :: nat assume "j < LENGTH(64)"
      then have "64 * k + j < length (words as) * 64" "(64 * k + j) div 64 = k" "(64 * k + j) mod 64 = j"
        using k by auto
      with b [of "64 * k + j"] l show "bit (words as ! k) j = bit (words bs ! k) j"
        using assms by (simp add: blocks_bit_words lift_bit_def)
    qed
  qed
  then show "as = bs" using unwords_words [OF assms(1)] unwords_words [OF assms(2)] assms(3) by metis
qed simp

lemma blocks_dot_card:
  assumes "blocks_ok as" "blocks_ok bs" "length as = length bs"
  shows "blocks_dot as bs = odd (card (dense_bits as \<inter> dense_bits bs))"
proof -
  have "{i. i < length as * 512 \<and> blocks_bit as i \<and> blocks_bit bs i} = dense_bits as \<inter> dense_bits bs"
    using blocks.bits_bound [OF assms(1)] by auto
  with blocks.dot [OF assms(1,2)] assms(3) show ?thesis by (simp add: xsum_odd_card)
qed

interpretation dense: pauli_bits dense_ops blocks_ok dense_bits dense_cap
proof (unfold_locales, goal_cases)
  case (1 b)
  then show ?case using blocks.bits_bound by (auto intro!: finite_subset [of _ "{..<length b * 512}"])
next
  case (2 b i)
  then show ?case using blocks.bits_bound by (auto simp: within_def)
next
  case (3 b i)
  then show ?case using blocks.idx by (simp add: dense_ops_def within_def)
next
  case (4 b)
  then show ?case using blocks.support blocks.bits_bound by (simp add: dense_ops_def supp_sorted_list)
next
  case (5 b)
  have "finite (dense_bits b)" using 5 blocks.bits_bound by (auto intro!: finite_subset [of _ "{..<length b * 512}"])
  then show ?case using 5 blocks.min_support blocks.bits_bound [OF 5]
    by (simp add: dense_ops_def supp_sorted_list first_last_sorted_list)
next
  case (6 b)
  have "finite (dense_bits b)" using 6 blocks.bits_bound by (auto intro!: finite_subset [of _ "{..<length b * 512}"])
  then show ?case using 6 blocks.max_support blocks.bits_bound [OF 6]
    by (simp add: dense_ops_def supp_sorted_list first_last_sorted_list)
next
  case (7 b)
  then show ?case using blocks.weight blocks.bits_bound by (simp add: dense_ops_def length_supp_card)
next
  case (8 b)
  then show ?case using blocks.is_zero blocks.bits_bound by (auto simp: dense_ops_def)
next
  case (9 b i)
  then show ?case using blocks.is_unit [of b i] blocks.bits_bound [of b] by (auto simp: dense_ops_def within_def)
next
  case (10 a b)
  then show ?case by (simp add: dense_ops_def blocks_dot_card)
next
  case (11 a b)
  then have "blocks_bit a i \<and> blocks_bit b i \<Longrightarrow> i < length b * 512" for i using blocks.bits_bound [of a i] by simp
  from length_supp_card [OF this] 11 show ?case using blocks.and_weight [of a b]
    by (simp add: dense_ops_def Collect_conj_eq)
next
  case (12 a b)
  then have "blocks_bit a i \<or> blocks_bit b i \<Longrightarrow> i < length b * 512" for i
    using blocks.bits_bound [of a i] blocks.bits_bound [of b i] by auto
  from length_supp_card [OF this] 12 show ?case using blocks.or_weight [of a b]
    by (simp add: dense_ops_def Collect_disj_eq)
next
  case (13 b i v)
  then show ?case using blocks.assign [of b i v] by (auto simp: dense_ops_def within_def split: if_splits)
next
  case (14 b i)
  then show ?case using blocks.negate [of b i] by (auto simp: dense_ops_def within_def toggle_def split: if_splits)
next
  case (15 b)
  then show ?case using blocks.clear by (simp add: dense_ops_def)
next
  case (16 a b)
  then show ?case using blocks.copy_from [of a b] by (simp add: dense_ops_def)
next
  case (17 a b)
  then show ?case using blocks.xor_assign [of a b] by (auto simp: dense_ops_def)
next
  case (18 a b)
  then show ?case by (simp add: dense_ops_def blocks_eq_iff)
next
  case (19 a b)
  then show ?case by (simp add: dense_ops_def aligned_words_def)
next
  case (20 a b as bs)
  then show ?case by (auto simp: dense_ops_def aligned_words_def length_words)
next
  case (21 a b as bs)
  then show ?case using map2_words [of a b] by (auto simp: dense_ops_def aligned_words_def aligned_write_words_def)
next
  case (22 a b as bs)
  then have "as = words a" "bs = words b" by (simp_all add: dense_ops_def aligned_words_def)
  with 22 blocks_dot_card [of a b] show ?case by (simp add: blocks_dot_def)
next
  case (23 b)
  then show ?case using aligned_zeros_bit [of "length b * 512"] block_count_bounds [of "length b * 512"]
    by (auto simp: dense_ops_def blocks_neutral_element_def)
next
  case (24 n)
  then show ?case using aligned_zeros_bit [of n] block_count_ge [of n]
    by (auto simp: dense_ops_def blocks_neutral_element_of_size_def within_def)
qed

section \<open>Sparse operators: index sets\<close>

sublocale sorted_library \<subseteq> sparse: pauli_bits "sparse_ops S" "index_set_ok S" "\<lambda>s. index_set_bits S s" "\<lambda>_. None"
proof (unfold_locales, goal_cases)
  case (4 b)
  then show ?case by (simp add: sparse_ops_def index_set_support_def ok_list [of b, symmetric])
next
  case (5 b)
  then show ?case using first_last_sorted_list(1) [of "index_set_bits S b"]
    by (simp add: sparse_ops_def index_set_support_def default_min_support_def flip: ok_list)
next
  case (6 b)
  then show ?case using first_last_sorted_list(2) [of "index_set_bits S b"]
    by (simp add: sparse_ops_def index_set_support_def default_max_support_def flip: ok_list)
next
  case (9 b i)
  then show ?case
    by (auto simp: sparse_ops_def default_is_unit_def weight index_set_index_def card_1_singleton_iff)
next
  case (10 a b)
  then show ?case using dot [of a "\<lambda>i. Some (index_set_index S b i)" "index_set_bits S b"]
    by (simp add: sparse_ops_def index_set_index_def)
next
  case (17 a b)
  then have "distinct (index_set_support S b)" by (simp add: index_set_ok_def index_set_support_def strict_sorted_iff)
  then show ?case using xor_assign [OF 17(1)] by (simp add: sparse_ops_def index_set_support_def)
next
  case (18 a b)
  then have "index_set_bits S a = index_set_bits S b \<Longrightarrow> ss_items S a = ss_items S b" by (metis ok_list)
  then show ?case by (auto simp: sparse_ops_def)
qed (auto simp: sparse_ops_def within_def toggle_def index_set_index_def weight default_is_zero_def element_updates constructors
    index_set_neutral_element_def pair_weights [OF _ index_set_ok_def [THEN iffD1]] index_set_support_def)

context sorted_library
begin

lemma sparse_bits: "pauli_bits (sparse_ops S) (index_set_ok S) (\<lambda>s. index_set_bits S s) (\<lambda>_. None)"
  by unfold_locales

end

end
