(* ===== verification/Pauli.thy ===== *)
theory Pauli
  imports Pauli_Bits
begin

text \<open>
  Pauli operators: \<open>PauliUnitary\<close> and \<open>PauliUnitaryProjective\<close> of \<open>paulimer/src/pauli/generic.rs\<close>, the
  traits of \<open>pauli.rs\<close>, the products of \<open>pauli/operators.rs\<close> and the rotations of
  \<open>pauli/algorithms.rs\<close>.  An operator is \<open>i^k X^a Z^b\<close>: two bit sets and a phase exponent, an 8-bit
  integer that wraps.  Its meaning is its action on the computational basis, and the theorems show
  that the code's products, inverses and commutation tests are those of the operators, for both
  storages and with or without the word-parallel path.
\<close>

unbundle bit_operations_syntax

section \<open>Phase exponents\<close>

definition phase_value :: "u8 \<Rightarrow> u8" where
  "phase_value raw = raw mod 4"

definition phase_is_even :: "u8 \<Rightarrow> bool" where
  "phase_is_even raw = (raw AND 1 = 0)"

definition phase_is_odd :: "u8 \<Rightarrow> bool" where
  "phase_is_odd raw = (raw AND 1 \<noteq> 0)"

definition phase_raw_eq :: "u8 \<Rightarrow> u8 \<Rightarrow> bool" where
  "phase_raw_eq raw_value1 raw_value2 = ((raw_value1 - raw_value2) mod 4 = 0)"

definition phase_is_zero :: "u8 \<Rightarrow> bool" where
  "phase_is_zero raw = (2 \<le> trailing_zeros raw)"

definition phase_add_assign :: "u8 \<Rightarrow> u8 \<Rightarrow> u8" where
  "phase_add_assign v raw = raw + v"

definition phase_complex_conjugate :: "u8 \<Rightarrow> u8" where
  "phase_complex_conjugate raw = 4 - raw mod 4"

section \<open>Operators\<close>

record 'b pauli_projective =
  x_bits :: 'b
  z_bits :: 'b

record 'b pauli_unitary =
  projective :: "'b pauli_projective"
  xz_phase_exp :: u8

definition projective_from_bits :: "'b \<Rightarrow> 'b \<Rightarrow> 'b pauli_projective" where
  "projective_from_bits x z = \<lparr> x_bits = x, z_bits = z \<rparr>"

definition pauli_from_bits :: "'b \<Rightarrow> 'b \<Rightarrow> u8 \<Rightarrow> 'b pauli_unitary" where
  "pauli_from_bits x z phase = \<lparr> projective = projective_from_bits x z, xz_phase_exp = phase \<rparr>"

abbreviation px :: "'b pauli_unitary \<Rightarrow> 'b" where "px p \<equiv> x_bits (projective p)"
abbreviation pz :: "'b pauli_unitary \<Rightarrow> 'b" where "pz p \<equiv> z_bits (projective p)"

text \<open>The default methods of the trait \<open>Pauli\<close>.\<close>

definition max_opt :: "nat option \<Rightarrow> nat option \<Rightarrow> nat option" where
  "max_opt a b = (case (a, b) of (None, None) \<Rightarrow> None | (None, Some i) \<Rightarrow> Some i | (Some i, None) \<Rightarrow> Some i
     | (Some i, Some j) \<Rightarrow> Some (max i j))"

definition min_opt :: "nat option \<Rightarrow> nat option \<Rightarrow> nat option" where
  "min_opt a b = (case (a, b) of (None, None) \<Rightarrow> None | (None, Some i) \<Rightarrow> Some i | (Some i, None) \<Rightarrow> Some i
     | (Some i, Some j) \<Rightarrow> Some (min i j))"

definition projective_max_support :: "'b bits_ops \<Rightarrow> 'b pauli_projective \<Rightarrow> nat option" where
  "projective_max_support B p = max_opt (bo_max_support B (x_bits p)) (bo_max_support B (z_bits p))"

definition projective_min_support :: "'b bits_ops \<Rightarrow> 'b pauli_projective \<Rightarrow> nat option" where
  "projective_min_support B p = min_opt (bo_min_support B (x_bits p)) (bo_min_support B (z_bits p))"

definition y_parity :: "'b bits_ops \<Rightarrow> 'b pauli_projective \<Rightarrow> bool option" where
  "y_parity B p = bo_dot B (x_bits p) (z_bits p)"

definition y_weight :: "'b bits_ops \<Rightarrow> 'b pauli_projective \<Rightarrow> nat" where
  "y_weight B p = bo_and_weight B (x_bits p) (z_bits p)"

definition sub_opt :: "nat \<Rightarrow> nat \<Rightarrow> nat option" where
  "sub_opt a b = (if b \<le> a then Some (a - b) else None)"

definition x_weight :: "'b bits_ops \<Rightarrow> 'b pauli_projective \<Rightarrow> nat option" where
  "x_weight B p = sub_opt (bo_weight B (x_bits p)) (y_weight B p)"

definition z_weight :: "'b bits_ops \<Rightarrow> 'b pauli_projective \<Rightarrow> nat option" where
  "z_weight B p = sub_opt (bo_weight B (z_bits p)) (y_weight B p)"

definition pauli_weight :: "'b bits_ops \<Rightarrow> 'b pauli_projective \<Rightarrow> nat" where
  "pauli_weight B p = bo_or_weight B (x_bits p) (z_bits p)"

definition qubit_count :: "'b bits_ops \<Rightarrow> 'b pauli_projective \<Rightarrow> nat" where
  "qubit_count B p = (case projective_max_support B p of None \<Rightarrow> 0 | Some max_id \<Rightarrow> max_id + 1)"

text \<open>Tests.\<close>

definition projective_is_identity :: "'b bits_ops \<Rightarrow> 'b pauli_projective \<Rightarrow> bool" where
  "projective_is_identity B p = (bo_is_zero B (x_bits p) \<and> bo_is_zero B (z_bits p))"

definition pauli_is_identity :: "'b bits_ops \<Rightarrow> 'b pauli_unitary \<Rightarrow> bool" where
  "pauli_is_identity B p = (bo_is_zero B (px p) \<and> bo_is_zero B (pz p) \<and> phase_is_zero (xz_phase_exp p))"

definition pauli_is_order_two :: "'b bits_ops \<Rightarrow> 'b pauli_unitary \<Rightarrow> bool option" where
  "pauli_is_order_two B p = do { y \<leftarrow> y_parity B (projective p); Some (y \<noteq> phase_is_even (xz_phase_exp p)) }"

definition is_pauli_x :: "'b bits_ops \<Rightarrow> 'b pauli_unitary \<Rightarrow> nat \<Rightarrow> bool option" where
  "is_pauli_x B p qubit = do {
     u \<leftarrow> bo_is_unit B (px p) qubit;
     Some (u \<and> bo_is_zero B (pz p) \<and> phase_is_zero (xz_phase_exp p)) }"

definition is_pauli_z :: "'b bits_ops \<Rightarrow> 'b pauli_unitary \<Rightarrow> nat \<Rightarrow> bool option" where
  "is_pauli_z B p qubit =
     (if bo_is_zero B (px p) then do {
        u \<leftarrow> bo_is_unit B (pz p) qubit;
        Some (u \<and> phase_is_zero (xz_phase_exp p)) }
      else Some False)"

definition is_pauli_y :: "'b bits_ops \<Rightarrow> 'b pauli_unitary \<Rightarrow> nat \<Rightarrow> bool option" where
  "is_pauli_y B p qubit = do {
     u \<leftarrow> bo_is_unit B (px p) qubit;
     if u then do { v \<leftarrow> bo_is_unit B (pz p) qubit; Some (v \<and> phase_value (xz_phase_exp p) = 1) }
     else Some False }"

definition xz_phase_exponent :: "'b pauli_unitary \<Rightarrow> u8" where
  "xz_phase_exponent p = phase_value (xz_phase_exp p)"

definition xyz_phase_exponent :: "'b bits_ops \<Rightarrow> 'b pauli_unitary \<Rightarrow> u8" where
  "xyz_phase_exponent B p = (let y_weight_mod4 = of_nat (y_weight B (projective p) mod 4) in
     (xz_phase_exponent p + 3 * y_weight_mod4) mod 4)"

definition pauli_eq :: "'b bits_ops \<Rightarrow> 'b pauli_unitary \<Rightarrow> 'b pauli_unitary \<Rightarrow> bool" where
  "pauli_eq B p other = (xz_phase_exponent p = xz_phase_exponent other \<and> bo_eq B (px p) (px other) \<and> bo_eq B (pz p) (pz other))"

text \<open>Updates of the phase.\<close>

definition assign_phase_exp :: "u8 \<Rightarrow> 'b pauli_unitary \<Rightarrow> 'b pauli_unitary" where
  "assign_phase_exp rhs p = p\<lparr>xz_phase_exp := rhs\<rparr>"

definition add_assign_phase_exp :: "u8 \<Rightarrow> 'b pauli_unitary \<Rightarrow> 'b pauli_unitary" where
  "add_assign_phase_exp rhs p = p\<lparr>xz_phase_exp := phase_add_assign rhs (xz_phase_exp p)\<rparr>"

definition pauli_complex_conjugate :: "'b pauli_unitary \<Rightarrow> 'b pauli_unitary" where
  "pauli_complex_conjugate p = p\<lparr>xz_phase_exp := phase_complex_conjugate (xz_phase_exp p)\<rparr>"

definition pauli_negate :: "'b pauli_unitary \<Rightarrow> 'b pauli_unitary" where
  "pauli_negate p = p\<lparr>xz_phase_exp := phase_add_assign 2 (xz_phase_exp p)\<rparr>"

definition pauli_invert :: "'b bits_ops \<Rightarrow> 'b pauli_unitary \<Rightarrow> 'b pauli_unitary option" where
  "pauli_invert B p = do {
     let p = pauli_complex_conjugate p;
     y \<leftarrow> y_parity B (projective p);
     Some (if y then pauli_negate p else p) }"

definition assign_phase_from :: "'b pauli_unitary \<Rightarrow> 'b pauli_unitary \<Rightarrow> 'b pauli_unitary" where
  "assign_phase_from other p = p\<lparr>xz_phase_exp := xz_phase_exponent other\<rparr>"

definition mul_assign_phase_from :: "'b pauli_unitary \<Rightarrow> 'b pauli_unitary \<Rightarrow> 'b pauli_unitary" where
  "mul_assign_phase_from other p = p\<lparr>xz_phase_exp := phase_add_assign (xz_phase_exponent other) (xz_phase_exp p)\<rparr>"

text \<open>Multiplication by one Pauli matrix.\<close>

definition mul_assign_left_x :: "'b bits_ops \<Rightarrow> nat \<Rightarrow> 'b pauli_unitary \<Rightarrow> 'b pauli_unitary option" where
  "mul_assign_left_x B qubit_id p = do {
     x \<leftarrow> bo_negate_index B qubit_id (px p);
     Some (p\<lparr>projective := (projective p)\<lparr>x_bits := x\<rparr>\<rparr>) }"

definition mul_assign_right_x :: "'b bits_ops \<Rightarrow> nat \<Rightarrow> 'b pauli_unitary \<Rightarrow> 'b pauli_unitary option" where
  "mul_assign_right_x B qubit_id p = do {
     x \<leftarrow> bo_negate_index B qubit_id (px p);
     let p = p\<lparr>projective := (projective p)\<lparr>x_bits := x\<rparr>\<rparr>;
     z \<leftarrow> bo_index B (pz p) qubit_id;
     Some (if z then p\<lparr>xz_phase_exp := phase_add_assign 2 (xz_phase_exp p)\<rparr> else p) }"

definition mul_assign_left_z :: "'b bits_ops \<Rightarrow> nat \<Rightarrow> 'b pauli_unitary \<Rightarrow> 'b pauli_unitary option" where
  "mul_assign_left_z B qubit_id p = do {
     z \<leftarrow> bo_negate_index B qubit_id (pz p);
     let p = p\<lparr>projective := (projective p)\<lparr>z_bits := z\<rparr>\<rparr>;
     x \<leftarrow> bo_index B (px p) qubit_id;
     Some (if x then p\<lparr>xz_phase_exp := phase_add_assign 2 (xz_phase_exp p)\<rparr> else p) }"

definition mul_assign_right_z :: "'b bits_ops \<Rightarrow> nat \<Rightarrow> 'b pauli_unitary \<Rightarrow> 'b pauli_unitary option" where
  "mul_assign_right_z B qubit_id p = do {
     z \<leftarrow> bo_negate_index B qubit_id (pz p);
     Some (p\<lparr>projective := (projective p)\<lparr>z_bits := z\<rparr>\<rparr>) }"

definition mul_assign_left_y :: "'b bits_ops \<Rightarrow> nat \<Rightarrow> 'b pauli_unitary \<Rightarrow> 'b pauli_unitary option" where
  "mul_assign_left_y B qubit_id p = do {
     p \<leftarrow> mul_assign_left_z B qubit_id p;
     p \<leftarrow> mul_assign_left_x B qubit_id p;
     Some (add_assign_phase_exp 1 p) }"

definition mul_assign_right_y :: "'b bits_ops \<Rightarrow> nat \<Rightarrow> 'b pauli_unitary \<Rightarrow> 'b pauli_unitary option" where
  "mul_assign_right_y B qubit_id p = do {
     p \<leftarrow> mul_assign_right_x B qubit_id p;
     p \<leftarrow> mul_assign_right_z B qubit_id p;
     Some (add_assign_phase_exp 1 p) }"

definition set_identity :: "'b bits_ops \<Rightarrow> 'b pauli_unitary \<Rightarrow> 'b pauli_unitary" where
  "set_identity B p = \<lparr> projective = \<lparr> x_bits = bo_clear_bits B (px p), z_bits = bo_clear_bits B (pz p) \<rparr>, xz_phase_exp = 0 \<rparr>"

text \<open>Products.  The words of the operands are used when both have them; otherwise the cross parity
  is the inner product and the bits are added.\<close>

definition add_assign_bits :: "'b bits_ops \<Rightarrow> 'b pauli_projective \<Rightarrow> 'b pauli_projective \<Rightarrow> 'b pauli_projective option" where
  "add_assign_bits B from to = do {
     x \<leftarrow> bo_bitxor_assign B (x_bits to) (x_bits from);
     z \<leftarrow> bo_bitxor_assign B (z_bits to) (z_bits from);
     Some \<lparr> x_bits = x, z_bits = z \<rparr> }"

definition assign_bits :: "'b bits_ops \<Rightarrow> 'b pauli_projective \<Rightarrow> 'b pauli_projective \<Rightarrow> 'b pauli_projective" where
  "assign_bits B from to = \<lparr> x_bits = bo_assign B (x_bits to) (x_bits from), z_bits = bo_assign B (z_bits to) (z_bits from) \<rparr>"

definition assign_bits_with_offset ::
  "'b bits_ops \<Rightarrow> 'b pauli_projective \<Rightarrow> nat \<Rightarrow> nat \<Rightarrow> 'b pauli_projective \<Rightarrow> 'b pauli_projective option" where
  "assign_bits_with_offset B from start_qubit_index num_qubits to = do {
     x \<leftarrow> assign_with_offset (bo_assign_index B) (bo_index B (x_bits from)) start_qubit_index num_qubits (x_bits to);
     z \<leftarrow> assign_with_offset (bo_assign_index B) (bo_index B (z_bits from)) start_qubit_index num_qubits (z_bits to);
     Some \<lparr> x_bits = x, z_bits = z \<rparr> }"

definition mul_assign_aligned_bits ::
  "'b bits_ops \<Rightarrow> bool \<Rightarrow> 'b pauli_projective \<Rightarrow> 'b pauli_projective \<Rightarrow> ('b pauli_projective \<times> bool) option" where
  "mul_assign_aligned_bits B RIGHT bs other = do {
     xs \<leftarrow> bo_aligned_words B (x_bits bs);
     zs \<leftarrow> bo_aligned_words B (z_bits bs);
     other_xs \<leftarrow> bo_aligned_words B (x_bits other);
     other_zs \<leftarrow> bo_aligned_words B (z_bits other);
     let (xs, zs, parity) = mul_assign_words RIGHT xs zs other_xs other_zs;
     Some (\<lparr> x_bits = bo_write_words B (x_bits bs) xs, z_bits = bo_write_words B (z_bits bs) zs \<rparr>, parity) }"

definition mul_assign_right :: "'b bits_ops \<Rightarrow> 'b pauli_unitary \<Rightarrow> 'b pauli_unitary \<Rightarrow> 'b pauli_unitary option" where
  "mul_assign_right B rhs p = do {
     (bs, cross_parity) \<leftarrow> (case mul_assign_aligned_bits B True (projective p) (projective rhs) of
         Some r \<Rightarrow> Some r
       | None \<Rightarrow> do {
           cross_parity \<leftarrow> bo_dot B (pz p) (px rhs);
           bs \<leftarrow> add_assign_bits B (projective rhs) (projective p);
           Some (bs, cross_parity) });
     let cross = (if cross_parity then 2 else 0);
     Some (add_assign_phase_exp (cross + xz_phase_exponent rhs) (p\<lparr>projective := bs\<rparr>)) }"

definition mul_assign_left :: "'b bits_ops \<Rightarrow> 'b pauli_unitary \<Rightarrow> 'b pauli_unitary \<Rightarrow> 'b pauli_unitary option" where
  "mul_assign_left B lhs p = do {
     (bs, cross_parity) \<leftarrow> (case mul_assign_aligned_bits B False (projective p) (projective lhs) of
         Some r \<Rightarrow> Some r
       | None \<Rightarrow> do {
           cross_parity \<leftarrow> bo_dot B (px p) (pz lhs);
           bs \<leftarrow> add_assign_bits B (projective lhs) (projective p);
           Some (bs, cross_parity) });
     let cross = (if cross_parity then 2 else 0);
     Some (add_assign_phase_exp (cross + xz_phase_exponent lhs) (p\<lparr>projective := bs\<rparr>)) }"

definition pauli_assign :: "'b bits_ops \<Rightarrow> 'b pauli_unitary \<Rightarrow> 'b pauli_unitary \<Rightarrow> 'b pauli_unitary" where
  "pauli_assign B rhs p = (assign_phase_exp (xz_phase_exponent rhs) p)\<lparr>projective := assign_bits B (projective rhs) (projective p)\<rparr>"

definition pauli_assign_with_offset ::
  "'b bits_ops \<Rightarrow> 'b pauli_unitary \<Rightarrow> nat \<Rightarrow> nat \<Rightarrow> 'b pauli_unitary \<Rightarrow> 'b pauli_unitary option" where
  "pauli_assign_with_offset B rhs start_qubit_index num_qubits p = do {
     bs \<leftarrow> assign_bits_with_offset B (projective rhs) start_qubit_index num_qubits (projective p);
     Some ((assign_phase_exp (xz_phase_exponent rhs) p)\<lparr>projective := bs\<rparr>) }"

text \<open>Neutral elements and constructors.\<close>

definition pauli_neutral_element :: "'b bits_ops \<Rightarrow> 'b pauli_unitary \<Rightarrow> 'b pauli_unitary" where
  "pauli_neutral_element B p = pauli_from_bits (bo_neutral B (px p)) (bo_neutral B (pz p)) 0"

definition pauli_neutral_element_of_size :: "'b bits_ops \<Rightarrow> nat \<Rightarrow> 'b pauli_unitary" where
  "pauli_neutral_element_of_size B n = pauli_from_bits (bo_neutral_of_size B n) (bo_neutral_of_size B n) 0"

definition pauli_x :: "'b bits_ops \<Rightarrow> nat \<Rightarrow> nat \<Rightarrow> 'b pauli_unitary option" where
  "pauli_x B qubit_index qubits = mul_assign_left_x B qubit_index (pauli_neutral_element_of_size B qubits)"

definition pauli_y :: "'b bits_ops \<Rightarrow> nat \<Rightarrow> nat \<Rightarrow> 'b pauli_unitary option" where
  "pauli_y B qubit_index qubits = mul_assign_left_y B qubit_index (pauli_neutral_element_of_size B qubits)"

definition pauli_z :: "'b bits_ops \<Rightarrow> nat \<Rightarrow> nat \<Rightarrow> 'b pauli_unitary option" where
  "pauli_z B qubit_index qubits = mul_assign_left_z B qubit_index (pauli_neutral_element_of_size B qubits)"

text \<open>The operator overloads of \<open>pauli/operators.rs\<close>.\<close>

definition pauli_mul_refs :: "'b bits_ops \<Rightarrow> 'b pauli_unitary \<Rightarrow> 'b pauli_unitary \<Rightarrow> 'b pauli_unitary option" where
  "pauli_mul_refs B p other = (let res = pauli_assign B p (pauli_neutral_element B p) in mul_assign_right B other res)"

definition pauli_mul_phase :: "u8 \<Rightarrow> 'b pauli_unitary \<Rightarrow> 'b pauli_unitary" where
  "pauli_mul_phase phase p = add_assign_phase_exp phase p"

definition pauli_neg :: "'b pauli_unitary \<Rightarrow> 'b pauli_unitary" where
  "pauli_neg p = add_assign_phase_exp 2 p"

text \<open>Commutation and the rotations of \<open>pauli/algorithms.rs\<close>.\<close>

definition anti_commutes_with :: "'b bits_ops \<Rightarrow> 'b pauli_projective \<Rightarrow> 'b pauli_projective \<Rightarrow> bool option" where
  "anti_commutes_with B left right = do {
     a \<leftarrow> bo_dot B (x_bits left) (z_bits right);
     b \<leftarrow> bo_dot B (z_bits left) (x_bits right);
     Some (a \<noteq> b) }"

definition commutes_with :: "'b bits_ops \<Rightarrow> 'b pauli_projective \<Rightarrow> 'b pauli_projective \<Rightarrow> bool option" where
  "commutes_with B left right = map_option Not (anti_commutes_with B left right)"

definition indexes_of_paulis_where ::
  "('p \<Rightarrow> 'q \<Rightarrow> bool option) \<Rightarrow> 'p \<Rightarrow> 'q list \<Rightarrow> nat list option" where
  "indexes_of_paulis_where predicate observable paulis =
     ofold (\<lambda>(i, p) is. do { b \<leftarrow> predicate observable p; Some (if b then is @ [i] else is) }) (enumerate 0 paulis) []"

definition indexed_anti_commutators_of :: "'s sorted_lib \<Rightarrow> 'b bits_ops \<Rightarrow> 'b pauli_projective \<Rightarrow> 'b pauli_projective list \<Rightarrow> 's option" where
  "indexed_anti_commutators_of S B observable paulis =
     map_option (index_set_from_iter S) (indexes_of_paulis_where (anti_commutes_with B) observable paulis)"

definition indexed_commutators_of :: "'s sorted_lib \<Rightarrow> 'b bits_ops \<Rightarrow> 'b pauli_projective \<Rightarrow> 'b pauli_projective list \<Rightarrow> 's option" where
  "indexed_commutators_of S B observable paulis =
     map_option (index_set_from_iter S) (indexes_of_paulis_where (commutes_with B) observable paulis)"

fun first_true :: "('a \<Rightarrow> bool option) \<Rightarrow> 'a list \<Rightarrow> bool option" where
  "first_true f [] = Some False"
| "first_true f (x # xs) = do { b \<leftarrow> f x; if b then Some True else first_true f xs }"

definition are_mutually_commuting :: "'b bits_ops \<Rightarrow> 'b pauli_projective list \<Rightarrow> bool option" where
  "are_mutually_commuting B paulis = map_option Not
     (first_true (\<lambda>i. first_true (\<lambda>j. anti_commutes_with B (paulis ! i) (paulis ! j)) [0..<i]) [0..<length paulis])"

definition paulis_qubit_count :: "'b bits_ops \<Rightarrow> 'b pauli_projective list \<Rightarrow> nat" where
  "paulis_qubit_count B paulis = fold max (map (qubit_count B) paulis) 0"

definition apply_pauli_exponent :: "'b bits_ops \<Rightarrow> 'b pauli_unitary \<Rightarrow> 'b pauli_unitary \<Rightarrow> 'b pauli_unitary option" where
  "apply_pauli_exponent B exponent target = do {
     c \<leftarrow> anti_commutes_with B (projective target) (projective exponent);
     if c then do { target \<leftarrow> mul_assign_left B exponent target; Some (add_assign_phase_exp 1 target) }
     else Some target }"

definition apply_root_x :: "'b bits_ops \<Rightarrow> nat \<Rightarrow> 'b pauli_unitary \<Rightarrow> 'b pauli_unitary option" where
  "apply_root_x B qubit_index target = do {
     z \<leftarrow> bo_index B (pz target) qubit_index;
     if z then do { target \<leftarrow> mul_assign_left_x B qubit_index target; Some (add_assign_phase_exp 3 target) }
     else Some target }"

definition apply_root_y :: "'b bits_ops \<Rightarrow> nat \<Rightarrow> 'b pauli_unitary \<Rightarrow> 'b pauli_unitary option" where
  "apply_root_y B qubit_index target = do {
     z \<leftarrow> bo_index B (pz target) qubit_index;
     x \<leftarrow> bo_index B (px target) qubit_index;
     if z \<noteq> x then do { target \<leftarrow> mul_assign_left_y B qubit_index target; Some (add_assign_phase_exp 3 target) }
     else Some target }"

definition apply_root_z :: "'b bits_ops \<Rightarrow> nat \<Rightarrow> 'b pauli_unitary \<Rightarrow> 'b pauli_unitary option" where
  "apply_root_z B qubit_index target = do {
     x \<leftarrow> bo_index B (px target) qubit_index;
     if x then do { target \<leftarrow> mul_assign_left_z B qubit_index target; Some (add_assign_phase_exp 3 target) }
     else Some target }"


section \<open>The Pauli group\<close>

text \<open>The abstract operator \<open>i^k X^A Z^C\<close>: two finite sets and a phase exponent modulo four.  It maps
  the basis state \<open>s\<close> with amplitude \<open>i^l\<close> to another one: \<open>Z\<close> multiplies by \<open>-1\<close> for every common
  position and \<open>X\<close> flips.\<close>

type_synonym phase = "2 word"
type_synonym pauli_op = "nat set \<times> nat set \<times> phase"

definition sgn_phase :: "bool \<Rightarrow> phase" where
  "sgn_phase b = (if b then 2 else 0)"

definition par :: "nat set \<Rightarrow> bool" where
  "par A = odd (card A)"

definition pauli_action :: "pauli_op \<Rightarrow> phase \<times> nat set \<Rightarrow> phase \<times> nat set" where
  "pauli_action = (\<lambda>(A, C, k) (l, s). (l + k + sgn_phase (par (C \<inter> s)), sym_diff A s))"

definition pmul :: "pauli_op \<Rightarrow> pauli_op \<Rightarrow> pauli_op" where
  "pmul = (\<lambda>(A, C, k) (A', C', k'). (sym_diff A A', sym_diff C C', k + k' + sgn_phase (par (C \<inter> A'))))"

definition pone :: pauli_op where
  "pone = ({}, {}, 0)"

definition pphase :: "phase \<Rightarrow> pauli_op \<Rightarrow> pauli_op" where
  "pphase l = (\<lambda>(A, C, k). (A, C, k + l))"

definition pfinite :: "pauli_op \<Rightarrow> bool" where
  "pfinite = (\<lambda>(A, C, k). finite A \<and> finite C)"

lemma sgn_phase_simps [simp]: "sgn_phase False = 0" "sgn_phase b + sgn_phase b = 0" "2 * sgn_phase b = 0"
  by (simp_all add: sgn_phase_def)

lemma sgn_phase_xor: "sgn_phase (a \<noteq> b) = sgn_phase a + sgn_phase b"
  by (simp add: sgn_phase_def)

lemma sgn_phase_eq [simp]: "sgn_phase a = sgn_phase b \<longleftrightarrow> a = b" "sgn_phase a = 0 \<longleftrightarrow> \<not> a"
  by (simp_all add: sgn_phase_def)

lemma par_simps [simp]: "par {} = False"
  by (simp add: par_def)

lemma par_sym_diff: "finite A \<Longrightarrow> finite C \<Longrightarrow> par (sym_diff A C) = (par A \<noteq> par C)"
proof -
  assume f: "finite A" "finite C"
  have "card (sym_diff A C) + 2 * card (A \<inter> C) = card A + card C"
  proof -
    have "card A = card (A - C) + card (A \<inter> C)" "card C = card (C - A) + card (A \<inter> C)"
      using f by (metis Int_commute card_Diff_subset_Int card_Int_Diff add.commute finite_Int)+
    moreover have "card (sym_diff A C) = card (A - C) + card (C - A)"
      using f by (intro card_Un_disjoint) auto
    ultimately show ?thesis by simp
  qed
  then have "odd (card (sym_diff A C)) = odd (card A + card C)" by presburger
  then show ?thesis by (simp add: par_def)
qed

lemma par_inter_sym_diff:
  "finite C \<Longrightarrow> par (C \<inter> sym_diff A A') = (par (C \<inter> A) \<noteq> par (C \<inter> A'))"
  "finite C \<Longrightarrow> finite C' \<Longrightarrow> par (sym_diff C C' \<inter> s) = (par (C \<inter> s) \<noteq> par (C' \<inter> s))"
proof -
  have "C \<inter> sym_diff A A' = sym_diff (C \<inter> A) (C \<inter> A')" by auto
  then show "finite C \<Longrightarrow> par (C \<inter> sym_diff A A') = (par (C \<inter> A) \<noteq> par (C \<inter> A'))"
    using par_sym_diff [of "C \<inter> A" "C \<inter> A'"] by simp
  have "sym_diff C C' \<inter> s = sym_diff (C \<inter> s) (C' \<inter> s)" by auto
  then show "finite C \<Longrightarrow> finite C' \<Longrightarrow> par (sym_diff C C' \<inter> s) = (par (C \<inter> s) \<noteq> par (C' \<inter> s))"
    using par_sym_diff [of "C \<inter> s" "C' \<inter> s"] by simp
qed

lemma sym_diff_assoc: "sym_diff (sym_diff A B) C = sym_diff A (sym_diff B C)"
  by auto

text \<open>The product is the composition of the actions, and an operator is determined by its action.\<close>

lemma pauli_action_pmul:
  assumes "pfinite P" "pfinite Q"
  shows "pauli_action (pmul P Q) st = pauli_action P (pauli_action Q st)"
proof -
  obtain A C k A' C' k' l s where PQ: "P = (A, C, k)" "Q = (A', C', k')" "st = (l, s)" by (metis prod.exhaust)
  with assms have f: "finite C" "finite C'" by (simp_all add: pfinite_def)
  show ?thesis
    unfolding PQ pauli_action_def pmul_def prod.case par_inter_sym_diff(1) [OF f(1)] par_inter_sym_diff(2) [OF f]
      sgn_phase_xor sym_diff_assoc by (simp only: add_ac)
qed

lemma pauli_action_inject: "pauli_action P = pauli_action Q \<longleftrightarrow> P = Q"
proof
  obtain A C k A' C' k' where PQ: "P = (A, C, k)" "Q = (A', C', k')" by (metis prod.exhaust)
  assume eq: "pauli_action P = pauli_action Q"
  have 0: "A = A'" "k = k'" using fun_cong [OF eq, of "(0, {})"] by (simp_all add: PQ pauli_action_def)
  have "i \<in> C \<longleftrightarrow> i \<in> C'" for i
    using fun_cong [OF eq, of "(0, {i})"] 0 by (auto simp: PQ pauli_action_def par_def Int_insert_right split: if_splits)
  with 0 show "P = Q" by (auto simp: PQ)
qed simp

lemma pmul_assoc: "pfinite P \<Longrightarrow> pfinite Q \<Longrightarrow> pfinite R \<Longrightarrow> pmul (pmul P Q) R = pmul P (pmul Q R)"
proof -
  assume fin: "pfinite P" "pfinite Q" "pfinite R"
  obtain A C k A' C' k' A'' C'' k'' where PQR: "P = (A, C, k)" "Q = (A', C', k')" "R = (A'', C'', k'')" by (metis prod.exhaust)
  with fin have f: "finite C" "finite C'" by (simp_all add: pfinite_def)
  show ?thesis
    unfolding PQR pmul_def prod.case par_inter_sym_diff(1) [OF f(1)] par_inter_sym_diff(2) [OF f]
      sgn_phase_xor sym_diff_assoc by (simp only: add_ac)
qed

lemma pmul_pone [simp]: "pmul pone P = P" "pmul P pone = P"
  by (cases P; simp add: pmul_def pone_def)+

lemma pfinite_pmul [simp]: "pfinite P \<Longrightarrow> pfinite Q \<Longrightarrow> pfinite (pmul P Q)"
  by (cases P; cases Q) (simp add: pfinite_def pmul_def)

lemma pphase_simps [simp]: "pphase 0 P = P" "pphase k (pphase l P) = pphase (k + l) P" "pfinite (pphase k P) = pfinite P"
  by (cases P; simp add: pphase_def pfinite_def ac_simps)+

lemma pmul_pphase [simp]: "pmul (pphase k P) Q = pphase k (pmul P Q)" "pmul P (pphase k Q) = pphase k (pmul P Q)"
  by (cases P; cases Q; simp add: pmul_def pphase_def ac_simps)+

lemma phase_four [simp]: "(4 :: phase) = 0"
  by simp

lemma pphase_inject: "pphase k P = pphase l P \<longleftrightarrow> k = l"
  by (cases P) (simp add: pphase_def)

text \<open>Two operators commute or anticommute.\<close>

definition panti :: "pauli_op \<Rightarrow> pauli_op \<Rightarrow> bool" where
  "panti = (\<lambda>(A, C, k) (A', C', k'). par (A \<inter> C') \<noteq> par (C \<inter> A'))"

lemma pmul_swap: "pmul P Q = pphase (sgn_phase (panti P Q)) (pmul Q P)"
proof -
  obtain A C k A' C' k' where PQ: "P = (A, C, k)" "Q = (A', C', k')" by (metis prod.exhaust)
  have "sgn_phase (par (C \<inter> A')) = sgn_phase (par (C' \<inter> A)) + sgn_phase (par (A \<inter> C') \<noteq> par (C \<inter> A'))"
    unfolding sgn_phase_xor by (simp add: Int_commute ac_simps)
  moreover have "sym_diff A A' = sym_diff A' A" "sym_diff C C' = sym_diff C' C" by auto
  ultimately show ?thesis by (simp add: PQ pmul_def pphase_def panti_def ac_simps)
qed

lemma panti_iff: "panti P Q \<longleftrightarrow> pmul P Q \<noteq> pmul Q P"
  using pmul_swap [of P Q] pphase_inject [of "sgn_phase (panti P Q)" "pmul Q P" 0] by auto

lemma panti_pmul:
  assumes "pfinite P" "pfinite Q" "pfinite E"
  shows "panti E (pmul P Q) = (panti E P \<noteq> panti E Q)"
  using assms
  by (cases P; cases Q; cases E) (simp add: panti_def pmul_def pfinite_def par_inter_sym_diff del: Un_Diff, blast)

text \<open>Conjugation by \<open>exp(i pi/4 E)\<close> for an operator \<open>E\<close> of order two is an automorphism.\<close>

definition pexp :: "pauli_op \<Rightarrow> pauli_op \<Rightarrow> pauli_op" where
  "pexp E P = (if panti P E then pphase 1 (pmul E P) else P)"

lemma panti_sym: "panti P Q = panti Q P"
  by (cases P; cases Q) (auto simp: panti_def Int_commute)

lemma pexp_pmul:
  assumes f: "pfinite P" "pfinite Q" "pfinite E" and two: "pmul E E = pone"
  shows "pexp E (pmul P Q) = pmul (pexp E P) (pexp E Q)"
proof -
  note a = panti_pmul [OF f] panti_sym [of _ E]
  have swap: "pmul P (pmul E Q) = pphase (sgn_phase (panti E P)) (pmul E (pmul P Q))"
    using pmul_swap [of P E] f by (simp add: panti_sym flip: pmul_assoc)
  have sq: "pmul E (pmul E R) = R" if "pfinite R" for R
    using f that two by (simp flip: pmul_assoc)
  have "pmul E (pmul P (pmul E Q)) = pphase (sgn_phase (panti E P)) (pmul P Q)"
    unfolding swap using f by (simp add: sq)
  then show ?thesis
    using f swap by (auto simp: pexp_def a pmul_assoc sgn_phase_def sq)
qed


section \<open>The operations refine the group\<close>

text \<open>The phase exponent modulo four is the low two bits of the byte, on which addition commutes with
  the wrap-around.\<close>

definition ph :: "u8 \<Rightarrow> phase" where
  "ph raw = ucast raw"

lemma mod_256_mod_4: "x mod 256 mod 4 = x mod (4 :: int)"
  by (simp add: mod_mod_cancel)

lemma ph_add [simp]: "ph (a + b) = ph a + ph b"
  unfolding ph_def by transfer (simp add: take_bit_eq_mod mod_256_mod_4 mod_simps, metis mod_256_mod_4 mod_add_eq)

lemma ph_mod4 [simp]: "ph (a mod 4) = ph a"
  unfolding ph_def by transfer (simp add: take_bit_eq_mod mod_simps mod_mod_cancel)

lemma ph_conjugate [simp]: "ph (4 - a mod 4) = - ph a"
  unfolding ph_def by transfer (simp add: take_bit_eq_mod mod_256_mod_4 mod_simps mod_mod_cancel, metis mod_256_mod_4 mod_minus_eq)

lemma ph_eq_iff: "ph a = ph b \<longleftrightarrow> a mod 4 = b mod 4"
  unfolding ph_def by transfer (simp add: take_bit_eq_mod mod_simps mod_mod_cancel)

lemma ph_numeral [simp]: "ph 0 = 0" "ph 1 = 1" "ph 2 = 2" "ph 3 = 3"
  by (simp_all add: ph_def)

lemma ph_cross [simp]: "ph (if b then 2 else 0) = sgn_phase b"
  by (simp add: sgn_phase_def)

lemma bit_ph: "bit (ph a) i \<longleftrightarrow> i < 2 \<and> bit a i"
  by (auto simp: ph_def bit_ucast_iff)

lemma phase_zero_bits: "(k :: phase) = 0 \<longleftrightarrow> \<not> bit k 0 \<and> \<not> bit k 1"
proof
  assume b: "\<not> bit k 0 \<and> \<not> bit k 1"
  show "k = 0"
  proof (rule bit_word_eqI)
    fix n :: nat assume "n < LENGTH(2)"
    then have "n = 0 \<or> n = 1" by auto
    with b show "bit k n = bit 0 n" by auto
  qed
qed simp

lemma phase_is_zero_ph: "phase_is_zero a \<longleftrightarrow> ph a = 0"
proof -
  have u: "[0..<8] = [0, 1, 2, 3, 4, 5, 6, 7 :: nat]" by (simp add: upt_rec)
  show ?thesis unfolding phase_is_zero_def trailing_zeros_def phase_zero_bits by (simp add: u bit_ph)
qed

lemma phase_is_even_bit: "phase_is_even a \<longleftrightarrow> \<not> bit a 0"
  by (simp add: phase_is_even_def and_one_eq bit_0 even_iff_mod_2_eq_zero)

lemma phase_double: "k + k = sgn_phase (bit (k :: phase) 0)"
proof (rule bit_word_eqI)
  fix n :: nat assume "n < LENGTH(2)"
  then have n: "n = 0 \<or> n = 1" by auto
  have "k + k = push_bit 1 k" by (simp add: push_bit_eq_mult mult_2_right)
  then show "bit (k + k) n = bit (sgn_phase (bit k 0)) n"
    using n by (auto simp: sgn_phase_def bit_push_bit_iff bit_simps)
qed

lemma phase_is_even_ph: "ph a + ph a = sgn_phase (\<not> phase_is_even a)"
  by (simp add: phase_double phase_is_even_bit bit_ph)

definition pauli_ok :: "('b \<Rightarrow> bool) \<Rightarrow> ('b \<Rightarrow> nat option) \<Rightarrow> 'b pauli_projective \<Rightarrow> bool" where
  "pauli_ok ok cap p \<longleftrightarrow> ok (x_bits p) \<and> ok (z_bits p) \<and> cap (z_bits p) = cap (x_bits p)"

definition pcap :: "('b \<Rightarrow> nat option) \<Rightarrow> 'b pauli_unitary \<Rightarrow> nat option" where
  "pcap cap p = cap (px p)"

definition psem :: "('b \<Rightarrow> nat set) \<Rightarrow> 'b pauli_unitary \<Rightarrow> pauli_op" where
  "psem bset p = (bset (px p), bset (pz p), ph (xz_phase_exp p))"

abbreviation unitary_ok :: "('b \<Rightarrow> bool) \<Rightarrow> ('b \<Rightarrow> nat option) \<Rightarrow> 'b pauli_unitary \<Rightarrow> bool" where
  "unitary_ok ok cap p \<equiv> pauli_ok ok cap (projective p)"

definition xop :: "nat \<Rightarrow> pauli_op" where "xop i = ({i}, {}, 0)"
definition zop :: "nat \<Rightarrow> pauli_op" where "zop i = ({}, {i}, 0)"
definition yop :: "nat \<Rightarrow> pauli_op" where "yop i = ({i}, {i}, 1)"

lemma par_single [simp]: "par ({i} \<inter> A) = (i \<in> A)" "par (A \<inter> {i}) = (i \<in> A)" "par (insert i {} \<inter> A) = (i \<in> A)"
  by (simp_all add: par_def Int_insert_left Int_insert_right)

lemma sym_diff_comm: "sym_diff A C = sym_diff C A"
  by auto

context pauli_bits
begin

lemmas psimps = pauli_ok_def pcap_def psem_def

lemma psem_finite: "unitary_ok ok cap p \<Longrightarrow> pfinite (psem bset p)"
  by (simp add: psimps pfinite_def bset_finite)

lemma projective_add:
  assumes "pauli_ok ok cap p" "pauli_ok ok cap q" "cap (x_bits p) = cap (x_bits q)"
  shows "\<exists>r. add_assign_bits B q p = Some r \<and> pauli_ok ok cap r \<and> cap (x_bits r) = cap (x_bits p) \<and>
    bset (x_bits r) = sym_diff (bset (x_bits p)) (bset (x_bits q)) \<and>
    bset (z_bits r) = sym_diff (bset (z_bits p)) (bset (z_bits q))"
proof -
  obtain x where x: "bo_bitxor_assign B (x_bits p) (x_bits q) = Some x" "ok x" "cap x = cap (x_bits p)"
      "bset x = sym_diff (bset (x_bits p)) (bset (x_bits q))"
    using bitxor_assign [of "x_bits p" "x_bits q"] assms by (auto simp: psimps)
  obtain z where z: "bo_bitxor_assign B (z_bits p) (z_bits q) = Some z" "ok z" "cap z = cap (z_bits p)"
      "bset z = sym_diff (bset (z_bits p)) (bset (z_bits q))"
    using bitxor_assign [of "z_bits p" "z_bits q"] assms by (auto simp: psimps)
  show ?thesis using x z assms by (simp add: add_assign_bits_def psimps)
qed

lemma aligned_words_run:
  assumes "pauli_ok ok cap p" "pauli_ok ok cap q" "cap (x_bits p) = cap (x_bits q)"
    and run: "mul_assign_aligned_bits B RIGHT p q = Some (r, parity)"
  shows "pauli_ok ok cap r \<and> cap (x_bits r) = cap (x_bits p) \<and>
    bset (x_bits r) = sym_diff (bset (x_bits p)) (bset (x_bits q)) \<and>
    bset (z_bits r) = sym_diff (bset (z_bits p)) (bset (z_bits q)) \<and>
    parity = (if RIGHT then par (bset (z_bits p) \<inter> bset (x_bits q)) else par (bset (x_bits p) \<inter> bset (z_bits q)))"
proof -
  obtain xs zs oxs ozs where w: "bo_aligned_words B (x_bits p) = Some xs" "bo_aligned_words B (z_bits p) = Some zs"
    "bo_aligned_words B (x_bits q) = Some oxs" "bo_aligned_words B (z_bits q) = Some ozs"
    using run by (auto simp: mul_assign_aligned_bits_def bind_eq_Some_conv)
  have ok: "ok (x_bits p)" "ok (z_bits p)" "ok (x_bits q)" "ok (z_bits q)" "cap (z_bits p) = cap (x_bits p)"
    "cap (x_bits q) = cap (x_bits p)" "cap (z_bits q) = cap (x_bits p)" using assms by (auto simp: psimps)
  have len: "length zs = length xs" "length oxs = length xs" "length ozs = length xs"
    using words_length [OF _ _ _ w(2) w(1)] words_length [OF _ _ _ w(3) w(1)] words_length [OF _ _ _ w(4) w(1)] ok by auto
  have r: "x_bits r = bo_write_words B (x_bits p) (map2 (XOR) xs oxs)" "z_bits r = bo_write_words B (z_bits p) (map2 (XOR) zs ozs)"
    "parity = word_parity (fold (\<lambda>(l, r) p. p XOR (l AND r)) (if RIGHT then zip zs oxs else zip xs ozs) 0)"
    using run w by (auto simp: mul_assign_aligned_bits_def mul_assign_words_def mul_words_loop_eq [OF len])
  have "parity = (if RIGHT then par (bset (z_bits p) \<inter> bset (x_bits q)) else par (bset (x_bits p) \<inter> bset (z_bits q)))"
    unfolding r(3) using words_dot [OF _ _ _ w(2) w(3)] words_dot [OF _ _ _ w(1) w(4)] ok by (simp add: par_def)
  moreover note words_xor [OF _ _ _ w(1) w(3)] words_xor [OF _ _ _ w(2) w(4)]
  ultimately show ?thesis using ok by (simp add: psimps r(1,2))
qed

text \<open>Whichever path is taken, the product is the product of the group.\<close>

lemma mul_right:
  assumes "unitary_ok ok cap p" "unitary_ok ok cap q" "pcap cap p = pcap cap q"
  shows "\<exists>r. mul_assign_right B q p = Some r \<and> unitary_ok ok cap r \<and> pcap cap r = pcap cap p \<and>
    psem bset r = pmul (psem bset p) (psem bset q)"
proof (cases "mul_assign_aligned_bits B True (projective p) (projective q)")
  case None
  have "bo_dot B (pz p) (px q) = Some (par (bset (pz p) \<inter> bset (px q)))"
    using dot [of "pz p" "px q"] assms by (simp add: psimps par_def)
  moreover obtain r where "add_assign_bits B (projective q) (projective p) = Some r" "pauli_ok ok cap r"
    "cap (x_bits r) = cap (px p)" "bset (x_bits r) = sym_diff (bset (px p)) (bset (px q))"
    "bset (z_bits r) = sym_diff (bset (pz p)) (bset (pz q))"
    using projective_add [of "projective p" "projective q"] assms by (auto simp: pcap_def)
  ultimately show ?thesis using None
    by (simp add: mul_assign_right_def psem_def pcap_def pmul_def add_assign_phase_exp_def phase_add_assign_def
        xz_phase_exponent_def phase_value_def add_ac)
next
  case (Some rp)
  obtain r parity where rp: "rp = (r, parity)" by force
  note w = aligned_words_run [OF assms(1,2) _ Some [unfolded rp]]
  have "pauli_ok ok cap r" "cap (x_bits r) = cap (px p)" "bset (x_bits r) = sym_diff (bset (px p)) (bset (px q))"
    "bset (z_bits r) = sym_diff (bset (pz p)) (bset (pz q))" "parity = par (bset (pz p) \<inter> bset (px q))"
    using w assms(3) by (auto simp: pcap_def)
  with Some rp show ?thesis
    by (simp add: mul_assign_right_def psem_def pcap_def pmul_def add_assign_phase_exp_def phase_add_assign_def
        xz_phase_exponent_def phase_value_def add_ac)
qed

lemma mul_left:
  assumes "unitary_ok ok cap p" "unitary_ok ok cap q" "pcap cap p = pcap cap q"
  shows "\<exists>r. mul_assign_left B q p = Some r \<and> unitary_ok ok cap r \<and> pcap cap r = pcap cap p \<and>
    psem bset r = pmul (psem bset q) (psem bset p)"
proof (cases "mul_assign_aligned_bits B False (projective p) (projective q)")
  case None
  have "bo_dot B (px p) (pz q) = Some (par (bset (pz q) \<inter> bset (px p)))"
    using dot [of "px p" "pz q"] assms by (simp add: psimps par_def Int_commute)
  moreover obtain r where "add_assign_bits B (projective q) (projective p) = Some r" "pauli_ok ok cap r"
    "cap (x_bits r) = cap (px p)" "bset (x_bits r) = sym_diff (bset (px q)) (bset (px p))"
    "bset (z_bits r) = sym_diff (bset (pz q)) (bset (pz p))"
    using projective_add [of "projective p" "projective q"] assms
    unfolding sym_diff_comm [of "bset (px q)"] sym_diff_comm [of "bset (pz q)"] by (auto simp: pcap_def)
  ultimately show ?thesis using None
    by (simp add: mul_assign_left_def psem_def pcap_def pmul_def add_assign_phase_exp_def phase_add_assign_def
        xz_phase_exponent_def phase_value_def add_ac)
next
  case (Some rp)
  obtain r parity where rp: "rp = (r, parity)" by force
  note w = aligned_words_run [OF assms(1,2) _ Some [unfolded rp]]
  have "pauli_ok ok cap r" "cap (x_bits r) = cap (px p)" "bset (x_bits r) = sym_diff (bset (px q)) (bset (px p))"
    "bset (z_bits r) = sym_diff (bset (pz q)) (bset (pz p))" "parity = par (bset (pz q) \<inter> bset (px p))"
    using w assms(3) by (auto simp: pcap_def Int_commute)
  with Some rp show ?thesis
    by (simp add: mul_assign_left_def psem_def pcap_def pmul_def add_assign_phase_exp_def phase_add_assign_def
        xz_phase_exponent_def phase_value_def add_ac)
qed

lemma left_x:
  assumes "unitary_ok ok cap p" "within (pcap cap p) i"
  shows "\<exists>r. mul_assign_left_x B i p = Some r \<and> unitary_ok ok cap r \<and> pcap cap r = pcap cap p \<and>
    psem bset r = pmul (xop i) (psem bset p)"
  using negate_index [of "px p" i] assms
  by (auto simp: mul_assign_left_x_def psimps pmul_def xop_def toggle_def)

lemma right_x:
  assumes "unitary_ok ok cap p" "within (pcap cap p) i"
  shows "\<exists>r. mul_assign_right_x B i p = Some r \<and> unitary_ok ok cap r \<and> pcap cap r = pcap cap p \<and>
    psem bset r = pmul (psem bset p) (xop i)"
  using negate_index [of "px p" i] index [of "pz p" i] assms
  by (auto simp: mul_assign_right_x_def psimps pmul_def xop_def toggle_def phase_add_assign_def sgn_phase_def)

lemma left_z:
  assumes "unitary_ok ok cap p" "within (pcap cap p) i"
  shows "\<exists>r. mul_assign_left_z B i p = Some r \<and> unitary_ok ok cap r \<and> pcap cap r = pcap cap p \<and>
    psem bset r = pmul (zop i) (psem bset p)"
  using negate_index [of "pz p" i] index [of "px p" i] assms
  by (auto simp: mul_assign_left_z_def psimps pmul_def zop_def toggle_def phase_add_assign_def sgn_phase_def)

lemma right_z:
  assumes "unitary_ok ok cap p" "within (pcap cap p) i"
  shows "\<exists>r. mul_assign_right_z B i p = Some r \<and> unitary_ok ok cap r \<and> pcap cap r = pcap cap p \<and>
    psem bset r = pmul (psem bset p) (zop i)"
  using negate_index [of "pz p" i] assms
  by (auto simp: mul_assign_right_z_def psimps pmul_def zop_def toggle_def)

lemma phase_exp:
  "unitary_ok ok cap (add_assign_phase_exp k p) = unitary_ok ok cap p"
  "pcap cap (add_assign_phase_exp k p) = pcap cap p"
  "psem bset (add_assign_phase_exp k p) = pphase (ph k) (psem bset p)"
  by (simp_all add: add_assign_phase_exp_def psimps phase_add_assign_def pphase_def)

lemma yop_products: "pphase 1 (pmul (xop i) (pmul (zop i) P)) = pmul (yop i) P"
  "pphase 1 (pmul (pmul P (xop i)) (zop i)) = pmul P (yop i)"
  by (cases P; auto simp: pphase_def pmul_def xop_def zop_def yop_def sgn_phase_def add_ac)+

lemma left_y:
  assumes "unitary_ok ok cap p" "within (pcap cap p) i"
  shows "\<exists>r. mul_assign_left_y B i p = Some r \<and> unitary_ok ok cap r \<and> pcap cap r = pcap cap p \<and>
    psem bset r = pmul (yop i) (psem bset p)"
proof -
  obtain q where q: "mul_assign_left_z B i p = Some q" "unitary_ok ok cap q" "pcap cap q = pcap cap p"
    "psem bset q = pmul (zop i) (psem bset p)" using left_z [OF assms] by blast
  obtain r where r: "mul_assign_left_x B i q = Some r" "unitary_ok ok cap r" "pcap cap r = pcap cap q"
    "psem bset r = pmul (xop i) (psem bset q)" using left_x [OF q(2)] assms(2) q(3) by metis
  show ?thesis using q r by (simp add: mul_assign_left_y_def phase_exp yop_products)
qed

lemma right_y:
  assumes "unitary_ok ok cap p" "within (pcap cap p) i"
  shows "\<exists>r. mul_assign_right_y B i p = Some r \<and> unitary_ok ok cap r \<and> pcap cap r = pcap cap p \<and>
    psem bset r = pmul (psem bset p) (yop i)"
proof -
  obtain q where q: "mul_assign_right_x B i p = Some q" "unitary_ok ok cap q" "pcap cap q = pcap cap p"
    "psem bset q = pmul (psem bset p) (xop i)" using right_x [OF assms] by blast
  obtain r where r: "mul_assign_right_z B i q = Some r" "unitary_ok ok cap r" "pcap cap r = pcap cap q"
    "psem bset r = pmul (psem bset q) (zop i)" using right_z [OF q(2)] assms(2) q(3) by metis
  show ?thesis using q r by (simp add: mul_assign_right_y_def phase_exp yop_products)
qed

lemma y_parity_run: "pauli_ok ok cap p \<Longrightarrow> y_parity B p = Some (par (bset (x_bits p) \<inter> bset (z_bits p)))"
  using dot [of "x_bits p" "z_bits p"] by (simp add: y_parity_def pauli_ok_def par_def)

text \<open>\<open>invert\<close> is the inverse, \<open>is_order_two\<close> the test that the square is the identity.\<close>

lemma invert:
  assumes "unitary_ok ok cap p"
  shows "\<exists>r. pauli_invert B p = Some r \<and> unitary_ok ok cap r \<and> pcap cap r = pcap cap p \<and>
    pmul (psem bset r) (psem bset p) = pone \<and> pmul (psem bset p) (psem bset r) = pone"
proof -
  define b where "b = par (bset (px p) \<inter> bset (pz p))"
  let ?r = "p\<lparr>xz_phase_exp := (if b then 4 - xz_phase_exp p mod 4 + 2 else 4 - xz_phase_exp p mod 4)\<rparr>"
  have "pauli_invert B p = Some ?r"
    using y_parity_run [of "projective p"] assms
    by (simp add: pauli_invert_def pauli_complex_conjugate_def pauli_negate_def phase_add_assign_def
        phase_complex_conjugate_def Let_def b_def)
  moreover have "psem bset ?r = (bset (px p), bset (pz p), - ph (xz_phase_exp p) + sgn_phase b)"
    using ph_add [of "4 - xz_phase_exp p mod 4" 2] by (auto simp: psem_def sgn_phase_def simp del: ph_add)
  ultimately show ?thesis
    using assms by (simp add: psimps pmul_def pone_def b_def Int_commute add_ac)
qed

lemma order_two:
  assumes "unitary_ok ok cap p"
  shows "pauli_is_order_two B p = Some (pmul (psem bset p) (psem bset p) = pone)"
  using assms y_parity_run [of "projective p"]
  by (auto simp: pauli_is_order_two_def psimps pmul_def pone_def Int_commute phase_is_even_ph sgn_phase_xor [symmetric])

lemma is_identity: "unitary_ok ok cap p \<Longrightarrow> pauli_is_identity B p = (psem bset p = pone)"
  by (simp add: pauli_is_identity_def psimps pone_def is_zero phase_is_zero_ph)

lemma equality:
  assumes "unitary_ok ok cap p" "unitary_ok ok cap q" "pcap cap p = pcap cap q"
  shows "pauli_eq B p q = (psem bset p = psem bset q)"
  using assms by (auto simp: pauli_eq_def psimps eq xz_phase_exponent_def phase_value_def ph_eq_iff)

lemma anti_commutes:
  assumes "unitary_ok ok cap p" "unitary_ok ok cap q" "pcap cap p = pcap cap q"
  shows "anti_commutes_with B (projective p) (projective q) = Some (panti (psem bset p) (psem bset q))"
  using assms dot [of "px p" "pz q"] dot [of "pz p" "px q"]
  by (auto simp: anti_commutes_with_def psimps panti_def par_def)

lemma pauli_exponent:
  assumes "unitary_ok ok cap p" "unitary_ok ok cap e" "pcap cap p = pcap cap e"
  shows "\<exists>r. apply_pauli_exponent B e p = Some r \<and> unitary_ok ok cap r \<and> pcap cap r = pcap cap p \<and>
    psem bset r = pexp (psem bset e) (psem bset p)"
proof -
  obtain r where r: "mul_assign_left B e p = Some r" "unitary_ok ok cap r" "pcap cap r = pcap cap p"
    "psem bset r = pmul (psem bset e) (psem bset p)" using mul_left [OF assms] by blast
  show ?thesis using r assms by (auto simp: apply_pauli_exponent_def anti_commutes phase_exp pexp_def)
qed

text \<open>The three square roots are conjugations by \<open>-X\<close>, \<open>-Y\<close> and \<open>-Z\<close>.\<close>

lemma root_x:
  assumes "unitary_ok ok cap p" "within (pcap cap p) i"
  shows "\<exists>r. apply_root_x B i p = Some r \<and> unitary_ok ok cap r \<and> pcap cap r = pcap cap p \<and>
    psem bset r = pexp (pphase 2 (xop i)) (psem bset p)"
proof -
  have z: "bo_index B (pz p) i = Some (i \<in> bset (pz p))" using index [of "pz p" i] assms by (simp add: psimps)
  have a: "panti (psem bset p) (pphase 2 (xop i)) = (i \<in> bset (pz p))"
    by (simp add: panti_def psem_def xop_def pphase_def)
  show ?thesis using left_x [OF assms] assms(1) by (auto simp: apply_root_x_def z a pexp_def phase_exp)
qed

lemma root_y:
  assumes "unitary_ok ok cap p" "within (pcap cap p) i"
  shows "\<exists>r. apply_root_y B i p = Some r \<and> unitary_ok ok cap r \<and> pcap cap r = pcap cap p \<and>
    psem bset r = pexp (pphase 2 (yop i)) (psem bset p)"
proof -
  have b: "bo_index B (pz p) i = Some (i \<in> bset (pz p))" "bo_index B (px p) i = Some (i \<in> bset (px p))"
    using index [of "pz p" i] index [of "px p" i] assms by (simp_all add: psimps)
  have a: "panti (psem bset p) (pphase 2 (yop i)) = ((i \<in> bset (pz p)) \<noteq> (i \<in> bset (px p)))"
    by (auto simp: panti_def psem_def yop_def pphase_def)
  show ?thesis using left_y [OF assms] assms(1) by (auto simp: apply_root_y_def b a pexp_def phase_exp)
qed

lemma root_z:
  assumes "unitary_ok ok cap p" "within (pcap cap p) i"
  shows "\<exists>r. apply_root_z B i p = Some r \<and> unitary_ok ok cap r \<and> pcap cap r = pcap cap p \<and>
    psem bset r = pexp (pphase 2 (zop i)) (psem bset p)"
proof -
  have x: "bo_index B (px p) i = Some (i \<in> bset (px p))" using index [of "px p" i] assms by (simp add: psimps)
  have a: "panti (psem bset p) (pphase 2 (zop i)) = (i \<in> bset (px p))"
    by (simp add: panti_def psem_def zop_def pphase_def)
  show ?thesis using left_z [OF assms] assms(1) by (auto simp: apply_root_z_def x a pexp_def phase_exp)
qed

lemma neutral_ok: "unitary_ok ok cap (pauli_neutral_element_of_size B n)"
    "psem bset (pauli_neutral_element_of_size B n) = pone"
    "i < n \<Longrightarrow> within (pcap cap (pauli_neutral_element_of_size B n)) i"
  using neutral_of_size by (simp_all add: pauli_neutral_element_of_size_def pauli_from_bits_def projective_from_bits_def psimps pone_def)

lemma assign_copies:
  assumes "unitary_ok ok cap p" "unitary_ok ok cap q" "pcap cap p = pcap cap q"
  shows "unitary_ok ok cap (pauli_assign B q p)" "pcap cap (pauli_assign B q p) = pcap cap p"
    "psem bset (pauli_assign B q p) = psem bset q"
  using assign [of "px p" "px q"] assign [of "pz p" "pz q"] assms
  by (simp_all add: pauli_assign_def assign_bits_def assign_phase_exp_def psimps xz_phase_exponent_def phase_value_def)

lemma mul_refs:
  assumes "unitary_ok ok cap p" "unitary_ok ok cap q" "pcap cap p = pcap cap q"
  shows "\<exists>r. pauli_mul_refs B p q = Some r \<and> unitary_ok ok cap r \<and> pcap cap r = pcap cap p \<and>
    psem bset r = pmul (psem bset p) (psem bset q)"
proof -
  let ?n = "pauli_neutral_element B p"
  have n: "unitary_ok ok cap ?n" "pcap cap ?n = pcap cap p"
    using assms(1) neutral by (simp_all add: pauli_neutral_element_def pauli_from_bits_def projective_from_bits_def psimps)
  note c = assign_copies [OF n(1) assms(1) n(2)]
  show ?thesis using mul_right [OF c(1) assms(2)] c n assms(3) by (simp add: pauli_mul_refs_def)
qed

text \<open>The counts.\<close>

lemma counts:
  assumes "pauli_ok ok cap p"
  shows "pauli_weight B p = card (bset (x_bits p) \<union> bset (z_bits p))"
    "x_weight B p = Some (card (bset (x_bits p) - bset (z_bits p)))"
    "z_weight B p = Some (card (bset (z_bits p) - bset (x_bits p)))"
    "y_weight B p = card (bset (x_bits p) \<inter> bset (z_bits p))"
proof -
  let ?x = "bset (x_bits p)" and ?z = "bset (z_bits p)"
  have f: "finite ?x" "finite ?z" using assms bset_finite by (auto simp: pauli_ok_def)
  show y: "y_weight B p = card (?x \<inter> ?z)" using assms and_weight by (simp add: y_weight_def pauli_ok_def)
  show "pauli_weight B p = card (?x \<union> ?z)" using assms or_weight by (simp add: pauli_weight_def pauli_ok_def)
  have "card ?x = card (?x - ?z) + card (?x \<inter> ?z)" "card ?z = card (?z - ?x) + card (?x \<inter> ?z)"
    using f by (metis Int_commute card_Diff_subset_Int card_Int_Diff add.commute finite_Int)+
  then show "x_weight B p = Some (card (?x - ?z))" "z_weight B p = Some (card (?z - ?x))"
    using assms y weight by (simp_all add: x_weight_def z_weight_def sub_opt_def pauli_ok_def)
qed

end


section \<open>Properties\<close>

abbreviation dense_ok :: "bitblock list pauli_unitary \<Rightarrow> bool" where
  "dense_ok \<equiv> unitary_ok blocks_ok dense_cap"

abbreviation dense_sem :: "bitblock list pauli_unitary \<Rightarrow> pauli_op" where
  "dense_sem \<equiv> psem dense_bits"

abbreviation sparse_ok :: "'s sorted_lib \<Rightarrow> 's pauli_unitary \<Rightarrow> bool" where
  "sparse_ok S \<equiv> unitary_ok (index_set_ok S) (\<lambda>_. None)"

abbreviation sparse_sem :: "'s sorted_lib \<Rightarrow> 's pauli_unitary \<Rightarrow> pauli_op" where
  "sparse_sem S \<equiv> psem (\<lambda>s. index_set_bits S s)"

abbreviation dense_x0 :: "bitblock list pauli_unitary" where
  "dense_x0 \<equiv> pauli_from_bits [[1, 0, 0, 0, 0, 0, 0, 0]] [[0, 0, 0, 0, 0, 0, 0, 0]] 0"

abbreviation dense_y0 :: "bitblock list pauli_unitary" where
  "dense_y0 \<equiv> pauli_from_bits [[1, 0, 0, 0, 0, 0, 0, 0]] [[1, 0, 0, 0, 0, 0, 0, 0]] 1"

lemma dense_example_ok: "dense_ok dense_x0" "dense_ok dense_y0" "pcap dense_cap dense_x0 = pcap dense_cap dense_y0"
  by (simp_all add: pauli_ok_def pauli_from_bits_def projective_from_bits_def pcap_def block_ok_def)

lemma sparse_example_ok: "sparse_ok list_sets (pauli_from_bits [0] [] 0)" "sparse_ok list_sets (pauli_from_bits [0] [0] 1)"
  by (simp_all add: pauli_ok_def pauli_from_bits_def projective_from_bits_def index_set_ok_def list_sets_def)

lemma actions_equal: "(\<forall>st. pauli_action a st = pauli_action b st) \<longleftrightarrow> a = b"
  unfolding pauli_action_inject [symmetric] fun_eq_iff by (rule refl)

text \<open>C20. Dense operators of the same width (the same number of blocks): the word-parallel products return, and
  their action on every basis state is the composition of the actions of the operands in the order of the
  call; the equality test of the operands, and that of the two products, hold exactly when the actions are
  equal.\<close>

theorem dense_products_compose:
  assumes "dense_ok p" "dense_ok q" "pcap dense_cap p = pcap dense_cap q"
  shows "\<exists>r l. mul_assign_right dense_ops q p = Some r \<and> mul_assign_left dense_ops q p = Some l \<and> dense_ok r \<and> dense_ok l \<and>
    (\<forall>st. pauli_action (dense_sem r) st = pauli_action (dense_sem p) (pauli_action (dense_sem q) st)) \<and>
    (\<forall>st. pauli_action (dense_sem l) st = pauli_action (dense_sem q) (pauli_action (dense_sem p) st)) \<and>
    pauli_eq dense_ops r l = (\<forall>st. pauli_action (dense_sem r) st = pauli_action (dense_sem l) st) \<and>
    pauli_eq dense_ops p q = (\<forall>st. pauli_action (dense_sem p) st = pauli_action (dense_sem q) st)"
proof -
  obtain r where r: "mul_assign_right dense_ops q p = Some r" "dense_ok r" "pcap dense_cap r = pcap dense_cap p"
    "dense_sem r = pmul (dense_sem p) (dense_sem q)" using dense.mul_right [OF assms] by blast
  obtain l where l: "mul_assign_left dense_ops q p = Some l" "dense_ok l" "pcap dense_cap l = pcap dense_cap p"
    "dense_sem l = pmul (dense_sem q) (dense_sem p)" using dense.mul_left [OF assms] by blast
  note f = dense.psem_finite [OF assms(1)] dense.psem_finite [OF assms(2)]
  have "pcap dense_cap r = pcap dense_cap l" using r(3) l(3) by simp
  then have "pauli_eq dense_ops r l = (\<forall>st. pauli_action (dense_sem r) st = pauli_action (dense_sem l) st)"
    unfolding actions_equal by (rule dense.equality [OF r(2) l(2)])
  moreover have "pauli_eq dense_ops p q = (\<forall>st. pauli_action (dense_sem p) st = pauli_action (dense_sem q) st)"
    unfolding actions_equal by (rule dense.equality [OF assms])
  ultimately show ?thesis using r l f by (intro exI [of _ r] exI [of _ l]) (simp add: pauli_action_pmul)
qed

theorem dense_products_compose_witness:
  "(\<exists>r l. mul_assign_right dense_ops dense_y0 dense_x0 = Some r \<and> mul_assign_left dense_ops dense_y0 dense_x0 = Some l \<and>
    dense_ok r \<and> dense_ok l \<and>
    (\<forall>st. pauli_action (dense_sem r) st = pauli_action (dense_sem dense_x0) (pauli_action (dense_sem dense_y0) st)) \<and>
    (\<forall>st. pauli_action (dense_sem l) st = pauli_action (dense_sem dense_y0) (pauli_action (dense_sem dense_x0) st)) \<and>
    pauli_eq dense_ops r l = (\<forall>st. pauli_action (dense_sem r) st = pauli_action (dense_sem l) st)) \<and>
   \<not> (\<forall>st. pauli_action (dense_sem dense_x0) st = pauli_action (dense_sem dense_y0) st)"
proof
  have ne: "\<not> pauli_eq dense_ops dense_x0 dense_y0" by code_simp
  note run = dense_products_compose [OF dense_example_ok]
  from run show "\<exists>r l. mul_assign_right dense_ops dense_y0 dense_x0 = Some r \<and> mul_assign_left dense_ops dense_y0 dense_x0 = Some l \<and>
    dense_ok r \<and> dense_ok l \<and>
    (\<forall>st. pauli_action (dense_sem r) st = pauli_action (dense_sem dense_x0) (pauli_action (dense_sem dense_y0) st)) \<and>
    (\<forall>st. pauli_action (dense_sem l) st = pauli_action (dense_sem dense_y0) (pauli_action (dense_sem dense_x0) st)) \<and>
    pauli_eq dense_ops r l = (\<forall>st. pauli_action (dense_sem r) st = pauli_action (dense_sem l) st)" by (elim exE conjE) (intro exI conjI; assumption)
  from run ne show "\<not> (\<forall>st. pauli_action (dense_sem dense_x0) st = pauli_action (dense_sem dense_y0) st)" by (elim exE conjE) metis
qed

text \<open>C21. Sparse operators, for any library of sorted sets that keeps its documented contract: the products
  return and act as the composition of the operands in the order of the call, the inverse returns and
  multiplies to the identity on both sides, and two operators are equal exactly when their actions are.\<close>

theorem sparse_products_compose:
  assumes "sorted_library S" "sparse_ok S p" "sparse_ok S q"
  shows "\<exists>r l i. mul_assign_right (sparse_ops S) q p = Some r \<and> mul_assign_left (sparse_ops S) q p = Some l \<and>
    pauli_invert (sparse_ops S) p = Some i \<and>
    (\<forall>st. pauli_action (sparse_sem S r) st = pauli_action (sparse_sem S p) (pauli_action (sparse_sem S q) st)) \<and>
    (\<forall>st. pauli_action (sparse_sem S l) st = pauli_action (sparse_sem S q) (pauli_action (sparse_sem S p) st)) \<and>
    (\<forall>st. pauli_action (sparse_sem S i) (pauli_action (sparse_sem S p) st) = st \<and>
          pauli_action (sparse_sem S p) (pauli_action (sparse_sem S i) st) = st) \<and>
    pauli_eq (sparse_ops S) p q = (\<forall>st. pauli_action (sparse_sem S p) st = pauli_action (sparse_sem S q) st)"
proof -
  have bits: "pauli_bits (sparse_ops S) (index_set_ok S) (\<lambda>s. index_set_bits S s) (\<lambda>_. None)"
    using assms(1) by (rule sorted_library.sparse_bits)
  note run = pauli_bits.mul_right [OF bits assms(2,3)] pauli_bits.mul_left [OF bits assms(2,3)] pauli_bits.invert [OF bits assms(2)]
  obtain r l i where r: "mul_assign_right (sparse_ops S) q p = Some r" "sparse_sem S r = pmul (sparse_sem S p) (sparse_sem S q)"
    and l: "mul_assign_left (sparse_ops S) q p = Some l" "sparse_sem S l = pmul (sparse_sem S q) (sparse_sem S p)"
    and i: "pauli_invert (sparse_ops S) p = Some i" "sparse_ok S i" "pmul (sparse_sem S i) (sparse_sem S p) = pone"
      "pmul (sparse_sem S p) (sparse_sem S i) = pone"
    using run by (auto simp: pcap_def)
  note f = pauli_bits.psem_finite [OF bits assms(2)] pauli_bits.psem_finite [OF bits assms(3)] pauli_bits.psem_finite [OF bits i(2)]
  have one: "pauli_action pone st = st" for st by (cases st) (simp add: pauli_action_def pone_def)
  have eq: "pauli_eq (sparse_ops S) p q = (\<forall>st. pauli_action (sparse_sem S p) st = pauli_action (sparse_sem S q) st)"
    unfolding actions_equal by (rule pauli_bits.equality [OF bits assms(2,3)]) (simp add: pcap_def)
  show ?thesis unfolding eq using r l i f by (simp add: pauli_action_pmul one flip: pauli_action_pmul)
qed

theorem sparse_products_compose_witness:
  "(\<exists>r l i. mul_assign_right (sparse_ops list_sets) (pauli_from_bits [0] [0] 1) (pauli_from_bits [0] [] 0) = Some r \<and>
    mul_assign_left (sparse_ops list_sets) (pauli_from_bits [0] [0] 1) (pauli_from_bits [0] [] 0) = Some l \<and>
    pauli_invert (sparse_ops list_sets) (pauli_from_bits [0] [] 0) = Some i \<and>
    (\<forall>st. pauli_action (sparse_sem list_sets r) st =
      pauli_action (sparse_sem list_sets (pauli_from_bits [0] [] 0)) (pauli_action (sparse_sem list_sets (pauli_from_bits [0] [0] 1)) st)) \<and>
    (\<forall>st. pauli_action (sparse_sem list_sets l) st =
      pauli_action (sparse_sem list_sets (pauli_from_bits [0] [0] 1)) (pauli_action (sparse_sem list_sets (pauli_from_bits [0] [] 0)) st)) \<and>
    (\<forall>st. pauli_action (sparse_sem list_sets i) (pauli_action (sparse_sem list_sets (pauli_from_bits [0] [] 0)) st) = st \<and>
          pauli_action (sparse_sem list_sets (pauli_from_bits [0] [] 0)) (pauli_action (sparse_sem list_sets i) st) = st)) \<and>
   \<not> (\<forall>st. pauli_action (sparse_sem list_sets (pauli_from_bits [0] [] 0)) st =
          pauli_action (sparse_sem list_sets (pauli_from_bits [0] [0] 1)) st)"
proof
  have ne: "\<not> pauli_eq (sparse_ops list_sets) (pauli_from_bits [0] [] 0) (pauli_from_bits [0] [0] 1)" by code_simp
  note run = sparse_products_compose [OF list_sets.sorted_library_axioms sparse_example_ok]
  from run show "\<exists>r l i. mul_assign_right (sparse_ops list_sets) (pauli_from_bits [0] [0] 1) (pauli_from_bits [0] [] 0) = Some r \<and>
    mul_assign_left (sparse_ops list_sets) (pauli_from_bits [0] [0] 1) (pauli_from_bits [0] [] 0) = Some l \<and>
    pauli_invert (sparse_ops list_sets) (pauli_from_bits [0] [] 0) = Some i \<and>
    (\<forall>st. pauli_action (sparse_sem list_sets r) st =
      pauli_action (sparse_sem list_sets (pauli_from_bits [0] [] 0)) (pauli_action (sparse_sem list_sets (pauli_from_bits [0] [0] 1)) st)) \<and>
    (\<forall>st. pauli_action (sparse_sem list_sets l) st =
      pauli_action (sparse_sem list_sets (pauli_from_bits [0] [0] 1)) (pauli_action (sparse_sem list_sets (pauli_from_bits [0] [] 0)) st)) \<and>
    (\<forall>st. pauli_action (sparse_sem list_sets i) (pauli_action (sparse_sem list_sets (pauli_from_bits [0] [] 0)) st) = st \<and>
          pauli_action (sparse_sem list_sets (pauli_from_bits [0] [] 0)) (pauli_action (sparse_sem list_sets i) st) = st)"
    by (elim exE conjE) (intro exI conjI; assumption)
  from run ne show "\<not> (\<forall>st. pauli_action (sparse_sem list_sets (pauli_from_bits [0] [] 0)) st =
          pauli_action (sparse_sem list_sets (pauli_from_bits [0] [0] 1)) st)" by (elim exE conjE) metis
qed

text \<open>C22. The commutation test, the order-two test and the multiplication by one matrix agree with
  the group: two operators anticommute exactly when their products differ, and then by the sign; an
  operator has order two exactly when its square is the identity.\<close>

theorem dense_tests_decide:
  assumes "dense_ok p" "dense_ok q" "pcap dense_cap p = pcap dense_cap q"
  shows "anti_commutes_with dense_ops (projective p) (projective q) =
      Some (pmul (dense_sem p) (dense_sem q) \<noteq> pmul (dense_sem q) (dense_sem p)) \<and>
    pmul (dense_sem p) (dense_sem q) \<in> {pmul (dense_sem q) (dense_sem p), pphase 2 (pmul (dense_sem q) (dense_sem p))} \<and>
    pauli_is_order_two dense_ops p = Some (pmul (dense_sem p) (dense_sem p) = pone) \<and>
    pauli_is_identity dense_ops p = (dense_sem p = pone)"
proof (intro conjI)
  show "anti_commutes_with dense_ops (projective p) (projective q) =
      Some (pmul (dense_sem p) (dense_sem q) \<noteq> pmul (dense_sem q) (dense_sem p))"
    using dense.anti_commutes [OF assms] unfolding panti_iff .
  show "pmul (dense_sem p) (dense_sem q) \<in> {pmul (dense_sem q) (dense_sem p), pphase 2 (pmul (dense_sem q) (dense_sem p))}"
    by (subst pmul_swap, cases "panti (dense_sem p) (dense_sem q)") (simp_all add: sgn_phase_def)
qed (rule dense.order_two [OF assms(1)], rule dense.is_identity [OF assms(1)])

theorem dense_tests_decide_witness:
  "anti_commutes_with dense_ops (projective dense_x0) (projective dense_y0) =
      Some (pmul (dense_sem dense_x0) (dense_sem dense_y0) \<noteq> pmul (dense_sem dense_y0) (dense_sem dense_x0)) \<and>
    pmul (dense_sem dense_x0) (dense_sem dense_y0) \<in>
      {pmul (dense_sem dense_y0) (dense_sem dense_x0), pphase 2 (pmul (dense_sem dense_y0) (dense_sem dense_x0))} \<and>
    pauli_is_order_two dense_ops dense_x0 = Some (pmul (dense_sem dense_x0) (dense_sem dense_x0) = pone) \<and>
    pauli_is_identity dense_ops dense_x0 = (dense_sem dense_x0 = pone)"
  by (rule dense_tests_decide [OF dense_example_ok])

text \<open>Conjugation by a Pauli exponent of an operator of order two is an automorphism of the dense
  operators: it returns, it maps a product to the product of the images, and the square root of
  \<open>X\<close>, \<open>Y\<close> or \<open>Z\<close> at a qubit in range is the conjugation by minus that matrix.\<close>

theorem pauli_exponent_automorphism:
  assumes "dense_ok p" "dense_ok q" "dense_ok e" "pcap dense_cap p = pcap dense_cap e" "pcap dense_cap q = pcap dense_cap e"
    and "pauli_is_order_two dense_ops e = Some True" "i < length (px p) * 512"
  shows "\<exists>p' q' r r' x y z. apply_pauli_exponent dense_ops e p = Some p' \<and> apply_pauli_exponent dense_ops e q = Some q' \<and>
    mul_assign_right dense_ops q p = Some r \<and> apply_pauli_exponent dense_ops e r = Some r' \<and>
    dense_sem r' = pmul (dense_sem p') (dense_sem q') \<and>
    apply_root_x dense_ops i p = Some x \<and> dense_sem x = pexp (pphase 2 (xop i)) (dense_sem p) \<and>
    apply_root_y dense_ops i p = Some y \<and> dense_sem y = pexp (pphase 2 (yop i)) (dense_sem p) \<and>
    apply_root_z dense_ops i p = Some z \<and> dense_sem z = pexp (pphase 2 (zop i)) (dense_sem p)"
proof -
  have two: "pmul (dense_sem e) (dense_sem e) = pone" using assms(6) dense.order_two [OF assms(3)] by simp
  have i: "within (pcap dense_cap p) i" using assms(7) by (simp add: within_def pcap_def)
  obtain p' where p': "apply_pauli_exponent dense_ops e p = Some p'" "dense_sem p' = pexp (dense_sem e) (dense_sem p)"
    using dense.pauli_exponent [OF assms(1,3,4)] by blast
  obtain q' where q': "apply_pauli_exponent dense_ops e q = Some q'" "dense_sem q' = pexp (dense_sem e) (dense_sem q)"
    using dense.pauli_exponent [OF assms(2,3,5)] by blast
  obtain r where r: "mul_assign_right dense_ops q p = Some r" "dense_ok r" "pcap dense_cap r = pcap dense_cap p"
    "dense_sem r = pmul (dense_sem p) (dense_sem q)" using dense.mul_right [OF assms(1,2)] assms(4,5) by auto
  obtain r' where r': "apply_pauli_exponent dense_ops e r = Some r'" "dense_sem r' = pexp (dense_sem e) (dense_sem r)"
    using dense.pauli_exponent [OF r(2) assms(3)] r(3) assms(4) by auto
  have "dense_sem r' = pmul (dense_sem p') (dense_sem q')"
    unfolding r'(2) r(4) p'(2) q'(2) using pexp_pmul two dense.psem_finite assms(1-3) by blast
  then show ?thesis
    using p'(1) q'(1) r(1) r'(1) dense.root_x [OF assms(1) i] dense.root_y [OF assms(1) i] dense.root_z [OF assms(1) i] by blast
qed

theorem pauli_exponent_automorphism_witness:
  "\<exists>p' q' r r' x y z. apply_pauli_exponent dense_ops dense_y0 dense_x0 = Some p' \<and> apply_pauli_exponent dense_ops dense_y0 dense_y0 = Some q' \<and>
    mul_assign_right dense_ops dense_y0 dense_x0 = Some r \<and> apply_pauli_exponent dense_ops dense_y0 r = Some r' \<and>
    dense_sem r' = pmul (dense_sem p') (dense_sem q') \<and>
    apply_root_x dense_ops 3 dense_x0 = Some x \<and> dense_sem x = pexp (pphase 2 (xop 3)) (dense_sem dense_x0) \<and>
    apply_root_y dense_ops 3 dense_x0 = Some y \<and> dense_sem y = pexp (pphase 2 (yop 3)) (dense_sem dense_x0) \<and>
    apply_root_z dense_ops 3 dense_x0 = Some z \<and> dense_sem z = pexp (pphase 2 (zop 3)) (dense_sem dense_x0)"
proof (rule pauli_exponent_automorphism [OF dense_example_ok(1,2,2,3) refl])
  have "pmul (dense_sem dense_y0) (dense_sem dense_y0) = pone"
  proof -
    have "word_parity (1 :: u64)" by (simp add: word.parity bit_1_iff xsum_delta [of _ _ "\<lambda>_. True", simplified])
    then have "par (dense_bits [[1, 0, 0, 0, 0, 0, 0, 0]] \<inter> dense_bits [[1, 0, 0, 0, 0, 0, 0, 0]])"
      using blocks_dot_card [of "[[1, 0, 0, 0, 0, 0, 0, 0]]" "[[1, 0, 0, 0, 0, 0, 0, 0]]"]
      by (simp add: par_def blocks_dot_def words_def block_ok_def)
    then show ?thesis by (simp add: psem_def pmul_def pone_def pauli_from_bits_def projective_from_bits_def sgn_phase_def)
  qed
  then show "pauli_is_order_two dense_ops dense_y0 = Some True" using dense.order_two [OF dense_example_ok(2)] by simp
qed (simp add: pauli_from_bits_def projective_from_bits_def)

end
