(* ===== verification/Pauli_Core.thy ===== *)
theory Pauli_Core
  imports Pauli
begin

text \<open>
  The one-qubit Pauli matrices and observables of \<open>paulimer/src/core.rs\<close>: four enumerations whose
  discriminants encode the \<open>x\<close> bit, the \<open>z\<close> bit and the sign, their conversions, and observables
  placed on a qubit.  The derived orders compare discriminants, so they are not the order in which
  the constructors are written.
\<close>

unbundle bit_operations_syntax

section \<open>Definitions\<close>

datatype axis = AxisX | AxisY | AxisZ

datatype pauli_matrix = MatrixI | MatrixX | MatrixY | MatrixZ

datatype directed_axis = AxisPlusX | AxisPlusY | AxisPlusZ | AxisMinusX | AxisMinusY | AxisMinusZ

datatype pauli_observable = PlusI | PlusX | PlusY | PlusZ | MinusI | MinusX | MinusY | MinusZ

fun axis_discriminant :: "axis \<Rightarrow> int" where
  "axis_discriminant AxisX = 1"
| "axis_discriminant AxisY = 3"
| "axis_discriminant AxisZ = 2"

fun matrix_discriminant :: "pauli_matrix \<Rightarrow> int" where
  "matrix_discriminant MatrixI = 0"
| "matrix_discriminant MatrixX = axis_discriminant AxisX"
| "matrix_discriminant MatrixY = axis_discriminant AxisY"
| "matrix_discriminant MatrixZ = axis_discriminant AxisZ"

definition MINUS_IDENTITY :: int where
  "MINUS_IDENTITY = 4"

fun directed_axis_discriminant :: "directed_axis \<Rightarrow> int" where
  "directed_axis_discriminant AxisPlusX = axis_discriminant AxisX"
| "directed_axis_discriminant AxisPlusY = axis_discriminant AxisY"
| "directed_axis_discriminant AxisPlusZ = axis_discriminant AxisZ"
| "directed_axis_discriminant AxisMinusX = axis_discriminant AxisX XOR MINUS_IDENTITY"
| "directed_axis_discriminant AxisMinusY = axis_discriminant AxisY XOR MINUS_IDENTITY"
| "directed_axis_discriminant AxisMinusZ = axis_discriminant AxisZ XOR MINUS_IDENTITY"

fun observable_discriminant :: "pauli_observable \<Rightarrow> int" where
  "observable_discriminant PlusI = matrix_discriminant MatrixI"
| "observable_discriminant PlusX = matrix_discriminant MatrixX"
| "observable_discriminant PlusY = matrix_discriminant MatrixY"
| "observable_discriminant PlusZ = matrix_discriminant MatrixZ"
| "observable_discriminant MinusI = matrix_discriminant MatrixI XOR MINUS_IDENTITY"
| "observable_discriminant MinusX = matrix_discriminant MatrixX XOR MINUS_IDENTITY"
| "observable_discriminant MinusY = matrix_discriminant MatrixY XOR MINUS_IDENTITY"
| "observable_discriminant MinusZ = matrix_discriminant MatrixZ XOR MINUS_IDENTITY"

text \<open>Conversions.\<close>

fun matrix_from_axis :: "axis \<Rightarrow> pauli_matrix" where
  "matrix_from_axis AxisX = MatrixX"
| "matrix_from_axis AxisY = MatrixY"
| "matrix_from_axis AxisZ = MatrixZ"

fun directed_from_axis :: "axis \<Rightarrow> directed_axis" where
  "directed_from_axis AxisX = AxisPlusX"
| "directed_from_axis AxisY = AxisPlusY"
| "directed_from_axis AxisZ = AxisPlusZ"

fun observable_from_axis :: "axis \<Rightarrow> pauli_observable" where
  "observable_from_axis AxisX = PlusX"
| "observable_from_axis AxisY = PlusY"
| "observable_from_axis AxisZ = PlusZ"

fun observable_from_matrix :: "pauli_matrix \<Rightarrow> pauli_observable" where
  "observable_from_matrix MatrixI = PlusI"
| "observable_from_matrix MatrixX = PlusX"
| "observable_from_matrix MatrixY = PlusY"
| "observable_from_matrix MatrixZ = PlusZ"

fun observable_from_directed :: "directed_axis \<Rightarrow> pauli_observable" where
  "observable_from_directed AxisPlusX = PlusX"
| "observable_from_directed AxisPlusY = PlusY"
| "observable_from_directed AxisPlusZ = PlusZ"
| "observable_from_directed AxisMinusX = MinusX"
| "observable_from_directed AxisMinusY = MinusY"
| "observable_from_directed AxisMinusZ = MinusZ"

definition all_matrices :: "pauli_matrix list" where
  "all_matrices = [MatrixI, MatrixX, MatrixY, MatrixZ]"

definition all_axes :: "axis list" where
  "all_axes = [AxisX, AxisY, AxisZ]"

definition all_directed_axes :: "directed_axis list" where
  "all_directed_axes = [AxisPlusX, AxisPlusY, AxisPlusZ, AxisMinusX, AxisMinusY, AxisMinusZ]"

definition all_observables :: "pauli_observable list" where
  "all_observables = [PlusI, PlusX, PlusY, PlusZ, MinusI, MinusX, MinusY, MinusZ]"

fun observable_neg :: "pauli_observable \<Rightarrow> pauli_observable" where
  "observable_neg PlusI = MinusI"
| "observable_neg PlusX = MinusX"
| "observable_neg PlusY = MinusY"
| "observable_neg PlusZ = MinusZ"
| "observable_neg MinusI = PlusI"
| "observable_neg MinusX = PlusX"
| "observable_neg MinusY = PlusY"
| "observable_neg MinusZ = PlusZ"

text \<open>Observables on a qubit; the derived order is lexicographic.\<close>

datatype positioned_observable = Positioned (qubit_id: nat) (observable: pauli_observable)

definition positioned_neg :: "positioned_observable \<Rightarrow> positioned_observable" where
  "positioned_neg p = Positioned (qubit_id p) (observable_neg (observable p))"

definition positioned_id :: "nat \<Rightarrow> positioned_observable" where
  "positioned_id q = Positioned q PlusI"

definition positioned_x :: "nat \<Rightarrow> positioned_observable" where
  "positioned_x q = Positioned q PlusX"

definition positioned_y :: "nat \<Rightarrow> positioned_observable" where
  "positioned_y q = Positioned q PlusY"

definition positioned_z :: "nat \<Rightarrow> positioned_observable" where
  "positioned_z q = Positioned q PlusZ"

definition positioned_from_tuple :: "nat \<times> pauli_observable \<Rightarrow> positioned_observable" where
  "positioned_from_tuple value = Positioned (fst value) (snd value)"

definition tuple_from_positioned :: "positioned_observable \<Rightarrow> nat \<times> pauli_observable" where
  "tuple_from_positioned value = (qubit_id value, observable value)"

definition positioned_from_swapped :: "pauli_observable \<times> nat \<Rightarrow> positioned_observable" where
  "positioned_from_swapped value = Positioned (snd value) (fst value)"

definition swapped_from_positioned :: "positioned_observable \<Rightarrow> pauli_observable \<times> nat" where
  "swapped_from_positioned value = (observable value, qubit_id value)"

section \<open>The derived orders\<close>

lemma discriminants [simp]: "map observable_discriminant all_observables = [0, 1, 3, 2, 4, 5, 7, 6]"
  by (simp add: all_observables_def MINUS_IDENTITY_def)

lemma observable_discriminant_inject: "observable_discriminant a = observable_discriminant b \<longleftrightarrow> a = b"
  by (cases a; cases b) (simp_all add: MINUS_IDENTITY_def)

instantiation pauli_observable :: linorder
begin

definition less_eq_pauli_observable :: "pauli_observable \<Rightarrow> pauli_observable \<Rightarrow> bool" where
  "a \<le> b \<longleftrightarrow> observable_discriminant a \<le> observable_discriminant b"

definition less_pauli_observable :: "pauli_observable \<Rightarrow> pauli_observable \<Rightarrow> bool" where
  "a < b \<longleftrightarrow> observable_discriminant a < observable_discriminant b"

instance
  by standard (auto simp: less_eq_pauli_observable_def less_pauli_observable_def observable_discriminant_inject)

end

instantiation positioned_observable :: linorder
begin

definition less_eq_positioned_observable :: "positioned_observable \<Rightarrow> positioned_observable \<Rightarrow> bool" where
  "a \<le> b \<longleftrightarrow> qubit_id a < qubit_id b \<or> qubit_id a = qubit_id b \<and> observable a \<le> observable b"

definition less_positioned_observable :: "positioned_observable \<Rightarrow> positioned_observable \<Rightarrow> bool" where
  "a < b \<longleftrightarrow> qubit_id a < qubit_id b \<or> qubit_id a = qubit_id b \<and> observable a < observable b"

instance
  by standard (auto simp: less_eq_positioned_observable_def less_positioned_observable_def positioned_observable.expand)

end

section \<open>The operators of the observables\<close>

text \<open>The discriminant is the symplectic encoding: bit 0 is the \<open>x\<close> bit, bit 1 the \<open>z\<close> bit and bit 2 the
  sign.  \<open>i^k X Z\<close> with \<open>k = 1\<close> is \<open>Y\<close>.\<close>

definition observable_x :: "pauli_observable \<Rightarrow> bool" where
  "observable_x a = bit (observable_discriminant a) 0"

definition observable_z :: "pauli_observable \<Rightarrow> bool" where
  "observable_z a = bit (observable_discriminant a) 1"

definition observable_phase :: "pauli_observable \<Rightarrow> nat" where
  "observable_phase a = (if observable_x a \<and> observable_z a then 1 else 0) + (if bit (observable_discriminant a) 2 then 2 else 0)"

definition observable_op :: "positioned_observable \<Rightarrow> pauli_op" where
  "observable_op p = (if observable_x (observable p) then {qubit_id p} else {},
     if observable_z (observable p) then {qubit_id p} else {}, of_nat (observable_phase (observable p)))"

lemma observable_bits [simp]:
  "observable_x PlusI = False" "observable_x PlusX = True" "observable_x PlusY = True" "observable_x PlusZ = False"
  "observable_x MinusI = False" "observable_x MinusX = True" "observable_x MinusY = True" "observable_x MinusZ = False"
  "observable_z PlusI = False" "observable_z PlusX = False" "observable_z PlusY = True" "observable_z PlusZ = True"
  "observable_z MinusI = False" "observable_z MinusX = False" "observable_z MinusY = True" "observable_z MinusZ = True"
  by (simp_all add: observable_x_def observable_z_def MINUS_IDENTITY_def bit_simps)

lemma observable_phases [simp]:
  "observable_phase PlusI = 0" "observable_phase PlusX = 0" "observable_phase PlusY = 1" "observable_phase PlusZ = 0"
  "observable_phase MinusI = 2" "observable_phase MinusX = 2" "observable_phase MinusY = 3" "observable_phase MinusZ = 2"
  by (simp_all add: observable_phase_def MINUS_IDENTITY_def bit_simps)

lemma observable_op_single [simp]: "observable_op (positioned_id q) = pone" "observable_op (positioned_x q) = xop q"
    "observable_op (positioned_y q) = yop q" "observable_op (positioned_z q) = zop q"
  by (simp_all add: observable_op_def positioned_id_def positioned_x_def positioned_y_def positioned_z_def
      pone_def xop_def yop_def zop_def)

lemma observable_op_neg: "observable_op (positioned_neg p) = pphase 2 (observable_op p)"
  by (cases p; cases "observable p") (simp_all add: positioned_neg_def observable_op_def pphase_def)

lemma pfinite_observable_op [simp]: "pfinite (observable_op p)"
  by (simp add: observable_op_def pfinite_def)

end
