(* ===== verification/Pauli_Strings.thy ===== *)
theory Pauli_Strings
  imports Pauli
begin

text \<open>
  Printing and parsing of Pauli operators (\<open>paulimer/src/pauli/generic.rs\<close>, \<open>lib.rs\<close>): the dense and
  sparse layouts in the Unicode, ASCII and TeX notations, and the parser that recognises both.  A
  Rust \<open>char\<close> is its code point, a string the list of its characters.  A \<open>Result\<close> is a sum inside the
  option that stands for a panic.
\<close>

section \<open>Characters\<close>

type_synonym uchar = nat
type_synonym ustring = "uchar list"

definition u :: "string \<Rightarrow> ustring" where
  "u s = map of_char s"

definition italic_i :: uchar where "italic_i = 119894"
definition subscript_zero :: uchar where "subscript_zero = 8320"

definition utf8_len :: "uchar \<Rightarrow> nat" where
  "utf8_len c = (if c < 128 then 1 else if c < 2048 then 2 else if c < 65536 then 3 else 4)"

definition is_whitespace :: "uchar \<Rightarrow> bool" where
  "is_whitespace c = (9 \<le> c \<and> c \<le> 13 \<or> 8192 \<le> c \<and> c \<le> 8202 \<or> c \<in> set [32, 133, 160, 5760, 8232, 8233, 8239, 8287, 12288])"

definition trim :: "ustring \<Rightarrow> ustring" where
  "trim s = rev (dropWhile is_whitespace (rev (dropWhile is_whitespace s)))"

text \<open>\<open>to_string\<close> of a \<open>usize\<close>.\<close>

fun decimal_digits :: "nat \<Rightarrow> nat list" where
  "decimal_digits n = (if n < 10 then [n] else decimal_digits (n div 10) @ [n mod 10])"

declare decimal_digits.simps [simp del]

definition decimal :: "nat \<Rightarrow> ustring" where
  "decimal n = map (\<lambda>d. 48 + d) (decimal_digits n)"

definition SUB_CHARS :: "uchar list" where
  "SUB_CHARS = map (\<lambda>k. subscript_zero + k) [0..<10]"

definition to_digit :: "uchar \<Rightarrow> nat option" where
  "to_digit c = (if 48 \<le> c \<and> c \<le> 57 then Some (c - 48) else None)"

definition subscript_digits :: "nat \<Rightarrow> ustring option" where
  "subscript_digits number = omap (\<lambda>c. nth_opt SUB_CHARS (case to_digit c of None \<Rightarrow> 0 | Some d \<Rightarrow> d)) (decimal number)"

section \<open>Printing\<close>

datatype string_notation = Unicode | Ascii | Tex

datatype string_layout = Dense | Sparse

definition imaginary_unit :: "string_notation \<Rightarrow> ustring" where
  "imaginary_unit style = (case style of Unicode \<Rightarrow> [italic_i] | Ascii \<Rightarrow> u ''i'' | Tex \<Rightarrow> [92] @ u ''mathrm{i}'')"

definition subscript :: "string_notation \<Rightarrow> nat \<Rightarrow> ustring option" where
  "subscript style index = (case style of Unicode \<Rightarrow> subscript_digits index
     | Ascii \<Rightarrow> Some (u ''_'' @ decimal index) | Tex \<Rightarrow> Some (u ''_{'' @ decimal index @ u ''}''))"

definition arrow :: "string_notation \<Rightarrow> ustring" where
  "arrow style = (case style of Unicode \<Rightarrow> [8594] | Ascii \<Rightarrow> u '': '' | Tex \<Rightarrow> u '' &'' @ [92] @ u ''mapsto '')"

definition separator :: "string_notation \<Rightarrow> ustring" where
  "separator style = (case style of Unicode \<Rightarrow> [] | Ascii \<Rightarrow> u '' '' | Tex \<Rightarrow> u '' '')"

definition minus_sign :: ustring where
  "minus_sign = u ''-''"

definition mapping_separator :: "string_notation \<Rightarrow> ustring" where
  "mapping_separator style = (case style of Tex \<Rightarrow> u '' '' @ [92, 92, 10] | Unicode \<Rightarrow> u '', '' | Ascii \<Rightarrow> u '', '')"

definition mapping_preamble :: "string_notation \<Rightarrow> ustring" where
  "mapping_preamble style = (case style of Tex \<Rightarrow> [92] @ u ''begin{align}'' @ [10] | Unicode \<Rightarrow> [] | Ascii \<Rightarrow> [])"

definition mapping_epilogue :: "string_notation \<Rightarrow> ustring" where
  "mapping_epilogue style = (case style of Tex \<Rightarrow> [10, 92] @ u ''end{align}'' | Unicode \<Rightarrow> [] | Ascii \<Rightarrow> [])"

definition format_phase_prefix :: "u8 option \<Rightarrow> u8 \<Rightarrow> bool \<Rightarrow> string_notation \<Rightarrow> ustring option" where
  "format_phase_prefix phase extra_phase sign_plus style = (case phase of None \<Rightarrow> Some []
     | Some phase \<Rightarrow> (let combined = (phase + extra_phase) mod 4 in
         if combined = 0 then Some (if sign_plus then u ''+'' else [])
         else if combined = 1 then Some ((if sign_plus then u ''+'' else []) @ imaginary_unit style)
         else if combined = 2 then Some minus_sign
         else if combined = 3 then Some (minus_sign @ imaginary_unit style)
         else None))"

definition pauli_char :: "bool \<Rightarrow> bool \<Rightarrow> uchar" where
  "pauli_char is_x is_z = (case (is_x, is_z) of (False, False) \<Rightarrow> of_char CHR ''I'' | (True, False) \<Rightarrow> of_char CHR ''X''
     | (True, True) \<Rightarrow> of_char CHR ''Y'' | (False, True) \<Rightarrow> of_char CHR ''Z'')"

definition format_dense_pauli ::
  "'b bits_ops \<Rightarrow> 'b pauli_projective \<Rightarrow> u8 option \<Rightarrow> string_notation \<Rightarrow> nat option \<Rightarrow> bool \<Rightarrow> ustring option" where
  "format_dense_pauli B p phase style sz sign_plus =
     (let last_index = (case sz of Some n \<Rightarrow> n | None \<Rightarrow> (case projective_max_support B p of None \<Rightarrow> 0 | Some i \<Rightarrow> i + 1)) in
      if last_index = 0 then do { prefix \<leftarrow> format_phase_prefix phase 0 sign_plus style; Some (prefix @ u ''I'') }
      else do {
        (extra_phase, body) \<leftarrow> ofold (\<lambda>index (extra_phase, body). do {
            is_x \<leftarrow> bo_index B (x_bits p) index;
            is_z \<leftarrow> bo_index B (z_bits p) index;
            let extra_phase = (if is_x \<and> is_z then (extra_phase + 3) mod 4 else extra_phase);
            Some (extra_phase, body @ [pauli_char is_x is_z]) }) [0..<last_index] (0, []);
        prefix \<leftarrow> format_phase_prefix phase extra_phase sign_plus style;
        Some (prefix @ body) })"

text \<open>A \<open>BTreeMap\<close> is the list of its entries in the order of their keys.\<close>

fun btree_insert :: "nat \<Rightarrow> 'v \<Rightarrow> (nat \<times> 'v) list \<Rightarrow> (nat \<times> 'v) list" where
  "btree_insert k v [] = [(k, v)]"
| "btree_insert k v ((l, w) # m) =
     (if k < l then (k, v) # (l, w) # m else if k = l then (k, v) # m else (l, w) # btree_insert k v m)"

definition string_map :: "'b bits_ops \<Rightarrow> 'b pauli_projective \<Rightarrow> u8 \<times> (nat \<times> uchar) list" where
  "string_map B p =
     (let support = fold (\<lambda>index support. btree_insert index (of_char CHR ''X'') support) (bo_support B (x_bits p)) [] in
      fold (\<lambda>index (phase, support). case map_of support index of
           Some _ \<Rightarrow> ((phase + 3) mod 4, btree_insert index (of_char CHR ''Y'') support)
         | None \<Rightarrow> (phase, btree_insert index (of_char CHR ''Z'') support)) (bo_support B (z_bits p)) (0, support))"

definition format_sparse_pauli ::
  "'b bits_ops \<Rightarrow> 'b pauli_projective \<Rightarrow> u8 option \<Rightarrow> string_notation \<Rightarrow> bool \<Rightarrow> ustring option" where
  "format_sparse_pauli B p phase style sign_plus =
     (let (extra_phase, id_to_character) = string_map B p in
      if id_to_character = [] then do { prefix \<leftarrow> format_phase_prefix phase 0 sign_plus style; Some (prefix @ u ''I'') }
      else do {
        prefix \<leftarrow> format_phase_prefix phase extra_phase sign_plus style;
        let sep = separator style;
        ofold (\<lambda>(i, (index, character)) result. do {
            let result = (if 0 < i \<and> sep \<noteq> [] then result @ sep else result);
            sub \<leftarrow> subscript style index;
            Some (result @ [character] @ sub) }) (enumerate 0 id_to_character) prefix })"

definition format_pauli ::
  "'b bits_ops \<Rightarrow> 'b pauli_projective \<Rightarrow> u8 option \<Rightarrow> string_layout \<Rightarrow> string_notation \<Rightarrow> nat option \<Rightarrow> bool \<Rightarrow> ustring option" where
  "format_pauli B p phase layout style sz sign_plus = (case layout of
     Dense \<Rightarrow> format_dense_pauli B p phase style sz sign_plus
   | Sparse \<Rightarrow> format_sparse_pauli B p phase style sign_plus)"

definition pauli_to_string_with :: "'b bits_ops \<Rightarrow> 'b pauli_unitary \<Rightarrow> string_layout \<Rightarrow> string_notation \<Rightarrow> ustring option" where
  "pauli_to_string_with B p layout style =
     format_pauli B (projective p) (Some (phase_value (xz_phase_exp p))) layout style None False"

definition pauli_to_string_with_size ::
  "'b bits_ops \<Rightarrow> 'b pauli_unitary \<Rightarrow> string_layout \<Rightarrow> string_notation \<Rightarrow> nat \<Rightarrow> ustring option" where
  "pauli_to_string_with_size B p layout style n =
     format_pauli B (projective p) (Some (phase_value (xz_phase_exp p))) layout style (Some n) False"

definition projective_to_string_with :: "'b bits_ops \<Rightarrow> 'b pauli_projective \<Rightarrow> string_layout \<Rightarrow> string_notation \<Rightarrow> ustring option" where
  "projective_to_string_with B p layout style = format_pauli B p None layout style None False"

definition projective_to_string_with_size ::
  "'b bits_ops \<Rightarrow> 'b pauli_projective \<Rightarrow> string_layout \<Rightarrow> string_notation \<Rightarrow> nat \<Rightarrow> ustring option" where
  "projective_to_string_with_size B p layout style n = format_pauli B p None layout style (Some n) False"

text \<open>\<open>Display\<close>: the two flags of the formatter; padding is the formatter's.\<close>

definition pauli_fmt :: "'b bits_ops \<Rightarrow> bool \<Rightarrow> bool \<Rightarrow> 'b pauli_unitary \<Rightarrow> ustring option" where
  "pauli_fmt B alternate sign_plus p =
     (let layout = (if alternate then Sparse else Dense) in
      format_pauli B (projective p) (Some (phase_value (xz_phase_exp p))) layout Unicode None sign_plus)"

definition projective_fmt :: "'b bits_ops \<Rightarrow> bool \<Rightarrow> bool \<Rightarrow> 'b pauli_projective \<Rightarrow> ustring option" where
  "projective_fmt B alternate sign_plus p =
     (let layout = (if alternate then Sparse else Dense) in format_pauli B p None layout Unicode None sign_plus)"

section \<open>Parsing\<close>

datatype pauli_string_parsing_error = PauliStringParsingError

definition get_digit :: "uchar \<Rightarrow> nat option" where
  "get_digit character = (if subscript_zero \<le> character \<and> character \<le> subscript_zero + 9 then Some (character - subscript_zero)
     else if 48 \<le> character \<and> character \<le> 57 then Some (character - 48) else None)"

fun starts_with :: "ustring \<Rightarrow> ustring \<Rightarrow> bool" where
  "starts_with s [] = True"
| "starts_with [] (p # ps) = False"
| "starts_with (c # cs) (p # ps) = (c = p \<and> starts_with cs ps)"

definition phase_prefixes :: "(ustring \<times> u8) list" where
  "phase_prefixes = [(u ''+i'', 1), (u ''i'', 1), (u ''-i'', 3), (u ''+'' @ [italic_i], 1), ([italic_i], 1),
     (u ''-'' @ [italic_i], 3), (u ''+'', 0), (u ''-'', 2)]"

definition parse_phase :: "ustring \<Rightarrow> u8 \<times> ustring" where
  "parse_phase s = (case filter (\<lambda>(prefix, phase_exp). starts_with s prefix) phase_prefixes of
     [] \<Rightarrow> (0, s)
   | (prefix, phase_exp) # _ \<Rightarrow> (phase_exp, drop (length prefix) s))"

text \<open>The state of the sparse scanner: the finished entries, the current letter, the index read so
  far and whether it has digits.  \<open>checked_mul\<close> and \<open>checked_add\<close> are those of a 64-bit \<open>usize\<close>.\<close>

record scan_state =
  sc_entries :: "(uchar \<times> nat) list"
  sc_char :: "uchar option"
  sc_index :: nat
  sc_digits :: bool

definition push_entry :: "scan_state \<Rightarrow> (pauli_string_parsing_error + scan_state)" where
  "push_entry st = (case sc_char st of None \<Rightarrow> Inr st
     | Some prev \<Rightarrow> if \<not> sc_digits st then Inl PauliStringParsingError
         else Inr (st\<lparr>sc_entries := sc_entries st @ [(prev, sc_index st)]\<rparr>))"

definition to_ascii_uppercase :: "uchar \<Rightarrow> uchar" where
  "to_ascii_uppercase c = (if 97 \<le> c \<and> c \<le> 122 then c - 32 else c)"

definition scan_char :: "uchar \<Rightarrow> scan_state \<Rightarrow> (pauli_string_parsing_error + scan_state)" where
  "scan_char character st = (case get_digit character of
     Some digit \<Rightarrow>
       if sc_char st = None then Inl PauliStringParsingError
       else let index = sc_index st * 10 + digit in
         if sc_index st * 10 < 2 ^ 64 \<and> index < 2 ^ 64 then Inr (st\<lparr>sc_index := index, sc_digits := True\<rparr>)
         else Inl PauliStringParsingError
   | None \<Rightarrow>
       if character \<in> set (u ''XxYyZz'') then (case push_entry st of Inl e \<Rightarrow> Inl e
         | Inr st \<Rightarrow> Inr (st\<lparr>sc_char := Some (to_ascii_uppercase character), sc_index := 0, sc_digits := False\<rparr>))
       else if character \<in> set (u ''{} _'') then Inr st
       else Inl PauliStringParsingError)"

fun scan_string :: "ustring \<Rightarrow> scan_state \<Rightarrow> (pauli_string_parsing_error + scan_state)" where
  "scan_string [] st = push_entry st"
| "scan_string (c # cs) st = (case scan_char c st of Inl e \<Rightarrow> Inl e | Inr st \<Rightarrow> scan_string cs st)"

definition apply_entry :: "'b bits_ops \<Rightarrow> uchar \<times> nat \<Rightarrow> 'b pauli_unitary \<Rightarrow> 'b pauli_unitary option" where
  "apply_entry B = (\<lambda>(c, index) p.
     if c = of_char CHR ''X'' then mul_assign_left_x B index p
     else if c = of_char CHR ''Y'' then mul_assign_left_y B index p
     else if c = of_char CHR ''Z'' then mul_assign_left_z B index p
     else None)"

text \<open>\<open>max_index + 1\<close> is an addition of \<open>usize\<close>, which panics on overflow.\<close>

definition parse_sparse_pauli ::
  "'b bits_ops \<Rightarrow> ustring \<Rightarrow> u8 \<Rightarrow> (pauli_string_parsing_error + 'b pauli_unitary) option" where
  "parse_sparse_pauli B s phase_exp =
     (case scan_string s \<lparr> sc_entries = [], sc_char = None, sc_index = 0, sc_digits = False \<rparr> of
        Inl e \<Rightarrow> Some (Inl e)
      | Inr st \<Rightarrow> do {
          let entries = sc_entries st;
          let max_index = fold max (map snd entries) 0;
          guard_opt (max_index + 1 < 2 ^ 64);
          let pauli = add_assign_phase_exp phase_exp (pauli_neutral_element_of_size B (max_index + 1));
          pauli \<leftarrow> ofold (apply_entry B) entries pauli;
          Some (Inr pauli) })"

definition sparse_second_chars :: "uchar list" where
  "sparse_second_chars = SUB_CHARS @ u ''0123456789_''"

definition parse_dense_char :: "'b bits_ops \<Rightarrow> nat \<Rightarrow> uchar \<Rightarrow> 'b pauli_unitary \<Rightarrow>
    (pauli_string_parsing_error + 'b pauli_unitary) option" where
  "parse_dense_char B index character res =
     (if character \<in> set (u ''Xx'') then map_option Inr (mul_assign_right_x B index res)
      else if character \<in> set (u ''Zz'') then map_option Inr (mul_assign_right_z B index res)
      else if character \<in> set (u ''Yy'') then map_option Inr (mul_assign_right_y B index res)
      else if character \<in> set (u ''I '') then Some (Inr res)
      else Some (Inl PauliStringParsingError))"

fun parse_dense_chars :: "'b bits_ops \<Rightarrow> nat \<Rightarrow> ustring \<Rightarrow> 'b pauli_unitary \<Rightarrow>
    (pauli_string_parsing_error + 'b pauli_unitary) option" where
  "parse_dense_chars B index [] res = Some (Inr res)"
| "parse_dense_chars B index (c # cs) res = do {
     r \<leftarrow> parse_dense_char B index c res;
     (case r of Inl e \<Rightarrow> Some (Inl e) | Inr res \<Rightarrow> parse_dense_chars B (index + 1) cs res) }"

definition pauli_from_str :: "'b bits_ops \<Rightarrow> ustring \<Rightarrow> (pauli_string_parsing_error + 'b pauli_unitary) option" where
  "pauli_from_str B pauli_string =
     (let (phase_exp, s) = parse_phase (trim pauli_string) in
      if (case s of _ # c # _ \<Rightarrow> c | _ \<Rightarrow> 32) \<in> set sparse_second_chars then parse_sparse_pauli B s phase_exp
      else parse_dense_chars B 0 s
        (add_assign_phase_exp phase_exp (pauli_neutral_element_of_size B (sum_list (map utf8_len s)))))"


section \<open>Phase prefixes\<close>

lemma u_simps [simp]: "u [] = []" "u (c # cs) = of_char c # u cs"
  by (simp_all add: u_def)

definition letters :: "uchar set" where
  "letters = {73, 88, 89, 90}"

lemma pauli_char_letter: "pauli_char a b \<in> letters"
  by (cases a; cases b) (simp_all add: pauli_char_def letters_def)

lemma byte_mod_4: "k mod 4 \<in> {0, 1, 2, 3 :: u8}"
proof -
  have "unat (k mod 4) = unat k mod 4" by (simp add: unat_mod)
  then have "unat (k mod 4) < 4" by simp
  then have "unat (k mod 4) = 0 \<or> unat (k mod 4) = 1 \<or> unat (k mod 4) = 2 \<or> unat (k mod 4) = 3" by linarith
  then show ?thesis by (auto simp: word_unat_eq_iff)
qed

text \<open>The printed phase prefix is read back, and nothing of the body with it.\<close>

lemma parse_printed_phase:
  assumes "style \<noteq> Tex" "c \<in> letters"
  shows "\<exists>pre. format_phase_prefix (Some k) e False style = Some pre \<and>
    parse_phase (pre @ c # cs) = ((k + e) mod 4, c # cs) \<and>
    (\<forall>d \<in> set (take 1 pre). \<not> is_whitespace d)"
  using byte_mod_4 [of "k + e"] assms
  by (cases style; elim insertE emptyE)
    (auto simp: format_phase_prefix_def Let_def imaginary_unit_def minus_sign_def parse_phase_def phase_prefixes_def
      letters_def italic_i_def is_whitespace_def)

lemma printed_phase: "style \<noteq> Tex \<Longrightarrow> \<exists>pre. format_phase_prefix (Some k) e False style = Some pre"
  using parse_printed_phase [of style 73] by (metis insertI1 letters_def)

lemma trim_id:
  assumes "s \<noteq> []" "\<not> is_whitespace (hd s)" "\<not> is_whitespace (last s)"
  shows "trim s = s"
proof -
  have "dropWhile is_whitespace s = s" using assms(1,2) by (cases s) auto
  moreover have "dropWhile is_whitespace (rev s) = rev s" using assms(1,3) by (cases "rev s") (auto simp: hd_rev)
  ultimately show ?thesis by (simp add: trim_def)
qed


section \<open>The dense layout\<close>

definition letter_at :: "nat set \<Rightarrow> nat set \<Rightarrow> nat \<Rightarrow> uchar" where
  "letter_at A C i = pauli_char (i \<in> A) (i \<in> C)"

lemma letter_at: "letter_at A C i = (if i \<in> A then if i \<in> C then 89 else 88 else if i \<in> C then 90 else 73)"
  by (simp add: letter_at_def pauli_char_def)

definition op_upto :: "nat set \<Rightarrow> nat set \<Rightarrow> phase \<Rightarrow> nat \<Rightarrow> pauli_op" where
  "op_upto A C k n = (A \<inter> {..<n}, C \<inter> {..<n}, k + of_nat (card (A \<inter> C \<inter> {..<n})))"

lemma upto_Suc: "A \<inter> {..<Suc n} = (if n \<in> A then insert n (A \<inter> {..<n}) else A \<inter> {..<n})" for A :: "nat set"
  by (auto simp: less_Suc_eq)

lemma op_upto_Suc:
  "op_upto A C k (Suc n) = pmul (op_upto A C k n)
    (if n \<in> A then if n \<in> C then yop n else xop n else if n \<in> C then zop n else pone)"
  by (auto simp: op_upto_def upto_Suc pmul_def yop_def xop_def zop_def pone_def add_ac)

lemma within_mono: "within c n \<Longrightarrow> i \<le> n \<Longrightarrow> within c i"
  by (auto simp: within_def split: option.splits)

context pauli_bits
begin

lemma print_dense_loop:
  assumes "pauli_ok ok cap p" "\<And>i. i < n \<Longrightarrow> within (cap (x_bits p)) i"
  shows "\<exists>e. ofold (\<lambda>index (extra_phase, body). do {
            is_x \<leftarrow> bo_index B (x_bits p) index;
            is_z \<leftarrow> bo_index B (z_bits p) index;
            let extra_phase = (if is_x \<and> is_z then (extra_phase + 3) mod 4 else extra_phase);
            Some (extra_phase, body @ [pauli_char is_x is_z]) }) [0..<n] (0, []) =
      Some (e, map (letter_at (bset (x_bits p)) (bset (z_bits p))) [0..<n]) \<and>
    ph e = 3 * of_nat (card (bset (x_bits p) \<inter> bset (z_bits p) \<inter> {..<n}))"
  using assms(2)
proof (induction n)
  case 0
  then show ?case by (simp add: exI [of _ "0 :: u8"])
next
  case (Suc n)
  then obtain e where e: "ofold (\<lambda>index (extra_phase, body). do {
            is_x \<leftarrow> bo_index B (x_bits p) index;
            is_z \<leftarrow> bo_index B (z_bits p) index;
            let extra_phase = (if is_x \<and> is_z then (extra_phase + 3) mod 4 else extra_phase);
            Some (extra_phase, body @ [pauli_char is_x is_z]) }) [0..<n] (0, []) =
      Some (e, map (letter_at (bset (x_bits p)) (bset (z_bits p))) [0..<n])"
    "ph e = 3 * of_nat (card (bset (x_bits p) \<inter> bset (z_bits p) \<inter> {..<n}))" by auto
  have b: "bo_index B (x_bits p) n = Some (n \<in> bset (x_bits p))" "bo_index B (z_bits p) n = Some (n \<in> bset (z_bits p))"
    using Suc.prems [of n] assms(1) index by (auto simp: pauli_ok_def)
  show ?case
    using e by (auto simp: ofold_snoc b letter_at_def upto_Suc Let_def algebra_simps)
qed

lemma parse_dense_loop:
  assumes "unitary_ok ok cap res" "\<And>i. i < n \<Longrightarrow> within (pcap cap res) i" "psem bset res = op_upto A C k m" "m \<le> n"
  shows "\<exists>r. parse_dense_chars B m (map (letter_at A C) [m..<n]) res = Some (Inr r) \<and> unitary_ok ok cap r \<and>
    psem bset r = op_upto A C k n"
  using assms
proof (induction "n - m" arbitrary: m res)
  case 0
  then show ?case by simp
next
  case (Suc d)
  then have m: "m < n" "[m..<n] = m # [Suc m..<n]" by (simp_all add: upt_conv_Cons)
  have w: "within (pcap cap res) m" using Suc.prems(2) m(1) by simp
  obtain res' where r: "parse_dense_char B m (letter_at A C m) res = Some (Inr res')" "unitary_ok ok cap res'"
    "pcap cap res' = pcap cap res" "psem bset res' = op_upto A C k (Suc m)"
  proof -
    have "\<exists>r. parse_dense_char B m (letter_at A C m) res = Some (Inr r) \<and> unitary_ok ok cap r \<and> pcap cap r = pcap cap res \<and>
      psem bset r = pmul (psem bset res) (if m \<in> A then if m \<in> C then yop m else xop m else if m \<in> C then zop m else pone)"
      using right_x [OF Suc.prems(1) w] right_y [OF Suc.prems(1) w] right_z [OF Suc.prems(1) w] Suc.prems(1)
      by (auto simp: letter_at_def pauli_char_def parse_dense_char_def)
    then show ?thesis using that unfolding op_upto_Suc Suc.prems(3) by blast
  qed
  have "\<exists>q. parse_dense_chars B (Suc m) (map (letter_at A C) [Suc m..<n]) res' = Some (Inr q) \<and> unitary_ok ok cap q \<and>
    psem bset q = op_upto A C k n"
    by (rule Suc.hyps(1)) (use Suc r m in auto)
  then show ?case using r(1) by (simp add: m(2))
qed

lemma max_support_run:
  assumes "pauli_ok ok cap p"
  shows "projective_max_support B p = (let s = bset (x_bits p) \<union> bset (z_bits p) in if s = {} then None else Some (Max s))"
  using assms max_support [of "x_bits p"] max_support [of "z_bits p"] bset_finite
  by (auto simp: projective_max_support_def max_opt_def pauli_ok_def Let_def Max_Un)

lemma print_dense:
  assumes "unitary_ok ok cap p" "style \<noteq> Tex"
  shows "\<exists>pre e n. 0 < n \<and> bset (px p) \<subseteq> {..<n} \<and> bset (pz p) \<subseteq> {..<n} \<and>
    ph e = 3 * of_nat (card (bset (px p) \<inter> bset (pz p))) \<and>
    format_phase_prefix (Some (phase_value (xz_phase_exp p))) e False style = Some pre \<and>
    pauli_to_string_with B p Dense style = Some (pre @ map (letter_at (bset (px p)) (bset (pz p))) [0..<n])"
proof (cases "bset (px p) \<union> bset (pz p) = {}")
  case True
  obtain pre where "format_phase_prefix (Some (phase_value (xz_phase_exp p))) 0 False style = Some pre"
    using printed_phase [OF assms(2)] by blast
  then show ?thesis using True assms(1)
    by (intro exI [of _ pre] exI [of _ "0 :: u8"] exI [of _ 1])
      (simp add: pauli_to_string_with_def format_pauli_def format_dense_pauli_def max_support_run letter_at_def pauli_char_def)
next
  case False
  let ?s = "bset (px p) \<union> bset (pz p)" and ?n = "Suc (Max (bset (px p) \<union> bset (pz p)))"
  have f: "finite ?s" using assms(1) bset_finite by (simp add: pauli_ok_def)
  have sub: "bset (px p) \<subseteq> {..<?n}" "bset (pz p) \<subseteq> {..<?n}"
    using f Max_ge [of ?s] by (auto simp: less_Suc_eq_le)
  have "within (cap (px p)) (Max ?s)"
    using Max_in [OF f False] bset_within [of "px p"] bset_within [of "pz p"] assms(1) by (auto simp: pauli_ok_def)
  then have "within (cap (px p)) i" if "i < ?n" for i using that by (auto intro: within_mono)
  from print_dense_loop [OF assms(1) this] obtain e where e: "ofold (\<lambda>index (extra_phase, body). do {
            is_x \<leftarrow> bo_index B (px p) index;
            is_z \<leftarrow> bo_index B (pz p) index;
            let extra_phase = (if is_x \<and> is_z then (extra_phase + 3) mod 4 else extra_phase);
            Some (extra_phase, body @ [pauli_char is_x is_z]) }) [0..<?n] (0, []) =
      Some (e, map (letter_at (bset (px p)) (bset (pz p))) [0..<?n])"
    "ph e = 3 * of_nat (card (bset (px p) \<inter> bset (pz p) \<inter> {..<?n}))" by blast
  obtain pre where "format_phase_prefix (Some (phase_value (xz_phase_exp p))) e False style = Some pre"
    using printed_phase [OF assms(2)] by blast
  moreover have "bset (px p) \<inter> bset (pz p) \<inter> {..<?n} = bset (px p) \<inter> bset (pz p)" using sub by auto
  moreover have "projective_max_support B (projective p) = Some (Max ?s)"
    unfolding max_support_run [OF assms(1)] Let_def using False by (simp only: if_False)
  ultimately show ?thesis using e sub
    by (intro exI [of _ pre] exI [of _ e] exI [of _ ?n])
      (simp add: pauli_to_string_with_def format_pauli_def format_dense_pauli_def Let_def del: upt_Suc)
qed

lemma dense_round_trip:
  assumes "unitary_ok ok cap p" "style \<noteq> Tex"
  shows "\<exists>s q. pauli_to_string_with B p Dense style = Some s \<and> pauli_from_str B s = Some (Inr q) \<and> psem bset q = psem bset p"
proof -
  let ?A = "bset (px p)" and ?C = "bset (pz p)"
  obtain pre e n where n: "0 < n" "?A \<subseteq> {..<n}" "?C \<subseteq> {..<n}" and e: "ph e = 3 * of_nat (card (?A \<inter> ?C))"
    and pre: "format_phase_prefix (Some (phase_value (xz_phase_exp p))) e False style = Some pre"
    and str: "pauli_to_string_with B p Dense style = Some (pre @ map (letter_at ?A ?C) [0..<n])"
    using print_dense [OF assms] by blast
  let ?body = "map (letter_at ?A ?C) [0..<n]"
  have letter: "letter_at ?A ?C i \<in> letters" for i by (simp add: letter_at_def pauli_char_letter)
  have body: "?body = letter_at ?A ?C 0 # map (letter_at ?A ?C) [1..<n]" using n(1) by (simp add: upt_conv_Cons)
  from parse_printed_phase [OF assms(2) letter, of "phase_value (xz_phase_exp p)" e 0 "map (letter_at ?A ?C) [1..<n]"] pre
  have phase: "parse_phase (pre @ ?body) = ((phase_value (xz_phase_exp p) + e) mod 4, ?body)"
    and first: "\<forall>d \<in> set (take 1 pre). \<not> is_whitespace d" by (simp_all add: body)
  have visible: "\<not> is_whitespace c" "utf8_len c = 1" "c \<notin> set sparse_second_chars" if "c \<in> letters" for c
    using that by (auto simp: letters_def is_whitespace_def utf8_len_def sparse_second_chars_def SUB_CHARS_def subscript_zero_def)
  have "trim (pre @ ?body) = pre @ ?body"
  proof (rule trim_id)
    show "pre @ ?body \<noteq> []" using n(1) by simp
    show "\<not> is_whitespace (hd (pre @ ?body))" using first visible(1) [OF letter] by (cases pre) (simp_all add: body)
    show "\<not> is_whitespace (last (pre @ ?body))" using n(1) visible(1) [OF letter] by (simp add: last_map)
  qed
  moreover have "(case ?body of _ # c # _ \<Rightarrow> c | _ \<Rightarrow> 32) \<notin> set sparse_second_chars"
  proof (cases "1 < n")
    case True
    then have "?body = letter_at ?A ?C 0 # letter_at ?A ?C 1 # map (letter_at ?A ?C) [2..<n]"
      by (simp add: upt_conv_Cons numeral_2_eq_2)
    then show ?thesis using visible(3) [OF letter, of 1] by simp
  next
    case False
    then have "n = 1" using n(1) by simp
    then show ?thesis by (simp add: sparse_second_chars_def SUB_CHARS_def subscript_zero_def)
  qed
  moreover have "sum_list (map utf8_len ?body) = n"
    using visible(2) [OF letter] by (simp add: comp_def sum_list_triv)
  moreover
  let ?k = "(phase_value (xz_phase_exp p) + e) mod 4"
  let ?start = "add_assign_phase_exp ?k (pauli_neutral_element_of_size B n)"
  have "\<exists>r. parse_dense_chars B 0 ?body ?start = Some (Inr r) \<and> unitary_ok ok cap r \<and> psem bset r = op_upto ?A ?C (ph ?k) n"
  proof (rule parse_dense_loop)
    show "unitary_ok ok cap ?start" using neutral_ok(1) by (simp add: phase_exp)
    show "within (pcap cap ?start) i" if "i < n" for i using neutral_ok(3) that by (simp add: phase_exp)
    show "psem bset ?start = op_upto ?A ?C (ph ?k) 0"
      using neutral_ok(2) [of n] by (simp add: phase_exp op_upto_def pphase_def pone_def)
  qed simp
  ultimately obtain r where r: "pauli_from_str B (pre @ ?body) = Some (Inr r)" "psem bset r = op_upto ?A ?C (ph ?k) n"
    by (auto simp: pauli_from_str_def phase)
  have "psem bset r = psem bset p"
  proof -
    have "4 * (of_nat (card (?A \<inter> ?C)) :: phase) = 0" by simp
    moreover have "?A \<inter> {..<n} = ?A" "?C \<inter> {..<n} = ?C" "?A \<inter> ?C \<inter> {..<n} = ?A \<inter> ?C" using n by auto
    ultimately show ?thesis unfolding r(2) by (simp add: op_upto_def psem_def e phase_value_def)
  qed
  with str r(1) show ?thesis by blast
qed

end

section \<open>The sparse layout\<close>

text \<open>A sorted association list is determined by its map.\<close>

lemma btree_insert:
  assumes "ascending (map fst m)"
  shows "ascending (map fst (btree_insert k v m))" "map_of (btree_insert k v m) = (map_of m)(k \<mapsto> v)"
    "fst ` set (btree_insert k v m) = insert k (fst ` set m)"
proof -
  have "ascending (map fst (btree_insert k v m)) \<and> map_of (btree_insert k v m) = (map_of m)(k \<mapsto> v) \<and>
    fst ` set (btree_insert k v m) = insert k (fst ` set m)"
    using assms
  proof (induction k v m rule: btree_insert.induct)
    case (2 k v l w m)
    then have "map_of m l = None" by (auto simp: map_of_eq_None_iff)
    with 2 show ?case by (auto simp: fun_eq_iff)
  qed auto
  then show "ascending (map fst (btree_insert k v m))" "map_of (btree_insert k v m) = (map_of m)(k \<mapsto> v)"
    "fst ` set (btree_insert k v m) = insert k (fst ` set m)" by blast+
qed

lemma sorted_map_list:
  assumes "ascending (map fst m)" "\<And>k. map_of m k = (if k \<in> A then Some (f k) else None)" "finite A"
  shows "m = map (\<lambda>k. (k, f k)) (sorted_list_of_set A)"
proof -
  have "fst ` set m = A" using assms(2) by (metis map_of_eq_None_iff option.distinct(1) subsetI subset_antisym)
  then have keys: "map fst m = sorted_list_of_set A" using ascending_eq_set [OF assms(1)] by simp
  have "distinct (map fst m)" using assms(1) strict_sorted_iff by blast
  then have "snd x = f (fst x)" if "x \<in> set m" for x
    using that assms(2) [of "fst x"] map_of_is_SomeI [of m "fst x" "snd x"] by (auto split: if_splits)
  then have "m = map (\<lambda>k. (k, f k)) (map fst m)" by (intro nth_equalityI) (auto simp: prod_eq_iff)
  with keys show ?thesis by simp
qed

lemma fold_snoc: "fold f (xs @ [x]) s = f x (fold f xs s)"
  by simp

lemma string_map_x:
  "ascending (map fst (fold (\<lambda>i m. btree_insert i v m) xs [])) \<and>
    map_of (fold (\<lambda>i m. btree_insert i v m) xs []) = (\<lambda>k. if k \<in> set xs then Some v else None)"
proof (induction xs rule: rev_induct)
  case (snoc x xs)
  with btree_insert [of "fold (\<lambda>i m. btree_insert i v m) xs []" x v] show ?case
    unfolding fold_snoc by (auto simp: fun_eq_iff)
qed simp

context pauli_bits
begin

lemma string_map_run:
  assumes "pauli_ok ok cap p"
  shows "\<exists>e. string_map B p = (e, map (\<lambda>i. (i, letter_at (bset (x_bits p)) (bset (z_bits p)) i))
      (sorted_list_of_set (bset (x_bits p) \<union> bset (z_bits p)))) \<and>
    ph e = 3 * of_nat (card (bset (x_bits p) \<inter> bset (z_bits p)))"
proof -
  let ?A = "bset (x_bits p)" and ?C = "bset (z_bits p)"
  let ?m0 = "fold (\<lambda>index support. btree_insert index (of_char CHR ''X'' :: uchar) support) (bo_support B (x_bits p)) []"
  have f: "finite ?A" "finite ?C" using assms bset_finite by (auto simp: pauli_ok_def)
  have sup: "bo_support B (x_bits p) = sorted_list_of_set ?A" "bo_support B (z_bits p) = sorted_list_of_set ?C"
    using assms support by (auto simp: pauli_ok_def)
  have m0: "ascending (map fst ?m0)" "map_of ?m0 = (\<lambda>k. if k \<in> ?A then Some 88 else None)"
    using string_map_x [of "88 :: uchar" "sorted_list_of_set ?A"] f by (simp_all add: sup)
  let ?f = "\<lambda>index (phase :: u8, support). case map_of support index of
           Some _ \<Rightarrow> ((phase + 3) mod 4, btree_insert index (of_char CHR ''Y'' :: uchar) support)
         | None \<Rightarrow> (phase, btree_insert index (of_char CHR ''Z'') support)"
  have run: "\<exists>e m. fold ?f zs (0, ?m0) = (e, m) \<and> ascending (map fst m) \<and> ph e = 3 * of_nat (card (?A \<inter> set zs)) \<and>
      map_of m = (\<lambda>k. if k \<in> ?A \<union> set zs then Some (letter_at ?A (set zs) k) else None)" if "distinct zs" for zs
    using that
  proof (induction zs rule: rev_induct)
    case Nil
    then show ?case using m0 by (auto simp: letter_at fun_eq_iff)
  next
    case (snoc z zs)
    then obtain e m where em: "fold ?f zs (0, ?m0) = (e, m)" "ascending (map fst m)" "ph e = 3 * of_nat (card (?A \<inter> set zs))"
      "map_of m = (\<lambda>k. if k \<in> ?A \<union> set zs then Some (letter_at ?A (set zs) k) else None)" by auto
    note ins = btree_insert [OF em(2)]
    have z: "z \<notin> set zs" using snoc.prems by simp
    have m: "map_of m z = (if z \<in> ?A then Some (letter_at ?A (set zs) z) else None)" using em(4) z by simp
    show ?case
    proof (cases "z \<in> ?A")
      case True
      have "card (?A \<inter> set (zs @ [z])) = Suc (card (?A \<inter> set zs))" using True z by (simp add: Int_insert_right)
      then show ?thesis unfolding fold_snoc em(1) using True m em(3,4) ins z
        by (auto simp: letter_at fun_eq_iff algebra_simps)
    next
      case False
      then have "?A \<inter> set (zs @ [z]) = ?A \<inter> set zs" by auto
      then show ?thesis unfolding fold_snoc em(1) using False m em(3,4) ins z
        by (auto simp: letter_at fun_eq_iff)
    qed
  qed
  have set_C: "set (sorted_list_of_set ?C) = ?C" using f by simp
  obtain e m where em: "fold ?f (sorted_list_of_set ?C) (0, ?m0) = (e, m)" "ascending (map fst m)" "ph e = 3 * of_nat (card (?A \<inter> ?C))"
      "map_of m = (\<lambda>k. if k \<in> ?A \<union> ?C then Some (letter_at ?A ?C k) else None)"
    using run [of "sorted_list_of_set ?C", unfolded set_C] by auto
  have "m = map (\<lambda>i. (i, letter_at ?A ?C i)) (sorted_list_of_set (?A \<union> ?C))"
    by (rule sorted_map_list) (use em f in simp_all)
  with em(1,3) show ?thesis by (simp add: string_map_def sup Let_def)
qed

end

text \<open>The text of one entry, and of all entries.\<close>

definition digit_code :: "string_notation \<Rightarrow> nat \<Rightarrow> uchar" where
  "digit_code style d = (case style of Unicode \<Rightarrow> subscript_zero + d | _ \<Rightarrow> 48 + d)"

definition piece :: "string_notation \<Rightarrow> uchar \<times> nat \<Rightarrow> ustring" where
  "piece style = (\<lambda>(c, i). c # (case style of Unicode \<Rightarrow> [] | _ \<Rightarrow> u ''_'') @ map (digit_code style) (decimal_digits i))"

lemma decimal_digits_less: "d \<in> set (decimal_digits n) \<Longrightarrow> d < 10"
  by (induction n rule: decimal_digits.induct) (subst (asm) (2) decimal_digits.simps, auto split: if_splits)

lemma decimal_digits_not_Nil [simp]: "decimal_digits n \<noteq> []"
  by (subst decimal_digits.simps) simp

lemma subscript_run: "style \<noteq> Tex \<Longrightarrow> subscript style i = Some (tl (piece style (c, i)))"
proof (cases style)
  case Unicode
  have "subscript_digits i = Some (map (digit_code Unicode) (decimal_digits i))"
  proof -
    have "nth_opt SUB_CHARS (case to_digit (48 + d) of None \<Rightarrow> 0 | Some d \<Rightarrow> d) = Some (digit_code Unicode d)"
      if "d \<in> set (decimal_digits i)" for d
      using decimal_digits_less [OF that] by (simp add: to_digit_def SUB_CHARS_def digit_code_def del: upt_Suc)
    then show ?thesis
      using omap_total [of "decimal_digits i" "\<lambda>d. nth_opt SUB_CHARS (case to_digit (48 + d) of None \<Rightarrow> 0 | Some d \<Rightarrow> d)"]
      by (simp add: subscript_digits_def decimal_def omap_def ofold_map)
  qed
  with Unicode show ?thesis by (simp add: subscript_def piece_def)
qed (simp_all add: subscript_def piece_def decimal_def digit_code_def)

definition sparse_text :: "string_notation \<Rightarrow> (uchar \<times> nat) list \<Rightarrow> ustring" where
  "sparse_text style xs = (case xs of [] \<Rightarrow> [] | x # xs \<Rightarrow> piece style x @ concat (map (\<lambda>y. separator style @ piece style y) xs))"

lemma sparse_text_snoc:
  "xs \<noteq> [] \<Longrightarrow> sparse_text style (xs @ [x]) = sparse_text style xs @ separator style @ piece style x"
  by (cases xs) (simp_all add: sparse_text_def)

lemma print_sparse_loop:
  assumes "style \<noteq> Tex"
  shows "ofold (\<lambda>(i, (index, character)) result. do {
            let result = (if 0 < i \<and> separator style \<noteq> [] then result @ separator style else result);
            sub \<leftarrow> subscript style index;
            Some (result @ [character] @ sub) }) (enumerate 0 (map (\<lambda>(c, i). (i, c)) xs)) pre =
    Some (pre @ sparse_text style xs)"
proof (induction xs rule: rev_induct)
  case Nil
  then show ?case by (simp add: sparse_text_def)
next
  case (snoc x xs)
  obtain c i where x: "x = (c, i)" by force
  have "enumerate 0 (map (\<lambda>(c, i). (i, c)) (xs @ [x])) = enumerate 0 (map (\<lambda>(c, i). (i, c)) xs) @ [(length xs, (i, c))]"
    by (simp add: enumerate_append_eq x)
  moreover have "subscript style i = Some (tl (piece style x))" using subscript_run [OF assms] x by simp
  moreover have "c # tl (piece style x) = piece style x" by (simp add: piece_def x)
  ultimately show ?case using snoc
    by (cases "xs = []") (simp_all add: ofold_snoc sparse_text_snoc Let_def, simp add: sparse_text_def)
qed

text \<open>The scanner reads the entries back.\<close>

fun scan_chars :: "ustring \<Rightarrow> scan_state \<Rightarrow> (pauli_string_parsing_error + scan_state)" where
  "scan_chars [] st = Inr st"
| "scan_chars (c # cs) st = (case scan_char c st of Inl e \<Rightarrow> Inl e | Inr st \<Rightarrow> scan_chars cs st)"

lemma scan_append: "scan_chars a st = Inr st' \<Longrightarrow> scan_string (a @ b) st = scan_string b st'"
  by (induction a arbitrary: st) (auto split: sum.splits)

lemma scan_chars_append: "scan_chars a st = Inr st' \<Longrightarrow> scan_chars (a @ b) st = scan_chars b st'"
  by (induction a arbitrary: st) (auto split: sum.splits)

lemma get_digit_code: "d < 10 \<Longrightarrow> get_digit (digit_code style d) = Some d"
  by (cases style) (auto simp: get_digit_def digit_code_def subscript_zero_def)

lemma scan_digits:
  assumes "sc_char st \<noteq> None" "sc_index st = 0" "n < 2 ^ 64"
  shows "scan_chars (map (digit_code style) (decimal_digits n)) st = Inr (st\<lparr>sc_index := n, sc_digits := True\<rparr>)"
  using assms
proof (induction n rule: decimal_digits.induct)
  case (1 n)
  show ?case
  proof (cases "n < 10")
    case True
    then show ?thesis using 1 by (simp add: decimal_digits.simps [of n] scan_char_def get_digit_code)
  next
    case False
    have n: "n div 10 < 2 ^ 64" using 1(4) by simp
    have "n div 10 * 10 \<le> n" by simp
    then have m: "n div 10 * 10 < 2 ^ 64" using 1(4) by linarith
    have s: "n div 10 * 10 + n mod 10 = n" by simp
    have "decimal_digits n = decimal_digits (n div 10) @ [n mod 10]" using False by (simp add: decimal_digits.simps [of n])
    then show ?thesis
      using scan_chars_append [OF 1(1) [OF False 1(2,3) n], of "[digit_code style (n mod 10)]"] 1(2,4) m s
      by (simp add: scan_char_def get_digit_code Let_def)
  qed
qed

lemma scan_piece:
  assumes "push_entry st = Inr st'" "c \<in> {88, 89, 90}" "i < 2 ^ 64"
  shows "scan_chars (piece style (c, i)) st = Inr (st'\<lparr>sc_char := Some c, sc_index := i, sc_digits := True\<rparr>)"
proof -
  have "scan_char c st = Inr (st'\<lparr>sc_char := Some c, sc_index := 0, sc_digits := False\<rparr>)"
    using assms(1,2) by (auto simp: scan_char_def get_digit_def subscript_zero_def to_ascii_uppercase_def)
  moreover have "scan_char 95 t = Inr t" for t
    by (simp add: scan_char_def get_digit_def subscript_zero_def)
  ultimately show ?thesis
    using scan_digits [of "st'\<lparr>sc_char := Some c, sc_index := 0, sc_digits := False\<rparr>" i style] assms(3)
    by (cases style) (simp_all add: piece_def)
qed

lemma scan_separator: "scan_chars (separator style) st = Inr st"
  by (cases style) (simp_all add: separator_def scan_char_def get_digit_def subscript_zero_def)

lemma scan_pieces:
  assumes "\<forall>(c, i) \<in> set xs. c \<in> {88, 89, 90} \<and> i < 2 ^ 64" "sc_char st = Some c0" "sc_digits st"
  shows "\<exists>st'. scan_string (concat (map (\<lambda>y. separator style @ piece style y) xs)) st = Inr st' \<and>
    sc_entries st' = sc_entries st @ (c0, sc_index st) # xs"
  using assms
proof (induction xs arbitrary: st c0)
  case Nil
  then show ?case by (simp add: push_entry_def)
next
  case (Cons x xs)
  obtain c i where x: "x = (c, i)" by force
  let ?st = "st\<lparr>sc_entries := sc_entries st @ [(c0, sc_index st)]\<rparr>"
  let ?st2 = "?st\<lparr>sc_char := Some c, sc_index := i, sc_digits := True\<rparr>"
  have push: "push_entry st = Inr ?st" using Cons.prems by (simp add: push_entry_def)
  have "scan_chars (separator style @ piece style x) st = Inr ?st2"
    using scan_chars_append [OF scan_separator] scan_piece [OF push, of c i] Cons.prems(1) x by auto
  from scan_append [OF this] have step: "scan_string (concat (map (\<lambda>y. separator style @ piece style y) (x # xs))) st =
      scan_string (concat (map (\<lambda>y. separator style @ piece style y) xs)) ?st2" by simp
  show ?case unfolding step using Cons.IH [of ?st2 c] Cons.prems(1) x by simp
qed

lemma scan_sparse_text:
  assumes "\<forall>(c, i) \<in> set xs. c \<in> {88, 89, 90} \<and> i < 2 ^ 64" "xs \<noteq> []"
  shows "\<exists>st. scan_string (sparse_text style xs) \<lparr> sc_entries = [], sc_char = None, sc_index = 0, sc_digits = False \<rparr> = Inr st \<and>
    sc_entries st = xs"
proof -
  obtain c i ys where xs: "xs = (c, i) # ys" using assms(2) by (cases xs) auto
  let ?s = "\<lparr> sc_entries = [], sc_char = None, sc_index = 0, sc_digits = False \<rparr>"
  let ?t = "?s\<lparr>sc_char := Some c, sc_index := i, sc_digits := True\<rparr>"
  have "push_entry ?s = Inr ?s" by (simp add: push_entry_def)
  from scan_piece [OF this, of c i style] assms(1) have p: "scan_chars (piece style (c, i)) ?s = Inr ?t" by (simp add: xs)
  have "scan_string (sparse_text style xs) ?s = scan_string (concat (map (\<lambda>y. separator style @ piece style y) ys)) ?t"
    using scan_append [OF p] by (simp add: xs sparse_text_def)
  then show ?thesis using scan_pieces [of ys ?t c style] assms(1) by (simp add: xs)
qed

context pauli_bits
begin

text \<open>Multiplying the entries at distinct positions on the left builds the operator.\<close>

lemma apply_entries:
  assumes "unitary_ok ok cap res" "\<And>i. i \<in> set is \<Longrightarrow> within (pcap cap res) i" "distinct is"
    and "set is \<inter> D = {}" "psem bset res = (A \<inter> D, C \<inter> D, k + of_nat (card (A \<inter> C \<inter> D)))"
    and "set is \<subseteq> A \<union> C" "finite A" "finite C"
  shows "\<exists>r. ofold (apply_entry B) (map (\<lambda>i. (letter_at A C i, i)) is) res = Some r \<and> unitary_ok ok cap r \<and>
    psem bset r = (A \<inter> (D \<union> set is), C \<inter> (D \<union> set is), k + of_nat (card (A \<inter> C \<inter> (D \<union> set is))))"
  using assms
proof (induction "is" arbitrary: res D)
  case Nil
  then show ?case by simp
next
  case (Cons i "is")
  have w: "within (pcap cap res) i" using Cons.prems(2) by simp
  have i: "i \<notin> D" "i \<in> A \<union> C" using Cons.prems by auto
  let ?op = "if i \<in> A then if i \<in> C then yop i else xop i else zop i"
  have "\<exists>r. apply_entry B (letter_at A C i, i) res = Some r \<and> unitary_ok ok cap r \<and> pcap cap r = pcap cap res \<and>
      psem bset r = pmul ?op (psem bset res)"
    using left_x [OF Cons.prems(1) w] left_y [OF Cons.prems(1) w] left_z [OF Cons.prems(1) w] i(2)
    by (auto simp: letter_at apply_entry_def)
  then obtain r where r: "apply_entry B (letter_at A C i, i) res = Some r" "unitary_ok ok cap r" "pcap cap r = pcap cap res"
      "psem bset r = pmul ?op (psem bset res)" by blast
  have split: "Y \<inter> insert i D = (if i \<in> Y then insert i (Y \<inter> D) else Y \<inter> D)" for Y by auto
  have "psem bset r = (A \<inter> insert i D, C \<inter> insert i D, k + of_nat (card (A \<inter> C \<inter> insert i D)))"
    unfolding r(4) Cons.prems(5) using i Cons.prems(7,8)
    by (auto simp: split pmul_def yop_def xop_def zop_def)
  then have "\<exists>q. ofold (apply_entry B) (map (\<lambda>i. (letter_at A C i, i)) is) r = Some q \<and> unitary_ok ok cap q \<and>
    psem bset q = (A \<inter> (insert i D \<union> set is), C \<inter> (insert i D \<union> set is), k + of_nat (card (A \<inter> C \<inter> (insert i D \<union> set is))))"
    by (intro Cons.IH) (use Cons.prems r in auto)
  then show ?case using r(1) by simp
qed

lemma fold_max: "fold max xs a = Max (insert a (set xs))" for a :: nat
  using Max.set_eq_fold [of a xs] by simp

lemma sparse_round_trip:
  assumes "unitary_ok ok cap p" "style \<noteq> Tex" "\<And>i. i \<in> bset (px p) \<union> bset (pz p) \<Longrightarrow> i + 1 < 2 ^ 64"
  shows "\<exists>s q. pauli_to_string_with B p Sparse style = Some s \<and> pauli_from_str B s = Some (Inr q) \<and> psem bset q = psem bset p"
proof (cases "bset (px p) \<union> bset (pz p) = {}")
  case True
  obtain e where "string_map B (projective p) = (e, [])" using string_map_run [OF assms(1)] True by auto
  moreover have "projective_max_support B (projective p) = None" using max_support_run [OF assms(1)] True by simp
  ultimately have "pauli_to_string_with B p Sparse style = pauli_to_string_with B p Dense style"
    by (simp add: pauli_to_string_with_def format_pauli_def format_sparse_pauli_def format_dense_pauli_def)
  then show ?thesis using dense_round_trip [OF assms(1,2)] by simp
next
  case False
  let ?A = "bset (px p)" and ?C = "bset (pz p)"
  let ?is = "sorted_list_of_set (?A \<union> ?C)"
  let ?xs = "map (\<lambda>i. (letter_at ?A ?C i, i)) ?is"
  have f: "finite ?A" "finite ?C" using assms(1) bset_finite by (auto simp: pauli_ok_def)
  have is_ne: "?is \<noteq> []" and set_is: "set ?is = ?A \<union> ?C" using False f by simp_all
  obtain e where e: "string_map B (projective p) = (e, map (\<lambda>i. (i, letter_at ?A ?C i)) ?is)" "ph e = 3 * of_nat (card (?A \<inter> ?C))"
    using string_map_run [OF assms(1)] by blast
  have entries: "map (\<lambda>(c, i). (i, c)) ?xs = map (\<lambda>i. (i, letter_at ?A ?C i)) ?is" by simp
  obtain i0 is' where is0: "?is = i0 # is'" using is_ne by (cases ?is) auto
  define rest where "rest = (case style of Unicode \<Rightarrow> [] | _ \<Rightarrow> u ''_'') @ map (digit_code style) (decimal_digits i0) @
      concat (map (\<lambda>y. separator style @ piece style y) (map (\<lambda>i. (letter_at ?A ?C i, i)) is'))"
  have body_text: "sparse_text style ?xs = letter_at ?A ?C i0 # rest"
    by (simp add: is0 sparse_text_def piece_def rest_def)
  have letters: "letter_at ?A ?C i \<in> letters" for i by (simp add: letter_at_def pauli_char_letter)
  obtain pre where pre: "format_phase_prefix (Some (phase_value (xz_phase_exp p))) e False style = Some pre"
    and phase: "parse_phase (pre @ sparse_text style ?xs) = ((phase_value (xz_phase_exp p) + e) mod 4, sparse_text style ?xs)"
    and first: "\<forall>d \<in> set (take 1 pre). \<not> is_whitespace d"
    using parse_printed_phase [OF assms(2) letters, of "phase_value (xz_phase_exp p)" e i0 rest] unfolding body_text by blast
  have str: "pauli_to_string_with B p Sparse style = Some (pre @ sparse_text style ?xs)"
    using print_sparse_loop [OF assms(2), of ?xs pre] is_ne pre unfolding entries
    by (simp add: pauli_to_string_with_def format_pauli_def format_sparse_pauli_def e(1) Let_def)
  have digit: "\<not> is_whitespace (digit_code style d)" "digit_code style d \<in> set sparse_second_chars" if "d < 10" for d
  proof -
    have "d \<in> {0, 1, 2, 3, 4, 5, 6, 7, 8, 9}" using that by auto
    then show "\<not> is_whitespace (digit_code style d)" "digit_code style d \<in> set sparse_second_chars"
      by (cases style; auto simp: is_whitespace_def digit_code_def subscript_zero_def sparse_second_chars_def SUB_CHARS_def)+
  qed
  have last_piece: "sparse_text style ?xs \<noteq> [] \<and> \<not> is_whitespace (last (sparse_text style ?xs))"
  proof -
    have "\<not> is_whitespace (last (piece style y))" for y
      using digit(1) [OF decimal_digits_less [OF last_in_set]] by (cases y) (simp add: piece_def last_map)
    moreover have "piece style y \<noteq> []" for y by (cases y) (simp add: piece_def)
    ultimately show ?thesis unfolding sparse_text_def is0
      by (cases "map (\<lambda>i. (letter_at ?A ?C i, i)) is'" rule: rev_cases) simp_all
  qed
  have "trim (pre @ sparse_text style ?xs) = pre @ sparse_text style ?xs"
  proof (rule trim_id)
    show "\<not> is_whitespace (hd (pre @ sparse_text style ?xs))"
      using first letters [of i0] by (cases pre) (auto simp: body_text letters_def is_whitespace_def)
  qed (use last_piece in simp_all)
  moreover have "(case sparse_text style ?xs of _ # c # _ \<Rightarrow> c | _ \<Rightarrow> 32) \<in> set sparse_second_chars"
  proof (cases style)
    case Unicode
    obtain d ds where d: "decimal_digits i0 = d # ds" by (cases "decimal_digits i0") auto
    then show ?thesis unfolding body_text rest_def using digit(2) [of d] decimal_digits_less [of d i0] Unicode by simp
  next
    case Ascii
    then show ?thesis unfolding body_text rest_def by (simp add: sparse_second_chars_def)
  qed (use assms(2) in simp)
  ultimately have parse: "pauli_from_str B (pre @ sparse_text style ?xs) =
      parse_sparse_pauli B (sparse_text style ?xs) ((phase_value (xz_phase_exp p) + e) mod 4)"
    by (simp add: pauli_from_str_def phase)
  have "letter_at ?A ?C i \<in> {88, 89, 90} \<and> i < 2 ^ 64" if "i \<in> set ?is" for i
    using that assms(3) [of i] unfolding set_is by (auto simp: letter_at)
  then have good: "\<forall>(c, i) \<in> set ?xs. c \<in> {88, 89, 90} \<and> i < 2 ^ 64" unfolding set_map by blast
  obtain st where st: "scan_string (sparse_text style ?xs) \<lparr> sc_entries = [], sc_char = None, sc_index = 0, sc_digits = False \<rparr> = Inr st"
    "sc_entries st = ?xs"
    using scan_sparse_text [OF good] is_ne by auto
  let ?max = "fold max (map snd ?xs) 0"
  have max: "?max = Max (insert 0 (?A \<union> ?C))" using set_is by (simp add: fold_max comp_def)
  have "?max \<in> insert 0 (?A \<union> ?C)" unfolding max using f by (intro Max_in) auto
  then have bound: "?max + 1 < 2 ^ 64" using assms(3) by auto
  let ?k = "(phase_value (xz_phase_exp p) + e) mod 4"
  let ?start = "add_assign_phase_exp ?k (pauli_neutral_element_of_size B (?max + 1))"
  have "\<exists>r. ofold (apply_entry B) ?xs ?start = Some r \<and> unitary_ok ok cap r \<and>
    psem bset r = (?A \<inter> ({} \<union> set ?is), ?C \<inter> ({} \<union> set ?is), ph ?k + of_nat (card (?A \<inter> ?C \<inter> ({} \<union> set ?is))))"
  proof (rule apply_entries)
    show "unitary_ok ok cap ?start" using neutral_ok(1) by (simp add: phase_exp)
    show "within (pcap cap ?start) i" if "i \<in> set ?is" for i
    proof -
      have "i \<le> ?max" unfolding max using that set_is f by (intro Max_ge) auto
      then show ?thesis using neutral_ok(3) [of i "?max + 1"] by (simp add: phase_exp)
    qed
    show "psem bset ?start = (?A \<inter> {}, ?C \<inter> {}, ph ?k + of_nat (card (?A \<inter> ?C \<inter> {})))"
      using neutral_ok(2) [of "?max + 1"] by (simp add: phase_exp pphase_def pone_def)
  qed (use f in simp_all)
  then obtain r where r: "ofold (apply_entry B) ?xs ?start = Some r"
    "psem bset r = (?A, ?C, ph ?k + of_nat (card (?A \<inter> ?C)))"
    unfolding set_is by (auto simp: Int_absorb2 Int_Un_distrib le_infI1)
  have "4 * (of_nat (card (?A \<inter> ?C)) :: phase) = 0" by simp
  then have "psem bset r = psem bset p" unfolding r(2) by (simp add: psem_def e(2) phase_value_def)
  moreover have "pauli_from_str B (pre @ sparse_text style ?xs) = Some (Inr r)"
    unfolding parse parse_sparse_pauli_def st(1) using bound r(1) by (simp add: st(2) Let_def)
  ultimately show ?thesis using str by blast
qed

end

section \<open>Properties\<close>

text \<open>C23. Printing a dense operator in either layout, in the Unicode or the ASCII notation, returns a
  string that parses to an operator with the same action, phase included (for every qubit index below
  the largest \<open>usize\<close>).\<close>

theorem dense_string_round_trip:
  assumes "dense_ok p" "style \<noteq> Tex" "\<forall>i \<in> dense_bits (px p) \<union> dense_bits (pz p). i + 1 < 2 ^ 64"
  shows "\<exists>s q. pauli_to_string_with dense_ops p layout style = Some s \<and> pauli_from_str dense_ops s = Some (Inr q) \<and>
    dense_sem q = dense_sem p"
proof (cases layout)
  case Dense
  show ?thesis unfolding Dense by (rule dense.dense_round_trip [OF assms(1,2)])
next
  case Sparse
  show ?thesis unfolding Sparse by (rule dense.sparse_round_trip [OF assms(1,2)]) (use assms(3) in blast)
qed

theorem dense_string_round_trip_witness:
  "\<exists>s q. pauli_to_string_with dense_ops dense_y0 Sparse Unicode = Some s \<and> pauli_from_str dense_ops s = Some (Inr q) \<and>
    dense_sem q = dense_sem dense_y0"
proof (rule dense_string_round_trip [OF dense_example_ok(2)])
  have "i + 1 < 2 ^ 64" if "i < 512" for i :: nat using that by simp
  then show "\<forall>i \<in> dense_bits (px dense_y0) \<union> dense_bits (pz dense_y0). i + 1 < 2 ^ 64"
    using blocks.bits_bound [of "[[1, 0, 0, 0, 0, 0, 0, 0]]"] dense_example_ok(2)
    by (force simp: pauli_from_bits_def projective_from_bits_def block_ok_def)
qed simp

text \<open>The same for sparse operators over any library of sorted sets with the documented contract.\<close>

theorem sparse_string_round_trip:
  assumes "sorted_library S" "sparse_ok S p" "style \<noteq> Tex"
    and "\<forall>i \<in> index_set_bits S (px p) \<union> index_set_bits S (pz p). i + 1 < 2 ^ 64"
  shows "\<exists>s q. pauli_to_string_with (sparse_ops S) p layout style = Some s \<and>
    pauli_from_str (sparse_ops S) s = Some (Inr q) \<and> sparse_sem S q = sparse_sem S p"
proof -
  have bits: "pauli_bits (sparse_ops S) (index_set_ok S) (\<lambda>s. index_set_bits S s) (\<lambda>_. None)"
    using assms(1) by (rule sorted_library.sparse_bits)
  show ?thesis
  proof (cases layout)
    case Dense
    show ?thesis unfolding Dense by (rule pauli_bits.dense_round_trip [OF bits assms(2,3)])
  next
    case Sparse
    show ?thesis unfolding Sparse by (rule pauli_bits.sparse_round_trip [OF bits assms(2,3)]) (use assms(4) in blast)
  qed
qed

theorem sparse_string_round_trip_witness:
  "\<exists>s q. pauli_to_string_with (sparse_ops list_sets) (pauli_from_bits [0] [0] 1) Dense Ascii = Some s \<and>
    pauli_from_str (sparse_ops list_sets) s = Some (Inr q) \<and>
    sparse_sem list_sets q = sparse_sem list_sets (pauli_from_bits [0] [0] 1)"
  by (rule sparse_string_round_trip [OF list_sets.sorted_library_axioms sparse_example_ok(2)])
    (simp_all add: pauli_from_bits_def projective_from_bits_def list_sets_def)

text \<open>The parser checks every digit of an index against overflow, but not the size it allocates: the
  largest index panics instead of being an error, while the next one is the parsing error.\<close>

theorem parse_largest_index_panics:
  "pauli_from_str B (u ''X18446744073709551615'') = None \<and>
   pauli_from_str B (u ''X18446744073709551616'') = Some (Inl PauliStringParsingError)"
  by (simp add: pauli_from_str_def trim_def is_whitespace_def parse_phase_def phase_prefixes_def italic_i_def
      sparse_second_chars_def SUB_CHARS_def subscript_zero_def parse_sparse_pauli_def scan_char_def get_digit_def
      push_entry_def to_ascii_uppercase_def Let_def)

end
