(* ===== verification/Pauli_Conversions.thy ===== *)
theory Pauli_Conversions
  imports Pauli_Core Pauli_Strings "HOL-Library.Multiset"
begin

text \<open>
  Pauli operators built from observables, characters and other operators (\<open>paulimer/src/pauli/sparse.rs\<close>,
  \<open>pauli/dense.rs\<close>), and the operators without a phase, \<open>PauliUnitaryProjective\<close> of
  \<open>pauli/generic.rs\<close>.  A \<open>HashMap\<close> that is only iterated is the list of its entries in the order of the
  iteration, which is arbitrary: its keys are distinct and the theorems hold for every order.
\<close>

section \<open>Operators without a phase\<close>

definition projective_from_bits_tuple :: "'b \<times> 'b \<Rightarrow> 'b pauli_projective" where
  "projective_from_bits_tuple xz_bits = \<lparr> x_bits = fst xz_bits, z_bits = snd xz_bits \<rparr>"

definition pauli_from_bits_tuple :: "'b \<times> 'b \<Rightarrow> u8 \<Rightarrow> 'b pauli_unitary" where
  "pauli_from_bits_tuple bits phase = \<lparr> projective = projective_from_bits_tuple bits, xz_phase_exp = phase \<rparr>"

definition projective_is_pauli_x :: "'b bits_ops \<Rightarrow> 'b pauli_projective \<Rightarrow> nat \<Rightarrow> bool option" where
  "projective_is_pauli_x B p qubit = do { u \<leftarrow> bo_is_unit B (x_bits p) qubit; Some (u \<and> bo_is_zero B (z_bits p)) }"

definition projective_is_pauli_z :: "'b bits_ops \<Rightarrow> 'b pauli_projective \<Rightarrow> nat \<Rightarrow> bool option" where
  "projective_is_pauli_z B p qubit = (if bo_is_zero B (x_bits p) then bo_is_unit B (z_bits p) qubit else Some False)"

definition projective_is_pauli_y :: "'b bits_ops \<Rightarrow> 'b pauli_projective \<Rightarrow> nat \<Rightarrow> bool option" where
  "projective_is_pauli_y B p qubit = do {
     u \<leftarrow> bo_is_unit B (x_bits p) qubit;
     if u then bo_is_unit B (z_bits p) qubit else Some False }"

definition projective_eq :: "'b bits_ops \<Rightarrow> 'b pauli_projective \<Rightarrow> 'b pauli_projective \<Rightarrow> bool" where
  "projective_eq B p other = (bo_eq B (x_bits p) (x_bits other) \<and> bo_eq B (z_bits p) (z_bits other))"

definition projective_to_xz_bits :: "'b pauli_projective \<Rightarrow> 'b \<times> 'b" where
  "projective_to_xz_bits p = (x_bits p, z_bits p)"

definition projective_mul_left_x :: "'b bits_ops \<Rightarrow> nat \<Rightarrow> 'b pauli_projective \<Rightarrow> 'b pauli_projective option" where
  "projective_mul_left_x B q p = map_option (\<lambda>x. p\<lparr>x_bits := x\<rparr>) (bo_negate_index B q (x_bits p))"

definition projective_mul_right_x :: "'b bits_ops \<Rightarrow> nat \<Rightarrow> 'b pauli_projective \<Rightarrow> 'b pauli_projective option" where
  "projective_mul_right_x B q p = map_option (\<lambda>x. p\<lparr>x_bits := x\<rparr>) (bo_negate_index B q (x_bits p))"

definition projective_mul_left_z :: "'b bits_ops \<Rightarrow> nat \<Rightarrow> 'b pauli_projective \<Rightarrow> 'b pauli_projective option" where
  "projective_mul_left_z B q p = map_option (\<lambda>z. p\<lparr>z_bits := z\<rparr>) (bo_negate_index B q (z_bits p))"

definition projective_mul_right_z :: "'b bits_ops \<Rightarrow> nat \<Rightarrow> 'b pauli_projective \<Rightarrow> 'b pauli_projective option" where
  "projective_mul_right_z B q p = map_option (\<lambda>z. p\<lparr>z_bits := z\<rparr>) (bo_negate_index B q (z_bits p))"

definition projective_set_identity :: "'b bits_ops \<Rightarrow> 'b pauli_projective \<Rightarrow> 'b pauli_projective" where
  "projective_set_identity B p = \<lparr> x_bits = bo_clear_bits B (x_bits p), z_bits = bo_clear_bits B (z_bits p) \<rparr>"

definition projective_mul_assign_right :: "'b bits_ops \<Rightarrow> 'b pauli_projective \<Rightarrow> 'b pauli_projective \<Rightarrow> 'b pauli_projective option" where
  "projective_mul_assign_right B rhs p = add_assign_bits B rhs p"

definition projective_mul_assign_left :: "'b bits_ops \<Rightarrow> 'b pauli_projective \<Rightarrow> 'b pauli_projective \<Rightarrow> 'b pauli_projective option" where
  "projective_mul_assign_left B lhs p = add_assign_bits B lhs p"

definition projective_assign :: "'b bits_ops \<Rightarrow> 'b pauli_projective \<Rightarrow> 'b pauli_projective \<Rightarrow> 'b pauli_projective" where
  "projective_assign B rhs p = assign_bits B rhs p"

definition projective_assign_with_offset ::
  "'b bits_ops \<Rightarrow> 'b pauli_projective \<Rightarrow> nat \<Rightarrow> nat \<Rightarrow> 'b pauli_projective \<Rightarrow> 'b pauli_projective option" where
  "projective_assign_with_offset B rhs start_qubit_index num_qubits p = assign_bits_with_offset B rhs start_qubit_index num_qubits p"

definition projective_neutral_element :: "'b bits_ops \<Rightarrow> 'b pauli_projective \<Rightarrow> 'b pauli_projective" where
  "projective_neutral_element B p = projective_from_bits (bo_neutral B (x_bits p)) (bo_neutral B (z_bits p))"

definition projective_neutral_element_of_size :: "'b bits_ops \<Rightarrow> nat \<Rightarrow> 'b pauli_projective" where
  "projective_neutral_element_of_size B n = projective_from_bits (bo_neutral_of_size B n) (bo_neutral_of_size B n)"

text \<open>Conversions between the two: the phase is dropped, or chosen so that the operator is a product of
  the matrices \<open>X\<close>, \<open>Y\<close> and \<open>Z\<close>.  The bits are copied by an argument.\<close>

definition unitary_from_projective :: "'b bits_ops \<Rightarrow> ('b \<Rightarrow> 'c) \<Rightarrow> 'b pauli_projective \<Rightarrow> 'c pauli_unitary" where
  "unitary_from_projective B copy p =
     (let weight = bo_and_weight B (x_bits p) (z_bits p) in
      pauli_from_bits (copy (x_bits p)) (copy (z_bits p)) (of_nat (weight mod 4)))"

definition projective_from_unitary :: "('b \<Rightarrow> 'c) \<Rightarrow> 'b pauli_unitary \<Rightarrow> 'c pauli_projective" where
  "projective_from_unitary copy p = projective_from_bits (copy (px p)) (copy (pz p))"

definition projective_from_bits_of :: "('b \<Rightarrow> 'c) \<Rightarrow> 'b pauli_projective \<Rightarrow> 'c pauli_projective" where
  "projective_from_bits_of from_bits other = projective_from_bits (from_bits (x_bits other)) (from_bits (z_bits other))"

definition unitary_from_bits_of :: "('b \<Rightarrow> 'c) \<Rightarrow> 'b pauli_unitary \<Rightarrow> 'c pauli_unitary" where
  "unitary_from_bits_of from_bits other =
     (let res = pauli_from_bits (from_bits (px other)) (from_bits (pz other)) 0 in
      add_assign_phase_exp (xz_phase_exponent other) res)"

section \<open>Sparse operators from observables, characters and other operators\<close>

text \<open>\<open>phase += n\<close> on a byte: an overflow is a panic in a debug build.\<close>

definition phase_plus :: "u8 \<Rightarrow> u8 \<Rightarrow> u8 option" where
  "phase_plus phase n = (let total = unat phase + unat n in
     do { guard_opt (total < 2 ^ 8); Some (of_nat total) })"

text \<open>\<open>assert!\<close> over the sorted copy: the positions are strictly increasing.\<close>

definition no_repeated_positions :: "positioned_observable list \<Rightarrow> bool" where
  "no_repeated_positions obs =
     (1 < length obs \<longrightarrow> list_all (\<lambda>j. qubit_id (obs ! j) < qubit_id (obs ! (j + 1))) [0..<length obs - 1])"

definition add_observable :: "'s sorted_lib \<Rightarrow> positioned_observable \<Rightarrow> 's \<times> 's \<times> u8 \<Rightarrow> ('s \<times> 's \<times> u8) option" where
  "add_observable S p = (\<lambda>(x_indices, z_indices, phase).
     let q = qubit_id p; put = (\<lambda>s. index_set_assign_index S q True s);
         add = phase_plus phase in
     case observable p of
       PlusI \<Rightarrow> Some (x_indices, z_indices, phase)
     | MinusI \<Rightarrow> map_option (\<lambda>phase. (x_indices, z_indices, phase)) (add 2)
     | PlusX \<Rightarrow> Some (put x_indices, z_indices, phase)
     | PlusZ \<Rightarrow> Some (x_indices, put z_indices, phase)
     | MinusX \<Rightarrow> map_option (\<lambda>phase. (put x_indices, z_indices, phase)) (add 2)
     | MinusZ \<Rightarrow> map_option (\<lambda>phase. (x_indices, put z_indices, phase)) (add 2)
     | PlusY \<Rightarrow> map_option (\<lambda>phase. (put x_indices, put z_indices, phase)) (add 1)
     | MinusY \<Rightarrow> map_option (\<lambda>phase. (put x_indices, put z_indices, phase)) (add 3))"

definition sparse_from_observables :: "'s sorted_lib \<Rightarrow> positioned_observable list \<Rightarrow> 's pauli_unitary option" where
  "sparse_from_observables S pauli_observable = (let obs_copy = sort pauli_observable in do {
     guard_opt (no_repeated_positions obs_copy);
     (x_indices, z_indices, phase) \<leftarrow> ofold (add_observable S) obs_copy (index_set_new S, index_set_new S, 0);
     Some (pauli_from_bits x_indices z_indices phase) })"

definition add_projective_observable :: "'s sorted_lib \<Rightarrow> positioned_observable \<Rightarrow> 's \<times> 's \<Rightarrow> 's \<times> 's" where
  "add_projective_observable S p = (\<lambda>(x_indices, z_indices).
     let put = (\<lambda>s. index_set_assign_index S (qubit_id p) True s) in
     if observable p \<in> {PlusI, MinusI} then (x_indices, z_indices)
     else if observable p \<in> {PlusX, MinusX} then (put x_indices, z_indices)
     else if observable p \<in> {PlusZ, MinusZ} then (x_indices, put z_indices)
     else (put x_indices, put z_indices))"

definition sparse_projective_from_observables :: "'s sorted_lib \<Rightarrow> positioned_observable list \<Rightarrow> 's pauli_projective option" where
  "sparse_projective_from_observables S pauli_observable = (let obs_copy = sort pauli_observable in do {
     guard_opt (no_repeated_positions obs_copy);
     let (x_indices, z_indices) = fold (add_projective_observable S) obs_copy (index_set_new S, index_set_new S);
     Some (projective_from_bits x_indices z_indices) })"

datatype pauli_character_error = PauliCharacterError

definition add_character :: "'s sorted_lib \<Rightarrow> nat \<times> uchar \<Rightarrow> 's \<times> 's \<times> u8 \<Rightarrow> ('s \<times> 's \<times> u8) option" where
  "add_character S = (\<lambda>(index, character) (xs, zs, exponent).
     let put = (\<lambda>s. index_set_assign_index S index True s) in
     if character \<in> set (u ''Xx'') then Some (put xs, zs, exponent)
     else if character \<in> set (u ''Zz'') then Some (xs, put zs, exponent)
     else if character \<in> set (u ''Yy'') then Some (put xs, put zs, exponent + 1)
     else if character \<in> set (u ''I'') then Some (xs, zs, exponent)
     else None)"

definition sparse_from_characters :: "'s sorted_lib \<Rightarrow> (nat \<times> uchar) list \<Rightarrow> pauli_character_error + 's pauli_unitary" where
  "sparse_from_characters S characters = (case ofold (add_character S) characters (index_set_new S, index_set_new S, 0) of
     None \<Rightarrow> Inl PauliCharacterError
   | Some (xs, zs, exponent) \<Rightarrow> Inr (pauli_from_bits xs zs exponent))"

definition remapped_sparse :: "'s sorted_lib \<Rightarrow> 'b bits_ops \<Rightarrow> 'b pauli_unitary \<Rightarrow> nat list \<Rightarrow> 's pauli_unitary option" where
  "remapped_sparse S B p support_list = do {
     xs \<leftarrow> map_option (index_set_from_iter S) (omap (nth_opt support_list) (bo_support B (px p)));
     zs \<leftarrow> map_option (index_set_from_iter S) (omap (nth_opt support_list) (bo_support B (pz p)));
     Some (pauli_from_bits xs zs (xz_phase_exponent p)) }"

definition as_sparse :: "'s sorted_lib \<Rightarrow> 'b bits_ops \<Rightarrow> 'b pauli_unitary \<Rightarrow> 's pauli_unitary" where
  "as_sparse S B p = pauli_from_bits (index_set_from_ref S (bo_support B (px p))) (index_set_from_ref S (bo_support B (pz p)))
     (xz_phase_exponent p)"

definition as_sparse_projective :: "'s sorted_lib \<Rightarrow> 'b bits_ops \<Rightarrow> 'b pauli_projective \<Rightarrow> 's pauli_projective" where
  "as_sparse_projective S B p =
     projective_from_bits (index_set_from_ref S (bo_support B (x_bits p))) (index_set_from_ref S (bo_support B (z_bits p)))"

section \<open>Dense operators\<close>

text \<open>\<open>assign\<close> of an operator of the other storage: an argument copies its bits.\<close>

definition pauli_assign_from ::
  "('c \<Rightarrow> 'b \<Rightarrow> 'b option) \<Rightarrow> 'c pauli_unitary \<Rightarrow> 'b pauli_unitary \<Rightarrow> 'b pauli_unitary option" where
  "pauli_assign_from copy rhs p = do {
     let p = assign_phase_exp (xz_phase_exponent rhs) p;
     x \<leftarrow> copy (px rhs) (px p);
     z \<leftarrow> copy (pz rhs) (pz p);
     Some (p\<lparr>projective := \<lparr> x_bits = x, z_bits = z \<rparr>\<rparr>) }"

definition dense_assign_set :: "'s sorted_lib \<Rightarrow> 's \<Rightarrow> bitblock list \<Rightarrow> bitblock list option" where
  "dense_assign_set S = bits_assign_set (bo_clear_bits dense_ops) (bo_assign_index dense_ops) S"

definition dense_from_observables :: "'s sorted_lib \<Rightarrow> positioned_observable list \<Rightarrow> bitblock list pauli_unitary option" where
  "dense_from_observables S value = do {
     r \<leftarrow> sparse_from_observables S value;
     case projective_max_support (sparse_ops S) (projective r) of
       Some max_id \<Rightarrow> pauli_assign_from (dense_assign_set S) r (pauli_neutral_element_of_size dense_ops (max_id + 1))
     | None \<Rightarrow> Some (pauli_neutral_element_of_size dense_ops 0) }"

definition dense_from :: "('c \<Rightarrow> bitblock list \<Rightarrow> bitblock list option) \<Rightarrow> 'c pauli_unitary \<Rightarrow> nat \<Rightarrow> bitblock list pauli_unitary option" where
  "dense_from copy p n = pauli_assign_from copy p (pauli_neutral_element_of_size dense_ops n)"

text \<open>The mapping of \<open>condense_from\<close> is the list of its entries; indexing panics on a missing key.\<close>

definition condense_bits :: "(nat \<times> nat) list \<Rightarrow> nat list \<Rightarrow> bitblock list option" where
  "condense_bits mapping support = ofold (\<lambda>index bits. do {
     i \<leftarrow> map_of mapping index;
     bo_assign_index dense_ops i True bits }) support (aligned_zeros (length mapping))"

definition condense_from :: "'b bits_ops \<Rightarrow> 'b pauli_unitary \<Rightarrow> (nat \<times> nat) list \<Rightarrow> bitblock list pauli_unitary option" where
  "condense_from B p mapping = do {
     xs \<leftarrow> condense_bits mapping (bo_support B (px p));
     zs \<leftarrow> condense_bits mapping (bo_support B (pz p));
     Some (pauli_from_bits xs zs (xz_phase_exponent p)) }"

section \<open>Observables on distinct qubits\<close>

text \<open>The operator a list of observables stands for is their product; on distinct qubits it has a closed
  form and the order does not matter.\<close>

definition observables_op :: "positioned_observable list \<Rightarrow> pauli_op" where
  "observables_op obs = foldr (\<lambda>p. pmul (observable_op p)) obs pone"

definition xqubits :: "positioned_observable set \<Rightarrow> nat set" where
  "xqubits P = qubit_id ` {p \<in> P. observable_x (observable p)}"

definition zqubits :: "positioned_observable set \<Rightarrow> nat set" where
  "zqubits P = qubit_id ` {p \<in> P. observable_z (observable p)}"

definition total_phase :: "positioned_observable list \<Rightarrow> nat" where
  "total_phase obs = sum_list (map (\<lambda>p. observable_phase (observable p)) obs)"

lemma qubits_insert: "xqubits (insert p P) = (if observable_x (observable p) then insert (qubit_id p) (xqubits P) else xqubits P)"
    "zqubits (insert p P) = (if observable_z (observable p) then insert (qubit_id p) (zqubits P) else zqubits P)"
    "xqubits {} = {}" "zqubits {} = {}"
  by (auto simp: xqubits_def zqubits_def)

lemma total_phase_simps [simp]: "total_phase [] = 0" "total_phase (p # obs) = observable_phase (observable p) + total_phase obs"
  by (simp_all add: total_phase_def)

lemma total_phase_perm: "mset obs = mset obs' \<Longrightarrow> total_phase obs = total_phase obs'"
  unfolding total_phase_def by (metis mset_map sum_mset_sum_list)

lemma observables_op_distinct:
  assumes "distinct (map qubit_id obs)"
  shows "observables_op obs = (xqubits (set obs), zqubits (set obs), of_nat (total_phase obs))"
  using assms
proof (induction obs)
  case Nil
  then show ?case by (simp add: observables_op_def pone_def qubits_insert)
next
  case (Cons p obs)
  have out: "qubit_id p \<notin> xqubits (set obs)" "qubit_id p \<notin> zqubits (set obs)"
    using Cons.prems by (auto simp: xqubits_def zqubits_def)
  have "observables_op (p # obs) = pmul (observable_op p) (xqubits (set obs), zqubits (set obs), of_nat (total_phase obs))"
    using Cons by (simp add: observables_op_def)
  also have "\<dots> = (xqubits (set (p # obs)), zqubits (set (p # obs)), of_nat (total_phase (p # obs)))"
    using out by (auto simp: pmul_def observable_op_def qubits_insert)
  finally show ?case .
qed

lemma observables_op_perm:
  assumes "distinct (map qubit_id obs)" "mset obs = mset obs'"
  shows "observables_op obs = observables_op obs'"
proof -
  have "distinct (map qubit_id obs')" using assms by (metis mset_eq_imp_distinct_iff mset_map)
  then show ?thesis
    using observables_op_distinct assms total_phase_perm [OF assms(2)] by (metis set_mset_mset)
qed

lemma no_repeated_positions_iff: "no_repeated_positions (sort obs) \<longleftrightarrow> distinct (map qubit_id obs)"
proof -
  let ?qs = "map qubit_id (sort obs)"
  have "sorted ?qs"
    by (rule sorted_map_mono [OF sorted_sort]) (auto simp: mono_on_def less_eq_positioned_observable_def)
  moreover have "distinct ?qs \<longleftrightarrow> distinct (map qubit_id obs)"
    by (metis mset_eq_imp_distinct_iff mset_map mset_sort)
  moreover have "no_repeated_positions (sort obs) \<longleftrightarrow> (\<forall>i. Suc i < length ?qs \<longrightarrow> ?qs ! i < ?qs ! Suc i)"
    by (auto simp: no_repeated_positions_def list_all_iff less_diff_conv)
  moreover have "(\<forall>i. Suc i < length ?qs \<longrightarrow> ?qs ! i < ?qs ! Suc i) \<longleftrightarrow> sorted_wrt (<) ?qs"
    by (rule sorted_wrt_iff_nth_Suc_transp [symmetric]) (rule transp_on_less)
  ultimately show ?thesis unfolding strict_sorted_iff by blast
qed

lemma phase_plus_run: "phase_plus a b = (if unat b + unat a \<le> 255 then Some (b + a) else None)"
    "unat a + unat b \<le> 255 \<Longrightarrow> unat (b + a) = unat a + unat b"
  by (auto simp: phase_plus_def guard_opt_def Let_def add.commute unat_word_ariths)

lemma u8_bound: "unat (k :: u8) < 256"
  using unsigned_less [of k, where ?'a = nat] by simp

lemma ph_of_unat: "ph k = of_nat (unat k)"
  unfolding ph_def by (rule bit_word_eqI) (simp add: bit_simps)

context sorted_library
begin

lemma put_index: "index_set_ok S s \<Longrightarrow> index_set_ok S (index_set_assign_index S i True s)"
    "index_set_ok S s \<Longrightarrow> index_set_bits S (index_set_assign_index S i True s) = insert i (index_set_bits S s)"
  by (simp_all add: element_updates)

lemma add_observable_run:
  assumes "index_set_ok S x" "index_set_ok S z"
  shows "if unat k + observable_phase (observable p) < 256
    then \<exists>x' z' k'. add_observable S p (x, z, k) = Some (x', z', k') \<and> index_set_ok S x' \<and> index_set_ok S z' \<and>
      index_set_bits S x' = xqubits {p} \<union> index_set_bits S x \<and> index_set_bits S z' = zqubits {p} \<union> index_set_bits S z \<and>
      unat k' = unat k + observable_phase (observable p)
    else add_observable S p (x, z, k) = None"
proof -
  note le = u8_bound [of k]
  show ?thesis
    using assms put_index le phase_plus_run(2) [of k 1] phase_plus_run(2) [of k 2] phase_plus_run(2) [of k 3]
    by (cases "observable p") (auto simp: add_observable_def phase_plus_run(1) qubits_insert Let_def)
qed

lemma add_observables_run:
  assumes "index_set_ok S x" "index_set_ok S z"
  shows "if unat k + total_phase obs < 256
    then \<exists>x' z' k'. ofold (add_observable S) obs (x, z, k) = Some (x', z', k') \<and> index_set_ok S x' \<and> index_set_ok S z' \<and>
      index_set_bits S x' = xqubits (set obs) \<union> index_set_bits S x \<and> index_set_bits S z' = zqubits (set obs) \<union> index_set_bits S z \<and>
      unat k' = unat k + total_phase obs
    else ofold (add_observable S) obs (x, z, k) = None"
  using assms
proof (induction obs arbitrary: x z k)
  case Nil
  then show ?case using u8_bound [of k] by (simp add: qubits_insert)
next
  case (Cons p obs)
  show ?case
  proof (cases "unat k + observable_phase (observable p) < 256")
    case True
    then obtain x1 z1 k1 where one: "add_observable S p (x, z, k) = Some (x1, z1, k1)" "index_set_ok S x1" "index_set_ok S z1"
      "index_set_bits S x1 = xqubits {p} \<union> index_set_bits S x" "index_set_bits S z1 = zqubits {p} \<union> index_set_bits S z"
      "unat k1 = unat k + observable_phase (observable p)"
      using add_observable_run [OF Cons.prems, of k p] by auto
    have un: "xqubits (set (p # obs)) = xqubits (set obs) \<union> xqubits {p}" "zqubits (set (p # obs)) = zqubits (set obs) \<union> zqubits {p}"
      by (auto simp: qubits_insert)
    show ?thesis using Cons.IH [OF one(2,3), of k1] one(1,4-6) unfolding un by (auto split: if_splits)
  next
    case False
    then show ?thesis using add_observable_run [OF Cons.prems, of k p] by simp
  qed
qed

lemma sparse_from_observables_run:
  "if distinct (map qubit_id obs) \<and> total_phase obs < 256
   then \<exists>p. sparse_from_observables S obs = Some p \<and> sparse_ok S p \<and> sparse_sem S p = observables_op obs \<and>
     unat (xz_phase_exp p) = total_phase obs
   else sparse_from_observables S obs = None"
proof -
  note empty = constructors(1,2)
  have same: "total_phase (sort obs) = total_phase obs" "set (sort obs) = set obs"
    by (rule total_phase_perm, simp_all)
  note run = add_observables_run [OF empty(1) empty(1), of 0 "sort obs", unfolded same]
  show ?thesis
  proof (cases "distinct (map qubit_id obs) \<and> total_phase obs < 256")
    case True
    then have "\<exists>x z k. ofold (add_observable S) (sort obs) (index_set_new S, index_set_new S, 0) = Some (x, z, k) \<and>
      index_set_ok S x \<and> index_set_ok S z \<and> index_set_bits S x = xqubits (set obs) \<and> index_set_bits S z = zqubits (set obs) \<and>
      unat k = total_phase obs" using run by (simp add: empty(2))
    then obtain x z k where r: "ofold (add_observable S) (sort obs) (index_set_new S, index_set_new S, 0) = Some (x, z, k)"
      "index_set_ok S x" "index_set_ok S z" "index_set_bits S x = xqubits (set obs)" "index_set_bits S z = zqubits (set obs)"
      "unat k = total_phase obs" by blast
    have "sparse_sem S (pauli_from_bits x z k) = observables_op obs"
      using True r by (simp add: psem_def pauli_from_bits_def projective_from_bits_def observables_op_distinct ph_of_unat)
    moreover have "sparse_from_observables S obs = Some (pauli_from_bits x z k)"
      using True r(1) by (simp add: sparse_from_observables_def no_repeated_positions_iff)
    moreover have "sparse_ok S (pauli_from_bits x z k)" "unat (xz_phase_exp (pauli_from_bits x z k)) = total_phase obs"
      using r(2,3,6) by (simp_all add: pauli_ok_def pauli_from_bits_def projective_from_bits_def)
    ultimately show ?thesis using True by simp
  next
    case False
    then have "sparse_from_observables S obs = None"
      using run by (cases "distinct (map qubit_id obs)") (simp_all add: sparse_from_observables_def no_repeated_positions_iff)
    with False show ?thesis by simp
  qed
qed

end

section \<open>Characters\<close>

definition character_observable :: "uchar \<Rightarrow> pauli_observable option" where
  "character_observable c = (if c \<in> set (u ''Xx'') then Some PlusX else if c \<in> set (u ''Zz'') then Some PlusZ
     else if c \<in> set (u ''Yy'') then Some PlusY else if c \<in> set (u ''I'') then Some PlusI else None)"

definition valid_characters :: "(nat \<times> uchar) list \<Rightarrow> bool" where
  "valid_characters cs = list_all (\<lambda>ic. character_observable (snd ic) \<noteq> None) cs"

definition placed :: "nat \<times> uchar \<Rightarrow> positioned_observable" where
  "placed = (\<lambda>(i, c). Positioned i (the (character_observable c)))"

context sorted_library
begin

lemma add_character_run:
  assumes "index_set_ok S x" "index_set_ok S z"
  shows "case character_observable c of None \<Rightarrow> add_character S (i, c) (x, z, k) = None
    | Some a \<Rightarrow> \<exists>x' z' k'. add_character S (i, c) (x, z, k) = Some (x', z', k') \<and> index_set_ok S x' \<and> index_set_ok S z' \<and>
      index_set_bits S x' = xqubits {Positioned i a} \<union> index_set_bits S x \<and>
      index_set_bits S z' = zqubits {Positioned i a} \<union> index_set_bits S z \<and> ph k' = ph k + of_nat (observable_phase a)"
  using assms put_index by (auto simp: character_observable_def add_character_def qubits_insert Let_def)

lemma add_characters_run:
  assumes "index_set_ok S x" "index_set_ok S z"
  shows "if valid_characters cs
    then \<exists>x' z' k'. ofold (add_character S) cs (x, z, k) = Some (x', z', k') \<and> index_set_ok S x' \<and> index_set_ok S z' \<and>
      index_set_bits S x' = xqubits (placed ` set cs) \<union> index_set_bits S x \<and>
      index_set_bits S z' = zqubits (placed ` set cs) \<union> index_set_bits S z \<and>
      ph k' = ph k + of_nat (total_phase (map placed cs))
    else ofold (add_character S) cs (x, z, k) = None"
  using assms
proof (induction cs arbitrary: x z k)
  case Nil
  then show ?case by (simp add: qubits_insert valid_characters_def)
next
  case (Cons ic cs)
  obtain i c where ic: "ic = (i, c)" by force
  show ?case
  proof (cases "character_observable c")
    case (Some a)
    obtain x1 z1 k1 where one: "add_character S (i, c) (x, z, k) = Some (x1, z1, k1)" "index_set_ok S x1" "index_set_ok S z1"
      "index_set_bits S x1 = xqubits {Positioned i a} \<union> index_set_bits S x"
      "index_set_bits S z1 = zqubits {Positioned i a} \<union> index_set_bits S z" "ph k1 = ph k + of_nat (observable_phase a)"
      using add_character_run [OF Cons.prems, of i c k] Some by auto
    have pl: "placed ic = Positioned i a" by (simp add: placed_def ic Some)
    have un: "xqubits (placed ` set (ic # cs)) = xqubits (placed ` set cs) \<union> xqubits {Positioned i a}"
      "zqubits (placed ` set (ic # cs)) = zqubits (placed ` set cs) \<union> zqubits {Positioned i a}"
      by (auto simp: qubits_insert pl)
    show ?thesis
      using Cons.IH [OF one(2,3), of k1] one(1,4-6) Some unfolding un
      by (cases "valid_characters cs") (simp_all add: valid_characters_def ic pl [unfolded ic] add_ac Un_assoc)
  next
    case None
    then show ?thesis using add_character_run [OF Cons.prems, of i c k] by (simp add: ic valid_characters_def)
  qed
qed

lemma sparse_from_characters_run:
  assumes "distinct (map fst cs)"
  shows "if valid_characters cs
    then \<exists>p. sparse_from_characters S cs = Inr p \<and> sparse_ok S p \<and> sparse_sem S p = observables_op (map placed cs)
    else sparse_from_characters S cs = Inl PauliCharacterError"
proof (cases "valid_characters cs")
  case True
  then have "\<exists>x z k. ofold (add_character S) cs (index_set_new S, index_set_new S, 0) = Some (x, z, k) \<and>
      index_set_ok S x \<and> index_set_ok S z \<and> index_set_bits S x = xqubits (placed ` set cs) \<and>
      index_set_bits S z = zqubits (placed ` set cs) \<and> ph k = of_nat (total_phase (map placed cs))"
    using add_characters_run [OF constructors(1) constructors(1), of cs 0] by (simp add: constructors(2))
  then obtain x z k where r: "ofold (add_character S) cs (index_set_new S, index_set_new S, 0) = Some (x, z, k)"
      "index_set_ok S x" "index_set_ok S z" "index_set_bits S x = xqubits (placed ` set cs)"
      "index_set_bits S z = zqubits (placed ` set cs)" "ph k = of_nat (total_phase (map placed cs))"
    by blast
  have "map qubit_id (map placed cs) = map fst cs" by (simp add: placed_def split_beta)
  then have d: "distinct (map qubit_id (map placed cs))" using assms by metis
  have "sparse_sem S (pauli_from_bits x z k) = observables_op (map placed cs)"
    unfolding observables_op_distinct [OF d] using r(4-6)
    by (simp add: psem_def pauli_from_bits_def projective_from_bits_def)
  moreover have "sparse_ok S (pauli_from_bits x z k)"
    using r(2,3) by (simp add: pauli_ok_def pauli_from_bits_def projective_from_bits_def)
  ultimately show ?thesis using True r(1) by (simp add: sparse_from_characters_def)
next
  case False
  then have "ofold (add_character S) cs (index_set_new S, index_set_new S, 0) = None"
    using add_characters_run [OF constructors(1) constructors(1), of cs 0] unfolding if_not_P [OF False] by blast
  then show ?thesis unfolding if_not_P [OF False] by (simp add: sparse_from_characters_def)
qed

end

section \<open>Copies between the two storages\<close>

context pauli_bits
begin

lemma assign_all:
  assumes "ok b" "\<And>i. i \<in> set is \<Longrightarrow> within (cap b) i"
  shows "\<exists>b'. ofold (\<lambda>i. bo_assign_index B i True) is b = Some b' \<and> ok b' \<and> cap b' = cap b \<and> bset b' = set is \<union> bset b"
  using assms
proof (induction "is" arbitrary: b)
  case (Cons i "is")
  obtain b1 where b1: "bo_assign_index B i True b = Some b1" "ok b1" "cap b1 = cap b" "bset b1 = insert i (bset b)"
    using assign_index [of b i True] Cons.prems by auto
  then obtain b2 where "ofold (\<lambda>i. bo_assign_index B i True) is b1 = Some b2" "ok b2" "cap b2 = cap b1" "bset b2 = set is \<union> bset b1"
    using Cons.IH [of b1] Cons.prems by auto
  with b1 show ?case by auto
qed simp

lemma bits_assign_set_run:
  assumes "ok b" "\<And>i. i \<in> index_set_bits S s \<Longrightarrow> within (cap b) i"
  shows "\<exists>b'. bits_assign_set (bo_clear_bits B) (bo_assign_index B) S s b = Some b' \<and> ok b' \<and> cap b' = cap b \<and>
    bset b' = index_set_bits S s"
  using assign_all [of "bo_clear_bits B b" "ss_items S s"] clear_bits [OF assms(1)] assms(2) by (auto simp: bits_assign_set_def)

lemma assign_from_run:
  assumes "copy (px q) (px p) = Some x" "copy (pz q) (pz p) = Some z" "ok x" "ok z" "cap z = cap x"
  shows "\<exists>r. pauli_assign_from copy q p = Some r \<and> unitary_ok ok cap r \<and> pcap cap r = cap x \<and>
    psem bset r = (bset x, bset z, ph (xz_phase_exp q))"
  using assms by (simp add: pauli_assign_from_def assign_phase_exp_def psimps xz_phase_exponent_def phase_value_def)

lemma max_support_bounds:
  assumes "pauli_ok ok cap p"
  shows "projective_max_support B p = None \<longleftrightarrow> bset (x_bits p) = {} \<and> bset (z_bits p) = {}"
    "projective_max_support B p = Some m \<Longrightarrow> i \<in> bset (x_bits p) \<union> bset (z_bits p) \<Longrightarrow> i \<le> m"
  using assms max_support [of "x_bits p"] max_support [of "z_bits p"] bset_finite [of "x_bits p"] bset_finite [of "z_bits p"]
    Max_ge [of "bset (x_bits p)" i] Max_ge [of "bset (z_bits p)" i]
  by (auto simp: projective_max_support_def max_opt_def pauli_ok_def le_max_iff_disj split: if_splits)

end

context sorted_library
begin

lemma dense_assign_sparse:
  assumes "\<And>i. i \<in> index_set_bits S (px r) \<union> index_set_bits S (pz r) \<Longrightarrow> i < n"
  shows "\<exists>d. pauli_assign_from (dense_assign_set S) r (pauli_neutral_element_of_size dense_ops n) = Some d \<and>
    dense_ok d \<and> pcap dense_cap d = pcap dense_cap (pauli_neutral_element_of_size dense_ops n) \<and> dense_sem d = sparse_sem S r"
proof -
  let ?n = "pauli_neutral_element_of_size dense_ops n"
  have n: "blocks_ok (px ?n)" "blocks_ok (pz ?n)" "dense_cap (pz ?n) = dense_cap (px ?n)"
    using dense.neutral_ok(1) [of n] by (simp_all add: pauli_ok_def)
  have w: "within (dense_cap (px ?n)) i" "within (dense_cap (pz ?n)) i"
    if "i \<in> index_set_bits S (px r) \<union> index_set_bits S (pz r)" for i
    using dense.neutral_ok(3) [OF assms [OF that]] n(3) by (simp_all add: pcap_def)
  obtain x where x: "dense_assign_set S (px r) (px ?n) = Some x" "blocks_ok x" "dense_cap x = dense_cap (px ?n)"
      "dense_bits x = index_set_bits S (px r)"
    using dense.bits_assign_set_run [OF n(1), of S "px r"] w(1) unfolding dense_assign_set_def by blast
  obtain z where z: "dense_assign_set S (pz r) (pz ?n) = Some z" "blocks_ok z" "dense_cap z = dense_cap (pz ?n)"
      "dense_bits z = index_set_bits S (pz r)"
    using dense.bits_assign_set_run [OF n(2), of S "pz r"] w(2) unfolding dense_assign_set_def by blast
  have "dense_cap z = dense_cap x" using x(3) z(3) n(3) by metis
  from dense.assign_from_run [OF x(1) z(1) x(2) z(2) this] show ?thesis
    using x(3,4) z(4) by (auto simp: psem_def pcap_def)
qed

lemma dense_from_observables_run:
  assumes "sparse_from_observables S obs = Some r" "sparse_ok S r"
  shows "\<exists>d. dense_from_observables S obs = Some d \<and> dense_ok d \<and>
    dense_sem d = (if index_set_bits S (px r) = {} \<and> index_set_bits S (pz r) = {} then pone else sparse_sem S r)"
proof (cases "projective_max_support (sparse_ops S) (projective r)")
  case None
  with sparse.max_support_bounds(1) [OF assms(2)] assms(1) dense.neutral_ok(1,2) [of 0] show ?thesis
    by (simp add: dense_from_observables_def)
next
  case (Some m)
  note b = sparse.max_support_bounds [OF assms(2)]
  have lt: "i < m + 1" if "i \<in> index_set_bits S (px r) \<union> index_set_bits S (pz r)" for i
    using b(2) [OF Some that] by simp
  have ne: "\<not> (index_set_bits S (px r) = {} \<and> index_set_bits S (pz r) = {})" using b(1) Some by auto
  show ?thesis
    unfolding dense_from_observables_def assms(1) if_not_P [OF ne]
    using dense_assign_sparse [of r "m + 1"] lt Some by auto
qed

lemma as_sparse_run:
  assumes "pauli_bits B ok bset cap" "unitary_ok ok cap p"
  shows "sparse_ok S (as_sparse S B p) \<and> sparse_sem S (as_sparse S B p) = psem bset p"
proof -
  have "bo_support B (px p) = sorted_list_of_set (bset (px p))" "bo_support B (pz p) = sorted_list_of_set (bset (pz p))"
    "finite (bset (px p))" "finite (bset (pz p))"
    using pauli_bits.support [OF assms(1)] pauli_bits.bset_finite [OF assms(1)] assms(2) by (auto simp: pauli_ok_def)
  then show ?thesis
    by (simp add: as_sparse_def pauli_ok_def pauli_from_bits_def projective_from_bits_def index_set_ok_def index_set_from_ref_def
        items_from_sorted psem_def xz_phase_exponent_def phase_value_def)
qed

end

text \<open>Operators without a phase are the operators up to phase: every product projects, and the lift is the
  operator of order two over the same bits.\<close>

context pauli_bits
begin

lemma projective_products:
  assumes "unitary_ok ok cap p" "unitary_ok ok cap q" "pcap cap p = pcap cap q"
    and "mul_assign_right B q p = Some r" "mul_assign_left B q p = Some l"
  shows "\<exists>s. projective_mul_assign_right B (projective q) (projective p) = Some s \<and>
    projective_mul_assign_left B (projective q) (projective p) = Some s \<and> pauli_ok ok cap s \<and>
    projective_eq B s (projective r) \<and> projective_eq B s (projective l)"
proof -
  obtain s where s: "add_assign_bits B (projective q) (projective p) = Some s" "pauli_ok ok cap s" "cap (x_bits s) = cap (px p)"
    "bset (x_bits s) = sym_diff (bset (px p)) (bset (px q))" "bset (z_bits s) = sym_diff (bset (pz p)) (bset (pz q))"
    using projective_add [OF assms(1,2) assms(3) [unfolded pcap_def]] by blast
  have r: "unitary_ok ok cap r" "pcap cap r = pcap cap p" "psem bset r = pmul (psem bset p) (psem bset q)"
    using mul_right [OF assms(1-3)] assms(4) by auto
  have l: "unitary_ok ok cap l" "pcap cap l = pcap cap p" "psem bset l = pmul (psem bset q) (psem bset p)"
    using mul_left [OF assms(1-3)] assms(5) by auto
  show ?thesis
    using s r l by (auto simp: projective_mul_assign_right_def projective_mul_assign_left_def projective_eq_def psimps pmul_def eq)
qed

lemma projective_single:
  assumes "pauli_ok ok cap p" "within (cap (x_bits p)) i"
  shows "\<exists>r. projective_mul_left_x B i p = Some r \<and> pauli_ok ok cap r \<and>
      bset (x_bits r) = toggle i (bset (x_bits p)) \<and> z_bits r = z_bits p"
    "\<exists>r. projective_mul_left_z B i p = Some r \<and> pauli_ok ok cap r \<and>
      x_bits r = x_bits p \<and> bset (z_bits r) = toggle i (bset (z_bits p))"
    "projective_mul_right_x B i p = projective_mul_left_x B i p"
    "projective_mul_right_z B i p = projective_mul_left_z B i p"
  using assms negate_index [of "x_bits p" i] negate_index [of "z_bits p" i]
  by (auto simp: projective_mul_left_x_def projective_mul_left_z_def projective_mul_right_x_def projective_mul_right_z_def pauli_ok_def)

lemma unitary_from_projective_run:
  assumes "pauli_ok ok cap p" "ok (copy (x_bits p))" "ok (copy (z_bits p))" "bset (copy (x_bits p)) = bset (x_bits p)"
    "bset (copy (z_bits p)) = bset (z_bits p)" "cap (copy (z_bits p)) = cap (copy (x_bits p))"
  shows "unitary_ok ok cap (unitary_from_projective B copy p) \<and>
    pmul (psem bset (unitary_from_projective B copy p)) (psem bset (unitary_from_projective B copy p)) = pone"
proof -
  let ?n = "card (bset (x_bits p) \<inter> bset (z_bits p))"
  have w: "bo_and_weight B (x_bits p) (z_bits p) = ?n" using and_weight assms(1) by (simp add: pauli_ok_def)
  have n4: "?n mod 4 < 4" by simp
  then have even: "even (?n mod 4) = even ?n" by (simp add: even_iff_mod_2_eq_zero mod_mod_cancel)
  have "ph (of_nat (?n mod 4)) + ph (of_nat (?n mod 4)) = sgn_phase (odd ?n)"
  proof -
    consider "?n mod 4 = 0" | "?n mod 4 = 1" | "?n mod 4 = 2" | "?n mod 4 = 3" using n4 by linarith
    then show ?thesis using even by cases (simp_all add: sgn_phase_def)
  qed
  then show ?thesis
    using assms by (simp add: unitary_from_projective_def w psimps pauli_from_bits_def projective_from_bits_def
        pmul_def pone_def par_def Int_commute sgn_phase_def split: if_splits)
qed

end

section \<open>Properties\<close>

lemma trivial_observables:
  "xqubits (set obs) = {} \<and> zqubits (set obs) = {} \<longleftrightarrow> list_all (\<lambda>p. observable p \<in> {PlusI, MinusI}) obs"
proof (induction obs)
  case (Cons p obs)
  then show ?case by (cases "observable p") (auto simp: qubits_insert)
qed (simp add: qubits_insert)

text \<open>C26. A list of observables becomes a sparse operator exactly when no qubit is repeated and the phases
  add up to less than 256; the operator is then the product of the observables, which does not depend
  on their order, and otherwise the conversion panics.\<close>

theorem sparse_observables_product:
  assumes "sorted_library S"
  shows "if distinct (map qubit_id obs) \<and> total_phase obs < 256
    then \<exists>p. sparse_from_observables S obs = Some p \<and> sparse_ok S p \<and> sparse_sem S p = observables_op obs \<and>
      sparse_from_observables S (rev obs) = Some p
    else sparse_from_observables S obs = None"
proof -
  have "sort (rev obs) = sort obs" by (rule properties_for_sort) simp_all
  then have "sparse_from_observables S (rev obs) = sparse_from_observables S obs"
    by (simp add: sparse_from_observables_def)
  then show ?thesis
    using sorted_library.sparse_from_observables_run [OF assms, of obs]
    by (cases "distinct (map qubit_id obs) \<and> total_phase obs < 256") auto
qed

theorem sparse_observables_product_witness:
  "\<exists>p. sparse_from_observables list_sets [positioned_y 5, positioned_neg (positioned_x 2)] = Some p \<and> sparse_ok list_sets p \<and>
    sparse_sem list_sets p = observables_op [positioned_y 5, positioned_neg (positioned_x 2)]"
  using sparse_observables_product [OF list_sets.sorted_library_axioms, of "[positioned_y 5, positioned_neg (positioned_x 2)]"]
  by (auto simp: positioned_y_def positioned_x_def positioned_neg_def)

text \<open>C27. The dense operator built from the same list has the same action, except that a list without any
  \<open>X\<close>, \<open>Y\<close> or \<open>Z\<close> always becomes the positive identity: the signs of its identities are lost.\<close>

theorem dense_observables_product:
  assumes "sorted_library S" "distinct (map qubit_id obs)" "total_phase obs < 256"
  shows "\<exists>s d. sparse_from_observables S obs = Some s \<and> dense_from_observables S obs = Some d \<and> dense_ok d \<and>
    sparse_sem S s = observables_op obs \<and>
    dense_sem d = (if list_all (\<lambda>p. observable p \<in> {PlusI, MinusI}) obs then pone else observables_op obs)"
proof -
  obtain s where s: "sparse_from_observables S obs = Some s" "sparse_ok S s" "sparse_sem S s = observables_op obs"
    using sorted_library.sparse_from_observables_run [OF assms(1), of obs] assms(2,3) by auto
  have "index_set_bits S (px s) = xqubits (set obs)" "index_set_bits S (pz s) = zqubits (set obs)"
    using s(3) unfolding observables_op_distinct [OF assms(2)] psem_def by simp_all
  with sorted_library.dense_from_observables_run [OF assms(1) s(1,2)] s show ?thesis
    using trivial_observables [of obs] by auto
qed

theorem dense_observables_product_witness:
  "\<exists>s d. sparse_from_observables list_sets [positioned_neg (positioned_id 3)] = Some s \<and>
    dense_from_observables list_sets [positioned_neg (positioned_id 3)] = Some d \<and> dense_ok d \<and>
    sparse_sem list_sets s = pphase 2 pone \<and> dense_sem d = pone"
  using dense_observables_product [OF list_sets.sorted_library_axioms, of "[positioned_neg (positioned_id 3)]"]
  by (simp add: positioned_id_def positioned_neg_def observables_op_def observable_op_def pone_def pphase_def pmul_def)

text \<open>The conversion of a \<open>HashMap\<close> of characters does not depend on the order of its iteration.\<close>

theorem sparse_characters_any_order:
  assumes "sorted_library S" "distinct (map fst cs)" "mset ds = mset cs"
  shows "if valid_characters cs
    then \<exists>p q. sparse_from_characters S cs = Inr p \<and> sparse_from_characters S ds = Inr q \<and>
      pauli_eq (sparse_ops S) p q \<and> sparse_sem S p = observables_op (map placed cs)
    else sparse_from_characters S cs = Inl PauliCharacterError \<and> sparse_from_characters S ds = Inl PauliCharacterError"
proof -
  have d: "distinct (map fst ds)" using assms(2,3) by (metis mset_eq_imp_distinct_iff mset_map)
  have v: "valid_characters ds = valid_characters cs"
    unfolding valid_characters_def list_all_iff by (metis assms(3) set_mset_mset)
  have q: "distinct (map qubit_id (map placed cs))"
    using assms(2) by (simp add: placed_def split_beta comp_def)
  have same: "observables_op (map placed ds) = observables_op (map placed cs)"
    using observables_op_perm [OF q, of "map placed ds"] assms(3) by (simp add: mset_map)
  note run = sorted_library.sparse_from_characters_run [OF assms(1,2)] sorted_library.sparse_from_characters_run [OF assms(1) d]
  show ?thesis
  proof (cases "valid_characters cs")
    case True
    then obtain p q where "sparse_from_characters S cs = Inr p" "sparse_ok S p" "sparse_sem S p = observables_op (map placed cs)"
      "sparse_from_characters S ds = Inr q" "sparse_ok S q" "sparse_sem S q = observables_op (map placed cs)"
      using run v same by auto
    with True pauli_bits.equality [OF sorted_library.sparse_bits [OF assms(1)]] show ?thesis by (auto simp: pcap_def)
  next
    case False
    with run v show ?thesis by simp
  qed
qed

end
