(* ===== verification/Pauli_Spaces.thy ===== *)
theory Pauli_Spaces
  imports Pauli_Conversions Linear_Systems
begin

text \<open>
  Sets of Pauli operators up to phase (\<open>paulimer/src/pauli/algorithms.rs\<close>, \<open>setwise.rs\<close>): the matrix with
  one row of \<open>x\<close> and \<open>z\<close> bits per operator, the comparison of two generating sets and the completion of
  independent operators to a basis.  The theorems state both in terms of the group the operators
  generate: pairs of finite sets under symmetric difference.
\<close>

section \<open>Sorted slices\<close>

text \<open>The functions of \<open>setwise.rs\<close> require strictly increasing slices in debug builds and use the third-party
  iterators of \<open>sorted_iter\<close>.\<close>

definition as_sorted_iter :: "nat list \<Rightarrow> nat list option" where
  "as_sorted_iter values = do { guard_opt (ascending values); Some values }"

definition setwise_union :: "'s sorted_lib \<Rightarrow> nat list \<Rightarrow> nat list \<Rightarrow> nat list option" where
  "setwise_union S v1 v2 = do { v1 \<leftarrow> as_sorted_iter v1; v2 \<leftarrow> as_sorted_iter v2; Some (si_union S v1 v2) }"

definition setwise_is_subset :: "'s sorted_lib \<Rightarrow> nat list \<Rightarrow> nat list \<Rightarrow> bool option" where
  "setwise_is_subset S v1 v2 = do { v1 \<leftarrow> as_sorted_iter v1; v2 \<leftarrow> as_sorted_iter v2; Some (si_is_subset S v1 v2) }"

definition setwise_intersection :: "'s sorted_lib \<Rightarrow> nat list \<Rightarrow> nat list \<Rightarrow> nat list option" where
  "setwise_intersection S v1 v2 = do { v1 \<leftarrow> as_sorted_iter v1; v2 \<leftarrow> as_sorted_iter v2; Some (si_intersection S v1 v2) }"

definition setwise_complement :: "'s sorted_lib \<Rightarrow> nat list \<Rightarrow> nat \<Rightarrow> nat list option" where
  "setwise_complement S v index_bound = do { values \<leftarrow> as_sorted_iter v; Some (si_difference S [0..<index_bound] values) }"

definition setwise_symmetric_difference :: "'s sorted_lib \<Rightarrow> nat list \<Rightarrow> nat list \<Rightarrow> nat list option" where
  "setwise_symmetric_difference S v1 v2 =
     do { v1 \<leftarrow> as_sorted_iter v1; v2 \<leftarrow> as_sorted_iter v2; Some (si_symmetric_difference S v1 v2) }"

section \<open>Matrices of operators\<close>

definition bitmatrix_from_paulis :: "'b bits_ops \<Rightarrow> 'b pauli_projective list \<Rightarrow> nat \<Rightarrow> aligned_bitmatrix option" where
  "bitmatrix_from_paulis B paulis n =
     ofold (\<lambda>(row_index, p) result. do {
       result \<leftarrow> ofold (\<lambda>x_column_index. mat_set (row_index, x_column_index) True) (bo_support B (x_bits p)) result;
       ofold (\<lambda>z_column_index. mat_set (row_index, n + z_column_index) True) (bo_support B (z_bits p)) result })
     (enumerate 0 paulis) (mat_zeros (length paulis) (2 * n))"

text \<open>\<open>==\<close> on rows compares the lengths and the blocks.\<close>

definition rows_equal :: "aligned_bitmatrix \<Rightarrow> aligned_bitmatrix \<Rightarrow> nat \<Rightarrow> bool option" where
  "rows_equal a b k = do {
     row_left \<leftarrow> mat_row a k;
     row_right \<leftarrow> mat_row b k;
     Some (column_count a = column_count b \<and> row_left = row_right) }"

definition are_the_same_group_up_to_phases ::
  "'b bits_ops \<Rightarrow> 'c bits_ops \<Rightarrow> 'b pauli_projective list \<Rightarrow> 'c pauli_projective list \<Rightarrow> bool option" where
  "are_the_same_group_up_to_phases B B' paulis_left paulis_right =
     (let n = paulis_qubit_count B paulis_left in
      if paulis_qubit_count B' paulis_right \<noteq> n then Some False
      else do {
        matrix_left \<leftarrow> bitmatrix_from_paulis B paulis_left n;
        matrix_right \<leftarrow> bitmatrix_from_paulis B' paulis_right n;
        (matrix_left, left_rank_profile) \<leftarrow> echelonize matrix_left;
        (matrix_right, right_rank_profile) \<leftarrow> echelonize matrix_right;
        let rank = length left_rank_profile;
        if rank = length right_rank_profile then
          map_option Not (first_true (\<lambda>k. map_option Not (rows_equal matrix_left matrix_right k))
            [0..<min rank (min (row_count matrix_left) (row_count matrix_right))])
        else Some False })"

definition complete_to_full_pauli_basis ::
  "'s sorted_lib \<Rightarrow> 'b bits_ops \<Rightarrow> ('b \<Rightarrow> bitblock list \<Rightarrow> bitblock list option) \<Rightarrow> 'b pauli_unitary list \<Rightarrow> nat \<Rightarrow>
    bitblock list pauli_unitary list option" where
  "complete_to_full_pauli_basis S B copy paulis n = do {
     paulis_as_bitmatrix \<leftarrow> bitmatrix_from_paulis B (map projective paulis) n;
     (_, rank_profile) \<leftarrow> echelonize paulis_as_bitmatrix;
     guard_opt (length rank_profile = length paulis);
     rank_profile_complement \<leftarrow> setwise_complement S rank_profile (2 * n);
     result \<leftarrow> omap (\<lambda>pauli. pauli_assign_from copy pauli (pauli_neutral_element_of_size dense_ops n)) paulis;
     rest \<leftarrow> omap (\<lambda>column_index. if column_index < n then pauli_x dense_ops column_index n
         else pauli_z dense_ops (column_index - n) n) rank_profile_complement;
     Some (result @ rest) }"

section \<open>The group of operators up to phase\<close>

type_synonym pauli_class = "nat set \<times> nat set"

definition pxor :: "pauli_class \<Rightarrow> pauli_class \<Rightarrow> pauli_class" where
  "pxor P Q = (sym_diff (fst P) (fst Q), sym_diff (snd P) (snd Q))"

inductive_set generated :: "pauli_class set \<Rightarrow> pauli_class set" for G where
  one: "({}, {}) \<in> generated G"
| mul: "P \<in> generated G \<Longrightarrow> Q \<in> G \<Longrightarrow> pxor P Q \<in> generated G"

definition class_of :: "('b \<Rightarrow> nat set) \<Rightarrow> 'b pauli_projective \<Rightarrow> pauli_class" where
  "class_of bset p = (bset (x_bits p), bset (z_bits p))"

definition below :: "nat \<Rightarrow> pauli_class set" where
  "below n = {P. fst P \<subseteq> {..<n} \<and> snd P \<subseteq> {..<n}}"

lemma pxor_simps [simp]: "pxor ({}, {}) P = P" "pxor P ({}, {}) = P" "pxor P P = ({}, {})"
  by (simp_all add: pxor_def)

lemma pxor_assoc: "pxor (pxor P Q) R = pxor P (pxor Q R)"
  unfolding pxor_def fst_conv snd_conv sym_diff_assoc ..

lemma pxor_below [simp]: "P \<in> below n \<Longrightarrow> Q \<in> below n \<Longrightarrow> pxor P Q \<in> below n" "({}, {}) \<in> below n"
  by (auto simp: below_def pxor_def)

lemma generated_base: "Q \<in> G \<Longrightarrow> Q \<in> generated G"
  using generated.mul [OF generated.one, of Q G] by simp

lemma generated_mul: "Q \<in> generated G \<Longrightarrow> P \<in> generated G \<Longrightarrow> pxor P Q \<in> generated G"
proof (induction rule: generated.induct)
  case (mul Q R)
  then show ?case using generated.mul [of "pxor P Q" G R] by (simp add: pxor_assoc)
qed simp

lemma generated_least: "P \<in> generated G \<Longrightarrow> G \<subseteq> generated H \<Longrightarrow> P \<in> generated H"
  by (induction rule: generated.induct) (auto intro: generated.one generated_mul)

lemma generated_below: "P \<in> generated G \<Longrightarrow> G \<subseteq> below n \<Longrightarrow> P \<in> below n"
  by (induction rule: generated.induct) auto

text \<open>The vector of an operator: its \<open>x\<close> bits, then its \<open>z\<close> bits.\<close>

definition encode :: "nat \<Rightarrow> pauli_class \<Rightarrow> bvec" where
  "encode n P j = (j < n \<and> j \<in> fst P \<or> n \<le> j \<and> j - n \<in> snd P)"

definition decode :: "nat \<Rightarrow> bvec \<Rightarrow> pauli_class" where
  "decode n v = ({j. j < n \<and> v j}, {j. j < n \<and> v (n + j)})"

lemma encode_pxor: "encode n (pxor P Q) j = (encode n P j \<noteq> encode n Q j)"
  by (auto simp: encode_def pxor_def)

lemma decode_encode: "P \<in> below n \<Longrightarrow> decode n (encode n P) = P"
  by (cases P) (auto simp: decode_def encode_def below_def)

lemma encode_decode: "j < 2 * n \<Longrightarrow> encode n (decode n v) j = v j"
  by (auto simp: decode_def encode_def)

lemma encode_high: "P \<in> below n \<Longrightarrow> 2 * n \<le> j \<Longrightarrow> \<not> encode n P j"
  by (auto simp: encode_def below_def)

lemma decode_below [simp]: "decode n v \<in> below n"
  by (auto simp: decode_def below_def)

lemma decode_cong: "(\<And>j. j < 2 * n \<Longrightarrow> v j = w j) \<Longrightarrow> decode n v = decode n w"
  by (auto simp: decode_def)

lemma decode_xor: "decode n (\<lambda>j. v j \<noteq> w j) = pxor (decode n v) (decode n w)"
  by (auto simp: decode_def pxor_def)

lemma comb_xor: "comb r (\<lambda>k. c k \<noteq> d k) A j = (comb r c A j \<noteq> comb r d A j)"
  unfolding comb_def by (rule xsum_dist_left)

lemma comb_unit: "i < r \<Longrightarrow> comb r (\<lambda>k. k = i) A j = A i j"
  by (simp add: comb_def xsum_deltas)

text \<open>Row space and generated group are the same thing.\<close>

lemma row_space_generated:
  assumes "set Ps \<subseteq> below n" "\<And>i. i < length Ps \<Longrightarrow> A i = encode n (Ps ! i)"
  shows "in_row_space (length Ps) (2 * n) A v \<longleftrightarrow> decode n v \<in> generated (set Ps)"
proof
  have comb: "decode n (comb m c A) \<in> generated (set Ps)" if "m \<le> length Ps" for m c
    using that
  proof (induction m)
    case 0
    have "decode n (comb 0 c A) = ({}, {})" by (simp add: decode_def comb_def)
    then show ?case by (simp add: generated.one)
  next
    case (Suc m)
    have at: "Ps ! m \<in> set Ps" "Ps ! m \<in> below n" "A m = encode n (Ps ! m)" using Suc.prems assms nth_mem [of m Ps] by auto
    have "comb (Suc m) c A = (\<lambda>j. comb m c A j \<noteq> (c m \<and> A m j))" by (auto simp: comb_def fun_eq_iff)
    then have "decode n (comb (Suc m) c A) = pxor (decode n (comb m c A)) (decode n (\<lambda>j. c m \<and> A m j))"
      by (simp only: decode_xor)
    moreover have "decode n (\<lambda>j. c m \<and> A m j) = (if c m then Ps ! m else ({}, {}))"
      using decode_encode [OF at(2)] at(3) by (auto simp: decode_def)
    ultimately show ?case using Suc at(1) by (auto intro: generated.mul)
  qed
  assume "in_row_space (length Ps) (2 * n) A v"
  then obtain c where "\<And>j. j < 2 * n \<Longrightarrow> v j = comb (length Ps) c A j" by (auto simp: in_row_space_def)
  then have "decode n v = decode n (comb (length Ps) c A)" by (rule decode_cong)
  then show "decode n v \<in> generated (set Ps)" using comb by simp
next
  have "\<exists>c. \<forall>j < 2 * n. encode n P j = comb (length Ps) c A j" if "P \<in> generated (set Ps)" for P
    using that
  proof (induction rule: generated.induct)
    case one
    show ?case by (intro exI [of _ "\<lambda>_. False"]) (simp add: encode_def comb_def)
  next
    case (mul P Q)
    then obtain c i where "\<forall>j < 2 * n. encode n P j = comb (length Ps) c A j" "i < length Ps" "Q = Ps ! i"
      by (auto simp: in_set_conv_nth)
    then show ?case
      by (intro exI [of _ "\<lambda>k. c k \<noteq> (k = i)"]) (simp only: encode_pxor comb_xor comb_unit assms(2), simp)
  qed
  moreover assume "decode n v \<in> generated (set Ps)"
  ultimately obtain c where "\<forall>j < 2 * n. encode n (decode n v) j = comb (length Ps) c A j" by blast
  then show "in_row_space (length Ps) (2 * n) A v" by (auto simp: in_row_space_def encode_decode)
qed

lemma row_space_card_generated:
  assumes "set Ps \<subseteq> below n" "\<And>i. i < length Ps \<Longrightarrow> A i = encode n (Ps ! i)"
  shows "card (row_space (length Ps) (2 * n) A) = card (generated (set Ps))"
proof -
  have "bij_betw (encode n) (generated (set Ps)) (row_space (length Ps) (2 * n) A)"
  proof (rule bij_betwI')
    fix P Q assume "P \<in> generated (set Ps)" "Q \<in> generated (set Ps)"
    then show "(encode n P = encode n Q) = (P = Q)" by (metis assms(1) decode_encode generated_below)
  next
    fix P assume P: "P \<in> generated (set Ps)"
    then have "P \<in> below n" using assms(1) generated_below by blast
    then show "encode n P \<in> row_space (length Ps) (2 * n) A"
      using P by (simp add: row_space_def row_space_generated [OF assms] decode_encode encode_high)
  next
    fix v assume v: "v \<in> row_space (length Ps) (2 * n) A"
    then have "decode n v \<in> generated (set Ps)" by (simp add: row_space_def row_space_generated [OF assms])
    moreover have "v = encode n (decode n v)"
    proof
      fix j show "v j = encode n (decode n v) j"
        using v encode_high [OF decode_below, of n j v] by (cases "j < 2 * n") (auto simp: encode_decode row_space_def not_less)
    qed
    ultimately show "\<exists>P \<in> generated (set Ps). v = encode n P" by blast
  qed
  then show ?thesis by (rule bij_betw_same_card [symmetric])
qed

section \<open>The matrix of a list of operators\<close>

lemma qubit_count_fold: "fold max (map f xs) a = Max (insert a (f ` set xs))" for a :: nat
proof (induction xs arbitrary: a)
  case (Cons x xs)
  have "Max (insert (max (f x) a) (f ` set xs)) = Max (insert a (insert (f x) (f ` set xs)))"
    by (cases "set xs = {}") (simp_all add: max.left_commute max.commute)
  with Cons show ?case by simp
qed simp

context pauli_bits
begin

abbreviation "row_class \<equiv> class_of bset"

lemma bitmatrix_run:
  assumes "\<And>p. p \<in> set ps \<Longrightarrow> pauli_ok ok cap p \<and> row_class p \<in> below n"
  shows "\<exists>m. bitmatrix_from_paulis B ps n = Some m \<and> mat_ok m \<and> row_count m = length ps \<and> mat_cols m = 2 * n \<and>
    (\<forall>i < length ps. mat_bit m i = encode n (row_class (ps ! i)))"
proof -
  let ?z = "mat_zeros (length ps) (2 * n)"
  let ?P = "\<lambda>k t. same_shape t ?z \<and> mat_bit t = (\<lambda>i j. i < k \<and> encode n (row_class (ps ! i)) j)"
  let ?f = "\<lambda>(row_index, p) result. do {
       result \<leftarrow> ofold (\<lambda>x_column_index. mat_set (row_index, x_column_index) True) (bo_support B (x_bits p)) result;
       ofold (\<lambda>z_column_index. mat_set (row_index, n + z_column_index) True) (bo_support B (z_bits p)) result }"
  have "\<exists>t. ofold ?f (enumerate 0 ps) ?z = Some t \<and> ?P (length (enumerate 0 ps)) t"
  proof (rule ofold_inv)
    show "?P 0 ?z" by (simp add: same_shape_refl mat_zeros_ok)
    fix k t assume "k < length (enumerate 0 ps)" and t: "?P k t"
    then have k: "k < length ps" "enumerate 0 ps ! k = (k, ps ! k)" by (simp_all add: nth_enumerate_eq)
    let ?p = "ps ! k"
    have p: "pauli_ok ok cap ?p" "row_class ?p \<in> below n" using assms [OF nth_mem [OF k(1)]] by simp_all
    have sup: "bo_support B (x_bits ?p) = sorted_list_of_set (bset (x_bits ?p))" "finite (bset (x_bits ?p))"
      "bo_support B (z_bits ?p) = sorted_list_of_set (bset (z_bits ?p))" "finite (bset (z_bits ?p))"
      using p(1) support bset_finite by (simp_all add: pauli_ok_def)
    have sh: "mat_ok t" "row_count t = length ps" "mat_cols t = 2 * n" using t by (simp_all add: same_shape_def mat_zeros_ok)
    have x: "k < row_count t \<and> j < mat_cols t" if "j \<in> set (bo_support B (x_bits ?p))" for j
      using that sup p(2) k(1) sh by (auto simp: class_of_def below_def)
    obtain t1 where t1: "ofold (\<lambda>j. mat_set (k, j) True) (bo_support B (x_bits ?p)) t = Some t1" "same_shape t1 t"
      "mat_bit t1 = (\<lambda>i j. (\<exists>l \<in> set (bo_support B (x_bits ?p)). k = i \<and> l = j) \<or> mat_bit t i j)"
      using amat.set_true_list [where f = "\<lambda>_. k" and g = "\<lambda>j. j", OF sh(1) x] by auto
    have sh1: "mat_ok t1" "row_count t1 = length ps" "mat_cols t1 = 2 * n" using t1(2) sh by (simp_all add: same_shape_def)
    have z: "k < row_count t1 \<and> n + j < mat_cols t1" if "j \<in> set (bo_support B (z_bits ?p))" for j
      using that sup p(2) k(1) sh1 by (auto simp: class_of_def below_def)
    obtain t2 where t2: "ofold (\<lambda>j. mat_set (k, n + j) True) (bo_support B (z_bits ?p)) t1 = Some t2" "same_shape t2 t1"
      "mat_bit t2 = (\<lambda>i j. (\<exists>l \<in> set (bo_support B (z_bits ?p)). k = i \<and> n + l = j) \<or> mat_bit t1 i j)"
      using amat.set_true_list [where f = "\<lambda>_. k" and g = "\<lambda>j. n + j", OF sh1(1) z] by auto
    have "mat_bit t2 i j = (i < Suc k \<and> encode n (row_class (ps ! i)) j)" for i j
    proof (cases "i = k")
      case True
      have "(\<exists>l \<in> bset (z_bits ?p). n + l = j) \<longleftrightarrow> n \<le> j \<and> j - n \<in> bset (z_bits ?p)"
        by (metis add_diff_cancel_left' le_add1 le_add_diff_inverse)
      then show ?thesis
        unfolding t2(3) t1(3) using True t sup p(2) by (auto simp: encode_def class_of_def below_def)
    qed (use t in \<open>auto simp: t2(3) t1(3)\<close>)
    then have "mat_bit t2 = (\<lambda>i j. i < Suc k \<and> encode n (row_class (ps ! i)) j)" by (simp add: fun_eq_iff)
    moreover have "same_shape t2 ?z" using t t1(2) t2(2) same_shape_trans by blast
    ultimately show "\<exists>t'. ?f (enumerate 0 ps ! k) t = Some t' \<and> ?P (Suc k) t'"
      unfolding k(2) using t1(1) t2(1) by simp
  qed
  then show ?thesis by (auto simp: bitmatrix_from_paulis_def same_shape_def mat_zeros_ok)
qed

lemma class_below_qubit_count:
  assumes "\<And>p. p \<in> set ps \<Longrightarrow> pauli_ok ok cap p"
  shows "row_class ` set ps \<subseteq> below (paulis_qubit_count B ps)"
    "paulis_qubit_count B ps = (let U = (\<Union>P \<in> row_class ` set ps. fst P \<union> snd P) in if U = {} then 0 else Max U + 1)"
proof -
  let ?U = "\<lambda>p. bset (x_bits p) \<union> bset (z_bits p)"
  have one: "qubit_count B p = (if ?U p = {} then 0 else Max (?U p) + 1)" "finite (?U p)" if "p \<in> set ps" for p
    using assms [OF that] bset_finite [of "x_bits p"] bset_finite [of "z_bits p"]
    by (auto simp: qubit_count_def projective_max_support_def max_opt_def pauli_ok_def max_support Max_Un)
  have bound: "i < paulis_qubit_count B ps" if "p \<in> set ps" "i \<in> ?U p" for p i
  proof -
    have "i < qubit_count B p" using one [OF that(1)] that(2) by (auto simp: less_Suc_eq_le)
    also have "\<dots> \<le> paulis_qubit_count B ps" unfolding paulis_qubit_count_def qubit_count_fold using that(1) by simp
    finally show ?thesis .
  qed
  then show "row_class ` set ps \<subseteq> below (paulis_qubit_count B ps)" by (auto simp: class_of_def below_def)
  let ?V = "\<Union>p \<in> set ps. ?U p"
  have V: "(\<Union>P \<in> row_class ` set ps. fst P \<union> snd P) = ?V" by (simp add: class_of_def)
  have f: "finite ?V" using one(2) by auto
  have "paulis_qubit_count B ps = (if ?V = {} then 0 else Max ?V + 1)"
  proof (cases "?V = {}")
    case True
    then have "qubit_count B p = 0" if "p \<in> set ps" for p using one(1) [OF that] that by auto
    then have "qubit_count B ` set ps \<subseteq> {0}" by auto
    then have "insert 0 (qubit_count B ` set ps) = {0}" by auto
    then have "Max (insert 0 (qubit_count B ` set ps)) = 0" by (metis Max_singleton)
    then show ?thesis using True unfolding paulis_qubit_count_def qubit_count_fold by simp
  next
    case False
    have "Max ?V \<in> ?V" using f False by (rule Max_in)
    then have "Max ?V + 1 \<le> paulis_qubit_count B ps" using bound by (auto simp: Suc_le_eq)
    moreover have "qubit_count B p \<le> Max ?V + 1" if "p \<in> set ps" for p
    proof (cases "?U p = {}")
      case False
      have "Max (?U p) \<le> Max ?V" by (rule Max_mono) (use False f that in auto)
      then show ?thesis using one(1) [OF that] by simp
    qed (use one(1) [OF that] in simp)
    then have "paulis_qubit_count B ps \<le> Max ?V + 1" unfolding paulis_qubit_count_def qubit_count_fold by simp
    ultimately show ?thesis using False by simp
  qed
  then show "paulis_qubit_count B ps = (let U = (\<Union>P \<in> row_class ` set ps. fst P \<union> snd P) in if U = {} then 0 else Max U + 1)"
    unfolding V by simp
qed

end

lemma generated_union: "(\<Union>P \<in> generated G. fst P \<union> snd P) = (\<Union>P \<in> G. fst P \<union> snd P)"
proof
  have "fst P \<union> snd P \<subseteq> (\<Union>P \<in> G. fst P \<union> snd P)" if "P \<in> generated G" for P
    using that by (induction rule: generated.induct) (auto simp: pxor_def)
  then show "(\<Union>P \<in> generated G. fst P \<union> snd P) \<subseteq> (\<Union>P \<in> G. fst P \<union> snd P)" by blast
  show "(\<Union>P \<in> G. fst P \<union> snd P) \<subseteq> (\<Union>P \<in> generated G. fst P \<union> snd P)" using generated_base by blast
qed

lemma first_true_run: "(\<And>x. x \<in> set xs \<Longrightarrow> f x = Some (g x)) \<Longrightarrow> first_true f xs = Some (\<exists>x \<in> set xs. g x)"
  by (induction xs) auto

text \<open>\<open>echelonize\<close> keeps clear padding, so equal entries are equal blocks.\<close>

lemma echelonize_clean:
  assumes "mat_ok m" "mat_clean m"
  shows "\<exists>m' piv. echelonize m = Some (m', piv) \<and> same_shape m' m \<and> mat_clean m' \<and>
    rref (row_count m) (mat_cols m) (mat_bit m') piv \<and>
    (\<forall>v. in_row_space (row_count m) (mat_cols m) (mat_bit m') v = in_row_space (row_count m) (mat_cols m) (mat_bit m) v)"
proof -
  obtain m' piv where e: "echelonize m = Some (m', piv)" "same_shape m' m" "rref (row_count m) (mat_cols m) (mat_bit m') piv"
      "\<forall>v. in_row_space (row_count m) (mat_cols m) (mat_bit m') v = in_row_space (row_count m) (mat_cols m) (mat_bit m) v"
    using echelonize_run [OF assms(1)] by blast
  obtain m2 and ef :: echelon_form where "echelonize m = Some (m2, ef_pivots ef)" "mat_bit (ef_matrix ef) = mat_bit m2"
      "triple_ok (row_count m) (mat_cols m) (mat_bit m) (ef_matrix ef, ef_transform ef, ef_transform_inv_t ef)"
    using echelon_run [OF assms(1)] by blast
  with e(1) have ef: "mat_bit m' = mmul (row_count m) (mat_bit (ef_transform ef)) (mat_bit m)"
    by (simp add: triple_ok_def)
  have "j < mat_cols m'" if "mat_bit m' i j" for i j
  proof (rule ccontr)
    assume "\<not> j < mat_cols m'"
    then have "\<not> mat_bit m k j" for k using assms(2) e(2) by (auto simp: mat_clean_def same_shape_def)
    then have "\<not> mmul (row_count m) (mat_bit (ef_transform ef)) (mat_bit m) i j"
      unfolding mmul_def by (intro xsum_zero) simp
    then show False using that unfolding ef by simp
  qed
  then show ?thesis using e by (auto simp: mat_clean_def)
qed

lemma rows_equal_run:
  assumes "mat_ok a" "mat_ok b" "mat_clean a" "mat_clean b" "mat_cols a = mat_cols b" "k < row_count a" "k < row_count b"
  shows "rows_equal a b k = Some (\<forall>j < mat_cols a. mat_bit a k j = mat_bit b k j)"
proof -
  note ra = row_blocks_ok [OF assms(1,6)] and rb = row_blocks_ok [OF assms(2,7)]
  have "row_blocks a k = row_blocks b k \<longleftrightarrow> dense_bits (row_blocks a k) = dense_bits (row_blocks b k)"
    using ra rb assms(5) by (intro blocks_eq_iff) (simp_all add: rowstride_def)
  also have "\<dots> \<longleftrightarrow> mat_bit a k = mat_bit b k" using row_blocks_bit assms(6,7) by (auto simp: set_eq_iff fun_eq_iff)
  also have "\<dots> \<longleftrightarrow> (\<forall>j < mat_cols a. mat_bit a k j = mat_bit b k j)"
    using assms(3-5) unfolding mat_clean_def fun_eq_iff by metis
  finally show ?thesis
    using mat_row_run [OF assms(1,6)] mat_row_run [OF assms(2,7)] assms(5) by (simp add: rows_equal_def column_count_def)
qed

lemma clean_rows:
  assumes "mat_ok m" "mat_cols m = 2 * n" "\<forall>i < row_count m. mat_bit m i = encode n (Ps ! i)" "set Ps \<subseteq> below n" "length Ps = row_count m"
  shows "mat_clean m"
  unfolding mat_clean_def
proof (intro allI impI)
  fix i j assume b: "mat_bit m i j"
  then have i: "i < row_count m" using mat_bit_bound [OF assms(1)] by blast
  then have "encode n (Ps ! i) j" "Ps ! i \<in> below n" using b assms(3-5) nth_mem [of i Ps] by auto
  then show "j < mat_cols m" using encode_high [of "Ps ! i" n j] assms(2) by (metis not_less)
qed

lemma compare_run:
  assumes "mat_ok a" "mat_ok b" "mat_clean a" "mat_clean b" "mat_cols a = n" "mat_cols b = n"
  shows "\<exists>a' p b' q. echelonize a = Some (a', p) \<and> echelonize b = Some (b', q) \<and>
    (if length p = length q then map_option Not (first_true (\<lambda>k. map_option Not (rows_equal a' b' k))
        [0..<min (length p) (min (row_count a') (row_count b'))]) else Some False) =
    Some (\<forall>v. in_row_space (row_count a) n (mat_bit a) v = in_row_space (row_count b) n (mat_bit b) v)"
proof -
  obtain a' p where a: "echelonize a = Some (a', p)" "same_shape a' a" "mat_clean a'" "rref (row_count a) n (mat_bit a') p"
      "\<forall>v. in_row_space (row_count a) n (mat_bit a') v = in_row_space (row_count a) n (mat_bit a) v"
    using echelonize_clean [OF assms(1,3)] assms(5) by auto
  obtain b' q where b: "echelonize b = Some (b', q)" "same_shape b' b" "mat_clean b'" "rref (row_count b) n (mat_bit b') q"
      "\<forall>v. in_row_space (row_count b) n (mat_bit b') v = in_row_space (row_count b) n (mat_bit b) v"
    using echelonize_clean [OF assms(2,4)] assms(6) by auto
  have sh: "mat_ok a'" "mat_ok b'" "mat_cols a' = n" "mat_cols b' = n" "row_count a' = row_count a" "row_count b' = row_count b"
    using a(2) b(2) assms(5,6) by (simp_all add: same_shape_def)
  have le: "length p \<le> row_count a" "length q \<le> row_count b" using a(4) b(4) by (simp_all add: rref_upto_def)
  let ?same = "\<forall>v. in_row_space (row_count a) n (mat_bit a') v = in_row_space (row_count b) n (mat_bit b') v"
  have spaces: "?same = (\<forall>v. in_row_space (row_count a) n (mat_bit a) v = in_row_space (row_count b) n (mat_bit b) v)"
    using a(5) b(5) by simp
  show ?thesis
  proof (cases "length p = length q")
    case True
    have run: "map_option Not (rows_equal a' b' k) = Some (\<not> (\<forall>j < n. mat_bit a' k j = mat_bit b' k j))"
      if "k < length p" for k
      using rows_equal_run [OF sh(1,2) a(3) b(3)] sh that le True by simp
    have m: "min (length p) (min (row_count a') (row_count b')) = length p" using le True sh by simp
    have "first_true (\<lambda>k. map_option Not (rows_equal a' b' k)) [0..<length p] =
        Some (\<exists>k \<in> set [0..<length p]. \<not> (\<forall>j < n. mat_bit a' k j = mat_bit b' k j))"
      by (rule first_true_run) (use run in simp)
    moreover have "(\<forall>k < length p. \<forall>j < n. mat_bit a' k j = mat_bit b' k j) = ?same"
    proof
      assume "\<forall>k < length p. \<forall>j < n. mat_bit a' k j = mat_bit b' k j"
      then show ?same using rref_same_rows [OF a(4) b(4) True] by blast
    next
      assume ?same
      then show "\<forall>k < length p. \<forall>j < n. mat_bit a' k j = mat_bit b' k j"
        using rref_unique(2) [OF a(4) b(4)] by blast
    qed
    ultimately show ?thesis
      unfolding spaces [symmetric] using a(1) b(1) True m by (intro exI conjI) (assumption+, auto)
  next
    case False
    then have "\<not> ?same" using rref_unique(1) [OF a(4) b(4)] by auto
    then show ?thesis unfolding spaces [symmetric] using a(1) b(1) False by (intro exI conjI) (assumption+, simp)
  qed
qed

section \<open>Completion\<close>

text \<open>The generator of column \<open>j\<close>: \<open>X\<close> on qubit \<open>j\<close>, from \<open>n\<close> on \<open>Z\<close> on qubit \<open>j - n\<close>.\<close>

definition unit_class :: "nat \<Rightarrow> nat \<Rightarrow> pauli_class" where
  "unit_class n j = (if j < n then ({j}, {}) else ({}, {j - n}))"

lemma decode_unit: "j < 2 * n \<Longrightarrow> decode n (\<lambda>i. i = j) = unit_class n j"
  by (auto simp: decode_def unit_class_def)

lemma generated_units:
  assumes "\<And>j. j \<in> set L \<Longrightarrow> j < 2 * n \<and> unit_class n j \<in> G" "\<And>j. j < 2 * n \<Longrightarrow> w j \<Longrightarrow> j \<in> set L"
  shows "decode n w \<in> generated G"
  using assms
proof (induction L arbitrary: w)
  case Nil
  have "\<not> w j" if "j < 2 * n" for j using Nil.prems(2) [OF that] by auto
  then have "decode n w = ({}, {})" by (simp add: decode_def)
  then show ?case by (simp add: generated.one)
next
  case (Cons a L)
  let ?w = "\<lambda>j. j \<noteq> a \<and> w j"
  have "decode n ?w \<in> generated G" by (rule Cons.IH) (use Cons.prems in auto)
  moreover have "decode n w = (if w a then pxor (decode n ?w) (unit_class n a) else decode n ?w)"
  proof (cases "w a")
    case True
    then have "w = (\<lambda>j. ?w j \<noteq> (j = a))" by auto
    then have "decode n w = decode n (\<lambda>j. ?w j \<noteq> (j = a))" by (rule arg_cong)
    with True show ?thesis using decode_unit [of a n] Cons.prems(1) [of a] by (simp only: decode_xor) simp
  next
    case False
    then have "w = ?w" by auto
    with False show ?thesis by simp
  qed
  ultimately show ?case using Cons.prems(1) [of a] by (auto intro: generated.mul)
qed

text \<open>A reduced matrix and the unit vectors of the other columns generate everything.\<close>

lemma rref_units_generate:
  assumes "rref r (2 * n) A piv" "set Ps \<subseteq> below n" "\<And>v. in_row_space r (2 * n) A v = (decode n v \<in> generated (set Ps))"
    and "set Ps \<subseteq> G" "\<And>j. j \<in> set (others (2 * n) piv) \<Longrightarrow> unit_class n j \<in> G"
  shows "below n \<subseteq> generated G"
proof
  fix P assume P: "P \<in> below n"
  let ?v = "encode n P"
  let ?u = "comb (length piv) (\<lambda>k. ?v (piv ! k)) A"
  have piv: "?u (piv ! k) = ?v (piv ! k)" if "k < length piv" for k
    using rref_comb_pivot [OF assms(1) that] rref_comb_low [OF assms(1) rref_pivot(1) [OF assms(1) that]] by simp
  have "in_row_space r (2 * n) A ?u"
    unfolding in_row_space_def using rref_comb_low [OF assms(1)] by metis
  then have "decode n ?u \<in> generated (set Ps)" using assms(3) by blast
  then have u: "decode n ?u \<in> generated G" by (rule generated_least) (use assms(4) generated_base in blast)
  have w: "decode n (\<lambda>j. ?u j \<noteq> ?v j) \<in> generated G"
  proof (rule generated_units)
    show "j < 2 * n \<and> unit_class n j \<in> G" if "j \<in> set (others (2 * n) piv)" for j
      using that assms(5) by (simp add: others_def)
    show "j \<in> set (others (2 * n) piv)" if "j < 2 * n" "?u j \<noteq> ?v j" for j
    proof -
      have "j \<notin> set piv" using piv that(2) by (auto simp: in_set_conv_nth)
      with that(1) show ?thesis by (simp add: others_def)
    qed
  qed
  have "P = pxor (decode n ?u) (decode n (\<lambda>j. ?u j \<noteq> ?v j))"
  proof -
    have "decode n ?v = decode n (\<lambda>j. ?u j \<noteq> (?u j \<noteq> ?v j))" by (rule decode_cong) auto
    then show ?thesis unfolding decode_xor by (simp only: decode_encode [OF P])
  qed
  then show "P \<in> generated G" using u w by (metis generated_mul)
qed

lemma dense_unit:
  assumes "j < 2 * n"
  shows "\<exists>r. (if j < n then pauli_x dense_ops j n else pauli_z dense_ops (j - n) n) = Some r \<and> dense_ok r \<and>
    class_of dense_bits (projective r) = unit_class n j"
proof -
  let ?e = "pauli_neutral_element_of_size dense_ops n"
  note e = dense.neutral_ok(1,2) [of n]
  have w: "within (pcap dense_cap ?e) (if j < n then j else j - n)" by (rule dense.neutral_ok(3)) (use assms in auto)
  obtain x where x: "j < n \<Longrightarrow> pauli_x dense_ops j n = Some x \<and> dense_ok x \<and> dense_sem x = xop j"
    using dense.left_x [OF e(1), of j] w e(2) by (cases "j < n") (auto simp: pauli_x_def)
  obtain z where z: "\<not> j < n \<Longrightarrow> pauli_z dense_ops (j - n) n = Some z \<and> dense_ok z \<and> dense_sem z = zop (j - n)"
    using dense.left_z [OF e(1), of "j - n"] w e(2) by (cases "j < n") (auto simp: pauli_z_def)
  show ?thesis using x z by (cases "j < n") (auto simp: class_of_def unit_class_def psem_def xop_def zop_def)
qed

lemma setwise_complement_run:
  assumes "sorted_library S" "ascending v" "set v \<subseteq> {..<n}"
  shows "setwise_complement S v n = Some (others n v)"
proof -
  have "ascending (others n v)" "set (others n v) = {..<n} - set v"
    by (auto simp: others_def strict_sorted_iff intro: sorted_wrt_filter)
  moreover have "ascending [0..<n]" by (simp add: strict_sorted_iff)
  ultimately show ?thesis
    using sorted_library.iter_difference [OF assms(1), of "[0..<n]" v] assms(2) ascending_eq_set [of "others n v"]
    by (auto simp: setwise_complement_def as_sorted_iter_def lessThan_atLeast0)
qed

section \<open>Properties\<close>

text \<open>C24. \<open>are_the_same_group_up_to_phases\<close> decides whether two lists of operators generate the same group up
  to phases, for any two storages that keep their contract; it never panics.\<close>

theorem same_group_decides:
  assumes left: "pauli_bits B ok bset cap" "\<And>p. p \<in> set ps \<Longrightarrow> pauli_ok ok cap p"
    and right: "pauli_bits B' ok' bset' cap'" "\<And>q. q \<in> set qs \<Longrightarrow> pauli_ok ok' cap' q"
  shows "are_the_same_group_up_to_phases B B' ps qs =
    Some (generated (class_of bset ` set ps) = generated (class_of bset' ` set qs))"
proof -
  let ?G = "generated (class_of bset ` set ps)" and ?H = "generated (class_of bset' ` set qs)"
  let ?n = "paulis_qubit_count B ps"
  have nl: "class_of bset ` set ps \<subseteq> below ?n"
      "?n = (let U = (\<Union>P \<in> class_of bset ` set ps. fst P \<union> snd P) in if U = {} then 0 else Max U + 1)"
    using pauli_bits.class_below_qubit_count [OF left(1)] left(2) by blast+
  have nr: "class_of bset' ` set qs \<subseteq> below (paulis_qubit_count B' qs)"
      "paulis_qubit_count B' qs = (let U = (\<Union>P \<in> class_of bset' ` set qs. fst P \<union> snd P) in if U = {} then 0 else Max U + 1)"
    using pauli_bits.class_below_qubit_count [OF right(1)] right(2) by blast+
  show ?thesis
  proof (cases "paulis_qubit_count B' qs = ?n")
    case False
    have "?G \<noteq> ?H"
    proof
      assume "?G = ?H"
      then have "(\<Union>P \<in> ?G. fst P \<union> snd P) = (\<Union>P \<in> ?H. fst P \<union> snd P)" by (rule arg_cong)
      then have "paulis_qubit_count B ps = paulis_qubit_count B' qs"
        unfolding nl(2) nr(2) generated_union by (simp only:)
      with False show False by simp
    qed
    with False show ?thesis by (simp add: are_the_same_group_up_to_phases_def)
  next
    case True
    note nr = nr [unfolded True]
    let ?Ps = "map (class_of bset) ps" and ?Qs = "map (class_of bset') qs"
    have sub: "set ?Ps \<subseteq> below ?n" "set ?Qs \<subseteq> below ?n" using nl(1) nr(1) by simp_all
    obtain a where a: "bitmatrix_from_paulis B ps ?n = Some a" "mat_ok a" "row_count a = length ps" "mat_cols a = 2 * ?n"
        "\<forall>i < length ps. mat_bit a i = encode ?n (?Ps ! i)"
      using pauli_bits.bitmatrix_run [OF left(1), of ps ?n] left(2) nl(1) by auto
    obtain b where b: "bitmatrix_from_paulis B' qs ?n = Some b" "mat_ok b" "row_count b = length qs" "mat_cols b = 2 * ?n"
        "\<forall>i < length qs. mat_bit b i = encode ?n (?Qs ! i)"
      using pauli_bits.bitmatrix_run [OF right(1), of qs ?n] right(2) nr(1) by auto
    have clean: "mat_clean a" "mat_clean b"
      using clean_rows [OF a(2,4) _ sub(1)] clean_rows [OF b(2,4) _ sub(2)] a(3,5) b(3,5) by simp_all
    obtain a' p b' q where e: "echelonize a = Some (a', p)" "echelonize b = Some (b', q)"
        "(if length p = length q then map_option Not (first_true (\<lambda>k. map_option Not (rows_equal a' b' k))
        [0..<min (length p) (min (row_count a') (row_count b'))]) else Some False) =
    Some (\<forall>v. in_row_space (row_count a) (2 * ?n) (mat_bit a) v = in_row_space (row_count b) (2 * ?n) (mat_bit b) v)"
      using compare_run [OF a(2) b(2) clean a(4) b(4)] by blast
    have "in_row_space (row_count a) (2 * ?n) (mat_bit a) v = (decode ?n v \<in> ?G)"
      "in_row_space (row_count b) (2 * ?n) (mat_bit b) v = (decode ?n v \<in> ?H)" for v
      using row_space_generated [OF sub(1), of "mat_bit a" v] row_space_generated [OF sub(2), of "mat_bit b" v] a(3,5) b(3,5)
      by simp_all
    moreover have "(\<forall>v. (decode ?n v \<in> ?G) = (decode ?n v \<in> ?H)) \<longleftrightarrow> ?G = ?H"
    proof
      assume all: "\<forall>v. (decode ?n v \<in> ?G) = (decode ?n v \<in> ?H)"
      have "P \<in> ?G \<longleftrightarrow> P \<in> ?H" for P
        using all decode_encode [of P ?n] generated_below [of P _ ?n] nl(1) nr(1) by metis
      then show "?G = ?H" by blast
    qed simp
    ultimately show ?thesis
      using True a(1) b(1) e by (simp add: are_the_same_group_up_to_phases_def Let_def)
  qed
qed

theorem same_group_decides_witness:
  "are_the_same_group_up_to_phases dense_ops (sparse_ops list_sets) [projective dense_x0, projective dense_y0]
      [projective (pauli_from_bits [0] [] 0)] =
    Some (generated (class_of dense_bits ` set [projective dense_x0, projective dense_y0]) =
      generated (class_of (index_set_bits list_sets) ` set [projective (pauli_from_bits [0] [] 0)]))"
proof (rule same_group_decides [OF dense.pauli_bits_axioms _ list_sets.sparse_bits])
  show "pauli_ok blocks_ok dense_cap p" if "p \<in> set [projective dense_x0, projective dense_y0]" for p
    using that dense_example_ok by auto
  show "pauli_ok (index_set_ok list_sets) (\<lambda>_. None) q" if "q \<in> set [projective (pauli_from_bits [0] [] 0)]" for q
    using that sparse_example_ok(1) by auto
qed

text \<open>C25. \<open>complete_to_full_pauli_basis\<close> on sparse operators that act on the first \<open>n\<close> qubits only: it panics
  exactly when the operators are dependent up to phase; otherwise it returns \<open>2 n\<close> dense operators that
  start with the given ones, phases included, and generate all operators on \<open>n\<close> qubits up to phase.\<close>

theorem completion_generates:
  assumes "sorted_library S" "\<And>p. p \<in> set ps \<Longrightarrow> sparse_ok S p \<and> class_of (index_set_bits S) (projective p) \<in> below n"
  shows "if card (generated (class_of (index_set_bits S) ` projective ` set ps)) = 2 ^ length ps
    then \<exists>rs. complete_to_full_pauli_basis S (sparse_ops S) (dense_assign_set S) ps n = Some rs \<and> length rs = 2 * n \<and>
      (\<forall>r \<in> set rs. dense_ok r) \<and> map dense_sem (take (length ps) rs) = map (sparse_sem S) ps \<and>
      generated (class_of dense_bits ` projective ` set rs) = below n
    else complete_to_full_pauli_basis S (sparse_ops S) (dense_assign_set S) ps n = None"
proof -
  note bits = sorted_library.sparse_bits [OF assms(1)]
  let ?C = "class_of (index_set_bits S)" and ?D = "class_of dense_bits"
  let ?Ps = "map ?C (map projective ps)"
  have sub: "set ?Ps \<subseteq> below n" using assms(2) by auto
  obtain m where m: "bitmatrix_from_paulis (sparse_ops S) (map projective ps) n = Some m" "mat_ok m" "row_count m = length ps"
      "mat_cols m = 2 * n" "\<forall>i < length ps. mat_bit m i = encode n (?Ps ! i)"
    using pauli_bits.bitmatrix_run [OF bits, of "map projective ps" n] assms(2) by auto
  have clean: "mat_clean m" by (rule clean_rows [OF m(2,4) _ sub]) (use m(3,5) in simp_all)
  obtain m' piv where e: "echelonize m = Some (m', piv)" "rref (length ps) (2 * n) (mat_bit m') piv"
      "\<forall>v. in_row_space (length ps) (2 * n) (mat_bit m') v = in_row_space (length ps) (2 * n) (mat_bit m) v"
    using echelonize_clean [OF m(2) clean] unfolding m(3,4) by blast
  have space: "in_row_space (length ps) (2 * n) (mat_bit m') v = (decode n v \<in> generated (set ?Ps))" for v
    using row_space_generated [OF sub, of "mat_bit m" v] m(5) e(3) by simp
  have "row_space (length ps) (2 * n) (mat_bit m') = row_space (length ps) (2 * n) (mat_bit m)"
    using e(3) by (simp add: row_space_def)
  then have "card (generated (set ?Ps)) = 2 ^ length piv"
    using row_space_card_generated [OF sub, of "mat_bit m"] m(5) rref_row_space_card [OF e(2)] by simp
  then have rank: "card (generated (?C ` projective ` set ps)) = 2 ^ length ps \<longleftrightarrow> length piv = length ps"
    by (simp add: image_image)
  show ?thesis
  proof (cases "length piv = length ps")
    case False
    then show ?thesis using rank m(1) e(1) by (simp add: complete_to_full_pauli_basis_def)
  next
    case True
    let ?o = "others (2 * n) piv"
    have o: "setwise_complement S piv (2 * n) = Some ?o"
      by (rule setwise_complement_run [OF assms(1)]) (use e(2) in \<open>auto simp: rref_upto_def\<close>)
    have "\<exists>as. omap (\<lambda>p. pauli_assign_from (dense_assign_set S) p (pauli_neutral_element_of_size dense_ops n)) ps = Some as \<and>
        list_all2 (\<lambda>p d. dense_ok d \<and> dense_sem d = sparse_sem S p) ps as"
    proof (rule omap_run)
      fix p assume "p \<in> set ps"
      then show "\<exists>d. pauli_assign_from (dense_assign_set S) p (pauli_neutral_element_of_size dense_ops n) = Some d \<and>
          dense_ok d \<and> dense_sem d = sparse_sem S p"
        using sorted_library.dense_assign_sparse [OF assms(1), of p n] assms(2) [of p] by (auto simp: class_of_def below_def)
    qed
    then obtain as where as: "omap (\<lambda>p. pauli_assign_from (dense_assign_set S) p (pauli_neutral_element_of_size dense_ops n)) ps = Some as"
        "list_all2 (\<lambda>p d. dense_ok d \<and> dense_sem d = sparse_sem S p) ps as" by blast
    have "\<exists>bs. omap (\<lambda>j. if j < n then pauli_x dense_ops j n else pauli_z dense_ops (j - n) n) ?o = Some bs \<and>
        list_all2 (\<lambda>j d. dense_ok d \<and> ?D (projective d) = unit_class n j) ?o bs"
      by (rule omap_run, rule dense_unit) (simp add: others_def)
    then obtain bs where bs: "omap (\<lambda>j. if j < n then pauli_x dense_ops j n else pauli_z dense_ops (j - n) n) ?o = Some bs"
        "list_all2 (\<lambda>j d. dense_ok d \<and> ?D (projective d) = unit_class n j) ?o bs" by blast
    have ma: "map dense_sem as = map (sparse_sem S) ps" "map (\<lambda>d. ?D (projective d)) as = ?Ps"
      using as(2) by (induction rule: list_all2_induct) (auto simp: class_of_def psem_def)
    have mb: "map (\<lambda>d. ?D (projective d)) bs = map (unit_class n) ?o"
      using bs(2) by (induction rule: list_all2_induct) auto
    have ok: "dense_ok r" if "r \<in> set (as @ bs)" for r
      using that as(2) bs(2) by (auto simp: list_all2_conv_all_nth in_set_conv_nth)
    have len: "length as = length ps" "length bs = length ?o" "length ps + length ?o = 2 * n"
      using as(2) bs(2) others_length [OF e(2)] True by (auto dest: list_all2_lengthD)
    have G: "?D ` projective ` set (as @ bs) = set ?Ps \<union> unit_class n ` set ?o"
      using arg_cong [OF ma(2), of set] arg_cong [OF mb, of set] by (simp add: image_image image_Un)
    have "below n \<subseteq> generated (set ?Ps \<union> unit_class n ` set ?o)"
      by (rule rref_units_generate [OF e(2) sub space]) auto
    moreover have "set ?Ps \<union> unit_class n ` set ?o \<subseteq> below n"
      using sub by (auto simp: others_def below_def unit_class_def)
    then have "generated (set ?Ps \<union> unit_class n ` set ?o) \<subseteq> below n" using generated_below by blast
    ultimately have "generated (?D ` projective ` set (as @ bs)) = below n" unfolding G by blast
    moreover have "complete_to_full_pauli_basis S (sparse_ops S) (dense_assign_set S) ps n = Some (as @ bs)"
      using m(1) e(1) True o as(1) bs(1) by (simp add: complete_to_full_pauli_basis_def)
    ultimately show ?thesis
      using rank True len ok ma(1) by (intro if_P [THEN iffD2]) (auto intro!: exI [of _ "as @ bs"])
  qed
qed

lemma generated_single: "generated {Q} = {({}, {}), Q}"
proof
  show "generated {Q} \<subseteq> {({}, {}), Q}"
  proof
    fix P assume "P \<in> generated {Q}"
    then show "P \<in> {({}, {}), Q}" by (induction rule: generated.induct) (auto simp: pxor_def)
  qed
qed (auto intro: generated.one generated_base)

text \<open>The operator \<open>i X\<close> on one qubit is completed, its phase kept; listed twice it makes the completion panic.\<close>

theorem completion_generates_witness:
  "(\<exists>rs. complete_to_full_pauli_basis list_sets (sparse_ops list_sets) (dense_assign_set list_sets) [pauli_from_bits [0] [] 1] 1 = Some rs \<and>
     length rs = 2 \<and> map dense_sem (take 1 rs) = [({0}, {}, ph 1)] \<and> generated (class_of dense_bits ` projective ` set rs) = below 1) \<and>
   complete_to_full_pauli_basis list_sets (sparse_ops list_sets) (dense_assign_set list_sets)
     [pauli_from_bits [0] [] 1, pauli_from_bits [0] [] 1] 1 = None"
proof
  let ?p = "pauli_from_bits [0] [] 1 :: nat list pauli_unitary" and ?C = "class_of (index_set_bits list_sets)"
  have p: "sparse_ok list_sets ?p" "?C (projective ?p) = ({0}, {})" "sparse_sem list_sets ?p = ({0}, {}, ph 1)"
    by (simp_all add: pauli_ok_def pauli_from_bits_def projective_from_bits_def index_set_ok_def list_sets_def class_of_def psem_def)
  have below: "({0}, {}) \<in> below 1" by (simp add: below_def)
  have set: "q \<in> set [?p] \<Longrightarrow> sparse_ok list_sets q \<and> ?C (projective q) \<in> below 1"
    "q \<in> set [?p, ?p] \<Longrightarrow> sparse_ok list_sets q \<and> ?C (projective q) \<in> below 1" for q
    using p below by auto
  have card: "card (generated (?C ` projective ` set [?p])) = 2" "card (generated (?C ` projective ` set [?p, ?p])) = 2"
    by (simp_all add: p(2) generated_single)
  show "\<exists>rs. complete_to_full_pauli_basis list_sets (sparse_ops list_sets) (dense_assign_set list_sets) [?p] 1 = Some rs \<and>
     length rs = 2 \<and> map dense_sem (take 1 rs) = [({0}, {}, ph 1)] \<and> generated (class_of dense_bits ` projective ` set rs) = below 1"
    using completion_generates [OF list_sets.sorted_library_axioms, of "[?p]" 1, OF set(1)] card(1) by (auto simp: p(3))
  show "complete_to_full_pauli_basis list_sets (sparse_ops list_sets) (dense_assign_set list_sets) [?p, ?p] 1 = None"
    using completion_generates [OF list_sets.sorted_library_axioms, of "[?p, ?p]" 1, OF set(2)] card(2) by simp
qed

end
