(* ===== verification/Bit_Matrix_Messages.thy ===== *)
theory Bit_Matrix_Messages
  imports Packed_Bits Matrix_Ops
begin

text \<open>
  The messages of \<open>proto/deq.util.rs\<close> and \<open>proto/deq.bin.rs\<close> that the Pauli frame tracker reads, and
  \<open>deq/deq_runtime/src/misc/bit_matrix.rs\<close>, which moves a matrix between the sparse message
  \<open>util.BitMatrix\<close> and the dense \<open>binar::BitMatrix\<close>.  The fields the code modelled here does not read
  (names, positions and meshes for the visualiser, the loss model) are left out.  Identifiers and
  indices (\<open>u64\<close>, \<open>usize\<close>) are naturals.
\<close>

section \<open>Messages\<close>

record sparse_matrix =
  sp_rows :: nat
  sp_cols :: nat
  sp_i :: "nat list"
  sp_j :: "nat list"

record connector =
  con_gid :: nat
  con_port :: nat

record remote_readout =
  rr_gid :: nat
  rr_readout_index :: nat

record remote_conditional_correction =
  rc_remote_readouts :: "remote_readout list"
  rc_correction :: "sparse_matrix option"

record bit_matrix_modifier =
  mod_toggle :: "sparse_matrix option"
  mod_overwrite :: "sparse_matrix option"

record gadget_modifier =
  gm_correction_propagation :: "bit_matrix_modifier option"
  gm_readout_propagation :: "bit_matrix_modifier option"
  gm_logical_correction :: "bit_matrix_modifier option"
  gm_remote_conditional_correction :: "remote_conditional_correction option"
  gm_physical_correction :: "bit_matrix_modifier option"

record gadget_port =
  port_ptype :: nat

record gadget_readout =
  ro_measurement_indices :: "nat list"

record gadget_type =
  gt_measurements :: "string list"
  gt_inputs :: "gadget_port list"
  gt_outputs :: "gadget_port list"
  gt_correction_propagation :: "sparse_matrix option"
  gt_readouts :: "gadget_readout list"
  gt_readout_propagation :: "sparse_matrix option"
  gt_logical_correction :: "sparse_matrix option"
  gt_physical_correction :: "sparse_matrix option"

record port_type =
  pt_observables :: "string list"

section \<open>Sparse and dense matrices\<close>

definition sparse_to_dense :: "sparse_matrix \<Rightarrow> aligned_bitmatrix option" where
  "sparse_to_dense sparse =
     ofold (\<lambda>(i, j). mat_set (i, j) True) (zip (sp_i sparse) (sp_j sparse))
       (mat_zeros (sp_rows sparse) (sp_cols sparse))"

definition optional_sparse_to_dense :: "sparse_matrix option \<Rightarrow> aligned_bitmatrix option" where
  "optional_sparse_to_dense sparse =
     (case sparse of Some sparse \<Rightarrow> sparse_to_dense sparse | None \<Rightarrow> Some (mat_zeros 0 0))"

definition sparse_zeros :: "nat \<Rightarrow> nat \<Rightarrow> sparse_matrix" where
  "sparse_zeros rows cols = \<lparr>sp_rows = rows, sp_cols = cols, sp_i = [], sp_j = []\<rparr>"

definition dense_to_sparse :: "aligned_bitmatrix \<Rightarrow> sparse_matrix option" where
  "dense_to_sparse dense = (let (rows, cols) = mat_shape dense in
     ofold (\<lambda>i sparse. ofold (\<lambda>j sparse. do {
           b \<leftarrow> mat_get dense (i, j);
           Some (if b then sparse\<lparr>sp_i := sp_i sparse @ [i], sp_j := sp_j sparse @ [j]\<rparr> else sparse) })
         [0..<cols] sparse)
       [0..<rows] \<lparr>sp_rows = rows, sp_cols = cols, sp_i = [], sp_j = []\<rparr>)"

definition append_bit :: "nat \<Rightarrow> nat \<Rightarrow> sparse_matrix \<Rightarrow> sparse_matrix option" where
  "append_bit i j matrix = do {
     guard_opt (\<not> list_ex (\<lambda>index. index = (i, j)) (zip (sp_i matrix) (sp_j matrix)));
     Some (matrix\<lparr>sp_i := sp_i matrix @ [i], sp_j := sp_j matrix @ [j]\<rparr>) }"

text \<open>The toggle is applied first, the overwrite then replaces the whole matrix.\<close>

definition apply_modifier :: "aligned_bitmatrix \<Rightarrow> bit_matrix_modifier \<Rightarrow> aligned_bitmatrix option" where
  "apply_modifier matrix modifier = do {
     matrix \<leftarrow> (case mod_toggle modifier of
         Some toggle \<Rightarrow> do { toggle_dense \<leftarrow> sparse_to_dense toggle; mat_add_assign matrix toggle_dense }
       | None \<Rightarrow> Some matrix);
     (case mod_overwrite modifier of
         Some overwrite \<Rightarrow> sparse_to_dense overwrite
       | None \<Rightarrow> Some matrix) }"

text \<open>\<open>&BitMatrix * &BitView\<close>: the lengths must agree exactly.\<close>

definition bitmatrix_mul_vec :: "aligned_bitmatrix \<Rightarrow> bitvec \<Rightarrow> bitvec option" where
  "bitmatrix_mul_vec m right = do {
     guard_opt (bit_length right = column_count m);
     bits \<leftarrow> mat_mul_vec m (vec_bits right);
     Some (from_aligned (row_count m) bits) }"

section \<open>What they compute\<close>

text \<open>A sparse matrix is in range when the positions it lists are inside its shape; \<open>zip\<close> stops at the
  shorter of the two index lists.\<close>

definition sparse_positions :: "sparse_matrix \<Rightarrow> (nat \<times> nat) list" where
  "sparse_positions s = zip (sp_i s) (sp_j s)"

definition sparse_in_range :: "sparse_matrix \<Rightarrow> bool" where
  "sparse_in_range s = list_all (\<lambda>(i, j). i < sp_rows s \<and> j < sp_cols s) (sparse_positions s)"

text \<open>The matrices the tracker keeps: well formed, with the unused columns of the last blocks zero.\<close>

definition dense_ok :: "nat \<Rightarrow> nat \<Rightarrow> aligned_bitmatrix \<Rightarrow> bool" where
  "dense_ok r c m \<longleftrightarrow> mat_ok m \<and> mat_clean m \<and> row_count m = r \<and> mat_cols m = c"

lemma dense_ok_zeros [simp]: "dense_ok r c (mat_zeros r c)"
  by (simp add: dense_ok_def mat_zeros_ok mat_clean_def)

lemma set_positions:
  assumes "list_all (\<lambda>(i, j). i < r \<and> j < c) ps" "dense_ok r c m"
  shows "\<exists>n. ofold (\<lambda>(i, j). mat_set (i, j) True) ps m = Some n \<and> dense_ok r c n \<and>
    mat_bit n = (\<lambda>i j. (i, j) \<in> set ps \<or> mat_bit m i j)"
  using assms
proof (induction ps arbitrary: m)
  case (Cons p ps)
  obtain a b where p: "p = (a, b)" by (cases p)
  obtain n where n: "mat_set (a, b) True m = Some n" "same_shape n m"
      "mat_bit n = (mat_bit m)(a := (mat_bit m a)(b := True))"
    using Cons.prems mat_set_bit [of m a b True] by (auto simp: p dense_ok_def)
  moreover from n Cons.prems have "dense_ok r c n"
    by (auto simp: dense_ok_def p same_shape_def mat_clean_def)
  ultimately show ?case using Cons.IH [of n] Cons.prems by (auto simp: p fun_eq_iff)
qed simp

lemma sparse_to_dense_run:
  assumes "sparse_in_range s"
  shows "\<exists>m. sparse_to_dense s = Some m \<and> dense_ok (sp_rows s) (sp_cols s) m \<and>
    mat_bit m = (\<lambda>i j. (i, j) \<in> set (sparse_positions s))"
  using set_positions [of "sp_rows s" "sp_cols s" "sparse_positions s" "mat_zeros (sp_rows s) (sp_cols s)"] assms
  by (auto simp: sparse_to_dense_def sparse_in_range_def sparse_positions_def mat_zeros_ok)

lemma dense_ok_add:
  assumes "dense_ok r c m" "dense_ok r c n"
  shows "\<exists>t. mat_add_assign m n = Some t \<and> dense_ok r c t \<and>
    mat_bit t = (\<lambda>i j. mat_bit m i j \<noteq> mat_bit n i j)"
  using mat_add_assign_run [of m n] assms
  by (auto simp: dense_ok_def same_shape_def mat_clean_def)

text \<open>The bit vectors of the tracker: \<open>n\<close> bits in exactly the blocks they need, the unused bits zero.\<close>

definition vec_ok :: "nat \<Rightarrow> bitvec \<Rightarrow> bool" where
  "vec_ok n v \<longleftrightarrow> bitvec_ok v \<and> bitvec_clean v \<and> bit_length v = n \<and> length (vec_bits v) = block_count n 512"

lemma vec_ok_from_iter: "\<exists>v. bitvec_from_iter xs = Some v \<and> vec_ok (length xs) v \<and>
    bitvec_bit v = (\<lambda>i. i < length xs \<and> xs ! i)"
  using with_length_from_iter_run [of xs] block_count_ge [of "length xs"]
  by (auto simp: bitvec_from_iter_def from_aligned_def vec_ok_def bitvec_ok_def bitvec_clean_def)

lemma vec_ok_mul:
  assumes "dense_ok r c m" "vec_ok c v"
  shows "\<exists>w. bitmatrix_mul_vec m v = Some w \<and> vec_ok r w \<and>
    bitvec_bit w = (\<lambda>i. i < r \<and> mvec c (mat_bit m) (bitvec_bit v) i)"
  using mat_mul_vec_run [of m "vec_bits v"] assms block_count_ge [of r]
  by (auto simp: bitmatrix_mul_vec_def column_count_def dense_ok_def vec_ok_def bitvec_ok_def bitvec_clean_def
      from_aligned_def)

lemma vec_ok_xor:
  assumes "vec_ok n v" "vec_ok n w"
  shows "\<exists>t. bitvec_bitxor_assign v w = Some t \<and> vec_ok n t \<and>
    bitvec_bit t = (\<lambda>i. bitvec_bit v i \<noteq> bitvec_bit w i)"
  using blocks.xor_assign [of "vec_bits v" "vec_bits w"] assms
  by (auto simp: bitvec_bitxor_assign_def vec_ok_def bitvec_ok_def bitvec_clean_def fun_eq_iff)

lemma vec_ok_index: "vec_ok n v \<Longrightarrow> i < n \<Longrightarrow> bitvec_index v i = Some (bitvec_bit v i)"
  using bitvec.idx [of v i] by (simp add: vec_ok_def)

text \<open>An absent matrix is the empty one.\<close>

definition the_sparse :: "sparse_matrix option \<Rightarrow> sparse_matrix" where
  "the_sparse sp = (case sp of Some s \<Rightarrow> s | None \<Rightarrow> sparse_zeros 0 0)"

definition sparse_bit :: "sparse_matrix option \<Rightarrow> nat \<Rightarrow> nat \<Rightarrow> bool" where
  "sparse_bit sp i j \<longleftrightarrow> (i, j) \<in> set (sparse_positions (the_sparse sp))"

definition sparse_fits :: "nat \<Rightarrow> nat \<Rightarrow> sparse_matrix option \<Rightarrow> bool" where
  "sparse_fits r c sp \<longleftrightarrow> sparse_in_range (the_sparse sp) \<and> sp_rows (the_sparse sp) = r \<and> sp_cols (the_sparse sp) = c"

lemma optional_sparse_to_dense_run:
  assumes "sparse_fits r c sp"
  shows "\<exists>m. optional_sparse_to_dense sp = Some m \<and> dense_ok r c m \<and> mat_bit m = sparse_bit sp"
proof (cases sp)
  case None
  with assms show ?thesis by (auto simp: optional_sparse_to_dense_def sparse_fits_def the_sparse_def
      sparse_bit_def sparse_zeros_def sparse_positions_def mat_zeros_ok fun_eq_iff)
next
  case (Some s)
  with assms sparse_to_dense_run [of s] show ?thesis
    by (auto simp: optional_sparse_to_dense_def sparse_fits_def the_sparse_def sparse_bit_def fun_eq_iff)
qed

text \<open>What a modifier makes of a matrix: the toggled positions flipped, unless an overwrite replaces
  everything.\<close>

definition modified_bit :: "bit_matrix_modifier \<Rightarrow> (nat \<Rightarrow> nat \<Rightarrow> bool) \<Rightarrow> nat \<Rightarrow> nat \<Rightarrow> bool" where
  "modified_bit modifier b i j = (case mod_overwrite modifier of
       Some s \<Rightarrow> (i, j) \<in> set (sparse_positions s)
     | None \<Rightarrow> b i j \<noteq> (case mod_toggle modifier of Some s \<Rightarrow> (i, j) \<in> set (sparse_positions s) | None \<Rightarrow> False))"

definition modifier_fits :: "nat \<Rightarrow> nat \<Rightarrow> bit_matrix_modifier \<Rightarrow> bool" where
  "modifier_fits r c modifier \<longleftrightarrow> list_all (\<lambda>s. sparse_in_range s \<and> sp_rows s = r \<and> sp_cols s = c)
     ((case mod_toggle modifier of Some s \<Rightarrow> [s] | None \<Rightarrow> []) @
      (case mod_overwrite modifier of Some s \<Rightarrow> [s] | None \<Rightarrow> []))"

lemma apply_modifier_run:
  assumes "dense_ok r c m" "modifier_fits r c modifier"
  shows "\<exists>n. apply_modifier m modifier = Some n \<and> dense_ok r c n \<and> mat_bit n = modified_bit modifier (mat_bit m)"
proof -
  let ?tog = "\<lambda>i j. case mod_toggle modifier of Some s \<Rightarrow> (i, j) \<in> set (sparse_positions s) | None \<Rightarrow> False"
  obtain t where t: "(case mod_toggle modifier of
         Some toggle \<Rightarrow> do { toggle_dense \<leftarrow> sparse_to_dense toggle; mat_add_assign m toggle_dense }
       | None \<Rightarrow> Some m) = Some t" "dense_ok r c t" "mat_bit t = (\<lambda>i j. mat_bit m i j \<noteq> ?tog i j)"
  proof (cases "mod_toggle modifier")
    case None
    with that [of m] assms(1) show thesis by simp
  next
    case (Some s)
    then obtain n where n: "sparse_to_dense s = Some n" "dense_ok r c n"
        "mat_bit n = (\<lambda>i j. (i, j) \<in> set (sparse_positions s))"
      using assms(2) sparse_to_dense_run [of s] by (auto simp: modifier_fits_def)
    with dense_ok_add [OF assms(1) n(2)] that Some show thesis by auto
  qed
  show ?thesis
  proof (cases "mod_overwrite modifier")
    case None
    with t show ?thesis by (auto simp: apply_modifier_def modified_bit_def fun_eq_iff)
  next
    case (Some s)
    with t sparse_to_dense_run [of s] assms(2) show ?thesis
      by (auto simp: apply_modifier_def modified_bit_def modifier_fits_def fun_eq_iff)
  qed
qed

definition sparse_of :: "nat \<Rightarrow> nat \<Rightarrow> (nat \<times> nat) set \<Rightarrow> sparse_matrix \<Rightarrow> bool" where
  "sparse_of r c A s \<longleftrightarrow> sp_rows s = r \<and> sp_cols s = c \<and> length (sp_i s) = length (sp_j s) \<and>
     set (sparse_positions s) = A \<and> distinct (sparse_positions s)"

lemma sparse_of_push:
  assumes "sparse_of r c A s" "(i, j) \<notin> A"
  shows "sparse_of r c (insert (i, j) A) (s\<lparr>sp_i := sp_i s @ [i], sp_j := sp_j s @ [j]\<rparr>)"
  using assms by (auto simp: sparse_of_def sparse_positions_def)

lemma dense_to_sparse_run:
  assumes "dense_ok r c m"
  shows "\<exists>s. dense_to_sparse m = Some s \<and> sparse_of r c {(i, j). mat_bit m i j} s"
proof -
  let ?done = "\<lambda>k l. {(i, j). mat_bit m i j \<and> (i < k \<or> i = k \<and> j < l)}"
  let ?step = "\<lambda>i j s. do { b \<leftarrow> mat_get m (i, j);
      Some (if b then s\<lparr>sp_i := sp_i s @ [i], sp_j := sp_j s @ [j]\<rparr> else s) }"
  have bound: "i < r \<and> j < c" if "mat_bit m i j" for i j
    using that assms by (auto simp: dense_ok_def mat_clean_def mat_bit_def)
  have step: "\<exists>t. ?step i j s = Some t \<and> sparse_of r c (?done i (Suc j)) t"
    if "i < r" "j < c" "sparse_of r c (?done i j) s" for i j s
  proof (cases "mat_bit m i j")
    case True
    then have "insert (i, j) (?done i j) = ?done i (Suc j)" by auto
    with True that sparse_of_push [OF that(3), of i j] assms show ?thesis
      by (simp add: dense_ok_def mat_get_bit)
  next
    case False
    then have "?done i j = ?done i (Suc j)" by (auto simp: less_Suc_eq)
    with False that assms show ?thesis by (simp add: dense_ok_def mat_get_bit)
  qed
  have inner: "\<exists>t. ofold (?step i) [0..<c] s = Some t \<and> sparse_of r c (?done i c) t"
    if "i < r" "sparse_of r c (?done i 0) s" for i s
    using ofold_upt_inv [where P = "\<lambda>j. sparse_of r c (?done i j)" and f = "?step i" and n = c] step that
    by blast
  have whole: "?done i c = ?done (Suc i) 0" for i using bound by (auto simp: less_Suc_eq)
  have "\<exists>t. ofold (\<lambda>i s. ofold (?step i) [0..<c] s) [0..<r] \<lparr>sp_rows = r, sp_cols = c, sp_i = [], sp_j = []\<rparr> = Some t \<and>
      sparse_of r c (?done r 0) t"
    by (rule ofold_upt_inv [where P = "\<lambda>i. sparse_of r c (?done i 0)"])
      (use inner whole in \<open>auto simp: sparse_of_def sparse_positions_def\<close>)
  moreover have "?done r 0 = {(i, j). mat_bit m i j}" using bound by auto
  ultimately show ?thesis using assms
    by (simp add: dense_to_sparse_def mat_shape_def column_count_def dense_ok_def)
qed

text \<open>Writing a dense matrix as the sparse message and reading it back gives a matrix of the same
  shape with the same bits; the message lists every position once.\<close>

theorem sparse_message_round_trip:
  assumes "dense_ok r c m"
  shows "\<exists>s n. dense_to_sparse m = Some s \<and> distinct (sparse_positions s) \<and> sparse_to_dense s = Some n \<and>
    dense_ok r c n \<and> mat_bit n = mat_bit m"
proof -
  obtain s where s: "dense_to_sparse m = Some s" "sparse_of r c {(i, j). mat_bit m i j} s"
    using dense_to_sparse_run [OF assms] by blast
  moreover have "sparse_in_range s"
    using s(2) assms by (auto simp: sparse_of_def sparse_in_range_def list_all_iff dense_ok_def mat_clean_def mat_bit_def)
  ultimately show ?thesis using sparse_to_dense_run [of s] by (auto simp: sparse_of_def)
qed

theorem sparse_message_round_trip_witness:
  "\<exists>s n. dense_to_sparse (mat_zeros 2 3) = Some s \<and> distinct (sparse_positions s) \<and> sparse_to_dense s = Some n \<and>
    dense_ok 2 3 n \<and> mat_bit n = mat_bit (mat_zeros 2 3)"
  by (rule sparse_message_round_trip) simp

end
