(* ===== verification/Pauli_Frame.thy ===== *)
theory Pauli_Frame
  imports Bit_Matrix_Messages
begin

text \<open>
  The Pauli frame tracker of the decoding runtime, \<open>misc/pauli_frame_tracker.rs\<close>: gadgets form a
  graph through their ports and through remote conditional corrections, and loading a decoder's
  correction for one gadget recomputes its frame and follows the consumers.

  \<open>propagate_from\<close> calls itself through the graph, so it is a \<open>partial_function\<close>: \<open>None\<close> is a panic or
  a run that does not return, and the theorems that it gives \<open>Some\<close> are termination theorems.
\<close>

section \<open>State\<close>

record pauli_frame =
  fr_readouts :: bitvec
  fr_residual :: bitvec

record frame_gadget =
  pg_frame :: "pauli_frame option"
  pg_raw_readouts :: "bitvec option"
  pg_raw_measurements :: "bitvec option"
  pg_decoded :: "pauli_frame option"
  pg_correction_propagation :: aligned_bitmatrix
  pg_readout_propagation :: aligned_bitmatrix
  pg_logical_correction :: aligned_bitmatrix
  pg_physical_correction :: aligned_bitmatrix
  pg_remote :: "(remote_readout list \<times> aligned_bitmatrix) option"
  pg_inputs :: "connector list"
  pg_outputs :: "connector option list"
  pg_remote_dependents :: "nat list"
  pg_output_bias :: "nat list"

type_synonym tracker = "nat \<rightharpoonup> frame_gadget"
type_synonym frame_updates = "nat \<rightharpoonup> bit_vector"

section \<open>Operations\<close>

definition num_readouts :: "frame_gadget \<Rightarrow> nat" where
  "num_readouts g = column_count (pg_logical_correction g)"

definition num_measurements :: "frame_gadget \<Rightarrow> nat" where
  "num_measurements g = column_count (pg_physical_correction g)"

text \<open>The subtraction overflows when the matrix has no column.\<close>

definition num_input_observables :: "frame_gadget \<Rightarrow> nat option" where
  "num_input_observables g = do {
     guard_opt (1 \<le> column_count (pg_correction_propagation g));
     Some (column_count (pg_correction_propagation g) - 1) }"

definition num_output_observables :: "frame_gadget \<Rightarrow> nat" where
  "num_output_observables g = row_count (pg_correction_propagation g)"

text \<open>Indexing \<open>output_bias\<close> comes first, so the list is not empty when its length is decremented.\<close>

definition get_residual_slice :: "frame_gadget \<Rightarrow> bitvec \<Rightarrow> nat \<Rightarrow> bool list option" where
  "get_residual_slice g residual port = do {
     start \<leftarrow> nth_opt (pg_output_bias g) port;
     stop \<leftarrow> (if port < length (pg_output_bias g) - 1 then nth_opt (pg_output_bias g) (port + 1)
            else Some (num_output_observables g));
     omap (bitvec_index residual) [start..<stop] }"

definition tracker_new :: tracker where
  "tracker_new = (\<lambda>_. None)"

definition tracker_reset :: "tracker \<Rightarrow> tracker" where
  "tracker_reset T = (\<lambda>_. None)"

text \<open>The port biases: the number of observables of the output ports before each one.\<close>

definition port_biases :: "(nat \<rightharpoonup> port_type) \<Rightarrow> gadget_port list \<Rightarrow> (nat list \<times> nat) option" where
  "port_biases port_types outputs =
     ofold (\<lambda>port (output_bias, output_observable_count). do {
         pt \<leftarrow> port_types (port_ptype port);
         Some (output_bias @ [output_observable_count], output_observable_count + length (pt_observables pt)) })
       outputs ([], 0)"

definition modified_matrix :: "sparse_matrix option \<Rightarrow> bit_matrix_modifier option \<Rightarrow> aligned_bitmatrix option" where
  "modified_matrix sparse modifier = do {
     m \<leftarrow> optional_sparse_to_dense sparse;
     (case modifier of Some mod_ \<Rightarrow> apply_modifier m mod_ | None \<Rightarrow> Some m) }"

text \<open>Connect each input to the output it consumes, overwriting what was connected there.\<close>

definition connect_input :: "nat \<Rightarrow> nat \<times> connector \<Rightarrow> tracker \<Rightarrow> tracker option" where
  "connect_input gid pc T = (let (port, c) = pc in do {
     g \<leftarrow> T (con_gid c);
     outputs \<leftarrow> update_opt (pg_outputs g) (con_port c) (Some \<lparr>con_gid = gid, con_port = port\<rparr>);
     Some (T(con_gid c \<mapsto> g\<lparr>pg_outputs := outputs\<rparr>)) })"

definition register_remote :: "nat \<Rightarrow> remote_readout \<Rightarrow> tracker \<Rightarrow> tracker option" where
  "register_remote gid r T = do {
     g \<leftarrow> T (rr_gid r);
     Some (T(rr_gid r \<mapsto> g\<lparr>pg_remote_dependents := pg_remote_dependents g @ [gid]\<rparr>)) }"

definition new_gadget :: "gadget_type \<Rightarrow> gadget_modifier option \<Rightarrow> (nat \<rightharpoonup> port_type) \<Rightarrow> connector list \<Rightarrow>
    frame_gadget option" where
  "new_gadget gt modifier port_types connectors = do {
     (output_bias, output_observable_count) \<leftarrow> port_biases port_types (gt_outputs gt);
     correction_propagation \<leftarrow> modified_matrix (gt_correction_propagation gt) (Option.bind modifier gm_correction_propagation);
     readout_propagation \<leftarrow> modified_matrix (gt_readout_propagation gt) (Option.bind modifier gm_readout_propagation);
     logical_correction \<leftarrow> modified_matrix (gt_logical_correction gt) (Option.bind modifier gm_logical_correction);
     physical_correction \<leftarrow> modified_matrix (gt_physical_correction gt) (Option.bind modifier gm_physical_correction);
     remote \<leftarrow> (case Option.bind modifier gm_remote_conditional_correction of
         Some rc \<Rightarrow> do { matrix \<leftarrow> optional_sparse_to_dense (rc_correction rc);
                         Some (Some (rc_remote_readouts rc, matrix)) }
       | None \<Rightarrow> Some None);
     let g = \<lparr>pg_frame = None, pg_raw_readouts = None, pg_raw_measurements = None, pg_decoded = None,
       pg_correction_propagation = correction_propagation, pg_readout_propagation = readout_propagation,
       pg_logical_correction = logical_correction, pg_physical_correction = physical_correction,
       pg_remote = remote, pg_inputs = connectors, pg_outputs = replicate (length (gt_outputs gt)) None,
       pg_remote_dependents = [], pg_output_bias = output_bias\<rparr>;
     guard_opt (output_observable_count = num_output_observables g);
     guard_opt (row_count (pg_logical_correction g) = num_output_observables g);
     guard_opt (length (gt_readouts gt) = num_readouts g);
     guard_opt (length (gt_measurements gt) = num_measurements g);
     guard_opt (row_count (pg_readout_propagation g) = num_readouts g);
     num_inputs \<leftarrow> num_input_observables g;
     guard_opt (column_count (pg_readout_propagation g) = num_inputs + 1);
     Some g }"

definition add_gadget :: "nat \<Rightarrow> gadget_type \<Rightarrow> gadget_modifier option \<Rightarrow> (nat \<rightharpoonup> port_type) \<Rightarrow>
    connector list \<Rightarrow> tracker \<Rightarrow> tracker option" where
  "add_gadget gid gt modifier port_types connectors T = do {
     guard_opt (T gid = None);
     guard_opt (length (gt_inputs gt) = length connectors);
     g \<leftarrow> new_gadget gt modifier port_types connectors;
     T \<leftarrow> ofold (connect_input gid) (zip [0..<length connectors] connectors) (T(gid \<mapsto> g));
     (case pg_remote g of
        Some (remote_refs, _) \<Rightarrow> ofold (register_remote gid) remote_refs T
      | None \<Rightarrow> Some T) }"

definition load_raw :: "nat \<Rightarrow> bool list \<Rightarrow> bit_vector \<Rightarrow> tracker \<Rightarrow> tracker option" where
  "load_raw gid raw_readouts raw_measurements T = do {
     g \<leftarrow> T gid;
     guard_opt (pg_raw_readouts g = None);
     guard_opt (pg_raw_measurements g = None);
     guard_opt (num_readouts g = length raw_readouts);
     guard_opt (num_measurements g = bv_size raw_measurements);
     readouts \<leftarrow> bitvec_from_iter raw_readouts;
     bits \<leftarrow> omap (get_bit raw_measurements) [0..<bv_size raw_measurements];
     measurements \<leftarrow> bitvec_from_iter bits;
     Some (T(gid \<mapsto> g\<lparr>pg_raw_readouts := Some readouts, pg_raw_measurements := Some measurements\<rparr>)) }"

text \<open>\<open>None\<close> inside \<open>Some\<close>: an input or a remote gadget has no frame yet.\<close>

fun gather_inputs :: "tracker \<Rightarrow> connector list \<Rightarrow> bool list \<Rightarrow> bool list option option" where
  "gather_inputs T [] acc = Some (Some acc)"
| "gather_inputs T (peer # inputs) acc = do {
     peer_gadget \<leftarrow> T (con_gid peer);
     (case pg_frame peer_gadget of
        Some frame \<Rightarrow> do { slice \<leftarrow> get_residual_slice peer_gadget (fr_residual frame) (con_port peer);
                           gather_inputs T inputs (acc @ slice) }
      | None \<Rightarrow> Some None) }"

fun gather_remote :: "tracker \<Rightarrow> remote_readout list \<Rightarrow> bool list \<Rightarrow> bool list option option" where
  "gather_remote T [] acc = Some (Some acc)"
| "gather_remote T (r # refs) acc = do {
     remote_gadget \<leftarrow> T (rr_gid r);
     (case pg_frame remote_gadget of
        Some frame \<Rightarrow> do { b \<leftarrow> bitvec_index (fr_readouts frame) (rr_readout_index r);
                           gather_remote T refs (acc @ [b]) }
      | None \<Rightarrow> Some None) }"

definition combine_frame :: "frame_gadget \<Rightarrow> pauli_frame \<Rightarrow> bool list \<Rightarrow> bool list option \<Rightarrow> pauli_frame option" where
  "combine_frame g decoded input_bits remote_bits = do {
     remote_readouts \<leftarrow> (case remote_bits of Some bits \<Rightarrow> map_option Some (bitvec_from_iter bits) | None \<Rightarrow> Some None);
     input_observables \<leftarrow> bitvec_from_iter (input_bits @ [True]);
     residual \<leftarrow> bitmatrix_mul_vec (pg_correction_propagation g) input_observables;
     raw_measurements \<leftarrow> pg_raw_measurements g;
     physical \<leftarrow> bitmatrix_mul_vec (pg_physical_correction g) raw_measurements;
     residual \<leftarrow> bitvec_bitxor_assign residual physical;
     readouts \<leftarrow> pg_raw_readouts g;
     readouts \<leftarrow> bitvec_bitxor_assign readouts (fr_readouts decoded);
     propagated \<leftarrow> bitmatrix_mul_vec (pg_readout_propagation g) input_observables;
     readouts \<leftarrow> bitvec_bitxor_assign readouts propagated;
     logical \<leftarrow> bitmatrix_mul_vec (pg_logical_correction g) readouts;
     residual \<leftarrow> bitvec_bitxor_assign residual logical;
     residual \<leftarrow> (case pg_remote g of
         Some (_, correction_matrix) \<Rightarrow> do {
           remote_readouts \<leftarrow> remote_readouts;
           remote \<leftarrow> bitmatrix_mul_vec correction_matrix remote_readouts;
           bitvec_bitxor_assign residual remote }
       | None \<Rightarrow> Some residual);
     residual \<leftarrow> bitvec_bitxor_assign residual (fr_residual decoded);
     Some \<lparr>fr_readouts = readouts, fr_residual = residual\<rparr> }"

text \<open>The part of \<open>propagate_from\<close> up to the new frame: \<open>Some None\<close> for its early returns.\<close>

definition compute_frame :: "tracker \<Rightarrow> frame_gadget \<Rightarrow> pauli_frame option option" where
  "compute_frame T g = (case pg_decoded g of None \<Rightarrow> Some None | Some decoded \<Rightarrow> do {
     inputs \<leftarrow> gather_inputs T (pg_inputs g) [];
     (case inputs of None \<Rightarrow> Some None | Some input_bits \<Rightarrow> do {
        remote \<leftarrow> (case pg_remote g of
            Some (remote_refs, _) \<Rightarrow> map_option (map_option Some) (gather_remote T remote_refs [])
          | None \<Rightarrow> Some (Some None));
        (case remote of None \<Rightarrow> Some None | Some remote_bits \<Rightarrow>
           map_option Some (combine_frame g decoded input_bits remote_bits)) }) })"

definition frame_bit_vector :: "bitvec \<Rightarrow> nat \<Rightarrow> bit_vector option" where
  "frame_bit_vector v len = do {
     bits \<leftarrow> omap (bitvec_index v) [0..<bit_length v];
     binar_bitvec_to_bit_vector bits len }"

partial_function (option) propagate_from :: "nat \<Rightarrow> tracker \<times> frame_updates \<Rightarrow> (tracker \<times> frame_updates) option" where
  "propagate_from gid s = (case s of (T, updates) \<Rightarrow> do {
     g \<leftarrow> T gid;
     result \<leftarrow> compute_frame T g;
     (case result of None \<Rightarrow> Some (T, updates)
      | Some frame \<Rightarrow>
        if pg_frame g = Some frame then Some (T, updates)
        else do {
          readouts \<leftarrow> frame_bit_vector (fr_readouts frame) (num_readouts g);
          let updates = updates(gid \<mapsto> readouts);
          let T = T(gid \<mapsto> g\<lparr>pg_frame := Some frame\<rparr>);
          s \<leftarrow> ofold (\<lambda>peer s. case peer of Some c \<Rightarrow> propagate_from (con_gid c) s | None \<Rightarrow> Some s)
                 (pg_outputs g) (T, updates);
          ofold propagate_from (pg_remote_dependents g) s }) })"

definition load_correction :: "nat \<Rightarrow> bitvec \<Rightarrow> bitvec \<Rightarrow> tracker \<Rightarrow> (tracker \<times> frame_updates) option" where
  "load_correction gid residual readout_flips T = do {
     g \<leftarrow> T gid;
     guard_opt (pg_raw_readouts g \<noteq> None);
     let T = T(gid \<mapsto> g\<lparr>pg_decoded := Some \<lparr>fr_readouts = readout_flips, fr_residual = residual\<rparr>\<rparr>);
     propagate_from gid (T, \<lambda>_. None) }"

section \<open>Well-formed gadgets\<close>

definition num_in :: "frame_gadget \<Rightarrow> nat" where
  "num_in g = mat_cols (pg_correction_propagation g) - 1"

definition port_stop :: "frame_gadget \<Rightarrow> nat \<Rightarrow> nat" where
  "port_stop g port = (if port < length (pg_output_bias g) - 1 then pg_output_bias g ! (port + 1)
                       else num_output_observables g)"

definition port_range :: "frame_gadget \<Rightarrow> nat \<Rightarrow> nat list" where
  "port_range g port = [pg_output_bias g ! port..<port_stop g port]"

definition remote_refs :: "frame_gadget \<Rightarrow> remote_readout list" where
  "remote_refs g = (case pg_remote g of Some (refs, _) \<Rightarrow> refs | None \<Rightarrow> [])"

definition frame_ok :: "frame_gadget \<Rightarrow> pauli_frame \<Rightarrow> bool" where
  "frame_ok g f \<longleftrightarrow> vec_ok (num_readouts g) (fr_readouts f) \<and> vec_ok (num_output_observables g) (fr_residual f)"

definition matrices_ok :: "frame_gadget \<Rightarrow> bool" where
  "matrices_ok g \<longleftrightarrow>
     dense_ok (num_output_observables g) (num_in g + 1) (pg_correction_propagation g) \<and>
     dense_ok (num_readouts g) (num_in g + 1) (pg_readout_propagation g) \<and>
     dense_ok (num_output_observables g) (num_readouts g) (pg_logical_correction g) \<and>
     dense_ok (num_output_observables g) (num_measurements g) (pg_physical_correction g) \<and>
     (\<forall>refs m. pg_remote g = Some (refs, m) \<longrightarrow> dense_ok (num_output_observables g) (length refs) m)"

text \<open>What the load operations leave in a gadget.\<close>

definition loads_ok :: "frame_gadget \<Rightarrow> bool" where
  "loads_ok g \<longleftrightarrow>
     (\<forall>v. pg_raw_readouts g = Some v \<longrightarrow> vec_ok (num_readouts g) v) \<and>
     (\<forall>v. pg_raw_measurements g = Some v \<longrightarrow> vec_ok (num_measurements g) v) \<and>
     (pg_raw_readouts g = None \<longleftrightarrow> pg_raw_measurements g = None) \<and>
     (\<forall>d. pg_decoded g = Some d \<longrightarrow> frame_ok g d \<and> pg_raw_readouts g \<noteq> None) \<and>
     (\<forall>f. pg_frame g = Some f \<longrightarrow> frame_ok g f)"

definition ports_ok :: "frame_gadget \<Rightarrow> bool" where
  "ports_ok g \<longleftrightarrow> length (pg_output_bias g) = length (pg_outputs g) \<and>
     (\<forall>port < length (pg_output_bias g). pg_output_bias g ! port \<le> port_stop g port \<and>
        port_stop g port \<le> num_output_observables g)"

definition gadget_ok :: "frame_gadget \<Rightarrow> bool" where
  "gadget_ok g \<longleftrightarrow> matrices_ok g \<and> loads_ok g \<and> ports_ok g"

text \<open>The bits a connector and a remote reference deliver.\<close>

definition frame_of :: "tracker \<Rightarrow> nat \<Rightarrow> pauli_frame option" where
  "frame_of T x = Option.bind (T x) pg_frame"

definition connector_bits :: "tracker \<Rightarrow> connector \<Rightarrow> bool list" where
  "connector_bits T c = map (bitvec_bit (fr_residual (the (frame_of T (con_gid c)))))
     (port_range (the (T (con_gid c))) (con_port c))"

definition input_bits :: "tracker \<Rightarrow> frame_gadget \<Rightarrow> bool list" where
  "input_bits T g = concat (map (connector_bits T) (pg_inputs g))"

definition remote_bits :: "tracker \<Rightarrow> frame_gadget \<Rightarrow> bool list" where
  "remote_bits T g = map (\<lambda>r. bitvec_bit (fr_readouts (the (frame_of T (rr_gid r)))) (rr_readout_index r)) (remote_refs g)"

definition sources :: "frame_gadget \<Rightarrow> nat set" where
  "sources g = con_gid ` set (pg_inputs g) \<union> rr_gid ` set (remote_refs g)"

definition ready :: "tracker \<Rightarrow> frame_gadget \<Rightarrow> bool" where
  "ready T g \<longleftrightarrow> pg_decoded g \<noteq> None \<and> (\<forall>x \<in> sources g. frame_of T x \<noteq> None)"

text \<open>The frame of a gadget, as the linear formula the propagation matrices stand for.\<close>

definition frame_equation :: "tracker \<Rightarrow> frame_gadget \<Rightarrow> pauli_frame \<Rightarrow> bool" where
  "frame_equation T g f \<longleftrightarrow> frame_ok g f \<and>
     (let inp = (\<lambda>j. (input_bits T g @ [True]) ! j); ni = num_in g + 1;
          decoded = the (pg_decoded g); raw = the (pg_raw_readouts g); meas = the (pg_raw_measurements g) in
      (\<forall>i < num_readouts g. bitvec_bit (fr_readouts f) i =
         ((bitvec_bit raw i \<noteq> bitvec_bit (fr_readouts decoded) i) \<noteq> mvec ni (mat_bit (pg_readout_propagation g)) inp i)) \<and>
      (\<forall>i < num_output_observables g. bitvec_bit (fr_residual f) i =
         ((((mvec ni (mat_bit (pg_correction_propagation g)) inp i
             \<noteq> mvec (num_measurements g) (mat_bit (pg_physical_correction g)) (bitvec_bit meas) i)
            \<noteq> mvec (num_readouts g) (mat_bit (pg_logical_correction g)) (bitvec_bit (fr_readouts f)) i)
           \<noteq> (case pg_remote g of None \<Rightarrow> False | Some (refs, m) \<Rightarrow>
                mvec (length refs) (mat_bit m) (\<lambda>j. remote_bits T g ! j) i))
          \<noteq> bitvec_bit (fr_residual decoded) i)))"

definition wired :: "tracker \<Rightarrow> frame_gadget \<Rightarrow> bool" where
  "wired T g \<longleftrightarrow>
     (\<forall>c \<in> set (pg_inputs g). \<exists>p. T (con_gid c) = Some p \<and> con_port c < length (pg_output_bias p)) \<and>
     (\<forall>r \<in> set (remote_refs g). \<exists>p. T (rr_gid r) = Some p \<and> rr_readout_index r < num_readouts p) \<and>
     sum_list (map (\<lambda>c. length (port_range (the (T (con_gid c))) (con_port c))) (pg_inputs g)) = num_in g"

section \<open>Computing one frame\<close>

lemma mvec_cong: "(\<And>k. k < n \<Longrightarrow> v k = w k) \<Longrightarrow> mvec n A v i = mvec n A w i"
  unfolding mvec_def by (rule xsum_cong) simp_all

lemma get_residual_slice_run:
  assumes "gadget_ok p" "port < length (pg_output_bias p)" "frame_ok p f"
  shows "get_residual_slice p (fr_residual f) port = Some (map (bitvec_bit (fr_residual f)) (port_range p port))"
proof -
  have "port_stop p port \<le> num_output_observables p" using assms(1,2) by (auto simp: gadget_ok_def ports_ok_def)
  then have "omap (bitvec_index (fr_residual f)) (port_range p port) = Some (map (bitvec_bit (fr_residual f)) (port_range p port))"
    by (intro omap_total vec_ok_index) (use assms(3) in \<open>auto simp: frame_ok_def port_range_def\<close>)
  with assms(2) show ?thesis by (auto simp: get_residual_slice_def port_range_def port_stop_def)
qed

lemma gather_inputs_run:
  assumes "\<forall>c \<in> set cs. \<exists>p. T (con_gid c) = Some p \<and> gadget_ok p \<and> con_port c < length (pg_output_bias p)"
  shows "gather_inputs T cs acc = Some (if \<forall>c \<in> set cs. frame_of T (con_gid c) \<noteq> None
     then Some (acc @ concat (map (connector_bits T) cs)) else None)"
  using assms
proof (induction cs arbitrary: acc)
  case (Cons c cs)
  then obtain p where p: "T (con_gid c) = Some p" "gadget_ok p" "con_port c < length (pg_output_bias p)" by auto
  show ?case
  proof (cases "pg_frame p")
    case None
    with p(1) show ?thesis by (auto simp: frame_of_def)
  next
    case (Some f)
    with p(2) have "frame_ok p f" by (simp add: gadget_ok_def loads_ok_def)
    note get_residual_slice_run [OF p(2,3) this]
    with Some p(1) Cons show ?thesis by (auto simp: frame_of_def connector_bits_def)
  qed
qed simp

lemma gather_remote_run:
  assumes "\<forall>r \<in> set rs. \<exists>p. T (rr_gid r) = Some p \<and> gadget_ok p \<and> rr_readout_index r < num_readouts p"
  shows "gather_remote T rs acc = Some (if \<forall>r \<in> set rs. frame_of T (rr_gid r) \<noteq> None
     then Some (acc @ map (\<lambda>r. bitvec_bit (fr_readouts (the (frame_of T (rr_gid r)))) (rr_readout_index r)) rs) else None)"
  using assms
proof (induction rs arbitrary: acc)
  case (Cons r rs)
  then obtain p where p: "T (rr_gid r) = Some p" "gadget_ok p" "rr_readout_index r < num_readouts p" by auto
  show ?case
  proof (cases "pg_frame p")
    case None
    with p(1) show ?thesis by (auto simp: frame_of_def)
  next
    case (Some f)
    with p(2) have "vec_ok (num_readouts p) (fr_readouts f)" by (simp add: gadget_ok_def loads_ok_def frame_ok_def)
    from vec_ok_index [OF this p(3)] Some p(1) Cons show ?thesis by (auto simp: frame_of_def)
  qed
qed simp

lemma add_term:
  assumes "vec_ok n v" "bitmatrix_mul_vec m x = Some w \<and> vec_ok n w \<and> bitvec_bit w = (\<lambda>i. i < n \<and> b i)"
  shows "\<exists>t. Option.bind (bitmatrix_mul_vec m x) (bitvec_bitxor_assign v) = Some t \<and> vec_ok n t \<and>
    (\<forall>i < n. bitvec_bit t i = (bitvec_bit v i \<noteq> b i))"
  using vec_ok_xor [OF assms(1), of w] assms(2) by auto

lemma add_vec:
  assumes "vec_ok n v" "vec_ok n w"
  shows "\<exists>t. bitvec_bitxor_assign v w = Some t \<and> vec_ok n t \<and> (\<forall>i < n. bitvec_bit t i = (bitvec_bit v i \<noteq> bitvec_bit w i))"
  using vec_ok_xor [OF assms] by auto

lemma mul_term:
  assumes "dense_ok r c m" "vec_ok c v" "\<And>k. k < c \<Longrightarrow> bitvec_bit v k = b k"
  shows "\<exists>w. bitmatrix_mul_vec m v = Some w \<and> vec_ok r w \<and> (\<forall>i < r. bitvec_bit w i = mvec c (mat_bit m) b i)"
  using vec_ok_mul [OF assms(1,2)] mvec_cong [of c "bitvec_bit v" b] assms(3) by auto

lemma combine_frame_run:
  assumes g: "gadget_ok g" "pg_decoded g = Some d" and ib: "length ib = num_in g"
    and rb: "rb = (case pg_remote g of None \<Rightarrow> None | Some _ \<Rightarrow> Some bits)" "length bits = length (remote_refs g)"
    and bits: "ib = input_bits T g" "bits = remote_bits T g"
  shows "\<exists>f. combine_frame g d ib rb = Some f \<and> frame_equation T g f"
proof -
  let ?ro = "num_readouts g" and ?r = "num_output_observables g" and ?ni = "num_in g + 1"
  let ?inp = "\<lambda>j. (ib @ [True]) ! j"
  obtain raw meas where loaded: "pg_raw_readouts g = Some raw" "pg_raw_measurements g = Some meas"
      "vec_ok ?ro raw" "vec_ok (num_measurements g) meas" "vec_ok ?ro (fr_readouts d)" "vec_ok ?r (fr_residual d)"
    using g by (force simp: gadget_ok_def loads_ok_def frame_ok_def)
  have m: "dense_ok ?r ?ni (pg_correction_propagation g)" "dense_ok ?ro ?ni (pg_readout_propagation g)"
      "dense_ok ?r ?ro (pg_logical_correction g)" "dense_ok ?r (num_measurements g) (pg_physical_correction g)"
      "\<And>refs m. pg_remote g = Some (refs, m) \<Longrightarrow> dense_ok ?r (length refs) m"
    using g(1) by (auto simp: gadget_ok_def matrices_ok_def)
  obtain inp where inp: "bitvec_from_iter (ib @ [True]) = Some inp" "vec_ok ?ni inp"
      "\<And>k. k < ?ni \<Longrightarrow> bitvec_bit inp k = ?inp k"
    using vec_ok_from_iter [of "ib @ [True]"] ib by auto
  obtain r0 where r0: "bitmatrix_mul_vec (pg_correction_propagation g) inp = Some r0" "vec_ok ?r r0"
      "\<forall>i < ?r. bitvec_bit r0 i = mvec ?ni (mat_bit (pg_correction_propagation g)) ?inp i"
    using mul_term [OF m(1) inp(2), of ?inp] inp(3) by auto
  obtain ph where ph: "bitmatrix_mul_vec (pg_physical_correction g) meas = Some ph" "vec_ok ?r ph"
      "\<forall>i < ?r. bitvec_bit ph i = mvec (num_measurements g) (mat_bit (pg_physical_correction g)) (bitvec_bit meas) i"
    using mul_term [OF m(4) loaded(4), of "bitvec_bit meas"] by auto
  obtain r1 where r1: "bitvec_bitxor_assign r0 ph = Some r1" "vec_ok ?r r1"
      "\<forall>i < ?r. bitvec_bit r1 i = (bitvec_bit r0 i \<noteq> bitvec_bit ph i)" using add_vec [OF r0(2) ph(2)] by auto
  obtain o1 where o1: "bitvec_bitxor_assign raw (fr_readouts d) = Some o1" "vec_ok ?ro o1"
      "\<forall>i < ?ro. bitvec_bit o1 i = (bitvec_bit raw i \<noteq> bitvec_bit (fr_readouts d) i)"
    using add_vec [OF loaded(3,5)] by auto
  obtain rp where rp: "bitmatrix_mul_vec (pg_readout_propagation g) inp = Some rp" "vec_ok ?ro rp"
      "\<forall>i < ?ro. bitvec_bit rp i = mvec ?ni (mat_bit (pg_readout_propagation g)) ?inp i"
    using mul_term [OF m(2) inp(2), of ?inp] inp(3) by auto
  obtain ro where ro: "bitvec_bitxor_assign o1 rp = Some ro" "vec_ok ?ro ro"
      "\<forall>i < ?ro. bitvec_bit ro i = (bitvec_bit o1 i \<noteq> bitvec_bit rp i)" using add_vec [OF o1(2) rp(2)] by auto
  obtain lg where lg: "bitmatrix_mul_vec (pg_logical_correction g) ro = Some lg" "vec_ok ?r lg"
      "\<forall>i < ?r. bitvec_bit lg i = mvec ?ro (mat_bit (pg_logical_correction g)) (bitvec_bit ro) i"
    using mul_term [OF m(3) ro(2), of "bitvec_bit ro"] by auto
  obtain r2 where r2: "bitvec_bitxor_assign r1 lg = Some r2" "vec_ok ?r r2"
      "\<forall>i < ?r. bitvec_bit r2 i = (bitvec_bit r1 i \<noteq> bitvec_bit lg i)" using add_vec [OF r1(2) lg(2)] by auto
  have "\<exists>rr r3. (case rb of Some bits \<Rightarrow> map_option Some (bitvec_from_iter bits) | None \<Rightarrow> Some None) = Some rr \<and>
      (case pg_remote g of
         Some (_, correction_matrix) \<Rightarrow> do {
           remote_readouts \<leftarrow> rr;
           remote \<leftarrow> bitmatrix_mul_vec correction_matrix remote_readouts;
           bitvec_bitxor_assign r2 remote }
       | None \<Rightarrow> Some r2) = Some r3 \<and> vec_ok ?r r3 \<and>
      (\<forall>i < ?r. bitvec_bit r3 i = (bitvec_bit r2 i \<noteq> (case pg_remote g of None \<Rightarrow> False | Some (refs, m) \<Rightarrow>
                mvec (length refs) (mat_bit m) (\<lambda>j. bits ! j) i)))"
  proof (cases "pg_remote g")
    case None
    with rb r2(2) show ?thesis by simp
  next
    case (Some p)
    obtain refs mm where p: "p = (refs, mm)" by (cases p)
    with Some rb have l: "length bits = length refs" by (simp add: remote_refs_def)
    obtain v where v: "bitvec_from_iter bits = Some v" "vec_ok (length refs) v"
        "\<And>k. k < length refs \<Longrightarrow> bitvec_bit v k = bits ! k"
      using vec_ok_from_iter [of bits] l by auto
    obtain w where w: "bitmatrix_mul_vec mm v = Some w" "vec_ok ?r w"
        "\<forall>i < ?r. bitvec_bit w i = mvec (length refs) (mat_bit mm) ((!) bits) i"
      using mul_term [OF m(5) [OF Some [unfolded p]] v(2), of "(!) bits"] v(3) by auto
    from add_vec [OF r2(2) w(2)] w(3) Some p rb(1) v(1) w(1) show ?thesis by auto
  qed
  then obtain rr r3 where r3: "(case rb of Some bits \<Rightarrow> map_option Some (bitvec_from_iter bits) | None \<Rightarrow> Some None) = Some rr"
      "(case pg_remote g of
         Some (_, correction_matrix) \<Rightarrow> do {
           remote_readouts \<leftarrow> rr;
           remote \<leftarrow> bitmatrix_mul_vec correction_matrix remote_readouts;
           bitvec_bitxor_assign r2 remote }
       | None \<Rightarrow> Some r2) = Some r3" "vec_ok ?r r3"
      "\<forall>i < ?r. bitvec_bit r3 i = (bitvec_bit r2 i \<noteq> (case pg_remote g of None \<Rightarrow> False | Some (refs, m) \<Rightarrow>
                mvec (length refs) (mat_bit m) (\<lambda>j. bits ! j) i))" by blast
  obtain r4 where r4: "bitvec_bitxor_assign r3 (fr_residual d) = Some r4" "vec_ok ?r r4"
      "\<forall>i < ?r. bitvec_bit r4 i = (bitvec_bit r3 i \<noteq> bitvec_bit (fr_residual d) i)"
    using add_vec [OF r3(3) loaded(6)] by auto
  have "combine_frame g d ib rb = Some \<lparr>fr_readouts = ro, fr_residual = r4\<rparr>"
    by (simp add: combine_frame_def r3(1,2) inp(1) r0(1) loaded(1,2) ph(1) r1(1) o1(1) rp(1) ro(1) lg(1) r2(1) r4(1))
  moreover have "frame_equation T g \<lparr>fr_readouts = ro, fr_residual = r4\<rparr>"
    using ro(2,3) r4(2,3) o1(3) rp(3) r3(4) [unfolded bits(2)] r2(3) r1(3) r0(3) ph(3) lg(3) loaded(1,2) g(2) bits(1)
    by (simp add: frame_equation_def frame_ok_def Let_def)
  ultimately show ?thesis by blast
qed

definition all_ok :: "tracker \<Rightarrow> bool" where
  "all_ok T \<longleftrightarrow> (\<forall>x g. T x = Some g \<longrightarrow> gadget_ok g \<and> wired T g)"

lemma length_input_bits: "wired T g \<Longrightarrow> length (input_bits T g) = num_in g"
  by (simp add: wired_def input_bits_def length_concat connector_bits_def comp_def)

lemma compute_frame_run:
  assumes "all_ok T" "T x = Some g"
  shows "\<exists>f. compute_frame T g = Some (if ready T g then Some f else None) \<and> (ready T g \<longrightarrow> frame_equation T g f)"
proof (cases "pg_decoded g")
  case None
  then show ?thesis by (simp add: compute_frame_def ready_def)
next
  case (Some d)
  have g: "gadget_ok g" "wired T g" using assms by (auto simp: all_ok_def)
  have ins: "gather_inputs T (pg_inputs g) [] = Some (if \<forall>c \<in> set (pg_inputs g). frame_of T (con_gid c) \<noteq> None
      then Some (input_bits T g) else None)"
    using gather_inputs_run [of "pg_inputs g" T "[]"] g(2) assms(1)
    by (force simp: wired_def all_ok_def input_bits_def)
  have rem: "gather_remote T (remote_refs g) [] = Some (if \<forall>r \<in> set (remote_refs g). frame_of T (rr_gid r) \<noteq> None
      then Some (remote_bits T g) else None)"
    using gather_remote_run [of "remote_refs g" T "[]"] g(2) assms(1)
    by (force simp: wired_def all_ok_def remote_bits_def)
  obtain f where f: "combine_frame g d (input_bits T g) (case pg_remote g of None \<Rightarrow> None | Some _ \<Rightarrow> Some (remote_bits T g)) = Some f"
      "frame_equation T g f"
    using combine_frame_run [OF g(1) Some length_input_bits [OF g(2)] refl _ refl refl] by (auto simp: remote_bits_def)
  show ?thesis
  proof (cases "\<forall>c \<in> set (pg_inputs g). frame_of T (con_gid c) \<noteq> None")
    case False
    then have "\<not> ready T g" by (auto simp: ready_def sources_def)
    moreover have "gather_inputs T (pg_inputs g) [] = Some None" using ins False by (simp only: if_False)
    ultimately show ?thesis using Some by (simp add: compute_frame_def)
  next
    case True
    show ?thesis
      using ins rem Some f True
      by (auto simp: compute_frame_def ready_def sources_def remote_refs_def split: option.splits)
  qed
qed

text \<open>A gadget reads of another only its frame and its output ports.\<close>

definition peer_view :: "frame_gadget \<Rightarrow> pauli_frame option \<times> nat list \<times> nat" where
  "peer_view p = (pg_frame p, pg_output_bias p, num_output_observables p)"

definition same_peers :: "tracker \<Rightarrow> tracker \<Rightarrow> nat \<Rightarrow> bool" where
  "same_peers T T' x \<longleftrightarrow> map_option peer_view (T x) = map_option peer_view (T' x)"

lemma same_peersE:
  assumes "same_peers T T' x"
  obtains "T x = None" "T' x = None" |
    p q where "T x = Some p" "T' x = Some q" "pg_frame q = pg_frame p"
      "get_residual_slice q = get_residual_slice p"
  using assms by (cases "T x"; cases "T' x")
    (auto simp: same_peers_def peer_view_def get_residual_slice_def fun_eq_iff)

lemma gather_inputs_cong:
  "(\<And>c. c \<in> set cs \<Longrightarrow> same_peers T T' (con_gid c)) \<Longrightarrow> gather_inputs T cs acc = gather_inputs T' cs acc"
proof (induction cs arbitrary: acc)
  case (Cons c cs)
  then have "gather_inputs T cs = gather_inputs T' cs" by (auto simp: fun_eq_iff)
  with Cons.prems [of c] show ?case by (auto elim!: same_peersE cong: option.case_cong)
qed simp

lemma gather_remote_cong:
  "(\<And>r. r \<in> set rs \<Longrightarrow> same_peers T T' (rr_gid r)) \<Longrightarrow> gather_remote T rs acc = gather_remote T' rs acc"
proof (induction rs arbitrary: acc)
  case (Cons r rs)
  then have "gather_remote T rs = gather_remote T' rs" by (auto simp: fun_eq_iff)
  with Cons.prems [of r] show ?case by (auto elim!: same_peersE cong: option.case_cong)
qed simp

lemma compute_frame_cong:
  assumes "\<And>x. x \<in> sources g \<Longrightarrow> same_peers T T' x"
  shows "compute_frame T (g\<lparr>pg_frame := a\<rparr>) = compute_frame T' g"
proof -
  have "gather_inputs T (pg_inputs g) [] = gather_inputs T' (pg_inputs g) []"
    by (rule gather_inputs_cong) (use assms in \<open>simp add: sources_def\<close>)
  moreover have "gather_remote T (remote_refs g) [] = gather_remote T' (remote_refs g) []"
    by (rule gather_remote_cong) (use assms in \<open>simp add: sources_def\<close>)
  moreover have "combine_frame (g\<lparr>pg_frame := a\<rparr>) = combine_frame g" by (simp add: combine_frame_def fun_eq_iff)
  ultimately show ?thesis by (simp add: compute_frame_def remote_refs_def split: option.splits prod.splits cong: option.case_cong)
qed

section \<open>Propagation\<close>

text \<open>Everything but the frames.\<close>

definition erase :: "tracker \<Rightarrow> tracker" where
  "erase T = (\<lambda>x. map_option (\<lambda>g. g\<lparr>pg_frame := None\<rparr>) (T x))"

definition successors :: "frame_gadget \<Rightarrow> nat list" where
  "successors g = map con_gid (map the (filter (\<lambda>p. p \<noteq> None) (pg_outputs g))) @ pg_remote_dependents g"

text \<open>The gadget graph: every consumer is registered with its sources and comes later in \<open>rank\<close>.\<close>

definition graph_ok :: "(nat \<Rightarrow> nat) \<Rightarrow> nat \<Rightarrow> tracker \<Rightarrow> bool" where
  "graph_ok rank B T \<longleftrightarrow>
     (\<forall>x g. T x = Some g \<longrightarrow> rank x \<le> B \<and>
        (\<forall>y \<in> sources g. \<exists>p. T y = Some p \<and> x \<in> set (successors p)) \<and>
        (\<forall>y \<in> set (successors g). T y \<noteq> None \<and> rank x < rank y))"

text \<open>A gadget's frame is what the rest of the tracker determines.\<close>

definition locally_correct :: "tracker \<Rightarrow> nat \<Rightarrow> bool" where
  "locally_correct T x \<longleftrightarrow> (\<forall>g. T x = Some g \<longrightarrow> compute_frame T g = Some (pg_frame g))"

definition settled_except :: "(nat \<Rightarrow> nat) \<Rightarrow> nat \<Rightarrow> tracker \<Rightarrow> nat set \<Rightarrow> bool" where
  "settled_except rank B T D \<longleftrightarrow> all_ok T \<and> graph_ok rank B T \<and>
     (\<forall>x g. T x = Some g \<longrightarrow> pg_frame g \<noteq> None \<longrightarrow> ready T g) \<and> (\<forall>x. x \<notin> D \<longrightarrow> locally_correct T x)"

text \<open>What an update message says of a frame, and how a propagation changes the tracker.\<close>

definition reports :: "bit_vector \<Rightarrow> pauli_frame \<Rightarrow> bool" where
  "reports b f \<longleftrightarrow> bv_wf b \<and> padding_clear b \<and> bv_list b = map (bitvec_bit (fr_readouts f)) [0..<bit_length (fr_readouts f)]"

definition evolves :: "tracker \<times> frame_updates \<Rightarrow> tracker \<times> frame_updates \<Rightarrow> bool" where
  "evolves s t \<longleftrightarrow> erase (fst t) = erase (fst s) \<and>
     (\<forall>x. frame_of (fst t) x = frame_of (fst s) x \<and> snd t x = snd s x \<or>
          (\<exists>f b. frame_of (fst t) x = Some f \<and> snd t x = Some b \<and> reports b f))"

text \<open>When only gadgets without a frame wait for repair, frames that exist never change again.\<close>

definition cautious :: "tracker \<Rightarrow> bool" where
  "cautious T \<longleftrightarrow> (\<forall>x. frame_of T x \<noteq> None \<longrightarrow> locally_correct T x)"

definition commits :: "tracker \<times> frame_updates \<Rightarrow> tracker \<times> frame_updates \<Rightarrow> bool" where
  "commits s t \<longleftrightarrow> (\<forall>x. frame_of (fst s) x \<noteq> None \<longrightarrow>
     frame_of (fst t) x = frame_of (fst s) x \<and> snd t x = snd s x)"

lemma commits_refl [simp]: "commits s s"
  by (simp add: commits_def)

lemma commits_trans: "commits s t \<Longrightarrow> commits t u \<Longrightarrow> commits s u"
  unfolding commits_def by metis

lemma evolves_refl [simp]: "evolves s s"
  by (simp add: evolves_def)

lemma evolves_trans: "evolves s t \<Longrightarrow> evolves t u \<Longrightarrow> evolves s u"
  unfolding evolves_def by metis

lemma frame_bit_vector_run:
  assumes "vec_ok n v"
  shows "\<exists>b. frame_bit_vector v n = Some b \<and> bv_wf b \<and> padding_clear b \<and> bv_list b = map (bitvec_bit v) [0..<n]"
proof -
  have "omap (bitvec_index v) [0..<bit_length v] = Some (map (bitvec_bit v) [0..<n])"
    using omap_total [of "[0..<n]" "bitvec_index v" "bitvec_bit v"] vec_ok_index [OF assms] assms
    by (simp add: vec_ok_def)
  with binar_bitvec_to_bit_vector_run [of "map (bitvec_bit v) [0..<n]"] show ?thesis
    by (auto simp: frame_bit_vector_def)
qed

lemma erase_update: "T x = Some g \<Longrightarrow> erase (T(x \<mapsto> g\<lparr>pg_frame := f\<rparr>)) = erase T"
  by (auto simp: erase_def fun_eq_iff)

text \<open>Every static notion reads the erased tracker.\<close>

lemma erase_lookup:
  assumes "erase T = erase T'" "T x = Some g"
  obtains g' where "T' x = Some g'" "g' = g\<lparr>pg_frame := pg_frame g'\<rparr>"
proof -
  from assms have "map_option (\<lambda>g. g\<lparr>pg_frame := None\<rparr>) (T' x) = Some (g\<lparr>pg_frame := None\<rparr>)"
    by (metis erase_def option.simps(9))
  then obtain g' where g': "T' x = Some g'" "g'\<lparr>pg_frame := None\<rparr> = g\<lparr>pg_frame := None\<rparr>" by auto
  then have "g' = g\<lparr>pg_frame := pg_frame g'\<rparr>" by (cases g, cases g') simp
  with g'(1) that show thesis by blast
qed

lemma static_simps [simp]:
  "matrices_ok (g\<lparr>pg_frame := f\<rparr>) = matrices_ok g" "ports_ok (g\<lparr>pg_frame := f\<rparr>) = ports_ok g"
  "successors (g\<lparr>pg_frame := f\<rparr>) = successors g" "sources (g\<lparr>pg_frame := f\<rparr>) = sources g"
  "num_readouts (g\<lparr>pg_frame := f\<rparr>) = num_readouts g"
  "num_output_observables (g\<lparr>pg_frame := f\<rparr>) = num_output_observables g"
  "num_measurements (g\<lparr>pg_frame := f\<rparr>) = num_measurements g"
  "num_in (g\<lparr>pg_frame := f\<rparr>) = num_in g" "port_range (g\<lparr>pg_frame := f\<rparr>) = port_range g"
  "remote_refs (g\<lparr>pg_frame := f\<rparr>) = remote_refs g" "frame_ok (g\<lparr>pg_frame := f\<rparr>) = frame_ok g"
  by (simp_all add: matrices_ok_def ports_ok_def successors_def sources_def num_readouts_def num_measurements_def
      num_output_observables_def num_in_def port_range_def port_stop_def remote_refs_def frame_ok_def fun_eq_iff)

lemma graph_ok_erase: "graph_ok rank B (erase T) = graph_ok rank B T"
proof -
  have e: "(erase T x = Some g) \<longleftrightarrow> (\<exists>h. T x = Some h \<and> g = h\<lparr>pg_frame := None\<rparr>)" for x g
    by (auto simp: erase_def)
  have n: "(erase T x = None) = (T x = None)" for x by (simp add: erase_def)
  have p: "(\<exists>p. (\<exists>h. T y = Some h \<and> p = h\<lparr>pg_frame := None\<rparr>) \<and> x \<in> set (successors p)) \<longleftrightarrow>
      (\<exists>p. T y = Some p \<and> x \<in> set (successors p))" for x y by auto
  have a: "(\<forall>x g. (\<exists>h. T x = Some h \<and> g = h\<lparr>pg_frame := None\<rparr>) \<longrightarrow> Q x g) \<longleftrightarrow>
      (\<forall>x g. T x = Some g \<longrightarrow> Q x (g\<lparr>pg_frame := None\<rparr>))" for Q by auto
  show ?thesis unfolding graph_ok_def e n p a by simp
qed

lemma frame_of_update: "T x = Some g \<Longrightarrow>
    frame_of (T(x \<mapsto> g\<lparr>pg_frame := a\<rparr>)) = (frame_of T)(x := a)"
  by (auto simp: frame_of_def fun_eq_iff)

lemma wired_cong:
  assumes "wired T h" and "pg_inputs h' = pg_inputs h" "remote_refs h' = remote_refs h" "num_in h' = num_in h"
    and "\<And>y p. y \<in> sources h \<Longrightarrow> T y = Some p \<Longrightarrow> \<exists>q. T' y = Some q \<and> pg_output_bias q = pg_output_bias p \<and>
      num_readouts q = num_readouts p \<and> num_output_observables q = num_output_observables p"
  shows "wired T' h'"
proof -
  have c: "\<exists>q. T' (con_gid c) = Some q \<and> con_port c < length (pg_output_bias q) \<and>
      port_range q (con_port c) = port_range (the (T (con_gid c))) (con_port c)" if c: "c \<in> set (pg_inputs h)" for c
  proof -
    obtain p where p: "T (con_gid c) = Some p" "con_port c < length (pg_output_bias p)"
      using assms(1) c by (auto simp: wired_def)
    with assms(5) [OF _ p(1)] c show ?thesis by (fastforce simp: sources_def port_range_def port_stop_def)
  qed
  have r: "\<exists>q. T' (rr_gid r) = Some q \<and> rr_readout_index r < num_readouts q" if r: "r \<in> set (remote_refs h)" for r
  proof -
    obtain p where p: "T (rr_gid r) = Some p" "rr_readout_index r < num_readouts p"
      using assms(1) r by (auto simp: wired_def)
    with assms(5) [OF _ p(1)] r show ?thesis by (fastforce simp: sources_def)
  qed
  have "map (\<lambda>c. length (port_range (the (T' (con_gid c))) (con_port c))) (pg_inputs h) =
      map (\<lambda>c. length (port_range (the (T (con_gid c))) (con_port c))) (pg_inputs h)"
    by (rule map_cong [OF refl]) (use c in force)
  then have "sum_list (map (\<lambda>c. length (port_range (the (T' (con_gid c))) (con_port c))) (pg_inputs h)) = num_in h"
    using assms(1) by (simp only: wired_def)
  moreover have "\<forall>c \<in> set (pg_inputs h). \<exists>q. T' (con_gid c) = Some q \<and> con_port c < length (pg_output_bias q)"
    using c by blast
  ultimately show ?thesis using r assms(2-4) by (simp add: wired_def)
qed

definition readers :: "tracker \<Rightarrow> nat \<Rightarrow> nat set" where
  "readers T x = {y. \<exists>h. T y = Some h \<and> x \<in> sources h}"

lemma readers_successors: "graph_ok rank B T \<Longrightarrow> T x = Some g \<Longrightarrow> readers T x \<subseteq> set (successors g)"
  by (force simp: graph_ok_def readers_def)

lemma set_frame_settles:
  assumes "settled_except rank B T D" "T x = Some g" "compute_frame T g = Some (Some f)"
  shows "settled_except rank B (T(x \<mapsto> g\<lparr>pg_frame := Some f\<rparr>)) ((D \<union> readers T x) - {x})" (is "settled_except _ _ ?T _")
proof -
  have ok: "all_ok T" and gr: "graph_ok rank B T"
    and rd: "\<And>y h. T y = Some h \<Longrightarrow> pg_frame h \<noteq> None \<Longrightarrow> ready T h"
    and lc: "\<And>y. y \<notin> D \<Longrightarrow> locally_correct T y" using assms(1) by (auto simp: settled_except_def)
  obtain f' where "compute_frame T g = Some (if ready T g then Some f' else None)" "ready T g \<longrightarrow> frame_equation T g f'"
    using compute_frame_run [OF ok assms(2)] by blast
  with assms(3) have rg: "ready T g" and fo: "frame_ok g f"
    by (auto simp: frame_equation_def split: if_splits)
  have mono: "ready ?T (h\<lparr>pg_frame := a\<rparr>)" if "ready T h" for h a
    using that assms(2) by (auto simp: ready_def frame_of_update)
  have self: "x \<notin> sources g" using gr assms(2) unfolding graph_ok_def by (metis less_irrefl option.inject)
  have cases: "\<exists>h b. T y = Some h \<and> k = h\<lparr>pg_frame := b\<rparr> \<and> (y = x \<longrightarrow> h = g \<and> b = Some f) \<and> (y \<noteq> x \<longrightarrow> k = h)"
    if "?T y = Some k" for y k
  proof (cases "y = x")
    case True
    with that assms(2) show ?thesis by auto
  next
    case False
    with that show ?thesis by (intro exI [of _ k] exI [of _ "pg_frame k"]) simp
  qed
  have "gadget_ok k \<and> wired ?T k \<and> (pg_frame k \<noteq> None \<longrightarrow> ready ?T k)" if k: "?T y = Some k" for y k
  proof -
    obtain h b where h: "T y = Some h" "k = h\<lparr>pg_frame := b\<rparr>" "y = x \<longrightarrow> h = g \<and> b = Some f" "y \<noteq> x \<longrightarrow> k = h"
      using cases [OF k] by blast
    have "gadget_ok h" "wired T h" using ok h(1) by (auto simp: all_ok_def)
    moreover have "gadget_ok k" using \<open>gadget_ok h\<close> h fo
      by (cases "y = x") (auto simp: gadget_ok_def loads_ok_def)
    moreover have "pg_frame k \<noteq> None \<longrightarrow> ready ?T k"
      using h rd [OF h(1)] mono [OF rg, of "Some f"] mono [of h "pg_frame h"] by (cases "y = x") auto
    moreover have "wired ?T k" unfolding h(2)
      by (rule wired_cong [OF \<open>wired T h\<close>]) (use assms(2) in \<open>auto split: if_splits\<close>)
    ultimately show ?thesis by blast
  qed
  moreover have "graph_ok rank B ?T"
    using gr erase_update [of T x g "Some f"] assms(2) by (metis graph_ok_erase)
  moreover have "locally_correct ?T y" if y: "y \<notin> (D \<union> readers T x) - {x}" for y
    unfolding locally_correct_def
  proof (intro allI impI)
    fix k assume k: "?T y = Some k"
    obtain h b where h: "T y = Some h" "k = h\<lparr>pg_frame := b\<rparr>" "y = x \<longrightarrow> h = g \<and> b = Some f" "y \<noteq> x \<longrightarrow> k = h"
      using cases [OF k] by blast
    have "x \<notin> sources h"
    proof (cases "y = x")
      case True
      with self h show ?thesis by simp
    next
      case False
      with y h(1) show ?thesis by (auto simp: readers_def)
    qed
    then have "compute_frame ?T k = compute_frame T h"
      unfolding h(2) by (intro compute_frame_cong) (auto simp: same_peers_def)
    moreover have "compute_frame T h = Some (pg_frame k)"
    proof (cases "y = x")
      case True
      with h assms(3) show ?thesis by simp
    next
      case False
      with y lc [of y] h show ?thesis by (simp add: locally_correct_def)
    qed
    ultimately show "compute_frame ?T k = Some (pg_frame k)" by simp
  qed
  ultimately show ?thesis by (auto simp: settled_except_def all_ok_def)
qed

lemma set_frame_cautious:
  assumes "settled_except rank B T D" "cautious T" "T x = Some g" "compute_frame T g = Some (Some f)"
    and "pg_frame g \<noteq> Some f"
  shows "frame_of T x = None" "cautious (T(x \<mapsto> g\<lparr>pg_frame := Some f\<rparr>))"
proof -
  let ?T = "T(x \<mapsto> g\<lparr>pg_frame := Some f\<rparr>)" and ?D = "{y. \<not> locally_correct T y}"
  have "\<not> locally_correct T x" using assms(3-5) by (auto simp: locally_correct_def)
  with assms(2) show new: "frame_of T x = None" by (auto simp: cautious_def)
  have "settled_except rank B T ?D" using assms(1) by (simp add: settled_except_def)
  from set_frame_settles [OF this assms(3,4)]
  have lc: "locally_correct ?T y" if "y = x \<or> y \<notin> ?D \<and> y \<notin> readers T x" for y
    using that by (auto simp: settled_except_def)
  show "cautious ?T" unfolding cautious_def
  proof (intro allI impI)
    fix y assume y: "frame_of ?T y \<noteq> None"
    show "locally_correct ?T y"
    proof (cases "y = x")
      case False
      with y assms(3) have fy: "frame_of T y \<noteq> None" by (simp add: frame_of_update)
      then obtain h where h: "T y = Some h" "pg_frame h \<noteq> None" by (auto simp: frame_of_def bind_eq_Some_conv)
      then have "ready T h" using assms(1) by (auto simp: settled_except_def)
      with new h(1) have "y \<notin> readers T x" by (auto simp: ready_def readers_def)
      with fy assms(2) lc show ?thesis by (auto simp: cautious_def)
    qed (use lc in simp)
  qed
qed

lemma ofold_outputs:
  "ofold (\<lambda>peer s. case peer of Some c \<Rightarrow> f (con_gid c) s | None \<Rightarrow> Some s) ps s =
   ofold f (map con_gid (map the (filter (\<lambda>p. p \<noteq> None) ps))) s"
  by (induction ps arbitrary: s) (auto simp: fun_eq_iff split: option.splits Option.bind_splits)

lemma propagate_unfold:
  assumes "T gid = Some g" "compute_frame T g = Some r" "vec_ok (num_readouts g) (fr_readouts (the r))"
  shows "r = None \<or> pg_frame g = r \<Longrightarrow> propagate_from gid (T, U) = Some (T, U)"
    and "r = Some f \<Longrightarrow> pg_frame g \<noteq> r \<Longrightarrow> \<exists>b. reports b f \<and> propagate_from gid (T, U) =
      ofold propagate_from (successors g) (T(gid \<mapsto> g\<lparr>pg_frame := Some f\<rparr>), U(gid \<mapsto> b))"
proof -
  show "propagate_from gid (T, U) = Some (T, U)" if "r = None \<or> pg_frame g = r"
    using that assms(1,2) by (subst propagate_from.simps) (auto split: option.splits)
  assume r: "r = Some f" "pg_frame g \<noteq> r"
  obtain b where b: "frame_bit_vector (fr_readouts f) (num_readouts g) = Some b" "bv_wf b" "padding_clear b"
      "bv_list b = map (bitvec_bit (fr_readouts f)) [0..<num_readouts g]"
    using frame_bit_vector_run [OF assms(3)] r(1) by auto
  have "propagate_from gid (T, U) = Option.bind (ofold propagate_from (map con_gid (map the (filter (\<lambda>p. p \<noteq> None) (pg_outputs g))))
      (T(gid \<mapsto> g\<lparr>pg_frame := Some f\<rparr>), U(gid \<mapsto> b))) (ofold propagate_from (pg_remote_dependents g))"
    using assms(1,2) r b(1) by (subst propagate_from.simps) (simp add: Let_def ofold_outputs)
  moreover have "reports b f" using b assms(3) r(1) by (auto simp: reports_def vec_ok_def)
  ultimately show "\<exists>b. reports b f \<and> propagate_from gid (T, U) =
      ofold propagate_from (successors g) (T(gid \<mapsto> g\<lparr>pg_frame := Some f\<rparr>), U(gid \<mapsto> b))"
    by (auto simp: successors_def ofold_append)
qed

lemma settled_subset: "settled_except rank B T D \<Longrightarrow> D \<subseteq> E \<Longrightarrow> settled_except rank B T E"
  by (auto simp: settled_except_def)

lemma erase_dom: "erase T = erase T' \<Longrightarrow> T x = None \<longleftrightarrow> T' x = None"
  by (metis erase_def map_option_is_None)

text \<open>A propagation returns, repairs the gadget it starts from and leaves no new one to repair.\<close>

lemma propagate_settles:
  assumes "settled_except rank B T D" "T gid \<noteq> None"
  shows "\<exists>s. propagate_from gid (T, U) = Some s \<and> settled_except rank B (fst s) (D - {gid}) \<and> evolves (T, U) s \<and>
    (cautious T \<longrightarrow> cautious (fst s) \<and> commits (T, U) s)"
  using assms
proof (induction "B - rank gid" arbitrary: gid T U D rule: less_induct)
  case less
  from less.prems(2) obtain g where g: "T gid = Some g" by blast
  have ok: "all_ok T" and gr: "graph_ok rank B T"
    and rd: "\<And>y h. T y = Some h \<Longrightarrow> pg_frame h \<noteq> None \<Longrightarrow> ready T h"
    using less.prems(1) by (auto simp: settled_except_def)
  obtain f where f: "compute_frame T g = Some (if ready T g then Some f else None)" "ready T g \<longrightarrow> frame_equation T g f"
    using compute_frame_run [OF ok g] by blast
  let ?r = "if ready T g then Some f else None"
  show ?case
  proof (cases "?r = None \<or> pg_frame g = ?r")
    case True
    then have keep: "pg_frame g = ?r" using rd [OF g] by (cases "ready T g"; cases "pg_frame g") auto
    have "propagate_from gid (T, U) = Some (T, U)"
      using keep g f(1) by (subst propagate_from.simps) (auto split: option.splits)
    moreover have "locally_correct T gid" using g f(1) keep by (simp add: locally_correct_def)
    then have "settled_except rank B T (D - {gid})"
      using less.prems(1) unfolding settled_except_def by blast
    ultimately show ?thesis by (intro exI [of _ "(T, U)"]) simp
  next
    case False
    then have r: "ready T g" "pg_frame g \<noteq> Some f" by (auto split: if_splits)
    with f have cf: "compute_frame T g = Some (Some f)" and fe: "frame_ok g f" by (auto simp: frame_equation_def)
    let ?T = "T(gid \<mapsto> g\<lparr>pg_frame := Some f\<rparr>)"
    obtain b where b: "reports b f" "propagate_from gid (T, U) = ofold propagate_from (successors g) (?T, U(gid \<mapsto> b))"
      using propagate_unfold(2) [where r = "Some f", OF g cf _ refl r(2)] fe by (auto simp: frame_ok_def)
    have fold: "\<exists>s. ofold propagate_from ys (T1, U1) = Some s \<and> settled_except rank B (fst s) (E - set ys) \<and>
        evolves (T1, U1) s \<and> (cautious T1 \<longrightarrow> cautious (fst s) \<and> commits (T1, U1) s)"
      if "settled_except rank B T1 E" "\<forall>y \<in> set ys. T1 y \<noteq> None \<and> rank gid < rank y \<and> rank y \<le> B" for ys T1 U1 E
      using that
    proof (induction ys arbitrary: T1 U1 E)
      case Nil
      then show ?case by simp
    next
      case (Cons y ys)
      have lt: "B - rank y < B - rank gid" using Cons.prems(2) by auto
      then obtain s where s: "propagate_from y (T1, U1) = Some s" "settled_except rank B (fst s) (E - {y})"
          "evolves (T1, U1) s" "cautious T1 \<longrightarrow> cautious (fst s) \<and> commits (T1, U1) s"
        using less.hyps [OF lt Cons.prems(1), of U1] Cons.prems(2) by auto
      have "\<forall>z. fst s z = None \<longleftrightarrow> T1 z = None" using s(3) erase_dom unfolding evolves_def by (metis fst_conv)
      with Cons.IH [OF s(2), of "snd s"] Cons.prems(2) obtain t where t: "ofold propagate_from ys s = Some t"
          "settled_except rank B (fst t) (E - {y} - set ys)" "evolves s t"
          "cautious (fst s) \<longrightarrow> cautious (fst t) \<and> commits s t" by auto
      moreover have e: "E - {y} - set ys = E - set (y # ys)" by auto
      ultimately show ?case using s(1,4) evolves_trans [OF s(3) t(3)] commits_trans [of "(T1, U1)" s t]
        by (intro exI [of _ t]) auto
    qed
    have succ: "\<forall>y \<in> set (successors g). ?T y \<noteq> None \<and> rank gid < rank y \<and> rank y \<le> B"
      using gr g unfolding graph_ok_def by (metis fun_upd_apply not_None_eq)
    have after: "settled_except rank B ?T ((D \<union> set (successors g)) - {gid})"
      by (rule settled_subset [OF set_frame_settles [OF less.prems(1) g cf]])
        (use readers_successors [OF gr g] in blast)
    obtain s where s: "ofold propagate_from (successors g) (?T, U(gid \<mapsto> b)) = Some s"
        "settled_except rank B (fst s) (((D \<union> set (successors g)) - {gid}) - set (successors g))"
        "evolves (?T, U(gid \<mapsto> b)) s"
        "cautious ?T \<longrightarrow> cautious (fst s) \<and> commits (?T, U(gid \<mapsto> b)) s"
      using fold [OF after succ] by blast
    have "evolves (T, U) (?T, U(gid \<mapsto> b))"
      using b(1) g erase_update [of T gid g "Some f"] by (auto simp: evolves_def frame_of_update)
    then have "evolves (T, U) s" using s(3) by (rule evolves_trans)
    moreover have settled: "settled_except rank B (fst s) (D - {gid})" by (rule settled_subset [OF s(2)]) auto
    moreover have "cautious (fst s) \<and> commits (T, U) s" if "cautious T"
    proof -
      note new = set_frame_cautious [OF less.prems(1) that g cf r(2)]
      have "commits (T, U) (?T, U(gid \<mapsto> b))" using new(1) g by (simp add: commits_def frame_of_update)
      with new(2) s(4) commits_trans show ?thesis by blast
    qed
    ultimately show ?thesis using b(2) s(1) by auto
  qed
qed

section \<open>Loading\<close>

text \<open>A gadget without what the loads and the propagation write.\<close>

definition blank :: "frame_gadget \<Rightarrow> frame_gadget" where
  "blank g = g\<lparr>pg_frame := None, pg_raw_readouts := None, pg_raw_measurements := None, pg_decoded := None\<rparr>"

lemma blankD:
  assumes "blank h = blank g"
  shows "pg_inputs h = pg_inputs g" "pg_outputs h = pg_outputs g" "pg_remote h = pg_remote g"
    "pg_remote_dependents h = pg_remote_dependents g" "pg_output_bias h = pg_output_bias g"
    "pg_correction_propagation h = pg_correction_propagation g" "pg_readout_propagation h = pg_readout_propagation g"
    "pg_logical_correction h = pg_logical_correction g" "pg_physical_correction h = pg_physical_correction g"
  using assms by (cases g; cases h; simp add: blank_def)+

lemma blank_static:
  assumes "blank h = blank g"
  shows "matrices_ok h = matrices_ok g" "ports_ok h = ports_ok g" "successors h = successors g"
    "sources h = sources g" "num_readouts h = num_readouts g" "num_output_observables h = num_output_observables g"
    "num_measurements h = num_measurements g" "num_in h = num_in g" "remote_refs h = remote_refs g" "frame_ok h = frame_ok g"
  using blankD [OF assms]
  by (simp_all add: matrices_ok_def ports_ok_def successors_def sources_def num_readouts_def num_measurements_def
      num_output_observables_def num_in_def port_range_def port_stop_def remote_refs_def frame_ok_def fun_eq_iff)

lemma load_keeps_graph:
  assumes "all_ok T" "graph_ok rank B T" "T x = Some g" "blank h = blank g" "loads_ok h"
  shows "all_ok (T(x \<mapsto> h))" "graph_ok rank B (T(x \<mapsto> h))"
proof -
  note s = blank_static [OF assms(4)] and d = blankD [OF assms(4)]
  have "wired (T(x \<mapsto> h)) k" if "wired T k0" "k = k0 \<or> k0 = g \<and> k = h" for k k0
    by (rule wired_cong [OF that(1)]) (use that(2) s d assms(3) in \<open>auto split: if_splits\<close>)
  then show "all_ok (T(x \<mapsto> h))"
    using assms(1,3,5) s unfolding all_ok_def by (auto simp: gadget_ok_def split: if_splits)
  show "graph_ok rank B (T(x \<mapsto> h))"
    unfolding graph_ok_def
  proof (intro allI impI)
    fix y k assume k: "(T(x \<mapsto> h)) y = Some k"
    then obtain k0 where k0: "T y = Some k0" "sources k = sources k0" "successors k = successors k0"
      using s assms(3) by (cases "y = x") auto
    have r: "(\<exists>p. (T(x \<mapsto> h)) z = Some p \<and> y \<in> set (successors p)) \<longleftrightarrow> (\<exists>p. T z = Some p \<and> y \<in> set (successors p))"
      and n: "((T(x \<mapsto> h)) z \<noteq> None) \<longleftrightarrow> (T z \<noteq> None)" for z
      using assms(3) s by auto
    from assms(2) k0 show "rank y \<le> B \<and> (\<forall>z\<in>sources k. \<exists>p. (T(x \<mapsto> h)) z = Some p \<and> y \<in> set (successors p)) \<and>
        (\<forall>z\<in>set (successors k). (T(x \<mapsto> h)) z \<noteq> None \<and> rank y < rank z)"
      unfolding graph_ok_def r n by simp
  qed
qed

lemma load_settles:
  assumes "settled_except rank B T {}" "T x = Some g" "blank h = blank g" "loads_ok h" "pg_frame h = pg_frame g"
    and "pg_frame g \<noteq> None \<Longrightarrow> pg_decoded h \<noteq> None"
  shows "settled_except rank B (T(x \<mapsto> h)) {x}"
proof -
  have ok: "all_ok T" "graph_ok rank B T" and lc: "\<And>y. locally_correct T y"
    and rd: "\<And>y k. T y = Some k \<Longrightarrow> pg_frame k \<noteq> None \<Longrightarrow> ready T k" using assms(1) by (auto simp: settled_except_def)
  have fr: "frame_of (T(x \<mapsto> h)) = frame_of T" using assms(2,5) by (auto simp: frame_of_def fun_eq_iff)
  have "ready (T(x \<mapsto> h)) k" if "(T(x \<mapsto> h)) y = Some k" "pg_frame k \<noteq> None" for y k
  proof (cases "y = x")
    case True
    with that rd [OF assms(2)] assms(5,6) blank_static(4) [OF assms(3)] fr show ?thesis by (simp add: ready_def)
  next
    case False
    with that rd [of y k] fr show ?thesis by (simp add: ready_def)
  qed
  moreover have "locally_correct (T(x \<mapsto> h)) y" if "y \<noteq> x" for y
    unfolding locally_correct_def
  proof (intro allI impI)
    fix k assume k: "(T(x \<mapsto> h)) y = Some k"
    have "same_peers (T(x \<mapsto> h)) T z" for z
      using assms(2,5) blankD [OF assms(3)] by (auto simp: same_peers_def peer_view_def num_output_observables_def)
    then have "compute_frame (T(x \<mapsto> h)) (k\<lparr>pg_frame := pg_frame k\<rparr>) = compute_frame T k"
      by (intro compute_frame_cong) blast
    with k lc [of y] that show "compute_frame (T(x \<mapsto> h)) k = Some (pg_frame k)" by (simp add: locally_correct_def)
  qed
  ultimately show ?thesis using load_keeps_graph [OF ok assms(2-4)] by (auto simp: settled_except_def)
qed

text \<open>The tracker's invariant: the graph is well formed and every frame is up to date.\<close>

definition settled :: "tracker \<Rightarrow> bool" where
  "settled T \<longleftrightarrow> (\<exists>rank B. settled_except rank B T {})"

lemma settledI: "settled_except rank B T {x} \<Longrightarrow> locally_correct T x \<Longrightarrow> settled T"
  unfolding settled_def settled_except_def by (intro exI [of _ rank] exI [of _ B]) auto

lemma settled_new: "settled tracker_new"
  by (auto simp: settled_def settled_except_def tracker_new_def all_ok_def graph_ok_def locally_correct_def)

lemma load_raw_run:
  assumes "settled T" "T gid = Some g" "pg_raw_readouts g = None"
    and "length raw_readouts = num_readouts g" "bv_wf raw" "bv_size raw = num_measurements g"
  shows "\<exists>ro ms. load_raw gid raw_readouts raw T = Some (T(gid \<mapsto> g\<lparr>pg_raw_readouts := Some ro, pg_raw_measurements := Some ms\<rparr>)) \<and>
    settled (T(gid \<mapsto> g\<lparr>pg_raw_readouts := Some ro, pg_raw_measurements := Some ms\<rparr>)) \<and>
    vec_ok (num_readouts g) ro \<and> (\<forall>i < num_readouts g. bitvec_bit ro i = raw_readouts ! i) \<and>
    vec_ok (num_measurements g) ms \<and> (\<forall>i < num_measurements g. bitvec_bit ms i = bv_bit raw i)"
proof -
  obtain rank B where st: "settled_except rank B T {}" using assms(1) by (auto simp: settled_def)
  then have "loads_ok g" and lc: "locally_correct T gid" using assms(2) by (auto simp: settled_except_def all_ok_def gadget_ok_def)
  then have l: "pg_raw_measurements g = None" "pg_decoded g = None" using assms(3) by (auto simp: loads_ok_def)
  have fr: "pg_frame g = None" using lc assms(2) l(2) by (simp add: locally_correct_def compute_frame_def)
  obtain ro where ro: "bitvec_from_iter raw_readouts = Some ro" "vec_ok (num_readouts g) ro"
      "bitvec_bit ro = (\<lambda>i. i < num_readouts g \<and> raw_readouts ! i)"
    using vec_ok_from_iter [of raw_readouts] assms(4) by auto
  let ?ms = "map (bv_bit raw) [0..<bv_size raw]"
  have get: "omap (get_bit raw) [0..<bv_size raw] = Some ?ms"
    by (rule omap_total) (use assms(5) in \<open>simp add: get_bit_Some\<close>)
  obtain ms where ms: "bitvec_from_iter ?ms = Some ms" "vec_ok (num_measurements g) ms"
      "bitvec_bit ms = (\<lambda>i. i < num_measurements g \<and> ?ms ! i)"
    using vec_ok_from_iter [of ?ms] assms(6) by auto
  let ?h = "g\<lparr>pg_raw_readouts := Some ro, pg_raw_measurements := Some ms\<rparr>"
  have b: "blank ?h = blank g" by (simp add: blank_def)
  have "loads_ok ?h" using l fr ro(2) ms(2) blank_static [OF b] by (simp add: loads_ok_def)
  from load_settles [OF st assms(2) b this] fr have "settled_except rank B (T(gid \<mapsto> ?h)) {gid}" by simp
  moreover have "locally_correct (T(gid \<mapsto> ?h)) gid" using l(2) fr by (simp add: locally_correct_def compute_frame_def)
  ultimately have "settled (T(gid \<mapsto> ?h))" by (rule settledI)
  moreover have "load_raw gid raw_readouts raw T = Some (T(gid \<mapsto> ?h))"
    using assms(2-4,6) l(1) ro(1) get ms(1) by (simp add: load_raw_def)
  moreover have "\<forall>i < num_readouts g. bitvec_bit ro i = raw_readouts ! i" using ro(3) by simp
  moreover have "\<forall>i < num_measurements g. bitvec_bit ms i = bv_bit raw i" using ms(3) assms(6) by simp
  ultimately show ?thesis using ro(2) ms(2) by blast
qed

lemma decode_settles:
  assumes "settled_except rank B T {}" "T gid = Some g" "pg_raw_readouts g \<noteq> None"
    and "frame_ok g d"
  shows "settled_except rank B (T(gid \<mapsto> g\<lparr>pg_decoded := Some d\<rparr>)) {gid}"
proof (rule load_settles [OF assms(1,2)])
  show b: "blank (g\<lparr>pg_decoded := Some d\<rparr>) = blank g" by (simp add: blank_def)
  have "loads_ok g" using assms(1,2) by (auto simp: settled_except_def all_ok_def gadget_ok_def)
  then show "loads_ok (g\<lparr>pg_decoded := Some d\<rparr>)" using assms(3,4) blank_static [OF b] by (auto simp: loads_ok_def)
qed simp_all

lemma load_correction_run:
  assumes "settled T" "T gid = Some g" "pg_raw_readouts g \<noteq> None" "frame_ok g \<lparr>fr_readouts = flips, fr_residual = residual\<rparr>"
  shows "\<exists>T' updates. load_correction gid residual flips T = Some (T', updates) \<and> settled T' \<and>
    erase T' = erase (T(gid \<mapsto> g\<lparr>pg_decoded := Some \<lparr>fr_readouts = flips, fr_residual = residual\<rparr>\<rparr>)) \<and>
    (\<forall>x. (updates x = None \<and> frame_of T' x = frame_of T x) \<or>
         (\<exists>f b. updates x = Some b \<and> frame_of T' x = Some f \<and> reports b f))"
proof -
  let ?h = "g\<lparr>pg_decoded := Some \<lparr>fr_readouts = flips, fr_residual = residual\<rparr>\<rparr>"
  obtain rank B where st: "settled_except rank B T {}" using assms(1) by (auto simp: settled_def)
  note h = decode_settles [OF st assms(2-4)]
  obtain s where s: "propagate_from gid (T(gid \<mapsto> ?h), \<lambda>_. None) = Some s" "settled_except rank B (fst s) ({gid} - {gid})"
      "evolves (T(gid \<mapsto> ?h), \<lambda>_. None) s"
    using propagate_settles [OF h, of gid "\<lambda>_. None"] by auto
  have "frame_of (T(gid \<mapsto> ?h)) = frame_of T" using assms(2) by (auto simp: frame_of_def fun_eq_iff)
  with s assms(2,3) show ?thesis
    by (intro exI [of _ "fst s"] exI [of _ "snd s"]) (auto simp: load_correction_def evolves_def settled_def)
qed

text \<open>C28. Loading a decoder's correction into a settled tracker returns, whatever the shape of the gadget
  graph; it leaves every frame equal to what its gadget's data and its sources' frames determine, changes
  nothing but the decoded data of that gadget and frames, and its update messages are exactly the readouts
  of the frames it leaves behind: a gadget without a message keeps its frame.\<close>

theorem load_correction_settles:
  assumes "settled T" "T gid = Some g" "pg_raw_readouts g \<noteq> None" "frame_ok g \<lparr>fr_readouts = flips, fr_residual = residual\<rparr>"
  shows "\<exists>T' updates. load_correction gid residual flips T = Some (T', updates) \<and> settled T' \<and>
    erase T' = erase (T(gid \<mapsto> g\<lparr>pg_decoded := Some \<lparr>fr_readouts = flips, fr_residual = residual\<rparr>\<rparr>)) \<and>
    (\<forall>x. (updates x = None \<and> frame_of T' x = frame_of T x) \<or>
         (\<exists>f b. updates x = Some b \<and> frame_of T' x = Some f \<and> reports b f))"
  using assms by (rule load_correction_run)

text \<open>The frames are a function of what was loaded.\<close>

lemma frames_determined:
  assumes "settled T" "settled T'" "erase T = erase T'"
  shows "T = T'"
proof -
  obtain rank B where st: "settled_except rank B T {}" using assms(1) by (auto simp: settled_def)
  have "T x = T' x" for x
  proof (induction "rank x" arbitrary: x rule: less_induct)
    case less
    show ?case
    proof (cases "T x")
      case None
      with assms(3) erase_dom show ?thesis by metis
    next
      case (Some g)
      then obtain h where h: "T' x = Some h" "h = g\<lparr>pg_frame := pg_frame h\<rparr>"
        using erase_lookup [OF assms(3)] by blast
      have "T y = T' y" if "y \<in> sources g" for y
      proof (rule less)
        show "rank y < rank x" using st Some that unfolding settled_except_def graph_ok_def by blast
      qed
      then have "compute_frame T' h = compute_frame T g"
        by (subst h(2)) (rule compute_frame_cong, simp add: same_peers_def)
      moreover have "compute_frame T g = Some (pg_frame g)" "compute_frame T' h = Some (pg_frame h)"
        using assms(1,2) Some h(1) by (auto simp: settled_def settled_except_def locally_correct_def)
      ultimately have "pg_frame h = pg_frame g" by simp
      with h Some show ?thesis by simp
    qed
  qed
  then show ?thesis by (rule ext)
qed

lemma erase_load: "erase T = erase T' \<Longrightarrow> T x = Some g \<Longrightarrow> T' x = Some h \<Longrightarrow>
    erase (T(x \<mapsto> g\<lparr>pg_decoded := d\<rparr>)) = erase (T'(x \<mapsto> h\<lparr>pg_decoded := d\<rparr>))"
proof (rule ext)
  fix y assume e: "erase T = erase T'" "T x = Some g" "T' x = Some h"
  obtain h' where "T' x = Some h'" "h' = g\<lparr>pg_frame := pg_frame h'\<rparr>" using erase_lookup [OF e(1,2)] by blast
  with e(3) have "h = g\<lparr>pg_frame := pg_frame h\<rparr>" by simp
  then have "(h\<lparr>pg_decoded := d\<rparr>)\<lparr>pg_frame := None\<rparr> = (g\<lparr>pg_decoded := d\<rparr>)\<lparr>pg_frame := None\<rparr>"
    by (cases g; cases h) simp
  with fun_cong [OF e(1), of y] show "erase (T(x \<mapsto> g\<lparr>pg_decoded := d\<rparr>)) y = erase (T'(x \<mapsto> h\<lparr>pg_decoded := d\<rparr>)) y"
    by (simp add: erase_def)
qed

lemma load_again:
  assumes "settled T" "T a = Some g" "T b = Some h" "a \<noteq> b" "pg_raw_readouts g \<noteq> None" "pg_raw_readouts h \<noteq> None"
    and "frame_ok g \<lparr>fr_readouts = f1, fr_residual = r1\<rparr>" "frame_ok h \<lparr>fr_readouts = f2, fr_residual = r2\<rparr>"
  shows "\<exists>T1 U1 T2 U2. load_correction a r1 f1 T = Some (T1, U1) \<and> load_correction b r2 f2 T1 = Some (T2, U2) \<and> settled T2 \<and>
    erase T2 = erase (T(a \<mapsto> g\<lparr>pg_decoded := Some \<lparr>fr_readouts = f1, fr_residual = r1\<rparr>\<rparr>,
                        b \<mapsto> h\<lparr>pg_decoded := Some \<lparr>fr_readouts = f2, fr_residual = r2\<rparr>\<rparr>))"
proof -
  let ?T = "T(a \<mapsto> g\<lparr>pg_decoded := Some \<lparr>fr_readouts = f1, fr_residual = r1\<rparr>\<rparr>)"
  obtain T1 U1 where 1: "load_correction a r1 f1 T = Some (T1, U1)" "settled T1" "erase T1 = erase ?T"
    using load_correction_run [OF assms(1,2,5,7)] by blast
  have "?T b = Some h" using assms(3,4) by simp
  then obtain h' where h': "T1 b = Some h'" "h' = h\<lparr>pg_frame := pg_frame h'\<rparr>"
    using erase_lookup [OF 1(3) [symmetric]] by blast
  have "pg_raw_readouts (h\<lparr>pg_frame := c\<rparr>) = pg_raw_readouts h" for c by simp
  then have "pg_raw_readouts h' \<noteq> None" "frame_ok h' = frame_ok h" using assms(6) h'(2) static_simps(11) by metis+
  then obtain T2 U2 where 2: "load_correction b r2 f2 T1 = Some (T2, U2)" "settled T2"
      "erase T2 = erase (T1(b \<mapsto> h'\<lparr>pg_decoded := Some \<lparr>fr_readouts = f2, fr_residual = r2\<rparr>\<rparr>))"
    using load_correction_run [of T1 b h' f2 r2] 1(2) h'(1) assms(8) by auto
  have "erase T2 = erase (?T(b \<mapsto> h\<lparr>pg_decoded := Some \<lparr>fr_readouts = f2, fr_residual = r2\<rparr>\<rparr>))"
    unfolding 2(3) by (rule erase_load [OF 1(3) h'(1)]) (use assms(3,4) in simp)
  with 1(1) 2 show ?thesis by blast
qed

text \<open>The order in which two corrections arrive does not matter: both orders return and leave the same
  tracker, frames included.\<close>

theorem loads_commute:
  assumes "settled T" "T a = Some g" "T b = Some h" "a \<noteq> b" "pg_raw_readouts g \<noteq> None" "pg_raw_readouts h \<noteq> None"
    and "frame_ok g \<lparr>fr_readouts = f1, fr_residual = r1\<rparr>" "frame_ok h \<lparr>fr_readouts = f2, fr_residual = r2\<rparr>"
  shows "\<exists>T1 U1 T2 U2 T' U'. load_correction a r1 f1 T = Some (T1, U1) \<and> load_correction b r2 f2 T1 = Some (T', U') \<and>
    load_correction b r2 f2 T = Some (T2, U2) \<and> (\<exists>U''. load_correction a r1 f1 T2 = Some (T', U''))"
proof -
  let ?g = "g\<lparr>pg_decoded := Some \<lparr>fr_readouts = f1, fr_residual = r1\<rparr>\<rparr>"
    and ?h = "h\<lparr>pg_decoded := Some \<lparr>fr_readouts = f2, fr_residual = r2\<rparr>\<rparr>"
  obtain T1 U1 T' U' where 1: "load_correction a r1 f1 T = Some (T1, U1)" "load_correction b r2 f2 T1 = Some (T', U')"
      "settled T'" "erase T' = erase (T(a \<mapsto> ?g, b \<mapsto> ?h))"
    using load_again [OF assms] by blast
  obtain T2 U2 T'' U'' where 2: "load_correction b r2 f2 T = Some (T2, U2)" "load_correction a r1 f1 T2 = Some (T'', U'')"
      "settled T''" "erase T'' = erase (T(b \<mapsto> ?h, a \<mapsto> ?g))"
    using load_again [OF assms(1,3,2) assms(4) [symmetric] assms(6,5,8,7)] by blast
  have "T(b \<mapsto> ?h, a \<mapsto> ?g) = T(a \<mapsto> ?g, b \<mapsto> ?h)" using assms(4) by (simp add: fun_upd_twist)
  with 1(4) 2(4) have "T'' = T'" by (intro frames_determined [OF 2(3) 1(3)]) simp
  with 1 2 show ?thesis by blast
qed

text \<open>Nothing is lost: in a settled tracker every gadget all of whose ancestors are decoded has a frame, and
  it satisfies the linear equations of the propagation matrices.  (Stated for a set of decoded gadgets
  closed under sources.)\<close>

lemma decoded_gadgets_have_frames:
  assumes "settled T" "x \<in> A"
    and closed: "\<forall>y \<in> A. \<exists>g. T y = Some g \<and> pg_decoded g \<noteq> None \<and> sources g \<subseteq> A"
  shows "\<exists>g f. T x = Some g \<and> pg_frame g = Some f \<and> frame_equation T g f"
proof -
  obtain rank B where st: "settled_except rank B T {}" using assms(1) by (auto simp: settled_def)
  show ?thesis using assms(2)
  proof (induction "rank x" arbitrary: x rule: less_induct)
    case less
    then obtain g where g: "T x = Some g" "pg_decoded g \<noteq> None" "sources g \<subseteq> A" using closed by blast
    have "frame_of T y \<noteq> None" if "y \<in> sources g" for y
    proof -
      have "rank y < rank x" using st g(1) that unfolding settled_except_def graph_ok_def by blast
      from less.hyps [OF this] g(3) that show ?thesis by (force simp: frame_of_def)
    qed
    with g(2) have "ready T g" by (simp add: ready_def)
    moreover have "all_ok T" "locally_correct T x" using st by (auto simp: settled_except_def)
    ultimately show ?case using compute_frame_run [of T x g] g(1) by (force simp: locally_correct_def)
  qed
qed

text \<open>When corrections are committed (each gadget decoded once), a load only adds frames: the gadgets it
  reports are exactly those that had no frame before and have one after, and no frame ever changes.\<close>

lemma committed_load_reports_new_frames:
  assumes "settled T" "T gid = Some g" "pg_decoded g = None"
    and "load_correction gid residual flips T = Some (T', updates)" "frame_ok g \<lparr>fr_readouts = flips, fr_residual = residual\<rparr>"
  shows "(frame_of T x \<noteq> None \<longrightarrow> frame_of T' x = frame_of T x) \<and>
    (updates x \<noteq> None \<longleftrightarrow> frame_of T x = None \<and> frame_of T' x \<noteq> None)"
proof -
  let ?h = "g\<lparr>pg_decoded := Some \<lparr>fr_readouts = flips, fr_residual = residual\<rparr>\<rparr>"
  have raw: "pg_raw_readouts g \<noteq> None" using assms(2,4) by (auto simp: load_correction_def bind_eq_Some_conv)
  obtain rank B where st: "settled_except rank B T {}" using assms(1) by (auto simp: settled_def)
  note h = decode_settles [OF st assms(2) raw assms(5)]
  have lc: "locally_correct T gid" using st by (simp add: settled_except_def)
  have fr: "frame_of (T(gid \<mapsto> ?h)) = frame_of T" using assms(2) by (auto simp: frame_of_def fun_eq_iff)
  have new: "frame_of T gid = None" using lc assms(2,3) by (auto simp: locally_correct_def compute_frame_def frame_of_def)
  have "locally_correct (T(gid \<mapsto> ?h)) y" if "y \<noteq> gid" for y using h that by (simp add: settled_except_def)
  then have "cautious (T(gid \<mapsto> ?h))" using new unfolding cautious_def fr by metis
  moreover have "propagate_from gid (T(gid \<mapsto> ?h), \<lambda>_. None) = Some (T', updates)"
    using assms(2,4) raw by (simp add: load_correction_def)
  ultimately have "evolves (T(gid \<mapsto> ?h), \<lambda>_. None) (T', updates)" "commits (T(gid \<mapsto> ?h), \<lambda>_. None) (T', updates)"
    using propagate_settles [OF h, of gid "\<lambda>_. None"] by auto
  then have "frame_of T' x = frame_of T x \<and> updates x = None \<or> (\<exists>f b. frame_of T' x = Some f \<and> updates x = Some b)"
    and "frame_of T x \<noteq> None \<longrightarrow> frame_of T' x = frame_of T x \<and> updates x = None"
    unfolding evolves_def commits_def by (auto simp: fr)
  then show ?thesis by (cases "frame_of T x") auto
qed

text \<open>A sequence of calls of \<open>load_correction\<close>, with the updates each returned.\<close>

fun load_corrections :: "(nat \<times> pauli_frame) list \<Rightarrow> tracker \<Rightarrow> (tracker \<times> frame_updates list) option" where
  "load_corrections [] T = Some (T, [])"
| "load_corrections ((gid, d) # loads) T = do {
     (T, updates) \<leftarrow> load_correction gid (fr_residual d) (fr_readouts d) T;
     (T, us) \<leftarrow> load_corrections loads T;
     Some (T, updates # us) }"

definition loadable :: "tracker \<Rightarrow> nat \<times> pauli_frame \<Rightarrow> bool" where
  "loadable T l \<longleftrightarrow> (\<exists>g. T (fst l) = Some g \<and> pg_raw_readouts g \<noteq> None \<and> pg_decoded g = None \<and> frame_ok g (snd l))"

definition decoded_in :: "tracker \<Rightarrow> nat \<Rightarrow> bool" where
  "decoded_in T x \<longleftrightarrow> (\<exists>g. T x = Some g \<and> pg_decoded g \<noteq> None)"

lemma loadable_erase:
  assumes "erase T = erase T'" "loadable T l"
  shows "loadable T' l"
proof -
  obtain g where g: "T (fst l) = Some g" "pg_raw_readouts g \<noteq> None" "pg_decoded g = None" "frame_ok g (snd l)"
    using assms(2) by (auto simp: loadable_def)
  obtain h a where "T' (fst l) = Some h" "h = g\<lparr>pg_frame := a\<rparr>" using erase_lookup [OF assms(1) g(1)] by blast
  with g show ?thesis by (auto simp: loadable_def)
qed

lemma decoded_in_erase: "erase T = erase T' \<Longrightarrow> decoded_in T x \<Longrightarrow> decoded_in T' x"
proof -
  assume e: "erase T = erase T'" "decoded_in T x"
  then obtain g where g: "T x = Some g" "pg_decoded g \<noteq> None" by (auto simp: decoded_in_def)
  obtain h a where "T' x = Some h" "h = g\<lparr>pg_frame := a\<rparr>" using erase_lookup [OF e(1) g(1)] by blast
  with g show "decoded_in T' x" by (auto simp: decoded_in_def)
qed

lemma load_corrections_run:
  assumes "settled T" "distinct (map fst loads)" "\<forall>l \<in> set loads. loadable T l"
  shows "\<exists>T' us. load_corrections loads T = Some (T', us) \<and> settled T' \<and> dom T' = dom T \<and> length us = length loads \<and>
    (\<forall>x. (x \<in> fst ` set loads \<or> decoded_in T x) \<longrightarrow> decoded_in T' x) \<and>
    (\<forall>x. (frame_of T x \<noteq> None \<longrightarrow> frame_of T' x = frame_of T x) \<and>
       length (filter (\<lambda>u. u x \<noteq> None) us) = (if frame_of T x = None \<and> frame_of T' x \<noteq> None then 1 else 0))"
  using assms
proof (induction loads arbitrary: T)
  case Nil
  then show ?case by (cases "\<exists>x. frame_of T x = None") auto
next
  case (Cons l loads)
  obtain gid d where l: "l = (gid, d)" by (cases l)
  obtain g where g: "T gid = Some g" "pg_raw_readouts g \<noteq> None" "pg_decoded g = None" "frame_ok g d"
    using Cons.prems(3) by (auto simp: loadable_def l)
  let ?T = "T(gid \<mapsto> g\<lparr>pg_decoded := Some d\<rparr>)"
  have eta: "\<lparr>fr_readouts = fr_readouts d, fr_residual = fr_residual d\<rparr> = d" by (cases d) simp
  have fo: "frame_ok g \<lparr>fr_readouts = fr_readouts d, fr_residual = fr_residual d\<rparr>" unfolding eta by (rule g(4))
  obtain T1 u where 1: "load_correction gid (fr_residual d) (fr_readouts d) T = Some (T1, u)" "settled T1" "erase T1 = erase ?T"
    using load_correction_run [OF Cons.prems(1) g(1,2) fo] unfolding eta by blast
  note new = committed_load_reports_new_frames [OF Cons.prems(1) g(1,3) 1(1) fo]
  have "loadable T1 k" if "k \<in> set loads" for k
  proof (rule loadable_erase [OF 1(3) [symmetric]])
    have "fst k \<noteq> gid" using Cons.prems(2) that by (auto simp: l)
    with Cons.prems(3) that show "loadable ?T k" by (simp add: loadable_def)
  qed
  then obtain T2 us where 2: "load_corrections loads T1 = Some (T2, us)" "settled T2" "dom T2 = dom T1" "length us = length loads"
      "\<forall>x. (x \<in> fst ` set loads \<or> decoded_in T1 x) \<longrightarrow> decoded_in T2 x"
      "\<And>x. frame_of T1 x \<noteq> None \<longrightarrow> frame_of T2 x = frame_of T1 x"
      "\<And>x. length (filter (\<lambda>u. u x \<noteq> None) us) = (if frame_of T1 x = None \<and> frame_of T2 x \<noteq> None then 1 else 0)"
    using Cons.IH [OF 1(2)] Cons.prems(2) by auto
  have "decoded_in T1 x" if "x = gid \<or> decoded_in T x" for x
    by (rule decoded_in_erase [OF 1(3) [symmetric]]) (use that in \<open>auto simp: decoded_in_def\<close>)
  then have dec: "\<forall>x. (x \<in> fst ` set (l # loads) \<or> decoded_in T x) \<longrightarrow> decoded_in T2 x" using 2(5) by (auto simp: l)
  have "dom T1 = dom ?T" using erase_dom [OF 1(3)] by (simp add: dom_def)
  then have dom: "dom T1 = dom T" using g(1) by auto
  have "(frame_of T x \<noteq> None \<longrightarrow> frame_of T2 x = frame_of T x) \<and>
      length (filter (\<lambda>u. u x \<noteq> None) (u # us)) = (if frame_of T x = None \<and> frame_of T2 x \<noteq> None then 1 else 0)" for x
    using new [of x] 2(6,7) [of x] by (cases "frame_of T x"; cases "frame_of T1 x") auto
  then show ?case using 1(1) 2(1-4) dec dom by (simp add: l)
qed

text \<open>C29. In a committed decoding, where every gadget's correction is loaded once and in any order, every
  call returns, every gadget of the tracker is reported in exactly one of the calls, and the frames at the
  end satisfy the propagation equations.\<close>

theorem committed_decoding_reports_once:
  assumes "settled T" "\<forall>x. frame_of T x = None" "distinct (map fst loads)" "fst ` set loads = dom T"
    and "\<forall>l \<in> set loads. loadable T l"
  shows "\<exists>T' us. load_corrections loads T = Some (T', us) \<and>
    (\<forall>x \<in> dom T. length (filter (\<lambda>u. u x \<noteq> None) us) = 1 \<and>
       (\<exists>g f. T' x = Some g \<and> pg_frame g = Some f \<and> frame_equation T' g f))"
proof -
  obtain T' us where r: "load_corrections loads T = Some (T', us)" "settled T'" "dom T' = dom T"
      and dec: "\<forall>x. (x \<in> fst ` set loads \<or> decoded_in T x) \<longrightarrow> decoded_in T' x"
      and count: "\<forall>x. (frame_of T x \<noteq> None \<longrightarrow> frame_of T' x = frame_of T x) \<and>
       length (filter (\<lambda>u. u x \<noteq> None) us) = (if frame_of T x = None \<and> frame_of T' x \<noteq> None then 1 else 0)"
    using load_corrections_run [OF assms(1,3,5)] by (elim exE conjE)
  have closed: "\<forall>y \<in> dom T. \<exists>g. T' y = Some g \<and> pg_decoded g \<noteq> None \<and> sources g \<subseteq> dom T"
  proof
    fix y assume "y \<in> dom T"
    with dec assms(4) obtain g where g: "T' y = Some g" "pg_decoded g \<noteq> None" by (auto simp: decoded_in_def)
    moreover have "sources g \<subseteq> dom T'"
      using r(2) g(1) by (fastforce simp: settled_def settled_except_def graph_ok_def)
    ultimately show "\<exists>g. T' y = Some g \<and> pg_decoded g \<noteq> None \<and> sources g \<subseteq> dom T" using r(3) by auto
  qed
  have "\<exists>g f. T' x = Some g \<and> pg_frame g = Some f \<and> frame_equation T' g f" if "x \<in> dom T" for x
    using decoded_gadgets_have_frames [OF r(2) that closed] .
  moreover from this have "length (filter (\<lambda>u. u x \<noteq> None) us) = 1" if "x \<in> dom T" for x
    using that count assms(2) by (fastforce simp: frame_of_def)
  ultimately show ?thesis using r(1) by blast
qed

section \<open>Adding a gadget\<close>

definition modified_fits :: "nat \<Rightarrow> nat \<Rightarrow> sparse_matrix option \<Rightarrow> bit_matrix_modifier option \<Rightarrow> bool" where
  "modified_fits r c sp modifier \<longleftrightarrow> sparse_fits r c sp \<and> (\<forall>m. modifier = Some m \<longrightarrow> modifier_fits r c m)"

lemma modified_matrix_run:
  assumes "modified_fits r c sp modifier"
  shows "\<exists>m. modified_matrix sp modifier = Some m \<and> dense_ok r c m \<and>
    mat_bit m = (case modifier of Some md \<Rightarrow> modified_bit md (sparse_bit sp) | None \<Rightarrow> sparse_bit sp)"
proof -
  obtain m where m: "optional_sparse_to_dense sp = Some m" "dense_ok r c m" "mat_bit m = sparse_bit sp"
    using optional_sparse_to_dense_run assms unfolding modified_fits_def by blast
  show ?thesis
  proof (cases modifier)
    case None
    with m show ?thesis by (simp add: modified_matrix_def)
  next
    case (Some md)
    with assms apply_modifier_run [OF m(2), of md] m show ?thesis by (auto simp: modified_matrix_def modified_fits_def)
  qed
qed

definition observable_count :: "(nat \<rightharpoonup> port_type) \<Rightarrow> gadget_port \<Rightarrow> nat" where
  "observable_count port_types port = length (pt_observables (the (port_types (port_ptype port))))"

lemma port_biases_run:
  assumes "\<forall>p \<in> set ps. port_types (port_ptype p) \<noteq> None"
  shows "port_biases port_types ps =
    Some (map (\<lambda>k. sum_list (map (observable_count port_types) (take k ps))) [0..<length ps],
          sum_list (map (observable_count port_types) ps))"
  using assms
proof (induction ps rule: rev_induct)
  case (snoc p ps)
  then obtain pt where "port_types (port_ptype p) = Some pt" by auto
  with snoc show ?case by (simp add: port_biases_def ofold_snoc observable_count_def)
qed (simp add: port_biases_def)

text \<open>What the messages must satisfy: the port types are known, every matrix has the shape the runtime
  checks, and its positions are inside it.\<close>

definition gadget_type_fits :: "(nat \<rightharpoonup> port_type) \<Rightarrow> gadget_type \<Rightarrow> gadget_modifier option \<Rightarrow> nat \<Rightarrow> bool" where
  "gadget_type_fits port_types gt modifier ni \<longleftrightarrow>
     (\<forall>p \<in> set (gt_outputs gt). port_types (port_ptype p) \<noteq> None) \<and>
     (let r = sum_list (map (observable_count port_types) (gt_outputs gt)); ro = length (gt_readouts gt);
          ms = length (gt_measurements gt) in
      modified_fits r (ni + 1) (gt_correction_propagation gt) (Option.bind modifier gm_correction_propagation) \<and>
      modified_fits ro (ni + 1) (gt_readout_propagation gt) (Option.bind modifier gm_readout_propagation) \<and>
      modified_fits r ro (gt_logical_correction gt) (Option.bind modifier gm_logical_correction) \<and>
      modified_fits r ms (gt_physical_correction gt) (Option.bind modifier gm_physical_correction) \<and>
      (\<forall>rc. Option.bind modifier gm_remote_conditional_correction = Some rc \<longrightarrow>
         sparse_fits r (length (rc_remote_readouts rc)) (rc_correction rc)))"

lemma sum_take_le: "sum_list (map f (take k xs)) \<le> (sum_list (map f xs) :: nat)"
proof -
  have "sum_list (map f xs) = sum_list (map f (take k xs)) + sum_list (map f (drop k xs))"
    by (metis append_take_drop_id map_append sum_list_append)
  then show ?thesis by simp
qed

lemma new_gadget_run:
  assumes "gadget_type_fits port_types gt modifier ni"
  shows "\<exists>g. new_gadget gt modifier port_types connectors = Some g \<and> gadget_ok g \<and> num_in g = ni \<and>
    pg_inputs g = connectors \<and> successors g = [] \<and> pg_frame g = None \<and> pg_decoded g = None \<and> pg_raw_readouts g = None \<and>
    pg_outputs g = replicate (length (gt_outputs gt)) None \<and> num_readouts g = length (gt_readouts gt) \<and>
    remote_refs g = (case Option.bind modifier gm_remote_conditional_correction of
      Some rc \<Rightarrow> rc_remote_readouts rc | None \<Rightarrow> []) \<and>
    (\<forall>k < length (gt_outputs gt). length (port_range g k) = observable_count port_types (gt_outputs gt ! k))"
proof -
  let ?oc = "observable_count port_types"
  let ?r = "sum_list (map ?oc (gt_outputs gt))" and ?ro = "length (gt_readouts gt)"
    and ?ms = "length (gt_measurements gt)" and ?rem = "Option.bind modifier gm_remote_conditional_correction"
  let ?bias = "map (\<lambda>k. sum_list (map ?oc (take k (gt_outputs gt)))) [0..<length (gt_outputs gt)]"
  have pb: "port_biases port_types (gt_outputs gt) = Some (?bias, ?r)"
    using port_biases_run assms by (simp add: gadget_type_fits_def)
  obtain cp where cp: "modified_matrix (gt_correction_propagation gt) (Option.bind modifier gm_correction_propagation) = Some cp"
      "dense_ok ?r (ni + 1) cp" using assms modified_matrix_run by (fastforce simp: gadget_type_fits_def Let_def)
  obtain rp where rp: "modified_matrix (gt_readout_propagation gt) (Option.bind modifier gm_readout_propagation) = Some rp"
      "dense_ok ?ro (ni + 1) rp" using assms modified_matrix_run by (fastforce simp: gadget_type_fits_def Let_def)
  obtain lc where lc: "modified_matrix (gt_logical_correction gt) (Option.bind modifier gm_logical_correction) = Some lc"
      "dense_ok ?r ?ro lc" using assms modified_matrix_run by (fastforce simp: gadget_type_fits_def Let_def)
  obtain pc where pc: "modified_matrix (gt_physical_correction gt) (Option.bind modifier gm_physical_correction) = Some pc"
      "dense_ok ?r ?ms pc" using assms modified_matrix_run by (fastforce simp: gadget_type_fits_def Let_def)
  obtain rem where rem: "(case ?rem of
         Some rc \<Rightarrow> do { matrix \<leftarrow> optional_sparse_to_dense (rc_correction rc);
                         Some (Some (rc_remote_readouts rc, matrix)) }
       | None \<Rightarrow> Some None) = Some rem" "\<forall>refs m. rem = Some (refs, m) \<longrightarrow> dense_ok ?r (length refs) m"
      "(case rem of Some (refs, _) \<Rightarrow> refs | None \<Rightarrow> []) = (case ?rem of Some rc \<Rightarrow> rc_remote_readouts rc | None \<Rightarrow> [])"
  proof (cases ?rem)
    case None
    with that [of None] show thesis by simp
  next
    case (Some rc)
    with assms optional_sparse_to_dense_run [of ?r "length (rc_remote_readouts rc)" "rc_correction rc"]
    obtain m where "optional_sparse_to_dense (rc_correction rc) = Some m" "dense_ok ?r (length (rc_remote_readouts rc)) m"
      by (auto simp: gadget_type_fits_def Let_def)
    with that [of "Some (rc_remote_readouts rc, m)"] Some show thesis by simp
  qed
  let ?g = "\<lparr>pg_frame = None, pg_raw_readouts = None, pg_raw_measurements = None, pg_decoded = None,
       pg_correction_propagation = cp, pg_readout_propagation = rp, pg_logical_correction = lc,
       pg_physical_correction = pc, pg_remote = rem, pg_inputs = connectors,
       pg_outputs = replicate (length (gt_outputs gt)) None, pg_remote_dependents = [], pg_output_bias = ?bias\<rparr>"
  obtain g where g: "g = ?g" by blast
  then have fields: "pg_correction_propagation g = cp" "pg_readout_propagation g = rp" "pg_logical_correction g = lc"
      "pg_physical_correction g = pc" "pg_remote g = rem" "pg_output_bias g = ?bias" "pg_frame g = None" "pg_decoded g = None"
      "pg_outputs g = replicate (length (gt_outputs gt)) None" "pg_raw_readouts g = None" "pg_raw_measurements g = None"
      "pg_remote_dependents g = []" "pg_inputs g = connectors"
    by simp_all
  have dims: "num_output_observables g = ?r" "num_readouts g = ?ro" "num_measurements g = ?ms" "num_in g = ni"
    using cp(2) lc(2) pc(2) fields by (simp_all add: num_output_observables_def num_readouts_def num_measurements_def
        num_in_def dense_ok_def column_count_def)
  have run: "new_gadget gt modifier port_types connectors = Some g"
    using cp(2) rp(2) lc(2) pc(2) dims unfolding g
    by (simp add: new_gadget_def pb cp(1) rp(1) lc(1) pc(1) rem(1) Let_def num_input_observables_def
        column_count_def dense_ok_def)
  have stop: "port_stop g k = sum_list (map ?oc (take (Suc k) (gt_outputs gt)))" if "k < length (gt_outputs gt)" for k
    using that dims(1) fields(6) by (auto simp: port_stop_def)
  have le: "sum_list (map ?oc (take k (gt_outputs gt))) \<le> sum_list (map ?oc (take (Suc k) (gt_outputs gt)))" for k
    using sum_take_le [of ?oc k "take (Suc k) (gt_outputs gt)"] by (simp add: min_def)
  have "gadget_ok g"
    using cp(2) rp(2) lc(2) pc(2) rem(2) stop sum_take_le [of ?oc _ "gt_outputs gt"]
      le
    by (simp add: gadget_ok_def matrices_ok_def loads_ok_def ports_ok_def dims fields)
  moreover have "length (port_range g k) = ?oc (gt_outputs gt ! k)" if "k < length (gt_outputs gt)" for k
    using that stop [OF that] fields(6) by (simp add: port_range_def take_Suc_conv_app_nth)
  moreover have "successors g = []" by (simp add: successors_def fields)
  ultimately show ?thesis using run dims fields rem(3) by (simp add: remote_refs_def)
qed

text \<open>Registering consumers only extends the lists of successors.\<close>

definition extends_gadget :: "nat \<Rightarrow> frame_gadget \<Rightarrow> frame_gadget \<Rightarrow> bool" where
  "extends_gadget gid p q \<longleftrightarrow> (\<exists>os ds. q = p\<lparr>pg_outputs := os, pg_remote_dependents := ds\<rparr>) \<and>
     length (pg_outputs q) = length (pg_outputs p) \<and>
     set (successors p) \<subseteq> set (successors q) \<and> set (successors q) \<subseteq> insert gid (set (successors p))"

definition extends :: "nat \<Rightarrow> tracker \<Rightarrow> tracker \<Rightarrow> bool" where
  "extends gid T T' \<longleftrightarrow> (\<forall>x. rel_option (extends_gadget gid) (T x) (T' x))"

lemma extends_gadgetI:
  assumes "length os = length (pg_outputs p)" "q = p\<lparr>pg_outputs := os, pg_remote_dependents := ds\<rparr>"
    and "set (successors q) = insert gid (set (successors p))"
  shows "extends_gadget gid p q"
proof -
  have "length (pg_outputs q) = length (pg_outputs p)" using assms(1,2) by simp
  with assms(2,3) show ?thesis unfolding extends_gadget_def by blast
qed

lemma extends_gadget_refl [simp]: "extends_gadget gid p p"
proof -
  have "p = p\<lparr>pg_outputs := pg_outputs p, pg_remote_dependents := pg_remote_dependents p\<rparr>" by simp
  then show ?thesis unfolding extends_gadget_def by blast
qed

lemma extends_gadget_trans: "extends_gadget gid p q \<Longrightarrow> extends_gadget gid q r \<Longrightarrow> extends_gadget gid p r"
proof -
  assume a: "extends_gadget gid p q" "extends_gadget gid q r"
  then obtain os ds os' ds' where "q = p\<lparr>pg_outputs := os, pg_remote_dependents := ds\<rparr>"
      "r = q\<lparr>pg_outputs := os', pg_remote_dependents := ds'\<rparr>"
    unfolding extends_gadget_def by blast
  then have "r = p\<lparr>pg_outputs := os', pg_remote_dependents := ds'\<rparr>" by simp
  moreover have "set (successors p) \<subseteq> set (successors r)" "set (successors r) \<subseteq> insert gid (set (successors p))"
      "length (pg_outputs r) = length (pg_outputs p)"
    using a unfolding extends_gadget_def by auto
  ultimately show "extends_gadget gid p r" unfolding extends_gadget_def by blast
qed

lemma extends_refl [simp]: "extends gid T T"
  by (simp add: extends_def option.rel_refl)

lemma extends_trans: "extends gid T T' \<Longrightarrow> extends gid T' T'' \<Longrightarrow> extends gid T T''"
  unfolding extends_def by (metis extends_gadget_trans option.rel_transp transp_def)

lemma extends_update: "T x = Some p \<Longrightarrow> extends_gadget gid p q \<Longrightarrow> extends gid T (T(x \<mapsto> q))"
  by (simp add: extends_def option.rel_refl)

lemma extendsD: "extends gid T T' \<Longrightarrow> T x = Some p \<Longrightarrow> \<exists>q. T' x = Some q \<and> extends_gadget gid p q"
  unfolding extends_def by (metis option_rel_Some1)

lemma set_fill_slot: "k < length xs \<Longrightarrow> xs ! k = None \<Longrightarrow>
    set (filter (\<lambda>p. p \<noteq> None) (xs[k := Some c])) = insert (Some c) (set (filter (\<lambda>p. p \<noteq> None) xs))"
proof (induction xs arbitrary: k)
  case (Cons x xs)
  then show ?case by (cases k) auto
qed simp

lemma connect_input_run:
  assumes "T (con_gid c) = Some p" "con_port c < length (pg_outputs p)" "pg_outputs p ! con_port c = None"
  shows "\<exists>T'. connect_input gid (k, c) T = Some T' \<and> extends gid T T' \<and> (\<forall>x. x \<noteq> con_gid c \<longrightarrow> T' x = T x) \<and>
    (\<exists>q. T' (con_gid c) = Some q \<and> gid \<in> set (successors q) \<and>
       pg_outputs q = (pg_outputs p)[con_port c := Some \<lparr>con_gid = gid, con_port = k\<rparr>])"
proof -
  let ?os = "(pg_outputs p)[con_port c := Some \<lparr>con_gid = gid, con_port = k\<rparr>]" and ?n = "\<lambda>p. p \<noteq> None"
  have os: "set (filter ?n ?os) = insert (Some \<lparr>con_gid = gid, con_port = k\<rparr>) (set (filter ?n (pg_outputs p)))"
    using assms(2,3) by (rule set_fill_slot)
  have s: "set (successors (p\<lparr>pg_outputs := ?os\<rparr>)) = insert gid (set (successors p))"
    using os by (simp add: successors_def)
  have "extends_gadget gid p (p\<lparr>pg_outputs := ?os\<rparr>)"
    by (rule extends_gadgetI [where os = ?os and ds = "pg_remote_dependents p"]) (simp_all add: s)
  from extends_update [of T, OF assms(1) this]
  show ?thesis using assms s by (auto simp: connect_input_def)
qed

lemma register_remote_run:
  assumes "T (rr_gid r) = Some p"
  shows "\<exists>T'. register_remote gid r T = Some T' \<and> extends gid T T' \<and> (\<forall>x. x \<noteq> rr_gid r \<longrightarrow> T' x = T x) \<and>
    (\<exists>q. T' (rr_gid r) = Some q \<and> gid \<in> set (successors q))"
proof -
  let ?q = "p\<lparr>pg_remote_dependents := pg_remote_dependents p @ [gid]\<rparr>"
  have s: "set (successors ?q) = insert gid (set (successors p))" by (auto simp: successors_def)
  have "extends_gadget gid p ?q"
    by (rule extends_gadgetI [where os = "pg_outputs p" and ds = "pg_remote_dependents p @ [gid]"]) (simp_all add: s)
  from extends_update [of T, OF assms this]
  show ?thesis using assms s by (auto simp: register_remote_def)
qed

lemma extends_gadget_succ: "extends_gadget gid p q \<Longrightarrow> y \<in> set (successors p) \<Longrightarrow> y \<in> set (successors q)"
  by (auto simp: extends_gadget_def)

text \<open>An output port that nothing consumes yet.\<close>

definition free_port :: "tracker \<Rightarrow> connector \<Rightarrow> bool" where
  "free_port T c \<longleftrightarrow> (\<exists>p. T (con_gid c) = Some p \<and> con_port c < length (pg_outputs p) \<and> pg_outputs p ! con_port c = None)"

lemma connect_loop:
  assumes "\<forall>c \<in> set cs. free_port T c \<and> con_gid c \<noteq> gid" "distinct cs"
  shows "\<exists>T'. ofold (connect_input gid) (zip [k..<k + length cs] cs) T = Some T' \<and> extends gid T T' \<and> T' gid = T gid \<and>
    (\<forall>c \<in> set cs. \<exists>q. T' (con_gid c) = Some q \<and> gid \<in> set (successors q))"
  using assms
proof (induction cs arbitrary: k T)
  case Nil
  then show ?case by simp
next
  case (Cons c cs)
  then obtain p where p: "T (con_gid c) = Some p" "con_port c < length (pg_outputs p)" "pg_outputs p ! con_port c = None"
    by (auto simp: free_port_def)
  obtain T1 q where T1: "connect_input gid (k, c) T = Some T1" "extends gid T T1" "\<forall>x. x \<noteq> con_gid c \<longrightarrow> T1 x = T x"
      "T1 (con_gid c) = Some q" "gid \<in> set (successors q)"
      "pg_outputs q = (pg_outputs p)[con_port c := Some \<lparr>con_gid = gid, con_port = k\<rparr>]"
    using connect_input_run [of T, OF p, of gid k] by blast
  have "free_port T1 d" if d: "d \<in> set cs" for d
  proof (cases "con_gid d = con_gid c")
    case False
    with T1(3) Cons.prems(1) d show ?thesis by (auto simp: free_port_def)
  next
    case True
    have "d \<noteq> c" using Cons.prems(2) d by auto
    with True have "con_port d \<noteq> con_port c" by (cases c; cases d) simp
    moreover have "free_port T d" using Cons.prems(1) d by simp
    ultimately show ?thesis using True p(1) T1(4,6) by (auto simp: free_port_def)
  qed
  with Cons.IH [of T1 "Suc k"] Cons.prems obtain T2 where T2: "ofold (connect_input gid) (zip [Suc k..<Suc k + length cs] cs) T1 = Some T2"
      "extends gid T1 T2" "T2 gid = T1 gid" "\<forall>c \<in> set cs. \<exists>q. T2 (con_gid c) = Some q \<and> gid \<in> set (successors q)"
    by auto
  have z: "zip [k..<k + length (c # cs)] (c # cs) = (k, c) # zip [Suc k..<Suc k + length cs] cs"
    by (simp add: upt_conv_Cons del: upt_Suc)
  obtain r where "T2 (con_gid c) = Some r" "extends_gadget gid q r" using extendsD [of gid T1 T2, OF T2(2) T1(4)] by blast
  then have "\<exists>q. T2 (con_gid c) = Some q \<and> gid \<in> set (successors q)" using T1(5) extends_gadget_succ by blast
  moreover have "T2 gid = T gid" using T2(3) T1(3) Cons.prems(1) by simp
  ultimately show ?case unfolding z using T1(1) T2(1,4) extends_trans [OF T1(2) T2(2)] by simp
qed

lemma register_loop:
  assumes "\<forall>r \<in> set rs. T (rr_gid r) \<noteq> None \<and> rr_gid r \<noteq> gid"
  shows "\<exists>T'. ofold (register_remote gid) rs T = Some T' \<and> extends gid T T' \<and> T' gid = T gid \<and>
    (\<forall>r \<in> set rs. \<exists>q. T' (rr_gid r) = Some q \<and> gid \<in> set (successors q))"
  using assms
proof (induction rs arbitrary: T)
  case Nil
  then show ?case by simp
next
  case (Cons r rs)
  then obtain p where p: "T (rr_gid r) = Some p" by auto
  obtain T1 q where T1: "register_remote gid r T = Some T1" "extends gid T T1" "\<forall>x. x \<noteq> rr_gid r \<longrightarrow> T1 x = T x"
      "T1 (rr_gid r) = Some q" "gid \<in> set (successors q)"
    using register_remote_run [of T, OF p, of gid] by blast
  have "T1 x \<noteq> None" if "T x \<noteq> None" for x using T1(2) that extendsD [of gid T T1 x] by fastforce
  with Cons.IH [of T1] Cons.prems obtain T2 where T2: "ofold (register_remote gid) rs T1 = Some T2"
      "extends gid T1 T2" "T2 gid = T1 gid" "\<forall>r \<in> set rs. \<exists>q. T2 (rr_gid r) = Some q \<and> gid \<in> set (successors q)"
    by auto
  obtain q' where "T2 (rr_gid r) = Some q'" "extends_gadget gid q q'" using extendsD [of gid T1 T2, OF T2(2) T1(4)] by blast
  then have "\<exists>q. T2 (rr_gid r) = Some q \<and> gid \<in> set (successors q)" using T1(5) extends_gadget_succ by blast
  moreover have "T2 gid = T gid" using T2(3) T1(3) Cons.prems(1) by simp
  ultimately show ?case using T1(1) T2(1,4) extends_trans [OF T1(2) T2(2)] by simp
qed

text \<open>Everything a gadget's frame is computed from survives the registration.\<close>

lemma extends_gadget_static:
  assumes "extends_gadget gid p q"
  shows "peer_view q = peer_view p" "gadget_ok q = gadget_ok p" "sources q = sources p" "pg_frame q = pg_frame p"
    "num_readouts q = num_readouts p" "num_output_observables q = num_output_observables p" "remote_refs q = remote_refs p"
    "num_in q = num_in p" "pg_inputs q = pg_inputs p" "pg_output_bias q = pg_output_bias p" "pg_decoded q = pg_decoded p"
    "compute_frame T q = compute_frame T p" "length (pg_outputs q) = length (pg_outputs p)"
proof -
  obtain os ds where q: "q = p\<lparr>pg_outputs := os, pg_remote_dependents := ds\<rparr>" and l: "length (pg_outputs q) = length (pg_outputs p)"
    using assms unfolding extends_gadget_def by blast
  show "length (pg_outputs q) = length (pg_outputs p)" by (rule l)
  show s: "num_readouts q = num_readouts p" "num_output_observables q = num_output_observables p" "remote_refs q = remote_refs p"
    "num_in q = num_in p" "pg_inputs q = pg_inputs p" "pg_output_bias q = pg_output_bias p" "pg_decoded q = pg_decoded p"
    "pg_frame q = pg_frame p"
    by (simp_all add: q num_readouts_def num_output_observables_def remote_refs_def num_in_def)
  then show "peer_view q = peer_view p" "sources q = sources p" by (simp_all add: peer_view_def sources_def)
  have "port_stop q = port_stop p" using s by (simp add: port_stop_def fun_eq_iff)
  with s l show "gadget_ok q = gadget_ok p"
    by (simp add: gadget_ok_def matrices_ok_def loads_ok_def ports_ok_def frame_ok_def num_measurements_def) (simp add: q)
  show "compute_frame T q = compute_frame T p"
  proof -
    have "combine_frame q = combine_frame p" by (simp add: combine_frame_def fun_eq_iff q)
    then show ?thesis by (simp add: compute_frame_def s(5,7) q cong: option.case_cong)
  qed
qed

lemma extended_settles:
  assumes st: "settled_except rank B T {}" and new: "T gid = None"
    and g: "gadget_ok g" "wired T g" "pg_frame g = None" "pg_decoded g = None" "successors g = []"
    and ex: "extends gid (T(gid \<mapsto> g)) T'" "T' gid = Some g"
    and reg: "\<forall>y \<in> sources g. \<exists>q. T' y = Some q \<and> gid \<in> set (successors q)"
  shows "settled T' \<and> frame_of T' = frame_of T"
proof -
  have ok: "all_ok T" and gr: "graph_ok rank B T" and rd: "\<And>y k. T y = Some k \<Longrightarrow> pg_frame k \<noteq> None \<Longrightarrow> ready T k"
    and lc: "\<And>y. locally_correct T y" using st by (auto simp: settled_except_def)
  let ?rank = "rank(gid := Suc B)"
  have old: "\<exists>p. T y = Some p \<and> extends_gadget gid p q" if "T' y = Some q" "y \<noteq> gid" for y q
    using ex(1) that unfolding extends_def by (metis fun_upd_other option_rel_Some2)
  have up: "\<exists>q. T' y = Some q \<and> extends_gadget gid p q \<and> y \<noteq> gid" if "T y = Some p" for y p
    using extendsD [OF ex(1), of y p] that new by (cases "y = gid") auto
  have none: "T' y = None" if "T y = None" "y \<noteq> gid" for y
    using ex(1) that unfolding extends_def by (metis fun_upd_other option.rel_sel)
  have fr: "frame_of T' y = frame_of T y" for y
  proof (cases "T y")
    case None
    with none [of y] ex(2) g(3) show ?thesis by (cases "y = gid") (auto simp: frame_of_def)
  next
    case (Some p)
    with up [OF Some] extends_gadget_static(4) show ?thesis by (auto simp: frame_of_def)
  qed
  have wired: "wired T' h" if "wired T h0" "pg_inputs h = pg_inputs h0" "remote_refs h = remote_refs h0" "num_in h = num_in h0" for h h0
  proof (rule wired_cong [OF that])
    fix y p assume "T y = Some p"
    then obtain q where "T' y = Some q" "extends_gadget gid p q" using up by blast
    with extends_gadget_static [OF this(2)]
    show "\<exists>q. T' y = Some q \<and> pg_output_bias q = pg_output_bias p \<and> num_readouts q = num_readouts p \<and>
        num_output_observables q = num_output_observables p" by simp
  qed
  have src: "T y \<noteq> None" if "T x = Some h" "y \<in> sources h" for x y h
    using gr that unfolding graph_ok_def by blast
  have each: "gadget_ok q \<and> wired T' q \<and> (pg_frame q \<noteq> None \<longrightarrow> ready T' q) \<and> compute_frame T' q = Some (pg_frame q) \<and>
      ?rank y \<le> Suc B \<and> (\<forall>z \<in> sources q. \<exists>p. T' z = Some p \<and> y \<in> set (successors p)) \<and>
      (\<forall>z \<in> set (successors q). T' z \<noteq> None \<and> ?rank y < ?rank z)" if q: "T' y = Some q" for y q
  proof (cases "y = gid")
    case True
    with q ex(2) have "q = g" by simp
    with True g reg wired [OF g(2) refl refl refl] show ?thesis by (simp add: compute_frame_def)
  next
    case False
    obtain p where p: "T y = Some p" "extends_gadget gid p q" using old [OF q False] by blast
    note s = extends_gadget_static [OF p(2)]
    have "gadget_ok p" "wired T p" using ok p(1) by (auto simp: all_ok_def)
    then have 1: "gadget_ok q" "wired T' q" using s wired [of p q] by auto
    have "ready T p" if "pg_frame q \<noteq> None" using rd [OF p(1)] that s(4) by simp
    then have 2: "pg_frame q \<noteq> None \<longrightarrow> ready T' q" using s(3,11) fr by (simp add: ready_def)
    have "same_peers T' T z" if "z \<in> sources p" for z
      using src [OF p(1) that] up extends_gadget_static(1) by (fastforce simp: same_peers_def)
    then have "compute_frame T' (p\<lparr>pg_frame := pg_frame p\<rparr>) = compute_frame T p" by (rule compute_frame_cong)
    then have 3: "compute_frame T' q = Some (pg_frame q)" using lc [of y] p(1) s(4,12) by (simp add: locally_correct_def)
    have rk: "rank y \<le> B" using gr p(1) by (auto simp: graph_ok_def)
    have 4: "\<exists>r. T' z = Some r \<and> y \<in> set (successors r)" if "z \<in> sources q" for z
    proof -
      obtain r where "T z = Some r" "y \<in> set (successors r)" using gr p(1) \<open>z \<in> sources q\<close> s(3) unfolding graph_ok_def by blast
      with up [of z r] show ?thesis using extends_gadget_succ by blast
    qed
    have 5: "T' z \<noteq> None \<and> ?rank y < ?rank z" if "z \<in> set (successors q)" for z
    proof (cases "z = gid")
      case True
      with rk False ex(2) show ?thesis by simp
    next
      case z: False
      with that p(2) have "z \<in> set (successors p)" by (auto simp: extends_gadget_def)
      with gr p(1) have "T z \<noteq> None" "rank y < rank z" unfolding graph_ok_def by blast+
      with z False up show ?thesis by fastforce
    qed
    show ?thesis using 1 2 3 4 5 rk False by auto
  qed
  then have "settled_except ?rank (Suc B) T' {}"
    unfolding settled_except_def all_ok_def graph_ok_def locally_correct_def by blast
  with fr show ?thesis unfolding settled_def by blast
qed

lemma add_gadget_run:
  assumes T: "settled T" "T gid = None" and ins: "length (gt_inputs gt) = length connectors" "distinct connectors"
    and free: "\<forall>c \<in> set connectors. free_port T c"
    and fits: "gadget_type_fits port_types gt modifier
      (sum_list (map (\<lambda>c. length (port_range (the (T (con_gid c))) (con_port c))) connectors))"
    and rems: "\<forall>rc. Option.bind modifier gm_remote_conditional_correction = Some rc \<longrightarrow>
      (\<forall>r \<in> set (rc_remote_readouts rc). \<exists>p. T (rr_gid r) = Some p \<and> rr_readout_index r < num_readouts p)"
  shows "\<exists>T'. add_gadget gid gt modifier port_types connectors T = Some T' \<and> settled T' \<and>
    T' gid \<noteq> None \<and> frame_of T' = frame_of T"
proof -
  let ?ni = "sum_list (map (\<lambda>c. length (port_range (the (T (con_gid c))) (con_port c))) connectors)"
  obtain rank B where st: "settled_except rank B T {}" using T(1) by (auto simp: settled_def)
  have ok: "all_ok T" and gr: "graph_ok rank B T" and rd: "\<And>y k. T y = Some k \<Longrightarrow> pg_frame k \<noteq> None \<Longrightarrow> ready T k"
    and lc: "\<And>y. locally_correct T y" using st by (auto simp: settled_except_def)
  obtain g where g: "new_gadget gt modifier port_types connectors = Some g" "gadget_ok g" "num_in g = ?ni"
      "pg_inputs g = connectors" "successors g = []" "pg_frame g = None" "pg_decoded g = None"
      "remote_refs g = (case Option.bind modifier gm_remote_conditional_correction of
        Some rc \<Rightarrow> rc_remote_readouts rc | None \<Rightarrow> [])"
    using new_gadget_run [OF fits, of connectors] by blast
  let ?T = "T(gid \<mapsto> g)"
  have refs: "\<exists>p. T (rr_gid r) = Some p \<and> rr_readout_index r < num_readouts p" if "r \<in> set (remote_refs g)" for r
    using that rems g(8) by (auto split: option.splits)
  have cons: "\<exists>p. T (con_gid c) = Some p \<and> con_port c < length (pg_output_bias p)" if "c \<in> set connectors" for c
    using free that ok by (fastforce simp: free_port_def all_ok_def gadget_ok_def ports_ok_def)
  have "free_port ?T c \<and> con_gid c \<noteq> gid" if "c \<in> set connectors" for c
    using free that T(2) by (auto simp: free_port_def)
  then obtain T1 where T1: "ofold (connect_input gid) (zip [0..<length connectors] connectors) ?T = Some T1"
      "extends gid ?T T1" "T1 gid = Some g" "\<forall>c \<in> set connectors. \<exists>q. T1 (con_gid c) = Some q \<and> gid \<in> set (successors q)"
    using connect_loop [of connectors ?T gid 0] ins(2) by auto
  have "T1 (rr_gid r) \<noteq> None \<and> rr_gid r \<noteq> gid" if "r \<in> set (remote_refs g)" for r
  proof -
    obtain p where "T (rr_gid r) = Some p" using refs [OF \<open>r \<in> set (remote_refs g)\<close>] by blast
    moreover from this T(2) have "rr_gid r \<noteq> gid" by auto
    ultimately show ?thesis using extendsD [OF T1(2), of "rr_gid r" p] by auto
  qed
  then obtain T2 where T2: "ofold (register_remote gid) (remote_refs g) T1 = Some T2" "extends gid T1 T2" "T2 gid = Some g"
      "\<forall>r \<in> set (remote_refs g). \<exists>q. T2 (rr_gid r) = Some q \<and> gid \<in> set (successors q)"
    using register_loop [of "remote_refs g" T1 gid] T1(3) by auto
  have ex: "extends gid ?T T2" by (rule extends_trans [OF T1(2) T2(2)])
  have run: "add_gadget gid gt modifier port_types connectors T = Some T2"
  proof (cases "pg_remote g")
    case None
    then have "remote_refs g = []" by (simp add: remote_refs_def)
    with T2(1) None T(2) ins(1) g(1) T1(1) show ?thesis by (simp add: add_gadget_def)
  next
    case (Some rm)
    obtain rs m where rm: "rm = (rs, m)" by (cases rm)
    with Some have "remote_refs g = rs" by (simp add: remote_refs_def)
    with T2(1) Some rm T(2) ins(1) g(1) T1(1) show ?thesis by (simp add: add_gadget_def)
  qed
  have wired: "wired T g" using cons refs g(3,4) by (simp add: wired_def)
  have "\<forall>y \<in> sources g. \<exists>q. T2 y = Some q \<and> gid \<in> set (successors q)"
    unfolding sources_def
  proof (intro ballI, elim UnE imageE)
    fix y c assume "y = con_gid c" "c \<in> set (pg_inputs g)"
    with T1(4) g(4) obtain q where "T1 y = Some q" "gid \<in> set (successors q)" by blast
    with extendsD [OF T2(2)] extends_gadget_succ show "\<exists>q. T2 y = Some q \<and> gid \<in> set (successors q)" by blast
  next
    fix y r assume "y = rr_gid r" "r \<in> set (remote_refs g)"
    with T2(4) show "\<exists>q. T2 y = Some q \<and> gid \<in> set (successors q)" by blast
  qed
  with extended_settles [OF st T(2) g(2) wired g(6,7,5) ex T2(3)] run T2(3) show ?thesis by auto
qed

text \<open>C30. Adding a gadget that is wired to free output ports of gadgets already there keeps the tracker
  settled: no debug assertion fails, the frames of the others do not change, and the new gadget waits for
  its data.  The conditions are the caller's: fresh identifier, messages of the right shape, input ports
  connected to distinct unused outputs whose observables add up, remote readouts that exist.\<close>

theorem add_gadget_settles:
  assumes T: "settled T" "T gid = None" and ins: "length (gt_inputs gt) = length connectors" "distinct connectors"
    and free: "\<forall>c \<in> set connectors. free_port T c"
    and fits: "gadget_type_fits port_types gt modifier
      (sum_list (map (\<lambda>c. length (port_range (the (T (con_gid c))) (con_port c))) connectors))"
    and rems: "\<forall>rc. Option.bind modifier gm_remote_conditional_correction = Some rc \<longrightarrow>
      (\<forall>r \<in> set (rc_remote_readouts rc). \<exists>p. T (rr_gid r) = Some p \<and> rr_readout_index r < num_readouts p)"
  shows "\<exists>T'. add_gadget gid gt modifier port_types connectors T = Some T' \<and> settled T' \<and>
    T' gid \<noteq> None \<and> frame_of T' = frame_of T"
  by (rule add_gadget_run [OF T ins free fits rems])

section \<open>Examples\<close>

text \<open>A gadget with one two-observable output and one readout, its raw data loaded, and a gadget type that
  consumes it.\<close>

definition example_source :: frame_gadget where
  "example_source = \<lparr>pg_frame = None, pg_raw_readouts = Some (bitvec_zeros 1), pg_raw_measurements = Some (bitvec_zeros 0),
     pg_decoded = None, pg_correction_propagation = mat_zeros 2 1, pg_readout_propagation = mat_zeros 1 1,
     pg_logical_correction = mat_zeros 2 1, pg_physical_correction = mat_zeros 2 0, pg_remote = None, pg_inputs = [],
     pg_outputs = [None], pg_remote_dependents = [], pg_output_bias = [0]\<rparr>"

definition example_tracker :: tracker where
  "example_tracker = [1 \<mapsto> example_source, 2 \<mapsto> example_source]"

definition example_decoded :: pauli_frame where
  "example_decoded = \<lparr>fr_readouts = bitvec_zeros 1, fr_residual = bitvec_zeros 2\<rparr>"

definition example_type :: gadget_type where
  "example_type = \<lparr>gt_measurements = [], gt_inputs = [\<lparr>port_ptype = 1\<rparr>], gt_outputs = [],
     gt_correction_propagation = Some (sparse_zeros 0 3), gt_readouts = [\<lparr>ro_measurement_indices = []\<rparr>],
     gt_readout_propagation = Some \<lparr>sp_rows = 1, sp_cols = 3, sp_i = [0], sp_j = [0]\<rparr>,
     gt_logical_correction = Some (sparse_zeros 0 1), gt_physical_correction = Some (sparse_zeros 0 0)\<rparr>"

lemma vec_ok_zeros: "vec_ok n (bitvec_zeros n)"
  using bitvec_zeros_ok [of n] by (simp add: vec_ok_def bitvec_zeros_def aligned_zeros_bit)

lemma dense_ok_zerosI: "r = r' \<Longrightarrow> c = c' \<Longrightarrow> dense_ok r c (mat_zeros r' c')"
  by simp

lemma example_source_ok: "gadget_ok example_source" "num_in example_source = 0" "successors example_source = []"
    "sources example_source = {}" "frame_ok example_source example_decoded"
    "num_readouts example_source = 1" "port_range example_source 0 = [0, 1]"
proof -
  have n: "num_output_observables example_source = 2" "num_readouts example_source = 1"
      "num_measurements example_source = 0" "num_in example_source = 0"
    by (simp_all add: example_source_def num_output_observables_def num_readouts_def num_measurements_def
        column_count_def num_in_def mat_zeros_ok)
  show "num_readouts example_source = 1" "num_in example_source = 0" by (fact n)+
  have "matrices_ok example_source"
    unfolding matrices_ok_def n by (simp add: example_source_def dense_ok_zerosI)
  moreover have "loads_ok example_source"
    unfolding loads_ok_def n by (simp add: example_source_def vec_ok_zeros)
  moreover have "ports_ok example_source"
    by (simp add: ports_ok_def port_stop_def n) (simp add: example_source_def)
  ultimately show "gadget_ok example_source" by (simp add: gadget_ok_def)
  show "successors example_source = []" "sources example_source = {}"
    by (simp_all add: example_source_def successors_def sources_def remote_refs_def)
  show "frame_ok example_source example_decoded"
    unfolding frame_ok_def n by (simp add: example_decoded_def vec_ok_zeros)
  show "port_range example_source 0 = [0, 1]"
    by (simp add: port_range_def port_stop_def n) (simp add: example_source_def upt_rec)
qed

lemma example_settled: "settled example_tracker" "frame_of example_tracker x = None"
proof -
  have g: "example_tracker x = Some g \<Longrightarrow> g = example_source" for x g by (auto simp: example_tracker_def split: if_splits)
  have f: "pg_frame example_source = None" "pg_decoded example_source = None" "pg_inputs example_source = []"
      "remote_refs example_source = []" by (simp_all add: example_source_def remote_refs_def)
  have "settled_except (\<lambda>_. 0) 0 example_tracker {}"
    unfolding settled_except_def all_ok_def graph_ok_def locally_correct_def
    using g f example_source_ok by (auto simp: wired_def compute_frame_def dest!: g)
  then show "settled example_tracker" by (auto simp: settled_def)
  show "frame_of example_tracker x = None" using f(1) by (auto simp: frame_of_def example_tracker_def)
qed

lemma example_lookup: "example_tracker 1 = Some example_source" "example_tracker 2 = Some example_source"
    "pg_raw_readouts example_source \<noteq> None" "pg_decoded example_source = None"
  by (simp_all add: example_tracker_def example_source_def)

theorem load_correction_settles_witness:
  "\<exists>T' updates. load_correction 1 (bitvec_zeros 2) (bitvec_zeros 1) example_tracker = Some (T', updates) \<and> settled T' \<and>
    erase T' = erase (example_tracker(1 \<mapsto> example_source\<lparr>pg_decoded := Some \<lparr>fr_readouts = bitvec_zeros 1, fr_residual = bitvec_zeros 2\<rparr>\<rparr>)) \<and>
    (\<forall>x. (updates x = None \<and> frame_of T' x = frame_of example_tracker x) \<or>
         (\<exists>f b. updates x = Some b \<and> frame_of T' x = Some f \<and> reports b f))"
  by (rule load_correction_settles [OF example_settled(1) example_lookup(1,3)])
    (use example_source_ok(5) in \<open>simp add: example_decoded_def\<close>)

theorem loads_commute_witness:
  "\<exists>T1 U1 T2 U2 T' U'. load_correction 1 (bitvec_zeros 2) (bitvec_zeros 1) example_tracker = Some (T1, U1) \<and>
    load_correction 2 (bitvec_zeros 2) (bitvec_zeros 1) T1 = Some (T', U') \<and>
    load_correction 2 (bitvec_zeros 2) (bitvec_zeros 1) example_tracker = Some (T2, U2) \<and>
    (\<exists>U''. load_correction 1 (bitvec_zeros 2) (bitvec_zeros 1) T2 = Some (T', U''))"
  by (rule loads_commute [OF example_settled(1) example_lookup(1,2) _ example_lookup(3,3)])
    (use example_source_ok(5) in \<open>simp_all add: example_decoded_def\<close>)

theorem committed_decoding_reports_once_witness:
  "\<exists>T' us. load_corrections [(2, example_decoded), (1, example_decoded)] example_tracker = Some (T', us) \<and>
    (\<forall>x \<in> dom example_tracker. length (filter (\<lambda>u. u x \<noteq> None) us) = 1 \<and>
       (\<exists>g f. T' x = Some g \<and> pg_frame g = Some f \<and> frame_equation T' g f))"
proof (rule committed_decoding_reports_once)
  show "settled example_tracker" "\<forall>x. frame_of example_tracker x = None" by (simp_all add: example_settled)
  show "distinct (map fst [(2 :: nat, example_decoded), (1, example_decoded)])" by simp
  show "fst ` set [(2, example_decoded), (1, example_decoded)] = dom example_tracker" by (auto simp: example_tracker_def)
  show "\<forall>l \<in> set [(2, example_decoded), (1, example_decoded)]. loadable example_tracker l"
    using example_lookup example_source_ok(5) by (auto simp: loadable_def)
qed

lemma example_added:
  "\<exists>T'. add_gadget 3 example_type None (\<lambda>_. None) [\<lparr>con_gid = 1, con_port = 0\<rparr>] example_tracker = Some T' \<and> settled T' \<and>
    T' 3 \<noteq> None \<and> frame_of T' = frame_of example_tracker"
proof (rule add_gadget_run)
  show "settled example_tracker" by (rule example_settled)
  show "example_tracker 3 = None" by (simp add: example_tracker_def)
  show "length (gt_inputs example_type) = length [\<lparr>con_gid = 1, con_port = 0\<rparr>]" by (simp add: example_type_def)
  show "distinct [\<lparr>con_gid = 1, con_port = 0\<rparr>]" by simp
  show "\<forall>c \<in> set [\<lparr>con_gid = 1, con_port = 0\<rparr>]. free_port example_tracker c"
    by (simp add: free_port_def example_tracker_def example_source_def)
  show "\<forall>rc. Option.bind None gm_remote_conditional_correction = Some rc \<longrightarrow>
      (\<forall>r \<in> set (rc_remote_readouts rc). \<exists>p. example_tracker (rr_gid r) = Some p \<and> rr_readout_index r < num_readouts p)"
    by simp
  show "gadget_type_fits (\<lambda>_. None) example_type None
      (sum_list (map (\<lambda>c. length (port_range (the (example_tracker (con_gid c))) (con_port c))) [\<lparr>con_gid = 1, con_port = 0\<rparr>]))"
    by (simp add: example_lookup [simplified] example_source_ok)
      (simp add: gadget_type_fits_def example_type_def modified_fits_def sparse_fits_def the_sparse_def sparse_zeros_def
        sparse_in_range_def sparse_positions_def)
qed

theorem add_gadget_settles_witness:
  "\<exists>T'. add_gadget 3 example_type None (\<lambda>_. None) [\<lparr>con_gid = 1, con_port = 0\<rparr>] example_tracker = Some T' \<and> settled T' \<and>
    T' 3 \<noteq> None \<and> frame_of T' = frame_of example_tracker"
proof (rule add_gadget_settles)
  show "settled example_tracker" by (rule example_settled)
  show "example_tracker 3 = None" by (simp add: example_tracker_def)
  show "length (gt_inputs example_type) = length [\<lparr>con_gid = 1, con_port = 0\<rparr>]" by (simp add: example_type_def)
  show "distinct [\<lparr>con_gid = 1, con_port = 0\<rparr>]" by simp
  show "\<forall>c \<in> set [\<lparr>con_gid = 1, con_port = 0\<rparr>]. free_port example_tracker c"
    by (simp add: free_port_def example_tracker_def example_source_def)
  show "\<forall>rc. Option.bind None gm_remote_conditional_correction = Some rc \<longrightarrow>
      (\<forall>r \<in> set (rc_remote_readouts rc). \<exists>p. example_tracker (rr_gid r) = Some p \<and> rr_readout_index r < num_readouts p)"
    by simp
  show "gadget_type_fits (\<lambda>_. None) example_type None
      (sum_list (map (\<lambda>c. length (port_range (the (example_tracker (con_gid c))) (con_port c))) [\<lparr>con_gid = 1, con_port = 0\<rparr>]))"
    by (simp add: example_lookup [simplified] example_source_ok)
      (simp add: gadget_type_fits_def example_type_def modified_fits_def sparse_fits_def the_sparse_def sparse_zeros_def
        sparse_in_range_def sparse_positions_def)
qed

end
