(* ===== verification/Symbolic_Frame.thy ===== *)
theory Symbolic_Frame
  imports Pauli_Frame "HOL-Library.Multiset"
begin

text \<open>
  The symbolic propagator of the decoding runtime, \<open>misc/pauli_frame_symbolic_propagator.rs\<close>: instead of
  the bits of one shot it propagates formal GF(2) variables, one for each readout and residual correction
  of each gadget, through the same matrices as the tracker.  Expressions are nodes of a list; the terms
  of an exclusive or lie before it.

  \<open>BinaryHeap\<close> is a list whose \<open>pop\<close> removes a greatest element; a \<open>HashSet\<close> is a set, a \<open>HashMap\<close> a
  finite map.
\<close>

section \<open>State\<close>

datatype correction_basis = Readout nat nat | Residual nat nat

fun basis_gid :: "correction_basis \<Rightarrow> nat" where
  "basis_gid (Readout gid index) = gid"
| "basis_gid (Residual gid index) = gid"

datatype symbolic_node = ZeroNode | BasisNode correction_basis | XorNode nat "nat list"

record symbolic_gadget =
  sg_input_sources :: "nat list"
  sg_readout_nodes :: "nat list"
  sg_residual_nodes :: "nat list"
  sg_remote_sources :: "nat list"
  sg_remote_dependents :: "nat list"
  sg_output_bias :: "nat list"

record propagator =
  pr_nodes :: "symbolic_node list"
  pr_gadgets :: "nat \<rightharpoonup> symbolic_gadget"

section \<open>Operations\<close>

definition symbolic_num_readouts :: "symbolic_gadget \<Rightarrow> nat" where
  "symbolic_num_readouts g = length (sg_readout_nodes g)"

definition output_observable_range :: "symbolic_gadget \<Rightarrow> nat \<Rightarrow> (nat \<times> nat) option" where
  "output_observable_range g port = do {
     start \<leftarrow> nth_opt (sg_output_bias g) port;
     Some (start, case nth_opt (sg_output_bias g) (port + 1) of Some e \<Rightarrow> e | None \<Rightarrow> length (sg_residual_nodes g)) }"

definition residual_slice :: "symbolic_gadget \<Rightarrow> nat \<Rightarrow> nat list option" where
  "residual_slice g port = do {
     (start, stop) \<leftarrow> output_observable_range g port;
     guard_opt (start \<le> stop \<and> stop \<le> length (sg_residual_nodes g));
     Some (take (stop - start) (drop start (sg_residual_nodes g))) }"

definition propagator_new :: propagator where
  "propagator_new = \<lparr>pr_nodes = [ZeroNode], pr_gadgets = (\<lambda>_. None)\<rparr>"

definition propagator_reset :: "propagator \<Rightarrow> propagator" where
  "propagator_reset P = \<lparr>pr_nodes = take 1 (pr_nodes P), pr_gadgets = (\<lambda>_. None)\<rparr>"

definition sym_basis :: "correction_basis \<Rightarrow> propagator \<Rightarrow> nat \<times> propagator" where
  "sym_basis b P = (length (pr_nodes P), P\<lparr>pr_nodes := pr_nodes P @ [BasisNode b]\<rparr>)"

text \<open>Of every run of equal elements of a sorted list, keep one when its length is odd.\<close>

function odd_runs :: "nat list \<Rightarrow> nat list" where
  "odd_runs [] = []"
| "odd_runs (t # ts) = (let run = t # takeWhile (\<lambda>u. u = t) ts in
     (if length run mod 2 = 1 then [t] else []) @ odd_runs (dropWhile (\<lambda>u. u = t) ts))"
  by pat_completeness auto
termination
  by (relation "measure length") (simp_all add: le_imp_less_Suc length_dropWhile_le)

definition sym_xor :: "nat \<Rightarrow> nat list \<Rightarrow> propagator \<Rightarrow> nat \<times> propagator" where
  "sym_xor gid terms P = (case odd_runs (sort (filter (\<lambda>term. term \<noteq> 0) terms)) of
       [] \<Rightarrow> (0, P)
     | [node] \<Rightarrow> (node, P)
     | reduced \<Rightarrow> (length (pr_nodes P), P\<lparr>pr_nodes := pr_nodes P @ [XorNode gid reduced]\<rparr>))"

definition sym_apply_matrix :: "nat \<Rightarrow> aligned_bitmatrix \<Rightarrow> nat list \<Rightarrow> propagator \<Rightarrow> (nat list \<times> propagator) option" where
  "sym_apply_matrix gid matrix inputs P = do {
     guard_opt (column_count matrix = length inputs);
     ofold (\<lambda>row (outputs, P). do {
         terms \<leftarrow> ofold (\<lambda>column terms. do {
             b \<leftarrow> mat_get matrix (row, column);
             Some (if b then terms @ [inputs ! column] else terms) }) [0..<length inputs] [];
         let (node, P) = sym_xor gid terms P;
         Some (outputs @ [node], P) }) [0..<row_count matrix] ([], P) }"

definition sym_input_nodes :: "propagator \<Rightarrow> connector list \<Rightarrow> nat list option" where
  "sym_input_nodes P inputs = map_option concat (omap (\<lambda>c. do {
     g \<leftarrow> pr_gadgets P (con_gid c);
     residual_slice g (con_port c) }) inputs)"

text \<open>Exclusive or with a fresh correction variable, for every readout and for every output.\<close>

definition add_readout_variables :: "nat \<Rightarrow> nat list \<Rightarrow> propagator \<Rightarrow> (nat list \<times> propagator) option" where
  "add_readout_variables gid readout_nodes P =
     ofold (\<lambda>index (nodes, P). do {
         readout \<leftarrow> nth_opt nodes index;
         let (basis, P) = sym_basis (Readout gid index) P;
         let (node, P) = sym_xor gid [readout, basis] P;
         Some (nodes[index := node], P) }) [0..<length readout_nodes] (readout_nodes, P)"

definition combine_residuals :: "nat \<Rightarrow> nat \<Rightarrow> nat list \<Rightarrow> nat list \<Rightarrow> nat list \<Rightarrow> propagator \<Rightarrow> (nat list \<times> propagator) option" where
  "combine_residuals gid n correction_nodes logical_nodes remote_nodes P =
     ofold (\<lambda>index (residual_nodes, P). do {
         let (basis, P) = sym_basis (Residual gid index) P;
         c \<leftarrow> nth_opt correction_nodes index;
         l \<leftarrow> nth_opt logical_nodes index;
         r \<leftarrow> nth_opt remote_nodes index;
         let (node, P) = sym_xor gid [c, l, r, basis] P;
         Some (residual_nodes @ [node], P) }) [0..<n] ([], P)"

definition sym_remote_nodes :: "nat \<Rightarrow> frame_gadget \<Rightarrow> propagator \<Rightarrow> (nat list \<times> propagator) option" where
  "sym_remote_nodes gid gadget P = (case pg_remote gadget of
       Some (remote_readouts, correction_matrix) \<Rightarrow> do {
         remote_inputs \<leftarrow> omap (\<lambda>r. do {
             g \<leftarrow> pr_gadgets P (rr_gid r);
             nth_opt (sg_readout_nodes g) (rr_readout_index r) }) remote_readouts;
         sym_apply_matrix gid correction_matrix remote_inputs P }
     | None \<Rightarrow> Some (replicate (num_output_observables gadget) 0, P))"

definition register_remote_dependent :: "nat \<Rightarrow> remote_readout \<Rightarrow> propagator \<Rightarrow> propagator option" where
  "register_remote_dependent gid r P = do {
     g \<leftarrow> pr_gadgets P (rr_gid r);
     Some (P\<lparr>pr_gadgets := (pr_gadgets P)(rr_gid r \<mapsto> g\<lparr>sg_remote_dependents := sg_remote_dependents g @ [gid]\<rparr>)\<rparr>) }"

definition sym_add_gadget :: "nat \<Rightarrow> frame_gadget \<Rightarrow> propagator \<Rightarrow> propagator option" where
  "sym_add_gadget gid gadget P = do {
     guard_opt (pr_gadgets P gid = None);
     num_inputs \<leftarrow> num_input_observables gadget;
     input_nodes \<leftarrow> sym_input_nodes P (pg_inputs gadget);
     let input_nodes = input_nodes @ [0];
     (readout_nodes, P) \<leftarrow> sym_apply_matrix gid (pg_readout_propagation gadget) input_nodes P;
     (readout_nodes, P) \<leftarrow> add_readout_variables gid readout_nodes P;
     (correction_nodes, P) \<leftarrow> sym_apply_matrix gid (pg_correction_propagation gadget) input_nodes P;
     (logical_nodes, P) \<leftarrow> sym_apply_matrix gid (pg_logical_correction gadget) readout_nodes P;
     (remote_nodes, P) \<leftarrow> sym_remote_nodes gid gadget P;
     (residual_nodes, P) \<leftarrow> combine_residuals gid (num_output_observables gadget) correction_nodes logical_nodes remote_nodes P;
     let P = P\<lparr>pr_gadgets := (pr_gadgets P)(gid \<mapsto>
       \<lparr>sg_input_sources = map con_gid (pg_inputs gadget), sg_readout_nodes = readout_nodes,
        sg_residual_nodes = residual_nodes,
        sg_remote_sources = (case pg_remote gadget of Some (rs, _) \<Rightarrow> map rr_gid rs | None \<Rightarrow> []),
        sg_remote_dependents = [], sg_output_bias = pg_output_bias gadget\<rparr>)\<rparr>;
     (case pg_remote gadget of
        Some (rs, _) \<Rightarrow> ofold (register_remote_dependent gid) rs P
      | None \<Rightarrow> Some P) }"

text \<open>A binary heap pops a greatest element.\<close>

definition heap_pop :: "nat list \<Rightarrow> (nat \<times> nat list) option" where
  "heap_pop heap = (case heap of [] \<Rightarrow> None
     | x # xs \<Rightarrow> (let m = fold max xs x in Some (m, remove1 m heap)))"

definition gid_included :: "nat set option \<Rightarrow> nat \<Rightarrow> bool" where
  "gid_included active_gids gid = (case active_gids of None \<Rightarrow> True | Some gids \<Rightarrow> gid \<in> gids)"

text \<open>Toggle the terms of an exclusive or in the active set; a term that becomes active is queued.\<close>

definition toggle_term :: "nat \<Rightarrow> nat list \<times> nat set \<Rightarrow> nat list \<times> nat set" where
  "toggle_term term s = (case s of (pending, active) \<Rightarrow>
     if term \<notin> active then (pending @ [term], insert term active) else (pending, active - {term}))"

partial_function (option) components_loop ::
    "symbolic_node list \<Rightarrow> nat set option \<Rightarrow> nat list \<Rightarrow> nat set \<Rightarrow> correction_basis list \<Rightarrow> correction_basis list option" where
  "components_loop nodes active_gids pending active components = (case heap_pop pending of
       None \<Rightarrow> Some components
     | Some (node, pending) \<Rightarrow>
         if node \<notin> active then components_loop nodes active_gids pending active components
         else do {
           let active = active - {node};
           n \<leftarrow> nth_opt nodes node;
           (case n of
              ZeroNode \<Rightarrow> components_loop nodes active_gids pending active components
            | BasisNode component \<Rightarrow> components_loop nodes active_gids pending active
                (if gid_included active_gids (basis_gid component) then components @ [component] else components)
            | XorNode gid terms \<Rightarrow>
                if \<not> gid_included active_gids gid then components_loop nodes active_gids pending active components
                else (case fold toggle_term terms (pending, active) of
                    (pending, active) \<Rightarrow> components_loop nodes active_gids pending active components)) })"

definition sym_components :: "propagator \<Rightarrow> nat \<Rightarrow> nat set option \<Rightarrow> correction_basis list option" where
  "sym_components P root active_gids = components_loop (pr_nodes P) active_gids [root] {root} []"

definition readout_components :: "propagator \<Rightarrow> nat \<Rightarrow> correction_basis list list option" where
  "readout_components P gid = do {
     g \<leftarrow> pr_gadgets P gid;
     omap (\<lambda>root. sym_components P root None) (sg_readout_nodes g) }"

definition output_components :: "propagator \<Rightarrow> nat \<Rightarrow> correction_basis list list option" where
  "output_components P gid = do {
     g \<leftarrow> pr_gadgets P gid;
     omap (\<lambda>root. sym_components P root None) (sg_residual_nodes g) }"

definition target_root :: "propagator \<Rightarrow> correction_basis \<Rightarrow> nat option" where
  "target_root P target = (case target of
       Readout gid index \<Rightarrow> do { g \<leftarrow> pr_gadgets P gid; nth_opt (sg_readout_nodes g) index }
     | Residual gid index \<Rightarrow> do { g \<leftarrow> pr_gadgets P gid; nth_opt (sg_residual_nodes g) index })"

type_synonym flip_cache = "correction_basis \<rightharpoonup> nat list"

definition push_effect :: "nat \<Rightarrow> correction_basis \<Rightarrow> flip_cache \<Rightarrow> flip_cache" where
  "push_effect target_index component effects =
     effects(component \<mapsto> (case effects component of Some ts \<Rightarrow> ts | None \<Rightarrow> []) @ [target_index])"

definition logical_flip_cache :: "propagator \<Rightarrow> nat list \<Rightarrow> correction_basis list \<Rightarrow> flip_cache option" where
  "logical_flip_cache P gadget_ids targets =
     ofold (\<lambda>(target_index, target) effects. do {
         root \<leftarrow> target_root P target;
         components \<leftarrow> sym_components P root (Some (set gadget_ids));
         Some (fold (push_effect target_index) components effects) })
       (zip [0..<length targets] targets) (\<lambda>_. None)"

definition xor_basis_effect :: "flip_cache \<Rightarrow> correction_basis \<Rightarrow> nat set \<Rightarrow> nat set" where
  "xor_basis_effect cache component effect =
     fold (\<lambda>target effect. if target \<notin> effect then insert target effect else effect - {target})
       (case cache component of Some ts \<Rightarrow> ts | None \<Rightarrow> []) effect"

definition propagated_logical_flips :: "flip_cache \<Rightarrow> nat \<Rightarrow> nat list \<Rightarrow> nat list \<Rightarrow> nat list" where
  "propagated_logical_flips cache correction_gid residual_indices readout_indices =
     (let effect = fold (\<lambda>index. xor_basis_effect cache (Readout correction_gid index)) readout_indices {};
          effect = fold (\<lambda>index. xor_basis_effect cache (Residual correction_gid index)) residual_indices effect
      in sorted_list_of_set effect)"

definition remote_dependencies_are_closed :: "propagator \<Rightarrow> nat list \<Rightarrow> bool option" where
  "remote_dependencies_are_closed P gadget_ids =
     ofold (\<lambda>gid closed. if \<not> closed then Some False else do {
         g \<leftarrow> pr_gadgets P gid;
         Some (list_all (\<lambda>source. source \<in> set gadget_ids) (sg_remote_sources g) \<and>
               list_all (\<lambda>dependent. dependent \<in> set gadget_ids) (sg_remote_dependents g)) }) gadget_ids True"

definition boundary_targets :: "propagator \<Rightarrow> (nat \<times> nat) list \<Rightarrow> correction_basis list option" where
  "boundary_targets P boundaries = map_option concat (omap (\<lambda>(gid, port). do {
     g \<leftarrow> pr_gadgets P gid;
     (start, stop) \<leftarrow> output_observable_range g port;
     Some (map (Residual gid) [start..<stop]) }) boundaries)"

definition readout_targets :: "propagator \<Rightarrow> nat list \<Rightarrow> correction_basis list option" where
  "readout_targets P gids = map_option concat (omap (\<lambda>gid. do {
     g \<leftarrow> pr_gadgets P gid;
     Some (map (Readout gid) [0..<symbolic_num_readouts g]) }) gids)"

text \<open>Depth first from a gadget to its sources, inside the included gadgets; \<open>pending\<close> is a stack.\<close>

partial_function (option) causal_loop :: "propagator \<Rightarrow> nat set \<Rightarrow> nat list \<Rightarrow> nat set \<Rightarrow> nat set option" where
  "causal_loop P included pending ancestors = (case pending of [] \<Rightarrow> Some ancestors
     | _ \<Rightarrow> (let gid = last pending; pending = butlast pending in
         if gid \<notin> included \<or> gid \<in> ancestors then causal_loop P included pending ancestors
         else do {
           gadget \<leftarrow> pr_gadgets P gid;
           causal_loop P included (pending @ sg_input_sources gadget @ sg_remote_sources gadget) (insert gid ancestors) }))"

definition causal_gadgets :: "propagator \<Rightarrow> nat \<Rightarrow> nat set \<Rightarrow> nat set option" where
  "causal_gadgets P gid included = causal_loop P included [gid] {}"

section \<open>The value of an expression\<close>

definition parity :: "('a \<Rightarrow> bool) \<Rightarrow> 'a list \<Rightarrow> bool" where
  "parity p xs = odd (length (filter p xs))"

lemma parity_simps [simp]:
  "parity p [] = False" "parity p (x # xs) = (p x \<noteq> parity p xs)" "parity p (xs @ ys) = (parity p xs \<noteq> parity p ys)"
  by (auto simp: parity_def)

lemma parity_cong: "(\<And>x. x \<in> set xs \<Longrightarrow> p x = q x) \<Longrightarrow> parity p xs = parity q xs"
  by (auto simp: parity_def cong: filter_cong)

lemma parity_mset: "mset xs = mset ys \<Longrightarrow> parity p xs = parity p ys"
  unfolding parity_def by (metis mset_filter size_mset)

lemma parity_sort: "parity p (sort xs) = parity p xs"
  by (rule parity_mset) simp

lemma parity_replicate: "parity p (replicate n x) = (p x \<and> odd n)"
  by (induction n) auto

lemma parity_odd_runs: "parity p (odd_runs xs) = parity p xs"
proof (induction xs rule: odd_runs.induct)
  case (2 t ts)
  have "takeWhile (\<lambda>u. u = t) ts = replicate (length (takeWhile (\<lambda>u. u = t) ts)) t"
    by (rule replicate_length_same [symmetric]) (auto dest: set_takeWhileD)
  then have "parity p (takeWhile (\<lambda>u. u = t) ts) = (p t \<and> odd (length (takeWhile (\<lambda>u. u = t) ts)))"
    using parity_replicate by metis
  moreover have "parity p ts = (parity p (takeWhile (\<lambda>u. u = t) ts) \<noteq> parity p (dropWhile (\<lambda>u. u = t) ts))"
    by (metis parity_simps(3) takeWhile_dropWhile_id)
  ultimately show ?case using 2 by (auto simp: Let_def odd_iff_mod_2_eq_one)
qed simp

lemma set_odd_runs: "set (odd_runs xs) \<subseteq> set xs"
  by (induction xs rule: odd_runs.induct) (auto simp: Let_def dest: set_dropWhileD)

text \<open>What an expression stands for, given the corrections; inside a window, only the gadgets in it count.\<close>

function node_value :: "(correction_basis \<Rightarrow> bool) \<Rightarrow> nat set option \<Rightarrow> symbolic_node list \<Rightarrow> nat \<Rightarrow> bool" where
  "node_value \<rho> A nodes n = (if n < length nodes then (case nodes ! n of
       ZeroNode \<Rightarrow> False
     | BasisNode b \<Rightarrow> gid_included A (basis_gid b) \<and> \<rho> b
     | XorNode gid terms \<Rightarrow> gid_included A gid \<and> parity (\<lambda>t. if t < n then node_value \<rho> A nodes t else False) terms)
     else False)"
  by pat_completeness auto
termination
  by (relation "measure (\<lambda>(\<rho>, A, nodes, n). n)") simp_all

declare node_value.simps [simp del]

definition nodes_ok :: "symbolic_node list \<Rightarrow> bool" where
  "nodes_ok nodes \<longleftrightarrow> nodes \<noteq> [] \<and> nodes ! 0 = ZeroNode \<and>
     (\<forall>i < length nodes. \<forall>gid ts. nodes ! i = XorNode gid ts \<longrightarrow> (\<forall>t \<in> set ts. t < i)) \<and>
     (\<forall>i < length nodes. \<forall>j < length nodes. \<forall>b. nodes ! i = BasisNode b \<longrightarrow> nodes ! j = BasisNode b \<longrightarrow> i = j)"

definition bases :: "symbolic_node list \<Rightarrow> correction_basis set" where
  "bases nodes = {b. BasisNode b \<in> set nodes}"

abbreviation nv :: "(correction_basis \<Rightarrow> bool) \<Rightarrow> nat set option \<Rightarrow> propagator \<Rightarrow> nat \<Rightarrow> bool" where
  "nv \<rho> A P \<equiv> node_value \<rho> A (pr_nodes P)"

lemma node_value_at:
  assumes "n < length nodes"
  shows "nodes ! n = ZeroNode \<Longrightarrow> node_value \<rho> A nodes n = False"
    and "nodes ! n = BasisNode b \<Longrightarrow> node_value \<rho> A nodes n = (gid_included A (basis_gid b) \<and> \<rho> b)"
    and "nodes ! n = XorNode gid ts \<Longrightarrow> node_value \<rho> A nodes n =
      (gid_included A gid \<and> parity (\<lambda>t. t < n \<and> node_value \<rho> A nodes t) ts)"
proof -
  have "parity (\<lambda>t. if t < n then node_value \<rho> A nodes t else False) = parity (\<lambda>t. t < n \<and> node_value \<rho> A nodes t)"
    by (intro ext parity_cong) simp
  with assms show "nodes ! n = XorNode gid ts \<Longrightarrow> node_value \<rho> A nodes n =
      (gid_included A gid \<and> parity (\<lambda>t. t < n \<and> node_value \<rho> A nodes t) ts)"
    by (subst node_value.simps) (simp only: symbolic_node.case if_True)
qed (use assms in \<open>subst node_value.simps; simp\<close>)+

lemma node_value_append: "n < length nodes \<Longrightarrow> node_value \<rho> A (nodes @ xs) n = node_value \<rho> A nodes n"
proof (induction n rule: less_induct)
  case (less n)
  have p: "parity (\<lambda>t. t < n \<and> node_value \<rho> A (nodes @ xs) t) ts = parity (\<lambda>t. t < n \<and> node_value \<rho> A nodes t) ts" for ts
    by (rule parity_cong) (use less in auto)
  have at: "(nodes @ xs) ! n = nodes ! n" "n < length (nodes @ xs)" using less.prems by (simp_all add: nth_append)
  show ?case
  proof (cases "nodes ! n")
    case (XorNode gid ts)
    with at node_value_at(3) [OF less.prems XorNode] node_value_at(3) [OF at(2), of gid ts] p show ?thesis by simp
  qed (use at node_value_at(1,2) [OF less.prems] node_value_at(1,2) [OF at(2)] in simp_all)
qed

lemma node_value_zero: "nodes_ok nodes \<Longrightarrow> \<not> node_value \<rho> A nodes 0"
  using node_value_at(1) [of 0 nodes] by (simp add: nodes_ok_def)

lemma node_value_xor:
  assumes "nodes_ok nodes" "n < length nodes" "nodes ! n = XorNode gid ts"
  shows "node_value \<rho> A nodes n = (gid_included A gid \<and> parity (node_value \<rho> A nodes) ts)"
proof -
  have "parity (\<lambda>t. t < n \<and> node_value \<rho> A nodes t) ts = parity (node_value \<rho> A nodes) ts"
    by (rule parity_cong) (use assms in \<open>auto simp: nodes_ok_def\<close>)
  with node_value_at(3) [OF assms(2,3)] show ?thesis by simp
qed

text \<open>The list of nodes only grows.\<close>

definition grows :: "correction_basis set \<Rightarrow> propagator \<Rightarrow> propagator \<Rightarrow> bool" where
  "grows bs P Q \<longleftrightarrow> nodes_ok (pr_nodes Q) \<and> (\<exists>xs. pr_nodes Q = pr_nodes P @ xs) \<and>
     pr_gadgets Q = pr_gadgets P \<and> bases (pr_nodes Q) = bases (pr_nodes P) \<union> bs"

lemma grows_refl: "nodes_ok (pr_nodes P) \<Longrightarrow> grows {} P P"
  by (simp add: grows_def)

lemma grows_trans: "grows bs P Q \<Longrightarrow> grows cs Q R \<Longrightarrow> grows (bs \<union> cs) P R"
  by (auto simp: grows_def)

lemma growsD:
  assumes "grows bs P Q"
  shows "nodes_ok (pr_nodes Q)" "length (pr_nodes P) \<le> length (pr_nodes Q)" "pr_gadgets Q = pr_gadgets P"
    "n < length (pr_nodes P) \<Longrightarrow> nv \<rho> A Q n = nv \<rho> A P n"
  using assms node_value_append by (auto simp: grows_def)

lemma nodes_ok_snoc:
  assumes "nodes_ok nodes" "\<And>gid ts t. x = XorNode gid ts \<Longrightarrow> t \<in> set ts \<Longrightarrow> t < length nodes"
    "\<And>b. x = BasisNode b \<Longrightarrow> b \<notin> bases nodes"
  shows "nodes_ok (nodes @ [x])"
proof -
  have xor: "\<forall>i < length (nodes @ [x]). \<forall>gid ts. (nodes @ [x]) ! i = XorNode gid ts \<longrightarrow> (\<forall>t \<in> set ts. t < i)"
    using assms(1,2) by (auto simp: nodes_ok_def nth_append less_Suc_eq split: if_splits)
  have new: "nodes ! i \<noteq> BasisNode b" if "i < length nodes" "x = BasisNode b" for i b
    using assms(3) [OF that(2)] nth_mem [OF that(1)] unfolding bases_def by (metis mem_Collect_eq)
  have old: "i = j" if "i < length nodes" "j < length nodes" "nodes ! i = BasisNode b" "nodes ! j = BasisNode b" for i j b
    using assms(1) that by (auto simp: nodes_ok_def)
  have "i = j" if "i < length (nodes @ [x])" "j < length (nodes @ [x])" "(nodes @ [x]) ! i = BasisNode b" "(nodes @ [x]) ! j = BasisNode b"
    for i j b
    using that new [of i b] new [of j b] old [of i j b] by (cases "i < length nodes"; cases "j < length nodes") (auto simp: nth_append)
  moreover have "nodes @ [x] \<noteq> []" "(nodes @ [x]) ! 0 = ZeroNode" using assms(1) by (auto simp: nodes_ok_def nth_append)
  ultimately show ?thesis using xor unfolding nodes_ok_def by blast
qed

lemma sym_basis_run:
  assumes "nodes_ok (pr_nodes P)" "b \<notin> bases (pr_nodes P)" "sym_basis b P = (n, Q)"
  shows "grows {b} P Q" "n < length (pr_nodes Q)" "nv \<rho> A Q n = (gid_included A (basis_gid b) \<and> \<rho> b)"
proof -
  have n: "n = length (pr_nodes P)" and Q: "Q = P\<lparr>pr_nodes := pr_nodes P @ [BasisNode b]\<rparr>"
    using assms(3) by (auto simp: sym_basis_def)
  show "n < length (pr_nodes Q)" by (simp add: n Q)
  have "nodes_ok (pr_nodes P @ [BasisNode b])" by (rule nodes_ok_snoc [OF assms(1)]) (use assms(2) in auto)
  then show "grows {b} P Q" by (auto simp: Q grows_def bases_def)
  show "nv \<rho> A Q n = (gid_included A (basis_gid b) \<and> \<rho> b)"
    by (rule node_value_at(2)) (simp_all add: n Q)
qed

lemma sym_xor_run:
  assumes "nodes_ok (pr_nodes P)" "\<forall>t \<in> set terms. t < length (pr_nodes P)" "sym_xor gid terms P = (n, Q)"
  shows "grows {} P Q" "n < length (pr_nodes Q)"
    and "gid_included A gid \<Longrightarrow> nv \<rho> A Q n = parity (nv \<rho> A P) terms"
proof -
  let ?r = "odd_runs (sort (filter (\<lambda>term. term \<noteq> 0) terms))"
  have r: "set ?r \<subseteq> set terms" using set_odd_runs [of "sort (filter (\<lambda>term. term \<noteq> 0) terms)"] by auto
  have z: "parity p (filter (\<lambda>term. term \<noteq> 0) terms) = parity p terms" if "\<not> p 0" for p
    using that by (induction terms) auto
  have p: "parity (nv \<rho> A P) ?r = parity (nv \<rho> A P) terms"
    using z [of "nv \<rho> A P"] node_value_zero [OF assms(1)] by (simp add: parity_odd_runs parity_sort)
  have ne: "0 < length (pr_nodes P)" using assms(1) by (simp add: nodes_ok_def)
  consider "?r = []" | x where "?r = [x]" | x y zs where "?r = x # y # zs" by (metis list.exhaust)
  then have "grows {} P Q \<and> n < length (pr_nodes Q) \<and> (gid_included A gid \<longrightarrow> nv \<rho> A Q n = parity (nv \<rho> A P) terms)"
  proof cases
    case 1
    with assms(1,3) p ne node_value_zero [OF assms(1)] show ?thesis by (auto simp: sym_xor_def grows_refl)
  next
    case (2 x)
    with assms(1-3) p r show ?thesis by (auto simp: sym_xor_def grows_refl)
  next
    case (3 x y zs)
    then have n: "n = length (pr_nodes P)" "Q = P\<lparr>pr_nodes := pr_nodes P @ [XorNode gid ?r]\<rparr>"
      using assms(3) by (auto simp: sym_xor_def)
    have ok: "nodes_ok (pr_nodes Q)" unfolding n(2) using nodes_ok_snoc [OF assms(1), of "XorNode gid ?r"] r assms(2) by auto
    then have g: "grows {} P Q" using n(2) by (auto simp: grows_def bases_def)
    have "nv \<rho> A Q n = (gid_included A gid \<and> parity (nv \<rho> A Q) ?r)"
      by (rule node_value_xor [OF ok]) (simp_all add: n)
    moreover have "parity (nv \<rho> A Q) ?r = parity (nv \<rho> A P) ?r"
      by (rule parity_cong) (use growsD(4) [OF g] r assms(2) in auto)
    ultimately show ?thesis using g p n by simp
  qed
  then show "grows {} P Q" "n < length (pr_nodes Q)"
    and "gid_included A gid \<Longrightarrow> nv \<rho> A Q n = parity (nv \<rho> A P) terms" by blast+
qed

lemma collect_terms:
  assumes "dense_ok r c m" "row < r" "length inputs = c"
  shows "ofold (\<lambda>column terms. do {
      b \<leftarrow> mat_get m (row, column);
      Some (if b then terms @ [inputs ! column] else terms) }) [0..<length inputs] [] =
    Some (map ((!) inputs) (filter (mat_bit m row) [0..<c]))"
proof -
  have "ofold (\<lambda>column terms. do {
      b \<leftarrow> mat_get m (row, column);
      Some (if b then terms @ [inputs ! column] else terms) }) [0..<c] [] =
    ofold (\<lambda>column terms. Some (if mat_bit m row column then terms @ [inputs ! column] else terms)) [0..<c] []"
    by (rule ofold_cong_inv) (use assms(1,2) in \<open>auto simp: dense_ok_def mat_get_bit fun_eq_iff\<close>)
  moreover have "ofold (\<lambda>column terms. Some (if mat_bit m row column then terms @ [inputs ! column] else terms)) [0..<k] [] =
      Some (map ((!) inputs) (filter (mat_bit m row) [0..<k]))" for k
    by (induction k) (auto simp: ofold_snoc)
  ultimately show ?thesis using assms(3) by simp
qed

lemma parity_map_filter: "parity p (map f (filter q [0..<c])) = xsum c (\<lambda>j. q j \<and> p (f j))"
  by (induction c) auto

lemma sym_apply_matrix_run:
  assumes "nodes_ok (pr_nodes P)" "dense_ok r c m" "length inputs = c" "\<forall>t \<in> set inputs. t < length (pr_nodes P)"
  shows "\<exists>ns Q. sym_apply_matrix gid m inputs P = Some (ns, Q) \<and> grows {} P Q \<and> length ns = r \<and>
    (\<forall>n \<in> set ns. n < length (pr_nodes Q)) \<and>
    (\<forall>\<rho> A i. gid_included A gid \<longrightarrow> i < r \<longrightarrow>
       nv \<rho> A Q (ns ! i) = mvec c (mat_bit m) (\<lambda>j. nv \<rho> A P (inputs ! j)) i)"
proof -
  let ?body = "\<lambda>row (outputs, Q). do {
         terms \<leftarrow> ofold (\<lambda>column terms. do {
             b \<leftarrow> mat_get m (row, column);
             Some (if b then terms @ [inputs ! column] else terms) }) [0..<length inputs] [];
         let (node, Q) = sym_xor gid terms Q;
         Some (outputs @ [node], Q) }"
  let ?I = "\<lambda>k (ns, Q). grows {} P Q \<and> length ns = k \<and> (\<forall>n \<in> set ns. n < length (pr_nodes Q)) \<and>
      (\<forall>\<rho> A i. gid_included A gid \<longrightarrow> i < k \<longrightarrow> nv \<rho> A Q (ns ! i) = mvec c (mat_bit m) (\<lambda>j. nv \<rho> A P (inputs ! j)) i)"
  have "\<exists>t. ofold ?body [0..<r] ([], P) = Some t \<and> ?I r t"
  proof (rule ofold_upt_inv [where P = ?I])
    show "?I 0 ([], P)" using grows_refl [OF assms(1)] by simp
    fix k t assume k: "k < r" and I: "?I k t"
    obtain ns Q where t: "t = (ns, Q)" by (cases t)
    let ?terms = "map ((!) inputs) (filter (mat_bit m k) [0..<c])"
    obtain n R where x: "sym_xor gid ?terms Q = (n, R)" by (cases "sym_xor gid ?terms Q")
    have g: "grows {} P Q" using I t by simp
    have small: "\<forall>t \<in> set ?terms. t < length (pr_nodes P)" using assms(3,4) by auto
    then have "\<forall>t \<in> set ?terms. t < length (pr_nodes Q)" using growsD(2) [OF g] by auto
    note x = x and run = sym_xor_run [OF growsD(1) [OF g] this x]
    have val: "nv \<rho> A R n = mvec c (mat_bit m) (\<lambda>j. nv \<rho> A P (inputs ! j)) k" if "gid_included A gid" for \<rho> A
    proof -
      have "parity (nv \<rho> A Q) ?terms = parity (nv \<rho> A P) ?terms"
        by (rule parity_cong) (use small growsD(4) [OF g] in auto)
      with run(3) [OF that, of \<rho>] show ?thesis by (simp add: parity_map_filter mvec_def)
    qed
    have "?I (Suc k) (ns @ [n], R)"
      using I t grows_trans [OF g run(1)] run(2) val growsD(2,4) [OF run(1)]
      by (auto simp: nth_append less_Suc_eq dest: order_less_le_trans)
    moreover have "?body k t = Some (ns @ [n], R)" using collect_terms [OF assms(2) k assms(3)] x t by simp
    ultimately show "\<exists>t'. ?body k t = Some t' \<and> ?I (Suc k) t'" by blast
  qed
  then show ?thesis using assms(2,3)
    by (auto simp: sym_apply_matrix_def column_count_def dense_ok_def)
qed

lemma sym_basis_xor_run:
  assumes "nodes_ok (pr_nodes P)" "b \<notin> bases (pr_nodes P)" "basis_gid b = gid"
    and "\<forall>t \<in> set terms. t < length (pr_nodes P)" "sym_basis b P = (v, Q)" "sym_xor gid (terms @ [v]) Q = (n, R)"
  shows "grows {b} P R" "n < length (pr_nodes R)"
    and "gid_included A gid \<Longrightarrow> nv \<rho> A R n = (parity (nv \<rho> A P) terms \<noteq> \<rho> b)"
proof -
  note 1 = sym_basis_run [OF assms(1,2,5)]
  have "\<forall>t \<in> set (terms @ [v]). t < length (pr_nodes Q)" using assms(4) growsD(2) [OF 1(1)] 1(2) by auto
  note 2 = sym_xor_run [OF growsD(1) [OF 1(1)] this assms(6)]
  show "grows {b} P R" using grows_trans [OF 1(1) 2(1)] by simp
  show "n < length (pr_nodes R)" by (rule 2(2))
  have "parity (nv \<rho> A Q) terms = parity (nv \<rho> A P) terms"
    by (rule parity_cong) (use growsD(4) [OF 1(1)] assms(4) in auto)
  with 1(3) [of \<rho> A] 2(3) [of A \<rho>] assms(3)
  show "gid_included A gid \<Longrightarrow> nv \<rho> A R n = (parity (nv \<rho> A P) terms \<noteq> \<rho> b)" by simp
qed

lemma grows_bases: "grows bs P Q \<Longrightarrow> bases (pr_nodes Q) = bases (pr_nodes P) \<union> bs"
  by (simp add: grows_def)

lemma add_readout_variables_run:
  assumes "nodes_ok (pr_nodes P)" "\<forall>i. Readout gid i \<notin> bases (pr_nodes P)" "\<forall>t \<in> set rns. t < length (pr_nodes P)"
  shows "\<exists>ns Q. add_readout_variables gid rns P = Some (ns, Q) \<and> grows {Readout gid i |i. i < length rns} P Q \<and>
    length ns = length rns \<and> (\<forall>n \<in> set ns. n < length (pr_nodes Q)) \<and>
    (\<forall>\<rho> A i. gid_included A gid \<longrightarrow> i < length rns \<longrightarrow> nv \<rho> A Q (ns ! i) = (nv \<rho> A P (rns ! i) \<noteq> \<rho> (Readout gid i)))"
proof -
  let ?body = "\<lambda>index (nodes, P). do {
         readout \<leftarrow> nth_opt nodes index;
         let (basis, P) = sym_basis (Readout gid index) P;
         let (node, P) = sym_xor gid [readout, basis] P;
         Some (nodes[index := node], P) }"
  let ?I = "\<lambda>k (ns, Q). grows {Readout gid i |i. i < k} P Q \<and> length ns = length rns \<and> (\<forall>n \<in> set ns. n < length (pr_nodes Q)) \<and>
      (\<forall>i. k \<le> i \<longrightarrow> i < length rns \<longrightarrow> ns ! i = rns ! i) \<and>
      (\<forall>\<rho> A i. gid_included A gid \<longrightarrow> i < k \<longrightarrow> nv \<rho> A Q (ns ! i) = (nv \<rho> A P (rns ! i) \<noteq> \<rho> (Readout gid i)))"
  have "\<exists>t. ofold ?body [0..<length rns] (rns, P) = Some t \<and> ?I (length rns) t"
  proof (rule ofold_upt_inv [where P = ?I])
    show "?I 0 (rns, P)" using grows_refl [OF assms(1)] assms(3) by simp
    fix k t assume k: "k < length rns" and I: "?I k t"
    obtain ns Q where t: "t = (ns, Q)" by (cases t)
    have g: "grows {Readout gid i |i. i < k} P Q" and l: "length ns = length rns" and small: "\<forall>n \<in> set ns. n < length (pr_nodes Q)"
      and keep: "ns ! k = rns ! k" using I t k by auto
    obtain v R where b: "sym_basis (Readout gid k) Q = (v, R)" by (cases "sym_basis (Readout gid k) Q")
    obtain n S where x: "sym_xor gid [ns ! k, v] R = (n, S)" by (cases "sym_xor gid [ns ! k, v] R")
    have fresh: "Readout gid k \<notin> bases (pr_nodes Q)" using grows_bases [OF g] assms(2) by auto
    note run = sym_basis_xor_run [OF growsD(1) [OF g] fresh, of gid "[ns ! k]" v R n S]
    have run: "grows {Readout gid k} Q S" "n < length (pr_nodes S)"
      "\<And>A \<rho>. gid_included A gid \<Longrightarrow> nv \<rho> A S n = (nv \<rho> A Q (ns ! k) \<noteq> \<rho> (Readout gid k))"
      using run b x small k l by auto
    have "nv \<rho> A Q (rns ! k) = nv \<rho> A P (rns ! k)" for \<rho> A by (rule growsD(4) [OF g]) (use assms(3) k in auto)
    then have val: "nv \<rho> A S n = (nv \<rho> A P (rns ! k) \<noteq> \<rho> (Readout gid k))" if "gid_included A gid" for \<rho> A
      using run(3) [OF that] keep by simp
    have "{Readout gid i |i. i < k} \<union> {Readout gid k} = {Readout gid i |i. i < Suc k}" by (auto simp: less_Suc_eq)
    then have g': "grows {Readout gid i |i. i < Suc k} P S" using grows_trans [OF g run(1)] by simp
    have "\<forall>m \<in> set (ns[k := n]). m < length (pr_nodes S)"
    proof
      fix m assume "m \<in> set (ns[k := n])"
      then have "m = n \<or> m \<in> set ns" using set_update_subset_insert by fast
      then show "m < length (pr_nodes S)" using small run(2) growsD(2) [OF run(1)] by auto
    qed
    moreover have "nv \<rho> A S (ns[k := n] ! i) = (nv \<rho> A P (rns ! i) \<noteq> \<rho> (Readout gid i))"
      if "gid_included A gid" "i < Suc k" for \<rho> A i
    proof (cases "i = k")
      case True
      with val [OF that(1)] k l show ?thesis by simp
    next
      case False
      with that k l have "ns ! i \<in> set ns" "i < k" by auto
      with False I t that growsD(4) [OF run(1)] small show ?thesis by auto
    qed
    ultimately have "?I (Suc k) (ns[k := n], S)" using g' l I t by auto
    moreover have "?body k t = Some (ns[k := n], S)" using b x t k l by simp
    ultimately show "\<exists>t'. ?body k t = Some t' \<and> ?I (Suc k) t'" by blast
  qed
  then show ?thesis by (auto simp: add_readout_variables_def)
qed

lemma combine_residuals_run:
  assumes "nodes_ok (pr_nodes P)" "\<forall>i. Residual gid i \<notin> bases (pr_nodes P)"
    and "length cs = n" "length ls = n" "length rs = n" "\<forall>t \<in> set cs \<union> set ls \<union> set rs. t < length (pr_nodes P)"
  shows "\<exists>ns Q. combine_residuals gid n cs ls rs P = Some (ns, Q) \<and> grows {Residual gid i |i. i < n} P Q \<and>
    length ns = n \<and> (\<forall>m \<in> set ns. m < length (pr_nodes Q)) \<and>
    (\<forall>\<rho> A i. gid_included A gid \<longrightarrow> i < n \<longrightarrow> nv \<rho> A Q (ns ! i) =
       (parity (nv \<rho> A P) [cs ! i, ls ! i, rs ! i] \<noteq> \<rho> (Residual gid i)))"
proof -
  let ?body = "\<lambda>index (residual_nodes, P). do {
         let (basis, P) = sym_basis (Residual gid index) P;
         c \<leftarrow> nth_opt cs index;
         l \<leftarrow> nth_opt ls index;
         r \<leftarrow> nth_opt rs index;
         let (node, P) = sym_xor gid [c, l, r, basis] P;
         Some (residual_nodes @ [node], P) }"
  let ?I = "\<lambda>k (ns, Q). grows {Residual gid i |i. i < k} P Q \<and> length ns = k \<and> (\<forall>n \<in> set ns. n < length (pr_nodes Q)) \<and>
      (\<forall>\<rho> A i. gid_included A gid \<longrightarrow> i < k \<longrightarrow> nv \<rho> A Q (ns ! i) =
         (parity (nv \<rho> A P) [cs ! i, ls ! i, rs ! i] \<noteq> \<rho> (Residual gid i)))"
  have "\<exists>t. ofold ?body [0..<n] ([], P) = Some t \<and> ?I n t"
  proof (rule ofold_upt_inv [where P = ?I])
    show "?I 0 ([], P)" using grows_refl [OF assms(1)] by simp
    fix k t assume k: "k < n" and I: "?I k t"
    obtain ns Q where t: "t = (ns, Q)" by (cases t)
    have g: "grows {Residual gid i |i. i < k} P Q" and l: "length ns = k" and small: "\<forall>n \<in> set ns. n < length (pr_nodes Q)"
      using I t by auto
    let ?ts = "[cs ! k, ls ! k, rs ! k]"
    have ts: "\<forall>u \<in> set ?ts. u < length (pr_nodes P)" using assms(3-6) k by auto
    obtain v R where b: "sym_basis (Residual gid k) Q = (v, R)" by (cases "sym_basis (Residual gid k) Q")
    obtain m S where x: "sym_xor gid (?ts @ [v]) R = (m, S)" by (cases "sym_xor gid (?ts @ [v]) R")
    have fresh: "Residual gid k \<notin> bases (pr_nodes Q)" using grows_bases [OF g] assms(2) by auto
    have "\<forall>u \<in> set ?ts. u < length (pr_nodes Q)" using ts growsD(2) [OF g] by auto
    note run = sym_basis_xor_run [OF growsD(1) [OF g] fresh _ this b x]
    have run: "grows {Residual gid k} Q S" "m < length (pr_nodes S)"
      "\<And>A \<rho>. gid_included A gid \<Longrightarrow> nv \<rho> A S m = (parity (nv \<rho> A Q) ?ts \<noteq> \<rho> (Residual gid k))"
      using run by auto
    have "parity (nv \<rho> A Q) ?ts = parity (nv \<rho> A P) ?ts" for \<rho> A
      by (rule parity_cong, rule growsD(4) [OF g]) (use ts in auto)
    then have val: "nv \<rho> A S m = (parity (nv \<rho> A P) ?ts \<noteq> \<rho> (Residual gid k))" if "gid_included A gid" for \<rho> A
      using run(3) [OF that] by simp
    have "{Residual gid i |i. i < k} \<union> {Residual gid k} = {Residual gid i |i. i < Suc k}" by (auto simp: less_Suc_eq)
    then have g': "grows {Residual gid i |i. i < Suc k} P S" using grows_trans [OF g run(1)] by simp
    have "nv \<rho> A S ((ns @ [m]) ! i) = (parity (nv \<rho> A P) [cs ! i, ls ! i, rs ! i] \<noteq> \<rho> (Residual gid i))"
      if "gid_included A gid" "i < Suc k" for \<rho> A i
    proof (cases "i = k")
      case True
      with val [OF that(1)] l show ?thesis by (simp add: nth_append)
    next
      case False
      with that l have "ns ! i \<in> set ns" "i < k" by auto
      with False I t that l growsD(4) [OF run(1)] small show ?thesis by (auto simp: nth_append)
    qed
    then have "?I (Suc k) (ns @ [m], S)" using g' l small run(2) growsD(2) [OF run(1)] by (auto dest: order_less_le_trans)
    moreover have "?body k t = Some (ns @ [m], S)" using b x t k assms(3-5) by simp
    ultimately show "\<exists>t'. ?body k t = Some t' \<and> ?I (Suc k) t'" by blast
  qed
  then show ?thesis by (auto simp: combine_residuals_def)
qed

section \<open>The propagator mirrors the tracker\<close>

definition sym_range :: "propagator \<Rightarrow> frame_gadget \<Rightarrow> connector \<Rightarrow> nat list" where
  "sym_range P p c = map ((!) (sg_residual_nodes (the (pr_gadgets P (con_gid c))))) (port_range p (con_port c))"

definition sym_inputs :: "propagator \<Rightarrow> tracker \<Rightarrow> frame_gadget \<Rightarrow> nat list" where
  "sym_inputs P T g = concat (map (\<lambda>c. sym_range P (the (T (con_gid c))) c) (pg_inputs g))"

definition sym_remotes :: "propagator \<Rightarrow> frame_gadget \<Rightarrow> nat list" where
  "sym_remotes P g = map (\<lambda>r. sg_readout_nodes (the (pr_gadgets P (rr_gid r))) ! rr_readout_index r) (remote_refs g)"

text \<open>The equations of one gadget over the formal corrections: the tracker's, without the constants.\<close>

definition sym_equation :: "propagator \<Rightarrow> tracker \<Rightarrow> nat \<Rightarrow> frame_gadget \<Rightarrow> symbolic_gadget \<Rightarrow> bool" where
  "sym_equation P T x g s \<longleftrightarrow> (\<forall>\<rho> A. gid_included A x \<longrightarrow>
     (let inp = (\<lambda>j. nv \<rho> A P ((sym_inputs P T g @ [0]) ! j)); ni = num_in g + 1 in
      (\<forall>i < num_readouts g. nv \<rho> A P (sg_readout_nodes s ! i) =
         (mvec ni (mat_bit (pg_readout_propagation g)) inp i \<noteq> \<rho> (Readout x i))) \<and>
      (\<forall>i < num_output_observables g. nv \<rho> A P (sg_residual_nodes s ! i) =
         (((mvec ni (mat_bit (pg_correction_propagation g)) inp i
            \<noteq> mvec (num_readouts g) (mat_bit (pg_logical_correction g)) (\<lambda>j. nv \<rho> A P (sg_readout_nodes s ! j)) i)
           \<noteq> (case pg_remote g of None \<Rightarrow> False | Some (refs, m) \<Rightarrow>
                mvec (length refs) (mat_bit m) (\<lambda>j. nv \<rho> A P (sym_remotes P g ! j)) i))
          \<noteq> \<rho> (Residual x i)))))"

definition sym_gadget_ok :: "propagator \<Rightarrow> nat \<Rightarrow> frame_gadget \<Rightarrow> symbolic_gadget \<Rightarrow> bool" where
  "sym_gadget_ok P x g s \<longleftrightarrow> length (sg_readout_nodes s) = num_readouts g \<and>
     length (sg_residual_nodes s) = num_output_observables g \<and> sg_output_bias s = pg_output_bias g \<and>
     sg_input_sources s = map con_gid (pg_inputs g) \<and> sg_remote_sources s = map rr_gid (remote_refs g) \<and>
     (\<forall>n \<in> set (sg_readout_nodes s) \<union> set (sg_residual_nodes s). n < length (pr_nodes P))"

definition synced :: "propagator \<Rightarrow> tracker \<Rightarrow> bool" where
  "synced P T \<longleftrightarrow> nodes_ok (pr_nodes P) \<and> (\<forall>b \<in> bases (pr_nodes P). T (basis_gid b) \<noteq> None) \<and>
     (\<forall>x. T x = None \<longleftrightarrow> pr_gadgets P x = None) \<and>
     (\<forall>x g s. T x = Some g \<longrightarrow> pr_gadgets P x = Some s \<longrightarrow> sym_gadget_ok P x g s \<and> sym_equation P T x g s)"

lemma synced_lookup: "synced P T \<Longrightarrow> T x = Some g \<Longrightarrow>
    \<exists>s. pr_gadgets P x = Some s \<and> sym_gadget_ok P x g s \<and> sym_equation P T x g s"
  unfolding synced_def by (metis not_None_eq)

lemma synced_new: "synced propagator_new tracker_new"
  by (auto simp: synced_def propagator_new_def tracker_new_def nodes_ok_def bases_def)

lemma residual_slice_run:
  assumes "sym_gadget_ok P x p s" "ports_ok p" "port < length (pg_output_bias p)"
  shows "residual_slice s port = Some (map ((!) (sg_residual_nodes s)) (port_range p port))"
proof -
  let ?r = "sg_residual_nodes s" and ?a = "pg_output_bias p ! port" and ?e = "port_stop p port"
  have b: "sg_output_bias s = pg_output_bias p" "length ?r = num_output_observables p" "?a \<le> ?e" "?e \<le> length ?r"
    using assms by (auto simp: sym_gadget_ok_def ports_ok_def)
  have "(case nth_opt (pg_output_bias p) (port + 1) of Some e \<Rightarrow> e | None \<Rightarrow> length ?r) = ?e"
    using assms(3) b(2) by (cases "port + 1 < length (pg_output_bias p)") (auto simp: port_stop_def)
  then have "residual_slice s port = Some (take (?e - ?a) (drop ?a ?r))"
    using b assms(3) by (simp add: residual_slice_def output_observable_range_def)
  moreover have "take (?e - ?a) (drop ?a ?r) = map ((!) ?r) [?a..<?e]"
    by (rule nth_equalityI) (use b in auto)
  ultimately show ?thesis by (simp add: port_range_def)
qed

lemma sym_range_bound:
  assumes "sym_gadget_ok P y p s" "pr_gadgets P (con_gid c) = Some s" "ports_ok p" "con_port c < length (pg_output_bias p)"
  shows "\<forall>n \<in> set (sym_range P p c). n < length (pr_nodes P)"
proof
  fix n assume "n \<in> set (sym_range P p c)"
  then obtain i where i: "i < port_stop p (con_port c)" "n = sg_residual_nodes s ! i"
    using assms(2) by (auto simp: sym_range_def port_range_def)
  then have "i < length (sg_residual_nodes s)" using assms by (auto simp: sym_gadget_ok_def ports_ok_def)
  then show "n < length (pr_nodes P)" using assms(1) i(2) nth_mem [of i "sg_residual_nodes s"] by (auto simp: sym_gadget_ok_def)
qed

lemma sym_inputs_run:
  assumes "synced P T" "all_ok T" "wired T g"
  shows "sym_input_nodes P (pg_inputs g) = Some (sym_inputs P T g)" "length (sym_inputs P T g) = num_in g"
    and "\<forall>n \<in> set (sym_inputs P T g). n < length (pr_nodes P)"
proof -
  have c: "\<exists>p s. T (con_gid c) = Some p \<and> pr_gadgets P (con_gid c) = Some s \<and> sym_gadget_ok P (con_gid c) p s \<and> ports_ok p \<and>
      con_port c < length (pg_output_bias p)" if c: "c \<in> set (pg_inputs g)" for c
  proof -
    obtain p where p: "T (con_gid c) = Some p" "con_port c < length (pg_output_bias p)"
      using assms(3) c by (auto simp: wired_def)
    with synced_lookup [OF assms(1) p(1)] assms(2) show ?thesis by (auto simp: all_ok_def gadget_ok_def)
  qed
  have "omap (\<lambda>c. do { g \<leftarrow> pr_gadgets P (con_gid c); residual_slice g (con_port c) }) (pg_inputs g) =
      Some (map (\<lambda>c. sym_range P (the (T (con_gid c))) c) (pg_inputs g))"
    by (rule omap_total) (use c residual_slice_run in \<open>force simp: sym_range_def\<close>)
  then show "sym_input_nodes P (pg_inputs g) = Some (sym_inputs P T g)"
    by (simp add: sym_input_nodes_def sym_inputs_def)
  show "length (sym_inputs P T g) = num_in g"
    using assms(3) by (simp add: sym_inputs_def length_concat comp_def sym_range_def wired_def)
  show "\<forall>n \<in> set (sym_inputs P T g). n < length (pr_nodes P)"
    using c sym_range_bound by (force simp: sym_inputs_def)
qed

lemma sym_remotes_run:
  assumes "synced P T" "wired T g"
  shows "omap (\<lambda>r. do { g \<leftarrow> pr_gadgets P (rr_gid r); nth_opt (sg_readout_nodes g) (rr_readout_index r) }) (remote_refs g) =
      Some (sym_remotes P g)"
    and "\<forall>n \<in> set (sym_remotes P g). n < length (pr_nodes P)"
proof -
  have r: "\<exists>s. pr_gadgets P (rr_gid r) = Some s \<and> rr_readout_index r < length (sg_readout_nodes s) \<and>
      (\<forall>n \<in> set (sg_readout_nodes s). n < length (pr_nodes P))" if r: "r \<in> set (remote_refs g)" for r
  proof -
    obtain p where p: "T (rr_gid r) = Some p" "rr_readout_index r < num_readouts p"
      using assms(2) r by (auto simp: wired_def)
    with synced_lookup [OF assms(1) p(1)] show ?thesis by (auto simp: sym_gadget_ok_def)
  qed
  show "omap (\<lambda>r. do { g \<leftarrow> pr_gadgets P (rr_gid r); nth_opt (sg_readout_nodes g) (rr_readout_index r) }) (remote_refs g) =
      Some (sym_remotes P g)"
    unfolding sym_remotes_def by (rule omap_total) (use r in force)
  show "\<forall>n \<in> set (sym_remotes P g). n < length (pr_nodes P)" using r by (force simp: sym_remotes_def)
qed

text \<open>New nodes and new gadgets leave the equations of the old ones alone.\<close>

definition same_expressions :: "symbolic_gadget \<Rightarrow> symbolic_gadget \<Rightarrow> bool" where
  "same_expressions s t \<longleftrightarrow> t = s\<lparr>sg_remote_dependents := sg_remote_dependents t\<rparr>"

lemma same_expressionsD:
  assumes "same_expressions s t"
  shows "sg_readout_nodes t = sg_readout_nodes s" "sg_residual_nodes t = sg_residual_nodes s" "sg_output_bias t = sg_output_bias s"
    "sg_input_sources t = sg_input_sources s" "sg_remote_sources t = sg_remote_sources s"
  using assms unfolding same_expressions_def by (cases s; cases t; simp)+

lemma sym_equation_mono:
  assumes st: "synced P T" "all_ok T" "T x = Some g" "pr_gadgets P x = Some s"
    and nodes: "pr_nodes Q = pr_nodes P @ xs"
    and old: "\<And>y p. T y = Some p \<Longrightarrow> T' y = Some p \<and> (\<exists>t. pr_gadgets Q y = Some t \<and> same_expressions (the (pr_gadgets P y)) t)"
    and t: "same_expressions s t"
  shows "sym_gadget_ok Q x g t" "sym_equation Q T' x g t"
proof -
  note ge = same_expressionsD [OF t]
  have sok: "sym_gadget_ok P x g s" "sym_equation P T x g s" and w: "wired T g"
    using st by (auto simp: synced_def all_ok_def)
  then show "sym_gadget_ok Q x g t" using ge nodes
    by (auto simp: sym_gadget_ok_def intro: trans_less_add1)
  have v: "nv \<rho> A Q n = nv \<rho> A P n" if "n < length (pr_nodes P)" for \<rho> A n
    unfolding nodes using that by (rule node_value_append)
  have "sym_range Q (the (T' (con_gid c))) c = sym_range P (the (T (con_gid c))) c" if c: "c \<in> set (pg_inputs g)" for c
  proof -
    obtain p where "T (con_gid c) = Some p" using w c by (auto simp: wired_def)
    with old [OF this] show ?thesis using same_expressionsD(2) by (fastforce simp: sym_range_def)
  qed
  then have inputs: "sym_inputs Q T' g = sym_inputs P T g" by (simp add: sym_inputs_def cong: map_cong)
  have "sg_readout_nodes (the (pr_gadgets Q (rr_gid r))) = sg_readout_nodes (the (pr_gadgets P (rr_gid r)))"
    if r: "r \<in> set (remote_refs g)" for r
  proof -
    obtain p where "T (rr_gid r) = Some p" using w r by (auto simp: wired_def)
    with old [OF this] show ?thesis using same_expressionsD(1) by fastforce
  qed
  then have remotes: "sym_remotes Q g = sym_remotes P g" by (simp add: sym_remotes_def cong: map_cong)
  have "0 < length (pr_nodes P)" using st(1) by (simp add: synced_def nodes_ok_def)
  then have inp: "nv \<rho> A Q ((sym_inputs P T g @ [0]) ! j) = nv \<rho> A P ((sym_inputs P T g @ [0]) ! j)" if "j < num_in g + 1" for \<rho> A j
    using sym_inputs_run(2,3) [OF st(1,2) w] that by (intro v) (auto simp: nth_append less_Suc_eq)
  have rd: "nv \<rho> A Q (sg_readout_nodes s ! i) = nv \<rho> A P (sg_readout_nodes s ! i)" if "i < num_readouts g" for \<rho> A i
    using sok(1) that by (intro v) (auto simp: sym_gadget_ok_def)
  have rs: "nv \<rho> A Q (sg_residual_nodes s ! i) = nv \<rho> A P (sg_residual_nodes s ! i)" if "i < num_output_observables g" for \<rho> A i
    using sok(1) that by (intro v) (auto simp: sym_gadget_ok_def)
  have rm: "nv \<rho> A Q (sym_remotes P g ! i) = nv \<rho> A P (sym_remotes P g ! i)" if "i < length (remote_refs g)" for \<rho> A i
    using sym_remotes_run(2) [OF st(1) w] that by (intro v) (auto simp: sym_remotes_def)
  have rc: "(case pg_remote g of None \<Rightarrow> False | Some (refs, m) \<Rightarrow> mvec (length refs) (mat_bit m) (\<lambda>j. nv \<rho> A Q (sym_remotes P g ! j)) i) =
      (case pg_remote g of None \<Rightarrow> False | Some (refs, m) \<Rightarrow> mvec (length refs) (mat_bit m) (\<lambda>j. nv \<rho> A P (sym_remotes P g ! j)) i)" for \<rho> A i
    using rm by (auto simp: remote_refs_def split: option.splits intro!: mvec_cong)
  have mi: "mvec (num_in g + 1) M (\<lambda>j. nv \<rho> A Q ((sym_inputs P T g @ [0]) ! j)) i =
      mvec (num_in g + 1) M (\<lambda>j. nv \<rho> A P ((sym_inputs P T g @ [0]) ! j)) i" for \<rho> A M i
    by (rule mvec_cong) (rule inp)
  have mr: "mvec (num_readouts g) M (\<lambda>j. nv \<rho> A Q (sg_readout_nodes s ! j)) i =
      mvec (num_readouts g) M (\<lambda>j. nv \<rho> A P (sg_readout_nodes s ! j)) i" for \<rho> A M i
    by (rule mvec_cong) (rule rd)
  show "sym_equation Q T' x g t"
    using sok(2) unfolding sym_equation_def Let_def inputs remotes ge(1,2) rc mi mr by (simp add: rd rs)
qed

lemma register_dependents_run:
  assumes "\<forall>r \<in> set rs. pr_gadgets P (rr_gid r) \<noteq> None"
  shows "\<exists>Q. ofold (register_remote_dependent gid) rs P = Some Q \<and> pr_nodes Q = pr_nodes P \<and>
    (\<forall>y. rel_option same_expressions (pr_gadgets P y) (pr_gadgets Q y))"
  using assms
proof (induction rs arbitrary: P)
  case Nil
  then show ?case by (auto simp: same_expressions_def intro: option.rel_refl)
next
  case (Cons r rs)
  then obtain g where g: "pr_gadgets P (rr_gid r) = Some g" by auto
  let ?g = "g\<lparr>sg_remote_dependents := sg_remote_dependents g @ [gid]\<rparr>"
  let ?P = "P\<lparr>pr_gadgets := (pr_gadgets P)(rr_gid r \<mapsto> ?g)\<rparr>"
  obtain Q where Q: "ofold (register_remote_dependent gid) rs ?P = Some Q" "pr_nodes Q = pr_nodes ?P"
      "\<forall>y. rel_option same_expressions (pr_gadgets ?P y) (pr_gadgets Q y)"
  proof -
    have "\<forall>r \<in> set rs. pr_gadgets ?P (rr_gid r) \<noteq> None" using Cons.prems by simp
    from Cons.IH [OF this] that show thesis by blast
  qed
  have first: "same_expressions g ?g" by (simp add: same_expressions_def)
  have "rel_option same_expressions (pr_gadgets P y) (pr_gadgets Q y)" for y
  proof (cases "y = rr_gid r")
    case True
    from Q(3) have "rel_option same_expressions (pr_gadgets ?P y) (pr_gadgets Q y)" by blast
    with True obtain h where h: "pr_gadgets Q y = Some h" "same_expressions ?g h" by (auto simp: option_rel_Some1)
    then have "same_expressions g h" by (cases g; cases h) (simp add: same_expressions_def)
    with True g h(1) show ?thesis by simp
  next
    case False
    with Q(3) show ?thesis by (auto dest: spec [of _ y])
  qed
  moreover have step: "register_remote_dependent gid r P = Some ?P" by (simp add: register_remote_dependent_def g)
  have "ofold (register_remote_dependent gid) (r # rs) P = Some Q" by (simp add: step Q(1))
  ultimately show ?case using Q(2) by (intro exI [of _ Q]) simp
qed

lemma sym_remote_nodes_run:
  assumes "synced P T" "wired T g" "matrices_ok g" "grows bs P Q"
  shows "\<exists>ns R. sym_remote_nodes gid g Q = Some (ns, R) \<and> grows {} Q R \<and> length ns = num_output_observables g \<and>
    (\<forall>n \<in> set ns. n < length (pr_nodes R)) \<and>
    (\<forall>\<rho> A i. gid_included A gid \<longrightarrow> i < num_output_observables g \<longrightarrow> nv \<rho> A R (ns ! i) =
       (case pg_remote g of None \<Rightarrow> False | Some (refs, m) \<Rightarrow>
          mvec (length refs) (mat_bit m) (\<lambda>j. nv \<rho> A P (sym_remotes P g ! j)) i))"
proof (cases "pg_remote g")
  case None
  have ok: "nodes_ok (pr_nodes Q)" by (rule growsD(1) [OF assms(4)])
  then have "0 < length (pr_nodes Q)" by (simp add: nodes_ok_def)
  with None ok node_value_zero [OF ok] show ?thesis by (simp add: sym_remote_nodes_def grows_refl)
next
  case (Some rm)
  obtain refs m where rm: "rm = (refs, m)" by (cases rm)
  then have rr: "remote_refs g = refs" and m: "dense_ok (num_output_observables g) (length refs) m"
    using Some assms(3) by (auto simp: remote_refs_def matrices_ok_def)
  note rem = sym_remotes_run [OF assms(1,2)]
  have gad: "pr_gadgets Q = pr_gadgets P" by (rule growsD(3) [OF assms(4)])
  have small: "\<forall>t \<in> set (sym_remotes P g). t < length (pr_nodes Q)" using rem(2) growsD(2) [OF assms(4)] by auto
  have len: "length (sym_remotes P g) = length refs" by (simp add: sym_remotes_def rr)
  obtain ns R where R: "sym_apply_matrix gid m (sym_remotes P g) Q = Some (ns, R)" "grows {} Q R"
      "length ns = num_output_observables g" "\<forall>n \<in> set ns. n < length (pr_nodes R)"
      "\<forall>\<rho> A i. gid_included A gid \<longrightarrow> i < num_output_observables g \<longrightarrow>
         nv \<rho> A R (ns ! i) = mvec (length refs) (mat_bit m) (\<lambda>j. nv \<rho> A Q (sym_remotes P g ! j)) i"
    using sym_apply_matrix_run [OF growsD(1) [OF assms(4)] m len small] by blast
  have "mvec (length refs) (mat_bit m) (\<lambda>j. nv \<rho> A Q (sym_remotes P g ! j)) i =
      mvec (length refs) (mat_bit m) (\<lambda>j. nv \<rho> A P (sym_remotes P g ! j)) i" for \<rho> A i
    by (rule mvec_cong, rule growsD(4) [OF assms(4)]) (use rem(2) len in auto)
  with R rem(1) show ?thesis by (simp add: sym_remote_nodes_def Some rm gad rr)
qed

text \<open>The expressions of a new gadget.\<close>

lemma new_expressions_run:
  assumes "synced P T" "all_ok T" "T gid = None" "gadget_ok g" "wired T g"
  shows "\<exists>rd rs Q. grows ({Readout gid i |i. i < num_readouts g} \<union> {Residual gid i |i. i < num_output_observables g}) P Q \<and>
    length rd = num_readouts g \<and> length rs = num_output_observables g \<and>
    (\<forall>n \<in> set rd \<union> set rs. n < length (pr_nodes Q)) \<and>
    sym_add_gadget gid g P = (let Q = Q\<lparr>pr_gadgets := (pr_gadgets Q)(gid \<mapsto>
       \<lparr>sg_input_sources = map con_gid (pg_inputs g), sg_readout_nodes = rd, sg_residual_nodes = rs,
        sg_remote_sources = map rr_gid (remote_refs g),
        sg_remote_dependents = [], sg_output_bias = pg_output_bias g\<rparr>)\<rparr>
      in ofold (register_remote_dependent gid) (remote_refs g) Q) \<and>
    (\<forall>\<rho> A. gid_included A gid \<longrightarrow>
     (let inp = (\<lambda>j. nv \<rho> A P ((sym_inputs P T g @ [0]) ! j)); ni = num_in g + 1 in
      (\<forall>i < num_readouts g. nv \<rho> A Q (rd ! i) =
         (mvec ni (mat_bit (pg_readout_propagation g)) inp i \<noteq> \<rho> (Readout gid i))) \<and>
      (\<forall>i < num_output_observables g. nv \<rho> A Q (rs ! i) =
         (((mvec ni (mat_bit (pg_correction_propagation g)) inp i
            \<noteq> mvec (num_readouts g) (mat_bit (pg_logical_correction g)) (\<lambda>j. nv \<rho> A Q (rd ! j)) i)
           \<noteq> (case pg_remote g of None \<Rightarrow> False | Some (refs, m) \<Rightarrow>
                mvec (length refs) (mat_bit m) (\<lambda>j. nv \<rho> A P (sym_remotes P g ! j)) i))
          \<noteq> \<rho> (Residual gid i)))))"
proof -
  let ?r = "num_output_observables g" and ?ro = "num_readouts g" and ?ni = "num_in g + 1"
  let ?in = "sym_inputs P T g @ [0]"
  have m: "dense_ok ?r ?ni (pg_correction_propagation g)" "dense_ok ?ro ?ni (pg_readout_propagation g)"
      "dense_ok ?r ?ro (pg_logical_correction g)" and mok: "matrices_ok g"
    using assms(4) by (auto simp: gadget_ok_def matrices_ok_def)
  have fresh: "b \<notin> bases (pr_nodes P)" if "basis_gid b = gid" for b
    using assms(1,3) that unfolding synced_def by metis
  have ok: "nodes_ok (pr_nodes P)" using assms(1) by (simp add: synced_def)
  note ins = sym_inputs_run [OF assms(1,2,5)]
  have inl: "length ?in = ?ni" and insm: "\<forall>t \<in> set ?in. t < length (pr_nodes P)"
    using ins(2,3) ok by (auto simp: nodes_ok_def)
  obtain rd0 P1 where 1: "sym_apply_matrix gid (pg_readout_propagation g) ?in P = Some (rd0, P1)" "grows {} P P1"
      "length rd0 = ?ro" "\<forall>n \<in> set rd0. n < length (pr_nodes P1)"
      "\<forall>\<rho> A i. gid_included A gid \<longrightarrow> i < ?ro \<longrightarrow>
         nv \<rho> A P1 (rd0 ! i) = mvec ?ni (mat_bit (pg_readout_propagation g)) (\<lambda>j. nv \<rho> A P (?in ! j)) i"
    using sym_apply_matrix_run [OF ok m(2) inl insm] by blast
  have f1: "\<forall>i. Readout gid i \<notin> bases (pr_nodes P1)" using fresh grows_bases [OF 1(2)] by simp
  obtain rd P2 where 2: "add_readout_variables gid rd0 P1 = Some (rd, P2)" "grows {Readout gid i |i. i < ?ro} P1 P2"
      "length rd = ?ro" "\<forall>n \<in> set rd. n < length (pr_nodes P2)"
      "\<forall>\<rho> A i. gid_included A gid \<longrightarrow> i < ?ro \<longrightarrow> nv \<rho> A P2 (rd ! i) = (nv \<rho> A P1 (rd0 ! i) \<noteq> \<rho> (Readout gid i))"
    using add_readout_variables_run [OF growsD(1) [OF 1(2)] f1 1(4)] unfolding 1(3) by blast
  have g2: "grows {Readout gid i |i. i < ?ro} P P2" using grows_trans [OF 1(2) 2(2)] by simp
  have in2: "\<forall>t \<in> set ?in. t < length (pr_nodes P2)" using insm growsD(2) [OF g2] by auto
  obtain cs P3 where 3: "sym_apply_matrix gid (pg_correction_propagation g) ?in P2 = Some (cs, P3)" "grows {} P2 P3"
      "length cs = ?r" "\<forall>n \<in> set cs. n < length (pr_nodes P3)"
      "\<forall>\<rho> A i. gid_included A gid \<longrightarrow> i < ?r \<longrightarrow>
         nv \<rho> A P3 (cs ! i) = mvec ?ni (mat_bit (pg_correction_propagation g)) (\<lambda>j. nv \<rho> A P2 (?in ! j)) i"
    using sym_apply_matrix_run [OF growsD(1) [OF g2] m(1) inl in2] by blast
  have rd3: "\<forall>t \<in> set rd. t < length (pr_nodes P3)" using 2(4) growsD(2) [OF 3(2)] by auto
  obtain ls P4 where 4: "sym_apply_matrix gid (pg_logical_correction g) rd P3 = Some (ls, P4)" "grows {} P3 P4"
      "length ls = ?r" "\<forall>n \<in> set ls. n < length (pr_nodes P4)"
      "\<forall>\<rho> A i. gid_included A gid \<longrightarrow> i < ?r \<longrightarrow>
         nv \<rho> A P4 (ls ! i) = mvec ?ro (mat_bit (pg_logical_correction g)) (\<lambda>j. nv \<rho> A P3 (rd ! j)) i"
    using sym_apply_matrix_run [OF growsD(1) [OF 3(2)] m(3) 2(3) rd3] by blast
  have g4: "grows {Readout gid i |i. i < ?ro} P P4" using grows_trans [OF grows_trans [OF g2 3(2)] 4(2)] by simp
  obtain ms P5 where 5: "sym_remote_nodes gid g P4 = Some (ms, P5)" "grows {} P4 P5" "length ms = ?r"
      "\<forall>n \<in> set ms. n < length (pr_nodes P5)"
      "\<forall>\<rho> A i. gid_included A gid \<longrightarrow> i < ?r \<longrightarrow> nv \<rho> A P5 (ms ! i) =
         (case pg_remote g of None \<Rightarrow> False | Some (refs, m) \<Rightarrow>
            mvec (length refs) (mat_bit m) (\<lambda>j. nv \<rho> A P (sym_remotes P g ! j)) i)"
    using sym_remote_nodes_run [OF assms(1,5) mok g4] by blast
  have g5: "grows {Readout gid i |i. i < ?ro} P P5" using grows_trans [OF g4 5(2)] by simp
  have g35: "grows {} P3 P5" and g45: "grows {} P4 P5" using grows_trans [OF 4(2) 5(2)] 5(2) by simp_all
  have f5: "\<forall>i. Residual gid i \<notin> bases (pr_nodes P5)" using fresh grows_bases [OF g5] by auto
  have s5: "\<forall>t \<in> set cs \<union> set ls \<union> set ms. t < length (pr_nodes P5)"
    using 3(4) 4(4) 5(4) growsD(2) [OF g35] growsD(2) [OF g45] by auto
  obtain rs Q where 6: "combine_residuals gid ?r cs ls ms P5 = Some (rs, Q)" "grows {Residual gid i |i. i < ?r} P5 Q"
      "length rs = ?r" "\<forall>n \<in> set rs. n < length (pr_nodes Q)"
      "\<forall>\<rho> A i. gid_included A gid \<longrightarrow> i < ?r \<longrightarrow> nv \<rho> A Q (rs ! i) =
         (parity (nv \<rho> A P5) [cs ! i, ls ! i, ms ! i] \<noteq> \<rho> (Residual gid i))"
    using combine_residuals_run [OF growsD(1) [OF g5] f5 3(3) 4(3) 5(3) s5] by blast
  have gQ: "grows ({Readout gid i |i. i < ?ro} \<union> {Residual gid i |i. i < ?r}) P Q" by (rule grows_trans [OF g5 6(2)])
  have g2Q: "grows {Residual gid i |i. i < ?r} P2 Q"
    using grows_trans [OF grows_trans [OF 3(2) g35] 6(2)] by simp
  have bound: "\<forall>n \<in> set rd \<union> set rs. n < length (pr_nodes Q)" using 2(4) 6(4) growsD(2) [OF g2Q] by auto
  have run: "sym_add_gadget gid g P = (let Q = Q\<lparr>pr_gadgets := (pr_gadgets Q)(gid \<mapsto>
       \<lparr>sg_input_sources = map con_gid (pg_inputs g), sg_readout_nodes = rd, sg_residual_nodes = rs,
        sg_remote_sources = map rr_gid (remote_refs g),
        sg_remote_dependents = [], sg_output_bias = pg_output_bias g\<rparr>)\<rparr>
      in ofold (register_remote_dependent gid) (remote_refs g) Q)"
  proof -
    have "pr_gadgets P gid = None" using assms(1,3) by (simp add: synced_def)
    moreover have "num_input_observables g = Some (num_in g)"
      using m(1) by (simp add: num_input_observables_def column_count_def dense_ok_def)
    ultimately show ?thesis
      by (cases "pg_remote g")
        (simp_all add: sym_add_gadget_def ins(1) 1(1) 2(1) 3(1) 4(1) 5(1) 6(1) Let_def remote_refs_def split: prod.splits)
  qed
  have vals: "(\<forall>i < ?ro. nv \<rho> A Q (rd ! i) =
         (mvec ?ni (mat_bit (pg_readout_propagation g)) (\<lambda>j. nv \<rho> A P (?in ! j)) i \<noteq> \<rho> (Readout gid i))) \<and>
      (\<forall>i < ?r. nv \<rho> A Q (rs ! i) =
         (((mvec ?ni (mat_bit (pg_correction_propagation g)) (\<lambda>j. nv \<rho> A P (?in ! j)) i
            \<noteq> mvec ?ro (mat_bit (pg_logical_correction g)) (\<lambda>j. nv \<rho> A Q (rd ! j)) i)
           \<noteq> (case pg_remote g of None \<Rightarrow> False | Some (refs, m) \<Rightarrow>
                mvec (length refs) (mat_bit m) (\<lambda>j. nv \<rho> A P (sym_remotes P g ! j)) i))
          \<noteq> \<rho> (Residual gid i)))" if inc: "gid_included A gid" for \<rho> A
  proof -
    have rd: "nv \<rho> A P2 (rd ! i) = nv \<rho> A Q (rd ! i)" "nv \<rho> A P3 (rd ! i) = nv \<rho> A Q (rd ! i)" if "i < ?ro" for i
      using growsD(4) [OF g2Q, of "rd ! i" \<rho> A] growsD(4) [OF 3(2), of "rd ! i" \<rho> A] 2(3,4) that by auto
    have inp: "nv \<rho> A P2 (?in ! j) = nv \<rho> A P (?in ! j)" if "j < ?ni" for j
    proof (rule growsD(4) [OF g2])
      have "?in ! j \<in> set ?in" using that inl nth_mem by metis
      then show "?in ! j < length (pr_nodes P)" using insm by blast
    qed
    have cs: "nv \<rho> A P5 (cs ! i) = mvec ?ni (mat_bit (pg_correction_propagation g)) (\<lambda>j. nv \<rho> A P (?in ! j)) i" if "i < ?r" for i
    proof -
      have "nv \<rho> A P5 (cs ! i) = nv \<rho> A P3 (cs ! i)" by (rule growsD(4) [OF g35]) (use 3(3,4) that in auto)
      also have "\<dots> = mvec ?ni (mat_bit (pg_correction_propagation g)) (\<lambda>j. nv \<rho> A P2 (?in ! j)) i" using 3(5) inc that by blast
      finally show ?thesis using inp by (simp only: mvec_cong [of ?ni "\<lambda>j. nv \<rho> A P2 (?in ! j)"])
    qed
    have ls: "nv \<rho> A P5 (ls ! i) = mvec ?ro (mat_bit (pg_logical_correction g)) (\<lambda>j. nv \<rho> A Q (rd ! j)) i" if "i < ?r" for i
    proof -
      have "nv \<rho> A P5 (ls ! i) = nv \<rho> A P4 (ls ! i)" by (rule growsD(4) [OF g45]) (use 4(3,4) that in auto)
      also have "\<dots> = mvec ?ro (mat_bit (pg_logical_correction g)) (\<lambda>j. nv \<rho> A P3 (rd ! j)) i" using 4(5) inc that by blast
      finally show ?thesis using rd(2) by (simp only: mvec_cong [of ?ro "\<lambda>j. nv \<rho> A P3 (rd ! j)"])
    qed
    have "nv \<rho> A Q (rd ! i) = (mvec ?ni (mat_bit (pg_readout_propagation g)) (\<lambda>j. nv \<rho> A P (?in ! j)) i \<noteq> \<rho> (Readout gid i))"
      if "i < ?ro" for i
      using 1(5) 2(5) inc that rd(1) [OF that] by metis
    moreover have "nv \<rho> A Q (rs ! i) =
         (((mvec ?ni (mat_bit (pg_correction_propagation g)) (\<lambda>j. nv \<rho> A P (?in ! j)) i
            \<noteq> mvec ?ro (mat_bit (pg_logical_correction g)) (\<lambda>j. nv \<rho> A Q (rd ! j)) i)
           \<noteq> (case pg_remote g of None \<Rightarrow> False | Some (refs, m) \<Rightarrow>
                mvec (length refs) (mat_bit m) (\<lambda>j. nv \<rho> A P (sym_remotes P g ! j)) i))
          \<noteq> \<rho> (Residual gid i))" if "i < ?r" for i
    proof -
      have ms: "nv \<rho> A P5 (ms ! i) = (case pg_remote g of None \<Rightarrow> False | Some (refs, m) \<Rightarrow>
            mvec (length refs) (mat_bit m) (\<lambda>j. nv \<rho> A P (sym_remotes P g ! j)) i)" using 5(5) inc that by blast
      have "nv \<rho> A Q (rs ! i) = (parity (nv \<rho> A P5) [cs ! i, ls ! i, ms ! i] \<noteq> \<rho> (Residual gid i))" using 6(5) inc that by blast
      then show ?thesis unfolding cs [OF that, symmetric] ls [OF that, symmetric] ms [symmetric] by auto
    qed
    ultimately show ?thesis by blast
  qed
  show ?thesis
    by (intro exI [of _ rd] exI [of _ rs] exI [of _ Q] conjI gQ 2(3) 6(3) bound run)
      (use vals in \<open>simp add: Let_def\<close>)
qed

end
