(* ===== verification/Symbolic_Flips.thy ===== *)
theory Symbolic_Flips
  imports Symbolic_Frame
begin

text \<open>
  What the symbolic propagator promises: it follows the tracker's gadgets, its expressions predict how
  the tracker's frames change when decoded corrections change, and the components it reports are the
  variables of these expressions.
\<close>

section \<open>Adding a gadget\<close>

text \<open>The part of a gadget the symbolic propagator depends on.\<close>

definition core_view :: "frame_gadget \<Rightarrow> aligned_bitmatrix list \<times> (remote_readout list \<times> aligned_bitmatrix) option \<times>
    connector list \<times> nat list" where
  "core_view g = ([pg_correction_propagation g, pg_readout_propagation g, pg_logical_correction g, pg_physical_correction g],
     pg_remote g, pg_inputs g, pg_output_bias g)"

definition same_core :: "tracker \<Rightarrow> tracker \<Rightarrow> bool" where
  "same_core T T' \<longleftrightarrow> (\<forall>x. map_option core_view (T x) = map_option core_view (T' x))"

lemma core_viewD:
  assumes "core_view q = core_view p"
  shows "num_readouts q = num_readouts p" "num_output_observables q = num_output_observables p" "num_in q = num_in p"
    "remote_refs q = remote_refs p" "port_range q = port_range p" "pg_inputs q = pg_inputs p" "pg_remote q = pg_remote p"
    "pg_output_bias q = pg_output_bias p" "pg_correction_propagation q = pg_correction_propagation p"
    "pg_readout_propagation q = pg_readout_propagation p" "pg_logical_correction q = pg_logical_correction p"
    "pg_physical_correction q = pg_physical_correction p" "num_measurements q = num_measurements p"
  using assms by (simp_all add: core_view_def num_readouts_def num_measurements_def num_output_observables_def num_in_def remote_refs_def
      port_range_def port_stop_def fun_eq_iff)

lemma same_core_lookup: "same_core T T' \<Longrightarrow> T x = Some g \<Longrightarrow> \<exists>h. T' x = Some h \<and> core_view h = core_view g"
  unfolding same_core_def by (metis map_option_eq_Some)

lemma same_core_sym: "same_core T T' \<Longrightarrow> same_core T' T"
  by (simp add: same_core_def)

lemma same_core_trans: "same_core T T' \<Longrightarrow> same_core T' T'' \<Longrightarrow> same_core T T''"
  by (simp add: same_core_def)

lemma same_core_update: "T x = Some g \<Longrightarrow> core_view h = core_view g \<Longrightarrow> same_core T (T(x \<mapsto> h))"
  by (simp add: same_core_def)

lemma same_core_none: "same_core T T' \<Longrightarrow> T x = None \<longleftrightarrow> T' x = None"
  unfolding same_core_def by (metis option.map_disc_iff)

lemma same_core_synced:
  assumes "same_core T T'" "all_ok T" "synced P T"
  shows "synced P T'"
proof -
  have each: "sym_gadget_ok P x h s \<and> sym_equation P T' x h s" if h: "T' x = Some h" and s: "pr_gadgets P x = Some s" for x h s
  proof -
    obtain g where g: "T x = Some g" "core_view g = core_view h"
      using same_core_lookup [OF same_core_sym [OF assms(1)] h] by blast
    note c = core_viewD [OF g(2)]
    have w: "wired T g" using assms(2) g(1) by (simp add: all_ok_def)
    have "sym_range P (the (T' (con_gid c))) c = sym_range P (the (T (con_gid c))) c" if c: "c \<in> set (pg_inputs g)" for c
    proof -
      obtain p where p: "T (con_gid c) = Some p" using w c by (auto simp: wired_def)
      obtain q where "T' (con_gid c) = Some q" "core_view q = core_view p" using same_core_lookup [OF assms(1) p] by blast
      with p core_viewD(5) [of q p] show ?thesis by (simp add: sym_range_def)
    qed
    then have i: "sym_inputs P T' h = sym_inputs P T g" by (simp add: sym_inputs_def c(6) cong: map_cong)
    have r: "sym_remotes P h = sym_remotes P g" by (simp add: sym_remotes_def c(4))
    have "sym_gadget_ok P x g s \<and> sym_equation P T x g s" using assms(3) g(1) s by (simp add: synced_def)
    then show ?thesis
      unfolding sym_gadget_ok_def sym_equation_def i r c by blast
  qed
  have "nodes_ok (pr_nodes P)" "\<forall>b \<in> bases (pr_nodes P). T' (basis_gid b) \<noteq> None"
    "\<forall>x. T' x = None \<longleftrightarrow> pr_gadgets P x = None"
    using assms(3) same_core_none [OF assms(1)] unfolding synced_def by metis+
  with each show ?thesis unfolding synced_def by blast
qed

lemma connect_input_core: "connect_input gid pc T = Some T' \<Longrightarrow> same_core T T'"
  by (cases pc) (auto simp: connect_input_def core_view_def bind_eq_Some_conv intro!: same_core_update)

lemma register_remote_core: "register_remote gid r T = Some T' \<Longrightarrow> same_core T T'"
  by (auto simp: register_remote_def core_view_def bind_eq_Some_conv intro!: same_core_update)

lemma ofold_same_core:
  assumes "ofold f xs T = Some T'" "\<And>x T T'. f x T = Some T' \<Longrightarrow> same_core T T'"
  shows "same_core T T'"
  using assms(1)
proof (induction xs arbitrary: T)
  case Nil
  then show ?case by (simp add: same_core_def)
next
  case (Cons x xs)
  then obtain U where "f x T = Some U" "ofold f xs U = Some T'" by (auto simp: bind_eq_Some_conv)
  with Cons.IH assms(2) same_core_trans show ?case by blast
qed

lemma add_gadget_core:
  assumes "add_gadget gid gt modifier port_types connectors T = Some T'"
  shows "\<exists>g. same_core (T(gid \<mapsto> g)) T' \<and> T gid = None"
proof -
  from assms obtain g T1 where "T gid = None"
    and 1: "ofold (connect_input gid) (zip [0..<length connectors] connectors) (T(gid \<mapsto> g)) = Some T1"
    and 2: "(case pg_remote g of Some (refs, _) \<Rightarrow> ofold (register_remote gid) refs T1 | None \<Rightarrow> Some T1) = Some T'"
    by (auto simp: add_gadget_def bind_eq_Some_conv split: if_splits)
  moreover have "same_core (T(gid \<mapsto> g)) T1" by (rule ofold_same_core [OF 1 connect_input_core])
  moreover have "same_core T1 T'"
  proof (cases "pg_remote g")
    case None
    with 2 show ?thesis by (simp add: same_core_def)
  next
    case (Some rm)
    with 2 have "ofold (register_remote gid) (fst rm) T1 = Some T'" by (cases rm) simp
    then show ?thesis by (rule ofold_same_core) (rule register_remote_core)
  qed
  ultimately show ?thesis using same_core_trans by blast
qed

lemma graph_not_own_source: "graph_ok rank B T \<Longrightarrow> T x = Some g \<Longrightarrow> x \<notin> sources g"
  unfolding graph_ok_def by (metis less_irrefl option.sel)

lemma sym_add_gadget_run:
  assumes "synced P T" "all_ok T" "T gid = None" "gadget_ok g" "wired T g"
  shows "\<exists>Q. sym_add_gadget gid g P = Some Q \<and> synced Q (T(gid \<mapsto> g))"
proof -
  let ?T = "T(gid \<mapsto> g)"
  obtain rd rs Q0 where new: "grows ({Readout gid i |i. i < num_readouts g} \<union> {Residual gid i |i. i < num_output_observables g}) P Q0"
      "length rd = num_readouts g" "length rs = num_output_observables g"
      "\<forall>n \<in> set rd \<union> set rs. n < length (pr_nodes Q0)"
    and run: "sym_add_gadget gid g P = (let Q = Q0\<lparr>pr_gadgets := (pr_gadgets Q0)(gid \<mapsto>
       \<lparr>sg_input_sources = map con_gid (pg_inputs g), sg_readout_nodes = rd, sg_residual_nodes = rs,
        sg_remote_sources = map rr_gid (remote_refs g),
        sg_remote_dependents = [], sg_output_bias = pg_output_bias g\<rparr>)\<rparr>
      in ofold (register_remote_dependent gid) (remote_refs g) Q)"
    and vals: "\<forall>\<rho> A. gid_included A gid \<longrightarrow>
     (let inp = (\<lambda>j. nv \<rho> A P ((sym_inputs P T g @ [0]) ! j)); ni = num_in g + 1 in
      (\<forall>i < num_readouts g. nv \<rho> A Q0 (rd ! i) =
         (mvec ni (mat_bit (pg_readout_propagation g)) inp i \<noteq> \<rho> (Readout gid i))) \<and>
      (\<forall>i < num_output_observables g. nv \<rho> A Q0 (rs ! i) =
         (((mvec ni (mat_bit (pg_correction_propagation g)) inp i
            \<noteq> mvec (num_readouts g) (mat_bit (pg_logical_correction g)) (\<lambda>j. nv \<rho> A Q0 (rd ! j)) i)
           \<noteq> (case pg_remote g of None \<Rightarrow> False | Some (refs, m) \<Rightarrow>
                mvec (length refs) (mat_bit m) (\<lambda>j. nv \<rho> A P (sym_remotes P g ! j)) i))
          \<noteq> \<rho> (Residual gid i))))"
    using new_expressions_run [OF assms] by (elim exE conjE)
  let ?s = "\<lparr>sg_input_sources = map con_gid (pg_inputs g), sg_readout_nodes = rd, sg_residual_nodes = rs,
        sg_remote_sources = map rr_gid (remote_refs g),
        sg_remote_dependents = [], sg_output_bias = pg_output_bias g\<rparr>"
  let ?Q = "Q0\<lparr>pr_gadgets := (pr_gadgets Q0)(gid \<mapsto> ?s)\<rparr>"
  have gad: "pr_gadgets Q0 = pr_gadgets P" by (rule growsD(3) [OF new(1)])
  have dom: "\<forall>x. T x = None \<longleftrightarrow> pr_gadgets P x = None" using assms(1) by (simp add: synced_def)
  have "T (rr_gid r) \<noteq> None" if "r \<in> set (remote_refs g)" for r
    using assms(5) that by (auto simp: wired_def)
  then have "\<forall>r \<in> set (remote_refs g). pr_gadgets ?Q (rr_gid r) \<noteq> None" using dom by (simp add: gad)
  from register_dependents_run [OF this, of gid] obtain Q where Q: "ofold (register_remote_dependent gid) (remote_refs g) ?Q = Some Q"
      "pr_nodes Q = pr_nodes ?Q" "\<forall>y. rel_option same_expressions (pr_gadgets ?Q y) (pr_gadgets Q y)"
    by (elim exE conjE)
  have nodesQ: "pr_nodes Q = pr_nodes Q0" using Q(2) by simp
  obtain xs where xs: "pr_nodes Q = pr_nodes P @ xs" using new(1) nodesQ by (auto simp: grows_def)
  have old: "\<exists>t. pr_gadgets Q y = Some t \<and> same_expressions (the (pr_gadgets P y)) t" if "T y = Some p" for y p
  proof -
    obtain s where "pr_gadgets P y = Some s" using dom \<open>T y = Some p\<close> by (metis not_None_eq)
    moreover have "y \<noteq> gid" using that assms(3) by auto
    ultimately have "pr_gadgets ?Q y = Some s" by (simp add: gad)
    with Q(3) \<open>pr_gadgets P y = Some s\<close> show ?thesis by (metis option.sel option_rel_Some1)
  qed
  have up: "?T y = Some p" if "T y = Some p" for y p using that assms(3) by auto
  have "rel_option same_expressions (Some ?s) (pr_gadgets Q gid)" using Q(3) [rule_format, of gid] by simp
  then obtain t where t: "pr_gadgets Q gid = Some t" "same_expressions ?s t" by (auto simp: option_rel_Some1)
  note te = same_expressionsD [OF t(2), simplified]
  have each: "sym_gadget_ok Q x h u \<and> sym_equation Q ?T x h u" if h: "?T x = Some h" and u: "pr_gadgets Q x = Some u" for x h u
  proof (cases "x = gid")
    case False
    with h have h': "T x = Some h" by simp
    obtain s where s: "pr_gadgets P x = Some s" using dom h' by (metis not_None_eq)
    have "same_expressions s u" using old [OF h'] s u by simp
    with sym_equation_mono [OF assms(1,2) h' s xs, of ?T u] up old show ?thesis by blast
  next
    case True
    then have hu: "h = g" "u = t" using h u t(1) by simp_all
    have ok: "sym_gadget_ok Q gid g t" using new(2-4) by (simp add: sym_gadget_ok_def te nodesQ)
    have c: "sym_range Q (the (?T (con_gid c))) c = sym_range P (the (T (con_gid c))) c" if c: "c \<in> set (pg_inputs g)" for c
    proof -
      obtain p where p: "T (con_gid c) = Some p" using assms(5) c by (auto simp: wired_def)
      from old [OF p] same_expressionsD(2) up [OF p] p show ?thesis by (fastforce simp: sym_range_def)
    qed
    have r: "sg_readout_nodes (the (pr_gadgets Q (rr_gid r))) = sg_readout_nodes (the (pr_gadgets P (rr_gid r)))"
      if r: "r \<in> set (remote_refs g)" for r
    proof -
      obtain p where p: "T (rr_gid r) = Some p" using assms(5) r by (auto simp: wired_def)
      from old [OF p] same_expressionsD(1) show ?thesis by fastforce
    qed
    have i: "sym_inputs Q ?T g = sym_inputs P T g" and m: "sym_remotes Q g = sym_remotes P g"
      using c r by (simp_all add: sym_inputs_def sym_remotes_def cong: map_cong)
    note ins = sym_inputs_run [OF assms(1,2,5)] and rem = sym_remotes_run [OF assms(1,5)]
    have "0 < length (pr_nodes P)" using assms(1) by (simp add: synced_def nodes_ok_def)
    then have vi: "nv \<rho> A Q ((sym_inputs P T g @ [0]) ! j) = nv \<rho> A P ((sym_inputs P T g @ [0]) ! j)" if "j < num_in g + 1" for \<rho> A j
      unfolding xs using ins(2,3) that by (intro node_value_append) (auto simp: nth_append less_Suc_eq)
    have vr: "nv \<rho> A Q (sym_remotes P g ! j) = nv \<rho> A P (sym_remotes P g ! j)" if "j < length (remote_refs g)" for \<rho> A j
      unfolding xs using rem(2) that by (intro node_value_append) (auto simp: sym_remotes_def)
    have mi: "mvec (num_in g + 1) M (\<lambda>j. nv \<rho> A Q ((sym_inputs P T g @ [0]) ! j)) i =
        mvec (num_in g + 1) M (\<lambda>j. nv \<rho> A P ((sym_inputs P T g @ [0]) ! j)) i" for \<rho> A M i
      by (rule mvec_cong) (rule vi)
    have mr: "(case pg_remote g of None \<Rightarrow> False | Some (refs, m) \<Rightarrow> mvec (length refs) (mat_bit m) (\<lambda>j. nv \<rho> A Q (sym_remotes P g ! j)) i) =
        (case pg_remote g of None \<Rightarrow> False | Some (refs, m) \<Rightarrow> mvec (length refs) (mat_bit m) (\<lambda>j. nv \<rho> A P (sym_remotes P g ! j)) i)" for \<rho> A i
      using vr by (auto simp: remote_refs_def split: option.splits intro!: mvec_cong)
    have "sym_equation Q ?T gid g t"
      unfolding sym_equation_def Let_def i m mi mr te using vals by (simp add: Let_def nodesQ)
    with ok hu True show ?thesis by simp
  qed
  have "nodes_ok (pr_nodes Q)" using growsD(1) [OF new(1)] by (simp add: nodesQ)
  moreover have "bases (pr_nodes Q) = bases (pr_nodes P) \<union> ({Readout gid i |i. i < num_readouts g} \<union> {Residual gid i |i. i < num_output_observables g})"
    using new(1) by (simp add: nodesQ grows_def)
  then have "\<forall>b \<in> bases (pr_nodes Q). ?T (basis_gid b) \<noteq> None" using assms(1) by (auto simp: synced_def)
  moreover have "?T x = None \<longleftrightarrow> pr_gadgets Q x = None" for x
  proof (cases "x = gid")
    case True
    with t(1) show ?thesis by simp
  next
    case False
    have "rel_option same_expressions (pr_gadgets P x) (pr_gadgets Q x)" using Q(3) [rule_format, of x] False by (simp add: gad)
    with False dom show ?thesis by (metis fun_upd_other option.rel_sel)
  qed
  ultimately have "synced Q ?T" using each unfolding synced_def by blast
  moreover have "sym_add_gadget gid g P = Some Q" using run Q(1) by simp
  ultimately show ?thesis by blast
qed

lemma sym_follows:
  assumes "settled T" "synced P T" "add_gadget gid gt modifier port_types connectors T = Some T'" "settled T'"
  shows "\<exists>g Q. T' gid = Some g \<and> sym_add_gadget gid g P = Some Q \<and> synced Q T'"
proof -
  obtain g0 where g0: "same_core (T(gid \<mapsto> g0)) T'" "T gid = None" using add_gadget_core [OF assms(3)] by blast
  obtain g where g: "T' gid = Some g" "core_view g = core_view g0"
    using same_core_lookup [OF g0(1), of gid g0] by auto
  obtain rank B where st: "all_ok T'" "graph_ok rank B T'" using assms(4) by (auto simp: settled_def settled_except_def)
  have ok: "all_ok T" using assms(1) by (auto simp: settled_def settled_except_def)
  have gg: "gadget_ok g" "wired T' g" using st(1) g(1) by (auto simp: all_ok_def)
  have core: "same_core (T(gid \<mapsto> g)) T'" using g0(1) g unfolding same_core_def by (metis fun_upd_apply option.simps(9))
  have new: "gid \<notin> sources g" by (rule graph_not_own_source [OF st(2) g(1)])
  have "wired T g"
  proof (rule wired_cong [OF gg(2) refl refl refl])
    fix y p assume y: "y \<in> sources g" and p: "T' y = Some p"
    obtain q where "(T(gid \<mapsto> g)) y = Some q" "core_view q = core_view p"
      using same_core_lookup [OF same_core_sym [OF core] p] by blast
    moreover have "y \<noteq> gid" using y new by blast
    ultimately have "T y = Some q" by simp
    with core_viewD [OF \<open>core_view q = core_view p\<close>]
    show "\<exists>q. T y = Some q \<and> pg_output_bias q = pg_output_bias p \<and> num_readouts q = num_readouts p \<and>
        num_output_observables q = num_output_observables p" by blast
  qed
  from sym_add_gadget_run [OF assms(2) ok g0(2) gg(1) this] obtain Q
    where Q: "sym_add_gadget gid g P = Some Q" "synced Q (T(gid \<mapsto> g))" by blast
  have "all_ok (T(gid \<mapsto> g))" unfolding all_ok_def
  proof (intro allI impI)
    fix x h assume h: "(T(gid \<mapsto> g)) x = Some h"
    have w: "gadget_ok h \<and> wired T h" using h ok gg(1) \<open>wired T g\<close> by (auto simp: all_ok_def split: if_splits)
    have "wired (T(gid \<mapsto> g)) h" by (rule wired_cong [OF w [THEN conjunct2] refl refl refl]) (use g0(2) in auto)
    with w show "gadget_ok h \<and> wired (T(gid \<mapsto> g)) h" by blast
  qed
  with same_core_synced [OF core _ Q(2)] Q(1) g(1) show ?thesis by blast
qed

text \<open>C33. The symbolic propagator follows the tracker: after the tracker has added a gadget, giving that
  gadget to the propagator succeeds, and its expressions again satisfy the equations of every gadget
  over the formal corrections.\<close>

theorem sym_add_gadget_follows:
  assumes "settled T" "synced P T" "add_gadget gid gt modifier port_types connectors T = Some T'" "settled T'"
  shows "\<exists>g Q. T' gid = Some g \<and> sym_add_gadget gid g P = Some Q \<and> synced Q T'"
  by (rule sym_follows [OF assms])

section \<open>Predicting changes of frames\<close>

text \<open>The corrections two trackers differ in, and trackers that differ in nothing else.\<close>

fun decoded_bit :: "tracker \<Rightarrow> correction_basis \<Rightarrow> bool" where
  "decoded_bit T (Readout x i) = bitvec_bit (fr_readouts (the (pg_decoded (the (T x))))) i"
| "decoded_bit T (Residual x i) = bitvec_bit (fr_residual (the (pg_decoded (the (T x))))) i"

definition same_data :: "tracker \<Rightarrow> tracker \<Rightarrow> bool" where
  "same_data T T' \<longleftrightarrow> same_core T T' \<and> (\<forall>x g h. T x = Some g \<longrightarrow> T' x = Some h \<longrightarrow>
     pg_raw_readouts g = pg_raw_readouts h \<and> pg_raw_measurements g = pg_raw_measurements h)"

lemma same_data_lookup: "same_data T T' \<Longrightarrow> T x = Some g \<Longrightarrow> \<exists>h. T' x = Some h \<and> core_view h = core_view g \<and>
    pg_raw_readouts h = pg_raw_readouts g \<and> pg_raw_measurements h = pg_raw_measurements g"
  unfolding same_data_def using same_core_lookup by metis

lemma settled_frame:
  assumes "settled T" "T x = Some g" "pg_frame g = Some f"
  shows "frame_equation T g f" "\<forall>y \<in> sources g. frame_of T y \<noteq> None"
proof -
  obtain rank B where st: "settled_except rank B T {}" using assms(1) by (auto simp: settled_def)
  then have ok: "all_ok T" and r: "ready T g" and "locally_correct T x"
    using assms(2,3) unfolding settled_except_def by (metis option.distinct(1), metis option.distinct(1), blast)
  then have "compute_frame T g = Some (Some f)" using assms(2,3) by (simp add: locally_correct_def)
  with compute_frame_run [OF ok assms(2)] r show "frame_equation T g f" by auto
  show "\<forall>y \<in> sources g. frame_of T y \<noteq> None" using r by (simp add: ready_def)
qed

text \<open>The observables that enter a gadget, as positions in the residuals of their sources.\<close>

definition entering :: "tracker \<Rightarrow> frame_gadget \<Rightarrow> (nat \<times> nat) list" where
  "entering T g = concat (map (\<lambda>c. map (Pair (con_gid c)) (port_range (the (T (con_gid c))) (con_port c))) (pg_inputs g))"

lemma input_bits_entering: "input_bits T g = map (\<lambda>(y, i). bitvec_bit (fr_residual (the (frame_of T y))) i) (entering T g)"
  by (simp add: input_bits_def connector_bits_def [abs_def] entering_def map_concat comp_def)

lemma sym_inputs_entering: "sym_inputs P T g = map (\<lambda>(y, i). sg_residual_nodes (the (pr_gadgets P y)) ! i) (entering T g)"
  by (simp add: sym_inputs_def sym_range_def entering_def map_concat comp_def)

lemma entering_core:
  assumes "same_core T T'" "wired T g" "core_view h = core_view g"
  shows "entering T' h = entering T g"
proof -
  have "port_range (the (T' (con_gid c))) = port_range (the (T (con_gid c)))" if c: "c \<in> set (pg_inputs g)" for c
  proof -
    obtain p where p: "T (con_gid c) = Some p" using assms(2) c by (auto simp: wired_def)
    obtain q where "T' (con_gid c) = Some q" "core_view q = core_view p" using same_core_lookup [OF assms(1) p] by blast
    with p core_viewD(5) [of q p] show ?thesis by simp
  qed
  then show ?thesis by (simp add: entering_def core_viewD(6) [OF assms(3)] cong: map_cong)
qed

lemma entering_bound:
  assumes "all_ok T" "wired T g" "(y, i) \<in> set (entering T g)"
  shows "\<exists>p. T y = Some p \<and> i < num_output_observables p \<and> y \<in> sources g"
proof -
  obtain c where c: "c \<in> set (pg_inputs g)" "y = con_gid c" "i \<in> set (port_range (the (T y)) (con_port c))"
    using assms(3) by (auto simp: entering_def)
  moreover obtain p where p: "T y = Some p" "con_port c < length (pg_output_bias p)"
    using assms(2) c(1,2) by (auto simp: wired_def)
  moreover have "ports_ok p" using assms(1) p(1) by (auto simp: all_ok_def gadget_ok_def)
  ultimately show ?thesis by (fastforce simp: ports_ok_def port_range_def sources_def)
qed

abbreviation flip :: "tracker \<Rightarrow> tracker \<Rightarrow> correction_basis \<Rightarrow> bool" where
  "flip T T' \<equiv> \<lambda>b. decoded_bit T b \<noteq> decoded_bit T' b"

text \<open>A window: inside it the second tracker obeys the propagation equations, and what enters it from
  outside is as in the first.  Outside the window the second tracker may hold any frames.\<close>

definition settled_in :: "nat set option \<Rightarrow> tracker \<Rightarrow> tracker \<Rightarrow> bool" where
  "settled_in A T T' \<longleftrightarrow> (\<forall>x h f. gid_included A x \<longrightarrow> T' x = Some h \<longrightarrow> pg_frame h = Some f \<longrightarrow> frame_equation T' h f \<and>
     (\<forall>y \<in> sources h. frame_of T' y \<noteq> None \<and> (\<not> gid_included A y \<longrightarrow> frame_of T' y = frame_of T y)))"

lemma settled_inD:
  assumes "settled_in A T T'" "gid_included A x" "T' x = Some h" "pg_frame h = Some f"
  shows "frame_equation T' h f" "\<forall>y \<in> sources h. frame_of T' y \<noteq> None"
    and "y \<in> sources h \<Longrightarrow> \<not> gid_included A y \<Longrightarrow> frame_of T' y = frame_of T y"
  using assms unfolding settled_in_def by blast+

lemma settled_in_all: "settled T' \<Longrightarrow> settled_in None T T'"
  using settled_frame [of T'] unfolding settled_in_def gid_included_def by simp

lemma settled_sources: "settled T \<Longrightarrow> T x = Some g \<Longrightarrow> y \<in> sources g \<Longrightarrow> T y \<noteq> None"
  unfolding settled_def settled_except_def graph_ok_def by (metis option.distinct(1))

text \<open>Two settled trackers, when no frame that enters the window changes.\<close>

lemma settled_in_unchanged:
  assumes "settled T'"
    and "\<And>x h y. gid_included A x \<Longrightarrow> T' x = Some h \<Longrightarrow> y \<in> sources h \<Longrightarrow> \<not> gid_included A y \<Longrightarrow> frame_of T' y = frame_of T y"
  shows "settled_in A T T'"
  using settled_frame [OF assms(1)] assms(2) unfolding settled_in_def by blast

text \<open>The expressions of a gadget carry its id, so outside a window that leaves the gadget out they count as zero.\<close>

lemma node_carries:
  assumes "n < length nodes" "node_value \<rho>' (Some {x}) nodes n" "\<not> gid_included A x"
  shows "\<not> node_value \<rho> A nodes n"
proof (cases "nodes ! n")
  case ZeroNode
  then show ?thesis using node_value_at(1) [OF assms(1)] by simp
next
  case (BasisNode b)
  then show ?thesis using node_value_at(2) [OF assms(1) BasisNode] assms(2,3) by (auto simp: gid_included_def)
next
  case (XorNode gid ts)
  then show ?thesis using node_value_at(3) [OF assms(1) XorNode] assms(2,3) by (auto simp: gid_included_def)
qed

lemma mvec_none: "(\<And>j. j < n \<Longrightarrow> \<not> v j) \<Longrightarrow> \<not> mvec n M v i"
  unfolding mvec_def by (rule xsum_zero) simp

lemma excluded_zero:
  assumes "all_ok T" "graph_ok rank B T" "synced P T" "T x = Some g" "pr_gadgets P x = Some s" "\<not> gid_included A x"
  shows "(\<forall>i < num_readouts g. \<not> nv \<rho> A P (sg_readout_nodes s ! i)) \<and>
    (\<forall>i < num_output_observables g. \<not> nv \<rho> A P (sg_residual_nodes s ! i))"
  using assms(4-6)
proof (induction "rank x" arbitrary: x g s A \<rho> rule: less_induct)
  case less
  let ?A = "Some {x}" and ?ni = "num_in g + 1"
  have w: "wired T g" using assms(1) less.prems(1) by (simp add: all_ok_def)
  have sg: "sym_gadget_ok P x g s" "sym_equation P T x g s" using assms(3) less.prems(1,2) by (simp_all add: synced_def)
  have nodes: "nodes_ok (pr_nodes P)" using assms(3) by (simp add: synced_def)
  have source: "\<exists>p t. T y = Some p \<and> pr_gadgets P y = Some t \<and>
      (\<forall>i < num_readouts p. \<not> nv \<sigma> ?A P (sg_readout_nodes t ! i)) \<and>
      (\<forall>i < num_output_observables p. \<not> nv \<sigma> ?A P (sg_residual_nodes t ! i))" if y: "y \<in> sources g" for y \<sigma>
  proof -
    obtain p where p: "T y = Some p" "x \<in> set (successors p)" using assms(2) less.prems(1) y unfolding graph_ok_def by blast
    then have lt: "rank y < rank x" using assms(2) unfolding graph_ok_def by blast
    obtain t where t: "pr_gadgets P y = Some t" using synced_lookup [OF assms(3) p(1)] by blast
    have "\<not> gid_included ?A y" using lt by (auto simp: gid_included_def)
    from less.hyps [OF lt p(1) t this] p(1) t show ?thesis by blast
  qed
  have inp: "\<not> nv \<sigma> ?A P ((sym_inputs P T g @ [0]) ! j)" if j: "j < ?ni" for \<sigma> j
  proof -
    have len: "length (entering T g) = num_in g" using length_input_bits [OF w] by (simp add: input_bits_entering)
    show ?thesis
    proof (cases "j < num_in g")
      case True
      obtain y i where yi: "entering T g ! j = (y, i)" by fastforce
      have "(y, i) \<in> set (entering T g)" using True len yi by (metis nth_mem)
      from entering_bound [OF assms(1) w this] obtain p where "T y = Some p" "i < num_output_observables p" "y \<in> sources g" by blast
      with source [of y \<sigma>] show ?thesis using True len yi by (auto simp: sym_inputs_entering nth_append)
    next
      case False
      with j len node_value_zero [OF nodes] show ?thesis by (simp add: sym_inputs_entering nth_append)
    qed
  qed
  have rem: "\<not> nv \<sigma> ?A P (sym_remotes P g ! j)" if j: "j < length (remote_refs g)" for \<sigma> j
  proof -
    let ?r = "remote_refs g ! j"
    obtain p where "T (rr_gid ?r) = Some p" "rr_readout_index ?r < num_readouts p" using w nth_mem [OF j] unfolding wired_def by blast
    moreover have "rr_gid ?r \<in> sources g" using j by (simp add: sources_def)
    ultimately show ?thesis using source [of "rr_gid ?r" \<sigma>] j by (auto simp: sym_remotes_def)
  qed
  have x: "gid_included ?A x" by (simp add: gid_included_def)
  have rd: "nv \<sigma> ?A P (sg_readout_nodes s ! i) = \<sigma> (Readout x i)" if "i < num_readouts g" for \<sigma> i
  proof -
    have "\<not> mvec ?ni (mat_bit (pg_readout_propagation g)) (\<lambda>j. nv \<sigma> ?A P ((sym_inputs P T g @ [0]) ! j)) i"
      by (rule mvec_none) (rule inp)
    then show ?thesis using sg(2) x that by (simp add: sym_equation_def Let_def)
  qed
  have rs: "nv (\<lambda>b. b = Residual x i) ?A P (sg_residual_nodes s ! i)" if i: "i < num_output_observables g" for i
  proof -
    let ?\<sigma> = "\<lambda>b. b = Residual x i"
    have a: "\<not> mvec ?ni (mat_bit (pg_correction_propagation g)) (\<lambda>j. nv ?\<sigma> ?A P ((sym_inputs P T g @ [0]) ! j)) i"
      by (rule mvec_none) (rule inp)
    have b: "\<not> mvec (num_readouts g) (mat_bit (pg_logical_correction g)) (\<lambda>j. nv ?\<sigma> ?A P (sg_readout_nodes s ! j)) i"
      by (rule mvec_none) (simp add: rd)
    have c: "\<not> (case pg_remote g of None \<Rightarrow> False | Some (refs, m) \<Rightarrow> mvec (length refs) (mat_bit m) (\<lambda>j. nv ?\<sigma> ?A P (sym_remotes P g ! j)) i)"
      using rem by (auto simp: remote_refs_def mvec_none split: option.splits)
    have "nv ?\<sigma> ?A P (sg_residual_nodes s ! i) =
         (((mvec ?ni (mat_bit (pg_correction_propagation g)) (\<lambda>j. nv ?\<sigma> ?A P ((sym_inputs P T g @ [0]) ! j)) i
            \<noteq> mvec (num_readouts g) (mat_bit (pg_logical_correction g)) (\<lambda>j. nv ?\<sigma> ?A P (sg_readout_nodes s ! j)) i)
           \<noteq> (case pg_remote g of None \<Rightarrow> False | Some (refs, m) \<Rightarrow> mvec (length refs) (mat_bit m) (\<lambda>j. nv ?\<sigma> ?A P (sym_remotes P g ! j)) i))
          \<noteq> ?\<sigma> (Residual x i))"
      using conjunct2 [OF sg(2) [unfolded sym_equation_def Let_def, rule_format, OF x, of ?\<sigma>]] i by (elim allE impE)
    with a b c show ?thesis by (simp only: not_True_eq_False not_False_eq_True simp_thms)
  qed
  have bound: "i < num_readouts g \<Longrightarrow> sg_readout_nodes s ! i < length (pr_nodes P)"
    "i < num_output_observables g \<Longrightarrow> sg_residual_nodes s ! i < length (pr_nodes P)" for i
    using sg(1) by (simp_all add: sym_gadget_ok_def)
  show ?case
  proof (intro conjI allI impI)
    fix i assume i: "i < num_readouts g"
    have "nv (\<lambda>_. True) ?A P (sg_readout_nodes s ! i)" using rd [OF i] by simp
    then show "\<not> nv \<rho> A P (sg_readout_nodes s ! i)" using node_carries [OF bound(1) [OF i]] less.prems(3) by blast
  next
    fix i assume i: "i < num_output_observables g"
    show "\<not> nv \<rho> A P (sg_residual_nodes s ! i)" by (rule node_carries [OF bound(2) [OF i] rs [OF i] less.prems(3)])
  qed
qed

text \<open>Corrections outside the window do not count.\<close>

lemma node_value_window:
  assumes "\<And>b. gid_included A (basis_gid b) \<Longrightarrow> \<rho> b = \<sigma> b"
  shows "node_value \<rho> A nodes n = node_value \<sigma> A nodes n"
proof (induction n rule: less_induct)
  case (less n)
  show ?case
  proof (cases "n < length nodes")
    case True
    show ?thesis
    proof (cases "nodes ! n")
      case (XorNode gid ts)
      have "parity (\<lambda>t. t < n \<and> node_value \<rho> A nodes t) ts = parity (\<lambda>t. t < n \<and> node_value \<sigma> A nodes t) ts"
        by (rule parity_cong) (use less in auto)
      then show ?thesis by (simp only: node_value_at(3) [OF True XorNode])
    qed (use True assms in \<open>auto simp: node_value_at\<close>)
  qed (simp add: node_value.simps)
qed

text \<open>The frames of a gadget differ where its expressions, over the changed corrections, are odd.\<close>

definition predicts :: "propagator \<Rightarrow> nat set option \<Rightarrow> tracker \<Rightarrow> tracker \<Rightarrow> nat \<Rightarrow> bool" where
  "predicts P A T T' x \<longleftrightarrow> (\<forall>g s f f'. T x = Some g \<longrightarrow> pr_gadgets P x = Some s \<longrightarrow> frame_of T x = Some f \<longrightarrow> frame_of T' x = Some f' \<longrightarrow>
     (\<forall>i < num_readouts g. (bitvec_bit (fr_readouts f) i \<noteq> bitvec_bit (fr_readouts f') i) = nv (flip T T') A P (sg_readout_nodes s ! i)) \<and>
     (\<forall>i < num_output_observables g. (bitvec_bit (fr_residual f) i \<noteq> bitvec_bit (fr_residual f') i) = nv (flip T T') A P (sg_residual_nodes s ! i)))"

lemma xor_regroup: "(((((a \<noteq> m) \<noteq> l) \<noteq> r) \<noteq> d) \<noteq> ((((a' \<noteq> m) \<noteq> l') \<noteq> r') \<noteq> d')) =
    ((((a \<noteq> a') \<noteq> (l \<noteq> l')) \<noteq> (r \<noteq> r')) \<noteq> (d \<noteq> d'))" for a :: bool
  by auto

lemma predicts_step:
  assumes ok: "all_ok T" "settled T" "settled_in A T T'" "same_data T T'" "synced P T"
    and g: "T x = Some g" and inc: "gid_included A x" and IH: "\<And>y. y \<in> sources g \<Longrightarrow> predicts P A T T' y"
  shows "predicts P A T T' x"
  unfolding predicts_def
proof (intro allI impI)
  fix g' s f f' assume "T x = Some g'" and s: "pr_gadgets P x = Some s" and "frame_of T x = Some f" "frame_of T' x = Some f'"
  with g obtain h where f: "pg_frame g = Some f" and h: "T' x = Some h" "pg_frame h = Some f'" and g': "g' = g"
    by (auto simp: frame_of_def bind_eq_Some_conv)
  have core: "core_view h = core_view g" and raw: "pg_raw_readouts h = pg_raw_readouts g" "pg_raw_measurements h = pg_raw_measurements g"
    using same_data_lookup [OF ok(4) g] h(1) by auto
  note c = core_viewD [OF core]
  have sc: "same_core T T'" using ok(4) by (simp add: same_data_def)
  have w: "wired T g" using ok(1) g by (simp add: all_ok_def)
  note e1 = settled_frame [OF ok(2) g f] and e2 = settled_inD(1,2) [OF ok(3) inc h]
  have sg: "sym_gadget_ok P x g s" "sym_equation P T x g s" using ok(5) g s by (simp_all add: synced_def)
  let ?\<rho> = "flip T T'" and ?ni = "num_in g + 1" and ?v = "\<lambda>n. nv (flip T T') A P n"
  have en: "entering T' h = entering T g" by (rule entering_core [OF sc w core])
  have src: "\<exists>p q t. T y = Some p \<and> pr_gadgets P y = Some t \<and> frame_of T y \<noteq> None \<and> frame_of T' y \<noteq> None" if y: "y \<in> sources g" for y
  proof -
    have "y \<in> sources h" using y c(4,6) by (simp add: sources_def)
    then have "frame_of T' y \<noteq> None" "frame_of T y \<noteq> None" using y e1(2) e2(2) by blast+
    moreover from this obtain p where p: "T y = Some p" by (cases "T y") (auto simp: frame_of_def)
    ultimately show ?thesis using synced_lookup [OF ok(5) p] by blast
  qed
  have inp: "((input_bits T g @ [True]) ! j \<noteq> (input_bits T' h @ [True]) ! j) = ?v ((sym_inputs P T g @ [0]) ! j)" if j: "j < ?ni" for j
  proof -
    have len: "length (entering T g) = num_in g" using length_input_bits [OF w] by (simp add: input_bits_entering)
    show ?thesis
    proof (cases "j < num_in g")
      case True
      obtain y i where yi: "entering T g ! j = (y, i)" by fastforce
      have "(y, i) \<in> set (entering T g)" using True len yi by (metis nth_mem)
      from entering_bound [OF ok(1) w this] obtain p where p: "T y = Some p" "i < num_output_observables p" "y \<in> sources g" by blast
      with src [OF p(3)] IH [OF p(3)] show ?thesis using True len yi
        by (auto simp: input_bits_entering sym_inputs_entering en nth_append predicts_def)
    next
      case False
      with j len node_value_zero ok(5) show ?thesis
        by (simp add: input_bits_entering sym_inputs_entering en nth_append synced_def)
    qed
  qed
  have rem: "(remote_bits T g ! j \<noteq> remote_bits T' h ! j) = ?v (sym_remotes P g ! j)" if j: "j < length (remote_refs g)" for j
  proof -
    let ?r = "remote_refs g ! j"
    obtain p where p: "T (rr_gid ?r) = Some p" "rr_readout_index ?r < num_readouts p"
      using w nth_mem [OF j] unfolding wired_def by blast
    have y: "rr_gid ?r \<in> sources g" using j by (simp add: sources_def)
    from src [OF y] IH [OF y] p j show ?thesis
      by (auto simp: remote_bits_def sym_remotes_def c(4) predicts_def)
  qed
  have mi: "(mvec ?ni M (\<lambda>j. (input_bits T g @ [True]) ! j) i \<noteq> mvec ?ni M (\<lambda>j. (input_bits T' h @ [True]) ! j) i) =
      mvec ?ni M (\<lambda>j. ?v ((sym_inputs P T g @ [0]) ! j)) i" for M i
    unfolding mvec_xor [symmetric] by (rule mvec_cong) (rule inp)
  have rd: "(bitvec_bit (fr_readouts f) i \<noteq> bitvec_bit (fr_readouts f') i) = ?v (sg_readout_nodes s ! i)" if i: "i < num_readouts g" for i
  proof -
    have "?v (sg_readout_nodes s ! i) = (mvec ?ni (mat_bit (pg_readout_propagation g)) (\<lambda>j. ?v ((sym_inputs P T g @ [0]) ! j)) i \<noteq> ?\<rho> (Readout x i))"
      using sg(2) inc i by (simp add: sym_equation_def Let_def)
    with e1(1) e2(1) i mi [of "mat_bit (pg_readout_propagation g)" i] show ?thesis
      by (auto simp: frame_equation_def Let_def c raw g h(1))
  qed
  have rs: "(bitvec_bit (fr_residual f) i \<noteq> bitvec_bit (fr_residual f') i) = ?v (sg_residual_nodes s ! i)"
    if i: "i < num_output_observables g" for i
  proof -
    let ?case = "\<lambda>b. case pg_remote g of None \<Rightarrow> False | Some (refs, m) \<Rightarrow> mvec (length refs) (mat_bit m) b i"
    have l: "(mvec (num_readouts g) M (bitvec_bit (fr_readouts f)) i \<noteq> mvec (num_readouts g) M (bitvec_bit (fr_readouts f')) i) =
        mvec (num_readouts g) M (\<lambda>j. ?v (sg_readout_nodes s ! j)) i" for M
      unfolding mvec_xor [symmetric] by (rule mvec_cong) (rule rd)
    have r: "(?case (\<lambda>j. remote_bits T g ! j) \<noteq> ?case (\<lambda>j. remote_bits T' h ! j)) = ?case (\<lambda>j. ?v (sym_remotes P g ! j))"
    proof (cases "pg_remote g")
      case (Some rm)
      obtain refs m where "rm = (refs, m)" by (cases rm)
      with Some have "refs = remote_refs g" by (simp add: remote_refs_def)
      moreover have "(mvec (length (remote_refs g)) M (\<lambda>j. remote_bits T g ! j) i \<noteq> mvec (length (remote_refs g)) M (\<lambda>j. remote_bits T' h ! j) i) =
          mvec (length (remote_refs g)) M (\<lambda>j. ?v (sym_remotes P g ! j)) i" for M
        unfolding mvec_xor [symmetric] by (rule mvec_cong) (rule rem)
      ultimately show ?thesis using Some \<open>rm = (refs, m)\<close> by simp
    qed simp
    have "?v (sg_residual_nodes s ! i) =
         (((mvec ?ni (mat_bit (pg_correction_propagation g)) (\<lambda>j. ?v ((sym_inputs P T g @ [0]) ! j)) i
            \<noteq> mvec (num_readouts g) (mat_bit (pg_logical_correction g)) (\<lambda>j. ?v (sg_readout_nodes s ! j)) i)
           \<noteq> ?case (\<lambda>j. ?v (sym_remotes P g ! j))) \<noteq> ?\<rho> (Residual x i))"
      using conjunct2 [OF sg(2) [unfolded sym_equation_def Let_def, rule_format, OF inc, of ?\<rho>]] i
      by (elim allE impE)
    moreover have "bitvec_bit (fr_residual f) i =
         ((((mvec ?ni (mat_bit (pg_correction_propagation g)) (\<lambda>j. (input_bits T g @ [True]) ! j) i
             \<noteq> mvec (num_measurements g) (mat_bit (pg_physical_correction g)) (bitvec_bit (the (pg_raw_measurements g))) i)
            \<noteq> mvec (num_readouts g) (mat_bit (pg_logical_correction g)) (bitvec_bit (fr_readouts f)) i)
           \<noteq> ?case (\<lambda>j. remote_bits T g ! j)) \<noteq> decoded_bit T (Residual x i))"
      using conjunct2 [OF conjunct2 [OF e1(1) [unfolded frame_equation_def Let_def]]] i unfolding decoded_bit.simps g option.sel
      by (elim allE impE)
    moreover have "bitvec_bit (fr_residual f') i =
         ((((mvec ?ni (mat_bit (pg_correction_propagation g)) (\<lambda>j. (input_bits T' h @ [True]) ! j) i
             \<noteq> mvec (num_measurements g) (mat_bit (pg_physical_correction g)) (bitvec_bit (the (pg_raw_measurements g))) i)
            \<noteq> mvec (num_readouts g) (mat_bit (pg_logical_correction g)) (bitvec_bit (fr_readouts f')) i)
           \<noteq> ?case (\<lambda>j. remote_bits T' h ! j)) \<noteq> decoded_bit T' (Residual x i))"
      using conjunct2 [OF conjunct2 [OF e2(1) [unfolded frame_equation_def Let_def c raw]]] i unfolding decoded_bit.simps h(1) option.sel
      by (elim allE impE)
    ultimately show ?thesis by (simp only: xor_regroup mi l r)
  qed
  show "(\<forall>i < num_readouts g'. (bitvec_bit (fr_readouts f) i \<noteq> bitvec_bit (fr_readouts f') i) = nv (flip T T') A P (sg_readout_nodes s ! i)) \<and>
     (\<forall>i < num_output_observables g'. (bitvec_bit (fr_residual f) i \<noteq> bitvec_bit (fr_residual f') i) = nv (flip T T') A P (sg_residual_nodes s ! i))"
    using rd rs g' by simp
qed

lemma predicts_outside:
  assumes "all_ok T" "graph_ok rank B T" "synced P T" "\<not> gid_included A x" "frame_of T' x = frame_of T x"
  shows "predicts P A T T' x"
  unfolding predicts_def
proof (intro allI impI)
  fix g s f f' assume "T x = Some g" "pr_gadgets P x = Some s" and f: "frame_of T x = Some f" "frame_of T' x = Some f'"
  with excluded_zero [OF assms(1-3) _ _ assms(4)] assms(5)
  show "(\<forall>i < num_readouts g. (bitvec_bit (fr_readouts f) i \<noteq> bitvec_bit (fr_readouts f') i) = nv (flip T T') A P (sg_readout_nodes s ! i)) \<and>
     (\<forall>i < num_output_observables g. (bitvec_bit (fr_residual f) i \<noteq> bitvec_bit (fr_residual f') i) = nv (flip T T') A P (sg_residual_nodes s ! i))"
    by simp
qed

lemma predicts_within:
  assumes "settled T" "settled_in A T T'" "same_data T T'" "synced P T" "gid_included A x"
  shows "predicts P A T T' x"
proof -
  obtain rank B where st: "settled_except rank B T {}" using assms(1) by (auto simp: settled_def)
  then have ok: "all_ok T" and gr: "graph_ok rank B T" by (auto simp: settled_except_def)
  show ?thesis using assms(5)
  proof (induction "rank x" arbitrary: x rule: less_induct)
    case less
    show ?case
    proof (cases "\<exists>g h f. T x = Some g \<and> T' x = Some h \<and> pg_frame h = Some f")
      case False
      then have "T x = None \<or> frame_of T' x = None" by (auto simp: frame_of_def bind_eq_Some_conv)
      then show ?thesis by (auto simp: predicts_def)
    next
      case True
      then obtain g h f where g: "T x = Some g" and h: "T' x = Some h" "pg_frame h = Some f" by blast
      have "core_view h = core_view g" using same_data_lookup [OF assms(3) g] h(1) by simp
      note c = core_viewD(4,6) [OF this]
      have "sources h = sources g" by (simp add: sources_def c)
      note out = settled_inD(3) [OF assms(2) less.prems h, unfolded this]
      show ?thesis
      proof (rule predicts_step [OF ok assms(1-4) g less.prems])
        fix y assume y: "y \<in> sources g"
        show "predicts P A T T' y"
        proof (cases "gid_included A y")
          case True
          obtain p where "T y = Some p" "x \<in> set (successors p)" using gr g y unfolding graph_ok_def by blast
          with gr have "rank y < rank x" unfolding graph_ok_def by blast
          then show ?thesis using less.hyps True by blast
        next
          case False
          with out [OF y] show ?thesis using predicts_outside [OF ok gr assms(4)] by blast
        qed
      qed
    qed
  qed
qed

section \<open>Components of an expression\<close>

lemma heap_pop_Some:
  assumes "heap_pop heap = Some (m, rest)"
  shows "m \<in> set heap" "\<forall>x \<in> set heap. x \<le> m" "mset heap = add_mset m (mset rest)" "set heap = insert m (set rest)"
proof -
  obtain x xs where heap: "heap = x # xs" using assms by (cases heap) (auto simp: heap_pop_def)
  have "m = Max (set heap)" using assms unfolding heap by (simp add: heap_pop_def Let_def Max.set_eq_fold [symmetric] del: list.set)
  then show "\<forall>x \<in> set heap. x \<le> m" by simp
  have in_heap: "m \<in> set heap" using Max_in [of "set heap"] \<open>m = Max (set heap)\<close> by (simp add: heap del: Max_in)
  then show "m \<in> set heap" .
  have "rest = remove1 m heap" using assms by (auto simp: heap heap_pop_def Let_def)
  with in_heap show ms: "mset heap = add_mset m (mset rest)" by simp
  show "set heap = insert m (set rest)" using arg_cong [OF ms, of set_mset] by simp
qed

definition weigh :: "(nat \<Rightarrow> bool) \<Rightarrow> nat set \<Rightarrow> bool" where
  "weigh v active = odd (card {n \<in> active. v n})"

lemma weigh_empty [simp]: "weigh v {} = False"
  by (simp add: weigh_def)

lemma weigh_insert:
  assumes "finite active" "n \<notin> active"
  shows "weigh v (insert n active) = (v n \<noteq> weigh v active)"
proof -
  have "{k \<in> insert n active. v k} = (if v n then insert n {k \<in> active. v k} else {k \<in> active. v k})" by auto
  with assms show ?thesis by (simp add: weigh_def)
qed

lemma weigh_remove:
  assumes "finite active" "n \<in> active"
  shows "weigh v active = (v n \<noteq> weigh v (active - {n}))"
  using weigh_insert [of "active - {n}" n v] assms by (simp add: insert_absorb)

lemma toggle_terms:
  assumes "fold toggle_term ts (pending, active) = (pending', active')" "finite active" "active \<subseteq> set pending"
  shows "finite active'" "active' \<subseteq> set pending'" "\<exists>M. mset pending' = mset pending + M \<and> set_mset M \<subseteq> set ts"
    and "weigh v active' = (weigh v active \<noteq> parity v ts)"
proof -
  have "finite active' \<and> active' \<subseteq> set pending' \<and> (\<exists>M. mset pending' = mset pending + M \<and> set_mset M \<subseteq> set ts) \<and>
      weigh v active' = (weigh v active \<noteq> parity v ts)"
    using assms
  proof (induction ts arbitrary: pending active)
    case Nil
    then show ?case by (auto intro: exI [of _ "{#}"])
  next
    case (Cons t ts)
    show ?case
    proof (cases "t \<in> active")
      case True
      then have step: "fold toggle_term ts (pending, active - {t}) = (pending', active')" using Cons.prems(1) toggle_term_def [of t "(pending, active)"] by simp
      have "active - {t} \<subseteq> set pending" using Cons.prems(3) by auto
      from Cons.IH [OF step _ this] Cons.prems(2) weigh_remove [OF Cons.prems(2) True, of v] show ?thesis by auto
    next
      case False
      then have step: "fold toggle_term ts (pending @ [t], insert t active) = (pending', active')"
        using Cons.prems(1) toggle_term_def [of t "(pending, active)"] by simp
      have "insert t active \<subseteq> set (pending @ [t])" using Cons.prems(3) by auto
      from Cons.IH [OF step _ this] Cons.prems(2) obtain M where IH: "finite active'" "active' \<subseteq> set pending'"
          "mset pending' = mset pending + {#t#} + M" "set_mset M \<subseteq> set ts"
          "weigh v active' = (weigh v (insert t active) \<noteq> parity v ts)" by auto
      have "mset pending' = mset pending + add_mset t M \<and> set_mset (add_mset t M) \<subseteq> set (t # ts)" using IH(3,4) by auto
      then have "\<exists>M. mset pending' = mset pending + M \<and> set_mset M \<subseteq> set (t # ts)" by blast
      with IH weigh_insert [OF Cons.prems(2) False, of v] show ?thesis by auto
    qed
  qed
  then show "finite active'" "active' \<subseteq> set pending'" "\<exists>M. mset pending' = mset pending + M \<and> set_mset M \<subseteq> set ts"
    "weigh v active' = (weigh v active \<noteq> parity v ts)" by blast+
qed

lemma pending_decreases:
  assumes "mset pending = add_mset m (mset rest)" "mset pending' = mset rest + M" "\<forall>t \<in> set_mset M. t < m"
  shows "(mset pending', mset pending) \<in> mult less_than"
proof -
  have "(mset rest + M, mset rest + {#m#}) \<in> mult less_than"
    by (rule one_step_implies_mult) (use assms(3) in auto)
  with assms(1,2) show ?thesis by simp
qed

lemma components_loop_run:
  assumes nodes: "nodes_ok nodes" and "finite active" "active \<subseteq> set pending" "\<forall>n \<in> set pending. n < length nodes"
  shows "\<exists>more. components_loop nodes A pending active components = Some (components @ more) \<and>
    (\<forall>\<rho>. weigh (node_value \<rho> A nodes) active = parity \<rho> more)"
  using assms(2-)
proof (induction "mset pending" arbitrary: pending active components rule: wf_induct_rule [OF wf_mult [OF wf_less_than]])
  case 1
  note IH = this(1) and inv = this(2-4)
  show ?case
  proof (cases "heap_pop pending")
    case None
    then have "pending = []" by (auto simp: heap_pop_def Let_def split: list.splits)
    with None inv(2) show ?thesis by (subst components_loop.simps) simp
  next
    case (Some mr)
    obtain m rest where pop: "heap_pop pending = Some (m, rest)" using Some by (cases mr) simp
    note p = heap_pop_Some [OF pop]
    have lt: "m < length nodes" using inv(3) p(1) by blast
    have dec: "(mset rest, mset pending) \<in> mult less_than"
      by (rule pending_decreases [OF p(3), of _ "{#}"]) simp_all
    have rest: "\<forall>n \<in> set rest. n < length nodes" using inv(3) p(4) by auto
    show ?thesis
    proof (cases "m \<in> active")
      case False
      then have "active \<subseteq> set rest" using inv(2) p(4) by auto
      from IH [OF dec inv(1) this rest] False show ?thesis by (subst components_loop.simps) (simp add: pop)
    next
      case True
      let ?a = "active - {m}"
      have fin: "finite ?a" and sub: "?a \<subseteq> set rest" using inv(1,2) p(4) by auto
      note w = weigh_remove [OF inv(1) True]
      show ?thesis
      proof (cases "nodes ! m")
        case ZeroNode
        have "\<not> node_value \<rho> A nodes m" for \<rho> using node_value_at(1) [OF lt ZeroNode] by simp
        with IH [OF dec fin sub rest, of components] True w show ?thesis
          by (subst components_loop.simps) (simp add: pop lt ZeroNode)
      next
        case (BasisNode b)
        have v: "node_value \<rho> A nodes m = (gid_included A (basis_gid b) \<and> \<rho> b)" for \<rho> by (rule node_value_at(2) [OF lt BasisNode])
        let ?c = "if gid_included A (basis_gid b) then [b] else []"
        obtain more where more: "components_loop nodes A rest ?a (components @ ?c) = Some ((components @ ?c) @ more)"
            "\<forall>\<rho>. weigh (node_value \<rho> A nodes) ?a = parity \<rho> more"
          using IH [OF dec fin sub rest, of "components @ ?c"] by blast
        then have "components_loop nodes A pending active components = Some (components @ (?c @ more))"
          using True by (subst components_loop.simps) (simp add: pop lt BasisNode split: if_splits)
        moreover have "weigh (node_value \<rho> A nodes) active = parity \<rho> (?c @ more)" for \<rho>
          using w [of "node_value \<rho> A nodes"] v more(2) by simp
        ultimately show ?thesis by blast
      next
        case (XorNode gid ts)
        note v = node_value_xor [OF nodes lt XorNode]
        have ts: "\<forall>t \<in> set ts. t < m" using nodes lt XorNode by (auto simp: nodes_ok_def)
        show ?thesis
        proof (cases "gid_included A gid")
          case False
          with IH [OF dec fin sub rest, of components] True w v show ?thesis
            by (subst components_loop.simps) (simp add: pop lt XorNode)
        next
          case inc: True
          obtain pending' active' where f: "fold toggle_term ts (rest, ?a) = (pending', active')" by fastforce
          note t = toggle_terms [OF f fin sub]
          obtain M where M: "mset pending' = mset rest + M" "set_mset M \<subseteq> set ts" using t(3) by blast
          have dec': "(mset pending', mset pending) \<in> mult less_than"
            by (rule pending_decreases [OF p(3) M(1)]) (use M(2) ts in auto)
          have "set pending' = set rest \<union> set_mset M" using arg_cong [OF M(1), of set_mset] by simp
          then have small: "\<forall>n \<in> set pending'. n < length nodes" using rest M(2) ts lt by fastforce
          from IH [OF dec' t(1,2) small, of components] obtain more where
              more: "components_loop nodes A pending' active' components = Some (components @ more)"
              "\<forall>\<rho>. weigh (node_value \<rho> A nodes) active' = parity \<rho> more" by blast
          have "components_loop nodes A pending active components = Some (components @ more)"
            using True inc more(1) by (subst components_loop.simps) (simp add: pop lt XorNode f)
          moreover have "weigh (node_value \<rho> A nodes) active = parity \<rho> more" for \<rho>
            using w [of "node_value \<rho> A nodes"] v [of \<rho> A] t(4) [of "node_value \<rho> A nodes"] more(2) inc by auto
          ultimately show ?thesis by blast
        qed
      qed
    qed
  qed
qed

text \<open>Nodes are visited in descending order, so no variable is reported twice.\<close>

definition descending :: "symbolic_node list \<Rightarrow> nat set \<Rightarrow> correction_basis list \<Rightarrow> bool" where
  "descending nodes active components \<longleftrightarrow> distinct components \<and>
     (\<forall>b \<in> set components. \<exists>i < length nodes. nodes ! i = BasisNode b \<and> (\<forall>n \<in> active. n < i))"

lemma descending_mono: "descending nodes active components \<Longrightarrow> \<forall>n \<in> active'. \<exists>m \<in> active. n \<le> m \<Longrightarrow> descending nodes active' components"
  unfolding descending_def by (meson le_less_trans)

lemma descending_snoc:
  assumes nodes: "nodes_ok nodes" and d: "descending nodes active components" and m: "m < length nodes" "m \<in> active" "nodes ! m = BasisNode b"
    and smaller: "\<forall>n \<in> active'. n < m"
  shows "descending nodes active' (components @ [b])"
proof -
  have "b \<notin> set components"
  proof
    assume "b \<in> set components"
    then obtain i where i: "i < length nodes" "nodes ! i = BasisNode b" "\<forall>n \<in> active. n < i" using d by (auto simp: descending_def)
    with nodes m have "i = m" unfolding nodes_ok_def by blast
    with i(3) m(2) show False by blast
  qed
  moreover have "\<forall>c \<in> set components. \<exists>i < length nodes. nodes ! i = BasisNode c \<and> (\<forall>n \<in> active'. n < i)"
    using d m(2) smaller unfolding descending_def by (meson less_trans)
  ultimately show ?thesis using d m(1,3) smaller by (auto simp: descending_def)
qed

lemma toggle_terms_active: "fold toggle_term ts (pending, active) = (pending', active') \<Longrightarrow> active' \<subseteq> active \<union> set ts"
proof (induction ts arbitrary: pending active)
  case (Cons t ts)
  obtain p a where step: "toggle_term t (pending, active) = (p, a)" by fastforce
  then have "a \<subseteq> insert t active" by (auto simp: toggle_term_def split: if_splits)
  with Cons step show ?case by fastforce
qed simp

lemma components_loop_distinct:
  assumes "components_loop nodes A pending active components = Some result"
  shows "nodes_ok nodes \<Longrightarrow> finite active \<Longrightarrow> active \<subseteq> set pending \<Longrightarrow> descending nodes active components \<Longrightarrow> distinct result"
  using assms
proof (induction rule: components_loop.raw_induct [rotated, consumes 1, case_names step])
  case (step loop nodes A pending active components result)
  note IH = step.IH and run = step.hyps and inv = step.prems
  show ?case
  proof (cases "heap_pop pending")
    case None
    with run inv(4) show ?thesis by (simp add: descending_def)
  next
    case (Some mr)
    obtain m rest where pop: "heap_pop pending = Some (m, rest)" using Some by (cases mr) simp
    note p = heap_pop_Some [OF pop]
    show ?thesis
    proof (cases "m \<in> active")
      case False
      then have "active \<subseteq> set rest" using inv(3) p(4) by auto
      moreover have "loop nodes A rest active components = Some result" using run False by (simp add: pop)
      ultimately show ?thesis using IH inv by blast
    next
      case True
      let ?a = "active - {m}"
      have sub: "finite ?a" "?a \<subseteq> set rest" and lt: "\<forall>n \<in> ?a. n < m" using inv(2,3) p(2,4) by (auto simp: order.strict_iff_order)
      have d: "descending nodes ?a components" by (rule descending_mono [OF inv(4)]) auto
      obtain n where n: "nth_opt nodes m = Some n" using run True by (auto simp: pop Let_def bind_eq_Some_conv)
      then have at: "m < length nodes" "nodes ! m = n" by (auto simp: nth_opt_def split: if_splits)
      show ?thesis
      proof (cases n)
        case ZeroNode
        with run True n have "loop nodes A rest ?a components = Some result" by (simp add: pop)
        then show ?thesis using IH inv(1) sub d by blast
      next
        case (BasisNode b)
        let ?c = "if gid_included A (basis_gid b) then components @ [b] else components"
        have "descending nodes ?a ?c" using descending_snoc [OF inv(1,4) at(1) True _ lt] at(2) BasisNode d by simp
        moreover have "loop nodes A rest ?a ?c = Some result" using run True n BasisNode by (simp add: pop)
        ultimately show ?thesis using IH inv(1) sub by blast
      next
        case (XorNode gid ts)
        show ?thesis
        proof (cases "gid_included A gid")
          case False
          with run True n XorNode have "loop nodes A rest ?a components = Some result" by (simp add: pop)
          then show ?thesis using IH inv(1) sub d by blast
        next
          case inc: True
          obtain pending' active' where f: "fold toggle_term ts (rest, ?a) = (pending', active')" by fastforce
          have "\<forall>t \<in> set ts. t < m" using inv(1) at XorNode by (auto simp: nodes_ok_def)
          then have "n \<in> active' \<Longrightarrow> n \<in> active \<or> n < m" for n using toggle_terms_active [OF f] by blast
          then have "\<forall>n \<in> active'. \<exists>k \<in> active. n \<le> k" using True by (meson less_imp_le order_refl)
          then have "descending nodes active' components" by (rule descending_mono [OF inv(4)])
          moreover have "loop nodes A pending' active' components = Some result" using run True n XorNode inc f by (simp add: pop)
          ultimately show ?thesis using IH inv(1) toggle_terms(1,2) [OF f sub] by blast
        qed
      qed
    qed
  qed
qed

lemma sym_components_run:
  assumes "nodes_ok (pr_nodes P)" "root < length (pr_nodes P)"
  shows "\<exists>cs. sym_components P root A = Some cs \<and> distinct cs \<and> (\<forall>\<rho>. nv \<rho> A P root = parity \<rho> cs)"
proof -
  obtain cs where cs: "sym_components P root A = Some cs" "\<forall>\<rho>. nv \<rho> A P root = parity \<rho> cs"
    using components_loop_run [OF assms(1), of "{root}" "[root]" A "[]"] assms(2)
      weigh_insert [of "{}" root] by (auto simp: sym_components_def)
  moreover have "distinct cs"
    by (rule components_loop_distinct [OF cs(1) [unfolded sym_components_def] assms(1)]) (simp_all add: descending_def)
  ultimately show ?thesis by blast
qed

lemma root_bound:
  assumes "synced P T" "T x = Some g"
  shows "\<exists>s. pr_gadgets P x = Some s \<and> nodes_ok (pr_nodes P) \<and> length (sg_readout_nodes s) = num_readouts g \<and>
    length (sg_residual_nodes s) = num_output_observables g \<and>
    (\<forall>n \<in> set (sg_readout_nodes s) \<union> set (sg_residual_nodes s). n < length (pr_nodes P))"
  using synced_lookup [OF assms] assms(1) by (auto simp: sym_gadget_ok_def synced_def)

lemma all_components_run:
  assumes "nodes_ok (pr_nodes P)" "\<forall>n \<in> set roots. n < length (pr_nodes P)"
  shows "\<exists>css. omap (\<lambda>root. sym_components P root A) roots = Some css \<and> length css = length roots \<and> (\<forall>cs \<in> set css. distinct cs) \<and>
    (\<forall>i < length roots. \<forall>\<rho>. nv \<rho> A P (roots ! i) = parity \<rho> (css ! i))"
proof -
  have "\<forall>root \<in> set roots. \<exists>cs. sym_components P root A = Some cs \<and> distinct cs \<and> (\<forall>\<rho>. nv \<rho> A P root = parity \<rho> cs)"
    using sym_components_run [OF assms(1)] assms(2) by blast
  then obtain f where f: "\<forall>root \<in> set roots. sym_components P root A = Some (f root) \<and> distinct (f root) \<and> (\<forall>\<rho>. nv \<rho> A P root = parity \<rho> (f root))"
    using bchoice [of "set roots"] by (metis (lifting))
  then have "omap (\<lambda>root. sym_components P root A) roots = Some (map f roots)" by (intro omap_total) blast
  with f show ?thesis by simp
qed

text \<open>The bit of a frame a basis names.\<close>

fun frame_bit :: "tracker \<Rightarrow> correction_basis \<Rightarrow> bool" where
  "frame_bit T (Readout x i) = bitvec_bit (fr_readouts (the (frame_of T x))) i"
| "frame_bit T (Residual x i) = bitvec_bit (fr_residual (the (frame_of T x))) i"

text \<open>A basis a gadget with a frame has.\<close>

fun target_ok :: "tracker \<Rightarrow> correction_basis \<Rightarrow> bool" where
  "target_ok T (Readout x i) = (\<exists>g. T x = Some g \<and> pg_frame g \<noteq> None \<and> i < num_readouts g)"
| "target_ok T (Residual x i) = (\<exists>g. T x = Some g \<and> pg_frame g \<noteq> None \<and> i < num_output_observables g)"

text \<open>C32. The components reported for a readout of a gadget are the corrections it depends on: however the
  decoded corrections of a tracker are changed, the readout of the gadget's frame changes exactly when an
  odd number of its reported components does, and likewise for the outputs.  The searches return and
  report no correction twice.\<close>

theorem components_predict:
  assumes "settled T" "synced P T" "T x = Some g"
  shows "\<exists>readouts outputs. readout_components P x = Some readouts \<and> output_components P x = Some outputs \<and>
    length readouts = num_readouts g \<and> length outputs = num_output_observables g \<and>
    (\<forall>cs \<in> set readouts \<union> set outputs. distinct cs) \<and>
    (\<forall>T'. settled T' \<longrightarrow> same_data T T' \<longrightarrow> frame_of T x \<noteq> None \<longrightarrow> frame_of T' x \<noteq> None \<longrightarrow>
       (\<forall>i < num_readouts g. (frame_bit T (Readout x i) \<noteq> frame_bit T' (Readout x i)) = parity (flip T T') (readouts ! i)) \<and>
       (\<forall>i < num_output_observables g. (frame_bit T (Residual x i) \<noteq> frame_bit T' (Residual x i)) = parity (flip T T') (outputs ! i)))"
proof -
  obtain s where s: "pr_gadgets P x = Some s" "nodes_ok (pr_nodes P)" "length (sg_readout_nodes s) = num_readouts g"
      "length (sg_residual_nodes s) = num_output_observables g"
      "\<forall>n \<in> set (sg_readout_nodes s) \<union> set (sg_residual_nodes s). n < length (pr_nodes P)"
    using root_bound [OF assms(2,3)] by blast
  obtain rs where rs: "omap (\<lambda>root. sym_components P root None) (sg_readout_nodes s) = Some rs" "length rs = num_readouts g" "\<forall>cs \<in> set rs. distinct cs"
      "\<forall>i < num_readouts g. \<forall>\<rho>. nv \<rho> None P (sg_readout_nodes s ! i) = parity \<rho> (rs ! i)"
    using all_components_run [OF s(2), of "sg_readout_nodes s" None] s(3,5) by auto
  obtain os where os: "omap (\<lambda>root. sym_components P root None) (sg_residual_nodes s) = Some os" "length os = num_output_observables g" "\<forall>cs \<in> set os. distinct cs"
      "\<forall>i < num_output_observables g. \<forall>\<rho>. nv \<rho> None P (sg_residual_nodes s ! i) = parity \<rho> (os ! i)"
    using all_components_run [OF s(2), of "sg_residual_nodes s" None] s(4,5) by auto
  have "(\<forall>i < num_readouts g. (frame_bit T (Readout x i) \<noteq> frame_bit T' (Readout x i)) = parity (flip T T') (rs ! i)) \<and>
      (\<forall>i < num_output_observables g. (frame_bit T (Residual x i) \<noteq> frame_bit T' (Residual x i)) = parity (flip T T') (os ! i))"
    if t: "settled T'" "same_data T T'" "frame_of T x \<noteq> None" "frame_of T' x \<noteq> None" for T'
  proof -
    have "predicts P None T T' x"
      by (rule predicts_within [OF assms(1) settled_in_all [OF t(1)] t(2) assms(2)]) (simp add: gid_included_def)
    with assms(3) s(1) t(3,4) rs(4) os(4) show ?thesis by (auto simp: predicts_def)
  qed
  moreover have "\<forall>cs \<in> set rs \<union> set os. distinct cs" using rs(3) os(3) by blast
  ultimately show ?thesis using rs(1,2) os(1,2) s(1) by (simp add: readout_components_def output_components_def)
qed

section \<open>The flip cache\<close>

definition cached :: "flip_cache \<Rightarrow> correction_basis \<Rightarrow> nat list" where
  "cached cache c = (case cache c of Some ts \<Rightarrow> ts | None \<Rightarrow> [])"

lemma cached_push: "cached (push_effect k c cache) d = cached cache d @ (if d = c then [k] else [])"
  by (simp add: cached_def push_effect_def)

lemma cached_pushes: "count_list (cached (fold (push_effect k) cs cache) c) t =
    count_list (cached cache c) t + (if t = k then count_list cs c else 0)"
  by (induction cs arbitrary: cache) (auto simp: cached_push)

lemma target_root_run:
  assumes "synced P T" "target_ok T b"
  shows "\<exists>root. target_root P b = Some root \<and> root < length (pr_nodes P)"
proof (cases b)
  case (Readout x i)
  with assms(2) obtain g where g: "T x = Some g" "i < num_readouts g" by auto
  from root_bound [OF assms(1) g(1)] g(2) Readout show ?thesis by (auto simp: target_root_def)
next
  case (Residual x i)
  with assms(2) obtain g where g: "T x = Some g" "i < num_output_observables g" by auto
  from root_bound [OF assms(1) g(1)] g(2) Residual show ?thesis by (auto simp: target_root_def)
qed

lemma logical_flip_cache_run:
  assumes "nodes_ok (pr_nodes P)" "\<forall>b \<in> set targets. \<exists>root. target_root P b = Some root \<and> root < length (pr_nodes P)"
  shows "\<exists>cache css. logical_flip_cache P gids targets = Some cache \<and> length css = length targets \<and>
    (\<forall>k < length targets. \<forall>\<rho>. nv \<rho> (Some (set gids)) P (the (target_root P (targets ! k))) = parity \<rho> (css ! k)) \<and>
    (\<forall>c k. count_list (cached cache c) k = (if k < length targets then count_list (css ! k) c else 0))"
  using assms(2)
proof (induction targets rule: rev_induct)
  case Nil
  then show ?case by (simp add: logical_flip_cache_def cached_def)
next
  case (snoc b targets)
  then obtain cache css where IH: "logical_flip_cache P gids targets = Some cache" "length css = length targets"
      "\<forall>k < length targets. \<forall>\<rho>. nv \<rho> (Some (set gids)) P (the (target_root P (targets ! k))) = parity \<rho> (css ! k)"
      "\<forall>c k. count_list (cached cache c) k = (if k < length targets then count_list (css ! k) c else 0)" by auto
  obtain root where root: "target_root P b = Some root" "root < length (pr_nodes P)" using snoc.prems by auto
  obtain cs where cs: "sym_components P root (Some (set gids)) = Some cs"
      "\<forall>\<rho>. nv \<rho> (Some (set gids)) P root = parity \<rho> cs" using sym_components_run [OF assms(1) root(2)] by blast
  let ?n = "length targets"
  have "logical_flip_cache P gids (targets @ [b]) = Some (fold (push_effect ?n) cs cache)"
    using IH(1) root(1) cs(1) by (simp add: logical_flip_cache_def ofold_append)
  moreover have "count_list (cached (fold (push_effect ?n) cs cache) c) k =
      (if k < length (targets @ [b]) then count_list ((css @ [cs]) ! k) c else 0)" for c k
    using IH(2,4) by (auto simp: cached_pushes nth_append less_Suc_eq)
  moreover have "\<forall>k < length (targets @ [b]). \<forall>\<rho>.
      nv \<rho> (Some (set gids)) P (the (target_root P ((targets @ [b]) ! k))) = parity \<rho> ((css @ [cs]) ! k)"
    using IH(2,3) root(1) cs(2) by (auto simp: nth_append less_Suc_eq)
  moreover have "length (css @ [cs]) = length (targets @ [b])" using IH(2) by simp
  ultimately show ?case by blast
qed

lemma parity_count_exchange: "parity (\<lambda>b. odd (count_list ys b)) xs = parity (\<lambda>c. odd (count_list xs c)) ys"
proof (induction ys)
  case Nil
  then show ?case by (simp add: parity_def)
next
  case (Cons y ys)
  have "parity (\<lambda>b. odd (count_list (y # ys) b)) zs = (odd (count_list zs y) \<noteq> parity (\<lambda>b. odd (count_list ys b)) zs)" for zs
    by (induction zs) auto
  with Cons show ?case by simp
qed

lemma xor_effect_mem: "k \<in> fold (\<lambda>target effect. if target \<notin> effect then insert target effect else effect - {target}) ts effect \<longleftrightarrow>
    (k \<in> effect) \<noteq> odd (count_list ts k)"
  by (induction ts arbitrary: effect) auto

lemma xor_effects_mem: "k \<in> fold (\<lambda>index. xor_basis_effect cache (f index)) is effect \<longleftrightarrow>
    (k \<in> effect) \<noteq> parity (\<lambda>c. odd (count_list (cached cache c) k)) (map f is)"
  by (induction "is" arbitrary: effect) (auto simp: xor_basis_effect_def xor_effect_mem cached_def)

lemma finite_xor_effects: "finite effect \<Longrightarrow> finite (fold (\<lambda>index. xor_basis_effect cache (f index)) is effect)"
proof (induction "is" arbitrary: effect)
  case (Cons i "is")
  have "finite (fold (\<lambda>target effect. if target \<notin> effect then insert target effect else effect - {target}) ts effect)"
    if "finite effect" for ts :: "nat list" and effect
    using that by (induction ts arbitrary: effect) auto
  with Cons show ?case by (simp add: xor_basis_effect_def)
qed simp

definition correction_bases :: "nat \<Rightarrow> nat list \<Rightarrow> nat list \<Rightarrow> correction_basis list" where
  "correction_bases x residuals readouts = map (Readout x) readouts @ map (Residual x) residuals"

lemma propagated_flips_set:
  "set (propagated_logical_flips cache x residuals readouts) =
     {k. parity (\<lambda>c. odd (count_list (cached cache c) k)) (correction_bases x residuals readouts)}"
  by (simp add: propagated_logical_flips_def Let_def finite_xor_effects, rule set_eqI)
    (simp add: xor_effects_mem correction_bases_def)

lemma sorted_list_of_filter:
  assumes "set (sorted_list_of_set S) = {k. k < n \<and> Q k}"
  shows "sorted_list_of_set S = filter Q [0..<n]"
proof (rule sorted_distinct_set_unique)
  show "set (sorted_list_of_set S) = set (filter Q [0..<n])" unfolding assms by auto
qed (simp_all add: sorted_wrt_filter)

lemma window_root:
  assumes "settled T" "settled_in A T T'" "same_data T T'" "synced P T" "target_ok T b" "target_ok T' b"
  shows "nv (flip T T') A P (the (target_root P b)) = (gid_included A (basis_gid b) \<and> frame_bit T b \<noteq> frame_bit T' b)"
proof -
  obtain rank B where st: "all_ok T" "graph_ok rank B T" using assms(1) by (auto simp: settled_def settled_except_def)
  let ?x = "basis_gid b"
  obtain g h where g: "T ?x = Some g" "pg_frame g \<noteq> None" "T' ?x = Some h" "pg_frame h \<noteq> None"
    using assms(5,6) by (cases b) auto
  obtain s where s: "pr_gadgets P ?x = Some s" "length (sg_readout_nodes s) = num_readouts g"
      "length (sg_residual_nodes s) = num_output_observables g" using root_bound [OF assms(4) g(1)] by blast
  show ?thesis
  proof (cases "gid_included A ?x")
    case False
    from excluded_zero [OF st assms(4) g(1) s(1) False] show ?thesis
      using assms(5) g(1) s False by (cases b) (auto simp: target_root_def)
  next
    case True
    from predicts_within [OF assms(1-4) True] show ?thesis
      using assms(5) g s True by (cases b) (auto simp: predicts_def frame_of_def target_root_def)
  qed
qed

text \<open>C31. The flip cache of a window says what a correction of one gadget does to the logical targets inside
  the window.  Take a settled tracker \<open>T\<close> and a tracker \<open>T'\<close> with the same data loaded that obeys the
  propagation equations inside the window and agrees with \<open>T\<close> on every frame that enters the window from
  outside; inside the window their decoded corrections differ in the given residual and readout positions
  of gadget \<open>x\<close>, each taken as often as it is listed, and in nothing else.  Then the flips listed are, in
  ascending order, exactly the targets that belong to gadgets of the window and whose frame bits differ;
  a target outside the window is never listed, even when its frame changes.\<close>

theorem propagated_flips_are_frame_changes:
  assumes "settled T" "settled_in (Some (set gids)) T T'" "same_data T T'" "synced P T"
    and targets: "\<forall>b \<in> set targets. target_ok T b \<and> target_ok T' b"
    and flips: "\<forall>b. basis_gid b \<in> set gids \<longrightarrow> flip T T' b = odd (count_list (correction_bases x residuals readouts) b)"
  shows "\<exists>cache. logical_flip_cache P gids targets = Some cache \<and>
    propagated_logical_flips cache x residuals readouts =
      filter (\<lambda>k. basis_gid (targets ! k) \<in> set gids \<and> frame_bit T (targets ! k) \<noteq> frame_bit T' (targets ! k)) [0..<length targets]"
proof -
  let ?ys = "correction_bases x residuals readouts" and ?A = "Some (set gids)"
  let ?Q = "\<lambda>k. basis_gid (targets ! k) \<in> set gids \<and> frame_bit T (targets ! k) \<noteq> frame_bit T' (targets ! k)"
  have roots: "\<forall>b \<in> set targets. \<exists>root. target_root P b = Some root \<and> root < length (pr_nodes P)"
    using target_root_run [OF assms(4)] targets by blast
  have "nodes_ok (pr_nodes P)" using assms(4) by (simp add: synced_def)
  note cache = logical_flip_cache_run [OF this roots, of gids]
  obtain cache css where run: "logical_flip_cache P gids targets = Some cache" "length css = length targets"
      "\<forall>k < length targets. \<forall>\<rho>. nv \<rho> ?A P (the (target_root P (targets ! k))) = parity \<rho> (css ! k)"
      "\<forall>c k. count_list (cached cache c) k = (if k < length targets then count_list (css ! k) c else 0)"
    using cache by (elim exE conjE)
  have \<rho>: "nv (\<lambda>b. odd (count_list ?ys b)) ?A P n = nv (flip T T') ?A P n" for n
    by (rule node_value_window) (use flips in \<open>simp add: gid_included_def\<close>)
  have "parity (\<lambda>c. odd (count_list (cached cache c) k)) ?ys = (k < length targets \<and> ?Q k)" for k
  proof (cases "k < length targets")
    case True
    then have t: "target_ok T (targets ! k)" "target_ok T' (targets ! k)" using targets by auto
    have "parity (\<lambda>b. odd (count_list ?ys b)) (css ! k) = nv (flip T T') ?A P (the (target_root P (targets ! k)))"
      unfolding \<rho> [symmetric] by (rule run(3) [rule_format, OF True, symmetric])
    also have "\<dots> = ?Q k" using window_root [OF assms(1-4) t] by (simp add: gid_included_def)
    finally show ?thesis using True run(4) by (simp add: parity_count_exchange)
  next
    case False
    then show ?thesis using run(4) by (simp add: parity_def)
  qed
  then have "set (propagated_logical_flips cache x residuals readouts) = {k. k < length targets \<and> ?Q k}"
    unfolding propagated_flips_set by blast
  then have "propagated_logical_flips cache x residuals readouts = filter ?Q [0..<length targets]"
    unfolding propagated_logical_flips_def Let_def by (rule sorted_list_of_filter)
  with run(1) show ?thesis by blast
qed

section \<open>Causal gadgets\<close>

text \<open>The included gadgets a gadget depends on through included gadgets.\<close>

inductive reaches :: "tracker \<Rightarrow> nat set \<Rightarrow> nat \<Rightarrow> nat \<Rightarrow> bool" for T included x where
  here: "x \<in> included \<Longrightarrow> reaches T included x x"
| step: "reaches T included x y \<Longrightarrow> T y = Some g \<Longrightarrow> z \<in> sources g \<Longrightarrow> z \<in> included \<Longrightarrow> reaches T included x z"

lemma reaches_included: "reaches T included x y \<Longrightarrow> y \<in> included"
  by (induction rule: reaches.induct) auto

lemma finite_sources: "finite (sources g)"
  by (simp add: sources_def)

lemma case_snoc: "(case xs @ [x] of [] \<Rightarrow> a | _ # _ \<Rightarrow> b) = b"
  by (cases xs) simp_all

lemma causal_loop_snoc: "causal_loop P included (rest @ [gid]) ancestors =
    (if gid \<notin> included \<or> gid \<in> ancestors then causal_loop P included rest ancestors
     else Option.bind (pr_gadgets P gid)
       (\<lambda>g. causal_loop P included (rest @ sg_input_sources g @ sg_remote_sources g) (insert gid ancestors)))"
  by (subst causal_loop.simps) (simp add: case_snoc Let_def)

lemma causal_loop_run:
  assumes sync: "synced P T" and fin: "finite included" and dom: "included \<subseteq> dom T" and "ancestors \<subseteq> included"
    and "\<forall>y \<in> set pending \<inter> included. reaches T included x y" "\<forall>y \<in> ancestors. reaches T included x y"
    and "\<forall>y \<in> ancestors. \<forall>z \<in> sources (the (T y)). z \<in> included \<longrightarrow> z \<in> ancestors \<union> set pending"
  shows "\<exists>A. causal_loop P included pending ancestors = Some A \<and> (\<forall>y \<in> A. reaches T included x y) \<and>
    ancestors \<union> (set pending \<inter> included) \<subseteq> A \<and> (\<forall>y \<in> A. \<forall>z \<in> sources (the (T y)). z \<in> included \<longrightarrow> z \<in> A)"
  using assms(4-)
proof (induction "(card (included - ancestors), length pending)" arbitrary: pending ancestors
    rule: wf_induct_rule [OF wf_lex_prod [OF wf_less_than wf_less_than]])
  case 1
  note IH = this(1) and inv = this(2-)
  show ?case
  proof (cases pending rule: rev_cases)
    case Nil
    with inv show ?thesis by (subst causal_loop.simps) simp
  next
    case (snoc rest gid)
    show ?thesis
    proof (cases "gid \<notin> included \<or> gid \<in> ancestors")
      case True
      have "\<exists>A. causal_loop P included rest ancestors = Some A \<and> (\<forall>y \<in> A. reaches T included x y) \<and>
          ancestors \<union> (set rest \<inter> included) \<subseteq> A \<and> (\<forall>y \<in> A. \<forall>z \<in> sources (the (T y)). z \<in> included \<longrightarrow> z \<in> A)"
      proof (rule IH)
        show "((card (included - ancestors), length rest), card (included - ancestors), length pending) \<in> less_than <*lex*> less_than"
          by (simp add: snoc)
        show "ancestors \<subseteq> included" by (rule inv(1))
        show "\<forall>y \<in> set rest \<inter> included. reaches T included x y" using inv(2) snoc by simp
        show "\<forall>y \<in> ancestors. reaches T included x y" by (rule inv(3))
        show "\<forall>y \<in> ancestors. \<forall>z \<in> sources (the (T y)). z \<in> included \<longrightarrow> z \<in> ancestors \<union> set rest"
        proof (intro ballI impI)
          fix y z assume z: "y \<in> ancestors" "z \<in> sources (the (T y))" "z \<in> included"
          with inv(4) have "z \<in> ancestors \<union> set pending" by blast
          with z(3) snoc True show "z \<in> ancestors \<union> set rest" by auto
        qed
      qed
      moreover have "causal_loop P included pending ancestors = causal_loop P included rest ancestors"
        using True by (simp add: snoc causal_loop_snoc)
      moreover have "ancestors \<union> (set rest \<inter> included) = ancestors \<union> (set pending \<inter> included)" using True snoc by auto
      ultimately show ?thesis by (simp only:)
    next
      case False
      then obtain g where g: "T gid = Some g" using dom by blast
      obtain s where s: "pr_gadgets P gid = Some s" "sg_input_sources s = map con_gid (pg_inputs g)"
          "sg_remote_sources s = map rr_gid (remote_refs g)"
        using synced_lookup [OF sync g] by (auto simp: sym_gadget_ok_def)
      let ?p = "rest @ sg_input_sources s @ sg_remote_sources s"
      have src: "set (sg_input_sources s) \<union> set (sg_remote_sources s) = sources g" by (simp add: s sources_def)
      have r: "reaches T included x gid" using inv(2) False snoc by simp
      have smaller: "card (included - insert gid ancestors) < card (included - ancestors)"
        by (rule psubset_card_mono) (use fin False in auto)
      have "\<exists>A. causal_loop P included ?p (insert gid ancestors) = Some A \<and> (\<forall>y \<in> A. reaches T included x y) \<and>
          insert gid ancestors \<union> (set ?p \<inter> included) \<subseteq> A \<and> (\<forall>y \<in> A. \<forall>z \<in> sources (the (T y)). z \<in> included \<longrightarrow> z \<in> A)"
      proof (rule IH)
        show "((card (included - insert gid ancestors), length ?p), card (included - ancestors), length pending) \<in> less_than <*lex*> less_than"
          using smaller by simp
        show "insert gid ancestors \<subseteq> included" using inv(1) False by simp
        show "\<forall>y \<in> set ?p \<inter> included. reaches T included x y"
          using inv(2) snoc src reaches.step [OF r g] by auto
        show "\<forall>y \<in> insert gid ancestors. reaches T included x y" using inv(3) r by simp
        show "\<forall>y \<in> insert gid ancestors. \<forall>z \<in> sources (the (T y)). z \<in> included \<longrightarrow> z \<in> insert gid ancestors \<union> set ?p"
          using inv(4) snoc src g by auto
      qed
      moreover have "causal_loop P included pending ancestors = causal_loop P included ?p (insert gid ancestors)"
        using False s(1) by (simp add: snoc causal_loop_snoc)
      moreover have "ancestors \<union> (set pending \<inter> included) \<subseteq> insert gid ancestors \<union> (set ?p \<inter> included)" using snoc by auto
      ultimately show ?thesis by (elim exE conjE) (intro exI conjI; (assumption | simp only: | erule (1) subset_trans))
    qed
  qed
qed

text \<open>The search for the causal gadgets of a gadget inside a window returns exactly the gadgets of the
  window it depends on, itself included, through inputs and remote readouts, along paths in the window.\<close>

theorem causal_gadgets_reaches:
  assumes "synced P T" "finite included" "included \<subseteq> dom T"
  shows "causal_gadgets P x included = Some {y. reaches T included x y}"
proof -
  obtain A where A: "causal_gadgets P x included = Some A" "\<forall>y \<in> A. reaches T included x y" "x \<in> included \<longrightarrow> x \<in> A"
      "\<forall>y \<in> A. \<forall>z \<in> sources (the (T y)). z \<in> included \<longrightarrow> z \<in> A"
  proof -
    have "\<forall>y \<in> set [x] \<inter> included. reaches T included x y" using reaches.here [of x included T] by auto
    from causal_loop_run [OF assms empty_subsetI this] obtain A where "causal_gadgets P x included = Some A"
        "\<forall>y \<in> A. reaches T included x y" "set [x] \<inter> included \<subseteq> A"
        "\<forall>y \<in> A. \<forall>z \<in> sources (the (T y)). z \<in> included \<longrightarrow> z \<in> A" by (auto simp: causal_gadgets_def)
    moreover from this(3) have "x \<in> included \<longrightarrow> x \<in> A" by auto
    ultimately show thesis using that by blast
  qed
  have "y \<in> A" if "reaches T included x y" for y
    using that
  proof (induction rule: reaches.induct)
    case here
    with A(3) show ?case by blast
  next
    case (step y g z)
    from A(4) step.IH have "\<forall>z \<in> sources (the (T y)). z \<in> included \<longrightarrow> z \<in> A" by (rule bspec)
    with step.hyps show ?case by simp
  qed
  then have "A = {y. reaches T included x y}" using A(2) by (intro equalityI subsetI) simp_all
  with A(1) show ?thesis by simp
qed

section \<open>Examples\<close>

text \<open>The tracker with two sources of Pauli_Frame, and a propagator that knows them.\<close>

definition example_propagator :: propagator where
  "example_propagator = the (Option.bind (sym_add_gadget 1 example_source propagator_new) (sym_add_gadget 2 example_source))"

lemma example_synced: "synced example_propagator example_tracker"
proof -
  have w: "wired T example_source" for T
    using example_source_ok(2) by (simp add: wired_def) (simp add: example_source_def remote_refs_def)
  obtain P1 where P1: "sym_add_gadget 1 example_source propagator_new = Some P1" "synced P1 (tracker_new(1 \<mapsto> example_source))"
    using sym_add_gadget_run [OF synced_new _ _ example_source_ok(1) w, of 1] by (auto simp: all_ok_def tracker_new_def)
  have "all_ok (tracker_new(1 \<mapsto> example_source))" using w example_source_ok(1) by (simp add: all_ok_def tracker_new_def)
  from sym_add_gadget_run [OF P1(2) this _ example_source_ok(1) w, of 2] obtain P2
    where P2: "sym_add_gadget 2 example_source P1 = Some P2" "synced P2 (tracker_new(1 \<mapsto> example_source, 2 \<mapsto> example_source))"
    by (auto simp: tracker_new_def)
  then have "example_propagator = P2" using P1(1) by (simp add: example_propagator_def del: One_nat_def)
  with P2(2) show ?thesis by (simp add: example_tracker_def tracker_new_def)
qed

theorem sym_add_gadget_follows_witness:
  "\<exists>T' g Q. settled T' \<and> add_gadget 3 example_type None (\<lambda>_. None) [\<lparr>con_gid = 1, con_port = 0\<rparr>] example_tracker = Some T' \<and>
    T' 3 = Some g \<and> sym_add_gadget 3 g example_propagator = Some Q \<and> synced Q T'"
  using example_added sym_add_gadget_follows [OF example_settled(1) example_synced] by blast

theorem components_predict_witness:
  "\<exists>readouts outputs. readout_components example_propagator 1 = Some readouts \<and>
    output_components example_propagator 1 = Some outputs \<and>
    length readouts = num_readouts example_source \<and> length outputs = num_output_observables example_source \<and>
    (\<forall>cs \<in> set readouts \<union> set outputs. distinct cs)"
  using components_predict [OF example_settled(1) example_synced example_lookup(1)] by blast

lemma erase_core: "erase T = erase T' \<Longrightarrow> same_core T T'"
  unfolding same_core_def
proof
  fix x
  assume "erase T = erase T'"
  then have "map_option (\<lambda>g. g\<lparr>pg_frame := None\<rparr>) (T x) = map_option (\<lambda>g. g\<lparr>pg_frame := None\<rparr>) (T' x)"
    unfolding erase_def by metis
  then have "map_option core_view (map_option (\<lambda>g. g\<lparr>pg_frame := None\<rparr>) (T x)) =
      map_option core_view (map_option (\<lambda>g. g\<lparr>pg_frame := None\<rparr>) (T' x))" by simp
  then show "map_option core_view (T x) = map_option core_view (T' x)"
    by (simp add: option.map_comp comp_def core_view_def [abs_def])
qed

text \<open>A chain: a source whose output is consumed by a sink that copies the first entering observable into
  its readout.\<close>

definition chain_source :: frame_gadget where
  "chain_source = example_source\<lparr>pg_outputs := [Some \<lparr>con_gid = 3, con_port = 0\<rparr>]\<rparr>"

definition chain_sink :: frame_gadget where
  "chain_sink = \<lparr>pg_frame = None, pg_raw_readouts = Some (bitvec_zeros 1), pg_raw_measurements = Some (bitvec_zeros 0),
     pg_decoded = None, pg_correction_propagation = mat_zeros 0 3,
     pg_readout_propagation = the (mat_set (0, 0) True (mat_zeros 1 3)),
     pg_logical_correction = mat_zeros 0 1, pg_physical_correction = mat_zeros 0 0, pg_remote = None,
     pg_inputs = [\<lparr>con_gid = 1, con_port = 0\<rparr>], pg_outputs = [], pg_remote_dependents = [], pg_output_bias = []\<rparr>"

definition chain_tracker :: tracker where
  "chain_tracker = [1 \<mapsto> chain_source, 3 \<mapsto> chain_sink]"

lemma chain_matrix: "dense_ok 1 3 (pg_readout_propagation chain_sink)"
    "mat_bit (pg_readout_propagation chain_sink) = (\<lambda>i j. i = 0 \<and> j = 0)"
proof -
  obtain n where n: "mat_set (0, 0) True (mat_zeros 1 3) = Some n" "same_shape n (mat_zeros 1 3)"
      "mat_bit n = (mat_bit (mat_zeros 1 3))(0 := (mat_bit (mat_zeros 1 3) 0)(0 := True))"
    using mat_set_bit [of "mat_zeros 1 3" 0 0 True] by (auto simp: mat_zeros_ok)
  have bits: "mat_bit n = (\<lambda>i j. i = 0 \<and> j = 0)" unfolding n(3) by (auto simp: mat_zeros_ok fun_eq_iff)
  have sink: "pg_readout_propagation chain_sink = n" using n(1) by (simp add: chain_sink_def)
  show "mat_bit (pg_readout_propagation chain_sink) = (\<lambda>i j. i = 0 \<and> j = 0)" unfolding sink by (rule bits)
  show "dense_ok 1 3 (pg_readout_propagation chain_sink)"
    unfolding sink using n(2) bits by (auto simp: dense_ok_def same_shape_def mat_zeros_ok mat_clean_def)
qed

lemma chain_source_ok: "gadget_ok chain_source" "num_in chain_source = 0" "num_readouts chain_source = 1"
    "num_output_observables chain_source = 2" "sources chain_source = {}" "port_range chain_source 0 = [0, 1]"
    "pg_decoded chain_source = None" "pg_frame chain_source = None" "pg_raw_readouts chain_source = Some (bitvec_zeros 1)"
    "pg_inputs chain_source = []" "remote_refs chain_source = []" "successors chain_source = [3]" "pg_output_bias chain_source = [0]"
proof -
  have n: "num_output_observables chain_source = 2" "num_readouts chain_source = 1"
      "num_measurements chain_source = 0" "num_in chain_source = 0"
    by (simp_all add: chain_source_def example_source_def num_output_observables_def num_readouts_def num_measurements_def
        column_count_def num_in_def mat_zeros_ok)
  show "num_in chain_source = 0" "num_readouts chain_source = 1" "num_output_observables chain_source = 2" by (fact n)+
  have "matrices_ok chain_source" unfolding matrices_ok_def n by (simp add: chain_source_def example_source_def dense_ok_zerosI)
  moreover have "loads_ok chain_source" unfolding loads_ok_def n by (simp add: chain_source_def example_source_def vec_ok_zeros)
  moreover have "ports_ok chain_source" by (simp add: ports_ok_def port_stop_def n) (simp add: chain_source_def example_source_def)
  ultimately show "gadget_ok chain_source" by (simp add: gadget_ok_def)
  show "port_range chain_source 0 = [0, 1]"
    by (simp add: port_range_def port_stop_def n) (simp add: chain_source_def example_source_def upt_rec)
  show "sources chain_source = {}" "pg_decoded chain_source = None" "pg_frame chain_source = None"
    "pg_raw_readouts chain_source = Some (bitvec_zeros 1)" "pg_inputs chain_source = []" "remote_refs chain_source = []"
    "successors chain_source = [3]" "pg_output_bias chain_source = [0]"
    by (simp_all add: chain_source_def example_source_def successors_def sources_def remote_refs_def)
qed

lemma chain_sink_ok: "gadget_ok chain_sink" "num_in chain_sink = 2" "num_readouts chain_sink = 1"
    "num_output_observables chain_sink = 0" "sources chain_sink = {1}"
    "pg_decoded chain_sink = None" "pg_frame chain_sink = None" "pg_raw_readouts chain_sink = Some (bitvec_zeros 1)"
    "pg_inputs chain_sink = [\<lparr>con_gid = 1, con_port = 0\<rparr>]" "remote_refs chain_sink = []" "successors chain_sink = []"
proof -
  have n: "num_output_observables chain_sink = 0" "num_readouts chain_sink = 1"
      "num_measurements chain_sink = 0" "num_in chain_sink = 2"
    by (simp_all add: chain_sink_def num_output_observables_def num_readouts_def num_measurements_def
        column_count_def num_in_def mat_zeros_ok)
  show "num_in chain_sink = 2" "num_readouts chain_sink = 1" "num_output_observables chain_sink = 0" by (fact n)+
  have "matrices_ok chain_sink" unfolding matrices_ok_def n
    using chain_matrix(1) by (simp add: chain_sink_def dense_ok_zerosI numeral_3_eq_3 [symmetric])
  moreover have "loads_ok chain_sink" unfolding loads_ok_def n by (simp add: chain_sink_def vec_ok_zeros)
  moreover have "ports_ok chain_sink" by (simp add: ports_ok_def port_stop_def n) (simp add: chain_sink_def)
  ultimately show "gadget_ok chain_sink" by (simp add: gadget_ok_def)
  show "sources chain_sink = {1}" "pg_decoded chain_sink = None" "pg_frame chain_sink = None"
    "pg_raw_readouts chain_sink = Some (bitvec_zeros 1)" "pg_inputs chain_sink = [\<lparr>con_gid = 1, con_port = 0\<rparr>]"
    "remote_refs chain_sink = []" "successors chain_sink = []"
    by (simp_all add: chain_sink_def successors_def sources_def remote_refs_def)
qed

lemma chain_wired: "wired T chain_source" "T 1 = Some chain_source \<Longrightarrow> wired T chain_sink"
  by (simp_all add: wired_def chain_source_ok chain_sink_ok)

lemma chain_cases: "chain_tracker x = Some g \<Longrightarrow> (x = 1 \<and> g = chain_source) \<or> (x = 3 \<and> g = chain_sink)"
  by (auto simp: chain_tracker_def split: if_splits)

lemma chain_lookup: "chain_tracker 1 = Some chain_source" "chain_tracker 3 = Some chain_sink"
  by (simp_all add: chain_tracker_def)

lemma chain_settled: "settled chain_tracker"
proof -
  have "all_ok chain_tracker"
    unfolding all_ok_def using chain_source_ok(1) chain_sink_ok(1) chain_wired [of chain_tracker] chain_lookup(1)
    by (metis chain_cases)
  moreover have "graph_ok id 3 chain_tracker"
    unfolding graph_ok_def by (auto simp: chain_source_ok chain_sink_ok chain_lookup [simplified] dest!: chain_cases)
  ultimately have "settled_except id 3 chain_tracker {}"
    unfolding settled_except_def locally_correct_def
    by (auto simp: chain_source_ok chain_sink_ok compute_frame_def dest!: chain_cases)
  then show ?thesis by (auto simp: settled_def)
qed

lemma chain_synced: "\<exists>P. synced P chain_tracker"
proof -
  let ?T1 = "tracker_new(1 \<mapsto> chain_source)"
  obtain P1 where P1: "synced P1 ?T1"
    using sym_add_gadget_run [OF synced_new _ _ chain_source_ok(1) chain_wired(1), of 1] by (auto simp: all_ok_def tracker_new_def)
  have "all_ok ?T1" using chain_wired(1) chain_source_ok(1) by (simp add: all_ok_def tracker_new_def)
  from sym_add_gadget_run [OF P1 this _ chain_sink_ok(1) chain_wired(2), of 3]
  obtain P where "synced P (?T1(3 \<mapsto> chain_sink))" by (auto simp: tracker_new_def)
  then show ?thesis by (auto simp: chain_tracker_def tracker_new_def)
qed

text \<open>Both gadgets decoded: the sink's readout is the first bit of the source's decoded residual.\<close>

lemma chain_loaded:
  assumes "vec_ok 2 v"
  shows "\<exists>T g h. settled T \<and> same_core chain_tracker T \<and> dom T = {1, 3} \<and> T 1 = Some g \<and> T 3 = Some h \<and>
    pg_decoded g = Some \<lparr>fr_readouts = bitvec_zeros 1, fr_residual = v\<rparr> \<and>
    pg_decoded h = Some \<lparr>fr_readouts = bitvec_zeros 1, fr_residual = bitvec_zeros 0\<rparr> \<and>
    pg_raw_readouts g = Some (bitvec_zeros 1) \<and> pg_raw_readouts h = Some (bitvec_zeros 1) \<and>
    pg_raw_measurements g = Some (bitvec_zeros 0) \<and> pg_raw_measurements h = Some (bitvec_zeros 0) \<and>
    pg_frame g \<noteq> None \<and> pg_frame h \<noteq> None \<and>
    frame_bit T (Residual 1 0) = bitvec_bit v 0 \<and> frame_bit T (Readout 3 0) = bitvec_bit v 0"
proof -
  let ?d = "\<lparr>fr_readouts = bitvec_zeros 1, fr_residual = v\<rparr>" and ?e = "\<lparr>fr_readouts = bitvec_zeros 1, fr_residual = bitvec_zeros 0\<rparr>"
  let ?g = "chain_source\<lparr>pg_decoded := Some ?d\<rparr>" and ?h = "chain_sink\<lparr>pg_decoded := Some ?e\<rparr>"
  have "frame_ok chain_source ?d" using assms by (simp add: frame_ok_def chain_source_ok vec_ok_zeros)
  then obtain T1 us where T1: "settled T1" "erase T1 = erase (chain_tracker(1 \<mapsto> ?g))"
    using load_correction_run [OF chain_settled chain_lookup(1)] chain_source_ok(9) by blast
  obtain h1 where h1: "T1 3 = Some h1" "h1 = chain_sink\<lparr>pg_frame := pg_frame h1\<rparr>"
    using erase_lookup [OF T1(2) [symmetric], of 3 chain_sink] by (auto simp: chain_lookup)
  have "frame_ok h1 ?e" by (subst h1(2)) (simp add: frame_ok_def chain_sink_ok vec_ok_zeros)
  moreover have "pg_raw_readouts h1 \<noteq> None" by (subst h1(2)) (simp add: chain_sink_ok)
  ultimately obtain T us' where T: "settled T" "erase T = erase (T1(3 \<mapsto> h1\<lparr>pg_decoded := Some ?e\<rparr>))"
    using load_correction_run [OF T1(1) h1(1)] by blast
  have e: "erase T = erase (chain_tracker(1 \<mapsto> ?g, 3 \<mapsto> ?h))"
    using T(2) erase_load [OF T1(2) h1(1), of chain_sink] by (simp add: chain_lookup)
  obtain g where g: "T 1 = Some g" "g = ?g\<lparr>pg_frame := pg_frame g\<rparr>" using erase_lookup [OF e [symmetric], of 1 ?g] by auto
  obtain h where h: "T 3 = Some h" "h = ?h\<lparr>pg_frame := pg_frame h\<rparr>" using erase_lookup [OF e [symmetric], of 3 ?h] by auto
  have dom: "dom T = {1, 3}" using erase_dom [OF e] by (auto simp: chain_tracker_def dom_def split: if_splits)
  have "same_core chain_tracker (chain_tracker(1 \<mapsto> ?g, 3 \<mapsto> ?h))"
    by (auto simp: same_core_def chain_tracker_def core_view_def)
  then have core: "same_core chain_tracker T" using erase_core [OF e] same_core_sym same_core_trans by blast
  note fields = g(2) [THEN arg_cong, of pg_decoded] g(2) [THEN arg_cong, of pg_raw_readouts] g(2) [THEN arg_cong, of pg_raw_measurements]
    h(2) [THEN arg_cong, of pg_decoded] h(2) [THEN arg_cong, of pg_raw_readouts] h(2) [THEN arg_cong, of pg_raw_measurements]
  have f: "pg_decoded g = Some ?d" "pg_raw_readouts g = Some (bitvec_zeros 1)" "pg_raw_measurements g = Some (bitvec_zeros 0)"
      "pg_decoded h = Some ?e" "pg_raw_readouts h = Some (bitvec_zeros 1)" "pg_raw_measurements h = Some (bitvec_zeros 0)"
    using fields by (simp_all add: chain_source_def example_source_def chain_sink_def)
  have cg: "core_view g = core_view chain_source" "core_view h = core_view chain_sink"
    by (subst g(2), simp add: core_view_def) (subst h(2), simp add: core_view_def)
  note vg = core_viewD [OF cg(1)] and vh = core_viewD [OF cg(2)]
  have src: "sources g = {}" "sources h = {1}" using chain_source_ok(5) chain_sink_ok(5) vg(4,6) vh(4,6) by (simp_all add: sources_def)
  have closed: "\<forall>y \<in> {1, 3}. \<exists>k. T y = Some k \<and> pg_decoded k \<noteq> None \<and> sources k \<subseteq> {1, 3}" using g(1) h(1) f src by simp
  obtain a where a: "pg_frame g = Some a" "frame_equation T g a" using decoded_gadgets_have_frames [OF T(1) _ closed, of 1] g(1) by auto
  obtain b where b: "pg_frame h = Some b" "frame_equation T h b" using decoded_gadgets_have_frames [OF T(1) _ closed, of 3] h(1) by auto
  have z: "\<not> bitvec_bit (bitvec_zeros n) i" for n i by (simp add: bitvec_zeros_def aligned_zeros_bit)
  have none: "mvec n (\<lambda>_ _. False) w i = False" for n w i by (simp add: mvec_def xsum_zero)
  have ra: "bitvec_bit (fr_residual a) 0 = bitvec_bit v 0"
    using a(2) unfolding frame_equation_def Let_def vg f
    by (simp add: chain_source_ok z none) (simp add: chain_source_def example_source_def mat_zeros_ok none)
  have inb: "input_bits T h = map (bitvec_bit (fr_residual a)) [0, 1]"
    using core_viewD(5) [OF cg(1)] g(1) a(1)
    by (simp add: input_bits_def vh chain_sink_ok connector_bits_def frame_of_def chain_source_ok)
  have "mvec (num_in h + 1) (\<lambda>i j. i = 0 \<and> j = 0) w 0 = w 0" for w
    by (simp add: vh chain_sink_ok mvec_def numeral_3_eq_3)
  then have rb: "bitvec_bit (fr_readouts b) 0 = bitvec_bit v 0"
    using b(2) inb ra unfolding frame_equation_def Let_def by (simp add: f vh chain_sink_ok z chain_matrix(2))
  show ?thesis
    using T(1) core dom g(1) h(1) f a(1) b(1) ra rb
    by (intro exI [of _ T] exI [of _ g] exI [of _ h]) (simp add: frame_of_def)
qed

text \<open>The correction of the source reaches the sink: the whole chain as the window lists both targets, the window
  of the source alone only its own, although the readout of the sink changes.\<close>

theorem propagated_flips_are_frame_changes_witness:
  "\<exists>P T T' whole window. settled T \<and> settled T' \<and> synced P T \<and> frame_bit T (Readout 3 0) \<noteq> frame_bit T' (Readout 3 0) \<and>
    logical_flip_cache P [1, 3] [Readout 3 0, Residual 1 0] = Some whole \<and> propagated_logical_flips whole 1 [0] [] = [0, 1] \<and>
    logical_flip_cache P [1] [Readout 3 0, Residual 1 0] = Some window \<and> propagated_logical_flips window 1 [0] [] = [1]"
proof -
  have "(\<lambda>i. i < length [True, False] \<and> [True, False] ! i) = (\<lambda>i. i = 0)" by (auto simp: fun_eq_iff less_Suc_eq)
  then obtain v where v: "vec_ok 2 v" "bitvec_bit v = (\<lambda>i. i = 0)" using vec_ok_from_iter [of "[True, False]"]
    by (auto simp: numeral_2_eq_2)
  have zero: "vec_ok 2 (bitvec_zeros 2)" by (rule vec_ok_zeros)
  obtain T g h where T: "settled T" "same_core chain_tracker T" "dom T = {1, 3}" "T 1 = Some g" "T 3 = Some h"
      "pg_decoded g = Some \<lparr>fr_readouts = bitvec_zeros 1, fr_residual = bitvec_zeros 2\<rparr>"
      "pg_decoded h = Some \<lparr>fr_readouts = bitvec_zeros 1, fr_residual = bitvec_zeros 0\<rparr>"
      "pg_raw_readouts g = Some (bitvec_zeros 1)" "pg_raw_readouts h = Some (bitvec_zeros 1)"
      "pg_raw_measurements g = Some (bitvec_zeros 0)" "pg_raw_measurements h = Some (bitvec_zeros 0)"
      "pg_frame g \<noteq> None" "pg_frame h \<noteq> None"
      "frame_bit T (Residual 1 0) = bitvec_bit (bitvec_zeros 2) 0" "frame_bit T (Readout 3 0) = bitvec_bit (bitvec_zeros 2) 0"
    using chain_loaded [OF zero] by (elim exE conjE)
  obtain T' g' h' where T': "settled T'" "same_core chain_tracker T'" "dom T' = {1, 3}" "T' 1 = Some g'" "T' 3 = Some h'"
      "pg_decoded g' = Some \<lparr>fr_readouts = bitvec_zeros 1, fr_residual = v\<rparr>"
      "pg_decoded h' = Some \<lparr>fr_readouts = bitvec_zeros 1, fr_residual = bitvec_zeros 0\<rparr>"
      "pg_raw_readouts g' = Some (bitvec_zeros 1)" "pg_raw_readouts h' = Some (bitvec_zeros 1)"
      "pg_raw_measurements g' = Some (bitvec_zeros 0)" "pg_raw_measurements h' = Some (bitvec_zeros 0)"
      "pg_frame g' \<noteq> None" "pg_frame h' \<noteq> None"
      "frame_bit T' (Residual 1 0) = bitvec_bit v 0" "frame_bit T' (Readout 3 0) = bitvec_bit v 0"
    using chain_loaded [OF v(1)] by (elim exE conjE)
  obtain P where "synced P chain_tracker" using chain_synced by blast
  moreover have "all_ok chain_tracker" using chain_settled by (auto simp: settled_def settled_except_def)
  ultimately have P: "synced P T" using same_core_synced [OF T(2)] by blast
  have core: "same_core T T'" using T(2) T'(2) same_core_sym same_core_trans by blast
  have cases: "T x = Some k \<Longrightarrow> x = 1 \<or> x = 3" for x k using T(3) by auto
  have data: "same_data T T'" unfolding same_data_def using core cases T(4,5,8-11) T'(4,5,8-11) by fastforce
  have cg: "core_view g = core_view chain_source" "core_view h = core_view chain_sink"
      "core_view g' = core_view chain_source" "core_view h' = core_view chain_sink"
    using same_core_lookup [OF T(2) chain_lookup(1)] same_core_lookup [OF T(2) chain_lookup(2)]
      same_core_lookup [OF T'(2) chain_lookup(1)] same_core_lookup [OF T'(2) chain_lookup(2)] T(4,5) T'(4,5) by simp_all
  note views = cg [THEN core_viewD(1)] cg [THEN core_viewD(2)]
  have targets: "\<forall>b \<in> set [Readout 3 0, Residual 1 0]. target_ok T b \<and> target_ok T' b"
    using T(4,5,12,13) T'(4,5,12,13) views chain_source_ok(4) chain_sink_ok(3) by simp
  have flips: "flip T T' b = odd (count_list (correction_bases 1 [0] []) b)" for b
  proof (cases "basis_gid b = 1 \<or> basis_gid b = 3")
    case True
    then show ?thesis using T(4-7) T'(4-7) v(2)
      by (cases b) (auto simp: correction_bases_def bitvec_zeros_def aligned_zeros_bit)
  next
    case False
    then have "T (basis_gid b) = None" "T' (basis_gid b) = None" using T(3) T'(3) by auto
    with False show ?thesis by (cases b) (auto simp: correction_bases_def)
  qed
  have src: "sources g' = {}" using core_viewD(4,6) [OF cg(3)] chain_source_ok(5) by (simp add: sources_def)
  have whole: "settled_in (Some (set [1, 3])) T T'"
  proof (rule settled_in_unchanged [OF T'(1)])
    fix x k y assume "T' x = Some k" "y \<in> sources k" "\<not> gid_included (Some (set [1, 3])) y"
    then have "T' y \<noteq> None" using settled_sources [OF T'(1)] by blast
    then have "y \<in> {1, 3}" using T'(3) by blast
    with \<open>\<not> gid_included (Some (set [1, 3])) y\<close> show "frame_of T' y = frame_of T y" by (simp add: gid_included_def)
  qed
  have window: "settled_in (Some (set [1])) T T'"
    by (rule settled_in_unchanged [OF T'(1)]) (use T'(4) src in \<open>auto simp: gid_included_def\<close>)
  have bits: "frame_bit T (Readout 3 0) \<noteq> frame_bit T' (Readout 3 0)" "frame_bit T (Residual 1 0) \<noteq> frame_bit T' (Residual 1 0)"
    using T(14,15) T'(14,15) v(2) by (simp_all add: bitvec_zeros_def aligned_zeros_bit del: frame_bit.simps)
  have two: "[0..<length [Readout 3 0, Residual 1 0]] = [0, 1]" by (simp add: upt_rec)
  have f1: "\<forall>b. basis_gid b \<in> set gids \<longrightarrow> flip T T' b = odd (count_list (correction_bases 1 [0] []) b)" for gids
    using flips by simp
  obtain w where "logical_flip_cache P [1, 3] [Readout 3 0, Residual 1 0] = Some w" "propagated_logical_flips w 1 [0] [] = [0, 1]"
    using propagated_flips_are_frame_changes [OF T(1) whole data P targets f1] bits unfolding two
    by (elim exE conjE) (simp del: frame_bit.simps)
  moreover obtain u where "logical_flip_cache P [1] [Readout 3 0, Residual 1 0] = Some u" "propagated_logical_flips u 1 [0] [] = [1]"
    using propagated_flips_are_frame_changes [OF T(1) window data P targets f1] bits unfolding two
    by (elim exE conjE) (simp del: frame_bit.simps)
  ultimately show ?thesis using T(1) T'(1) P bits(1) by blast
qed

theorem causal_gadgets_reaches_witness:
  "causal_gadgets example_propagator 1 {1, 2} = Some {y. reaches example_tracker {1, 2} 1 y}"
  by (rule causal_gadgets_reaches [OF example_synced]) (auto simp: example_tracker_def)

end
