(* ===== verification/Relative_Program.thy ===== *)
theory Relative_Program
  imports Pauli_Frame
begin

text \<open>
  Programs with relative identifiers, \<open>misc/relative_program.rs\<close>: gadgets, check models and error models
  are renamed to their positions, so that a decoder prepared for one program serves every program of the
  same shape.  \<open>HashMap\<close>s are finite maps; the two passes of \<open>RelativeProgram::new\<close> are two functions.
\<close>

section \<open>Data\<close>

record expanded_check_model =
  ec_cid :: nat
  ec_ctype :: nat
  ec_remote_gadgets :: "nat option list"
  ec_count_checks :: nat

record expanded_error_model =
  ee_eid :: nat
  ee_etype :: nat
  ee_remote_check_models :: "nat option list"

record expanded_gadget =
  eg_gid :: nat
  eg_gtype :: nat
  eg_inputs :: "connector option list"
  eg_outputs :: "connector option list"
  eg_check_model :: "expanded_check_model option"
  eg_error_models :: "expanded_error_model list"

record relative_program =
  rp_gadgets :: "expanded_gadget list"
  rp_count_checks :: nat

record relative_mapping =
  local_gid_of :: "nat \<rightharpoonup> nat"
  global_gid_of :: "nat list"
  local_cid_of :: "nat \<rightharpoonup> nat"
  global_cid_of :: "nat list"
  local_eid_of :: "nat \<rightharpoonup> nat"
  global_eid_of :: "nat list"
  local_gid_of_local_eid :: "nat list"
  start_indices :: "nat list"
  local_eid_bias :: "nat list"

section \<open>Operations\<close>

definition empty_mapping :: relative_mapping where
  "empty_mapping = \<lparr>local_gid_of = (\<lambda>_. None), global_gid_of = [], local_cid_of = (\<lambda>_. None), global_cid_of = [],
     local_eid_of = (\<lambda>_. None), global_eid_of = [], local_gid_of_local_eid = [], start_indices = [], local_eid_bias = []\<rparr>"

definition number_check_model :: "expanded_check_model \<Rightarrow> relative_mapping \<times> nat \<Rightarrow>
    expanded_check_model \<times> relative_mapping \<times> nat" where
  "number_check_model check_model s = (case s of (m, count_checks) \<Rightarrow>
     let local_cid = length (global_cid_of m);
         m = m\<lparr>local_cid_of := (local_cid_of m)(ec_cid check_model \<mapsto> local_cid),
               global_cid_of := global_cid_of m @ [ec_cid check_model],
               start_indices := start_indices m @ [count_checks]\<rparr>
     in (check_model\<lparr>ec_cid := local_cid\<rparr>, m, count_checks + ec_count_checks check_model))"

definition number_error_model :: "nat \<Rightarrow> expanded_error_model \<Rightarrow>
    expanded_error_model list \<times> relative_mapping \<Rightarrow> expanded_error_model list \<times> relative_mapping" where
  "number_error_model local_gid error_model s = (case s of (error_models, m) \<Rightarrow>
     let local_eid = length (global_eid_of m);
         m = m\<lparr>local_eid_of := (local_eid_of m)(ee_eid error_model \<mapsto> local_eid),
               global_eid_of := global_eid_of m @ [ee_eid error_model],
               local_gid_of_local_eid := local_gid_of_local_eid m @ [local_gid]\<rparr>
     in (error_models @ [error_model\<lparr>ee_eid := local_eid\<rparr>], m))"

definition number_gadget :: "expanded_gadget \<Rightarrow> relative_mapping \<times> expanded_gadget list \<times> nat \<Rightarrow>
    relative_mapping \<times> expanded_gadget list \<times> nat" where
  "number_gadget gadget s = (case s of (m, local_gadgets, count_checks) \<Rightarrow>
     let local_gid = length (global_gid_of m);
         (check_model, m, count_checks) = (case eg_check_model gadget of
             None \<Rightarrow> (None, m, count_checks)
           | Some check_model \<Rightarrow> (case number_check_model check_model (m, count_checks) of (c, s) \<Rightarrow> (Some c, s)));
         m = m\<lparr>local_eid_bias := local_eid_bias m @ [length (global_eid_of m)]\<rparr>;
         (error_models, m) = fold (number_error_model local_gid) (eg_error_models gadget) ([], m);
         m = m\<lparr>local_gid_of := (local_gid_of m)(eg_gid gadget \<mapsto> local_gid), global_gid_of := global_gid_of m @ [eg_gid gadget]\<rparr>
     in (m, local_gadgets @ [gadget\<lparr>eg_gid := local_gid, eg_check_model := check_model, eg_error_models := error_models\<rparr>],
         count_checks))"

text \<open>References to identifiers outside the program are dropped.\<close>

definition local_connector :: "relative_mapping \<Rightarrow> connector option \<Rightarrow> connector option" where
  "local_connector m connector = (case connector of None \<Rightarrow> None
     | Some c \<Rightarrow> (case local_gid_of m (con_gid c) of Some local_gid \<Rightarrow> Some (c\<lparr>con_gid := local_gid\<rparr>) | None \<Rightarrow> None))"

definition local_id :: "(nat \<rightharpoonup> nat) \<Rightarrow> nat option \<Rightarrow> nat option" where
  "local_id local_of i = (case i of None \<Rightarrow> None | Some global \<Rightarrow> local_of global)"

definition localize_gadget :: "relative_mapping \<Rightarrow> expanded_gadget \<Rightarrow> expanded_gadget" where
  "localize_gadget m gadget = gadget\<lparr>
     eg_inputs := map (local_connector m) (eg_inputs gadget),
     eg_outputs := map (local_connector m) (eg_outputs gadget),
     eg_check_model := map_option (\<lambda>c. c\<lparr>ec_remote_gadgets := map (local_id (local_gid_of m)) (ec_remote_gadgets c)\<rparr>)
       (eg_check_model gadget),
     eg_error_models := map (\<lambda>e. e\<lparr>ee_remote_check_models := map (local_id (local_cid_of m)) (ee_remote_check_models e)\<rparr>)
       (eg_error_models gadget)\<rparr>"

definition relative_program_new :: "expanded_gadget list \<Rightarrow> relative_program \<times> relative_mapping" where
  "relative_program_new expanded_gadgets =
     (case fold number_gadget expanded_gadgets (empty_mapping, [], 0) of (m, local_gadgets, count_checks) \<Rightarrow>
        (\<lparr>rp_gadgets = map (localize_gadget m) local_gadgets, rp_count_checks = count_checks\<rparr>, m))"

section \<open>Renaming identifiers\<close>

definition rename_gadget :: "(nat \<Rightarrow> nat) \<Rightarrow> (nat \<Rightarrow> nat) \<Rightarrow> (nat \<Rightarrow> nat) \<Rightarrow> expanded_gadget \<Rightarrow> expanded_gadget" where
  "rename_gadget \<sigma> \<tau> \<mu> g = g\<lparr>eg_gid := \<sigma> (eg_gid g),
     eg_inputs := map (map_option (\<lambda>c. c\<lparr>con_gid := \<sigma> (con_gid c)\<rparr>)) (eg_inputs g),
     eg_outputs := map (map_option (\<lambda>c. c\<lparr>con_gid := \<sigma> (con_gid c)\<rparr>)) (eg_outputs g),
     eg_check_model := map_option (\<lambda>c. c\<lparr>ec_cid := \<tau> (ec_cid c), ec_remote_gadgets := map (map_option \<sigma>) (ec_remote_gadgets c)\<rparr>)
       (eg_check_model g),
     eg_error_models := map (\<lambda>e. e\<lparr>ee_eid := \<mu> (ee_eid e), ee_remote_check_models := map (map_option \<tau>) (ee_remote_check_models e)\<rparr>)
       (eg_error_models g)\<rparr>"

text \<open>Renaming the references of a gadget whose own identifiers are already local.\<close>

definition rename_references :: "(nat \<Rightarrow> nat) \<Rightarrow> (nat \<Rightarrow> nat) \<Rightarrow> expanded_gadget \<Rightarrow> expanded_gadget" where
  "rename_references \<sigma> \<tau> g = g\<lparr>
     eg_inputs := map (map_option (\<lambda>c. c\<lparr>con_gid := \<sigma> (con_gid c)\<rparr>)) (eg_inputs g),
     eg_outputs := map (map_option (\<lambda>c. c\<lparr>con_gid := \<sigma> (con_gid c)\<rparr>)) (eg_outputs g),
     eg_check_model := map_option (\<lambda>c. c\<lparr>ec_remote_gadgets := map (map_option \<sigma>) (ec_remote_gadgets c)\<rparr>) (eg_check_model g),
     eg_error_models := map (\<lambda>e. e\<lparr>ee_remote_check_models := map (map_option \<tau>) (ee_remote_check_models e)\<rparr>) (eg_error_models g)\<rparr>"

definition renamed_mapping :: "(nat \<Rightarrow> nat) \<Rightarrow> (nat \<Rightarrow> nat) \<Rightarrow> (nat \<Rightarrow> nat) \<Rightarrow> relative_mapping \<Rightarrow> relative_mapping \<Rightarrow> bool" where
  "renamed_mapping \<sigma> \<tau> \<mu> m m' \<longleftrightarrow>
     (\<forall>x. local_gid_of m' (\<sigma> x) = local_gid_of m x) \<and> global_gid_of m' = map \<sigma> (global_gid_of m) \<and>
     (\<forall>x. local_cid_of m' (\<tau> x) = local_cid_of m x) \<and> global_cid_of m' = map \<tau> (global_cid_of m) \<and>
     global_eid_of m' = map \<mu> (global_eid_of m) \<and> local_gid_of_local_eid m' = local_gid_of_local_eid m \<and>
     start_indices m' = start_indices m \<and> local_eid_bias m' = local_eid_bias m"

definition renamed_state :: "(nat \<Rightarrow> nat) \<Rightarrow> (nat \<Rightarrow> nat) \<Rightarrow> (nat \<Rightarrow> nat) \<Rightarrow> relative_mapping \<times> expanded_gadget list \<times> nat \<Rightarrow>
    relative_mapping \<times> expanded_gadget list \<times> nat \<Rightarrow> bool" where
  "renamed_state \<sigma> \<tau> \<mu> s s' \<longleftrightarrow> renamed_mapping \<sigma> \<tau> \<mu> (fst s) (fst s') \<and>
     fst (snd s') = map (rename_references \<sigma> \<tau>) (fst (snd s)) \<and> snd (snd s') = snd (snd s)"

lemma number_error_models_rename:
  assumes "renamed_mapping \<sigma> \<tau> \<mu> m m'" "fold (number_error_model k) es (acc, m) = (ls, n)"
    "fold (number_error_model k) (map (\<lambda>e. e\<lparr>ee_eid := \<mu> (ee_eid e), ee_remote_check_models := map (map_option \<tau>) (ee_remote_check_models e)\<rparr>) es)
      (map (\<lambda>e. e\<lparr>ee_remote_check_models := map (map_option \<tau>) (ee_remote_check_models e)\<rparr>) acc, m') = (ls', n')"
  shows "renamed_mapping \<sigma> \<tau> \<mu> n n' \<and> ls' = map (\<lambda>e. e\<lparr>ee_remote_check_models := map (map_option \<tau>) (ee_remote_check_models e)\<rparr>) ls"
  using assms
proof (induction es arbitrary: acc m m')
  case Nil
  then show ?case by simp
next
  case (Cons e es)
  let ?r = "\<lambda>e. e\<lparr>ee_remote_check_models := map (map_option \<tau>) (ee_remote_check_models e)\<rparr>"
  let ?e = "e\<lparr>ee_eid := \<mu> (ee_eid e), ee_remote_check_models := map (map_option \<tau>) (ee_remote_check_models e)\<rparr>"
  obtain acc1 m1 where 1: "number_error_model k e (acc, m) = (acc1, m1)" by fastforce
  obtain acc1' m1' where b: "number_error_model k ?e (map ?r acc, m') = (acc1', m1')" by fastforce
  have "renamed_mapping \<sigma> \<tau> \<mu> m1 m1'" "acc1' = map ?r acc1"
    using 1 b Cons.prems(1) by (auto simp: number_error_model_def renamed_mapping_def Let_def)
  with Cons.IH [of m1 m1' acc1] Cons.prems(2,3) 1 b show ?case by simp
qed

lemma number_gadget_rename:
  assumes "inj \<sigma>" "inj \<tau>" "renamed_state \<sigma> \<tau> \<mu> s s'"
  shows "renamed_state \<sigma> \<tau> \<mu> (number_gadget g s) (number_gadget (rename_gadget \<sigma> \<tau> \<mu> g) s')"
proof -
  obtain m ls c where s: "s = (m, ls, c)" by (cases s)
  obtain m' where s': "s' = (m', map (rename_references \<sigma> \<tau>) ls, c)" and r: "renamed_mapping \<sigma> \<tau> \<mu> m m'"
    using assms(3) by (cases s') (auto simp: renamed_state_def s)
  have \<sigma>: "\<sigma> x = \<sigma> y \<longleftrightarrow> x = y" and \<tau>: "\<tau> x = \<tau> y \<longleftrightarrow> x = y" for x y using assms(1,2) by (simp_all add: inj_eq)
  let ?k = "length (global_gid_of m)"
  let ?g = "rename_gadget \<sigma> \<tau> \<mu> g"
  let ?check = "\<lambda>g m. case eg_check_model g of None \<Rightarrow> (None, m, c)
      | Some check_model \<Rightarrow> (case number_check_model check_model (m, c) of (c, s) \<Rightarrow> (Some c, s))"
  obtain cm m1 c1 where 1: "?check g m = (cm, m1, c1)" by (metis prod_cases3)
  obtain cm' m1' c1' where b1: "?check ?g m' = (cm', m1', c1')" by (metis prod_cases3)
  have k: "length (global_gid_of m') = ?k" using r by (simp add: renamed_mapping_def)
  have r1: "renamed_mapping \<sigma> \<tau> \<mu> m1 m1'" "c1' = c1"
      "cm' = map_option (\<lambda>c. c\<lparr>ec_remote_gadgets := map (map_option \<sigma>) (ec_remote_gadgets c)\<rparr>) cm"
      "global_gid_of m1 = global_gid_of m"
    using 1 b1 r \<tau> by (auto simp: rename_gadget_def number_check_model_def renamed_mapping_def Let_def split: option.splits)
  let ?m1 = "m1\<lparr>local_eid_bias := local_eid_bias m1 @ [length (global_eid_of m1)]\<rparr>"
  let ?m1' = "m1'\<lparr>local_eid_bias := local_eid_bias m1' @ [length (global_eid_of m1')]\<rparr>"
  have r2: "renamed_mapping \<sigma> \<tau> \<mu> ?m1 ?m1'" using r1(1) by (simp add: renamed_mapping_def)
  obtain es m2 where 2: "fold (number_error_model ?k) (eg_error_models g) ([], ?m1) = (es, m2)" by fastforce
  obtain es' m2' where b2: "fold (number_error_model ?k) (eg_error_models ?g) ([], ?m1') = (es', m2')" by fastforce
  have r3: "renamed_mapping \<sigma> \<tau> \<mu> m2 m2'" "es' = map (\<lambda>e. e\<lparr>ee_remote_check_models := map (map_option \<tau>) (ee_remote_check_models e)\<rparr>) es"
    using number_error_models_rename [OF r2 2] b2 by (simp_all add: rename_gadget_def)
  have s1: "number_gadget g s = (m2\<lparr>local_gid_of := (local_gid_of m2)(eg_gid g \<mapsto> ?k), global_gid_of := global_gid_of m2 @ [eg_gid g]\<rparr>,
      ls @ [g\<lparr>eg_gid := ?k, eg_check_model := cm, eg_error_models := es\<rparr>], c1)"
    unfolding number_gadget_def s Let_def prod.case 1 2 by simp
  have s2: "number_gadget ?g s' = (m2'\<lparr>local_gid_of := (local_gid_of m2')(\<sigma> (eg_gid g) \<mapsto> ?k), global_gid_of := global_gid_of m2' @ [\<sigma> (eg_gid g)]\<rparr>,
      map (rename_references \<sigma> \<tau>) ls @ [?g\<lparr>eg_gid := ?k, eg_check_model := cm', eg_error_models := es'\<rparr>], c1)"
    unfolding number_gadget_def s' Let_def prod.case b1 k b2 by (simp add: rename_gadget_def r1(2))
  show ?thesis unfolding s1 s2 renamed_state_def fst_conv snd_conv
    using r3 r1(3) \<sigma> by (auto simp: renamed_mapping_def rename_references_def rename_gadget_def)
qed

lemma number_gadgets_rename:
  assumes "inj \<sigma>" "inj \<tau>" "renamed_state \<sigma> \<tau> \<mu> s s'"
  shows "renamed_state \<sigma> \<tau> \<mu> (fold number_gadget gs s) (fold number_gadget (map (rename_gadget \<sigma> \<tau> \<mu>) gs) s')"
  using assms(3) by (induction gs arbitrary: s s') (simp_all add: number_gadget_rename [OF assms(1,2)])

lemma localize_renamed:
  assumes "renamed_mapping \<sigma> \<tau> \<mu> m m'"
  shows "localize_gadget m' (rename_references \<sigma> \<tau> g) = localize_gadget m g"
proof -
  have c: "local_connector m' (map_option (\<lambda>c. c\<lparr>con_gid := \<sigma> (con_gid c)\<rparr>) x) = local_connector m x" for x
    using assms by (cases x) (auto simp: local_connector_def renamed_mapping_def split: option.splits)
  have g: "local_id (local_gid_of m') (map_option \<sigma> x) = local_id (local_gid_of m) x"
    and e: "local_id (local_cid_of m') (map_option \<tau> x) = local_id (local_cid_of m) x" for x
    using assms by (cases x; simp add: local_id_def renamed_mapping_def)+
  show ?thesis
    by (simp add: localize_gadget_def rename_references_def comp_def c g e option.map_comp)
qed

lemma relative_program_run:
  assumes "inj \<sigma>" "inj \<tau>"
  shows "fst (relative_program_new (map (rename_gadget \<sigma> \<tau> \<mu>) gs)) = fst (relative_program_new gs) \<and>
    renamed_mapping \<sigma> \<tau> \<mu> (snd (relative_program_new gs)) (snd (relative_program_new (map (rename_gadget \<sigma> \<tau> \<mu>) gs)))"
proof -
  have "renamed_state \<sigma> \<tau> \<mu> (empty_mapping, [], 0) (empty_mapping, [], 0)"
    by (simp add: renamed_state_def renamed_mapping_def empty_mapping_def)
  note n = number_gadgets_rename [OF assms this, of gs]
  obtain m ls c where 1: "fold number_gadget gs (empty_mapping, [], 0) = (m, ls, c)" by (metis prod_cases3)
  obtain m' ls' c' where 2: "fold number_gadget (map (rename_gadget \<sigma> \<tau> \<mu>) gs) (empty_mapping, [], 0) = (m', ls', c')" by (metis prod_cases3)
  have r: "renamed_mapping \<sigma> \<tau> \<mu> m m'" "ls' = map (rename_references \<sigma> \<tau>) ls" "c' = c"
    using n unfolding 1 2 by (simp_all add: renamed_state_def)
  then show ?thesis by (simp add: relative_program_new_def 1 2 comp_def localize_renamed)
qed

section \<open>Translating back\<close>

definition check_models :: "expanded_gadget list \<Rightarrow> expanded_check_model list" where
  "check_models gs = concat (map (\<lambda>g. case eg_check_model g of None \<Rightarrow> [] | Some c \<Rightarrow> [c]) gs)"

definition error_models :: "expanded_gadget list \<Rightarrow> expanded_error_model list" where
  "error_models gs = concat (map eg_error_models gs)"

definition program_cids :: "expanded_gadget list \<Rightarrow> nat list" where
  "program_cids gs = map ec_cid (check_models gs)"

definition program_eids :: "expanded_gadget list \<Rightarrow> nat list" where
  "program_eids gs = map ee_eid (error_models gs)"

text \<open>A map from identifiers to positions, inverse to a list.\<close>

definition numbers :: "(nat \<rightharpoonup> nat) \<Rightarrow> nat list \<Rightarrow> bool" where
  "numbers L G \<longleftrightarrow> dom L = set G \<and> (\<forall>k < length G. L (G ! k) = Some k)"

lemma numbers_None: "numbers L G \<Longrightarrow> L y = None \<longleftrightarrow> y \<notin> set G"
  unfolding numbers_def by (metis domIff)

lemma numbers_snoc: "numbers L G \<Longrightarrow> x \<notin> set G \<Longrightarrow> numbers (L(x \<mapsto> length G)) (G @ [x])"
  by (auto simp: numbers_def nth_append less_Suc_eq)

lemma numbersD: "numbers L G \<Longrightarrow> L x = Some k \<Longrightarrow> k < length G \<and> G ! k = x"
  unfolding numbers_def by (metis domI in_set_conv_nth option.inject)

text \<open>Only the own identifiers of a gadget are translated back.\<close>

definition restore_ids :: "relative_mapping \<Rightarrow> expanded_gadget \<Rightarrow> expanded_gadget" where
  "restore_ids m g = g\<lparr>eg_gid := global_gid_of m ! eg_gid g,
     eg_check_model := map_option (\<lambda>c. c\<lparr>ec_cid := global_cid_of m ! ec_cid c\<rparr>) (eg_check_model g),
     eg_error_models := map (\<lambda>e. e\<lparr>ee_eid := global_eid_of m ! ee_eid e\<rparr>) (eg_error_models g)\<rparr>"

definition ids_bounded :: "relative_mapping \<Rightarrow> expanded_gadget \<Rightarrow> bool" where
  "ids_bounded m g \<longleftrightarrow> eg_gid g < length (global_gid_of m) \<and>
     (\<forall>c. eg_check_model g = Some c \<longrightarrow> ec_cid c < length (global_cid_of m)) \<and>
     (\<forall>e \<in> set (eg_error_models g). ee_eid e < length (global_eid_of m))"

text \<open>The numbers handed out by a prefix of the program.\<close>

definition numbered :: "expanded_gadget list \<Rightarrow> relative_mapping \<times> expanded_gadget list \<times> nat \<Rightarrow> bool" where
  "numbered gs s \<longleftrightarrow> (case s of (m, ls, c) \<Rightarrow>
     global_gid_of m = map eg_gid gs \<and> global_cid_of m = program_cids gs \<and> global_eid_of m = program_eids gs \<and>
     numbers (local_gid_of m) (global_gid_of m) \<and> numbers (local_cid_of m) (global_cid_of m) \<and>
     numbers (local_eid_of m) (global_eid_of m) \<and>
     c = sum_list (map ec_count_checks (check_models gs)) \<and>
     start_indices m = map (\<lambda>k. sum_list (map ec_count_checks (take k (check_models gs)))) [0..<length (check_models gs)] \<and>
     local_eid_bias m = map (\<lambda>k. length (error_models (take k gs))) [0..<length gs] \<and>
     local_gid_of_local_eid m = concat (map (\<lambda>k. replicate (length (eg_error_models (gs ! k))) k) [0..<length gs]) \<and>
     map (restore_ids m) ls = gs \<and> (\<forall>l \<in> set ls. ids_bounded m l))"

lemma restore_ids_extend:
  assumes "ids_bounded m g" "global_gid_of m' = global_gid_of m @ a" "global_cid_of m' = global_cid_of m @ b"
    "global_eid_of m' = global_eid_of m @ d"
  shows "restore_ids m' g = restore_ids m g" "ids_bounded m' g"
proof -
  have "map_option (\<lambda>c. c\<lparr>ec_cid := global_cid_of m' ! ec_cid c\<rparr>) (eg_check_model g) =
      map_option (\<lambda>c. c\<lparr>ec_cid := global_cid_of m ! ec_cid c\<rparr>) (eg_check_model g)"
    using assms(1,3) by (cases "eg_check_model g") (simp_all add: ids_bounded_def nth_append)
  moreover have "map (\<lambda>e. e\<lparr>ee_eid := global_eid_of m' ! ee_eid e\<rparr>) (eg_error_models g) =
      map (\<lambda>e. e\<lparr>ee_eid := global_eid_of m ! ee_eid e\<rparr>) (eg_error_models g)"
    using assms(1,4) by (simp add: ids_bounded_def nth_append)
  ultimately show "restore_ids m' g = restore_ids m g"
    using assms(1,2) by (simp only: restore_ids_def) (simp add: ids_bounded_def nth_append)
  show "ids_bounded m' g" using assms by (auto simp: ids_bounded_def)
qed

lemma number_error_models_run:
  assumes "numbers (local_eid_of m) (global_eid_of m)" "distinct (map ee_eid es)" "set (map ee_eid es) \<inter> set (global_eid_of m) = {}"
    "fold (number_error_model k) es (acc, m) = (ls, n)"
  shows "\<exists>new. ls = acc @ new \<and> global_eid_of n = global_eid_of m @ map ee_eid es \<and> numbers (local_eid_of n) (global_eid_of n) \<and>
    n = m\<lparr>local_eid_of := local_eid_of n, global_eid_of := global_eid_of n,
      local_gid_of_local_eid := local_gid_of_local_eid m @ replicate (length es) k\<rparr> \<and>
    map (\<lambda>e. e\<lparr>ee_eid := global_eid_of n ! ee_eid e\<rparr>) new = es \<and> (\<forall>e \<in> set new. ee_eid e < length (global_eid_of n))"
  using assms
proof (induction es arbitrary: acc m)
  case Nil
  then show ?case by simp
next
  case (Cons e es)
  let ?m = "m\<lparr>local_eid_of := (local_eid_of m)(ee_eid e \<mapsto> length (global_eid_of m)), global_eid_of := global_eid_of m @ [ee_eid e],
    local_gid_of_local_eid := local_gid_of_local_eid m @ [k]\<rparr>"
  let ?l = "e\<lparr>ee_eid := length (global_eid_of m)\<rparr>"
  have step: "fold (number_error_model k) es (acc @ [?l], ?m) = (ls, n)"
    using Cons.prems(4) number_error_model_def [of k e "(acc, m)"] by (simp add: Let_def)
  have n: "numbers (local_eid_of ?m) (global_eid_of ?m)" using numbers_snoc [OF Cons.prems(1), of "ee_eid e"] Cons.prems(3) by simp
  have d: "distinct (map ee_eid es)" "set (map ee_eid es) \<inter> set (global_eid_of ?m) = {}" using Cons.prems(2,3) by auto
  from Cons.IH [OF n d step] obtain new where IH: "ls = (acc @ [?l]) @ new" "global_eid_of n = global_eid_of ?m @ map ee_eid es"
      "numbers (local_eid_of n) (global_eid_of n)" "n = ?m\<lparr>local_eid_of := local_eid_of n, global_eid_of := global_eid_of n,
      local_gid_of_local_eid := local_gid_of_local_eid ?m @ replicate (length es) k\<rparr>"
      "map (\<lambda>e. e\<lparr>ee_eid := global_eid_of n ! ee_eid e\<rparr>) new = es" "\<forall>e \<in> set new. ee_eid e < length (global_eid_of n)" by (elim exE conjE)
  have "map (\<lambda>e. e\<lparr>ee_eid := global_eid_of n ! ee_eid e\<rparr>) (?l # new) = e # es" using IH(2,5) by (simp add: nth_append)
  moreover have "\<forall>e \<in> set (?l # new). ee_eid e < length (global_eid_of n)" using IH(2,6) by simp
  moreover have "n = m\<lparr>local_eid_of := local_eid_of n, global_eid_of := global_eid_of n,
      local_gid_of_local_eid := local_gid_of_local_eid m @ replicate (length (e # es)) k\<rparr>" using IH(4) by simp
  ultimately show ?case using IH(1,2,3) by (intro exI [of _ "?l # new"]) simp
qed

lemma number_check_run:
  assumes "numbers (local_cid_of m) (global_cid_of m)" "\<forall>c. eg_check_model g = Some c \<longrightarrow> ec_cid c \<notin> set (global_cid_of m)"
    "(case eg_check_model g of None \<Rightarrow> (None, m, count)
      | Some check_model \<Rightarrow> (case number_check_model check_model (m, count) of (c, s) \<Rightarrow> (Some c, s))) = (cm, n, count')"
  shows "global_cid_of n = global_cid_of m @ map ec_cid (check_models [g]) \<and> numbers (local_cid_of n) (global_cid_of n) \<and>
    n = m\<lparr>local_cid_of := local_cid_of n, global_cid_of := global_cid_of n,
      start_indices := start_indices m @ (if eg_check_model g = None then [] else [count])\<rparr> \<and>
    count' = count + sum_list (map ec_count_checks (check_models [g])) \<and>
    map_option (\<lambda>c. c\<lparr>ec_cid := global_cid_of n ! ec_cid c\<rparr>) cm = eg_check_model g \<and>
    (\<forall>c. cm = Some c \<longrightarrow> ec_cid c < length (global_cid_of n))"
proof (cases "eg_check_model g")
  case None
  with assms show ?thesis by (simp add: check_models_def)
next
  case (Some c)
  with assms(3) have n: "n = m\<lparr>local_cid_of := (local_cid_of m)(ec_cid c \<mapsto> length (global_cid_of m)),
      global_cid_of := global_cid_of m @ [ec_cid c], start_indices := start_indices m @ [count]\<rparr>"
    and cm: "cm = Some (c\<lparr>ec_cid := length (global_cid_of m)\<rparr>)" "count' = count + ec_count_checks c"
    by (auto simp: number_check_model_def Let_def)
  have "numbers (local_cid_of n) (global_cid_of n)" using numbers_snoc [OF assms(1)] assms(2) Some by (simp add: n)
  with Some cm show ?thesis by (simp add: check_models_def n nth_append)
qed

lemma check_models_snoc: "check_models (gs @ [g]) = check_models gs @ check_models [g]"
  by (simp add: check_models_def)

lemma error_models_snoc: "error_models (gs @ [g]) = error_models gs @ eg_error_models g"
  by (simp add: error_models_def)

lemma prefix_sums_snoc: "length ys \<le> 1 \<Longrightarrow> map (\<lambda>k. sum_list (map f (take k (xs @ ys)))) [0..<length (xs @ ys)] =
    map (\<lambda>k. sum_list (map f (take k xs))) [0..<length xs] @ (if ys = [] then [] else [sum_list (map f xs)])"
  by (cases ys) auto

lemma numbered_step:
  assumes "numbered gs s" "eg_gid g \<notin> set (map eg_gid gs)" "\<forall>c. eg_check_model g = Some c \<longrightarrow> ec_cid c \<notin> set (program_cids gs)"
    "distinct (map ee_eid (eg_error_models g))" "set (map ee_eid (eg_error_models g)) \<inter> set (program_eids gs) = {}"
  shows "numbered (gs @ [g]) (number_gadget g s)"
proof -
  obtain m ls count where s: "s = (m, ls, count)" by (cases s)
  note inv = assms(1) [unfolded numbered_def s prod.case]
  let ?k = "length (global_gid_of m)"
  obtain cm m1 count1 where 1: "(case eg_check_model g of None \<Rightarrow> (None, m, count)
      | Some check_model \<Rightarrow> (case number_check_model check_model (m, count) of (c, s) \<Rightarrow> (Some c, s))) = (cm, m1, count1)"
    by (metis prod_cases3)
  have cids: "numbers (local_cid_of m) (global_cid_of m)" "\<forall>c. eg_check_model g = Some c \<longrightarrow> ec_cid c \<notin> set (global_cid_of m)"
    using inv assms(3) by auto
  note c = number_check_run [OF cids 1]
  let ?m1 = "m1\<lparr>local_eid_bias := local_eid_bias m1 @ [length (global_eid_of m1)]\<rparr>"
  have upd: "m1 = m\<lparr>local_cid_of := local_cid_of m1, global_cid_of := global_cid_of m1,
      start_indices := start_indices m @ (if eg_check_model g = None then [] else [count])\<rparr>" using c by blast
  have m1: "global_gid_of m1 = global_gid_of m" "local_gid_of m1 = local_gid_of m" "global_eid_of m1 = global_eid_of m"
      "local_eid_of m1 = local_eid_of m" "local_eid_bias m1 = local_eid_bias m" "local_gid_of_local_eid m1 = local_gid_of_local_eid m"
      "start_indices m1 = start_indices m @ (if eg_check_model g = None then [] else [count])"
    by (subst upd, simp)+
  obtain es m2 where 2: "fold (number_error_model ?k) (eg_error_models g) ([], ?m1) = (es, m2)" by fastforce
  have eids: "numbers (local_eid_of ?m1) (global_eid_of ?m1)" "set (map ee_eid (eg_error_models g)) \<inter> set (global_eid_of ?m1) = {}"
    using inv assms(5) m1 by auto
  note e = number_error_models_run [OF eids(1) assms(4) eids(2) 2]
  obtain new where new: "es = new" "global_eid_of m2 = global_eid_of m @ map ee_eid (eg_error_models g)"
      "numbers (local_eid_of m2) (global_eid_of m2)" "m2 = ?m1\<lparr>local_eid_of := local_eid_of m2, global_eid_of := global_eid_of m2,
      local_gid_of_local_eid := local_gid_of_local_eid m @ replicate (length (eg_error_models g)) ?k\<rparr>"
      "map (\<lambda>e. e\<lparr>ee_eid := global_eid_of m2 ! ee_eid e\<rparr>) new = eg_error_models g"
      "\<forall>e \<in> set new. ee_eid e < length (global_eid_of m2)"
    using e by (elim exE conjE) (simp add: m1)
  have m2: "global_gid_of m2 = global_gid_of m" "local_gid_of m2 = local_gid_of m" "global_cid_of m2 = global_cid_of m1"
      "local_cid_of m2 = local_cid_of m1" "start_indices m2 = start_indices m1"
      "local_eid_bias m2 = local_eid_bias m @ [length (global_eid_of m)]"
      "local_gid_of_local_eid m2 = local_gid_of_local_eid m @ replicate (length (eg_error_models g)) ?k"
    by (subst new(4), simp add: m1)+
  let ?m = "m2\<lparr>local_gid_of := (local_gid_of m2)(eg_gid g \<mapsto> ?k), global_gid_of := global_gid_of m2 @ [eg_gid g]\<rparr>"
  let ?l = "g\<lparr>eg_gid := ?k, eg_check_model := cm, eg_error_models := es\<rparr>"
  have run: "number_gadget g s = (?m, ls @ [?l], count1)"
    unfolding number_gadget_def s Let_def prod.case 1 2 by simp
  have ext: "global_gid_of ?m = global_gid_of m @ [eg_gid g]" "global_cid_of ?m = global_cid_of m @ map ec_cid (check_models [g])"
      "global_eid_of ?m = global_eid_of m @ map ee_eid (eg_error_models g)"
    using c m2 new(2) by simp_all
  have old: "restore_ids ?m l = restore_ids m l \<and> ids_bounded ?m l" if "l \<in> set ls" for l
    using restore_ids_extend [OF _ ext] inv that by blast
  have cm: "map_option (\<lambda>c. c\<lparr>ec_cid := global_cid_of m1 ! ec_cid c\<rparr>) cm = eg_check_model g"
      "\<forall>c. cm = Some c \<longrightarrow> ec_cid c < length (global_cid_of m1)"
      "count1 = count + sum_list (map ec_count_checks (check_models [g]))" "numbers (local_cid_of m1) (global_cid_of m1)"
    using c by blast+
  have "restore_ids ?m ?l = g" by (simp add: restore_ids_def m2(1,3) cm(1) new(1,5))
  moreover have "ids_bounded ?m ?l" using cm(2) new(1,6) by (simp add: ids_bounded_def m2(1,3))
  moreover have "map (restore_ids ?m) ls = gs" using inv old by (metis (no_types, lifting) map_cong)
  moreover have "numbers (local_gid_of ?m) (global_gid_of ?m)"
    using numbers_snoc [of "local_gid_of m" "global_gid_of m" "eg_gid g"] inv assms(2) m2 by auto
  moreover have "numbers (local_cid_of ?m) (global_cid_of ?m)" using cm(4) by (simp add: m2(3,4))
  moreover have "numbers (local_eid_of ?m) (global_eid_of ?m)" using new(3) by simp
  moreover have "start_indices ?m = map (\<lambda>k. sum_list (map ec_count_checks (take k (check_models (gs @ [g]))))) [0..<length (check_models (gs @ [g]))]"
    using prefix_sums_snoc [of "check_models [g]" ec_count_checks "check_models gs"] inv m2(5) m1(7)
    by (simp add: check_models_snoc) (simp add: check_models_def split: option.splits)
  moreover have "local_eid_bias ?m = map (\<lambda>k. length (error_models (take k (gs @ [g])))) [0..<length (gs @ [g])]"
    using inv m2(6) by (simp add: program_eids_def)
  moreover have same: "map (\<lambda>k. replicate (length (eg_error_models ((gs @ [g]) ! k))) k) [0..<length gs] =
      map (\<lambda>k. replicate (length (eg_error_models (gs ! k))) k) [0..<length gs]"
    by (rule map_cong) (simp_all add: nth_append)
  have "local_gid_of_local_eid ?m = concat (map (\<lambda>k. replicate (length (eg_error_models ((gs @ [g]) ! k))) k) [0..<length (gs @ [g])])"
    using inv m2(7) by (simp add: same del: map_eq_conv)
  moreover have "global_gid_of ?m = map eg_gid (gs @ [g])" "global_cid_of ?m = program_cids (gs @ [g])"
      "global_eid_of ?m = program_eids (gs @ [g])" "count1 = sum_list (map ec_count_checks (check_models (gs @ [g])))"
    using inv ext cm(3) by (simp_all add: program_cids_def program_eids_def check_models_snoc error_models_snoc)
  ultimately show ?thesis unfolding run numbered_def prod.case using old by (intro conjI) auto
qed

lemma numbered_all:
  assumes "distinct (map eg_gid gs)" "distinct (program_cids gs)" "distinct (program_eids gs)"
  shows "numbered gs (fold number_gadget gs (empty_mapping, [], 0))"
  using assms
proof (induction gs rule: rev_induct)
  case Nil
  then show ?case
    by (simp add: numbered_def empty_mapping_def numbers_def program_cids_def program_eids_def check_models_def error_models_def)
next
  case (snoc g gs)
  have d: "distinct (map eg_gid gs)" "distinct (program_cids gs)" "distinct (program_eids gs)"
      "eg_gid g \<notin> set (map eg_gid gs)" "\<forall>c. eg_check_model g = Some c \<longrightarrow> ec_cid c \<notin> set (program_cids gs)"
      "distinct (map ee_eid (eg_error_models g))" "set (map ee_eid (eg_error_models g)) \<inter> set (program_eids gs) = {}"
    using snoc.prems
    by (auto simp: program_cids_def program_eids_def check_models_snoc error_models_snoc) (auto simp: check_models_def)
  from numbered_step [OF snoc.IH [OF d(1-3)] d(4-7)] show ?case by simp
qed

definition globalize_gadget :: "relative_mapping \<Rightarrow> expanded_gadget \<Rightarrow> expanded_gadget" where
  "globalize_gadget m g = (restore_ids m g)\<lparr>
     eg_inputs := map (map_option (\<lambda>c. c\<lparr>con_gid := global_gid_of m ! con_gid c\<rparr>)) (eg_inputs g),
     eg_outputs := map (map_option (\<lambda>c. c\<lparr>con_gid := global_gid_of m ! con_gid c\<rparr>)) (eg_outputs g),
     eg_check_model := map_option (\<lambda>c. c\<lparr>ec_cid := global_cid_of m ! ec_cid c,
         ec_remote_gadgets := map (map_option ((!) (global_gid_of m))) (ec_remote_gadgets c)\<rparr>) (eg_check_model g),
     eg_error_models := map (\<lambda>e. e\<lparr>ee_eid := global_eid_of m ! ee_eid e,
         ee_remote_check_models := map (map_option ((!) (global_cid_of m))) (ee_remote_check_models e)\<rparr>) (eg_error_models g)\<rparr>"

definition keep_if :: "('a \<Rightarrow> bool) \<Rightarrow> 'a option \<Rightarrow> 'a option" where
  "keep_if known x = (case x of Some y \<Rightarrow> if known y then Some y else None | None \<Rightarrow> None)"

definition drop_unknown :: "nat set \<Rightarrow> nat set \<Rightarrow> expanded_gadget \<Rightarrow> expanded_gadget" where
  "drop_unknown gids cids g = g\<lparr>
     eg_inputs := map (keep_if (\<lambda>c. con_gid c \<in> gids)) (eg_inputs g),
     eg_outputs := map (keep_if (\<lambda>c. con_gid c \<in> gids)) (eg_outputs g),
     eg_check_model := map_option (\<lambda>c. c\<lparr>ec_remote_gadgets := map (keep_if (\<lambda>x. x \<in> gids)) (ec_remote_gadgets c)\<rparr>) (eg_check_model g),
     eg_error_models := map (\<lambda>e. e\<lparr>ee_remote_check_models := map (keep_if (\<lambda>x. x \<in> cids)) (ee_remote_check_models e)\<rparr>) (eg_error_models g)\<rparr>"

lemma globalize_localized:
  assumes "numbers (local_gid_of m) (global_gid_of m)" "numbers (local_cid_of m) (global_cid_of m)"
  shows "globalize_gadget m (localize_gadget m l) = drop_unknown (set (global_gid_of m)) (set (global_cid_of m)) (restore_ids m l)"
proof -
  have id: "map_option ((!) G) (local_id L x) = keep_if (\<lambda>x. x \<in> set G) x" if n: "numbers L G" for L G x
  proof (cases x)
    case (Some y)
    show ?thesis using numbersD [OF n, of y] numbers_None [OF n, of y] by (cases "L y") (auto simp: Some local_id_def keep_if_def)
  qed (simp add: local_id_def keep_if_def)
  have c: "map_option (\<lambda>c. c\<lparr>con_gid := global_gid_of m ! con_gid c\<rparr>) (local_connector m x) = keep_if (\<lambda>c. con_gid c \<in> set (global_gid_of m)) x" for x
  proof (cases x)
    case (Some c)
    show ?thesis using numbersD [OF assms(1), of "con_gid c"] numbers_None [OF assms(1), of "con_gid c"]
      by (cases "local_gid_of m (con_gid c)") (auto simp: Some local_connector_def keep_if_def)
  qed (simp add: local_connector_def keep_if_def)
  show ?thesis
    by (simp add: globalize_gadget_def localize_gadget_def drop_unknown_def restore_ids_def comp_def c
        id [OF assms(1)] id [OF assms(2)] option.map_comp)
qed

text \<open>C35. Programs that differ only in their identifiers have the same relative program, whatever injective
  renaming of gadgets and check models (and any renaming of error models) connects them, and their
  mappings correspond; a decoder prepared for one serves the other.\<close>

theorem relative_program_renamed:
  assumes "inj \<sigma>" "inj \<tau>"
  shows "fst (relative_program_new (map (rename_gadget \<sigma> \<tau> \<mu>) gs)) = fst (relative_program_new gs) \<and>
    renamed_mapping \<sigma> \<tau> \<mu> (snd (relative_program_new gs)) (snd (relative_program_new (map (rename_gadget \<sigma> \<tau> \<mu>) gs)))"
  by (rule relative_program_run [OF assms])

theorem relative_program_renamed_witness:
  "fst (relative_program_new (map (rename_gadget (\<lambda>x. x + 5) (\<lambda>x. x + 7) (\<lambda>_. 0))
      [\<lparr>eg_gid = 3, eg_gtype = 1, eg_inputs = [], eg_outputs = [Some \<lparr>con_gid = 3, con_port = 0\<rparr>], eg_check_model = None, eg_error_models = []\<rparr>])) =
    fst (relative_program_new
      [\<lparr>eg_gid = 3, eg_gtype = 1, eg_inputs = [], eg_outputs = [Some \<lparr>con_gid = 3, con_port = 0\<rparr>], eg_check_model = None, eg_error_models = []\<rparr>])"
  by (rule relative_program_renamed [THEN conjunct1]) (simp_all add: inj_on_def)

text \<open>C36. When the identifiers of a program are distinct, translating its relative program back with the
  mapping gives the program, less the references to identifiers outside it; the check count and the tables
  for syndromes and error models are the running totals they stand for.\<close>

theorem relative_program_translates_back:
  assumes "distinct (map eg_gid gs)" "distinct (program_cids gs)" "distinct (program_eids gs)"
    and "relative_program_new gs = (p, m)"
  shows "map (globalize_gadget m) (rp_gadgets p) = map (drop_unknown (eg_gid ` set gs) (set (program_cids gs))) gs \<and>
    rp_count_checks p = sum_list (map ec_count_checks (check_models gs)) \<and>
    start_indices m = map (\<lambda>k. sum_list (map ec_count_checks (take k (check_models gs)))) [0..<length (check_models gs)] \<and>
    local_eid_bias m = map (\<lambda>k. length (error_models (take k gs))) [0..<length gs] \<and>
    local_gid_of_local_eid m = concat (map (\<lambda>k. replicate (length (eg_error_models (gs ! k))) k) [0..<length gs])"
proof -
  obtain ls c where f: "fold number_gadget gs (empty_mapping, [], 0) = (m, ls, c)"
    and p: "p = \<lparr>rp_gadgets = map (localize_gadget m) ls, rp_count_checks = c\<rparr>"
    using assms(4) by (auto simp: relative_program_new_def split: prod.splits)
  note n = numbered_all [OF assms(1-3), unfolded f numbered_def prod.case]
  have "globalize_gadget m (localize_gadget m l) = drop_unknown (set (global_gid_of m)) (set (global_cid_of m)) (restore_ids m l)" for l
    by (rule globalize_localized) (use n in blast)+
  then have "map (globalize_gadget m) (rp_gadgets p) =
      map (drop_unknown (set (global_gid_of m)) (set (global_cid_of m))) (map (restore_ids m) ls)"
    by (simp add: p)
  then have "map (globalize_gadget m) (rp_gadgets p) = map (drop_unknown (eg_gid ` set gs) (set (program_cids gs))) gs"
    using n by (metis set_map)
  with n show ?thesis by (simp add: p)
qed

theorem relative_program_translates_back_witness:
  "\<exists>p m. relative_program_new
      [\<lparr>eg_gid = 3, eg_gtype = 1, eg_inputs = [Some \<lparr>con_gid = 9, con_port = 0\<rparr>], eg_outputs = [], eg_check_model = None, eg_error_models = []\<rparr>] = (p, m) \<and>
    map (globalize_gadget m) (rp_gadgets p) =
      [\<lparr>eg_gid = 3, eg_gtype = 1, eg_inputs = [None], eg_outputs = [], eg_check_model = None, eg_error_models = []\<rparr>]"
proof -
  let ?gs = "[\<lparr>eg_gid = 3, eg_gtype = 1, eg_inputs = [Some \<lparr>con_gid = 9, con_port = 0\<rparr>], eg_outputs = [], eg_check_model = None, eg_error_models = []\<rparr>]"
  obtain p m where r: "relative_program_new ?gs = (p, m)" by fastforce
  from relative_program_translates_back [OF _ _ _ r] have "map (globalize_gadget m) (rp_gadgets p) =
      map (drop_unknown (eg_gid ` set ?gs) (set (program_cids ?gs))) ?gs"
    by (simp add: program_cids_def program_eids_def check_models_def error_models_def)
  with r show ?thesis by (simp add: drop_unknown_def keep_if_def)
qed

end
