(* ===== verification/Symplectic.thy ===== *)
theory Symplectic
  imports Pauli
begin

text \<open>
  The mathematics of Clifford unitaries, without storage: a unitary on \<open>n\<close> qubits is known by the
  preimages of the generators \<open>X\<close> and \<open>Z\<close>, which satisfy the relations of the generators; conjugation
  extends them to an automorphism of the operators on \<open>n\<close> qubits.
\<close>

section \<open>Products in order\<close>

definition pprod :: "(nat \<Rightarrow> pauli_op) \<Rightarrow> nat list \<Rightarrow> pauli_op" where
  "pprod f xs = fold (\<lambda>i P. pmul P (f i)) xs pone"

definition fprod :: "(nat \<Rightarrow> pauli_op) \<Rightarrow> nat set \<Rightarrow> pauli_op" where
  "fprod f A = pprod f (sorted_list_of_set A)"

text \<open>A family of commuting operators of order two.\<close>

definition involutions :: "nat set \<Rightarrow> (nat \<Rightarrow> pauli_op) \<Rightarrow> bool" where
  "involutions S f \<longleftrightarrow> (\<forall>i \<in> S. pfinite (f i) \<and> pmul (f i) (f i) = pone \<and> (\<forall>j \<in> S. \<not> panti (f i) (f j)))"

lemma pfinite_pone [simp]: "pfinite pone"
  by (simp add: pone_def pfinite_def)

lemma panti_pone [simp]: "\<not> panti P pone" "\<not> panti pone P"
  by (cases P; simp add: panti_def pone_def)+

lemma panti_pphase [simp]: "panti (pphase k P) Q = panti P Q" "panti P (pphase k Q) = panti P Q"
  by (cases P; cases Q; simp add: panti_def pphase_def)+

lemma panti_self [simp]: "\<not> panti P P"
  by (cases P) (simp add: panti_def Int_commute)

lemma involutionsD:
  assumes "involutions S f" "i \<in> S" "j \<in> S"
  shows "pfinite (f i)" "pmul (f i) (f i) = pone" "pmul (f i) (f j) = pmul (f j) (f i)"
  using assms panti_iff [of "f i" "f j"] by (auto simp: involutions_def)

lemma pfinite_pprod_from: "pfinite P \<Longrightarrow> \<forall>i \<in> set xs. pfinite (f i) \<Longrightarrow> pfinite (fold (\<lambda>i P. pmul P (f i)) xs P)"
  by (induction xs arbitrary: P) auto

lemma pprod_from:
  assumes "\<forall>i \<in> set xs. pfinite (f i)" "pfinite P"
  shows "fold (\<lambda>i P. pmul P (f i)) xs P = pmul P (pprod f xs)"
  using assms
proof (induction xs arbitrary: P rule: rev_induct)
  case Nil
  then show ?case by (simp add: pprod_def)
next
  case (snoc x xs)
  have "pfinite (pprod f xs)" unfolding pprod_def by (rule pfinite_pprod_from) (use snoc.prems in simp_all)
  moreover have "pprod f (xs @ [x]) = pmul (pprod f xs) (f x)" by (simp add: pprod_def)
  ultimately show ?case using snoc by (simp add: pmul_assoc)
qed

lemma pfinite_pprod [simp]: "\<forall>i \<in> set xs. pfinite (f i) \<Longrightarrow> pfinite (pprod f xs)"
  by (simp add: pprod_def pfinite_pprod_from)

lemma pprod_simps:
  "pprod f [] = pone" "\<forall>i \<in> set (x # xs). pfinite (f i) \<Longrightarrow> pprod f (x # xs) = pmul (f x) (pprod f xs)"
proof -
  show "pprod f [] = pone" by (simp add: pprod_def)
  assume "\<forall>i \<in> set (x # xs). pfinite (f i)"
  then show "pprod f (x # xs) = pmul (f x) (pprod f xs)"
    using pprod_from [of xs f "f x"] by (simp add: pprod_def)
qed

lemma pprod_cong: "(\<And>i. i \<in> set xs \<Longrightarrow> f i = g i) \<Longrightarrow> pprod f xs = pprod g xs"
  unfolding pprod_def by (rule fold_cong) simp_all

lemma fprod_cong: "finite A \<Longrightarrow> (\<And>i. i \<in> A \<Longrightarrow> f i = g i) \<Longrightarrow> fprod f A = fprod g A"
  unfolding fprod_def by (rule pprod_cong) simp

lemma fprod_empty [simp]: "fprod f {} = pone"
  by (simp add: fprod_def pprod_def)

lemma pfinite_fprod: "finite A \<Longrightarrow> \<forall>i \<in> A. pfinite (f i) \<Longrightarrow> pfinite (fprod f A)"
  by (simp add: fprod_def)

lemma pprod_insort:
  assumes "involutions S f" "set (x # xs) \<subseteq> S"
  shows "pprod f (insort x xs) = pmul (f x) (pprod f xs)"
  using assms(2)
proof (induction xs)
  case Nil
  with involutionsD(1) [OF assms(1)] show ?case by (simp add: pprod_simps)
next
  case (Cons y ys)
  have fin: "pfinite (f i)" if "i \<in> S" for i using involutionsD(1) [OF assms(1)] that by blast
  have fy: "\<forall>i \<in> set ys. pfinite (f i)" and p: "pfinite (pprod f ys)" using Cons.prems fin by (auto intro!: pfinite_pprod)
  have comm: "pmul (f y) (f x) = pmul (f x) (f y)" by (rule involutionsD(3) [OF assms(1)]) (use Cons.prems in auto)
  show ?case
  proof (cases "x \<le> y")
    case True
    with Cons.prems fin show ?thesis by (simp add: pprod_simps subset_iff)
  next
    case False
    have "\<forall>i \<in> set (y # insort x ys). pfinite (f i)" using Cons.prems fin by (auto simp: set_insort_key)
    then have "pprod f (insort x (y # ys)) = pmul (f y) (pprod f (insort x ys))" using False by (simp add: pprod_simps)
    also have "\<dots> = pmul (f y) (pmul (f x) (pprod f ys))" using Cons by simp
    also have "\<dots> = pmul (f x) (pmul (f y) (pprod f ys))"
      using comm fin [of x] fin [of y] Cons.prems p by (simp flip: pmul_assoc)
    finally show ?thesis using Cons.prems fin by (simp add: pprod_simps subset_iff)
  qed
qed

lemma fprod_insert:
  assumes "involutions S f" "finite A" "insert i A \<subseteq> S" "i \<notin> A"
  shows "fprod f (insert i A) = pmul (f i) (fprod f A)"
  using pprod_insort [OF assms(1), of i "sorted_list_of_set A"] assms(2-) by (simp add: fprod_def)

lemma fprod_single: "pfinite (f i) \<Longrightarrow> fprod f {i} = f i"
  by (simp add: fprod_def pprod_simps)

lemma panti_fprod:
  assumes "\<forall>i \<in> A. pfinite (f i)" "finite A" "pfinite E"
  shows "panti E (fprod f A) = par {i \<in> A. panti E (f i)}"
proof -
  have "panti E (pprod f xs) = par {i \<in> set xs. panti E (f i)}" if "distinct xs" "\<forall>i \<in> set xs. pfinite (f i)" for xs
    using that
  proof (induction xs)
    case Nil
    then show ?case by (simp add: pprod_simps)
  next
    case (Cons x xs)
    have s: "{i \<in> set (x # xs). panti E (f i)} = (if panti E (f x) then insert x {i \<in> set xs. panti E (f i)} else {i \<in> set xs. panti E (f i)})"
      by auto
    show ?case using Cons assms(3) unfolding s by (simp add: pprod_simps panti_pmul par_def)
  qed
  with assms show ?thesis by (simp add: fprod_def)
qed

lemma fprod_mul:
  assumes inv: "involutions S f" and "finite A" "finite C" "A \<subseteq> S" "C \<subseteq> S"
  shows "pmul (fprod f A) (fprod f C) = fprod f (sym_diff A C)"
  using assms(2,4)
proof (induction A)
  case empty
  then show ?case by simp
next
  case (insert i A)
  let ?D = "sym_diff A C"
  have fin: "pfinite (f j)" if "j \<in> S" for j using involutionsD(1) [OF inv] that by blast
  have fA: "pfinite (fprod f A)" and fC: "pfinite (fprod f C)" using insert assms(3,5) fin by (auto intro!: pfinite_fprod)
  have "pmul (fprod f (insert i A)) (fprod f C) = pmul (f i) (fprod f ?D)"
    using insert fin fA fC fprod_insert [OF inv insert(1,4,2)] by (simp add: pmul_assoc)
  also have "\<dots> = fprod f (sym_diff (insert i A) C)"
  proof (cases "i \<in> C")
    case False
    then have "sym_diff (insert i A) C = insert i ?D" "i \<notin> ?D" using insert by auto
    moreover have "finite ?D" "insert i ?D \<subseteq> S" using insert assms(3,5) by auto
    ultimately show ?thesis using fprod_insert [OF inv, of ?D i] by simp
  next
    case True
    let ?E = "sym_diff (insert i A) C"
    have D: "?D = insert i ?E" "i \<notin> ?E" using True insert by auto
    moreover have "finite ?E" "insert i ?E \<subseteq> S" using insert assms(3,5) True by auto
    ultimately have "fprod f ?D = pmul (f i) (fprod f ?E)" using fprod_insert [OF inv, of ?E i] by simp
    moreover have "pfinite (fprod f ?E)" using insert assms(3,5) fin by (intro pfinite_fprod) auto
    moreover have "pmul (f i) (f i) = pone" "pfinite (f i)" using involutionsD(1,2) [OF inv] insert by auto
    ultimately show ?thesis by (simp flip: pmul_assoc)
  qed
  finally show ?case .
qed

section \<open>Symplectic frames\<close>

text \<open>Operators on \<open>n\<close> qubits.\<close>

definition pauli_on :: "nat \<Rightarrow> pauli_op \<Rightarrow> bool" where
  "pauli_on n P \<longleftrightarrow> fst P \<subseteq> {..<n} \<and> fst (snd P) \<subseteq> {..<n}"

definition symplectic :: "nat \<Rightarrow> (nat \<Rightarrow> pauli_op) \<Rightarrow> (nat \<Rightarrow> pauli_op) \<Rightarrow> bool" where
  "symplectic n fx fz \<longleftrightarrow> (\<forall>i < n. pauli_on n (fx i) \<and> pauli_on n (fz i) \<and>
     pmul (fx i) (fx i) = pone \<and> pmul (fz i) (fz i) = pone \<and>
     (\<forall>j < n. \<not> panti (fx i) (fx j) \<and> \<not> panti (fz i) (fz j) \<and> (panti (fx i) (fz j) \<longleftrightarrow> i = j)))"

text \<open>The operator the preimages of the generators determine.\<close>

definition pre :: "(nat \<Rightarrow> pauli_op) \<Rightarrow> (nat \<Rightarrow> pauli_op) \<Rightarrow> pauli_op \<Rightarrow> pauli_op" where
  "pre fx fz P = pphase (snd (snd P)) (pmul (fprod fx (fst P)) (fprod fz (fst (snd P))))"

lemma pauli_on_finite: "pauli_on n P \<Longrightarrow> pfinite P"
  by (cases P) (auto simp: pauli_on_def pfinite_def intro: finite_subset)

lemma pauli_on_simps [simp]: "pauli_on n pone" "pauli_on n (pphase k P) = pauli_on n P"
    "i < n \<Longrightarrow> pauli_on n (xop i)" "i < n \<Longrightarrow> pauli_on n (zop i)" "i < n \<Longrightarrow> pauli_on n (yop i)"
  by (cases P; simp add: pauli_on_def pone_def pphase_def xop_def zop_def yop_def)+

lemma pauli_on_pmul: "pauli_on n P \<Longrightarrow> pauli_on n Q \<Longrightarrow> pauli_on n (pmul P Q)"
  by (cases P; cases Q) (auto simp: pauli_on_def pmul_def)

lemma pauli_on_pprod: "\<forall>i \<in> set xs. pauli_on n (f i) \<Longrightarrow> pauli_on n (pprod f xs)"
proof (induction xs rule: rev_induct)
  case (snoc x xs)
  then show ?case by (simp add: pprod_def pauli_on_pmul)
qed (simp add: pprod_def)

lemma pauli_on_fprod: "finite A \<Longrightarrow> \<forall>i \<in> A. pauli_on n (f i) \<Longrightarrow> pauli_on n (fprod f A)"
  by (simp add: fprod_def pauli_on_pprod)

lemma par_sum_swap:
  assumes "finite A" "finite C"
  shows "par {i \<in> A. par {j \<in> C. R i j}} = par {j \<in> C. par {i \<in> A. R i j}}"
proof -
  have count: "par {i \<in> A. par {j \<in> C. R i j}} = odd (\<Sum>i \<in> A. card {j \<in> C. R i j})" if "finite A" "finite C" for A C :: "nat set" and R
    using that(1)
  proof (induction A)
    case empty
    then show ?case by simp
  next
    case (insert a A)
    have "{i \<in> insert a A. par {j \<in> C. R i j}} =
        (if par {j \<in> C. R a j} then insert a {i \<in> A. par {j \<in> C. R i j}} else {i \<in> A. par {j \<in> C. R i j}})" by auto
    with insert show ?case by (simp add: par_def)
  qed
  have "(\<Sum>i \<in> A. card {j \<in> C. R i j}) = (\<Sum>i \<in> A. \<Sum>j \<in> C. if R i j then 1 else 0)"
    using assms by (simp add: sum.If_cases Int_def)
  also have "\<dots> = (\<Sum>j \<in> C. \<Sum>i \<in> A. if R i j then 1 else 0)" by (rule sum.swap)
  also have "\<dots> = (\<Sum>j \<in> C. card {i \<in> A. R i j})" using assms by (simp add: sum.If_cases Int_def)
  finally show ?thesis using count [OF assms] count [OF assms(2,1)] by simp
qed

lemma panti_generators:
  "panti (xop i) P = (i \<in> fst (snd P))" "panti (zop i) P = (i \<in> fst P)"
  "panti P (xop i) = (i \<in> fst (snd P))" "panti P (zop i) = (i \<in> fst P)"
  by (cases P; simp add: panti_def xop_def zop_def)+

lemma pauli_eqI: "(\<And>i. panti (xop i) P = panti (xop i) Q) \<Longrightarrow> (\<And>i. panti (zop i) P = panti (zop i) Q) \<Longrightarrow>
    snd (snd P) = snd (snd Q) \<Longrightarrow> P = Q"
  unfolding panti_generators by (cases P; cases Q) auto

locale symplectic_frame =
  fixes n :: nat and fx :: "nat \<Rightarrow> pauli_op" and fz :: "nat \<Rightarrow> pauli_op"
  assumes frame: "symplectic n fx fz"
begin

lemma frameD:
  assumes "i < n"
  shows "pauli_on n (fx i)" "pauli_on n (fz i)" "pfinite (fx i)" "pfinite (fz i)"
proof -
  show "pauli_on n (fx i)" "pauli_on n (fz i)" using frame assms by (simp_all add: symplectic_def)
  then show "pfinite (fx i)" "pfinite (fz i)" by (simp_all only: pauli_on_finite)
qed

lemma relations:
  assumes "i < n" "j < n"
  shows "panti (fx i) (fz j) = (i = j)" "panti (fz i) (fx j) = (i = j)" "\<not> panti (fx i) (fx j)" "\<not> panti (fz i) (fz j)"
  using frame assms panti_sym [of "fz i"] by (auto simp: symplectic_def)

lemma involutions_frame: "involutions {..<n} fx" "involutions {..<n} fz"
  using frame frameD unfolding involutions_def symplectic_def by auto

lemma fprod_on:
  assumes "A \<subseteq> {..<n}"
  shows "pauli_on n (fprod fx A)" "pauli_on n (fprod fz A)" "pfinite (fprod fx A)" "pfinite (fprod fz A)"
proof -
  have "finite A" using assms by (rule finite_subset) simp
  then show "pauli_on n (fprod fx A)" "pauli_on n (fprod fz A)" using assms frameD by (auto intro!: pauli_on_fprod)
  then show "pfinite (fprod fx A)" "pfinite (fprod fz A)" by (simp_all only: pauli_on_finite)
qed

lemma panti_fprods:
  assumes "A \<subseteq> {..<n}" "C \<subseteq> {..<n}"
  shows "panti (fprod fz C) (fprod fx A) = par (C \<inter> A)"
    "panti (fprod fx C) (fprod fx A) = False" "panti (fprod fz C) (fprod fz A) = False"
proof -
  have fin: "finite A" "finite C" using assms by (auto intro: finite_subset)
  have f: "\<forall>i \<in> A. pfinite (fx i)" "\<forall>i \<in> A. pfinite (fz i)" "\<forall>i \<in> C. pfinite (fx i)" "\<forall>i \<in> C. pfinite (fz i)"
    using assms frameD by auto
  note on = fprod_on [OF assms(2)]
  have "panti (fprod fz C) (fx i) = (i \<in> C)" if "i \<in> A" for i
  proof -
    have "panti (fx i) (fz j) = (i = j)" if "j \<in> C" for j using relations(1) assms \<open>i \<in> A\<close> that by blast
    then have "{j \<in> C. panti (fx i) (fz j)} = (if i \<in> C then {i} else {})" by auto
    then show ?thesis using panti_fprod [OF f(4) fin(2), of "fx i"] f(1) that panti_sym [of "fx i"] by (simp add: par_def)
  qed
  then have "{i \<in> A. panti (fprod fz C) (fx i)} = C \<inter> A" by auto
  with panti_fprod [OF f(1) fin(1) on(4)] show "panti (fprod fz C) (fprod fx A) = par (C \<inter> A)" by simp
  have none: "{j \<in> C. panti (fx i) (fx j)} = {}" "{j \<in> C. panti (fz i) (fz j)} = {}" if "i \<in> A" for i using relations(3,4) assms that by (blast, blast)
  have "\<not> panti (fprod fx C) (fx i)" "\<not> panti (fprod fz C) (fz i)" if "i \<in> A" for i
    using panti_fprod [OF f(3) fin(2), of "fx i"] panti_fprod [OF f(4) fin(2), of "fz i"] f(1,2) that none [OF that]
    by (simp_all only: panti_sym [of _ "fx i"] panti_sym [of _ "fz i"] par_simps) blast+
  then have "{i \<in> A. panti (fprod fx C) (fx i)} = {}" "{i \<in> A. panti (fprod fz C) (fz i)} = {}" by auto
  with panti_fprod [OF f(1) fin(1) on(3)] panti_fprod [OF f(2) fin(1) on(4)]
  show "panti (fprod fx C) (fprod fx A) = False" "panti (fprod fz C) (fprod fz A) = False" by simp_all
qed

lemma pre_on: "pauli_on n P \<Longrightarrow> pauli_on n (pre fx fz P)"
  using fprod_on by (simp add: pre_def pauli_on_pmul pauli_on_def [of n P])

lemma pre_finite: "pauli_on n P \<Longrightarrow> pfinite (pre fx fz P)"
  by (rule pauli_on_finite) (rule pre_on)

lemma pre_pone [simp]: "pre fx fz pone = pone"
proof -
  have "pre fx fz ({}, {}, 0) = pone" by (simp add: pre_def)
  then show ?thesis by (simp add: pone_def)
qed

lemma pre_pphase [simp]: "pre fx fz (pphase k P) = pphase k (pre fx fz P)"
proof -
  obtain A C l where P: "P = (A, C, l)" by (cases P)
  have "pphase k P = (A, C, l + k)" by (simp add: P pphase_def)
  then show ?thesis by (simp add: P pre_def ac_simps)
qed

lemma pre_generators: "i < n \<Longrightarrow> pre fx fz (xop i) = fx i" "i < n \<Longrightarrow> pre fx fz (zop i) = fz i"
  using frameD by (simp_all add: pre_def xop_def zop_def fprod_single)

lemma pre_pmul:
  assumes "pauli_on n P" "pauli_on n Q"
  shows "pre fx fz (pmul P Q) = pmul (pre fx fz P) (pre fx fz Q)"
proof -
  obtain A C k A' C' k' where PQ: "P = (A, C, k)" "Q = (A', C', k')" by (metis prod.exhaust)
  with assms have s: "A \<subseteq> {..<n}" "C \<subseteq> {..<n}" "A' \<subseteq> {..<n}" "C' \<subseteq> {..<n}" by (simp_all add: pauli_on_def)
  then have fin: "finite A" "finite C" "finite A'" "finite C'" by (auto intro: finite_subset)
  let ?x = "fprod fx" and ?z = "fprod fz"
  note f = fprod_on(3) fprod_on(4)
  have "pmul (pmul (?x A) (?z C)) (pmul (?x A') (?z C')) = pmul (?x A) (pmul (pmul (?z C) (?x A')) (?z C'))"
    using f s by (simp add: pmul_assoc)
  also have "pmul (?z C) (?x A') = pphase (sgn_phase (par (C \<inter> A'))) (pmul (?x A') (?z C))"
    using pmul_swap [of "?z C" "?x A'"] panti_fprods(1) [OF s(3,2)] by simp
  also have "pmul (?x A) (pmul (pphase (sgn_phase (par (C \<inter> A'))) (pmul (?x A') (?z C))) (?z C')) =
      pphase (sgn_phase (par (C \<inter> A'))) (pmul (pmul (?x A) (?x A')) (pmul (?z C) (?z C')))"
    using f s by (simp add: pmul_assoc)
  also have "\<dots> = pphase (sgn_phase (par (C \<inter> A'))) (pmul (?x (sym_diff A A')) (?z (sym_diff C C')))"
    using fprod_mul [OF involutions_frame(1) fin(1,3) s(1,3)] fprod_mul [OF involutions_frame(2) fin(2,4) s(2,4)] by simp
  finally have *: "pmul (pmul (?x A) (?z C)) (pmul (?x A') (?z C')) =
      pphase (sgn_phase (par (C \<inter> A'))) (pmul (?x (sym_diff A A')) (?z (sym_diff C C')))" .
  have "pmul P Q = (sym_diff A A', sym_diff C C', k + k' + sgn_phase (par (C \<inter> A')))" by (simp add: PQ pmul_def)
  then show ?thesis by (simp add: PQ pre_def * ac_simps)
qed

lemma pre_panti:
  assumes "pauli_on n P" "pauli_on n Q"
  shows "panti (pre fx fz P) (pre fx fz Q) = panti P Q"
proof -
  have "pre fx fz (pmul P Q) = pphase (sgn_phase (panti P Q)) (pmul (pre fx fz Q) (pre fx fz P))"
    using pmul_swap [of P Q] pre_pmul [OF assms(2,1)] by simp
  moreover have "pre fx fz (pmul P Q) = pphase (sgn_phase (panti (pre fx fz P) (pre fx fz Q))) (pmul (pre fx fz Q) (pre fx fz P))"
    using pmul_swap [of "pre fx fz P"] pre_pmul [OF assms] by simp
  ultimately show ?thesis by (simp add: pphase_inject)
qed

lemma pre_inject:
  assumes "pauli_on n P" "pauli_on n Q" "pre fx fz P = pre fx fz Q"
  shows "P = Q"
proof -
  have "panti R P = panti R Q" if "pauli_on n R" for R using pre_panti [OF that] assms by metis
  then have a: "panti (xop i) P = panti (xop i) Q" "panti (zop i) P = panti (zop i) Q" if "i < n" for i using that by simp_all
  have b: "\<not> panti (xop i) R" "\<not> panti (zop i) R" if "\<not> i < n" "pauli_on n R" for i R
    using that by (auto simp: panti_generators pauli_on_def)
  have "i \<in> fst (snd P) \<longleftrightarrow> i \<in> fst (snd Q)" "i \<in> fst P \<longleftrightarrow> i \<in> fst Q" for i
    using a [of i] b [of i P] b [of i Q] assms(1,2) by (cases "i < n"; simp add: panti_generators)+
  then have same: "fst P = fst Q" "fst (snd P) = fst (snd Q)" by auto
  then have "Q = pphase (snd (snd Q) - snd (snd P)) P" by (cases P; cases Q) (simp add: pphase_def)
  then have "pre fx fz P = pphase (snd (snd Q) - snd (snd P)) (pre fx fz P)" using assms(3) pre_pphase by metis
  then have "snd (snd Q) - snd (snd P) = 0" using pphase_inject [of _ "pre fx fz P" 0] by (metis pphase_simps(1))
  with same show ?thesis by (cases P; cases Q) simp
qed

lemma finite_paulis: "finite {P. pauli_on n P}"
proof (rule finite_subset)
  show "{P. pauli_on n P} \<subseteq> Pow {..<n} \<times> Pow {..<n} \<times> UNIV" by (auto simp: pauli_on_def)
qed simp

lemma pre_bij: "bij_betw (pre fx fz) {P. pauli_on n P} {P. pauli_on n P}"
proof -
  have "inj_on (pre fx fz) {P. pauli_on n P}" by (rule inj_onI) (rule pre_inject, simp_all)
  moreover have "pre fx fz ` {P. pauli_on n P} \<subseteq> {P. pauli_on n P}" using pre_on by auto
  ultimately show ?thesis using endo_inj_surj [OF finite_paulis] by (auto simp: bij_betw_def)
qed

text \<open>The positions of the operator whose preimage is \<open>P\<close>.\<close>

definition image_bits :: "pauli_op \<Rightarrow> nat set \<times> nat set" where
  "image_bits P = ({i. i < n \<and> panti P (fz i)}, {i. i < n \<and> panti P (fx i)})"

lemma image_unique:
  assumes "pauli_on n P"
  shows "\<exists>k. pre fx fz (fst (image_bits P), snd (image_bits P), k) = P"
proof -
  obtain Q where Q: "pauli_on n Q" "pre fx fz Q = P" using pre_bij assms unfolding bij_betw_def by (metis (mono_tags) imageE mem_Collect_eq)
  have "panti Q (zop i) = panti P (fz i)" "panti Q (xop i) = panti P (fx i)" if "i < n" for i
    using pre_panti [OF Q(1)] Q(2) that pre_generators by (metis pauli_on_simps(3,4))+
  then have "fst Q = {i. i < n \<and> panti P (fz i)}" "fst (snd Q) = {i. i < n \<and> panti P (fx i)}"
    using Q(1) by (auto simp: panti_generators pauli_on_def)
  then have "Q = (fst (image_bits P), snd (image_bits P), snd (snd Q))" by (simp add: image_bits_def prod_eq_iff)
  with Q(2) show ?thesis by metis
qed

text \<open>Conjugation by a second unitary: the frame of a product.\<close>

lemma pre_fprod:
  assumes "A \<subseteq> {..<n}" "\<And>i. i < n \<Longrightarrow> pauli_on n (g i)"
  shows "pre fx fz (fprod g A) = fprod (\<lambda>i. pre fx fz (g i)) A"
proof -
  have "pre fx fz (pprod g xs) = pprod (\<lambda>i. pre fx fz (g i)) xs" if "set xs \<subseteq> {..<n}" for xs
    using that
  proof (induction xs rule: rev_induct)
    case Nil
    then show ?case by (simp add: pprod_def)
  next
    case (snoc x xs)
    have "pauli_on n (pprod g xs)" by (rule pauli_on_pprod) (use snoc.prems assms(2) in auto)
    moreover have "pauli_on n (g x)" using snoc.prems assms(2) by simp
    ultimately have "pre fx fz (pmul (pprod g xs) (g x)) = pmul (pre fx fz (pprod g xs)) (pre fx fz (g x))" by (rule pre_pmul)
    with snoc show ?case by (simp add: pprod_def)
  qed
  moreover have "finite A" using assms(1) by (rule finite_subset) simp
  ultimately show ?thesis using assms(1) by (simp add: fprod_def)
qed

lemma compose_frame:
  assumes "symplectic n gx gz"
  shows "symplectic n (\<lambda>i. pre fx fz (gx i)) (\<lambda>i. pre fx fz (gz i))"
proof -
  have on: "pauli_on n (gx i)" "pauli_on n (gz i)" if "i < n" for i using assms that by (simp_all add: symplectic_def)
  have sq: "pmul (pre fx fz P) (pre fx fz P) = pone" if "pauli_on n P" "pmul P P = pone" for P
    using pre_pmul [OF that(1,1)] that(2) by simp
  show ?thesis using assms on unfolding symplectic_def by (simp add: pre_on pre_panti sq)
qed

lemma compose_pre:
  assumes "symplectic n gx gz" "pauli_on n P"
  shows "pre (\<lambda>i. pre fx fz (gx i)) (\<lambda>i. pre fx fz (gz i)) P = pre fx fz (pre gx gz P)"
proof -
  have on: "pauli_on n (gx i)" "pauli_on n (gz i)" if "i < n" for i using assms(1) that by (simp_all add: symplectic_def)
  have s: "fst P \<subseteq> {..<n}" "fst (snd P) \<subseteq> {..<n}" using assms(2) by (simp_all add: pauli_on_def)
  then have "finite (fst P)" "finite (fst (snd P))" by (auto intro: finite_subset)
  then have f: "pauli_on n (fprod gx (fst P))" "pauli_on n (fprod gz (fst (snd P)))" using s on by (auto intro!: pauli_on_fprod)
  show ?thesis using pre_fprod [OF s(1) on(1)] pre_fprod [OF s(2) on(2)] pre_pmul [OF f] by (simp add: pre_def [of _ _ P])
qed

text \<open>Operators whose preimages are the generators form the frame of the inverse.\<close>

lemma pre_relations:
  assumes "pauli_on n P" "pauli_on n Q"
  shows "pmul (pre fx fz P) (pre fx fz P) = pone \<longleftrightarrow> pmul P P = pone"
  using pre_inject [of "pmul P P" pone] pre_pmul [OF assms(1,1)] assms by (auto simp: pauli_on_pmul)

end

lemma pre_cong:
  assumes "pauli_on n P" "\<And>i. i < n \<Longrightarrow> fx i = gx i" "\<And>i. i < n \<Longrightarrow> fz i = gz i"
  shows "pre fx fz P = pre gx gz P"
proof -
  have s: "fst P \<subseteq> {..<n}" "fst (snd P) \<subseteq> {..<n}" using assms(1) by (simp_all add: pauli_on_def)
  then have "finite (fst P)" "finite (fst (snd P))" by (auto intro: finite_subset)
  with s have "fprod fx (fst P) = fprod gx (fst P)" "fprod fz (fst (snd P)) = fprod gz (fst (snd P))"
    using assms(2,3) by (auto intro!: fprod_cong)
  then show ?thesis by (simp add: pre_def)
qed

lemma symplectic_cong:
  assumes "\<And>i. i < n \<Longrightarrow> fx i = gx i" "\<And>i. i < n \<Longrightarrow> fz i = gz i"
  shows "symplectic n fx fz = symplectic n gx gz"
  using assms unfolding symplectic_def by auto

lemma fprod_generators:
  assumes "finite A"
  shows "fprod xop A = (A, {}, 0)" "fprod zop A = ({}, A, 0)"
proof -
  have inv: "involutions UNIV xop" "involutions UNIV zop"
    using panti_generators by (auto simp: involutions_def xop_def zop_def pmul_def pone_def panti_def pfinite_def)
  have x: "pmul (xop i) (A, {}, 0) = (insert i A, {}, 0)" and z: "pmul (zop i) ({}, A, 0) = ({}, insert i A, 0)"
    if "i \<notin> A" for i A using that by (auto simp: xop_def zop_def pmul_def)
  show "fprod xop A = (A, {}, 0)" using assms
    by (induction A) (simp_all add: pone_def fprod_insert [OF inv(1)] x)
  show "fprod zop A = ({}, A, 0)" using assms
    by (induction A) (simp_all add: pone_def fprod_insert [OF inv(2)] z)
qed

lemma pre_identity: "pauli_on n P \<Longrightarrow> pre xop zop P = P"
proof -
  assume "pauli_on n P"
  then have "finite (fst P)" "finite (fst (snd P))" by (auto simp: pauli_on_def intro: finite_subset)
  then show ?thesis by (cases P) (simp add: pre_def fprod_generators pphase_def pmul_def)
qed

lemma generators_frame: "symplectic n xop zop"
proof -
  have "pmul (xop i) (xop i) = pone" "pmul (zop i) (zop i) = pone" for i by (simp_all add: xop_def zop_def pmul_def pone_def)
  then show ?thesis unfolding symplectic_def by (simp add: panti_generators) (auto simp: xop_def zop_def)
qed

lemma symplectic_pullback:
  assumes f: "symplectic n fx fz" and on: "\<And>i. i < n \<Longrightarrow> pauli_on n (gx i)" "\<And>i. i < n \<Longrightarrow> pauli_on n (gz i)"
    and gen: "\<And>i. i < n \<Longrightarrow> pre fx fz (gx i) = xop i" "\<And>i. i < n \<Longrightarrow> pre fx fz (gz i) = zop i"
  shows "symplectic n gx gz"
proof -
  note F = symplectic_frame.intro [OF f]
  have sq: "pmul P P = pone" if "pauli_on n P" "pmul (pre fx fz P) (pre fx fz P) = pone" for P
    using symplectic_frame.pre_relations [OF F that(1,1)] that(2) by simp
  have anti: "panti P Q = panti (pre fx fz P) (pre fx fz Q)" if "pauli_on n P" "pauli_on n Q" for P Q
    using symplectic_frame.pre_panti [OF F that] by simp
  have g: "pmul (xop i) (xop i) = pone" "pmul (zop i) (zop i) = pone" for i by (simp_all add: xop_def zop_def pmul_def pone_def)
  show ?thesis using generators_frame [of n] on unfolding symplectic_def by (simp add: anti gen sq g)
qed

lemma pullback_inverse:
  assumes f: "symplectic n fx fz" and on: "\<And>i. i < n \<Longrightarrow> pauli_on n (gx i)" "\<And>i. i < n \<Longrightarrow> pauli_on n (gz i)"
    and gen: "\<And>i. i < n \<Longrightarrow> pre fx fz (gx i) = xop i" "\<And>i. i < n \<Longrightarrow> pre fx fz (gz i) = zop i"
    and P: "pauli_on n P"
  shows "pre fx fz (pre gx gz P) = P" "pre gx gz (pre fx fz P) = P"
proof -
  note F = symplectic_frame.intro [OF f]
  have g: "symplectic n gx gz" by (rule symplectic_pullback [OF f on gen])
  note G = symplectic_frame.intro [OF g]
  have fg: "pre fx fz (pre gx gz Q) = Q" if "pauli_on n Q" for Q
  proof -
    have "pre fx fz (pre gx gz Q) = pre (\<lambda>i. pre fx fz (gx i)) (\<lambda>i. pre fx fz (gz i)) Q"
      using symplectic_frame.compose_pre [OF F g that] by simp
    also have "\<dots> = pre xop zop Q" by (rule pre_cong [OF that]) (use gen in simp_all)
    finally show ?thesis using pre_identity [OF that] by simp
  qed
  show "pre fx fz (pre gx gz P) = P" by (rule fg [OF P])
  have "pauli_on n (pre fx fz P)" by (rule symplectic_frame.pre_on [OF F P])
  then have "pre fx fz (pre gx gz (pre fx fz P)) = pre fx fz P" "pauli_on n (pre gx gz (pre fx fz P))"
    using fg symplectic_frame.pre_on [OF G] by simp_all
  then show "pre gx gz (pre fx fz P) = P" using symplectic_frame.pre_inject [OF F _ P] by blast
qed

interpretation generators: symplectic_frame n xop zop for n
  by unfold_locales (rule generators_frame)

end
