(* ===== verification/Clifford_State.thy ===== *)
theory Clifford_State
  imports Symplectic Matrix_Ops
begin

text \<open>
  The storage of \<open>CliffordUnitary\<close> (\<open>paulimer/src/clifford.rs\<close>, \<open>clifford/clifford_impl.rs\<close>): a matrix with
  \<open>4 n\<close> rows and \<open>n\<close> columns whose rows are the X and Z bits of the preimages of the generators, and a vector
  of \<open>2 n\<close> phase exponents; its views, its mutable views, and the gates, which read and write the views of one
  or two qubits.  A mutable view is modelled as reading the view, applying the operation and writing the
  result back; two pairs of mutable views of the same qubit alias, which is undefined behaviour.
\<close>

section \<open>Storage\<close>

record clifford_mod_pauli =
  cm_bits :: aligned_bitmatrix

record clifford_unitary =
  cu_projective :: clifford_mod_pauli
  preimage_phase_exponents :: "u8 list"

abbreviation clifford_bits :: "clifford_unitary \<Rightarrow> aligned_bitmatrix" where
  "clifford_bits C \<equiv> cm_bits (cu_projective C)"

definition num_qubits :: "clifford_unitary \<Rightarrow> nat" where
  "num_qubits C = column_count (clifford_bits C)"

definition phase_of_preimage_x :: "nat \<Rightarrow> nat" where
  "phase_of_preimage_x index = 2 * index"

definition phase_of_preimage_z :: "nat \<Rightarrow> nat" where
  "phase_of_preimage_z index = 2 * index + 1"

definition x_of_preimage_x_offset :: "nat \<Rightarrow> nat" where "x_of_preimage_x_offset dimension = 0"
definition z_of_preimage_x_offset :: "nat \<Rightarrow> nat" where "z_of_preimage_x_offset dimension = dimension"
definition x_of_preimage_z_offset :: "nat \<Rightarrow> nat" where "x_of_preimage_z_offset dimension = 2 * dimension"
definition z_of_preimage_z_offset :: "nat \<Rightarrow> nat" where "z_of_preimage_z_offset dimension = 3 * dimension"

definition x_preimage_rows_ids :: "nat \<Rightarrow> nat \<Rightarrow> nat \<times> nat" where
  "x_preimage_rows_ids dimension q = (q + x_of_preimage_x_offset dimension, q + z_of_preimage_x_offset dimension)"

definition z_preimage_rows_ids :: "nat \<Rightarrow> nat \<Rightarrow> nat \<times> nat" where
  "z_preimage_rows_ids dimension q = (q + x_of_preimage_z_offset dimension, q + z_of_preimage_z_offset dimension)"

lemmas row_ids = x_preimage_rows_ids_def z_preimage_rows_ids_def x_of_preimage_x_offset_def z_of_preimage_x_offset_def
  x_of_preimage_z_offset_def z_of_preimage_z_offset_def

section \<open>Views\<close>

definition rows2 :: "aligned_bitmatrix \<Rightarrow> nat \<times> nat \<Rightarrow> (bitblock list \<times> bitblock list) option" where
  "rows2 m index = do { a \<leftarrow> mat_row m (fst index); b \<leftarrow> mat_row m (snd index); Some (a, b) }"

definition preimage_x_view :: "clifford_unitary \<Rightarrow> nat \<Rightarrow> bitblock list pauli_unitary option" where
  "preimage_x_view C qubit_index = do {
     (x, z) \<leftarrow> rows2 (clifford_bits C) (x_preimage_rows_ids (num_qubits C) qubit_index);
     phase \<leftarrow> nth_opt (preimage_phase_exponents C) (phase_of_preimage_x qubit_index);
     Some (pauli_from_bits x z phase) }"

definition preimage_z_view :: "clifford_unitary \<Rightarrow> nat \<Rightarrow> bitblock list pauli_unitary option" where
  "preimage_z_view C qubit_index = do {
     (x, z) \<leftarrow> rows2 (clifford_bits C) (z_preimage_rows_ids (num_qubits C) qubit_index);
     phase \<leftarrow> nth_opt (preimage_phase_exponents C) (phase_of_preimage_z qubit_index);
     Some (pauli_from_bits x z phase) }"

text \<open>What a mutable view leaves behind: both rows and the phase.\<close>

definition write_view :: "nat \<times> nat \<Rightarrow> nat \<Rightarrow> bitblock list pauli_unitary \<Rightarrow> clifford_unitary \<Rightarrow> clifford_unitary option" where
  "write_view rows phase p C = do {
     m \<leftarrow> mat_row_update (fst rows) (\<lambda>_. Some (px p)) (clifford_bits C);
     m \<leftarrow> mat_row_update (snd rows) (\<lambda>_. Some (pz p)) m;
     phases \<leftarrow> update_opt (preimage_phase_exponents C) phase (xz_phase_exp p);
     Some \<lparr> cu_projective = \<lparr> cm_bits = m \<rparr>, preimage_phase_exponents = phases \<rparr> }"

definition write_x_view :: "nat \<Rightarrow> bitblock list pauli_unitary \<Rightarrow> clifford_unitary \<Rightarrow> clifford_unitary option" where
  "write_x_view q p C = write_view (x_preimage_rows_ids (num_qubits C) q) (phase_of_preimage_x q) p C"

definition write_z_view :: "nat \<Rightarrow> bitblock list pauli_unitary \<Rightarrow> clifford_unitary \<Rightarrow> clifford_unitary option" where
  "write_z_view q p C = write_view (z_preimage_rows_ids (num_qubits C) q) (phase_of_preimage_z q) p C"

type_synonym view_update = "bitblock list pauli_unitary \<Rightarrow> bitblock list pauli_unitary option"

definition preimage_x_view_mut :: "nat \<Rightarrow> view_update \<Rightarrow> clifford_unitary \<Rightarrow> clifford_unitary option" where
  "preimage_x_view_mut index f C = do { p \<leftarrow> preimage_x_view C index; p \<leftarrow> f p; write_x_view index p C }"

definition preimage_z_view_mut :: "nat \<Rightarrow> view_update \<Rightarrow> clifford_unitary \<Rightarrow> clifford_unitary option" where
  "preimage_z_view_mut index f C = do { p \<leftarrow> preimage_z_view C index; p \<leftarrow> f p; write_z_view index p C }"

type_synonym xz_views = "bitblock list pauli_unitary \<times> bitblock list pauli_unitary"

definition preimage_xz_views :: "clifford_unitary \<Rightarrow> nat \<Rightarrow> xz_views option" where
  "preimage_xz_views C index = do { x \<leftarrow> preimage_x_view C index; z \<leftarrow> preimage_z_view C index; Some (x, z) }"

definition write_xz_views :: "nat \<Rightarrow> xz_views \<Rightarrow> clifford_unitary \<Rightarrow> clifford_unitary option" where
  "write_xz_views index xz C = do { C \<leftarrow> write_x_view index (fst xz) C; write_z_view index (snd xz) C }"

definition preimage_xz_views_mut :: "nat \<Rightarrow> (xz_views \<Rightarrow> xz_views option) \<Rightarrow> clifford_unitary \<Rightarrow> clifford_unitary option" where
  "preimage_xz_views_mut index f C = do {
     xz \<leftarrow> preimage_xz_views C index;
     xz \<leftarrow> f xz;
     write_xz_views index xz C }"

definition preimage_xz_views_mut_distinct ::
  "nat \<times> nat \<Rightarrow> (xz_views \<times> xz_views \<Rightarrow> (xz_views \<times> xz_views) option) \<Rightarrow> clifford_unitary \<Rightarrow> clifford_unitary option" where
  "preimage_xz_views_mut_distinct index f C = do {
     guard_opt (fst index \<noteq> snd index);
     xz0 \<leftarrow> preimage_xz_views C (fst index);
     xz1 \<leftarrow> preimage_xz_views C (snd index);
     (xz0, xz1) \<leftarrow> f (xz0, xz1);
     C \<leftarrow> write_xz_views (fst index) xz0 C;
     write_xz_views (snd index) xz1 C }"

section \<open>Zero and identity\<close>

definition mod_pauli_zero :: "nat \<Rightarrow> clifford_mod_pauli" where
  "mod_pauli_zero n = \<lparr> cm_bits = mat_zeros (n * 4) n \<rparr>"

definition clifford_zero :: "nat \<Rightarrow> clifford_unitary" where
  "clifford_zero n = \<lparr> cu_projective = mod_pauli_zero n, preimage_phase_exponents = replicate (2 * n) 0 \<rparr>"

definition set_identity_pre_images :: "clifford_unitary \<Rightarrow> clifford_unitary option" where
  "set_identity_pre_images C = ofold (\<lambda>index C. do {
     C \<leftarrow> preimage_x_view_mut index (\<lambda>p. do {
        guard_opt (pauli_is_identity dense_ops p);
        mul_assign_left_x dense_ops index p }) C;
     preimage_z_view_mut index (\<lambda>p. do {
        guard_opt (pauli_is_identity dense_ops p);
        mul_assign_right_z dense_ops index p }) C }) [0..<num_qubits C] C"

definition clifford_identity :: "nat \<Rightarrow> clifford_unitary option" where
  "clifford_identity n = set_identity_pre_images (clifford_zero n)"

section \<open>Gates\<close>

definition left_mul_root_z :: "nat \<Rightarrow> clifford_unitary \<Rightarrow> clifford_unitary option" where
  "left_mul_root_z qubit_id = preimage_xz_views_mut qubit_id (\<lambda>(x, z). do {
     x \<leftarrow> mul_assign_left dense_ops z x;
     Some (add_assign_phase_exp 1 x, z) })"

definition left_mul_root_z_inverse :: "nat \<Rightarrow> clifford_unitary \<Rightarrow> clifford_unitary option" where
  "left_mul_root_z_inverse qubit_id = preimage_xz_views_mut qubit_id (\<lambda>(x, z). do {
     x \<leftarrow> mul_assign_left dense_ops z x;
     Some (add_assign_phase_exp 3 x, z) })"

definition left_mul_root_x :: "nat \<Rightarrow> clifford_unitary \<Rightarrow> clifford_unitary option" where
  "left_mul_root_x qubit_id = preimage_xz_views_mut qubit_id (\<lambda>(x, z). do {
     z \<leftarrow> mul_assign_left dense_ops x z;
     Some (x, add_assign_phase_exp 1 z) })"

definition left_mul_root_x_inverse :: "nat \<Rightarrow> clifford_unitary \<Rightarrow> clifford_unitary option" where
  "left_mul_root_x_inverse qubit_id = preimage_xz_views_mut qubit_id (\<lambda>(x, z). do {
     z \<leftarrow> mul_assign_left dense_ops x z;
     Some (x, add_assign_phase_exp 3 z) })"

definition left_mul_x :: "nat \<Rightarrow> clifford_unitary \<Rightarrow> clifford_unitary option" where
  "left_mul_x qubit_id = preimage_xz_views_mut qubit_id (\<lambda>(x, z). Some (x, add_assign_phase_exp 2 z))"

definition left_mul_z :: "nat \<Rightarrow> clifford_unitary \<Rightarrow> clifford_unitary option" where
  "left_mul_z qubit_id = preimage_xz_views_mut qubit_id (\<lambda>(x, z). Some (add_assign_phase_exp 2 x, z))"

definition left_mul_y :: "nat \<Rightarrow> clifford_unitary \<Rightarrow> clifford_unitary option" where
  "left_mul_y qubit_id = preimage_xz_views_mut qubit_id
     (\<lambda>(x, z). Some (add_assign_phase_exp 2 x, add_assign_phase_exp 2 z))"

definition hadamard_clifford_bits :: "nat \<Rightarrow> nat \<Rightarrow> aligned_bitmatrix \<Rightarrow> aligned_bitmatrix option" where
  "hadamard_clifford_bits dimension qubit_id bits = do {
     let (x1, x2) = x_preimage_rows_ids dimension qubit_id;
     let (z1, z2) = z_preimage_rows_ids dimension qubit_id;
     bits \<leftarrow> mat_swap_rows x1 z1 bits;
     mat_swap_rows x2 z2 bits }"

definition swap_clifford_bits :: "nat \<Rightarrow> nat \<Rightarrow> nat \<Rightarrow> aligned_bitmatrix \<Rightarrow> aligned_bitmatrix option" where
  "swap_clifford_bits dimension qubit1_id qubit2_id bits = do {
     let (a1, b1) = x_preimage_rows_ids dimension qubit1_id;
     let (c1, d1) = z_preimage_rows_ids dimension qubit1_id;
     let (a2, b2) = x_preimage_rows_ids dimension qubit2_id;
     let (c2, d2) = z_preimage_rows_ids dimension qubit2_id;
     bits \<leftarrow> mat_swap_rows a1 a2 bits;
     bits \<leftarrow> mat_swap_rows b1 b2 bits;
     bits \<leftarrow> mat_swap_rows c1 c2 bits;
     mat_swap_rows d1 d2 bits }"

definition swap_opt :: "nat \<Rightarrow> nat \<Rightarrow> 'a list \<Rightarrow> 'a list option" where
  "swap_opt a b xs = do { x \<leftarrow> nth_opt xs a; y \<leftarrow> nth_opt xs b; Some (xs[a := y, b := x]) }"

definition left_mul_hadamard :: "nat \<Rightarrow> clifford_unitary \<Rightarrow> clifford_unitary option" where
  "left_mul_hadamard qubit_id C = do {
     m \<leftarrow> hadamard_clifford_bits (num_qubits C) qubit_id (clifford_bits C);
     phases \<leftarrow> swap_opt (phase_of_preimage_x qubit_id) (phase_of_preimage_z qubit_id) (preimage_phase_exponents C);
     Some \<lparr> cu_projective = \<lparr> cm_bits = m \<rparr>, preimage_phase_exponents = phases \<rparr> }"

definition left_mul_swap :: "nat \<Rightarrow> nat \<Rightarrow> clifford_unitary \<Rightarrow> clifford_unitary option" where
  "left_mul_swap qubit1_id qubit2_id C = do {
     m \<leftarrow> swap_clifford_bits (num_qubits C) qubit1_id qubit2_id (clifford_bits C);
     phases \<leftarrow> swap_opt (phase_of_preimage_x qubit1_id) (phase_of_preimage_x qubit2_id) (preimage_phase_exponents C);
     phases \<leftarrow> swap_opt (phase_of_preimage_z qubit1_id) (phase_of_preimage_z qubit2_id) phases;
     Some \<lparr> cu_projective = \<lparr> cm_bits = m \<rparr>, preimage_phase_exponents = phases \<rparr> }"

definition left_mul_root_y :: "nat \<Rightarrow> clifford_unitary \<Rightarrow> clifford_unitary option" where
  "left_mul_root_y qubit_id C = do { C \<leftarrow> left_mul_z qubit_id C; left_mul_hadamard qubit_id C }"

definition left_mul_root_y_inverse :: "nat \<Rightarrow> clifford_unitary \<Rightarrow> clifford_unitary option" where
  "left_mul_root_y_inverse qubit_id C = do { C \<leftarrow> left_mul_hadamard qubit_id C; left_mul_z qubit_id C }"

definition left_mul_cx :: "nat \<Rightarrow> nat \<Rightarrow> clifford_unitary \<Rightarrow> clifford_unitary option" where
  "left_mul_cx control_id target_id = preimage_xz_views_mut_distinct (control_id, target_id) (\<lambda>((xc, zc), (xt, zt)). do {
     xc \<leftarrow> mul_assign_left dense_ops xt xc;
     zt \<leftarrow> mul_assign_left dense_ops zc zt;
     Some ((xc, zc), (xt, zt)) })"

definition left_mul_cz :: "nat \<Rightarrow> nat \<Rightarrow> clifford_unitary \<Rightarrow> clifford_unitary option" where
  "left_mul_cz control_id target_id = preimage_xz_views_mut_distinct (control_id, target_id) (\<lambda>((xc, zc), (xt, zt)). do {
     xc \<leftarrow> mul_assign_left dense_ops zt xc;
     xt \<leftarrow> mul_assign_left dense_ops zc xt;
     Some ((xc, zc), (xt, zt)) })"

definition left_mul_prepare_bell :: "nat \<Rightarrow> nat \<Rightarrow> clifford_unitary \<Rightarrow> clifford_unitary option" where
  "left_mul_prepare_bell qubit_index1 qubit_index2 C = do {
     C \<leftarrow> left_mul_hadamard qubit_index1 C;
     left_mul_cx qubit_index1 qubit_index2 C }"

text \<open>The dispatch on \<open>UnitaryOp\<close> of \<open>operations.rs\<close>, with its assertions on the support.\<close>

datatype unitary_op = OpI | OpX | OpY | OpZ | SqrtX | SqrtXInv | SqrtY | SqrtYInv | SqrtZ | SqrtZInv
  | Hadamard | Swap | ControlledX | ControlledZ | PrepareBell

definition one_qubit_gate :: "nat list \<Rightarrow> (nat \<Rightarrow> 'c \<Rightarrow> 'c option) \<Rightarrow> 'c \<Rightarrow> 'c option" where
  "one_qubit_gate support g C = do { guard_opt (length support = 1); g (support ! 0) C }"

definition two_qubit_gate :: "nat list \<Rightarrow> (nat \<Rightarrow> nat \<Rightarrow> 'c \<Rightarrow> 'c option) \<Rightarrow> 'c \<Rightarrow> 'c option" where
  "two_qubit_gate support g C = do {
     guard_opt (length support = 2);
     guard_opt (support ! 0 \<noteq> support ! 1);
     g (support ! 0) (support ! 1) C }"

fun left_mul :: "unitary_op \<Rightarrow> nat list \<Rightarrow> clifford_unitary \<Rightarrow> clifford_unitary option" where
  "left_mul OpI support C = Some C"
| "left_mul OpX support C = one_qubit_gate support left_mul_x C"
| "left_mul OpY support C = one_qubit_gate support left_mul_y C"
| "left_mul OpZ support C = one_qubit_gate support left_mul_z C"
| "left_mul SqrtX support C = one_qubit_gate support left_mul_root_x C"
| "left_mul SqrtXInv support C = one_qubit_gate support left_mul_root_x_inverse C"
| "left_mul SqrtY support C = one_qubit_gate support left_mul_root_y C"
| "left_mul SqrtYInv support C = one_qubit_gate support left_mul_root_y_inverse C"
| "left_mul SqrtZ support C = one_qubit_gate support left_mul_root_z C"
| "left_mul SqrtZInv support C = one_qubit_gate support left_mul_root_z_inverse C"
| "left_mul Hadamard support C = one_qubit_gate support left_mul_hadamard C"
| "left_mul Swap support C = two_qubit_gate support left_mul_swap C"
| "left_mul ControlledX support C = two_qubit_gate support left_mul_cx C"
| "left_mul ControlledZ support C = two_qubit_gate support left_mul_cz C"
| "left_mul PrepareBell support C = two_qubit_gate support left_mul_prepare_bell C"

section \<open>The abstraction: a family of operators\<close>

text \<open>A key \<open>(b, q)\<close> names the generator Z (\<open>b\<close>) or X of qubit \<open>q\<close>.\<close>

type_synonym key = "bool \<times> nat"

definition key_rows :: "nat \<Rightarrow> key \<Rightarrow> nat \<times> nat" where
  "key_rows n = (\<lambda>(b, q). if b then z_preimage_rows_ids n q else x_preimage_rows_ids n q)"

definition key_phase :: "key \<Rightarrow> nat" where
  "key_phase = (\<lambda>(b, q). if b then phase_of_preimage_z q else phase_of_preimage_x q)"

definition key_view :: "clifford_unitary \<Rightarrow> key \<Rightarrow> bitblock list pauli_unitary option" where
  "key_view C = (\<lambda>(b, q). if b then preimage_z_view C q else preimage_x_view C q)"

definition write_key :: "key \<Rightarrow> bitblock list pauli_unitary \<Rightarrow> clifford_unitary \<Rightarrow> clifford_unitary option" where
  "write_key = (\<lambda>(b, q). if b then write_z_view q else write_x_view q)"

definition fam :: "clifford_unitary \<Rightarrow> key \<Rightarrow> pauli_op" where
  "fam C key = (if snd key < num_qubits C
     then ({j. mat_bit (clifford_bits C) (fst (key_rows (num_qubits C) key)) j},
           {j. mat_bit (clifford_bits C) (snd (key_rows (num_qubits C) key)) j},
           ph (preimage_phase_exponents C ! key_phase key))
     else pone)"

abbreviation cx :: "clifford_unitary \<Rightarrow> nat \<Rightarrow> pauli_op" where "cx C q \<equiv> fam C (False, q)"
abbreviation cz :: "clifford_unitary \<Rightarrow> nat \<Rightarrow> pauli_op" where "cz C q \<equiv> fam C (True, q)"

definition clifford_ok :: "clifford_unitary \<Rightarrow> bool" where
  "clifford_ok C \<longleftrightarrow> mat_ok (clifford_bits C) \<and> mat_clean (clifford_bits C) \<and>
     row_count (clifford_bits C) = 4 * num_qubits C \<and> length (preimage_phase_exponents C) = 2 * num_qubits C"

definition fits :: "nat \<Rightarrow> bitblock list pauli_unitary \<Rightarrow> bool" where
  "fits n p \<longleftrightarrow> dense_ok p \<and> length (px p) = rowstride_of n \<and> pauli_on n (dense_sem p)"

text \<open>Rows and phases of different keys are disjoint.\<close>

lemma key_rows_less: "snd key < n \<Longrightarrow> fst (key_rows n key) < 4 * n" "snd key < n \<Longrightarrow> snd (key_rows n key) < 4 * n"
  by (cases key; simp add: key_rows_def row_ids)+

lemma key_rows_distinct:
  assumes "snd k < n" "snd k' < n"
  shows "fst (key_rows n k) \<noteq> snd (key_rows n k')" "fst (key_rows n k) = fst (key_rows n k') \<longleftrightarrow> k = k'"
    "snd (key_rows n k) = snd (key_rows n k') \<longleftrightarrow> k = k'"
  using assms by (cases k; cases k'; auto simp: key_rows_def row_ids)+

lemma key_phase_less: "snd key < n \<Longrightarrow> key_phase key < 2 * n"
  by (cases key) (simp add: key_phase_def phase_of_preimage_x_def phase_of_preimage_z_def)

lemma key_phase_eq [simp]: "key_phase k = key_phase k' \<longleftrightarrow> k = k'"
proof (cases k; cases k')
  fix b q b' q'
  assume "k = (b, q)" "k' = (b', q')"
  moreover have "2 * q \<noteq> Suc (2 * q')" "Suc (2 * q) \<noteq> 2 * q'" by presburger+
  ultimately show ?thesis by (auto simp: key_phase_def phase_of_preimage_x_def phase_of_preimage_z_def)
qed

lemma write_key_eq: "write_key key p C = write_view (key_rows (num_qubits C) key) (key_phase key) p C"
  by (cases key) (simp add: write_key_def key_rows_def key_phase_def write_x_view_def write_z_view_def)

lemma key_view_eq: "key_view C key = do {
     (x, z) \<leftarrow> rows2 (clifford_bits C) (key_rows (num_qubits C) key);
     phase \<leftarrow> nth_opt (preimage_phase_exponents C) (key_phase key);
     Some (pauli_from_bits x z phase) }"
  by (cases key) (simp add: key_view_def key_rows_def key_phase_def preimage_x_view_def preimage_z_view_def)

text \<open>Reading and writing a view.\<close>

lemma clifford_ok_rows:
  assumes "clifford_ok C" "snd key < num_qubits C"
  shows "fst (key_rows (num_qubits C) key) < row_count (clifford_bits C)" "snd (key_rows (num_qubits C) key) < row_count (clifford_bits C)"
    "key_phase key < length (preimage_phase_exponents C)"
  using assms key_rows_less [OF assms(2)] key_phase_less [OF assms(2)] by (simp_all add: clifford_ok_def)

lemma mat_bit_row: "i < row_count m \<Longrightarrow> mat_bit m i = blocks_bit (row_blocks m i)"
  by (simp add: mat_bit_def fun_eq_iff)

lemma key_view_run:
  assumes ok: "clifford_ok C" and q: "snd key < num_qubits C"
  shows "\<exists>p. key_view C key = Some p \<and> fits (num_qubits C) p \<and> dense_sem p = fam C key"
proof -
  let ?m = "clifford_bits C" and ?r = "key_rows (num_qubits C) key"
  have m: "mat_ok ?m" "mat_clean ?m" using ok by (simp_all add: clifford_ok_def)
  note r = clifford_ok_rows [OF ok q]
  let ?p = "pauli_from_bits (row_blocks ?m (fst ?r)) (row_blocks ?m (snd ?r)) (preimage_phase_exponents C ! key_phase key)"
  have "key_view C key = Some ?p" using m r by (simp add: key_view_eq rows2_def mat_row_run)
  moreover have sem: "dense_sem ?p = fam C key"
    using r q by (simp add: fam_def psem_def pauli_from_bits_def projective_from_bits_def mat_bit_row)
  moreover have "pauli_on (num_qubits C) (fam C key)"
    using m q by (auto simp: pauli_on_def fam_def mat_clean_def num_qubits_def column_count_def)
  ultimately show ?thesis
    using row_blocks_ok [OF m(1) r(1)] row_blocks_ok [OF m(1) r(2)]
    by (simp add: fits_def pauli_ok_def rowstride_def num_qubits_def column_count_def)
      (simp add: pauli_from_bits_def projective_from_bits_def)
qed

lemma fam_on: "clifford_ok C \<Longrightarrow> pauli_on (num_qubits C) (fam C key)"
proof (cases "snd key < num_qubits C")
  case True
  assume "clifford_ok C"
  from key_view_run [OF this True] show ?thesis by (auto simp: fits_def)
qed (simp add: fam_def)

lemma write_key_run:
  assumes ok: "clifford_ok C" and q: "snd key < num_qubits C" and p: "fits (num_qubits C) p"
  shows "\<exists>C'. write_key key p C = Some C' \<and> clifford_ok C' \<and> num_qubits C' = num_qubits C \<and>
    fam C' = (fam C)(key := dense_sem p)"
proof -
  let ?m = "clifford_bits C" and ?n = "num_qubits C"
  let ?a = "fst (key_rows ?n key)" and ?b = "snd (key_rows ?n key)"
  have m: "mat_ok ?m" "mat_clean ?m" "mat_cols ?m = ?n" using ok by (simp_all add: clifford_ok_def num_qubits_def column_count_def)
  note r = clifford_ok_rows [OF ok q]
  have len: "length (px p) = rowstride ?m" "length (pz p) = rowstride ?m" "blocks_ok (px p)" "blocks_ok (pz p)"
    using p m(3) by (auto simp: fits_def pauli_ok_def rowstride_def)
  define m1 where "m1 = put_row ?a (px p) ?m"
  define m2 where "m2 = put_row ?b (pz p) m1"
  have m1: "mat_ok m1" "mat_bit m1 = (mat_bit ?m)(?a := blocks_bit (px p))"
    using m r len by (simp_all add: m1_def put_row_ok put_row_bit)
  have frame1: "row_count m1 = row_count ?m" "rowstride m1 = rowstride ?m" "mat_cols m1 = mat_cols ?m" by (simp_all add: m1_def)
  have m2: "mat_ok m2" "mat_bit m2 = (mat_bit ?m)(?a := blocks_bit (px p), ?b := blocks_bit (pz p))"
    using m1 r len frame1 by (simp_all add: m2_def put_row_ok put_row_bit)
  have frame: "row_count m2 = row_count ?m" "mat_cols m2 = mat_cols ?m" using frame1 by (simp_all add: m2_def)
  let ?C = "\<lparr> cu_projective = \<lparr> cm_bits = m2 \<rparr>,
    preimage_phase_exponents = (preimage_phase_exponents C)[key_phase key := xz_phase_exp p] \<rparr>"
  have "mat_row_update ?a (\<lambda>_. Some (px p)) ?m = Some m1" "mat_row_update ?b (\<lambda>_. Some (pz p)) m1 = Some m2"
    using mat_row_update_run [OF m(1) r(1), of "\<lambda>_. Some (px p)"] mat_row_update_run [OF m1(1), of ?b "\<lambda>_. Some (pz p)"] r len frame1
    by (simp_all add: m1_def m2_def)
  then have run: "write_key key p C = Some ?C" using r by (simp add: write_key_eq write_view_def)
  have n: "num_qubits ?C = ?n" using frame by (simp add: num_qubits_def column_count_def)
  have bound: "j < ?n" if "blocks_bit (px p) j \<or> blocks_bit (pz p) j" for j
    using p that by (auto simp: fits_def pauli_on_def psem_def)
  have "j < mat_cols m2" if "mat_bit m2 i j" for i j
  proof (cases "i = ?a \<or> i = ?b")
    case True
    with that have "blocks_bit (px p) j \<or> blocks_bit (pz p) j" unfolding m2(2) by (auto split: if_splits)
    then show ?thesis using bound m(3) frame(2) by simp
  next
    case False
    with that have "mat_bit ?m i j" unfolding m2(2) by simp
    then show ?thesis using m(2) frame(2) unfolding mat_clean_def by metis
  qed
  then have "mat_clean m2" unfolding mat_clean_def by blast
  then have "clifford_ok ?C" using m2(1) frame n ok by (simp add: clifford_ok_def)
  moreover have "fam ?C k = ((fam C)(key := dense_sem p)) k" for k
  proof (cases "snd k < ?n")
    case True
    let ?c = "fst (key_rows ?n k)" and ?d = "snd (key_rows ?n k)"
    have ab: "?a \<noteq> ?b" using key_rows_distinct(1) [OF q q] .
    have f: "fam ?C k = ({j. mat_bit m2 ?c j}, {j. mat_bit m2 ?d j}, ph (((preimage_phase_exponents C)[key_phase key := xz_phase_exp p]) ! key_phase k))"
      unfolding fam_def n using True by simp
    show ?thesis
    proof (cases "k = key")
      case True
      have "mat_bit m2 ?a = blocks_bit (px p)" "mat_bit m2 ?b = blocks_bit (pz p)" using ab by (simp_all add: m2(2))
      with f r(3) show ?thesis unfolding True by (simp add: psem_def)
    next
      case False
      then have "?c \<noteq> ?a" "?c \<noteq> ?b" "?d \<noteq> ?a" "?d \<noteq> ?b" "key_phase key \<noteq> key_phase k"
        using key_rows_distinct [OF \<open>snd k < ?n\<close> q] key_rows_distinct(1) [OF q \<open>snd k < ?n\<close>] by auto
      then have "mat_bit m2 ?c = mat_bit ?m ?c" "mat_bit m2 ?d = mat_bit ?m ?d" by (simp_all add: m2(2))
      with f False \<open>key_phase key \<noteq> key_phase k\<close> \<open>snd k < ?n\<close> show ?thesis by (simp add: fam_def)
    qed
  next
    case False
    then have "k \<noteq> key" using q by auto
    then show ?thesis using False n by (simp add: fam_def)
  qed
  ultimately show ?thesis using run n by blast
qed

text \<open>Operations on operators of the width of the rows.\<close>

lemma fits_caps: "fits n p \<Longrightarrow> fits n q \<Longrightarrow> pcap dense_cap p = pcap dense_cap q"
  by (simp add: fits_def pcap_def)

lemma fits_within: "fits n p \<Longrightarrow> i < n \<Longrightarrow> within (pcap dense_cap p) i"
  using block_count_ge [of n] by (simp add: fits_def pcap_def within_def rowstride_block_count)

lemma fits_same:
  assumes "fits n p" "dense_ok r" "pcap dense_cap r = pcap dense_cap p" "pauli_on n (dense_sem r)"
  shows "fits n r"
  using assms by (simp add: fits_def pcap_def)

lemma fits_mul_left:
  assumes "fits n p" "fits n q"
  shows "\<exists>r. mul_assign_left dense_ops q p = Some r \<and> fits n r \<and> dense_sem r = pmul (dense_sem q) (dense_sem p)"
proof -
  have "dense_ok p" "dense_ok q" "pauli_on n (dense_sem p)" "pauli_on n (dense_sem q)" using assms by (simp_all add: fits_def)
  with dense.mul_left [OF this(1,2) fits_caps [OF assms]] fits_same [OF assms(1)] show ?thesis
    using pauli_on_pmul by metis
qed

lemma fits_mul_right:
  assumes "fits n p" "fits n q"
  shows "\<exists>r. mul_assign_right dense_ops q p = Some r \<and> fits n r \<and> dense_sem r = pmul (dense_sem p) (dense_sem q)"
proof -
  have "dense_ok p" "dense_ok q" "pauli_on n (dense_sem p)" "pauli_on n (dense_sem q)" using assms by (simp_all add: fits_def)
  with dense.mul_right [OF this(1,2) fits_caps [OF assms]] fits_same [OF assms(1)] show ?thesis
    using pauli_on_pmul by metis
qed

lemma fits_phase: "fits n p \<Longrightarrow> fits n (add_assign_phase_exp k p)"
    "dense_sem (add_assign_phase_exp k p) = pphase (ph k) (dense_sem p)"
proof -
  show "dense_sem (add_assign_phase_exp k p) = pphase (ph k) (dense_sem p)" by (rule dense.phase_exp)
  then show "fits n p \<Longrightarrow> fits n (add_assign_phase_exp k p)"
    by (auto simp: fits_def dense.phase_exp add_assign_phase_exp_def)
qed

section \<open>The mutable views\<close>

definition becomes :: "clifford_unitary \<Rightarrow> (key \<Rightarrow> pauli_op) \<Rightarrow> clifford_unitary option \<Rightarrow> bool" where
  "becomes C F r \<longleftrightarrow> (\<exists>C'. r = Some C' \<and> clifford_ok C' \<and> num_qubits C' = num_qubits C \<and> fam C' = F)"

definition key_view_mut :: "key \<Rightarrow> view_update \<Rightarrow> clifford_unitary \<Rightarrow> clifford_unitary option" where
  "key_view_mut = (\<lambda>(b, q). if b then preimage_z_view_mut q else preimage_x_view_mut q)"

lemma key_view_mut_eq: "key_view_mut key f C = do { p \<leftarrow> key_view C key; p \<leftarrow> f p; write_key key p C }"
  by (cases key) (simp add: key_view_mut_def key_view_def write_key_def preimage_x_view_mut_def preimage_z_view_mut_def)

lemma key_view_mut_run:
  assumes "clifford_ok C" "snd key < num_qubits C"
    and f: "\<And>p. fits (num_qubits C) p \<Longrightarrow> dense_sem p = fam C key \<Longrightarrow>
      \<exists>r. f p = Some r \<and> fits (num_qubits C) r \<and> dense_sem r = P"
  shows "becomes C ((fam C)(key := P)) (key_view_mut key f C)"
proof -
  obtain p where p: "key_view C key = Some p" "fits (num_qubits C) p" "dense_sem p = fam C key"
    using key_view_run [OF assms(1,2)] by blast
  obtain r where r: "f p = Some r" "fits (num_qubits C) r" "dense_sem r = P" using f [OF p(2,3)] by blast
  show ?thesis using write_key_run [OF assms(1,2) r(2)] p(1) r(1,3) by (simp add: becomes_def key_view_mut_eq)
qed

lemma xz_views_run:
  assumes "clifford_ok C" "q < num_qubits C"
  shows "\<exists>x z. preimage_xz_views C q = Some (x, z) \<and> fits (num_qubits C) x \<and> fits (num_qubits C) z \<and>
    dense_sem x = cx C q \<and> dense_sem z = cz C q"
  using key_view_run [OF assms(1), of "(False, q)"] key_view_run [OF assms(1), of "(True, q)"] assms(2)
  by (auto simp: preimage_xz_views_def key_view_def)

lemma write_xz_views_run:
  assumes "clifford_ok C" "q < num_qubits C" "fits (num_qubits C) x" "fits (num_qubits C) z"
  shows "becomes C ((fam C)((False, q) := dense_sem x, (True, q) := dense_sem z)) (write_xz_views q (x, z) C)"
proof -
  obtain C1 where C1: "write_key (False, q) x C = Some C1" "clifford_ok C1" "num_qubits C1 = num_qubits C"
      "fam C1 = (fam C)((False, q) := dense_sem x)"
    using write_key_run [OF assms(1) _ assms(3), of "(False, q)"] assms(2) by auto
  then show ?thesis using write_key_run [OF C1(2), of "(True, q)" z] assms(2,4)
    by (auto simp: becomes_def write_xz_views_def write_key_def)
qed

lemma becomesE:
  assumes "becomes C F r"
  obtains C' where "r = Some C'" "clifford_ok C'" "num_qubits C' = num_qubits C" "fam C' = F"
  using assms by (auto simp: becomes_def)

lemma xz_mut_run:
  assumes "clifford_ok C" "q < num_qubits C"
    and f: "\<And>x z. fits (num_qubits C) x \<Longrightarrow> fits (num_qubits C) z \<Longrightarrow> dense_sem x = cx C q \<Longrightarrow> dense_sem z = cz C q \<Longrightarrow>
      \<exists>x' z'. f (x, z) = Some (x', z') \<and> fits (num_qubits C) x' \<and> fits (num_qubits C) z' \<and> dense_sem x' = P \<and> dense_sem z' = Q"
  shows "becomes C ((fam C)((False, q) := P, (True, q) := Q)) (preimage_xz_views_mut q f C)"
proof -
  obtain x z where xz: "preimage_xz_views C q = Some (x, z)" "fits (num_qubits C) x" "fits (num_qubits C) z"
      "dense_sem x = cx C q" "dense_sem z = cz C q"
    using xz_views_run [OF assms(1,2)] by blast
  obtain x' z' where xz': "f (x, z) = Some (x', z')" "fits (num_qubits C) x'" "fits (num_qubits C) z'"
      "dense_sem x' = P" "dense_sem z' = Q"
    using f [OF xz(2-)] by blast
  show ?thesis using write_xz_views_run [OF assms(1,2) xz'(2,3)] xz(1) xz'(1,4,5) by (simp add: preimage_xz_views_mut_def)
qed

lemma xz_mut_distinct_run:
  assumes "clifford_ok C" "q0 < num_qubits C" "q1 < num_qubits C" "q0 \<noteq> q1"
    and f: "\<And>x0 z0 x1 z1. fits (num_qubits C) x0 \<Longrightarrow> fits (num_qubits C) z0 \<Longrightarrow> fits (num_qubits C) x1 \<Longrightarrow> fits (num_qubits C) z1 \<Longrightarrow>
      dense_sem x0 = cx C q0 \<Longrightarrow> dense_sem z0 = cz C q0 \<Longrightarrow> dense_sem x1 = cx C q1 \<Longrightarrow> dense_sem z1 = cz C q1 \<Longrightarrow>
      \<exists>x0' z0' x1' z1'. f ((x0, z0), (x1, z1)) = Some ((x0', z0'), (x1', z1')) \<and> fits (num_qubits C) x0' \<and> fits (num_qubits C) z0' \<and>
        fits (num_qubits C) x1' \<and> fits (num_qubits C) z1' \<and>
        dense_sem x0' = P0 \<and> dense_sem z0' = Q0 \<and> dense_sem x1' = P1 \<and> dense_sem z1' = Q1"
  shows "becomes C ((fam C)((False, q0) := P0, (True, q0) := Q0, (False, q1) := P1, (True, q1) := Q1))
    (preimage_xz_views_mut_distinct (q0, q1) f C)"
proof -
  obtain x0 z0 where a: "preimage_xz_views C q0 = Some (x0, z0)" "fits (num_qubits C) x0" "fits (num_qubits C) z0"
      "dense_sem x0 = cx C q0" "dense_sem z0 = cz C q0"
    using xz_views_run [OF assms(1,2)] by blast
  obtain x1 z1 where b: "preimage_xz_views C q1 = Some (x1, z1)" "fits (num_qubits C) x1" "fits (num_qubits C) z1"
      "dense_sem x1 = cx C q1" "dense_sem z1 = cz C q1"
    using xz_views_run [OF assms(1,3)] by blast
  obtain x0' z0' x1' z1' where c: "f ((x0, z0), (x1, z1)) = Some ((x0', z0'), (x1', z1'))"
      "fits (num_qubits C) x0'" "fits (num_qubits C) z0'" "fits (num_qubits C) x1'" "fits (num_qubits C) z1'"
      "dense_sem x0' = P0" "dense_sem z0' = Q0" "dense_sem x1' = P1" "dense_sem z1' = Q1"
    using f [OF a(2,3) b(2,3) a(4,5) b(4,5)] by blast
  obtain C1 where C1: "write_xz_views q0 (x0', z0') C = Some C1" "clifford_ok C1" "num_qubits C1 = num_qubits C"
      "fam C1 = (fam C)((False, q0) := P0, (True, q0) := Q0)"
    using write_xz_views_run [OF assms(1,2) c(2,3)] c(6,7) by (auto elim: becomesE)
  have "becomes C1 ((fam C1)((False, q1) := P1, (True, q1) := Q1)) (write_xz_views q1 (x1', z1') C1)"
    using write_xz_views_run [OF C1(2), of q1 x1' z1'] assms(3) c(4,5,8,9) C1(3) by simp
  then show ?thesis using a(1) b(1) c(1) C1 assms(4) by (simp add: preimage_xz_views_mut_distinct_def becomes_def)
qed

end
