(* ===== verification/Clifford_Gates.thy ===== *)
theory Clifford_Gates
  imports Clifford_State
begin

text \<open>
  What the gates do to a valid Clifford unitary: every \<open>left_mul\<close> returns, keeps the relations of the
  generators, and composes the preimage map with conjugation by the gate.
\<close>

section \<open>Valid unitaries and their preimage map\<close>

definition clifford_valid :: "clifford_unitary \<Rightarrow> bool" where
  "clifford_valid C \<longleftrightarrow> clifford_ok C \<and> symplectic (num_qubits C) (cx C) (cz C)"

definition frame_x :: "clifford_unitary \<Rightarrow> nat \<Rightarrow> pauli_op" where
  "frame_x C = (if clifford_valid C then cx C else xop)"

definition frame_z :: "clifford_unitary \<Rightarrow> nat \<Rightarrow> pauli_op" where
  "frame_z C = (if clifford_valid C then cz C else zop)"

abbreviation cpre :: "clifford_unitary \<Rightarrow> pauli_op \<Rightarrow> pauli_op" where
  "cpre C \<equiv> pre (frame_x C) (frame_z C)"

interpretation clifford: symplectic_frame "num_qubits C" "frame_x C" "frame_z C" for C
  by unfold_locales (simp add: frame_x_def frame_z_def clifford_valid_def generators_frame)

definition gen :: "key \<Rightarrow> pauli_op" where
  "gen = (\<lambda>(b, q). if b then zop q else xop q)"

lemma gen_simps [simp]: "gen (False, q) = xop q" "gen (True, q) = zop q"
  by (simp_all add: gen_def)

lemma gen_on [simp]: "snd key < n \<Longrightarrow> pauli_on n (gen key)"
  by (cases key) (simp add: gen_def)

lemma cpre_gen: "clifford_valid C \<Longrightarrow> snd key < num_qubits C \<Longrightarrow> cpre C (gen key) = fam C key"
  using clifford.pre_generators [of _ C] by (cases key) (simp add: gen_def frame_x_def frame_z_def)

lemma cpre_fam:
  assumes "clifford_valid C"
  shows "q < num_qubits C \<Longrightarrow> cpre C (xop q) = cx C q" "q < num_qubits C \<Longrightarrow> cpre C (zop q) = cz C q"
  using cpre_gen [OF assms, of "(False, q)"] cpre_gen [OF assms, of "(True, q)"] by simp_all

section \<open>Automorphisms\<close>

definition automorphism :: "nat \<Rightarrow> (pauli_op \<Rightarrow> pauli_op) \<Rightarrow> bool" where
  "automorphism n h \<longleftrightarrow> (\<forall>P k. pauli_on n P \<longrightarrow> pauli_on n (h P) \<and> h (pphase k P) = pphase k (h P) \<and>
     (\<forall>Q. pauli_on n Q \<longrightarrow> h (pmul P Q) = pmul (h P) (h Q)))"

lemma automorphismI:
  assumes "\<And>P. pauli_on n P \<Longrightarrow> pauli_on n (h P)" "\<And>P k. pauli_on n P \<Longrightarrow> h (pphase k P) = pphase k (h P)"
    "\<And>P Q. pauli_on n P \<Longrightarrow> pauli_on n Q \<Longrightarrow> h (pmul P Q) = pmul (h P) (h Q)"
  shows "automorphism n h"
  using assms by (simp add: automorphism_def)

lemma automorphismD:
  assumes "automorphism n h" "pauli_on n P"
  shows "pauli_on n (h P)" "h (pphase k P) = pphase k (h P)" "pauli_on n Q \<Longrightarrow> h (pmul P Q) = pmul (h P) (h Q)"
  using assms unfolding automorphism_def by blast+

lemma automorphism_pone:
  assumes "automorphism n h"
  shows "h pone = pone"
proof -
  have "pauli_on n (h pone)" using automorphismD(1) [OF assms] by simp
  have "pmul (h pone) (h pone) = h pone" using automorphismD(3) [OF assms, of pone pone] by simp
  then show ?thesis by (cases "h pone") (auto simp: pmul_def pone_def)
qed

lemma automorphism_panti:
  assumes h: "automorphism n h" and "pauli_on n P" "pauli_on n Q"
  shows "panti (h P) (h Q) = panti P Q"
proof -
  have PQ: "pauli_on n (pmul Q P)" using assms(2,3) by (simp add: pauli_on_pmul)
  have "h (pmul P Q) = pphase (sgn_phase (panti P Q)) (pmul (h Q) (h P))"
    using pmul_swap [of P Q] automorphismD(2) [OF h PQ] automorphismD(3) [OF h assms(3,2)] by simp
  moreover have "h (pmul P Q) = pphase (sgn_phase (panti (h P) (h Q))) (pmul (h Q) (h P))"
    using pmul_swap [of "h P"] automorphismD(3) [OF h assms(2,3)] by simp
  ultimately show ?thesis by (simp add: pphase_inject)
qed

lemma automorphism_frame:
  assumes h: "automorphism n h"
  shows "symplectic n (\<lambda>i. h (xop i)) (\<lambda>i. h (zop i))"
proof -
  have "pmul (h P) (h P) = pone" if "pauli_on n P" "pmul P P = pone" for P
    using automorphismD(3) [OF h that(1,1)] that(2) automorphism_pone [OF h] by simp
  with generators_frame [of n] automorphismD(1) [OF h] automorphism_panti [OF h] show ?thesis
    unfolding symplectic_def by simp
qed

text \<open>An automorphism is determined by its values on the generators.\<close>

lemma automorphism_pprod:
  assumes h: "automorphism n h" and "set xs \<subseteq> {..<n}" "\<And>i. i < n \<Longrightarrow> pauli_on n (g i)"
  shows "h (pprod g xs) = pprod (\<lambda>i. h (g i)) xs"
  using assms(2)
proof (induction xs rule: rev_induct)
  case Nil
  then show ?case by (simp add: pprod_def automorphism_pone [OF h])
next
  case (snoc x xs)
  have "pauli_on n (pprod g xs)" by (rule pauli_on_pprod) (use snoc.prems assms(3) in auto)
  moreover have "pauli_on n (g x)" using snoc.prems assms(3) by simp
  ultimately have "h (pmul (pprod g xs) (g x)) = pmul (h (pprod g xs)) (h (g x))" by (rule automorphismD(3) [OF h])
  with snoc show ?case by (simp add: pprod_def)
qed

lemma automorphism_pre:
  assumes h: "automorphism n h" and P: "pauli_on n P"
  shows "pre (\<lambda>i. h (xop i)) (\<lambda>i. h (zop i)) P = h P"
proof -
  have s: "fst P \<subseteq> {..<n}" "fst (snd P) \<subseteq> {..<n}" using P by (simp_all add: pauli_on_def)
  then have fin: "finite (fst P)" "finite (fst (snd P))" by (auto intro: finite_subset)
  then have f: "pauli_on n (fprod xop (fst P))" "pauli_on n (fprod zop (fst (snd P)))" using s by (auto intro!: pauli_on_fprod)
  have "h (fprod xop (fst P)) = fprod (\<lambda>i. h (xop i)) (fst P)" "h (fprod zop (fst (snd P))) = fprod (\<lambda>i. h (zop i)) (fst (snd P))"
    unfolding fprod_def by (rule automorphism_pprod [OF h]; use s fin in simp)+
  moreover have "h P = pphase (snd (snd P)) (pmul (h (fprod xop (fst P))) (h (fprod zop (fst (snd P)))))"
    using pre_identity [OF P] automorphismD(2,3) [OF h] f pauli_on_pmul [OF f] by (metis pre_def)
  ultimately show ?thesis by (simp add: pre_def)
qed

section \<open>Acting on a unitary\<close>

text \<open>\<open>acts C h r\<close>: the operation returned a valid unitary whose preimage map is that of \<open>C\<close> after \<open>h\<close>.\<close>

definition acts :: "clifford_unitary \<Rightarrow> (pauli_op \<Rightarrow> pauli_op) \<Rightarrow> clifford_unitary option \<Rightarrow> bool" where
  "acts C h r \<longleftrightarrow> (\<exists>C'. r = Some C' \<and> clifford_valid C' \<and> num_qubits C' = num_qubits C \<and>
     (\<forall>P. pauli_on (num_qubits C) P \<longrightarrow> cpre C' P = cpre C (h P)))"

lemma actsE:
  assumes "acts C h r"
  obtains C' where "r = Some C'" "clifford_valid C'" "num_qubits C' = num_qubits C"
    "\<And>P. pauli_on (num_qubits C) P \<Longrightarrow> cpre C' P = cpre C (h P)"
  using assms by (auto simp: acts_def)

lemma frame_change:
  assumes v: "clifford_valid C" and h: "automorphism (num_qubits C) h"
    and ok: "clifford_ok C'" "num_qubits C' = num_qubits C"
    and F: "\<And>key. snd key < num_qubits C \<Longrightarrow> fam C' key = cpre C (h (gen key))"
  shows "clifford_valid C'" "pauli_on (num_qubits C) P \<Longrightarrow> cpre C' P = cpre C (h P)"
proof -
  let ?n = "num_qubits C"
  have f: "cx C' i = cpre C (h (xop i))" "cz C' i = cpre C (h (zop i))" if "i < ?n" for i
    using F [of "(False, i)"] F [of "(True, i)"] that by simp_all
  have s: "symplectic ?n (\<lambda>i. cpre C (h (xop i))) (\<lambda>i. cpre C (h (zop i)))"
    by (rule clifford.compose_frame [OF automorphism_frame [OF h]])
  have "symplectic ?n (cx C') (cz C') = symplectic ?n (\<lambda>i. cpre C (h (xop i))) (\<lambda>i. cpre C (h (zop i)))"
    by (rule symplectic_cong) (use f in simp_all)
  with s ok show v': "clifford_valid C'" by (simp add: clifford_valid_def)
  assume P: "pauli_on ?n P"
  have "cpre C' P = pre (\<lambda>i. cpre C (h (xop i))) (\<lambda>i. cpre C (h (zop i))) P"
    by (rule pre_cong [OF P]) (use f v' in \<open>simp_all add: frame_x_def frame_z_def\<close>)
  also have "\<dots> = cpre C (pre (\<lambda>i. h (xop i)) (\<lambda>i. h (zop i)) P)"
    by (rule clifford.compose_pre [OF automorphism_frame [OF h] P])
  also have "\<dots> = cpre C (h P)" using automorphism_pre [OF h P] by simp
  finally show "cpre C' P = cpre C (h P)" .
qed

lemma actsI:
  assumes "clifford_valid C" "automorphism (num_qubits C) h" "becomes C F r"
    and "\<And>key. snd key < num_qubits C \<Longrightarrow> F key = cpre C (h (gen key))"
  shows "acts C h r"
proof -
  obtain C' where C': "r = Some C'" "clifford_ok C'" "num_qubits C' = num_qubits C" "fam C' = F"
    using assms(3) by (rule becomesE)
  show ?thesis using frame_change [OF assms(1,2) C'(2,3)] assms(4) C' by (simp add: acts_def)
qed

lemma acts_cong:
  assumes "acts C h r" "\<And>P. pauli_on (num_qubits C) P \<Longrightarrow> h P = g P"
  shows "acts C g r"
  using assms by (simp add: acts_def)

lemma acts_bind:
  assumes "acts C h r" "\<And>C'. clifford_valid C' \<Longrightarrow> num_qubits C' = num_qubits C \<Longrightarrow> acts C' g (f C')"
    and "automorphism (num_qubits C) g"
  shows "acts C (\<lambda>P. h (g P)) (Option.bind r f)"
proof -
  obtain C' where C': "r = Some C'" "clifford_valid C'" "num_qubits C' = num_qubits C"
      "\<And>P. pauli_on (num_qubits C) P \<Longrightarrow> cpre C' P = cpre C (h P)"
    using assms(1) by (auto elim: actsE)
  show ?thesis using assms(2) [OF C'(2,3)] C' automorphismD(1) [OF assms(3)] by (auto simp: acts_def)
qed

lemma acts_Some: "clifford_valid C \<Longrightarrow> acts C (\<lambda>P. P) (Some C)"
  by (simp add: acts_def)

section \<open>Conjugation by the gates\<close>

definition pconj :: "pauli_op \<Rightarrow> pauli_op \<Rightarrow> pauli_op" where
  "pconj E P = pphase (sgn_phase (panti P E)) P"

text \<open>Conjugation by the gate that applies \<open>F\<close> where \<open>E\<close> is \<open>-1\<close>.\<close>

definition pctrl :: "pauli_op \<Rightarrow> pauli_op \<Rightarrow> pauli_op \<Rightarrow> pauli_op" where
  "pctrl E F P = pmul (if panti P F then E else pone) (pmul P (if panti P E then F else pone))"

definition hconj :: "nat \<Rightarrow> pauli_op \<Rightarrow> pauli_op" where
  "hconj q P = pexp (zop q) (pexp (xop q) (pexp (zop q) P))"

definition swapconj :: "nat \<Rightarrow> nat \<Rightarrow> pauli_op \<Rightarrow> pauli_op" where
  "swapconj a b P = pctrl (zop a) (xop b) (pctrl (zop b) (xop a) (pctrl (zop a) (xop b) P))"

text \<open>An involution on \<open>n\<close> qubits.\<close>

definition pinv_on :: "nat \<Rightarrow> pauli_op \<Rightarrow> bool" where
  "pinv_on n E \<longleftrightarrow> pauli_on n E \<and> pmul E E = pone"

lemma pinv_onD: "pinv_on n E \<Longrightarrow> pauli_on n E" "pinv_on n E \<Longrightarrow> pfinite E" "pinv_on n E \<Longrightarrow> pmul E E = pone"
  unfolding pinv_on_def by (blast intro: pauli_on_finite)+

lemma pinv_on_gen [simp]: "q < n \<Longrightarrow> pinv_on n (xop q)" "q < n \<Longrightarrow> pinv_on n (zop q)" "q < n \<Longrightarrow> pinv_on n (yop q)"
    "pinv_on n E \<Longrightarrow> pinv_on n (pphase 2 E)"
  by (simp_all add: pinv_on_def) (simp_all add: xop_def zop_def yop_def pmul_def pone_def sgn_phase_def par_def)

lemma automorphism_id: "automorphism n (\<lambda>P. P)"
  by (simp add: automorphism_def)

lemma automorphism_comp:
  assumes "automorphism n h" "automorphism n g"
  shows "automorphism n (\<lambda>P. h (g P))"
  by (rule automorphismI) (simp_all add: automorphismD [OF assms(1)] automorphismD [OF assms(2)])

lemma automorphism_pexp:
  assumes "pinv_on n E"
  shows "automorphism n (pexp E)"
proof (rule automorphismI)
  note E = pinv_onD [OF assms]
  fix P Q k
  assume P: "pauli_on n P"
  then show "pauli_on n (pexp E P)" "pexp E (pphase k P) = pphase k (pexp E P)"
    using E(1) by (auto simp: pexp_def add.commute intro: pauli_on_pmul)
  assume "pauli_on n Q"
  with P show "pexp E (pmul P Q) = pmul (pexp E P) (pexp E Q)" using pexp_pmul E(2,3) pauli_on_finite by blast
qed

lemma automorphism_pconj:
  assumes "pinv_on n E"
  shows "automorphism n (pconj E)"
proof (rule automorphismI)
  note E = pinv_onD [OF assms]
  fix P Q k
  assume P: "pauli_on n P"
  then show "pauli_on n (pconj E P)" "pconj E (pphase k P) = pphase k (pconj E P)"
    by (simp_all add: pconj_def add.commute)
  assume "pauli_on n Q"
  with P have "panti (pmul P Q) E = (panti P E \<noteq> panti Q E)"
    using panti_pmul [of P Q E] E(2) pauli_on_finite panti_sym by metis
  then show "pconj E (pmul P Q) = pmul (pconj E P) (pconj E Q)"
    unfolding pconj_def by (simp only: sgn_phase_xor pmul_pphase pphase_simps add.commute)
qed

text \<open>Moving an operator, or the identity, to the left past another.\<close>

lemma pmul_swap_if: "pmul P (if b then E else pone) = pphase (sgn_phase (b \<and> panti P E)) (pmul (if b then E else pone) P)"
  using pmul_swap [of P E] by simp

lemma pmul_if_twice: "pmul E E = pone \<Longrightarrow> pmul (if a then E else pone) (if b then E else pone) = (if a \<noteq> b then E else pone)"
  by simp

lemma pctrl_pmul:
  assumes f: "pfinite P" "pfinite Q" "pfinite E" "pfinite F" and two: "pmul E E = pone" "pmul F F = pone" and comm: "\<not> panti E F"
  shows "pctrl E F (pmul P Q) = pmul (pctrl E F P) (pctrl E F Q)"
proof -
  define e f e' f' where d: "e = panti P E" "f = panti P F" "e' = panti Q E" "f' = panti Q F"
  define A B A' B' where o: "A = (if f then E else pone)" "B = (if e then F else pone)" "A' = (if f' then E else pone)" "B' = (if e' then F else pone)"
  have fin: "pfinite A" "pfinite B" "pfinite A'" "pfinite B'" using f by (simp_all add: o)
  have s: "panti (pmul P Q) E = (e \<noteq> e')" "panti (pmul P Q) F = (f \<noteq> f')"
    using panti_pmul [of P Q E] panti_pmul [of P Q F] f panti_sym by (metis d)+
  have BA: "pmul B A' = pmul A' B" using pmul_swap_if [of B f' E] comm panti_sym [of E F] by (simp add: o)
  have PA: "pmul P A' = pphase (sgn_phase (f' \<and> e)) (pmul A' P)" using pmul_swap_if [of P f' E] by (simp add: o d)
  have QB: "pmul B Q = pphase (sgn_phase (e \<and> f')) (pmul Q B)"
    using pmul_swap_if [of Q e F] f by (cases "e \<and> f'") (auto simp: o d(4) sgn_phase_def)
  have "pmul (pctrl E F P) (pctrl E F Q) = pmul A (pmul (pmul P (pmul B A')) (pmul Q B'))"
    using fin f by (simp add: pctrl_def pmul_assoc flip: d o)
  also have "\<dots> = pmul A (pmul (pmul P A') (pmul (pmul B Q) B'))" using fin f BA by (simp add: pmul_assoc)
  also have "\<dots> = pmul (pmul A A') (pmul (pmul P Q) (pmul B B'))"
    unfolding PA QB using fin f by (simp add: pmul_assoc conj_commute)
  also have "\<dots> = pctrl E F (pmul P Q)"
    using two by (simp add: o pctrl_def s pmul_if_twice del: pmul_pone)
  finally show ?thesis by simp
qed

lemma automorphism_pctrl:
  assumes "pinv_on n E" "pinv_on n F" "\<not> panti E F"
  shows "automorphism n (pctrl E F)"
proof (rule automorphismI)
  note E = pinv_onD [OF assms(1)] and F = pinv_onD [OF assms(2)]
  fix P Q k
  assume P: "pauli_on n P"
  then show "pauli_on n (pctrl E F P)" using E F by (auto simp: pctrl_def intro!: pauli_on_pmul)
  show "pctrl E F (pphase k P) = pphase k (pctrl E F P)" by (simp add: pctrl_def)
  assume "pauli_on n Q"
  with P show "pctrl E F (pmul P Q) = pmul (pctrl E F P) (pctrl E F Q)"
    using pctrl_pmul E(2,3) F(2,3) assms(3) pauli_on_finite by blast
qed

lemma panti_gens [simp]: "panti (xop a) (zop b) = (a = b)" "panti (zop a) (xop b) = (a = b)"
    "\<not> panti (xop a) (xop b)" "\<not> panti (zop a) (zop b)"
  by (auto simp: panti_generators) (auto simp: xop_def zop_def)

lemma panti_yop [simp]: "panti (xop a) (yop b) = (a = b)" "panti (zop a) (yop b) = (a = b)"
  by (auto simp: panti_generators yop_def)

lemma automorphism_hconj: "q < n \<Longrightarrow> automorphism n (hconj q)"
  unfolding hconj_def by (rule automorphism_comp [OF automorphism_pexp automorphism_comp [OF automorphism_pexp automorphism_pexp]]) simp_all

lemma automorphism_cx: "a < n \<Longrightarrow> b < n \<Longrightarrow> a \<noteq> b \<Longrightarrow> automorphism n (pctrl (zop a) (xop b))"
  by (intro automorphism_pctrl) simp_all

lemma automorphism_cz: "a < n \<Longrightarrow> b < n \<Longrightarrow> automorphism n (pctrl (zop a) (zop b))"
  by (intro automorphism_pctrl) simp_all

lemma automorphism_swapconj: "a < n \<Longrightarrow> b < n \<Longrightarrow> a \<noteq> b \<Longrightarrow> automorphism n (swapconj a b)"
  unfolding swapconj_def by (rule automorphism_comp [OF automorphism_cx automorphism_comp [OF automorphism_cx automorphism_cx]]) simp_all

fun gate_conj :: "unitary_op \<Rightarrow> nat list \<Rightarrow> pauli_op \<Rightarrow> pauli_op" where
  "gate_conj OpI support P = P"
| "gate_conj OpX support P = pconj (xop (support ! 0)) P"
| "gate_conj OpY support P = pconj (yop (support ! 0)) P"
| "gate_conj OpZ support P = pconj (zop (support ! 0)) P"
| "gate_conj SqrtX support P = pexp (xop (support ! 0)) P"
| "gate_conj SqrtXInv support P = pexp (pphase 2 (xop (support ! 0))) P"
| "gate_conj SqrtY support P = pexp (yop (support ! 0)) P"
| "gate_conj SqrtYInv support P = pexp (pphase 2 (yop (support ! 0))) P"
| "gate_conj SqrtZ support P = pexp (zop (support ! 0)) P"
| "gate_conj SqrtZInv support P = pexp (pphase 2 (zop (support ! 0))) P"
| "gate_conj Hadamard support P = hconj (support ! 0) P"
| "gate_conj Swap support P = swapconj (support ! 0) (support ! 1) P"
| "gate_conj ControlledX support P = pctrl (zop (support ! 0)) (xop (support ! 1)) P"
| "gate_conj ControlledZ support P = pctrl (zop (support ! 0)) (zop (support ! 1)) P"
| "gate_conj PrepareBell support P = hconj (support ! 0) (pctrl (zop (support ! 0)) (xop (support ! 1)) P)"

definition gate_arity :: "unitary_op \<Rightarrow> nat" where
  "gate_arity op = (case op of OpI \<Rightarrow> 0 | Swap \<Rightarrow> 2 | ControlledX \<Rightarrow> 2 | ControlledZ \<Rightarrow> 2 | PrepareBell \<Rightarrow> 2 | _ \<Rightarrow> 1)"

definition gate_fits :: "nat \<Rightarrow> unitary_op \<Rightarrow> nat list \<Rightarrow> bool" where
  "gate_fits n op support \<longleftrightarrow> op = OpI \<or> length support = gate_arity op \<and> distinct support \<and> (\<forall>q \<in> set support. q < n)"

lemma gate_fits_one: "gate_arity op = 1 \<Longrightarrow> gate_fits n op support \<longleftrightarrow> (\<exists>q < n. support = [q])"
  by (auto simp: gate_fits_def gate_arity_def length_Suc_conv)

lemma gate_fits_two: "gate_arity op = 2 \<Longrightarrow> gate_fits n op support \<longleftrightarrow> (\<exists>a < n. \<exists>b < n. a \<noteq> b \<and> support = [a, b])"
  by (auto simp: gate_fits_def gate_arity_def length_Suc_conv numeral_2_eq_2)

section \<open>The gates refine conjugation\<close>

lemma cpre_simps [simp]:
  "pauli_on (num_qubits C) P \<Longrightarrow> pauli_on (num_qubits C) Q \<Longrightarrow> cpre C (pmul P Q) = pmul (cpre C P) (cpre C Q)"
  "cpre C (pphase k P) = pphase k (cpre C P)" "cpre C pone = pone"
  by (simp_all add: clifford.pre_pmul)

lemma one_gate_acts:
  assumes v: "clifford_valid C" and q: "q < num_qubits C" and h: "automorphism (num_qubits C) h"
    and fixed: "\<And>b p. p \<noteq> q \<Longrightarrow> h (gen (b, p)) = gen (b, p)"
    and f: "\<And>x z. fits (num_qubits C) x \<Longrightarrow> fits (num_qubits C) z \<Longrightarrow> dense_sem x = cx C q \<Longrightarrow> dense_sem z = cz C q \<Longrightarrow>
      \<exists>x' z'. f (x, z) = Some (x', z') \<and> fits (num_qubits C) x' \<and> fits (num_qubits C) z' \<and>
        dense_sem x' = cpre C (h (xop q)) \<and> dense_sem z' = cpre C (h (zop q))"
  shows "acts C h (preimage_xz_views_mut q f C)"
proof (rule actsI [OF v h])
  show "becomes C ((fam C)((False, q) := cpre C (h (xop q)), (True, q) := cpre C (h (zop q)))) (preimage_xz_views_mut q f C)"
    by (rule xz_mut_run; (rule q | rule f)?) (use v in \<open>simp_all add: clifford_valid_def\<close>)
  fix key :: key
  assume "snd key < num_qubits C"
  then show "((fam C)((False, q) := cpre C (h (xop q)), (True, q) := cpre C (h (zop q)))) key = cpre C (h (gen key))"
  proof (cases "snd key = q")
    case True
    then show ?thesis by (cases key; cases "fst key") simp_all
  next
    case False
    then have "h (gen key) = gen key" using fixed [of "snd key" "fst key"] by simp
    with False cpre_gen [OF v \<open>snd key < num_qubits C\<close>] show ?thesis by (cases key) auto
  qed
qed

lemma pexp_fixed:
  "p \<noteq> q \<Longrightarrow> pexp (xop q) (gen (b, p)) = gen (b, p)" "p \<noteq> q \<Longrightarrow> pexp (zop q) (gen (b, p)) = gen (b, p)"
  "p \<noteq> q \<Longrightarrow> pexp (yop q) (gen (b, p)) = gen (b, p)" "p \<noteq> q \<Longrightarrow> pexp (pphase 2 (xop q)) (gen (b, p)) = gen (b, p)"
  "p \<noteq> q \<Longrightarrow> pexp (pphase 2 (zop q)) (gen (b, p)) = gen (b, p)" "p \<noteq> q \<Longrightarrow> pexp (pphase 2 (yop q)) (gen (b, p)) = gen (b, p)"
  by (cases b; simp add: pexp_def)+

lemma pconj_fixed:
  "p \<noteq> q \<Longrightarrow> pconj (xop q) (gen (b, p)) = gen (b, p)" "p \<noteq> q \<Longrightarrow> pconj (zop q) (gen (b, p)) = gen (b, p)"
  "p \<noteq> q \<Longrightarrow> pconj (yop q) (gen (b, p)) = gen (b, p)"
  by (cases b; simp add: pconj_def)+

text \<open>The square roots multiply one preimage by the other and add a phase.\<close>

lemma root_z_step:
  assumes v: "clifford_valid C" and q: "q < num_qubits C" and k: "ph k = 1 + l" "l = 0 \<or> l = 2"
  shows "acts C (pexp (pphase l (zop q))) (preimage_xz_views_mut q (\<lambda>(x, z). do {
    x \<leftarrow> mul_assign_left dense_ops z x; Some (add_assign_phase_exp k x, z) }) C)"
proof (rule one_gate_acts [OF v q])
  show "automorphism (num_qubits C) (pexp (pphase l (zop q)))" using q k(2) by (auto intro: automorphism_pexp)
  show "pexp (pphase l (zop q)) (gen (b, p)) = gen (b, p)" if "p \<noteq> q" for b p using k(2) pexp_fixed that by auto
  fix x z
  assume a: "fits (num_qubits C) x" "fits (num_qubits C) z" "dense_sem x = cx C q" "dense_sem z = cz C q"
  have "cpre C (pexp (pphase l (zop q)) (xop q)) = pphase (ph k) (pmul (cz C q) (cx C q))"
    "cpre C (pexp (pphase l (zop q)) (zop q)) = cz C q"
    using q cpre_fam [OF v q] k(1) by (simp_all add: pexp_def add.commute)
  then show "\<exists>x' z'. (case (x, z) of (x, z) \<Rightarrow> do { x \<leftarrow> mul_assign_left dense_ops z x; Some (add_assign_phase_exp k x, z) }) = Some (x', z') \<and>
      fits (num_qubits C) x' \<and> fits (num_qubits C) z' \<and> dense_sem x' = cpre C (pexp (pphase l (zop q)) (xop q)) \<and>
      dense_sem z' = cpre C (pexp (pphase l (zop q)) (zop q))"
    using fits_mul_left [OF a(1,2)] a by (auto simp: fits_phase)
qed

lemma root_x_step:
  assumes v: "clifford_valid C" and q: "q < num_qubits C" and k: "ph k = 1 + l" "l = 0 \<or> l = 2"
  shows "acts C (pexp (pphase l (xop q))) (preimage_xz_views_mut q (\<lambda>(x, z). do {
    z \<leftarrow> mul_assign_left dense_ops x z; Some (x, add_assign_phase_exp k z) }) C)"
proof (rule one_gate_acts [OF v q])
  show "automorphism (num_qubits C) (pexp (pphase l (xop q)))" using q k(2) by (auto intro: automorphism_pexp)
  show "pexp (pphase l (xop q)) (gen (b, p)) = gen (b, p)" if "p \<noteq> q" for b p using k(2) pexp_fixed that by auto
  fix x z
  assume a: "fits (num_qubits C) x" "fits (num_qubits C) z" "dense_sem x = cx C q" "dense_sem z = cz C q"
  have "cpre C (pexp (pphase l (xop q)) (zop q)) = pphase (ph k) (pmul (cx C q) (cz C q))"
    "cpre C (pexp (pphase l (xop q)) (xop q)) = cx C q"
    using q cpre_fam [OF v q] k(1) by (simp_all add: pexp_def add.commute)
  then show "\<exists>x' z'. (case (x, z) of (x, z) \<Rightarrow> do { z \<leftarrow> mul_assign_left dense_ops x z; Some (x, add_assign_phase_exp k z) }) = Some (x', z') \<and>
      fits (num_qubits C) x' \<and> fits (num_qubits C) z' \<and> dense_sem x' = cpre C (pexp (pphase l (xop q)) (xop q)) \<and>
      dense_sem z' = cpre C (pexp (pphase l (xop q)) (zop q))"
    using fits_mul_left [OF a(2,1)] a by (auto simp: fits_phase)
qed

lemma root_acts:
  assumes "clifford_valid C" "q < num_qubits C"
  shows "acts C (pexp (zop q)) (left_mul_root_z q C)" "acts C (pexp (pphase 2 (zop q))) (left_mul_root_z_inverse q C)"
    "acts C (pexp (xop q)) (left_mul_root_x q C)" "acts C (pexp (pphase 2 (xop q))) (left_mul_root_x_inverse q C)"
  using root_z_step [OF assms, of 1 0] root_z_step [OF assms, of 3 2] root_x_step [OF assms, of 1 0] root_x_step [OF assms, of 3 2]
  by (simp_all add: left_mul_root_z_def left_mul_root_z_inverse_def left_mul_root_x_def left_mul_root_x_inverse_def)

text \<open>The Pauli gates flip signs.\<close>

lemma pauli_gate_step:
  assumes v: "clifford_valid C" and q: "q < num_qubits C"
    and h: "h = pconj E" "pinv_on (num_qubits C) E" "\<And>b p. p \<noteq> q \<Longrightarrow> pconj E (gen (b, p)) = gen (b, p)"
    and k: "ph k = sgn_phase (panti (xop q) E)" "ph l = sgn_phase (panti (zop q) E)"
  shows "acts C h (preimage_xz_views_mut q (\<lambda>(x, z). Some (add_assign_phase_exp k x, add_assign_phase_exp l z)) C)"
proof (rule one_gate_acts [OF v q])
  show "automorphism (num_qubits C) h" using h by (simp add: automorphism_pconj)
  show "h (gen (b, p)) = gen (b, p)" if "p \<noteq> q" for b p using h that by simp
  fix x z
  assume a: "fits (num_qubits C) x" "fits (num_qubits C) z" "dense_sem x = cx C q" "dense_sem z = cz C q"
  have "cpre C (h (xop q)) = pphase (ph k) (cx C q)" "cpre C (h (zop q)) = pphase (ph l) (cz C q)"
    using cpre_fam [OF v q] h(1) k by (simp_all add: pconj_def)
  with a show "\<exists>x' z'. (case (x, z) of (x, z) \<Rightarrow> Some (add_assign_phase_exp k x, add_assign_phase_exp l z)) = Some (x', z') \<and>
      fits (num_qubits C) x' \<and> fits (num_qubits C) z' \<and> dense_sem x' = cpre C (h (xop q)) \<and> dense_sem z' = cpre C (h (zop q))"
    by (simp add: fits_phase)
qed

lemma add_zero_phase: "add_assign_phase_exp 0 p = p"
  by (simp add: add_assign_phase_exp_def phase_add_assign_def)

lemma pauli_acts:
  assumes "clifford_valid C" "q < num_qubits C"
  shows "acts C (pconj (xop q)) (left_mul_x q C)" "acts C (pconj (yop q)) (left_mul_y q C)" "acts C (pconj (zop q)) (left_mul_z q C)"
  using pauli_gate_step [OF assms refl, of "xop q" 0 2] pauli_gate_step [OF assms refl, of "yop q" 2 2]
    pauli_gate_step [OF assms refl, of "zop q" 2 0] assms(2) pconj_fixed
  by (simp_all add: left_mul_x_def left_mul_y_def left_mul_z_def add_zero_phase sgn_phase_def)

text \<open>The controlled gates.\<close>

lemma two_gate_acts:
  assumes v: "clifford_valid C" and q: "a < num_qubits C" "b < num_qubits C" "a \<noteq> b" and h: "automorphism (num_qubits C) h"
    and fixed: "\<And>k p. p \<noteq> a \<Longrightarrow> p \<noteq> b \<Longrightarrow> h (gen (k, p)) = gen (k, p)"
    and f: "\<And>x0 z0 x1 z1. fits (num_qubits C) x0 \<Longrightarrow> fits (num_qubits C) z0 \<Longrightarrow> fits (num_qubits C) x1 \<Longrightarrow> fits (num_qubits C) z1 \<Longrightarrow>
      dense_sem x0 = cx C a \<Longrightarrow> dense_sem z0 = cz C a \<Longrightarrow> dense_sem x1 = cx C b \<Longrightarrow> dense_sem z1 = cz C b \<Longrightarrow>
      \<exists>x0' z0' x1' z1'. f ((x0, z0), (x1, z1)) = Some ((x0', z0'), (x1', z1')) \<and> fits (num_qubits C) x0' \<and> fits (num_qubits C) z0' \<and>
        fits (num_qubits C) x1' \<and> fits (num_qubits C) z1' \<and> dense_sem x0' = cpre C (h (xop a)) \<and> dense_sem z0' = cpre C (h (zop a)) \<and>
        dense_sem x1' = cpre C (h (xop b)) \<and> dense_sem z1' = cpre C (h (zop b))"
  shows "acts C h (preimage_xz_views_mut_distinct (a, b) f C)"
proof (rule actsI [OF v h])
  let ?F = "(fam C)((False, a) := cpre C (h (xop a)), (True, a) := cpre C (h (zop a)),
    (False, b) := cpre C (h (xop b)), (True, b) := cpre C (h (zop b)))"
  show "becomes C ?F (preimage_xz_views_mut_distinct (a, b) f C)"
    by (rule xz_mut_distinct_run; (rule q | rule f)?) (use v in \<open>simp_all add: clifford_valid_def\<close>)
  fix key :: key
  assume k: "snd key < num_qubits C"
  show "?F key = cpre C (h (gen key))"
  proof (cases "snd key = a \<or> snd key = b")
    case True
    then show ?thesis using q(3) by (cases key; cases "fst key") auto
  next
    case False
    then have "h (gen key) = gen key" using fixed [of "snd key" "fst key"] by simp
    with False cpre_gen [OF v k] show ?thesis by (cases key) auto
  qed
qed

lemma pctrl_gens:
  assumes "a \<noteq> b"
  shows "pctrl (zop a) (xop b) (xop a) = pmul (xop a) (xop b)" "pctrl (zop a) (xop b) (zop a) = zop a"
    "pctrl (zop a) (xop b) (xop b) = xop b" "pctrl (zop a) (xop b) (zop b) = pmul (zop a) (zop b)"
    "pctrl (zop a) (zop b) (xop a) = pmul (xop a) (zop b)" "pctrl (zop a) (zop b) (zop a) = zop a"
    "pctrl (zop a) (zop b) (xop b) = pmul (zop a) (xop b)" "pctrl (zop a) (zop b) (zop b) = zop b"
    "p \<noteq> a \<Longrightarrow> p \<noteq> b \<Longrightarrow> pctrl (zop a) (xop b) (gen (k, p)) = gen (k, p)"
    "p \<noteq> a \<Longrightarrow> p \<noteq> b \<Longrightarrow> pctrl (zop a) (zop b) (gen (k, p)) = gen (k, p)"
  using assms by (simp_all add: pctrl_def) (cases k; simp)+

lemma gens_commute: "a \<noteq> b \<Longrightarrow> pmul (xop b) (xop a) = pmul (xop a) (xop b)" "a \<noteq> b \<Longrightarrow> pmul (zop b) (xop a) = pmul (xop a) (zop b)"
  using pmul_swap [of "xop b" "xop a"] pmul_swap [of "zop b" "xop a"] by simp_all

lemma cx_acts:
  assumes v: "clifford_valid C" and q: "a < num_qubits C" "b < num_qubits C" "a \<noteq> b"
  shows "acts C (pctrl (zop a) (xop b)) (left_mul_cx a b C)"
  unfolding left_mul_cx_def
proof (rule two_gate_acts [OF v q automorphism_cx [OF q]])
  show "pctrl (zop a) (xop b) (gen (k, p)) = gen (k, p)" if "p \<noteq> a" "p \<noteq> b" for k p using that pctrl_gens(9,10) [OF q(3)] by blast
  fix x0 z0 x1 z1
  assume f: "fits (num_qubits C) x0" "fits (num_qubits C) z0" "fits (num_qubits C) x1" "fits (num_qubits C) z1"
    and d: "dense_sem x0 = cx C a" "dense_sem z0 = cz C a" "dense_sem x1 = cx C b" "dense_sem z1 = cz C b"
  have "cpre C (pmul (xop a) (xop b)) = pmul (cx C b) (cx C a)" "cpre C (pmul (zop a) (zop b)) = pmul (cz C a) (cz C b)"
    using q cpre_fam [OF v] gens_commute(1) [OF q(3)] by (simp_all flip: gens_commute(1) [OF q(3)])
  with f d show "\<exists>x0' z0' x1' z1'. (\<lambda>((xc, zc), (xt, zt)). do {
       xc \<leftarrow> mul_assign_left dense_ops xt xc; zt \<leftarrow> mul_assign_left dense_ops zc zt; Some ((xc, zc), (xt, zt)) }) ((x0, z0), (x1, z1)) = Some ((x0', z0'), (x1', z1')) \<and>
      fits (num_qubits C) x0' \<and> fits (num_qubits C) z0' \<and> fits (num_qubits C) x1' \<and> fits (num_qubits C) z1' \<and>
      dense_sem x0' = cpre C (pctrl (zop a) (xop b) (xop a)) \<and> dense_sem z0' = cpre C (pctrl (zop a) (xop b) (zop a)) \<and>
      dense_sem x1' = cpre C (pctrl (zop a) (xop b) (xop b)) \<and> dense_sem z1' = cpre C (pctrl (zop a) (xop b) (zop b))"
    using fits_mul_left [OF f(1,3)] fits_mul_left [OF f(4,2)] cpre_fam [OF v] q unfolding pctrl_gens [OF q(3)] by auto
qed

lemma cz_acts:
  assumes v: "clifford_valid C" and q: "a < num_qubits C" "b < num_qubits C" "a \<noteq> b"
  shows "acts C (pctrl (zop a) (zop b)) (left_mul_cz a b C)"
  unfolding left_mul_cz_def
proof (rule two_gate_acts [OF v q automorphism_cz [OF q(1,2)]])
  show "pctrl (zop a) (zop b) (gen (k, p)) = gen (k, p)" if "p \<noteq> a" "p \<noteq> b" for k p using that pctrl_gens(9,10) [OF q(3)] by blast
  fix x0 z0 x1 z1
  assume f: "fits (num_qubits C) x0" "fits (num_qubits C) z0" "fits (num_qubits C) x1" "fits (num_qubits C) z1"
    and d: "dense_sem x0 = cx C a" "dense_sem z0 = cz C a" "dense_sem x1 = cx C b" "dense_sem z1 = cz C b"
  have "cpre C (pmul (xop a) (zop b)) = pmul (cz C b) (cx C a)" "cpre C (pmul (zop a) (xop b)) = pmul (cz C a) (cx C b)"
    using q cpre_fam [OF v] by (simp_all flip: gens_commute(2) [OF q(3)])
  with f d show "\<exists>x0' z0' x1' z1'. (\<lambda>((xc, zc), (xt, zt)). do {
       xc \<leftarrow> mul_assign_left dense_ops zt xc; xt \<leftarrow> mul_assign_left dense_ops zc xt; Some ((xc, zc), (xt, zt)) }) ((x0, z0), (x1, z1)) = Some ((x0', z0'), (x1', z1')) \<and>
      fits (num_qubits C) x0' \<and> fits (num_qubits C) z0' \<and> fits (num_qubits C) x1' \<and> fits (num_qubits C) z1' \<and>
      dense_sem x0' = cpre C (pctrl (zop a) (zop b) (xop a)) \<and> dense_sem z0' = cpre C (pctrl (zop a) (zop b) (zop a)) \<and>
      dense_sem x1' = cpre C (pctrl (zop a) (zop b) (xop b)) \<and> dense_sem z1' = cpre C (pctrl (zop a) (zop b) (zop b))"
    using fits_mul_left [OF f(1,4)] fits_mul_left [OF f(3,2)] cpre_fam [OF v] q unfolding pctrl_gens [OF q(3)] by auto
qed

text \<open>Exchanging two preimages.\<close>

definition swap_keys :: "key \<Rightarrow> key \<Rightarrow> clifford_unitary \<Rightarrow> clifford_unitary option" where
  "swap_keys k l C = do {
     let r = key_rows (num_qubits C) k; let s = key_rows (num_qubits C) l;
     m \<leftarrow> mat_swap_rows (fst r) (fst s) (clifford_bits C);
     m \<leftarrow> mat_swap_rows (snd r) (snd s) m;
     phases \<leftarrow> swap_opt (key_phase k) (key_phase l) (preimage_phase_exponents C);
     Some \<lparr> cu_projective = \<lparr> cm_bits = m \<rparr>, preimage_phase_exponents = phases \<rparr> }"

definition swap_key :: "key \<Rightarrow> key \<Rightarrow> key \<Rightarrow> key" where
  "swap_key k l x = (if x = k then l else if x = l then k else x)"

lemma row_swap_clean: "mat_clean m \<Longrightarrow> mat_bit m' = row_swap a b (mat_bit m) \<Longrightarrow> mat_cols m' = mat_cols m \<Longrightarrow> mat_clean m'"
  by (simp add: mat_clean_def row_swap_def)

lemma swap_keys_run:
  assumes ok: "clifford_ok C" and q: "snd k < num_qubits C" "snd l < num_qubits C"
  shows "becomes C (\<lambda>x. fam C (swap_key k l x)) (swap_keys k l C)"
proof -
  let ?m = "clifford_bits C" and ?n = "num_qubits C"
  let ?r = "key_rows ?n k" and ?s = "key_rows ?n l"
  note r = clifford_ok_rows [OF ok q(1)] and s = clifford_ok_rows [OF ok q(2)]
  have m: "mat_ok ?m" "mat_clean ?m" using ok by (simp_all add: clifford_ok_def)
  obtain m1 where m1: "mat_swap_rows (fst ?r) (fst ?s) ?m = Some m1" "same_shape m1 ?m" "mat_bit m1 = row_swap (fst ?r) (fst ?s) (mat_bit ?m)"
    using mat_swap_rows_run [OF m(1) r(1) s(1)] by blast
  note sh1 = same_shapeD [OF m1(2)]
  obtain m2 where m2: "mat_swap_rows (snd ?r) (snd ?s) m1 = Some m2" "same_shape m2 m1" "mat_bit m2 = row_swap (snd ?r) (snd ?s) (mat_bit m1)"
    using mat_swap_rows_run [OF sh1(1), of "snd ?r" "snd ?s"] r(2) s(2) sh1(2) by auto
  note sh2 = same_shapeD [OF m2(2)]
  let ?ph = "(preimage_phase_exponents C)[key_phase k := preimage_phase_exponents C ! key_phase l, key_phase l := preimage_phase_exponents C ! key_phase k]"
  let ?C = "\<lparr> cu_projective = \<lparr> cm_bits = m2 \<rparr>, preimage_phase_exponents = ?ph \<rparr>"
  have run: "swap_keys k l C = Some ?C" using m1(1) m2(1) r(3) s(3) by (simp add: swap_keys_def swap_opt_def)
  have n: "num_qubits ?C = ?n" using sh1(3) sh2(3) by (simp add: num_qubits_def column_count_def)
  have "mat_clean m2" by (rule row_swap_clean [OF row_swap_clean [OF m(2) m1(3) sh1(3)] m2(3) sh2(3)])
  then have "clifford_ok ?C" using sh1 sh2 n ok by (simp add: clifford_ok_def)
  moreover have "fam ?C x = fam C (swap_key k l x)" for x
  proof (cases "snd x < ?n")
    case True
    let ?x = "key_rows ?n x" and ?y = "key_rows ?n (swap_key k l x)"
    have y: "snd (swap_key k l x) < ?n" using True q by (simp add: swap_key_def)
    note d = key_rows_distinct [OF True q(1)] key_rows_distinct [OF True q(2)] key_rows_distinct(1) [OF q(1) True] key_rows_distinct(1) [OF q(2) True]
    have "swap_index (fst ?r) (fst ?s) (fst ?x) = fst ?y" "swap_index (snd ?r) (snd ?s) (fst ?x) = fst ?x"
      "swap_index (snd ?r) (snd ?s) (snd ?x) = snd ?y" "swap_index (fst ?r) (fst ?s) (snd ?y) = snd ?y"
      using d key_rows_distinct(1) [OF q(1) y] key_rows_distinct(1) [OF q(2) y] by (simp_all add: swap_index_def swap_key_def)
    then have "mat_bit m2 (fst ?x) = mat_bit ?m (fst ?y)" "mat_bit m2 (snd ?x) = mat_bit ?m (snd ?y)"
      by (simp_all add: m1(3) m2(3) row_swap_def)
    moreover have "?ph ! key_phase x = preimage_phase_exponents C ! key_phase (swap_key k l x)"
      using r(3) s(3) by (simp add: swap_key_def nth_list_update)
    ultimately show ?thesis using n True y by (simp add: fam_def)
  next
    case False
    with q have "swap_key k l x = x" by (auto simp: swap_key_def)
    with False n show ?thesis by (simp add: fam_def)
  qed
  ultimately show ?thesis using run n by (auto simp: becomes_def)
qed

lemma hadamard_swaps: "left_mul_hadamard q C = swap_keys (False, q) (True, q) C"
  by (simp add: left_mul_hadamard_def hadamard_clifford_bits_def swap_keys_def key_rows_def key_phase_def split_beta Let_def)

lemma swap_bits_eq: "swap_clifford_bits n a b m = do {
    m \<leftarrow> mat_swap_rows (fst (key_rows n (False, a))) (fst (key_rows n (False, b))) m;
    m \<leftarrow> mat_swap_rows (snd (key_rows n (False, a))) (snd (key_rows n (False, b))) m;
    m \<leftarrow> mat_swap_rows (fst (key_rows n (True, a))) (fst (key_rows n (True, b))) m;
    mat_swap_rows (snd (key_rows n (True, a))) (snd (key_rows n (True, b))) m }"
  by (simp add: swap_clifford_bits_def key_rows_def split_beta)

lemma swap_keys_split:
  assumes "swap_keys k l C = Some C'"
  obtains m1 m2 phases where "mat_swap_rows (fst (key_rows (num_qubits C) k)) (fst (key_rows (num_qubits C) l)) (clifford_bits C) = Some m1"
    "mat_swap_rows (snd (key_rows (num_qubits C) k)) (snd (key_rows (num_qubits C) l)) m1 = Some m2"
    "swap_opt (key_phase k) (key_phase l) (preimage_phase_exponents C) = Some phases"
    "C' = \<lparr> cu_projective = \<lparr> cm_bits = m2 \<rparr>, preimage_phase_exponents = phases \<rparr>"
  using assms by (auto simp: swap_keys_def Let_def split: Option.bind_splits)

lemma swap_swaps:
  assumes ok: "clifford_ok C" and q: "a < num_qubits C" "b < num_qubits C"
  shows "becomes C (\<lambda>(k, p). fam C (k, swap_index a b p)) (left_mul_swap a b C)"
proof -
  obtain C1 where C1: "swap_keys (False, a) (False, b) C = Some C1" "clifford_ok C1" "num_qubits C1 = num_qubits C"
      "fam C1 = (\<lambda>x. fam C (swap_key (False, a) (False, b) x))"
    using swap_keys_run [OF ok, of "(False, a)" "(False, b)"] q by (auto elim: becomesE)
  obtain C2 where C2: "swap_keys (True, a) (True, b) C1 = Some C2" "clifford_ok C2" "num_qubits C2 = num_qubits C1"
      "fam C2 = (\<lambda>x. fam C1 (swap_key (True, a) (True, b) x))"
    using swap_keys_run [OF C1(2), of "(True, a)" "(True, b)"] q C1(3) by (auto elim: becomesE)
  have "left_mul_swap a b C = Some C2"
    using C1(3) by (rule_tac swap_keys_split [OF C1(1)], rule_tac swap_keys_split [OF C2(1)])
      (simp add: left_mul_swap_def swap_bits_eq key_phase_def)
  moreover have "fam C2 (k, p) = fam C (k, swap_index a b p)" for k p
    by (cases k) (auto simp: C2(4) C1(4) swap_key_def swap_index_def)
  ultimately show ?thesis using C1(3) C2 by (auto simp: becomes_def)
qed

lemma automorphism_eqI:
  assumes "automorphism n h" "automorphism n g" "\<And>key. snd key < n \<Longrightarrow> h (gen key) = g (gen key)" "pauli_on n P"
  shows "h P = g P"
proof -
  have "h (xop i) = g (xop i)" "h (zop i) = g (zop i)" if "i < n" for i
    using assms(3) [of "(False, i)"] assms(3) [of "(True, i)"] that by simp_all
  then have "pre (\<lambda>i. h (xop i)) (\<lambda>i. h (zop i)) P = pre (\<lambda>i. g (xop i)) (\<lambda>i. g (zop i)) P" by (intro pre_cong [OF assms(4)])
  then show ?thesis using automorphism_pre [OF assms(1,4)] automorphism_pre [OF assms(2,4)] by simp
qed

lemma phase_numerals [simp]: "(5 :: phase) = 1" "(6 :: phase) = 2"
  by simp_all

lemma single_products:
  "pphase 1 (pmul (zop q) (xop q)) = pphase 2 (yop q)" "pmul (xop q) (yop q) = pphase 1 (zop q)"
  "pmul (zop q) (yop q) = pphase 3 (xop q)" "pmul (xop q) (zop q) = pphase 3 (yop q)" "pmul (yop q) (xop q) = pphase 3 (zop q)"
  "pmul (yop q) (zop q) = pphase 1 (xop q)" "pmul (zop q) (xop q) = pphase 1 (yop q)"
  by (simp_all add: xop_def zop_def yop_def pmul_def pphase_def sgn_phase_def par_def)

lemma panti_y_left [simp]: "panti (yop a) (xop b) = (a = b)" "panti (yop a) (zop b) = (a = b)"
  by (auto simp: panti_generators yop_def)

lemma hconj_gens: "hconj q (xop q) = zop q" "hconj q (zop q) = xop q" "p \<noteq> q \<Longrightarrow> hconj q (gen (b, p)) = gen (b, p)"
  by (simp_all add: hconj_def pexp_def single_products) (cases b; simp)

lemma root_y_gens: "pexp (yop q) (xop q) = zop q" "pexp (yop q) (zop q) = pphase 2 (xop q)"
    "pexp (pphase 2 (yop q)) (xop q) = pphase 2 (zop q)" "pexp (pphase 2 (yop q)) (zop q) = xop q"
  by (simp_all add: pexp_def single_products)

lemma gate_cases:
  fixes key :: key
  obtains "key = (False, q)" | "key = (True, q)" | "snd key \<noteq> q"
  by (cases key) (metis (full_types) snd_conv)

lemma hadamard_acts:
  assumes v: "clifford_valid C" and q: "q < num_qubits C"
  shows "acts C (hconj q) (left_mul_hadamard q C)"
  unfolding hadamard_swaps
proof (rule actsI [OF v automorphism_hconj [OF q]])
  show "becomes C (\<lambda>x. fam C (swap_key (False, q) (True, q) x)) (swap_keys (False, q) (True, q) C)"
    by (rule swap_keys_run) (use v q in \<open>simp_all add: clifford_valid_def\<close>)
  fix key :: key
  assume k: "snd key < num_qubits C"
  show "fam C (swap_key (False, q) (True, q) key) = cpre C (hconj q (gen key))"
  proof (rule gate_cases [where key = key and q = q])
    assume "snd key \<noteq> q"
    moreover from this have "hconj q (gen key) = gen key" using hconj_gens(3) [of "snd key" q "fst key"] by simp
    ultimately show ?thesis using cpre_gen [OF v k] by (auto simp: swap_key_def)
  qed (use hconj_gens(1,2) cpre_fam [OF v q] in \<open>simp_all add: swap_key_def\<close>)
qed

lemma swapconj_gens:
  assumes "a \<noteq> b"
  shows "swapconj a b (gen (k, p)) = gen (k, swap_index a b p)"
proof -
  have c: "pctrl (zop a) (xop b) (pmul (xop a) (xop b)) = xop a" "pctrl (zop a) (xop b) (pmul (zop a) (zop b)) = zop b"
    "pctrl (zop b) (xop a) (pmul (xop a) (xop b)) = xop b" "pctrl (zop b) (xop a) (pmul (zop a) (zop b)) = zop a"
    using assms by (auto simp: pctrl_def panti_def xop_def zop_def pmul_def pone_def par_def sgn_phase_def)
  have comm: "pmul (zop b) (zop a) = pmul (zop a) (zop b)" "pmul (xop b) (xop a) = pmul (xop a) (xop b)"
    using pmul_swap [of "zop b" "zop a"] pmul_swap [of "xop b" "xop a"] by simp_all
  consider "p = a" | "p = b" | "p \<noteq> a" "p \<noteq> b" by blast
  then show ?thesis
  proof cases
    case 1
    then show ?thesis using assms c pctrl_gens(1-4) [OF assms] pctrl_gens(1-4) [OF assms [symmetric]] comm
      by (cases k) (simp_all add: swapconj_def swap_index_def)
  next
    case 2
    then show ?thesis using assms c pctrl_gens(1-4) [OF assms] pctrl_gens(1-4) [OF assms [symmetric]] comm
      by (cases k) (simp_all add: swapconj_def swap_index_def)
  next
    case 3
    then show ?thesis using pctrl_gens(9) [OF assms 3] pctrl_gens(9) [OF assms [symmetric] 3(2,1)]
      by (simp add: swapconj_def swap_index_def)
  qed
qed

lemma swap_acts:
  assumes v: "clifford_valid C" and q: "a < num_qubits C" "b < num_qubits C" "a \<noteq> b"
  shows "acts C (swapconj a b) (left_mul_swap a b C)"
proof (rule actsI [OF v automorphism_swapconj [OF q]])
  show "becomes C (\<lambda>(k, p). fam C (k, swap_index a b p)) (left_mul_swap a b C)"
    by (rule swap_swaps) (use v q in \<open>simp_all add: clifford_valid_def\<close>)
  fix key :: key
  assume k: "snd key < num_qubits C"
  obtain c p where key: "key = (c, p)" by (cases key)
  have "swap_index a b p < num_qubits C" using k q key by (simp add: swap_index_def)
  then show "(\<lambda>(k, p). fam C (k, swap_index a b p)) key = cpre C (swapconj a b (gen key))"
    using cpre_gen [OF v, of "(c, swap_index a b p)"] swapconj_gens [OF q(3)] by (simp add: key)
qed

lemma root_y_acts:
  assumes v: "clifford_valid C" and q: "q < num_qubits C"
  shows "acts C (pexp (yop q)) (left_mul_root_y q C)" "acts C (pexp (pphase 2 (yop q))) (left_mul_root_y_inverse q C)"
proof -
  let ?n = "num_qubits C"
  have aut: "automorphism ?n (pconj (zop q))" "automorphism ?n (hconj q)" "automorphism ?n (pexp (yop q))" "automorphism ?n (pexp (pphase 2 (yop q)))"
    using q by (simp_all add: automorphism_pconj automorphism_hconj automorphism_pexp)
  have fixed: "pconj (zop q) (gen key) = gen key" "hconj q (gen key) = gen key" "pexp (yop q) (gen key) = gen key"
    "pexp (pphase 2 (yop q)) (gen key) = gen key" if "snd key \<noteq> q" for key
    using pconj_fixed(2) [OF that, of "fst key"] hconj_gens(3) [OF that, of "fst key"] pexp_fixed(3,6) [OF that, of "fst key"] by simp_all
  have "acts C (\<lambda>P. pconj (zop q) (hconj q P)) (left_mul_root_y q C)"
    unfolding left_mul_root_y_def by (rule acts_bind [OF pauli_acts(3) [OF v q] hadamard_acts aut(2)]) (use q in simp_all)
  moreover have "pconj (zop q) (hconj q P) = pexp (yop q) P" if "pauli_on ?n P" for P
  proof (rule automorphism_eqI [OF automorphism_comp [OF aut(1,2)] aut(3) _ that])
    show "pconj (zop q) (hconj q (gen key)) = pexp (yop q) (gen key)" for key
      by (rule gate_cases [where key = key and q = q]) (use fixed in \<open>simp_all add: hconj_gens root_y_gens pconj_def sgn_phase_def\<close>)
  qed
  ultimately show "acts C (pexp (yop q)) (left_mul_root_y q C)" by (rule acts_cong)
  have "acts C (\<lambda>P. hconj q (pconj (zop q) P)) (left_mul_root_y_inverse q C)"
    unfolding left_mul_root_y_inverse_def by (rule acts_bind [OF hadamard_acts [OF v q] pauli_acts(3) aut(1)]) (use q in simp_all)
  moreover have "hconj q (pconj (zop q) P) = pexp (pphase 2 (yop q)) P" if "pauli_on ?n P" for P
  proof (rule automorphism_eqI [OF automorphism_comp [OF aut(2,1)] aut(4) _ that])
    have two: "hconj q (pphase 2 (xop q)) = pphase 2 (zop q)" using automorphismD(2) [OF aut(2), of "xop q" 2] q hconj_gens by simp
    show "hconj q (pconj (zop q) (gen key)) = pexp (pphase 2 (yop q)) (gen key)" for key
      by (rule gate_cases [where key = key and q = q]) (use fixed two in \<open>simp_all add: hconj_gens root_y_gens pconj_def sgn_phase_def\<close>)
  qed
  ultimately show "acts C (pexp (pphase 2 (yop q))) (left_mul_root_y_inverse q C)" by (rule acts_cong)
qed

lemma gate_conj_fun:
  "gate_conj OpI s = (\<lambda>P. P)" "gate_conj OpX s = pconj (xop (s ! 0))" "gate_conj OpY s = pconj (yop (s ! 0))"
  "gate_conj OpZ s = pconj (zop (s ! 0))" "gate_conj SqrtX s = pexp (xop (s ! 0))"
  "gate_conj SqrtXInv s = pexp (pphase 2 (xop (s ! 0)))" "gate_conj SqrtY s = pexp (yop (s ! 0))"
  "gate_conj SqrtYInv s = pexp (pphase 2 (yop (s ! 0)))" "gate_conj SqrtZ s = pexp (zop (s ! 0))"
  "gate_conj SqrtZInv s = pexp (pphase 2 (zop (s ! 0)))" "gate_conj Hadamard s = hconj (s ! 0)"
  "gate_conj Swap s = swapconj (s ! 0) (s ! 1)" "gate_conj ControlledX s = pctrl (zop (s ! 0)) (xop (s ! 1))"
  "gate_conj ControlledZ s = pctrl (zop (s ! 0)) (zop (s ! 1))"
  "gate_conj PrepareBell s = (\<lambda>P. hconj (s ! 0) (pctrl (zop (s ! 0)) (xop (s ! 1)) P))"
  by (simp_all add: fun_eq_iff)

lemma gate_conj_automorphism:
  assumes "gate_fits n op support"
  shows "automorphism n (gate_conj op support)"
proof (cases "op = OpI")
  case False
  then consider "gate_arity op = 1" | "gate_arity op = 2" by (cases op) (simp_all add: gate_arity_def)
  then show ?thesis
  proof cases
    case 1
    with assms gate_fits_one obtain q where "q < n" "support = [q]" by blast
    with 1 show ?thesis by (cases op) (simp_all add: gate_conj_fun gate_arity_def automorphism_pconj automorphism_pexp automorphism_hconj)
  next
    case 2
    with assms gate_fits_two obtain a b where q: "a < n" "b < n" "a \<noteq> b" "support = [a, b]" by blast
    with 2 automorphism_comp [OF automorphism_hconj automorphism_cx [OF q(1-3)]] show ?thesis
      by (cases op) (simp_all add: gate_conj_fun gate_arity_def automorphism_cx automorphism_cz automorphism_swapconj)
  qed
qed (simp add: automorphism_id gate_conj_fun)

text \<open>Every gate: \<open>left_mul\<close> returns and composes with conjugation by the gate.\<close>

lemma left_mul_acts:
  assumes v: "clifford_valid C" and fits: "gate_fits (num_qubits C) op support"
  shows "acts C (gate_conj op support) (left_mul op support C)"
proof (cases "op = OpI")
  case True
  with acts_Some [OF v] show ?thesis by (simp add: gate_conj_fun)
next
  case False
  then consider "gate_arity op = 1" | "gate_arity op = 2" by (cases op) (simp_all add: gate_arity_def)
  then show ?thesis
  proof cases
    case 1
    with fits gate_fits_one obtain q where q: "q < num_qubits C" "support = [q]" by blast
    with 1 pauli_acts [OF v q(1)] root_acts [OF v q(1)] root_y_acts [OF v q(1)] hadamard_acts [OF v q(1)]
    show ?thesis by (cases op) (simp_all add: gate_conj_fun gate_arity_def one_qubit_gate_def)
  next
    case 2
    with fits gate_fits_two obtain a b where q: "a < num_qubits C" "b < num_qubits C" "a \<noteq> b" "support = [a, b]" by blast
    have "acts C (\<lambda>P. hconj a (pctrl (zop a) (xop b) P)) (left_mul_prepare_bell a b C)"
      unfolding left_mul_prepare_bell_def
      by (rule acts_bind [OF hadamard_acts [OF v q(1)] cx_acts automorphism_cx [OF q(1-3)]]) (use q in simp_all)
    with 2 q swap_acts [OF v q(1-3)] cx_acts [OF v q(1-3)] cz_acts [OF v q(1-3)]
    show ?thesis by (cases op) (simp_all add: gate_conj_fun gate_arity_def two_qubit_gate_def)
  qed
qed

section \<open>Zero and identity\<close>

lemma clifford_zero_ok: "clifford_ok (clifford_zero n)" "num_qubits (clifford_zero n) = n" "fam (clifford_zero n) key = pone"
proof -
  show n: "num_qubits (clifford_zero n) = n"
    by (simp add: num_qubits_def clifford_zero_def mod_pauli_zero_def column_count_def mat_zeros_ok)
  show "clifford_ok (clifford_zero n)" unfolding clifford_ok_def n
    by (simp add: clifford_zero_def mod_pauli_zero_def mat_zeros_ok mat_clean_def)
  have "key_phase key < 2 * n" if "snd key < n" using key_phase_less [OF that] .
  then show "fam (clifford_zero n) key = pone"
    unfolding fam_def n by (simp add: clifford_zero_def mod_pauli_zero_def mat_zeros_ok pone_def)
qed

lemma fits_left_x:
  assumes "fits n p" "i < n"
  shows "\<exists>r. mul_assign_left_x dense_ops i p = Some r \<and> fits n r \<and> dense_sem r = pmul (xop i) (dense_sem p)"
proof -
  have p: "dense_ok p" "pauli_on n (dense_sem p)" using assms(1) by (simp_all add: fits_def)
  with dense.left_x [OF p(1) fits_within [OF assms]] fits_same [OF assms(1)] assms(2) show ?thesis
    using pauli_on_pmul pauli_on_simps(3) by metis
qed

lemma fits_right_z:
  assumes "fits n p" "i < n"
  shows "\<exists>r. mul_assign_right_z dense_ops i p = Some r \<and> fits n r \<and> dense_sem r = pmul (dense_sem p) (zop i)"
proof -
  have p: "dense_ok p" "pauli_on n (dense_sem p)" using assms(1) by (simp_all add: fits_def)
  with dense.right_z [OF p(1) fits_within [OF assms]] fits_same [OF assms(1)] assms(2) show ?thesis
    using pauli_on_pmul pauli_on_simps(4) by metis
qed

lemma fits_is_identity: "fits n p \<Longrightarrow> pauli_is_identity dense_ops p = (dense_sem p = pone)"
  by (simp add: fits_def dense.is_identity)

lemma clifford_identity_run:
  "\<exists>C. clifford_identity n = Some C \<and> clifford_valid C \<and> num_qubits C = n \<and> (\<forall>key. fam C key = (if snd key < n then gen key else pone))"
proof -
  define P where "P k C \<longleftrightarrow> clifford_ok C \<and> num_qubits C = n \<and> (\<forall>key. fam C key = (if snd key < k then gen key else pone))" for k C
  have "\<exists>C. clifford_identity n = Some C \<and> P n C"
    unfolding clifford_identity_def set_identity_pre_images_def clifford_zero_ok(2)
  proof (rule ofold_upt_inv)
    show "P 0 (clifford_zero n)" by (simp add: P_def clifford_zero_ok)
    fix k C
    assume k: "k < n" and C: "P k C"
    then have ok: "clifford_ok C" "num_qubits C = n" "fam C key = (if snd key < k then gen key else pone)" for key
      unfolding P_def by blast+
    have "becomes C ((fam C)((False, k) := xop k)) (key_view_mut (False, k) (\<lambda>p. do {
        guard_opt (pauli_is_identity dense_ops p); mul_assign_left_x dense_ops k p }) C)"
      by (rule key_view_mut_run [OF ok(1)]) (use k ok fits_is_identity fits_left_x in fastforce)+
    then obtain C1 where C1: "preimage_x_view_mut k (\<lambda>p. do {
        guard_opt (pauli_is_identity dense_ops p); mul_assign_left_x dense_ops k p }) C = Some C1"
        "clifford_ok C1" "num_qubits C1 = n" "fam C1 = (fam C)((False, k) := xop k)"
      using ok(2) by (auto simp: key_view_mut_def elim: becomesE)
    have "becomes C1 ((fam C1)((True, k) := zop k)) (key_view_mut (True, k) (\<lambda>p. do {
        guard_opt (pauli_is_identity dense_ops p); mul_assign_right_z dense_ops k p }) C1)"
      by (rule key_view_mut_run [OF C1(2)]) (use k ok C1 fits_is_identity fits_right_z in fastforce)+
    then obtain C2 where C2: "preimage_z_view_mut k (\<lambda>p. do {
        guard_opt (pauli_is_identity dense_ops p); mul_assign_right_z dense_ops k p }) C1 = Some C2"
        "clifford_ok C2" "num_qubits C2 = n" "fam C2 = (fam C1)((True, k) := zop k)"
      using C1(3) by (auto simp: key_view_mut_def elim: becomesE)
    have "fam C2 key = (if snd key < Suc k then gen key else pone)" for key
      by (rule gate_cases [where key = key and q = k]) (auto simp: C2(4) C1(4) ok(3))
    with C1(1) C2(1-3) show "\<exists>C'. (do { C \<leftarrow> preimage_x_view_mut k (\<lambda>p. do { guard_opt (pauli_is_identity dense_ops p); mul_assign_left_x dense_ops k p }) C;
        preimage_z_view_mut k (\<lambda>p. do { guard_opt (pauli_is_identity dense_ops p); mul_assign_right_z dense_ops k p }) C }) = Some C' \<and> P (Suc k) C'"
      by (simp add: P_def)
  qed
  then obtain C where C: "clifford_identity n = Some C" "P n C" by blast
  have "symplectic n (cx C) (cz C) = symplectic n xop zop" by (rule symplectic_cong) (use C in \<open>simp_all add: P_def\<close>)
  then have "clifford_valid C" using C generators_frame by (simp add: clifford_valid_def P_def)
  with C show ?thesis by (auto simp: P_def)
qed

lemma cpre_identity:
  assumes "clifford_valid C" "\<And>key. snd key < num_qubits C \<Longrightarrow> fam C key = gen key" "pauli_on (num_qubits C) P"
  shows "cpre C P = P"
proof -
  have "cpre C P = pre xop zop P"
    by (rule pre_cong [OF assms(3)]) (use assms(1) assms(2) [of "(False, _)"] assms(2) [of "(True, _)"] in \<open>simp_all add: frame_x_def frame_z_def\<close>)
  then show ?thesis using pre_identity [OF assms(3)] by simp
qed

end
