(* ===== verification/Clifford_Ops.thy ===== *)
theory Clifford_Ops
  imports Clifford_Gates
begin

text \<open>
  The operations of \<open>clifford/generic_algos.rs\<close> and the \<open>Clifford\<close> trait of \<open>CliffordUnitary\<close>: preimages and
  images of operators, the validity and identity tests, products, inverses, tensor products and the
  constructors.
\<close>

section \<open>Preimages\<close>

definition mul_assign_right_clifford_preimage_x_bits ::
  "clifford_unitary \<Rightarrow> nat list \<Rightarrow> bitblock list pauli_unitary \<Rightarrow> bitblock list pauli_unitary option" where
  "mul_assign_right_clifford_preimage_x_bits C bits_support =
     ofold (\<lambda>id target. do { v \<leftarrow> preimage_x_view C id; mul_assign_right dense_ops v target }) bits_support"

definition mul_assign_right_clifford_preimage_z_bits ::
  "clifford_unitary \<Rightarrow> nat list \<Rightarrow> bitblock list pauli_unitary \<Rightarrow> bitblock list pauli_unitary option" where
  "mul_assign_right_clifford_preimage_z_bits C bits_support =
     ofold (\<lambda>id target. do { v \<leftarrow> preimage_z_view C id; mul_assign_right dense_ops v target }) bits_support"

definition mul_assign_right_clifford_preimage ::
  "'b bits_ops \<Rightarrow> clifford_unitary \<Rightarrow> 'b pauli_unitary \<Rightarrow> bitblock list pauli_unitary \<Rightarrow> bitblock list pauli_unitary option" where
  "mul_assign_right_clifford_preimage B C p target = do {
     target \<leftarrow> mul_assign_right_clifford_preimage_x_bits C (bo_support B (px p)) target;
     target \<leftarrow> mul_assign_right_clifford_preimage_z_bits C (bo_support B (pz p)) target;
     Some (add_assign_phase_exp (xz_phase_exponent p) target) }"

definition clifford_preimage_x_bits :: "clifford_unitary \<Rightarrow> nat list \<Rightarrow> bitblock list pauli_unitary option" where
  "clifford_preimage_x_bits C support =
     mul_assign_right_clifford_preimage_x_bits C support (pauli_neutral_element_of_size dense_ops (num_qubits C))"

definition clifford_preimage_z_bits :: "clifford_unitary \<Rightarrow> nat list \<Rightarrow> bitblock list pauli_unitary option" where
  "clifford_preimage_z_bits C support =
     mul_assign_right_clifford_preimage_z_bits C support (pauli_neutral_element_of_size dense_ops (num_qubits C))"

definition clifford_preimage :: "'b bits_ops \<Rightarrow> clifford_unitary \<Rightarrow> 'b pauli_unitary \<Rightarrow> bitblock list pauli_unitary option" where
  "clifford_preimage B C p =
     mul_assign_right_clifford_preimage B C p (pauli_neutral_element_of_size dense_ops (num_qubits C))"

section \<open>Images\<close>

text \<open>The columns of the matrix are the images of the generators, up to phase; a column is modelled by the
  bits it reads.  Products are accumulated in bit vectors of the length of a column.\<close>

definition projective_image_at :: "aligned_bitmatrix \<Rightarrow> nat \<Rightarrow> nat \<Rightarrow> nat \<Rightarrow> nat \<Rightarrow> (bool list \<times> bool list) option" where
  "projective_image_at bits dimension qubit_index x_bits_start z_bits_start = do {
     column \<leftarrow> mat_column bits qubit_index;
     x_bits \<leftarrow> column_slice column x_bits_start (dimension + x_bits_start);
     z_bits \<leftarrow> column_slice column z_bits_start (dimension + z_bits_start);
     x \<leftarrow> column_bits (mat_blocks bits) x_bits;
     z \<leftarrow> column_bits (mat_blocks bits) z_bits;
     Some (x, z) }"

definition x_image_view_up_to_phase :: "clifford_unitary \<Rightarrow> nat \<Rightarrow> (bool list \<times> bool list) option" where
  "x_image_view_up_to_phase C qubit_index = projective_image_at (clifford_bits C) (num_qubits C) qubit_index
     (z_of_preimage_z_offset (num_qubits C)) (z_of_preimage_x_offset (num_qubits C))"

definition z_image_view_up_to_phase :: "clifford_unitary \<Rightarrow> nat \<Rightarrow> (bool list \<times> bool list) option" where
  "z_image_view_up_to_phase C qubit_index = projective_image_at (clifford_bits C) (num_qubits C) qubit_index
     (x_of_preimage_z_offset (num_qubits C)) (x_of_preimage_x_offset (num_qubits C))"

definition bitvec_xor_column :: "bitvec \<Rightarrow> bool list \<Rightarrow> bitvec option" where
  "bitvec_xor_column v other = do {
     guard_opt (length other \<le> bit_length v);
     ofold (\<lambda>index v. if other ! index then bitvec_negate_index index v else Some v) [0..<length other] v }"

definition column_neutral_element :: "bool list \<times> bool list \<Rightarrow> bitvec \<times> bitvec" where
  "column_neutral_element view = (bitvec_zeros (length (fst view)), bitvec_zeros (length (snd view)))"

definition add_column_bits :: "bool list \<times> bool list \<Rightarrow> bitvec \<times> bitvec \<Rightarrow> (bitvec \<times> bitvec) option" where
  "add_column_bits view to = do {
     x \<leftarrow> bitvec_xor_column (fst to) (fst view);
     z \<leftarrow> bitvec_xor_column (snd to) (snd view);
     Some (x, z) }"

definition mul_assign_right_clifford_image_x_bits_up_to_phase ::
  "clifford_unitary \<Rightarrow> nat list \<Rightarrow> bitvec \<times> bitvec \<Rightarrow> (bitvec \<times> bitvec) option" where
  "mul_assign_right_clifford_image_x_bits_up_to_phase C bits_support =
     ofold (\<lambda>id target. do { v \<leftarrow> x_image_view_up_to_phase C id; add_column_bits v target }) bits_support"

definition mul_assign_right_clifford_image_z_bits_up_to_phase ::
  "clifford_unitary \<Rightarrow> nat list \<Rightarrow> bitvec \<times> bitvec \<Rightarrow> (bitvec \<times> bitvec) option" where
  "mul_assign_right_clifford_image_z_bits_up_to_phase C bits_support =
     ofold (\<lambda>id target. do { v \<leftarrow> z_image_view_up_to_phase C id; add_column_bits v target }) bits_support"

definition to_aligned_bits :: "bitvec \<times> bitvec \<Rightarrow> bitblock list \<times> bitblock list" where
  "to_aligned_bits bits = (vec_bits (fst bits), vec_bits (snd bits))"

definition clifford_image_with_phase :: "clifford_unitary \<Rightarrow> bitblock list \<times> bitblock list \<Rightarrow> bitblock list pauli_unitary option" where
  "clifford_image_with_phase C xz_bits = do {
     v \<leftarrow> preimage_x_view C 0;
     preimage \<leftarrow> mul_assign_right_clifford_preimage_x_bits C (blocks_support (fst xz_bits)) (pauli_neutral_element dense_ops v);
     preimage \<leftarrow> mul_assign_right_clifford_preimage_z_bits C (blocks_support (snd xz_bits)) preimage;
     let preimage = pauli_complex_conjugate preimage;
     let res = pauli_from_bits (fst xz_bits) (snd xz_bits) 0;
     Some (mul_assign_phase_from preimage res) }"

definition clifford_image_x :: "clifford_unitary \<Rightarrow> nat \<Rightarrow> bitblock list pauli_unitary option" where
  "clifford_image_x C qubit_index = do {
     v0 \<leftarrow> x_image_view_up_to_phase C 0;
     v \<leftarrow> x_image_view_up_to_phase C qubit_index;
     image \<leftarrow> add_column_bits v (column_neutral_element v0);
     clifford_image_with_phase C (to_aligned_bits image) }"

definition clifford_image_z :: "clifford_unitary \<Rightarrow> nat \<Rightarrow> bitblock list pauli_unitary option" where
  "clifford_image_z C qubit_index = do {
     v0 \<leftarrow> z_image_view_up_to_phase C 0;
     v \<leftarrow> z_image_view_up_to_phase C qubit_index;
     image \<leftarrow> add_column_bits v (column_neutral_element v0);
     clifford_image_with_phase C (to_aligned_bits image) }"

definition clifford_image_x_bits :: "clifford_unitary \<Rightarrow> nat list \<Rightarrow> bitblock list pauli_unitary option" where
  "clifford_image_x_bits C support = do {
     v0 \<leftarrow> x_image_view_up_to_phase C 0;
     image \<leftarrow> mul_assign_right_clifford_image_x_bits_up_to_phase C support (column_neutral_element v0);
     clifford_image_with_phase C (to_aligned_bits image) }"

definition clifford_image_z_bits :: "clifford_unitary \<Rightarrow> nat list \<Rightarrow> bitblock list pauli_unitary option" where
  "clifford_image_z_bits C support = do {
     v0 \<leftarrow> x_image_view_up_to_phase C 0;
     image \<leftarrow> mul_assign_right_clifford_image_z_bits_up_to_phase C support (column_neutral_element v0);
     clifford_image_with_phase C (to_aligned_bits image) }"

definition clifford_image :: "'b bits_ops \<Rightarrow> clifford_unitary \<Rightarrow> 'b pauli_unitary \<Rightarrow> bitblock list pauli_unitary option" where
  "clifford_image B C p = do {
     v0 \<leftarrow> x_image_view_up_to_phase C 0;
     image \<leftarrow> mul_assign_right_clifford_image_x_bits_up_to_phase C (bo_support B (px p)) (column_neutral_element v0);
     image \<leftarrow> mul_assign_right_clifford_image_z_bits_up_to_phase C (bo_support B (pz p)) image;
     res \<leftarrow> clifford_image_with_phase C (to_aligned_bits image);
     Some (add_assign_phase_exp (xz_phase_exponent p) res) }"

section \<open>Tests\<close>

definition all_true :: "('a \<Rightarrow> bool option) \<Rightarrow> 'a list \<Rightarrow> bool option" where
  "all_true f xs = map_option Not (first_true (\<lambda>x. map_option Not (f x)) xs)"

definition is_valid_clifford :: "clifford_unitary \<Rightarrow> bool option" where
  "is_valid_clifford C = all_true (\<lambda>index. do {
     x_preimage \<leftarrow> preimage_x_view C index;
     z_preimage \<leftarrow> preimage_z_view C index;
     x_two \<leftarrow> pauli_is_order_two dense_ops x_preimage;
     two \<leftarrow> (if x_two then pauli_is_order_two dense_ops z_preimage else Some False);
     if \<not> two then Some False
     else do {
       commute \<leftarrow> commutes_with dense_ops (projective x_preimage) (projective z_preimage);
       if commute then Some False
       else all_true (\<lambda>other_index. do {
         other_x_preimage \<leftarrow> preimage_x_view C other_index;
         other_z_preimage \<leftarrow> preimage_z_view C other_index;
         xx \<leftarrow> anti_commutes_with dense_ops (projective x_preimage) (projective other_x_preimage);
         xz \<leftarrow> anti_commutes_with dense_ops (projective x_preimage) (projective other_z_preimage);
         zx \<leftarrow> anti_commutes_with dense_ops (projective z_preimage) (projective other_x_preimage);
         zz \<leftarrow> anti_commutes_with dense_ops (projective z_preimage) (projective other_z_preimage);
         Some (\<not> (xx \<or> xz \<or> zx \<or> zz)) }) [index + 1..<num_qubits C] } }) [0..<num_qubits C]"

definition clifford_is_identity :: "clifford_unitary \<Rightarrow> bool option" where
  "clifford_is_identity C = all_true (\<lambda>qubit_id. do {
     x \<leftarrow> preimage_x_view C qubit_id;
     b \<leftarrow> is_pauli_x dense_ops x qubit_id;
     if \<not> b then Some False
     else do { z \<leftarrow> preimage_z_view C qubit_id; is_pauli_z dense_ops z qubit_id } }) [0..<num_qubits C]"

section \<open>Products, inverses and constructors\<close>

definition assign_view :: "bitblock list pauli_unitary \<Rightarrow> view_update" where
  "assign_view rhs p = Some (pauli_assign dense_ops rhs p)"

definition clifford_multiply_with :: "clifford_unitary \<Rightarrow> clifford_unitary \<Rightarrow> clifford_unitary option" where
  "clifford_multiply_with left right = do {
     guard_opt (num_qubits left = num_qubits right);
     ofold (\<lambda>qubit_index result. do {
         v \<leftarrow> preimage_x_view left qubit_index;
         p \<leftarrow> clifford_preimage dense_ops right v;
         result \<leftarrow> preimage_x_view_mut qubit_index (assign_view p) result;
         v \<leftarrow> preimage_z_view left qubit_index;
         p \<leftarrow> clifford_preimage dense_ops right v;
         preimage_z_view_mut qubit_index (assign_view p) result })
       [0..<num_qubits left] (clifford_zero (num_qubits left)) }"

definition clifford_from_preimages :: "bitblock list pauli_unitary list \<Rightarrow> clifford_unitary option" where
  "clifford_from_preimages preimages = do {
     guard_opt (even (length preimages));
     res \<leftarrow> ofold (\<lambda>qubit_index res. do {
         x_preimage \<leftarrow> nth_opt preimages (2 * qubit_index);
         z_preimage \<leftarrow> nth_opt preimages (2 * qubit_index + 1);
         res \<leftarrow> preimage_x_view_mut qubit_index (assign_view x_preimage) res;
         preimage_z_view_mut qubit_index (assign_view z_preimage) res })
       [0..<length preimages div 2] (clifford_zero (length preimages div 2));
     valid \<leftarrow> is_valid_clifford res;
     guard_opt valid;
     Some res }"

definition clifford_inverse :: "clifford_unitary \<Rightarrow> clifford_unitary option" where
  "clifford_inverse from_clifford = do {
     res \<leftarrow> clifford_identity (num_qubits from_clifford);
     ofold (\<lambda>qubit_index res. do {
         p \<leftarrow> clifford_image_x from_clifford qubit_index;
         res \<leftarrow> preimage_x_view_mut qubit_index (assign_view p) res;
         p \<leftarrow> clifford_image_z from_clifford qubit_index;
         preimage_z_view_mut qubit_index (assign_view p) res }) [0..<num_qubits from_clifford] res }"

definition clifford_from_images :: "bitblock list pauli_unitary list \<Rightarrow> clifford_unitary option" where
  "clifford_from_images images = do { C \<leftarrow> clifford_from_preimages images; clifford_inverse C }"

definition clifford_tensored :: "clifford_unitary \<Rightarrow> clifford_unitary \<Rightarrow> clifford_unitary option" where
  "clifford_tensored left right = (let lhs_num_qubits = num_qubits left; rhs_num_qubits = num_qubits right in do {
     result \<leftarrow> ofold (\<lambda>qubit_id result. do {
         v \<leftarrow> preimage_x_view left qubit_id;
         result \<leftarrow> preimage_x_view_mut qubit_id (pauli_assign_with_offset dense_ops v 0 lhs_num_qubits) result;
         v \<leftarrow> preimage_z_view left qubit_id;
         preimage_z_view_mut qubit_id (pauli_assign_with_offset dense_ops v 0 lhs_num_qubits) result })
       [0..<lhs_num_qubits] (clifford_zero (lhs_num_qubits + rhs_num_qubits));
     result \<leftarrow> ofold (\<lambda>qubit_id result. do {
         v \<leftarrow> preimage_x_view right qubit_id;
         result \<leftarrow> preimage_x_view_mut (lhs_num_qubits + qubit_id) (pauli_assign_with_offset dense_ops v lhs_num_qubits rhs_num_qubits) result;
         v \<leftarrow> preimage_z_view right qubit_id;
         preimage_z_view_mut (lhs_num_qubits + qubit_id) (pauli_assign_with_offset dense_ops v lhs_num_qubits rhs_num_qubits) result })
       [0..<rhs_num_qubits] result;
     valid \<leftarrow> is_valid_clifford result;
     guard_opt valid;
     Some result })"

definition clifford_tensored_with_identity :: "clifford_unitary \<Rightarrow> nat \<Rightarrow> clifford_unitary option" where
  "clifford_tensored_with_identity left identity_qubit_count = (let lhs_num_qubits = num_qubits left in do {
     result \<leftarrow> clifford_identity (lhs_num_qubits + identity_qubit_count);
     result \<leftarrow> ofold (\<lambda>qubit_id result. do {
         v \<leftarrow> preimage_x_view left qubit_id;
         result \<leftarrow> preimage_x_view_mut qubit_id (pauli_assign_with_offset dense_ops v 0 lhs_num_qubits) result;
         v \<leftarrow> preimage_z_view left qubit_id;
         preimage_z_view_mut qubit_id (pauli_assign_with_offset dense_ops v 0 lhs_num_qubits) result })
       [0..<lhs_num_qubits] result;
     valid \<leftarrow> is_valid_clifford result;
     guard_opt valid;
     Some result })"

definition shrink_clifford :: "clifford_unitary \<Rightarrow> nat \<Rightarrow> clifford_unitary option" where
  "shrink_clifford value new_qubit_count = do {
     guard_opt (new_qubit_count < num_qubits value);
     ofold (\<lambda>qubit_index _. do {
         x \<leftarrow> preimage_x_view value qubit_index;
         b \<leftarrow> is_pauli_x dense_ops x qubit_index;
         guard_opt b;
         z \<leftarrow> preimage_z_view value qubit_index;
         b \<leftarrow> is_pauli_z dense_ops z qubit_index;
         guard_opt b }) [new_qubit_count..<num_qubits value] ();
     new_clifford \<leftarrow> clifford_identity new_qubit_count;
     ofold (\<lambda>qubit_index new_clifford. do {
         v \<leftarrow> preimage_x_view value qubit_index;
         new_clifford \<leftarrow> preimage_x_view_mut qubit_index (assign_view v) new_clifford;
         v \<leftarrow> preimage_z_view value qubit_index;
         preimage_z_view_mut qubit_index (assign_view v) new_clifford }) [0..<new_qubit_count] new_clifford }"

definition clifford_resize :: "nat \<Rightarrow> clifford_unitary \<Rightarrow> clifford_unitary option" where
  "clifford_resize new_num_qubits C =
     (if num_qubits C = new_num_qubits then Some C
      else if num_qubits C < new_num_qubits then clifford_tensored_with_identity C (new_num_qubits - num_qubits C)
      else shrink_clifford C new_num_qubits)"

section \<open>Left multiplication by operators and unitaries\<close>

definition left_mul_pauli :: "'b bits_ops \<Rightarrow> 'b pauli_unitary \<Rightarrow> clifford_unitary \<Rightarrow> clifford_unitary option" where
  "left_mul_pauli B p C = do {
     C \<leftarrow> ofold left_mul_x (bo_support B (px p)) C;
     ofold left_mul_z (bo_support B (pz p)) C }"

definition clifford_left_mul_eq_pauli_exp :: "'b bits_ops \<Rightarrow> 'b pauli_unitary \<Rightarrow> clifford_unitary \<Rightarrow> clifford_unitary option" where
  "clifford_left_mul_eq_pauli_exp B p C = do {
     v \<leftarrow> preimage_x_view C 0;
     pauli_preimage \<leftarrow> mul_assign_right_clifford_preimage B C p (pauli_neutral_element dense_ops v);
     let pauli_preimage = add_assign_phase_exp 1 pauli_preimage;
     C \<leftarrow> ofold (\<lambda>index. preimage_z_view_mut index (mul_assign_right dense_ops pauli_preimage)) (bo_support B (px p)) C;
     ofold (\<lambda>index. preimage_x_view_mut index (mul_assign_right dense_ops pauli_preimage)) (bo_support B (pz p)) C }"

definition left_mul_pauli_exp :: "'b bits_ops \<Rightarrow> 'b pauli_unitary \<Rightarrow> clifford_unitary \<Rightarrow> clifford_unitary option" where
  "left_mul_pauli_exp B p C = (if num_qubits C > 0 then clifford_left_mul_eq_pauli_exp B p C else Some C)"

definition clifford_left_mul_eq_controlled_pauli ::
  "'b bits_ops \<Rightarrow> 'b pauli_unitary \<Rightarrow> 'b pauli_unitary \<Rightarrow> clifford_unitary \<Rightarrow> clifford_unitary option" where
  "clifford_left_mul_eq_controlled_pauli B control target C = do {
     commute \<leftarrow> commutes_with B (projective control) (projective target);
     guard_opt commute;
     v \<leftarrow> preimage_x_view C 0;
     target_preimage \<leftarrow> mul_assign_right_clifford_preimage B C target (pauli_neutral_element dense_ops v);
     control_preimage \<leftarrow> mul_assign_right_clifford_preimage B C control (pauli_neutral_element dense_ops v);
     C \<leftarrow> ofold (\<lambda>index. preimage_z_view_mut index (mul_assign_right dense_ops target_preimage)) (bo_support B (px control)) C;
     C \<leftarrow> ofold (\<lambda>index. preimage_x_view_mut index (mul_assign_right dense_ops target_preimage)) (bo_support B (pz control)) C;
     C \<leftarrow> ofold (\<lambda>index. preimage_z_view_mut index (mul_assign_left dense_ops control_preimage)) (bo_support B (px target)) C;
     ofold (\<lambda>index. preimage_x_view_mut index (mul_assign_left dense_ops control_preimage)) (bo_support B (pz target)) C }"

definition left_mul_controlled_pauli ::
  "'b bits_ops \<Rightarrow> 'b pauli_unitary \<Rightarrow> 'b pauli_unitary \<Rightarrow> clifford_unitary \<Rightarrow> clifford_unitary option" where
  "left_mul_controlled_pauli B control target C =
     (if num_qubits C > 0 then clifford_left_mul_eq_controlled_pauli B control target C else Some C)"

definition is_permutation :: "nat list \<Rightarrow> bool" where
  "is_permutation sequence = (sort sequence = [0..<length sequence])"

fun windows_differ :: "nat list \<Rightarrow> bool" where
  "windows_differ (a # b # xs) = (a \<noteq> b \<and> windows_differ (b # xs))"
| "windows_differ _ = True"

definition has_no_duplicates :: "nat list \<Rightarrow> bool" where
  "has_no_duplicates sequence = windows_differ (sort sequence)"

definition assign_preimages ::
  "nat list \<Rightarrow> (bitblock list pauli_unitary \<times> bitblock list pauli_unitary) list \<Rightarrow> clifford_unitary \<Rightarrow> clifford_unitary option" where
  "assign_preimages support new_preimages =
     ofold (\<lambda>(elt_index, elt) C. do {
         (x, z) \<leftarrow> nth_opt new_preimages elt_index;
         C \<leftarrow> preimage_x_view_mut elt (assign_view x) C;
         preimage_z_view_mut elt (assign_view z) C }) (enumerate 0 support)"

definition left_mul_permutation :: "nat list \<Rightarrow> nat list \<Rightarrow> clifford_unitary \<Rightarrow> clifford_unitary option" where
  "left_mul_permutation permutation support C = do {
     guard_opt (is_permutation permutation);
     guard_opt (has_no_duplicates support);
     guard_opt (length permutation = length support);
     new_preimages \<leftarrow> omap (\<lambda>elt_index. do {
         i \<leftarrow> nth_opt permutation elt_index;
         q \<leftarrow> nth_opt support i;
         x \<leftarrow> preimage_x_view C q;
         z \<leftarrow> preimage_z_view C q;
         Some (x, z) }) [0..<length support];
     assign_preimages support new_preimages C }"

definition reindexed_support :: "'s sorted_lib \<Rightarrow> nat list \<Rightarrow> nat list \<Rightarrow> 's option" where
  "reindexed_support S new_index bit_support = do {
     is \<leftarrow> omap (nth_opt new_index) bit_support;
     Some (index_set_from_iter S is) }"

definition sparse_pauli_on_support ::
  "'s sorted_lib \<Rightarrow> 'b bits_ops \<Rightarrow> 'b pauli_unitary \<Rightarrow> nat list \<Rightarrow> 's pauli_unitary option" where
  "sparse_pauli_on_support S B p support = do {
     x \<leftarrow> reindexed_support S support (bo_support B (px p));
     z \<leftarrow> reindexed_support S support (bo_support B (pz p));
     Some (assign_phase_exp (xz_phase_exponent p) (pauli_from_bits x z 0)) }"

definition left_mul_clifford :: "'s sorted_lib \<Rightarrow> clifford_unitary \<Rightarrow> nat list \<Rightarrow> clifford_unitary \<Rightarrow> clifford_unitary option" where
  "left_mul_clifford S clifford support C = do {
     guard_opt (length support = num_qubits clifford);
     guard_opt (has_no_duplicates support);
     new_preimages \<leftarrow> omap (\<lambda>elt_index. do {
         v \<leftarrow> preimage_x_view clifford elt_index;
         px_on_support \<leftarrow> sparse_pauli_on_support S dense_ops v support;
         v \<leftarrow> preimage_z_view clifford elt_index;
         pz_on_support \<leftarrow> sparse_pauli_on_support S dense_ops v support;
         x \<leftarrow> clifford_preimage (sparse_ops S) C px_on_support;
         z \<leftarrow> clifford_preimage (sparse_ops S) C pz_on_support;
         Some (x, z) }) [0..<length support];
     assign_preimages support new_preimages C }"

section \<open>What preimages compute\<close>

lemma preimage_bits_run:
  assumes ok: "clifford_ok C" and "set xs \<subseteq> {..<num_qubits C}" "fits (num_qubits C) t"
  shows "\<exists>r. mul_assign_right_clifford_preimage_x_bits C xs t = Some r \<and> fits (num_qubits C) r \<and>
      dense_sem r = pmul (dense_sem t) (pprod (cx C) xs)"
    "\<exists>r. mul_assign_right_clifford_preimage_z_bits C xs t = Some r \<and> fits (num_qubits C) r \<and>
      dense_sem r = pmul (dense_sem t) (pprod (cz C) xs)"
proof -
  let ?n = "num_qubits C"
  have fin: "pfinite (dense_sem t)" if "fits ?n t" for t using that pauli_on_finite by (simp add: fits_def) blast
  have finf: "pfinite (fam C key)" for key using fam_on [OF ok] by (rule pauli_on_finite)
  have step: "\<exists>v r. key_view C (b, i) = Some v \<and> mul_assign_right dense_ops v t = Some r \<and> fits ?n r \<and>
      dense_sem r = pmul (dense_sem t) (fam C (b, i))" if "i < ?n" "fits ?n t" for b i t
    using key_view_run [OF ok, of "(b, i)"] fits_mul_right [OF that(2)] that(1) by fastforce
  have run: "\<exists>r. ofold (\<lambda>id target. do { v \<leftarrow> key_view C (b, id); mul_assign_right dense_ops v target }) xs t = Some r \<and>
      fits ?n r \<and> dense_sem r = fold (\<lambda>i P. pmul P (fam C (b, i))) xs (dense_sem t)" for b
    using assms(2,3)
  proof (induction xs arbitrary: t)
    case (Cons i xs)
    then obtain v r where "key_view C (b, i) = Some v" "mul_assign_right dense_ops v t = Some r" "fits ?n r"
        "dense_sem r = pmul (dense_sem t) (fam C (b, i))"
      using step [of i t b] by auto
    moreover from this Cons.IH [of r] Cons.prems(1) obtain u where "ofold (\<lambda>id target. do { v \<leftarrow> key_view C (b, id); mul_assign_right dense_ops v target }) xs r = Some u"
        "fits ?n u" "dense_sem u = fold (\<lambda>i P. pmul P (fam C (b, i))) xs (dense_sem r)" by auto
    ultimately show ?case by simp
  qed simp
  have "fold (\<lambda>i P. pmul P (fam C (b, i))) xs (dense_sem t) = pmul (dense_sem t) (pprod (\<lambda>i. fam C (b, i)) xs)" for b
    by (rule pprod_from) (use finf fin [OF assms(3)] in simp_all)
  with run [of False] run [of True]
  show "\<exists>r. mul_assign_right_clifford_preimage_x_bits C xs t = Some r \<and> fits ?n r \<and> dense_sem r = pmul (dense_sem t) (pprod (cx C) xs)"
    "\<exists>r. mul_assign_right_clifford_preimage_z_bits C xs t = Some r \<and> fits ?n r \<and> dense_sem r = pmul (dense_sem t) (pprod (cz C) xs)"
    by (simp_all add: mul_assign_right_clifford_preimage_x_bits_def mul_assign_right_clifford_preimage_z_bits_def key_view_def)
qed

lemma fits_neutral: "fits n (pauli_neutral_element_of_size dense_ops n)" "dense_sem (pauli_neutral_element_of_size dense_ops n) = pone"
proof -
  show "dense_sem (pauli_neutral_element_of_size dense_ops n) = pone" by (rule dense.neutral_ok)
  then show "fits n (pauli_neutral_element_of_size dense_ops n)"
    using dense.neutral_ok(1) [of n]
    by (simp add: fits_def) (simp add: pauli_neutral_element_of_size_def pauli_from_bits_def projective_from_bits_def dense_ops_def
        blocks_neutral_element_of_size_def aligned_zeros_def rowstride_block_count)
qed

lemma ph_phase_exponent: "ph (xz_phase_exponent p) = ph (xz_phase_exp p)"
  by (simp add: xz_phase_exponent_def phase_value_def)

text \<open>Any operator whose support lies below the number of qubits, whatever its storage.\<close>

context pauli_bits
begin

lemma preimage_mul_run:
  assumes ok': "clifford_ok C" and p: "unitary_ok ok cap p" "pauli_on (num_qubits C) (psem bset p)"
    and t: "fits (num_qubits C) t" "dense_sem t = pone"
  shows "\<exists>r. mul_assign_right_clifford_preimage B C p t = Some r \<and> fits (num_qubits C) r \<and>
    dense_sem r = pre (cx C) (cz C) (psem bset p)"
proof -
  have s: "bset (px p) \<subseteq> {..<num_qubits C}" "bset (pz p) \<subseteq> {..<num_qubits C}" "finite (bset (px p))" "finite (bset (pz p))"
    using p bset_finite by (simp_all add: pauli_on_def psem_def pauli_ok_def)
  have sup: "bo_support B (px p) = sorted_list_of_set (bset (px p))" "bo_support B (pz p) = sorted_list_of_set (bset (pz p))"
    using p(1) support by (simp_all add: pauli_ok_def)
  obtain u where u: "mul_assign_right_clifford_preimage_x_bits C (bo_support B (px p)) t = Some u" "fits (num_qubits C) u"
      "dense_sem u = fprod (cx C) (bset (px p))"
    using preimage_bits_run(1) [OF ok' _ t(1), of "bo_support B (px p)"] s sup t(2) by (auto simp: fprod_def)
  obtain w where w: "mul_assign_right_clifford_preimage_z_bits C (bo_support B (pz p)) u = Some w" "fits (num_qubits C) w"
      "dense_sem w = pmul (fprod (cx C) (bset (px p))) (fprod (cz C) (bset (pz p)))"
    using preimage_bits_run(2) [OF ok' _ u(2), of "bo_support B (pz p)"] s sup u(3) by (auto simp: fprod_def)
  show ?thesis using u(1) w
    by (simp add: mul_assign_right_clifford_preimage_def fits_phase pre_def ph_phase_exponent)
      (simp add: psem_def)
qed

lemma preimage_run:
  assumes "clifford_ok C" "unitary_ok ok cap p" "pauli_on (num_qubits C) (psem bset p)"
  shows "\<exists>r. clifford_preimage B C p = Some r \<and> fits (num_qubits C) r \<and> dense_sem r = pre (cx C) (cz C) (psem bset p)"
  using preimage_mul_run [OF assms fits_neutral] by (simp add: clifford_preimage_def)

end

lemma cpre_eq: "clifford_valid C \<Longrightarrow> pre (cx C) (cz C) P = cpre C P"
  by (simp add: frame_x_def frame_z_def)

lemma valid_ok: "clifford_valid C \<Longrightarrow> clifford_ok C"
  by (simp add: clifford_valid_def)

lemma dense_preimage_run:
  assumes "clifford_valid C" "fits (num_qubits C) p"
  shows "\<exists>r. clifford_preimage dense_ops C p = Some r \<and> fits (num_qubits C) r \<and> dense_sem r = cpre C (dense_sem p)"
  using dense.preimage_run [OF valid_ok [OF assms(1)]] assms by (simp add: fits_def cpre_eq)

section \<open>What images compute\<close>

text \<open>A bit vector of length \<open>n\<close> that holds a set.\<close>

definition vec_is :: "nat \<Rightarrow> bitvec \<Rightarrow> nat set \<Rightarrow> bool" where
  "vec_is n v A \<longleftrightarrow> bit_length v = n \<and> blocks_ok (vec_bits v) \<and> length (vec_bits v) = rowstride_of n \<and>
     dense_bits (vec_bits v) = A \<and> A \<subseteq> {..<n}"

lemma vec_is_zeros: "vec_is n (bitvec_zeros n) {}"
  by (simp add: vec_is_def bitvec_zeros_def aligned_zeros_bit rowstride_block_count)

lemma vec_is_negate:
  assumes "vec_is n v A" "i < n"
  shows "\<exists>w. bitvec_negate_index i v = Some w \<and> vec_is n w (sym_diff A {i})"
proof -
  have v: "blocks_ok (vec_bits v)" "bit_length v = n" "length (vec_bits v) = rowstride_of n" "dense_bits (vec_bits v) = A" "A \<subseteq> {..<n}"
    using assms(1) by (simp_all add: vec_is_def)
  then have "within (dense_cap (vec_bits v)) i" using assms(2) block_count_ge [of n] by (simp add: within_def rowstride_block_count)
  from dense.negate_index [OF v(1) this] obtain w where w: "blocks_negate_index i (vec_bits v) = Some w" "blocks_ok w"
      "length w = length (vec_bits v)" "dense_bits w = toggle i A"
    using v(4) by (auto simp: dense_ops_def)
  have "sym_diff A {i} \<subseteq> {..<n}" using v(5) assms(2) by auto
  with v w assms(2) show ?thesis by (simp add: bitvec_negate_index_def vec_is_def toggle_def)
qed

lemma xor_column_run:
  assumes "vec_is n v A" "length bits = n"
  shows "\<exists>w. bitvec_xor_column v bits = Some w \<and> vec_is n w (sym_diff A {i. i < n \<and> bits ! i})"
proof -
  have "\<exists>w. ofold (\<lambda>index v. if bits ! index then bitvec_negate_index index v else Some v) [0..<n] v = Some w \<and>
      vec_is n w (sym_diff A {i. i < n \<and> bits ! i})"
  proof (rule ofold_upt_inv [where P = "\<lambda>k w. vec_is n w (sym_diff A {i. i < k \<and> bits ! i})"])
    show "vec_is n v (sym_diff A {i. i < 0 \<and> bits ! i})" using assms(1) by simp
    fix k w
    assume k: "k < n" and w: "vec_is n w (sym_diff A {i. i < k \<and> bits ! i})"
    have "sym_diff A {i. i < Suc k \<and> bits ! i} =
        (if bits ! k then sym_diff (sym_diff A {i. i < k \<and> bits ! i}) {k} else sym_diff A {i. i < k \<and> bits ! i})"
      by (auto simp: less_Suc_eq)
    with w vec_is_negate [OF w k]
    show "\<exists>w'. (if bits ! k then bitvec_negate_index k w else Some w) = Some w' \<and> vec_is n w' (sym_diff A {i. i < Suc k \<and> bits ! i})"
      by simp
  qed
  then show ?thesis using assms by (simp add: bitvec_xor_column_def vec_is_def)
qed

text \<open>The bits of a slice of a column.\<close>

lemma column_slice_bits:
  assumes m: "mat_ok m" "j < mat_cols m" and c: "mat_column m j = Some c" and ab: "a \<le> b" "b \<le> row_count m"
  shows "column_slice c a b \<bind> column_bits (mat_blocks m) = Some (map (\<lambda>i. mat_bit m (a + i) j) [0..<b - a])"
proof -
  have rows: "length (col_rows c) = row_count m" using c by (auto simp: mat_column_run row_count_def)
  let ?s = "c \<lparr> col_rows := take (b - a) (drop a (col_rows c)) \<rparr>"
  have len: "length (col_rows ?s) = b - a" using rows ab by simp
  have "column_index (mat_blocks m) ?s k = Some (mat_bit m (a + k) j)" if "k < b - a" for k
  proof -
    have "column_index (mat_blocks m) ?s k = column_index (mat_blocks m) c (a + k)"
      using that ab rows by (simp add: column_index_def value_in_row_def)
    then show ?thesis using column_index_run [OF m(1) c _ m(2), of "a + k"] that ab by simp
  qed
  from collect_map [of "b - a" "column_index (mat_blocks m) ?s", OF this, where h = "\<lambda>x. x"]
  have "column_bits (mat_blocks m) ?s = Some (map (\<lambda>i. mat_bit m (a + i) j) [0..<b - a])" unfolding column_bits_def len by simp
  then show ?thesis using ab rows by (simp add: column_slice_def)
qed

lemma projective_image_run:
  assumes ok: "clifford_ok C" and q: "q < num_qubits C" and "xs + num_qubits C \<le> 4 * num_qubits C" "zs + num_qubits C \<le> 4 * num_qubits C"
  shows "projective_image_at (clifford_bits C) (num_qubits C) q xs zs =
    Some (map (\<lambda>i. mat_bit (clifford_bits C) (xs + i) q) [0..<num_qubits C], map (\<lambda>i. mat_bit (clifford_bits C) (zs + i) q) [0..<num_qubits C])"
proof -
  let ?m = "clifford_bits C" and ?n = "num_qubits C"
  have m: "mat_ok ?m" "q < mat_cols ?m" "row_count ?m = 4 * ?n"
    using ok q by (simp_all add: clifford_ok_def num_qubits_def column_count_def)
  obtain c where c: "mat_column ?m q = Some c" using mat_column_run by blast
  have s: "column_slice c a (?n + a) \<bind> column_bits (mat_blocks ?m) = Some (map (\<lambda>i. mat_bit ?m (a + i) q) [0..<?n])"
    if "a + ?n \<le> 4 * ?n" for a
    using column_slice_bits [OF m(1,2) c, of a "?n + a"] that m(3) by (simp add: add.commute)
  obtain x z where "column_slice c xs (?n + xs) = Some x" "column_slice c zs (?n + zs) = Some z"
    using s [OF assms(3)] s [OF assms(4)] by (auto split: Option.bind_splits)
  with s [OF assms(3)] s [OF assms(4)] c show ?thesis by (simp add: projective_image_at_def)
qed

lemma image_views:
  assumes ok: "clifford_ok C" and q: "q < num_qubits C"
  shows "x_image_view_up_to_phase C q = Some (map (\<lambda>i. panti (xop q) (cz C i)) [0..<num_qubits C], map (\<lambda>i. panti (xop q) (cx C i)) [0..<num_qubits C])"
    "z_image_view_up_to_phase C q = Some (map (\<lambda>i. panti (zop q) (cz C i)) [0..<num_qubits C], map (\<lambda>i. panti (zop q) (cx C i)) [0..<num_qubits C])"
  using projective_image_run [OF ok q]
  by (simp_all add: x_image_view_up_to_phase_def z_image_view_up_to_phase_def row_ids panti_generators fam_def key_rows_def add.commute)

text \<open>The bits of the image of an operator are found by its commutation with the preimages.\<close>

definition image_sets :: "clifford_unitary \<Rightarrow> pauli_op \<Rightarrow> nat set \<times> nat set" where
  "image_sets C P = ({i. i < num_qubits C \<and> panti P (cz C i)}, {i. i < num_qubits C \<and> panti P (cx C i)})"

definition accumulates :: "clifford_unitary \<Rightarrow> pauli_op \<Rightarrow> bitvec \<times> bitvec \<Rightarrow> bool" where
  "accumulates C P v \<longleftrightarrow> vec_is (num_qubits C) (fst v) (fst (image_sets C P)) \<and> vec_is (num_qubits C) (snd v) (snd (image_sets C P))"

lemma image_sets_mul:
  assumes "clifford_ok C" "pfinite P" "pfinite Q"
  shows "fst (image_sets C (pmul P Q)) = sym_diff (fst (image_sets C P)) (fst (image_sets C Q))"
    "snd (image_sets C (pmul P Q)) = sym_diff (snd (image_sets C P)) (snd (image_sets C Q))"
proof -
  have "panti (pmul P Q) (fam C key) = (panti P (fam C key) \<noteq> panti Q (fam C key))" for key
    using panti_pmul [OF assms(2,3), of "fam C key"] pauli_on_finite [OF fam_on [OF assms(1)]] panti_sym by metis
  then show "fst (image_sets C (pmul P Q)) = sym_diff (fst (image_sets C P)) (fst (image_sets C Q))"
    "snd (image_sets C (pmul P Q)) = sym_diff (snd (image_sets C P)) (snd (image_sets C Q))"
    by (auto simp: image_sets_def)
qed

lemma add_column_run:
  assumes ok: "clifford_ok C" and P: "accumulates C P t" "pfinite P" "pfinite Q"
    and v: "v = (map (\<lambda>i. panti Q (cz C i)) [0..<num_qubits C], map (\<lambda>i. panti Q (cx C i)) [0..<num_qubits C])"
  shows "\<exists>r. add_column_bits v t = Some r \<and> accumulates C (pmul P Q) r"
proof -
  have s: "fst (image_sets C Q) = {i. i < num_qubits C \<and> fst v ! i}" "snd (image_sets C Q) = {i. i < num_qubits C \<and> snd v ! i}"
    by (auto simp: v image_sets_def)
  have t: "vec_is (num_qubits C) (fst t) (fst (image_sets C P))" "vec_is (num_qubits C) (snd t) (snd (image_sets C P))"
    using P(1) by (simp_all add: accumulates_def)
  obtain x where x: "bitvec_xor_column (fst t) (fst v) = Some x" "vec_is (num_qubits C) x (fst (image_sets C (pmul P Q)))"
    using xor_column_run [OF t(1), of "fst v"] s(1) image_sets_mul(1) [OF ok P(2,3)] by (auto simp: v)
  obtain z where z: "bitvec_xor_column (snd t) (snd v) = Some z" "vec_is (num_qubits C) z (snd (image_sets C (pmul P Q)))"
    using xor_column_run [OF t(2), of "snd v"] s(2) image_sets_mul(2) [OF ok P(2,3)] by (auto simp: v)
  show ?thesis using x z by (simp add: add_column_bits_def accumulates_def)
qed

lemma accumulates_neutral:
  assumes "length (fst v) = num_qubits C" "length (snd v) = num_qubits C"
  shows "accumulates C pone (column_neutral_element v)"
  using assms vec_is_zeros by (simp add: accumulates_def column_neutral_element_def image_sets_def)

lemma image_bits_loop:
  assumes ok: "clifford_ok C" and "set xs \<subseteq> {..<num_qubits C}" "accumulates C P t" "pfinite P"
  shows "\<exists>r. mul_assign_right_clifford_image_x_bits_up_to_phase C xs t = Some r \<and> accumulates C (fold (\<lambda>i P. pmul P (xop i)) xs P) r"
    "\<exists>r. mul_assign_right_clifford_image_z_bits_up_to_phase C xs t = Some r \<and> accumulates C (fold (\<lambda>i P. pmul P (zop i)) xs P) r"
proof -
  have fin: "pfinite (xop i)" "pfinite (zop i)" for i by (simp_all add: xop_def zop_def pfinite_def)
  show "\<exists>r. mul_assign_right_clifford_image_x_bits_up_to_phase C xs t = Some r \<and> accumulates C (fold (\<lambda>i P. pmul P (xop i)) xs P) r"
    using assms(2-) unfolding mul_assign_right_clifford_image_x_bits_up_to_phase_def
  proof (induction xs arbitrary: t P)
    case (Cons i xs)
    then obtain r where "add_column_bits (map (\<lambda>j. panti (xop i) (cz C j)) [0..<num_qubits C], map (\<lambda>j. panti (xop i) (cx C j)) [0..<num_qubits C]) t = Some r"
        "accumulates C (pmul P (xop i)) r"
      using add_column_run [OF ok Cons.prems(2,3) fin(1) refl] by blast
    with Cons.IH [of "pmul P (xop i)" r] Cons.prems image_views(1) [OF ok, of i] fin show ?case by simp
  qed simp
  show "\<exists>r. mul_assign_right_clifford_image_z_bits_up_to_phase C xs t = Some r \<and> accumulates C (fold (\<lambda>i P. pmul P (zop i)) xs P) r"
    using assms(2-) unfolding mul_assign_right_clifford_image_z_bits_up_to_phase_def
  proof (induction xs arbitrary: t P)
    case (Cons i xs)
    then obtain r where "add_column_bits (map (\<lambda>j. panti (zop i) (cz C j)) [0..<num_qubits C], map (\<lambda>j. panti (zop i) (cx C j)) [0..<num_qubits C]) t = Some r"
        "accumulates C (pmul P (zop i)) r"
      using add_column_run [OF ok Cons.prems(2,3) fin(2) refl] by blast
    with Cons.IH [of "pmul P (zop i)" r] Cons.prems image_views(2) [OF ok, of i] fin show ?case by simp
  qed simp
qed

lemma vec_is_support: "vec_is n v A \<Longrightarrow> blocks_support (vec_bits v) = sorted_list_of_set A"
  using dense.support [of "vec_bits v"] by (simp add: vec_is_def dense_ops_def)

lemma image_with_phase_run:
  assumes v: "clifford_valid C" and n: "0 < num_qubits C"
    and a: "vec_is (num_qubits C) (fst bits) A" "vec_is (num_qubits C) (snd bits) B"
  shows "\<exists>r. clifford_image_with_phase C (to_aligned_bits bits) = Some r \<and> fits (num_qubits C) r \<and>
    dense_sem r = (A, B, - snd (snd (cpre C (A, B, 0))))"
proof -
  let ?n = "num_qubits C"
  note ok = valid_ok [OF v]
  obtain v0 where v0: "preimage_x_view C 0 = Some v0" "fits ?n v0"
    using key_view_run [OF ok, of "(False, 0)"] n by (auto simp: key_view_def)
  have neutral: "fits ?n (pauli_neutral_element dense_ops v0)" "dense_sem (pauli_neutral_element dense_ops v0) = pone"
  proof -
    have b: "blocks_ok (px v0)" "blocks_ok (pz v0)" "length (pz v0) = length (px v0)" "length (px v0) = rowstride_of ?n"
      using v0(2) by (auto simp: fits_def pauli_ok_def)
    note e = dense.neutral [OF b(1)] dense.neutral [OF b(2)]
    then show "dense_sem (pauli_neutral_element dense_ops v0) = pone"
      by (simp add: pauli_neutral_element_def pauli_from_bits_def projective_from_bits_def psem_def pone_def)
    with e b show "fits ?n (pauli_neutral_element dense_ops v0)"
      by (simp add: fits_def) (simp add: pauli_neutral_element_def pauli_from_bits_def projective_from_bits_def pauli_ok_def)
  qed
  have s: "A \<subseteq> {..<?n}" "B \<subseteq> {..<?n}" using a by (simp_all add: vec_is_def)
  then have f: "finite A" "finite B" by (auto intro: finite_subset)
  obtain u where u: "mul_assign_right_clifford_preimage_x_bits C (sorted_list_of_set A) (pauli_neutral_element dense_ops v0) = Some u"
      "fits ?n u" "dense_sem u = fprod (cx C) A"
    using preimage_bits_run(1) [OF ok _ neutral(1), of "sorted_list_of_set A"] neutral(2) s f by (auto simp: fprod_def)
  obtain w where w: "mul_assign_right_clifford_preimage_z_bits C (sorted_list_of_set B) u = Some w"
      "fits ?n w" "dense_sem w = pmul (fprod (cx C) A) (fprod (cz C) B)"
    using preimage_bits_run(2) [OF ok _ u(2), of "sorted_list_of_set B"] u(3) s f by (auto simp: fprod_def)
  have "dense_sem w = cpre C (A, B, 0)" unfolding cpre_eq [OF v, symmetric] by (simp add: w(3) pre_def)
  then have ph: "ph (xz_phase_exp w) = snd (snd (cpre C (A, B, 0)))" by (metis psem_def snd_conv)
  let ?bits = "to_aligned_bits bits"
  let ?r = "mul_assign_phase_from (pauli_complex_conjugate w) (pauli_from_bits (fst ?bits) (snd ?bits) 0)"
  have run: "clifford_image_with_phase C ?bits = Some ?r"
    using v0(1) u(1) w(1) vec_is_support [OF a(1)] vec_is_support [OF a(2)]
    by (simp add: clifford_image_with_phase_def to_aligned_bits_def)
  have sem: "dense_sem ?r = (A, B, - snd (snd (cpre C (A, B, 0))))"
    using a ph ph_phase_exponent [of "pauli_complex_conjugate w"]
    by (simp add: psem_def mul_assign_phase_from_def pauli_complex_conjugate_def phase_add_assign_def phase_complex_conjugate_def
        to_aligned_bits_def vec_is_def pauli_from_bits_def projective_from_bits_def)
  moreover have "dense_ok ?r" "length (px ?r) = rowstride_of ?n"
    using a by (simp_all add: mul_assign_phase_from_def to_aligned_bits_def vec_is_def pauli_from_bits_def projective_from_bits_def pauli_ok_def)
  ultimately have "fits ?n ?r" using s by (simp add: fits_def pauli_on_def)
  with run sem show ?thesis by blast
qed

text \<open>The image is the operator whose preimage is the given one.\<close>

lemma image_inverts:
  assumes v: "clifford_valid C" and P: "pauli_on (num_qubits C) P"
  shows "cpre C (fst (image_sets C P), snd (image_sets C P), - snd (snd (cpre C (fst (image_sets C P), snd (image_sets C P), 0)))) =
    pphase (- snd (snd P)) P"
proof -
  have e: "image_sets C P = clifford.image_bits C P"
    unfolding image_sets_def clifford.image_bits_def using v by (simp add: frame_x_def frame_z_def)
  obtain k where k: "cpre C (fst (image_sets C P), snd (image_sets C P), k) = P"
    using clifford.image_unique [OF P] unfolding e by blast
  let ?I = "(fst (image_sets C P), snd (image_sets C P), 0)"
  have split: "cpre C (fst (image_sets C P), snd (image_sets C P), l) = pphase l (cpre C ?I)" for l
  proof -
    have "(fst (image_sets C P), snd (image_sets C P), l) = pphase l ?I" by (simp add: pphase_def)
    then show ?thesis by (metis cpre_simps(2))
  qed
  define I where "I = cpre C ?I"
  have I: "I = pphase (- k) P" unfolding I_def using k split [of k] by (metis pphase_simps(1,2) right_minus)
  then have "snd (snd I) = snd (snd P) - k" by (cases P) (simp add: pphase_def)
  moreover have "cpre C (fst (image_sets C P), snd (image_sets C P), - snd (snd I)) = pphase (- snd (snd I)) I"
    unfolding I_def by (rule split)
  ultimately show ?thesis unfolding I_def [symmetric] by (simp add: I)
qed

lemma gens_plain: "pfinite (xop i)" "pfinite (zop i)" "snd (snd (xop i)) = 0" "snd (snd (zop i)) = 0"
  by (simp_all add: xop_def zop_def pfinite_def)

lemma fold_xz_product:
  assumes "finite A" "finite B"
  shows "fold (\<lambda>i P. pmul P (zop i)) (sorted_list_of_set B) (fold (\<lambda>i P. pmul P (xop i)) (sorted_list_of_set A) pone) = (A, B, 0)"
proof -
  have "fold (\<lambda>i P. pmul P (xop i)) (sorted_list_of_set A) pone = (A, {}, 0)"
    using fprod_generators(1) [OF assms(1)] by (simp add: fprod_def pprod_def)
  moreover have "fold (\<lambda>i P. pmul P (zop i)) (sorted_list_of_set B) (A, {}, 0) = pmul (A, {}, 0) (fprod zop B)"
    unfolding fprod_def by (rule pprod_from) (use assms in \<open>simp_all add: zop_def pfinite_def\<close>)
  ultimately show ?thesis using fprod_generators(2) [OF assms(2)] by (simp add: pmul_def)
qed

lemma image_sets_phase: "image_sets C (A, B, k) = image_sets C (A, B, l)"
  by (simp add: image_sets_def panti_def split_beta)

context pauli_bits
begin

lemma image_run:
  assumes v: "clifford_valid C" and n: "0 < num_qubits C" and p: "unitary_ok ok cap p" "pauli_on (num_qubits C) (psem bset p)"
  shows "\<exists>r. clifford_image B C p = Some r \<and> fits (num_qubits C) r \<and> cpre C (dense_sem r) = psem bset p"
proof -
  let ?n = "num_qubits C"
  note okC = valid_ok [OF v]
  define X where "X = bset (px p)"
  define Z where "Z = bset (pz p)"
  have s: "X \<subseteq> {..<?n}" "Z \<subseteq> {..<?n}" "finite X" "finite Z"
    using p bset_finite by (simp_all add: X_def Z_def pauli_on_def psem_def pauli_ok_def)
  have sup: "bo_support B (px p) = sorted_list_of_set X" "bo_support B (pz p) = sorted_list_of_set Z"
    using p(1) support by (simp_all add: X_def Z_def pauli_ok_def)
  let ?v0 = "(map (\<lambda>i. panti (xop 0) (cz C i)) [0..<?n], map (\<lambda>i. panti (xop 0) (cx C i)) [0..<?n])"
  let ?Q = "fold (\<lambda>i P. pmul P (xop i)) (sorted_list_of_set X) pone"
  have acc0: "accumulates C pone (column_neutral_element ?v0)" by (rule accumulates_neutral) simp_all
  obtain u where u: "mul_assign_right_clifford_image_x_bits_up_to_phase C (sorted_list_of_set X) (column_neutral_element ?v0) = Some u"
      "accumulates C ?Q u"
    using image_bits_loop(1) [OF okC _ acc0, of "sorted_list_of_set X"] s by auto
  have "pfinite ?Q" by (rule pfinite_pprod_from) (simp_all add: gens_plain)
  then obtain w where w: "mul_assign_right_clifford_image_z_bits_up_to_phase C (sorted_list_of_set Z) u = Some w" "accumulates C (X, Z, 0) w"
    using image_bits_loop(2) [OF okC _ u(2), of "sorted_list_of_set Z"] fold_xz_product [OF s(3,4)] s by auto
  let ?I = "image_sets C (X, Z, 0)"
  obtain r where r: "clifford_image_with_phase C (to_aligned_bits w) = Some r" "fits ?n r"
      "dense_sem r = (fst ?I, snd ?I, - snd (snd (cpre C (fst ?I, snd ?I, 0))))"
    using image_with_phase_run [OF v n] w(2) unfolding accumulates_def by blast
  let ?r = "add_assign_phase_exp (xz_phase_exponent p) r"
  have run: "clifford_image B C p = Some ?r"
    using image_views(1) [OF okC n] u(1) w(1) r(1) by (simp add: clifford_image_def sup)
  have "cpre C (dense_sem r) = (X, Z, 0)"
    using image_inverts [OF v, of "(X, Z, 0)"] s by (simp add: r(3) pauli_on_def)
  then have "cpre C (dense_sem ?r) = pphase (ph (xz_phase_exp p)) (X, Z, 0)"
    by (simp add: fits_phase ph_phase_exponent)
  also have "\<dots> = psem bset p" by (simp add: pphase_def psem_def X_def Z_def)
  finally show ?thesis using run fits_phase(1) [OF r(2)] by blast
qed

end

lemma image_gen_run:
  assumes v: "clifford_valid C" and q: "q < num_qubits C"
  shows "\<exists>r. clifford_image_x C q = Some r \<and> fits (num_qubits C) r \<and> cpre C (dense_sem r) = xop q"
    "\<exists>r. clifford_image_z C q = Some r \<and> fits (num_qubits C) r \<and> cpre C (dense_sem r) = zop q"
proof -
  let ?n = "num_qubits C"
  note okC = valid_ok [OF v]
  have n: "0 < ?n" using q by simp
  let ?vx = "\<lambda>P. (map (\<lambda>i. panti P (cz C i)) [0..<?n], map (\<lambda>i. panti P (cx C i)) [0..<?n])"
  have acc: "accumulates C pone (column_neutral_element (?vx P))" for P by (rule accumulates_neutral) simp_all
  have fin1: "pfinite pone" by simp
  have img: "\<exists>r. clifford_image_with_phase C (to_aligned_bits t) = Some r \<and> fits ?n r \<and> cpre C (dense_sem r) = P"
    if "accumulates C P t" "pauli_on ?n P" "snd (snd P) = 0" for P t
    using image_with_phase_run [OF v n, of t] image_inverts [OF v that(2)] that(1,3) unfolding accumulates_def by fastforce
  obtain t where t: "add_column_bits (?vx (xop q)) (column_neutral_element (?vx (xop 0))) = Some t" "accumulates C (xop q) t"
    using add_column_run [OF okC acc [of "xop 0"] fin1 gens_plain(1) [of q] refl] by auto
  show "\<exists>r. clifford_image_x C q = Some r \<and> fits ?n r \<and> cpre C (dense_sem r) = xop q"
    using image_views(1) [OF okC n] image_views(1) [OF okC q] t img [OF t(2)] q by (simp add: clifford_image_x_def gens_plain)
  obtain t where t: "add_column_bits (?vx (zop q)) (column_neutral_element (?vx (zop 0))) = Some t" "accumulates C (zop q) t"
    using add_column_run [OF okC acc [of "zop 0"] fin1 gens_plain(2) [of q] refl] by auto
  show "\<exists>r. clifford_image_z C q = Some r \<and> fits ?n r \<and> cpre C (dense_sem r) = zop q"
    using image_views(2) [OF okC n] image_views(2) [OF okC q] t img [OF t(2)] q by (simp add: clifford_image_z_def gens_plain)
qed

section \<open>The tests decide\<close>

lemma all_true_run: "(\<And>x. x \<in> set xs \<Longrightarrow> f x = Some (g x)) \<Longrightarrow> all_true f xs = Some (\<forall>x \<in> set xs. g x)"
proof -
  have "(\<And>x. x \<in> set xs \<Longrightarrow> f x = Some (g x)) \<Longrightarrow> first_true (\<lambda>x. map_option Not (f x)) xs = Some (\<exists>x \<in> set xs. \<not> g x)"
    by (induction xs) simp_all
  then show "(\<And>x. x \<in> set xs \<Longrightarrow> f x = Some (g x)) \<Longrightarrow> all_true f xs = Some (\<forall>x \<in> set xs. g x)" by (simp add: all_true_def)
qed

definition relations_from :: "clifford_unitary \<Rightarrow> nat \<Rightarrow> bool" where
  "relations_from C i \<longleftrightarrow> pmul (cx C i) (cx C i) = pone \<and> pmul (cz C i) (cz C i) = pone \<and> panti (cx C i) (cz C i) \<and>
     (\<forall>j \<in> {i + 1..<num_qubits C}. \<not> panti (cx C i) (cx C j) \<and> \<not> panti (cx C i) (cz C j) \<and> \<not> panti (cz C i) (cx C j) \<and> \<not> panti (cz C i) (cz C j))"

lemma relations_symplectic:
  assumes "clifford_ok C"
  shows "(\<forall>i \<in> {0..<num_qubits C}. relations_from C i) = symplectic (num_qubits C) (cx C) (cz C)"
proof
  assume r: "\<forall>i \<in> {0..<num_qubits C}. relations_from C i"
  have two: "pmul (cx C i) (cx C i) = pone" "pmul (cz C i) (cz C i) = pone" "panti (cx C i) (cz C i)" if "i < num_qubits C" for i
    using r that by (simp_all add: relations_from_def)
  have up: "\<not> panti (cx C i) (cx C j)" "\<not> panti (cx C i) (cz C j)" "\<not> panti (cz C i) (cx C j)" "\<not> panti (cz C i) (cz C j)"
    if "i < j" "j < num_qubits C" for i j using r that by (simp_all add: relations_from_def)
  have "\<not> panti (cx C i) (cx C j)" "\<not> panti (cz C i) (cz C j)" "panti (cx C i) (cz C j) = (i = j)" if "i < num_qubits C" "j < num_qubits C" for i j
  proof -
    consider "i < j" | "i = j" | "j < i" by linarith
    then have "\<not> panti (cx C i) (cx C j) \<and> \<not> panti (cz C i) (cz C j) \<and> panti (cx C i) (cz C j) = (i = j)"
    proof cases
      case 1
      with up [OF 1 that(2)] show ?thesis by simp
    next
      case 2
      with two(3) [OF that(1)] show ?thesis by simp
    next
      case 3
      note u = up [OF 3 that(1)]
      have "\<not> panti (cx C i) (cx C j)" using u(1) panti_sym by blast
      moreover have "\<not> panti (cx C i) (cz C j)" using u(3) panti_sym by blast
      moreover have "\<not> panti (cz C i) (cz C j)" using u(4) panti_sym by blast
      ultimately show ?thesis using 3 by simp
    qed
    then show "\<not> panti (cx C i) (cx C j)" "\<not> panti (cz C i) (cz C j)" "panti (cx C i) (cz C j) = (i = j)" by simp_all
  qed
  with two(1,2) fam_on [OF assms] show "symplectic (num_qubits C) (cx C) (cz C)" by (simp add: symplectic_def)
next
  assume s: "symplectic (num_qubits C) (cx C) (cz C)"
  then show "\<forall>i \<in> {0..<num_qubits C}. relations_from C i"
    unfolding symplectic_def relations_from_def by (auto simp: panti_sym [of "cz C _" "cx C _"])
qed

lemma is_valid_run:
  assumes ok: "clifford_ok C"
  shows "is_valid_clifford C = Some (symplectic (num_qubits C) (cx C) (cz C))"
proof -
  let ?n = "num_qubits C"
  have vw: "\<exists>p. preimage_x_view C i = Some p \<and> fits ?n p \<and> dense_sem p = cx C i" "\<exists>p. preimage_z_view C i = Some p \<and> fits ?n p \<and> dense_sem p = cz C i"
    if "i < ?n" for i using key_view_run [OF ok, of "(False, i)"] key_view_run [OF ok, of "(True, i)"] that by (simp_all add: key_view_def)
  have anti: "anti_commutes_with dense_ops (projective p) (projective q) = Some (panti (dense_sem p) (dense_sem q))" if "fits ?n p" "fits ?n q" for p q
    using dense.anti_commutes [of p q] that fits_caps [OF that] by (simp add: fits_def)
  have two: "pauli_is_order_two dense_ops p = Some (pmul (dense_sem p) (dense_sem p) = pone)" if "fits ?n p" for p
    using dense.order_two that by (simp add: fits_def)
  have "is_valid_clifford C = Some (\<forall>i \<in> set [0..<?n]. relations_from C i)"
    unfolding is_valid_clifford_def
  proof (rule all_true_run, goal_cases)
    case (1 i)
    then have i: "i < ?n" by simp
    obtain x z where x: "preimage_x_view C i = Some x" "fits ?n x" "dense_sem x = cx C i"
        and z: "preimage_z_view C i = Some z" "fits ?n z" "dense_sem z = cz C i" using vw [OF i] by blast
    have inner: "all_true (\<lambda>other_index. do {
         other_x_preimage \<leftarrow> preimage_x_view C other_index;
         other_z_preimage \<leftarrow> preimage_z_view C other_index;
         xx \<leftarrow> anti_commutes_with dense_ops (projective x) (projective other_x_preimage);
         xz \<leftarrow> anti_commutes_with dense_ops (projective x) (projective other_z_preimage);
         zx \<leftarrow> anti_commutes_with dense_ops (projective z) (projective other_x_preimage);
         zz \<leftarrow> anti_commutes_with dense_ops (projective z) (projective other_z_preimage);
         Some (\<not> (xx \<or> xz \<or> zx \<or> zz)) }) [i + 1..<?n] =
      Some (\<forall>j \<in> set [i + 1..<?n]. \<not> (panti (cx C i) (cx C j) \<or> panti (cx C i) (cz C j) \<or> panti (cz C i) (cx C j) \<or> panti (cz C i) (cz C j)))"
    proof (rule all_true_run)
      fix j
      assume "j \<in> set [i + 1..<?n]"
      then have "j < ?n" by simp
      from vw [OF this] obtain x' z' where "preimage_x_view C j = Some x'" "fits ?n x'" "dense_sem x' = cx C j"
          "preimage_z_view C j = Some z'" "fits ?n z'" "dense_sem z' = cz C j" by blast
      with x z anti show "do {
         other_x_preimage \<leftarrow> preimage_x_view C j;
         other_z_preimage \<leftarrow> preimage_z_view C j;
         xx \<leftarrow> anti_commutes_with dense_ops (projective x) (projective other_x_preimage);
         xz \<leftarrow> anti_commutes_with dense_ops (projective x) (projective other_z_preimage);
         zx \<leftarrow> anti_commutes_with dense_ops (projective z) (projective other_x_preimage);
         zz \<leftarrow> anti_commutes_with dense_ops (projective z) (projective other_z_preimage);
         Some (\<not> (xx \<or> xz \<or> zx \<or> zz)) } =
        Some (\<not> (panti (cx C i) (cx C j) \<or> panti (cx C i) (cz C j) \<or> panti (cz C i) (cx C j) \<or> panti (cz C i) (cz C j)))" by simp
    qed
    show ?case unfolding x(1) z(1) Option.bind.simps two [OF x(2)] two [OF z(2)] commutes_with_def anti [OF x(2) z(2)] inner
      by (simp add: x(3) z(3) two [OF z(2)] relations_from_def)
  qed
  then show ?thesis using relations_symplectic [OF ok] by simp
qed

lemma fits_is_pauli:
  assumes "fits n p" "i < n"
  shows "is_pauli_x dense_ops p i = Some (dense_sem p = xop i)" "is_pauli_z dense_ops p i = Some (dense_sem p = zop i)"
proof -
  have b: "blocks_ok (px p)" "blocks_ok (pz p)" "within (dense_cap (px p)) i" "within (dense_cap (pz p)) i"
    using assms fits_within [OF assms] by (auto simp: fits_def pauli_ok_def pcap_def)
  note u = dense.is_unit [OF b(1,3)] dense.is_unit [OF b(2,4)] dense.is_zero [OF b(1)] dense.is_zero [OF b(2)]
  show "is_pauli_x dense_ops p i = Some (dense_sem p = xop i)" "is_pauli_z dense_ops p i = Some (dense_sem p = zop i)"
    by (auto simp: is_pauli_x_def is_pauli_z_def u phase_is_zero_ph psem_def xop_def zop_def)
qed

lemma is_identity_run:
  assumes ok: "clifford_ok C"
  shows "clifford_is_identity C = Some (\<forall>q \<in> {0..<num_qubits C}. cx C q = xop q \<and> cz C q = zop q)"
proof -
  have "clifford_is_identity C = Some (\<forall>q \<in> set [0..<num_qubits C]. cx C q = xop q \<and> cz C q = zop q)"
    unfolding clifford_is_identity_def
  proof (rule all_true_run)
    fix q
    assume "q \<in> set [0..<num_qubits C]"
    then have q: "q < num_qubits C" by simp
    obtain x z where "preimage_x_view C q = Some x" "fits (num_qubits C) x" "dense_sem x = cx C q"
        "preimage_z_view C q = Some z" "fits (num_qubits C) z" "dense_sem z = cz C q"
      using key_view_run [OF ok, of "(False, q)"] key_view_run [OF ok, of "(True, q)"] q by (auto simp: key_view_def)
    then show "do { x \<leftarrow> preimage_x_view C q; b \<leftarrow> is_pauli_x dense_ops x q;
         if \<not> b then Some False else do { z \<leftarrow> preimage_z_view C q; is_pauli_z dense_ops z q } } = Some (cx C q = xop q \<and> cz C q = zop q)"
      using fits_is_pauli q by simp
  qed
  then show ?thesis by simp
qed

section \<open>Loops that write the preimages\<close>

lemma fits_assign: "fits n p \<Longrightarrow> fits n q \<Longrightarrow> fits n (pauli_assign dense_ops q p) \<and> dense_sem (pauli_assign dense_ops q p) = dense_sem q"
  using dense.assign_copies [of p q] fits_caps [of n p q] fits_same [of n p] by (simp add: fits_def pcap_def)

lemma assign_key_run:
  assumes "clifford_ok C" "snd key < num_qubits C" "fits (num_qubits C) p"
  shows "becomes C ((fam C)(key := dense_sem p)) (key_view_mut key (assign_view p) C)"
  by (rule key_view_mut_run [OF assms(1,2)]) (use fits_assign [OF _ assms(3)] in \<open>simp add: assign_view_def\<close>)

lemma becomes_bind:
  assumes "becomes C F r" "\<And>C'. clifford_ok C' \<Longrightarrow> num_qubits C' = num_qubits C \<Longrightarrow> fam C' = F \<Longrightarrow> becomes C' G (f C')"
  shows "becomes C G (r \<bind> f)"
  using assms by (fastforce simp: becomes_def)

lemma assign_xz_run:
  assumes ok: "clifford_ok C" and q: "q < num_qubits C" and x: "fits (num_qubits C) x" and z: "fits (num_qubits C) z"
  shows "becomes C ((fam C)((False, q) := dense_sem x, (True, q) := dense_sem z))
    (do { C \<leftarrow> preimage_x_view_mut q (assign_view x) C; preimage_z_view_mut q (assign_view z) C })"
proof (rule becomes_bind)
  show "becomes C ((fam C)((False, q) := dense_sem x)) (preimage_x_view_mut q (assign_view x) C)"
    using assign_key_run [OF ok, of "(False, q)" x] q x by (simp add: key_view_mut_def)
  fix C'
  assume "clifford_ok C'" "num_qubits C' = num_qubits C" "fam C' = (fam C)((False, q) := dense_sem x)"
  then show "becomes C' ((fam C)((False, q) := dense_sem x, (True, q) := dense_sem z)) (preimage_z_view_mut q (assign_view z) C')"
    using assign_key_run [of C' "(True, q)" z] q z by (simp add: key_view_mut_def)
qed

lemma qubit_loop:
  assumes ok: "clifford_ok C0"
    and step: "\<And>q C. q < k \<Longrightarrow> clifford_ok C \<Longrightarrow> num_qubits C = num_qubits C0 \<Longrightarrow> (\<And>c. fam C (c, b + q) = fam C0 (c, b + q)) \<Longrightarrow>
      becomes C ((fam C)((False, b + q) := X q, (True, b + q) := Z q)) (body q C)"
  shows "becomes C0 (\<lambda>(c, p). if b \<le> p \<and> p < b + k then (if c then Z (p - b) else X (p - b)) else fam C0 (c, p)) (ofold body [0..<k] C0)"
proof -
  let ?F = "\<lambda>l (c, p). if b \<le> p \<and> p < b + l then (if c then Z (p - b) else X (p - b)) else fam C0 (c, p)"
  have "\<exists>C. ofold body [0..<k] C0 = Some C \<and> clifford_ok C \<and> num_qubits C = num_qubits C0 \<and> fam C = ?F k"
  proof (rule ofold_upt_inv)
    show "clifford_ok C0 \<and> num_qubits C0 = num_qubits C0 \<and> fam C0 = ?F 0" using ok by (auto simp: fun_eq_iff)
    fix l C
    assume l: "l < k" and C: "clifford_ok C \<and> num_qubits C = num_qubits C0 \<and> fam C = ?F l"
    then have "becomes C ((fam C)((False, b + l) := X l, (True, b + l) := Z l)) (body l C)" by (intro step) auto
    then obtain C' where C': "body l C = Some C'" "clifford_ok C'" "num_qubits C' = num_qubits C"
        "fam C' = (fam C)((False, b + l) := X l, (True, b + l) := Z l)" by (rule becomesE)
    have "fam C' key = ?F (Suc l) key" for key using C by (cases key) (auto simp: C'(4) less_Suc_eq)
    with C' C show "\<exists>C'. body l C = Some C' \<and> clifford_ok C' \<and> num_qubits C' = num_qubits C0 \<and> fam C' = ?F (Suc l)"
      by (auto simp: fun_eq_iff)
  qed
  then show ?thesis by (auto simp: becomes_def)
qed

lemma qubit_loop0:
  assumes "clifford_ok C0"
    and "\<And>q C. q < k \<Longrightarrow> clifford_ok C \<Longrightarrow> num_qubits C = num_qubits C0 \<Longrightarrow> (\<And>c. fam C (c, q) = fam C0 (c, q)) \<Longrightarrow>
      becomes C ((fam C)((False, q) := X q, (True, q) := Z q)) (body q C)"
  shows "becomes C0 (\<lambda>(c, p). if p < k then (if c then Z p else X p) else fam C0 (c, p)) (ofold body [0..<k] C0)"
proof -
  have "(\<lambda>(c, p). if 0 \<le> p \<and> p < 0 + k then (if c then Z (p - 0) else X (p - 0)) else fam C0 (c, p)) =
      (\<lambda>(c, p). if p < k then (if c then Z p else X p) else fam C0 (c, p))" by (auto simp: fun_eq_iff)
  with qubit_loop [OF assms(1), of k 0 X Z body] assms(2) show ?thesis by simp
qed

section \<open>Products and inverses\<close>

lemma multiply_run:
  assumes L: "clifford_valid L" and R: "clifford_valid R" and n: "num_qubits L = num_qubits R"
  shows "acts R (cpre L) (clifford_multiply_with L R)"
proof (rule actsI [OF R])
  let ?n = "num_qubits R"
  show "automorphism ?n (cpre L)"
    by (rule automorphismI) (use clifford.pre_on [of L] clifford.pre_pmul [of L] n in simp_all)
  let ?F = "\<lambda>(c, p). if p < ?n then (if c then cpre R (cz L p) else cpre R (cx L p)) else fam (clifford_zero ?n) (c, p)"
  have "becomes (clifford_zero ?n) ?F (clifford_multiply_with L R)"
  proof -
    have vw: "\<exists>v p. preimage_x_view L q = Some v \<and> clifford_preimage dense_ops R v = Some p \<and> fits ?n p \<and> dense_sem p = cpre R (cx L q)"
      "\<exists>v p. preimage_z_view L q = Some v \<and> clifford_preimage dense_ops R v = Some p \<and> fits ?n p \<and> dense_sem p = cpre R (cz L q)" if "q < ?n" for q
      using key_view_run [OF valid_ok [OF L], of "(False, q)"] key_view_run [OF valid_ok [OF L], of "(True, q)"] that n dense_preimage_run [OF R]
      by (fastforce simp: key_view_def)+
    let ?body = "\<lambda>q C. do { v \<leftarrow> preimage_x_view L q; p \<leftarrow> clifford_preimage dense_ops R v; result \<leftarrow> preimage_x_view_mut q (assign_view p) C;
       v \<leftarrow> preimage_z_view L q; p \<leftarrow> clifford_preimage dense_ops R v; preimage_z_view_mut q (assign_view p) result }"
    have "becomes (clifford_zero ?n) ?F (ofold ?body [0..<?n] (clifford_zero ?n))"
    proof (rule qubit_loop0 [where X = "\<lambda>q. cpre R (cx L q)" and Z = "\<lambda>q. cpre R (cz L q)"])
      show "clifford_ok (clifford_zero ?n)" by (rule clifford_zero_ok)
      fix q C
      assume q: "q < ?n" and C: "clifford_ok C" "num_qubits C = num_qubits (clifford_zero ?n)"
      obtain v p where x: "preimage_x_view L q = Some v" "clifford_preimage dense_ops R v = Some p" "fits ?n p" "dense_sem p = cpre R (cx L q)"
        using vw(1) [OF q] by blast
      obtain w r where z: "preimage_z_view L q = Some w" "clifford_preimage dense_ops R w = Some r" "fits ?n r" "dense_sem r = cpre R (cz L q)"
        using vw(2) [OF q] by blast
      show "becomes C ((fam C)((False, q) := cpre R (cx L q), (True, q) := cpre R (cz L q))) (?body q C)"
        using assign_xz_run [OF C(1), of q p r] q C(2) x z clifford_zero_ok(2) by simp
    qed
    then show ?thesis using n by (simp add: clifford_multiply_with_def)
  qed
  then show "becomes R ?F (clifford_multiply_with L R)" using clifford_zero_ok(2) [of ?n] by (simp add: becomes_def)
  fix key :: key
  assume "snd key < ?n"
  then show "?F key = cpre R (cpre L (gen key))" using cpre_gen [OF L, of key] n by (cases key) auto
qed

text \<open>A unitary whose preimages are the images of \<open>C\<close> is the inverse.\<close>

lemma inverse_of:
  assumes C: "clifford_valid C" and D: "clifford_ok D" "num_qubits D = num_qubits C"
    and gen: "\<And>key. snd key < num_qubits C \<Longrightarrow> cpre C (fam D key) = gen key"
  shows "clifford_valid D" "pauli_on (num_qubits C) P \<Longrightarrow> cpre C (cpre D P) = P" "pauli_on (num_qubits C) P \<Longrightarrow> cpre D (cpre C P) = P"
proof -
  let ?n = "num_qubits C"
  have s: "symplectic ?n (frame_x C) (frame_z C)" using C by (simp add: clifford_valid_def frame_x_def frame_z_def)
  have on: "pauli_on ?n (cx D i)" "pauli_on ?n (cz D i)" for i using fam_on [OF D(1)] D(2) by simp_all
  have g: "cpre C (cx D i) = xop i" "cpre C (cz D i) = zop i" if "i < ?n" for i
    using gen [of "(False, i)"] gen [of "(True, i)"] that by simp_all
  have "symplectic ?n (cx D) (cz D)" using symplectic_pullback [OF s on g] .
  with D show v: "clifford_valid D" by (simp add: clifford_valid_def)
  assume P: "pauli_on ?n P"
  show "cpre C (cpre D P) = P" "cpre D (cpre C P) = P"
    using pullback_inverse [OF s on g P] unfolding cpre_eq [OF v] by simp_all
qed

lemma inverse_run:
  assumes v: "clifford_valid C"
  shows "\<exists>D. clifford_inverse C = Some D \<and> clifford_valid D \<and> num_qubits D = num_qubits C \<and>
    (\<forall>P. pauli_on (num_qubits C) P \<longrightarrow> cpre C (cpre D P) = P \<and> cpre D (cpre C P) = P)"
proof -
  let ?n = "num_qubits C"
  obtain I where I: "clifford_identity ?n = Some I" "clifford_valid I" "num_qubits I = ?n" using clifford_identity_run by blast
  note okI = valid_ok [OF I(2)]
  define X where "X q = dense_sem (the (clifford_image_x C q))" for q
  define Z where "Z q = dense_sem (the (clifford_image_z C q))" for q
  let ?body = "\<lambda>q D. do { p \<leftarrow> clifford_image_x C q; D \<leftarrow> preimage_x_view_mut q (assign_view p) D;
     p \<leftarrow> clifford_image_z C q; preimage_z_view_mut q (assign_view p) D }"
  have im: "\<exists>p r. clifford_image_x C q = Some p \<and> fits ?n p \<and> clifford_image_z C q = Some r \<and> fits ?n r \<and>
      cpre C (X q) = xop q \<and> cpre C (Z q) = zop q \<and> dense_sem p = X q \<and> dense_sem r = Z q" if "q < ?n" for q
    using image_gen_run [OF v that] by (auto simp: X_def Z_def)
  have "becomes I (\<lambda>(c, p). if p < ?n then (if c then Z p else X p) else fam I (c, p)) (ofold ?body [0..<?n] I)"
  proof (rule qubit_loop0 [OF okI])
    fix q D
    assume q: "q < ?n" and D: "clifford_ok D" "num_qubits D = num_qubits I"
    obtain p r where "clifford_image_x C q = Some p" "fits ?n p" "clifford_image_z C q = Some r" "fits ?n r" "dense_sem p = X q" "dense_sem r = Z q"
      using im [OF q] by blast
    then show "becomes D ((fam D)((False, q) := X q, (True, q) := Z q)) (?body q D)"
      using assign_xz_run [OF D(1), of q p r] q D(2) I(3) by simp
  qed
  then obtain D where D: "ofold ?body [0..<?n] I = Some D" "clifford_ok D" "num_qubits D = num_qubits I"
      "fam D = (\<lambda>(c, p). if p < ?n then (if c then Z p else X p) else fam I (c, p))"
    by (rule becomesE)
  have n: "num_qubits D = ?n" using D(3) I(3) by simp
  have gen: "cpre C (fam D key) = gen key" if "snd key < ?n" for key using im that by (cases key; cases "fst key") (auto simp: D(4))
  have "clifford_inverse C = Some D" using I(1) D(1) by (simp add: clifford_inverse_def)
  with inverse_of [OF v D(2) n gen] n show ?thesis by blast
qed

lemma from_preimages_run:
  assumes "length ps = 2 * n" "\<And>p. p \<in> set ps \<Longrightarrow> fits n p"
  defines "X q \<equiv> dense_sem (ps ! (2 * q))" and "Z q \<equiv> dense_sem (ps ! (2 * q + 1))"
  shows "\<not> symplectic n X Z \<Longrightarrow> clifford_from_preimages ps = None"
    "symplectic n X Z \<Longrightarrow> \<exists>C. clifford_from_preimages ps = Some C \<and> clifford_valid C \<and> num_qubits C = n \<and>
      (\<forall>q < n. cx C q = X q \<and> cz C q = Z q)"
proof -
  let ?body = "\<lambda>q C. do { x \<leftarrow> nth_opt ps (2 * q); z \<leftarrow> nth_opt ps (2 * q + 1);
     C \<leftarrow> preimage_x_view_mut q (assign_view x) C; preimage_z_view_mut q (assign_view z) C }"
  have "becomes (clifford_zero n) (\<lambda>(c, p). if p < n then (if c then Z p else X p) else fam (clifford_zero n) (c, p)) (ofold ?body [0..<n] (clifford_zero n))"
  proof (rule qubit_loop0 [OF clifford_zero_ok(1)])
    fix q C
    assume q: "q < n" and C: "clifford_ok C" "num_qubits C = num_qubits (clifford_zero n)"
    have "2 * q < length ps" "2 * q + 1 < length ps" using q assms(1) by simp_all
    moreover from this have "fits n (ps ! (2 * q))" "fits n (ps ! (2 * q + 1))" using assms(2) nth_mem by blast+
    ultimately show "becomes C ((fam C)((False, q) := X q, (True, q) := Z q)) (?body q C)"
      using assign_xz_run [OF C(1), of q "ps ! (2 * q)" "ps ! (2 * q + 1)"] q C(2) clifford_zero_ok(2) by (simp add: X_def Z_def)
  qed
  then obtain C where C: "ofold ?body [0..<n] (clifford_zero n) = Some C" "clifford_ok C" "num_qubits C = n"
      "fam C = (\<lambda>(c, p). if p < n then (if c then Z p else X p) else fam (clifford_zero n) (c, p))"
    using clifford_zero_ok(2) by (auto elim: becomesE)
  have s: "symplectic n (cx C) (cz C) = symplectic n X Z" by (rule symplectic_cong) (simp_all add: C(4))
  have run: "clifford_from_preimages ps = (if symplectic n X Z then Some C else None)"
    using assms(1) C(1) is_valid_run [OF C(2)] s C(3) by (simp add: clifford_from_preimages_def)
  then show "\<not> symplectic n X Z \<Longrightarrow> clifford_from_preimages ps = None" by simp
  assume "symplectic n X Z"
  with run s C(2-4) show "\<exists>C. clifford_from_preimages ps = Some C \<and> clifford_valid C \<and> num_qubits C = n \<and>
      (\<forall>q < n. cx C q = X q \<and> cz C q = Z q)" by (simp add: clifford_valid_def)
qed

end
