(* ===== verification/Clifford_Products.thy ===== *)
theory Clifford_Products
  imports Clifford_Ops
begin

text \<open>
  Left multiplication by operators, exponentials, controlled operators, permutations and other unitaries:
  each composes the preimage map with the conjugation it stands for.
\<close>

section \<open>Pauli operators\<close>

lemma pconj_comp:
  assumes "pfinite E" "pfinite F" "pfinite P"
  shows "pconj E (pconj F P) = pconj (pmul E F) P"
proof -
  have "panti P (pmul E F) = (panti P E \<noteq> panti P F)" by (rule panti_pmul [OF assms])
  then show ?thesis unfolding pconj_def by (simp only: panti_pphase pphase_simps sgn_phase_xor add.commute)
qed

lemma pauli_loop_acts:
  assumes f: "\<And>C i. clifford_valid C \<Longrightarrow> i < num_qubits C \<Longrightarrow> acts C (pconj (g i)) (f i C)"
    and g: "\<And>i n. i < n \<Longrightarrow> pinv_on n (g i)"
    and "clifford_valid C" "set xs \<subseteq> {..<num_qubits C}"
  shows "acts C (pconj (pprod g xs)) (ofold f xs C)"
  using assms(3,4)
proof (induction xs arbitrary: C)
  case Nil
  then show ?case by (simp add: acts_def pprod_def pconj_def)
next
  case (Cons i xs)
  let ?n = "num_qubits C"
  have fin: "pfinite (g j)" if "j \<in> set (i # xs)" for j
    by (rule pinv_onD(2) [OF g [of j ?n]]) (use Cons.prems(2) that in auto)
  have "pauli_on ?n (g j)" if "j \<in> set xs" for j by (rule pinv_onD(1) [OF g]) (use Cons.prems(2) that in auto)
  then have on: "pauli_on ?n (pprod g xs)" by (intro pauli_on_pprod ballI)
  have aut: "automorphism ?n (pconj (pprod g xs))"
  proof (rule automorphismI)
    fix P Q k
    assume P: "pauli_on ?n P"
    then show "pauli_on ?n (pconj (pprod g xs) P)" "pconj (pprod g xs) (pphase k P) = pphase k (pconj (pprod g xs) P)"
      by (simp_all add: pconj_def add.commute)
    assume "pauli_on ?n Q"
    with P have "panti (pmul P Q) (pprod g xs) = (panti P (pprod g xs) \<noteq> panti Q (pprod g xs))"
      using panti_pmul [of P Q "pprod g xs"] pauli_on_finite [OF on] pauli_on_finite panti_sym by metis
    then show "pconj (pprod g xs) (pmul P Q) = pmul (pconj (pprod g xs) P) (pconj (pprod g xs) Q)"
      unfolding pconj_def by (simp only: sgn_phase_xor pmul_pphase pphase_simps add.commute)
  qed
  have "acts C (\<lambda>P. pconj (g i) (pconj (pprod g xs) P)) (f i C \<bind> ofold f xs)"
    by (rule acts_bind [OF f _ aut]) (use Cons in auto)
  then have "acts C (\<lambda>P. pconj (g i) (pconj (pprod g xs) P)) (ofold f (i # xs) C)" by simp
  then show ?case
  proof (rule acts_cong)
    fix P
    assume "pauli_on ?n P"
    then show "pconj (g i) (pconj (pprod g xs) P) = pconj (pprod g (i # xs)) P"
      using pconj_comp [of "g i" "pprod g xs" P] fin pauli_on_finite pprod_simps(2) [of i xs g] by simp
  qed
qed

context pauli_bits
begin

lemma support_facts:
  assumes "unitary_ok ok cap p" "pauli_on n (psem bset p)"
  shows "bo_support B (px p) = sorted_list_of_set (bset (px p))" "bo_support B (pz p) = sorted_list_of_set (bset (pz p))"
    "bset (px p) \<subseteq> {..<n}" "bset (pz p) \<subseteq> {..<n}" "finite (bset (px p))" "finite (bset (pz p))"
  using assms support bset_finite by (simp_all add: pauli_ok_def pauli_on_def psem_def)

lemma left_mul_pauli_acts:
  assumes v: "clifford_valid C" and p: "unitary_ok ok cap p" "pauli_on (num_qubits C) (psem bset p)"
  shows "acts C (pconj (psem bset p)) (left_mul_pauli B p C)"
proof -
  note s = support_facts [OF p]
  let ?X = "fprod xop (bset (px p))" and ?Z = "fprod zop (bset (pz p))"
  have on: "pauli_on (num_qubits C) ?X" "pauli_on (num_qubits C) ?Z" using s by (auto intro!: pauli_on_fprod)
  have x: "acts C (pconj ?X) (ofold left_mul_x (bo_support B (px p)) C)"
    unfolding fprod_def s(1) by (rule pauli_loop_acts [OF _ _ v]) (use s pauli_acts in auto)
  have z: "acts C' (pconj ?Z) (ofold left_mul_z (bo_support B (pz p)) C')" if "clifford_valid C'" "num_qubits C' = num_qubits C" for C'
    unfolding fprod_def s(2) by (rule pauli_loop_acts [OF _ _ that(1)]) (use s pauli_acts that(2) in auto)
  have two: "pinv_on (num_qubits C) ?Z" using on(2) s(6) by (simp add: pinv_on_def fprod_generators pmul_def pone_def)
  have "acts C (\<lambda>P. pconj ?X (pconj ?Z P)) (left_mul_pauli B p C)"
    unfolding left_mul_pauli_def by (rule acts_bind [OF x z automorphism_pconj [OF two]])
  then show ?thesis
  proof (rule acts_cong)
    fix P
    assume "pauli_on (num_qubits C) P"
    then have "pconj ?X (pconj ?Z P) = pconj (pmul ?X ?Z) P" using pconj_comp pauli_on_finite on by blast
    also have "\<dots> = pconj (psem bset p) P"
      using s by (simp add: pconj_def fprod_generators pmul_def psem_def panti_def split_beta)
    finally show "pconj ?X (pconj ?Z P) = pconj (psem bset p) P" .
  qed
qed

end

section \<open>Exponentials and controlled operators\<close>

lemma mul_loop_run:
  assumes "clifford_ok C" "set xs \<subseteq> {..<num_qubits C}" "distinct xs" "fits (num_qubits C) e"
  shows "becomes C (\<lambda>(c, i). if c = b \<and> i \<in> set xs then pmul (fam C (c, i)) (dense_sem e) else fam C (c, i))
      (ofold (\<lambda>i. key_view_mut (b, i) (mul_assign_right dense_ops e)) xs C)"
    "becomes C (\<lambda>(c, i). if c = b \<and> i \<in> set xs then pmul (dense_sem e) (fam C (c, i)) else fam C (c, i))
      (ofold (\<lambda>i. key_view_mut (b, i) (mul_assign_left dense_ops e)) xs C)"
proof -
  have gen: "becomes C (\<lambda>(c, i). if c = b \<and> i \<in> set xs then m (fam C (c, i)) else fam C (c, i)) (ofold (\<lambda>i. key_view_mut (b, i) f) xs C)"
    if f: "\<And>p. fits (num_qubits C) p \<Longrightarrow> \<exists>r. f p = Some r \<and> fits (num_qubits C) r \<and> dense_sem r = m (dense_sem p)" for f m
    using assms(1-3) f
  proof (induction xs arbitrary: C)
    case Nil
    then show ?case by (simp add: becomes_def)
  next
    case (Cons i xs)
    have "becomes C ((fam C)((b, i) := m (fam C (b, i)))) (key_view_mut (b, i) f C)"
      by (rule key_view_mut_run [OF Cons.prems(1)]) (use Cons.prems in force)+
    then obtain C1 where C1: "key_view_mut (b, i) f C = Some C1" "clifford_ok C1" "num_qubits C1 = num_qubits C"
        "fam C1 = (fam C)((b, i) := m (fam C (b, i)))" by (rule becomesE)
    have "becomes C1 (\<lambda>(c, i). if c = b \<and> i \<in> set xs then m (fam C1 (c, i)) else fam C1 (c, i)) (ofold (\<lambda>i. key_view_mut (b, i) f) xs C1)"
      by (rule Cons.IH) (use Cons.prems C1 in auto)
    moreover have "(\<lambda>(c, j). if c = b \<and> j \<in> set xs then m (fam C1 (c, j)) else fam C1 (c, j)) =
        (\<lambda>(c, j). if c = b \<and> j \<in> set (i # xs) then m (fam C (c, j)) else fam C (c, j))"
      using Cons.prems(3) by (auto simp: C1(4) fun_eq_iff)
    ultimately show ?case using C1(1,3) by (simp add: becomes_def)
  qed
  show "becomes C (\<lambda>(c, i). if c = b \<and> i \<in> set xs then pmul (fam C (c, i)) (dense_sem e) else fam C (c, i))
      (ofold (\<lambda>i. key_view_mut (b, i) (mul_assign_right dense_ops e)) xs C)"
    by (rule gen) (use fits_mul_right [OF _ assms(4)] in blast)
  show "becomes C (\<lambda>(c, i). if c = b \<and> i \<in> set xs then pmul (dense_sem e) (fam C (c, i)) else fam C (c, i))
      (ofold (\<lambda>i. key_view_mut (b, i) (mul_assign_left dense_ops e)) xs C)"
    by (rule gen) (use fits_mul_left [OF _ assms(4)] in blast)
qed

lemma neutral_of_view:
  assumes "clifford_ok C" "0 < num_qubits C"
  shows "\<exists>v. preimage_x_view C 0 = Some v \<and> fits (num_qubits C) (pauli_neutral_element dense_ops v) \<and>
    dense_sem (pauli_neutral_element dense_ops v) = pone"
proof -
  obtain v where v: "preimage_x_view C 0 = Some v" "fits (num_qubits C) v"
    using key_view_run [OF assms(1), of "(False, 0)"] assms(2) by (auto simp: key_view_def)
  have b: "blocks_ok (px v)" "blocks_ok (pz v)" "length (pz v) = length (px v)" "length (px v) = rowstride_of (num_qubits C)"
    using v(2) by (auto simp: fits_def pauli_ok_def)
  note e = dense.neutral [OF b(1)] dense.neutral [OF b(2)]
  then have "dense_sem (pauli_neutral_element dense_ops v) = pone"
    by (simp add: pauli_neutral_element_def pauli_from_bits_def projective_from_bits_def psem_def pone_def)
  moreover from this e b have "fits (num_qubits C) (pauli_neutral_element dense_ops v)"
    by (simp add: fits_def) (simp add: pauli_neutral_element_def pauli_from_bits_def projective_from_bits_def pauli_ok_def)
  ultimately show ?thesis using v(1) by blast
qed

lemma gen_anti: "panti (gen (c, i)) P = (if c then i \<in> fst P else i \<in> fst (snd P))"
  by (simp add: gen_def panti_generators)

context pauli_bits
begin

lemma pauli_exp_acts:
  assumes v: "clifford_valid C" and n: "0 < num_qubits C"
    and p: "unitary_ok ok cap p" "pauli_on (num_qubits C) (psem bset p)" "pmul (psem bset p) (psem bset p) = pone"
  shows "acts C (pexp (pphase 2 (psem bset p))) (left_mul_pauli_exp B p C)"
proof -
  let ?n = "num_qubits C" and ?E = "psem bset p"
  note okC = valid_ok [OF v] and s = support_facts [OF p(1,2)]
  have E: "pinv_on ?n ?E" using p(2,3) by (simp add: pinv_on_def)
  obtain v0 where v0: "preimage_x_view C 0 = Some v0" "fits ?n (pauli_neutral_element dense_ops v0)" "dense_sem (pauli_neutral_element dense_ops v0) = pone"
    using neutral_of_view [OF okC n] by blast
  obtain e where e: "mul_assign_right_clifford_preimage B C p (pauli_neutral_element dense_ops v0) = Some e" "fits ?n e" "dense_sem e = cpre C ?E"
    using preimage_mul_run [OF okC p(1,2) v0(2,3)] cpre_eq [OF v] by auto
  let ?e = "add_assign_phase_exp 1 e"
  have fe: "fits ?n ?e" "dense_sem ?e = pphase 1 (cpre C ?E)" using fits_phase(1) [OF e(2)] e(3) by (simp_all add: fits_phase(2))
  obtain C1 where C1: "ofold (\<lambda>i. key_view_mut (True, i) (mul_assign_right dense_ops ?e)) (bo_support B (px p)) C = Some C1"
      "clifford_ok C1" "num_qubits C1 = ?n"
      "fam C1 = (\<lambda>(c, i). if c = True \<and> i \<in> bset (px p) then pmul (fam C (c, i)) (dense_sem ?e) else fam C (c, i))"
    using mul_loop_run(1) [OF okC _ _ fe(1), of "bo_support B (px p)" True] s by (auto elim: becomesE)
  let ?F = "\<lambda>(c, i). if panti (gen (c, i)) ?E then pmul (fam C (c, i)) (dense_sem ?e) else fam C (c, i)"
  have "becomes C1 ?F (ofold (\<lambda>i. key_view_mut (False, i) (mul_assign_right dense_ops ?e)) (bo_support B (pz p)) C1)"
  proof -
    have "(\<lambda>(c, i). if c = False \<and> i \<in> set (bo_support B (pz p)) then pmul (fam C1 (c, i)) (dense_sem ?e) else fam C1 (c, i)) = ?F"
      using s by (auto simp: C1(4) fun_eq_iff gen_anti psem_def)
    with mul_loop_run(1) [OF C1(2), of "bo_support B (pz p)" ?e False] s fe(1) C1(3) show ?thesis by simp
  qed
  then have "becomes C ?F (left_mul_pauli_exp B p C)"
    using v0(1) e(1) C1(1,3) n
    by (simp add: left_mul_pauli_exp_def clifford_left_mul_eq_pauli_exp_def key_view_mut_def becomes_def Let_def)
  then show ?thesis
  proof (rule actsI [OF v automorphism_pexp [OF pinv_on_gen(4) [OF E]]])
    fix key :: key
    assume k: "snd key < ?n"
    have "pexp (pphase 2 ?E) (gen key) = (if panti (gen key) ?E then pphase 1 (pmul (gen key) ?E) else gen key)"
      using pmul_swap [of ?E "gen key"] panti_sym [of ?E] by (simp add: pexp_def sgn_phase_def)
    then show "?F key = cpre C (pexp (pphase 2 ?E) (gen key))"
      using cpre_gen [OF v k] fe(2) p(2) k by (cases key) simp
  qed
qed

lemma controlled_pauli_acts:
  assumes v: "clifford_valid C" and n: "0 < num_qubits C"
    and c: "unitary_ok ok cap control" "pauli_on (num_qubits C) (psem bset control)" "pmul (psem bset control) (psem bset control) = pone"
    and t: "unitary_ok ok cap target" "pauli_on (num_qubits C) (psem bset target)" "pmul (psem bset target) (psem bset target) = pone"
    and caps: "pcap cap control = pcap cap target" and comm: "\<not> panti (psem bset control) (psem bset target)"
  shows "acts C (pctrl (psem bset control) (psem bset target)) (left_mul_controlled_pauli B control target C)"
proof -
  let ?n = "num_qubits C" and ?E = "psem bset control" and ?T = "psem bset target"
  note okC = valid_ok [OF v] and s = support_facts [OF c(1,2)] and u = support_facts [OF t(1,2)]
  obtain v0 where v0: "preimage_x_view C 0 = Some v0" "fits ?n (pauli_neutral_element dense_ops v0)" "dense_sem (pauli_neutral_element dense_ops v0) = pone"
    using neutral_of_view [OF okC n] by blast
  obtain e where e: "mul_assign_right_clifford_preimage B C control (pauli_neutral_element dense_ops v0) = Some e" "fits ?n e" "dense_sem e = cpre C ?E"
    using preimage_mul_run [OF okC c(1,2) v0(2,3)] cpre_eq [OF v] by auto
  obtain f where f: "mul_assign_right_clifford_preimage B C target (pauli_neutral_element dense_ops v0) = Some f" "fits ?n f" "dense_sem f = cpre C ?T"
    using preimage_mul_run [OF okC t(1,2) v0(2,3)] cpre_eq [OF v] by auto
  obtain C1 where C1: "ofold (\<lambda>i. key_view_mut (True, i) (mul_assign_right dense_ops f)) (bo_support B (px control)) C = Some C1"
      "clifford_ok C1" "num_qubits C1 = ?n"
      "fam C1 = (\<lambda>(c, i). if c = True \<and> i \<in> set (bo_support B (px control)) then pmul (fam C (c, i)) (dense_sem f) else fam C (c, i))"
    using mul_loop_run(1) [OF okC _ _ f(2), of "bo_support B (px control)" True] s by (auto elim: becomesE)
  obtain C2 where C2: "ofold (\<lambda>i. key_view_mut (False, i) (mul_assign_right dense_ops f)) (bo_support B (pz control)) C1 = Some C2"
      "clifford_ok C2" "num_qubits C2 = num_qubits C1"
      "fam C2 = (\<lambda>(c, i). if c = False \<and> i \<in> set (bo_support B (pz control)) then pmul (fam C1 (c, i)) (dense_sem f) else fam C1 (c, i))"
    using mul_loop_run(1) [OF C1(2), of "bo_support B (pz control)" f False] s f(2) C1(3) by (auto elim: becomesE)
  obtain C3 where C3: "ofold (\<lambda>i. key_view_mut (True, i) (mul_assign_left dense_ops e)) (bo_support B (px target)) C2 = Some C3"
      "clifford_ok C3" "num_qubits C3 = num_qubits C2"
      "fam C3 = (\<lambda>(c, i). if c = True \<and> i \<in> set (bo_support B (px target)) then pmul (dense_sem e) (fam C2 (c, i)) else fam C2 (c, i))"
    using mul_loop_run(2) [OF C2(2), of "bo_support B (px target)" e True] u e(2) C2(3) C1(3) by (auto elim: becomesE)
  let ?G = "\<lambda>(c, i). if c = False \<and> i \<in> set (bo_support B (pz target)) then pmul (dense_sem e) (fam C3 (c, i)) else fam C3 (c, i)"
  have last: "becomes C3 ?G (ofold (\<lambda>i. key_view_mut (False, i) (mul_assign_left dense_ops e)) (bo_support B (pz target)) C3)"
    using mul_loop_run(2) [OF C3(2), of "bo_support B (pz target)" e False] u e(2) C3(3) C2(3) C1(3) by simp
  have aut: "automorphism ?n (pctrl ?E ?T)" by (rule automorphism_pctrl) (use c t comm in \<open>simp_all add: pinv_on_def\<close>)
  have "commutes_with B (projective control) (projective target) = Some True"
    using anti_commutes [OF c(1) t(1) caps] comm by (simp add: commutes_with_def)
  then have "becomes C ?G (left_mul_controlled_pauli B control target C)"
    using v0(1) e(1) f(1) C1(1,3) C2(1,3) C3(1,3) n last
    by (simp add: left_mul_controlled_pauli_def clifford_left_mul_eq_controlled_pauli_def key_view_mut_def becomes_def)
  then show ?thesis
  proof (rule actsI [OF v aut])
    fix key :: key
    assume k: "snd key < ?n"
    have g: "pauli_on ?n (gen key)" using k by simp
    have on: "pauli_on ?n (if b then P else pone)" if "pauli_on ?n P" for b P using that by simp
    have "cpre C (pctrl ?E ?T (gen key)) =
        pmul (if panti (gen key) ?T then dense_sem e else pone) (pmul (fam C key) (if panti (gen key) ?E then dense_sem f else pone))"
      unfolding pctrl_def using clifford.pre_pmul [of C] on c(2) t(2) g cpre_gen [OF v k] e(3) f(3) pauli_on_pmul by simp
    then show "?G key = cpre C (pctrl ?E ?T (gen key))"
      using s u by (cases key) (simp add: C3(4) C2(4) C1(4) gen_anti psem_def)
  qed
qed

end

section \<open>Writing the preimages of a list of qubits\<close>

lemma assign_preimages_run:
  assumes "clifford_ok C" "set support \<subseteq> {..<num_qubits C}" "distinct support" "length ps = length support"
    and "\<And>i. i < length support \<Longrightarrow> fits (num_qubits C) (fst (ps ! i)) \<and> fits (num_qubits C) (snd (ps ! i))"
  shows "\<exists>C'. assign_preimages support ps C = Some C' \<and> clifford_ok C' \<and> num_qubits C' = num_qubits C \<and>
    (\<forall>i < length support. \<forall>c. fam C' (c, support ! i) = dense_sem (if c then snd (ps ! i) else fst (ps ! i))) \<and>
    (\<forall>p c. p \<notin> set support \<longrightarrow> fam C' (c, p) = fam C (c, p))"
proof -
  let ?n = "num_qubits C"
  let ?P = "\<lambda>k C'. clifford_ok C' \<and> num_qubits C' = ?n \<and>
    (\<forall>i < k. \<forall>c. fam C' (c, support ! i) = dense_sem (if c then snd (ps ! i) else fst (ps ! i))) \<and>
    (\<forall>p c. p \<notin> set (take k support) \<longrightarrow> fam C' (c, p) = fam C (c, p))"
  have "\<exists>C'. assign_preimages support ps C = Some C' \<and> ?P (length (enumerate 0 support)) C'"
    unfolding assign_preimages_def
  proof (rule ofold_inv)
    show "?P 0 C" using assms(1) by simp
    fix k C'
    assume "k < length (enumerate 0 support)" and C': "?P k C'"
    then have k: "k < length support" by simp
    let ?q = "support ! k"
    have q: "?q < ?n" using subsetD [OF assms(2) nth_mem [OF k]] by simp
    have e: "enumerate 0 support ! k = (k, ?q)" using k by (simp add: nth_enumerate_eq)
    obtain x z where xz: "ps ! k = (x, z)" "fits ?n x" "fits ?n z" using assms(5) [OF k] by (cases "ps ! k") auto
    obtain D where D: "(do { C \<leftarrow> preimage_x_view_mut ?q (assign_view x) C'; preimage_z_view_mut ?q (assign_view z) C }) = Some D"
        "clifford_ok D" "num_qubits D = num_qubits C'" "fam D = (fam C')((False, ?q) := dense_sem x, (True, ?q) := dense_sem z)"
      using assign_xz_run [of C' ?q x z] C' q xz by (auto elim: becomesE)
    have "fam D (c, support ! i) = dense_sem (if c then snd (ps ! i) else fst (ps ! i))" if "i < Suc k" for i c
    proof (cases "i = k")
      case True
      then show ?thesis using xz(1) by (cases c) (simp_all add: D(4))
    next
      case False
      then have "support ! i \<noteq> ?q" using that k assms(3) by (simp add: nth_eq_iff_index_eq)
      then show ?thesis using C' False that by (simp add: D(4))
    qed
    moreover have "fam D (c, p) = fam C (c, p)" if "p \<notin> set (take (Suc k) support)" for p c
      using that C' k by (auto simp: D(4) take_Suc_conv_app_nth)
    ultimately have "?P (Suc k) D" using D(2,3) C' by simp
    moreover have "(\<lambda>(elt_index, elt) C. do { (x, z) \<leftarrow> nth_opt ps elt_index; C \<leftarrow> preimage_x_view_mut elt (assign_view x) C;
        preimage_z_view_mut elt (assign_view z) C }) (enumerate 0 support ! k) C' = Some D"
      unfolding e using xz(1) D(1) k assms(4) by simp
    ultimately show "\<exists>D. (\<lambda>(elt_index, elt) C. do { (x, z) \<leftarrow> nth_opt ps elt_index; C \<leftarrow> preimage_x_view_mut elt (assign_view x) C;
        preimage_z_view_mut elt (assign_view z) C }) (enumerate 0 support ! k) C' = Some D \<and> ?P (Suc k) D"
      by (intro exI [where x = D] conjI) blast+
  qed
  then show ?thesis by simp
qed

section \<open>Renaming qubits\<close>

definition pperm :: "(nat \<Rightarrow> nat) \<Rightarrow> pauli_op \<Rightarrow> pauli_op" where
  "pperm f P = (f ` fst P, f ` fst (snd P), snd (snd P))"

lemma par_image: "inj_on f S \<Longrightarrow> A \<subseteq> S \<Longrightarrow> C \<subseteq> S \<Longrightarrow> par (f ` A \<inter> f ` C) = par (A \<inter> C)"
proof -
  assume f: "inj_on f S" and s: "A \<subseteq> S" "C \<subseteq> S"
  then have "f ` A \<inter> f ` C = f ` (A \<inter> C)" using inj_on_image_Int [OF f s] by simp
  moreover have "card (f ` (A \<inter> C)) = card (A \<inter> C)" by (rule card_image [OF inj_on_subset [OF f]]) (use s in blast)
  ultimately show ?thesis by (simp only: par_def)
qed

lemma pperm_facts:
  assumes f: "inj_on f {..<m}" and P: "pauli_on m P" and Q: "pauli_on m Q"
  shows "pperm f (pmul P Q) = pmul (pperm f P) (pperm f Q)" "panti (pperm f P) (pperm f Q) = panti P Q"
proof -
  obtain A C k A' C' l where PQ: "P = (A, C, k)" "Q = (A', C', l)" by (metis prod.exhaust)
  have s: "A \<subseteq> {..<m}" "C \<subseteq> {..<m}" "A' \<subseteq> {..<m}" "C' \<subseteq> {..<m}" using P Q by (simp_all add: PQ pauli_on_def)
  have d: "f ` (S - T) = f ` S - f ` T" if "S \<subseteq> {..<m}" "T \<subseteq> {..<m}" for S T
    using inj_on_image_set_diff [OF f, of S T] that by (simp add: subset_iff)
  show "pperm f (pmul P Q) = pmul (pperm f P) (pperm f Q)"
    using par_image [OF f s(2,3)] d [OF s(1,3)] d [OF s(3,1)] d [OF s(2,4)] d [OF s(4,2)]
    by (simp add: PQ pperm_def pmul_def image_Un)
  show "panti (pperm f P) (pperm f Q) = panti P Q"
    using par_image [OF f s(1,4)] par_image [OF f s(2,3)] by (simp add: PQ pperm_def panti_def)
qed

lemma pperm_simps [simp]: "pperm f pone = pone" "pperm f (pphase k P) = pphase k (pperm f P)"
    "pperm f (xop i) = xop (f i)" "pperm f (zop i) = zop (f i)"
  by (simp_all add: pperm_def pone_def xop_def zop_def pphase_def split_beta)

lemma pperm_on: "pauli_on m P \<Longrightarrow> f ` {..<m} \<subseteq> {..<n} \<Longrightarrow> pauli_on n (pperm f P)"
  by (auto simp: pauli_on_def pperm_def)

lemma pperm_gen: "pperm f (gen (c, i)) = gen (c, f i)"
  by (simp add: gen_def)

lemma pperm_automorphism:
  assumes "inj_on f {..<n}" "f ` {..<n} \<subseteq> {..<n}"
  shows "automorphism n (pperm f)"
  by (rule automorphismI) (use assms pperm_on pperm_facts(1) in \<open>simp_all\<close>)

lemma is_permutation_iff: "is_permutation xs \<longleftrightarrow> distinct xs \<and> set xs = {..<length xs}"
proof
  assume "is_permutation xs"
  then have s: "sort xs = [0..<length xs]" by (simp add: is_permutation_def)
  have "distinct (sort xs)" "set (sort xs) = {..<length xs}" by (simp_all add: s atLeast0LessThan del: set_sort distinct_sort)
  then show "distinct xs \<and> set xs = {..<length xs}" by simp
next
  assume d: "distinct xs \<and> set xs = {..<length xs}"
  then have "sorted_list_of_set (set xs) = sort xs" by (metis distinct_remdups_id sorted_list_of_set_sort_remdups)
  with d show "is_permutation xs" by (simp add: is_permutation_def flip: atLeast0LessThan)
qed

lemma windows_differ_sorted: "sorted xs \<Longrightarrow> windows_differ xs = distinct xs"
  by (induction xs rule: windows_differ.induct) (auto simp: less_le)

lemma has_no_duplicates_iff: "has_no_duplicates xs = distinct xs"
  by (simp add: has_no_duplicates_def windows_differ_sorted)

text \<open>The renaming of a permutation of a list of qubits.\<close>

definition moved :: "nat list \<Rightarrow> nat list \<Rightarrow> nat \<Rightarrow> nat" where
  "moved permutation support q = (case map_of (zip support (map (nth support) permutation)) q of Some r \<Rightarrow> r | None \<Rightarrow> q)"

lemma moved_facts:
  assumes "distinct support" "distinct permutation" "set permutation = {..<length permutation}" "length permutation = length support"
  shows "i < length support \<Longrightarrow> moved permutation support (support ! i) = support ! (permutation ! i)"
    "q \<notin> set support \<Longrightarrow> moved permutation support q = q" "inj (moved permutation support)"
    "set support \<subseteq> {..<n} \<Longrightarrow> moved permutation support ` {..<n} \<subseteq> {..<n}"
proof -
  have p: "permutation ! i < length support" if "i < length support" for i using nth_mem [of i permutation] assms(3,4) that by auto
  show a: "moved permutation support (support ! i) = support ! (permutation ! i)" if "i < length support" for i
    using that assms(1,4) map_of_zip_nth [of support "map (nth support) permutation" i] by (simp add: moved_def)
  show b: "moved permutation support q = q" if "q \<notin> set support" for q
  proof -
    have "map_of (zip support (map (nth support) permutation)) q = None" using that by (auto simp: map_of_eq_None_iff dest: set_zip_leftD)
    then show ?thesis by (simp add: moved_def)
  qed
  have inS: "moved permutation support q \<in> set support \<longleftrightarrow> q \<in> set support" for q
    using a b p by (metis in_set_conv_nth nth_mem)
  show "inj (moved permutation support)"
  proof (rule injI)
    fix x y
    assume e: "moved permutation support x = moved permutation support y"
    show "x = y"
    proof (cases "x \<in> set support")
      case True
      then have "y \<in> set support" using e inS by metis
      with True obtain i j where ij: "i < length support" "x = support ! i" "j < length support" "y = support ! j" by (metis in_set_conv_nth)
      with e a p assms have "permutation ! i = permutation ! j" by (simp add: nth_eq_iff_index_eq)
      with ij assms(2,4) have "i = j" by (simp add: nth_eq_iff_index_eq)
      with ij show ?thesis by simp
    next
      case False
      then have "y \<notin> set support" using e inS by metis
      with False e b show ?thesis by simp
    qed
  qed
  show "set support \<subseteq> {..<n} \<Longrightarrow> moved permutation support ` {..<n} \<subseteq> {..<n}"
  proof
    fix y
    assume s: "set support \<subseteq> {..<n}" and "y \<in> moved permutation support ` {..<n}"
    then obtain x where x: "x < n" "y = moved permutation support x" by auto
    show "y \<in> {..<n}"
    proof (cases "x \<in> set support")
      case True
      with inS have "y \<in> set support" by (simp add: x(2))
      with s show ?thesis by auto
    next
      case False
      with b x show ?thesis by simp
    qed
  qed
qed

lemma permutation_acts:
  assumes v: "clifford_valid C" and perm: "is_permutation permutation" and sup: "distinct support" "set support \<subseteq> {..<num_qubits C}"
    and len: "length permutation = length support"
  shows "acts C (pperm (moved permutation support)) (left_mul_permutation permutation support C)"
proof -
  let ?n = "num_qubits C" and ?f = "moved permutation support"
  note okC = valid_ok [OF v]
  have p: "distinct permutation" "set permutation = {..<length permutation}" using perm by (simp_all add: is_permutation_iff)
  note m = moved_facts [OF sup(1) p len]
  let ?read = "\<lambda>i. do { j \<leftarrow> nth_opt permutation i; q \<leftarrow> nth_opt support j; x \<leftarrow> preimage_x_view C q; z \<leftarrow> preimage_z_view C q; Some (x, z) }"
  have idx: "permutation ! i < length support" "support ! (permutation ! i) < ?n" if "i < length support" for i
  proof -
    show "permutation ! i < length support" using nth_mem [of i permutation] p(2) len that by auto
    then show "support ! (permutation ! i) < ?n" using sup(2) nth_mem by blast
  qed
  have rd: "\<exists>y. ?read i = Some y \<and> fits ?n (fst y) \<and> fits ?n (snd y) \<and> dense_sem (fst y) = cx C (?f (support ! i)) \<and> dense_sem (snd y) = cz C (?f (support ! i))"
    if "i \<in> set [0..<length support]" for i
    using that idx [of i] len m(1) [of i] key_view_run [OF okC, of "(False, support ! (permutation ! i))"]
      key_view_run [OF okC, of "(True, support ! (permutation ! i))"] by (auto simp: key_view_def)
  have "\<exists>ps. omap ?read [0..<length support] = Some ps \<and> list_all2 (\<lambda>i y. fits ?n (fst y) \<and> fits ?n (snd y) \<and>
      dense_sem (fst y) = cx C (?f (support ! i)) \<and> dense_sem (snd y) = cz C (?f (support ! i))) [0..<length support] ps"
    by (rule omap_run) (rule rd)
  then obtain ps where ps: "omap ?read [0..<length support] = Some ps"
      "list_all2 (\<lambda>i y. fits ?n (fst y) \<and> fits ?n (snd y) \<and> dense_sem (fst y) = cx C (?f (support ! i)) \<and> dense_sem (snd y) = cz C (?f (support ! i)))
        [0..<length support] ps" by blast
  have lp: "length ps = length support" using list_all2_lengthD [OF ps(2)] by simp
  have pi: "fits ?n (fst (ps ! i)) \<and> fits ?n (snd (ps ! i)) \<and> dense_sem (fst (ps ! i)) = cx C (?f (support ! i)) \<and> dense_sem (snd (ps ! i)) = cz C (?f (support ! i))"
    if "i < length support" for i using list_all2_nthD [OF ps(2), of i] that by simp
  obtain C' where C': "assign_preimages support ps C = Some C'" "clifford_ok C'" "num_qubits C' = ?n"
      "\<And>i c. i < length support \<Longrightarrow> fam C' (c, support ! i) = dense_sem (if c then snd (ps ! i) else fst (ps ! i))"
      "\<And>q c. q \<notin> set support \<Longrightarrow> fam C' (c, q) = fam C (c, q)"
    using assign_preimages_run [OF okC sup(2,1) lp] pi by blast
  have run: "left_mul_permutation permutation support C = Some C'"
    using perm sup(1) len ps(1) C'(1) by (simp add: left_mul_permutation_def has_no_duplicates_iff)
  have aut: "automorphism ?n (pperm ?f)" by (rule pperm_automorphism [OF inj_on_subset [OF m(3) subset_UNIV] m(4) [OF sup(2)]])
  have "fam C' key = cpre C (pperm ?f (gen key))" if "snd key < ?n" for key
  proof -
    obtain c q where key: "key = (c, q)" by (cases key)
    have "?f q < ?n" using m(4) [OF sup(2)] that key by auto
    then have "cpre C (pperm ?f (gen key)) = fam C (c, ?f q)" using cpre_gen [OF v, of "(c, ?f q)"] by (simp add: key pperm_gen)
    moreover have "fam C' (c, q) = fam C (c, ?f q)"
    proof (cases "q \<in> set support")
      case True
      then obtain i where "i < length support" "q = support ! i" by (metis in_set_conv_nth)
      then show ?thesis using C'(4) pi by (cases c) auto
    qed (simp add: C'(5) m(2))
    ultimately show ?thesis by (simp add: key)
  qed
  from frame_change [OF v aut C'(2,3) this] run C'(3) show ?thesis by (auto simp: acts_def)
qed

section \<open>Assigning with an offset\<close>

context pauli_bits
begin

lemma assign_with_offset_run:
  assumes "ok b" "\<And>i. i < num \<Longrightarrow> idx i = Some (i \<in> A)" "\<And>i. i < num \<Longrightarrow> within (cap b) (i + off)"
  shows "\<exists>b'. assign_with_offset (bo_assign_index B) idx off num b = Some b' \<and> ok b' \<and> cap b' = cap b \<and>
    bset b' = bset b - {off..<off + num} \<union> (\<lambda>i. i + off) ` (A \<inter> {..<num})"
  unfolding assign_with_offset_def
proof (rule ofold_upt_inv)
  show "ok b \<and> cap b = cap b \<and> bset b = bset b - {off..<off + 0} \<union> (\<lambda>i. i + off) ` (A \<inter> {..<0})" using assms(1) by simp
  fix k b'
  assume k: "k < num" and b': "ok b' \<and> cap b' = cap b \<and> bset b' = bset b - {off..<off + k} \<union> (\<lambda>i. i + off) ` (A \<inter> {..<k})"
  obtain c where c: "bo_assign_index B (k + off) (k \<in> A) b' = Some c" "ok c" "cap c = cap b'"
      "bset c = (if k \<in> A then insert (k + off) (bset b') else bset b' - {k + off})"
    using assign_index [of b' "k + off" "k \<in> A"] b' assms(3) [OF k] by auto
  have i: "{off..<off + Suc k} = insert (k + off) {off..<off + k}" by auto
  have a: "A \<inter> {..<Suc k} = (if k \<in> A then insert k (A \<inter> {..<k}) else A \<inter> {..<k})" by (auto simp: less_Suc_eq)
  have "k + off \<notin> (\<lambda>i. i + off) ` (A \<inter> {..<k})" by auto
  then have "bset c = bset b - {off..<off + Suc k} \<union> (\<lambda>i. i + off) ` (A \<inter> {..<Suc k})"
    unfolding i a c(4) using b' by auto
  with c assms(2) [OF k] b' show "\<exists>c. (do { b \<leftarrow> idx k; bo_assign_index B (k + off) b b' }) = Some c \<and>
      ok c \<and> cap c = cap b \<and> bset c = bset b - {off..<off + Suc k} \<union> (\<lambda>i. i + off) ` (A \<inter> {..<Suc k})"
    by simp
qed

end

definition poverlay :: "nat \<Rightarrow> nat \<Rightarrow> pauli_op \<Rightarrow> pauli_op \<Rightarrow> pauli_op" where
  "poverlay off m V P = (fst P - {off..<off + m} \<union> (\<lambda>i. i + off) ` fst V, fst (snd P) - {off..<off + m} \<union> (\<lambda>i. i + off) ` fst (snd V), snd (snd V))"

lemma assign_offset_run:
  assumes v: "fits m v" and p: "fits n p" and le: "off + m \<le> n"
  shows "\<exists>r. pauli_assign_with_offset dense_ops v off m p = Some r \<and> fits n r \<and> dense_sem r = poverlay off m (dense_sem v) (dense_sem p)"
proof -
  have V: "blocks_ok (px v)" "blocks_ok (pz v)" "dense_bits (px v) \<inter> {..<m} = dense_bits (px v)" "dense_bits (pz v) \<inter> {..<m} = dense_bits (pz v)"
    using v by (auto simp: fits_def pauli_ok_def pauli_on_def psem_def)
  have P: "blocks_ok (px p)" "blocks_ok (pz p)" "dense_cap (pz p) = dense_cap (px p)" using p by (simp_all add: fits_def pauli_ok_def)
  have iv: "bo_index dense_ops (px v) i = Some (i \<in> dense_bits (px v))" "bo_index dense_ops (pz v) i = Some (i \<in> dense_bits (pz v))" if "i < m" for i
    using dense.index [OF V(1), of i] dense.index [OF V(2), of i] fits_within [OF v that] v by (simp_all add: pcap_def fits_def pauli_ok_def)
  have w: "within (dense_cap (px p)) (i + off)" "within (dense_cap (pz p)) (i + off)" if "i < m" for i
    using fits_within [OF p, of "i + off"] that le P(3) by (simp_all add: pcap_def)
  obtain x where x: "assign_with_offset (bo_assign_index dense_ops) (bo_index dense_ops (px v)) off m (px p) = Some x" "blocks_ok x"
      "dense_cap x = dense_cap (px p)" "dense_bits x = dense_bits (px p) - {off..<off + m} \<union> (\<lambda>i. i + off) ` dense_bits (px v)"
    using dense.assign_with_offset_run [OF P(1) iv(1) w(1), where num = m] V(3) by auto
  obtain z where z: "assign_with_offset (bo_assign_index dense_ops) (bo_index dense_ops (pz v)) off m (pz p) = Some z" "blocks_ok z"
      "dense_cap z = dense_cap (pz p)" "dense_bits z = dense_bits (pz p) - {off..<off + m} \<union> (\<lambda>i. i + off) ` dense_bits (pz v)"
    using dense.assign_with_offset_run [OF P(2) iv(2) w(2), where num = m] V(4) by auto
  let ?r = "(assign_phase_exp (xz_phase_exponent v) p)\<lparr>projective := \<lparr> x_bits = x, z_bits = z \<rparr>\<rparr>"
  have run: "pauli_assign_with_offset dense_ops v off m p = Some ?r"
    using x(1) z(1) by (simp add: pauli_assign_with_offset_def assign_bits_with_offset_def)
  have sem: "dense_sem ?r = poverlay off m (dense_sem v) (dense_sem p)"
    using x(4) z(4) by (simp add: psem_def poverlay_def assign_phase_exp_def ph_phase_exponent)
  have on: "pauli_on n (poverlay off m (dense_sem v) (dense_sem p))"
    using v p le by (auto simp: fits_def pauli_on_def poverlay_def)
  have "length x = length (px p)" using x(3) by simp
  then have "fits n ?r" using sem on x(2,3) z(2,3) p by (simp add: fits_def pauli_ok_def pcap_def assign_phase_exp_def)
  with run sem show ?thesis by blast
qed

end
