(* ===== verification/Gate_Semantics.thy ===== *)
theory Gate_Semantics
  imports Complex_Main Clifford_Products
begin

text \<open>
  What the gates of \<open>paulimer::clifford\<close> are as operators on state vectors: a vector gives every computational
  basis state (the set of the qubits that are one) its amplitude. Pauli operators and the gates of \<open>UnitaryOp\<close> are
  written out on amplitudes as in a textbook, and the preimages a Clifford unitary stores are shown to be those of
  the operator its gates build: the operator \<open>P\<close> after the circuit is the circuit after the preimage of \<open>P\<close>.
\<close>

section \<open>Pauli operators on amplitudes\<close>

type_synonym amps = "nat set \<Rightarrow> complex"

definition phase_amp :: "phase \<Rightarrow> complex" where
  "phase_amp k = \<i> ^ unat k"

definition sgn_amp :: "bool \<Rightarrow> complex" where
  "sgn_amp b = (if b then -1 else 1)"

definition pauli_amp :: "pauli_op \<Rightarrow> amps \<Rightarrow> amps" where
  "pauli_amp = (\<lambda>(A, C, k) \<psi> s. phase_amp k * sgn_amp (par (C \<inter> sym_diff s A)) * \<psi> (sym_diff s A))"

lemma phase_amp_simps [simp]: "phase_amp 0 = 1" "phase_amp 1 = \<i>" "phase_amp 2 = -1"
  by (simp_all add: phase_amp_def)

lemma i_power_mod: "\<i> ^ (m mod 4) = \<i> ^ m"
proof -
  have "\<i> ^ m = \<i> ^ (4 * (m div 4) + m mod 4)" by simp
  also have "\<dots> = (\<i> ^ 4) ^ (m div 4) * \<i> ^ (m mod 4)" by (simp only: power_add power_mult)
  also have "\<i> ^ 4 = 1" by (simp add: power4_eq_xxxx)
  finally show ?thesis by simp
qed

lemma phase_amp_add: "phase_amp (k + l) = phase_amp k * phase_amp l"
proof -
  have "unat (k + l) = (unat k + unat l) mod 4" by (simp add: unat_word_ariths)
  then show ?thesis by (simp add: phase_amp_def i_power_mod power_add)
qed

lemma phase_amp_sgn: "phase_amp (sgn_phase b) = sgn_amp b"
  by (simp add: sgn_phase_def sgn_amp_def)

lemma sgn_amp_simps [simp]: "sgn_amp False = 1" "sgn_amp True = -1" "sgn_amp b * sgn_amp b = 1" "sgn_amp b * (sgn_amp b * z) = z"
  by (simp_all add: sgn_amp_def)

lemma sgn_amp_xor: "sgn_amp (a \<noteq> b) = sgn_amp a * sgn_amp b"
  by (simp add: sgn_amp_def)

lemma pauli_amp_pmul: "pfinite P \<Longrightarrow> pfinite Q \<Longrightarrow> pauli_amp (pmul P Q) \<psi> = pauli_amp P (pauli_amp Q \<psi>)"
proof
  fix s
  assume "pfinite P" "pfinite Q"
  then obtain A C k A' C' l where PQ: "P = (A, C, k)" "Q = (A', C', l)" and f: "finite C" "finite C'"
    unfolding pfinite_def by (metis (no_types, lifting) case_prodE)
  let ?t = "sym_diff (sym_diff s A) A'"
  have t: "sym_diff s (sym_diff A A') = ?t" by auto
  have "sym_diff C C' \<inter> ?t = sym_diff (C \<inter> ?t) (C' \<inter> ?t)" by auto
  then have a: "par (sym_diff C C' \<inter> ?t) = (par (C \<inter> ?t) \<noteq> par (C' \<inter> ?t))" using f by (simp add: par_sym_diff)
  have "C \<inter> ?t = sym_diff (C \<inter> sym_diff s A) (C \<inter> A')" by auto
  then have b: "par (C \<inter> ?t) = (par (C \<inter> sym_diff s A) \<noteq> par (C \<inter> A'))" using f by (simp add: par_sym_diff)
  show "pauli_amp (pmul P Q) \<psi> s = pauli_amp P (pauli_amp Q \<psi>) s"
    unfolding PQ pmul_def pauli_amp_def prod.case t a b phase_amp_add phase_amp_sgn sgn_amp_xor by simp
qed

lemma pauli_amp_pphase: "pauli_amp (pphase k P) \<psi> = (\<lambda>s. phase_amp k * pauli_amp P \<psi> s)"
  by (cases P) (simp add: pphase_def pauli_amp_def phase_amp_add fun_eq_iff)

lemma pauli_amp_pone [simp]: "pauli_amp pone \<psi> = \<psi>"
  by (simp add: pone_def pauli_amp_def)

lemma pauli_amp_gens:
  "pauli_amp (xop q) \<psi> = (\<lambda>s. \<psi> (sym_diff s {q}))" "pauli_amp (zop q) \<psi> = (\<lambda>s. sgn_amp (q \<in> s) * \<psi> s)"
  by (simp_all add: xop_def zop_def pauli_amp_def)

text \<open>Different operators act differently.\<close>

lemma phase_amp_inject: "phase_amp a = phase_amp b \<Longrightarrow> a = b"
proof -
  assume e: "phase_amp a = phase_amp b"
  have four: "unat k \<in> {0, 1, 2, 3}" for k :: phase using unsigned_less [of k, where 'a = nat] by auto
  have i3: "\<i> ^ 3 = -\<i>" by (simp add: power3_eq_cube)
  have "unat a = unat b" using four [of a] four [of b] e by (auto simp: phase_amp_def i3 complex_eq_iff)
  then show "a = b" by (simp add: word_unat_eq_iff)
qed

lemma pauli_amp_inject:
  assumes "pfinite P" "pfinite Q" "pauli_amp P = pauli_amp Q"
  shows "P = Q"
proof -
  have "pauli_action P (0, t) = pauli_action Q (0, t)" for t
  proof -
    define \<delta> where "\<delta> t s = (if s = t then 1 else 0 :: complex)" for t s :: "nat set"
    obtain A C k A' C' l where PQ: "P = (A, C, k)" "Q = (A', C', l)" by (metis prod.exhaust)
    have sd: "sym_diff s A = t \<longleftrightarrow> s = sym_diff A t" for s A :: "nat set" by auto
    have bk: "sym_diff (sym_diff A t) A = t" for A by auto
    have p: "pauli_amp (A, C, k) (\<delta> t) s = (if s = sym_diff A t then phase_amp k * sgn_amp (par (C \<inter> t)) else 0)" for A C k s
      unfolding pauli_amp_def \<delta>_def sd prod.case by (simp add: bk)
    have nz: "phase_amp k * sgn_amp b \<noteq> 0" for k b by (simp add: phase_amp_def sgn_amp_def)
    have e: "pauli_amp (A, C, k) (\<delta> t) s = pauli_amp (A', C', l) (\<delta> t) s" for s using assms(3) by (simp add: PQ)
    have s: "sym_diff A t = sym_diff A' t" using e [of "sym_diff A t"] nz unfolding p by (simp split: if_splits)
    have "phase_amp (k + sgn_phase (par (C \<inter> t))) = phase_amp (l + sgn_phase (par (C' \<inter> t)))"
      using e [of "sym_diff A t"] s unfolding p phase_amp_add phase_amp_sgn by simp
    then have "k + sgn_phase (par (C \<inter> t)) = l + sgn_phase (par (C' \<inter> t))" by (rule phase_amp_inject)
    with s show ?thesis by (simp add: PQ pauli_action_def)
  qed
  then have "pauli_action P st = pauli_action Q st" for st
    by (cases P; cases Q; cases st) (simp add: pauli_action_def)
  then have "pauli_action P = pauli_action Q" by blast
  then show ?thesis by (simp add: pauli_action_inject)
qed

section \<open>The gates on amplitudes\<close>

text \<open>The square root of an involution, up to the phase the library leaves open: \<open>E = 1\<close> is kept, \<open>E = -1\<close> gets \<open>\<i>\<close>.\<close>

definition root_amp :: "complex \<Rightarrow> pauli_op \<Rightarrow> amps \<Rightarrow> amps" where
  "root_amp w E \<psi> = (\<lambda>s. (1 + w) / 2 * \<psi> s + (1 - w) / 2 * pauli_amp E \<psi> s)"

definition flip_qubit :: "nat \<Rightarrow> nat set \<Rightarrow> nat set" where
  "flip_qubit q s = (if q \<in> s then s - {q} else insert q s)"

definition hadamard_amp :: "nat \<Rightarrow> amps \<Rightarrow> amps" where
  "hadamard_amp q \<psi> = (\<lambda>s. (\<psi> (s - {q}) + (if q \<in> s then -1 else 1) * \<psi> (insert q s)) / sqrt 2)"

definition cx_amp :: "nat \<Rightarrow> nat \<Rightarrow> amps \<Rightarrow> amps" where
  "cx_amp c t \<psi> = (\<lambda>s. \<psi> (if c \<in> s then flip_qubit t s else s))"

definition cz_amp :: "nat \<Rightarrow> nat \<Rightarrow> amps \<Rightarrow> amps" where
  "cz_amp a b \<psi> = (\<lambda>s. (if a \<in> s \<and> b \<in> s then -1 else 1) * \<psi> s)"

definition swap_amp :: "nat \<Rightarrow> nat \<Rightarrow> amps \<Rightarrow> amps" where
  "swap_amp a b \<psi> = (\<lambda>s. \<psi> (if (a \<in> s) = (b \<in> s) then s else flip_qubit a (flip_qubit b s)))"

fun gate_amp :: "unitary_op \<Rightarrow> nat list \<Rightarrow> amps \<Rightarrow> amps" where
  "gate_amp OpI s \<psi> = \<psi>"
| "gate_amp OpX s \<psi> = (\<lambda>t. \<psi> (flip_qubit (s ! 0) t))"
| "gate_amp OpY s \<psi> = (\<lambda>t. (if s ! 0 \<in> t then \<i> else -\<i>) * \<psi> (flip_qubit (s ! 0) t))"
| "gate_amp OpZ s \<psi> = (\<lambda>t. (if s ! 0 \<in> t then -1 else 1) * \<psi> t)"
| "gate_amp SqrtX s \<psi> = root_amp \<i> (xop (s ! 0)) \<psi>"
| "gate_amp SqrtXInv s \<psi> = root_amp (-\<i>) (xop (s ! 0)) \<psi>"
| "gate_amp SqrtY s \<psi> = root_amp \<i> (yop (s ! 0)) \<psi>"
| "gate_amp SqrtYInv s \<psi> = root_amp (-\<i>) (yop (s ! 0)) \<psi>"
| "gate_amp SqrtZ s \<psi> = (\<lambda>t. (if s ! 0 \<in> t then \<i> else 1) * \<psi> t)"
| "gate_amp SqrtZInv s \<psi> = (\<lambda>t. (if s ! 0 \<in> t then -\<i> else 1) * \<psi> t)"
| "gate_amp Hadamard s \<psi> = hadamard_amp (s ! 0) \<psi>"
| "gate_amp Swap s \<psi> = swap_amp (s ! 0) (s ! 1) \<psi>"
| "gate_amp ControlledX s \<psi> = cx_amp (s ! 0) (s ! 1) \<psi>"
| "gate_amp ControlledZ s \<psi> = cz_amp (s ! 0) (s ! 1) \<psi>"
| "gate_amp PrepareBell s \<psi> = cx_amp (s ! 0) (s ! 1) (hadamard_amp (s ! 0) \<psi>)"

text \<open>An operator on vectors conjugates Pauli operators by \<open>h\<close>.\<close>

definition conjugates :: "nat \<Rightarrow> (amps \<Rightarrow> amps) \<Rightarrow> (pauli_op \<Rightarrow> pauli_op) \<Rightarrow> bool" where
  "conjugates n U h \<longleftrightarrow> (\<forall>P \<psi>. pauli_on n P \<longrightarrow> pauli_amp P (U \<psi>) = U (pauli_amp (h P) \<psi>))"

lemma conjugatesI: "(\<And>P \<psi>. pauli_on n P \<Longrightarrow> pauli_amp P (U \<psi>) = U (pauli_amp (h P) \<psi>)) \<Longrightarrow> conjugates n U h"
  unfolding conjugates_def by blast

lemma conjugatesD: "conjugates n U h \<Longrightarrow> pauli_on n P \<Longrightarrow> pauli_amp P (U \<psi>) = U (pauli_amp (h P) \<psi>)"
  unfolding conjugates_def by blast

lemma conjugates_comp:
  assumes "conjugates n U h" "conjugates n V g" "automorphism n h"
  shows "conjugates n (\<lambda>\<psi>. U (V \<psi>)) (\<lambda>P. g (h P))"
  by (rule conjugatesI) (use conjugatesD [OF assms(1)] conjugatesD [OF assms(2)] automorphismD(1) [OF assms(3)] in simp)

lemma pauli_amp_sum: "pauli_amp P (\<lambda>s. a * f s + b * g s) = (\<lambda>s. a * pauli_amp P f s + b * pauli_amp P g s)"
  by (cases P) (simp add: pauli_amp_def fun_eq_iff algebra_simps)

lemma pauli_amp_scale: "pauli_amp P (\<lambda>s. a * f s) = (\<lambda>s. a * pauli_amp P f s)"
  by (cases P) (simp add: pauli_amp_def fun_eq_iff)

lemma pauli_amp_minus: "pauli_amp P (\<lambda>s. - f s) = (\<lambda>s. - pauli_amp P f s)"
  using pauli_amp_scale [of P "-1" f] by simp

lemma pauli_amp_swap:
  "pfinite P \<Longrightarrow> pfinite Q \<Longrightarrow> pauli_amp P (pauli_amp Q \<psi>) = (\<lambda>s. sgn_amp (panti P Q) * pauli_amp Q (pauli_amp P \<psi>) s)"
  using pmul_swap [of P Q] by (simp add: pauli_amp_pphase phase_amp_sgn flip: pauli_amp_pmul)

lemma pauli_amp_twice: "pfinite E \<Longrightarrow> pmul E E = pone \<Longrightarrow> pauli_amp E (pauli_amp E \<psi>) = \<psi>"
  by (simp flip: pauli_amp_pmul)

lemma conjugates_pconj: "pinv_on n E \<Longrightarrow> conjugates n (pauli_amp E) (pconj E)"
proof (rule conjugatesI)
  fix P \<psi>
  assume E: "pinv_on n E" and P: "pauli_on n P"
  then show "pauli_amp P (pauli_amp E \<psi>) = pauli_amp E (pauli_amp (pconj E P) \<psi>)"
    using pauli_amp_swap [OF pauli_on_finite [OF P] pinv_onD(2) [OF E]]
    by (simp add: pconj_def pauli_amp_pphase phase_amp_sgn pauli_amp_scale)
qed

lemma conjugates_root:
  assumes E: "pinv_on n E"
  shows "conjugates n (root_amp \<i> E) (pexp E)"
proof (rule conjugatesI)
  fix P \<psi>
  assume P: "pauli_on n P"
  note fE = pinv_onD(2) [OF E] and fP = pauli_on_finite [OF P]
  have tw: "pauli_amp E (pauli_amp E \<phi>) = \<phi>" for \<phi> by (rule pauli_amp_twice [OF fE pinv_onD(3) [OF E]])
  show "pauli_amp P (root_amp \<i> E \<psi>) = root_amp \<i> E (pauli_amp (pexp E P) \<psi>)"
  proof (cases "panti P E")
    case True
    have q: "pauli_amp (pexp E P) \<psi> = (\<lambda>s. \<i> * pauli_amp E (pauli_amp P \<psi>) s)"
      using True by (simp add: pexp_def pauli_amp_pphase pauli_amp_pmul [OF fE fP])
    from True show ?thesis
      unfolding root_amp_def pauli_amp_sum pauli_amp_swap [OF fP fE] q pauli_amp_scale tw by (simp add: fun_eq_iff field_simps)
  next
    case False
    then show ?thesis unfolding root_amp_def pauli_amp_sum pauli_amp_swap [OF fP fE] by (simp add: pexp_def)
  qed
qed

text \<open>A root of \<open>-E\<close> is the inverse of a root of \<open>E\<close>, and a scaled operator conjugates alike.\<close>

lemma conjugates_scale:
  assumes "conjugates n U h" "\<And>\<psi>. V \<psi> = (\<lambda>s. c * U \<psi> s)"
  shows "conjugates n V h"
  by (rule conjugatesI) (simp add: assms(2) pauli_amp_scale conjugatesD [OF assms(1)])

lemma root_amp_inverse: "root_amp (-\<i>) E \<psi> = (\<lambda>s. -\<i> * root_amp \<i> (pphase 2 E) \<psi> s)"
  by (simp add: root_amp_def pauli_amp_pphase fun_eq_iff field_simps)

lemma conjugates_root_inverse: "pinv_on n E \<Longrightarrow> conjugates n (root_amp (-\<i>) E) (pexp (pphase 2 E))"
  by (rule conjugates_scale [OF conjugates_root root_amp_inverse]) simp

lemma conjugates_pctrl:
  assumes E: "pinv_on n E" and F: "pinv_on n F" and comm: "\<not> panti E F"
    and U: "\<And>\<psi>. U \<psi> = (\<lambda>s. (\<psi> s + pauli_amp E \<psi> s + pauli_amp F \<psi> s - pauli_amp E (pauli_amp F \<psi>) s) / 2)"
  shows "conjugates n U (pctrl E F)"
proof (rule conjugatesI)
  fix P \<psi>
  assume P: "pauli_on n P"
  note fE = pinv_onD(2) [OF E] and fF = pinv_onD(2) [OF F] and fP = pauli_on_finite [OF P]
  have tE: "pauli_amp E (pauli_amp E \<phi>) = \<phi>" and tF: "pauli_amp F (pauli_amp F \<phi>) = \<phi>" for \<phi>
    by (rule pauli_amp_twice [OF fE pinv_onD(3) [OF E]], rule pauli_amp_twice [OF fF pinv_onD(3) [OF F]])
  have FE: "pauli_amp F (pauli_amp E \<phi>) = pauli_amp E (pauli_amp F \<phi>)" for \<phi>
    using pauli_amp_swap [OF fE fF, of \<phi>] comm by simp
  have U4: "pauli_amp P (U \<psi>) = (\<lambda>s. (pauli_amp P \<psi> s + pauli_amp P (pauli_amp E \<psi>) s + pauli_amp P (pauli_amp F \<psi>) s -
      pauli_amp P (pauli_amp E (pauli_amp F \<psi>)) s) / 2)"
    by (cases P) (simp add: U pauli_amp_def fun_eq_iff algebra_simps add_divide_distrib diff_divide_distrib)
  have PE: "pauli_amp P (pauli_amp E \<phi>) = (\<lambda>s. sgn_amp (panti P E) * pauli_amp E (pauli_amp P \<phi>) s)"
    and PF: "pauli_amp P (pauli_amp F \<phi>) = (\<lambda>s. sgn_amp (panti P F) * pauli_amp F (pauli_amp P \<phi>) s)" for \<phi>
    by (rule pauli_amp_swap [OF fP fE], rule pauli_amp_swap [OF fP fF])
  have fPF: "pfinite (pmul P F)" using fP fF by simp
  have conj: "pauli_amp (pctrl E F P) \<psi> = (if panti P F then pauli_amp E else id) (pauli_amp P ((if panti P E then pauli_amp F else id) \<psi>))"
    using fP fE fF fPF by (simp add: pctrl_def pauli_amp_pmul)
  show "pauli_amp P (U \<psi>) = U (pauli_amp (pctrl E F P) \<psi>)"
    unfolding U4 unfolding conj PE PF U
    by (cases "panti P E"; cases "panti P F") (simp_all add: PE PF pauli_amp_minus FE tE tF fun_eq_iff)
qed

section \<open>The gates of the library\<close>

lemma flip_qubit_eq: "flip_qubit q s = sym_diff s {q}"
  by (auto simp: flip_qubit_def)

lemma root_gates:
  "pauli_amp (xop q) \<psi> = (\<lambda>t. \<psi> (flip_qubit q t))"
  "pauli_amp (yop q) \<psi> = (\<lambda>t. (if q \<in> t then \<i> else -\<i>) * \<psi> (flip_qubit q t))"
  "pauli_amp (zop q) \<psi> = (\<lambda>t. (if q \<in> t then -1 else 1) * \<psi> t)"
  "root_amp \<i> (zop q) \<psi> = (\<lambda>t. (if q \<in> t then \<i> else 1) * \<psi> t)"
  "root_amp (-\<i>) (zop q) \<psi> = (\<lambda>t. (if q \<in> t then -\<i> else 1) * \<psi> t)"
  proof -
  show "pauli_amp (yop q) \<psi> = (\<lambda>t. (if q \<in> t then \<i> else -\<i>) * \<psi> (flip_qubit q t))"
    by (simp add: yop_def pauli_amp_def sgn_amp_def flip_qubit_eq fun_eq_iff)
qed (simp_all add: pauli_amp_gens root_amp_def sgn_amp_def flip_qubit_eq fun_eq_iff field_simps)

lemma conjugates_hadamard:
  assumes "q < n"
  shows "conjugates n (hadamard_amp q) (hconj q)"
proof -
  let ?Rx = "root_amp \<i> (xop q)" and ?Rz = "root_amp \<i> (zop q)"
  note z = conjugates_root [OF pinv_on_gen(2) [OF assms]] and x = conjugates_root [OF pinv_on_gen(1) [OF assms]]
  note az = automorphism_pexp [OF pinv_on_gen(2) [OF assms]] and ax = automorphism_pexp [OF pinv_on_gen(1) [OF assms]]
  have "conjugates n (\<lambda>\<psi>. ?Rz (?Rx (?Rz \<psi>))) (\<lambda>P. pexp (zop q) (pexp (xop q) (pexp (zop q) P)))"
    using conjugates_comp [OF z conjugates_comp [OF x z ax] az] .
  moreover have "hadamard_amp q \<psi> = (\<lambda>s. (1 - \<i>) / sqrt 2 * ?Rz (?Rx (?Rz \<psi>)) s)" for \<psi>
  proof
    fix s
    have f: "flip_qubit q s = (if q \<in> s then s - {q} else insert q s)" "q \<in> s \<Longrightarrow> insert q s = s" "q \<notin> s \<Longrightarrow> s - {q} = s"
      by (auto simp: flip_qubit_def)
    show "hadamard_amp q \<psi> s = (1 - \<i>) / sqrt 2 * ?Rz (?Rx (?Rz \<psi>)) s"
      unfolding root_gates(4) root_amp_def [of \<i> "xop q"] root_gates(1) hadamard_amp_def
      by (cases "q \<in> s") (simp_all add: f field_simps)
  qed
  ultimately show ?thesis unfolding hconj_def [abs_def] by (rule conjugates_scale)
qed

lemma conjugates_cx:
  assumes "a < n" "b < n" "a \<noteq> b"
  shows "conjugates n (cx_amp a b) (pctrl (zop a) (xop b))"
  by (rule conjugates_pctrl) (use assms in \<open>auto simp: cx_amp_def root_gates fun_eq_iff flip_qubit_def\<close>)

lemma conjugates_cz:
  assumes "a < n" "b < n"
  shows "conjugates n (cz_amp a b) (pctrl (zop a) (zop b))"
proof (rule conjugates_pctrl)
  show "\<not> panti (zop a) (zop b)" by (simp add: zop_def panti_def)
qed (use assms in \<open>auto simp: cz_amp_def root_gates fun_eq_iff\<close>)

lemma swap_cx: "a \<noteq> b \<Longrightarrow> swap_amp a b \<psi> = cx_amp a b (cx_amp b a (cx_amp a b \<psi>))"
  unfolding swap_amp_def cx_amp_def flip_qubit_def fun_eq_iff
  by (auto intro!: arg_cong [of _ _ \<psi>])

lemma conjugates_swap:
  assumes "a < n" "b < n" "a \<noteq> b"
  shows "conjugates n (swap_amp a b) (swapconj a b)"
proof -
  have ab: "conjugates n (cx_amp a b) (pctrl (zop a) (xop b))" "automorphism n (pctrl (zop a) (xop b))"
    and ba: "conjugates n (cx_amp b a) (pctrl (zop b) (xop a))" "automorphism n (pctrl (zop b) (xop a))"
    using assms by (simp_all add: conjugates_cx automorphism_cx)
  have "conjugates n (\<lambda>\<psi>. cx_amp a b (cx_amp b a (cx_amp a b \<psi>)))
      (\<lambda>P. pctrl (zop a) (xop b) (pctrl (zop b) (xop a) (pctrl (zop a) (xop b) P)))"
    by (rule conjugates_comp [OF ab(1) conjugates_comp [OF ba(1) ab(1) ba(2)] ab(2)])
  then show ?thesis unfolding swapconj_def [abs_def] swap_cx [OF assms(3), abs_def] .
qed

lemma gate_amp_fun:
  "gate_amp OpI s = (\<lambda>\<psi>. \<psi>)" "gate_amp OpX s = pauli_amp (xop (s ! 0))" "gate_amp OpY s = pauli_amp (yop (s ! 0))"
  "gate_amp OpZ s = pauli_amp (zop (s ! 0))" "gate_amp SqrtX s = root_amp \<i> (xop (s ! 0))"
  "gate_amp SqrtXInv s = root_amp (-\<i>) (xop (s ! 0))" "gate_amp SqrtY s = root_amp \<i> (yop (s ! 0))"
  "gate_amp SqrtYInv s = root_amp (-\<i>) (yop (s ! 0))" "gate_amp SqrtZ s = root_amp \<i> (zop (s ! 0))"
  "gate_amp SqrtZInv s = root_amp (-\<i>) (zop (s ! 0))" "gate_amp Hadamard s = hadamard_amp (s ! 0)"
  "gate_amp Swap s = swap_amp (s ! 0) (s ! 1)" "gate_amp ControlledX s = cx_amp (s ! 0) (s ! 1)"
  "gate_amp ControlledZ s = cz_amp (s ! 0) (s ! 1)"
  "gate_amp PrepareBell s = (\<lambda>\<psi>. cx_amp (s ! 0) (s ! 1) (hadamard_amp (s ! 0) \<psi>))"
  by (simp_all add: root_gates fun_eq_iff)

lemma gate_amp_conjugates:
  assumes "gate_fits n op support"
  shows "conjugates n (gate_amp op support) (gate_conj op support)"
proof (cases "op = OpI")
  case False
  then consider "gate_arity op = 1" | "gate_arity op = 2" by (cases op) (simp_all add: gate_arity_def)
  then show ?thesis
  proof cases
    case 1
    with assms gate_fits_one obtain q where "q < n" "support = [q]" by blast
    with 1 show ?thesis
      by (cases op) (simp_all add: gate_conj_fun gate_amp_fun gate_arity_def conjugates_pconj conjugates_root conjugates_root_inverse conjugates_hadamard)
  next
    case 2
    with assms gate_fits_two obtain a b where q: "a < n" "b < n" "a \<noteq> b" "support = [a, b]" by blast
    with 2 conjugates_comp [OF conjugates_cx [OF q(1-3)] conjugates_hadamard [OF q(1)] automorphism_cx [OF q(1-3)]] show ?thesis
      by (cases op) (simp_all add: gate_conj_fun gate_amp_fun gate_arity_def conjugates_cx conjugates_cz conjugates_swap)
  qed
qed (simp add: gate_conj_fun gate_amp_fun conjugates_def)

text \<open>The gates are reversible.\<close>

lemma inj_inverse: "(\<And>\<psi>. V (U \<psi>) = \<psi>) \<Longrightarrow> inj U"
  by (metis injI)

lemma inj_chain: "inj U \<Longrightarrow> inj V \<Longrightarrow> inj (\<lambda>\<psi>. U (V \<psi>))"
  using inj_compose [of U V] by (simp only: comp_def)

lemma root_amp_undo:
  assumes "pinv_on n E"
  shows "root_amp (-\<i>) E (root_amp \<i> E \<psi>) = \<psi>" "root_amp \<i> E (root_amp (-\<i>) E \<psi>) = \<psi>"
proof -
  have tw: "pauli_amp E (pauli_amp E \<phi>) = \<phi>" for \<phi>
    by (rule pauli_amp_twice) (use pinv_onD [OF assms] in simp_all)
  show "root_amp (-\<i>) E (root_amp \<i> E \<psi>) = \<psi>" "root_amp \<i> E (root_amp (-\<i>) E \<psi>) = \<psi>"
    unfolding root_amp_def pauli_amp_sum tw by (simp_all add: fun_eq_iff field_simps)
qed

lemma hadamard_amp_twice: "hadamard_amp q (hadamard_amp q \<psi>) = \<psi>"
proof
  fix s
  have "complex_of_real (sqrt 2) * complex_of_real (sqrt 2) = 2" by (simp flip: of_real_mult)
  moreover have "q \<in> s \<Longrightarrow> insert q s = s" "q \<notin> s \<Longrightarrow> s - {q} = s" by auto
  ultimately show "hadamard_amp q (hadamard_amp q \<psi>) s = \<psi> s"
    by (cases "q \<in> s") (simp_all add: hadamard_amp_def field_simps)
qed

lemma flip_twice [simp]: "flip_qubit q (flip_qubit q s) = s" "p \<in> flip_qubit q s \<longleftrightarrow> (p \<in> s) \<noteq> (p = q)"
  by (auto simp: flip_qubit_def)

lemma cx_amp_twice: "a \<noteq> b \<Longrightarrow> cx_amp a b (cx_amp a b \<psi>) = \<psi>"
  by (simp add: cx_amp_def fun_eq_iff)

lemma gate_amp_inj:
  assumes "gate_fits n op support"
  shows "inj (gate_amp op support)"
proof (cases "op = OpI")
  case False
  have pauli: "inj (pauli_amp E)" if "pinv_on n E" for E
    by (rule inj_inverse [of "pauli_amp E"]) (rule pauli_amp_twice [OF pinv_onD(2) [OF that] pinv_onD(3) [OF that]])
  have root: "inj (root_amp \<i> E)" "inj (root_amp (-\<i>) E)" if "pinv_on n E" for E
    by (rule inj_inverse [of "root_amp (-\<i>) E"], rule root_amp_undo [OF that])
       (rule inj_inverse [of "root_amp \<i> E"], rule root_amp_undo [OF that])
  have had: "inj (hadamard_amp q)" for q by (rule inj_inverse [of "hadamard_amp q"]) (rule hadamard_amp_twice)
  have cx: "inj (cx_amp a b)" if "a \<noteq> b" for a b by (rule inj_inverse [of "cx_amp a b"]) (rule cx_amp_twice [OF that])
  have cz: "inj (cz_amp a b)" for a b by (rule inj_inverse [of "cz_amp a b"]) (simp add: cz_amp_def fun_eq_iff)
  from False consider "gate_arity op = 1" | "gate_arity op = 2" by (cases op) (simp_all add: gate_arity_def)
  then show ?thesis
  proof cases
    case 1
    with assms gate_fits_one obtain q where "q < n" "support = [q]" by blast
    with 1 show ?thesis by (cases op) (simp_all add: gate_amp_fun gate_arity_def pauli root had)
  next
    case 2
    with assms gate_fits_two obtain a b where q: "a < n" "b < n" "a \<noteq> b" "support = [a, b]" by blast
    have sw: "inj (swap_amp a b)" unfolding swap_cx [OF q(3), abs_def]
      by (rule inj_chain [OF cx [OF q(3)] inj_chain [OF cx [OF q(3) [symmetric]] cx [OF q(3)]]])
    have pb: "inj (\<lambda>\<psi>. cx_amp a b (hadamard_amp a \<psi>))" by (rule inj_chain [OF cx [OF q(3)] had])
    from 2 q sw pb cx [OF q(3)] cz show ?thesis by (cases op) (simp_all add: gate_amp_fun gate_arity_def)
  qed
qed (simp add: gate_amp_fun)

section \<open>Circuits\<close>

text \<open>A circuit is a list of gates, applied in turn: by the library on a Clifford unitary, and on vectors.\<close>

type_synonym circuit = "(unitary_op \<times> nat list) list"

definition run_gates :: "circuit \<Rightarrow> clifford_unitary \<Rightarrow> clifford_unitary option" where
  "run_gates gs C = ofold (\<lambda>(op, support). left_mul op support) gs C"

definition circuit_amp :: "circuit \<Rightarrow> amps \<Rightarrow> amps" where
  "circuit_amp gs \<psi> = fold (\<lambda>(op, support). gate_amp op support) gs \<psi>"

definition circuit_conj :: "circuit \<Rightarrow> pauli_op \<Rightarrow> pauli_op" where
  "circuit_conj gs P = foldr (\<lambda>(op, support). gate_conj op support) gs P"

abbreviation circuit_fits :: "nat \<Rightarrow> circuit \<Rightarrow> bool" where
  "circuit_fits n gs \<equiv> list_all (\<lambda>(op, support). gate_fits n op support) gs"

lemma circuit_conj_automorphism: "circuit_fits n gs \<Longrightarrow> automorphism n (circuit_conj gs)"
proof (induction gs)
  case (Cons g gs)
  obtain op support where g: "g = (op, support)" by (cases g)
  have "automorphism n (\<lambda>P. gate_conj op support (circuit_conj gs P))"
    by (rule automorphism_comp) (use Cons gate_conj_automorphism in \<open>simp_all add: g\<close>)
  then show ?case by (simp add: g circuit_conj_def [abs_def])
qed (simp add: circuit_conj_def [abs_def] automorphism_def)

lemma circuit_conjugates: "circuit_fits n gs \<Longrightarrow> conjugates n (circuit_amp gs) (circuit_conj gs)"
proof (induction gs)
  case (Cons g gs)
  obtain op support where g: "g = (op, support)" by (cases g)
  have "conjugates n (\<lambda>\<psi>. circuit_amp gs (gate_amp op support \<psi>)) (\<lambda>P. gate_conj op support (circuit_conj gs P))"
    by (rule conjugates_comp) (use Cons gate_amp_conjugates circuit_conj_automorphism in \<open>simp_all add: g\<close>)
  then show ?case by (simp add: g circuit_conj_def [abs_def] circuit_amp_def [abs_def])
qed (simp add: circuit_conj_def [abs_def] circuit_amp_def [abs_def] conjugates_def)

lemma circuit_amp_inj: "circuit_fits n gs \<Longrightarrow> inj (circuit_amp gs)"
proof (induction gs)
  case (Cons g gs)
  obtain op support where g: "g = (op, support)" by (cases g)
  have "inj (gate_amp op support)" by (rule gate_amp_inj [where n = n]) (use Cons.prems in \<open>simp add: g\<close>)
  from inj_chain [OF _ this, of "circuit_amp gs"] have "inj (\<lambda>\<psi>. circuit_amp gs (gate_amp op support \<psi>))"
    using Cons by (simp add: g)
  then show ?case by (simp add: g circuit_amp_def [abs_def])
qed (simp add: circuit_amp_def [abs_def])

lemma run_gates_acts:
  assumes "clifford_valid C" "circuit_fits (num_qubits C) gs"
  shows "acts C (circuit_conj gs) (run_gates gs C)"
  using assms
proof (induction gs arbitrary: C)
  case Nil
  then show ?case by (simp add: run_gates_def circuit_conj_def [abs_def] acts_Some)
next
  case (Cons g gs)
  obtain op support where g: "g = (op, support)" by (cases g)
  have fit: "gate_fits (num_qubits C) op support" "circuit_fits (num_qubits C) gs" using Cons.prems(2) by (simp_all add: g)
  have "acts C (\<lambda>P. gate_conj op support (circuit_conj gs P)) (left_mul op support C \<bind> run_gates gs)"
    by (rule acts_bind [OF left_mul_acts [OF Cons.prems(1) fit(1)] _ circuit_conj_automorphism [OF fit(2)]])
       (use Cons.IH fit(2) in simp)
  then show ?case by (simp add: g run_gates_def [abs_def] circuit_conj_def [abs_def])
qed

text \<open>The preimage the library computes is the operator the circuit pulls \<open>p\<close> back to, and the only one.\<close>

lemma run_gates_preimage:
  assumes v: "clifford_valid I" and id: "\<And>key. snd key < num_qubits I \<Longrightarrow> fam I key = gen key" and fit: "circuit_fits (num_qubits I) gs"
  shows "\<exists>C. run_gates gs I = Some C \<and> clifford_valid C \<and> num_qubits C = num_qubits I \<and>
    (\<forall>p. fits (num_qubits I) p \<longrightarrow> (\<exists>r. clifford_preimage dense_ops C p = Some r \<and> fits (num_qubits I) r \<and>
       dense_sem r = circuit_conj gs (dense_sem p)))"
proof -
  let ?n = "num_qubits I"
  obtain C where C: "run_gates gs I = Some C" "clifford_valid C" "num_qubits C = ?n"
      "\<And>P. pauli_on ?n P \<Longrightarrow> cpre C P = cpre I (circuit_conj gs P)"
    by (rule actsE [OF run_gates_acts [OF v fit]]) blast
  have "cpre C P = circuit_conj gs P" if "pauli_on ?n P" for P
    using C(4) [OF that] cpre_identity [OF v id] automorphismD(1) [OF circuit_conj_automorphism [OF fit] that] by simp
  then have "\<exists>r. clifford_preimage dense_ops C p = Some r \<and> fits ?n r \<and> dense_sem r = circuit_conj gs (dense_sem p)"
    if "fits ?n p" for p
    using dense_preimage_run [OF C(2), of p] that by (simp add: C(3) fits_def)
  with C(1-3) show ?thesis by blast
qed

end
