(* ===== verification/Clifford_Composite.thy ===== *)
theory Clifford_Composite
  imports Gate_Semantics
begin

text \<open>
  What \<open>paulimer\<close> builds from Clifford unitaries: the lists of gates of \<open>operations.rs\<close>, prepared Bell states,
  powers, unitaries on some of the qubits, tensor products and resizing.
\<close>

section \<open>Lists of gates\<close>

definition qubit_operations :: "nat \<Rightarrow> unitary_op \<Rightarrow> circuit" where
  "qubit_operations n qubit_op = map (\<lambda>qubit. (qubit_op, [qubit])) [0..<n]"

definition asymmetric_two_qubit_operations :: "nat \<Rightarrow> unitary_op \<Rightarrow> circuit" where
  "asymmetric_two_qubit_operations n qubit_op =
     concat (map (\<lambda>qubit1. concat (map (\<lambda>qubit2. if qubit1 \<noteq> qubit2 then [(qubit_op, [qubit1, qubit2])] else [])
       [0..<n])) [0..<n])"

definition symmetric_two_qubit_operations :: "nat \<Rightarrow> unitary_op \<Rightarrow> circuit" where
  "symmetric_two_qubit_operations n qubit_op =
     concat (map (\<lambda>qubit1. map (\<lambda>qubit2. (qubit_op, [qubit1, qubit2])) [0..<qubit1]) [0..<n])"

definition diagonal_operations :: "nat \<Rightarrow> circuit" where
  "diagonal_operations n =
     symmetric_two_qubit_operations n ControlledZ @ qubit_operations n SqrtZ"

definition css_operations :: "nat \<Rightarrow> circuit" where
  "css_operations n =
     symmetric_two_qubit_operations n Swap @ asymmetric_two_qubit_operations n ControlledX"

lemma set_operations:
  "set (qubit_operations n op) = {(op, [q]) | q. q < n}"
  "set (asymmetric_two_qubit_operations n op) = {(op, [a, b]) | a b. a < n \<and> b < n \<and> a \<noteq> b}"
  "set (symmetric_two_qubit_operations n op) = {(op, [a, b]) | a b. a < n \<and> b < a}"
  by (auto simp: qubit_operations_def asymmetric_two_qubit_operations_def symmetric_two_qubit_operations_def)

lemma operations_fit:
  "gate_arity op = 1 \<Longrightarrow> circuit_fits n (qubit_operations n op)"
  "gate_arity op = 2 \<Longrightarrow> circuit_fits n (asymmetric_two_qubit_operations n op)"
  "gate_arity op = 2 \<Longrightarrow> circuit_fits n (symmetric_two_qubit_operations n op)"
  by (auto simp: list_all_iff set_operations gate_fits_def)

lemma operation_lists_fit: "circuit_fits n (diagonal_operations n)" "circuit_fits n (css_operations n)"
  by (auto simp: diagonal_operations_def css_operations_def operations_fit gate_arity_def simp del: list_all_append intro!: iffD2 [OF list_all_append])

section \<open>Bell states\<close>

definition clifford_to_prepare_bell_states :: "nat \<Rightarrow> clifford_unitary option" where
  "clifford_to_prepare_bell_states num_bell_pairs = do {
     res \<leftarrow> clifford_identity (num_bell_pairs * 2);
     ofold (\<lambda>q. left_mul_prepare_bell q (q + num_bell_pairs)) [0..<num_bell_pairs] res }"

definition bell_gates :: "nat \<Rightarrow> nat \<Rightarrow> circuit" where
  "bell_gates n k = map (\<lambda>q. (PrepareBell, [q, q + n])) [0..<k]"

lemma bell_run: "clifford_to_prepare_bell_states n = Option.bind (clifford_identity (n * 2)) (run_gates (bell_gates n n))"
proof -
  have "ofold (\<lambda>q. left_mul_prepare_bell q (q + n)) xs C = run_gates (map (\<lambda>q. (PrepareBell, [q, q + n])) xs) C"
    if n: "n > 0" for xs C
    unfolding run_gates_def
  proof (induction xs arbitrary: C)
    case (Cons q xs)
    have "left_mul PrepareBell [q, q + n] C = left_mul_prepare_bell q (q + n) C" using n by (simp add: two_qubit_gate_def)
    then show ?case using Cons.IH by (cases "left_mul_prepare_bell q (q + n) C") simp_all
  qed simp
  then have "ofold (\<lambda>q. left_mul_prepare_bell q (q + n)) [0..<n] = run_gates (bell_gates n n)"
    by (cases "n = 0") (simp_all add: run_gates_def bell_gates_def fun_eq_iff)
  then show ?thesis by (simp add: clifford_to_prepare_bell_states_def)
qed

lemma bell_gates_fit: "circuit_fits (n * 2) (bell_gates n n)"
  by (auto simp: bell_gates_def list_all_iff gate_fits_def gate_arity_def)

text \<open>The state: all qubits zero, and \<open>n\<close> Bell pairs of the qubits \<open>q\<close> and \<open>q + n\<close>.\<close>

definition zero_state :: amps where
  "zero_state s = (if s = {} then 1 else 0)"

definition paired :: "nat \<Rightarrow> nat \<Rightarrow> nat set \<Rightarrow> bool" where
  "paired n k s \<longleftrightarrow> s \<subseteq> {..<k} \<union> {n..<n + k} \<and> (\<forall>q < k. q \<in> s \<longleftrightarrow> q + n \<in> s)"

definition bell_state :: "nat \<Rightarrow> amps" where
  "bell_state n s = (if paired n n s then 1 / sqrt 2 ^ n else 0)"

lemma paired_Suc:
  assumes "k < n"
  shows "paired n (Suc k) s \<longleftrightarrow> paired n k ((if k \<in> s then flip_qubit (k + n) s else s) - {k})"
proof -
  let ?t = "(if k \<in> s then flip_qubit (k + n) s else s) - {k}"
  have mem: "q \<in> ?t \<longleftrightarrow> (if q = k then False else if q = k + n then (q \<in> s) \<noteq> (k \<in> s) else q \<in> s)" for q
    using assms by auto
  have sub: "x \<subseteq> {..<l} \<union> {n..<n + l} \<longleftrightarrow> (\<forall>q \<in> x. q < l \<or> n \<le> q \<and> q < n + l)" for x l by auto
  show ?thesis
    unfolding paired_def sub
  proof (intro iffI conjI; elim conjE)
    assume a: "\<forall>q\<in>s. q < Suc k \<or> n \<le> q \<and> q < n + Suc k" "\<forall>q<Suc k. (q \<in> s) = (q + n \<in> s)"
    show "\<forall>q\<in>?t. q < k \<or> n \<le> q \<and> q < n + k"
    proof
      fix q
      assume "q \<in> ?t"
      then have q: "q \<noteq> k" "q = k + n \<Longrightarrow> (k + n \<in> s) \<noteq> (k \<in> s)" "q \<noteq> k + n \<Longrightarrow> q \<in> s" using mem [of q] by (auto split: if_splits)
      have "(k \<in> s) = (k + n \<in> s)" using a(2) by blast
      then have ne: "q \<noteq> k + n" using q(2) by blast
      have "q < Suc k \<or> n \<le> q \<and> q < n + Suc k" using a(1) q(3) [OF ne] by blast
      then show "q < k \<or> n \<le> q \<and> q < n + k" using q(1) ne by arith
    qed
    show "\<forall>q<k. (q \<in> ?t) = (q + n \<in> ?t)" unfolding mem using a(2) assms by auto
  next
    assume a: "\<forall>q\<in>?t. q < k \<or> n \<le> q \<and> q < n + k" "\<forall>q<k. (q \<in> ?t) = (q + n \<in> ?t)"
    have kn: "k + n \<notin> ?t"
    proof
      assume "k + n \<in> ?t"
      with a(1) have "k + n < k \<or> n \<le> k + n \<and> k + n < n + k" by blast
      with assms show False by arith
    qed
    then have e: "(k + n \<in> s) = (k \<in> s)" using mem [of "k + n"] assms by simp
    show "\<forall>q\<in>s. q < Suc k \<or> n \<le> q \<and> q < n + Suc k"
    proof
      fix q
      assume q: "q \<in> s"
      show "q < Suc k \<or> n \<le> q \<and> q < n + Suc k"
      proof (cases "q = k \<or> q = k + n")
        case False
        then have "q \<in> ?t" using mem [of q] q by simp
        with a(1) have "q < k \<or> n \<le> q \<and> q < n + k" by blast
        then show ?thesis by arith
      qed auto
    qed
    show "\<forall>q<Suc k. (q \<in> s) = (q + n \<in> s)"
    proof (intro allI impI)
      fix q
      assume q: "q < Suc k"
      show "(q \<in> s) = (q + n \<in> s)"
      proof (cases "q = k")
        case False
        with q have "q < k" by simp
        with a(2) have "(q \<in> ?t) = (q + n \<in> ?t)" by blast
        then show ?thesis unfolding mem using \<open>q < k\<close> assms by simp
      qed (simp add: e add.commute)
    qed
  qed
qed

lemma bell_amp: "k \<le> n \<Longrightarrow> circuit_amp (bell_gates n k) zero_state s = (if paired n k s then 1 / sqrt 2 ^ k else 0)"
proof (induction k arbitrary: s)
  case 0
  show ?case by (auto simp: bell_gates_def circuit_amp_def zero_state_def paired_def)
next
  case (Suc k)
  let ?\<psi> = "circuit_amp (bell_gates n k) zero_state"
  let ?t = "if k \<in> s then flip_qubit (k + n) s else s"
  have kn: "k < n" using Suc.prems by simp
  have "circuit_amp (bell_gates n (Suc k)) zero_state = gate_amp PrepareBell [k, k + n] ?\<psi>"
    by (simp add: bell_gates_def circuit_amp_def)
  then have "circuit_amp (bell_gates n (Suc k)) zero_state s = hadamard_amp k ?\<psi> ?t" by (simp add: cx_amp_def)
  also have "\<dots> = (?\<psi> (?t - {k}) + (if k \<in> ?t then -1 else 1) * ?\<psi> (insert k ?t)) / sqrt 2" by (simp add: hadamard_amp_def)
  also have "?\<psi> (insert k ?t) = 0" using Suc kn by (auto simp: paired_def)
  also have "?\<psi> (?t - {k}) = (if paired n (Suc k) s then 1 / sqrt 2 ^ k else 0)"
    using Suc.IH kn paired_Suc [OF kn] by simp
  finally show ?case by simp
qed

lemma bell_prepared_run:
  "\<exists>C. clifford_to_prepare_bell_states n = Some C \<and> is_valid_clifford C = Some True \<and> num_qubits C = n * 2 \<and>
    (\<forall>p. fits (n * 2) p \<longrightarrow> (\<exists>r. clifford_preimage dense_ops C p = Some r \<and>
       (pauli_amp (dense_sem p) (bell_state n) = bell_state n \<longleftrightarrow> pauli_amp (dense_sem r) zero_state = zero_state)))"
proof -
  let ?gs = "bell_gates n n"
  obtain I where I: "clifford_identity (n * 2) = Some I" "clifford_valid I" "num_qubits I = n * 2"
      "\<And>key. fam I key = (if snd key < n * 2 then gen key else pone)" using clifford_identity_run by blast
  have fit: "circuit_fits (num_qubits I) ?gs" using bell_gates_fit I(3) by simp
  obtain C where C: "run_gates ?gs I = Some C" "clifford_valid C" "num_qubits C = n * 2"
      and pre: "\<And>p. fits (n * 2) p \<Longrightarrow> \<exists>r. clifford_preimage dense_ops C p = Some r \<and> fits (n * 2) r \<and> dense_sem r = circuit_conj ?gs (dense_sem p)"
    using run_gates_preimage [OF I(2) _ fit] I(3,4) by auto
  have bell: "circuit_amp ?gs zero_state = bell_state n" using bell_amp [of n n] by (simp add: bell_state_def fun_eq_iff)
  have "pauli_amp P (bell_state n) = bell_state n \<longleftrightarrow> pauli_amp (circuit_conj ?gs P) zero_state = zero_state"
    if P: "pauli_on (n * 2) P" for P
  proof -
    have "pauli_amp P (bell_state n) = circuit_amp ?gs (pauli_amp (circuit_conj ?gs P) zero_state)"
      using conjugatesD [OF circuit_conjugates [OF bell_gates_fit] P, of zero_state] by (simp add: bell)
    then show ?thesis using inj_eq [OF circuit_amp_inj [OF bell_gates_fit [of n]], of "pauli_amp (circuit_conj ?gs P) zero_state" zero_state]
      by (simp add: bell)
  qed
  then have "\<exists>r. clifford_preimage dense_ops C p = Some r \<and>
      (pauli_amp (dense_sem p) (bell_state n) = bell_state n \<longleftrightarrow> pauli_amp (dense_sem r) zero_state = zero_state)" if "fits (n * 2) p" for p
    using pre [OF that] that by (auto simp: fits_def)
  moreover have "is_valid_clifford C = Some True"
    using is_valid_run [OF valid_ok [OF C(2)]] C(2) by (simp add: clifford_valid_def)
  ultimately show ?thesis using bell_run I(1) C(1,3) by auto
qed

section \<open>Powers\<close>

text \<open>Repeated squaring; \<open>remaining\<close> halves in every round.\<close>

fun power_loop :: "nat \<Rightarrow> clifford_unitary \<Rightarrow> clifford_unitary \<Rightarrow> clifford_unitary option" where
  "power_loop remaining base result =
     (if remaining = 0 then Some result
      else do {
        result \<leftarrow> (if remaining mod 2 = 1 then clifford_multiply_with result base else Some result);
        let remaining = remaining div 2;
        base \<leftarrow> (if remaining > 0 then clifford_multiply_with base base else Some base);
        power_loop remaining base result })"

declare power_loop.simps [simp del]

definition clifford_power :: "clifford_unitary \<Rightarrow> nat \<Rightarrow> clifford_unitary option" where
  "clifford_power C exponent =
     (if exponent = 0 then clifford_identity (num_qubits C)
      else do { result \<leftarrow> clifford_identity (num_qubits C); power_loop exponent C result })"

lemma cpre_power_on: "num_qubits C = n \<Longrightarrow> pauli_on n P \<Longrightarrow> pauli_on n ((cpre C ^^ k) P)"
  by (induction k) (use clifford.pre_on [of C] in auto)

lemma power_loop_run:
  assumes "clifford_valid base" "clifford_valid result" "num_qubits base = n" "num_qubits result = n"
  shows "\<exists>D. power_loop k base result = Some D \<and> clifford_valid D \<and> num_qubits D = n \<and>
    (\<forall>P. pauli_on n P \<longrightarrow> cpre D P = (cpre base ^^ k) (cpre result P))"
  using assms
proof (induction k arbitrary: base result rule: less_induct)
  case (less k)
  note nb = less.prems(3) and nr = less.prems(4)
  show ?case
  proof (cases "k = 0")
    case True
    with less.prems show ?thesis by (simp add: power_loop.simps [of 0])
  next
    case False
    obtain R where R: "(if k mod 2 = 1 then clifford_multiply_with result base else Some result) = Some R" "clifford_valid R" "num_qubits R = n"
        "\<And>P. pauli_on n P \<Longrightarrow> cpre R P = (cpre base ^^ (k mod 2)) (cpre result P)"
    proof (cases "k mod 2 = 1")
      case True
      show thesis
        by (rule actsE [OF multiply_run [OF less.prems(2,1)]]) (use True nb nr that in simp_all)
    qed (use less.prems that in auto)
    show ?thesis
    proof (cases "k div 2 = 0")
      case True
      with False have "k = 1" by auto
      then have "power_loop k base result = Some R" using R(1) by (simp add: power_loop.simps [of "Suc 0"] power_loop.simps [of 0])
      moreover have "cpre R P = (cpre base ^^ k) (cpre result P)" if "pauli_on n P" for P using R(4) [OF that] \<open>k = 1\<close> by simp
      ultimately show ?thesis using R(2,3) by blast
    next
      case False
      then have half: "k div 2 < k" by (intro div_less_dividend) auto
      obtain B where B: "clifford_multiply_with base base = Some B" "clifford_valid B" "num_qubits B = n"
          "\<And>P. pauli_on n P \<Longrightarrow> cpre B P = cpre base (cpre base P)"
        by (rule actsE [OF multiply_run [OF less.prems(1,1) refl]]) (use nb that in simp_all)
      obtain D where D: "power_loop (k div 2) B R = Some D" "clifford_valid D" "num_qubits D = n"
          "\<And>P. pauli_on n P \<Longrightarrow> cpre D P = (cpre B ^^ (k div 2)) (cpre R P)"
        using less.IH [OF half B(2) R(2) B(3) R(3)] by blast
      have sq: "(cpre B ^^ m) P = (cpre base ^^ (2 * m)) P" if "pauli_on n P" for m P
        using that B(4) cpre_power_on [OF nb] by (induction m) simp_all
      have "cpre D P = (cpre base ^^ k) (cpre result P)" if P: "pauli_on n P" for P
      proof -
        have on: "pauli_on n (cpre result P)" using clifford.pre_on [of result] P nr by simp
        have "cpre D P = (cpre base ^^ (2 * (k div 2))) ((cpre base ^^ (k mod 2)) (cpre result P))"
          using D(4) [OF P] R(4) [OF P] sq [OF cpre_power_on [OF nb on]] by simp
        also have "\<dots> = (cpre base ^^ (2 * (k div 2) + k mod 2)) (cpre result P)" by (simp only: funpow_add comp_apply)
        finally show ?thesis by simp
      qed
      moreover have "power_loop k base result = Some D"
        using R(1) B(1) D(1) False by (simp add: power_loop.simps [of k])
      ultimately show ?thesis using D(2,3) by blast
    qed
  qed
qed

lemma power_run:
  assumes "clifford_valid C"
  shows "\<exists>D. clifford_power C k = Some D \<and> clifford_valid D \<and> num_qubits D = num_qubits C \<and>
    (\<forall>P. pauli_on (num_qubits C) P \<longrightarrow> cpre D P = (cpre C ^^ k) P)"
proof -
  let ?n = "num_qubits C"
  obtain I where I: "clifford_identity ?n = Some I" "clifford_valid I" "num_qubits I = ?n"
      "\<And>key. fam I key = (if snd key < ?n then gen key else pone)" using clifford_identity_run by blast
  have id: "cpre I P = P" if "pauli_on ?n P" for P by (rule cpre_identity [OF I(2)]) (use I(3,4) that in simp_all)
  show ?thesis
  proof (cases "k = 0")
    case True
    with I id show ?thesis by (simp add: clifford_power_def)
  next
    case False
    with power_loop_run [OF assms I(2) refl I(3), of k] I(1) id show ?thesis by (simp add: clifford_power_def)
  qed
qed

end
