(* ===== verification/Clifford_Embedding.thy ===== *)
theory Clifford_Embedding
  imports Clifford_Composite
begin

text \<open>
  Clifford unitaries on some of the qubits of a register: a frame on \<open>m\<close> qubits placed along an injection into
  \<open>n\<close> qubits is a frame, and \<open>left_mul_clifford\<close>, tensor products and resizing place their operands this way.
\<close>

section \<open>Homomorphisms between registers\<close>

definition hom_into :: "nat \<Rightarrow> nat \<Rightarrow> (pauli_op \<Rightarrow> pauli_op) \<Rightarrow> bool" where
  "hom_into m n h \<longleftrightarrow> (\<forall>P k. pauli_on m P \<longrightarrow> pauli_on n (h P) \<and> h (pphase k P) = pphase k (h P) \<and>
     (\<forall>Q. pauli_on m Q \<longrightarrow> h (pmul P Q) = pmul (h P) (h Q)))"

lemma hom_intoI:
  assumes "\<And>P. pauli_on m P \<Longrightarrow> pauli_on n (h P)" "\<And>P k. pauli_on m P \<Longrightarrow> h (pphase k P) = pphase k (h P)"
    "\<And>P Q. pauli_on m P \<Longrightarrow> pauli_on m Q \<Longrightarrow> h (pmul P Q) = pmul (h P) (h Q)"
  shows "hom_into m n h"
  using assms by (simp add: hom_into_def)

lemma hom_intoD:
  assumes "hom_into m n h" "pauli_on m P"
  shows "pauli_on n (h P)" "h (pphase k P) = pphase k (h P)" "pauli_on m Q \<Longrightarrow> h (pmul P Q) = pmul (h P) (h Q)"
  using assms unfolding hom_into_def by blast+

lemma hom_into_pone:
  assumes "hom_into m n h"
  shows "h pone = pone"
proof -
  have "pmul (h pone) (h pone) = h pone" using hom_intoD(3) [OF assms, of pone pone] by simp
  then show ?thesis by (cases "h pone") (auto simp: pmul_def pone_def)
qed

lemma hom_into_comp: "hom_into l m g \<Longrightarrow> hom_into m n h \<Longrightarrow> hom_into l n (\<lambda>P. h (g P))"
  by (rule hom_intoI) (use hom_intoD in \<open>simp_all\<close>)

lemma hom_into_pprod:
  assumes h: "hom_into m n h" and "set xs \<subseteq> {..<m}" "\<And>i. i < m \<Longrightarrow> pauli_on m (g i)"
  shows "h (pprod g xs) = pprod (\<lambda>i. h (g i)) xs"
  using assms(2)
proof (induction xs rule: rev_induct)
  case Nil
  then show ?case by (simp add: pprod_def hom_into_pone [OF h])
next
  case (snoc x xs)
  have "pauli_on m (pprod g xs)" by (rule pauli_on_pprod) (use snoc.prems assms(3) in auto)
  moreover have "pauli_on m (g x)" using snoc.prems assms(3) by simp
  ultimately have "h (pmul (pprod g xs) (g x)) = pmul (h (pprod g xs)) (h (g x))" by (rule hom_intoD(3) [OF h])
  with snoc show ?case by (simp add: pprod_def)
qed

lemma hom_into_pre:
  assumes h: "hom_into m n h" and P: "pauli_on m P"
  shows "pre (\<lambda>i. h (gen (False, i))) (\<lambda>i. h (gen (True, i))) P = h P"
proof -
  have s: "fst P \<subseteq> {..<m}" "fst (snd P) \<subseteq> {..<m}" using P by (simp_all add: pauli_on_def)
  then have fin: "finite (fst P)" "finite (fst (snd P))" by (auto intro: finite_subset)
  then have f: "pauli_on m (fprod xop (fst P))" "pauli_on m (fprod zop (fst (snd P)))" using s by (auto intro!: pauli_on_fprod)
  have "h (fprod xop (fst P)) = fprod (\<lambda>i. h (xop i)) (fst P)" "h (fprod zop (fst (snd P))) = fprod (\<lambda>i. h (zop i)) (fst (snd P))"
    unfolding fprod_def by (rule hom_into_pprod [OF h]; use s fin in simp)+
  moreover have "h P = pphase (snd (snd P)) (pmul (h (fprod xop (fst P))) (h (fprod zop (fst (snd P)))))"
    using pre_identity [OF P] hom_intoD(2,3) [OF h] f pauli_on_pmul [OF f] by (metis pre_def)
  ultimately show ?thesis by (simp add: pre_def)
qed

lemma hom_into_eqI:
  assumes "hom_into m n h" "hom_into m n g" "\<And>key. snd key < m \<Longrightarrow> h (gen key) = g (gen key)" "pauli_on m P"
  shows "h P = g P"
proof -
  have "pre (\<lambda>i. h (gen (False, i))) (\<lambda>i. h (gen (True, i))) P = pre (\<lambda>i. g (gen (False, i))) (\<lambda>i. g (gen (True, i))) P"
    by (rule pre_cong [OF assms(4)]) (rule assms(3), simp)+
  then show ?thesis using hom_into_pre [OF assms(1,4)] hom_into_pre [OF assms(2,4)] by simp
qed

lemma pperm_hom: "inj_on f {..<m} \<Longrightarrow> f ` {..<m} \<subseteq> {..<n} \<Longrightarrow> hom_into m n (pperm f)"
  by (rule hom_intoI) (use pperm_on pperm_facts(1) in \<open>simp_all\<close>)

lemma pre_hom: "symplectic n fx fz \<Longrightarrow> hom_into n n (pre fx fz)"
  by (rule hom_intoI) (simp_all add: symplectic_frame.pre_on symplectic_frame.pre_pphase symplectic_frame.pre_pmul symplectic_frame_def)

section \<open>Frames by keys\<close>

abbreviation frame :: "nat \<Rightarrow> (key \<Rightarrow> pauli_op) \<Rightarrow> bool" where
  "frame n F \<equiv> symplectic n (\<lambda>i. F (False, i)) (\<lambda>i. F (True, i))"

abbreviation pre_of :: "(key \<Rightarrow> pauli_op) \<Rightarrow> pauli_op \<Rightarrow> pauli_op" where
  "pre_of F \<equiv> pre (\<lambda>i. F (False, i)) (\<lambda>i. F (True, i))"

lemma panti_gen: "panti (gen (c, i)) (gen (d, j)) \<longleftrightarrow> c \<noteq> d \<and> i = j"
  by (cases c; cases d) (auto simp: panti_def xop_def zop_def)

lemma frame_keys:
  "frame n F \<longleftrightarrow> (\<forall>k. snd k < n \<longrightarrow> pauli_on n (F k) \<and> pmul (F k) (F k) = pone \<and>
     (\<forall>l. snd l < n \<longrightarrow> panti (F k) (F l) = panti (gen k) (gen l)))"
proof
  assume f: "frame n F"
  have "panti (F (c, i)) (F (d, j)) = panti (gen (c, i)) (gen (d, j))" if "i < n" "j < n" for c d i j
    using f that unfolding symplectic_def panti_gen by (cases c; cases d) (auto simp: panti_sym [of "F (True, i)" "F (False, j)"])
  with f show "\<forall>k. snd k < n \<longrightarrow> pauli_on n (F k) \<and> pmul (F k) (F k) = pone \<and>
     (\<forall>l. snd l < n \<longrightarrow> panti (F k) (F l) = panti (gen k) (gen l))"
    unfolding symplectic_def by (auto split: prod.splits) (metis (full_types))+
next
  assume k: "\<forall>k. snd k < n \<longrightarrow> pauli_on n (F k) \<and> pmul (F k) (F k) = pone \<and>
     (\<forall>l. snd l < n \<longrightarrow> panti (F k) (F l) = panti (gen k) (gen l))"
  have p: "panti (F (c, i)) (F (d, j)) = (c \<noteq> d \<and> i = j)" if "i < n" "j < n" for c d i j
    using k [rule_format, of "(c, i)"] that by (auto simp: panti_gen)
  show "frame n F" unfolding symplectic_def using k p by simp
qed

section \<open>Placing a frame\<close>

text \<open>The qubits \<open>f 0, \<dots>, f (m - 1)\<close> get the frame \<open>F\<close>, the others keep their generators.\<close>

definition embed :: "(nat \<Rightarrow> nat) \<Rightarrow> nat \<Rightarrow> (key \<Rightarrow> pauli_op) \<Rightarrow> key \<Rightarrow> pauli_op" where
  "embed f m F = (\<lambda>(c, q). if q \<in> f ` {..<m} then pperm f (F (c, inv_into {..<m} f q)) else gen (c, q))"

lemma embed_in: "inj_on f {..<m} \<Longrightarrow> i < m \<Longrightarrow> embed f m F (c, f i) = pperm f (F (c, i))"
  by (simp add: embed_def)

lemma embed_out: "q \<notin> f ` {..<m} \<Longrightarrow> embed f m F (c, q) = gen (c, q)"
  by (simp add: embed_def)

lemma pperm_avoids: "pauli_on m P \<Longrightarrow> q \<notin> f ` {..<m} \<Longrightarrow> \<not> panti (gen (c, q)) (pperm f P)"
  unfolding gen_anti pauli_on_def pperm_def by auto

lemma embed_frame:
  assumes f: "inj_on f {..<m}" "f ` {..<m} \<subseteq> {..<n}" and F: "frame m F"
  shows "frame n (embed f m F)"
  unfolding frame_keys
proof (intro allI impI conjI)
  note K = F [unfolded frame_keys, rule_format]
  have g: "pmul (gen k) (gen k) = pone" for k by (cases k) (simp add: gen_def xop_def zop_def pmul_def pone_def)
  fix k :: key
  assume k: "snd k < n"
  obtain c q where kq: "k = (c, q)" by (cases k)
  show "pauli_on n (embed f m F k)"
  proof (cases "q \<in> f ` {..<m}")
    case True
    then obtain i where i: "i < m" "q = f i" by auto
    show ?thesis unfolding kq i(2) embed_in [OF f(1) i(1)] by (rule pperm_on [OF _ f(2)]) (use K [of "(c, i)"] i in simp)
  qed (use k in \<open>simp add: kq embed_out\<close>)
  show "pmul (embed f m F k) (embed f m F k) = pone"
  proof (cases "q \<in> f ` {..<m}")
    case True
    then obtain i where i: "i < m" "q = f i" by auto
    have on: "pauli_on m (F (c, i))" using K [of "(c, i)"] i by simp
    show ?thesis unfolding kq i(2) embed_in [OF f(1) i(1)]
      using pperm_facts(1) [OF f(1) on on] K [of "(c, i)"] i by simp
  qed (simp add: kq embed_out g)
  fix l :: key
  assume l: "snd l < n"
  obtain d r where lr: "l = (d, r)" by (cases l)
  show "panti (embed f m F k) (embed f m F l) = panti (gen k) (gen l)"
  proof (cases "q \<in> f ` {..<m}"; cases "r \<in> f ` {..<m}")
    assume "q \<in> f ` {..<m}" "r \<in> f ` {..<m}"
    then obtain i j where i: "i < m" "q = f i" and j: "j < m" "r = f j" by auto
    have on: "pauli_on m (F (c, i))" "pauli_on m (F (d, j))" using K [of "(c, i)"] K [of "(d, j)"] i j by simp_all
    have "panti (F (c, i)) (F (d, j)) = panti (gen (c, i)) (gen (d, j))" using K [of "(c, i)"] i j by simp
    then show ?thesis
      unfolding kq lr i(2) j(2) embed_in [OF f(1) i(1)] embed_in [OF f(1) j(1)] pperm_facts(2) [OF f(1) on] panti_gen
      using inj_onD [OF f(1), of i j] i(1) j(1) by auto
  next
    assume "q \<in> f ` {..<m}" and r: "r \<notin> f ` {..<m}"
    then obtain i where i: "i < m" "q = f i" by auto
    have on: "pauli_on m (F (c, i))" using K [of "(c, i)"] i by simp
    have "\<not> panti (pperm f (F (c, i))) (gen (d, r))" using pperm_avoids [OF on r] by (simp only: panti_sym [of "pperm f (F (c, i))"]) simp
    moreover have "q \<noteq> r" using r i by auto
    ultimately show ?thesis unfolding kq lr i(2) embed_in [OF f(1) i(1)] embed_out [OF r] panti_gen using i(2) by simp
  next
    assume q: "q \<notin> f ` {..<m}" and "r \<in> f ` {..<m}"
    then obtain j where j: "j < m" "r = f j" by auto
    have on: "pauli_on m (F (d, j))" using K [of "(d, j)"] j by simp
    have "q \<noteq> f j" using q j by auto
    then show ?thesis unfolding kq lr j(2) embed_in [OF f(1) j(1)] embed_out [OF q] panti_gen using pperm_avoids [OF on q] by simp
  qed (simp add: kq lr embed_out)
qed

text \<open>On the placed qubits it acts as \<open>F\<close>, elsewhere not at all.\<close>

lemma pre_gens: "snd key < n \<Longrightarrow> frame n F \<Longrightarrow> pre_of F (gen key) = F key"
  by (cases key; cases "fst key") (simp_all add: symplectic_frame.pre_generators symplectic_frame_def)

lemma embed_inside:
  assumes f: "inj_on f {..<m}" "f ` {..<m} \<subseteq> {..<n}" and F: "frame m F" and P: "pauli_on m P"
  shows "pre_of (embed f m F) (pperm f P) = pperm f (pre_of F P)"
proof (rule hom_into_eqI [OF _ _ _ P])
  note E = embed_frame [OF f F]
  show "hom_into m n (\<lambda>P. pre_of (embed f m F) (pperm f P))" by (rule hom_into_comp [OF pperm_hom [OF f] pre_hom [OF E]])
  show "hom_into m n (\<lambda>P. pperm f (pre_of F P))" by (rule hom_into_comp [OF pre_hom [OF F] pperm_hom [OF f]])
  fix key :: key
  assume k: "snd key < m"
  obtain c i where key: "key = (c, i)" by (cases key)
  have "f i < n" using f(2) k by (auto simp: key)
  then have "pre_of (embed f m F) (gen (c, f i)) = pperm f (F (c, i))" using pre_gens [OF _ E, of "(c, f i)"] embed_in [OF f(1)] k by (simp add: key)
  then show "pre_of (embed f m F) (pperm f (gen key)) = pperm f (pre_of F (gen key))"
    using pre_gens [OF k F] by (simp add: key pperm_gen)
qed

lemma embed_outside:
  assumes P: "pauli_on n P" and out: "\<And>i. i < m \<Longrightarrow> f i \<notin> fst P \<and> f i \<notin> fst (snd P)"
  shows "pre_of (embed f m F) P = P"
proof -
  have "embed f m F (c, q) = gen (c, q)" if "q \<in> fst P \<union> fst (snd P)" for c q
    by (rule embed_out) (use out that in auto)
  moreover have "finite (fst P)" "finite (fst (snd P))" using P by (auto simp: pauli_on_def intro: finite_subset)
  ultimately have "fprod (\<lambda>q. embed f m F (False, q)) (fst P) = fprod xop (fst P)"
      "fprod (\<lambda>q. embed f m F (True, q)) (fst (snd P)) = fprod zop (fst (snd P))"
    by (auto intro!: fprod_cong)
  then show ?thesis using pre_identity [OF P] by (simp add: pre_def)
qed

section \<open>Unitaries on some of the qubits\<close>

lemma reindexed_run:
  assumes "sorted_library S" "set xs \<subseteq> {..<length support}"
  shows "\<exists>s. reindexed_support S support xs = Some s \<and> index_set_ok S s \<and> index_set_bits S s = nth support ` set xs"
proof -
  have "omap (nth_opt support) xs = Some (map (nth support) xs)"
    by (rule omap_total) (use assms(2) in auto)
  then show ?thesis using sorted_library.constructors(5,6) [OF assms(1)] by (simp add: reindexed_support_def)
qed

lemma on_support_run:
  assumes S: "sorted_library S" and p: "fits (length support) p"
  shows "\<exists>q. sparse_pauli_on_support S dense_ops p support = Some q \<and> sparse_ok S q \<and> sparse_sem S q = pperm (nth support) (dense_sem p)"
proof -
  have s: "bo_support dense_ops (px p) = sorted_list_of_set (dense_bits (px p))" "bo_support dense_ops (pz p) = sorted_list_of_set (dense_bits (pz p))"
      "finite (dense_bits (px p))" "finite (dense_bits (pz p))" "dense_bits (px p) \<subseteq> {..<length support}" "dense_bits (pz p) \<subseteq> {..<length support}"
    using p dense.support dense.bset_finite by (simp_all add: fits_def pauli_ok_def pauli_on_def psem_def)
  obtain x where x: "reindexed_support S support (bo_support dense_ops (px p)) = Some x" "index_set_ok S x"
      "index_set_bits S x = nth support ` dense_bits (px p)"
    using reindexed_run [OF S, of "bo_support dense_ops (px p)" support] s by auto
  obtain z where z: "reindexed_support S support (bo_support dense_ops (pz p)) = Some z" "index_set_ok S z"
      "index_set_bits S z = nth support ` dense_bits (pz p)"
    using reindexed_run [OF S, of "bo_support dense_ops (pz p)" support] s by auto
  show ?thesis
    using x z by (simp add: sparse_pauli_on_support_def pauli_ok_def pauli_from_bits_def projective_from_bits_def assign_phase_exp_def psem_def pperm_def ph_phase_exponent)
qed

lemma left_mul_clifford_acts:
  assumes S: "sorted_library S" and C: "clifford_valid C" and D: "clifford_valid D"
    and sup: "distinct support" "set support \<subseteq> {..<num_qubits C}" and len: "length support = num_qubits D"
  shows "acts C (pre_of (embed (nth support) (num_qubits D) (fam D))) (left_mul_clifford S D support C)"
proof -
  let ?n = "num_qubits C" and ?m = "num_qubits D" and ?f = "nth support"
  note okC = valid_ok [OF C] and okD = valid_ok [OF D]
  have inj: "inj_on ?f {..<?m}" "?f ` {..<?m} \<subseteq> {..<?n}"
    using sup len by (auto simp: inj_on_def nth_eq_iff_index_eq subset_iff)
  have F: "frame ?m (fam D)" using D by (simp add: clifford_valid_def)
  let ?E = "embed ?f ?m (fam D)"
  have E: "frame ?n ?E" by (rule embed_frame [OF inj F])
  let ?read = "\<lambda>i. do { v \<leftarrow> preimage_x_view D i; x \<leftarrow> sparse_pauli_on_support S dense_ops v support;
     v \<leftarrow> preimage_z_view D i; z \<leftarrow> sparse_pauli_on_support S dense_ops v support;
     x \<leftarrow> clifford_preimage (sparse_ops S) C x; z \<leftarrow> clifford_preimage (sparse_ops S) C z; Some (x, z) }"
  have one: "\<exists>v q r. key_view D (c, i) = Some v \<and> sparse_pauli_on_support S dense_ops v support = Some q \<and>
      clifford_preimage (sparse_ops S) C q = Some r \<and> fits ?n r \<and> dense_sem r = cpre C (?E (c, ?f i))" if i: "i < ?m" for c i
  proof -
    obtain v where v: "key_view D (c, i) = Some v" "fits ?m v" "dense_sem v = fam D (c, i)" using key_view_run [OF okD, of "(c, i)"] i by auto
    have vf: "fits (length support) v" using v(2) by (simp only: len)
    obtain q where q: "sparse_pauli_on_support S dense_ops v support = Some q" "sparse_ok S q" "sparse_sem S q = pperm ?f (dense_sem v)"
      using on_support_run [OF S vf] by blast
    have on: "pauli_on ?n (sparse_sem S q)" unfolding q(3) by (rule pperm_on [OF _ inj(2)]) (use v(2) in \<open>simp add: fits_def\<close>)
    obtain r where r: "clifford_preimage (sparse_ops S) C q = Some r" "fits ?n r" "dense_sem r = pre (cx C) (cz C) (sparse_sem S q)"
      using pauli_bits.preimage_run [OF sorted_library.sparse_bits [OF S] okC q(2) on] by blast
    have "dense_sem r = cpre C (?E (c, ?f i))" unfolding r(3) cpre_eq [OF C] q(3) v(3) embed_in [OF inj(1) i] ..
    with v(1) q(1) r(1,2) show ?thesis by blast
  qed
  have "\<exists>y. ?read i = Some y \<and> fits ?n (fst y) \<and> fits ?n (snd y) \<and> dense_sem (fst y) = cpre C (?E (False, ?f i)) \<and> dense_sem (snd y) = cpre C (?E (True, ?f i))"
    if "i \<in> set [0..<length support]" for i
    using one [of i False] one [of i True] that len by (auto simp: key_view_def)
  then have "\<exists>ps. omap ?read [0..<length support] = Some ps \<and> list_all2 (\<lambda>i y. fits ?n (fst y) \<and> fits ?n (snd y) \<and>
      dense_sem (fst y) = cpre C (?E (False, ?f i)) \<and> dense_sem (snd y) = cpre C (?E (True, ?f i))) [0..<length support] ps"
    by (rule omap_run)
  then obtain ps where ps: "omap ?read [0..<length support] = Some ps"
      "list_all2 (\<lambda>i y. fits ?n (fst y) \<and> fits ?n (snd y) \<and> dense_sem (fst y) = cpre C (?E (False, ?f i)) \<and> dense_sem (snd y) = cpre C (?E (True, ?f i)))
        [0..<length support] ps" by blast
  have lp: "length ps = length support" using list_all2_lengthD [OF ps(2)] by simp
  have pi: "fits ?n (fst (ps ! i)) \<and> fits ?n (snd (ps ! i)) \<and> dense_sem (fst (ps ! i)) = cpre C (?E (False, ?f i)) \<and> dense_sem (snd (ps ! i)) = cpre C (?E (True, ?f i))"
    if "i < length support" for i using list_all2_nthD [OF ps(2), of i] that by simp
  obtain C' where C': "assign_preimages support ps C = Some C'" "clifford_ok C'" "num_qubits C' = ?n"
      "\<And>i c. i < length support \<Longrightarrow> fam C' (c, support ! i) = dense_sem (if c then snd (ps ! i) else fst (ps ! i))"
      "\<And>q c. q \<notin> set support \<Longrightarrow> fam C' (c, q) = fam C (c, q)"
    using assign_preimages_run [OF okC sup(2,1) lp] pi by blast
  have run: "left_mul_clifford S D support C = Some C'"
    using sup(1) len ps(1) C'(1) by (simp add: left_mul_clifford_def has_no_duplicates_iff)
  have im: "?f ` {..<?m} = set support" using len by (auto simp: in_set_conv_nth)
  have "fam C' key = cpre C (pre_of ?E (gen key))" if k: "snd key < ?n" for key
  proof -
    obtain c q where key: "key = (c, q)" by (cases key)
    have "fam C' (c, q) = cpre C (?E (c, q))"
    proof (cases "q \<in> set support")
      case True
      then obtain i where "i < length support" "q = support ! i" by (metis in_set_conv_nth)
      then show ?thesis using C'(4) pi by (cases c) auto
    next
      case False
      then have "?E (c, q) = gen (c, q)" using embed_out [of q ?f ?m "fam D" c] im by simp
      then show ?thesis using C'(5) [OF False] cpre_gen [OF C, of "(c, q)"] k by (simp add: key)
    qed
    then show ?thesis using pre_gens [OF k E] by (simp add: key)
  qed
  moreover have "automorphism ?n (pre_of ?E)"
    by (rule automorphismI) (use hom_intoD [OF pre_hom [OF E]] in simp_all)
  ultimately have "clifford_valid C'" "\<And>P. pauli_on ?n P \<Longrightarrow> cpre C' P = cpre C (pre_of ?E P)"
    using frame_change [OF C _ C'(2,3)] by blast+
  then show ?thesis using run C'(3) by (auto simp: acts_def)
qed

section \<open>Tensor products and resizing\<close>

lemma overlay_xz_run:
  assumes ok: "clifford_ok C" and q: "q < num_qubits C" and le: "off + m \<le> num_qubits C"
    and x: "fits m x" and z: "fits m z"
  shows "becomes C ((fam C)((False, q) := poverlay off m (dense_sem x) (cx C q), (True, q) := poverlay off m (dense_sem z) (cz C q)))
    (do { C \<leftarrow> preimage_x_view_mut q (pauli_assign_with_offset dense_ops x off m) C;
          preimage_z_view_mut q (pauli_assign_with_offset dense_ops z off m) C })"
proof (rule becomes_bind)
  show "becomes C ((fam C)((False, q) := poverlay off m (dense_sem x) (cx C q))) (preimage_x_view_mut q (pauli_assign_with_offset dense_ops x off m) C)"
  proof -
    have "becomes C ((fam C)((False, q) := poverlay off m (dense_sem x) (cx C q)))
        (key_view_mut (False, q) (pauli_assign_with_offset dense_ops x off m) C)"
    proof (rule key_view_mut_run [OF ok])
      show "\<exists>r. pauli_assign_with_offset dense_ops x off m p = Some r \<and> fits (num_qubits C) r \<and>
          dense_sem r = poverlay off m (dense_sem x) (cx C q)" if "fits (num_qubits C) p" "dense_sem p = cx C q" for p
        using assign_offset_run [OF x that(1) le] that(2) by simp
    qed (simp add: q)
    then show ?thesis by (simp add: key_view_mut_def)
  qed
  fix C'
  assume C': "clifford_ok C'" "num_qubits C' = num_qubits C" "fam C' = (fam C)((False, q) := poverlay off m (dense_sem x) (cx C q))"
  then have cz: "cz C' q = cz C q" by simp
  have "becomes C' ((fam C')((True, q) := poverlay off m (dense_sem z) (cz C q)))
      (key_view_mut (True, q) (pauli_assign_with_offset dense_ops z off m) C')"
  proof (rule key_view_mut_run [OF C'(1)])
    show "\<exists>r. pauli_assign_with_offset dense_ops z off m p = Some r \<and> fits (num_qubits C') r \<and>
        dense_sem r = poverlay off m (dense_sem z) (cz C q)" if "fits (num_qubits C') p" "dense_sem p = cz C' q" for p
      using assign_offset_run [OF z, of "num_qubits C" p off] that le cz C'(2) by simp
  qed (simp add: q C'(2))
  then show "becomes C' ((fam C)((False, q) := poverlay off m (dense_sem x) (cx C q), (True, q) := poverlay off m (dense_sem z) (cz C q)))
      (preimage_z_view_mut q (pauli_assign_with_offset dense_ops z off m) C')"
    unfolding C'(3) by (simp add: key_view_mut_def)
qed

text \<open>The loop that writes the preimages of \<open>D\<close> from qubit \<open>b\<close> on.\<close>

definition shifted :: "nat \<Rightarrow> pauli_op \<Rightarrow> pauli_op" where
  "shifted b = pperm (\<lambda>i. b + i)"

lemma overlay_pone: "fst P \<subseteq> {off..<off + m} \<Longrightarrow> fst (snd P) \<subseteq> {off..<off + m} \<Longrightarrow> poverlay off m V P = shifted off V"
  by (auto simp: poverlay_def shifted_def pperm_def)

lemma place_run:
  assumes C: "clifford_ok C" and D: "clifford_ok D" and le: "b + num_qubits D \<le> num_qubits C"
    and small: "\<And>c i. i < num_qubits D \<Longrightarrow> fst (fam C (c, b + i)) \<subseteq> {b..<b + num_qubits D} \<and> fst (snd (fam C (c, b + i))) \<subseteq> {b..<b + num_qubits D}"
  shows "becomes C (\<lambda>(c, p). if b \<le> p \<and> p < b + num_qubits D then shifted b (fam D (c, p - b)) else fam C (c, p))
    (ofold (\<lambda>q C. do { v \<leftarrow> preimage_x_view D q; C \<leftarrow> preimage_x_view_mut (b + q) (pauli_assign_with_offset dense_ops v b (num_qubits D)) C;
       v \<leftarrow> preimage_z_view D q; preimage_z_view_mut (b + q) (pauli_assign_with_offset dense_ops v b (num_qubits D)) C }) [0..<num_qubits D] C)"
    (is "becomes C ?F (ofold ?body _ C)")
proof -
  let ?m = "num_qubits D"
  have "becomes C (\<lambda>(c, p). if b \<le> p \<and> p < b + ?m then (if c then shifted b (cz D (p - b)) else shifted b (cx D (p - b))) else fam C (c, p))
      (ofold ?body [0..<?m] C)"
  proof (rule qubit_loop [OF C])
    fix q C'
    assume q: "q < ?m" and C': "clifford_ok C'" "num_qubits C' = num_qubits C" "\<And>c. fam C' (c, b + q) = fam C (c, b + q)"
    obtain x z where x: "preimage_x_view D q = Some x" "fits ?m x" "dense_sem x = cx D q" and z: "preimage_z_view D q = Some z" "fits ?m z" "dense_sem z = cz D q"
      using key_view_run [OF D, of "(False, q)"] key_view_run [OF D, of "(True, q)"] q by (auto simp: key_view_def)
    have o: "poverlay b ?m V (fam C' (c, b + q)) = shifted b V" for c V
      using overlay_pone small [OF q] C'(3) by simp
    show "becomes C' ((fam C')((False, b + q) := shifted b (cx D q), (True, b + q) := shifted b (cz D q))) (?body q C')"
      using overlay_xz_run [OF C'(1), of "b + q" b ?m x z] q le C'(2) x z by (simp add: o)
  qed
  moreover have "(\<lambda>(c, p). if b \<le> p \<and> p < b + ?m then (if c then shifted b (cz D (p - b)) else shifted b (cx D (p - b))) else fam C (c, p)) = ?F"
    by (auto simp: fun_eq_iff)
  ultimately show ?thesis by simp
qed

lemma shifted_embed:
  assumes "q < n"
  shows "embed (\<lambda>i. b + i) m F (c, q) = (if b \<le> q \<and> q < b + m then shifted b (F (c, q - b)) else gen (c, q))"
proof (cases "b \<le> q \<and> q < b + m")
  case True
  then have lt: "q - b < m" and q: "b + (q - b) = q" by arith+
  have "inj_on (\<lambda>i. b + i) {..<m}" by (simp add: inj_on_def)
  from embed_in [OF this lt, of F c] show ?thesis unfolding q using True by (simp add: shifted_def)
next
  case False
  then have "q \<notin> (\<lambda>i. b + i) ` {..<m}" by auto
  then have "embed (\<lambda>i. b + i) m F (c, q) = gen (c, q)" by (rule embed_out)
  with False show ?thesis by argo
qed

lemma shift_ok: "inj_on (\<lambda>i. b + i) {..<m}" "b + m \<le> n \<Longrightarrow> (\<lambda>i. b + i) ` {..<m} \<subseteq> {..<n}" for b m n :: nat
  by (auto simp: inj_on_def)

lemma pperm_id: "pperm (\<lambda>i. i) P = P"
  by (simp add: pperm_def)

lemma shifted_0 [simp]: "shifted 0 P = P"
  by (simp add: shifted_def pperm_def)

text \<open>Two frames side by side.\<close>

lemma side_by_side:
  assumes L: "clifford_valid L" and R: "clifford_valid R" and T: "clifford_ok T" "num_qubits T = num_qubits L + num_qubits R"
    and F: "\<And>c q. q < num_qubits T \<Longrightarrow> fam T (c, q) = (if q < num_qubits L then fam L (c, q) else shifted (num_qubits L) (fam R (c, q - num_qubits L)))"
  shows "clifford_valid T" "pauli_on (num_qubits L) P \<Longrightarrow> cpre T P = cpre L P"
    "pauli_on (num_qubits R) Q \<Longrightarrow> cpre T (shifted (num_qubits L) Q) = shifted (num_qubits L) (cpre R Q)"
proof -
  let ?l = "num_qubits L" and ?r = "num_qubits R" and ?n = "num_qubits T"
  have fL: "frame ?l (fam L)" and fR: "frame ?r (fam R)" using L R by (simp_all add: clifford_valid_def)
  let ?G = "embed (\<lambda>i. 0 + i) ?l (fam L)" and ?H = "embed (\<lambda>i. ?l + i) ?r (fam R)"
  have sL: "inj_on (\<lambda>i. 0 + i) {..<?l}" "(\<lambda>i. 0 + i) ` {..<?l} \<subseteq> {..<?n}" by (rule shift_ok; simp add: T(2))+
  have sR: "inj_on (\<lambda>i. ?l + i) {..<?r}" "(\<lambda>i. ?l + i) ` {..<?r} \<subseteq> {..<?n}" by (rule shift_ok; simp add: T(2))+
  have G: "frame ?n ?G" by (rule embed_frame [OF sL fL])
  have H: "frame ?n ?H" by (rule embed_frame [OF sR fR])
  have onR: "pauli_on ?n (shifted ?l P)" if "pauli_on ?r P" for P unfolding shifted_def by (rule pperm_on [OF that sR(2)])
  have outG: "pre_of ?G (shifted ?l P) = shifted ?l P" if "pauli_on ?r P" for P
    by (rule embed_outside [OF onR [OF that]]) (auto simp: shifted_def pperm_def)
  have outH: "pre_of ?H P = P" if "pauli_on ?l P" for P
    by (rule embed_outside [of ?n]) (use that T(2) in \<open>auto simp: pauli_on_def\<close>)
  have inG: "pre_of ?G P = pre_of (fam L) P" if "pauli_on ?l P" for P
    using embed_inside [OF sL fL that] by (simp add: pperm_id)
  have fam: "fam T (c, q) = pre_of ?G (?H (c, q))" if q: "q < ?n" for c q
  proof (cases "q < ?l")
    case True
    then have "?H (c, q) = gen (c, q)" using shifted_embed [OF q, of ?l ?r "fam R" c] by simp
    moreover have "pre_of ?G (gen (c, q)) = ?G (c, q)" by (rule pre_gens [OF _ G]) (use q in simp)
    moreover have "?G (c, q) = fam L (c, q)" using shifted_embed [OF q, of 0 ?l "fam L" c] True by simp
    ultimately show ?thesis using F [OF q] True by simp
  next
    case False
    then have h: "?H (c, q) = shifted ?l (fam R (c, q - ?l))" using shifted_embed [OF q, of ?l ?r "fam R" c] q T(2) by simp
    have "pauli_on ?r (fam R (c, q - ?l))" by (rule fam_on [OF valid_ok [OF R]])
    then show ?thesis using outG F [OF q] False h by simp
  qed
  have s: "symplectic ?n (\<lambda>i. pre_of ?G (?H (False, i))) (\<lambda>i. pre_of ?G (?H (True, i)))"
    by (rule symplectic_frame.compose_frame [OF symplectic_frame.intro [OF G] H])
  moreover have "symplectic ?n (cx T) (cz T) = symplectic ?n (\<lambda>i. pre_of ?G (?H (False, i))) (\<lambda>i. pre_of ?G (?H (True, i)))"
    by (rule symplectic_cong) (simp_all add: fam)
  ultimately show v: "clifford_valid T" using T(1) by (simp add: clifford_valid_def)
  have pre: "cpre T P = pre_of ?G (pre_of ?H P)" if P: "pauli_on ?n P" for P
  proof -
    have "cpre T P = pre (cx T) (cz T) P" using cpre_eq [OF v] by simp
    also have "\<dots> = pre (\<lambda>i. pre_of ?G (?H (False, i))) (\<lambda>i. pre_of ?G (?H (True, i))) P"
      by (rule pre_cong [OF P]) (simp_all add: fam)
    finally show ?thesis using symplectic_frame.compose_pre [OF symplectic_frame.intro [OF G] H P] by simp
  qed
  show "cpre T P = cpre L P" if P: "pauli_on ?l P"
  proof -
    have "pauli_on ?n P" using P T(2) by (auto simp: pauli_on_def)
    then show ?thesis using pre outH [OF P] inG [OF P] cpre_eq [OF L] by simp
  qed
  show "cpre T (shifted ?l Q) = shifted ?l (cpre R Q)" if Q: "pauli_on ?r Q"
  proof -
    have "pre_of ?H (shifted ?l Q) = shifted ?l (pre_of (fam R) Q)" using embed_inside [OF sR fR Q] by (simp add: shifted_def)
    moreover have "pauli_on ?r (cpre R Q)" using clifford.pre_on [of R] Q by simp
    ultimately show ?thesis using pre [OF onR [OF Q]] outG cpre_eq [OF R] by simp
  qed
qed

lemma tensored_run:
  assumes L: "clifford_valid L" and R: "clifford_valid R"
  shows "\<exists>T. clifford_tensored L R = Some T \<and> clifford_valid T \<and> num_qubits T = num_qubits L + num_qubits R \<and>
    (\<forall>P. pauli_on (num_qubits L) P \<longrightarrow> cpre T P = cpre L P) \<and>
    (\<forall>Q. pauli_on (num_qubits R) Q \<longrightarrow> cpre T (shifted (num_qubits L) Q) = shifted (num_qubits L) (cpre R Q))"
proof -
  let ?l = "num_qubits L" and ?r = "num_qubits R"
  let ?z = "clifford_zero (?l + ?r)"
  note z = clifford_zero_ok [of "?l + ?r"]
  obtain A where A: "ofold (\<lambda>q C. do { v \<leftarrow> preimage_x_view L q; C \<leftarrow> preimage_x_view_mut (0 + q) (pauli_assign_with_offset dense_ops v 0 ?l) C;
       v \<leftarrow> preimage_z_view L q; preimage_z_view_mut (0 + q) (pauli_assign_with_offset dense_ops v 0 ?l) C }) [0..<?l] ?z = Some A"
      "clifford_ok A" "num_qubits A = ?l + ?r"
      "fam A = (\<lambda>(c, p). if 0 \<le> p \<and> p < 0 + ?l then shifted 0 (fam L (c, p - 0)) else fam ?z (c, p))"
    using place_run [OF z(1) valid_ok [OF L], of 0] z(2,3) by (auto simp: pone_def elim!: becomesE)
  obtain T where T: "ofold (\<lambda>q C. do { v \<leftarrow> preimage_x_view R q; C \<leftarrow> preimage_x_view_mut (?l + q) (pauli_assign_with_offset dense_ops v ?l ?r) C;
       v \<leftarrow> preimage_z_view R q; preimage_z_view_mut (?l + q) (pauli_assign_with_offset dense_ops v ?l ?r) C }) [0..<?r] A = Some T"
      "clifford_ok T" "num_qubits T = num_qubits A"
      "fam T = (\<lambda>(c, p). if ?l \<le> p \<and> p < ?l + ?r then shifted ?l (fam R (c, p - ?l)) else fam A (c, p))"
    using place_run [OF A(2) valid_ok [OF R], of ?l] z(3) A(3,4) by (auto simp: pone_def elim!: becomesE)
  have n: "num_qubits T = ?l + ?r" using T(3) A(3) by simp
  have F: "fam T (c, q) = (if q < ?l then fam L (c, q) else shifted ?l (fam R (c, q - ?l)))" if "q < num_qubits T" for c q
    using that by (simp add: T(4) A(4) n)
  note S = side_by_side [OF L R T(2) n F]
  have "clifford_tensored L R = Some T"
    using A(1) T(1) is_valid_run [OF T(2)] S(1) by (simp add: clifford_tensored_def clifford_valid_def)
  with S n show ?thesis by blast
qed

lemma tensored_identity_run:
  assumes L: "clifford_valid L"
  shows "\<exists>T. clifford_tensored_with_identity L r = Some T \<and> clifford_valid T \<and> num_qubits T = num_qubits L + r \<and>
    (\<forall>P. pauli_on (num_qubits L) P \<longrightarrow> cpre T P = cpre L P) \<and>
    (\<forall>c q. num_qubits L \<le> q \<and> q < num_qubits L + r \<longrightarrow> fam T (c, q) = gen (c, q))"
proof -
  let ?l = "num_qubits L"
  obtain I where I: "clifford_identity (?l + r) = Some I" "clifford_valid I" "num_qubits I = ?l + r"
      "\<And>key. fam I key = (if snd key < ?l + r then gen key else pone)" using clifford_identity_run by blast
  obtain R where R: "clifford_valid R" "num_qubits R = r" "\<And>key. fam R key = (if snd key < r then gen key else pone)"
    using clifford_identity_run [of r] by blast
  have small: "fst (fam I (c, 0 + i)) \<subseteq> {0..<0 + ?l} \<and> fst (snd (fam I (c, 0 + i))) \<subseteq> {0..<0 + ?l}" if "i < ?l" for c i
    using that by (cases c) (auto simp: I(4) xop_def zop_def)
  obtain T where T: "ofold (\<lambda>q C. do { v \<leftarrow> preimage_x_view L q; C \<leftarrow> preimage_x_view_mut (0 + q) (pauli_assign_with_offset dense_ops v 0 ?l) C;
       v \<leftarrow> preimage_z_view L q; preimage_z_view_mut (0 + q) (pauli_assign_with_offset dense_ops v 0 ?l) C }) [0..<?l] I = Some T"
      "clifford_ok T" "num_qubits T = ?l + r"
      "fam T = (\<lambda>(c, p). if 0 \<le> p \<and> p < 0 + ?l then shifted 0 (fam L (c, p - 0)) else fam I (c, p))"
    using place_run [OF valid_ok [OF I(2)] valid_ok [OF L] _ small] I(3) by (auto elim!: becomesE)
  have sh: "shifted ?l (gen (c, i)) = gen (c, ?l + i)" for c i by (simp add: shifted_def pperm_gen)
  have F: "fam T (c, q) = (if q < ?l then fam L (c, q) else shifted ?l (fam R (c, q - ?l)))" if "q < num_qubits T" for c q
  proof (cases "q < ?l")
    case False
    then have "q - ?l < r" "?l + (q - ?l) = q" using that T(3) by arith+
    then have "shifted ?l (fam R (c, q - ?l)) = gen (c, q)" using R(3) [of "(c, q - ?l)"] sh [of c "q - ?l"] by simp
    with False that show ?thesis by (simp add: T(3,4) I(4))
  qed (simp add: T(4))
  have n: "num_qubits T = ?l + num_qubits R" using T(3) R(2) by simp
  note S = side_by_side [OF L R(1) T(2) n F]
  have "clifford_tensored_with_identity L r = Some T"
    using I(1) T(1) is_valid_run [OF T(2)] S(1) by (simp add: clifford_tensored_with_identity_def clifford_valid_def)
  moreover have "fam T (c, q) = gen (c, q)" if "?l \<le> q \<and> q < ?l + r" for c q using that by (simp add: T(4) I(4))
  ultimately show ?thesis using S T(3) by blast
qed

text \<open>Assigning a wider operator keeps the bits that fit.\<close>

lemma slice_assign_take: "slice_pair_assign f as bs = slice_pair_assign f as (take (length as) bs)"
  by (induction f as bs rule: slice_pair_assign.induct) simp_all

definition narrow :: "nat \<Rightarrow> bitblock list pauli_unitary \<Rightarrow> bitblock list pauli_unitary" where
  "narrow k v = v\<lparr>projective := \<lparr> x_bits = take k (px v), z_bits = take k (pz v) \<rparr>\<rparr>"

lemma narrow_sel [simp]: "px (narrow k v) = take k (px v)" "pz (narrow k v) = take k (pz v)" "xz_phase_exp (narrow k v) = xz_phase_exp v"
    "xz_phase_exponent (narrow k v) = xz_phase_exponent v"
  by (simp_all add: narrow_def xz_phase_exponent_def)

lemma assign_narrow: "length (px p) = k \<Longrightarrow> length (pz p) = k \<Longrightarrow> pauli_assign dense_ops v p = pauli_assign dense_ops (narrow k v) p"
  using slice_assign_take [of block_assign "px p" "px v"] slice_assign_take [of block_assign "pz p" "pz v"]
  by (simp add: pauli_assign_def assign_bits_def dense_ops_def blocks_assign_def narrow_def xz_phase_exponent_def)

lemma blocks_bit_take: "k \<le> length bs \<Longrightarrow> blocks_bit (take k bs) i \<longleftrightarrow> i < k * 512 \<and> blocks_bit bs i"
  by (auto simp: blocks_bit_def lift_bit_def less_mult_imp_div_less)

lemma rowstride_mono: "n \<le> m \<Longrightarrow> rowstride_of n \<le> rowstride_of m"
  unfolding rowstride_block_count using block_count_bounds [of n] block_count_bounds [of m] by linarith

lemma narrow_fits:
  assumes v: "fits m v" and on: "pauli_on n (dense_sem v)" and le: "n \<le> m"
  shows "fits n (narrow (rowstride_of n) v)" "dense_sem (narrow (rowstride_of n) v) = dense_sem v"
proof -
  let ?k = "rowstride_of n"
  have len: "length (px v) = rowstride_of m" "length (pz v) = rowstride_of m" "blocks_ok (px v)" "blocks_ok (pz v)"
    using v by (simp_all add: fits_def pauli_ok_def)
  have k: "?k \<le> rowstride_of m" by (rule rowstride_mono [OF le])
  have n: "n \<le> ?k * 512" using block_count_ge [of n] by (simp add: rowstride_block_count)
  have b: "dense_bits (take ?k (px v)) = dense_bits (px v)" "dense_bits (take ?k (pz v)) = dense_bits (pz v)"
    using on n k len by (auto simp: blocks_bit_take pauli_on_def psem_def)
  show s: "dense_sem (narrow ?k v) = dense_sem v" by (simp add: psem_def b)
  have "blocks_ok (take ?k (px v))" "blocks_ok (take ?k (pz v))" using len(3,4) set_take_subset [of ?k "px v"] set_take_subset [of ?k "pz v"]
    by (auto simp: blocks_ok_def all_blocks_def subset_iff)
  then show "fits n (narrow ?k v)" using s on len k by (simp add: fits_def pauli_ok_def)
qed

lemma assign_wide:
  assumes "fits n p" "fits m v" "pauli_on n (dense_sem v)" "n \<le> m"
  shows "fits n (pauli_assign dense_ops v p)" "dense_sem (pauli_assign dense_ops v p) = dense_sem v"
proof -
  have "length (px p) = rowstride_of n" "length (pz p) = rowstride_of n" using assms(1) by (simp_all add: fits_def pauli_ok_def)
  then have "pauli_assign dense_ops v p = pauli_assign dense_ops (narrow (rowstride_of n) v) p" by (rule assign_narrow)
  then show "fits n (pauli_assign dense_ops v p)" "dense_sem (pauli_assign dense_ops v p) = dense_sem v"
    using fits_assign [OF assms(1) narrow_fits(1) [OF assms(2-4)]] narrow_fits(2) [OF assms(2-4)] by simp_all
qed

text \<open>A qubit whose preimages are its generators is not touched by the preimages of the others.\<close>

definition idle :: "clifford_unitary \<Rightarrow> nat \<Rightarrow> bool" where
  "idle C q \<longleftrightarrow> cx C q = xop q \<and> cz C q = zop q"

lemma idle_support:
  assumes v: "clifford_valid C" and n: "n \<le> num_qubits C" and idle: "\<And>q. n \<le> q \<Longrightarrow> q < num_qubits C \<Longrightarrow> idle C q"
    and q: "q < n"
  shows "pauli_on n (fam C (c, q))"
proof -
  have F: "frame (num_qubits C) (fam C)" using v by (simp add: clifford_valid_def)
  note K = F [unfolded frame_keys, rule_format]
  have on: "pauli_on (num_qubits C) (fam C (c, q))" using K [of "(c, q)"] q n by simp
  have "\<not> panti (gen (d, j)) (fam C (c, q))" if j: "n \<le> j" "j < num_qubits C" for d j
  proof -
    have "panti (fam C (d, j)) (fam C (c, q)) = panti (gen (d, j)) (gen (c, q))" using K [of "(d, j)"] j q n by simp
    moreover have "fam C (d, j) = gen (d, j)" using idle [OF j] by (cases d) (simp_all add: idle_def)
    ultimately show ?thesis using q j by (simp add: panti_gen)
  qed
  then have "j \<notin> fst (fam C (c, q)) \<and> j \<notin> fst (snd (fam C (c, q)))" if "n \<le> j" "j < num_qubits C" for j
    using that unfolding gen_anti by (metis (full_types))
  with on show ?thesis unfolding pauli_on_def subset_iff lessThan_iff by (meson linorder_not_le)
qed

lemma idle_check_run:
  assumes ok: "clifford_ok C" and n: "n \<le> num_qubits C"
  shows "ofold (\<lambda>q _. do { x \<leftarrow> preimage_x_view C q; b \<leftarrow> is_pauli_x dense_ops x q; guard_opt b;
      z \<leftarrow> preimage_z_view C q; b \<leftarrow> is_pauli_z dense_ops z q; guard_opt b }) [n..<num_qubits C] () =
    (if \<forall>q. n \<le> q \<and> q < num_qubits C \<longrightarrow> idle C q then Some () else None)" (is "ofold ?body _ _ = _")
proof -
  have one: "?body q () = (if idle C q then Some () else None)" if q: "q < num_qubits C" for q
  proof -
    obtain x z where "preimage_x_view C q = Some x" "fits (num_qubits C) x" "dense_sem x = cx C q"
        "preimage_z_view C q = Some z" "fits (num_qubits C) z" "dense_sem z = cz C q"
      using key_view_run [OF ok, of "(False, q)"] key_view_run [OF ok, of "(True, q)"] q by (auto simp: key_view_def)
    then show ?thesis using fits_is_pauli q by (simp add: idle_def guard_opt_def)
  qed
  have run: "ofold ?body xs () = (if \<forall>q \<in> set xs. idle C q then Some () else None)" if "set xs \<subseteq> {..<num_qubits C}" for xs
    using that
  proof (induction xs)
    case (Cons q xs)
    then show ?case using one [of q] by (simp del: One_nat_def)
  qed simp
  have "set [n..<num_qubits C] \<subseteq> {..<num_qubits C}" by auto
  moreover have "(\<forall>q \<in> set [n..<num_qubits C]. idle C q) \<longleftrightarrow> (\<forall>q. n \<le> q \<and> q < num_qubits C \<longrightarrow> idle C q)" by auto
  ultimately show ?thesis using run [of "[n..<num_qubits C]"] by (simp only:)
qed

lemma shrink_run:
  assumes v: "clifford_valid C" and n: "n < num_qubits C"
  shows "if \<forall>q. n \<le> q \<and> q < num_qubits C \<longrightarrow> idle C q
    then \<exists>S. shrink_clifford C n = Some S \<and> clifford_valid S \<and> num_qubits S = n \<and> (\<forall>c q. q < n \<longrightarrow> fam S (c, q) = fam C (c, q))
    else shrink_clifford C n = None"
proof (cases "\<forall>q. n \<le> q \<and> q < num_qubits C \<longrightarrow> idle C q")
  case False
  have "shrink_clifford C n = None"
    unfolding shrink_clifford_def idle_check_run [OF valid_ok [OF v] less_imp_le [OF n]] if_not_P [OF False] by (simp add: n)
  then show ?thesis unfolding if_not_P [OF False] .
next
  case True
  note okC = valid_ok [OF v]
  obtain I where I: "clifford_identity n = Some I" "clifford_valid I" "num_qubits I = n" using clifford_identity_run by blast
  let ?body = "\<lambda>q D. do { x \<leftarrow> preimage_x_view C q; D \<leftarrow> preimage_x_view_mut q (assign_view x) D;
     z \<leftarrow> preimage_z_view C q; preimage_z_view_mut q (assign_view z) D }"
  have "becomes I (\<lambda>(c, p). if p < n then (if c then cz C p else cx C p) else fam I (c, p)) (ofold ?body [0..<n] I)"
  proof (rule qubit_loop0 [OF valid_ok [OF I(2)]])
    fix q D
    assume q: "q < n" and D: "clifford_ok D" "num_qubits D = num_qubits I"
    obtain x z where x: "preimage_x_view C q = Some x" "fits (num_qubits C) x" "dense_sem x = cx C q"
        and z: "preimage_z_view C q = Some z" "fits (num_qubits C) z" "dense_sem z = cz C q"
      using key_view_run [OF okC, of "(False, q)"] key_view_run [OF okC, of "(True, q)"] q n by (auto simp: key_view_def)
    have on: "pauli_on n (dense_sem x)" "pauli_on n (dense_sem z)"
      unfolding x(3) z(3) by (rule idle_support [OF v less_imp_le [OF n] _ q]; use True in simp)+
    have wx: "fits n (pauli_assign dense_ops x p) \<and> dense_sem (pauli_assign dense_ops x p) = cx C q"
      and wz: "fits n (pauli_assign dense_ops z p) \<and> dense_sem (pauli_assign dense_ops z p) = cz C q" if "fits n p" for p
      using assign_wide [OF that x(2) on(1)] assign_wide [OF that z(2) on(2)] n x(3) z(3) by simp_all
    have nD: "num_qubits D = n" using D(2) I(3) by simp
    have "becomes D ((fam D)((False, q) := cx C q, (True, q) := cz C q))
        (do { D \<leftarrow> key_view_mut (False, q) (assign_view x) D; key_view_mut (True, q) (assign_view z) D })"
    proof (rule becomes_bind)
      show "becomes D ((fam D)((False, q) := cx C q)) (key_view_mut (False, q) (assign_view x) D)"
        by (rule key_view_mut_run [OF D(1)]) (use wx q nD in \<open>auto simp: assign_view_def\<close>)
      fix E
      assume E: "clifford_ok E" "num_qubits E = num_qubits D" "fam E = (fam D)((False, q) := cx C q)"
      have "becomes E ((fam E)((True, q) := cz C q)) (key_view_mut (True, q) (assign_view z) E)"
        by (rule key_view_mut_run [OF E(1)]) (use wz q nD E(2) in \<open>auto simp: assign_view_def\<close>)
      then show "becomes E ((fam D)((False, q) := cx C q, (True, q) := cz C q)) (key_view_mut (True, q) (assign_view z) E)"
        by (simp only: E(3))
    qed
    then show "becomes D ((fam D)((False, q) := cx C q, (True, q) := cz C q)) (?body q D)"
      using x(1) z(1) by (simp add: key_view_mut_def)
  qed
  then obtain S where S: "ofold ?body [0..<n] I = Some S" "clifford_ok S" "num_qubits S = n"
      "fam S = (\<lambda>(c, p). if p < n then (if c then cz C p else cx C p) else fam I (c, p))"
    using I(3) by (auto elim: becomesE)
  have fam: "fam S (c, q) = fam C (c, q)" if "q < n" for c q using that by (cases c) (simp_all add: S(4))
  have sup: "pauli_on n (fam C (c, q))" if "q < n" for c q
    by (rule idle_support [OF v less_imp_le [OF n] _ that]) (use True in simp)
  have K: "frame (num_qubits C) (fam C)" using v by (simp add: clifford_valid_def)
  have "frame n (fam S)"
    using K n sup fam unfolding symplectic_def by simp
  then have "clifford_valid S" using S(2,3) by (simp add: clifford_valid_def)
  moreover have "shrink_clifford C n = Some S"
    unfolding shrink_clifford_def idle_check_run [OF okC less_imp_le [OF n]] if_P [OF True] using n I(1) S(1) by simp
  ultimately show ?thesis unfolding if_P [OF True] using S(3) fam by blast
qed

lemma cpre_same_frame:
  assumes "clifford_valid C" "clifford_valid D" "pauli_on n P" "\<And>c q. q < n \<Longrightarrow> fam C (c, q) = fam D (c, q)"
  shows "cpre C P = cpre D P"
  using pre_cong [OF assms(3), of "cx C" "cx D" "cz C" "cz D"] assms(4) cpre_eq [OF assms(1)] cpre_eq [OF assms(2)] by simp

end
