(* ===== verification/Clifford_Laws.thy ===== *)
theory Clifford_Laws
  imports Clifford_Embedding
begin

text \<open>
  The laws of Clifford unitaries: circuits refine their operators, gates keep the representation valid, images
  undo preimages, products and inverses compose, constructors accept exactly the valid lists of preimages, and
  exponentials and controlled operators act as the operators they are named after.
\<close>

section \<open>Circuits and gates\<close>

lemma circuit_preimages_run:
  assumes fit: "circuit_fits n gs"
  shows "\<exists>I C. clifford_identity n = Some I \<and> run_gates gs I = Some C \<and> is_valid_clifford C = Some True \<and> num_qubits C = n \<and>
    (\<forall>p. fits n p \<longrightarrow> (\<exists>r. clifford_preimage dense_ops C p = Some r \<and> fits n r \<and>
       (\<forall>Q. pauli_on n Q \<longrightarrow> (Q = dense_sem r \<longleftrightarrow>
          (\<forall>\<psi>. pauli_amp (dense_sem p) (circuit_amp gs \<psi>) = circuit_amp gs (pauli_amp Q \<psi>))))))"
proof -
  obtain I where I: "clifford_identity n = Some I" "clifford_valid I" "num_qubits I = n"
      "\<And>key. fam I key = (if snd key < n then gen key else pone)" using clifford_identity_run by blast
  obtain C where C: "run_gates gs I = Some C" "clifford_valid C" "num_qubits C = n"
      and pre: "\<And>p. fits n p \<Longrightarrow> \<exists>r. clifford_preimage dense_ops C p = Some r \<and> fits n r \<and> dense_sem r = circuit_conj gs (dense_sem p)"
    using run_gates_preimage [OF I(2), of gs] fit I(3,4) by auto
  have u: "Q = circuit_conj gs P \<longleftrightarrow> (\<forall>\<psi>. pauli_amp P (circuit_amp gs \<psi>) = circuit_amp gs (pauli_amp Q \<psi>))"
    if P: "pauli_on n P" and Q: "pauli_on n Q" for P Q
  proof -
    have c: "pauli_amp P (circuit_amp gs \<psi>) = circuit_amp gs (pauli_amp (circuit_conj gs P) \<psi>)" for \<psi>
      by (rule conjugatesD [OF circuit_conjugates [OF fit] P])
    have "(\<forall>\<psi>. circuit_amp gs (pauli_amp (circuit_conj gs P) \<psi>) = circuit_amp gs (pauli_amp Q \<psi>)) \<longleftrightarrow>
        pauli_amp (circuit_conj gs P) = pauli_amp Q"
      unfolding inj_eq [OF circuit_amp_inj [OF fit]] by (simp add: fun_eq_iff [of "pauli_amp _"])
    also have "\<dots> \<longleftrightarrow> Q = circuit_conj gs P"
      using pauli_amp_inject [of "circuit_conj gs P" Q] pauli_on_finite [OF Q]
        pauli_on_finite [OF automorphismD(1) [OF circuit_conj_automorphism [OF fit] P]] by blast
    finally show ?thesis unfolding c by simp
  qed
  have "is_valid_clifford C = Some True"
    using is_valid_run [OF valid_ok [OF C(2)]] C(2) by (simp add: clifford_valid_def)
  moreover have "\<exists>r. clifford_preimage dense_ops C p = Some r \<and> fits n r \<and> (\<forall>Q. pauli_on n Q \<longrightarrow> (Q = dense_sem r \<longleftrightarrow>
          (\<forall>\<psi>. pauli_amp (dense_sem p) (circuit_amp gs \<psi>) = circuit_amp gs (pauli_amp Q \<psi>))))" if p: "fits n p" for p
  proof -
    have on: "pauli_on n (dense_sem p)" using p by (simp add: fits_def)
    obtain r where r: "clifford_preimage dense_ops C p = Some r" "fits n r" "dense_sem r = circuit_conj gs (dense_sem p)"
      using pre [OF p] by blast
    have "\<forall>Q. pauli_on n Q \<longrightarrow> (Q = dense_sem r \<longleftrightarrow>
        (\<forall>\<psi>. pauli_amp (dense_sem p) (circuit_amp gs \<psi>) = circuit_amp gs (pauli_amp Q \<psi>)))"
      unfolding r(3) by (intro allI impI u [OF on])
    with r(1,2) show ?thesis by (intro exI [of _ r] conjI)
  qed
  ultimately show ?thesis using I(1) C(1,3) by blast
qed

text \<open>C8. Starting from the identity, a circuit of the library's gates always runs and ends in a valid Clifford unitary, and
  the preimage it computes of an operator \<open>p\<close> is the one operator whose effect before the circuit is that of \<open>p\<close> after
  it, on every state vector.\<close>

theorem circuit_preimages:
  assumes "circuit_fits n gs"
  shows "\<exists>I C. clifford_identity n = Some I \<and> run_gates gs I = Some C \<and> is_valid_clifford C = Some True \<and> num_qubits C = n \<and>
    (\<forall>p. fits n p \<longrightarrow> (\<exists>r. clifford_preimage dense_ops C p = Some r \<and> fits n r \<and>
       (\<forall>Q. pauli_on n Q \<longrightarrow> (Q = dense_sem r \<longleftrightarrow>
          (\<forall>\<psi>. pauli_amp (dense_sem p) (circuit_amp gs \<psi>) = circuit_amp gs (pauli_amp Q \<psi>))))))"
  using assms by (rule circuit_preimages_run)

definition bell_circuit :: circuit where
  "bell_circuit = [(Hadamard, [0]), (ControlledX, [0, 1])]"

lemma circuit_preimages_witness:
  "\<exists>C. Option.bind (clifford_identity 2) (run_gates bell_circuit) = Some C \<and> is_valid_clifford C = Some True \<and> num_qubits C = 2"
proof -
  have "circuit_fits 2 bell_circuit" by (simp add: bell_circuit_def gate_fits_def gate_arity_def)
  from circuit_preimages [OF this] show ?thesis by auto
qed

text \<open>C13. Every gate runs on every valid Clifford unitary whose qubits it names, keeps the number of qubits and the
  well-formedness of the tableau, and passes the library's own validity check.\<close>

theorem left_mul_keeps_valid:
  assumes "clifford_valid C" "gate_fits (num_qubits C) op support"
  shows "\<exists>C'. left_mul op support C = Some C' \<and> clifford_valid C' \<and> num_qubits C' = num_qubits C \<and> is_valid_clifford C' = Some True"
proof (rule actsE [OF left_mul_acts [OF assms]])
  fix C'
  assume C': "left_mul op support C = Some C'" "clifford_valid C'" "num_qubits C' = num_qubits C"
  then have "is_valid_clifford C' = Some True" using is_valid_run [OF valid_ok [OF C'(2)]] by (simp add: clifford_valid_def)
  with C' show ?thesis by blast
qed

lemma identity_exists: "\<exists>C. clifford_identity n = Some C \<and> clifford_valid C \<and> num_qubits C = n"
  using clifford_identity_run by blast

lemma dense_gen: "snd key < n \<Longrightarrow> \<exists>p. fits n p \<and> dense_sem p = gen key"
proof -
  assume k: "snd key < n"
  obtain C where C: "clifford_valid C" "num_qubits C = n" "\<And>key. fam C key = (if snd key < n then gen key else pone)"
    using clifford_identity_run by blast
  then show ?thesis using key_view_run [OF valid_ok [OF C(1)], of key] k by auto
qed

lemma left_mul_keeps_valid_witness: "\<exists>C C'. clifford_identity 3 = Some C \<and> left_mul Swap [0, 2] C = Some C' \<and> is_valid_clifford C' = Some True"
proof -
  obtain C where C: "clifford_identity 3 = Some C" "clifford_valid C" "num_qubits C = 3" using identity_exists by blast
  have "gate_fits (num_qubits C) Swap [0, 2]" by (simp add: C(3) gate_fits_def gate_arity_def)
  from left_mul_keeps_valid [OF C(2) this] C(1) show ?thesis by blast
qed

section \<open>Preimages and images\<close>

text \<open>C9. The image of an operator under a valid Clifford unitary is computed from the stored preimages alone, and is a
  two-sided inverse of the preimage: image then preimage, and preimage then image, give back the operator with its phase.\<close>

theorem image_preimage_inverse:
  assumes v: "clifford_valid C" and n: "0 < num_qubits C" and p: "fits (num_qubits C) p"
  shows "(\<exists>r s. clifford_image dense_ops C p = Some r \<and> clifford_preimage dense_ops C r = Some s \<and> dense_sem s = dense_sem p) \<and>
    (\<exists>r s. clifford_preimage dense_ops C p = Some r \<and> clifford_image dense_ops C r = Some s \<and> dense_sem s = dense_sem p)"
proof
  have im: "\<exists>r. clifford_image dense_ops C q = Some r \<and> fits (num_qubits C) r \<and> cpre C (dense_sem r) = dense_sem q"
    if "fits (num_qubits C) q" for q
    using dense.image_run [OF v n, of q] that by (simp add: fits_def)
  obtain r where r: "clifford_image dense_ops C p = Some r" "fits (num_qubits C) r" "cpre C (dense_sem r) = dense_sem p"
    using im [OF p] by blast
  then show "\<exists>r s. clifford_image dense_ops C p = Some r \<and> clifford_preimage dense_ops C r = Some s \<and> dense_sem s = dense_sem p"
    using dense_preimage_run [OF v r(2)] by auto
  obtain r where r: "clifford_preimage dense_ops C p = Some r" "fits (num_qubits C) r" "dense_sem r = cpre C (dense_sem p)"
    using dense_preimage_run [OF v p] by blast
  obtain s where s: "clifford_image dense_ops C r = Some s" "fits (num_qubits C) s" "cpre C (dense_sem s) = dense_sem r"
    using im [OF r(2)] by blast
  have "dense_sem s = dense_sem p"
    using clifford.pre_inject [of C "dense_sem s" "dense_sem p"] s(2,3) r(3) p by (simp add: fits_def)
  with r(1) s(1) show "\<exists>r s. clifford_preimage dense_ops C p = Some r \<and> clifford_image dense_ops C r = Some s \<and> dense_sem s = dense_sem p"
    by blast
qed

lemma image_preimage_inverse_witness:
  "\<exists>C p r s. clifford_identity 2 = Some C \<and> dense_sem p = zop 1 \<and> clifford_image dense_ops C p = Some r \<and>
     clifford_preimage dense_ops C r = Some s \<and> dense_sem s = zop 1"
proof -
  obtain C where C: "clifford_identity 2 = Some C" "clifford_valid C" "num_qubits C = 2" using identity_exists by blast
  obtain p where p: "fits 2 p" "dense_sem p = zop 1" using dense_gen [of "(True, 1)" 2] by auto
  from image_preimage_inverse [OF C(2), of p] C p show ?thesis by auto
qed

section \<open>Products and inverses\<close>

text \<open>C11. The product of two valid Clifford unitaries of equal size exists, is valid, and its preimage of an operator is the
  right factor's preimage of the left factor's, phases included.\<close>

theorem multiply_preimage:
  assumes L: "clifford_valid L" and R: "clifford_valid R" and n: "num_qubits L = num_qubits R" and p: "fits (num_qubits R) p"
  shows "\<exists>C q r r'. clifford_multiply_with L R = Some C \<and> clifford_valid C \<and> clifford_preimage dense_ops C p = Some r' \<and>
    clifford_preimage dense_ops L p = Some q \<and> clifford_preimage dense_ops R q = Some r \<and> dense_sem r' = dense_sem r"
proof (rule actsE [OF multiply_run [OF L R n]])
  fix C
  assume C: "clifford_multiply_with L R = Some C" "clifford_valid C" "num_qubits C = num_qubits R"
    and pre: "\<And>P. pauli_on (num_qubits R) P \<Longrightarrow> cpre C P = cpre R (cpre L P)"
  have pL: "fits (num_qubits L) p" and pC: "fits (num_qubits C) p" using p n C(3) by simp_all
  obtain q where q: "clifford_preimage dense_ops L p = Some q" "fits (num_qubits R) q" "dense_sem q = cpre L (dense_sem p)"
    using dense_preimage_run [OF L pL] n by auto
  obtain r where r: "clifford_preimage dense_ops R q = Some r" "dense_sem r = cpre R (dense_sem q)"
    using dense_preimage_run [OF R q(2)] by blast
  obtain r' where r': "clifford_preimage dense_ops C p = Some r'" "dense_sem r' = cpre C (dense_sem p)"
    using dense_preimage_run [OF C(2) pC] by blast
  have "dense_sem r' = dense_sem r" using r'(2) r(2) q(3) pre [of "dense_sem p"] p by (simp add: fits_def)
  with C(1,2) q(1) r(1) r'(1) show ?thesis by blast
qed

lemma multiply_preimage_witness:
  "\<exists>I p C r. clifford_identity 2 = Some I \<and> dense_sem p = xop 1 \<and> clifford_multiply_with I I = Some C \<and> clifford_valid C \<and>
     clifford_preimage dense_ops C p = Some r"
proof -
  obtain I where I: "clifford_identity 2 = Some I" "clifford_valid I" "num_qubits I = 2" using identity_exists by blast
  obtain p where p: "fits 2 p" "dense_sem p = xop 1" using dense_gen [of "(False, 1)" 2] by auto
  from multiply_preimage [OF I(2,2) refl, of p] I p show ?thesis by auto
qed

lemma acts_identity:
  assumes "clifford_valid C" "\<And>P. pauli_on (num_qubits C) P \<Longrightarrow> cpre C P = P"
  shows "clifford_is_identity C = Some True"
proof -
  have "fam C key = gen key" if "snd key < num_qubits C" for key
    using cpre_gen [OF assms(1) that] assms(2) [of "gen key"] that by simp
  from this [of "(False, _)"] this [of "(True, _)"] show ?thesis by (simp add: is_identity_run [OF valid_ok [OF assms(1)]])
qed

text \<open>C10. Every valid Clifford unitary has an inverse: \<open>inverse\<close> returns a valid one of the same size, and the library's
  products with it, in both orders, are recognised by the library as the identity.\<close>

theorem inverse_multiplies_to_identity:
  assumes v: "clifford_valid C"
  shows "\<exists>D I J. clifford_inverse C = Some D \<and> clifford_valid D \<and> num_qubits D = num_qubits C \<and>
    clifford_multiply_with C D = Some I \<and> clifford_is_identity I = Some True \<and>
    clifford_multiply_with D C = Some J \<and> clifford_is_identity J = Some True"
proof -
  obtain D where D: "clifford_inverse C = Some D" "clifford_valid D" "num_qubits D = num_qubits C"
      "\<And>P. pauli_on (num_qubits C) P \<Longrightarrow> cpre C (cpre D P) = P \<and> cpre D (cpre C P) = P" using inverse_run [OF v] by blast
  obtain I where I: "clifford_multiply_with C D = Some I" "clifford_valid I" "num_qubits I = num_qubits D"
      "\<And>P. pauli_on (num_qubits D) P \<Longrightarrow> cpre I P = cpre D (cpre C P)" by (rule actsE [OF multiply_run [OF v D(2) D(3) [symmetric]]]) blast
  obtain J where J: "clifford_multiply_with D C = Some J" "clifford_valid J" "num_qubits J = num_qubits C"
      "\<And>P. pauli_on (num_qubits C) P \<Longrightarrow> cpre J P = cpre C (cpre D P)" by (rule actsE [OF multiply_run [OF D(2) v D(3)]]) blast
  have "clifford_is_identity I = Some True" by (rule acts_identity [OF I(2)]) (simp add: I(3,4) D(3,4))
  moreover have "clifford_is_identity J = Some True" by (rule acts_identity [OF J(2)]) (simp add: J(3,4) D(4))
  ultimately show ?thesis using D(1-3) I(1) J(1) by blast
qed

lemma inverse_multiplies_to_identity_witness:
  "\<exists>C D I. clifford_identity 2 = Some C \<and> clifford_inverse C = Some D \<and> clifford_multiply_with C D = Some I \<and> clifford_is_identity I = Some True"
proof -
  obtain C where C: "clifford_identity 2 = Some C" "clifford_valid C" using identity_exists by blast
  from inverse_multiplies_to_identity [OF C(2)] C(1) show ?thesis by blast
qed

section \<open>Constructors\<close>

text \<open>C12. \<open>from_preimages\<close> accepts exactly the lists that satisfy the commutation relations of the generators: it returns a
  valid Clifford unitary with these preimages, and panics on every other list of the right shape.\<close>

theorem from_preimages_checked:
  assumes "length ps = 2 * n" "\<forall>p \<in> set ps. fits n p"
  shows "if symplectic n (\<lambda>q. dense_sem (ps ! (2 * q))) (\<lambda>q. dense_sem (ps ! (2 * q + 1)))
    then \<exists>C. clifford_from_preimages ps = Some C \<and> clifford_valid C \<and> num_qubits C = n \<and>
       (\<forall>q < n. cx C q = dense_sem (ps ! (2 * q)) \<and> cz C q = dense_sem (ps ! (2 * q + 1)))
    else clifford_from_preimages ps = None"
proof -
  have f: "fits n p" if "p \<in> set ps" for p using assms(2) that by blast
  show ?thesis using from_preimages_run [OF assms(1) f] by presburger
qed

lemma from_preimages_checked_witness:
  "clifford_from_preimages [pauli_neutral_element_of_size dense_ops 1, pauli_neutral_element_of_size dense_ops 1] = None"
proof -
  let ?ps = "[pauli_neutral_element_of_size dense_ops 1, pauli_neutral_element_of_size dense_ops 1]"
  have "\<not> symplectic 1 (\<lambda>q. dense_sem (?ps ! (2 * q))) (\<lambda>q. dense_sem (?ps ! (2 * q + 1)))"
    by (simp add: symplectic_def fits_neutral)
  with from_preimages_checked [of ?ps 1] show ?thesis by (simp add: fits_neutral)
qed

section \<open>Exponentials and controlled operators\<close>

definition exp_amp :: "pauli_op \<Rightarrow> amps \<Rightarrow> amps" where
  "exp_amp E \<psi> = (\<lambda>s. (\<psi> s + \<i> * pauli_amp E \<psi> s) / sqrt 2)"

definition controlled_amp :: "pauli_op \<Rightarrow> pauli_op \<Rightarrow> amps \<Rightarrow> amps" where
  "controlled_amp E F \<psi> = (\<lambda>s. (\<psi> s + pauli_amp E \<psi> s + pauli_amp F \<psi> s - pauli_amp E (pauli_amp F \<psi>) s) / 2)"

lemma conjugates_exp:
  assumes "pinv_on n E"
  shows "conjugates n (exp_amp E) (pexp (pphase 2 E))"
proof (rule conjugates_scale [OF conjugates_root_inverse [OF assms]])
  fix \<psi>
  have "complex_of_real (sqrt 2) * complex_of_real (sqrt 2) = 2" by (simp flip: of_real_mult)
  then show "exp_amp E \<psi> = (\<lambda>s. (1 + \<i>) / sqrt 2 * root_amp (-\<i>) E \<psi> s)"
    by (simp add: exp_amp_def root_amp_def fun_eq_iff field_simps)
qed

lemma conjugates_controlled: "pinv_on n E \<Longrightarrow> pinv_on n F \<Longrightarrow> \<not> panti E F \<Longrightarrow> conjugates n (controlled_amp E F) (pctrl E F)"
  by (rule conjugates_pctrl) (simp_all add: controlled_amp_def)

text \<open>C14. Left multiplication by the exponential of a Hermitian operator \<open>P\<close> adds the operator
  \<open>(1 + i P) / sqrt 2\<close> on the left: the new preimage of every operator is the old preimage of its conjugate.\<close>

theorem pauli_exponential:
  assumes v: "clifford_valid C" and n: "0 < num_qubits C" and p: "fits (num_qubits C) p" and two: "pmul (dense_sem p) (dense_sem p) = pone"
  shows "\<exists>C'. left_mul_pauli_exp dense_ops p C = Some C' \<and> clifford_valid C' \<and> num_qubits C' = num_qubits C \<and>
    (\<forall>Q. pauli_on (num_qubits C) Q \<longrightarrow> (\<exists>H. pauli_on (num_qubits C) H \<and> cpre C' Q = cpre C H \<and>
       (\<forall>\<psi>. pauli_amp Q (exp_amp (dense_sem p) \<psi>) = exp_amp (dense_sem p) (pauli_amp H \<psi>))))"
proof -
  let ?n = "num_qubits C" and ?E = "dense_sem p"
  have d: "dense_ok p" "pauli_on ?n ?E" using p by (simp_all add: fits_def)
  then have E: "pinv_on ?n ?E" using two by (simp add: pinv_on_def)
  have aut: "automorphism ?n (pexp (pphase 2 ?E))" by (rule automorphism_pexp) (use E in simp)
  obtain C' where C': "left_mul_pauli_exp dense_ops p C = Some C'" "clifford_valid C'" "num_qubits C' = ?n"
      "\<And>P. pauli_on ?n P \<Longrightarrow> cpre C' P = cpre C (pexp (pphase 2 ?E) P)"
    by (rule actsE [OF dense.pauli_exp_acts [OF v n d two]]) blast
  have "\<exists>H. pauli_on ?n H \<and> cpre C' Q = cpre C H \<and> (\<forall>\<psi>. pauli_amp Q (exp_amp ?E \<psi>) = exp_amp ?E (pauli_amp H \<psi>))"
    if Q: "pauli_on ?n Q" for Q
    using automorphismD(1) [OF aut Q] C'(4) [OF Q] conjugatesD [OF conjugates_exp [OF E] Q] by blast
  with C'(1-3) show ?thesis by blast
qed

lemma pauli_exponential_witness:
  "\<exists>C p C'. clifford_identity 1 = Some C \<and> dense_sem p = xop 0 \<and> left_mul_pauli_exp dense_ops p C = Some C' \<and> clifford_valid C'"
proof -
  obtain C where C: "clifford_identity 1 = Some C" "clifford_valid C" "num_qubits C = 1" using identity_exists by blast
  obtain p where p: "fits 1 p" "dense_sem p = xop 0" using dense_gen [of "(False, 0)" 1] by auto
  have "pmul (xop 0) (xop 0) = pone" using pinv_onD(3) [OF pinv_on_gen(1) [of 0 1]] by simp
  with pauli_exponential [OF C(2), of p] C p show ?thesis by auto
qed

text \<open>C15. Left multiplication by a controlled operator: for commuting Hermitian operators \<open>E\<close> and \<open>F\<close> it adds
  \<open>(1 + E + F - E F) / 2\<close>, the operator that applies \<open>F\<close> where \<open>E\<close> is \<open>-1\<close>.\<close>

theorem controlled_pauli:
  assumes v: "clifford_valid C" and n: "0 < num_qubits C" and c: "fits (num_qubits C) c" "pmul (dense_sem c) (dense_sem c) = pone"
    and t: "fits (num_qubits C) t" "pmul (dense_sem t) (dense_sem t) = pone" and comm: "\<not> panti (dense_sem c) (dense_sem t)"
  shows "\<exists>C'. left_mul_controlled_pauli dense_ops c t C = Some C' \<and> clifford_valid C' \<and> num_qubits C' = num_qubits C \<and>
    (\<forall>Q. pauli_on (num_qubits C) Q \<longrightarrow> (\<exists>H. pauli_on (num_qubits C) H \<and> cpre C' Q = cpre C H \<and>
       (\<forall>\<psi>. pauli_amp Q (controlled_amp (dense_sem c) (dense_sem t) \<psi>) = controlled_amp (dense_sem c) (dense_sem t) (pauli_amp H \<psi>))))"
proof -
  let ?n = "num_qubits C" and ?E = "dense_sem c" and ?F = "dense_sem t"
  have d: "dense_ok c" "pauli_on ?n ?E" "dense_ok t" "pauli_on ?n ?F" using c(1) t(1) by (simp_all add: fits_def)
  then have E: "pinv_on ?n ?E" "pinv_on ?n ?F" using c(2) t(2) by (simp_all add: pinv_on_def)
  have aut: "automorphism ?n (pctrl ?E ?F)" by (rule automorphism_pctrl [OF E comm])
  obtain C' where C': "left_mul_controlled_pauli dense_ops c t C = Some C'" "clifford_valid C'" "num_qubits C' = ?n"
      "\<And>P. pauli_on ?n P \<Longrightarrow> cpre C' P = cpre C (pctrl ?E ?F P)"
    by (rule actsE [OF dense.controlled_pauli_acts [OF v n d(1,2) c(2) d(3,4) t(2) fits_caps [OF c(1) t(1)] comm]]) blast
  have "\<exists>H. pauli_on ?n H \<and> cpre C' Q = cpre C H \<and>
      (\<forall>\<psi>. pauli_amp Q (controlled_amp ?E ?F \<psi>) = controlled_amp ?E ?F (pauli_amp H \<psi>))" if Q: "pauli_on ?n Q" for Q
    using automorphismD(1) [OF aut Q] C'(4) [OF Q] conjugatesD [OF conjugates_controlled [OF E comm] Q] by blast
  with C'(1-3) show ?thesis by blast
qed

lemma controlled_pauli_witness:
  "\<exists>C c t C'. clifford_identity 2 = Some C \<and> dense_sem c = zop 0 \<and> dense_sem t = xop 1 \<and>
     left_mul_controlled_pauli dense_ops c t C = Some C' \<and> clifford_valid C'"
proof -
  obtain C where C: "clifford_identity 2 = Some C" "clifford_valid C" "num_qubits C = 2" using identity_exists by blast
  obtain c where c: "fits 2 c" "dense_sem c = zop 0" using dense_gen [of "(True, 0)" 2] by auto
  obtain t where t: "fits 2 t" "dense_sem t = xop 1" using dense_gen [of "(False, 1)" 2] by auto
  have "pmul (zop 0) (zop 0) = pone" "pmul (xop 1) (xop 1) = pone"
    using pinv_onD(3) [OF pinv_on_gen(2) [of 0 1]] pinv_onD(3) [OF pinv_on_gen(1) [of 1 2]] by simp_all
  with controlled_pauli [OF C(2), of c t] C c t show ?thesis by auto
qed

section \<open>Placing unitaries\<close>

text \<open>C16. \<open>left_mul_clifford\<close> applies a unitary on \<open>m\<close> qubits to the listed qubits of a register: on operators of those qubits
  the new preimage is the old preimage of the small unitary's preimage, renamed along the list, and operators of the other
  qubits keep their preimages; the sorted-set library is any with the documented contract.\<close>

theorem left_mul_clifford_places:
  assumes "sorted_library S" "clifford_valid C" "clifford_valid D" "distinct support" "set support \<subseteq> {..<num_qubits C}"
    "length support = num_qubits D"
  shows "\<exists>C'. left_mul_clifford S D support C = Some C' \<and> clifford_valid C' \<and> num_qubits C' = num_qubits C \<and>
    (\<forall>P. pauli_on (num_qubits D) P \<longrightarrow> cpre C' (pperm (nth support) P) = cpre C (pperm (nth support) (cpre D P))) \<and>
    (\<forall>P. pauli_on (num_qubits C) P \<longrightarrow> set support \<inter> (fst P \<union> fst (snd P)) = {} \<longrightarrow> cpre C' P = cpre C P)"
proof (rule actsE [OF left_mul_clifford_acts [OF assms]])
  let ?E = "embed (nth support) (num_qubits D) (fam D)"
  have inj: "inj_on (nth support) {..<num_qubits D}" "nth support ` {..<num_qubits D} \<subseteq> {..<num_qubits C}"
    using assms(4-6) by (auto simp: inj_on_def nth_eq_iff_index_eq subset_iff)
  have F: "frame (num_qubits D) (fam D)" using assms(3) by (simp add: clifford_valid_def)
  fix C'
  assume C': "left_mul_clifford S D support C = Some C'" "clifford_valid C'" "num_qubits C' = num_qubits C"
    and pre: "\<And>P. pauli_on (num_qubits C) P \<Longrightarrow> cpre C' P = cpre C (pre_of ?E P)"
  have "cpre C' (pperm (nth support) P) = cpre C (pperm (nth support) (cpre D P))" if P: "pauli_on (num_qubits D) P" for P
    using pre [OF pperm_on [OF P inj(2)]] embed_inside [OF inj F P] cpre_eq [OF assms(3)] by simp
  moreover have "cpre C' P = cpre C P" if P: "pauli_on (num_qubits C) P" and out: "set support \<inter> (fst P \<union> fst (snd P)) = {}" for P
  proof -
    have "nth support i \<notin> fst P \<and> nth support i \<notin> fst (snd P)" if "i < num_qubits D" for i
    proof -
      have "support ! i \<in> set support" using nth_mem [of i support] that assms(6) by simp
      with out show ?thesis by blast
    qed
    from embed_outside [OF P this] show ?thesis using pre [OF P] by simp
  qed
  ultimately show ?thesis using C' by blast
qed

lemma left_mul_clifford_places_witness:
  "\<exists>C D C'. clifford_identity 3 = Some C \<and> clifford_identity 2 = Some D \<and> left_mul_clifford list_sets D [2, 0] C = Some C' \<and> clifford_valid C'"
proof -
  obtain C where C: "clifford_identity 3 = Some C" "clifford_valid C" "num_qubits C = 3" using identity_exists by blast
  obtain D where D: "clifford_identity 2 = Some D" "clifford_valid D" "num_qubits D = 2" using identity_exists by blast
  have "distinct [2, 0 :: nat]" "set [2, 0] \<subseteq> {..<num_qubits C}" "length [2, 0 :: nat] = num_qubits D" by (simp_all add: C(3) D(3))
  from left_mul_clifford_places [OF list_sets.sorted_library_axioms C(2) D(2) this] C(1) D(1) show ?thesis by blast
qed

text \<open>C18. The tensor product of two valid Clifford unitaries exists and is valid; operators of the left factor keep its
  preimages, and those of the right factor, moved behind the left qubits, keep theirs.\<close>

theorem tensor_keeps_preimages:
  assumes "clifford_valid L" "clifford_valid R"
  shows "\<exists>T. clifford_tensored L R = Some T \<and> clifford_valid T \<and> num_qubits T = num_qubits L + num_qubits R \<and>
    (\<forall>P. pauli_on (num_qubits L) P \<longrightarrow> cpre T P = cpre L P) \<and>
    (\<forall>Q. pauli_on (num_qubits R) Q \<longrightarrow> cpre T (shifted (num_qubits L) Q) = shifted (num_qubits L) (cpre R Q))"
  using assms by (rule tensored_run)

lemma tensor_keeps_preimages_witness: "\<exists>L T. clifford_identity 2 = Some L \<and> clifford_tensored L L = Some T \<and> num_qubits T = 4"
proof -
  obtain L where L: "clifford_identity 2 = Some L" "clifford_valid L" "num_qubits L = 2" using identity_exists by blast
  from tensor_keeps_preimages [OF L(2,2)] L show ?thesis by auto
qed

lemma clifford_resize_run:
  assumes v: "clifford_valid C"
  shows "if num_qubits C \<le> n \<or> (\<forall>q. n \<le> q \<and> q < num_qubits C \<longrightarrow> idle C q)
    then \<exists>D. clifford_resize n C = Some D \<and> clifford_valid D \<and> num_qubits D = n \<and>
      (\<forall>P. pauli_on (min n (num_qubits C)) P \<longrightarrow> cpre D P = cpre C P) \<and> (\<forall>q. num_qubits C \<le> q \<and> q < n \<longrightarrow> idle D q)
    else clifford_resize n C = None"
proof -
  consider "n = num_qubits C" | "num_qubits C < n" | "n < num_qubits C" by (rule linorder_cases [of n "num_qubits C"])
  then show ?thesis
  proof cases
    case 1
    have "\<forall>q. num_qubits C \<le> q \<and> q < num_qubits C \<longrightarrow> idle D q" for D by auto
    then show ?thesis using 1 v unfolding clifford_resize_def by (simp del: not_less)
  next
    case 2
    obtain T where T: "clifford_tensored_with_identity C (n - num_qubits C) = Some T" "clifford_valid T" "num_qubits T = n"
        "\<And>P. pauli_on (num_qubits C) P \<Longrightarrow> cpre T P = cpre C P" "\<And>c q. num_qubits C \<le> q \<Longrightarrow> q < n \<Longrightarrow> fam T (c, q) = gen (c, q)"
      using tensored_identity_run [OF v, of "n - num_qubits C"] 2 by auto
    have "idle T q" if "num_qubits C \<le> q \<and> q < n" for q using T(5) that by (simp add: idle_def)
    then show ?thesis using T(1-4) 2 by (simp add: clifford_resize_def min_def)
  next
    case 3
    have run: "clifford_resize n C = shrink_clifford C n" using 3 by (simp add: clifford_resize_def)
    show ?thesis
    proof (cases "\<forall>q. n \<le> q \<and> q < num_qubits C \<longrightarrow> idle C q")
      case True
      obtain D where D: "shrink_clifford C n = Some D" "clifford_valid D" "num_qubits D = n" "\<And>c q. q < n \<Longrightarrow> fam D (c, q) = fam C (c, q)"
        using shrink_run [OF v 3] unfolding if_P [OF True] by blast
      have "cpre D P = cpre C P" if "pauli_on n P" for P by (rule cpre_same_frame [OF D(2) v that D(4)])
      moreover have "\<forall>q. num_qubits C \<le> q \<and> q < n \<longrightarrow> idle D q" using 3 by auto
      ultimately show ?thesis using True 3 run D(1-3) by (simp add: min_def)
    next
      case False
      then have c: "\<not> (num_qubits C \<le> n \<or> (\<forall>q. n \<le> q \<and> q < num_qubits C \<longrightarrow> idle C q))" using 3 by simp
      show ?thesis using shrink_run [OF v 3] unfolding if_not_P [OF False] if_not_P [OF c] run .
    qed
  qed
qed

text \<open>C17. Resizing a valid Clifford unitary: growing keeps the preimages and adds idle qubits; shrinking keeps them too when
  every removed qubit is idle, and panics otherwise.\<close>

theorem resize_checked:
  assumes v: "clifford_valid C"
  shows "if num_qubits C \<le> n \<or> (\<forall>q. n \<le> q \<and> q < num_qubits C \<longrightarrow> idle C q)
    then \<exists>D. clifford_resize n C = Some D \<and> clifford_valid D \<and> num_qubits D = n \<and>
      (\<forall>P. pauli_on (min n (num_qubits C)) P \<longrightarrow> cpre D P = cpre C P) \<and> (\<forall>q. num_qubits C \<le> q \<and> q < n \<longrightarrow> idle D q)
    else clifford_resize n C = None"
  using v by (rule clifford_resize_run)

lemma resize_checked_witness: "\<exists>C D. clifford_identity 2 = Some C \<and> clifford_resize 5 C = Some D \<and> num_qubits D = 5"
proof -
  obtain C where C: "clifford_identity 2 = Some C" "clifford_valid C" "num_qubits C = 2" using identity_exists by blast
  from resize_checked [OF C(2), of 5] C show ?thesis by auto
qed

section \<open>Bell states\<close>

text \<open>C19. \<open>clifford_to_prepare_bell_states\<close> returns a valid Clifford unitary on \<open>2 n\<close> qubits that prepares \<open>n\<close> Bell pairs: an
  operator fixes the state of the pairs exactly when the computed preimage fixes the state of all zeros.\<close>

theorem bell_states_prepared:
  "\<exists>C. clifford_to_prepare_bell_states n = Some C \<and> is_valid_clifford C = Some True \<and> num_qubits C = n * 2 \<and>
    (\<forall>p. fits (n * 2) p \<longrightarrow> (\<exists>r. clifford_preimage dense_ops C p = Some r \<and>
       (pauli_amp (dense_sem p) (bell_state n) = bell_state n \<longleftrightarrow> pauli_amp (dense_sem r) zero_state = zero_state)))"
  by (rule bell_prepared_run)

lemma bell_states_prepared_witness:
  "\<exists>C p r. clifford_to_prepare_bell_states 1 = Some C \<and> dense_sem p = xop 0 \<and> clifford_preimage dense_ops C p = Some r"
proof -
  obtain p where p: "fits 2 p" "dense_sem p = xop 0" using dense_gen [of "(False, 0)" 2] by auto
  obtain C where C: "clifford_to_prepare_bell_states 1 = Some C"
      "\<And>p. fits (1 * 2) p \<Longrightarrow> \<exists>r. clifford_preimage dense_ops C p = Some r" using bell_states_prepared [of 1] by blast
  obtain r where "clifford_preimage dense_ops C p = Some r" using C(2) [of p] p(1) by auto
  with C(1) p(2) show ?thesis by blast
qed

end
