(* ===== verification/Stabilizer_States.thy ===== *)
theory Stabilizer_States
  imports Clifford_Laws
begin

text \<open>
  States a Clifford unitary encodes: the vector is not zero, it lives on the qubits of the unitary, and the operator whose
  preimage is \<open>Z\<close> of qubit \<open>q\<close> multiplies it by the sign given for \<open>q\<close>.  The sign is what the preimage of any operator
  says about the state, gates and measurements of the state are mirrored by changes of the unitary, and a measurement whose
  outcome the unitary does not determine has both outcomes with probability one half.
\<close>

section \<open>Encoded states\<close>

definition scaled :: "complex \<Rightarrow> amps \<Rightarrow> amps" where
  "scaled c \<psi> = (\<lambda>s. c * \<psi> s)"

definition lives_on :: "nat \<Rightarrow> amps \<Rightarrow> bool" where
  "lives_on n \<psi> \<longleftrightarrow> (\<exists>s. \<psi> s \<noteq> 0) \<and> (\<forall>s. \<psi> s \<noteq> 0 \<longrightarrow> s \<subseteq> {..<n})"

definition encodes :: "clifford_unitary \<Rightarrow> (nat \<Rightarrow> bool) \<Rightarrow> amps \<Rightarrow> bool" where
  "encodes C \<sigma> \<psi> \<longleftrightarrow> lives_on (num_qubits C) \<psi> \<and> (\<forall>q P. q < num_qubits C \<longrightarrow> pauli_on (num_qubits C) P \<longrightarrow>
     cpre C P = zop q \<longrightarrow> pauli_amp P \<psi> = scaled (sgn_amp (\<sigma> q)) \<psi>)"

lemma encodesI:
  assumes "lives_on (num_qubits C) \<psi>"
    and "\<And>q P. q < num_qubits C \<Longrightarrow> pauli_on (num_qubits C) P \<Longrightarrow> cpre C P = zop q \<Longrightarrow> pauli_amp P \<psi> = scaled (sgn_amp (\<sigma> q)) \<psi>"
  shows "encodes C \<sigma> \<psi>"
  using assms unfolding encodes_def by blast

lemma encodesD:
  assumes "encodes C \<sigma> \<psi>"
  shows "lives_on (num_qubits C) \<psi>"
    "q < num_qubits C \<Longrightarrow> pauli_on (num_qubits C) P \<Longrightarrow> cpre C P = zop q \<Longrightarrow> pauli_amp P \<psi> = scaled (sgn_amp (\<sigma> q)) \<psi>"
  using assms unfolding encodes_def by blast+

lemma scaled_simps [simp]: "scaled 1 \<psi> = \<psi>" "scaled a (scaled b \<psi>) = scaled (a * b) \<psi>"
  by (simp_all add: scaled_def mult.assoc)

lemma pauli_amp_scaled: "pauli_amp P (scaled c \<psi>) = scaled c (pauli_amp P \<psi>)"
  by (simp add: scaled_def pauli_amp_scale)

lemma pauli_amp_phase: "pauli_amp (pphase k P) \<psi> = scaled (phase_amp k) (pauli_amp P \<psi>)"
  by (simp add: scaled_def pauli_amp_pphase)

lemma scaled_inject: "\<psi> s \<noteq> 0 \<Longrightarrow> scaled a \<psi> = scaled b \<psi> \<longleftrightarrow> a = b"
  by (auto simp: scaled_def fun_eq_iff)

lemma lives_on_scaled: "c \<noteq> 0 \<Longrightarrow> lives_on n \<psi> \<Longrightarrow> lives_on n (scaled c \<psi>)"
  by (auto simp: lives_on_def scaled_def)

lemma lives_on_mono: "lives_on m \<psi> \<Longrightarrow> m \<le> n \<Longrightarrow> lives_on n \<psi>"
  unfolding lives_on_def by (meson lessThan_subset_iff subset_trans)

lemma phase_amp_nonzero: "phase_amp k \<noteq> 0" "sgn_amp b \<noteq> 0"
  by (simp_all add: phase_amp_def sgn_amp_def)

lemma encodes_scaled:
  assumes "encodes C \<sigma> \<psi>" "c \<noteq> 0"
  shows "encodes C \<sigma> (scaled c \<psi>)"
  using lives_on_scaled [OF assms(2) encodesD(1) [OF assms(1)]] encodesD(2) [OF assms(1)]
  by (intro encodesI) (simp_all add: pauli_amp_scaled mult.commute)

text \<open>Preimages are onto.\<close>

lemma cpre_image:
  assumes "pauli_on (num_qubits C) Q"
  obtains P where "pauli_on (num_qubits C) P" "cpre C P = Q"
proof -
  have "Q \<in> cpre C ` {P. pauli_on (num_qubits C) P}"
    using bij_betw_imp_surj_on [OF clifford.pre_bij [of C]] assms by simp
  with that show thesis by auto
qed

section \<open>What preimages say about the state\<close>

lemma encodes_zops:
  assumes e: "encodes C \<sigma> \<psi>" and P: "pauli_on (num_qubits C) P" "cpre C P = ({}, D, k)"
  shows "pauli_amp P \<psi> = scaled (phase_amp k * sgn_amp (par {q \<in> D. \<sigma> q})) \<psi>"
proof -
  let ?n = "num_qubits C"
  have sub: "D \<subseteq> {..<?n}" using clifford.pre_on [OF P(1)] P(2) by (simp add: pauli_on_def)
  then have fin: "finite D" by (rule finite_subset) simp
  have main: "pauli_amp P \<psi> = scaled (sgn_amp (par {q \<in> D. \<sigma> q})) \<psi>"
    if "finite D" "D \<subseteq> {..<?n}" "pauli_on ?n P" "cpre C P = ({}, D, 0)" for P D
    using that
  proof (induction D arbitrary: P)
    case empty
    have "cpre C P = cpre C pone" using empty.prems(3) unfolding clifford.pre_pone by (simp add: pone_def)
    then have "P = pone" using clifford.pre_inject [of C P pone] empty.prems(2) by simp
    then show ?case by (simp add: scaled_def)
  next
    case (insert q D)
    have q: "q < ?n" using insert.prems(1) by simp
    obtain S where S: "pauli_on ?n S" "cpre C S = zop q" using cpre_image [of C "zop q"] q by auto
    obtain R where R: "pauli_on ?n R" "cpre C R = ({}, D, 0)"
      using cpre_image [of C "({}, D, 0)"] insert.prems(1) by (auto simp: pauli_on_def)
    have "cpre C (pmul S R) = cpre C P"
      using clifford.pre_pmul [OF S(1) R(1)] S(2) R(2) insert.prems(3) insert.hyps(2) by (simp add: zop_def pmul_def)
    then have "P = pmul S R"
      using clifford.pre_inject [of C "pmul S R" P] pauli_on_pmul [OF S(1) R(1)] insert.prems(2) by simp
    then have "pauli_amp P \<psi> = pauli_amp S (pauli_amp R \<psi>)"
      using pauli_amp_pmul pauli_on_finite [OF S(1)] pauli_on_finite [OF R(1)] by simp
    also have "\<dots> = scaled (sgn_amp (par {q \<in> D. \<sigma> q}) * sgn_amp (\<sigma> q)) \<psi>"
      using insert.IH [OF _ R] insert.prems(1) encodesD(2) [OF e q S] by (simp add: pauli_amp_scaled)
    also have "{p \<in> insert q D. \<sigma> p} = (if \<sigma> q then insert q {p \<in> D. \<sigma> p} else {p \<in> D. \<sigma> p})" by auto
    then have "par {p \<in> insert q D. \<sigma> p} = (par {p \<in> D. \<sigma> p} \<noteq> \<sigma> q)" using insert.hyps by (simp add: par_def)
    then have "sgn_amp (par {q \<in> D. \<sigma> q}) * sgn_amp (\<sigma> q) = sgn_amp (par {p \<in> insert q D. \<sigma> p})" by (simp only: sgn_amp_xor)
    finally show ?case .
  qed
  obtain R where R: "pauli_on ?n R" "cpre C R = ({}, D, 0)"
    using cpre_image [of C "({}, D, 0)"] sub by (auto simp: pauli_on_def)
  have "cpre C (pphase k R) = cpre C P" using R(2) P(2) unfolding clifford.pre_pphase by (simp add: pphase_def)
  then have "P = pphase k R" using clifford.pre_inject [of C "pphase k R" P] R(1) P(1) by simp
  then show ?thesis using main [OF fin sub R] by (simp add: pauli_amp_phase)
qed

text \<open>A stabilizer that anticommutes with an operator whose preimage has an X component.\<close>

lemma encodes_anti:
  assumes e: "encodes C \<sigma> \<psi>" and P: "pauli_on (num_qubits C) P" and q: "q \<in> fst (cpre C P)"
  obtains S where "pinv_on (num_qubits C) S" "cpre C S = zop q" "panti S P" "pauli_amp S \<psi> = scaled (sgn_amp (\<sigma> q)) \<psi>"
proof -
  let ?n = "num_qubits C"
  have qn: "q < ?n" using clifford.pre_on [OF P] q by (auto simp: pauli_on_def)
  obtain S where S: "pauli_on ?n S" "cpre C S = zop q" using cpre_image [of C "zop q"] qn by auto
  have "panti S P" using clifford.pre_panti [OF S(1) P] S(2) q by (simp add: panti_generators)
  moreover have "pmul S S = pone" using clifford.pre_relations [OF S(1,1)] S(2) by (simp add: zop_def pmul_def pone_def)
  ultimately show thesis using that S encodesD(2) [OF e qn S] by (simp add: pinv_on_def)
qed

text \<open>An operator has the state as an eigenvector exactly when its preimage has no X component.\<close>

lemma encodes_eigen:
  assumes e: "encodes C \<sigma> \<psi>" and P: "pauli_on (num_qubits C) P"
  shows "(\<exists>w. w \<noteq> 0 \<and> pauli_amp P \<psi> = scaled w \<psi>) \<longleftrightarrow> fst (cpre C P) = {}"
proof
  assume z: "fst (cpre C P) = {}"
  then obtain D k where D: "cpre C P = ({}, D, k)" by (metis prod.collapse)
  from encodes_zops [OF e P D] show "\<exists>w. w \<noteq> 0 \<and> pauli_amp P \<psi> = scaled w \<psi>"
    using phase_amp_nonzero by (metis mult_eq_0_iff)
next
  assume "\<exists>w. w \<noteq> 0 \<and> pauli_amp P \<psi> = scaled w \<psi>"
  then obtain w where w: "w \<noteq> 0" "pauli_amp P \<psi> = scaled w \<psi>" by blast
  obtain s where s: "\<psi> s \<noteq> 0" using encodesD(1) [OF e] by (auto simp: lives_on_def)
  show "fst (cpre C P) = {}"
  proof (rule ccontr)
    assume "fst (cpre C P) \<noteq> {}"
    then obtain q where "q \<in> fst (cpre C P)" by blast
    then obtain S where S: "pinv_on (num_qubits C) S" "panti S P" "pauli_amp S \<psi> = scaled (sgn_amp (\<sigma> q)) \<psi>"
      using encodes_anti [OF e P] by metis
    have "pauli_amp S (pauli_amp P \<psi>) = scaled (-1) (pauli_amp P (pauli_amp S \<psi>))"
      using pauli_amp_swap [OF pinv_onD(2) [OF S(1)] pauli_on_finite [OF P], of \<psi>] S(2) by (simp add: scaled_def)
    then have "scaled (w * sgn_amp (\<sigma> q)) \<psi> = scaled (- (sgn_amp (\<sigma> q) * w)) \<psi>"
      unfolding w(2) S(3) pauli_amp_scaled by simp
    then show False using scaled_inject [of \<psi> s, OF s] w(1) phase_amp_nonzero(2) [of "\<sigma> q"] by simp
  qed
qed

section \<open>Operations on states\<close>

text \<open>A reversible operation on \<open>n\<close> qubits: linear as far as factors go, and it leaves the other qubits alone.\<close>

definition reversible :: "nat \<Rightarrow> (amps \<Rightarrow> amps) \<Rightarrow> bool" where
  "reversible n U \<longleftrightarrow> inj U \<and> (\<forall>c \<psi>. U (scaled c \<psi>) = scaled c (U \<psi>)) \<and>
     (\<forall>q \<psi>. n \<le> q \<longrightarrow> pauli_amp (zop q) (U \<psi>) = U (pauli_amp (zop q) \<psi>))"

lemma reversibleD:
  assumes "reversible n U"
  shows "inj U" "U (scaled c \<psi>) = scaled c (U \<psi>)" "n \<le> q \<Longrightarrow> pauli_amp (zop q) (U \<psi>) = U (pauli_amp (zop q) \<psi>)"
  using assms unfolding reversible_def by blast+

lemma confined_iff: "(\<forall>s. \<psi> s \<noteq> 0 \<longrightarrow> s \<subseteq> {..<n}) \<longleftrightarrow> (\<forall>q. n \<le> q \<longrightarrow> pauli_amp (zop q) \<psi> = \<psi>)"
proof
  assume a: "\<forall>s. \<psi> s \<noteq> 0 \<longrightarrow> s \<subseteq> {..<n}"
  show "\<forall>q. n \<le> q \<longrightarrow> pauli_amp (zop q) \<psi> = \<psi>"
  proof (intro allI impI ext)
    fix q s
    assume "n \<le> q"
    then have "\<psi> s = 0 \<or> q \<notin> s" using a by fastforce
    then show "pauli_amp (zop q) \<psi> s = \<psi> s" by (auto simp: pauli_amp_gens)
  qed
next
  assume a: "\<forall>q. n \<le> q \<longrightarrow> pauli_amp (zop q) \<psi> = \<psi>"
  show "\<forall>s. \<psi> s \<noteq> 0 \<longrightarrow> s \<subseteq> {..<n}"
  proof (intro allI impI subsetI)
    fix s q
    assume s: "\<psi> s \<noteq> 0" "q \<in> s"
    show "q \<in> {..<n}"
    proof (rule ccontr)
      assume "q \<notin> {..<n}"
      then have "pauli_amp (zop q) \<psi> s = \<psi> s" using a by simp
      then show False using s by (simp add: pauli_amp_gens)
    qed
  qed
qed

lemma lives_on_operation:
  assumes U: "reversible n U" and \<psi>: "lives_on n \<psi>"
  shows "lives_on n (U \<psi>)"
proof -
  have "U (scaled 0 \<psi>) = scaled 0 (U \<psi>)" by (rule reversibleD(2) [OF U])
  then have z: "U (\<lambda>s. 0) = (\<lambda>s. 0)" by (simp add: scaled_def)
  have "\<psi> \<noteq> (\<lambda>s. 0)" using \<psi> by (auto simp: lives_on_def)
  then have "U \<psi> \<noteq> (\<lambda>s. 0)" using reversibleD(1) [OF U] z by (metis injD)
  then have "\<exists>s. U \<psi> s \<noteq> 0" by auto
  moreover have "\<forall>q. n \<le> q \<longrightarrow> pauli_amp (zop q) (U \<psi>) = U \<psi>"
    using \<psi> reversibleD(3) [OF U, of _ \<psi>] unfolding lives_on_def confined_iff by simp
  ultimately show ?thesis unfolding lives_on_def confined_iff by blast
qed

lemma encodes_step:
  assumes e: "encodes C \<sigma> \<psi>" and n: "num_qubits C' = num_qubits C"
    and pre: "\<And>P. pauli_on (num_qubits C) P \<Longrightarrow> cpre C' P = cpre C (h P)"
    and on: "\<And>P. pauli_on (num_qubits C) P \<Longrightarrow> pauli_on (num_qubits C) (h P)"
    and U: "conjugates (num_qubits C) U h" "reversible (num_qubits C) U"
  shows "encodes C' \<sigma> (U \<psi>)"
proof (rule encodesI)
  show "lives_on (num_qubits C') (U \<psi>)" using lives_on_operation [OF U(2) encodesD(1) [OF e]] n by simp
  fix q P
  assume q: "q < num_qubits C'" "pauli_on (num_qubits C') P" "cpre C' P = zop q"
  then have P: "pauli_on (num_qubits C) P" by (simp add: n)
  have "pauli_amp (h P) \<psi> = scaled (sgn_amp (\<sigma> q)) \<psi>"
    using encodesD(2) [OF e, of q "h P"] q on [OF P] pre [OF P] n by simp
  then show "pauli_amp P (U \<psi>) = scaled (sgn_amp (\<sigma> q)) (U \<psi>)"
    using conjugatesD [OF U(1) P, of \<psi>] reversibleD(2) [OF U(2)] by simp
qed

text \<open>Conjugations that leave the generators of the other qubits alone.\<close>

definition keeps :: "nat \<Rightarrow> (pauli_op \<Rightarrow> pauli_op) \<Rightarrow> bool" where
  "keeps n h \<longleftrightarrow> (\<forall>c q. n \<le> q \<longrightarrow> h (gen (c, q)) = gen (c, q))"

lemma keepsD: "keeps n h \<Longrightarrow> n \<le> q \<Longrightarrow> h (gen (c, q)) = gen (c, q)"
  by (simp add: keeps_def)

lemma gen_outside:
  assumes "pauli_on n E" "n \<le> q"
  shows "\<not> panti (gen (c, q)) E"
  using assms by (auto simp: gen_anti pauli_on_def)

lemma keeps_basic:
  assumes "pauli_on n E"
  shows "keeps n (pconj E)" "keeps n (pexp E)" "pauli_on n F \<Longrightarrow> keeps n (pctrl E F)"
  using gen_outside [OF assms] gen_outside [of n F]
  by (simp_all add: keeps_def pconj_def pexp_def pctrl_def)

lemma keeps_comp: "keeps n h \<Longrightarrow> keeps n g \<Longrightarrow> keeps n (\<lambda>P. h (g P))"
  by (simp add: keeps_def)

lemma keeps_mono: "keeps m h \<Longrightarrow> m \<le> n \<Longrightarrow> keeps n h"
  by (simp add: keeps_def)

lemma keeps_gate:
  assumes "gate_fits n op support"
  shows "keeps n (gate_conj op support)"
proof (cases "op = OpI")
  case False
  have had: "keeps n (hconj q)" if "q < n" for q
    unfolding hconj_def [abs_def] by (rule keeps_comp [OF keeps_basic(2) keeps_comp [OF keeps_basic(2) keeps_basic(2)]]) (use that in simp_all)
  have swap: "keeps n (swapconj a b)" if "a < n" "b < n" for a b
    unfolding swapconj_def [abs_def] by (rule keeps_comp [OF keeps_basic(3) keeps_comp [OF keeps_basic(3) keeps_basic(3)]]) (use that in simp_all)
  from False consider "gate_arity op = 1" | "gate_arity op = 2" by (cases op) (simp_all add: gate_arity_def)
  then show ?thesis
  proof cases
    case 1
    with assms gate_fits_one obtain q where "q < n" "support = [q]" by blast
    with 1 had show ?thesis by (cases op) (simp_all add: gate_conj_fun gate_arity_def keeps_basic)
  next
    case 2
    with assms gate_fits_two obtain a b where q: "a < n" "b < n" "support = [a, b]" by blast
    have "keeps n (\<lambda>P. hconj a (pctrl (zop a) (xop b) P))" by (rule keeps_comp [OF had keeps_basic(3)]) (use q in simp_all)
    with 2 q swap show ?thesis by (cases op) (simp_all add: gate_conj_fun gate_arity_def keeps_basic)
  qed
qed (simp add: gate_conj_fun keeps_def)

lemma reversible_kept:
  assumes "inj U" "\<And>c \<psi>. U (scaled c \<psi>) = scaled c (U \<psi>)" "\<And>N. n \<le> N \<Longrightarrow> conjugates N U h" "keeps n h"
  shows "reversible n U"
proof -
  have "pauli_amp (zop q) (U \<psi>) = U (pauli_amp (zop q) \<psi>)" if "n \<le> q" for q \<psi>
    using conjugatesD [OF assms(3) [of "Suc q"], of "zop q" \<psi>] keepsD [OF assms(4) that, of True] that by simp
  with assms(1,2) show ?thesis by (simp add: reversible_def)
qed

lemma scaled_sum: "(\<lambda>s. a * scaled c \<psi> s + b * scaled c \<phi> s) = scaled c (\<lambda>s. a * \<psi> s + b * \<phi> s)"
  by (simp add: scaled_def algebra_simps)

lemma gate_fits_mono: "gate_fits m op support \<Longrightarrow> m \<le> n \<Longrightarrow> gate_fits n op support"
  by (auto simp: gate_fits_def)

lemma gate_reversible:
  assumes "gate_fits n op support"
  shows "reversible n (gate_amp op support)"
proof (rule reversible_kept [OF gate_amp_inj [OF assms] _ gate_amp_conjugates keeps_gate [OF assms]])
  show "gate_fits N op support" if "n \<le> N" for N using assms that by (rule gate_fits_mono)
  have root: "root_amp w E (scaled c \<psi>) = scaled c (root_amp w E \<psi>)" for w E c \<psi>
    unfolding root_amp_def pauli_amp_scaled by (rule scaled_sum)
  have had: "hadamard_amp q (scaled c \<psi>) = scaled c (hadamard_amp q \<psi>)" for q c \<psi>
    by (simp add: hadamard_amp_def scaled_def fun_eq_iff field_simps)
  have two: "cx_amp a b (scaled c \<psi>) = scaled c (cx_amp a b \<psi>)" "cz_amp a b (scaled c \<psi>) = scaled c (cz_amp a b \<psi>)"
    "swap_amp a b (scaled c \<psi>) = scaled c (swap_amp a b \<psi>)" for a b c \<psi>
    by (simp_all add: cx_amp_def cz_amp_def swap_amp_def scaled_def fun_eq_iff)
  show "gate_amp op support (scaled c \<psi>) = scaled c (gate_amp op support \<psi>)" for c \<psi>
    unfolding gate_amp_fun by (cases op) (simp_all add: gate_amp_fun pauli_amp_scaled root had two)
qed

lemma pauli_reversible:
  assumes "pinv_on n E"
  shows "reversible n (pauli_amp E)"
proof (rule reversible_kept [OF inj_inverse pauli_amp_scaled conjugates_pconj keeps_basic(1) [OF pinv_onD(1) [OF assms]]])
  show "pauli_amp E (pauli_amp E \<psi>) = \<psi>" for \<psi> by (rule pauli_amp_twice [OF pinv_onD(2,3) [OF assms]])
  show "pinv_on N E" if "n \<le> N" for N using assms that by (auto simp: pinv_on_def pauli_on_def)
qed

lemma pinv_on_mono: "pinv_on m E \<Longrightarrow> m \<le> n \<Longrightarrow> pinv_on n E"
  by (auto simp: pinv_on_def pauli_on_def)

lemma pauli_on_mono: "pauli_on m E \<Longrightarrow> m \<le> n \<Longrightarrow> pauli_on n E"
  by (auto simp: pauli_on_def)

lemma root_reversible:
  assumes E: "pinv_on n E"
  shows "reversible n (root_amp \<i> E)"
proof (rule reversible_kept [OF inj_inverse _ conjugates_root keeps_basic(2) [OF pinv_onD(1) [OF E]]])
  show "root_amp (-\<i>) E (root_amp \<i> E \<psi>) = \<psi>" for \<psi> by (rule root_amp_undo(1) [OF E])
  show "root_amp \<i> E (scaled c \<psi>) = scaled c (root_amp \<i> E \<psi>)" for c \<psi>
    unfolding root_amp_def pauli_amp_scaled by (rule scaled_sum)
  show "pinv_on N E" if "n \<le> N" for N using E that by (rule pinv_on_mono)
qed

lemma reversible_comp: "reversible n U \<Longrightarrow> reversible n V \<Longrightarrow> reversible n (\<lambda>\<psi>. U (V \<psi>))"
  unfolding reversible_def by (simp add: inj_chain)

lemma exp_reversible:
  assumes E: "pinv_on n E"
  shows "reversible n (exp_amp E)"
proof (rule reversible_kept [OF inj_inverse _ conjugates_exp keeps_basic(2)])
  show "pinv_on N E" if "n \<le> N" for N using E that by (rule pinv_on_mono)
  show "pauli_on n (pphase 2 E)" using E by (simp add: pinv_on_def)
  have tw: "pauli_amp E (pauli_amp E \<phi>) = \<phi>" for \<phi> by (rule pauli_amp_twice [OF pinv_onD(2,3) [OF E]])
  have r2: "complex_of_real (sqrt 2) * complex_of_real (sqrt 2) = 2" by (simp flip: of_real_mult)
  have lin: "pauli_amp E (exp_amp E \<psi>) = (\<lambda>s. (pauli_amp E \<psi> s + \<i> * \<psi> s) / sqrt 2)" for \<psi>
    using pauli_amp_sum [of E "1 / sqrt 2" \<psi> "\<i> / sqrt 2" "pauli_amp E \<psi>"]
    by (simp add: exp_amp_def tw add_divide_distrib)
  show "(\<lambda>s. (exp_amp E \<psi> s - \<i> * pauli_amp E (exp_amp E \<psi>) s) / sqrt 2) = \<psi>" for \<psi>
    unfolding lin using r2 by (simp add: exp_amp_def fun_eq_iff field_simps)
  show "exp_amp E (scaled c \<psi>) = scaled c (exp_amp E \<psi>)" for c \<psi>
    unfolding exp_amp_def pauli_amp_scaled by (simp add: scaled_def fun_eq_iff field_simps)
qed

lemma controlled_reversible:
  assumes E: "pinv_on n E" and F: "pinv_on n F" and comm: "\<not> panti E F"
  shows "reversible n (controlled_amp E F)"
proof (rule reversible_kept [OF inj_inverse _ conjugates_controlled [OF _ _ comm] keeps_basic(3) [OF pinv_onD(1) [OF E] pinv_onD(1) [OF F]]])
  show "pinv_on N E" "pinv_on N F" if "n \<le> N" for N using E F that by (simp_all add: pinv_on_mono)
  note fE = pinv_onD(2,3) [OF E] and fF = pinv_onD(2,3) [OF F]
  have tw: "pauli_amp E (pauli_amp E \<phi>) = \<phi>" "pauli_amp F (pauli_amp F \<phi>) = \<phi>" for \<phi>
    by (rule pauli_amp_twice [OF fE], rule pauli_amp_twice [OF fF])
  have FE: "pauli_amp F (pauli_amp E \<phi>) = pauli_amp E (pauli_amp F \<phi>)" for \<phi>
    using pauli_amp_swap [OF fE(1) fF(1), of \<phi>] comm by simp
  have lin: "pauli_amp G (controlled_amp E F \<psi>) = (\<lambda>s. (pauli_amp G \<psi> s + pauli_amp G (pauli_amp E \<psi>) s +
      pauli_amp G (pauli_amp F \<psi>) s - pauli_amp G (pauli_amp E (pauli_amp F \<psi>)) s) / 2)" for G \<psi>
    by (cases G) (simp add: controlled_amp_def pauli_amp_def fun_eq_iff algebra_simps add_divide_distrib diff_divide_distrib)
  show "controlled_amp E F (controlled_amp E F \<psi>) = \<psi>" for \<psi>
  proof -
    let ?e = "pauli_amp E \<psi>" and ?f = "pauli_amp F \<psi>" and ?g = "pauli_amp E (pauli_amp F \<psi>)"
    have comb: "pauli_amp E (\<lambda>s. (a s + b s + c s - d s) / 2) =
        (\<lambda>s. (pauli_amp E a s + pauli_amp E b s + pauli_amp E c s - pauli_amp E d s) / 2)" for a b c d
      by (cases E) (simp add: pauli_amp_def fun_eq_iff algebra_simps add_divide_distrib diff_divide_distrib)
    have u: "controlled_amp E F \<psi> = (\<lambda>s. (\<psi> s + ?e s + ?f s - ?g s) / 2)"
      and e: "pauli_amp E (controlled_amp E F \<psi>) = (\<lambda>s. (?e s + \<psi> s + ?g s - ?f s) / 2)"
      and f: "pauli_amp F (controlled_amp E F \<psi>) = (\<lambda>s. (?f s + ?g s + \<psi> s - ?e s) / 2)"
      by (simp add: controlled_amp_def, simp only: lin tw, simp only: lin FE tw)
    have g: "pauli_amp E (pauli_amp F (controlled_amp E F \<psi>)) = (\<lambda>s. (?g s + ?f s + ?e s - \<psi> s) / 2)"
      unfolding f comb tw ..
    have "controlled_amp E F (controlled_amp E F \<psi>) s = \<psi> s" for s
      unfolding controlled_amp_def [of E F "controlled_amp E F \<psi>"] g unfolding e f unfolding u by (simp add: field_simps)
    then show ?thesis ..
  qed
  show "controlled_amp E F (scaled c \<psi>) = scaled c (controlled_amp E F \<psi>)" for c \<psi>
    unfolding controlled_amp_def pauli_amp_scaled by (simp add: scaled_def fun_eq_iff algebra_simps)
qed

text \<open>A renaming of the qubits.\<close>

definition permute_amp :: "(nat \<Rightarrow> nat) \<Rightarrow> amps \<Rightarrow> amps" where
  "permute_amp f \<psi> = (\<lambda>s. \<psi> (f ` s))"

lemma conjugates_permute:
  assumes f: "bij f"
  shows "conjugates n (permute_amp f) (pperm f)"
proof (rule conjugatesI)
  fix P :: pauli_op and \<psi>
  have inj: "inj f" using f by (rule bij_is_inj)
  obtain A D k where P: "P = (A, D, k)" by (cases P)
  have d: "f ` sym_diff s A = sym_diff (f ` s) (f ` A)" for s
    using image_set_diff [OF inj] by (auto simp: image_Un)
  have "par (f ` D \<inter> f ` sym_diff s A) = par (D \<inter> sym_diff s A)" for s
    by (rule par_image [OF inj]) simp_all
  then show "pauli_amp P (permute_amp f \<psi>) = permute_amp f (pauli_amp (pperm f P) \<psi>)"
    by (simp add: P pperm_def pauli_amp_def permute_amp_def fun_eq_iff d)
qed

lemma permute_reversible:
  assumes f: "bij f" and out: "\<And>q. n \<le> q \<Longrightarrow> f q = q"
  shows "reversible n (permute_amp f)"
proof (rule reversible_kept [OF inj_inverse _ conjugates_permute [OF f]])
  have "f ` (inv f ` s) = s" for s using f by (simp add: image_f_inv_f bij_is_surj)
  moreover have "inv f ` (f ` s) = s" for s using f by (simp add: image_inv_f_f bij_is_inj)
  ultimately show "permute_amp (inv f) (permute_amp f \<psi>) = \<psi>" for \<psi> by (simp add: permute_amp_def)
  show "permute_amp f (scaled c \<psi>) = scaled c (permute_amp f \<psi>)" for c \<psi> by (simp add: permute_amp_def scaled_def)
  show "keeps n (pperm f)" using out by (simp add: keeps_def pperm_gen)
qed

section \<open>Signs\<close>

text \<open>Applying an operator changes the signs of the stabilizers it anticommutes with.\<close>

lemma encodes_signs:
  assumes e: "encodes C \<sigma> \<psi>" and E: "pinv_on (num_qubits C) E"
  shows "encodes C (\<lambda>q. \<sigma> q \<noteq> (q \<in> fst (cpre C E))) (pauli_amp E \<psi>)"
proof (rule encodesI)
  show "lives_on (num_qubits C) (pauli_amp E \<psi>)" by (rule lives_on_operation [OF pauli_reversible [OF E] encodesD(1) [OF e]])
  fix q P
  assume q: "q < num_qubits C" and P: "pauli_on (num_qubits C) P" "cpre C P = zop q"
  have "panti P E = (q \<in> fst (cpre C E))"
    using clifford.pre_panti [OF P(1) pinv_onD(1) [OF E]] P(2) by (simp add: panti_generators)
  then show "pauli_amp P (pauli_amp E \<psi>) = scaled (sgn_amp (\<sigma> q \<noteq> (q \<in> fst (cpre C E)))) (pauli_amp E \<psi>)"
    using pauli_amp_swap [OF pauli_on_finite [OF P(1)] pinv_onD(2) [OF E], of \<psi>] encodesD(2) [OF e q P]
    unfolding sgn_amp_xor by (simp add: pauli_amp_scaled) (simp add: scaled_def ac_simps)
qed

section \<open>More and fewer qubits\<close>

lemma encodes_grow:
  assumes e: "encodes C \<sigma> \<psi>" and D: "clifford_valid D" "num_qubits C \<le> num_qubits D"
    and pre: "\<And>P. pauli_on (num_qubits C) P \<Longrightarrow> cpre D P = cpre C P"
    and idle: "\<And>q. num_qubits C \<le> q \<Longrightarrow> q < num_qubits D \<Longrightarrow> idle D q \<and> \<not> \<tau> q"
    and same: "\<And>q. q < num_qubits C \<Longrightarrow> \<tau> q = \<sigma> q"
  shows "encodes D \<tau> \<psi>"
proof (rule encodesI)
  show "lives_on (num_qubits D) \<psi>" by (rule lives_on_mono [OF encodesD(1) [OF e] D(2)])
  fix q P
  assume q: "q < num_qubits D" and P: "pauli_on (num_qubits D) P" "cpre D P = zop q"
  show "pauli_amp P \<psi> = scaled (sgn_amp (\<tau> q)) \<psi>"
  proof (cases "q < num_qubits C")
    case True
    then obtain R where R: "pauli_on (num_qubits C) R" "cpre C R = zop q" using cpre_image [of C "zop q"] by auto
    have "P = R" by (rule clifford.pre_inject [OF P(1) pauli_on_mono [OF R(1) D(2)]]) (simp add: P(2) pre [OF R(1)] R(2))
    then show ?thesis using encodesD(2) [OF e True R] same [OF True] by simp
  next
    case False
    then have i: "cz D q = zop q" "\<not> \<tau> q" using idle [of q] q by (simp_all add: idle_def)
    have "P = zop q" by (rule clifford.pre_inject [OF P(1)]) (use q P(2) i(1) cpre_fam(2) [OF D(1) q] in simp_all)
    moreover have "pauli_amp (zop q) \<psi> = \<psi>"
      using encodesD(1) [OF e] False unfolding lives_on_def confined_iff by simp
    ultimately show ?thesis using i(2) by simp
  qed
qed

lemma encodes_shrink:
  assumes e: "encodes C \<sigma> \<psi>" and C: "clifford_valid C" and n: "num_qubits D \<le> num_qubits C"
    and pre: "\<And>P. pauli_on (num_qubits D) P \<Longrightarrow> cpre D P = cpre C P"
    and idle: "\<And>q. num_qubits D \<le> q \<Longrightarrow> q < num_qubits C \<Longrightarrow> idle C q \<and> \<not> \<sigma> q"
  shows "encodes D \<sigma> \<psi>"
proof (rule encodesI)
  have "pauli_amp (zop q) \<psi> = \<psi>" if "num_qubits D \<le> q" for q
  proof (cases "q < num_qubits C")
    case True
    have "cpre C (zop q) = zop q" using cpre_fam(2) [OF C True] idle [OF that True] by (simp add: idle_def)
    then show ?thesis using encodesD(2) [OF e True, of "zop q"] True idle [OF that True] by simp
  next
    case False
    then show ?thesis using encodesD(1) [OF e] unfolding lives_on_def confined_iff by simp
  qed
  then show "lives_on (num_qubits D) \<psi>" using encodesD(1) [OF e] unfolding lives_on_def confined_iff by blast
  fix q P
  assume q: "q < num_qubits D" and P: "pauli_on (num_qubits D) P" "cpre D P = zop q"
  then show "pauli_amp P \<psi> = scaled (sgn_amp (\<sigma> q)) \<psi>"
    using encodesD(2) [OF e, of q P] n pre [OF P(1)] pauli_on_mono [OF P(1) n] by simp
qed

lemma encodes_identity:
  assumes I: "clifford_valid I" "num_qubits I = n" "\<And>key. snd key < n \<Longrightarrow> fam I key = gen key"
  shows "encodes I (\<lambda>_. False) zero_state"
proof (rule encodesI)
  show "lives_on (num_qubits I) zero_state" by (auto simp: lives_on_def zero_state_def)
  fix q P
  assume q: "q < num_qubits I" and P: "pauli_on (num_qubits I) P" "cpre I P = zop q"
  have "P = zop q" by (rule clifford.pre_inject [OF P(1)]) (use q P(2) cpre_fam(2) [OF I(1) q] I(2) I(3) [of "(True, q)"] in simp_all)
  then show "pauli_amp P zero_state = scaled (sgn_amp False) zero_state"
    by (auto simp: pauli_amp_gens zero_state_def fun_eq_iff scaled_def sgn_amp_def)
qed

section \<open>Measurements\<close>

text \<open>The state after the outcome \<open>b\<close> of a measurement of \<open>P\<close>, not normalized, and the weight of a state.\<close>

definition project :: "bool \<Rightarrow> pauli_op \<Rightarrow> amps \<Rightarrow> amps" where
  "project b P \<psi> = (\<lambda>s. (\<psi> s + sgn_amp b * pauli_amp P \<psi> s) / 2)"

definition norm_squared :: "nat \<Rightarrow> amps \<Rightarrow> real" where
  "norm_squared n \<psi> = (\<Sum>s \<in> Pow {..<n}. (cmod (\<psi> s))\<^sup>2)"

lemma project_eigen: "pauli_amp P \<psi> = scaled (sgn_amp b) \<psi> \<Longrightarrow> project b P \<psi> = \<psi>"
  by (simp add: project_def scaled_def)

lemma norm_squared_pauli:
  assumes P: "pauli_on n P"
  shows "norm_squared n (pauli_amp P \<psi>) = norm_squared n \<psi>"
proof -
  obtain A D k where PA: "P = (A, D, k)" by (cases P)
  have A: "A \<subseteq> {..<n}" using P by (simp add: PA pauli_on_def)
  have c: "cmod (pauli_amp P \<psi> s) = cmod (\<psi> (sym_diff s A))" for s
    by (simp add: PA pauli_amp_def phase_amp_def norm_mult norm_power) (simp add: sgn_amp_def)
  have "(\<Sum>s \<in> Pow {..<n}. (cmod (\<psi> (sym_diff s A)))\<^sup>2) = (\<Sum>s \<in> Pow {..<n}. (cmod (\<psi> s))\<^sup>2)"
    by (rule sum.reindex_bij_witness [of _ "\<lambda>s. sym_diff s A" "\<lambda>s. sym_diff s A"])
       (use A in \<open>auto intro!: arg_cong [of _ _ \<psi>] arg_cong [of _ _ "\<lambda>s. (cmod (\<psi> s))\<^sup>2"]\<close>)
  then show ?thesis by (simp add: norm_squared_def c)
qed

lemma norm_squared_scaled: "cmod c = 1 \<Longrightarrow> norm_squared n (scaled c \<psi>) = norm_squared n \<psi>"
  by (simp add: norm_squared_def scaled_def norm_mult)

lemma norm_squared_projections:
  assumes P: "pauli_on n P"
  shows "norm_squared n (project False P \<psi>) + norm_squared n (project True P \<psi>) = norm_squared n \<psi>"
proof -
  have half: "(cmod ((a + b) / 2))\<^sup>2 + (cmod ((a - b) / 2))\<^sup>2 = ((cmod a)\<^sup>2 + (cmod b)\<^sup>2) / 2" for a b :: complex
  proof -
    have "(cmod (a + b))\<^sup>2 + (cmod (a - b))\<^sup>2 = 2 * ((cmod a)\<^sup>2 + (cmod b)\<^sup>2)"
      unfolding cmod_power2 by (simp add: power2_eq_square algebra_simps)
    then show ?thesis by (simp add: norm_divide power_divide field_simps)
  qed
  have "norm_squared n (project False P \<psi>) + norm_squared n (project True P \<psi>) =
      (\<Sum>s \<in> Pow {..<n}. ((cmod (\<psi> s))\<^sup>2 + (cmod (pauli_amp P \<psi> s))\<^sup>2) / 2)"
    unfolding norm_squared_def project_def sum.distrib [symmetric] half [symmetric] by simp
  also have "\<dots> = (norm_squared n \<psi> + norm_squared n (pauli_amp P \<psi>)) / 2"
    unfolding norm_squared_def by (simp add: sum.distrib flip: sum_divide_distrib)
  finally show ?thesis using norm_squared_pauli [OF P] by simp
qed

text \<open>A stabilizer that anticommutes with the observable swaps the two outcomes.\<close>

lemma stabilizer_swaps:
  assumes S: "pinv_on n S" and O: "pauli_on n P" and anti: "panti S P" and \<psi>: "pauli_amp S \<psi> = scaled (sgn_amp v) \<psi>"
  shows "pauli_amp S (project b P \<psi>) = scaled (sgn_amp v) (project (\<not> b) P \<psi>)"
proof -
  have "pauli_amp S (pauli_amp P \<psi>) = scaled (- sgn_amp v) (pauli_amp P \<psi>)"
    using pauli_amp_swap [OF pinv_onD(2) [OF S] pauli_on_finite [OF O], of \<psi>] anti by (simp add: \<psi> pauli_amp_scaled) (simp add: scaled_def)
  then show ?thesis
    using pauli_amp_sum [of S "1 / 2" \<psi> "sgn_amp b / 2" "pauli_amp P \<psi>"] \<psi>
    by (simp add: project_def scaled_def add_divide_distrib sgn_amp_def fun_eq_iff)
qed

lemma random_outcome_half:
  assumes e: "encodes C \<sigma> \<psi>" and P: "pauli_on (num_qubits C) P" and x: "fst (cpre C P) \<noteq> {}"
  shows "norm_squared (num_qubits C) (project b P \<psi>) = norm_squared (num_qubits C) \<psi> / 2"
proof -
  let ?N = "norm_squared (num_qubits C)"
  obtain q where "q \<in> fst (cpre C P)" using x by blast
  then obtain S where S: "pinv_on (num_qubits C) S" "panti S P" "pauli_amp S \<psi> = scaled (sgn_amp (\<sigma> q)) \<psi>"
    using encodes_anti [OF e P] by metis
  have "?N (project True P \<psi>) = ?N (pauli_amp S (project False P \<psi>))"
    unfolding stabilizer_swaps [OF S(1) P S(2,3)] by (simp add: norm_squared_scaled sgn_amp_def)
  also have "\<dots> = ?N (project False P \<psi>)" by (rule norm_squared_pauli [OF pinv_onD(1) [OF S(1)]])
  finally have "?N (project True P \<psi>) = ?N (project False P \<psi>)" .
  with norm_squared_projections [OF P, of \<psi>] show ?thesis by (cases b) simp_all
qed

lemma random_outcome_nonzero:
  assumes e: "encodes C \<sigma> \<psi>" and P: "pauli_on (num_qubits C) P" and x: "fst (cpre C P) \<noteq> {}"
  shows "\<exists>s. project b P \<psi> s \<noteq> 0"
proof (rule ccontr)
  assume "\<not> ?thesis"
  then have "norm_squared (num_qubits C) (project b P \<psi>) = 0" by (simp add: norm_squared_def)
  then have "norm_squared (num_qubits C) \<psi> = 0" using random_outcome_half [OF assms, of b] by simp
  then have z: "\<forall>s \<in> Pow {..<num_qubits C}. (cmod (\<psi> s))\<^sup>2 = 0"
    unfolding norm_squared_def by (subst (asm) sum_nonneg_eq_0_iff) simp_all
  obtain s where "\<psi> s \<noteq> 0" "s \<subseteq> {..<num_qubits C}" using encodesD(1) [OF e] unfolding lives_on_def by blast
  with z show False by simp
qed

text \<open>The change of the unitary that prepares the measured state.\<close>

lemma root_projects:
  assumes S: "pfinite S" and O: "pfinite P" and \<psi>: "pauli_amp S \<psi> = scaled (sgn_amp v) \<psi>"
  shows "root_amp \<i> (pphase 1 (pmul P S)) \<psi> = scaled (1 + \<i>) (project v P \<psi>)"
  unfolding root_amp_def pauli_amp_phase pauli_amp_pmul [OF O S] \<psi> pauli_amp_scaled
  by (simp add: project_def scaled_def fun_eq_iff field_simps)

lemma measured_pinv:
  assumes "pinv_on n P" "pinv_on n S" "panti S P"
  shows "pinv_on n (pphase 1 (pmul P S))"
proof -
  note f = pinv_onD(2) [OF assms(1)] pinv_onD(2) [OF assms(2)] and two = pinv_onD(3) [OF assms(1)] pinv_onD(3) [OF assms(2)]
  have "pmul (pmul P S) (pmul P S) = pmul P (pmul (pmul S P) S)" using f by (simp add: pmul_assoc)
  also have "pmul S P = pphase 2 (pmul P S)" using pmul_swap [of S P] assms(3) by (simp add: sgn_phase_def)
  also have "pmul P (pmul (pphase 2 (pmul P S)) S) = pphase 2 (pmul (pmul P P) (pmul S S))" using f by (simp add: pmul_assoc)
  finally show ?thesis
    using assms by (simp add: pinv_on_def pauli_on_pmul two)
qed

lemma encodes_measured:
  assumes e: "encodes C \<sigma> \<psi>" and O: "pinv_on (num_qubits C) P" and S: "pinv_on (num_qubits C) S" "panti S P" "cpre C S = zop v"
    and v: "v < num_qubits C" and n: "num_qubits C' = num_qubits C"
    and pre: "\<And>Q. pauli_on (num_qubits C) Q \<Longrightarrow> cpre C' Q = cpre C (pexp (pphase 1 (pmul P S)) Q)"
  shows "encodes C' \<sigma> (project (\<sigma> v) P \<psi>)"
proof -
  let ?E = "pphase 1 (pmul P S)"
  have E: "pinv_on (num_qubits C) ?E" by (rule measured_pinv [OF O S(1,2)])
  have \<psi>: "pauli_amp S \<psi> = scaled (sgn_amp (\<sigma> v)) \<psi>" by (rule encodesD(2) [OF e v pinv_onD(1) [OF S(1)] S(3)])
  have "encodes C' \<sigma> (root_amp \<i> ?E \<psi>)"
    by (rule encodes_step [OF e n pre automorphismD(1) [OF automorphism_pexp [OF E]] conjugates_root [OF E] root_reversible [OF E]]) simp_all
  then have "encodes C' \<sigma> (scaled (1 + \<i>) (project (\<sigma> v) P \<psi>))"
    unfolding root_projects [OF pinv_onD(2) [OF S(1)] pinv_onD(2) [OF O] \<psi>] .
  moreover have "1 + \<i> \<noteq> 0" by (simp add: complex_eq_iff)
  ultimately show ?thesis using encodes_scaled [of C' \<sigma> "scaled (1 + \<i>) (project (\<sigma> v) P \<psi>)" "1 / (1 + \<i>)"] by simp
qed

end
