(* ===== verification/Random_Outcome.thy ===== *)
theory Random_Outcome
  imports Stabilizer_States
begin

text \<open>
  What the stabilizer simulators of \<open>pauliverse\<close> share (\<open>outcome_free_simulation.rs\<close>): the preimage of an observable under the
  state encoder, and the change of the encoder by a measurement with a random outcome, which visits only the
  generators that anticommute with the observable or with the stabilizer that is given up.
\<close>

section \<open>Operations\<close>

text \<open>\<open>usize::next_power_of_two\<close>.\<close>

function doubled_from :: "nat \<Rightarrow> nat \<Rightarrow> nat" where
  "doubled_from p n = (if n \<le> p \<or> p = 0 then p else doubled_from (2 * p) n)"
  by pat_completeness auto

termination doubled_from
  by (relation "measure (\<lambda>(p, n). n - p)") auto

declare doubled_from.simps [simp del]

definition next_power_of_two :: "nat \<Rightarrow> nat" where
  "next_power_of_two n = doubled_from 1 n"

fun list_max :: "nat list \<Rightarrow> nat option" where
  "list_max [] = None"
| "list_max (x # xs) = Some (fold max xs x)"

definition max_support :: "nat list \<Rightarrow> nat option" where
  "max_support support = list_max support"

definition max_pair_support :: "'b bits_ops \<Rightarrow> 'b pauli_unitary \<Rightarrow> 'b pauli_unitary \<Rightarrow> nat option" where
  "max_pair_support B a b = max_opt (projective_max_support B (projective a)) (projective_max_support B (projective b))"

definition assign_clifford_preimage ::
  "'b bits_ops \<Rightarrow> clifford_unitary \<Rightarrow> 'b pauli_unitary \<Rightarrow> bitblock list pauli_unitary \<Rightarrow> bitblock list pauli_unitary option" where
  "assign_clifford_preimage B C observable target = do {
     x_factors \<leftarrow> omap (preimage_x_view C) (bo_support B (px observable));
     z_factors \<leftarrow> omap (preimage_z_view C) (bo_support B (pz observable));
     target \<leftarrow> (case x_factors @ z_factors of
         [] \<Rightarrow> Some (set_identity dense_ops target)
       | first # factors \<Rightarrow> ofold (mul_assign_right dense_ops) factors (pauli_assign dense_ops first target));
     Some (add_assign_phase_exp (xz_phase_exponent observable) target) }"

definition update_anticommuting_generator_preimage :: "bitblock list pauli_unitary \<Rightarrow> bool \<Rightarrow> bool \<Rightarrow> view_update" where
  "update_anticommuting_generator_preimage factor anticommutes_with_observable outcome generator_preimage = do {
     p \<leftarrow> (if \<not> anticommutes_with_observable then mul_assign_right dense_ops factor generator_preimage else Some generator_preimage);
     Some (if outcome then pauli_negate p else p) }"

text \<open>The two buffers hold sorted lists, so the binary search is membership.\<close>

definition assign_support :: "bool list \<Rightarrow> nat list" where
  "assign_support bits = supp (length bits) (nth bits)"

definition update_encoder_for_random_outcome ::
  "'b bits_ops \<Rightarrow> clifford_unitary \<Rightarrow> 'b pauli_unitary \<Rightarrow> bitblock list pauli_unitary \<Rightarrow> nat \<Rightarrow> bool \<Rightarrow>
   (clifford_unitary \<times> bitblock list pauli_unitary) option" where
  "update_encoder_for_random_outcome B encoder observable preimage pivot outcome = do {
     factor \<leftarrow> mul_assign_right_z dense_ops pivot preimage;
     (x_bits, z_bits) \<leftarrow> z_image_view_up_to_phase encoder pivot;
     let x_generators = assign_support z_bits;
     let z_generators = assign_support x_bits;
     encoder \<leftarrow> ofold (\<lambda>qubit encoder. do {
         anticommutes \<leftarrow> bo_index B (pz observable) qubit;
         preimage_x_view_mut qubit (update_anticommuting_generator_preimage factor anticommutes outcome) encoder }) x_generators encoder;
     encoder \<leftarrow> ofold (\<lambda>qubit encoder. do {
         anticommutes \<leftarrow> bo_index B (px observable) qubit;
         preimage_z_view_mut qubit (update_anticommuting_generator_preimage factor anticommutes outcome) encoder }) z_generators encoder;
     encoder \<leftarrow> ofold (\<lambda>qubit encoder. if qubit \<notin> set x_generators
         then preimage_x_view_mut qubit (mul_assign_right dense_ops factor) encoder else Some encoder) (bo_support B (pz observable)) encoder;
     encoder \<leftarrow> ofold (\<lambda>qubit encoder. if qubit \<notin> set z_generators
         then preimage_z_view_mut qubit (mul_assign_right dense_ops factor) encoder else Some encoder) (bo_support B (px observable)) encoder;
     Some (encoder, factor) }"

section \<open>Capacities\<close>

lemma doubled_from_le: "n \<le> p \<or> 0 < p \<Longrightarrow> n \<le> doubled_from p n"
proof (induction p n rule: doubled_from.induct)
  case (1 p n)
  then show ?case by (subst doubled_from.simps) auto
qed

lemma next_power_of_two_le: "n \<le> next_power_of_two n"
  by (simp add: next_power_of_two_def doubled_from_le)

lemma list_max_le: "list_max xs = Some m \<Longrightarrow> x \<in> set xs \<Longrightarrow> x \<le> m"
  by (cases xs) (auto simp: Max.set_eq_fold [symmetric] Max_ge)

lemma list_max_None: "list_max xs = None \<longleftrightarrow> xs = []"
  by (cases xs) simp_all

section \<open>The preimage of the observable\<close>

context pauli_bits
begin

lemma assign_preimage_run:
  assumes v: "clifford_valid C" and p: "unitary_ok ok cap p" "pauli_on (num_qubits C) (psem bset p)" and t: "fits (num_qubits C) t"
  shows "\<exists>r. assign_clifford_preimage B C p t = Some r \<and> fits (num_qubits C) r \<and> dense_sem r = cpre C (psem bset p)"
proof -
  let ?n = "num_qubits C"
  note okC = valid_ok [OF v] and s = support_facts [OF p]
  have views: "\<exists>vs. omap (\<lambda>q. key_view C (b, q)) xs = Some vs \<and> list_all2 (\<lambda>q v. fits ?n v \<and> dense_sem v = fam C (b, q)) xs vs"
    if "set xs \<subseteq> {..<?n}" for b xs
    by (rule omap_run) (use key_view_run [OF okC] that in force)
  obtain xv where xv: "omap (preimage_x_view C) (bo_support B (px p)) = Some xv"
      "list_all2 (\<lambda>q v. fits ?n v \<and> dense_sem v = cx C q) (bo_support B (px p)) xv"
    using views [of "bo_support B (px p)" False] s by (auto simp: key_view_def)
  obtain zv where zv: "omap (preimage_z_view C) (bo_support B (pz p)) = Some zv"
      "list_all2 (\<lambda>q v. fits ?n v \<and> dense_sem v = cz C q) (bo_support B (pz p)) zv"
    using views [of "bo_support B (pz p)" True] s by (auto simp: key_view_def)
  have run: "\<exists>r. ofold (mul_assign_right dense_ops) vs u = Some r \<and> fits ?n r \<and> dense_sem r = fold (\<lambda>v P. pmul P (dense_sem v)) vs (dense_sem u)"
    if "\<forall>v \<in> set vs. fits ?n v" "fits ?n u" for vs u
    using that
  proof (induction vs arbitrary: u)
    case (Cons v vs)
    obtain w where w: "mul_assign_right dense_ops v u = Some w" "fits ?n w" "dense_sem w = pmul (dense_sem u) (dense_sem v)"
      using fits_mul_right [OF Cons.prems(2), of v] Cons.prems(1) by auto
    with Cons.IH [of w] Cons.prems(1) show ?case by auto
  qed simp
  have all: "\<forall>v \<in> set (xv @ zv). fits ?n v"
    using xv(2) zv(2) by (auto simp: list_all2_conv_all_nth in_set_conv_nth)
  have "fold (\<lambda>v P. pmul P (dense_sem v)) vs P = fold (\<lambda>i P. pmul P (g i)) xs P"
    if "list_all2 (\<lambda>q v. fits ?n v \<and> dense_sem v = g q) xs vs" for g xs vs P
    using that by (induction arbitrary: P rule: list_all2_induct) simp_all
  from this [OF xv(2)] this [OF zv(2)]
  have "fold (\<lambda>v P. pmul P (dense_sem v)) (xv @ zv) pone = fold (\<lambda>i P. pmul P (cz C i)) (bo_support B (pz p)) (pprod (cx C) (bo_support B (px p)))"
    by (simp add: pprod_def)
  also have "\<dots> = pmul (pprod (cx C) (bo_support B (px p))) (pprod (cz C) (bo_support B (pz p)))"
    by (rule pprod_from) (use pauli_on_finite [OF fam_on [OF okC]] in simp_all)
  also have "\<dots> = pmul (fprod (cx C) (bset (px p))) (fprod (cz C) (bset (pz p)))" using s by (simp add: fprod_def)
  finally have prod: "fold (\<lambda>v P. pmul P (dense_sem v)) (xv @ zv) pone = pmul (fprod (cx C) (bset (px p))) (fprod (cz C) (bset (pz p)))" .
  let ?start = "case xv @ zv of [] \<Rightarrow> Some (set_identity dense_ops t)
    | first # factors \<Rightarrow> ofold (mul_assign_right dense_ops) factors (pauli_assign dense_ops first t)"
  have "\<exists>u. ?start = Some u \<and> fits ?n u \<and> dense_sem u = fold (\<lambda>v P. pmul P (dense_sem v)) (xv @ zv) pone"
  proof (cases "xv @ zv")
    case Nil
    have "fits ?n (set_identity dense_ops t) \<and> dense_sem (set_identity dense_ops t) = pone"
      using t dense.clear_bits [of "px t"] dense.clear_bits [of "pz t"]
      by (auto simp: fits_def set_identity_def pauli_ok_def psem_def pone_def pauli_on_def)
    then show ?thesis by (simp add: Nil)
  next
    case (Cons v vs)
    then have "fits ?n v" "\<forall>v \<in> set vs. fits ?n v" using all by simp_all
    with fits_assign [OF t, of v] run [of vs "pauli_assign dense_ops v t"] show ?thesis by (auto simp: Cons)
  qed
  then obtain u where u: "?start = Some u" "fits ?n u" "dense_sem u = pmul (fprod (cx C) (bset (px p))) (fprod (cz C) (bset (pz p)))"
    unfolding prod by blast
  let ?r = "add_assign_phase_exp (xz_phase_exponent p) u"
  have "dense_sem ?r = cpre C (psem bset p)"
    unfolding cpre_eq [OF v, symmetric] by (simp add: fits_phase pre_def ph_phase_exponent u(3)) (simp add: psem_def)
  moreover have "fits ?n ?r" by (rule fits_phase(1) [OF u(2)])
  moreover have "assign_clifford_preimage B C p t = Some ?r"
    using xv(1) zv(1) u(1) by (simp add: assign_clifford_preimage_def)
  ultimately show ?thesis by blast
qed

end

section \<open>The update of the encoder\<close>

lemma view_loop_run:
  assumes "clifford_ok C" "set xs \<subseteq> {..<num_qubits C}" "distinct xs"
    and "\<And>i p. i \<in> set xs \<Longrightarrow> fits (num_qubits C) p \<Longrightarrow> \<exists>r. f i p = Some r \<and> fits (num_qubits C) r \<and> dense_sem r = m i (dense_sem p)"
  shows "becomes C (\<lambda>(c, i). if c = b \<and> i \<in> set xs then m i (fam C (c, i)) else fam C (c, i)) (ofold (\<lambda>i. key_view_mut (b, i) (f i)) xs C)"
  using assms
proof (induction xs arbitrary: C)
  case Nil
  then show ?case by (simp add: becomes_def)
next
  case (Cons i xs)
  have "becomes C ((fam C)((b, i) := m i (fam C (b, i)))) (key_view_mut (b, i) (f i) C)"
    by (rule key_view_mut_run [OF Cons.prems(1)]) (use Cons.prems(2) Cons.prems(4) [of i] in force)+
  then obtain C1 where C1: "key_view_mut (b, i) (f i) C = Some C1" "clifford_ok C1" "num_qubits C1 = num_qubits C"
      "fam C1 = (fam C)((b, i) := m i (fam C (b, i)))" by (rule becomesE)
  have "becomes C1 (\<lambda>(c, i). if c = b \<and> i \<in> set xs then m i (fam C1 (c, i)) else fam C1 (c, i)) (ofold (\<lambda>i. key_view_mut (b, i) (f i)) xs C1)"
    by (rule Cons.IH) (use Cons.prems C1 in auto)
  moreover have "(\<lambda>(c, j). if c = b \<and> j \<in> set xs then m j (fam C1 (c, j)) else fam C1 (c, j)) =
      (\<lambda>(c, j). if c = b \<and> j \<in> set (i # xs) then m j (fam C (c, j)) else fam C (c, j))"
    using Cons.prems(3) by (auto simp: C1(4) fun_eq_iff)
  ultimately show ?case using C1(1,3) by (simp add: becomes_def)
qed

lemma ofold_filter: "ofold (\<lambda>x s. if Q x then f x s else Some s) xs s = ofold f (filter Q xs) s"
  by (induction xs arbitrary: s) (simp_all cong: Option.bind_cong)

lemma ofold_cong: "(\<And>x s. x \<in> set xs \<Longrightarrow> f x s = g x s) \<Longrightarrow> ofold f xs s = ofold g xs s"
  by (induction xs arbitrary: s) (simp_all cong: Option.bind_cong)

text \<open>The loops over the generators that anticommute with the stabilizer, and over the others.\<close>

context pauli_bits
begin

lemma generator_loop_run:
  assumes ok: "clifford_ok C" "set xs \<subseteq> {..<num_qubits C}" "distinct xs" and e: "fits (num_qubits C) e"
    and d: "ok d" "\<And>i. i \<in> set xs \<Longrightarrow> Pauli_Bits.within (cap d) i"
  shows "becomes C (\<lambda>(c, i). if c = b \<and> i \<in> set xs
        then pphase (sgn_phase outcome) (if i \<in> bset d then fam C (c, i) else pmul (fam C (c, i)) (dense_sem e)) else fam C (c, i))
      (ofold (\<lambda>i C. do { a \<leftarrow> bo_index B d i; key_view_mut (b, i) (update_anticommuting_generator_preimage e a outcome) C }) xs C)"
proof -
  let ?f = "\<lambda>i. update_anticommuting_generator_preimage e (i \<in> bset d) outcome"
  let ?m = "\<lambda>i P. pphase (sgn_phase outcome) (if i \<in> bset d then P else pmul P (dense_sem e))"
  have neg: "pauli_negate p = add_assign_phase_exp 2 p" for p :: "bitblock list pauli_unitary"
    by (simp add: pauli_negate_def add_assign_phase_exp_def)
  have "\<exists>r. ?f i p = Some r \<and> fits (num_qubits C) r \<and> dense_sem r = ?m i (dense_sem p)" if p: "fits (num_qubits C) p" for i p
  proof -
    obtain u where u: "(if i \<notin> bset d then mul_assign_right dense_ops e p else Some p) = Some u" "fits (num_qubits C) u"
        "dense_sem u = (if i \<in> bset d then dense_sem p else pmul (dense_sem p) (dense_sem e))"
      using fits_mul_right [OF p e] p by (cases "i \<in> bset d") auto
    then show ?thesis
      using fits_phase(1) [of "num_qubits C" u 2] fits_phase(2) [of 2 u]
      by (simp add: update_anticommuting_generator_preimage_def neg sgn_phase_def)
  qed
  then have "becomes C (\<lambda>(c, i). if c = b \<and> i \<in> set xs then ?m i (fam C (c, i)) else fam C (c, i)) (ofold (\<lambda>i. key_view_mut (b, i) (?f i)) xs C)"
    by (intro view_loop_run [OF ok]) blast
  moreover have "ofold (\<lambda>i C. do { a \<leftarrow> bo_index B d i; key_view_mut (b, i) (update_anticommuting_generator_preimage e a outcome) C }) xs C =
      ofold (\<lambda>i. key_view_mut (b, i) (?f i)) xs C"
    by (rule ofold_cong) (simp add: index d)
  ultimately show ?thesis by simp
qed

end

lemma other_loop_run:
  assumes ok: "clifford_ok C" "set xs \<subseteq> {..<num_qubits C}" "distinct xs" and e: "fits (num_qubits C) e"
  shows "becomes C (\<lambda>(c, i). if c = b \<and> i \<in> set xs - G then pmul (fam C (c, i)) (dense_sem e) else fam C (c, i))
    (ofold (\<lambda>i C. if i \<notin> G then key_view_mut (b, i) (mul_assign_right dense_ops e) C else Some C) xs C)"
proof -
  have "set (filter (\<lambda>i. i \<notin> G) xs) \<subseteq> {..<num_qubits C}" "distinct (filter (\<lambda>i. i \<notin> G) xs)" using ok by auto
  from mul_loop_run(1) [OF ok(1) this e, of b] show ?thesis
    unfolding ofold_filter by (simp add: set_diff_eq)
qed

lemma assign_support_map: "assign_support (map f [0..<n]) = supp n f"
  unfolding assign_support_def length_map length_upt diff_zero by (rule supp_cong) simp

context pauli_bits
begin

lemma update_encoder_run:
  assumes v: "clifford_valid C" and p: "unitary_ok ok cap p" "pinv_on (num_qubits C) (psem bset p)" and nocap: "cap = (\<lambda>_. None)"
    and r: "fits (num_qubits C) r" "dense_sem r = cpre C (psem bset p)" and x: "pivot \<in> fst (cpre C (psem bset p))"
    and S: "pinv_on (num_qubits C) S" "cpre C S = zop pivot"
  shows "\<exists>C' e. update_encoder_for_random_outcome B C p r pivot outcome = Some (C', e) \<and> clifford_valid C' \<and>
    num_qubits C' = num_qubits C \<and> fits (num_qubits C) e \<and> dense_sem e = pmul (cpre C (psem bset p)) (zop pivot) \<and>
    (\<forall>Q. pauli_on (num_qubits C) Q \<longrightarrow>
       cpre C' Q = cpre C (pexp (pphase 1 (pmul (psem bset p) S)) (if outcome then pconj S Q else Q)))"
proof -
  let ?n = "num_qubits C" and ?O = "psem bset p"
  note okC = valid_ok [OF v] and O = pinv_onD(1) [OF p(2)] and S1 = pinv_onD(1) [OF S(1)]
  note s = support_facts [OF p(1) O]
  have ok': "ok (px p)" "ok (pz p)" using p(1) by (simp_all add: pauli_ok_def)
  have w: "Pauli_Bits.within (cap d) i" for d i by (simp add: nocap Pauli_Bits.within_def)
  have pv: "pivot < ?n" using clifford.pre_on [OF O] x by (auto simp: pauli_on_def)
  have anti: "panti S ?O" using clifford.pre_panti [OF S1 O] S(2) x by (simp add: panti_generators)
  let ?E = "pphase 1 (pmul ?O S)"
  have E: "pinv_on ?n ?E" by (rule measured_pinv [OF p(2) S(1) anti])
  have dr: "dense_ok r" using r(1) by (simp add: fits_def)
  obtain e where e: "mul_assign_right_z dense_ops pivot r = Some e" "dense_ok e" "pcap dense_cap e = pcap dense_cap r"
      "dense_sem e = pmul (dense_sem r) (zop pivot)"
    using dense.right_z [OF dr fits_within [OF r(1) pv]] by blast
  have on: "pauli_on ?n (dense_sem e)" unfolding e(4) r(2) by (rule pauli_on_pmul [OF clifford.pre_on [OF O]]) (simp add: pv)
  have fe: "fits ?n e" by (rule fits_same [OF r(1) e(2,3) on])
  have F: "dense_sem e = cpre C (pmul ?O S)" unfolding e(4) r(2) using clifford.pre_pmul [OF O S1] S(2) by simp
  let ?xg = "supp ?n (\<lambda>i. panti S (xop i))" and ?zg = "supp ?n (\<lambda>i. panti S (zop i))"
  have gens: "panti (zop pivot) (fam C key) = panti S (gen key)" if "snd key < ?n" for key
    using clifford.pre_panti [OF S1, of "gen key"] S(2) cpre_gen [OF v that] that by simp
  have view: "\<exists>xb zb. z_image_view_up_to_phase C pivot = Some (xb, zb) \<and> assign_support zb = ?xg \<and> assign_support xb = ?zg"
    unfolding image_views(2) [OF okC pv]
    using supp_cong [of ?n, OF gens [of "(False, _)"]] supp_cong [of ?n, OF gens [of "(True, _)"]] by (simp add: assign_support_map)
  then obtain xb zb where view: "z_image_view_up_to_phase C pivot = Some (xb, zb)" "assign_support zb = ?xg" "assign_support xb = ?zg" by blast
  let ?step = "\<lambda>d b i C. do { a \<leftarrow> bo_index B d i; key_view_mut (b, i) (update_anticommuting_generator_preimage e a outcome) C }"
  let ?rest = "\<lambda>G b i C. if i \<notin> set G then key_view_mut (b, i) (mul_assign_right dense_ops e) C else Some C"
  have gs: "set ?xg \<subseteq> {..<?n}" "set ?zg \<subseteq> {..<?n}" by auto
  obtain C1 where C1: "ofold (?step (pz p) False) ?xg C = Some C1" "clifford_ok C1" "num_qubits C1 = ?n"
      "fam C1 = (\<lambda>(c, i). if c = False \<and> i \<in> set ?xg then pphase (sgn_phase outcome)
         (if i \<in> bset (pz p) then fam C (c, i) else pmul (fam C (c, i)) (dense_sem e)) else fam C (c, i))"
    by (rule becomesE [OF generator_loop_run [OF okC gs(1) distinct_supp fe ok'(2) w]])
  obtain C2 where C2: "ofold (?step (px p) True) ?zg C1 = Some C2" "clifford_ok C2" "num_qubits C2 = ?n"
      "fam C2 = (\<lambda>(c, i). if c = True \<and> i \<in> set ?zg then pphase (sgn_phase outcome)
         (if i \<in> bset (px p) then fam C1 (c, i) else pmul (fam C1 (c, i)) (dense_sem e)) else fam C1 (c, i))"
    using generator_loop_run [OF C1(2) _ distinct_supp _ ok'(1) w, of ?n "\<lambda>i. panti S (zop i)" e True outcome] gs fe C1(3)
    by (auto elim: becomesE)
  obtain C3 where C3: "ofold (?rest ?xg False) (bo_support B (pz p)) C2 = Some C3" "clifford_ok C3" "num_qubits C3 = ?n"
      "fam C3 = (\<lambda>(c, i). if c = False \<and> i \<in> set (bo_support B (pz p)) - set ?xg then pmul (fam C2 (c, i)) (dense_sem e) else fam C2 (c, i))"
    using other_loop_run [OF C2(2), of "bo_support B (pz p)" e False "set ?xg"] s fe C2(3) by (auto elim: becomesE)
  obtain C4 where C4: "ofold (?rest ?zg True) (bo_support B (px p)) C3 = Some C4" "clifford_ok C4" "num_qubits C4 = ?n"
      "fam C4 = (\<lambda>(c, i). if c = True \<and> i \<in> set (bo_support B (px p)) - set ?zg then pmul (fam C3 (c, i)) (dense_sem e) else fam C3 (c, i))"
    using other_loop_run [OF C3(2), of "bo_support B (px p)" e True "set ?zg"] s fe C3(3) by (auto elim: becomesE)
  have kv: "key_view_mut (False, i) = preimage_x_view_mut i" "key_view_mut (True, i) = preimage_z_view_mut i" for i
    by (simp_all add: key_view_mut_def)
  have run: "update_encoder_for_random_outcome B C p r pivot outcome = Some (C4, e)"
    using e(1) view C1(1) C2(1) C3(1) C4(1) unfolding kv by (simp add: update_encoder_for_random_outcome_def)
  let ?h = "\<lambda>Q. pexp ?E (if outcome then pconj S Q else Q)"
  have aut: "automorphism ?n ?h"
    by (cases outcome) (simp_all add: automorphism_pexp [OF E] automorphism_comp [OF automorphism_pexp [OF E] automorphism_pconj [OF S(1)]])
  have "fam C4 key = cpre C (?h (gen key))" if k: "snd key < ?n" for key
  proof -
    obtain c i where key: "key = (c, i)" by (cases key)
    have i: "i < ?n" using k by (simp add: key)
    let ?a = "panti (gen key) S" and ?o = "panti (gen key) ?O"
    have xg: "i \<in> set ?xg \<longleftrightarrow> panti (xop i) S" "i \<in> set ?zg \<longleftrightarrow> panti (zop i) S" using i panti_sym [of S] by simp_all
    have o: "c \<Longrightarrow> ?o \<longleftrightarrow> i \<in> bset (px p)" "\<not> c \<Longrightarrow> ?o \<longleftrightarrow> i \<in> bset (pz p)"
      by (simp_all add: key panti_generators psem_def)
    have fin: "pfinite ?O" "pfinite S" "pfinite (gen key)" using gen_on [OF k] O S1 by (simp_all only: pauli_on_finite)
    have "panti (gen key) ?E \<longleftrightarrow> ?o \<noteq> ?a" using panti_pmul [OF fin] by simp
    then have "pexp ?E (gen key) = (if ?o \<noteq> ?a then pmul (gen key) (pmul ?O S) else gen key)"
      using pmul_swap [of "pmul ?O S" "gen key"] panti_pmul [OF fin] panti_sym [of "gen key" "pmul ?O S"]
      by (simp add: pexp_def sgn_phase_def)
    then have h: "?h (gen key) = pphase (sgn_phase (outcome \<and> ?a)) (if ?o \<noteq> ?a then pmul (gen key) (pmul ?O S) else gen key)"
      using automorphismD(2) [OF automorphism_pexp [OF E] gen_on [OF k]] by (simp add: pconj_def)
    have "fam C4 key = pphase (sgn_phase (outcome \<and> ?a)) (if ?o \<noteq> ?a then pmul (fam C key) (dense_sem e) else fam C key)"
      using s o xg i by (cases c; cases ?a; cases ?o) (simp_all add: key C1(4) C2(4) C3(4) C4(4))
    also have "\<dots> = cpre C (?h (gen key))"
      unfolding h F clifford.pre_pphase cpre_gen [OF v k, symmetric]
      using clifford.pre_pmul [OF gen_on [OF k] pauli_on_pmul [OF O S1]] by simp
    finally show ?thesis .
  qed
  from frame_change [OF v aut C4(2,3) this] run fe e(4) r(2) C4(3) show ?thesis by auto
qed

end

section \<open>The measured states\<close>

lemma pivot_stabilizer:
  assumes P: "pauli_on (num_qubits C) P" and q: "q \<in> fst (cpre C P)"
  obtains S where "pinv_on (num_qubits C) S" "cpre C S = zop q" "panti S P" "q < num_qubits C"
proof -
  have qn: "q < num_qubits C" using clifford.pre_on [OF P] q by (auto simp: pauli_on_def)
  obtain S where S: "pauli_on (num_qubits C) S" "cpre C S = zop q" using cpre_image [of C "zop q"] qn by auto
  have "panti S P" using clifford.pre_panti [OF S(1) P] S(2) q by (simp add: panti_generators)
  moreover have "pmul S S = pone" using clifford.pre_relations [OF S(1,1)] S(2) by (simp add: zop_def pmul_def pone_def)
  ultimately show thesis using that S qn by (simp add: pinv_on_def)
qed

lemma encodes_unscaled: "encodes C \<sigma> (scaled c \<psi>) \<Longrightarrow> c \<noteq> 0 \<Longrightarrow> encodes C \<sigma> \<psi>"
  using encodes_scaled [of C \<sigma> "scaled c \<psi>" "1 / c"] by simp

text \<open>A random outcome: the encoder of outcome zero, or the one whose outcome is flipped.\<close>

lemma encodes_random:
  assumes e: "encodes C \<sigma> \<psi>" and O: "pinv_on (num_qubits C) P" and S: "pinv_on (num_qubits C) S" "panti S P" "cpre C S = zop v"
    and v: "v < num_qubits C" and C': "num_qubits C' = num_qubits C"
    and pre: "\<And>Q. pauli_on (num_qubits C) Q \<Longrightarrow> cpre C' Q = cpre C (pexp (pphase 1 (pmul P S)) (if flip then pconj S Q else Q))"
  shows "encodes C' \<sigma> (project (\<sigma> v \<noteq> flip) P \<psi>)"
proof (cases flip)
  case False
  then show ?thesis using encodes_measured [OF e O S v C'] pre by simp
next
  case True
  let ?n = "num_qubits C" and ?E = "pphase 1 (pmul P S)"
  have E: "pinv_on ?n ?E" by (rule measured_pinv [OF O S(1,2)])
  note aut = automorphism_pexp [OF E] and autS = automorphism_pconj [OF S(1)]
  have \<psi>: "pauli_amp S \<psi> = scaled (sgn_amp (\<sigma> v)) \<psi>" by (rule encodesD(2) [OF e v pinv_onD(1) [OF S(1)] S(3)])
  have amp: "pauli_amp S (root_amp \<i> ?E \<psi>) = scaled ((1 + \<i>) * sgn_amp (\<sigma> v)) (project (\<not> \<sigma> v) P \<psi>)"
    unfolding root_projects [OF pinv_onD(2) [OF S(1)] pinv_onD(2) [OF O] \<psi>] pauli_amp_scaled
      stabilizer_swaps [OF S(1) pinv_onD(1) [OF O] S(2) \<psi>] by simp
  have "conjugates ?n (\<lambda>\<psi>. pauli_amp S (root_amp \<i> ?E \<psi>)) (\<lambda>Q. pexp ?E (pconj S Q))"
    by (rule conjugates_comp [OF conjugates_pconj [OF S(1)] conjugates_root [OF E] autS])
  moreover have "reversible ?n (\<lambda>\<psi>. pauli_amp S (root_amp \<i> ?E \<psi>))"
    by (rule reversible_comp [OF pauli_reversible [OF S(1)] root_reversible [OF E]])
  ultimately have "encodes C' \<sigma> (pauli_amp S (root_amp \<i> ?E \<psi>))"
    by (rule encodes_step [OF e C' _ automorphismD(1) [OF automorphism_comp [OF aut autS]], rotated 2]) (use pre True in simp_all)
  then have "encodes C' \<sigma> (project (\<not> \<sigma> v) P \<psi>)"
    unfolding amp by (rule encodes_unscaled) (simp add: sgn_amp_def complex_eq_iff)
  with True show ?thesis by simp
qed

lemma given_up_preimage:
  assumes O: "pinv_on (num_qubits C) P" and S: "pinv_on (num_qubits C) S" "panti S P"
  shows "fst (cpre C (pexp (pphase 1 (pmul P S)) S)) = fst (cpre C P)"
proof -
  have fin: "pfinite P" "pfinite S" using O S(1) by (simp_all add: pinv_onD(2))
  have "panti S (pmul P S)" using panti_pmul [OF fin(1,2,2)] S(2) by simp
  then have "pexp (pphase 1 (pmul P S)) S = pphase 2 P"
    using pinv_onD(3) [OF S(1)] fin by (simp add: pexp_def pmul_assoc)
  then show ?thesis by (simp only: clifford.pre_pphase) (simp add: pphase_def split_beta)
qed

text \<open>The encoder of outcome zero with the signs of the outcome \<open>b\<close>.\<close>

lemma encodes_random_branch:
  assumes e: "encodes C \<sigma> \<psi>" and O: "pinv_on (num_qubits C) P" and S: "pinv_on (num_qubits C) S" "panti S P" "cpre C S = zop v"
    and v: "v < num_qubits C" and C': "num_qubits C' = num_qubits C"
    and pre: "\<And>Q. pauli_on (num_qubits C) Q \<Longrightarrow> cpre C' Q = cpre C (pexp (pphase 1 (pmul P S)) Q)"
  shows "encodes C' (\<lambda>q. \<sigma> q \<noteq> (q \<in> fst (cpre C P) \<and> \<sigma> v \<noteq> b)) (project b P \<psi>)"
proof -
  have z: "encodes C' \<sigma> (project (\<sigma> v) P \<psi>)" by (rule encodes_measured [OF e O S v C' pre])
  show ?thesis
  proof (cases "\<sigma> v = b")
    case True
    with z show ?thesis by simp
  next
    case False
    have \<psi>: "pauli_amp S \<psi> = scaled (sgn_amp (\<sigma> v)) \<psi>" by (rule encodesD(2) [OF e v pinv_onD(1) [OF S(1)] S(3)])
    have S': "pinv_on (num_qubits C') S" using S(1) C' by simp
    have "fst (cpre C' S) = fst (cpre C P)" using pre [OF pinv_onD(1) [OF S(1)]] given_up_preimage [OF O S(1,2)] by simp
    then have "encodes C' (\<lambda>q. \<sigma> q \<noteq> (q \<in> fst (cpre C P))) (pauli_amp S (project (\<sigma> v) P \<psi>))"
      using encodes_signs [OF z S'] by simp
    then have "encodes C' (\<lambda>q. \<sigma> q \<noteq> (q \<in> fst (cpre C P))) (project (\<not> \<sigma> v) P \<psi>)"
      unfolding stabilizer_swaps [OF S(1) pinv_onD(1) [OF O] S(2) \<psi>] by (rule encodes_unscaled) (simp add: phase_amp_nonzero)
    with False show ?thesis by simp
  qed
qed

section \<open>Qubits out of use\<close>

definition unused :: "clifford_unitary \<Rightarrow> nat \<Rightarrow> bool" where
  "unused C m \<longleftrightarrow> (\<forall>q. m \<le> q \<longrightarrow> q < num_qubits C \<longrightarrow> idle C q)"

lemma unused_gens:
  assumes "clifford_valid C" "unused C m" "m \<le> q" "q < num_qubits C"
  shows "cpre C (gen (c, q)) = gen (c, q)"
  using assms cpre_gen [OF assms(1), of "(c, q)"] by (cases c) (simp_all add: unused_def idle_def)

lemma unused_support:
  assumes v: "clifford_valid C" and u: "unused C m" and P: "pauli_on (num_qubits C) P"
  shows "pauli_on m (cpre C P) \<longleftrightarrow> pauli_on m P"
proof -
  have on: "pauli_on m Q \<longleftrightarrow> (\<forall>c q. m \<le> q \<longrightarrow> q < num_qubits C \<longrightarrow> \<not> panti (gen (c, q)) Q)" if Q: "pauli_on (num_qubits C) Q" for Q
  proof
    show "\<forall>c q. m \<le> q \<longrightarrow> q < num_qubits C \<longrightarrow> \<not> panti (gen (c, q)) Q" if "pauli_on m Q" using gen_outside [OF that] by blast
    assume a: "\<forall>c q. m \<le> q \<longrightarrow> q < num_qubits C \<longrightarrow> \<not> panti (gen (c, q)) Q"
    have "q \<notin> fst Q \<and> q \<notin> fst (snd Q)" if q: "m \<le> q" for q
    proof (cases "q < num_qubits C")
      case True
      then have "\<not> panti (gen (True, q)) Q" "\<not> panti (gen (False, q)) Q" using a q by blast+
      then show ?thesis unfolding gen_anti by simp
    next
      case False
      then show ?thesis using Q by (auto simp: pauli_on_def)
    qed
    then show "pauli_on m Q" unfolding pauli_on_def subset_iff lessThan_iff by (meson linorder_not_le)
  qed
  have "panti (gen (c, q)) (cpre C P) = panti (gen (c, q)) P" if q: "m \<le> q" "q < num_qubits C" for c q
    using clifford.pre_panti [OF gen_on P, of "(c, q)"] unused_gens [OF v u q, of c] q(2) by simp
  then show ?thesis unfolding on [OF clifford.pre_on [OF P]] on [OF P] by simp
qed

lemma unused_step:
  assumes v: "clifford_valid C" "clifford_valid C'" and u: "unused C m" and n: "num_qubits C' = num_qubits C"
    and pre: "\<And>P. pauli_on (num_qubits C) P \<Longrightarrow> cpre C' P = cpre C (h P)" and h: "keeps m h"
  shows "unused C' m"
proof -
  have "fam C' (c, q) = gen (c, q)" if q: "m \<le> q" "q < num_qubits C" for c q
    using cpre_gen [OF v(2), of "(c, q)"] pre [of "gen (c, q)"] keepsD [OF h q(1)] unused_gens [OF v(1) u q] q(2) n by simp
  from this [of _ False] this [of _ True] show ?thesis by (simp add: unused_def idle_def n)
qed

lemma unused_stabilizer:
  assumes v: "clifford_valid C" "unused C m" and P: "pauli_on (num_qubits C) P" "pauli_on m P" and q: "q \<in> fst (cpre C P)"
    and S: "pauli_on (num_qubits C) S" "cpre C S = zop q"
  shows "pauli_on m S"
proof -
  have "q < m" using unused_support [OF v P(1)] P(2) q by (auto simp: pauli_on_def)
  then show ?thesis using unused_support [OF v S(1)] S(2) by simp
qed

end
