(* ===== verification/Simulation_Interface.thy ===== *)
theory Simulation_Interface
  imports Random_Outcome
begin

text \<open>
  The trait \<open>Simulation\<close> of \<open>pauliverse\<close> (\<open>lib.rs\<close>): its operations as a datatype, what they do to a state vector and to the
  outcomes as a step relation whose measurements have every outcome of nonzero probability, and the contract of a
  simulator: each step it takes is a step of the machine, and its state represents the machine's.
\<close>

section \<open>Operations\<close>

datatype 's sim_op =
    AllocateRandomBit
  | UnitaryOperation unitary_op "nat list"
  | PermuteQubits "nat list" "nat list"
  | ApplyPauli "'s pauli_unitary"
  | PauliExp "'s pauli_unitary"
  | ControlledPauli "'s pauli_unitary" "'s pauli_unitary"
  | ConditionalPauli "'s pauli_unitary" "nat list" bool
  | Measure "'s pauli_unitary"
  | MeasureWithHint "'s pauli_unitary" "'s pauli_unitary"

definition observable_ok :: "'s sorted_lib \<Rightarrow> 's pauli_unitary \<Rightarrow> bool" where
  "observable_ok S p \<longleftrightarrow> sparse_ok S p \<and> pmul (sparse_sem S p) (sparse_sem S p) = pone"

text \<open>What the documentation asks of the arguments when \<open>k\<close> outcomes are known: gates on distinct qubits, permutations,
  Hermitian operators that commute under a control and anticommute with a hint, outcomes that exist.\<close>

fun op_fits :: "'s sorted_lib \<Rightarrow> nat \<Rightarrow> 's sim_op \<Rightarrow> bool" where
  "op_fits S k AllocateRandomBit = True"
| "op_fits S k (UnitaryOperation op support) = (op = OpI \<or> length support = gate_arity op \<and> distinct support)"
| "op_fits S k (PermuteQubits permutation support) =
     (is_permutation permutation \<and> distinct support \<and> length permutation = length support)"
| "op_fits S k (ApplyPauli p) = observable_ok S p"
| "op_fits S k (PauliExp p) = observable_ok S p"
| "op_fits S k (ControlledPauli p r) =
     (observable_ok S p \<and> observable_ok S r \<and> \<not> panti (sparse_sem S p) (sparse_sem S r))"
| "op_fits S k (ConditionalPauli p outcomes parity) = (observable_ok S p \<and> (\<forall>j \<in> set outcomes. j < k))"
| "op_fits S k (Measure p) = observable_ok S p"
| "op_fits S k (MeasureWithHint p hint) =
     (observable_ok S p \<and> observable_ok S hint \<and> panti (sparse_sem S p) (sparse_sem S hint))"

section \<open>The machine\<close>

definition outcome_parity :: "bool list \<Rightarrow> nat list \<Rightarrow> bool" where
  "outcome_parity outcomes ids = fold (\<lambda>j r. r \<noteq> outcomes ! j) ids False"

type_synonym machine = "amps \<times> bool list"

inductive qstep :: "'s sorted_lib \<Rightarrow> 's sim_op \<Rightarrow> machine \<Rightarrow> machine \<Rightarrow> bool" for S where
  q_allocate: "qstep S AllocateRandomBit (\<psi>, os) (\<psi>, os @ [b])"
| q_unitary: "qstep S (UnitaryOperation op support) (\<psi>, os) (gate_amp op support \<psi>, os)"
| q_permute: "qstep S (PermuteQubits permutation support) (\<psi>, os) (permute_amp (moved permutation support) \<psi>, os)"
| q_pauli: "qstep S (ApplyPauli p) (\<psi>, os) (pauli_amp (sparse_sem S p) \<psi>, os)"
| q_exp: "qstep S (PauliExp p) (\<psi>, os) (exp_amp (sparse_sem S p) \<psi>, os)"
| q_controlled: "qstep S (ControlledPauli p r) (\<psi>, os) (controlled_amp (sparse_sem S p) (sparse_sem S r) \<psi>, os)"
| q_conditional: "qstep S (ConditionalPauli p outcomes parity) (\<psi>, os)
    (if outcome_parity os outcomes = parity then pauli_amp (sparse_sem S p) \<psi> else \<psi>, os)"
| q_measure: "project b (sparse_sem S p) \<psi> s \<noteq> 0 \<Longrightarrow>
    qstep S (Measure p) (\<psi>, os) (project b (sparse_sem S p) \<psi>, os @ [b])"
| q_hint: "project b (sparse_sem S p) \<psi> s \<noteq> 0 \<Longrightarrow>
    qstep S (MeasureWithHint p hint) (\<psi>, os) (project b (sparse_sem S p) \<psi>, os @ [b])"

inductive_simps qstep_simps:
  "qstep S AllocateRandomBit (\<psi>, os) q" "qstep S (UnitaryOperation op support) (\<psi>, os) q"
  "qstep S (PermuteQubits permutation support) (\<psi>, os) q" "qstep S (ApplyPauli p) (\<psi>, os) q" "qstep S (PauliExp p) (\<psi>, os) q"
  "qstep S (ControlledPauli p r) (\<psi>, os) q" "qstep S (ConditionalPauli p outcomes parity) (\<psi>, os) q"
  "qstep S (Measure p) (\<psi>, os) q" "qstep S (MeasureWithHint p hint) (\<psi>, os) q"

inductive qsteps :: "'s sorted_lib \<Rightarrow> 's sim_op list \<Rightarrow> machine \<Rightarrow> machine \<Rightarrow> bool" for S where
  qs_nil: "qsteps S [] q q"
| qs_cons: "qstep S op q q' \<Longrightarrow> qsteps S ops q' q'' \<Longrightarrow> qsteps S (op # ops) q q''"

text \<open>A program for a simulator that knows \<open>k\<close> outcomes: every operation fits when its turn comes and, where a simulator
  is sure to have room for the first \<open>n\<close> qubits only, conditional Paulis act on those.\<close>

fun records_outcome :: "'s sim_op \<Rightarrow> bool" where
  "records_outcome AllocateRandomBit = True"
| "records_outcome (Measure p) = True"
| "records_outcome (MeasureWithHint p hint) = True"
| "records_outcome _ = False"

fun within_room :: "'s sorted_lib \<Rightarrow> nat option \<Rightarrow> 's sim_op \<Rightarrow> bool" where
  "within_room S (Some n) (ConditionalPauli p outcomes parity) = pauli_on n (sparse_sem S p)"
| "within_room S _ _ = True"

fun program_fits :: "'s sorted_lib \<Rightarrow> nat option \<Rightarrow> nat \<Rightarrow> 's sim_op list \<Rightarrow> bool" where
  "program_fits S room k [] = True"
| "program_fits S room k (op # ops) =
     (op_fits S k op \<and> within_room S room op \<and> program_fits S room (if records_outcome op then k + 1 else k) ops)"

lemma within_room_mono: "within_room S (Some m) op \<Longrightarrow> m \<le> n \<Longrightarrow> within_room S (Some n) op"
  by (cases op) (simp_all add: pauli_on_mono)

lemma within_room_None [simp]: "within_room S None op"
  by (cases op) simp_all

lemma qstep_records: "qstep S op (\<psi>, os) (\<phi>, os') \<Longrightarrow> length os' = (if records_outcome op then length os + 1 else length os)"
  by (auto elim: qstep.cases)

section \<open>The contract of a simulator\<close>

text \<open>The operations of a run are accepted one after the other, each in the state the earlier ones lead to.\<close>

fun accepted :: "('st \<Rightarrow> 'op \<Rightarrow> bool) \<Rightarrow> ('op \<Rightarrow> 'st \<Rightarrow> 'st option) \<Rightarrow> 'op list \<Rightarrow> 'st \<Rightarrow> bool" where
  "accepted accepts step [] st = True"
| "accepted accepts step (op # ops) st =
     (accepts st op \<and> (case step op st of None \<Rightarrow> True | Some st' \<Rightarrow> accepted accepts step ops st'))"

locale stabilizer_simulator =
  fixes S :: "'s sorted_lib" and step :: "'s sim_op \<Rightarrow> 'st \<Rightarrow> 'st option"
    and represents :: "'st \<Rightarrow> machine \<Rightarrow> bool" and accepts :: "'st \<Rightarrow> 's sim_op \<Rightarrow> bool"
  assumes step_refines: "represents st q \<Longrightarrow> accepts st op \<Longrightarrow>
    \<exists>st' q'. step op st = Some st' \<and> qstep S op q q' \<and> represents st' q'"
begin

lemma run_refines:
  "represents st q \<Longrightarrow> accepted accepts step ops st \<Longrightarrow>
    \<exists>st' q'. ofold step ops st = Some st' \<and> qsteps S ops q q' \<and> represents st' q'"
proof (induction ops arbitrary: st q)
  case Nil
  then show ?case by (intro exI [of _ st] exI [of _ q]) (simp add: qs_nil)
next
  case (Cons op ops)
  obtain st1 q1 where 1: "step op st = Some st1" "qstep S op q q1" "represents st1 q1"
    using step_refines [OF Cons.prems(1), of op] Cons.prems(2) by auto
  with Cons.prems(2) Cons.IH [OF 1(3)] obtain st2 q2 where "ofold step ops st1 = Some st2" "qsteps S ops q1 q2" "represents st2 q2" by auto
  with 1 show ?case by (intro exI [of _ st2] exI [of _ q2]) (simp add: qs_cons)
qed

end

text \<open>A simulator whose one state represents many runs, one for every branch: each operation is a step of the machine in
  every branch, and every step the machine can take in a branch is taken in some branch.\<close>

locale branching_simulator =
  fixes S :: "'s sorted_lib" and step :: "'s sim_op \<Rightarrow> 'st \<Rightarrow> 'st option"
    and represents :: "'b \<Rightarrow> 'st \<Rightarrow> machine \<Rightarrow> bool" and accepts :: "'st \<Rightarrow> 's sim_op \<Rightarrow> bool"
  assumes branch_refines: "represents \<beta> st q \<Longrightarrow> accepts st op \<Longrightarrow>
      \<exists>st' q'. step op st = Some st' \<and> qstep S op q q' \<and> represents \<beta> st' q'"
    and branch_complete: "represents \<beta> st q \<Longrightarrow> accepts st op \<Longrightarrow> step op st = Some st' \<Longrightarrow> qstep S op q q' \<Longrightarrow>
      \<exists>\<gamma>. represents \<gamma> st' q'"

sublocale branching_simulator \<subseteq> branch: stabilizer_simulator S step "represents \<beta>" accepts for \<beta>
  by unfold_locales (rule branch_refines)

context branching_simulator
begin

lemma run_complete:
  "qsteps S ops q q' \<Longrightarrow> represents \<beta> st q \<Longrightarrow> accepted accepts step ops st \<Longrightarrow> ofold step ops st = Some st' \<Longrightarrow>
    \<exists>\<gamma>. represents \<gamma> st' q'"
proof (induction arbitrary: \<beta> st rule: qsteps.induct)
  case (qs_nil q)
  then show ?case by auto
next
  case (qs_cons op q q1 ops q2)
  obtain st1 where 1: "step op st = Some st1" "ofold step ops st1 = Some st'" using qs_cons.prems(3) by (auto simp: bind_eq_Some_conv)
  with qs_cons.prems(2) have "accepts st op" "accepted accepts step ops st1" by simp_all
  moreover from branch_complete [OF qs_cons.prems(1) this(1) 1(1) qs_cons.hyps(1)] obtain \<gamma> where "represents \<gamma> st1 q1" by blast
  ultimately show ?case using qs_cons.IH 1(2) by blast
qed

end

section \<open>Operations of the encoder\<close>

text \<open>\<open>operates C m U r\<close>: the operation returned a valid encoder of the same size; whatever state \<open>C\<close> encodes, the new
  encoder encodes its image under \<open>U\<close>, and the qubits from \<open>m\<close> on are still unused.\<close>

definition operates :: "clifford_unitary \<Rightarrow> nat \<Rightarrow> (amps \<Rightarrow> amps) \<Rightarrow> clifford_unitary option \<Rightarrow> bool" where
  "operates C m U r \<longleftrightarrow> (\<exists>C'. r = Some C' \<and> clifford_valid C' \<and> num_qubits C' = num_qubits C \<and>
     (unused C m \<longrightarrow> unused C' m) \<and> (\<forall>\<sigma> \<psi>. encodes C \<sigma> \<psi> \<longrightarrow> encodes C' \<sigma> (U \<psi>)))"

lemma operatesE:
  assumes "operates C m U r"
  obtains C' where "r = Some C'" "clifford_valid C'" "num_qubits C' = num_qubits C" "unused C m \<Longrightarrow> unused C' m"
    "\<And>\<sigma> \<psi>. encodes C \<sigma> \<psi> \<Longrightarrow> encodes C' \<sigma> (U \<psi>)"
  using assms unfolding operates_def by blast

lemma acts_operates:
  assumes v: "clifford_valid C" and a: "acts C h r" and aut: "automorphism (num_qubits C) h"
    and U: "conjugates (num_qubits C) U h" "reversible (num_qubits C) U" and k: "keeps m h"
  shows "operates C m U r"
proof (rule actsE [OF a])
  fix C'
  assume C': "r = Some C'" "clifford_valid C'" "num_qubits C' = num_qubits C"
    and pre: "\<And>P. pauli_on (num_qubits C) P \<Longrightarrow> cpre C' P = cpre C (h P)"
  have "encodes C' \<sigma> (U \<psi>)" if "encodes C \<sigma> \<psi>" for \<sigma> \<psi>
    by (rule encodes_step [OF that C'(3) pre automorphismD(1) [OF aut] U])
  moreover have "unused C m \<Longrightarrow> unused C' m" by (rule unused_step [OF v C'(2) _ C'(3) pre k])
  ultimately show ?thesis using C' by (auto simp: operates_def)
qed

lemma operates_gate:
  assumes "clifford_valid C" "gate_fits m op support" "m \<le> num_qubits C"
  shows "operates C m (gate_amp op support) (left_mul op support C)"
proof -
  have f: "gate_fits (num_qubits C) op support" by (rule gate_fits_mono [OF assms(2,3)])
  show ?thesis
    by (rule acts_operates [OF assms(1) left_mul_acts [OF assms(1) f] gate_conj_automorphism [OF f] gate_amp_conjugates [OF f]
          gate_reversible [OF f] keeps_gate [OF assms(2)]])
qed

lemma operates_permute:
  assumes v: "clifford_valid C" and perm: "is_permutation permutation" and sup: "distinct support" "set support \<subseteq> {..<m}"
    and len: "length permutation = length support" and m: "m \<le> num_qubits C"
  shows "operates C m (permute_amp (moved permutation support)) (left_mul_permutation permutation support C)"
proof -
  let ?f = "moved permutation support"
  have sup': "set support \<subseteq> {..<num_qubits C}" using sup(2) m by auto
  have p: "distinct permutation" "set permutation = {..<length permutation}" using perm by (simp_all add: is_permutation_iff)
  note f = moved_facts [OF sup(1) p len]
  have im: "?f ` {..<num_qubits C} \<subseteq> {..<num_qubits C}" by (rule f(4) [OF sup'])
  have out: "?f q = q" if "m \<le> q" for q by (rule f(2)) (use sup(2) that in auto)
  have "?f ` set support = set support"
  proof (rule card_subset_eq)
    show "?f ` set support \<subseteq> set support"
    proof
      fix x
      assume "x \<in> ?f ` set support"
      then obtain i where "i < length support" "x = ?f (support ! i)" by (auto simp: in_set_conv_nth)
      moreover have "permutation ! i < length support" if "i < length support" for i using nth_mem [of i permutation] p(2) len that by auto
      ultimately show "x \<in> set support" using f(1) by simp
    qed
    show "card (?f ` set support) = card (set support)" by (rule card_image [OF inj_on_subset [OF f(3) subset_UNIV]])
  qed simp
  then have "surj ?f" using f(2) unfolding surj_def by (metis imageE)
  then have bij: "bij ?f" using f(3) by (simp add: bij_def)
  have "keeps m (pperm ?f)" using out by (simp add: keeps_def pperm_gen)
  moreover have "reversible (num_qubits C) (permute_amp ?f)" by (rule permute_reversible [OF bij]) (use out m in simp)
  ultimately show ?thesis
    using acts_operates [OF v permutation_acts [OF v perm sup(1) sup' len] pperm_automorphism [OF inj_on_subset [OF f(3) subset_UNIV] im]
        conjugates_permute [OF bij]] by blast
qed

lemma num_zero_pauli:
  assumes "pauli_on 0 E"
  shows "\<not> panti P E" "\<not> panti E P"
  using assms by (cases E; cases P; simp add: pauli_on_def panti_def)+

lemma operates_idle:
  assumes v: "clifford_valid C" and n: "num_qubits C = 0" and U: "conjugates 0 U h" "reversible 0 U" and h: "\<And>P. pauli_on 0 P \<Longrightarrow> h P = P"
  shows "operates C m U (Some C)"
proof -
  have "encodes C \<sigma> (U \<psi>)" if e: "encodes C \<sigma> \<psi>" for \<sigma> \<psi>
    by (rule encodes_step [OF e refl, where h = h]) (use h U n in simp_all)
  then show ?thesis using v by (simp add: operates_def)
qed

context pauli_bits
begin

lemma support_below:
  assumes p: "unitary_ok ok cap p" and m: "\<And>i. projective_max_support B (projective p) = Some i \<Longrightarrow> i < m"
  shows "pauli_on m (psem bset p)"
proof -
  have ok': "ok (px p)" "ok (pz p)" using p by (simp_all add: pauli_ok_def)
  have x: "i < m" if "i \<in> bset (px p)" for i
  proof -
    have "bset (px p) \<noteq> {}" "i \<le> Max (bset (px p))" using that Max_ge [OF bset_finite [OF ok'(1)] that] by auto
    moreover obtain j where "projective_max_support B (projective p) = Some j" "Max (bset (px p)) \<le> j"
      using calculation(1) by (cases "bset (pz p) = {}") (simp_all add: projective_max_support_def max_opt_def max_support ok')
    ultimately show ?thesis using m by fastforce
  qed
  have z: "i < m" if "i \<in> bset (pz p)" for i
  proof -
    have "bset (pz p) \<noteq> {}" "i \<le> Max (bset (pz p))" using that Max_ge [OF bset_finite [OF ok'(2)] that] by auto
    moreover obtain j where "projective_max_support B (projective p) = Some j" "Max (bset (pz p)) \<le> j"
      using calculation(1) by (cases "bset (px p) = {}") (simp_all add: projective_max_support_def max_opt_def max_support ok')
    ultimately show ?thesis using m by fastforce
  qed
  from x z show ?thesis by (auto simp: pauli_on_def psem_def)
qed

lemma operates_pauli:
  assumes v: "clifford_valid C" and p: "unitary_ok ok cap p" "pinv_on m (psem bset p)" and m: "m \<le> num_qubits C"
  shows "operates C m (pauli_amp (psem bset p)) (left_mul_pauli B p C)"
proof -
  have P: "pinv_on (num_qubits C) (psem bset p)" by (rule pinv_on_mono [OF p(2) m])
  show ?thesis
    by (rule acts_operates [OF v left_mul_pauli_acts [OF v p(1) pinv_onD(1) [OF P]] automorphism_pconj [OF P] conjugates_pconj [OF P]
          pauli_reversible [OF P] keeps_basic(1) [OF pinv_onD(1) [OF p(2)]]])
qed

lemma operates_exp:
  assumes v: "clifford_valid C" and p: "unitary_ok ok cap p" "pinv_on m (psem bset p)" and m: "m \<le> num_qubits C"
  shows "operates C m (exp_amp (psem bset p)) (left_mul_pauli_exp B p C)"
proof -
  let ?E = "psem bset p"
  have P: "pinv_on (num_qubits C) ?E" by (rule pinv_on_mono [OF p(2) m])
  show ?thesis
  proof (cases "num_qubits C = 0")
    case True
    have "operates C m (exp_amp ?E) (Some C)"
      by (rule operates_idle [OF v True, where h = "pexp (pphase 2 ?E)"])
         (use P True conjugates_exp [of 0 ?E] exp_reversible [of 0 ?E] num_zero_pauli [OF pinv_onD(1), of ?E] in \<open>simp_all add: pexp_def\<close>)
    then show ?thesis using True by (simp add: left_mul_pauli_exp_def)
  next
    case False
    show ?thesis
      by (rule acts_operates [OF v pauli_exp_acts [OF v _ p(1) pinv_onD(1) [OF P] pinv_onD(3) [OF P]] automorphism_pexp
            conjugates_exp [OF P] exp_reversible [OF P] keeps_basic(2)]) (use False P p(2) in \<open>simp_all add: pinv_on_def\<close>)
  qed
qed

lemma operates_controlled:
  assumes v: "clifford_valid C" and p: "unitary_ok ok cap p" "pinv_on m (psem bset p)" and r: "unitary_ok ok cap r" "pinv_on m (psem bset r)"
    and caps: "pcap cap p = pcap cap r" and comm: "\<not> panti (psem bset p) (psem bset r)" and m: "m \<le> num_qubits C"
  shows "operates C m (controlled_amp (psem bset p) (psem bset r)) (left_mul_controlled_pauli B p r C)"
proof -
  let ?E = "psem bset p" and ?F = "psem bset r"
  have P: "pinv_on (num_qubits C) ?E" and R: "pinv_on (num_qubits C) ?F" by (rule pinv_on_mono [OF p(2) m], rule pinv_on_mono [OF r(2) m])
  show ?thesis
  proof (cases "num_qubits C = 0")
    case True
    have "operates C m (controlled_amp ?E ?F) (Some C)"
      by (rule operates_idle [OF v True, where h = "pctrl ?E ?F"])
         (use P R True conjugates_controlled [of 0 ?E ?F] controlled_reversible [of 0 ?E ?F] comm num_zero_pauli [OF pinv_onD(1), of ?E]
            num_zero_pauli [OF pinv_onD(1), of ?F] in \<open>simp_all add: pctrl_def\<close>)
    then show ?thesis using True by (simp add: left_mul_controlled_pauli_def)
  next
    case False
    then have n: "0 < num_qubits C" by simp
    show ?thesis
      by (rule acts_operates [OF v controlled_pauli_acts [OF v n p(1) pinv_onD(1,3) [OF P] r(1) pinv_onD(1,3) [OF R] caps comm]
            automorphism_pctrl [OF P R comm] conjugates_controlled [OF P R comm] controlled_reversible [OF P R comm]
            keeps_basic(3) [OF pinv_onD(1) [OF p(2)] pinv_onD(1) [OF r(2)]]])
  qed
qed

end

section \<open>Resizing the encoder\<close>

lemma resize_grows:
  assumes v: "clifford_valid C" and n: "num_qubits C \<le> n" and u: "unused C m"
  shows "\<exists>D. clifford_resize n C = Some D \<and> clifford_valid D \<and> num_qubits D = n \<and> (m \<le> num_qubits C \<longrightarrow> unused D m) \<and>
    (\<forall>\<sigma> \<tau> \<psi>. encodes C \<sigma> \<psi> \<longrightarrow> (\<forall>q < n. \<tau> q \<longleftrightarrow> q < num_qubits C \<and> \<sigma> q) \<longrightarrow> encodes D \<tau> \<psi>)"
proof -
  obtain D where D: "clifford_resize n C = Some D" "clifford_valid D" "num_qubits D = n"
      "\<And>P. pauli_on (num_qubits C) P \<Longrightarrow> cpre D P = cpre C P" "\<And>q. num_qubits C \<le> q \<Longrightarrow> q < n \<Longrightarrow> idle D q"
    using clifford_resize_run [OF v, of n] n by (auto simp: min_def)
  have "idle D q" if "m \<le> q" "q < num_qubits C" for q
  proof -
    have "fam D (c, q) = fam C (c, q)" for c
      using cpre_gen [OF D(2), of "(c, q)"] cpre_gen [OF v, of "(c, q)"] D(4) [of "gen (c, q)"] that n D(3) by simp
    then show ?thesis using u that by (simp add: unused_def idle_def)
  qed
  with D(5) have "m \<le> num_qubits C \<longrightarrow> unused D m" unfolding unused_def D(3) by (meson linorder_not_le)
  moreover have "encodes D \<tau> \<psi>" if e: "encodes C \<sigma> \<psi>" and t: "\<forall>q < n. \<tau> q \<longleftrightarrow> q < num_qubits C \<and> \<sigma> q" for \<sigma> \<tau> \<psi>
    by (rule encodes_grow [OF e D(2) _ D(4)]) (use n D(3,5) t in auto)
  ultimately show ?thesis using D(1-3) by blast
qed

lemma resize_shrinks:
  assumes v: "clifford_valid C" and n: "n \<le> num_qubits C" and u: "unused C n"
  shows "\<exists>D. clifford_resize n C = Some D \<and> clifford_valid D \<and> num_qubits D = n \<and>
    (\<forall>\<sigma> \<psi>. encodes C \<sigma> \<psi> \<longrightarrow> (\<forall>q. n \<le> q \<longrightarrow> q < num_qubits C \<longrightarrow> \<not> \<sigma> q) \<longrightarrow> encodes D \<sigma> \<psi>)"
proof -
  obtain D where D: "clifford_resize n C = Some D" "clifford_valid D" "num_qubits D = n"
      "\<And>P. pauli_on n P \<Longrightarrow> cpre D P = cpre C P"
    using clifford_resize_run [OF v, of n] n u by (auto simp: unused_def min_def split: if_splits)
  have "encodes D \<sigma> \<psi>" if "encodes C \<sigma> \<psi>" "\<forall>q. n \<le> q \<longrightarrow> q < num_qubits C \<longrightarrow> \<not> \<sigma> q" for \<sigma> \<psi>
    by (rule encodes_shrink [OF that(1) v]) (use n D(3,4) u that(2) in \<open>auto simp: unused_def\<close>)
  with D(1-3) show ?thesis by blast
qed

section \<open>What the simulators share\<close>

lemma unused_mono: "unused C m \<Longrightarrow> m \<le> n \<Longrightarrow> unused C n"
  by (simp add: unused_def)

lemma list_max_bound: "(\<And>i. list_max xs = Some i \<Longrightarrow> i < m) \<Longrightarrow> set xs \<subseteq> {..<m}"
  using list_max_le [of xs] list_max_None [of xs] by (cases "list_max xs") (auto, force)

context sorted_library
begin

lemma observable_below:
  assumes "observable_ok S p" "\<And>i. projective_max_support (sparse_ops S) (projective p) = Some i \<Longrightarrow> i < m"
  shows "sparse_ok S p" "pinv_on m (sparse_sem S p)"
  using assms sparse.support_below [of p m] by (simp_all add: observable_ok_def pinv_on_def)

lemma pair_below:
  assumes "observable_ok S p" "observable_ok S h" "\<And>i. max_pair_support (sparse_ops S) p h = Some i \<Longrightarrow> i < m"
  shows "pinv_on m (sparse_sem S p)" "pinv_on m (sparse_sem S h)"
proof -
  have "i < m" if "projective_max_support (sparse_ops S) (projective p) = Some i \<or> projective_max_support (sparse_ops S) (projective h) = Some i" for i
    using assms(3) that by (fastforce simp: max_pair_support_def max_opt_def split: option.splits)
  then show "pinv_on m (sparse_sem S p)" "pinv_on m (sparse_sem S h)" using observable_below assms(1,2) by blast+
qed

end

text \<open>The preimage of an observable that has no X component is \<open>Z\<close>s with a sign.\<close>

lemma phase_self_inverse: "(k :: phase) + k = 0 \<Longrightarrow> k = 0 \<or> k = 2"
proof -
  assume d: "k + k = 0"
  have "unat k \<in> {0, 1, 2, 3}" using unsigned_less [of k, where 'a = nat] by auto
  then have "k = 0 \<or> k = 1 \<or> k = 2 \<or> k = 3" by (auto simp: word_unat_eq_iff)
  with d show "k = 0 \<or> k = 2" by auto
qed

lemma phase_value_two: "phase_value a = 2 \<longleftrightarrow> ph a = 2" "phase_value a = 0 \<longleftrightarrow> ph a = 0"
  using ph_eq_iff [of a 2] ph_eq_iff [of a 0] by (simp_all add: phase_value_def)

lemma sign_of_phase:
  assumes two: "pmul (dense_sem p) (dense_sem p) = pone" and z: "fst (dense_sem p) = {}"
  shows "phase_is_even (xz_phase_exponent p)"
    "snd (snd (dense_sem p)) = sgn_phase (phase_value (xz_phase_exponent p) = 2)"
proof -
  let ?a = "xz_phase_exponent p"
  have k: "snd (snd (dense_sem p)) = ph ?a" by (simp add: psem_def ph_phase_exponent)
  have d: "ph ?a + ph ?a = 0" using two z by (cases "dense_sem p") (simp add: pmul_def pone_def flip: k)
  then show "phase_is_even ?a" using phase_is_even_ph [of ?a] by simp
  from phase_self_inverse [OF d] show "snd (snd (dense_sem p)) = sgn_phase (phase_value ?a = 2)"
    by (auto simp: k phase_value_two sgn_phase_def)
qed

text \<open>The rotation by the product of the observable and a hint that stabilizes the state projects on outcome zero.\<close>

lemma pinv_on_negated: "pinv_on n E \<Longrightarrow> pinv_on n (pphase 2 E)"
  by (simp add: pinv_on_def)

lemma hint_projects:
  assumes P: "pinv_on n P" and T: "pinv_on n T" "panti T P" "pauli_amp T \<psi> = scaled (sgn_amp w) \<psi>"
  shows "pinv_on n (pphase (3 - sgn_phase v) (pmul P T))"
    "exp_amp (pphase (3 - sgn_phase v) (pmul P T)) \<psi> = scaled (sqrt 2) (project (w \<noteq> v) P \<psi>)"
proof -
  show "pinv_on n (pphase (3 - sgn_phase v) (pmul P T))"
    using measured_pinv [OF P T(1,2)] pinv_on_negated [OF measured_pinv [OF P T(1,2)]] by (cases v) (simp_all add: sgn_phase_def)
  have three: "phase_amp 3 = - \<i>" using phase_amp_add [of 1 2] by simp
  have "pauli_amp (pphase (3 - sgn_phase v) (pmul P T)) \<psi> = scaled (phase_amp (3 - sgn_phase v) * sgn_amp w) (pauli_amp P \<psi>)"
    unfolding pauli_amp_phase pauli_amp_pmul [OF pinv_onD(2) [OF P] pinv_onD(2) [OF T(1)]] T(3) pauli_amp_scaled
    by (simp add: scaled_def mult.assoc)
  also have "phase_amp (3 - sgn_phase v) * sgn_amp w = - \<i> * sgn_amp (w \<noteq> v)" by (cases v; cases w) (simp_all add: sgn_phase_def three)
  finally have "exp_amp (pphase (3 - sgn_phase v) (pmul P T)) \<psi> = scaled (2 / sqrt 2) (project (w \<noteq> v) P \<psi>)"
    by (simp add: exp_amp_def project_def scaled_def fun_eq_iff field_simps)
  also have "complex_of_real (2 / sqrt 2) = complex_of_real (sqrt 2)" by (simp add: real_div_sqrt)
  finally show "exp_amp (pphase (3 - sgn_phase v) (pmul P T)) \<psi> = scaled (sqrt 2) (project (w \<noteq> v) P \<psi>)" by simp
qed

section \<open>The update for a random outcome\<close>

context sorted_library
begin

lemma random_update:
  assumes C: "clifford_valid C" "unused C m" "m \<le> num_qubits C" and p: "sparse_ok S p" "pinv_on m (sparse_sem S p)"
    and r: "fits (num_qubits C) r" "dense_sem r = cpre C (sparse_sem S p)" and pos: "pos \<in> fst (cpre C (sparse_sem S p))"
  shows "\<exists>T C' f. pinv_on (num_qubits C) T \<and> cpre C T = zop pos \<and> panti T (sparse_sem S p) \<and> pos < num_qubits C \<and>
    update_encoder_for_random_outcome (sparse_ops S) C p r pos b = Some (C', f) \<and> clifford_valid C' \<and> unused C' m \<and>
    num_qubits C' = num_qubits C \<and> fits (num_qubits C) f \<and>
    (\<forall>Q. pauli_on (num_qubits C) Q \<longrightarrow>
       cpre C' Q = cpre C (pexp (pphase 1 (pmul (sparse_sem S p) T)) (if b then pconj T Q else Q)))"
proof -
  let ?n = "num_qubits C" and ?P = "sparse_sem S p"
  have P: "pinv_on ?n ?P" by (rule pinv_on_mono [OF p(2) C(3)])
  obtain T where T: "pinv_on ?n T" "cpre C T = zop pos" "panti T ?P" "pos < ?n" using pivot_stabilizer [OF pinv_onD(1) [OF P] pos] by blast
  let ?h = "\<lambda>Q. pexp (pphase 1 (pmul ?P T)) (if b then pconj T Q else Q)"
  obtain C' f where u: "update_encoder_for_random_outcome (sparse_ops S) C p r pos b = Some (C', f)"
      "clifford_valid C'" "num_qubits C' = ?n" "fits ?n f" "\<And>Q. pauli_on ?n Q \<Longrightarrow> cpre C' Q = cpre C (?h Q)"
    using sparse.update_encoder_run [OF C(1) p(1) P refl r pos T(1,2), of b] by blast
  have Tm: "pauli_on m T" by (rule unused_stabilizer [OF C(1,2) pinv_onD(1) [OF P] pinv_onD(1) [OF p(2)] pos pinv_onD(1) [OF T(1)] T(2)])
  have keep: "keeps m ?h"
  proof -
    have E: "pauli_on m (pphase 1 (pmul ?P T))" using pauli_on_pmul [OF pinv_onD(1) [OF p(2)] Tm] by simp
    show ?thesis using keeps_basic(2) [OF E] keeps_comp [OF keeps_basic(2) [OF E] keeps_basic(1) [OF Tm]] by (cases b) simp_all
  qed
  have "unused C' m" by (rule unused_step [OF C(1) u(2) C(2) u(3) u(5) keep])
  with T u show ?thesis by blast
qed

end

section \<open>A program\<close>

text \<open>A Bell pair whose parity is measured, and a correction that depends on the outcome.\<close>

definition parity_program :: "nat list sim_op list" where
  "parity_program = [UnitaryOperation Hadamard [0], UnitaryOperation ControlledX [0, 1],
     Measure (pauli_from_bits [] [0] 0), ConditionalPauli (pauli_from_bits [0, 1] [] 0) [0] True,
     MeasureWithHint (pauli_from_bits [1] [] 0) (pauli_from_bits [] [1] 0)]"

lemma list_sets_sem: "sparse_sem list_sets (pauli_from_bits xs zs k) = (set xs, set zs, ph k)"
  by (simp add: psem_def pauli_from_bits_def projective_from_bits_def assign_phase_exp_def list_sets_def)

lemma list_sets_observable:
  "ascending xs \<Longrightarrow> ascending zs \<Longrightarrow> set zs \<inter> set xs = {} \<Longrightarrow> k + k = 0 \<Longrightarrow> observable_ok list_sets (pauli_from_bits xs zs k)"
  unfolding observable_ok_def list_sets_sem
  by (simp add: pmul_def pone_def flip: ph_add) (simp add: pauli_ok_def pauli_from_bits_def projective_from_bits_def assign_phase_exp_def
      index_set_ok_def list_sets_def)

lemma parity_program_fits: "program_fits list_sets (Some 2) 0 parity_program" "program_fits list_sets None 0 parity_program"
  by (simp_all add: parity_program_def list_sets_observable list_sets_sem gate_arity_def panti_def pauli_on_def)

end
