(* ===== verification/Outcome_Specific.thy ===== *)
theory Outcome_Specific
  imports Simulation_Interface
begin

text \<open>
  The stabilizer simulator with concrete outcomes, \<open>pauliverse/src/outcome_specific_simulation.rs\<close>: an encoder of the
  current state, the outcomes so far, and a source of random bits.  The source is any function from its state to the
  next bit and state, \<open>None\<close> when it is exhausted.  The buffers a measurement reuses are rewritten before they are read, so
  only the preimage, whose size the resizing keeps in step, is part of the state.
\<close>

section \<open>State\<close>

type_synonym 'g bit_source = "'g \<Rightarrow> (bool \<times> 'g) option"

record 'g outcome_specific =
  os_clifford :: clifford_unitary
  outcome_vector :: "bool list"
  os_source :: 'g
  outcome_introduces_branch_bit :: "bool list"
  num_branch_bits :: nat
  os_qubit_count :: nat
  os_preimage :: "bitblock list pauli_unitary"

definition new_with_bit_source :: "nat \<Rightarrow> 'g \<Rightarrow> 'g outcome_specific option" where
  "new_with_bit_source qubits source = do {
     C \<leftarrow> clifford_identity qubits;
     Some \<lparr> os_clifford = C, outcome_vector = [], os_source = source, outcome_introduces_branch_bit = [], num_branch_bits = 0,
       os_qubit_count = qubits, os_preimage = pauli_neutral_element_of_size dense_ops qubits \<rparr> }"

text \<open>A source that always yields a bit, as the simulator expects.\<close>

definition endless :: "'g bit_source \<Rightarrow> bool" where
  "endless source \<longleftrightarrow> (\<forall>g. source g \<noteq> None)"

text \<open>\<open>ZeroBitIterator\<close>.\<close>

definition zero_bits :: "unit bit_source" where
  "zero_bits g = Some (False, g)"

definition new_with_zero_samples :: "nat \<Rightarrow> unit outcome_specific option" where
  "new_with_zero_samples qubits = new_with_bit_source qubits ()"

section \<open>Capacity\<close>

definition os_qubit_capacity :: "'g outcome_specific \<Rightarrow> nat" where
  "os_qubit_capacity sim = num_qubits (os_clifford sim)"

definition os_outcome_count :: "'g outcome_specific \<Rightarrow> nat" where
  "os_outcome_count sim = length (outcome_introduces_branch_bit sim)"

definition os_reserve_qubits :: "nat \<Rightarrow> 'g outcome_specific \<Rightarrow> 'g outcome_specific option" where
  "os_reserve_qubits new_capacity sim =
     (if new_capacity > os_qubit_capacity sim then do {
        C \<leftarrow> clifford_resize new_capacity (os_clifford sim);
        Some (sim\<lparr>os_clifford := C, os_preimage := pauli_neutral_element_of_size dense_ops new_capacity\<rparr>) }
      else Some sim)"

definition os_ensure_qubit_capacity :: "nat option \<Rightarrow> 'g outcome_specific \<Rightarrow> 'g outcome_specific option" where
  "os_ensure_qubit_capacity max_qubit_id sim = (case max_qubit_id of
       None \<Rightarrow> Some sim
     | Some max_qubit_id \<Rightarrow>
         let sim = sim\<lparr>os_qubit_count := max (os_qubit_count sim) (max_qubit_id + 1)\<rparr>
         in if max_qubit_id \<ge> os_qubit_capacity sim then os_reserve_qubits (next_power_of_two (max_qubit_id + 1)) sim
            else Some sim)"

definition os_state_encoder :: "'g outcome_specific \<Rightarrow> clifford_unitary option" where
  "os_state_encoder sim = clifford_resize (os_qubit_count sim) (os_clifford sim)"

text \<open>The outcome capacity is that of a \<open>Vec\<close>, whose growth the standard library leaves open; the subtraction is checked.\<close>

definition os_reserve_outcomes :: "nat \<Rightarrow> nat \<Rightarrow> nat \<Rightarrow> 'g outcome_specific \<Rightarrow> 'g outcome_specific option" where
  "os_reserve_outcomes capacity new_outcome_capacity new_branch_bit_capacity sim =
     (let new_capacity = max new_outcome_capacity new_branch_bit_capacity
      in if new_capacity > capacity then do { sub_opt new_outcome_capacity capacity; Some sim } else Some sim)"

section \<open>Outcomes\<close>

definition os_allocate_random_bit :: "'g bit_source \<Rightarrow> 'g outcome_specific \<Rightarrow> ('g outcome_specific \<times> nat) option" where
  "os_allocate_random_bit source sim = do {
     (random_bit, g) \<leftarrow> source (os_source sim);
     let sim = sim\<lparr>os_source := g, outcome_vector := outcome_vector sim @ [random_bit],
       outcome_introduces_branch_bit := outcome_introduces_branch_bit sim @ [True], num_branch_bits := num_branch_bits sim + 1\<rparr>;
     Some (sim, length (outcome_introduces_branch_bit sim) - 1) }"

definition total_parity :: "bool list \<Rightarrow> nat list \<Rightarrow> bool option" where
  "total_parity values outcomes_indicator =
     ofold (\<lambda>j res. do { b \<leftarrow> nth_opt values j; Some (res \<noteq> b) }) outcomes_indicator False"

definition os_apply_conditional_pauli_generic ::
  "'b bits_ops \<Rightarrow> 'b pauli_unitary \<Rightarrow> nat list \<Rightarrow> bool \<Rightarrow> 'g outcome_specific \<Rightarrow> 'g outcome_specific option" where
  "os_apply_conditional_pauli_generic B pauli outcomes_indicator parity sim = do {
     total \<leftarrow> total_parity (outcome_vector sim) outcomes_indicator;
     if total = parity then do {
       C \<leftarrow> left_mul_pauli B pauli (os_clifford sim);
       Some (sim\<lparr>os_clifford := C\<rparr>) }
     else Some sim }"

definition os_measure_deterministic :: "'g outcome_specific \<Rightarrow> 'g outcome_specific option" where
  "os_measure_deterministic sim = do {
     let phase = xz_phase_exponent (os_preimage sim);
     guard_opt (phase_is_even phase);
     Some (sim\<lparr>outcome_vector := outcome_vector sim @ [phase_value phase = 2],
       outcome_introduces_branch_bit := outcome_introduces_branch_bit sim @ [False]\<rparr>) }"

definition os_measure :: "'s sorted_lib \<Rightarrow> 'g bit_source \<Rightarrow> 's pauli_unitary \<Rightarrow> 'g outcome_specific \<Rightarrow> ('g outcome_specific \<times> nat) option" where
  "os_measure S source observable sim = do {
     sim \<leftarrow> os_ensure_qubit_capacity (projective_max_support (sparse_ops S) (projective observable)) sim;
     preimage \<leftarrow> assign_clifford_preimage (sparse_ops S) (os_clifford sim) observable (os_preimage sim);
     let sim = sim\<lparr>os_preimage := preimage\<rparr>;
     sim \<leftarrow> (case bo_support dense_ops (px preimage) of
         pos # _ \<Rightarrow> do {
           (sim, _) \<leftarrow> os_allocate_random_bit source sim;
           outcome \<leftarrow> nth_opt (outcome_vector sim) (os_outcome_count sim - 1);
           (C, preimage) \<leftarrow> update_encoder_for_random_outcome (sparse_ops S) (os_clifford sim) observable (os_preimage sim) pos outcome;
           Some (sim\<lparr>os_clifford := C, os_preimage := preimage\<rparr>) }
       | [] \<Rightarrow> os_measure_deterministic sim);
     Some (sim, os_outcome_count sim - 1) }"

definition os_measure_with_hint_generic ::
  "'s sorted_lib \<Rightarrow> 'g bit_source \<Rightarrow> 's pauli_unitary \<Rightarrow> 's pauli_unitary \<Rightarrow> 'g outcome_specific \<Rightarrow> 'g outcome_specific option" where
  "os_measure_with_hint_generic S source observable hint sim = do {
     anti \<leftarrow> anti_commutes_with (sparse_ops S) (projective observable) (projective hint);
     guard_opt anti;
     preimage \<leftarrow> clifford_preimage (sparse_ops S) (os_clifford sim) hint;
     if bo_support dense_ops (px preimage) \<noteq> [] then map_option fst (os_measure S source observable sim)
     else do {
       pauli \<leftarrow> mul_assign_right (sparse_ops S) hint observable;
       let pauli = add_assign_phase_exp (3 - xz_phase_exponent preimage) pauli;
       C \<leftarrow> left_mul_pauli_exp (sparse_ops S) pauli (os_clifford sim);
       (sim, _) \<leftarrow> os_allocate_random_bit source (sim\<lparr>os_clifford := C\<rparr>);
       os_apply_conditional_pauli_generic (sparse_ops S) hint [os_outcome_count sim - 1] True sim } }"

definition os_measure_with_hint ::
  "'s sorted_lib \<Rightarrow> 'g bit_source \<Rightarrow> 's pauli_unitary \<Rightarrow> 's pauli_unitary \<Rightarrow> 'g outcome_specific \<Rightarrow> ('g outcome_specific \<times> nat) option" where
  "os_measure_with_hint S source observable hint sim = do {
     sim \<leftarrow> os_ensure_qubit_capacity (max_pair_support (sparse_ops S) observable hint) sim;
     sim \<leftarrow> os_measure_with_hint_generic S source observable hint sim;
     Some (sim, length (outcome_vector sim) - 1) }"

section \<open>Unitary operations\<close>

definition os_on_clifford :: "(clifford_unitary \<Rightarrow> clifford_unitary option) \<Rightarrow> 'g outcome_specific \<Rightarrow> 'g outcome_specific option" where
  "os_on_clifford f sim = do { C \<leftarrow> f (os_clifford sim); Some (sim\<lparr>os_clifford := C\<rparr>) }"

definition os_apply_clifford :: "'s sorted_lib \<Rightarrow> clifford_unitary \<Rightarrow> nat list \<Rightarrow> 'g outcome_specific \<Rightarrow> 'g outcome_specific option" where
  "os_apply_clifford S clifford support sim = do {
     sim \<leftarrow> os_ensure_qubit_capacity (max_support support) sim;
     os_on_clifford (left_mul_clifford S clifford support) sim }"

definition os_unitary_op :: "unitary_op \<Rightarrow> nat list \<Rightarrow> 'g outcome_specific \<Rightarrow> 'g outcome_specific option" where
  "os_unitary_op op support sim = do {
     sim \<leftarrow> os_ensure_qubit_capacity (max_support support) sim;
     os_on_clifford (left_mul op support) sim }"

definition os_permute :: "nat list \<Rightarrow> nat list \<Rightarrow> 'g outcome_specific \<Rightarrow> 'g outcome_specific option" where
  "os_permute permutation support sim = do {
     sim \<leftarrow> os_ensure_qubit_capacity (max_support support) sim;
     os_on_clifford (left_mul_permutation permutation support) sim }"

definition os_controlled_pauli ::
  "'s sorted_lib \<Rightarrow> 's pauli_unitary \<Rightarrow> 's pauli_unitary \<Rightarrow> 'g outcome_specific \<Rightarrow> 'g outcome_specific option" where
  "os_controlled_pauli S observable1 observable2 sim = do {
     sim \<leftarrow> os_ensure_qubit_capacity (max_pair_support (sparse_ops S) observable1 observable2) sim;
     os_on_clifford (left_mul_controlled_pauli (sparse_ops S) observable1 observable2) sim }"

definition os_pauli :: "'s sorted_lib \<Rightarrow> 's pauli_unitary \<Rightarrow> 'g outcome_specific \<Rightarrow> 'g outcome_specific option" where
  "os_pauli S observable sim = do {
     sim \<leftarrow> os_ensure_qubit_capacity (projective_max_support (sparse_ops S) (projective observable)) sim;
     os_on_clifford (left_mul_pauli (sparse_ops S) observable) sim }"

definition os_pauli_exp :: "'s sorted_lib \<Rightarrow> 's pauli_unitary \<Rightarrow> 'g outcome_specific \<Rightarrow> 'g outcome_specific option" where
  "os_pauli_exp S observable sim = do {
     sim \<leftarrow> os_ensure_qubit_capacity (projective_max_support (sparse_ops S) (projective observable)) sim;
     os_on_clifford (left_mul_pauli_exp (sparse_ops S) observable) sim }"

definition os_conditional_pauli ::
  "'s sorted_lib \<Rightarrow> 's pauli_unitary \<Rightarrow> nat list \<Rightarrow> bool \<Rightarrow> 'g outcome_specific \<Rightarrow> 'g outcome_specific option" where
  "os_conditional_pauli S observable outcomes parity sim = os_apply_conditional_pauli_generic (sparse_ops S) observable outcomes parity sim"

section \<open>Queries\<close>

definition os_is_stabilizer :: "'s sorted_lib \<Rightarrow> 's pauli_unitary \<Rightarrow> 'g outcome_specific \<Rightarrow> bool option" where
  "os_is_stabilizer S observable sim = do {
     preimage \<leftarrow> clifford_preimage (sparse_ops S) (os_clifford sim) observable;
     Some (bo_weight dense_ops (px preimage) = 0 \<and> phase_value (xz_phase_exponent preimage) = 0) }"

definition os_is_stabilizer_up_to_sign :: "'s sorted_lib \<Rightarrow> 's pauli_unitary \<Rightarrow> 'g outcome_specific \<Rightarrow> bool option" where
  "os_is_stabilizer_up_to_sign S observable sim = do {
     preimage \<leftarrow> clifford_preimage (sparse_ops S) (os_clifford sim) observable;
     Some (bo_is_zero dense_ops (px preimage)) }"

definition os_is_stabilizer_with_conditional_sign ::
  "'s sorted_lib \<Rightarrow> 's pauli_unitary \<Rightarrow> nat list \<Rightarrow> 'g outcome_specific \<Rightarrow> bool option" where
  "os_is_stabilizer_with_conditional_sign S observable outcomes sim = do {
     parity \<leftarrow> total_parity (outcome_vector sim) outcomes;
     preimage \<leftarrow> clifford_preimage (sparse_ops S) (os_clifford sim) observable;
     Some (bo_weight dense_ops (px preimage) = 0 \<and> phase_is_even (xz_phase_exponent preimage) \<and>
       (phase_value (xz_phase_exponent preimage) = 0) \<noteq> parity) }"

section \<open>All operations\<close>

fun os_step :: "'s sorted_lib \<Rightarrow> 'g bit_source \<Rightarrow> 's sim_op \<Rightarrow> 'g outcome_specific \<Rightarrow> 'g outcome_specific option" where
  "os_step S source AllocateRandomBit sim = map_option fst (os_allocate_random_bit source sim)"
| "os_step S source (UnitaryOperation op support) sim = os_unitary_op op support sim"
| "os_step S source (PermuteQubits permutation support) sim = os_permute permutation support sim"
| "os_step S source (ApplyPauli p) sim = os_pauli S p sim"
| "os_step S source (PauliExp p) sim = os_pauli_exp S p sim"
| "os_step S source (ControlledPauli p r) sim = os_controlled_pauli S p r sim"
| "os_step S source (ConditionalPauli p outcomes parity) sim = os_conditional_pauli S p outcomes parity sim"
| "os_step S source (Measure p) sim = map_option fst (os_measure S source p sim)"
| "os_step S source (MeasureWithHint p hint) sim = map_option fst (os_measure_with_hint S source p hint sim)"

section \<open>The invariant\<close>

definition os_ok :: "'g outcome_specific \<Rightarrow> bool" where
  "os_ok sim \<longleftrightarrow> clifford_valid (os_clifford sim) \<and> fits (num_qubits (os_clifford sim)) (os_preimage sim) \<and>
     os_qubit_count sim \<le> num_qubits (os_clifford sim) \<and> unused (os_clifford sim) (os_qubit_count sim) \<and>
     length (outcome_vector sim) = length (outcome_introduces_branch_bit sim) \<and>
     num_branch_bits sim = length (filter id (outcome_introduces_branch_bit sim))"

definition os_represents :: "'g outcome_specific \<Rightarrow> machine \<Rightarrow> bool" where
  "os_represents sim = (\<lambda>(\<psi>, os). os_ok sim \<and> outcome_vector sim = os \<and> encodes (os_clifford sim) (\<lambda>_. False) \<psi>)"

lemma os_okD:
  assumes "os_ok sim"
  shows "clifford_valid (os_clifford sim)" "fits (num_qubits (os_clifford sim)) (os_preimage sim)"
    "os_qubit_count sim \<le> num_qubits (os_clifford sim)" "unused (os_clifford sim) (os_qubit_count sim)"
    "length (outcome_vector sim) = length (outcome_introduces_branch_bit sim)"
    "num_branch_bits sim = length (filter id (outcome_introduces_branch_bit sim))"
  using assms by (simp_all add: os_ok_def)

lemma new_run:
  "\<exists>sim. new_with_bit_source n g = Some sim \<and> os_represents sim (zero_state, []) \<and> os_qubit_count sim = n \<and> os_source sim = g"
proof -
  obtain C where C: "clifford_identity n = Some C" "clifford_valid C" "num_qubits C = n" "\<And>key. fam C key = (if snd key < n then gen key else pone)"
    using clifford_identity_run by blast
  have "encodes C (\<lambda>_. False) zero_state" by (rule encodes_identity [OF C(2,3)]) (simp add: C(4))
  moreover have "unused C n" by (simp add: unused_def C(3))
  ultimately show ?thesis using C(1-3) fits_neutral(1)
    by (simp add: new_with_bit_source_def os_represents_def os_ok_def)
qed

text \<open>Growing the register keeps the state.\<close>

definition extends :: "nat option \<Rightarrow> 'g outcome_specific \<Rightarrow> 'g outcome_specific \<Rightarrow> bool" where
  "extends room sim sim' \<longleftrightarrow> os_ok sim' \<and> outcome_vector sim' = outcome_vector sim \<and> os_source sim' = os_source sim \<and>
     outcome_introduces_branch_bit sim' = outcome_introduces_branch_bit sim \<and> num_branch_bits sim' = num_branch_bits sim \<and>
     os_qubit_count sim' = (case room of None \<Rightarrow> os_qubit_count sim | Some i \<Rightarrow> max (os_qubit_count sim) (i + 1)) \<and>
     (\<forall>\<psi>. encodes (os_clifford sim) (\<lambda>_. False) \<psi> \<longrightarrow> encodes (os_clifford sim') (\<lambda>_. False) \<psi>)"

lemma ensure_run:
  assumes ok: "os_ok sim"
  shows "\<exists>sim'. os_ensure_qubit_capacity room sim = Some sim' \<and> extends room sim sim'"
proof (cases room)
  case None
  then show ?thesis using ok by (simp add: os_ensure_qubit_capacity_def extends_def)
next
  case (Some i)
  note k = os_okD [OF ok]
  let ?C = "os_clifford sim" and ?m = "max (os_qubit_count sim) (i + 1)" and ?n = "next_power_of_two (i + 1)"
  show ?thesis
  proof (cases "num_qubits ?C \<le> i")
    case False
    have "unused ?C ?m" by (rule unused_mono [OF k(4)]) simp
    then show ?thesis using False k Some
      by (simp add: os_ensure_qubit_capacity_def os_qubit_capacity_def extends_def os_ok_def)
  next
    case True
    have n: "i + 1 \<le> ?n" by (rule next_power_of_two_le)
    then have le: "num_qubits ?C \<le> ?n" using True by simp
    obtain D where D: "clifford_resize ?n ?C = Some D" "clifford_valid D" "num_qubits D = ?n" "unused D (os_qubit_count sim)"
        "\<And>\<sigma> \<tau> \<psi>. encodes ?C \<sigma> \<psi> \<Longrightarrow> (\<forall>q < ?n. \<tau> q \<longleftrightarrow> q < num_qubits ?C \<and> \<sigma> q) \<Longrightarrow> encodes D \<tau> \<psi>"
      using resize_grows [OF k(1) le k(4)] k(3) by blast
    have "encodes D (\<lambda>_. False) \<psi>" if "encodes ?C (\<lambda>_. False) \<psi>" for \<psi> by (rule D(5) [OF that]) simp
    moreover have "unused D ?m" by (rule unused_mono [OF D(4)]) simp
    moreover have "num_qubits ?C < ?n" "os_qubit_count sim \<le> ?n" using n True k(3) by simp_all
    ultimately show ?thesis using D(1-3) n k Some True fits_neutral(1)
      by (simp add: os_ensure_qubit_capacity_def os_reserve_qubits_def os_qubit_capacity_def extends_def os_ok_def)
  qed
qed

lemma extends_represents: "extends room sim sim' \<Longrightarrow> os_represents sim (\<psi>, os) \<Longrightarrow> os_represents sim' (\<psi>, os)"
  by (simp add: extends_def os_represents_def)

section \<open>Unitary operations\<close>

lemma on_clifford_run:
  assumes r: "os_represents sim (\<psi>, os)" and f: "operates (os_clifford sim) (os_qubit_count sim) U (f (os_clifford sim))"
  shows "\<exists>sim'. os_on_clifford f sim = Some sim' \<and> os_represents sim' (U \<psi>, os) \<and> os_qubit_count sim' = os_qubit_count sim \<and>
    os_qubit_capacity sim' = os_qubit_capacity sim \<and> outcome_introduces_branch_bit sim' = outcome_introduces_branch_bit sim"
proof (rule operatesE [OF f])
  fix C'
  assume "f (os_clifford sim) = Some C'" "clifford_valid C'" "num_qubits C' = num_qubits (os_clifford sim)"
    "unused (os_clifford sim) (os_qubit_count sim) \<Longrightarrow> unused C' (os_qubit_count sim)"
    "\<And>\<sigma> \<psi>. encodes (os_clifford sim) \<sigma> \<psi> \<Longrightarrow> encodes C' \<sigma> (U \<psi>)"
  with r show ?thesis by (auto simp: os_on_clifford_def os_represents_def os_ok_def os_qubit_capacity_def)
qed

text \<open>An operation that first makes room for the qubits it names.\<close>

lemma grown_run:
  assumes r: "os_represents sim (\<psi>, os)"
    and f: "\<And>C m. clifford_valid C \<Longrightarrow> m \<le> num_qubits C \<Longrightarrow> (\<And>i. room = Some i \<Longrightarrow> i < m) \<Longrightarrow> operates C m U (f C)"
  shows "\<exists>sim'. (do { sim \<leftarrow> os_ensure_qubit_capacity room sim; os_on_clifford f sim }) = Some sim' \<and> os_represents sim' (U \<psi>, os)"
proof -
  have ok: "os_ok sim" using r by (simp add: os_represents_def)
  obtain sim1 where 1: "os_ensure_qubit_capacity room sim = Some sim1" "extends room sim sim1" using ensure_run [OF ok] by blast
  have r1: "os_represents sim1 (\<psi>, os)" by (rule extends_represents [OF 1(2) r])
  then have ok1: "os_ok sim1" by (simp add: os_represents_def)
  have "operates (os_clifford sim1) (os_qubit_count sim1) U (f (os_clifford sim1))"
    by (rule f [OF os_okD(1,3) [OF ok1]]) (use 1(2) in \<open>simp add: extends_def\<close>)
  from on_clifford_run [where f = f and U = U, OF r1 this] 1(1) show ?thesis by auto
qed

lemma unitary_run:
  assumes r: "os_represents sim (\<psi>, os)" and f: "op_fits S k (UnitaryOperation op support)"
  shows "\<exists>sim'. os_unitary_op op support sim = Some sim' \<and> os_represents sim' (gate_amp op support \<psi>, os)"
  unfolding os_unitary_op_def
proof (rule grown_run [OF r operates_gate])
  fix m
  assume "\<And>i. max_support support = Some i \<Longrightarrow> i < m"
  then have "set support \<subseteq> {..<m}" by (intro list_max_bound) (simp add: max_support_def)
  with f show "gate_fits m op support" by (auto simp: gate_fits_def)
qed

lemma permute_run:
  assumes r: "os_represents sim (\<psi>, os)" and f: "op_fits S k (PermuteQubits permutation support)"
  shows "\<exists>sim'. os_permute permutation support sim = Some sim' \<and> os_represents sim' (permute_amp (moved permutation support) \<psi>, os)"
  unfolding os_permute_def
proof (rule grown_run [OF r operates_permute])
  fix m
  assume "\<And>i. max_support support = Some i \<Longrightarrow> i < m"
  then show "set support \<subseteq> {..<m}" by (intro list_max_bound) (simp add: max_support_def)
qed (use f in simp_all)

context sorted_library
begin

lemma pauli_run:
  assumes r: "os_represents sim (\<psi>, os)" and p: "observable_ok S p"
  shows "\<exists>sim'. os_pauli S p sim = Some sim' \<and> os_represents sim' (pauli_amp (sparse_sem S p) \<psi>, os)"
    "\<exists>sim'. os_pauli_exp S p sim = Some sim' \<and> os_represents sim' (exp_amp (sparse_sem S p) \<psi>, os)"
  unfolding os_pauli_def os_pauli_exp_def
  by (rule grown_run [OF r]; rule sparse.operates_pauli sparse.operates_exp; use observable_below [OF p] in blast)+

lemma controlled_run:
  assumes r: "os_represents sim (\<psi>, os)" and p: "op_fits S k (ControlledPauli p h)"
  shows "\<exists>sim'. os_controlled_pauli S p h sim = Some sim' \<and>
    os_represents sim' (controlled_amp (sparse_sem S p) (sparse_sem S h) \<psi>, os)"
  unfolding os_controlled_pauli_def
proof (rule grown_run [OF r])
  have ok: "observable_ok S p" "observable_ok S h" "\<not> panti (sparse_sem S p) (sparse_sem S h)" using p by simp_all
  fix C m
  assume "clifford_valid C" "m \<le> num_qubits C" "\<And>i. max_pair_support (sparse_ops S) p h = Some i \<Longrightarrow> i < m"
  with pair_below [OF ok(1,2)] ok show "operates C m (controlled_amp (sparse_sem S p) (sparse_sem S h)) (left_mul_controlled_pauli (sparse_ops S) p h C)"
    by (intro sparse.operates_controlled) (simp_all add: observable_ok_def pcap_def)
qed

end

section \<open>Outcomes\<close>

lemma total_parity_run: "(\<forall>j \<in> set ids. j < length os) \<Longrightarrow> total_parity os ids = Some (outcome_parity os ids)"
proof -
  have "ofold (\<lambda>j res. do { b \<leftarrow> nth_opt os j; Some (res \<noteq> b) }) ids r = Some (fold (\<lambda>j r. r \<noteq> os ! j) ids r)"
    if "\<forall>j \<in> set ids. j < length os" for r
    using that by (induction ids arbitrary: r) simp_all
  then show "(\<forall>j \<in> set ids. j < length os) \<Longrightarrow> total_parity os ids = Some (outcome_parity os ids)"
    by (simp add: total_parity_def outcome_parity_def)
qed

lemma allocate_run:
  assumes r: "os_represents sim (\<psi>, os)" and source: "endless source"
  shows "\<exists>sim' b. os_allocate_random_bit source sim = Some (sim', length os) \<and> os_represents sim' (\<psi>, os @ [b]) \<and>
    os_clifford sim' = os_clifford sim \<and> os_preimage sim' = os_preimage sim \<and> os_qubit_count sim' = os_qubit_count sim \<and>
    outcome_introduces_branch_bit sim' = outcome_introduces_branch_bit sim @ [True] \<and> num_branch_bits sim' = num_branch_bits sim + 1"
proof -
  obtain b g where "source (os_source sim) = Some (b, g)" using source unfolding endless_def by fastforce
  with r show ?thesis by (auto simp: os_allocate_random_bit_def os_represents_def os_ok_def)
qed

context sorted_library
begin

lemma conditional_run:
  assumes r: "os_represents sim (\<psi>, os)" and f: "op_fits S (length os) (ConditionalPauli p ids parity)"
    and m: "pauli_on (os_qubit_count sim) (sparse_sem S p)"
  shows "\<exists>sim'. os_apply_conditional_pauli_generic (sparse_ops S) p ids parity sim = Some sim' \<and>
    os_represents sim' (if outcome_parity os ids = parity then pauli_amp (sparse_sem S p) \<psi> else \<psi>, os) \<and>
    os_qubit_capacity sim' = os_qubit_capacity sim \<and> outcome_introduces_branch_bit sim' = outcome_introduces_branch_bit sim"
proof -
  have ok: "os_ok sim" and os: "outcome_vector sim = os" using r by (simp_all add: os_represents_def)
  have p: "sparse_ok S p" "pinv_on (os_qubit_count sim) (sparse_sem S p)" using f m by (simp_all add: observable_ok_def pinv_on_def)
  have par: "total_parity (outcome_vector sim) ids = Some (outcome_parity os ids)" unfolding os by (rule total_parity_run) (use f in simp)
  show ?thesis
  proof (cases "outcome_parity os ids = parity")
    case True
    from on_clifford_run [where f = "left_mul_pauli (sparse_ops S) p", OF r sparse.operates_pauli [OF os_okD(1) [OF ok] p os_okD(3) [OF ok]]]
    show ?thesis using True par by (auto simp: os_apply_conditional_pauli_generic_def os_on_clifford_def)
  next
    case False
    then show ?thesis using r par by (auto simp: os_apply_conditional_pauli_generic_def)
  qed
qed

end

section \<open>Measurements\<close>

text \<open>What a measurement does to the represented state, and which outcomes are random.\<close>

definition measures :: "pauli_op \<Rightarrow> machine \<Rightarrow> 'g outcome_specific \<Rightarrow> 'g outcome_specific \<Rightarrow> bool" where
  "measures P = (\<lambda>(\<psi>, os) sim sim'. \<exists>b random. os_represents sim' (project b P \<psi>, os @ [b]) \<and>
     outcome_introduces_branch_bit sim' = outcome_introduces_branch_bit sim @ [random] \<and>
     (random \<longleftrightarrow> (\<forall>w. w \<noteq> 0 \<longrightarrow> pauli_amp P \<psi> \<noteq> scaled w \<psi>)) \<and> (\<not> random \<longrightarrow> project b P \<psi> = \<psi>) \<and>
     (random \<longrightarrow> (\<forall>c. norm_squared (os_qubit_capacity sim') (project c P \<psi>) = norm_squared (os_qubit_capacity sim') \<psi> / 2)))"

lemma measures_nonzero:
  assumes "measures P (\<psi>, os) sim sim'"
  shows "\<exists>b s. project b P \<psi> s \<noteq> 0 \<and> os_represents sim' (project b P \<psi>, os @ [b])"
proof -
  obtain b where b: "os_represents sim' (project b P \<psi>, os @ [b])" using assms by (auto simp: measures_def)
  then have "encodes (os_clifford sim') (\<lambda>_. False) (project b P \<psi>)" by (simp add: os_represents_def)
  from encodesD(1) [OF this] have "lives_on (num_qubits (os_clifford sim')) (project b P \<psi>)" .
  with b show ?thesis unfolding lives_on_def by blast
qed

lemma deterministic_run:
  assumes r: "os_represents sim (\<psi>, os)" and P: "pinv_on (num_qubits (os_clifford sim)) P"
    and q: "dense_sem (os_preimage sim) = cpre (os_clifford sim) P" and z: "fst (cpre (os_clifford sim) P) = {}"
  shows "\<exists>sim'. os_measure_deterministic sim = Some sim' \<and> os_outcome_count sim' - 1 = length os \<and> measures P (\<psi>, os) sim sim'"
proof -
  let ?C = "os_clifford sim" and ?a = "xz_phase_exponent (os_preimage sim)" and ?b = "phase_value (xz_phase_exponent (os_preimage sim)) = 2"
  have ok: "os_ok sim" and os: "outcome_vector sim = os" and e: "encodes ?C (\<lambda>_. False) \<psi>" using r by (simp_all add: os_represents_def)
  have two: "pmul (cpre ?C P) (cpre ?C P) = pone" using clifford.pre_pmul [OF pinv_onD(1) [OF P] pinv_onD(1) [OF P]] pinv_onD(3) [OF P] by simp
  have s: "phase_is_even ?a" "snd (snd (cpre ?C P)) = sgn_phase ?b"
    using sign_of_phase [of "os_preimage sim"] two z unfolding q by simp_all
  let ?sim = "sim\<lparr>outcome_vector := os @ [?b], outcome_introduces_branch_bit := outcome_introduces_branch_bit sim @ [False]\<rparr>"
  have run: "os_measure_deterministic sim = Some ?sim" using s(1) by (simp add: os_measure_deterministic_def os)
  have "cpre ?C P = ({}, fst (snd (cpre ?C P)), sgn_phase ?b)" using z s(2) by (metis prod.collapse)
  from encodes_zops [OF e pinv_onD(1) [OF P] this] have eig: "pauli_amp P \<psi> = scaled (sgn_amp ?b) \<psi>" by (simp add: phase_amp_sgn)
  then have "project ?b P \<psi> = \<psi>" by (rule project_eigen)
  moreover from this have "os_represents ?sim (project ?b P \<psi>, os @ [?b])" using ok e os by (simp add: os_represents_def os_ok_def)
  moreover have "\<exists>w. w \<noteq> 0 \<and> pauli_amp P \<psi> = scaled w \<psi>" using eig phase_amp_nonzero(2) by blast
  ultimately have "measures P (\<psi>, os) sim ?sim" unfolding measures_def prod.case by (intro exI [of _ ?b] exI [of _ False]) simp
  moreover have "os_outcome_count ?sim - 1 = length os" using os_okD(5) [OF ok] os by (simp add: os_outcome_count_def)
  ultimately show ?thesis using run by blast
qed

context sorted_library
begin

lemma random_run:
  assumes r: "os_represents sim (\<psi>, os)" and p: "sparse_ok S p" "pinv_on (os_qubit_count sim) (sparse_sem S p)"
    and q: "dense_sem (os_preimage sim) = cpre (os_clifford sim) (sparse_sem S p)" and pos: "pos \<in> fst (cpre (os_clifford sim) (sparse_sem S p))"
    and source: "endless source"
  shows "\<exists>sim1 sim' C pre outcome. os_allocate_random_bit source sim = Some (sim1, length os) \<and>
    nth_opt (outcome_vector sim1) (os_outcome_count sim1 - 1) = Some outcome \<and>
    update_encoder_for_random_outcome (sparse_ops S) (os_clifford sim1) p (os_preimage sim1) pos outcome = Some (C, pre) \<and>
    sim' = sim1\<lparr>os_clifford := C, os_preimage := pre\<rparr> \<and> os_outcome_count sim' - 1 = length os \<and>
    measures (sparse_sem S p) (\<psi>, os) sim sim'"
proof -
  let ?C = "os_clifford sim" and ?n = "num_qubits (os_clifford sim)" and ?m = "os_qubit_count sim" and ?P = "sparse_sem S p"
  have ok: "os_ok sim" and e: "encodes ?C (\<lambda>_. False) \<psi>" using r by (simp_all add: os_represents_def)
  note k = os_okD [OF ok]
  have P: "pinv_on ?n ?P" by (rule pinv_on_mono [OF p(2) k(3)])
  obtain sim1 b where 1: "os_allocate_random_bit source sim = Some (sim1, length os)" "os_represents sim1 (\<psi>, os @ [b])"
      "os_clifford sim1 = ?C" "os_preimage sim1 = os_preimage sim" "os_qubit_count sim1 = ?m"
      "outcome_introduces_branch_bit sim1 = outcome_introduces_branch_bit sim @ [True]" "num_branch_bits sim1 = num_branch_bits sim + 1"
    using allocate_run [OF r source] by blast
  have ok1: "os_ok sim1" and os1: "outcome_vector sim1 = os @ [b]" using 1(2) by (simp_all add: os_represents_def)
  have cnt: "os_outcome_count sim1 = length os + 1" using os_okD(5) [OF ok1] os1 by (simp add: os_outcome_count_def)
  then have out: "nth_opt (outcome_vector sim1) (os_outcome_count sim1 - 1) = Some b" using os1 by simp
  obtain T C' f where T: "pinv_on ?n T" "cpre ?C T = zop pos" "panti T ?P" "pos < ?n"
    and u: "update_encoder_for_random_outcome (sparse_ops S) ?C p (os_preimage sim) pos b = Some (C', f)" "clifford_valid C'"
      "unused C' ?m" "num_qubits C' = ?n" "fits ?n f"
      "\<And>Q. pauli_on ?n Q \<Longrightarrow> cpre C' Q = cpre ?C (pexp (pphase 1 (pmul ?P T)) (if b then pconj T Q else Q))"
    using random_update [OF k(1,4,3) p k(2) q pos, of b] by blast
  have e': "encodes C' (\<lambda>_. False) (project b ?P \<psi>)"
    using encodes_random [OF e P T(1,3,2,4) u(4), of b] u(6) by simp
  let ?sim = "sim1\<lparr>os_clifford := C', os_preimage := f\<rparr>"
  have "os_ok ?sim" using ok1 u(2-5) 1(3,5) by (simp add: os_ok_def)
  then have rep: "os_represents ?sim (project b ?P \<psi>, os @ [b])" using os1 e' by (simp add: os_represents_def)
  have ne: "fst (cpre ?C ?P) \<noteq> {}" using pos by blast
  have "measures ?P (\<psi>, os) sim ?sim"
    unfolding measures_def prod.case
  proof (rule exI [of _ b], rule exI [of _ True], intro conjI)
    show "True \<longleftrightarrow> (\<forall>w. w \<noteq> 0 \<longrightarrow> pauli_amp ?P \<psi> \<noteq> scaled w \<psi>)" using encodes_eigen [OF e pinv_onD(1) [OF P]] ne by blast
    show "True \<longrightarrow> (\<forall>c. norm_squared (os_qubit_capacity ?sim) (project c ?P \<psi>) = norm_squared (os_qubit_capacity ?sim) \<psi> / 2)"
      using random_outcome_half [OF e pinv_onD(1) [OF P] ne] u(4) by (simp add: os_qubit_capacity_def)
  qed (use rep 1(6) in simp_all)
  then show ?thesis using 1(1,3,4) out u(1) cnt by (auto simp: os_outcome_count_def)
qed

lemma measure_grown:
  assumes r: "os_represents sim (\<psi>, os)" and p: "sparse_ok S p" "pinv_on (os_qubit_count sim) (sparse_sem S p)"
    and source: "endless source" and room: "os_ensure_qubit_capacity (projective_max_support (sparse_ops S) (projective p)) sim0 = Some sim"
  shows "\<exists>sim'. os_measure S source p sim0 = Some (sim', length os) \<and> measures (sparse_sem S p) (\<psi>, os) sim sim'"
proof -
  let ?C = "os_clifford sim" and ?n = "num_qubits (os_clifford sim)" and ?P = "sparse_sem S p"
  have ok: "os_ok sim" using r by (simp add: os_represents_def)
  note k = os_okD [OF ok]
  have P: "pinv_on ?n ?P" by (rule pinv_on_mono [OF p(2) k(3)])
  obtain q where q: "assign_clifford_preimage (sparse_ops S) ?C p (os_preimage sim) = Some q" "fits ?n q" "dense_sem q = cpre ?C ?P"
    using sparse.assign_preimage_run [OF k(1) p(1) pinv_onD(1) [OF P] k(2)] by blast
  let ?sim = "sim\<lparr>os_preimage := q\<rparr>"
  have r': "os_represents ?sim (\<psi>, os)" using r q(2) by (auto simp: os_represents_def os_ok_def)
  have m: "measures Q (\<psi>, os) ?sim = measures Q (\<psi>, os) sim" for Q by (simp add: measures_def fun_eq_iff)
  have x: "fst (cpre ?C ?P) = dense_bits (px q)" unfolding q(3) [symmetric] by (simp add: psem_def)
  have sup: "bo_support dense_ops (px q) = sorted_list_of_set (fst (cpre ?C ?P))" "finite (fst (cpre ?C ?P))"
    using dense.support [of "px q"] dense.bset_finite [of "px q"] q(2) unfolding x by (simp_all add: fits_def pauli_ok_def)
  show ?thesis
  proof (cases "bo_support dense_ops (px q)")
    case Nil
    then have z: "fst (cpre ?C ?P) = {}" using sup by simp
    obtain sim' where d: "os_measure_deterministic ?sim = Some sim'" "os_outcome_count sim' - 1 = length os" "measures ?P (\<psi>, os) ?sim sim'"
      using deterministic_run [OF r', of ?P] P q(3) z by auto
    then show ?thesis using room q(1) Nil by (simp add: os_measure_def m)
  next
    case (Cons pos rest)
    then have "pos \<in> fst (cpre ?C ?P)" using sup by (metis list.set_intros(1) set_sorted_list_of_set)
    then obtain sim1 sim' C pre outcome where d: "os_allocate_random_bit source ?sim = Some (sim1, length os)"
        "nth_opt (outcome_vector sim1) (os_outcome_count sim1 - 1) = Some outcome"
        "update_encoder_for_random_outcome (sparse_ops S) (os_clifford sim1) p (os_preimage sim1) pos outcome = Some (C, pre)"
        "sim' = sim1\<lparr>os_clifford := C, os_preimage := pre\<rparr>" "os_outcome_count sim' - 1 = length os" "measures ?P (\<psi>, os) ?sim sim'"
      using random_run [OF r' p(1), of pos source] p(2) q(3) source by auto
    then show ?thesis using room q(1) Cons by (simp add: os_measure_def m)
  qed
qed

lemma measure_run:
  assumes r: "os_represents sim (\<psi>, os)" and p: "observable_ok S p" and source: "endless source"
  shows "\<exists>sim'. os_measure S source p sim = Some (sim', length os) \<and> measures (sparse_sem S p) (\<psi>, os) sim sim'"
proof -
  let ?room = "projective_max_support (sparse_ops S) (projective p)"
  have ok: "os_ok sim" using r by (simp add: os_represents_def)
  obtain sim1 where 1: "os_ensure_qubit_capacity ?room sim = Some sim1" "extends ?room sim sim1" using ensure_run [OF ok] by blast
  have "i < os_qubit_count sim1" if "?room = Some i" for i using 1(2) that by (simp add: extends_def)
  note P = observable_below [OF p this]
  have "outcome_introduces_branch_bit sim1 = outcome_introduces_branch_bit sim" using 1(2) by (simp add: extends_def)
  then have "measures Q (\<psi>, os) sim1 = measures Q (\<psi>, os) sim" for Q by (simp add: measures_def)
  with measure_grown [OF extends_represents [OF 1(2) r] P source 1(1)] show ?thesis by simp
qed

lemma represents_unscaled: "os_represents sim (scaled c \<psi>, os) \<Longrightarrow> c \<noteq> 0 \<Longrightarrow> os_represents sim (\<psi>, os)"
  using encodes_unscaled by (auto simp: os_represents_def)

lemma hinted_run:
  assumes r: "os_represents sim (\<psi>, os)" and p: "sparse_ok S p" "pinv_on (os_qubit_count sim) (sparse_sem S p)"
    and h: "sparse_ok S hint" "pinv_on (os_qubit_count sim) (sparse_sem S hint)" "panti (sparse_sem S p) (sparse_sem S hint)"
    and z: "dense_sem img = cpre (os_clifford sim) (sparse_sem S hint)" "fst (dense_sem img) = {}" and source: "endless source"
  shows "\<exists>E C sim1 sim' i. mul_assign_right (sparse_ops S) hint p = Some E \<and>
    left_mul_pauli_exp (sparse_ops S) (add_assign_phase_exp (3 - xz_phase_exponent img) E) (os_clifford sim) = Some C \<and>
    os_allocate_random_bit source (sim\<lparr>os_clifford := C\<rparr>) = Some (sim1, i) \<and>
    os_apply_conditional_pauli_generic (sparse_ops S) hint [os_outcome_count sim1 - 1] True sim1 = Some sim' \<and>
    measures (sparse_sem S p) (\<psi>, os) sim sim'"
proof -
  let ?C = "os_clifford sim" and ?n = "num_qubits (os_clifford sim)" and ?m = "os_qubit_count sim"
  let ?P = "sparse_sem S p" and ?T = "sparse_sem S hint" and ?v = "phase_value (xz_phase_exponent img) = 2"
  have ok: "os_ok sim" and e: "encodes ?C (\<lambda>_. False) \<psi>" using r by (simp_all add: os_represents_def)
  note k = os_okD [OF ok]
  have P: "pinv_on ?n ?P" and T: "pinv_on ?n ?T" by (rule pinv_on_mono [OF p(2) k(3)], rule pinv_on_mono [OF h(2) k(3)])
  have anti: "panti ?T ?P" using h(3) by (simp add: panti_sym)
  have two: "pmul (dense_sem img) (dense_sem img) = pone"
    unfolding z(1) using clifford.pre_pmul [OF pinv_onD(1) [OF T] pinv_onD(1) [OF T]] pinv_onD(3) [OF T] by simp
  have sgn: "snd (snd (dense_sem img)) = sgn_phase ?v" by (rule sign_of_phase [OF two z(2)])
  then have "cpre ?C ?T = ({}, fst (snd (cpre ?C ?T)), sgn_phase ?v)" using z by (metis prod.collapse)
  from encodes_zops [OF e pinv_onD(1) [OF T] this] have \<psi>: "pauli_amp ?T \<psi> = scaled (sgn_amp ?v) \<psi>" by (simp add: phase_amp_sgn)
  obtain E where E: "mul_assign_right (sparse_ops S) hint p = Some E" "sparse_ok S E" "sparse_sem S E = pmul ?P ?T"
    using sparse.mul_right [OF p(1) h(1)] by (auto simp: pcap_def)
  let ?E = "add_assign_phase_exp (3 - xz_phase_exponent img) E"
  have "ph (3 - xz_phase_exponent img) + ph (xz_phase_exponent img) = 3" by (simp flip: ph_add)
  then have phase: "ph (3 - xz_phase_exponent img) = 3 - sgn_phase ?v" using sgn by (simp add: psem_def ph_phase_exponent eq_diff_eq)
  have E': "sparse_ok S ?E" "sparse_sem S ?E = pphase (3 - sgn_phase ?v) (pmul ?P ?T)"
    using E(2,3) by (simp_all add: sparse.phase_exp phase)
  note proj = hint_projects [OF p(2) h(2) anti \<psi>, of ?v]
  have "operates ?C ?m (exp_amp (sparse_sem S ?E)) (left_mul_pauli_exp (sparse_ops S) ?E ?C)"
    by (rule sparse.operates_exp [OF k(1) E'(1) _ k(3)]) (simp add: E'(2) proj(1))
  from on_clifford_run [where f = "left_mul_pauli_exp (sparse_ops S) ?E", OF r this] obtain C where
      C: "left_mul_pauli_exp (sparse_ops S) ?E ?C = Some C" "os_represents (sim\<lparr>os_clifford := C\<rparr>) (exp_amp (sparse_sem S ?E) \<psi>, os)"
        "num_qubits C = ?n"
    by (auto simp: os_on_clifford_def os_qubit_capacity_def bind_eq_Some_conv)
  have r1: "os_represents (sim\<lparr>os_clifford := C\<rparr>) (project False ?P \<psi>, os)"
    by (rule represents_unscaled [where c = "sqrt 2"]) (use C(2) in \<open>simp_all add: E'(2) proj(2)\<close>)
  obtain sim1 b where 1: "os_allocate_random_bit source (sim\<lparr>os_clifford := C\<rparr>) = Some (sim1, length os)"
      "os_represents sim1 (project False ?P \<psi>, os @ [b])" "os_clifford sim1 = C" "os_qubit_count sim1 = ?m"
      "outcome_introduces_branch_bit sim1 = outcome_introduces_branch_bit sim @ [True]"
    using allocate_run [OF r1 source] by auto
  have "os_outcome_count sim1 = length os + 1"
    using os_okD(5) [of sim1] 1(2) by (simp add: os_outcome_count_def os_represents_def)
  moreover have "op_fits S (length (os @ [b])) (ConditionalPauli hint [length os] True)" using h by (simp add: observable_ok_def pinv_on_def)
  ultimately obtain sim' where
      2: "os_apply_conditional_pauli_generic (sparse_ops S) hint [os_outcome_count sim1 - 1] True sim1 = Some sim'"
        "os_represents sim' (if b then pauli_amp ?T (project False ?P \<psi>) else project False ?P \<psi>, os @ [b])"
        "os_qubit_capacity sim' = ?n" "outcome_introduces_branch_bit sim' = outcome_introduces_branch_bit sim @ [True]"
    using conditional_run [OF 1(2), of hint "[length os]" True] pinv_onD(1) [OF h(2)] 1(3-5) C(3)
    by (auto simp: outcome_parity_def os_qubit_capacity_def)
  have rep: "os_represents sim' (project b ?P \<psi>, os @ [b])"
  proof (cases b)
    case True
    then have "os_represents sim' (scaled (sgn_amp ?v) (project True ?P \<psi>), os @ [True])"
      using 2(2) stabilizer_swaps [OF h(2) pinv_onD(1) [OF p(2)] anti \<psi>, of False] by simp
    from represents_unscaled [OF this] True show ?thesis using phase_amp_nonzero(2) by simp
  qed (use 2(2) in simp)
  have ne: "fst (cpre ?C ?P) \<noteq> {}"
    using clifford.pre_panti [OF pinv_onD(1) [OF P] pinv_onD(1) [OF T]] h(3) z by (auto simp: panti_def split_beta)
  have "measures ?P (\<psi>, os) sim sim'"
    unfolding measures_def prod.case
  proof (rule exI [of _ b], rule exI [of _ True], intro conjI)
    show "True \<longleftrightarrow> (\<forall>w. w \<noteq> 0 \<longrightarrow> pauli_amp ?P \<psi> \<noteq> scaled w \<psi>)" using encodes_eigen [OF e pinv_onD(1) [OF P]] ne by blast
    show "True \<longrightarrow> (\<forall>c. norm_squared (os_qubit_capacity sim') (project c ?P \<psi>) = norm_squared (os_qubit_capacity sim') \<psi> / 2)"
      using random_outcome_half [OF e pinv_onD(1) [OF P] ne] 2(3) by simp
  qed (use rep 2(4) in simp_all)
  then show ?thesis using E(1) C(1) 1(1) 2(1) by blast
qed

lemma hint_grown:
  assumes r: "os_represents sim (\<psi>, os)" and f: "op_fits S k (MeasureWithHint p hint)"
    and room: "\<And>i. max_pair_support (sparse_ops S) p hint = Some i \<Longrightarrow> i < os_qubit_count sim" and source: "endless source"
  shows "\<exists>sim'. os_measure_with_hint_generic S source p hint sim = Some sim' \<and> measures (sparse_sem S p) (\<psi>, os) sim sim'"
proof -
  let ?C = "os_clifford sim" and ?n = "num_qubits (os_clifford sim)" and ?T = "sparse_sem S hint"
  have ok: "os_ok sim" using r by (simp add: os_represents_def)
  note k = os_okD [OF ok]
  have obs: "observable_ok S p" "observable_ok S hint" "panti (sparse_sem S p) ?T" using f by simp_all
  note pi = pair_below [OF obs(1,2) room]
  have sp: "sparse_ok S p" "sparse_ok S hint" using obs by (simp_all add: observable_ok_def)
  have anti: "anti_commutes_with (sparse_ops S) (projective p) (projective hint) = Some True"
    using sparse.anti_commutes [OF sp] obs(3) by (simp add: pcap_def)
  obtain img where img: "clifford_preimage (sparse_ops S) ?C hint = Some img" "fits ?n img" "dense_sem img = cpre ?C ?T"
    using sparse.preimage_run [OF valid_ok [OF k(1)] sp(2)] pinv_onD(1) [OF pinv_on_mono [OF pi(2) k(3)]] by (auto simp: cpre_eq [OF k(1)])
  have sup: "bo_support dense_ops (px img) = [] \<longleftrightarrow> fst (dense_sem img) = {}"
    using dense.support [of "px img"] dense.bset_finite [of "px img"] img(2) by (simp add: psem_def fits_def pauli_ok_def)
  show ?thesis
  proof (cases "fst (dense_sem img) = {}")
    case True
    from hinted_run [OF r sp(1) pi(1) sp(2) pi(2) obs(3) img(3) True source] show ?thesis
      using anti img(1) True sup by (auto simp: os_measure_with_hint_generic_def)
  next
    case False
    from measure_run [OF r obs(1) source] show ?thesis
      using anti img(1) False sup by (auto simp: os_measure_with_hint_generic_def)
  qed
qed

lemma hint_run:
  assumes r: "os_represents sim (\<psi>, os)" and f: "op_fits S k (MeasureWithHint p hint)" and source: "endless source"
  shows "\<exists>sim'. os_measure_with_hint S source p hint sim = Some (sim', length os) \<and> measures (sparse_sem S p) (\<psi>, os) sim sim'"
proof -
  let ?room = "max_pair_support (sparse_ops S) p hint"
  have ok: "os_ok sim" using r by (simp add: os_represents_def)
  obtain sim1 where 1: "os_ensure_qubit_capacity ?room sim = Some sim1" "extends ?room sim sim1" using ensure_run [OF ok] by blast
  have r1: "os_represents sim1 (\<psi>, os)" by (rule extends_represents [OF 1(2) r])
  have "outcome_introduces_branch_bit sim1 = outcome_introduces_branch_bit sim" using 1(2) by (simp add: extends_def)
  then have m: "measures Q (\<psi>, os) sim1 = measures Q (\<psi>, os) sim" for Q by (simp add: measures_def)
  have room: "i < os_qubit_count sim1" if "?room = Some i" for i using 1(2) that by (simp add: extends_def)
  obtain sim' where g: "os_measure_with_hint_generic S source p hint sim1 = Some sim'" "measures (sparse_sem S p) (\<psi>, os) sim1 sim'"
    using hint_grown [OF r1 f room source] by blast
  then have "length (outcome_vector sim') = length os + 1" by (auto simp: measures_def os_represents_def)
  then show ?thesis using 1(1) g by (simp add: os_measure_with_hint_def m)
qed

end

section \<open>The simulator and the machine\<close>

definition os_accepts :: "'s sorted_lib \<Rightarrow> 'g bit_source \<Rightarrow> 'g outcome_specific \<Rightarrow> 's sim_op \<Rightarrow> bool" where
  "os_accepts S source sim op \<longleftrightarrow> sorted_library S \<and> endless source \<and> op_fits S (length (outcome_vector sim)) op \<and>
     within_room S (Some (os_qubit_count sim)) op"

lemma os_step_refines:
  assumes r: "os_represents sim q" and a: "os_accepts S source sim op"
  shows "\<exists>sim' q'. os_step S source op sim = Some sim' \<and> qstep S op q q' \<and> os_represents sim' q'"
proof -
  obtain \<psi> os where q: "q = (\<psi>, os)" by (cases q)
  have r': "os_represents sim (\<psi>, os)" and k: "length (outcome_vector sim) = length os" using r by (simp_all add: q os_represents_def)
  have S: "sorted_library S" and source: "endless source" and f: "op_fits S (length os) op" and m: "within_room S (Some (os_qubit_count sim)) op"
    using a by (simp_all add: os_accepts_def k)
  show ?thesis
  proof (cases op)
    case AllocateRandomBit
    from allocate_run [OF r' source] show ?thesis by (auto simp: AllocateRandomBit q intro!: q_allocate)
  next
    case (UnitaryOperation g support)
    from unitary_run [OF r' f [unfolded UnitaryOperation]] show ?thesis by (auto simp: UnitaryOperation q intro!: q_unitary)
  next
    case (PermuteQubits permutation support)
    from permute_run [OF r' f [unfolded PermuteQubits]] show ?thesis by (auto simp: PermuteQubits q intro!: q_permute)
  next
    case (ApplyPauli p)
    have "observable_ok S p" using f by (simp add: ApplyPauli)
    from sorted_library.pauli_run(1) [OF S r' this] show ?thesis by (auto simp: ApplyPauli q intro!: q_pauli)
  next
    case (PauliExp p)
    have "observable_ok S p" using f by (simp add: PauliExp)
    from sorted_library.pauli_run(2) [OF S r' this] show ?thesis by (auto simp: PauliExp q intro!: q_exp)
  next
    case (ControlledPauli p h)
    from sorted_library.controlled_run [OF S r' f [unfolded ControlledPauli]] show ?thesis
      by (auto simp: ControlledPauli q intro!: q_controlled)
  next
    case (ConditionalPauli p ids parity)
    from sorted_library.conditional_run [OF S r' f [unfolded ConditionalPauli]] m show ?thesis
      using q_conditional [of S p ids parity \<psi> os] by (auto simp: ConditionalPauli os_conditional_pauli_def q)
  next
    case (Measure p)
    have "observable_ok S p" using f by (simp add: Measure)
    from sorted_library.measure_run [OF S r' this source] show ?thesis
      using measures_nonzero by (fastforce simp: Measure q intro: q_measure)
  next
    case (MeasureWithHint p h)
    from sorted_library.hint_run [OF S r' f [unfolded MeasureWithHint] source] show ?thesis
      using measures_nonzero by (fastforce simp: MeasureWithHint q intro: q_hint)
  qed
qed

interpretation os: stabilizer_simulator S "os_step S source" os_represents "os_accepts S source" for S source
  by unfold_locales (rule os_step_refines)

end
