(* ===== verification/Specific_Laws.thy ===== *)
theory Specific_Laws
  imports Outcome_Specific
begin

text \<open>
  The laws of the simulator with concrete outcomes: every program that fits runs to the end and is a run of the machine of
  \<open>Simulation_Interface\<close>, a measurement projects the state with the probabilities of quantum mechanics, and the queries
  decide what the state is stabilized by.
\<close>

section \<open>Room for conditional Paulis\<close>










section \<open>Queries\<close>

context sorted_library
begin

lemma preimage_decides:
  assumes r: "os_represents sim (\<psi>, os)" and p: "observable_ok S p" "pauli_on (os_qubit_capacity sim) (sparse_sem S p)"
  obtains w where "clifford_preimage (sparse_ops S) (os_clifford sim) p = Some w"
    "bo_weight dense_ops (px w) = 0 \<longleftrightarrow> bo_is_zero dense_ops (px w)"
    "bo_is_zero dense_ops (px w) \<Longrightarrow> phase_is_even (xz_phase_exponent w)"
    "\<And>v. pauli_amp (sparse_sem S p) \<psi> = scaled (sgn_amp v) \<psi> \<longleftrightarrow>
      bo_is_zero dense_ops (px w) \<and> (phase_value (xz_phase_exponent w) = 0) \<noteq> v"
proof -
  let ?C = "os_clifford sim" and ?n = "num_qubits (os_clifford sim)" and ?P = "sparse_sem S p"
  have ok: "os_ok sim" and e: "encodes ?C (\<lambda>_. False) \<psi>" using r by (simp_all add: os_represents_def)
  note k = os_okD [OF ok]
  have P: "sparse_ok S p" "pauli_on ?n ?P" "pmul ?P ?P = pone" using p by (simp_all add: observable_ok_def os_qubit_capacity_def)
  obtain w where w: "clifford_preimage (sparse_ops S) ?C p = Some w" "fits ?n w" "dense_sem w = cpre ?C ?P"
    using sparse.preimage_run [OF valid_ok [OF k(1)] P(1,2)] by (auto simp: cpre_eq [OF k(1)])
  let ?v = "phase_value (xz_phase_exponent w) = 2"
  have zero: "bo_is_zero dense_ops (px w) \<longleftrightarrow> fst (dense_sem w) = {}" and weight: "bo_weight dense_ops (px w) = card (fst (dense_sem w))"
    "finite (fst (dense_sem w))"
    using dense.is_zero [of "px w"] dense.weight [of "px w"] dense.bset_finite [of "px w"] w(2) by (simp_all add: psem_def fits_def pauli_ok_def)
  have two: "pmul (dense_sem w) (dense_sem w) = pone" unfolding w(3) using clifford.pre_pmul [OF P(2) P(2)] P(3) by simp
  have z: "phase_is_even (xz_phase_exponent w)" "pauli_amp ?P \<psi> = scaled (sgn_amp ?v) \<psi>" "phase_value (xz_phase_exponent w) = 0 \<longleftrightarrow> \<not> ?v"
    if "fst (dense_sem w) = {}"
  proof -
    note s = sign_of_phase [OF two that]
    show "phase_is_even (xz_phase_exponent w)" by (rule s(1))
    have "cpre ?C ?P = ({}, fst (snd (cpre ?C ?P)), sgn_phase ?v)" using that s(2) w(3) by (metis prod.collapse)
    from encodes_zops [OF e P(2) this] show "pauli_amp ?P \<psi> = scaled (sgn_amp ?v) \<psi>" by (simp add: phase_amp_sgn)
    have "snd (snd (dense_sem w)) = ph (xz_phase_exponent w)" by (simp add: psem_def ph_phase_exponent)
    with s(2) show "phase_value (xz_phase_exponent w) = 0 \<longleftrightarrow> \<not> ?v" by (auto simp: phase_value_two sgn_phase_def split: if_splits)
  qed
  obtain st where st: "\<psi> st \<noteq> 0" using encodesD(1) [OF e] unfolding lives_on_def by blast
  have dec: "pauli_amp ?P \<psi> = scaled (sgn_amp v) \<psi> \<longleftrightarrow> fst (dense_sem w) = {} \<and> (phase_value (xz_phase_exponent w) = 0) \<noteq> v" for v
  proof (cases "fst (dense_sem w) = {}")
    case True
    have "sgn_amp ?v = sgn_amp v \<longleftrightarrow> ?v = v" by (auto simp: sgn_amp_def)
    then show ?thesis using z(2,3) [OF True] True scaled_inject [of \<psi> st] st by auto
  next
    case False
    then show ?thesis using encodes_eigen [OF e P(2)] phase_amp_nonzero(2) unfolding w(3) by blast
  qed
  show thesis by (rule that [OF w(1)]) (use zero weight z(1) dec in auto)
qed

lemma queries_run:
  assumes r: "os_represents sim (\<psi>, os)" and p: "observable_ok S p" "pauli_on (os_qubit_capacity sim) (sparse_sem S p)"
    and ids: "\<forall>j \<in> set ids. j < length os"
  shows "os_is_stabilizer S p sim = Some (pauli_amp (sparse_sem S p) \<psi> = \<psi>)"
    "os_is_stabilizer_up_to_sign S p sim = Some (\<exists>v. pauli_amp (sparse_sem S p) \<psi> = scaled (sgn_amp v) \<psi>)"
    "os_is_stabilizer_with_conditional_sign S p ids sim =
      Some (pauli_amp (sparse_sem S p) \<psi> = scaled (sgn_amp (outcome_parity os ids)) \<psi>)"
proof -
  obtain w where w: "clifford_preimage (sparse_ops S) (os_clifford sim) p = Some w"
      "bo_weight dense_ops (px w) = 0 \<longleftrightarrow> bo_is_zero dense_ops (px w)"
      "bo_is_zero dense_ops (px w) \<Longrightarrow> phase_is_even (xz_phase_exponent w)"
      "\<And>v. pauli_amp (sparse_sem S p) \<psi> = scaled (sgn_amp v) \<psi> \<longleftrightarrow>
        bo_is_zero dense_ops (px w) \<and> (phase_value (xz_phase_exponent w) = 0) \<noteq> v"
    using preimage_decides [OF r p] by blast
  have os: "outcome_vector sim = os" using r by (simp add: os_represents_def)
  have "scaled (sgn_amp False) \<psi> = \<psi>" by (simp add: scaled_def)
  then show "os_is_stabilizer S p sim = Some (pauli_amp (sparse_sem S p) \<psi> = \<psi>)"
    using w(1,2) w(4) [of False] by (simp add: os_is_stabilizer_def)
  show "os_is_stabilizer_up_to_sign S p sim = Some (\<exists>v. pauli_amp (sparse_sem S p) \<psi> = scaled (sgn_amp v) \<psi>)"
    using w(1) by (auto simp: os_is_stabilizer_up_to_sign_def w(4))
  show "os_is_stabilizer_with_conditional_sign S p ids sim =
      Some (pauli_amp (sparse_sem S p) \<psi> = scaled (sgn_amp (outcome_parity os ids)) \<psi>)"
    using w(1-3) total_parity_run [OF ids] by (auto simp: os_is_stabilizer_with_conditional_sign_def os w(4))
qed

end

section \<open>Properties\<close>


lemma zero_bits_endless: "endless zero_bits"
  by (simp add: endless_def zero_bits_def)


text \<open>C39. A measurement, with a hint that anticommutes with the observable or without, returns the number of the new
  outcome and leaves the projection of the state on that outcome.  The outcome is marked as random exactly when the state is
  no eigenvector of the observable; both outcomes then have probability one half, and otherwise the state does not change.\<close>

theorem measurement_projects:
  assumes "sorted_library S" "endless source" "os_represents sim (\<psi>, os)" "observable_ok S p"
    "op_fits S (length os) (MeasureWithHint p hint)"
    "m = os_measure S source p sim \<or> m = os_measure_with_hint S source p hint sim"
  shows "\<exists>sim' b random. m = Some (sim', length os) \<and> os_represents sim' (project b (sparse_sem S p) \<psi>, os @ [b]) \<and>
    outcome_introduces_branch_bit sim' = outcome_introduces_branch_bit sim @ [random] \<and>
    (random \<longleftrightarrow> (\<forall>w. w \<noteq> 0 \<longrightarrow> pauli_amp (sparse_sem S p) \<psi> \<noteq> scaled w \<psi>)) \<and>
    (if random then \<forall>c. norm_squared (os_qubit_capacity sim') (project c (sparse_sem S p) \<psi>) =
      norm_squared (os_qubit_capacity sim') \<psi> / 2 else project b (sparse_sem S p) \<psi> = \<psi>)"
proof -
  obtain sim' where m: "m = Some (sim', length os)" "measures (sparse_sem S p) (\<psi>, os) sim sim'"
    using assms(6) sorted_library.measure_run [OF assms(1,3,4,2)] sorted_library.hint_run [OF assms(1,3,5,2)] by metis
  obtain b random where b: "os_represents sim' (project b (sparse_sem S p) \<psi>, os @ [b])"
      "outcome_introduces_branch_bit sim' = outcome_introduces_branch_bit sim @ [random]"
      "random \<longleftrightarrow> (\<forall>w. w \<noteq> 0 \<longrightarrow> pauli_amp (sparse_sem S p) \<psi> \<noteq> scaled w \<psi>)"
      "\<not> random \<longrightarrow> project b (sparse_sem S p) \<psi> = \<psi>"
      "random \<longrightarrow> (\<forall>c. norm_squared (os_qubit_capacity sim') (project c (sparse_sem S p) \<psi>) =
        norm_squared (os_qubit_capacity sim') \<psi> / 2)"
    using m(2) unfolding measures_def prod.case by blast
  show ?thesis
    by (rule exI [of _ sim'], rule exI [of _ b], rule exI [of _ random]) (use m(1) b in \<open>simp split: if_splits\<close>)
qed

theorem measurement_projects_witness:
  "\<exists>sim sim' b random. new_with_bit_source 1 () = Some sim \<and>
    os_measure_with_hint list_sets zero_bits (pauli_from_bits [0] [] 0) (pauli_from_bits [] [0] 0) sim = Some (sim', 0) \<and>
    os_represents sim' (project b ({0}, {}, 0) zero_state, [b]) \<and> outcome_introduces_branch_bit sim' = [random]"
proof -
  obtain sim where 0: "new_with_bit_source 1 () = Some sim" "os_represents sim (zero_state, [])"
    using new_run [of 1 "()"] by (elim exE conjE)
  have "outcome_introduces_branch_bit sim = []" using os_okD(5) [of sim] 0(2) by (simp add: os_represents_def)
  then show ?thesis
    using measurement_projects [OF list_sets.sorted_library_axioms zero_bits_endless 0(2), of "pauli_from_bits [0] [] 0" "pauli_from_bits [] [0] 0"
        "os_measure_with_hint list_sets zero_bits (pauli_from_bits [0] [] 0) (pauli_from_bits [] [0] 0) sim"] 0
    by (fastforce simp: list_sets_observable list_sets_sem panti_def)
qed

text \<open>The queries decide what fixes the state: \<open>is_stabilizer\<close> whether the operator does, \<open>is_stabilizer_up_to_sign\<close>
  whether the operator or its negative does, and \<open>is_stabilizer_with_conditional_sign\<close> whether it does with the sign of the
  parity of the listed outcomes.\<close>

theorem stabilizer_queries_decide:
  assumes "sorted_library S" "os_represents sim (\<psi>, os)" "observable_ok S p" "pauli_on (os_qubit_capacity sim) (sparse_sem S p)"
    "\<forall>j \<in> set ids. j < length os"
  shows "os_is_stabilizer S p sim = Some (pauli_amp (sparse_sem S p) \<psi> = \<psi>) \<and>
    os_is_stabilizer_up_to_sign S p sim = Some (\<exists>v. pauli_amp (sparse_sem S p) \<psi> = scaled (sgn_amp v) \<psi>) \<and>
    os_is_stabilizer_with_conditional_sign S p ids sim =
      Some (pauli_amp (sparse_sem S p) \<psi> = scaled (sgn_amp (outcome_parity os ids)) \<psi>)"
  using sorted_library.queries_run [OF assms] by blast

theorem stabilizer_queries_decide_witness:
  "\<exists>sim. new_with_bit_source 1 () = Some sim \<and>
    os_is_stabilizer list_sets (pauli_from_bits [] [0] 0) sim = Some (pauli_amp ({}, {0}, 0) zero_state = zero_state)"
proof -
  obtain sim where 0: "new_with_bit_source 1 () = Some sim" "os_represents sim (zero_state, [])" "os_qubit_count sim = 1"
    using new_run [of 1 "()"] by (elim exE conjE)
  have "1 \<le> os_qubit_capacity sim" using os_okD(3) [of sim] 0(2,3) by (simp add: os_represents_def os_qubit_capacity_def)
  then show ?thesis
    using stabilizer_queries_decide [OF list_sets.sorted_library_axioms 0(2), of "pauli_from_bits [] [0] 0" "[]"] 0(1)
    by (auto simp: list_sets_observable list_sets_sem pauli_on_def)
qed

end
