(* ===== verification/Outcome_Complete.thy ===== *)
theory Outcome_Complete
  imports Simulation_Interface
begin

text \<open>
  The stabilizer simulator that follows all outcomes at once, \<open>pauliverse/src/outcome_complete_simulation.rs\<close>.  Every random
  outcome introduces a branch bit; an assignment of the branch bits selects a branch.  The encoder is common to all branches,
  row \<open>q\<close> of the sign matrix says for which assignments the stabilizer of qubit \<open>q\<close> has a minus sign, and outcome \<open>i\<close> of a
  branch is row \<open>i\<close> of the outcome matrix applied to the assignment, plus the shift.
\<close>

section \<open>State\<close>

record outcome_complete =
  oc_clifford :: clifford_unitary
  oc_sign_matrix :: aligned_bitmatrix
  oc_outcome_matrix :: aligned_bitmatrix
  oc_outcome_shift :: "bitblock list"
  oc_introduces_branch_bit :: "bool list"
  oc_branch_bit_count :: nat
  oc_qubit_count :: nat
  oc_preimage :: "bitblock list pauli_unitary"

definition oc_with_capacity :: "nat \<Rightarrow> nat \<Rightarrow> nat \<Rightarrow> outcome_complete option" where
  "oc_with_capacity qubits outcomes branch_bits = do {
     let outcome_capacity = max outcomes 512;
     let random_capacity = max branch_bits 512;
     C \<leftarrow> clifford_identity qubits;
     Some \<lparr> oc_clifford = C, oc_sign_matrix = mat_zeros qubits random_capacity,
       oc_outcome_matrix = mat_zeros outcome_capacity random_capacity, oc_outcome_shift = aligned_zeros outcome_capacity,
       oc_introduces_branch_bit = [], oc_branch_bit_count = 0, oc_qubit_count = qubits,
       oc_preimage = pauli_neutral_element_of_size dense_ops qubits \<rparr> }"

section \<open>Capacity\<close>

text \<open>The accessors check in a debug build that the matrices have kept in step.\<close>

definition oc_qubit_capacity :: "outcome_complete \<Rightarrow> nat option" where
  "oc_qubit_capacity sim = do {
     guard_opt (num_qubits (oc_clifford sim) = row_count (oc_sign_matrix sim));
     Some (num_qubits (oc_clifford sim)) }"

definition oc_outcome_capacity :: "outcome_complete \<Rightarrow> nat" where
  "oc_outcome_capacity sim = row_count (oc_outcome_matrix sim)"

definition oc_branch_bit_capacity :: "outcome_complete \<Rightarrow> nat option" where
  "oc_branch_bit_capacity sim = do {
     guard_opt (column_count (oc_outcome_matrix sim) = column_count (oc_sign_matrix sim));
     Some (column_count (oc_outcome_matrix sim)) }"

definition oc_outcome_count :: "outcome_complete \<Rightarrow> nat" where
  "oc_outcome_count sim = length (oc_introduces_branch_bit sim)"

definition oc_reserve_qubits :: "nat \<Rightarrow> outcome_complete \<Rightarrow> outcome_complete option" where
  "oc_reserve_qubits new_capacity sim = do {
     capacity \<leftarrow> oc_qubit_capacity sim;
     if new_capacity > capacity then do {
       A \<leftarrow> mat_resize new_capacity (column_count (oc_sign_matrix sim)) (oc_sign_matrix sim);
       C \<leftarrow> clifford_resize new_capacity (oc_clifford sim);
       Some (sim\<lparr>oc_sign_matrix := A, oc_clifford := C, oc_preimage := pauli_neutral_element_of_size dense_ops new_capacity\<rparr>) }
     else Some sim }"

definition oc_ensure_qubit_capacity :: "nat option \<Rightarrow> outcome_complete \<Rightarrow> outcome_complete option" where
  "oc_ensure_qubit_capacity max_qubit_id sim = (case max_qubit_id of
       None \<Rightarrow> Some sim
     | Some max_qubit_id \<Rightarrow> do {
         let sim = sim\<lparr>oc_qubit_count := max (oc_qubit_count sim) (max_qubit_id + 1)\<rparr>;
         capacity \<leftarrow> oc_qubit_capacity sim;
         if max_qubit_id \<ge> capacity then oc_reserve_qubits (next_power_of_two (max_qubit_id + 1)) sim else Some sim })"

definition oc_reserve_outcomes :: "nat \<Rightarrow> nat \<Rightarrow> outcome_complete \<Rightarrow> outcome_complete option" where
  "oc_reserve_outcomes new_outcome_capacity new_branch_bit_capacity sim = do {
     guard_opt (new_outcome_capacity \<ge> new_branch_bit_capacity);
     let new_outcome_capacity = max new_outcome_capacity (oc_outcome_capacity sim);
     branch_bit_capacity \<leftarrow> oc_branch_bit_capacity sim;
     let new_branch_bit_capacity = max new_branch_bit_capacity branch_bit_capacity;
     M \<leftarrow> mat_resize new_outcome_capacity new_branch_bit_capacity (oc_outcome_matrix sim);
     A \<leftarrow> mat_resize (row_count (oc_sign_matrix sim)) new_branch_bit_capacity (oc_sign_matrix sim);
     shift \<leftarrow> (if length (oc_outcome_shift sim) * 512 < new_outcome_capacity
       then aligned_resize new_outcome_capacity (oc_outcome_shift sim) else Some (oc_outcome_shift sim));
     Some (sim\<lparr>oc_outcome_matrix := M, oc_sign_matrix := A, oc_outcome_shift := shift\<rparr>) }"

definition oc_ensure_outcome_capacity :: "bool \<Rightarrow> outcome_complete \<Rightarrow> outcome_complete option" where
  "oc_ensure_outcome_capacity random_outcome sim = do {
     let next_outcome_pos = oc_outcome_count sim;
     let new_outcome_capacity = (if next_outcome_pos \<ge> oc_outcome_capacity sim then next_power_of_two (next_outcome_pos + 1)
       else oc_outcome_capacity sim);
     branch_bit_capacity \<leftarrow> oc_branch_bit_capacity sim;
     let new_branch_bit_capacity = (if random_outcome \<and> oc_branch_bit_count sim \<ge> branch_bit_capacity
       then next_power_of_two (oc_branch_bit_count sim + 1) else branch_bit_capacity);
     oc_reserve_outcomes new_outcome_capacity new_branch_bit_capacity sim }"

definition oc_state_encoder :: "outcome_complete \<Rightarrow> clifford_unitary option" where
  "oc_state_encoder sim = clifford_resize (oc_qubit_count sim) (oc_clifford sim)"

section \<open>Parities of branch bits\<close>

definition row_sum :: "aligned_bitmatrix \<Rightarrow> nat list \<Rightarrow> bitblock list option" where
  "row_sum matrix rows_to_sum =
     ofold (\<lambda>row_id res. do { row \<leftarrow> mat_row matrix row_id; Some (blocks_bitxor_assign res row) }) rows_to_sum (aligned_zeros (column_count matrix))"

definition outcome_parity_new :: "aligned_bitmatrix \<Rightarrow> bitblock list \<Rightarrow> nat list \<Rightarrow> (bitblock list \<times> bool) option" where
  "outcome_parity_new outcome_matrix outcome_shift outcomes = do {
     branch_mask \<leftarrow> row_sum outcome_matrix outcomes;
     constant \<leftarrow> ofold (\<lambda>outcome parity. do { b \<leftarrow> blocks_index outcome_shift outcome; Some (parity \<noteq> b) }) outcomes False;
     Some (branch_mask, constant) }"

text \<open>The rows of the sign matrix of the listed qubits, with an indicator added.\<close>

definition xor_into_rows :: "nat list \<Rightarrow> bitblock list \<Rightarrow> aligned_bitmatrix \<Rightarrow> aligned_bitmatrix option" where
  "xor_into_rows qubits indicator = ofold (\<lambda>q. mat_row_update q (\<lambda>row. Some (blocks_bitxor_assign row indicator))) qubits"

definition oc_apply_pauli_conditioned_on_branch_bits ::
  "'b bits_ops \<Rightarrow> 'b pauli_unitary \<Rightarrow> bitblock list \<Rightarrow> outcome_complete \<Rightarrow> outcome_complete option" where
  "oc_apply_pauli_conditioned_on_branch_bits B pauli inner_bits_indicator sim = do {
     preimage \<leftarrow> clifford_preimage B (oc_clifford sim) pauli;
     A \<leftarrow> xor_into_rows (bo_support dense_ops (px preimage)) inner_bits_indicator (oc_sign_matrix sim);
     Some (sim\<lparr>oc_sign_matrix := A\<rparr>) }"

section \<open>Outcomes\<close>

definition oc_allocate_branch_bit :: "outcome_complete \<Rightarrow> (outcome_complete \<times> nat \<times> nat) option" where
  "oc_allocate_branch_bit sim = do {
     sim \<leftarrow> oc_ensure_outcome_capacity True sim;
     let outcome_id = oc_outcome_count sim;
     let branch_bit_index = oc_branch_bit_count sim;
     M \<leftarrow> mat_row_update outcome_id (blocks_assign_index branch_bit_index True) (oc_outcome_matrix sim);
     Some (sim\<lparr>oc_outcome_matrix := M, oc_introduces_branch_bit := oc_introduces_branch_bit sim @ [True],
       oc_branch_bit_count := oc_branch_bit_count sim + 1\<rparr>, outcome_id, branch_bit_index) }"

definition oc_measure_deterministic :: "outcome_complete \<Rightarrow> outcome_complete option" where
  "oc_measure_deterministic sim = do {
     sim \<leftarrow> oc_ensure_outcome_capacity False sim;
     outcome_matrix_row \<leftarrow> row_sum (oc_sign_matrix sim) (bo_support dense_ops (pz (oc_preimage sim)));
     let outcome_position = length (oc_introduces_branch_bit sim);
     M \<leftarrow> mat_row_update outcome_position (\<lambda>row. Some (blocks_assign row outcome_matrix_row)) (oc_outcome_matrix sim);
     let phase = xz_phase_exponent (oc_preimage sim);
     guard_opt (phase_is_even phase);
     shift \<leftarrow> (if phase_value phase = 2 then blocks_assign_index outcome_position True (oc_outcome_shift sim)
       else Some (oc_outcome_shift sim));
     Some (sim\<lparr>oc_outcome_matrix := M, oc_outcome_shift := shift,
       oc_introduces_branch_bit := oc_introduces_branch_bit sim @ [False]\<rparr>) }"

definition oc_measure_random :: "'s sorted_lib \<Rightarrow> 's pauli_unitary \<Rightarrow> nat \<Rightarrow> outcome_complete \<Rightarrow> outcome_complete option" where
  "oc_measure_random S observable pivot sim = do {
     (sim, _, branch_bit_index) \<leftarrow> oc_allocate_branch_bit sim;
     branch_bits_indicator \<leftarrow> row_sum (oc_sign_matrix sim) [pivot];
     branch_bits_indicator \<leftarrow> blocks_assign_index branch_bit_index True branch_bits_indicator;
     A \<leftarrow> xor_into_rows (bo_support dense_ops (px (oc_preimage sim))) branch_bits_indicator (oc_sign_matrix sim);
     (C, preimage) \<leftarrow> update_encoder_for_random_outcome (sparse_ops S) (oc_clifford sim) observable (oc_preimage sim) pivot False;
     Some (sim\<lparr>oc_sign_matrix := A, oc_clifford := C, oc_preimage := preimage\<rparr>) }"

definition oc_measure :: "'s sorted_lib \<Rightarrow> 's pauli_unitary \<Rightarrow> outcome_complete \<Rightarrow> (outcome_complete \<times> nat) option" where
  "oc_measure S observable sim = do {
     sim \<leftarrow> oc_ensure_qubit_capacity (projective_max_support (sparse_ops S) (projective observable)) sim;
     preimage \<leftarrow> assign_clifford_preimage (sparse_ops S) (oc_clifford sim) observable (oc_preimage sim);
     let sim = sim\<lparr>oc_preimage := preimage\<rparr>;
     sim \<leftarrow> (case bo_support dense_ops (px preimage) of
         pos # _ \<Rightarrow> oc_measure_random S observable pos sim
       | [] \<Rightarrow> oc_measure_deterministic sim);
     Some (sim, oc_outcome_count sim - 1) }"

section \<open>Unitary operations\<close>

definition oc_on_clifford :: "(clifford_unitary \<Rightarrow> clifford_unitary option) \<Rightarrow> outcome_complete \<Rightarrow> outcome_complete option" where
  "oc_on_clifford f sim = do { C \<leftarrow> f (oc_clifford sim); Some (sim\<lparr>oc_clifford := C\<rparr>) }"

definition oc_apply_clifford :: "'s sorted_lib \<Rightarrow> clifford_unitary \<Rightarrow> nat list \<Rightarrow> outcome_complete \<Rightarrow> outcome_complete option" where
  "oc_apply_clifford S clifford support sim = do {
     sim \<leftarrow> oc_ensure_qubit_capacity (max_support support) sim;
     oc_on_clifford (left_mul_clifford S clifford support) sim }"

definition oc_unitary_op :: "unitary_op \<Rightarrow> nat list \<Rightarrow> outcome_complete \<Rightarrow> outcome_complete option" where
  "oc_unitary_op op support sim = do {
     sim \<leftarrow> oc_ensure_qubit_capacity (max_support support) sim;
     oc_on_clifford (left_mul op support) sim }"

definition oc_permute :: "nat list \<Rightarrow> nat list \<Rightarrow> outcome_complete \<Rightarrow> outcome_complete option" where
  "oc_permute permutation support sim = do {
     sim \<leftarrow> oc_ensure_qubit_capacity (max_support support) sim;
     oc_on_clifford (left_mul_permutation permutation support) sim }"

definition oc_controlled_pauli :: "'s sorted_lib \<Rightarrow> 's pauli_unitary \<Rightarrow> 's pauli_unitary \<Rightarrow> outcome_complete \<Rightarrow> outcome_complete option" where
  "oc_controlled_pauli S observable1 observable2 sim = do {
     sim \<leftarrow> oc_ensure_qubit_capacity (max_pair_support (sparse_ops S) observable1 observable2) sim;
     oc_on_clifford (left_mul_controlled_pauli (sparse_ops S) observable1 observable2) sim }"

definition oc_pauli :: "'s sorted_lib \<Rightarrow> 's pauli_unitary \<Rightarrow> outcome_complete \<Rightarrow> outcome_complete option" where
  "oc_pauli S observable sim = do {
     sim \<leftarrow> oc_ensure_qubit_capacity (projective_max_support (sparse_ops S) (projective observable)) sim;
     oc_on_clifford (left_mul_pauli (sparse_ops S) observable) sim }"

definition oc_pauli_exp :: "'s sorted_lib \<Rightarrow> 's pauli_unitary \<Rightarrow> outcome_complete \<Rightarrow> outcome_complete option" where
  "oc_pauli_exp S observable sim = do {
     sim \<leftarrow> oc_ensure_qubit_capacity (projective_max_support (sparse_ops S) (projective observable)) sim;
     oc_on_clifford (left_mul_pauli_exp (sparse_ops S) observable) sim }"

definition oc_conditional_pauli :: "'s sorted_lib \<Rightarrow> 's pauli_unitary \<Rightarrow> nat list \<Rightarrow> bool \<Rightarrow> outcome_complete \<Rightarrow> outcome_complete option" where
  "oc_conditional_pauli S observable outcomes parity sim = do {
     sim \<leftarrow> oc_ensure_qubit_capacity (projective_max_support (sparse_ops S) (projective observable)) sim;
     (branch_mask, constant) \<leftarrow> outcome_parity_new (oc_outcome_matrix sim) (oc_outcome_shift sim) outcomes;
     sim \<leftarrow> (if constant = parity then oc_pauli S observable sim else Some sim);
     oc_apply_pauli_conditioned_on_branch_bits (sparse_ops S) observable branch_mask sim }"

section \<open>Measurements with a hint\<close>

definition oc_measure_with_hint_generic ::
  "'s sorted_lib \<Rightarrow> 's pauli_unitary \<Rightarrow> 's pauli_unitary \<Rightarrow> outcome_complete \<Rightarrow> outcome_complete option" where
  "oc_measure_with_hint_generic S observable hint sim = do {
     anti \<leftarrow> anti_commutes_with (sparse_ops S) (projective observable) (projective hint);
     guard_opt anti;
     preimage \<leftarrow> clifford_preimage (sparse_ops S) (oc_clifford sim) hint;
     if bo_support dense_ops (px preimage) \<noteq> [] then map_option fst (oc_measure S observable sim)
     else do {
       pauli \<leftarrow> mul_assign_right (sparse_ops S) hint observable;
       let pauli = add_assign_phase_exp (3 - xz_phase_exponent preimage) pauli;
       sim \<leftarrow> oc_pauli_exp S pauli sim;
       (sim, _, branch_bit_index) \<leftarrow> oc_allocate_branch_bit sim;
       branch_bits_indicator \<leftarrow> row_sum (oc_sign_matrix sim) (bo_support dense_ops (pz preimage));
       branch_bits_indicator \<leftarrow> blocks_assign_index branch_bit_index True branch_bits_indicator;
       oc_apply_pauli_conditioned_on_branch_bits (sparse_ops S) hint branch_bits_indicator sim } }"

definition oc_measure_with_hint ::
  "'s sorted_lib \<Rightarrow> 's pauli_unitary \<Rightarrow> 's pauli_unitary \<Rightarrow> outcome_complete \<Rightarrow> (outcome_complete \<times> nat) option" where
  "oc_measure_with_hint S observable hint sim = do {
     sim \<leftarrow> oc_ensure_qubit_capacity (max_pair_support (sparse_ops S) observable hint) sim;
     sim \<leftarrow> oc_measure_with_hint_generic S observable hint sim;
     Some (sim, oc_outcome_count sim - 1) }"

section \<open>Queries\<close>

definition oc_is_stabilizer :: "'s sorted_lib \<Rightarrow> 's pauli_unitary \<Rightarrow> outcome_complete \<Rightarrow> bool option" where
  "oc_is_stabilizer S observable sim = do {
     preimage \<leftarrow> clifford_preimage (sparse_ops S) (oc_clifford sim) observable;
     if bo_is_zero dense_ops (px preimage) then do {
       sign_parity_indicator \<leftarrow> row_sum (oc_sign_matrix sim) (bo_support dense_ops (pz preimage));
       Some (bo_is_zero dense_ops sign_parity_indicator \<and> phase_value (xz_phase_exponent preimage) = 0) }
     else Some False }"

definition oc_is_stabilizer_up_to_sign :: "'s sorted_lib \<Rightarrow> 's pauli_unitary \<Rightarrow> outcome_complete \<Rightarrow> bool option" where
  "oc_is_stabilizer_up_to_sign S observable sim = do {
     preimage \<leftarrow> clifford_preimage (sparse_ops S) (oc_clifford sim) observable;
     Some (bo_is_zero dense_ops (px preimage)) }"

definition oc_is_stabilizer_with_conditional_sign :: "'s sorted_lib \<Rightarrow> 's pauli_unitary \<Rightarrow> nat list \<Rightarrow> outcome_complete \<Rightarrow> bool option" where
  "oc_is_stabilizer_with_conditional_sign S observable outcomes sim = do {
     preimage \<leftarrow> clifford_preimage (sparse_ops S) (oc_clifford sim) observable;
     if bo_is_zero dense_ops (px preimage) \<and> phase_is_even (xz_phase_exponent preimage) then do {
       sign_parity_indicator \<leftarrow> row_sum (oc_sign_matrix sim) (bo_support dense_ops (pz preimage));
       let shift = (phase_value (xz_phase_exponent preimage) div 2 = 1);
       (branch_mask, constant) \<leftarrow> outcome_parity_new (oc_outcome_matrix sim) (oc_outcome_shift sim) outcomes;
       Some (bo_eq dense_ops sign_parity_indicator branch_mask \<and> shift = constant) }
     else Some False }"

section \<open>All operations\<close>

fun oc_step :: "'s sorted_lib \<Rightarrow> 's sim_op \<Rightarrow> outcome_complete \<Rightarrow> outcome_complete option" where
  "oc_step S AllocateRandomBit sim = map_option fst (oc_allocate_branch_bit sim)"
| "oc_step S (UnitaryOperation op support) sim = oc_unitary_op op support sim"
| "oc_step S (PermuteQubits permutation support) sim = oc_permute permutation support sim"
| "oc_step S (ApplyPauli p) sim = oc_pauli S p sim"
| "oc_step S (PauliExp p) sim = oc_pauli_exp S p sim"
| "oc_step S (ControlledPauli p r) sim = oc_controlled_pauli S p r sim"
| "oc_step S (ConditionalPauli p outcomes parity) sim = oc_conditional_pauli S p outcomes parity sim"
| "oc_step S (Measure p) sim = map_option fst (oc_measure S p sim)"
| "oc_step S (MeasureWithHint p hint) sim = map_option fst (oc_measure_with_hint S p hint sim)"

section \<open>Sums of rows\<close>

lemma fold_xor_par: "distinct rs \<Longrightarrow> fold (\<lambda>r x. x \<noteq> f r) rs x = (x \<noteq> par {r \<in> set rs. f r})"
proof (induction rs arbitrary: x)
  case (Cons r rs)
  have "{q \<in> set (r # rs). f q} = (if f r then insert r {q \<in> set rs. f q} else {q \<in> set rs. f q})" by auto
  then have "par {q \<in> set (r # rs). f q} = (f r \<noteq> par {q \<in> set rs. f q})" using Cons.prems by (simp add: par_def)
  with Cons show ?case by auto
qed simp

lemma xsum_fold_xor:
  "xsum n (\<lambda>j. fold (\<lambda>r x. x \<noteq> A r j) rs (f j) \<and> b j) = fold (\<lambda>r x. x \<noteq> xsum n (\<lambda>j. A r j \<and> b j)) rs (xsum n (\<lambda>j. f j \<and> b j))"
proof (induction rs arbitrary: f)
  case (Cons r rs)
  show ?case using Cons.IH [of "\<lambda>j. f j \<noteq> A r j"] by (simp only: fold_simps xsum_dist_left)
qed simp

lemma row_sum_run:
  assumes m: "mat_ok m" and rows: "\<forall>r \<in> set rows. r < row_count m"
  shows "\<exists>v. row_sum m rows = Some v \<and> blocks_ok v \<and> length v = rowstride m \<and>
    blocks_bit v = (\<lambda>j. fold (\<lambda>r x. x \<noteq> mat_bit m r j) rows False)"
proof -
  have "\<exists>v. ofold (\<lambda>row_id res. do { row \<leftarrow> mat_row m row_id; Some (blocks_bitxor_assign res row) }) rows z = Some v \<and> blocks_ok v \<and>
      length v = rowstride m \<and> blocks_bit v = (\<lambda>j. fold (\<lambda>r x. x \<noteq> mat_bit m r j) rows (blocks_bit z j))"
    if "blocks_ok z" "length z = rowstride m" "\<forall>r \<in> set rows. r < row_count m" for z rows
    using that
  proof (induction rows arbitrary: z)
    case (Cons r rows)
    have r: "r < row_count m" using Cons.prems(3) by simp
    note row = row_blocks_ok [OF m r]
    let ?z = "blocks_bitxor_assign z (row_blocks m r)"
    have z: "blocks_ok ?z" "length ?z = rowstride m" "blocks_bit ?z = (\<lambda>j. blocks_bit z j \<noteq> mat_bit m r j)"
      using blocks.xor_assign [of z "row_blocks m r"] Cons.prems row row_blocks_bit [OF r] by auto
    show ?case using Cons.IH [OF z(1,2)] Cons.prems(3) z(3) mat_row_run [OF m r] by simp
  qed simp
  from this [of "aligned_zeros (column_count m)" rows] rows show ?thesis
    by (simp add: row_sum_def aligned_zeros_bit rowstride_def rowstride_block_count column_count_def)
qed

lemma xor_into_rows_run:
  assumes m: "mat_ok m" and rows: "\<forall>r \<in> set rows. r < row_count m" "distinct rows" and v: "blocks_ok v" "length v = rowstride m"
  shows "\<exists>t. xor_into_rows rows v m = Some t \<and> same_shape t m \<and>
    mat_bit t = (\<lambda>i j. if i \<in> set rows then mat_bit m i j \<noteq> blocks_bit v j else mat_bit m i j)"
proof -
  have "\<exists>t. xor_into_rows rows v s = Some t \<and> same_shape t m \<and>
      mat_bit t = (\<lambda>i j. if i \<in> set rows then mat_bit s i j \<noteq> blocks_bit v j else mat_bit s i j)"
    if "same_shape s m" "\<forall>r \<in> set rows. r < row_count m" "distinct rows" for s rows
    using that
  proof (induction rows arbitrary: s)
    case Nil
    then show ?case by (simp add: xor_into_rows_def)
  next
    case (Cons r rows)
    note s = same_shapeD [OF Cons.prems(1)]
    have r: "r < row_count s" using Cons.prems(2) s(2) by simp
    note row = row_blocks_ok [OF s(1) r]
    let ?row = "blocks_bitxor_assign (row_blocks s r) v"
    have row': "blocks_ok ?row" "length ?row = rowstride s" "blocks_bit ?row = (\<lambda>j. mat_bit s r j \<noteq> blocks_bit v j)"
      using blocks.xor_assign [of "row_blocks s r" v] row v s(4) row_blocks_bit [OF r] by auto
    have run: "mat_row_update r (\<lambda>row. Some (blocks_bitxor_assign row v)) s = Some (put_row r ?row s)"
      by (rule mat_row_update_run [where f = "\<lambda>row. Some (blocks_bitxor_assign row v)", OF s(1) r refl row'(2)])
    have sh: "same_shape (put_row r ?row s) m"
      using put_row_ok [OF s(1) r row'(1,2)] s(2,3) by (simp add: same_shape_def)
    obtain t where t: "xor_into_rows rows v (put_row r ?row s) = Some t" "same_shape t m"
        "mat_bit t = (\<lambda>i j. if i \<in> set rows then mat_bit (put_row r ?row s) i j \<noteq> blocks_bit v j else mat_bit (put_row r ?row s) i j)"
      using Cons.IH [OF sh] Cons.prems(2,3) by auto
    show ?case
      using t run Cons.prems(3) row'(3) by (auto simp: xor_into_rows_def put_row_bit [OF s(1) r row'(2)] fun_eq_iff)
  qed
  then show ?thesis using same_shape_refl [OF m] rows by blast
qed

section \<open>Growing a matrix\<close>

lemma row_assign_is_set:
  assumes "mat_ok m" "r < row_count m" "c < mat_cols m"
  shows "mat_row_update r (blocks_assign_index c v) m = mat_set (r, c) v m"
proof -
  note row = row_blocks_ok [OF assms(1,2)]
  obtain row' where "blocks_assign_index c v (row_blocks m r) = Some row'" "length row' = rowstride m"
    using blocks.assign [of "row_blocks m r" c v] row in_row_bits [OF assms(3), of "row_blocks m r"] by auto
  then show ?thesis using assms mat_row_update_run [of m r "blocks_assign_index c v" row'] by (simp add: mat_set_row)
qed

lemma mat_resize_grows:
  assumes m: "mat_ok m" "mat_clean m" and le: "row_count m \<le> rows" "mat_cols m \<le> cols"
  shows "\<exists>n. mat_resize rows cols m = Some n \<and> mat_ok n \<and> row_count n = rows \<and> mat_cols n = cols \<and> mat_bit n = mat_bit m"
proof (cases "rows = row_count m \<and> cols = mat_cols m")
  case True
  then show ?thesis using m(1) by (simp add: mat_resize_def column_count_def)
next
  case False
  let ?z = "mat_zeros rows cols"
  have z: "mat_ok ?z" by (rule mat_zeros_ok)
  let ?f = "\<lambda>r c n. do { row \<leftarrow> mat_row m r; val \<leftarrow> blocks_index row c; mat_row_update r (blocks_assign_index c val) n }"
  let ?g = "\<lambda>r c n. do { v \<leftarrow> (do { row \<leftarrow> mat_row m r; blocks_index row c }); mat_set (0 + r, 0 + c) v n }"
  have src: "(do { row \<leftarrow> mat_row m r; blocks_index row c }) = Some (mat_bit m r c)" if "r < row_count m" "c < mat_cols m" for r c
    using that m(1) row_blocks_ok [OF m(1) that(1)] in_row_bits [OF that(2), of "row_blocks m r"]
    by (simp add: mat_row_run blocks.idx mat_bit_def)
  have step: "?f r c n = ?g r c n" if "same_shape n ?z" "r < row_count m" "c < mat_cols m" for r c n
  proof -
    have "mat_row_update r (blocks_assign_index c (mat_bit m r c)) n = mat_set (r, c) (mat_bit m r c) n"
      by (rule row_assign_is_set) (use that le in \<open>auto simp: same_shape_def mat_zeros_ok\<close>)
    with src [OF that(2,3)] show ?thesis by (simp add: bind_assoc [symmetric])
  qed
  have inner: "ofold (?f r) cs n = ofold (?g r) cs n \<and> (\<forall>n'. ofold (?g r) cs n = Some n' \<longrightarrow> same_shape n' ?z)"
    if "same_shape n ?z" "r < row_count m" "\<forall>c \<in> set cs. c < mat_cols m" for r n cs
    using that
  proof (induction cs arbitrary: n)
    case (Cons c cs)
    have c: "c < mat_cols m" using Cons.prems(3) by simp
    have dim: "mat_ok n" "r < row_count n" "c < mat_cols n"
      using Cons.prems(1,2) c le by (auto simp: same_shape_def mat_zeros_ok)
    obtain n1 where n1: "?g r c n = Some n1" "same_shape n1 n"
      using mat_set_bit [OF dim, of "mat_bit m r c"] src [OF Cons.prems(2) c] by auto
    from Cons.IH [OF same_shape_trans [OF n1(2) Cons.prems(1)] Cons.prems(2)] Cons.prems(3) n1(1) step [OF Cons.prems(1,2) c]
    show ?case by simp
  qed simp
  have outer: "ofold (\<lambda>r. ofold (?f r) [0..<mat_cols m]) rs n = ofold (\<lambda>r. ofold (?g r) [0..<mat_cols m]) rs n"
    if "same_shape n ?z" "\<forall>r \<in> set rs. r < row_count m" for rs n
    using that
  proof (induction rs arbitrary: n)
    case (Cons r rs)
    have i: "ofold (?f r) [0..<mat_cols m] n = ofold (?g r) [0..<mat_cols m] n"
        "\<And>n'. ofold (?g r) [0..<mat_cols m] n = Some n' \<Longrightarrow> same_shape n' ?z"
      using inner [OF Cons.prems(1), of r "[0..<mat_cols m]"] Cons.prems(2) by auto
    show ?case
      unfolding ofold.simps i(1) using Cons.IH [OF i(2)] Cons.prems(2) by (cases "ofold (?g r) [0..<mat_cols m] n") auto
  qed simp
  have "mat_resize rows cols m = ofold (\<lambda>r. ofold (?g r) [0..<mat_cols m]) [0..<row_count m] ?z"
    unfolding mat_resize_def Let_def column_count_def if_not_P [OF False] by (rule outer [OF same_shape_refl [OF z]]) simp
  moreover obtain n where "ofold (\<lambda>r. ofold (?g r) [0..<mat_cols m]) [0..<row_count m] ?z = Some n" "same_shape n ?z"
      "mat_bit n = (\<lambda>i j. if 0 \<le> i \<and> i < 0 + row_count m \<and> 0 \<le> j \<and> j < 0 + mat_cols m then mat_bit m (i - 0) (j - 0) else mat_bit ?z i j)"
    using amat.copy_grid [OF z, of 0 "row_count m" 0 "mat_cols m" "\<lambda>r c. do { row \<leftarrow> mat_row m r; blocks_index row c }" "mat_bit m", OF _ _ src] le
    by (auto simp: mat_zeros_ok)
  moreover have "mat_bit m i j \<Longrightarrow> i < row_count m \<and> j < mat_cols m" for i j using m(2) by (auto simp: mat_clean_def mat_bit_def)
  ultimately show ?thesis by (auto simp: same_shape_def mat_zeros_ok fun_eq_iff)
qed

end
