(* ===== verification/Complete_Branches.thy ===== *)
theory Complete_Branches
  imports Outcome_Complete
begin

text \<open>
  What the branches of the outcome-complete simulator mean: for every assignment of the branch bits the encoder with the
  signs of that branch encodes the state of the quantum machine with the outcomes of that branch.  Each operation is a step
  of the machine in every branch at once.
\<close>

section \<open>The invariant\<close>

text \<open>The matrices have room for the outcomes and branch bits there are, nothing is written beyond those, and the outcome
  capacity is a power of two, which makes the capacities grow together.\<close>

definition branches_ok :: "outcome_complete \<Rightarrow> bool" where
  "branches_ok sim \<longleftrightarrow> mat_ok (oc_sign_matrix sim) \<and> mat_ok (oc_outcome_matrix sim) \<and>
     mat_cols (oc_sign_matrix sim) = mat_cols (oc_outcome_matrix sim) \<and>
     length (filter id (oc_introduces_branch_bit sim)) = oc_branch_bit_count sim \<and>
     oc_branch_bit_count sim \<le> mat_cols (oc_outcome_matrix sim) \<and>
     oc_outcome_count sim \<le> row_count (oc_outcome_matrix sim) \<and>
     mat_cols (oc_outcome_matrix sim) \<le> row_count (oc_outcome_matrix sim) \<and> (\<exists>k. row_count (oc_outcome_matrix sim) = 2 ^ k) \<and>
     blocks_ok (oc_outcome_shift sim) \<and> row_count (oc_outcome_matrix sim) \<le> length (oc_outcome_shift sim) * 512 \<and>
     (\<forall>q j. mat_bit (oc_sign_matrix sim) q j \<longrightarrow> q < oc_qubit_count sim \<and> j < oc_branch_bit_count sim) \<and>
     (\<forall>i j. mat_bit (oc_outcome_matrix sim) i j \<longrightarrow> i < oc_outcome_count sim \<and> j < oc_branch_bit_count sim) \<and>
     (\<forall>i. blocks_bit (oc_outcome_shift sim) i \<longrightarrow> i < oc_outcome_count sim)"

definition oc_ok :: "outcome_complete \<Rightarrow> bool" where
  "oc_ok sim \<longleftrightarrow> branches_ok sim \<and> clifford_valid (oc_clifford sim) \<and> fits (num_qubits (oc_clifford sim)) (oc_preimage sim) \<and>
     row_count (oc_sign_matrix sim) = num_qubits (oc_clifford sim) \<and> oc_qubit_count sim \<le> num_qubits (oc_clifford sim) \<and>
     unused (oc_clifford sim) (oc_qubit_count sim)"

lemma branches_okD:
  assumes "branches_ok sim"
  shows "mat_ok (oc_sign_matrix sim)" "mat_ok (oc_outcome_matrix sim)" "mat_cols (oc_sign_matrix sim) = mat_cols (oc_outcome_matrix sim)"
    "length (filter id (oc_introduces_branch_bit sim)) = oc_branch_bit_count sim"
    "oc_branch_bit_count sim \<le> mat_cols (oc_outcome_matrix sim)" "oc_outcome_count sim \<le> row_count (oc_outcome_matrix sim)"
    "mat_cols (oc_outcome_matrix sim) \<le> row_count (oc_outcome_matrix sim)" "\<exists>k. row_count (oc_outcome_matrix sim) = 2 ^ k"
    "blocks_ok (oc_outcome_shift sim)" "row_count (oc_outcome_matrix sim) \<le> length (oc_outcome_shift sim) * 512"
    "mat_bit (oc_sign_matrix sim) q j \<Longrightarrow> q < oc_qubit_count sim \<and> j < oc_branch_bit_count sim"
    "mat_bit (oc_outcome_matrix sim) i j \<Longrightarrow> i < oc_outcome_count sim \<and> j < oc_branch_bit_count sim"
    "blocks_bit (oc_outcome_shift sim) i \<Longrightarrow> i < oc_outcome_count sim"
  using assms unfolding branches_ok_def by blast+

lemma oc_okD:
  assumes "oc_ok sim"
  shows "branches_ok sim" "clifford_valid (oc_clifford sim)" "fits (num_qubits (oc_clifford sim)) (oc_preimage sim)"
    "row_count (oc_sign_matrix sim) = num_qubits (oc_clifford sim)" "oc_qubit_count sim \<le> num_qubits (oc_clifford sim)"
    "unused (oc_clifford sim) (oc_qubit_count sim)"
  using assms unfolding oc_ok_def by blast+

lemma branches_clean:
  assumes "branches_ok sim"
  shows "mat_clean (oc_sign_matrix sim)" "mat_clean (oc_outcome_matrix sim)"
  using branches_okD(3,5) [OF assms] branches_okD(11,12) [OF assms] unfolding mat_clean_def by (metis order_less_le_trans)+

section \<open>Branches\<close>

definition oc_sign :: "outcome_complete \<Rightarrow> (nat \<Rightarrow> bool) \<Rightarrow> nat \<Rightarrow> bool" where
  "oc_sign sim \<beta> q = xsum (oc_branch_bit_count sim) (\<lambda>j. mat_bit (oc_sign_matrix sim) q j \<and> \<beta> j)"

definition oc_outcome :: "outcome_complete \<Rightarrow> (nat \<Rightarrow> bool) \<Rightarrow> nat \<Rightarrow> bool" where
  "oc_outcome sim \<beta> i = (blocks_bit (oc_outcome_shift sim) i \<noteq>
     xsum (oc_branch_bit_count sim) (\<lambda>j. mat_bit (oc_outcome_matrix sim) i j \<and> \<beta> j))"

definition oc_outcomes :: "outcome_complete \<Rightarrow> (nat \<Rightarrow> bool) \<Rightarrow> bool list" where
  "oc_outcomes sim \<beta> = map (oc_outcome sim \<beta>) [0..<oc_outcome_count sim]"

definition oc_represents :: "(nat \<Rightarrow> bool) \<Rightarrow> outcome_complete \<Rightarrow> machine \<Rightarrow> bool" where
  "oc_represents \<beta> sim = (\<lambda>(\<psi>, os). oc_ok sim \<and> os = oc_outcomes sim \<beta> \<and> encodes (oc_clifford sim) (oc_sign sim \<beta>) \<psi>)"

lemma outcomes_length [simp]: "length (oc_outcomes sim \<beta>) = oc_outcome_count sim"
  by (simp add: oc_outcomes_def)

lemma branch_cong:
  assumes "\<And>j. j < oc_branch_bit_count sim \<Longrightarrow> \<beta> j = \<gamma> j"
  shows "oc_represents \<beta> sim = oc_represents \<gamma> sim"
proof -
  have "oc_sign sim \<beta> = oc_sign sim \<gamma>" "oc_outcome sim \<beta> = oc_outcome sim \<gamma>" using assms by (simp_all add: oc_sign_def oc_outcome_def fun_eq_iff)
  then show ?thesis by (simp add: oc_represents_def oc_outcomes_def)
qed

text \<open>Changes of the state that leave the branches as they are.\<close>

definition same_branches :: "outcome_complete \<Rightarrow> outcome_complete \<Rightarrow> bool" where
  "same_branches sim sim' \<longleftrightarrow> oc_introduces_branch_bit sim' = oc_introduces_branch_bit sim \<and>
     oc_branch_bit_count sim' = oc_branch_bit_count sim \<and> mat_bit (oc_sign_matrix sim') = mat_bit (oc_sign_matrix sim) \<and>
     mat_bit (oc_outcome_matrix sim') = mat_bit (oc_outcome_matrix sim) \<and>
     blocks_bit (oc_outcome_shift sim') = blocks_bit (oc_outcome_shift sim)"

lemma same_branchesD:
  assumes "same_branches sim sim'"
  shows "oc_sign sim' = oc_sign sim" "oc_outcome sim' = oc_outcome sim" "oc_outcomes sim' = oc_outcomes sim"
    "oc_outcome_count sim' = oc_outcome_count sim" "oc_branch_bit_count sim' = oc_branch_bit_count sim"
    "oc_introduces_branch_bit sim' = oc_introduces_branch_bit sim"
  using assms by (simp_all add: same_branches_def oc_sign_def oc_outcome_def oc_outcomes_def oc_outcome_count_def fun_eq_iff)

lemma doubled_from_power: "p = 2 ^ k \<Longrightarrow> \<exists>j. doubled_from p n = 2 ^ j \<and> (\<forall>i. n \<le> 2 ^ i \<longrightarrow> k \<le> i \<longrightarrow> j \<le> i)"
proof (induction p n arbitrary: k rule: doubled_from.induct)
  case (1 p n)
  show ?case
  proof (cases "n \<le> p")
    case True
    then show ?thesis unfolding doubled_from.simps [of p n] using 1(2) by auto
  next
    case False
    then have np: "\<not> (n \<le> p \<or> p = 0)" using 1(2) by simp
    from 1(1) [OF np, of "Suc k"] 1(2) obtain j where j: "doubled_from (2 * p) n = 2 ^ j" "\<forall>i. n \<le> 2 ^ i \<longrightarrow> Suc k \<le> i \<longrightarrow> j \<le> i" by auto
    have "Suc k \<le> i" if "n \<le> 2 ^ i" for i
    proof (rule ccontr)
      assume "\<not> Suc k \<le> i"
      then have "(2 :: nat) ^ i \<le> 2 ^ k" by (intro power_increasing) simp_all
      with that False 1(2) show False by simp
    qed
    with j np show ?thesis unfolding doubled_from.simps [of p n] by (intro exI [of _ j]) simp
  qed
qed

lemma next_power_power: "\<exists>j. next_power_of_two n = 2 ^ j" "n \<le> 2 ^ i \<Longrightarrow> next_power_of_two n \<le> 2 ^ i"
proof -
  obtain j where j: "next_power_of_two n = 2 ^ j" "\<And>i. n \<le> 2 ^ i \<Longrightarrow> j \<le> i"
    using doubled_from_power [of 1 0 n] by (auto simp: next_power_of_two_def)
  then show "\<exists>j. next_power_of_two n = 2 ^ j" by blast
  show "n \<le> 2 ^ i \<Longrightarrow> next_power_of_two n \<le> 2 ^ i" using j by (simp add: power_increasing)
qed

section \<open>Construction and capacity\<close>

lemma oc_new_run:
  assumes o: "max outcomes 512 = 2 ^ k" and b: "branch_bits \<le> max outcomes 512"
  shows "\<exists>sim. oc_with_capacity n outcomes branch_bits = Some sim \<and> oc_qubit_count sim = n \<and> oc_outcome_count sim = 0 \<and>
    (\<forall>\<beta>. oc_represents \<beta> sim (zero_state, []))"
proof -
  obtain C where C: "clifford_identity n = Some C" "clifford_valid C" "num_qubits C = n" "\<And>key. fam C key = (if snd key < n then gen key else pone)"
    using clifford_identity_run by blast
  have e: "encodes C (\<lambda>_. False) zero_state" by (rule encodes_identity [OF C(2,3)]) (simp add: C(4))
  define sim where "sim = \<lparr> oc_clifford = C, oc_sign_matrix = mat_zeros n (max branch_bits 512),
    oc_outcome_matrix = mat_zeros (max outcomes 512) (max branch_bits 512), oc_outcome_shift = aligned_zeros (max outcomes 512),
    oc_introduces_branch_bit = [], oc_branch_bit_count = 0, oc_qubit_count = n,
    oc_preimage = pauli_neutral_element_of_size dense_ops n \<rparr>"
  have sim: "oc_with_capacity n outcomes branch_bits = Some sim" "oc_clifford sim = C"
      "oc_sign_matrix sim = mat_zeros n (max branch_bits 512)" "oc_outcome_matrix sim = mat_zeros (max outcomes 512) (max branch_bits 512)"
      "oc_outcome_shift sim = aligned_zeros (max outcomes 512)" "oc_introduces_branch_bit sim = []" "oc_branch_bit_count sim = 0"
      "oc_qubit_count sim = n" "oc_preimage sim = pauli_neutral_element_of_size dense_ops n"
    using C(1) by (simp_all add: oc_with_capacity_def Let_def sim_def)
  have "branches_ok sim"
    using o b block_count_ge [of "max outcomes 512"]
    by (auto simp: branches_ok_def sim(2-9) mat_zeros_ok aligned_zeros_bit oc_outcome_count_def)
  moreover have "unused C n" by (simp add: unused_def C(3))
  ultimately have ok: "oc_ok sim" using C(2,3) fits_neutral(1) by (simp add: oc_ok_def sim(2-9) mat_zeros_ok)
  have "oc_sign sim \<beta> = (\<lambda>_. False)" for \<beta> by (simp add: oc_sign_def fun_eq_iff sim(7))
  then have "oc_represents \<beta> sim (zero_state, [])" for \<beta>
    using ok e by (simp add: oc_represents_def oc_outcomes_def oc_outcome_count_def sim(2,6))
  then show ?thesis using sim(1,6,8) by (auto simp: oc_outcome_count_def)
qed

lemma oc_capacities:
  assumes "oc_ok sim"
  shows "oc_qubit_capacity sim = Some (num_qubits (oc_clifford sim))" "oc_branch_bit_capacity sim = Some (mat_cols (oc_outcome_matrix sim))"
  using oc_okD(4) [OF assms] branches_okD(3) [OF oc_okD(1) [OF assms]]
  by (simp_all add: oc_qubit_capacity_def oc_branch_bit_capacity_def column_count_def)

text \<open>Growing the register keeps the branches and what they encode.\<close>

definition oc_extends :: "nat option \<Rightarrow> outcome_complete \<Rightarrow> outcome_complete \<Rightarrow> bool" where
  "oc_extends room sim sim' \<longleftrightarrow> oc_ok sim' \<and> same_branches sim sim' \<and>
     oc_qubit_count sim' = (case room of None \<Rightarrow> oc_qubit_count sim | Some i \<Rightarrow> max (oc_qubit_count sim) (i + 1)) \<and>
     (\<forall>\<beta> q. oc_represents \<beta> sim q \<longrightarrow> oc_represents \<beta> sim' q)"

lemma oc_ensure_run:
  assumes ok: "oc_ok sim"
  shows "\<exists>sim'. oc_ensure_qubit_capacity room sim = Some sim' \<and> oc_extends room sim sim'"
proof (cases room)
  case None
  then show ?thesis using ok by (simp add: oc_ensure_qubit_capacity_def oc_extends_def same_branches_def)
next
  case (Some i)
  note k = oc_okD [OF ok] and b = branches_okD [OF oc_okD(1) [OF ok]]
  let ?C = "oc_clifford sim" and ?m = "max (oc_qubit_count sim) (i + 1)" and ?n = "next_power_of_two (i + 1)"
  let ?sim = "sim\<lparr>oc_qubit_count := ?m\<rparr>"
  have cap: "oc_qubit_capacity ?sim = Some (num_qubits ?C)" using k(4) by (simp add: oc_qubit_capacity_def)
  have br: "branches_ok ?sim" using k(1) b(11) by (fastforce simp: branches_ok_def oc_outcome_count_def)
  show ?thesis
  proof (cases "num_qubits ?C \<le> i")
    case False
    have "unused ?C ?m" by (rule unused_mono [OF k(6)]) simp
    then have ok': "oc_ok ?sim" using False k br by (simp add: oc_ok_def)
    have same: "same_branches sim ?sim" by (simp add: same_branches_def)
    have "oc_represents \<beta> ?sim q" if "oc_represents \<beta> sim q" for \<beta> q
      using that ok' same_branchesD [OF same] by (auto simp: oc_represents_def)
    with ok' same show ?thesis using False cap Some by (simp add: oc_ensure_qubit_capacity_def oc_extends_def)
  next
    case True
    have n: "i + 1 \<le> ?n" by (rule next_power_of_two_le)
    then have le: "num_qubits ?C \<le> ?n" using True by simp
    obtain D where D: "clifford_resize ?n ?C = Some D" "clifford_valid D" "num_qubits D = ?n" "unused D (oc_qubit_count sim)"
        "\<And>\<sigma> \<tau> \<psi>. encodes ?C \<sigma> \<psi> \<Longrightarrow> (\<forall>q < ?n. \<tau> q \<longleftrightarrow> q < num_qubits ?C \<and> \<sigma> q) \<Longrightarrow> encodes D \<tau> \<psi>"
      using resize_grows [OF k(2) le k(6)] k(5) by blast
    obtain A where A: "mat_resize ?n (column_count (oc_sign_matrix sim)) (oc_sign_matrix sim) = Some A" "mat_ok A" "row_count A = ?n"
        "mat_cols A = mat_cols (oc_sign_matrix sim)" "mat_bit A = mat_bit (oc_sign_matrix sim)"
      using mat_resize_grows [OF b(1) branches_clean(1) [OF k(1)], of ?n "column_count (oc_sign_matrix sim)"] le k(4)
      by (auto simp: column_count_def)
    let ?sim' = "?sim\<lparr>oc_sign_matrix := A, oc_clifford := D, oc_preimage := pauli_neutral_element_of_size dense_ops ?n\<rparr>"
    have run: "oc_ensure_qubit_capacity room sim = Some ?sim'"
      using True n cap A(1) D(1) by (simp add: Some oc_ensure_qubit_capacity_def oc_reserve_qubits_def)
    have "unused D ?m" by (rule unused_mono [OF D(4)]) simp
    moreover have "branches_ok ?sim'" using br A by (simp add: branches_ok_def oc_outcome_count_def)
    moreover have "oc_qubit_count sim \<le> ?n" using k(5) le by simp
    ultimately have ok': "oc_ok ?sim'" using D(2,3) A(3) n fits_neutral(1) by (simp add: oc_ok_def)
    have same: "same_branches sim ?sim'" using A(5) by (simp add: same_branches_def)
    have sgn: "oc_sign sim \<beta> q \<longleftrightarrow> q < num_qubits ?C \<and> oc_sign sim \<beta> q" for \<beta> q
    proof (cases "q < num_qubits ?C")
      case False
      then have "\<not> mat_bit (oc_sign_matrix sim) q j" for j using b(11) [of q j] k(5) by auto
      then show ?thesis using False by (simp add: oc_sign_def)
    qed simp
    have "oc_represents \<beta> ?sim' q" if r: "oc_represents \<beta> sim q" for \<beta> q
    proof -
      obtain \<psi> os where q: "q = (\<psi>, os)" by (cases q)
      have "encodes D (oc_sign sim \<beta>) \<psi>" by (rule D(5)) (use r sgn in \<open>auto simp: q oc_represents_def\<close>)
      then show ?thesis using r ok' same_branchesD [OF same] by (simp add: q oc_represents_def)
    qed
    with ok' same run show ?thesis by (simp add: Some oc_extends_def)
  qed
qed

text \<open>Nothing was recorded.\<close>

definition unrecorded :: "outcome_complete \<Rightarrow> outcome_complete \<Rightarrow> bool" where
  "unrecorded sim sim' \<longleftrightarrow> oc_introduces_branch_bit sim' = oc_introduces_branch_bit sim \<and>
     oc_branch_bit_count sim' = oc_branch_bit_count sim \<and> oc_outcomes sim' = oc_outcomes sim"

lemma same_unrecorded: "same_branches sim sim' \<Longrightarrow> unrecorded sim sim'"
  using same_branchesD [of sim sim'] by (simp add: unrecorded_def)

section \<open>Unitary operations\<close>

lemma oc_on_clifford_run:
  assumes ok: "oc_ok sim" and f: "operates (oc_clifford sim) (oc_qubit_count sim) U (f (oc_clifford sim))"
  shows "\<exists>sim'. oc_on_clifford f sim = Some sim' \<and> oc_extends None sim sim \<and> oc_ok sim' \<and> same_branches sim sim' \<and>
    oc_qubit_count sim' = oc_qubit_count sim \<and> oc_preimage sim' = oc_preimage sim \<and>
    (\<forall>\<beta> \<psi> os. oc_represents \<beta> sim (\<psi>, os) \<longrightarrow> oc_represents \<beta> sim' (U \<psi>, os))"
proof (rule operatesE [OF f])
  fix C'
  assume C': "f (oc_clifford sim) = Some C'" "clifford_valid C'" "num_qubits C' = num_qubits (oc_clifford sim)"
    "unused (oc_clifford sim) (oc_qubit_count sim) \<Longrightarrow> unused C' (oc_qubit_count sim)"
    "\<And>\<sigma> \<psi>. encodes (oc_clifford sim) \<sigma> \<psi> \<Longrightarrow> encodes C' \<sigma> (U \<psi>)"
  let ?sim = "sim\<lparr>oc_clifford := C'\<rparr>"
  have ok': "oc_ok ?sim" using oc_okD [OF ok] C'(2-4) by (simp add: oc_ok_def branches_ok_def oc_outcome_count_def)
  have same: "same_branches sim ?sim" by (simp add: same_branches_def)
  have "oc_represents \<beta> ?sim (U \<psi>, os)" if "oc_represents \<beta> sim (\<psi>, os)" for \<beta> \<psi> os
    using that ok' same_branchesD [OF same] C'(5) by (simp add: oc_represents_def)
  then show ?thesis using ok ok' same C'(1) by (simp add: oc_on_clifford_def oc_extends_def same_branches_def)
qed

text \<open>An operation that first makes room for the qubits it names.\<close>

lemma oc_grown_run:
  assumes ok: "oc_ok sim"
    and f: "\<And>C m. clifford_valid C \<Longrightarrow> m \<le> num_qubits C \<Longrightarrow> (\<And>i. room = Some i \<Longrightarrow> i < m) \<Longrightarrow> operates C m U (f C)"
  shows "\<exists>sim'. (do { sim \<leftarrow> oc_ensure_qubit_capacity room sim; oc_on_clifford f sim }) = Some sim' \<and> oc_ok sim' \<and> unrecorded sim sim' \<and>
    (\<forall>\<beta> \<psi> os. oc_represents \<beta> sim (\<psi>, os) \<longrightarrow> oc_represents \<beta> sim' (U \<psi>, os))"
proof -
  obtain sim1 where 1: "oc_ensure_qubit_capacity room sim = Some sim1" "oc_extends room sim sim1" using oc_ensure_run [OF ok] by blast
  have ok1: "oc_ok sim1" and same: "same_branches sim sim1" and rep: "\<And>\<beta> q. oc_represents \<beta> sim q \<Longrightarrow> oc_represents \<beta> sim1 q"
    using 1(2) unfolding oc_extends_def by blast+
  have "operates (oc_clifford sim1) (oc_qubit_count sim1) U (f (oc_clifford sim1))"
    by (rule f [OF oc_okD(2,5) [OF ok1]]) (use 1(2) in \<open>simp add: oc_extends_def\<close>)
  from oc_on_clifford_run [where f = f and U = U, OF ok1 this] obtain sim' where
      "oc_on_clifford f sim1 = Some sim'" "oc_ok sim'" "same_branches sim1 sim'"
      "\<And>\<beta> \<psi> os. oc_represents \<beta> sim1 (\<psi>, os) \<Longrightarrow> oc_represents \<beta> sim' (U \<psi>, os)" by blast
  with 1(1) rep same show ?thesis using same_branchesD [of sim sim1] same_branchesD [of sim1 sim'] by (auto simp: unrecorded_def)
qed

section \<open>Recording an outcome\<close>

definition roomier :: "bool \<Rightarrow> outcome_complete \<Rightarrow> outcome_complete \<Rightarrow> bool" where
  "roomier random sim sim' \<longleftrightarrow> oc_ok sim' \<and> same_branches sim sim' \<and> oc_clifford sim' = oc_clifford sim \<and>
     oc_qubit_count sim' = oc_qubit_count sim \<and> oc_preimage sim' = oc_preimage sim \<and>
     oc_outcome_count sim < row_count (oc_outcome_matrix sim') \<and>
     (random \<longrightarrow> oc_branch_bit_count sim < mat_cols (oc_outcome_matrix sim'))"

lemma reserve_run:
  assumes ok: "oc_ok sim" and o: "row_count (oc_outcome_matrix sim) \<le> r" and w: "mat_cols (oc_outcome_matrix sim) \<le> w"
    and le: "w \<le> r" and pow: "r = 2 ^ k"
  shows "\<exists>sim'. oc_reserve_outcomes r w sim = Some sim' \<and> oc_ok sim' \<and> same_branches sim sim' \<and> oc_clifford sim' = oc_clifford sim \<and>
    oc_qubit_count sim' = oc_qubit_count sim \<and> oc_preimage sim' = oc_preimage sim \<and>
    row_count (oc_outcome_matrix sim') = r \<and> mat_cols (oc_outcome_matrix sim') = w"
proof -
  note k = oc_okD [OF ok] and b = branches_okD [OF oc_okD(1) [OF ok]]
  let ?M = "oc_outcome_matrix sim" and ?A = "oc_sign_matrix sim" and ?v = "oc_outcome_shift sim"
  obtain M where M: "mat_resize r w ?M = Some M" "mat_ok M" "row_count M = r" "mat_cols M = w" "mat_bit M = mat_bit ?M"
    using mat_resize_grows [OF b(2) branches_clean(2) [OF k(1)] o w] by blast
  obtain A where A: "mat_resize (row_count ?A) w ?A = Some A" "mat_ok A" "row_count A = row_count ?A" "mat_cols A = w" "mat_bit A = mat_bit ?A"
    using mat_resize_grows [OF b(1) branches_clean(1) [OF k(1)] order_refl, of w] w b(3) by auto
  obtain v where v: "(if length ?v * 512 < r then aligned_resize r ?v else Some ?v) = Some v" "blocks_ok v" "r \<le> length v * 512"
      "blocks_bit v = blocks_bit ?v"
  proof (cases "length ?v * 512 < r")
    case True
    then show thesis using that aligned_resize_bits [OF b(9), of r] block_count_ge [of r] by (auto simp: fun_eq_iff)
  qed (use that b(9) in simp)
  let ?sim = "sim\<lparr>oc_outcome_matrix := M, oc_sign_matrix := A, oc_outcome_shift := v\<rparr>"
  have "max r (row_count ?M) = r" "max w (mat_cols ?M) = w" using o w by simp_all
  then have run: "oc_reserve_outcomes r w sim = Some ?sim"
    unfolding oc_reserve_outcomes_def oc_capacities(2) [OF ok] Let_def oc_outcome_capacity_def bind.bind_lunit
    using le M(1) A(1) v(1) by (cases "length ?v * 512 < r") simp_all
  have "branches_ok ?sim"
    using b(4-6,11-13) M(2-5) A(2,4,5) v(2-4) o w le pow by (auto simp: branches_ok_def oc_outcome_count_def)
  then have "oc_ok ?sim" using k A(3) by (simp add: oc_ok_def)
  moreover have "same_branches sim ?sim" using M(5) A(5) v(4) by (simp add: same_branches_def)
  ultimately show ?thesis using run M(3,4) by simp
qed

lemma ensure_outcomes_run:
  assumes ok: "oc_ok sim"
  shows "\<exists>sim'. oc_ensure_outcome_capacity random sim = Some sim' \<and> roomier random sim sim'"
proof -
  note k = oc_okD [OF ok] and b = branches_okD [OF oc_okD(1) [OF ok]]
  let ?M = "oc_outcome_matrix sim"
  let ?c = "oc_outcome_count sim" and ?N = "oc_branch_bit_count sim"
  define r where "r = (if ?c \<ge> row_count ?M then next_power_of_two (?c + 1) else row_count ?M)"
  define w where "w = (if random \<and> ?N \<ge> mat_cols ?M then next_power_of_two (?N + 1) else mat_cols ?M)"
  have Nc: "?N \<le> ?c" using b(4) length_filter_le [of id "oc_introduces_branch_bit sim"] by (simp add: oc_outcome_count_def)
  have "\<exists>j. r = 2 ^ j" unfolding r_def using b(8) next_power_power(1) [of "?c + 1"] by (cases "row_count ?M \<le> ?c") simp_all
  then obtain j where pow: "r = 2 ^ j" by blast
  have r: "?c < r" "row_count ?M \<le> r" using next_power_of_two_le [of "?c + 1"] by (auto simp: r_def)
  have w: "mat_cols ?M \<le> w" "random \<longrightarrow> ?N < w" using next_power_of_two_le [of "?N + 1"] by (auto simp: w_def)
  have "next_power_of_two (?N + 1) \<le> r" unfolding pow by (rule next_power_power(2)) (use r(1) Nc pow in simp)
  moreover have "mat_cols ?M \<le> r" using b(7) r(2) by simp
  ultimately have le: "w \<le> r" by (simp add: w_def)
  have "oc_ensure_outcome_capacity random sim = oc_reserve_outcomes r w sim"
    unfolding oc_ensure_outcome_capacity_def oc_capacities(2) [OF ok] Let_def oc_outcome_capacity_def r_def w_def by simp
  then show ?thesis using reserve_run [OF ok r(2) w(1) le pow] r(1) w(2) by (auto simp: roomier_def)
qed

lemma roomier_represents: "roomier r sim sim' \<Longrightarrow> oc_represents \<beta> sim q \<Longrightarrow> oc_represents \<beta> sim' q"
  using same_branchesD [of sim sim'] by (auto simp: roomier_def oc_represents_def)

text \<open>\<open>appended sim sim' r f\<close>: one outcome was appended, whose value in branch \<open>\<beta>\<close> is \<open>f \<beta>\<close>; it introduced a branch bit
  when \<open>r\<close> says so.\<close>

definition appended :: "outcome_complete \<Rightarrow> outcome_complete \<Rightarrow> bool \<Rightarrow> ((nat \<Rightarrow> bool) \<Rightarrow> bool) \<Rightarrow> bool" where
  "appended sim sim' r f \<longleftrightarrow> oc_introduces_branch_bit sim' = oc_introduces_branch_bit sim @ [r] \<and>
     oc_branch_bit_count sim' = (if r then oc_branch_bit_count sim + 1 else oc_branch_bit_count sim) \<and>
     (\<forall>\<beta>. oc_outcomes sim' \<beta> = oc_outcomes sim \<beta> @ [f \<beta>])"

lemma unrecorded_appended: "appended sim sim1 r f \<Longrightarrow> unrecorded sim1 sim2 \<Longrightarrow> appended sim sim2 r f"
  by (simp add: appended_def unrecorded_def)

lemma outcomes_appended:
  assumes n: "oc_outcome_count sim' = oc_outcome_count sim + 1"
    and old: "\<And>i. i < oc_outcome_count sim \<Longrightarrow> oc_outcome sim' \<beta> i = oc_outcome sim \<beta> i"
    and new: "oc_outcome sim' \<beta> (oc_outcome_count sim) = x"
  shows "oc_outcomes sim' \<beta> = oc_outcomes sim \<beta> @ [x]"
proof -
  have "map (oc_outcome sim' \<beta>) [0..<oc_outcome_count sim] = map (oc_outcome sim \<beta>) [0..<oc_outcome_count sim]"
    using old by simp
  then show ?thesis using new by (simp add: oc_outcomes_def n)
qed

lemma oc_allocate_run:
  assumes ok: "oc_ok sim"
  shows "\<exists>sim'. oc_allocate_branch_bit sim = Some (sim', oc_outcome_count sim, oc_branch_bit_count sim) \<and> oc_ok sim' \<and>
    appended sim sim' True (\<lambda>\<beta>. \<beta> (oc_branch_bit_count sim)) \<and> oc_sign sim' = oc_sign sim \<and> oc_clifford sim' = oc_clifford sim \<and>
    oc_qubit_count sim' = oc_qubit_count sim \<and> oc_preimage sim' = oc_preimage sim \<and>
    oc_branch_bit_count sim < mat_cols (oc_outcome_matrix sim') \<and> (\<forall>q. \<not> mat_bit (oc_sign_matrix sim') q (oc_branch_bit_count sim))"
proof -
  let ?c = "oc_outcome_count sim" and ?N = "oc_branch_bit_count sim"
  obtain sim1 where 1: "oc_ensure_outcome_capacity True sim = Some sim1" "roomier True sim sim1" using ensure_outcomes_run [OF ok] by blast
  have ok1: "oc_ok sim1" and same: "same_branches sim sim1" and room: "?c < row_count (oc_outcome_matrix sim1)" "?N < mat_cols (oc_outcome_matrix sim1)"
    and frame: "oc_clifford sim1 = oc_clifford sim" "oc_qubit_count sim1 = oc_qubit_count sim" "oc_preimage sim1 = oc_preimage sim"
    using 1(2) by (simp_all add: roomier_def)
  note b = branches_okD [OF oc_okD(1) [OF ok1]] and s = same_branchesD [OF same]
  let ?M = "oc_outcome_matrix sim1"
  obtain M where M: "mat_set (?c, ?N) True ?M = Some M" "same_shape M ?M" "mat_bit M = (mat_bit ?M)(?c := (mat_bit ?M ?c)(?N := True))"
    using mat_set_bit [OF b(2) room] by blast
  let ?sim = "sim1\<lparr>oc_outcome_matrix := M, oc_introduces_branch_bit := oc_introduces_branch_bit sim1 @ [True], oc_branch_bit_count := ?N + 1\<rparr>"
  have run: "oc_allocate_branch_bit sim = Some (?sim, ?c, ?N)"
    using 1(1) M(1) row_assign_is_set [OF b(2) room, of True] s(4,5) by (simp add: oc_allocate_branch_bit_def Let_def)
  note sh = same_shapeD [OF M(2)]
  have c': "oc_outcome_count ?sim = ?c + 1" using s(6) by (simp add: oc_outcome_count_def)
  have bitM: "mat_bit M i j \<Longrightarrow> i < ?c + 1 \<and> j < ?N + 1" for i j using b(12) [of i j] s(4,5) by (auto simp: M(3) split: if_splits)
  have bitA: "mat_bit (oc_sign_matrix sim1) q j \<Longrightarrow> q < oc_qubit_count sim1 \<and> j < ?N" for q j using b(11) [of q j] s(5) by simp
  have bitv: "blocks_bit (oc_outcome_shift sim1) i \<Longrightarrow> i < ?c" for i using b(13) [of i] s(4) by simp
  have "branches_ok ?sim"
    unfolding branches_ok_def c' using b(1,3,4,7-10) sh room bitM bitA bitv s(5) by (auto intro: less_SucI)
  then have ok': "oc_ok ?sim" using oc_okD [OF ok1] by (simp add: oc_ok_def)
  have none: "\<not> mat_bit ?M ?c j" for j using b(12) [of ?c j] s(4) by auto
  have "oc_outcomes ?sim \<beta> = oc_outcomes sim \<beta> @ [\<beta> ?N]" for \<beta>
  proof (rule outcomes_appended [OF c'])
    fix i
    assume i: "i < ?c"
    have "\<not> mat_bit ?M i ?N" using b(12) [of i ?N] s(5) by auto
    then have "oc_outcome ?sim \<beta> i = oc_outcome sim1 \<beta> i" using i s(5) by (simp add: oc_outcome_def M(3))
    then show "oc_outcome ?sim \<beta> i = oc_outcome sim \<beta> i" using s(2) by simp
  next
    show "oc_outcome ?sim \<beta> ?c = \<beta> ?N" using none bitv [of ?c] by (auto simp: oc_outcome_def M(3))
  qed
  moreover have "oc_sign ?sim = oc_sign sim"
  proof -
    have "\<not> mat_bit (oc_sign_matrix sim1) q ?N" for q using bitA [of q ?N] by auto
    then have "oc_sign ?sim = oc_sign sim1" using s(5) by (simp add: oc_sign_def fun_eq_iff)
    with s(1) show ?thesis by simp
  qed
  moreover have "\<not> mat_bit (oc_sign_matrix sim1) q ?N" for q using bitA [of q ?N] by auto
  ultimately show ?thesis using run ok' frame s(6) room(2) sh(3) by (simp add: appended_def)
qed

section \<open>Signs\<close>

lemma fold_xor_False: "\<forall>r \<in> set rs. \<not> f r \<Longrightarrow> fold (\<lambda>r x. x \<noteq> f r) rs x = x"
  by (induction rs) auto

lemma sign_sum_run:
  assumes ok: "oc_ok sim" and D: "D \<subseteq> {..<num_qubits (oc_clifford sim)}"
  shows "\<exists>v. row_sum (oc_sign_matrix sim) (sorted_list_of_set D) = Some v \<and> blocks_ok v \<and> length v = rowstride (oc_sign_matrix sim) \<and>
    (\<forall>j. blocks_bit v j \<longrightarrow> (\<exists>q. mat_bit (oc_sign_matrix sim) q j)) \<and>
    (\<forall>\<beta>. xsum (oc_branch_bit_count sim) (\<lambda>j. blocks_bit v j \<and> \<beta> j) = par {q \<in> D. oc_sign sim \<beta> q})"
proof -
  note b = branches_okD [OF oc_okD(1) [OF ok]]
  have fin: "finite D" by (rule finite_subset [OF D]) simp
  have "\<forall>r \<in> set (sorted_list_of_set D). r < row_count (oc_sign_matrix sim)" using D fin oc_okD(4) [OF ok] by auto
  from row_sum_run [OF b(1) this] obtain v where v: "row_sum (oc_sign_matrix sim) (sorted_list_of_set D) = Some v" "blocks_ok v"
      "length v = rowstride (oc_sign_matrix sim)"
      "blocks_bit v = (\<lambda>j. fold (\<lambda>r x. x \<noteq> mat_bit (oc_sign_matrix sim) r j) (sorted_list_of_set D) False)" by blast
  have "\<exists>q. mat_bit (oc_sign_matrix sim) q j" if "blocks_bit v j" for j
  proof (rule ccontr)
    assume "\<not> ?thesis"
    then have "\<forall>r \<in> set (sorted_list_of_set D). \<not> mat_bit (oc_sign_matrix sim) r j" by blast
    from fold_xor_False [OF this] that show False unfolding v(4) by simp
  qed
  moreover have "xsum (oc_branch_bit_count sim) (\<lambda>j. blocks_bit v j \<and> \<beta> j) = par {q \<in> D. oc_sign sim \<beta> q}" for \<beta>
  proof -
    have "xsum (oc_branch_bit_count sim) (\<lambda>j. blocks_bit v j \<and> \<beta> j) =
        fold (\<lambda>r x. x \<noteq> oc_sign sim \<beta> r) (sorted_list_of_set D) (xsum (oc_branch_bit_count sim) (\<lambda>j. False \<and> \<beta> j))"
      unfolding v(4) xsum_fold_xor oc_sign_def ..
    then show ?thesis unfolding fold_xor_par [OF distinct_sorted_list_of_set] using fin by simp
  qed
  ultimately show ?thesis using v(1-3) by blast
qed

lemma signs_changed:
  assumes ok: "oc_ok sim" and X: "X \<subseteq> {..<oc_qubit_count sim}" and w: "blocks_ok w" "length w = rowstride (oc_sign_matrix sim)"
    and bits: "\<And>j. blocks_bit w j \<Longrightarrow> j < oc_branch_bit_count sim"
  shows "\<exists>A. xor_into_rows (sorted_list_of_set X) w (oc_sign_matrix sim) = Some A \<and> oc_ok (sim\<lparr>oc_sign_matrix := A\<rparr>) \<and>
    (\<forall>\<beta> q. oc_sign (sim\<lparr>oc_sign_matrix := A\<rparr>) \<beta> q =
      (oc_sign sim \<beta> q \<noteq> (q \<in> X \<and> xsum (oc_branch_bit_count sim) (\<lambda>j. blocks_bit w j \<and> \<beta> j)))) \<and>
    oc_outcomes (sim\<lparr>oc_sign_matrix := A\<rparr>) = oc_outcomes sim"
proof -
  note k = oc_okD [OF ok] and b = branches_okD [OF oc_okD(1) [OF ok]]
  have fin: "finite X" by (rule finite_subset [OF X]) simp
  have "\<forall>r \<in> set (sorted_list_of_set X). r < row_count (oc_sign_matrix sim)" using X fin k(4,5) by auto
  from xor_into_rows_run [OF b(1) this distinct_sorted_list_of_set w] fin obtain A where
      A: "xor_into_rows (sorted_list_of_set X) w (oc_sign_matrix sim) = Some A" "same_shape A (oc_sign_matrix sim)"
        "mat_bit A = (\<lambda>i j. if i \<in> X then mat_bit (oc_sign_matrix sim) i j \<noteq> blocks_bit w j else mat_bit (oc_sign_matrix sim) i j)"
    by auto
  let ?sim = "sim\<lparr>oc_sign_matrix := A\<rparr>"
  note sh = same_shapeD [OF A(2)]
  have "mat_bit A q j \<Longrightarrow> q < oc_qubit_count sim \<and> j < oc_branch_bit_count sim" for q j
    using b(11) [of q j] bits [of j] X by (auto simp: A(3) split: if_splits)
  then have "branches_ok ?sim" using b(2-10,12,13) sh by (simp add: branches_ok_def oc_outcome_count_def)
  then have "oc_ok ?sim" using k sh(2) by (simp add: oc_ok_def)
  moreover have "oc_sign ?sim \<beta> q = (oc_sign sim \<beta> q \<noteq> (q \<in> X \<and> xsum (oc_branch_bit_count sim) (\<lambda>j. blocks_bit w j \<and> \<beta> j)))" for \<beta> q
    using xsum_dist_left [of "oc_branch_bit_count sim" "mat_bit (oc_sign_matrix sim) q" "blocks_bit w" \<beta>]
    by (cases "q \<in> X") (simp_all add: oc_sign_def A(3))
  moreover have "oc_outcomes ?sim = oc_outcomes sim"
    by (simp add: oc_outcomes_def oc_outcome_def oc_outcome_count_def fun_eq_iff)
  ultimately show ?thesis using A(1) by blast
qed

section \<open>Deterministic outcomes\<close>

lemma oc_deterministic_run:
  assumes ok: "oc_ok sim" and P: "pinv_on (num_qubits (oc_clifford sim)) P"
    and q: "dense_sem (oc_preimage sim) = cpre (oc_clifford sim) P" and z: "fst (cpre (oc_clifford sim) P) = {}"
  shows "\<exists>sim' f. oc_measure_deterministic sim = Some sim' \<and> oc_ok sim' \<and> appended sim sim' False f \<and>
    oc_clifford sim' = oc_clifford sim \<and> oc_sign sim' = oc_sign sim \<and>
    (\<forall>\<beta> \<psi>. encodes (oc_clifford sim) (oc_sign sim \<beta>) \<psi> \<longrightarrow> pauli_amp P \<psi> = scaled (sgn_amp (f \<beta>)) \<psi>)"
proof -
  let ?C = "oc_clifford sim" and ?c = "oc_outcome_count sim" and ?N = "oc_branch_bit_count sim"
  let ?a = "xz_phase_exponent (oc_preimage sim)" and ?D = "fst (snd (cpre (oc_clifford sim) P))"
  let ?b = "phase_value ?a = 2"
  have two: "pmul (cpre ?C P) (cpre ?C P) = pone" using clifford.pre_pmul [OF pinv_onD(1) [OF P] pinv_onD(1) [OF P]] pinv_onD(3) [OF P] by simp
  have s: "phase_is_even ?a" "snd (snd (cpre ?C P)) = sgn_phase ?b"
    using sign_of_phase [of "oc_preimage sim"] two z unfolding q by simp_all
  have sub: "?D \<subseteq> {..<num_qubits ?C}" using clifford.pre_on [OF pinv_onD(1) [OF P]] by (simp add: pauli_on_def)
  have sup: "bo_support dense_ops (pz (oc_preimage sim)) = sorted_list_of_set ?D"
    using dense.support [of "pz (oc_preimage sim)"] oc_okD(3) [OF ok] q by (simp add: fits_def pauli_ok_def psem_def flip: q)
  obtain sim1 where 1: "oc_ensure_outcome_capacity False sim = Some sim1" "roomier False sim sim1" using ensure_outcomes_run [OF ok] by blast
  have ok1: "oc_ok sim1" and same: "same_branches sim sim1" and room: "?c < row_count (oc_outcome_matrix sim1)"
    and frame: "oc_clifford sim1 = ?C" "oc_qubit_count sim1 = oc_qubit_count sim" "oc_preimage sim1 = oc_preimage sim"
    using 1(2) by (simp_all add: roomier_def)
  note b = branches_okD [OF oc_okD(1) [OF ok1]] and s1 = same_branchesD [OF same]
  let ?M = "oc_outcome_matrix sim1" and ?v = "oc_outcome_shift sim1"
  obtain w where w: "row_sum (oc_sign_matrix sim1) (sorted_list_of_set ?D) = Some w" "blocks_ok w" "length w = rowstride (oc_sign_matrix sim1)"
      "\<forall>j. blocks_bit w j \<longrightarrow> (\<exists>q. mat_bit (oc_sign_matrix sim1) q j)"
      "\<And>\<beta>. xsum ?N (\<lambda>j. blocks_bit w j \<and> \<beta> j) = par {q \<in> ?D. oc_sign sim \<beta> q}"
    using sign_sum_run [OF ok1, of ?D] sub s1(1,5) frame(1) by auto
  have bitw: "j < ?N" if "blocks_bit w j" for j using w(4) b(11) s1(5) that by metis
  have stride: "rowstride (oc_sign_matrix sim1) = rowstride ?M" using b(3) by (simp add: rowstride_def)
  let ?row = "blocks_assign (row_blocks ?M ?c) w"
  have row: "blocks_ok ?row" "length ?row = rowstride ?M" "blocks_bit ?row = blocks_bit w"
    using blocks.copy_from [of "row_blocks ?M ?c" w] row_blocks_ok [OF b(2) room] w(2,3) stride by auto
  have M: "mat_row_update ?c (\<lambda>row. Some (blocks_assign row w)) ?M = Some (put_row ?c ?row ?M)"
    by (rule mat_row_update_run [where f = "\<lambda>row. Some (blocks_assign row w)", OF b(2) room refl row(2)])
  have bitM: "mat_bit (put_row ?c ?row ?M) = (mat_bit ?M)(?c := blocks_bit w)" using put_row_bit [OF b(2) room row(2)] row(3) by simp
  have room_v: "?c < length ?v * 512" using room b(10) by simp
  obtain v where v: "(if ?b then blocks_assign_index ?c True ?v else Some ?v) = Some v" "blocks_ok v" "length v = length ?v"
      "blocks_bit v = (\<lambda>i. if i = ?c then ?b else blocks_bit ?v i)"
  proof (cases ?b)
    case True
    then show thesis using that blocks.assign [of ?v ?c True] b(9) room_v by (auto simp: fun_eq_iff)
  next
    case False
    moreover have "\<not> blocks_bit ?v ?c" using b(13) [of ?c] s1(4) by auto
    ultimately show thesis using that [of ?v] b(9) by (auto simp: fun_eq_iff)
  qed
  let ?sim = "sim1\<lparr>oc_outcome_matrix := put_row ?c ?row ?M, oc_outcome_shift := v,
      oc_introduces_branch_bit := oc_introduces_branch_bit sim1 @ [False]\<rparr>"
  have cnt: "length (oc_introduces_branch_bit sim1) = ?c" using s1(4) by (simp add: oc_outcome_count_def)
  have run: "oc_measure_deterministic sim = Some ?sim"
    unfolding oc_measure_deterministic_def 1(1) bind.bind_lunit frame(3) sup w(1) Let_def cnt M using s(1) v(1) by simp
  have c': "oc_outcome_count ?sim = ?c + 1" using cnt by (simp add: oc_outcome_count_def)
  have bits: "mat_bit (put_row ?c ?row ?M) i j \<Longrightarrow> i < ?c + 1 \<and> j < ?N" for i j
    using b(12) [of i j] bitw [of j] s1(4,5) by (auto simp: bitM split: if_splits)
  have bitv: "blocks_bit v i \<Longrightarrow> i < ?c + 1" for i using b(13) [of i] s1(4) by (auto simp: v(4) split: if_splits)
  have "branches_ok ?sim"
    unfolding branches_ok_def c' using b(1,3-5,7-11) put_row_ok [OF b(2) room row(1,2)] room bits bitv v(2,3) s1(5) by auto
  then have ok': "oc_ok ?sim" using oc_okD [OF ok1] by (simp add: oc_ok_def)
  let ?f = "\<lambda>\<beta>. ?b \<noteq> par {q \<in> ?D. oc_sign sim \<beta> q}"
  have "oc_outcomes ?sim \<beta> = oc_outcomes sim \<beta> @ [?f \<beta>]" for \<beta>
  proof (rule outcomes_appended [OF c'])
    show "oc_outcome ?sim \<beta> i = oc_outcome sim \<beta> i" if "i < ?c" for i
    proof -
      have "oc_outcome ?sim \<beta> i = oc_outcome sim1 \<beta> i" using that by (simp add: oc_outcome_def bitM v(4))
      with s1(2) show ?thesis by simp
    qed
    show "oc_outcome ?sim \<beta> ?c = ?f \<beta>" using w(5) [of \<beta>] s1(5) by (simp add: oc_outcome_def bitM v(4))
  qed
  then have app: "appended sim ?sim False ?f" using s1(5,6) by (simp add: appended_def)
  have "oc_sign ?sim = oc_sign sim1" by (simp add: oc_sign_def fun_eq_iff)
  then have sgn: "oc_sign ?sim = oc_sign sim" using s1(1) by simp
  have "cpre ?C P = ({}, ?D, sgn_phase ?b)" using z s(2) by (metis prod.collapse)
  then have "pauli_amp P \<psi> = scaled (sgn_amp (?f \<beta>)) \<psi>" if "encodes ?C (oc_sign sim \<beta>) \<psi>" for \<beta> \<psi>
    using encodes_zops [OF that pinv_onD(1) [OF P]] by (simp add: phase_amp_sgn flip: sgn_amp_xor)
  then show ?thesis using run ok' app frame(1) sgn by (intro exI [of _ ?sim] exI [of _ ?f]) simp
qed

section \<open>Random outcomes\<close>

text \<open>What a measurement does in every branch.\<close>

definition oc_measures :: "pauli_op \<Rightarrow> outcome_complete \<Rightarrow> outcome_complete \<Rightarrow> bool" where
  "oc_measures P sim sim' \<longleftrightarrow> oc_ok sim' \<and> (\<exists>r f. appended sim sim' r f \<and> (r \<longrightarrow> f = (\<lambda>\<beta>. \<beta> (oc_branch_bit_count sim))) \<and>
     (\<forall>\<beta> \<psi> os. oc_represents \<beta> sim (\<psi>, os) \<longrightarrow> oc_represents \<beta> sim' (project (f \<beta>) P \<psi>, os @ [f \<beta>]) \<and>
       (\<not> r \<longrightarrow> pauli_amp P \<psi> = scaled (sgn_amp (f \<beta>)) \<psi>)))"

text \<open>The indicator of a measurement: the parity of some signs and the new branch bit.\<close>

lemma indicator_run:
  assumes ok: "oc_ok sim" and N: "oc_branch_bit_count sim = Suc n" "n < mat_cols (oc_outcome_matrix sim)"
    and none: "\<forall>q. \<not> mat_bit (oc_sign_matrix sim) q n" and D: "D \<subseteq> {..<num_qubits (oc_clifford sim)}"
  shows "\<exists>v w. row_sum (oc_sign_matrix sim) (sorted_list_of_set D) = Some v \<and> blocks_assign_index n True v = Some w \<and> blocks_ok w \<and>
    length w = rowstride (oc_sign_matrix sim) \<and> (\<forall>j. blocks_bit w j \<longrightarrow> j < oc_branch_bit_count sim) \<and>
    (\<forall>\<beta>. xsum (oc_branch_bit_count sim) (\<lambda>j. blocks_bit w j \<and> \<beta> j) = (par {q \<in> D. oc_sign sim \<beta> q} \<noteq> \<beta> n))"
proof -
  note b = branches_okD [OF oc_okD(1) [OF ok]]
  obtain v where v: "row_sum (oc_sign_matrix sim) (sorted_list_of_set D) = Some v" "blocks_ok v" "length v = rowstride (oc_sign_matrix sim)"
      "\<And>j. blocks_bit v j \<Longrightarrow> \<exists>q. mat_bit (oc_sign_matrix sim) q j"
      "\<And>\<beta>. xsum (oc_branch_bit_count sim) (\<lambda>j. blocks_bit v j \<and> \<beta> j) = par {q \<in> D. oc_sign sim \<beta> q}"
    using sign_sum_run [OF ok D] by blast
  have "n < length v * 512" using in_row_bits [of n "oc_sign_matrix sim" v] N(2) b(3) v(3) by simp
  then obtain w where w: "blocks_assign_index n True v = Some w" "blocks_ok w" "length w = length v" "blocks_bit w = (blocks_bit v)(n := True)"
    using blocks.assign [of v n True] v(2) by auto
  have "\<not> blocks_bit v n" using v(4) none by blast
  then have "xsum (oc_branch_bit_count sim) (\<lambda>j. blocks_bit w j \<and> \<beta> j) = (par {q \<in> D. oc_sign sim \<beta> q} \<noteq> \<beta> n)" for \<beta>
    using v(5) [of \<beta>] unfolding w(4) N(1) by simp
  moreover have "j < oc_branch_bit_count sim" if "blocks_bit w j" for j
  proof (cases "j = n")
    case False
    then have "blocks_bit v j" using that w(4) by simp
    then show ?thesis using v(4) b(11) by blast
  qed (simp add: N(1))
  ultimately show ?thesis using v(1,3) w(1-3) by auto
qed

context sorted_library
begin

lemma oc_random_run:
  assumes ok: "oc_ok sim" and p: "sparse_ok S p" "pinv_on (oc_qubit_count sim) (sparse_sem S p)"
    and q: "dense_sem (oc_preimage sim) = cpre (oc_clifford sim) (sparse_sem S p)"
    and pos: "pos \<in> fst (cpre (oc_clifford sim) (sparse_sem S p))"
  shows "\<exists>sim'. oc_measure_random S p pos sim = Some sim' \<and> oc_measures (sparse_sem S p) sim sim'"
proof -
  let ?C = "oc_clifford sim" and ?n = "num_qubits (oc_clifford sim)" and ?m = "oc_qubit_count sim" and ?P = "sparse_sem S p"
  let ?X = "fst (cpre ?C ?P)" and ?N = "oc_branch_bit_count sim"
  note k = oc_okD [OF ok]
  have P: "pinv_on ?n ?P" by (rule pinv_on_mono [OF p(2) k(5)])
  have X: "?X \<subseteq> {..<?m}" using unused_support [OF k(2,6) pinv_onD(1) [OF P]] pinv_onD(1) [OF p(2)] by (simp add: pauli_on_def)
  have x: "?X = dense_bits (px (oc_preimage sim))" unfolding q [symmetric] by (simp add: psem_def)
  have sup: "bo_support dense_ops (px (oc_preimage sim)) = sorted_list_of_set ?X"
    using dense.support [of "px (oc_preimage sim)"] k(3) unfolding x by (simp add: fits_def pauli_ok_def)
  obtain sim1 where 1: "oc_allocate_branch_bit sim = Some (sim1, oc_outcome_count sim, ?N)" "oc_ok sim1"
      "appended sim sim1 True (\<lambda>\<beta>. \<beta> ?N)" "oc_sign sim1 = oc_sign sim" "oc_clifford sim1 = ?C" "oc_qubit_count sim1 = ?m"
      "oc_preimage sim1 = oc_preimage sim" "?N < mat_cols (oc_outcome_matrix sim1)" "\<forall>q. \<not> mat_bit (oc_sign_matrix sim1) q ?N"
    using oc_allocate_run [OF ok] by blast
  have N1: "oc_branch_bit_count sim1 = Suc ?N" using 1(3) by (simp add: appended_def)
  obtain T C' f where T: "pinv_on ?n T" "cpre ?C T = zop pos" "panti T ?P" "pos < ?n"
    and u: "update_encoder_for_random_outcome (sparse_ops S) ?C p (oc_preimage sim) pos False = Some (C', f)" "clifford_valid C'"
      "unused C' ?m" "num_qubits C' = ?n" "fits ?n f" "\<And>Q. pauli_on ?n Q \<Longrightarrow> cpre C' Q = cpre ?C (pexp (pphase 1 (pmul ?P T)) Q)"
    using random_update [OF k(2,6,5) p k(3) q pos, of False] by auto
  obtain v w where w: "row_sum (oc_sign_matrix sim1) [pos] = Some v" "blocks_assign_index ?N True v = Some w" "blocks_ok w"
      "length w = rowstride (oc_sign_matrix sim1)" "\<And>j. blocks_bit w j \<Longrightarrow> j < oc_branch_bit_count sim1"
      "\<And>\<beta>. xsum (oc_branch_bit_count sim1) (\<lambda>j. blocks_bit w j \<and> \<beta> j) = (oc_sign sim \<beta> pos \<noteq> \<beta> ?N)"
  proof -
    have "{q. q = pos \<and> oc_sign sim \<beta> q} = (if oc_sign sim \<beta> pos then {pos} else {})" for \<beta> by auto
    then have "par {q \<in> {pos}. oc_sign sim \<beta> q} = oc_sign sim \<beta> pos" for \<beta> by (simp add: par_def)
    then show thesis using that indicator_run [OF 1(2) N1 1(8,9), of "{pos}"] T(4) 1(4,5) by auto
  qed
  obtain A where A: "xor_into_rows (sorted_list_of_set ?X) w (oc_sign_matrix sim1) = Some A" "oc_ok (sim1\<lparr>oc_sign_matrix := A\<rparr>)"
      "\<And>\<beta> q. oc_sign (sim1\<lparr>oc_sign_matrix := A\<rparr>) \<beta> q = (oc_sign sim \<beta> q \<noteq> (q \<in> ?X \<and> oc_sign sim \<beta> pos \<noteq> \<beta> ?N))"
      "oc_outcomes (sim1\<lparr>oc_sign_matrix := A\<rparr>) = oc_outcomes sim1"
    using signs_changed [OF 1(2), of ?X w] X w(3-6) 1(4,6) by auto
  let ?sim = "sim1\<lparr>oc_sign_matrix := A, oc_clifford := C', oc_preimage := f\<rparr>"
  have run: "oc_measure_random S p pos sim = Some ?sim"
    using 1(1,5,7) w(1,2) A(1) u(1) by (simp add: oc_measure_random_def sup)
  have ok': "oc_ok ?sim" using A(2) u(2-5) 1(5,6) by (simp add: oc_ok_def branches_ok_def oc_outcome_count_def)
  have sgn: "oc_sign ?sim \<beta> = (\<lambda>q. oc_sign sim \<beta> q \<noteq> (q \<in> ?X \<and> oc_sign sim \<beta> pos \<noteq> \<beta> ?N))" for \<beta>
    using A(3) [of \<beta>] by (simp add: oc_sign_def fun_eq_iff)
  have out: "oc_outcomes ?sim = oc_outcomes sim1" using A(4) by (simp add: oc_outcomes_def oc_outcome_def oc_outcome_count_def fun_eq_iff)
  have app: "appended sim ?sim True (\<lambda>\<beta>. \<beta> ?N)" using 1(3) out by (simp add: appended_def)
  have "oc_represents \<beta> ?sim (project (\<beta> ?N) ?P \<psi>, os @ [\<beta> ?N])" if "oc_represents \<beta> sim (\<psi>, os)" for \<beta> \<psi> os
  proof -
    have e: "encodes ?C (oc_sign sim \<beta>) \<psi>" and os: "os = oc_outcomes sim \<beta>" using that by (simp_all add: oc_represents_def)
    have "encodes C' (oc_sign ?sim \<beta>) (project (\<beta> ?N) ?P \<psi>)"
      unfolding sgn by (rule encodes_random_branch [OF e P T(1,3,2,4) u(4,6)])
    then show ?thesis using ok' app os by (simp add: oc_represents_def appended_def)
  qed
  then have "oc_measures ?P sim ?sim" using ok' app unfolding oc_measures_def by blast
  with run show ?thesis by blast
qed

lemma oc_measure_run:
  assumes ok: "oc_ok sim" and p: "observable_ok S p"
  shows "\<exists>sim'. oc_measure S p sim = Some (sim', oc_outcome_count sim) \<and> oc_measures (sparse_sem S p) sim sim'"
proof -
  let ?room = "projective_max_support (sparse_ops S) (projective p)" and ?P = "sparse_sem S p"
  obtain sim1 where 1: "oc_ensure_qubit_capacity ?room sim = Some sim1" "oc_extends ?room sim sim1" using oc_ensure_run [OF ok] by blast
  have ok1: "oc_ok sim1" and same: "same_branches sim sim1" and rep: "\<And>\<beta> q. oc_represents \<beta> sim q \<Longrightarrow> oc_represents \<beta> sim1 q"
    and room: "\<And>i. ?room = Some i \<Longrightarrow> i < oc_qubit_count sim1" using 1(2) by (auto simp: oc_extends_def)
  note k = oc_okD [OF ok1] and P = observable_below [OF p room] and s = same_branchesD [OF same]
  let ?C = "oc_clifford sim1" and ?n = "num_qubits (oc_clifford sim1)"
  have Pn: "pinv_on ?n ?P" by (rule pinv_on_mono [OF P(2) k(5)])
  obtain q where q: "assign_clifford_preimage (sparse_ops S) ?C p (oc_preimage sim1) = Some q" "fits ?n q" "dense_sem q = cpre ?C ?P"
    using sparse.assign_preimage_run [OF k(2) P(1) pinv_onD(1) [OF Pn] k(3)] by blast
  let ?sim = "sim1\<lparr>oc_preimage := q\<rparr>"
  have ok2: "oc_ok ?sim" using ok1 q(2) by (simp add: oc_ok_def branches_ok_def oc_outcome_count_def)
  have same2: "same_branches sim1 ?sim" by (simp add: same_branches_def)
  have rep2: "oc_represents \<beta> ?sim x" if "oc_represents \<beta> sim x" for \<beta> x
    using rep [OF that] ok2 same_branchesD [OF same2] by (auto simp: oc_represents_def)
  have lift: "oc_measures ?P sim sim'" if "oc_measures ?P ?sim sim'" for sim'
    using that rep2 same_branchesD [OF same2] s unfolding oc_measures_def appended_def by (metis (no_types, lifting))
  have x: "fst (cpre ?C ?P) = dense_bits (px q)" unfolding q(3) [symmetric] by (simp add: psem_def)
  have sup: "bo_support dense_ops (px q) = sorted_list_of_set (fst (cpre ?C ?P))" "finite (fst (cpre ?C ?P))"
    using dense.support [of "px q"] dense.bset_finite [of "px q"] q(2) unfolding x by (simp_all add: fits_def pauli_ok_def)
  have "\<exists>sim'. (case bo_support dense_ops (px q) of pos # _ \<Rightarrow> oc_measure_random S p pos ?sim | [] \<Rightarrow> oc_measure_deterministic ?sim) = Some sim' \<and>
      oc_measures ?P ?sim sim'"
  proof (cases "bo_support dense_ops (px q)")
    case Nil
    then have z: "fst (cpre ?C ?P) = {}" using sup by simp
    obtain sim' f where d: "oc_measure_deterministic ?sim = Some sim'" "oc_ok sim'" "appended ?sim sim' False f" "oc_clifford sim' = ?C"
        "oc_sign sim' = oc_sign ?sim" "\<And>\<beta> \<psi>. encodes ?C (oc_sign ?sim \<beta>) \<psi> \<Longrightarrow> pauli_amp ?P \<psi> = scaled (sgn_amp (f \<beta>)) \<psi>"
      using oc_deterministic_run [OF ok2, of ?P] Pn q(3) z by auto
    have "oc_represents \<beta> sim' (project (f \<beta>) ?P \<psi>, os @ [f \<beta>]) \<and> pauli_amp ?P \<psi> = scaled (sgn_amp (f \<beta>)) \<psi>"
      if r: "oc_represents \<beta> ?sim (\<psi>, os)" for \<beta> \<psi> os
    proof -
      have eig: "pauli_amp ?P \<psi> = scaled (sgn_amp (f \<beta>)) \<psi>" by (rule d(6)) (use r in \<open>simp add: oc_represents_def\<close>)
      then have "project (f \<beta>) ?P \<psi> = \<psi>" by (rule project_eigen)
      then show ?thesis using r d(2-5) eig by (simp add: oc_represents_def appended_def)
    qed
    then have "oc_measures ?P ?sim sim'" using d(2,3) unfolding oc_measures_def by blast
    with d(1) Nil show ?thesis by simp
  next
    case (Cons pos rest)
    then have "pos \<in> fst (cpre ?C ?P)" using sup by (metis list.set_intros(1) set_sorted_list_of_set)
    then show ?thesis using oc_random_run [OF ok2 P(1), of pos] P(2) q(3) Cons by auto
  qed
  then obtain sim' where d: "(case bo_support dense_ops (px q) of pos # _ \<Rightarrow> oc_measure_random S p pos ?sim | [] \<Rightarrow> oc_measure_deterministic ?sim) = Some sim'"
      "oc_measures ?P sim sim'" using lift by blast
  have "oc_outcome_count sim' = oc_outcome_count sim + 1" using d(2) by (auto simp: oc_measures_def appended_def oc_outcome_count_def)
  then show ?thesis using 1(1) q(1) d by (simp add: oc_measure_def)
qed

end

section \<open>Paulis conditioned on branch bits\<close>

context pauli_bits
begin

lemma support_above:
  assumes p: "unitary_ok ok cap p" "pauli_on m (psem bset p)" and i: "projective_max_support B (projective p) = Some i"
  shows "i < m"
proof -
  have ok': "ok (px p)" "ok (pz p)" using p(1) by (simp_all add: pauli_ok_def)
  have sub: "bset (px p) \<subseteq> {..<m}" "bset (pz p) \<subseteq> {..<m}" using p(2) by (simp_all add: pauli_on_def psem_def)
  have "Max (bset b) < m" if "ok b" "bset b \<subseteq> {..<m}" "bset b \<noteq> {}" for b
    using Max_in [OF bset_finite [OF that(1)] that(3)] that(2) by blast
  from this [OF ok'(1) sub(1)] this [OF ok'(2) sub(2)] ok' i show ?thesis
    by (simp add: projective_max_support_def max_opt_def max_support split: if_splits)
qed

end

lemma oc_ensure_idle:
  assumes "oc_ok sim" "\<And>i. room = Some i \<Longrightarrow> i < oc_qubit_count sim"
  shows "oc_ensure_qubit_capacity room sim = Some sim"
proof (cases room)
  case (Some i)
  then have i: "i < oc_qubit_count sim" using assms(2) by simp
  then have "sim\<lparr>oc_qubit_count := max (oc_qubit_count sim) (Suc i)\<rparr> = sim" by (simp add: max_absorb1)
  then show ?thesis using Some i oc_okD(5) [OF assms(1)] oc_capacities(1) [OF assms(1)]
    by (simp add: oc_ensure_qubit_capacity_def)
qed (simp add: oc_ensure_qubit_capacity_def)

lemma oc_represents_unscaled: "oc_represents \<beta> sim (scaled c \<psi>, os) \<Longrightarrow> c \<noteq> 0 \<Longrightarrow> oc_represents \<beta> sim (\<psi>, os)"
  using encodes_unscaled by (auto simp: oc_represents_def)

lemma pauli_twice: "pinv_on n P \<Longrightarrow> pauli_amp P (pauli_amp P \<psi>) = \<psi>"
  using pauli_amp_pmul [OF pinv_onD(2) pinv_onD(2), of n P n P \<psi>] pinv_onD(3) [of n P] by simp

context sorted_library
begin

lemma conditioned_run:
  assumes ok: "oc_ok sim" and p: "sparse_ok S p" "pinv_on (oc_qubit_count sim) (sparse_sem S p)"
    and w: "blocks_ok w" "length w = rowstride (oc_sign_matrix sim)" "\<And>j. blocks_bit w j \<Longrightarrow> j < oc_branch_bit_count sim"
  shows "\<exists>sim'. oc_apply_pauli_conditioned_on_branch_bits (sparse_ops S) p w sim = Some sim' \<and> oc_ok sim' \<and> unrecorded sim sim' \<and>
    (\<forall>\<beta> \<psi> os. oc_represents \<beta> sim (\<psi>, os) \<longrightarrow> oc_represents \<beta> sim'
      (if xsum (oc_branch_bit_count sim) (\<lambda>j. blocks_bit w j \<and> \<beta> j) then pauli_amp (sparse_sem S p) \<psi> else \<psi>, os))"
proof -
  let ?C = "oc_clifford sim" and ?n = "num_qubits (oc_clifford sim)" and ?P = "sparse_sem S p" and ?N = "oc_branch_bit_count sim"
  let ?X = "fst (cpre ?C ?P)"
  note k = oc_okD [OF ok]
  have P: "pinv_on ?n ?P" by (rule pinv_on_mono [OF p(2) k(5)])
  have X: "?X \<subseteq> {..<oc_qubit_count sim}" using unused_support [OF k(2,6) pinv_onD(1) [OF P]] pinv_onD(1) [OF p(2)] by (simp add: pauli_on_def)
  obtain q where q: "clifford_preimage (sparse_ops S) ?C p = Some q" "fits ?n q" "dense_sem q = cpre ?C ?P"
    using sparse.preimage_run [OF valid_ok [OF k(2)] p(1) pinv_onD(1) [OF P]] by (auto simp: cpre_eq [OF k(2)])
  have x: "?X = dense_bits (px q)" unfolding q(3) [symmetric] by (simp add: psem_def)
  have sup: "bo_support dense_ops (px q) = sorted_list_of_set ?X"
    using dense.support [of "px q"] q(2) unfolding x by (simp add: fits_def pauli_ok_def)
  obtain A where A: "xor_into_rows (sorted_list_of_set ?X) w (oc_sign_matrix sim) = Some A" "oc_ok (sim\<lparr>oc_sign_matrix := A\<rparr>)"
      "\<And>\<beta> q. oc_sign (sim\<lparr>oc_sign_matrix := A\<rparr>) \<beta> q = (oc_sign sim \<beta> q \<noteq> (q \<in> ?X \<and> xsum ?N (\<lambda>j. blocks_bit w j \<and> \<beta> j)))"
      "oc_outcomes (sim\<lparr>oc_sign_matrix := A\<rparr>) = oc_outcomes sim"
    using signs_changed [OF ok X w] by blast
  let ?sim = "sim\<lparr>oc_sign_matrix := A\<rparr>"
  have rep: "oc_represents \<beta> ?sim (if xsum ?N (\<lambda>j. blocks_bit w j \<and> \<beta> j) then pauli_amp ?P \<psi> else \<psi>, os)"
    if r: "oc_represents \<beta> sim (\<psi>, os)" for \<beta> \<psi> os
  proof -
    have e: "encodes ?C (oc_sign sim \<beta>) \<psi>" using r by (simp add: oc_represents_def)
    have s: "oc_sign ?sim \<beta> = (if xsum ?N (\<lambda>j. blocks_bit w j \<and> \<beta> j) then \<lambda>q. oc_sign sim \<beta> q \<noteq> (q \<in> ?X) else oc_sign sim \<beta>)"
      using A(3) [of \<beta>] by (auto simp: fun_eq_iff)
    show ?thesis using r A(2,4) e encodes_signs [OF e P] by (simp add: oc_represents_def s)
  qed
  have "oc_apply_pauli_conditioned_on_branch_bits (sparse_ops S) p w sim = Some ?sim"
    using q(1) A(1) sup by (simp add: oc_apply_pauli_conditioned_on_branch_bits_def)
  moreover have "unrecorded sim ?sim" using A(4) by (simp add: unrecorded_def)
  ultimately show ?thesis using A(2) rep by blast
qed

lemma oc_pauli_run:
  assumes ok: "oc_ok sim" and p: "observable_ok S p"
  shows "\<exists>sim'. oc_pauli S p sim = Some sim' \<and> oc_ok sim' \<and> unrecorded sim sim' \<and>
      (\<forall>\<beta> \<psi> os. oc_represents \<beta> sim (\<psi>, os) \<longrightarrow> oc_represents \<beta> sim' (pauli_amp (sparse_sem S p) \<psi>, os))"
    "\<exists>sim'. oc_pauli_exp S p sim = Some sim' \<and> oc_ok sim' \<and> unrecorded sim sim' \<and>
      (\<forall>\<beta> \<psi> os. oc_represents \<beta> sim (\<psi>, os) \<longrightarrow> oc_represents \<beta> sim' (exp_amp (sparse_sem S p) \<psi>, os))"
  unfolding oc_pauli_def oc_pauli_exp_def
  by (rule oc_grown_run [OF ok]; rule sparse.operates_pauli sparse.operates_exp; use observable_below [OF p] in blast)+

end

lemma outcome_parity_run:
  assumes ok: "oc_ok sim" and ids: "\<forall>j \<in> set ids. j < oc_outcome_count sim"
  shows "\<exists>w c. outcome_parity_new (oc_outcome_matrix sim) (oc_outcome_shift sim) ids = Some (w, c) \<and> blocks_ok w \<and>
    length w = rowstride (oc_sign_matrix sim) \<and> (\<forall>j. blocks_bit w j \<longrightarrow> j < oc_branch_bit_count sim) \<and>
    (\<forall>\<beta>. outcome_parity (oc_outcomes sim \<beta>) ids = (c \<noteq> xsum (oc_branch_bit_count sim) (\<lambda>j. blocks_bit w j \<and> \<beta> j)))"
proof -
  note b = branches_okD [OF oc_okD(1) [OF ok]]
  let ?M = "oc_outcome_matrix sim" and ?v = "oc_outcome_shift sim" and ?N = "oc_branch_bit_count sim"
  have rows: "\<forall>r \<in> set ids. r < row_count ?M" using ids b(6) by auto
  obtain w where w: "row_sum ?M ids = Some w" "blocks_ok w" "length w = rowstride ?M"
      "blocks_bit w = (\<lambda>j. fold (\<lambda>r x. x \<noteq> mat_bit ?M r j) ids False)" using row_sum_run [OF b(2) rows] by blast
  have bits: "j < ?N" if "blocks_bit w j" for j
  proof (rule ccontr)
    assume "\<not> j < ?N"
    then have "\<forall>r \<in> set ids. \<not> mat_bit ?M r j" using b(12) by blast
    from fold_xor_False [OF this] that show False unfolding w(4) by simp
  qed
  have c: "ofold (\<lambda>outcome parity. do { b \<leftarrow> blocks_index ?v outcome; Some (parity \<noteq> b) }) ids x = Some (fold (\<lambda>i r. r \<noteq> blocks_bit ?v i) ids x)" for x
    using rows b(9,10) by (induction ids arbitrary: x) (simp_all add: blocks.idx)
  have "outcome_parity (oc_outcomes sim \<beta>) ids =
      (fold (\<lambda>i r. r \<noteq> blocks_bit ?v i) ids False \<noteq> xsum ?N (\<lambda>j. blocks_bit w j \<and> \<beta> j))" for \<beta>
  proof -
    have "fold (\<lambda>j r. r \<noteq> oc_outcomes sim \<beta> ! j) ids (x \<noteq> y) =
        (fold (\<lambda>i r. r \<noteq> blocks_bit ?v i) ids x \<noteq> fold (\<lambda>r x. x \<noteq> xsum ?N (\<lambda>j. mat_bit ?M r j \<and> \<beta> j)) ids y)" for x y
      using ids
    proof (induction ids arbitrary: x y)
      case (Cons i ids)
      have "(x \<noteq> y) \<noteq> oc_outcomes sim \<beta> ! i \<longleftrightarrow>
          (x \<noteq> blocks_bit ?v i) \<noteq> (y \<noteq> xsum ?N (\<lambda>j. mat_bit ?M i j \<and> \<beta> j))"
        using Cons.prems by (auto simp: oc_outcomes_def oc_outcome_def)
      then have step: "((x \<noteq> y) \<noteq> oc_outcomes sim \<beta> ! i) =
          ((x \<noteq> blocks_bit ?v i) \<noteq> (y \<noteq> xsum ?N (\<lambda>j. mat_bit ?M i j \<and> \<beta> j)))" by simp
      show ?case unfolding fold_simps step by (rule Cons.IH) (use Cons.prems in simp)
    qed simp
    from this [of False False] have "outcome_parity (oc_outcomes sim \<beta>) ids =
        (fold (\<lambda>i r. r \<noteq> blocks_bit ?v i) ids False \<noteq> fold (\<lambda>r x. x \<noteq> xsum ?N (\<lambda>j. mat_bit ?M r j \<and> \<beta> j)) ids False)"
      by (simp add: outcome_parity_def)
    moreover have "xsum ?N (\<lambda>j. blocks_bit w j \<and> \<beta> j) =
        fold (\<lambda>r x. x \<noteq> xsum ?N (\<lambda>j. mat_bit ?M r j \<and> \<beta> j)) ids (xsum ?N (\<lambda>j. False \<and> \<beta> j))"
      unfolding w(4) xsum_fold_xor ..
    ultimately show ?thesis by simp
  qed
  then show ?thesis using w(1-3) c bits b(3) by (simp add: outcome_parity_new_def rowstride_def)
qed

end
