(* ===== verification/Complete_Laws.thy ===== *)
theory Complete_Laws
  imports Complete_Branches
begin

text \<open>
  The laws of the outcome-complete simulator: every branch of a run is a run of the quantum machine, and every run of the
  machine is a branch; the queries decide what fixes the states of all branches.
\<close>

section \<open>Conditional operators\<close>

context sorted_library
begin

lemma oc_conditional_run:
  assumes ok: "oc_ok sim" and f: "op_fits S (oc_outcome_count sim) (ConditionalPauli p ids parity)"
  shows "\<exists>sim'. oc_conditional_pauli S p ids parity sim = Some sim' \<and> oc_ok sim' \<and> unrecorded sim sim' \<and>
    (\<forall>\<beta> \<psi> os. oc_represents \<beta> sim (\<psi>, os) \<longrightarrow>
      oc_represents \<beta> sim' (if outcome_parity os ids = parity then pauli_amp (sparse_sem S p) \<psi> else \<psi>, os))"
proof -
  let ?room = "projective_max_support (sparse_ops S) (projective p)" and ?P = "sparse_sem S p"
  have p: "observable_ok S p" and ids: "\<forall>j \<in> set ids. j < oc_outcome_count sim" using f by simp_all
  obtain sim1 where 1: "oc_ensure_qubit_capacity ?room sim = Some sim1" "oc_extends ?room sim sim1" using oc_ensure_run [OF ok] by blast
  have ok1: "oc_ok sim1" and same: "same_branches sim sim1" and rep1: "\<And>\<beta> q. oc_represents \<beta> sim q \<Longrightarrow> oc_represents \<beta> sim1 q"
    and room: "\<And>i. ?room = Some i \<Longrightarrow> i < oc_qubit_count sim1" using 1(2) unfolding oc_extends_def by auto
  note P = observable_below [OF p room] and s1 = same_branchesD [OF same]
  obtain w c where w: "outcome_parity_new (oc_outcome_matrix sim1) (oc_outcome_shift sim1) ids = Some (w, c)" "blocks_ok w"
      "length w = rowstride (oc_sign_matrix sim1)" "\<And>j. blocks_bit w j \<Longrightarrow> j < oc_branch_bit_count sim1"
      "\<And>\<beta>. outcome_parity (oc_outcomes sim \<beta>) ids = (c \<noteq> xsum (oc_branch_bit_count sim1) (\<lambda>j. blocks_bit w j \<and> \<beta> j))"
    using outcome_parity_run [OF ok1, of ids] ids s1(3,4) by auto
  let ?flag = "\<lambda>\<beta>. xsum (oc_branch_bit_count sim1) (\<lambda>j. blocks_bit w j \<and> \<beta> j)"
  let ?step = "if c = parity then oc_pauli S p sim1 else Some sim1"
  obtain sim2 where 2: "?step = Some sim2" "oc_ok sim2" "unrecorded sim1 sim2" "oc_qubit_count sim2 = oc_qubit_count sim1"
      "rowstride (oc_sign_matrix sim2) = rowstride (oc_sign_matrix sim1)"
      "\<And>\<beta> \<psi> os. oc_represents \<beta> sim1 (\<psi>, os) \<Longrightarrow> oc_represents \<beta> sim2 (if c = parity then pauli_amp ?P \<psi> else \<psi>, os)"
  proof (cases "c = parity")
    case True
    have op: "operates (oc_clifford sim1) (oc_qubit_count sim1) (pauli_amp ?P) (left_mul_pauli (sparse_ops S) p (oc_clifford sim1))"
      by (rule sparse.operates_pauli [OF oc_okD(2) [OF ok1] P oc_okD(5) [OF ok1]])
    obtain sim2 where 2: "oc_on_clifford (left_mul_pauli (sparse_ops S) p) sim1 = Some sim2" "oc_ok sim2" "same_branches sim1 sim2"
        "oc_qubit_count sim2 = oc_qubit_count sim1"
        "\<And>\<beta> \<psi> os. oc_represents \<beta> sim1 (\<psi>, os) \<Longrightarrow> oc_represents \<beta> sim2 (pauli_amp ?P \<psi>, os)"
      using oc_on_clifford_run [where f = "left_mul_pauli (sparse_ops S) p", OF ok1 op] by blast
    have "oc_sign_matrix sim2 = oc_sign_matrix sim1" using 2(1) by (auto simp: oc_on_clifford_def bind_eq_Some_conv)
    then show thesis using that [of sim2] 2 True oc_ensure_idle [OF ok1 room] same_unrecorded [OF 2(3)] by (simp add: oc_pauli_def)
  next
    case False
    then show thesis using that [of sim1] ok1 by (simp add: unrecorded_def)
  qed
  have N2: "oc_branch_bit_count sim2 = oc_branch_bit_count sim1" using 2(3) by (simp add: unrecorded_def)
  have P2: "pinv_on (oc_qubit_count sim2) ?P" using P(2) 2(4) by simp
  have w2: "length w = rowstride (oc_sign_matrix sim2)" using w(3) 2(5) by simp
  have bits: "j < oc_branch_bit_count sim2" if "blocks_bit w j" for j using w(4) [OF that] N2 by simp
  obtain sim3 where 3: "oc_apply_pauli_conditioned_on_branch_bits (sparse_ops S) p w sim2 = Some sim3" "oc_ok sim3" "unrecorded sim2 sim3"
      "\<And>\<beta> \<psi> os. oc_represents \<beta> sim2 (\<psi>, os) \<Longrightarrow> oc_represents \<beta> sim3 (if ?flag \<beta> then pauli_amp ?P \<psi> else \<psi>, os)"
    using conditioned_run [OF 2(2) P(1) P2 w(2) w2 bits] N2 by auto
  have "oc_represents \<beta> sim3 (if outcome_parity os ids = parity then pauli_amp ?P \<psi> else \<psi>, os)"
    if r: "oc_represents \<beta> sim (\<psi>, os)" for \<beta> \<psi> os
  proof -
    have "os = oc_outcomes sim \<beta>" using r by (simp add: oc_represents_def)
    then have par: "outcome_parity os ids = (c \<noteq> ?flag \<beta>)" using w(5) by simp
    from 3(4) [OF 2(6) [OF rep1 [OF r]]] show ?thesis using pauli_twice [OF P(2), of \<psi>] unfolding par by (cases "?flag \<beta>"; cases "c = parity"; cases c) simp_all
  qed
  moreover have "oc_conditional_pauli S p ids parity sim = Some sim3" using 1(1) w(1) 2(1) 3(1) by (simp add: oc_conditional_pauli_def del: if_split)
  moreover have "unrecorded sim sim3" using same_unrecorded [OF same] 2(3) 3(3) by (simp add: unrecorded_def)
  ultimately show ?thesis using 3(2) by blast
qed

section \<open>Measurements with a hint\<close>

lemma oc_hinted_run:
  assumes ok: "oc_ok sim" and p: "sparse_ok S p" "pinv_on (oc_qubit_count sim) (sparse_sem S p)"
    and h: "sparse_ok S hint" "pinv_on (oc_qubit_count sim) (sparse_sem S hint)" "panti (sparse_sem S p) (sparse_sem S hint)"
    and z: "fits (num_qubits (oc_clifford sim)) img" "dense_sem img = cpre (oc_clifford sim) (sparse_sem S hint)" "fst (dense_sem img) = {}"
  shows "\<exists>E sim1 sim2 i k v w sim'. mul_assign_right (sparse_ops S) hint p = Some E \<and>
    oc_pauli_exp S (add_assign_phase_exp (3 - xz_phase_exponent img) E) sim = Some sim1 \<and>
    oc_allocate_branch_bit sim1 = Some (sim2, i, k) \<and> row_sum (oc_sign_matrix sim2) (bo_support dense_ops (pz img)) = Some v \<and>
    blocks_assign_index k True v = Some w \<and> oc_apply_pauli_conditioned_on_branch_bits (sparse_ops S) hint w sim2 = Some sim' \<and>
    oc_measures (sparse_sem S p) sim sim'"
proof -
  let ?C = "oc_clifford sim" and ?n = "num_qubits (oc_clifford sim)" and ?m = "oc_qubit_count sim" and ?N = "oc_branch_bit_count sim"
  let ?P = "sparse_sem S p" and ?T = "sparse_sem S hint" and ?v = "phase_value (xz_phase_exponent img) = 2"
  note k = oc_okD [OF ok]
  have P: "pinv_on ?n ?P" and T: "pinv_on ?n ?T" by (rule pinv_on_mono [OF p(2) k(5)], rule pinv_on_mono [OF h(2) k(5)])
  have anti: "panti ?T ?P" using h(3) by (simp add: panti_sym)
  let ?D = "fst (snd (cpre ?C ?T))"
  have two: "pmul (dense_sem img) (dense_sem img) = pone"
    unfolding z(2) using clifford.pre_pmul [OF pinv_onD(1) [OF T] pinv_onD(1) [OF T]] pinv_onD(3) [OF T] by simp
  have sgn: "snd (snd (dense_sem img)) = sgn_phase ?v" by (rule sign_of_phase [OF two z(3)])
  then have "cpre ?C ?T = ({}, ?D, sgn_phase ?v)" using z(2,3) by (metis prod.collapse)
  note zop = encodes_zops [OF _ pinv_onD(1) [OF T] this]
  let ?w = "\<lambda>\<beta>. par {q \<in> ?D. oc_sign sim \<beta> q}"
  have \<psi>: "pauli_amp ?T \<psi> = scaled (sgn_amp (?v \<noteq> ?w \<beta>)) \<psi>" if "encodes ?C (oc_sign sim \<beta>) \<psi>" for \<beta> \<psi>
    using zop [OF that] by (simp only: phase_amp_sgn sgn_amp_xor)
  obtain E where E: "mul_assign_right (sparse_ops S) hint p = Some E" "sparse_ok S E" "sparse_sem S E = pmul ?P ?T"
    using sparse.mul_right [OF p(1) h(1)] by (auto simp: pcap_def)
  let ?E = "add_assign_phase_exp (3 - xz_phase_exponent img) E"
  have "ph (3 - xz_phase_exponent img) + ph (xz_phase_exponent img) = 3" by (simp flip: ph_add)
  then have phase: "ph (3 - xz_phase_exponent img) = 3 - sgn_phase ?v" using sgn by (simp add: psem_def ph_phase_exponent eq_diff_eq)
  have E': "sparse_ok S ?E" "sparse_sem S ?E = pphase (3 - sgn_phase ?v) (pmul ?P ?T)"
    using E(2,3) by (simp_all add: sparse.phase_exp phase)
  have pinvE: "pinv_on ?m (sparse_sem S ?E)"
    using measured_pinv [OF p(2) h(2) anti] pinv_on_negated [OF measured_pinv [OF p(2) h(2) anti]] unfolding E'(2)
    by (cases ?v) (simp_all add: sgn_phase_def)
  have idle: "oc_ensure_qubit_capacity (projective_max_support (sparse_ops S) (projective ?E)) sim = Some sim"
    by (rule oc_ensure_idle [OF ok sparse.support_above [OF E'(1) pinv_onD(1) [OF pinvE]]])
  have op: "operates ?C ?m (exp_amp (sparse_sem S ?E)) (left_mul_pauli_exp (sparse_ops S) ?E ?C)"
    by (rule sparse.operates_exp [OF k(2) E'(1) pinvE k(5)])
  obtain sim1 where 1: "oc_on_clifford (left_mul_pauli_exp (sparse_ops S) ?E) sim = Some sim1" "oc_ok sim1" "same_branches sim sim1"
      "oc_qubit_count sim1 = ?m" "\<And>\<beta> \<psi> os. oc_represents \<beta> sim (\<psi>, os) \<Longrightarrow> oc_represents \<beta> sim1 (exp_amp (sparse_sem S ?E) \<psi>, os)"
    using oc_on_clifford_run [where f = "left_mul_pauli_exp (sparse_ops S) ?E", OF ok op] by blast
  have run1: "oc_pauli_exp S ?E sim = Some sim1" using idle 1(1) by (simp add: oc_pauli_exp_def)
  note s1 = same_branchesD [OF 1(3)]
  have num1: "num_qubits (oc_clifford sim1) = ?n" using oc_okD(4) [OF 1(2)] k(4) 1(1) by (auto simp: oc_on_clifford_def bind_eq_Some_conv)
  have rep1: "oc_represents \<beta> sim1 (project (?w \<beta>) ?P \<psi>, os)" if r: "oc_represents \<beta> sim (\<psi>, os)" for \<beta> \<psi> os
  proof -
    have e: "encodes ?C (oc_sign sim \<beta>) \<psi>" using r by (simp add: oc_represents_def)
    have "((?v \<noteq> ?w \<beta>) \<noteq> ?v) = ?w \<beta>" by auto
    then have "exp_amp (sparse_sem S ?E) \<psi> = scaled (sqrt 2) (project (?w \<beta>) ?P \<psi>)"
      using hint_projects(2) [OF p(2) h(2) anti \<psi> [OF e], of ?v] unfolding E'(2) by simp
    then show ?thesis using oc_represents_unscaled [of \<beta> sim1 "sqrt 2"] 1(5) [OF r] by simp
  qed
  obtain sim2 where 2: "oc_allocate_branch_bit sim1 = Some (sim2, oc_outcome_count sim1, oc_branch_bit_count sim1)" "oc_ok sim2"
      "appended sim1 sim2 True (\<lambda>\<beta>. \<beta> (oc_branch_bit_count sim1))" "oc_sign sim2 = oc_sign sim1" "oc_clifford sim2 = oc_clifford sim1"
      "oc_qubit_count sim2 = oc_qubit_count sim1" "oc_branch_bit_count sim1 < mat_cols (oc_outcome_matrix sim2)"
      "\<forall>q. \<not> mat_bit (oc_sign_matrix sim2) q (oc_branch_bit_count sim1)"
    using oc_allocate_run [OF 1(2)] by blast
  have app2: "appended sim sim2 True (\<lambda>\<beta>. \<beta> ?N)" using 2(3) s1(3,5,6) by (simp add: appended_def)
  have N2: "oc_branch_bit_count sim2 = Suc ?N" using app2 by (simp add: appended_def)
  have sub: "?D \<subseteq> {..<?n}" using clifford.pre_on [OF pinv_onD(1) [OF T]] by (simp add: pauli_on_def)
  have sub2: "?D \<subseteq> {..<num_qubits (oc_clifford sim2)}" using sub 2(5) num1 by simp
  have Dz: "?D = dense_bits (pz img)" unfolding z(2) [symmetric] by (simp add: psem_def)
  have sup: "bo_support dense_ops (pz img) = sorted_list_of_set ?D"
    using dense.support [of "pz img"] z(1) unfolding Dz by (simp add: fits_def pauli_ok_def)
  obtain v w where w: "row_sum (oc_sign_matrix sim2) (sorted_list_of_set ?D) = Some v" "blocks_assign_index ?N True v = Some w" "blocks_ok w"
      "length w = rowstride (oc_sign_matrix sim2)" "\<And>j. blocks_bit w j \<Longrightarrow> j < oc_branch_bit_count sim2"
      "\<And>\<beta>. xsum (oc_branch_bit_count sim2) (\<lambda>j. blocks_bit w j \<and> \<beta> j) = (?w \<beta> \<noteq> \<beta> ?N)"
    using indicator_run [OF 2(2) N2 _ _ sub2] 2(4,7,8) s1(1,5) by auto
  have T2: "pinv_on (oc_qubit_count sim2) ?T" using h(2) 1(4) 2(6) by simp
  obtain sim' where 3: "oc_apply_pauli_conditioned_on_branch_bits (sparse_ops S) hint w sim2 = Some sim'" "oc_ok sim'" "unrecorded sim2 sim'"
      "\<And>\<beta> \<psi> os. oc_represents \<beta> sim2 (\<psi>, os) \<Longrightarrow> oc_represents \<beta> sim' (if ?w \<beta> \<noteq> \<beta> ?N then pauli_amp ?T \<psi> else \<psi>, os)"
    using conditioned_run [OF 2(2) h(1) T2 w(3,4,5)] unfolding w(6) by blast
  have "oc_represents \<beta> sim' (project (\<beta> ?N) ?P \<psi>, os @ [\<beta> ?N])" if r: "oc_represents \<beta> sim (\<psi>, os)" for \<beta> \<psi> os
  proof -
    have e: "encodes ?C (oc_sign sim \<beta>) \<psi>" and os: "os = oc_outcomes sim \<beta>" using r by (simp_all add: oc_represents_def)
    have "oc_represents \<beta> sim2 (project (?w \<beta>) ?P \<psi>, os @ [\<beta> ?N])"
      using rep1 [OF r] 2(2,4,5) app2 os by (simp add: oc_represents_def appended_def)
    from 3(4) [OF this] have r3: "oc_represents \<beta> sim' (if ?w \<beta> \<noteq> \<beta> ?N then pauli_amp ?T (project (?w \<beta>) ?P \<psi>) else project (?w \<beta>) ?P \<psi>, os @ [\<beta> ?N])" .
    show ?thesis
    proof (cases "?w \<beta> = \<beta> ?N")
      case False
      then have "(\<not> ?w \<beta>) = \<beta> ?N" by blast
      with r3 False have "oc_represents \<beta> sim' (scaled (sgn_amp (?v \<noteq> ?w \<beta>)) (project (\<beta> ?N) ?P \<psi>), os @ [\<beta> ?N])"
        unfolding stabilizer_swaps [OF h(2) pinv_onD(1) [OF p(2)] anti \<psi> [OF e]] by simp
      then show ?thesis by (rule oc_represents_unscaled) (rule phase_amp_nonzero(2))
    qed (use r3 in simp)
  qed
  then have "oc_measures ?P sim sim'" using 3(2) unrecorded_appended [OF app2 3(3)] unfolding oc_measures_def by blast
  then show ?thesis using E(1) run1 2(1) w(1,2) 3(1) sup s1(5) by auto
qed

lemma oc_hint_run:
  assumes ok: "oc_ok sim" and f: "op_fits S k (MeasureWithHint p hint)"
  shows "\<exists>sim'. oc_measure_with_hint S p hint sim = Some (sim', oc_outcome_count sim) \<and> oc_measures (sparse_sem S p) sim sim'"
proof -
  let ?room = "max_pair_support (sparse_ops S) p hint" and ?T = "sparse_sem S hint"
  obtain sim1 where 1: "oc_ensure_qubit_capacity ?room sim = Some sim1" "oc_extends ?room sim sim1" using oc_ensure_run [OF ok] by blast
  have ok1: "oc_ok sim1" and same: "same_branches sim sim1" and rep1: "\<And>\<beta> q. oc_represents \<beta> sim q \<Longrightarrow> oc_represents \<beta> sim1 q"
    and room: "\<And>i. ?room = Some i \<Longrightarrow> i < oc_qubit_count sim1" using 1(2) unfolding oc_extends_def by auto
  note k = oc_okD [OF ok1] and s1 = same_branchesD [OF same]
  let ?C = "oc_clifford sim1" and ?n = "num_qubits (oc_clifford sim1)"
  have lift: "oc_measures Q sim sim'" if "oc_measures Q sim1 sim'" for Q sim'
    using that rep1 s1 unfolding oc_measures_def appended_def by (metis (no_types, lifting))
  have obs: "observable_ok S p" "observable_ok S hint" "panti (sparse_sem S p) ?T" using f by simp_all
  note pi = pair_below [OF obs(1,2) room]
  have sp: "sparse_ok S p" "sparse_ok S hint" using obs by (simp_all add: observable_ok_def)
  have anti: "anti_commutes_with (sparse_ops S) (projective p) (projective hint) = Some True"
    using sparse.anti_commutes [OF sp] obs(3) by (simp add: pcap_def)
  obtain img where img: "clifford_preimage (sparse_ops S) ?C hint = Some img" "fits ?n img" "dense_sem img = cpre ?C ?T"
    using sparse.preimage_run [OF valid_ok [OF k(2)] sp(2)] pinv_onD(1) [OF pinv_on_mono [OF pi(2) k(5)]] by (auto simp: cpre_eq [OF k(2)])
  have sup: "bo_support dense_ops (px img) = [] \<longleftrightarrow> fst (dense_sem img) = {}"
    using dense.support [of "px img"] dense.bset_finite [of "px img"] img(2) by (simp add: psem_def fits_def pauli_ok_def)
  obtain sim' where g: "oc_measure_with_hint_generic S p hint sim1 = Some sim'" "oc_measures (sparse_sem S p) sim1 sim'"
  proof (cases "fst (dense_sem img) = {}")
    case True
    from oc_hinted_run [OF ok1 sp(1) pi(1) sp(2) pi(2) obs(3) img(2,3) True] show thesis
      using that anti img(1) True sup by (auto simp: oc_measure_with_hint_generic_def)
  next
    case False
    from oc_measure_run [OF ok1 obs(1)] show thesis
      using that anti img(1) False sup by (auto simp: oc_measure_with_hint_generic_def)
  qed
  then have "oc_outcome_count sim' = oc_outcome_count sim + 1" using s1(4) by (auto simp: oc_measures_def appended_def oc_outcome_count_def)
  then show ?thesis using 1(1) g lift by (simp add: oc_measure_with_hint_def)
qed

lemma oc_controlled_run:
  assumes ok: "oc_ok sim" and p: "op_fits S k (ControlledPauli p h)"
  shows "\<exists>sim'. oc_controlled_pauli S p h sim = Some sim' \<and> oc_ok sim' \<and> unrecorded sim sim' \<and>
    (\<forall>\<beta> \<psi> os. oc_represents \<beta> sim (\<psi>, os) \<longrightarrow> oc_represents \<beta> sim' (controlled_amp (sparse_sem S p) (sparse_sem S h) \<psi>, os))"
  unfolding oc_controlled_pauli_def
proof (rule oc_grown_run [OF ok])
  have ok: "observable_ok S p" "observable_ok S h" "\<not> panti (sparse_sem S p) (sparse_sem S h)" using p by simp_all
  fix C m
  assume "clifford_valid C" "m \<le> num_qubits C" "\<And>i. max_pair_support (sparse_ops S) p h = Some i \<Longrightarrow> i < m"
  with pair_below [OF ok(1,2)] ok show "operates C m (controlled_amp (sparse_sem S p) (sparse_sem S h)) (left_mul_controlled_pauli (sparse_ops S) p h C)"
    by (intro sparse.operates_controlled) (simp_all add: observable_ok_def pcap_def)
qed

end

lemma oc_unitary_run:
  assumes ok: "oc_ok sim" and f: "op_fits S k (UnitaryOperation op support)"
  shows "\<exists>sim'. oc_unitary_op op support sim = Some sim' \<and> oc_ok sim' \<and> unrecorded sim sim' \<and>
    (\<forall>\<beta> \<psi> os. oc_represents \<beta> sim (\<psi>, os) \<longrightarrow> oc_represents \<beta> sim' (gate_amp op support \<psi>, os))"
  unfolding oc_unitary_op_def
proof (rule oc_grown_run [OF ok operates_gate])
  fix m
  assume "\<And>i. max_support support = Some i \<Longrightarrow> i < m"
  then have "set support \<subseteq> {..<m}" by (intro list_max_bound) (simp add: max_support_def)
  with f show "gate_fits m op support" by (auto simp: gate_fits_def)
qed

lemma oc_permute_run:
  assumes ok: "oc_ok sim" and f: "op_fits S k (PermuteQubits permutation support)"
  shows "\<exists>sim'. oc_permute permutation support sim = Some sim' \<and> oc_ok sim' \<and> unrecorded sim sim' \<and>
    (\<forall>\<beta> \<psi> os. oc_represents \<beta> sim (\<psi>, os) \<longrightarrow> oc_represents \<beta> sim' (permute_amp (moved permutation support) \<psi>, os))"
  unfolding oc_permute_def
proof (rule oc_grown_run [OF ok operates_permute])
  fix m
  assume "\<And>i. max_support support = Some i \<Longrightarrow> i < m"
  then show "set support \<subseteq> {..<m}" by (intro list_max_bound) (simp add: max_support_def)
qed (use f in simp_all)

section \<open>Every step in every branch\<close>

text \<open>One operation: in every branch a step of the machine, and every step of the machine from a branch is the step of a
  branch that differs in the new branch bit only.\<close>

definition branches_step :: "'s sorted_lib \<Rightarrow> 's sim_op \<Rightarrow> outcome_complete \<Rightarrow> outcome_complete \<Rightarrow> bool" where
  "branches_step S op sim sim' \<longleftrightarrow> oc_ok sim' \<and>
     oc_outcome_count sim' = (if records_outcome op then oc_outcome_count sim + 1 else oc_outcome_count sim) \<and>
     (\<forall>\<beta> q. oc_represents \<beta> sim q \<longrightarrow> (\<exists>q'. qstep S op q q' \<and> oc_represents \<beta> sim' q') \<and>
       (\<forall>q'. qstep S op q q' \<longrightarrow> (\<exists>\<gamma>. oc_represents \<gamma> sim' q')))"

lemma branches_step_unrecorded:
  assumes "oc_ok sim'" "unrecorded sim sim'" "\<not> records_outcome op"
    and rep: "\<And>\<beta> \<psi> os. oc_represents \<beta> sim (\<psi>, os) \<Longrightarrow> oc_represents \<beta> sim' (U \<psi> os, os)"
    and step: "\<And>\<psi> os q. qstep S op (\<psi>, os) q \<longleftrightarrow> q = (U \<psi> os, os)"
  shows "branches_step S op sim sim'"
proof -
  have "oc_outcome_count sim' = oc_outcome_count sim" using assms(2) by (simp add: unrecorded_def oc_outcome_count_def)
  then show ?thesis unfolding branches_step_def using assms(1,3) rep step by auto
qed

lemma represents_nonzero: "oc_represents \<beta> sim (\<psi>, os) \<Longrightarrow> \<exists>s. \<psi> s \<noteq> 0"
  using encodesD(1) unfolding oc_represents_def lives_on_def by fastforce

lemma oc_represents_bit: "oc_represents \<beta> sim q \<Longrightarrow> oc_represents (\<beta>(oc_branch_bit_count sim := b)) sim q"
  using branch_cong [of sim \<beta> "\<beta>(oc_branch_bit_count sim := b)"] by simp

lemma project_other: "pauli_amp P \<psi> = scaled (sgn_amp (\<not> b)) \<psi> \<Longrightarrow> project b P \<psi> s = 0"
  by (cases b) (simp_all add: project_def scaled_def sgn_amp_def)

lemma branches_step_measured:
  assumes m: "oc_measures P sim sim'" and "records_outcome op"
    and step: "\<And>\<psi> os q. qstep S op (\<psi>, os) q \<longleftrightarrow> (\<exists>b. q = (project b P \<psi>, os @ [b]) \<and> (\<exists>s. project b P \<psi> s \<noteq> 0))"
  shows "branches_step S op sim sim'"
proof -
  obtain r f where f: "oc_ok sim'" "appended sim sim' r f" "r \<Longrightarrow> f = (\<lambda>\<beta>. \<beta> (oc_branch_bit_count sim))"
      "\<And>\<beta> \<psi> os. oc_represents \<beta> sim (\<psi>, os) \<Longrightarrow> oc_represents \<beta> sim' (project (f \<beta>) P \<psi>, os @ [f \<beta>])"
      "\<And>\<beta> \<psi> os. oc_represents \<beta> sim (\<psi>, os) \<Longrightarrow> \<not> r \<Longrightarrow> pauli_amp P \<psi> = scaled (sgn_amp (f \<beta>)) \<psi>"
    using m unfolding oc_measures_def by blast
  have n: "oc_outcome_count sim' = oc_outcome_count sim + 1" using f(2) by (simp add: appended_def oc_outcome_count_def)
  have "\<exists>q'. qstep S op q q' \<and> oc_represents \<beta> sim' q'" if "oc_represents \<beta> sim q" for \<beta> q
    using f(4) [of \<beta> "fst q" "snd q"] represents_nonzero [OF f(4)] step [of "fst q" "snd q"] that by (metis prod.collapse)
  moreover have "\<exists>\<gamma>. oc_represents \<gamma> sim' q'" if r': "oc_represents \<beta> sim q" and q': "qstep S op q q'" for \<beta> q q'
  proof -
    obtain \<psi> os where q: "q = (\<psi>, os)" by (cases q)
    obtain b s where b: "q' = (project b P \<psi>, os @ [b])" "project b P \<psi> s \<noteq> 0" using q' step unfolding q by blast
    show ?thesis
    proof (cases r)
      case True
      have "oc_represents (\<beta>(oc_branch_bit_count sim := b)) sim (\<psi>, os)" using oc_represents_bit r' q by blast
      from f(4) [OF this] show ?thesis unfolding f(3) [OF True] b(1) by auto
    next
      case False
      have "f \<beta> = b"
      proof (rule ccontr)
        assume "f \<beta> \<noteq> b"
        then have "f \<beta> = (\<not> b)" by blast
        then have "pauli_amp P \<psi> = scaled (sgn_amp (\<not> b)) \<psi>" using f(5) [of \<beta> \<psi> os] r' q False by simp
        from project_other [OF this, of s] b(2) show False by simp
      qed
      with f(4) [of \<beta> \<psi> os] r' q b(1) show ?thesis by blast
    qed
  qed
  ultimately show ?thesis unfolding branches_step_def using f(1) n assms(2) by simp
qed

lemma branches_step_allocated:
  assumes ok: "oc_ok sim"
  shows "\<exists>sim'. oc_step S AllocateRandomBit sim = Some sim' \<and> branches_step S AllocateRandomBit sim sim'"
proof -
  let ?N = "oc_branch_bit_count sim"
  obtain sim' where a: "oc_allocate_branch_bit sim = Some (sim', oc_outcome_count sim, ?N)" "oc_ok sim'"
      "appended sim sim' True (\<lambda>\<beta>. \<beta> ?N)" "oc_sign sim' = oc_sign sim" "oc_clifford sim' = oc_clifford sim"
    using oc_allocate_run [OF ok] by blast
  have rep: "oc_represents \<beta> sim' (\<psi>, os @ [\<beta> ?N])" if "oc_represents \<beta> sim (\<psi>, os)" for \<beta> \<psi> os
    using that a(2-5) by (simp add: oc_represents_def appended_def)
  have n: "oc_outcome_count sim' = oc_outcome_count sim + 1" using a(3) by (simp add: appended_def oc_outcome_count_def)
  have "\<exists>q'. qstep S AllocateRandomBit q q' \<and> oc_represents \<beta> sim' q'" if "oc_represents \<beta> sim q" for \<beta> q
  proof -
    obtain \<psi> os where q: "q = (\<psi>, os)" by (cases q)
    have "qstep S AllocateRandomBit q (\<psi>, os @ [\<beta> ?N])" unfolding q by (rule q_allocate)
    with rep that q show ?thesis by blast
  qed
  moreover have "\<exists>\<gamma>. oc_represents \<gamma> sim' q'" if r: "oc_represents \<beta> sim q" and st: "qstep S AllocateRandomBit q q'" for \<beta> q q'
  proof -
    obtain \<psi> os where q: "q = (\<psi>, os)" by (cases q)
    obtain b where b: "q' = (\<psi>, os @ [b])" using st unfolding q qstep_simps by blast
    have "oc_represents (\<beta>(?N := b)) sim (\<psi>, os)" using oc_represents_bit r q by blast
    from rep [OF this] show ?thesis unfolding b by auto
  qed
  ultimately have "branches_step S AllocateRandomBit sim sim'" unfolding branches_step_def using a(2) n by simp
  with a(1) show ?thesis by simp
qed

lemma oc_step_run:
  assumes S: "sorted_library S" and ok: "oc_ok sim" and f: "op_fits S (oc_outcome_count sim) op"
  shows "\<exists>sim'. oc_step S op sim = Some sim' \<and> branches_step S op sim sim'"
proof (cases op)
  case AllocateRandomBit
  then show ?thesis using branches_step_allocated [OF ok] by simp
next
  case (UnitaryOperation g support)
  from oc_unitary_run [OF ok f [unfolded UnitaryOperation]] show ?thesis
    unfolding UnitaryOperation by (auto intro!: branches_step_unrecorded [where U = "\<lambda>\<psi> os. gate_amp g support \<psi>"] simp: qstep_simps)
next
  case (PermuteQubits permutation support)
  from oc_permute_run [OF ok f [unfolded PermuteQubits]] show ?thesis unfolding PermuteQubits
    by (auto intro!: branches_step_unrecorded [where U = "\<lambda>\<psi> os. permute_amp (moved permutation support) \<psi>"] simp: qstep_simps)
next
  case (ApplyPauli p)
  have "observable_ok S p" using f by (simp add: ApplyPauli)
  from sorted_library.oc_pauli_run(1) [OF S ok this] show ?thesis unfolding ApplyPauli
    by (auto intro!: branches_step_unrecorded [where U = "\<lambda>\<psi> os. pauli_amp (sparse_sem S p) \<psi>"] simp: qstep_simps)
next
  case (PauliExp p)
  have "observable_ok S p" using f by (simp add: PauliExp)
  from sorted_library.oc_pauli_run(2) [OF S ok this] show ?thesis unfolding PauliExp
    by (auto intro!: branches_step_unrecorded [where U = "\<lambda>\<psi> os. exp_amp (sparse_sem S p) \<psi>"] simp: qstep_simps)
next
  case (ControlledPauli p h)
  from sorted_library.oc_controlled_run [OF S ok f [unfolded ControlledPauli]] show ?thesis unfolding ControlledPauli
    by (auto intro!: branches_step_unrecorded [where U = "\<lambda>\<psi> os. controlled_amp (sparse_sem S p) (sparse_sem S h) \<psi>"] simp: qstep_simps)
next
  case (ConditionalPauli p ids parity)
  from sorted_library.oc_conditional_run [OF S ok f [unfolded ConditionalPauli]] show ?thesis unfolding ConditionalPauli
    by (auto intro!: branches_step_unrecorded [where
        U = "\<lambda>\<psi> os. if outcome_parity os ids = parity then pauli_amp (sparse_sem S p) \<psi> else \<psi>"] simp: qstep_simps simp del: if_split)
next
  case (Measure p)
  have "observable_ok S p" using f by (simp add: Measure)
  from sorted_library.oc_measure_run [OF S ok this] obtain sim' where m: "oc_measure S p sim = Some (sim', oc_outcome_count sim)" "oc_measures (sparse_sem S p) sim sim'" by blast
  have "branches_step S (Measure p) sim sim'"
    by (rule branches_step_measured [OF m(2)]) (auto simp only: qstep_simps records_outcome.simps)
  with m(1) show ?thesis by (simp add: Measure)
next
  case (MeasureWithHint p h)
  from sorted_library.oc_hint_run [OF S ok f [unfolded MeasureWithHint]] obtain sim' where m: "oc_measure_with_hint S p h sim = Some (sim', oc_outcome_count sim)" "oc_measures (sparse_sem S p) sim sim'" by blast
  have "branches_step S (MeasureWithHint p h) sim sim'"
    by (rule branches_step_measured [OF m(2)]) (auto simp only: qstep_simps records_outcome.simps)
  with m(1) show ?thesis by (simp add: MeasureWithHint)
qed

definition oc_accepts :: "'s sorted_lib \<Rightarrow> outcome_complete \<Rightarrow> 's sim_op \<Rightarrow> bool" where
  "oc_accepts S sim op \<longleftrightarrow> sorted_library S \<and> op_fits S (oc_outcome_count sim) op"

interpretation oc: branching_simulator S "oc_step S" oc_represents "oc_accepts S" for S
proof
  fix \<beta> :: "nat \<Rightarrow> bool" and sim q and op :: "'a sim_op"
  assume r: "oc_represents \<beta> sim q" and a: "oc_accepts S sim op"
  have "oc_ok sim" using r by (auto simp: oc_represents_def)
  then obtain sim' where 1: "oc_step S op sim = Some sim'" "branches_step S op sim sim'"
    using oc_step_run a unfolding oc_accepts_def by blast
  then show "\<exists>sim' q'. oc_step S op sim = Some sim' \<and> qstep S op q q' \<and> oc_represents \<beta> sim' q'"
    using r unfolding branches_step_def by blast
  show "\<exists>\<gamma>. oc_represents \<gamma> st' q'" if "oc_step S op sim = Some st'" "qstep S op q q'" for st' q'
    using 1 that r unfolding branches_step_def by (metis option.inject)
qed


section \<open>The state encoder\<close>


section \<open>Queries\<close>

lemma affine_eq:
  assumes v: "\<And>j. v j \<Longrightarrow> j < n" and w: "\<And>j. w j \<Longrightarrow> j < n"
  shows "(\<forall>\<beta>. (a \<noteq> xsum n (\<lambda>j. v j \<and> \<beta> j)) = (c \<noteq> xsum n (\<lambda>j. w j \<and> \<beta> j))) \<longleftrightarrow> a = c \<and> v = w"
proof
  assume all: "\<forall>\<beta>. (a \<noteq> xsum n (\<lambda>j. v j \<and> \<beta> j)) = (c \<noteq> xsum n (\<lambda>j. w j \<and> \<beta> j))"
  from all [rule_format, of "\<lambda>_. False"] have ac: "a = c" by simp
  have "v i = w i" for i
    using all [rule_format, of "\<lambda>j. j = i"] ac v [of i] w [of i] unfolding xsum_delta2 by blast
  with ac show "a = c \<and> v = w" by auto
qed simp

text \<open>The branches with a minus sign are those whose assignment has odd parity on the bits of \<open>v\<close>, plus the constant.\<close>

definition sign_indicator :: "outcome_complete \<Rightarrow> pauli_op \<Rightarrow> bool \<Rightarrow> bitblock list \<Rightarrow> bool" where
  "sign_indicator sim P c v \<longleftrightarrow> blocks_ok v \<and> length v = rowstride (oc_sign_matrix sim) \<and> (\<forall>j. blocks_bit v j \<longrightarrow> j < oc_branch_bit_count sim) \<and>
     (\<forall>\<beta> \<psi> os b. oc_represents \<beta> sim (\<psi>, os) \<longrightarrow> (pauli_amp P \<psi> = scaled (sgn_amp b) \<psi> \<longleftrightarrow>
       b = (c \<noteq> xsum (oc_branch_bit_count sim) (\<lambda>j. blocks_bit v j \<and> \<beta> j))))"

lemma phase_even_values: "phase_is_even a \<Longrightarrow> phase_value a = 0 \<longleftrightarrow> phase_value a \<noteq> 2" "phase_is_even a \<Longrightarrow> phase_value a div 2 = 1 \<longleftrightarrow> phase_value a = 2"
proof -
  assume e: "phase_is_even a"
  then have "ph a = 0 \<or> ph a = 2" using phase_is_even_ph [of a] phase_self_inverse [of "ph a"] by simp
  then have "phase_value a = 0 \<or> phase_value a = 2" by (simp add: phase_value_two)
  then show "phase_value a = 0 \<longleftrightarrow> phase_value a \<noteq> 2" "phase_value a div 2 = 1 \<longleftrightarrow> phase_value a = 2" by auto
qed

context sorted_library
begin

lemma oc_preimage_decides:
  assumes ok: "oc_ok sim" and p: "observable_ok S p" "pauli_on (num_qubits (oc_clifford sim)) (sparse_sem S p)"
  obtains (fixed) img v where "clifford_preimage (sparse_ops S) (oc_clifford sim) p = Some img" "bo_is_zero dense_ops (px img)"
    "phase_is_even (xz_phase_exponent img)" "row_sum (oc_sign_matrix sim) (bo_support dense_ops (pz img)) = Some v"
    "sign_indicator sim (sparse_sem S p) (phase_value (xz_phase_exponent img) = 2) v"
  | (changed) img where "clifford_preimage (sparse_ops S) (oc_clifford sim) p = Some img" "\<not> bo_is_zero dense_ops (px img)"
    "\<And>\<beta> \<psi> os b. oc_represents \<beta> sim (\<psi>, os) \<Longrightarrow> pauli_amp (sparse_sem S p) \<psi> \<noteq> scaled (sgn_amp b) \<psi>"
proof -
  let ?C = "oc_clifford sim" and ?n = "num_qubits (oc_clifford sim)" and ?P = "sparse_sem S p"
  note k = oc_okD [OF ok]
  have P: "sparse_ok S p" "pauli_on ?n ?P" "pmul ?P ?P = pone" using p by (simp_all add: observable_ok_def)
  obtain img where img: "clifford_preimage (sparse_ops S) ?C p = Some img" "fits ?n img" "dense_sem img = cpre ?C ?P"
    using sparse.preimage_run [OF valid_ok [OF k(2)] P(1,2)] by (auto simp: cpre_eq [OF k(2)])
  let ?v = "phase_value (xz_phase_exponent img) = 2" and ?D = "fst (snd (dense_sem img))" and ?N = "oc_branch_bit_count sim"
  have zero: "bo_is_zero dense_ops (px img) \<longleftrightarrow> fst (dense_sem img) = {}"
    using dense.is_zero [of "px img"] img(2) by (simp add: psem_def fits_def pauli_ok_def)
  show thesis
  proof (cases "fst (dense_sem img) = {}")
    case True
    have two: "pmul (dense_sem img) (dense_sem img) = pone" unfolding img(3) using clifford.pre_pmul [OF P(2) P(2)] P(3) by simp
    have sub: "?D \<subseteq> {..<?n}" unfolding img(3) using clifford.pre_on [OF P(2)] by (simp add: pauli_on_def)
    have "?D = dense_bits (pz img)" by (simp add: psem_def)
    then have sup: "bo_support dense_ops (pz img) = sorted_list_of_set ?D"
      using dense.support [of "pz img"] img(2) by (simp add: fits_def pauli_ok_def)
    obtain v where v: "row_sum (oc_sign_matrix sim) (sorted_list_of_set ?D) = Some v" "blocks_ok v" "length v = rowstride (oc_sign_matrix sim)"
        "\<And>j. blocks_bit v j \<Longrightarrow> \<exists>q. mat_bit (oc_sign_matrix sim) q j"
        "\<And>\<beta>. xsum ?N (\<lambda>j. blocks_bit v j \<and> \<beta> j) = par {q \<in> ?D. oc_sign sim \<beta> q}"
      using sign_sum_run [OF ok sub] by auto
    have bits: "j < ?N" if "blocks_bit v j" for j using v(4) [OF that] branches_okD(11) [OF k(1)] by blast
    have "pauli_amp ?P \<psi> = scaled (sgn_amp b) \<psi> \<longleftrightarrow> b = (?v \<noteq> xsum ?N (\<lambda>j. blocks_bit v j \<and> \<beta> j))"
      if r: "oc_represents \<beta> sim (\<psi>, os)" for \<beta> \<psi> os b
    proof -
      have e: "encodes ?C (oc_sign sim \<beta>) \<psi>" using r by (simp add: oc_represents_def)
      have "cpre ?C ?P = ({}, ?D, sgn_phase ?v)" using True sign_of_phase(2) [OF two True] img(3) by (metis prod.collapse)
      from encodes_zops [OF e P(2) this] have eig: "pauli_amp ?P \<psi> = scaled (sgn_amp (?v \<noteq> xsum ?N (\<lambda>j. blocks_bit v j \<and> \<beta> j))) \<psi>"
        unfolding v(5) sgn_amp_xor phase_amp_sgn .
      obtain st where "\<psi> st \<noteq> 0" using represents_nonzero [OF r] by blast
      moreover have "sgn_amp x = sgn_amp b \<longleftrightarrow> b = x" for x by (auto simp: sgn_amp_def)
      ultimately show ?thesis unfolding eig using scaled_inject [of \<psi> st] by simp
    qed
    then have "sign_indicator sim ?P ?v v" using v(2,3) bits unfolding sign_indicator_def by blast
    then show thesis using fixed [of img v] img(1) True zero sign_of_phase(1) [OF two True] v(1) sup by simp
  next
    case False
    have "pauli_amp ?P \<psi> \<noteq> scaled (sgn_amp b) \<psi>" if "oc_represents \<beta> sim (\<psi>, os)" for \<beta> \<psi> os b
    proof -
      have e: "encodes ?C (oc_sign sim \<beta>) \<psi>" using that by (simp add: oc_represents_def)
      show ?thesis using encodes_eigen [OF e P(2)] phase_amp_nonzero(2) False unfolding img(3) by blast
    qed
    then show thesis using changed [of img] img(1) False zero by simp
  qed
qed

lemma oc_queries_run:
  assumes r: "\<And>\<beta>. oc_represents \<beta> sim (\<Psi> \<beta>, oc_outcomes sim \<beta>)" and p: "observable_ok S p" "pauli_on (num_qubits (oc_clifford sim)) (sparse_sem S p)"
    and ids: "\<forall>j \<in> set ids. j < oc_outcome_count sim"
  shows "oc_is_stabilizer S p sim = Some (\<forall>\<beta>. pauli_amp (sparse_sem S p) (\<Psi> \<beta>) = \<Psi> \<beta>)"
    "oc_is_stabilizer_up_to_sign S p sim = Some (\<forall>\<beta>. \<exists>v. pauli_amp (sparse_sem S p) (\<Psi> \<beta>) = scaled (sgn_amp v) (\<Psi> \<beta>))"
    "oc_is_stabilizer_with_conditional_sign S p ids sim =
      Some (\<forall>\<beta>. pauli_amp (sparse_sem S p) (\<Psi> \<beta>) = scaled (sgn_amp (outcome_parity (oc_outcomes sim \<beta>) ids)) (\<Psi> \<beta>))"
proof -
  let ?P = "sparse_sem S p" and ?N = "oc_branch_bit_count sim"
  let ?all = "\<lambda>s. \<forall>\<beta>. pauli_amp ?P (\<Psi> \<beta>) = scaled (sgn_amp (s \<beta>)) (\<Psi> \<beta>)"
  have ok: "oc_ok sim" using r by (simp add: oc_represents_def)
  have plus: "scaled (sgn_amp False) \<psi> = \<psi>" for \<psi> by (simp add: scaled_def)
  obtain w c where w: "outcome_parity_new (oc_outcome_matrix sim) (oc_outcome_shift sim) ids = Some (w, c)" "blocks_ok w"
      "length w = rowstride (oc_sign_matrix sim)" "\<And>j. blocks_bit w j \<Longrightarrow> j < ?N"
      "\<And>\<beta>. outcome_parity (oc_outcomes sim \<beta>) ids = (c \<noteq> xsum ?N (\<lambda>j. blocks_bit w j \<and> \<beta> j))"
    using outcome_parity_run [OF ok ids] by auto
  have "oc_is_stabilizer S p sim = Some (?all (\<lambda>_. False)) \<and>
    oc_is_stabilizer_up_to_sign S p sim = Some (\<forall>\<beta>. \<exists>v. pauli_amp ?P (\<Psi> \<beta>) = scaled (sgn_amp v) (\<Psi> \<beta>)) \<and>
    oc_is_stabilizer_with_conditional_sign S p ids sim = Some (?all (\<lambda>\<beta>. outcome_parity (oc_outcomes sim \<beta>) ids))"
    using ok p
  proof (cases rule: oc_preimage_decides)
    case (fixed img v)
    let ?c = "phase_value (xz_phase_exponent img) = 2"
    note d = fixed(5) [unfolded sign_indicator_def]
    have eig: "pauli_amp ?P (\<Psi> \<beta>) = scaled (sgn_amp b) (\<Psi> \<beta>) \<longleftrightarrow> b = (?c \<noteq> xsum ?N (\<lambda>j. blocks_bit v j \<and> \<beta> j))" for \<beta> b
      using d r by blast
    have "?all (\<lambda>_. False) \<longleftrightarrow> (\<forall>\<beta>. (?c \<noteq> xsum ?N (\<lambda>j. blocks_bit v j \<and> \<beta> j)) = (False \<noteq> xsum ?N (\<lambda>j. False \<and> \<beta> j)))" unfolding eig by auto
    also have "\<dots> \<longleftrightarrow> ?c = False \<and> blocks_bit v = (\<lambda>_. False)" by (rule affine_eq) (use d in blast)+
    also have "blocks_bit v = (\<lambda>_. False) \<longleftrightarrow> bo_is_zero dense_ops v" using dense.is_zero [of v] d by (auto simp: fun_eq_iff)
    finally have plain: "?all (\<lambda>_. False) \<longleftrightarrow> \<not> ?c \<and> bo_is_zero dense_ops v" by simp
    have "?all (\<lambda>\<beta>. outcome_parity (oc_outcomes sim \<beta>) ids) \<longleftrightarrow>
        (\<forall>\<beta>. (?c \<noteq> xsum ?N (\<lambda>j. blocks_bit v j \<and> \<beta> j)) = (c \<noteq> xsum ?N (\<lambda>j. blocks_bit w j \<and> \<beta> j)))" unfolding eig w(5) by (rule iff_allI, rule eq_commute)
    also have "\<dots> \<longleftrightarrow> ?c = c \<and> blocks_bit v = blocks_bit w" by (rule affine_eq) (use d w(4) in blast)+
    also have "blocks_bit v = blocks_bit w \<longleftrightarrow> bo_eq dense_ops v w"
      using dense.eq [of v w] d w(2,3) by (auto simp: fun_eq_iff)
    finally have conditional: "?all (\<lambda>\<beta>. outcome_parity (oc_outcomes sim \<beta>) ids) \<longleftrightarrow> ?c = c \<and> bo_eq dense_ops v w" .
    show ?thesis
      unfolding plain conditional using fixed(1-4) w(1) phase_even_values [OF fixed(3)]
      by (auto simp: oc_is_stabilizer_def oc_is_stabilizer_up_to_sign_def oc_is_stabilizer_with_conditional_sign_def eig)
  next
    case (changed img)
    have none: "pauli_amp ?P (\<Psi> \<beta>) \<noteq> scaled (sgn_amp b) (\<Psi> \<beta>)" for \<beta> b by (rule changed(3) [OF r])
    show ?thesis using changed(1,2) none none [where b = False, unfolded plus]
      by (simp add: oc_is_stabilizer_def oc_is_stabilizer_up_to_sign_def oc_is_stabilizer_with_conditional_sign_def)
  qed
  then show "oc_is_stabilizer S p sim = Some (\<forall>\<beta>. pauli_amp (sparse_sem S p) (\<Psi> \<beta>) = \<Psi> \<beta>)"
    "oc_is_stabilizer_up_to_sign S p sim = Some (\<forall>\<beta>. \<exists>v. pauli_amp (sparse_sem S p) (\<Psi> \<beta>) = scaled (sgn_amp v) (\<Psi> \<beta>))"
    "oc_is_stabilizer_with_conditional_sign S p ids sim =
      Some (\<forall>\<beta>. pauli_amp (sparse_sem S p) (\<Psi> \<beta>) = scaled (sgn_amp (outcome_parity (oc_outcomes sim \<beta>) ids)) (\<Psi> \<beta>))"
    unfolding plus by blast+
qed

end

lemma projected_eigen: "pinv_on n P \<Longrightarrow> pauli_amp P (project b P \<psi>) = scaled (sgn_amp b) (project b P \<psi>)"
  using pauli_amp_sum [of P "1 / 2" \<psi> "sgn_amp b / 2" "pauli_amp P \<psi>"] pauli_twice [of n P \<psi>]
  by (simp add: project_def scaled_def fun_eq_iff add_divide_distrib add.commute distrib_left)

section \<open>Properties\<close>



text \<open>C40. The queries decide about all branches at once: \<open>is_stabilizer\<close> whether the operator fixes the state of every
  branch, \<open>is_stabilizer_up_to_sign\<close> whether it or its negative does in each, and
  \<open>is_stabilizer_with_conditional_sign\<close> whether in every branch it does with the sign of the parity of the listed
  outcomes of that branch.\<close>

theorem branch_queries_decide:
  assumes "sorted_library S" "\<And>\<beta>. oc_represents \<beta> sim (\<Psi> \<beta>, oc_outcomes sim \<beta>)" "observable_ok S p"
    "pauli_on (num_qubits (oc_clifford sim)) (sparse_sem S p)" "\<forall>j \<in> set ids. j < oc_outcome_count sim"
  shows "oc_is_stabilizer S p sim = Some (\<forall>\<beta>. pauli_amp (sparse_sem S p) (\<Psi> \<beta>) = \<Psi> \<beta>) \<and>
    oc_is_stabilizer_up_to_sign S p sim = Some (\<forall>\<beta>. \<exists>v. pauli_amp (sparse_sem S p) (\<Psi> \<beta>) = scaled (sgn_amp v) (\<Psi> \<beta>)) \<and>
    oc_is_stabilizer_with_conditional_sign S p ids sim =
      Some (\<forall>\<beta>. pauli_amp (sparse_sem S p) (\<Psi> \<beta>) = scaled (sgn_amp (outcome_parity (oc_outcomes sim \<beta>) ids)) (\<Psi> \<beta>))"
  using sorted_library.oc_queries_run [OF assms] by blast

theorem branch_queries_decide_witness:
  "\<exists>sim0 sim. oc_with_capacity 1 0 0 = Some sim0 \<and> oc_step list_sets (Measure (pauli_from_bits [0] [] 0)) sim0 = Some sim \<and>
    oc_is_stabilizer list_sets (pauli_from_bits [0] [] 0) sim = Some False \<and>
    oc_is_stabilizer_with_conditional_sign list_sets (pauli_from_bits [0] [] 0) [0] sim = Some True"
proof -
  let ?p = "pauli_from_bits [0] [] 0 :: nat list pauli_unitary" and ?P = "({0}, {}, 0) :: pauli_op"
  have "max 0 512 = (2 :: nat) ^ 9" by simp
  from oc_new_run [OF this, of 0 1] obtain sim0 where 0: "oc_with_capacity 1 0 0 = Some sim0" "oc_qubit_count sim0 = 1" "oc_outcome_count sim0 = 0"
      "\<And>\<beta>. oc_represents \<beta> sim0 (zero_state, [])" by auto
  have obs: "observable_ok list_sets ?p" and sem: "sparse_sem list_sets ?p = ?P" by (simp_all add: list_sets_observable list_sets_sem)
  have acc: "oc_accepts list_sets sim0 (Measure ?p)" using obs 0(3) list_sets.sorted_library_axioms by (simp add: oc_accepts_def)
  have P: "pinv_on 1 ?P" by (simp add: pinv_on_def pauli_on_def pmul_def pone_def)
  have step: "qstep list_sets (Measure ?p) (zero_state, []) q \<longleftrightarrow>
      (\<exists>b. q = (project b ?P zero_state, [b]) \<and> (\<exists>s. project b ?P zero_state s \<noteq> 0))" for q
    unfolding qstep_simps sem by auto
  obtain sim where sim: "oc_step list_sets (Measure ?p) sim0 = Some sim"
    using oc.branch_refines [OF 0(4) acc] by blast
  have "\<exists>b. oc_represents \<beta> sim (project b ?P zero_state, [b])" for \<beta>
    using oc.branch_refines [OF 0(4) acc, of \<beta>] sim unfolding step by auto
  then obtain f where f: "\<And>\<beta>. oc_represents \<beta> sim (project (f \<beta>) ?P zero_state, [f \<beta>])" by metis
  then have out: "oc_outcomes sim \<beta> = [f \<beta>]" for \<beta> by (simp add: oc_represents_def)
  have half: "project True ?P zero_state {} = 1 / 2" "project (f \<beta>) ?P zero_state {0} \<noteq> 0" for \<beta>
    by (simp_all add: project_def zero_state_def pauli_amp_def phase_amp_nonzero(2))
  have "project True ?P zero_state {} \<noteq> 0" unfolding half by simp
  then have "qstep list_sets (Measure ?p) (zero_state, []) (project True ?P zero_state, [True])"
    unfolding step by blast
  from oc.branch_complete [OF 0(4) acc sim this] obtain \<gamma> where "oc_represents \<gamma> sim (project True ?P zero_state, [True])" by blast
  then have \<gamma>: "f \<gamma>" using out by (simp add: oc_represents_def)
  have minus: "pauli_amp ?P (project True ?P zero_state) \<noteq> project True ?P zero_state"
    using half unfolding projected_eigen [OF P] by (auto simp: scaled_def fun_eq_iff intro!: exI [of _ "{}"])
  have ok: "oc_ok sim" using f by (simp add: oc_represents_def)
  have "encodes (oc_clifford sim) (oc_sign sim \<gamma>) (project (f \<gamma>) ?P zero_state)" using f [of \<gamma>] by (simp add: oc_represents_def)
  from encodesD(1) [OF this] half(2) [of \<gamma>] have "{0} \<subseteq> {..<num_qubits (oc_clifford sim)}" unfolding lives_on_def by blast
  then have on: "pauli_on (num_qubits (oc_clifford sim)) (sparse_sem list_sets ?p)" by (simp add: sem pauli_on_def)
  have "oc_outcome_count sim = 1" using out by (metis outcomes_length length_Cons list.size(3) One_nat_def)
  then have "\<forall>j \<in> set [0]. j < oc_outcome_count sim" by simp
  from branch_queries_decide [OF list_sets.sorted_library_axioms _ obs on this, where \<Psi> = "\<lambda>\<beta>. project (f \<beta>) ?P zero_state"] f out \<gamma> minus
  show ?thesis using 0(1) sim by (auto simp: sem projected_eigen [OF P] outcome_parity_def intro!: exI [of _ \<gamma>])
qed

end
