(* ===== verification/Spec2Isabelle.thy ===== *)
theory Spec2Isabelle
  imports Packed_Bits Union_Find_Forest Linear_Systems Transpose Tiny_Matrix Pauli_Spaces Symbolic_Flips Relative_Program Specific_Laws Complete_Laws
begin

text \<open>
  \<^bold>\<open>The program.\<close>  The repository is a toolbox for quantum error correction in Rust.  Its computational core is
  four layers, which are modelled here, and the services around them.

  \<^item> \<open>binar\<close> (\<open>binar/src\<close>): bit vectors and bit matrices over GF(2), packed in 512-bit blocks, with Gaussian
    elimination and everything that is computed from it.
  \<^item> \<open>paulimer\<close> (\<open>paulimer/src\<close>): Pauli operators with exact phases, stored as two bit vectors and an exponent
    of \<open>i\<close>, sets of such operators, and Clifford unitaries, stored as a bit matrix of the preimages of the
    one-qubit generators with one phase exponent for each.
  \<^item> \<open>pauliverse\<close> (\<open>pauliverse/src\<close>): stabilizer simulators, which keep the state of a quantum register as the Clifford
    unitary that prepares it and record the outcomes of measurements, either those that happened or all at once.
  \<^item> the decoding runtime (\<open>deq/deq_runtime/src/misc\<close>): packed bit vectors in a protobuf message, a
    union-find forest, the graph of gadgets whose Pauli frames are updated when a decoder delivers or revises a
    correction, the symbolic version of the same graph, and the renaming of relative programs.

  \<^bold>\<open>Reading the model.\<close>  Definitions have the names of the Rust functions, with a suffix or prefix where two
  types share a method.  \<open>None\<close> of an outer \<open>option\<close> is a Rust panic, a failed \<open>debug_assert!\<close>, an arithmetic
  overflow, undefined behaviour of an unchecked access, or a run that does not return; an inner sum or
  option is the \<open>Result\<close> or \<open>Option\<close> of the source.  So \<open>f x = Some y\<close> says that the call returns and gives \<open>y\<close>.
  \<open>u64\<close> and \<open>u8\<close> are words of that width, \<open>usize\<close> is \<open>nat\<close> with the overflows that matter written out.
  A method with \<open>&mut self\<close> returns the new value; a mutable view is read, changed and written back, and two
  views of the same qubit are a failure.  A hash map is a finite map and a loop over one takes the order of its
  keys as an argument.  The trait a generic function is generic over is a record of its methods (\<open>bits_ops\<close>,
  \<open>node_ops\<close>), as is a third-party crate (\<open>sorted_lib\<close>); what the client relies on is a locale over the record
  and every locale is interpreted on the code's own implementations.

  \<^bold>\<open>Theories, bottom up.\<close>

  \<^item> \<open>Prelude\<close>: failure, checked access and loops whose body may fail, with the rule \<open>ofold_inv\<close>.
  \<^item> \<open>Bit_Store\<close>, \<open>Bitwise\<close>: the contract of a container of bits, and the traits of \<open>binar/src/bit\<close> bottom up:
    unsigned integers, slices, arrays and default methods.  The locale \<open>bitwise_block\<close> says what a block
    provides, and its sublocales carry it to slices and arrays of blocks.
  \<^item> \<open>Aligned_Bits\<close>, \<open>Aligned_Vec\<close>: \<open>bit/bitblock.rs\<close>, \<open>vec/aligned_vec.rs\<close>, \<open>vec/bitvec.rs\<close>.
  \<^item> \<open>Index_Set\<close>: \<open>vec/index_set.rs\<close>, the sparse bit vectors, over the crates \<open>sorted_vec\<close> and
    \<open>sorted_iter\<close>, whose documented behaviour is the locale \<open>sorted_library\<close>.
  \<^item> \<open>Gf2\<close>, \<open>Rref_Spaces\<close>: the mathematics the matrices are compared with: sums and products over GF(2), row spaces,
    kernels, and what a reduced row echelon form says about them.
  \<^item> \<open>Matrix_Store\<close>, \<open>Aligned_Matrix\<close>, \<open>Matrix_Ops\<close>, \<open>Echelon\<close>, \<open>Linear_Systems\<close>: \<open>matrix/aligned_bitmatrix.rs\<close>,
    \<open>matrix/column.rs\<close> and \<open>matrix/bitmatrix.rs\<close>.  A matrix is a buffer of blocks and a vector of the positions
    of its rows in the buffer, because a row swap of the code swaps the pointers of two rows.
  \<^item> \<open>Transpose\<close>, \<open>Tiny_Matrix\<close>: \<open>matrix/transpose_kernel.rs\<close> bit for bit, \<open>matrix/tiny_matrix.rs\<close>.
  \<^item> \<open>Pauli_Bits\<close>, \<open>Pauli\<close>, \<open>Pauli_Core\<close>, \<open>Pauli_Strings\<close>, \<open>Pauli_Conversions\<close>, \<open>Pauli_Spaces\<close>: \<open>paulimer/src/pauli.rs\<close>,
    \<open>pauli/*.rs\<close>, \<open>core.rs\<close>, \<open>setwise.rs\<close>.  \<open>pauli_bits\<close> is the interface of the X and Z parts; it is
    interpreted on the dense and on the sparse storage, and everything above it is proved for both at once.
  \<^item> \<open>Symplectic\<close>, \<open>Clifford_State\<close>, \<open>Clifford_Gates\<close>, \<open>Clifford_Ops\<close>, \<open>Clifford_Products\<close>: \<open>clifford.rs\<close>,
    \<open>clifford/clifford_impl.rs\<close>, \<open>clifford/generic_algos.rs\<close>.  \<open>Symplectic\<close> is the abstract side: a frame of \<open>2 n\<close>
    operators with the commutation relations of the generators (the locale \<open>symplectic_frame\<close>) gives a map on
    operators that keeps products and has an inverse.  The other four are the storage, the gates, the
    \<open>Clifford\<close> trait, and left multiplication by operators, exponentials, controlled operators, permutations
    and other unitaries.
  \<^item> \<open>Gate_Semantics\<close>: operators on state vectors, which give every computational basis state an amplitude; the
    textbook definition of every gate, and that the conjugation each stands for determines its preimages.
  \<^item> \<open>Clifford_Composite\<close>, \<open>Clifford_Embedding\<close>, \<open>Clifford_Laws\<close>: the gate lists of \<open>operations.rs\<close>, powers, Bell
    states, tensor products, resizing, unitaries on some of the qubits; and the laws of the whole component.
  \<^item> \<open>Stabilizer_States\<close>, \<open>Random_Outcome\<close>, \<open>Simulation_Interface\<close>: what it means that a tableau with signs encodes a state
    vector, the shared functions of \<open>outcome_free_simulation.rs\<close>, and the trait \<open>Simulation\<close> of \<open>pauliverse/src/lib.rs\<close>: its
    operations as a datatype, the quantum machine they run on as a step relation, and the contracts
    \<open>stabilizer_simulator\<close> and \<open>branching_simulator\<close> as locales.
  \<^item> \<open>Outcome_Specific\<close>, \<open>Specific_Laws\<close>: \<open>outcome_specific_simulation.rs\<close>, with any source of bits.
  \<^item> \<open>Outcome_Complete\<close>, \<open>Complete_Branches\<close>, \<open>Complete_Laws\<close>: \<open>outcome_complete_simulation.rs\<close>; its methods, the meaning of
    its matrices (an assignment of the branch bits selects the signs and the outcomes of a branch), and the laws.
  \<^item> \<open>Packed_Bits\<close>: \<open>misc/bit_vector.rs\<close>, with the length checks of \<open>misc/validation.rs\<close>.
  \<^item> \<open>Union_Find_Forest\<close>: \<open>misc/union_find.rs\<close>.
  \<^item> \<open>Bit_Matrix_Messages\<close>, \<open>Pauli_Frame\<close>: the messages of \<open>proto/\<close> the tracker reads, \<open>misc/bit_matrix.rs\<close>, and
    \<open>misc/pauli_frame_tracker.rs\<close>.
  \<^item> \<open>Symbolic_Frame\<close>, \<open>Symbolic_Flips\<close>: \<open>misc/pauli_frame_symbolic_propagator.rs\<close> and its relation to the tracker.
  \<^item> \<open>Relative_Program\<close>: \<open>misc/relative_program.rs\<close>.

  \<^bold>\<open>What is shown.\<close>

  \<^item> Linear algebra: echelonization returns on every matrix, gives the reduced echelon form of the same row space and
    the transformation to it; the two solvers find a solution exactly when there is one (the transposed one on matrices
    whose padding is clear); the kernel basis is a basis; transposition transposes, with every access in bounds.
  \<^item> Operators: products act on the amplitudes of states as the composition of the factors, in both storages;
    the tests of the code decide what they are named after; printed operators parse back; completions and comparisons
    of generating sets are right.
  \<^item> Clifford unitaries: a circuit of gates, run on the tableau, refines the operator the circuit denotes: the
    preimage of every Pauli operator, phase included, is its conjugate.  Every gate keeps the representation valid;
    images undo preimages; products, inverses, tensor products, resizing and unitaries on some of the qubits do
    what they say; exponentials and controlled operators act as the operators they are named after.
  \<^item> Simulators: both are refinements of the quantum machine; the outcome-complete one also misses no run of it.
    Measurements project with the right probabilities, and the queries decide what fixes the state.
  \<^item> Decoding runtime: after a correction is loaded the frames satisfy the defining equations of the whole graph,
    wherever the propagation went, and it returns on every acyclic graph; committed decodings are reported
    once; the symbolic expressions predict exactly which frames change, in the whole graph and in a window of it; relative programs are renamings; the
    union-find maintains the equivalence it is asked for.

  \<^bold>\<open>Bounds and termination.\<close>  There is no fuel.  A loop that is not obviously finite is either a \<open>function\<close> with a
  measure (\<open>word_support\<close>, \<open>drain_bits\<close>, \<open>from_words\<close>, \<open>column_support_from\<close>: fewer set bits or blocks in each
  round) or a \<open>partial_function\<close> whose value is proved to be \<open>Some\<close> under the stated invariant: \<open>find_walk\<close> on acyclic
  parent pointers, \<open>propagate_from\<close> on acyclic gadget graphs, \<open>components_loop\<close> and \<open>causal_loop\<close> on well-formed
  propagators, \<open>pivot_loop\<close> and \<open>reduce_backward_until\<close> always.

  \<^bold>\<open>Not modelled.\<close>  The services of the runtime (coordinators, controllers, decoders and the just-in-time engine) are
  asynchronous tasks over gRPC and dynamic libraries; \<open>deq_decoder_abi\<close> and every \<open>bindings\<close> directory is a foreign
  interface; \<open>qodec\<close> and \<open>deqagram\<close> read model files and diagrams.  Of \<open>binar\<close>, random matrices, the
  product of \<open>m4ri.rs\<close>, \<open>affine_map.rs\<close> and the borrowed views are left out; of \<open>paulimer\<close>, Pauli groups, the
  Clifford type without phases, printing and parsing of Clifford unitaries, the splitting of encoders and the
  random generators; of \<open>pauliverse\<close>, the outcome-free simulator, which needs that type, circuits, noise, the faulty
  simulator and sampling.  Serialization, hashing and the conversions between owned and
  borrowed forms of the same data are left out throughout.
\<close>

end
